(* ===== verification/Prelude.thy ===== *)
theory Prelude
  imports Main "HOL-Library.Word"
begin

text \<open>
  Prelude of the development: the size_t arithmetic of the wasm32 target, the result type of the
  library's calls, errno values, C strings, and the list operations the components share.

  \<^item> size_t, uintptr_t and ssize_t are 32 bits wide (wasm32).  A value of type size_t is a \<open>nat\<close>
    below \<open>2 ^ 32\<close>; every addition, subtraction and multiplication of the C code is written
    \<open>szadd\<close>, \<open>szsub\<close>, \<open>szmul\<close>, which wrap around as the C operators do.
  \<^item> A failing call that returns -1 and sets errno is \<open>Inl e\<close> of \<open>errno + 'a\<close>.
  \<^item> A C string is the \<open>char list\<close> of its bytes before the terminating NUL.  A pointer into a
    string is the suffix it points at, so \<open>*p\<close> is NUL exactly when the suffix is empty.
\<close>

named_theorems size_simps \<open>arithmetic of size_t when nothing wraps\<close>
named_theorems table_simps \<open>insertion into and removal from arrays kept as lists\<close>

section \<open>size_t\<close>

unbundle bit_operations_syntax

abbreviation size_mod :: nat where "size_mod \<equiv> 4294967296"

definition szadd :: "nat \<Rightarrow> nat \<Rightarrow> nat" where
  "szadd a b = (a + b) mod size_mod"

definition szsub :: "nat \<Rightarrow> nat \<Rightarrow> nat" where
  "szsub a b = (a + (size_mod - b mod size_mod)) mod size_mod"

definition szmul :: "nat \<Rightarrow> nat \<Rightarrow> nat" where
  "szmul a b = (a * b) mod size_mod"

lemma szadd_small [size_simps]: "a + b < size_mod \<Longrightarrow> szadd a b = a + b"
  by (simp add: szadd_def)

lemma szsub_small [size_simps]: "b \<le> a \<Longrightarrow> a < size_mod \<Longrightarrow> szsub a b = a - b"
proof -
  assume a: "b \<le> a" "a < size_mod"
  then have "a + (size_mod - b) = (a - b) + size_mod" by simp
  then have "(a + (size_mod - b)) mod size_mod = (a - b) mod size_mod"
    by (metis mod_add_self2)
  with a show ?thesis by (simp add: szsub_def)
qed

lemma szmul_small [size_simps]: "a * b < size_mod \<Longrightarrow> szmul a b = a * b"
  by (simp add: szmul_def)

lemma szadd_bound: "szadd a b < size_mod"
  by (simp add: szadd_def)

lemma szsub_bound: "szsub a b < size_mod"
  by (simp add: szsub_def)

section \<open>Bits\<close>

lemma or_low:
  fixes m x :: nat
  assumes "x < 2 ^ k"
  shows "(m * 2 ^ k) OR x = m * 2 ^ k + x"
proof -
  have "\<not> bit x n" if "k \<le> n" for n
    using assms that by (metis bit_take_bit_iff linorder_not_less take_bit_nat_eq_self_iff)
  then have "push_bit k m AND x = 0" by (auto simp: bit_eq_iff bit_simps)
  then have "push_bit k m + x = push_bit k m OR x" by (rule disjunctive_add_eq_or)
  then show ?thesis by (simp add: push_bit_eq_mult)
qed

lemma low6 [simp]: "x AND 0x3f = x mod 64" for x :: nat
proof -
  have "x AND mask 6 = x mod 2 ^ 6" by (simp only: take_bit_eq_mod flip: take_bit_eq_mask)
  then show ?thesis by (simp add: mask_eq_exp_minus_1)
qed

section \<open>errno\<close>

type_synonym errno = nat

abbreviation EAGAIN :: errno where "EAGAIN \<equiv> 6"
abbreviation EBADF :: errno where "EBADF \<equiv> 8"
abbreviation EEXIST :: errno where "EEXIST \<equiv> 20"
abbreviation EILSEQ :: errno where "EILSEQ \<equiv> 25"
abbreviation EBUSY :: errno where "EBUSY \<equiv> 10"
abbreviation EINTR :: errno where "EINTR \<equiv> 27"
abbreviation EINVAL :: errno where "EINVAL \<equiv> 28"
abbreviation EISDIR :: errno where "EISDIR \<equiv> 31"
abbreviation ENOENT :: errno where "ENOENT \<equiv> 44"
abbreviation ENOMEM :: errno where "ENOMEM \<equiv> 48"
abbreviation ENOPROTOOPT :: errno where "ENOPROTOOPT \<equiv> 50"
abbreviation ENOSYS :: errno where "ENOSYS \<equiv> 52"
abbreviation ENOTDIR :: errno where "ENOTDIR \<equiv> 54"
abbreviation ENOTSOCK :: errno where "ENOTSOCK \<equiv> 57"
abbreviation ENOTSUP :: errno where "ENOTSUP \<equiv> 58"
abbreviation EOVERFLOW :: errno where "EOVERFLOW \<equiv> 61"
abbreviation EPIPE :: errno where "EPIPE \<equiv> 64"
abbreviation ERANGE :: errno where "ERANGE \<equiv> 68"
abbreviation ETIMEDOUT :: errno where "ETIMEDOUT \<equiv> 73"

section \<open>Arrays kept as lists\<close>

text \<open>
  An array \<open>a[0..n)\<close> with its element count \<open>n\<close> is a list.  Inserting at \<open>i\<close> moves the
  elements from \<open>i\<close> on one place up (the memmove of the C code); removing moves them down.
\<close>

definition list_insert_at :: "nat \<Rightarrow> 'a \<Rightarrow> 'a list \<Rightarrow> 'a list" where
  "list_insert_at i x xs = take i xs @ x # drop i xs"

definition list_remove_at :: "nat \<Rightarrow> 'a list \<Rightarrow> 'a list" where
  "list_remove_at i xs = take i xs @ drop (Suc i) xs"

lemma length_list_insert_at [table_simps]: "length (list_insert_at i x xs) = Suc (length xs)"
  by (simp add: list_insert_at_def)

lemma length_list_remove_at [table_simps]:
  "i < length xs \<Longrightarrow> length (list_remove_at i xs) = length xs - 1"
  by (simp add: list_remove_at_def)

lemma list_insert_at_append [table_simps]:
  "length ps = i \<Longrightarrow> list_insert_at i x (ps @ xs) = ps @ x # xs"
  by (simp add: list_insert_at_def)

lemma list_insert_at_append_Suc [table_simps]:
  "length ps = i \<Longrightarrow> list_insert_at (Suc i) x (ps @ y # xs) = ps @ y # x # xs"
  by (simp add: list_insert_at_def)

lemma list_insert_at_append_Suc2 [table_simps]:
  "length ps = i \<Longrightarrow> list_insert_at (Suc (Suc i)) x (ps @ y # z # xs) = ps @ y # z # x # xs"
  by (simp add: list_insert_at_def)

lemma list_remove_at_append [table_simps]:
  "length ps = i \<Longrightarrow> list_remove_at i (ps @ x # xs) = ps @ xs"
  by (simp add: list_remove_at_def)

lemma list_remove_at_append_Suc [table_simps]:
  "length ps = i \<Longrightarrow> list_remove_at (Suc i) (ps @ y # x # xs) = ps @ y # xs"
  by (simp add: list_remove_at_def)

lemma nth_append_at [table_simps]: "length ps = i \<Longrightarrow> (ps @ x # xs) ! i = x"
  by (auto simp: nth_append)

lemma update_append_at [table_simps]: "length ps = i \<Longrightarrow> (ps @ x # xs)[i := y] = ps @ y # xs"
  by (auto simp: list_update_append)

section \<open>Options and sums\<close>

fun inr_or :: "'e + 'a \<Rightarrow> 'a \<Rightarrow> 'a" where
  "inr_or (Inl e) d = d"
| "inr_or (Inr x) d = x"

lemma bind_eq_Some [simp]: "(Option.bind m f = Some y) = (\<exists>x. m = Some x \<and> f x = Some y)"
  by (cases m) auto

section \<open>C strings\<close>

type_synonym cstring = "char list"

abbreviation slash :: char where "slash \<equiv> CHR ''/''"
abbreviation dot :: char where "dot \<equiv> CHR ''.''"

text \<open>\<open>cstring_ok s\<close>: the bytes of a C string hold no NUL.\<close>

definition cstring_ok :: "cstring \<Rightarrow> bool" where
  "cstring_ok s \<longleftrightarrow> CHR 0x00 \<notin> set s"

lemma cstring_ok_append [simp]: "cstring_ok (s @ t) \<longleftrightarrow> cstring_ok s \<and> cstring_ok t"
  by (auto simp: cstring_ok_def)

end
