(* ===== verification/Linear_Memory.thy ===== *)
theory Linear_Memory
  imports Prelude
begin

text \<open>
  Linear memory and sbrk (libc-bottom-half/sources/sbrk.c).

  The memory of a wasm32 module is a number of pages of 64 KiB and the bytes in them.  The
  instruction memory.grow either fails, returning -1 (SIZE_MAX), or appends pages and returns the
  old number of pages; the embedder may refuse any growth, and the size never passes \<open>2 ^ 16\<close>
  pages.  Its refusal is a parameter (\<open>grow\<close>), threaded through a state of the host.
\<close>

abbreviation PAGE :: nat where "PAGE \<equiv> 65536"
abbreviation SIZE_MAX :: nat where "SIZE_MAX \<equiv> 4294967295"
abbreviation max_pages :: nat where "max_pages \<equiv> 65536"

type_synonym byte = "8 word"
type_synonym memory = "nat \<Rightarrow> byte"
type_synonym 'h grow = "nat \<Rightarrow> 'h \<Rightarrow> bool \<times> 'h"

definition memory_grow :: "'h grow \<Rightarrow> nat \<Rightarrow> nat \<Rightarrow> 'h \<Rightarrow> nat \<times> nat \<times> 'h" where
  "memory_grow grow n pages h =
     (case grow n h of (ok, h') \<Rightarrow>
        if ok \<and> pages + n \<le> max_pages then (pages, pages + n, h') else (SIZE_MAX, pages, h'))"

text \<open>The conversion of a size_t to intptr_t, two's complement.\<close>

definition to_intptr :: "nat \<Rightarrow> int" where
  "to_intptr n = (if n < 2147483648 then int n else int n - 4294967296)"

datatype sbrk_result = Sbrk_ok nat | Sbrk_enomem | Sbrk_abort

definition sbrk :: "'h grow \<Rightarrow> int \<Rightarrow> nat \<Rightarrow> 'h \<Rightarrow> sbrk_result \<times> nat \<times> 'h" where
  "sbrk grow increment pages h =
     (if increment = 0 then (Sbrk_ok (szmul pages PAGE), pages, h)
      else if increment mod int PAGE \<noteq> 0 then (Sbrk_abort, pages, h)
      else if increment < 0 then (Sbrk_abort, pages, h)
      else case memory_grow grow (nat increment div PAGE) pages h of
        (old, pages', h') \<Rightarrow>
          if old = SIZE_MAX then (Sbrk_enomem, pages', h')
          else (Sbrk_ok (szmul old PAGE), pages', h'))"

section \<open>Bytes\<close>

definition mem_zero :: "nat \<Rightarrow> nat \<Rightarrow> memory \<Rightarrow> memory" where
  "mem_zero a n m = (\<lambda>x. if a \<le> x \<and> x < a + n then 0 else m x)"

definition mem_write :: "nat \<Rightarrow> byte list \<Rightarrow> memory \<Rightarrow> memory" where
  "mem_write a bs m = (\<lambda>x. if a \<le> x \<and> x < a + length bs then bs ! (x - a) else m x)"

definition mem_read :: "nat \<Rightarrow> nat \<Rightarrow> memory \<Rightarrow> byte list" where
  "mem_read a n m = map m [a..<a + n]"

lemma mem_write_outside: "x < a \<or> a + length bs \<le> x \<Longrightarrow> mem_write a bs m x = m x"
  by (auto simp: mem_write_def)

lemma mem_zero_outside: "x < a \<or> a + n \<le> x \<Longrightarrow> mem_zero a n m x = m x"
  by (auto simp: mem_zero_def)

lemma mem_read_write: "mem_read a (length bs) (mem_write a bs m) = bs"
  by (rule nth_equalityI) (auto simp: mem_read_def mem_write_def)

section \<open>What sbrk promises\<close>

lemma memory_grow_cases:
  assumes "memory_grow grow n pages h = (old, pages', h')"
  obtains "old = pages" "pages' = pages + n" "pages + n \<le> max_pages"
    | "old = SIZE_MAX" "pages' = pages"
proof -
  obtain ok h2 where g: "grow n h = (ok, h2)" by (cases "grow n h")
  show thesis
  proof (cases "ok \<and> pages + n \<le> max_pages")
    case True
    with assms g that(1) show thesis by (simp add: memory_grow_def)
  next
    case False
    with assms g that(2) show thesis by (simp only: memory_grow_def prod.case if_False prod.inject)
  qed
qed

text \<open>
  A growth by a positive multiple of the page size, below 2 GiB, never aborts: it hands out the
  pages above the old memory size, or reports ENOMEM and leaves the size alone.
\<close>

lemma sbrk_grow:
  assumes "0 < n" "n mod PAGE = 0" "n < 2147483648" "pages \<le> max_pages"
    and "sbrk grow (to_intptr n) pages h = (r, pages', h')"
  shows "(r = Sbrk_ok (pages * PAGE) \<and> pages' = pages + n div PAGE \<and> pages' \<le> max_pages) \<or>
         (r = Sbrk_enomem \<and> pages' = pages)"
proof -
  have i: "to_intptr n = int n" using assms(3) by (simp add: to_intptr_def)
  have m: "int n mod int PAGE = 0"
    using assms(2) by (simp only: of_nat_mod[symmetric] of_nat_0)
  have d: "0 < n div 65536"
    using assms(1,2) by (metis add.right_neutral div_mult_mod_eq gr0I mult_0)
  obtain old p' h2 where g: "memory_grow grow (n div 65536) pages h = (old, p', h2)"
    by (metis prod_cases3)
  have res: "(r, pages', h') = (if old = SIZE_MAX then (Sbrk_enomem, p', h2)
                                 else (Sbrk_ok (szmul old PAGE), p', h2))"
    using assms(1,5) g m by (simp add: sbrk_def i)
  from g show ?thesis
  proof (cases rule: memory_grow_cases)
    case 1
    then have "old * PAGE < size_mod" using d by simp
    then show ?thesis using 1 d res by (auto simp: size_simps split: if_splits)
  next
    case 2
    then show ?thesis using res by auto
  qed
qed

lemma sbrk_aborts_above_2GiB:
  "2147483648 \<le> n \<Longrightarrow> n < size_mod \<Longrightarrow> sbrk grow (to_intptr n) pages h = (Sbrk_abort, pages, h)"
proof -
  assume n: "2147483648 \<le> n" "n < size_mod"
  define i where "i = to_intptr n"
  have "int n < 4294967296" using n(2) by linarith
  then have "i < 0" using n(1) by (simp only: i_def to_intptr_def not_less[symmetric] if_False)
  then have "sbrk grow i pages h = (Sbrk_abort, pages, h)"
    unfolding sbrk_def by simp
  then show ?thesis by (simp only: i_def)
qed

end
