(* ===== verification/Mman_Table.thy ===== *)
theory Mman_Table
  imports Linear_Memory
begin

text \<open>
  The region table of the userspace mmap emulation (libc-bottom-half/mman/mman.c): the region
  record, page rounding, the binary search first_overlap, and the well-formedness of a table.
  The array regs[0..nregs) is the list of its regions; insert_at and remove_at are
  \<open>list_insert_at\<close> and \<open>list_remove_at\<close> of the prelude.
\<close>

section \<open>Data\<close>

datatype rkind = R_FREE | R_ANON | R_FILE

text \<open>A pointer to a struct file_ref is the address of the object, \<open>None\<close> for NULL.\<close>

record file_ref =
  fr_fd :: int
  fr_refs :: nat

record region =
  r_base :: nat
  r_len :: nat
  r_kind :: rkind
  r_dirty :: bool
  r_prot :: "32 word"
  r_flags :: "32 word"
  r_fref :: "nat option"
  r_off :: int
  r_data_len :: nat

abbreviation PROT_WRITE :: "32 word" where "PROT_WRITE \<equiv> 2"

definition r_end :: "region \<Rightarrow> nat" where
  "r_end r = szadd (r_base r) (r_len r)"

section \<open>Page rounding\<close>

definition page_ceil :: "nat \<Rightarrow> nat" where
  "page_ceil n = unat ((of_nat n + of_nat PAGE - 1 :: 32 word) AND NOT (of_nat PAGE - 1))"

definition page_offset :: "nat \<Rightarrow> nat" where
  "page_offset a = unat ((of_nat a :: 32 word) AND (of_nat PAGE - 1))"

lemma page_mask: "(65535 :: 32 word) = mask 16"
  by (simp add: mask_eq_exp_minus_1)

lemma unat_and_mask16: "a < size_mod \<Longrightarrow> unat ((of_nat a :: 32 word) AND mask 16) = a mod PAGE"
proof -
  assume a: "a < size_mod"
  have "unat ((of_nat a :: 32 word) AND mask 16) = take_bit 16 (unat (of_nat a :: 32 word))"
    by (simp add: take_bit_eq_mask [symmetric] unsigned_take_bit_eq)
  also have "unat (of_nat a :: 32 word) = a"
    using a by (simp add: unat_of_nat)
  finally show ?thesis by (simp add: take_bit_eq_mod)
qed

lemma page_offset_eq: "a < size_mod \<Longrightarrow> page_offset a = a mod PAGE"
  using unat_and_mask16 [of a] by (simp add: page_offset_def page_mask)

lemma unat_and_not_mask16:
  assumes "a < size_mod"
  shows "unat ((of_nat a :: 32 word) AND NOT (mask 16)) = a - a mod PAGE"
proof -
  let ?w = "of_nat a :: 32 word"
  have "?w - (?w AND mask 16) = ?w AND NOT (?w AND mask 16)"
    by (rule disjunctive_diff) (simp add: bit_simps)
  also have "\<dots> = ?w AND NOT (mask 16)"
    by (rule bit_word_eqI) (auto simp: bit_simps)
  finally have "?w AND NOT (mask 16) = ?w - (?w AND mask 16)" by simp
  moreover have "?w AND mask 16 \<le> ?w"
    using unat_and_mask16 [OF assms] assms by (simp add: word_le_nat_alt unat_of_nat)
  ultimately show ?thesis
    using unat_and_mask16 [OF assms] assms by (simp add: unat_sub unat_of_nat)
qed

lemma page_ceil_eq:
  assumes "n < size_mod"
  shows "page_ceil n = (let m = (n + 65535) mod size_mod in m - m mod PAGE)"
proof -
  have "(of_nat n + of_nat PAGE - 1 :: 32 word) = of_nat ((n + 65535) mod size_mod)"
  proof -
    have "(of_nat n + of_nat PAGE - 1 :: 32 word) = of_nat (n + 65535)" by simp
    also have "\<dots> = of_nat ((n + 65535) mod size_mod)"
      unfolding word_of_nat_eq_iff by (simp add: take_bit_eq_mod)
    finally show ?thesis .
  qed
  then show ?thesis
    using unat_and_not_mask16 [of "(n + 65535) mod size_mod"]
    by (simp add: page_ceil_def page_mask Let_def)
qed

lemma page_ceil_small:
  assumes "0 < n" "n \<le> 4294901760"
  shows "n \<le> page_ceil n" "page_ceil n mod PAGE = 0" "page_ceil n < n + PAGE"
    "page_ceil n < size_mod" "0 < page_ceil n"
proof -
  have eq: "page_ceil n = (n + 65535) - (n + 65535) mod PAGE"
    using assms by (simp add: page_ceil_eq Let_def)
  define q where "q = (n + 65535) div PAGE"
  have q: "page_ceil n = q * PAGE" "n + 65535 = q * PAGE + (n + 65535) mod PAGE"
    unfolding eq q_def by (simp_all add: minus_mod_eq_div_mult)
  have r: "(n + 65535) mod PAGE < PAGE" by simp
  show "n \<le> page_ceil n" "page_ceil n < n + PAGE" using q r by linarith+
  show "page_ceil n mod PAGE = 0" by (simp add: q(1))
  show "page_ceil n < size_mod" using q r assms(2) by linarith
  show "0 < page_ceil n" using \<open>n \<le> page_ceil n\<close> assms(1) by linarith
qed

text \<open>Above that, page_ceil wraps to zero, which its callers test for (\<open>len < length\<close>).\<close>

lemma page_ceil_wraps:
  assumes "4294901760 < n" "n < size_mod"
  shows "page_ceil n = 0"
proof -
  have "(n + 65535) mod size_mod = n - 4294901761"
  proof -
    have "n + 65535 = (n - 4294901761) + size_mod" using assms by linarith
    then have "(n + 65535) mod size_mod = (n - 4294901761) mod size_mod" by (metis mod_add_self2)
    then show ?thesis using assms by simp
  qed
  moreover have "(n - 4294901761) mod PAGE = n - 4294901761" using assms by simp
  ultimately show ?thesis using assms by (simp add: page_ceil_eq Let_def)
qed

section \<open>Well-formed tables\<close>

text \<open>
  A region is whole pages, inside the address space; a free one is dirty and holds no file; only
  a writable file mapping holds a file reference; the bytes backed by the file lie inside it.
\<close>

definition region_ok :: "region \<Rightarrow> bool" where
  "region_ok r \<longleftrightarrow>
     0 < r_len r \<and> r_base r mod PAGE = 0 \<and> r_len r mod PAGE = 0 \<and>
     r_base r + r_len r < size_mod \<and>
     (r_kind r = R_FREE \<longrightarrow> r_dirty r) \<and>
     (r_fref r \<noteq> None \<longrightarrow> r_kind r = R_FILE \<and> r_prot r AND PROT_WRITE \<noteq> 0) \<and>
     (r_kind r = R_FILE \<longrightarrow> r_data_len r \<le> r_len r)"

fun table_sorted :: "region list \<Rightarrow> bool" where
  "table_sorted [] = True"
| "table_sorted (r # rs) = ((\<forall>q \<in> set rs. r_base r + r_len r \<le> r_base q) \<and> table_sorted rs)"

definition table_ok :: "region list \<Rightarrow> bool" where
  "table_ok rs \<longleftrightarrow> (\<forall>r \<in> set rs. region_ok r) \<and> table_sorted rs"

lemma r_end_eq: "region_ok r \<Longrightarrow> r_end r = r_base r + r_len r"
  by (simp add: region_ok_def r_end_def size_simps)

lemma table_sorted_append:
  "table_sorted (xs @ ys) \<longleftrightarrow> table_sorted xs \<and> table_sorted ys \<and>
     (\<forall>x \<in> set xs. \<forall>y \<in> set ys. r_base x + r_len x \<le> r_base y)"
  by (induction xs) auto

lemma table_ok_append:
  "table_ok (xs @ ys) \<longleftrightarrow> table_ok xs \<and> table_ok ys \<and>
     (\<forall>x \<in> set xs. \<forall>y \<in> set ys. r_base x + r_len x \<le> r_base y)"
  by (auto simp: table_ok_def table_sorted_append)

lemma table_ok_Cons:
  "table_ok (r # rs) \<longleftrightarrow> region_ok r \<and> table_ok rs \<and>
     (\<forall>q \<in> set rs. r_base r + r_len r \<le> r_base q)"
  by (auto simp: table_ok_def)

lemma table_ok_Nil [simp]: "table_ok []"
  by (simp add: table_ok_def)

lemma region_ok_pos: "region_ok r \<Longrightarrow> 0 < r_len r"
  by (simp add: region_ok_def)

section \<open>first_overlap\<close>

text \<open>The index of the first region whose end is above addr, by binary search.\<close>

function first_overlap_loop :: "region list \<Rightarrow> nat \<Rightarrow> nat \<Rightarrow> nat \<Rightarrow> nat" where
  "first_overlap_loop rs addr lo hi =
     (if lo < hi then
        let mid = lo + (hi - lo) div 2 in
        if r_end (rs ! mid) \<le> addr then first_overlap_loop rs addr (mid + 1) hi
        else first_overlap_loop rs addr lo mid
      else lo)"
  by pat_completeness auto
termination
  by (relation "measure (\<lambda>(rs, addr, lo, hi). hi - lo)") auto

declare first_overlap_loop.simps [simp del]

definition first_overlap :: "region list \<Rightarrow> nat \<Rightarrow> nat" where
  "first_overlap rs addr = first_overlap_loop rs addr 0 (length rs)"

text \<open>Ends grow with the index in a well-formed table.\<close>

lemma table_end_mono:
  assumes "table_ok rs" "i < j" "j < length rs"
  shows "r_end (rs ! i) \<le> r_base (rs ! j) \<and> r_end (rs ! i) < r_end (rs ! j)"
proof -
  have "rs = take j rs @ rs ! j # drop (Suc j) rs"
    using assms by (simp add: id_take_nth_drop)
  then have "table_ok (take j rs @ rs ! j # drop (Suc j) rs)" using assms(1) by simp
  moreover have "rs ! i \<in> set (take j rs)" using assms by (auto simp: in_set_conv_nth)
  ultimately have "r_base (rs ! i) + r_len (rs ! i) \<le> r_base (rs ! j)"
    unfolding table_ok_append by simp
  moreover have "region_ok (rs ! i)" and j: "region_ok (rs ! j)"
    using assms by (simp_all add: table_ok_def)
  ultimately show ?thesis using region_ok_pos [OF j] by (simp add: r_end_eq)
qed

definition overlap_split :: "region list \<Rightarrow> nat \<Rightarrow> nat \<Rightarrow> bool" where
  "overlap_split rs addr k \<longleftrightarrow> k \<le> length rs \<and>
     (\<forall>i < k. r_end (rs ! i) \<le> addr) \<and> (\<forall>i. k \<le> i \<longrightarrow> i < length rs \<longrightarrow> addr < r_end (rs ! i))"

lemma first_overlap_loop_split:
  assumes "table_ok rs" "lo \<le> hi" "hi \<le> length rs"
    and "\<forall>i < lo. r_end (rs ! i) \<le> addr"
    and "\<forall>i. hi \<le> i \<longrightarrow> i < length rs \<longrightarrow> addr < r_end (rs ! i)"
  shows "overlap_split rs addr (first_overlap_loop rs addr lo hi)"
  using assms
proof (induction rs addr lo hi rule: first_overlap_loop.induct)
  case (1 rs addr lo hi)
  define mid where "mid = lo + (hi - lo) div 2"
  show ?case
  proof (cases "lo < hi")
    case True
    then have mid: "lo \<le> mid" "mid < hi" by (auto simp: mid_def)
    show ?thesis
    proof (cases "r_end (rs ! mid) \<le> addr")
      case le: True
      have "\<forall>i < mid + 1. r_end (rs ! i) \<le> addr"
      proof (intro allI impI)
        fix i assume "i < mid + 1"
        then consider "i < mid" | "i = mid" by linarith
        then show "r_end (rs ! i) \<le> addr"
          using le table_end_mono [OF 1(3), of i mid] mid 1(5) by cases auto
      qed
      with 1 True le mid show ?thesis
        by (simp add: first_overlap_loop.simps [of rs addr lo hi] mid_def [symmetric])
    next
      case gt: False
      have "\<forall>i. mid \<le> i \<longrightarrow> i < length rs \<longrightarrow> addr < r_end (rs ! i)"
      proof (intro allI impI)
        fix i assume i: "mid \<le> i" "i < length rs"
        then consider "mid < i" | "i = mid" by linarith
        then show "addr < r_end (rs ! i)"
          using gt table_end_mono [OF 1(3), of mid i] i by cases auto
      qed
      with 1 True gt mid show ?thesis
        by (simp add: first_overlap_loop.simps [of rs addr lo hi] mid_def [symmetric])
    qed
  next
    case False
    then have "first_overlap_loop rs addr lo hi = lo"
      by (simp add: first_overlap_loop.simps [of rs addr lo hi])
    with 1 False show ?thesis by (simp add: overlap_split_def)
  qed
qed

lemma first_overlap_split: "table_ok rs \<Longrightarrow> overlap_split rs addr (first_overlap rs addr)"
  unfolding first_overlap_def by (rule first_overlap_loop_split) auto

text \<open>
  The split as two lists: the regions that end at or below addr, and those that reach above it.
\<close>

lemma first_overlap_lists:
  assumes "table_ok rs"
  obtains ps qs where "rs = ps @ qs" "length ps = first_overlap rs addr"
    "\<forall>p \<in> set ps. r_base p + r_len p \<le> addr" "\<forall>q \<in> set qs. addr < r_base q + r_len q"
proof -
  let ?k = "first_overlap rs addr"
  have k: "overlap_split rs addr ?k" by (rule first_overlap_split [OF assms])
  have ok: "\<And>i. i < length rs \<Longrightarrow> r_end (rs ! i) = r_base (rs ! i) + r_len (rs ! i)"
    using assms by (simp add: table_ok_def r_end_eq)
  show thesis
  proof (rule that [of "take ?k rs" "drop ?k rs"])
    show "length (take ?k rs) = ?k" using k by (simp add: overlap_split_def)
    show "\<forall>p \<in> set (take ?k rs). r_base p + r_len p \<le> addr"
      using k ok by (fastforce simp: overlap_split_def in_set_conv_nth)
    show "\<forall>q \<in> set (drop ?k rs). addr < r_base q + r_len q"
    proof
      fix q assume "q \<in> set (drop ?k rs)"
      then obtain j where j: "j < length rs - ?k" "q = rs ! (?k + j)"
        by (auto simp: in_set_conv_nth)
      then have "addr < r_end q" using k by (simp add: overlap_split_def)
      with j show "addr < r_base q + r_len q" using ok [of "?k + j"] by simp
    qed
  qed simp
qed

section \<open>The address-space view of a table\<close>

text \<open>
  What a table says of one address: the attributes of the live mapping that holds it, with the
  file offset of that very byte and whether the file backs it.  This is the abstract state of the
  component, on which mmap and munmap are specified.
\<close>

record page_view =
  v_kind :: rkind
  v_prot :: "32 word"
  v_flags :: "32 word"
  v_fref :: "nat option"
  v_off :: int
  v_backed :: bool

definition in_region :: "nat \<Rightarrow> region \<Rightarrow> bool" where
  "in_region a r \<longleftrightarrow> r_base r \<le> a \<and> a < r_base r + r_len r"

definition region_view :: "nat \<Rightarrow> region \<Rightarrow> page_view option" where
  "region_view a r =
     (if r_kind r = R_FREE \<or> \<not> in_region a r then None
      else Some \<lparr>v_kind = r_kind r, v_prot = r_prot r, v_flags = r_flags r, v_fref = r_fref r,
        v_off = (if r_kind r = R_FILE then r_off r + (int a - int (r_base r)) else 0),
        v_backed = (r_kind r = R_FILE \<and> a - r_base r < r_data_len r)\<rparr>)"

fun live_at :: "region list \<Rightarrow> nat \<Rightarrow> page_view option" where
  "live_at [] a = None"
| "live_at (r # rs) a = (case region_view a r of Some v \<Rightarrow> Some v | None \<Rightarrow> live_at rs a)"

text \<open>The pages the component owns, free or live.\<close>

definition owned :: "region list \<Rightarrow> nat set" where
  "owned rs = (\<Union>r \<in> set rs. {r_base r ..< r_base r + r_len r})"

lemma live_at_append:
  "live_at (xs @ ys) a = (case live_at xs a of Some v \<Rightarrow> Some v | None \<Rightarrow> live_at ys a)"
  by (induction xs) (auto split: option.splits)

lemma live_at_None: "live_at rs a = None \<longleftrightarrow> (\<forall>r \<in> set rs. region_view a r = None)"
  by (induction rs) (auto split: option.splits)

lemma owned_simps [simp]:
  "owned [] = {}"
  "owned (r # rs) = {r_base r ..< r_base r + r_len r} \<union> owned rs"
  "owned (xs @ ys) = owned xs \<union> owned ys"
  by (auto simp: owned_def)

lemma live_at_owned: "live_at rs a = Some v \<Longrightarrow> a \<in> owned rs"
  by (induction rs) (auto simp: region_view_def in_region_def split: option.splits if_splits)

end
