(* ===== verification/Mman_Unmap.thy ===== *)
theory Mman_Unmap
  imports Mman_Table "HOL-Library.Monad_Syntax"
begin

text \<open>
  Unmapping (libc-bottom-half/mman/mman.c): fref_release, writeback, coalesce_around and
  unmap_range.

  The host operations the component calls (memory.grow behind sbrk, realloc and malloc, pread,
  pwrite, dup, close) are the fields of \<open>mman_host\<close>, functions that thread a state of the host.
  A result \<open>None\<close> of an operation means that it does not return within its fuel (the host keeps
  answering EINTR, or keeps writing nothing), or that it follows a NULL or dangling file_ref
  pointer; the invariant below excludes the latter.
\<close>

section \<open>State and host\<close>

record 'h mman_host =
  mh_alloc :: "nat \<Rightarrow> 'h \<Rightarrow> bool \<times> 'h"
  mh_malloc :: "nat \<Rightarrow> 'h \<Rightarrow> nat option \<times> 'h"
  mh_grow :: "nat \<Rightarrow> 'h \<Rightarrow> bool \<times> 'h"
  mh_pread :: "int \<Rightarrow> nat \<Rightarrow> int \<Rightarrow> 'h \<Rightarrow> (errno + byte list) \<times> 'h"
  mh_pwrite :: "int \<Rightarrow> byte list \<Rightarrow> int \<Rightarrow> 'h \<Rightarrow> (errno + nat) \<times> 'h"
  mh_dup :: "int \<Rightarrow> 'h \<Rightarrow> (errno + int) \<times> 'h"
  mh_close :: "int \<Rightarrow> 'h \<Rightarrow> 'h"

type_synonym frefs = "nat \<rightharpoonup> file_ref"

section \<open>File references\<close>

definition fref_release ::
  "'h mman_host \<Rightarrow> nat option \<Rightarrow> frefs \<Rightarrow> 'h \<Rightarrow> (frefs \<times> 'h) option" where
  "fref_release H p fr h =
     (case p of None \<Rightarrow> Some (fr, h)
      | Some a \<Rightarrow>
          (case fr a of None \<Rightarrow> None
           | Some f \<Rightarrow>
               (let n = szsub (fr_refs f) 1 in
                if n = 0 then Some (fr(a := None), mh_close H (fr_fd f) h)
                else Some (fr(a \<mapsto> f\<lparr>fr_refs := n\<rparr>), h))))"

definition fref_retain :: "nat option \<Rightarrow> frefs \<Rightarrow> frefs option" where
  "fref_retain p fr =
     (case p of None \<Rightarrow> Some fr
      | Some a \<Rightarrow>
          (case fr a of None \<Rightarrow> None
           | Some f \<Rightarrow> Some (fr(a \<mapsto> f\<lparr>fr_refs := szadd (fr_refs f) 1\<rparr>))))"

section \<open>Writing back\<close>

fun writeback_loop :: "nat \<Rightarrow> 'h mman_host \<Rightarrow> int \<Rightarrow> memory \<Rightarrow> nat \<Rightarrow> nat \<Rightarrow> int \<Rightarrow> 'h \<Rightarrow>
    ((errno + unit) \<times> 'h) option" where
  "writeback_loop 0 H fd m body remaining off h =
     (if remaining > 0 then None else Some (Inr (), h))"
| "writeback_loop (Suc fuel) H fd m body remaining off h =
     (if remaining > 0 then
        (case mh_pwrite H fd (mem_read body remaining m) off h of
           (Inl e, h') \<Rightarrow>
             if e = EINTR then writeback_loop fuel H fd m body remaining off h'
             else Some (Inl e, h')
         | (Inr n, h') \<Rightarrow>
             writeback_loop fuel H fd m (szadd body n) (szsub remaining n) (off + int n) h')
      else Some (Inr (), h))"

definition writeback :: "nat \<Rightarrow> 'h mman_host \<Rightarrow> frefs \<Rightarrow> memory \<Rightarrow> region \<Rightarrow> nat \<Rightarrow> nat \<Rightarrow> 'h \<Rightarrow>
    ((errno + unit) \<times> 'h) option" where
  "writeback fuel H fr m r start stop h =
     (let backed_end = szadd (r_base r) (r_data_len r);
          end' = (if stop > backed_end then backed_end else stop) in
      if start \<ge> end' then Some (Inr (), h)
      else do {
        p \<leftarrow> r_fref r;
        f \<leftarrow> fr p;
        writeback_loop fuel H (fr_fd f) m start (szsub end' start)
          (r_off r + int (szsub start (r_base r))) h })"

section \<open>Coalescing\<close>

function coalesce_loop :: "region list \<Rightarrow> nat \<Rightarrow> nat \<Rightarrow> region list" where
  "coalesce_loop rs i stop =
     (if i + 1 < length rs \<and> r_base (rs ! i) \<le> stop then
        let r = rs ! i; q = rs ! (i + 1) in
        if r_kind r = R_FREE \<and> r_kind q = R_FREE \<and> r_end r = r_base q then
          coalesce_loop
            (list_remove_at (i + 1)
              (rs[i := r\<lparr>r_len := szadd (r_len r) (r_len q), r_dirty := r_dirty r \<or> r_dirty q\<rparr>]))
            i stop
        else coalesce_loop rs (i + 1) stop
      else rs)"
  by pat_completeness auto
termination
  by (relation "measure (\<lambda>(rs, i, e). length rs - i)") (auto simp: length_list_remove_at)

declare coalesce_loop.simps [simp del]

definition coalesce_around :: "region list \<Rightarrow> nat \<Rightarrow> nat \<Rightarrow> region list" where
  "coalesce_around rs start stop =
     (let i = first_overlap rs start in coalesce_loop rs (if i > 0 then i - 1 else i) stop)"

section \<open>unmap_range\<close>

text \<open>The part of a live region at and above \<open>cut_at\<close>, as the code builds it.\<close>

definition tail_region :: "region \<Rightarrow> nat \<Rightarrow> nat \<Rightarrow> region" where
  "tail_region r oend rend =
     (let t = r\<lparr>r_base := oend, r_len := szsub rend oend\<rparr>; cut = szsub oend (r_base r) in
      if r_kind r = R_FILE then
        t\<lparr>r_off := r_off r + int cut,
          r_data_len := (if r_data_len r > cut then szsub (r_data_len r) cut else 0)\<rparr>
      else t)"

definition head_region :: "region \<Rightarrow> nat \<Rightarrow> region" where
  "head_region r ostart =
     (let n = szsub ostart (r_base r) in
      if r_kind r = R_FILE \<and> r_data_len r > n then r\<lparr>r_len := n, r_data_len := n\<rparr>
      else r\<lparr>r_len := n\<rparr>)"

definition freed_region :: "nat \<Rightarrow> nat \<Rightarrow> region" where
  "freed_region b n = \<lparr>r_base = b, r_len = n, r_kind = R_FREE, r_dirty = True, r_prot = 0,
     r_flags = 0, r_fref = None, r_off = 0, r_data_len = 0\<rparr>"

definition mark_free :: "region \<Rightarrow> region" where
  "mark_free r = r\<lparr>r_kind := R_FREE, r_dirty := True, r_fref := None\<rparr>"

text \<open>One iteration of the loop, at the region of index \<open>i\<close>.\<close>

definition unmap_at :: "nat \<Rightarrow> 'h mman_host \<Rightarrow> memory \<Rightarrow> nat \<Rightarrow> nat \<Rightarrow> nat \<Rightarrow> region list \<Rightarrow> frefs \<Rightarrow>
    'h \<Rightarrow> (nat \<times> region list \<times> frefs \<times> 'h) option" where
  "unmap_at fuel H m start stop i rs fr h =
     (let r = rs ! i in
      if r_kind r = R_FREE then Some (i + 1, rs, fr, h)
      else
        let rbase = r_base r; rend = r_end r;
            ostart = (if rbase > start then rbase else start);
            oend = (if rend < stop then rend else stop) in
        do {
          h \<leftarrow> (if r_kind r = R_FILE \<and> r_fref r \<noteq> None \<and> r_prot r AND PROT_WRITE \<noteq> 0
                then map_option snd (writeback fuel H fr m r ostart oend h) else Some h);
          if ostart = rbase \<and> oend = rend then do {
            (fr, h) \<leftarrow> (if r_kind r = R_FILE then fref_release H (r_fref r) fr h else Some (fr, h));
            Some (i + 1, rs[i := mark_free r], fr, h) }
          else if ostart = rbase then
            Some (i + 2,
              list_insert_at (i + 1) (tail_region r oend rend)
                (rs[i := mark_free (r\<lparr>r_len := szsub oend rbase\<rparr>)]), fr, h)
          else if oend = rend then
            Some (i + 2,
              list_insert_at (i + 1) (freed_region ostart (szsub rend ostart))
                (rs[i := head_region r ostart]), fr, h)
          else do {
            fr \<leftarrow> (if r_kind r = R_FILE then fref_retain (r_fref r) fr else Some fr);
            Some (i + 3,
              list_insert_at (i + 2) (tail_region r oend rend)
                (list_insert_at (i + 1) (freed_region ostart (szsub oend ostart))
                  (rs[i := head_region r ostart])), fr, h) } })"

lemma unmap_at_progress:
  assumes "unmap_at fuel H m start stop i rs fr h = Some (i', rs', fr', h')" "i < length rs"
  shows "length rs' - i' < length rs - i"
  using assms
  by (auto simp: unmap_at_def Let_def length_list_insert_at split: if_splits)

function unmap_loop :: "nat \<Rightarrow> 'h mman_host \<Rightarrow> memory \<Rightarrow> nat \<Rightarrow> nat \<Rightarrow> nat \<Rightarrow> region list \<Rightarrow> frefs \<Rightarrow>
    'h \<Rightarrow> (region list \<times> frefs \<times> 'h) option" where
  "unmap_loop fuel H m start stop i rs fr h =
     (if i < length rs \<and> r_base (rs ! i) < stop then
        (case unmap_at fuel H m start stop i rs fr h of
           None \<Rightarrow> None
         | Some (i', rs', fr', h') \<Rightarrow> unmap_loop fuel H m start stop i' rs' fr' h')
      else Some (rs, fr, h))"
  by pat_completeness auto
termination
  by (relation "measure (\<lambda>(fuel, H, m, s, e, i, rs, fr, h). length rs - i)")
    (auto dest: unmap_at_progress)

declare unmap_loop.simps [simp del]

definition unmap_range :: "nat \<Rightarrow> 'h mman_host \<Rightarrow> memory \<Rightarrow> nat \<Rightarrow> nat \<Rightarrow> region list \<Rightarrow> frefs \<Rightarrow> 'h \<Rightarrow>
    (region list \<times> frefs \<times> 'h) option" where
  "unmap_range fuel H m start stop rs fr h = do {
     (rs', fr', h') \<leftarrow> unmap_loop fuel H m start stop (first_overlap rs start) rs fr h;
     Some (coalesce_around rs' start stop, fr', h') }"

end
