(* ===== verification/Mman_Unmap_Laws.thy ===== *)
theory Mman_Unmap_Laws
  imports Mman_Unmap
begin

text \<open>
  What unmap_range does to a table, to its address-space view and to the file references: the
  index loop equals a region-by-region split, from which the properties follow by list induction.
\<close>

section \<open>The split of one region\<close>

definition unmap_split :: "nat \<Rightarrow> nat \<Rightarrow> region \<Rightarrow> region list" where
  "unmap_split s e r =
     (let rend = r_base r + r_len r in
      if r_kind r = R_FREE \<or> rend \<le> s \<or> e \<le> r_base r then [r]
      else if s \<le> r_base r \<and> rend \<le> e then [mark_free r]
      else if s \<le> r_base r then [mark_free (r\<lparr>r_len := e - r_base r\<rparr>), tail_region r e rend]
      else if rend \<le> e then [head_region r s, freed_region s (rend - s)]
      else [head_region r s, freed_region s (e - s), tail_region r e rend])"

lemma unmap_split_free: "r_kind r = R_FREE \<Longrightarrow> unmap_split s e r = [r]"
  by (simp add: unmap_split_def)

lemma unmap_split_apart:
  "r_base r + r_len r \<le> s \<or> e \<le> r_base r \<Longrightarrow> unmap_split s e r = [r]"
  by (auto simp: unmap_split_def Let_def)

text \<open>An interval of whole pages inside the address space.\<close>

definition page_range :: "nat \<Rightarrow> nat \<Rightarrow> bool" where
  "page_range s e \<longleftrightarrow> s < e \<and> s mod PAGE = 0 \<and> e mod PAGE = 0 \<and> e < size_mod"

lemma head_region_fields:
  assumes "region_ok r" "r_base r < s" "s < r_base r + r_len r"
  shows "r_base (head_region r s) = r_base r" "r_len (head_region r s) = s - r_base r"
    "r_kind (head_region r s) = r_kind r" "r_prot (head_region r s) = r_prot r"
    "r_flags (head_region r s) = r_flags r" "r_fref (head_region r s) = r_fref r"
    "r_off (head_region r s) = r_off r" "r_dirty (head_region r s) = r_dirty r"
    "r_kind r = R_FILE \<Longrightarrow> r_data_len (head_region r s) = min (r_data_len r) (s - r_base r)"
proof -
  have "szsub s (r_base r) = s - r_base r"
    using assms by (simp add: region_ok_def size_simps)
  then show "r_base (head_region r s) = r_base r" "r_len (head_region r s) = s - r_base r"
    "r_kind (head_region r s) = r_kind r" "r_prot (head_region r s) = r_prot r"
    "r_flags (head_region r s) = r_flags r" "r_fref (head_region r s) = r_fref r"
    "r_off (head_region r s) = r_off r" "r_dirty (head_region r s) = r_dirty r"
    "r_kind r = R_FILE \<Longrightarrow> r_data_len (head_region r s) = min (r_data_len r) (s - r_base r)"
    by (auto simp: head_region_def Let_def)
qed

lemma tail_region_fields:
  assumes "region_ok r" "r_base r < e" "e < r_base r + r_len r"
  defines "t \<equiv> tail_region r e (r_base r + r_len r)"
  shows "r_base t = e" "r_len t = r_base r + r_len r - e"
    "r_kind t = r_kind r" "r_prot t = r_prot r" "r_flags t = r_flags r" "r_fref t = r_fref r"
    "r_dirty t = r_dirty r"
    "r_kind r = R_FILE \<Longrightarrow> r_off t = r_off r + int (e - r_base r)"
    "r_kind r = R_FILE \<Longrightarrow> r_data_len t = r_data_len r - (e - r_base r)"
proof -
  have c: "szsub e (r_base r) = e - r_base r"
    "szsub (r_base r + r_len r) e = r_base r + r_len r - e"
    using assms by (auto simp: region_ok_def size_simps)
  have d: "e - r_base r < r_data_len r \<Longrightarrow> r_kind r = R_FILE \<Longrightarrow>
      szsub (r_data_len r) (e - r_base r) = r_data_len r - (e - r_base r)"
    using assms by (auto simp: region_ok_def size_simps)
  show "r_base t = e" "r_len t = r_base r + r_len r - e"
    "r_kind t = r_kind r" "r_prot t = r_prot r" "r_flags t = r_flags r" "r_fref t = r_fref r"
    "r_dirty t = r_dirty r"
    "r_kind r = R_FILE \<Longrightarrow> r_off t = r_off r + int (e - r_base r)"
    "r_kind r = R_FILE \<Longrightarrow> r_data_len t = r_data_len r - (e - r_base r)"
    using c d by (auto simp: t_def tail_region_def Let_def)
qed

lemma freed_region_fields [simp]:
  "r_base (freed_region b n) = b" "r_len (freed_region b n) = n"
  "r_kind (freed_region b n) = R_FREE" "r_fref (freed_region b n) = None"
  "r_dirty (freed_region b n)"
  by (simp_all add: freed_region_def)

lemma mark_free_fields [simp]:
  "r_base (mark_free r) = r_base r" "r_len (mark_free r) = r_len r"
  "r_kind (mark_free r) = R_FREE" "r_fref (mark_free r) = None" "r_dirty (mark_free r)"
  by (simp_all add: mark_free_def)

lemma page_diff: "(a :: nat) mod PAGE = 0 \<Longrightarrow> b mod PAGE = 0 \<Longrightarrow> (a - b) mod PAGE = 0"
  by (metis dvd_diff_nat dvd_imp_mod_0 mod_0_imp_dvd)

lemma page_sum: "(a :: nat) mod PAGE = 0 \<Longrightarrow> b mod PAGE = 0 \<Longrightarrow> (a + b) mod PAGE = 0"
  by (metis dvd_add dvd_imp_mod_0 mod_0_imp_dvd)

lemma region_ok_head:
  assumes "region_ok r" "r_kind r \<noteq> R_FREE" "r_base r < s" "s < r_base r + r_len r" "s mod PAGE = 0"
  shows "region_ok (head_region r s)"
  using assms page_diff [of s "r_base r"]
  by (auto simp: region_ok_def head_region_fields [OF assms(1,3,4)])

lemma region_ok_tail:
  assumes "region_ok r" "r_kind r \<noteq> R_FREE" "r_base r < e" "e < r_base r + r_len r" "e mod PAGE = 0"
  shows "region_ok (tail_region r e (r_base r + r_len r))"
  using assms page_diff [OF page_sum [of "r_base r" "r_len r"], of e]
  by (auto simp: region_ok_def tail_region_fields [OF assms(1,3,4)])

lemma region_ok_freed:
  "0 < n \<Longrightarrow> b mod PAGE = 0 \<Longrightarrow> n mod PAGE = 0 \<Longrightarrow> b + n < size_mod \<Longrightarrow> region_ok (freed_region b n)"
  by (simp add: region_ok_def freed_region_def)

lemma region_ok_mark_free:
  "0 < r_len r \<Longrightarrow> r_base r mod PAGE = 0 \<Longrightarrow> r_len r mod PAGE = 0 \<Longrightarrow>
   r_base r + r_len r < size_mod \<Longrightarrow> region_ok (mark_free r)"
  by (simp add: region_ok_def)

text \<open>The five shapes of a split.\<close>

lemma unmap_split_cases:
  assumes "region_ok r" "page_range s e"
  obtains (keep) "unmap_split s e r = [r]"
      "r_kind r = R_FREE \<or> r_base r + r_len r \<le> s \<or> e \<le> r_base r"
    | (whole) "unmap_split s e r = [mark_free r]" "r_kind r \<noteq> R_FREE"
      "s \<le> r_base r" "r_base r + r_len r \<le> e"
    | (head) "unmap_split s e r = [mark_free (r\<lparr>r_len := e - r_base r\<rparr>),
        tail_region r e (r_base r + r_len r)]" "r_kind r \<noteq> R_FREE"
      "s \<le> r_base r" "r_base r < e" "e < r_base r + r_len r"
    | (tail) "unmap_split s e r = [head_region r s, freed_region s (r_base r + r_len r - s)]"
      "r_kind r \<noteq> R_FREE" "r_base r < s" "s < r_base r + r_len r" "r_base r + r_len r \<le> e"
    | (middle) "unmap_split s e r = [head_region r s, freed_region s (e - s),
        tail_region r e (r_base r + r_len r)]" "r_kind r \<noteq> R_FREE"
      "r_base r < s" "s < e" "e < r_base r + r_len r"
proof -
  have "s < e" using assms by (simp add: page_range_def)
  consider "r_kind r = R_FREE \<or> r_base r + r_len r \<le> s \<or> e \<le> r_base r"
    | "r_kind r \<noteq> R_FREE" "s < r_base r + r_len r" "r_base r < e" by linarith
  then show thesis
  proof cases
    case 1
    then show thesis using keep by (simp add: unmap_split_def)
  next
    case 2
    then consider "s \<le> r_base r" "r_base r + r_len r \<le> e" | "s \<le> r_base r" "e < r_base r + r_len r"
      | "r_base r < s" "r_base r + r_len r \<le> e" | "r_base r < s" "e < r_base r + r_len r" by linarith
    then show thesis
      using 2 whole head tail middle \<open>s < e\<close>
      by cases (simp_all add: unmap_split_def Let_def)
  qed
qed

lemma unmap_split_table_ok:
  assumes "region_ok r" "page_range s e"
  shows "table_ok (unmap_split s e r)"
  using assms(1,2)
proof (cases rule: unmap_split_cases)
  case keep
  then show ?thesis using assms by (simp add: table_ok_Cons)
next
  case whole
  then show ?thesis using assms region_ok_mark_free [of r]
    by (simp add: table_ok_Cons region_ok_def [of r])
next
  case head
  then show ?thesis
    using assms region_ok_tail [of r e] region_ok_mark_free [of "r\<lparr>r_len := e - r_base r\<rparr>"]
      page_diff [of e "r_base r"]
    by (simp add: table_ok_Cons tail_region_fields page_range_def region_ok_def [of r])
next
  case tail
  then show ?thesis
    using assms region_ok_head [of r s] page_diff [OF page_sum [of "r_base r" "r_len r"], of s]
      region_ok_freed [of "r_base r + r_len r - s" s]
    by (simp add: table_ok_Cons head_region_fields page_range_def region_ok_def [of r])
next
  case middle
  then show ?thesis
    using assms region_ok_head [of r s] region_ok_tail [of r e] page_diff [of e s]
      region_ok_freed [of "e - s" s]
    by (simp add: table_ok_Cons head_region_fields tail_region_fields page_range_def)
qed

text \<open>A split covers exactly the addresses of the region it replaces.\<close>

lemma unmap_split_bounds:
  assumes "region_ok r" "page_range s e" "q \<in> set (unmap_split s e r)"
  shows "r_base r \<le> r_base q \<and> r_base q + r_len q \<le> r_base r + r_len r"
  using assms(1,2)
proof (cases rule: unmap_split_cases)
  case head
  then show ?thesis using assms by (auto simp: tail_region_fields)
next
  case tail
  then show ?thesis using assms by (auto simp: head_region_fields)
next
  case middle
  then show ?thesis using assms by (auto simp: head_region_fields tail_region_fields)
qed (use assms in auto)

lemma unmap_split_owned:
  assumes "region_ok r" "page_range s e"
  shows "owned (unmap_split s e r) = {r_base r ..< r_base r + r_len r}"
  using assms(1,2)
proof (cases rule: unmap_split_cases)
  case head
  then show ?thesis using assms by (auto simp: tail_region_fields)
next
  case tail
  then show ?thesis using assms by (auto simp: head_region_fields)
next
  case middle
  then show ?thesis using assms by (auto simp: head_region_fields tail_region_fields)
qed auto

text \<open>A free region shows nothing; the pieces that survive show what the region showed.\<close>

lemma region_view_free: "r_kind r = R_FREE \<Longrightarrow> region_view a r = None"
  by (simp add: region_view_def)

lemma region_view_head:
  assumes "region_ok r" "r_base r < s" "s < r_base r + r_len r"
  shows "region_view a (head_region r s) = (if a < s then region_view a r else None)"
proof (cases "r_kind r = R_FILE")
  case True
  then show ?thesis using assms
    by (auto simp: region_view_def in_region_def head_region_fields [OF assms] less_diff_conv2)
next
  case False
  then show ?thesis using assms
    by (auto simp: region_view_def in_region_def head_region_fields [OF assms])
qed

lemma region_view_tail:
  assumes "region_ok r" "r_base r < e" "e < r_base r + r_len r"
  shows "region_view a (tail_region r e (r_base r + r_len r)) =
    (if e \<le> a then region_view a r else None)"
proof (cases "r_kind r = R_FILE")
  case True
  then show ?thesis using assms
    by (auto simp: region_view_def in_region_def tail_region_fields [OF assms])
next
  case False
  then show ?thesis using assms
    by (auto simp: region_view_def in_region_def tail_region_fields [OF assms])
qed

lemma region_view_apart: "r_base r + r_len r \<le> a \<or> a < r_base r \<Longrightarrow> region_view a r = None"
  by (auto simp: region_view_def in_region_def)

lemma unmap_split_view:
  assumes "region_ok r" "page_range s e"
  shows "live_at (unmap_split s e r) a = (if s \<le> a \<and> a < e then None else region_view a r)"
  using assms(1,2)
proof (cases rule: unmap_split_cases)
  case keep
  then show ?thesis by (auto simp: region_view_free region_view_apart split: option.splits)
next
  case whole
  then show ?thesis by (auto simp: region_view_free region_view_apart)
next
  case head
  then show ?thesis using assms
    by (auto simp: region_view_free region_view_tail region_view_apart split: option.splits)
next
  case tail
  then show ?thesis using assms
    by (auto simp: region_view_free region_view_head region_view_apart split: option.splits)
next
  case middle
  then show ?thesis using assms
    by (auto simp: region_view_free region_view_head region_view_tail split: option.splits)
qed

section \<open>The table after the loop\<close>

definition unmap_table :: "nat \<Rightarrow> nat \<Rightarrow> region list \<Rightarrow> region list" where
  "unmap_table s e rs = concat (map (unmap_split s e) rs)"

lemma unmap_table_Cons: "unmap_table s e (r # rs) = unmap_split s e r @ unmap_table s e rs"
  by (simp add: unmap_table_def)

lemma unmap_table_append: "unmap_table s e (xs @ ys) = unmap_table s e xs @ unmap_table s e ys"
  by (simp add: unmap_table_def)

lemma unmap_table_apart:
  "(\<forall>r \<in> set rs. r_base r + r_len r \<le> s) \<or> (\<forall>r \<in> set rs. e \<le> r_base r) \<Longrightarrow> unmap_table s e rs = rs"
  by (induction rs) (auto simp: unmap_table_def unmap_split_apart)

lemma unmap_table_bounds:
  assumes "\<forall>r \<in> set rs. region_ok r" "page_range s e" "q \<in> set (unmap_table s e rs)"
  obtains r where "r \<in> set rs" "r_base r \<le> r_base q" "r_base q + r_len q \<le> r_base r + r_len r"
  using assms unmap_split_bounds by (fastforce simp: unmap_table_def)

lemma unmap_table_ok:
  assumes "table_ok rs" "page_range s e"
  shows "table_ok (unmap_table s e rs)"
  using assms(1)
proof (induction rs)
  case Nil
  then show ?case by (simp add: unmap_table_def)
next
  case (Cons r rs)
  then have r: "region_ok r" "table_ok rs" "\<forall>q \<in> set rs. r_base r + r_len r \<le> r_base q"
    by (simp_all add: table_ok_Cons)
  have "\<forall>x \<in> set (unmap_split s e r). \<forall>y \<in> set (unmap_table s e rs). r_base x + r_len x \<le> r_base y"
  proof (intro ballI)
    fix x y assume x: "x \<in> set (unmap_split s e r)" and y: "y \<in> set (unmap_table s e rs)"
    obtain q where "q \<in> set rs" "r_base q \<le> r_base y"
      using unmap_table_bounds [OF _ assms(2) y] r(2) by (auto simp: table_ok_def)
    then show "r_base x + r_len x \<le> r_base y"
      using unmap_split_bounds [OF r(1) assms(2) x] r(3) by fastforce
  qed
  then show ?case
    using Cons.IH r unmap_split_table_ok [OF r(1) assms(2)]
    by (simp add: unmap_table_Cons table_ok_append)
qed

lemma unmap_table_view:
  assumes "\<forall>r \<in> set rs. region_ok r" "page_range s e"
  shows "live_at (unmap_table s e rs) a = (if s \<le> a \<and> a < e then None else live_at rs a)"
  using assms(1)
proof (induction rs)
  case Nil
  then show ?case by (simp add: unmap_table_def)
next
  case (Cons r rs)
  then show ?case
    using unmap_split_view [of r s e a] assms(2)
    by (auto simp: unmap_table_Cons live_at_append split: option.splits)
qed

lemma unmap_table_owned:
  assumes "\<forall>r \<in> set rs. region_ok r" "page_range s e"
  shows "owned (unmap_table s e rs) = owned rs"
  using assms(1)
  by (induction rs) (auto simp: unmap_table_def unmap_split_owned [OF _ assms(2)])

section \<open>The loop computes that table\<close>

lemma unmap_at_split:
  assumes "unmap_at fuel H m s e i (ps @ r # qs) fr h = Some (i', rs', fr', h')"
    and "length ps = i" "region_ok r" "page_range s e" "s < r_base r + r_len r" "r_base r < e"
  shows "i' = i + length (unmap_split s e r) \<and> rs' = ps @ unmap_split s e r @ qs"
  using assms(3,4)
proof (cases rule: unmap_split_cases)
  case keep
  then show ?thesis using assms by (auto simp: unmap_at_def table_simps)
next
  case whole
  then show ?thesis using assms
    by (auto simp: unmap_at_def table_simps r_end_eq Let_def split: if_splits)
next
  case head
  have z: "szsub e (r_base r) = e - r_base r"
    using head assms(3) by (simp add: region_ok_def size_simps)
  show ?thesis using assms head
    by (auto simp: unmap_at_def table_simps r_end_eq Let_def z split: if_splits)
next
  case tail
  have z: "szsub (r_base r + r_len r) s = r_base r + r_len r - s"
    using tail assms(3) by (simp add: region_ok_def size_simps)
  show ?thesis using assms tail
    by (auto simp: unmap_at_def table_simps r_end_eq Let_def z split: if_splits)
next
  case middle
  have z: "szsub e s = e - s"
    using middle assms(4) by (simp add: page_range_def size_simps)
  show ?thesis using assms middle
    by (auto simp: unmap_at_def table_simps r_end_eq Let_def z numeral_2_eq_2 split: if_splits)
qed

lemma unmap_loop_table:
  assumes "unmap_loop fuel H m s e (length ps) (ps @ qs) fr h = Some (rs', fr', h')"
    and "table_ok qs" "page_range s e" "\<forall>q \<in> set qs. s < r_base q + r_len q"
  shows "rs' = ps @ unmap_table s e qs"
  using assms
proof (induction qs arbitrary: ps fr h)
  case Nil
  then show ?case by (simp add: unmap_loop.simps unmap_table_def)
next
  case (Cons r qs)
  have ok: "region_ok r" "table_ok qs" "\<forall>q \<in> set qs. r_base r + r_len r \<le> r_base q"
    using Cons.prems(2) by (simp_all add: table_ok_Cons)
  show ?case
  proof (cases "r_base r < e")
    case True
    obtain i' rs1 fr1 h1 where
      at: "unmap_at fuel H m s e (length ps) (ps @ r # qs) fr h = Some (i', rs1, fr1, h1)" and
      rest: "unmap_loop fuel H m s e i' rs1 fr1 h1 = Some (rs', fr', h')"
      using Cons.prems(1) True
      by (auto simp: unmap_loop.simps [of _ _ _ _ _ "length ps"] table_simps split: option.splits)
    have "i' = length (ps @ unmap_split s e r)" "rs1 = (ps @ unmap_split s e r) @ qs"
      using unmap_at_split [OF at] ok(1) Cons.prems True by auto
    then have "rs' = (ps @ unmap_split s e r) @ unmap_table s e qs"
      using Cons.IH [of "ps @ unmap_split s e r" fr1 h1] rest ok(2) Cons.prems by simp
    then show ?thesis by (simp add: unmap_table_Cons)
  next
    case False
    then have "rs' = ps @ r # qs"
      using Cons.prems(1) by (simp add: unmap_loop.simps [of _ _ _ _ _ "length ps"] table_simps)
    moreover have "unmap_table s e (r # qs) = r # qs"
      using False ok(1,3) region_ok_pos [OF ok(1)] by (intro unmap_table_apart) fastforce
    ultimately show ?thesis by simp
  qed
qed

section \<open>File references are counted exactly\<close>

definition refs_in :: "region list \<Rightarrow> nat \<Rightarrow> nat" where
  "refs_in rs p = length (filter (\<lambda>r. r_fref r = Some p) rs)"

definition ref_count_ok :: "file_ref option \<Rightarrow> nat \<Rightarrow> bool" where
  "ref_count_ok f n \<longleftrightarrow> (case f of None \<Rightarrow> n = 0 | Some g \<Rightarrow> fr_refs g = n \<and> 0 < n)"

definition frefs_ok :: "frefs \<Rightarrow> region list \<Rightarrow> bool" where
  "frefs_ok fr rs \<longleftrightarrow> (\<forall>p. ref_count_ok (fr p) (refs_in rs p))"

lemma refs_in_simps [simp]:
  "refs_in [] p = 0"
  "refs_in (r # rs) p = (if r_fref r = Some p then Suc (refs_in rs p) else refs_in rs p)"
  "refs_in (xs @ ys) p = refs_in xs p + refs_in ys p"
  by (simp_all add: refs_in_def)

lemma refs_in_le_length: "refs_in rs p \<le> length rs"
  by (simp add: refs_in_def)

lemma frefs_okI: "(\<And>p. ref_count_ok (fr p) (refs_in rs p)) \<Longrightarrow> frefs_ok fr rs"
  by (simp add: frefs_ok_def)

lemma frefs_ok_lookup:
  assumes "frefs_ok fr rs" "0 < refs_in rs p"
  shows "\<exists>f. fr p = Some f \<and> fr_refs f = refs_in rs p"
  using assms by (auto simp: frefs_ok_def ref_count_ok_def split: option.splits dest: spec [of _ p])

lemma refs_in_pos: "r \<in> set rs \<Longrightarrow> r_fref r = Some p \<Longrightarrow> 0 < refs_in rs p"
  by (induction rs) auto

lemma frefs_ok_cong: "frefs_ok fr rs \<Longrightarrow> (\<And>p. refs_in rs' p = refs_in rs p) \<Longrightarrow> frefs_ok fr rs'"
  unfolding frefs_ok_def by metis

lemma fref_release_ok:
  assumes "frefs_ok fr rs" "length rs < size_mod"
    and n: "\<And>q. refs_in rs q = refs_in rs' q + (if p = Some q then 1 else 0)"
  shows "\<exists>fr' h'. fref_release H p fr h = Some (fr', h') \<and> frefs_ok fr' rs'"
proof (cases p)
  case None
  then have "frefs_ok fr rs'" using n by (intro frefs_ok_cong [OF assms(1)]) simp
  then show ?thesis using None by (simp add: fref_release_def)
next
  case (Some a)
  have na: "refs_in rs a = Suc (refs_in rs' a)" using n [of a] Some by simp
  obtain f where f: "fr a = Some f" "fr_refs f = Suc (refs_in rs' a)"
    using frefs_ok_lookup [OF assms(1), of a] na by auto
  have z: "szsub (fr_refs f) 1 = refs_in rs' a"
    using f refs_in_le_length [of rs a] na assms(2) by (simp add: size_simps)
  have other: "ref_count_ok (fr q) (refs_in rs' q)" if "q \<noteq> a" for q
    using assms(1) n [of q] Some that unfolding frefs_ok_def by (metis add_0_right option.inject)
  show ?thesis
  proof (cases "refs_in rs' a = 0")
    case True
    have "frefs_ok (fr(a := None)) rs'"
      by (rule frefs_okI) (use True other in \<open>simp add: ref_count_ok_def\<close>)
    then show ?thesis using Some f z True by (simp add: fref_release_def)
  next
    case False
    have "frefs_ok (fr(a \<mapsto> f\<lparr>fr_refs := refs_in rs' a\<rparr>)) rs'"
      by (rule frefs_okI) (use False other in \<open>simp add: ref_count_ok_def\<close>)
    then show ?thesis using Some f z False by (simp add: fref_release_def Let_def)
  qed
qed

lemma fref_retain_ok:
  assumes "frefs_ok fr rs" "length rs < size_mod - 1" "r \<in> set rs" "r_fref r = p"
    and n: "\<And>q. refs_in rs' q = refs_in rs q + (if p = Some q then 1 else 0)"
  shows "\<exists>fr'. fref_retain p fr = Some fr' \<and> frefs_ok fr' rs'"
proof (cases p)
  case None
  then have "frefs_ok fr rs'" using n by (intro frefs_ok_cong [OF assms(1)]) simp
  then show ?thesis using None by (simp add: fref_retain_def)
next
  case (Some a)
  obtain f where f: "fr a = Some f" "fr_refs f = refs_in rs a"
    using frefs_ok_lookup [OF assms(1) refs_in_pos [OF assms(3)], of a] assms(4) Some by auto
  have z: "szadd (fr_refs f) 1 = Suc (refs_in rs a)"
    using f refs_in_le_length [of rs a] assms(2) by (simp add: size_simps)
  have other: "ref_count_ok (fr q) (refs_in rs' q)" if "q \<noteq> a" for q
    using assms(1) n [of q] Some that unfolding frefs_ok_def by (metis add_0_right option.inject)
  have "frefs_ok (fr(a \<mapsto> f\<lparr>fr_refs := Suc (refs_in rs a)\<rparr>)) rs'"
    by (rule frefs_okI) (use n [of a] Some other in \<open>simp add: ref_count_ok_def\<close>)
  then show ?thesis using Some f z by (simp add: fref_retain_def)
qed

section \<open>Writing back always ends on a host that makes progress\<close>

text \<open>
  A call of pwrite that succeeds on a non-empty buffer writes at least one byte and at most what it was given.  It may fail, and
  signals may interrupt it, up to \<open>K\<close> times in a row: \<open>left h\<close> is the number of interruptions that can still follow.  There is fuel for
  as many interruptions before each byte.
\<close>

definition pwrite_progress :: "'h mman_host \<Rightarrow> nat \<Rightarrow> bool" where
  "pwrite_progress H fuel \<longleftrightarrow>
     (\<exists>left K. (\<forall>h. left h \<le> K) \<and> size_mod * (K + 1) \<le> fuel \<and>
       (\<forall>fd bs off h. bs \<noteq> [] \<longrightarrow>
        (case mh_pwrite H fd bs off h of (Inl e, h') \<Rightarrow> e = EINTR \<longrightarrow> left h' < (left h :: nat)
         | (Inr n, h') \<Rightarrow> 0 < n \<and> n \<le> length bs)))"

text \<open>The work that is left in a loop with interruptions.\<close>

lemma less_work:
  fixes r n a b K :: nat
  assumes "0 < n" "n \<le> r" "b \<le> K" "r * (K + 1) + a \<le> Suc fuel"
  shows "(r - n) * (K + 1) + b \<le> fuel"
proof -
  have "(r - n) * (K + 1) \<le> (r - 1) * (K + 1)" using assms(1) by (intro mult_le_mono1) simp
  moreover have "(r - 1) * (K + 1) + (K + 1) = r * (K + 1)" using assms(1,2) by (cases r) simp_all
  ultimately show ?thesis using assms(3,4) by linarith
qed

lemma full_work: "r < m \<Longrightarrow> a \<le> K \<Longrightarrow> m * (K + 1) \<le> fuel \<Longrightarrow> r * (K + 1) + a \<le> fuel" for r m a K :: nat
proof -
  assume a: "r < m" "a \<le> K" "m * (K + 1) \<le> fuel"
  have "(r + 1) * (K + 1) \<le> m * (K + 1)" using a(1) by (intro mult_le_mono1) simp
  then show ?thesis using a by simp
qed

lemma writeback_loop_returns:
  assumes "pwrite_progress H fuel" "remaining < size_mod"
  shows "\<exists>res. writeback_loop fuel H fd m body remaining off h = Some res"
proof -
  obtain left K where K: "\<And>h. left h \<le> K" "size_mod * (K + 1) \<le> fuel"
    and w: "\<And>fd bs off h. bs \<noteq> [] \<Longrightarrow> (case mh_pwrite H fd bs off h of (Inl e, h') \<Rightarrow> e = EINTR \<longrightarrow> left h' < (left h :: nat)
         | (Inr n, h') \<Rightarrow> 0 < n \<and> n \<le> length bs)"
    using assms(1) unfolding pwrite_progress_def by blast
  have "\<exists>res. writeback_loop f H fd m body r off h = Some res" if "r * (K + 1) + left h \<le> f" "r < size_mod" for f r body off h
    using that
  proof (induction f arbitrary: body r off h)
    case 0
    then show ?case by simp
  next
    case (Suc f)
    show ?case
    proof (cases "r = 0")
      case True
      then show ?thesis by simp
    next
      case False
      obtain ans h' where p: "mh_pwrite H fd (mem_read body r m) off h = (ans, h')"
        by (cases "mh_pwrite H fd (mem_read body r m) off h")
      have ne: "mem_read body r m \<noteq> []" "length (mem_read body r m) = r" using False by (simp_all add: mem_read_def)
      note ans = w [OF ne(1), where fd = fd and off = off and h = h, unfolded p ne(2)]
      show ?thesis
      proof (cases ans)
        case (Inl e)
        then have "e = EINTR \<Longrightarrow> r * (K + 1) + left h' \<le> f" using ans Suc.prems(1) by simp
        then show ?thesis using Inl False p Suc by simp
      next
        case (Inr n)
        then have n: "0 < n" "n \<le> r" "szsub r n = r - n" using ans Suc.prems by (simp_all add: size_simps)
        have "(r - n) * (K + 1) + left h' \<le> f" by (rule less_work [OF n(1,2) K(1) Suc.prems(1)])
        then show ?thesis using Inr False p Suc n by simp
      qed
    qed
  qed
  moreover have "remaining * (K + 1) + left h \<le> fuel" by (rule full_work [OF assms(2) K])
  ultimately show ?thesis using assms(2) by blast
qed

lemma writeback_returns:
  assumes "pwrite_progress H fuel" "size_mod \<le> fuel" "frefs_ok fr rs" "r \<in> set rs" "r_fref r \<noteq> None"
  shows "\<exists>res. writeback fuel H fr m r s e h = Some res"
proof -
  obtain p where p: "r_fref r = Some p" using assms(5) by auto
  then obtain f where "fr p = Some f"
    using frefs_ok_lookup [OF assms(3) refs_in_pos [OF assms(4) p]] by auto
  moreover have "\<exists>res. writeback_loop fuel H fd m s (szsub a b) off h = Some res" for fd a b off
    using writeback_loop_returns [OF assms(1)] szsub_bound [of a b] by simp
  ultimately show ?thesis using p by (simp add: writeback_def Let_def)
qed

section \<open>One iteration and the loop: they return, and keep the counts\<close>

lemma refs_in_split:
  assumes "region_ok r" "page_range s e"
  shows "refs_in (unmap_split s e r) p =
    (if r_fref r = Some p then
       (if s \<le> r_base r \<and> r_base r + r_len r \<le> e then 0
        else if r_base r < s \<and> e < r_base r + r_len r then 2 else 1)
     else 0)"
proof -
  have "r_kind r = R_FREE \<Longrightarrow> r_fref r = None" using assms(1) by (auto simp: region_ok_def)
  moreover have "0 < r_len r" "s < e" using assms by (auto simp: region_ok_def page_range_def)
  ultimately show ?thesis
    using assms
    by (cases rule: unmap_split_cases [OF assms])
      (auto simp: head_region_fields tail_region_fields)
qed

lemma unmap_at_frefs:
  assumes "region_ok r" "page_range s e" "s < r_base r + r_len r" "r_base r < e" "length ps = i"
    and "frefs_ok fr (ps @ r # qs)" "length (ps @ r # qs) < size_mod - 1"
    and "pwrite_progress H fuel" "size_mod \<le> fuel"
  shows "\<exists>fr' h'. unmap_at fuel H m s e i (ps @ r # qs) fr h =
      Some (i + length (unmap_split s e r), ps @ unmap_split s e r @ qs, fr', h') \<and>
      frefs_ok fr' (ps @ unmap_split s e r @ qs)"
proof (cases "r_kind r = R_FREE")
  case True
  then show ?thesis using assms by (simp add: unmap_at_def table_simps unmap_split_free)
next
  case live: False
  let ?rs = "ps @ r # qs" and ?rs' = "ps @ unmap_split s e r @ qs"
  let ?wb = "r_kind r = R_FILE \<and> r_fref r \<noteq> None \<and> r_prot r AND PROT_WRITE \<noteq> 0"
  have fref: "r_kind r \<noteq> R_FILE \<Longrightarrow> r_fref r = None" using assms(1) by (auto simp: region_ok_def)
  have "\<exists>h1. (if ?wb then map_option snd (writeback fuel H fr m r os oe h) else Some h) = Some h1"
    for os oe
    using writeback_returns [OF assms(8,9,6), of r m os oe h] by auto
  then obtain h1 where h1: "(if ?wb then map_option snd (writeback fuel H fr m r
      (if r_base r > s then r_base r else s) (if r_base r + r_len r < e then r_base r + r_len r else e) h)
      else Some h) = Some h1" by blast
  have cnt: "refs_in ?rs' q + (if r_fref r = Some q \<and> s \<le> r_base r \<and> r_base r + r_len r \<le> e then 1 else 0)
      = refs_in ?rs q + (if r_fref r = Some q \<and> r_base r < s \<and> e < r_base r + r_len r then 1 else 0)" for q
    using assms(2-4) by (simp add: refs_in_split [OF assms(1,2)] page_range_def)
  from assms(1,2) show ?thesis
  proof (cases rule: unmap_split_cases)
    case keep
    then show ?thesis using assms live by auto
  next
    case whole
    have "\<exists>fr' h'. fref_release H (r_fref r) fr h1 = Some (fr', h') \<and> frefs_ok fr' ?rs'"
    proof (rule fref_release_ok [OF assms(6)])
      show "refs_in ?rs q = refs_in ?rs' q + (if r_fref r = Some q then 1 else 0)" for q
        using cnt [of q] whole(3,4) by simp
    qed (use assms(7) in simp)
    then show ?thesis
      using whole h1 fref assms(5)
      by (cases "r_kind r = R_FILE")
        (auto simp: unmap_at_def table_simps r_end_eq [OF assms(1)] Let_def fref_release_def)
  next
    case head
    have z: "szsub e (r_base r) = e - r_base r"
      using head assms(1) by (simp add: region_ok_def size_simps)
    have "frefs_ok fr ?rs'"
    proof (rule frefs_ok_cong [OF assms(6)])
      show "refs_in ?rs' q = refs_in ?rs q" for q using cnt [of q] head(3-5) by simp
    qed
    then show ?thesis
      using head h1 assms(5) by (auto simp: unmap_at_def table_simps r_end_eq [OF assms(1)] Let_def z)
  next
    case tail
    have z: "szsub (r_base r + r_len r) s = r_base r + r_len r - s"
      using tail assms(1) by (simp add: region_ok_def size_simps)
    have "frefs_ok fr ?rs'"
    proof (rule frefs_ok_cong [OF assms(6)])
      show "refs_in ?rs' q = refs_in ?rs q" for q using cnt [of q] tail(3-5) by simp
    qed
    then show ?thesis
      using tail h1 assms(5) by (auto simp: unmap_at_def table_simps r_end_eq [OF assms(1)] Let_def z)
  next
    case middle
    have z: "szsub e s = e - s" using middle assms(2) by (simp add: page_range_def size_simps)
    have "\<exists>fr'. fref_retain (r_fref r) fr = Some fr' \<and> frefs_ok fr' ?rs'"
    proof (rule fref_retain_ok [OF assms(6,7), of r])
      show "refs_in ?rs' q = refs_in ?rs q + (if r_fref r = Some q then 1 else 0)" for q
        using cnt [of q] middle(3-5) by simp
    qed simp_all
    then show ?thesis
      using middle h1 fref assms(5)
      by (cases "r_kind r = R_FILE")
        (auto simp: unmap_at_def table_simps r_end_eq [OF assms(1)] Let_def z numeral_2_eq_2
          numeral_3_eq_3 fref_retain_def)
  qed
qed

text \<open>At least a page each, regions of one address space number at most 65536.\<close>

lemma table_length_bound:
  assumes "table_ok rs" "\<forall>r \<in> set rs. b \<le> r_base r" "b \<le> size_mod"
  shows "b + length rs * PAGE \<le> size_mod"
  using assms
proof (induction rs arbitrary: b)
  case Nil
  then show ?case by simp
next
  case (Cons r rs)
  have r: "region_ok r" and rs: "table_ok rs" "\<forall>q \<in> set rs. r_base r + r_len r \<le> r_base q"
    using Cons.prems by (simp_all add: table_ok_Cons)
  then have "PAGE \<le> r_len r" "r_base r + r_len r \<le> size_mod"
    by (auto simp: region_ok_def elim!: dvdE dest!: mod_0_imp_dvd)
  then show ?case using Cons.IH [OF rs] Cons.prems(2) by fastforce
qed

lemma table_length: "table_ok rs \<Longrightarrow> length rs \<le> 65536"
  using table_length_bound [of rs 0] by simp

lemma unmap_split_length: "length (unmap_split s e r) \<le> 3"
  by (auto simp: unmap_split_def Let_def)

lemma unmap_loop_returns:
  assumes "table_ok qs" "page_range s e" "\<forall>q \<in> set qs. s < r_base q + r_len q"
    and "frefs_ok fr (ps @ qs)" "length ps + 3 * length qs < size_mod - 1"
    and "pwrite_progress H fuel" "size_mod \<le> fuel"
  shows "\<exists>fr' h'. unmap_loop fuel H m s e (length ps) (ps @ qs) fr h =
      Some (ps @ unmap_table s e qs, fr', h') \<and> frefs_ok fr' (ps @ unmap_table s e qs)"
  using assms(1,3-5)
proof (induction qs arbitrary: ps fr h)
  case Nil
  then show ?case by (simp add: unmap_loop.simps unmap_table_def)
next
  case (Cons r qs)
  have ok: "region_ok r" "table_ok qs" "\<forall>q \<in> set qs. r_base r + r_len r \<le> r_base q"
    using Cons.prems(1) by (simp_all add: table_ok_Cons)
  show ?case
  proof (cases "r_base r < e")
    case True
    have "length (ps @ r # qs) < size_mod - 1" using Cons.prems(4) by simp
    then obtain fr1 h1 where
      at: "unmap_at fuel H m s e (length ps) (ps @ r # qs) fr h =
        Some (length (ps @ unmap_split s e r), (ps @ unmap_split s e r) @ qs, fr1, h1)" and
      fr1: "frefs_ok fr1 ((ps @ unmap_split s e r) @ qs)"
      using unmap_at_frefs [OF ok(1) assms(2) _ True refl Cons.prems(3) _ assms(6,7)] Cons.prems(2)
      by fastforce
    have "length (ps @ unmap_split s e r) + 3 * length qs < size_mod - 1"
      using Cons.prems(4) unmap_split_length [of s e r] by simp
    then obtain fr2 h2 where
      "unmap_loop fuel H m s e (length (ps @ unmap_split s e r)) ((ps @ unmap_split s e r) @ qs) fr1 h1 =
         Some ((ps @ unmap_split s e r) @ unmap_table s e qs, fr2, h2)"
      "frefs_ok fr2 ((ps @ unmap_split s e r) @ unmap_table s e qs)"
      using Cons.IH [OF ok(2) _ fr1] Cons.prems(2) by (metis list.set_intros(2))
    then show ?thesis
      using at True by (auto simp: unmap_loop.simps [of _ _ _ _ _ "length ps"] table_simps unmap_table_Cons)
  next
    case False
    then have "unmap_table s e (r # qs) = r # qs"
      using ok(1,3) region_ok_pos [OF ok(1)] by (intro unmap_table_apart) fastforce
    then show ?thesis
      using False Cons.prems(3)
      by (simp add: unmap_loop.simps [of _ _ _ _ _ "length ps"] table_simps)
  qed
qed

section \<open>Coalescing\<close>

definition mergeable :: "region \<Rightarrow> region \<Rightarrow> bool" where
  "mergeable r q \<longleftrightarrow> r_kind r = R_FREE \<and> r_kind q = R_FREE \<and> r_base r + r_len r = r_base q"

definition merge_region :: "region \<Rightarrow> region \<Rightarrow> region" where
  "merge_region r q = r\<lparr>r_len := r_len r + r_len q, r_dirty := r_dirty r \<or> r_dirty q\<rparr>"

fun coalesced :: "region list \<Rightarrow> bool" where
  "coalesced (r # q # rs) = (\<not> mergeable r q \<and> coalesced (q # rs))"
| "coalesced _ = True"

text \<open>The loop as a recursion on the regions it has not passed yet.\<close>

function coalesce_list :: "nat \<Rightarrow> region list \<Rightarrow> region list" where
  "coalesce_list e (r # q # rs) =
     (if r_base r \<le> e then
        if mergeable r q then coalesce_list e (merge_region r q # rs)
        else r # coalesce_list e (q # rs)
      else r # q # rs)"
| "coalesce_list e [r] = [r]"
| "coalesce_list e [] = []"
  by pat_completeness auto
termination
  by (relation "measure (\<lambda>(e, rs). length rs)") auto

lemma merge_region_fields [simp]:
  "r_base (merge_region r q) = r_base r" "r_len (merge_region r q) = r_len r + r_len q"
  "r_kind (merge_region r q) = r_kind r" "r_fref (merge_region r q) = r_fref r"
  "r_dirty (merge_region r q) = (r_dirty r \<or> r_dirty q)"
  by (simp_all add: merge_region_def)

lemma region_ok_merge:
  "region_ok r \<Longrightarrow> region_ok q \<Longrightarrow> mergeable r q \<Longrightarrow> region_ok (merge_region r q)"
  using page_sum [of "r_len r" "r_len q"] by (auto simp: region_ok_def mergeable_def)

lemma coalesce_list_ok:
  assumes "table_ok rs"
  shows "table_ok (coalesce_list e rs) \<and> live_at (coalesce_list e rs) = live_at rs \<and>
    owned (coalesce_list e rs) = owned rs \<and> refs_in (coalesce_list e rs) = refs_in rs \<and>
    (\<forall>x \<in> set (coalesce_list e rs). \<forall>b. (\<forall>r \<in> set rs. b \<le> r_base r) \<longrightarrow> b \<le> r_base x)"
  using assms
proof (induction e rs rule: coalesce_list.induct)
  case (1 e r q rs)
  have ok: "region_ok r" "region_ok q" "table_ok rs" "table_ok (q # rs)"
    "r_base r + r_len r \<le> r_base q" "\<forall>x \<in> set rs. r_base q + r_len q \<le> r_base x"
    using "1.prems" by (simp_all add: table_ok_Cons)
  consider (merge) "r_base r \<le> e" "mergeable r q" | (skip) "r_base r \<le> e" "\<not> mergeable r q"
    | (stop) "\<not> r_base r \<le> e" by blast
  then show ?case
  proof cases
    case merge
    have m: "table_ok (merge_region r q # rs)"
      using ok merge region_ok_merge by (auto simp: table_ok_Cons mergeable_def)
    have v: "live_at (merge_region r q # rs) = live_at (r # q # rs)"
      using merge by (auto simp: fun_eq_iff mergeable_def region_view_free)
    have o: "owned (merge_region r q # rs) = owned (r # q # rs)"
      using merge by (auto simp: mergeable_def)
    have f: "refs_in (merge_region r q # rs) = refs_in (r # q # rs)"
      using merge ok(1,2) by (auto simp: fun_eq_iff mergeable_def region_ok_def)
    show ?thesis
      using "1.IH"(1) [OF merge m] merge v o f by simp
  next
    case skip
    note IH = "1.IH"(2) [OF skip ok(4)]
    have "\<forall>x \<in> set (coalesce_list e (q # rs)). r_base r + r_len r \<le> r_base x"
      using IH ok(5,6) by fastforce
    moreover have "live_at (r # coalesce_list e (q # rs)) = live_at (r # q # rs)"
      by (rule ext) (use IH in \<open>simp only: live_at.simps(2)\<close>)
    moreover have "refs_in (r # coalesce_list e (q # rs)) = refs_in (r # q # rs)"
      by (rule ext) (use IH in \<open>simp only: refs_in_simps(2)\<close>)
    ultimately show ?thesis
      using skip IH ok(1) by (simp add: table_ok_Cons del: live_at.simps refs_in_simps)
  next
    case stop
    then show ?thesis using "1.prems" by simp
  qed
qed auto

lemma coalesce_loop_list:
  assumes "table_ok qs"
  shows "coalesce_loop (ps @ qs) (length ps) e = ps @ coalesce_list e qs"
  using assms
proof (induction e qs arbitrary: ps rule: coalesce_list.induct)
  case (1 e r q rs)
  have ok: "region_ok r" "region_ok q" "table_ok (q # rs)"
    using "1.prems" by (simp_all add: table_ok_Cons)
  have m: "mergeable r q \<Longrightarrow> table_ok (merge_region r q # rs)"
    using "1.prems" region_ok_merge by (auto simp: table_ok_Cons mergeable_def)
  have len: "mergeable r q \<Longrightarrow> szadd (r_len r) (r_len q) = r_len r + r_len q"
    using ok by (simp add: size_simps region_ok_def mergeable_def)
  have at: "(ps @ r # q # rs) ! length ps = r" "(ps @ r # q # rs) ! Suc (length ps) = q"
    by (simp_all add: nth_append)
  consider (merge) "r_base r \<le> e" "mergeable r q" | (skip) "r_base r \<le> e" "\<not> mergeable r q"
    | (stop) "\<not> r_base r \<le> e" by blast
  then show ?case
  proof cases
    case merge
    have "coalesce_loop (ps @ r # q # rs) (length ps) e =
        coalesce_loop (ps @ merge_region r q # rs) (length ps) e"
      using merge ok len
      by (subst coalesce_loop.simps)
        (simp add: at Let_def mergeable_def r_end_eq table_simps merge_region_def)
    then show ?thesis using "1.IH"(1) [OF merge m] merge by simp
  next
    case skip
    have "coalesce_loop (ps @ r # q # rs) (length ps) e =
        coalesce_loop ((ps @ [r]) @ q # rs) (length (ps @ [r])) e"
      using skip ok by (subst coalesce_loop.simps) (auto simp: at Let_def mergeable_def r_end_eq)
    then show ?thesis using "1.IH"(2) [OF skip ok(3), of "ps @ [r]"] skip by simp
  next
    case stop
    then show ?thesis by (subst coalesce_loop.simps) (simp add: at)
  qed
qed (simp_all add: coalesce_loop.simps)

end
