(* ===== verification/Mman_Range.thy ===== *)
theory Mman_Range
  imports Mman_Unmap_Laws
begin

text \<open>
  unmap_range as a whole (libc-bottom-half/mman/mman.c): it returns, keeps the table well formed
  and fully coalesced, keeps the file reference counts, and acts on the address-space view as
  munmap is specified to.
\<close>

section \<open>Coalescing leaves no two adjacent free regions\<close>

lemma coalesce_list_first:
  "coalesce_list e (r # rs) \<noteq> [] \<and> r_base (hd (coalesce_list e (r # rs))) = r_base r \<and>
   r_kind (hd (coalesce_list e (r # rs))) = r_kind r"
  by (induction e "r # rs" arbitrary: r rs rule: coalesce_list.induct) auto

lemma coalesced_Cons: "coalesced (r # rs) \<longleftrightarrow> (rs = [] \<or> \<not> mergeable r (hd rs) \<and> coalesced rs)"
  by (cases rs) auto

lemma coalesced_append:
  "coalesced (xs @ ys) \<longleftrightarrow> coalesced xs \<and> coalesced ys \<and>
     (xs = [] \<or> ys = [] \<or> \<not> mergeable (last xs) (hd ys))"
  by (induction xs) (auto simp: coalesced_Cons)

lemma coalesced_dropWhile: "coalesced rs \<Longrightarrow> coalesced (dropWhile P rs)"
  by (metis coalesced_append takeWhile_dropWhile_id)

lemma coalesced_dropWhile_Cons:
  "coalesced (dropWhile P (q # rs)) \<Longrightarrow> coalesced (dropWhile P rs)"
  by (cases "P q") (auto simp: coalesced_Cons coalesced_dropWhile)

lemma coalesce_list_coalesced:
  assumes "coalesced (dropWhile (\<lambda>r. r_base r \<le> e) rs)"
  shows "coalesced (coalesce_list e rs)"
  using assms
proof (induction e rs rule: coalesce_list.induct)
  case (1 e r q rs)
  consider (merge) "r_base r \<le> e" "mergeable r q" | (skip) "r_base r \<le> e" "\<not> mergeable r q"
    | (stop) "\<not> r_base r \<le> e" by blast
  then show ?case
  proof cases
    case merge
    have "coalesced (dropWhile (\<lambda>r. r_base r \<le> e) rs)"
      using "1.prems" merge coalesced_dropWhile_Cons [of _ q rs] by simp
    then show ?thesis using "1.IH"(1) [OF merge] merge by simp
  next
    case skip
    have "coalesced (coalesce_list e (q # rs))" using "1.IH"(2) [OF skip] "1.prems" skip by simp
    moreover have "\<not> mergeable r (hd (coalesce_list e (q # rs)))"
      using skip(2) coalesce_list_first [of e q rs] by (simp add: mergeable_def)
    ultimately show ?thesis using skip by (simp add: coalesced_Cons)
  next
    case stop
    then show ?thesis using "1.prems" by simp
  qed
qed simp_all

text \<open>
  What the loop of unmap_range leaves uncoalesced lies between the last region that ends at or
  below start and the first region that begins above end.
\<close>

lemma unmap_split_take:
  assumes "region_ok r" "page_range s e" "s < r_base r + r_len r"
  shows "takeWhile (\<lambda>q. r_base q + r_len q \<le> s) (unmap_split s e r @ qs) = [] \<or>
    (takeWhile (\<lambda>q. r_base q + r_len q \<le> s) (unmap_split s e r @ qs) = [head_region r s] \<and>
     r_kind r \<noteq> R_FREE \<and> r_base r < s \<and> s < r_base r + r_len r)"
  using assms(1,2)
  by (cases rule: unmap_split_cases)
    (use assms in \<open>auto simp: head_region_fields page_range_def\<close>)

lemma unmap_split_drop:
  assumes "region_ok r" "page_range s e"
  shows "dropWhile (\<lambda>q. r_base q \<le> e) (unmap_split s e r @ qs) =
    (if r_base r \<le> e then dropWhile (\<lambda>q. r_base q \<le> e) qs else r # qs)"
  using assms
  by (cases rule: unmap_split_cases [OF assms])
    (auto simp: head_region_fields tail_region_fields page_range_def)

lemma unmap_table_drop:
  assumes "table_ok rs" "page_range s e"
  shows "dropWhile (\<lambda>q. r_base q \<le> e) (unmap_table s e rs) = dropWhile (\<lambda>q. r_base q \<le> e) rs"
  using assms(1)
proof (induction rs)
  case Nil
  then show ?case by (simp add: unmap_table_def)
next
  case (Cons r rs)
  have r: "region_ok r" and "table_ok rs" "\<forall>q \<in> set rs. r_base r + r_len r \<le> r_base q"
    using Cons.prems by (simp_all add: table_ok_Cons)
  moreover have "\<not> r_base r \<le> e \<Longrightarrow> unmap_table s e rs = rs"
    using calculation by (intro unmap_table_apart) fastforce
  ultimately show ?case
    using Cons.IH by (simp add: unmap_table_Cons unmap_split_drop [OF r assms(2)])
qed

lemma unmap_table_take:
  assumes "table_ok (ps @ qs)" "coalesced (ps @ qs)" "page_range s e"
    and "\<forall>p \<in> set ps. r_base p + r_len p \<le> s" "\<forall>q \<in> set qs. s < r_base q + r_len q"
  shows "coalesced (takeWhile (\<lambda>q. r_base q + r_len q \<le> s) (ps @ unmap_table s e qs))"
proof (cases qs)
  case Nil
  have tw: "takeWhile (\<lambda>q. r_base q + r_len q \<le> s) ps = ps"
    using assms(4) by (simp add: takeWhile_eq_all_conv)
  show ?thesis using assms(2) Nil by (simp add: unmap_table_def tw)
next
  case (Cons r rs)
  let ?P = "\<lambda>q. r_base q + r_len q \<le> s"
  have r: "region_ok r" "s < r_base r + r_len r"
    using assms(1,5) Cons by (auto simp: table_ok_append table_ok_Cons)
  have "takeWhile ?P (ps @ unmap_table s e qs) = ps @ takeWhile ?P (unmap_split s e r @ unmap_table s e rs)"
    using assms(4) Cons by (simp add: takeWhile_append2 unmap_table_Cons)
  then show ?thesis
    using unmap_split_take [OF r(1) assms(3) r(2), of "unmap_table s e rs"] assms(2)
    by (auto simp: coalesced_append mergeable_def head_region_fields [OF r(1)])
qed

text \<open>A table cut at an index whose left part ends at or below start is coalesced as a whole.\<close>

lemma coalesce_around_coalesced:
  assumes "table_ok rs" "page_range s e"
    and "coalesced (takeWhile (\<lambda>q. r_base q + r_len q \<le> s) rs)"
    and "coalesced (dropWhile (\<lambda>q. r_base q \<le> e) rs)"
  shows "coalesced (coalesce_around rs s e)"
proof -
  obtain ps qs where rs: "rs = ps @ qs" "length ps = first_overlap rs s"
    and ps: "\<forall>p \<in> set ps. r_base p + r_len p \<le> s" and qs: "\<forall>q \<in> set qs. s < r_base q + r_len q"
    using first_overlap_lists [OF assms(1)] by metis
  have take: "takeWhile (\<lambda>q. r_base q + r_len q \<le> s) rs = ps"
    using ps qs rs(1) by (cases qs) (auto simp: takeWhile_append2)
  have low: "\<forall>p \<in> set ps. r_base p \<le> e" using ps assms(2) by (fastforce simp: page_range_def)
  show ?thesis
  proof (cases ps rule: rev_cases)
    case Nil
    then have "coalesce_around rs s e = coalesce_list e rs"
      using rs coalesce_loop_list [of rs "[]" e] assms(1) by (simp add: coalesce_around_def)
    then show ?thesis using coalesce_list_coalesced [OF assms(4)] by simp
  next
    case (snoc as p)
    have rest: "table_ok (p # qs)" using assms(1) rs snoc by (simp add: table_ok_append)
    have "first_overlap rs s = Suc (length as)" using rs(2) snoc by simp
    then have "coalesce_around rs s e = coalesce_loop (as @ p # qs) (length as) e"
      using rs(1) snoc by (simp add: coalesce_around_def)
    then have "coalesce_around rs s e = as @ coalesce_list e (p # qs)"
      by (simp add: coalesce_loop_list [OF rest])
    moreover have "coalesced (coalesce_list e (p # qs))"
    proof (rule coalesce_list_coalesced)
      have "dropWhile (\<lambda>q. r_base q \<le> e) rs = dropWhile (\<lambda>q. r_base q \<le> e) (p # qs)"
        using low rs snoc by (simp add: dropWhile_append)
      then show "coalesced (dropWhile (\<lambda>r. r_base r \<le> e) (p # qs))" using assms(4) by simp
    qed
    ultimately show ?thesis
      using assms(3) take snoc coalesce_list_first [of e p qs]
      by (auto simp: coalesced_append mergeable_def)
  qed
qed

lemma coalesce_around_ok:
  assumes "table_ok rs"
  shows "table_ok (coalesce_around rs s e) \<and> live_at (coalesce_around rs s e) = live_at rs \<and>
    owned (coalesce_around rs s e) = owned rs \<and> refs_in (coalesce_around rs s e) = refs_in rs"
proof -
  obtain ps qs where rs: "rs = ps @ qs" "coalesce_around rs s e = ps @ coalesce_list e qs"
  proof -
    let ?i = "first_overlap rs s" let ?j = "if ?i > 0 then ?i - 1 else ?i"
    have "?i \<le> length rs" using first_overlap_split [OF assms, of s] by (simp add: overlap_split_def)
    then have j: "length (take ?j rs) = ?j" by auto
    have "table_ok (drop ?j rs)" using assms by (metis append_take_drop_id table_ok_append)
    then have "coalesce_loop (take ?j rs @ drop ?j rs) (length (take ?j rs)) e =
        take ?j rs @ coalesce_list e (drop ?j rs)" by (rule coalesce_loop_list)
    then have "coalesce_around rs s e = take ?j rs @ coalesce_list e (drop ?j rs)"
      unfolding j by (simp only: coalesce_around_def Let_def append_take_drop_id)
    then show thesis using that [of "take ?j rs" "drop ?j rs"] by simp
  qed
  have q: "table_ok qs" using assms rs(1) by (simp add: table_ok_append)
  note c = coalesce_list_ok [OF q, of e]
  have "\<forall>p \<in> set ps. \<forall>x \<in> set (coalesce_list e qs). r_base p + r_len p \<le> r_base x"
    using c assms rs(1) by (simp add: table_ok_append)
  then show ?thesis using c assms unfolding rs(2)
    by (auto simp: rs(1) table_ok_append live_at_append fun_eq_iff split: option.split)
qed

section \<open>Two slots are enough\<close>

lemma coalesce_list_length: "length (coalesce_list e rs) \<le> length rs"
  by (induction e rs rule: coalesce_list.induct) auto

lemma coalesce_around_length:
  assumes "table_ok rs"
  shows "length (coalesce_around rs s e) \<le> length rs"
proof -
  let ?i = "first_overlap rs s" let ?j = "if ?i > 0 then ?i - 1 else ?i"
  have "?i \<le> length rs" using first_overlap_split [OF assms, of s] by (simp add: overlap_split_def)
  then have j: "length (take ?j rs) = ?j" by auto
  have "table_ok (drop ?j rs)" using assms by (metis append_take_drop_id table_ok_append)
  then have "coalesce_loop (take ?j rs @ drop ?j rs) (length (take ?j rs)) e =
      take ?j rs @ coalesce_list e (drop ?j rs)" by (rule coalesce_loop_list)
  then have "coalesce_around rs s e = take ?j rs @ coalesce_list e (drop ?j rs)"
    unfolding j by (simp only: coalesce_around_def Let_def append_take_drop_id)
  then show ?thesis using coalesce_list_length [of e "drop ?j rs"]
    by (metis append_take_drop_id length_append nat_add_left_cancel_le)
qed

text \<open>Only a region that one of the two ends cuts strictly adds a slot, and each end cuts one.\<close>

definition cut_by :: "nat \<Rightarrow> region list \<Rightarrow> bool" where
  "cut_by x rs \<longleftrightarrow> (\<exists>r \<in> set rs. r_base r < x \<and> x < r_base r + r_len r)"

lemma cut_by_later:
  "\<forall>q \<in> set rs. r_base r + r_len r \<le> r_base q \<Longrightarrow> x < r_base r + r_len r \<Longrightarrow> \<not> cut_by x rs"
  by (fastforce simp: cut_by_def)

lemma unmap_split_slots:
  assumes "region_ok r" "page_range s e"
  shows "length (unmap_split s e r) \<le> 1 + (if cut_by s [r] then 1 else 0) + (if cut_by e [r] then 1 else 0)"
  by (cases rule: unmap_split_cases [OF assms]) (auto simp: cut_by_def)

lemma unmap_table_length:
  assumes "table_ok rs" "page_range s e"
  shows "length (unmap_table s e rs) \<le>
    length rs + (if cut_by s rs then 1 else 0) + (if cut_by e rs then 1 else 0)"
  using assms(1)
proof (induction rs)
  case Nil
  then show ?case by (simp add: unmap_table_def)
next
  case (Cons r rs)
  have r: "region_ok r" "table_ok rs" "\<forall>q \<in> set rs. r_base r + r_len r \<le> r_base q"
    using Cons.prems by (simp_all add: table_ok_Cons)
  have c: "cut_by x (r # rs) \<longleftrightarrow> cut_by x [r] \<or> cut_by x rs" for x by (auto simp: cut_by_def)
  have "cut_by x [r] \<Longrightarrow> \<not> cut_by x rs" for x
    using cut_by_later [OF r(3)] by (simp add: cut_by_def)
  then show ?case
    using Cons.IH [OF r(2)] unmap_split_slots [OF r(1) assms(2)] c
    by (simp add: unmap_table_Cons split: if_splits)
qed

section \<open>unmap_range\<close>

lemma unmap_range_laws:
  assumes "table_ok rs" "frefs_ok fr rs" "page_range s e" "pwrite_progress H fuel" "size_mod \<le> fuel"
  shows "\<exists>rs' fr' h'. unmap_range fuel H m s e rs fr h = Some (rs', fr', h') \<and>
    table_ok rs' \<and> frefs_ok fr' rs' \<and> owned rs' = owned rs \<and>
    (\<forall>a. live_at rs' a = (if s \<le> a \<and> a < e then None else live_at rs a)) \<and>
    (coalesced rs \<longrightarrow> coalesced rs') \<and>
    length rs' \<le> length rs + (if cut_by s rs then 1 else 0) + (if cut_by e rs then 1 else 0)"
proof -
  obtain ps qs where rs: "rs = ps @ qs" "length ps = first_overlap rs s"
    and ps: "\<forall>p \<in> set ps. r_base p + r_len p \<le> s" and qs: "\<forall>q \<in> set qs. s < r_base q + r_len q"
    using first_overlap_lists [OF assms(1)] by metis
  have q: "table_ok qs" using assms(1) rs(1) by (simp add: table_ok_append)
  have "length ps + 3 * length qs < size_mod - 1" using table_length [OF assms(1)] rs(1) by simp
  then obtain fr1 h1 where
    loop: "unmap_loop fuel H m s e (length ps) (ps @ qs) fr h = Some (ps @ unmap_table s e qs, fr1, h1)"
    and fr1: "frefs_ok fr1 (ps @ unmap_table s e qs)"
    using unmap_loop_returns [OF q assms(3) qs _ _ assms(4,5)] assms(2) rs(1) by metis
  let ?t = "unmap_table s e rs"
  have "unmap_table s e ps = ps" using ps by (intro unmap_table_apart) simp
  then have t: "ps @ unmap_table s e qs = ?t" by (simp add: rs(1) unmap_table_append)
  have ok: "\<forall>r \<in> set rs. region_ok r" using assms(1) by (simp add: table_ok_def)
  have tok: "table_ok ?t" by (rule unmap_table_ok [OF assms(1,3)])
  note c = coalesce_around_ok [OF tok, of s e]
  have "unmap_range fuel H m s e rs fr h = Some (coalesce_around ?t s e, fr1, h1)"
    using loop rs t by (simp add: unmap_range_def)
  moreover have "frefs_ok fr1 (coalesce_around ?t s e)"
    using fr1 c unfolding t by (intro frefs_ok_cong [OF fr1 [unfolded t]]) simp
  moreover have "coalesced rs \<Longrightarrow> coalesced (coalesce_around ?t s e)"
  proof (rule coalesce_around_coalesced [OF tok assms(3)])
    assume co: "coalesced rs"
    show "coalesced (takeWhile (\<lambda>q. r_base q + r_len q \<le> s) ?t)"
      using unmap_table_take [OF _ _ assms(3) ps qs] assms(1) co rs(1) t by simp
    show "coalesced (dropWhile (\<lambda>q. r_base q \<le> e) ?t)"
      using co by (simp add: unmap_table_drop [OF assms(1,3)] coalesced_dropWhile)
  qed
  moreover have "length (coalesce_around ?t s e) \<le>
      length rs + (if cut_by s rs then 1 else 0) + (if cut_by e rs then 1 else 0)"
    using coalesce_around_length [OF tok, of s e] unmap_table_length [OF assms(1,3)] by linarith
  ultimately show ?thesis
    using c unmap_table_view [OF ok assms(3)] unmap_table_owned [OF ok assms(3)] by simp
qed

end
