(* ===== verification/Mman_Map.thy ===== *)
theory Mman_Map
  imports Mman_Range "HOL-Library.While_Combinator"
begin

text \<open>
  The calls of the mmap emulation (libc-bottom-half/mman/mman.c): reserve, acquire_pages, mmap,
  munmap and msync, over the state of the component.  The mutex of the C code makes every call
  atomic, so a call is one state transformer.
\<close>

section \<open>State\<close>

record 'h mman =
  mm_regs :: "region list"
  mm_cap :: nat
  mm_frefs :: frefs
  mm_mem :: memory
  mm_pages :: nat
  mm_host :: 'h

abbreviation region_size :: nat where "region_size \<equiv> 48"
abbreviation PTRDIFF_MAX :: nat where "PTRDIFF_MAX \<equiv> 2147483647"

abbreviation MAP_SHARED :: "32 word" where "MAP_SHARED \<equiv> 0x01"
abbreviation MAP_PRIVATE :: "32 word" where "MAP_PRIVATE \<equiv> 0x02"
abbreviation MAP_SHARED_VALIDATE :: "32 word" where "MAP_SHARED_VALIDATE \<equiv> 0x03"
abbreviation MAP_FIXED :: "32 word" where "MAP_FIXED \<equiv> 0x10"
abbreviation MAP_ANON :: "32 word" where "MAP_ANON \<equiv> 0x20"
abbreviation MAP_GROWSDOWN :: "32 word" where "MAP_GROWSDOWN \<equiv> 0x0100"
abbreviation MAP_HUGETLB :: "32 word" where "MAP_HUGETLB \<equiv> 0x40000"
abbreviation MAP_FIXED_NOREPLACE :: "32 word" where "MAP_FIXED_NOREPLACE \<equiv> 0x100000"
abbreviation PROT_NONE :: "32 word" where "PROT_NONE \<equiv> 0"
abbreviation PROT_EXEC :: "32 word" where "PROT_EXEC \<equiv> 4"
abbreviation MS_ASYNC :: "32 word" where "MS_ASYNC \<equiv> 1"
abbreviation MS_INVALIDATE :: "32 word" where "MS_INVALIDATE \<equiv> 2"
abbreviation MS_SYNC :: "32 word" where "MS_SYNC \<equiv> 4"

section \<open>reserve\<close>

definition reserve :: "'h mman_host \<Rightarrow> nat \<Rightarrow> 'h mman \<Rightarrow> (bool \<times> 'h mman) option" where
  "reserve H extra s =
     (let need = szadd (length (mm_regs s)) extra in
      if need \<le> mm_cap s then Some (True, s)
      else do {
        newcap \<leftarrow> while_option (\<lambda>c. c < need) (\<lambda>c. szmul c 2)
          (if mm_cap s \<noteq> 0 then szmul (mm_cap s) 2 else 16);
        let (ok, h) = mh_alloc H (szmul newcap region_size) (mm_host s);
        Some (if ok then (True, s\<lparr>mm_cap := newcap, mm_host := h\<rparr>) else (False, s\<lparr>mm_host := h\<rparr>)) })"

section \<open>acquire_pages\<close>

fun first_fit :: "region list \<Rightarrow> nat \<Rightarrow> nat option" where
  "first_fit [] len = None"
| "first_fit (r # rs) len =
     (if r_kind r \<noteq> R_FREE \<or> r_len r < len then map_option Suc (first_fit rs len) else Some 0)"

datatype acquired = Acquired nat | Acquire_failed | Acquire_aborted

definition claim_region :: "rkind \<Rightarrow> 32 word \<Rightarrow> 32 word \<Rightarrow> region \<Rightarrow> region" where
  "claim_region kind prot flags r =
     r\<lparr>r_kind := kind, r_dirty := False, r_prot := prot, r_flags := flags, r_fref := None,
       r_off := 0, r_data_len := 0\<rparr>"

definition fresh_region :: "nat \<Rightarrow> nat \<Rightarrow> rkind \<Rightarrow> 32 word \<Rightarrow> 32 word \<Rightarrow> region" where
  "fresh_region b len kind prot flags = \<lparr>r_base = b, r_len = len, r_kind = kind, r_dirty = False,
     r_prot = prot, r_flags = flags, r_fref = None, r_off = 0, r_data_len = 0\<rparr>"

definition acquire_pages ::
  "'h mman_host \<Rightarrow> nat \<Rightarrow> rkind \<Rightarrow> 32 word \<Rightarrow> 32 word \<Rightarrow> 'h mman \<Rightarrow> acquired \<times> 'h mman" where
  "acquire_pages H len kind prot flags s =
     (case first_fit (mm_regs s) len of
        Some i \<Rightarrow>
          (let r = mm_regs s ! i;
               rs = (if r_len r > len then
                       list_insert_at i (r\<lparr>r_len := len\<rparr>)
                         ((mm_regs s)[i := r\<lparr>r_base := szadd (r_base r) len, r_len := szsub (r_len r) len\<rparr>])
                     else mm_regs s);
               rs' = rs[i := claim_region kind prot flags (rs ! i)] in
           (Acquired i,
            s\<lparr>mm_regs := rs',
              mm_mem := (if r_dirty r then mem_zero (r_base (rs' ! i)) len (mm_mem s) else mm_mem s)\<rparr>))
      | None \<Rightarrow>
          (case sbrk (mh_grow H) (to_intptr len) (mm_pages s) (mm_host s) of
             (Sbrk_abort, p, h) \<Rightarrow> (Acquire_aborted, s\<lparr>mm_pages := p, mm_host := h\<rparr>)
           | (Sbrk_enomem, p, h) \<Rightarrow> (Acquire_failed, s\<lparr>mm_pages := p, mm_host := h\<rparr>)
           | (Sbrk_ok b, p, h) \<Rightarrow>
               (let i = first_overlap (mm_regs s) b in
                (Acquired i,
                 s\<lparr>mm_regs := list_insert_at i (fresh_region b len kind prot flags) (mm_regs s),
                   mm_pages := p, mm_host := h\<rparr>))))"

section \<open>mmap\<close>

text \<open>The argument checks, in the order of the code; \<open>None\<close> when all pass.\<close>

definition mmap_check :: "nat \<Rightarrow> 32 word \<Rightarrow> 32 word \<Rightarrow> int \<Rightarrow> int \<Rightarrow> errno option" where
  "mmap_check len prot flags fd offset =
     (if flags AND (MAP_PRIVATE OR MAP_SHARED) = 0 \<or> flags AND MAP_FIXED \<noteq> 0 \<or>
         flags AND MAP_SHARED_VALIDATE = MAP_SHARED_VALIDATE \<or> flags AND MAP_GROWSDOWN \<noteq> 0 \<or>
         flags AND MAP_HUGETLB \<noteq> 0 \<or> flags AND MAP_FIXED_NOREPLACE \<noteq> 0 then Some EINVAL
      else if prot = PROT_NONE \<or> prot AND PROT_EXEC \<noteq> 0 then Some EINVAL
      else if len = 0 then Some EINVAL
      else if len \<ge> PTRDIFF_MAX then Some ENOMEM
      else if flags AND MAP_ANON = 0 \<and> fd < 0 then Some EBADF
      else if flags AND MAP_ANON = 0 \<and> (offset < 0 \<or> offset AND (int PAGE - 1) \<noteq> 0) then Some EINVAL
      else if page_ceil len < len then Some ENOMEM
      else None)"

text \<open>The loop that fills a file mapping: the byte count that was read, or the error of pread.\<close>

fun populate :: "nat \<Rightarrow> 'h mman_host \<Rightarrow> int \<Rightarrow> nat \<Rightarrow> nat \<Rightarrow> int \<Rightarrow> nat \<Rightarrow> memory \<Rightarrow> 'h \<Rightarrow>
    ((errno + nat) \<times> memory \<times> 'h) option" where
  "populate 0 H fd body remaining off tot m h =
     (if remaining > 0 then None else Some (Inr tot, m, h))"
| "populate (Suc fuel) H fd body remaining off tot m h =
     (if remaining > 0 then
        (case mh_pread H fd remaining off h of
           (Inl e, h') \<Rightarrow>
             if e = EINTR then populate fuel H fd body remaining off tot m h'
             else Some (Inl e, m, h')
         | (Inr bs, h') \<Rightarrow>
             if bs = [] then Some (Inr tot, m, h')
             else populate fuel H fd (szadd body (length bs)) (szsub remaining (length bs))
               (off + int (length bs)) (szadd tot (length bs)) (mem_write body bs m) h')
      else Some (Inr tot, m, h))"

datatype mmap_result = Mapped nat | Map_failed errno | Map_aborted

text \<open>Giving a region up again after a later step of mmap failed.\<close>

definition mmap_undo :: "nat \<Rightarrow> 'h mman_host \<Rightarrow> nat \<Rightarrow> nat \<Rightarrow> errno \<Rightarrow> 'h mman \<Rightarrow>
    (mmap_result \<times> 'h mman) option" where
  "mmap_undo fuel H base len e s = do {
     (rs, fr, h) \<leftarrow> unmap_range fuel H (mm_mem s) base (szadd base len) (mm_regs s) (mm_frefs s) (mm_host s);
     Some (Map_failed e, s\<lparr>mm_regs := rs, mm_frefs := fr, mm_host := h\<rparr>) }"

text \<open>The file part of mmap, once the pages are acquired at index \<open>idx\<close>.\<close>

definition mmap_file :: "nat \<Rightarrow> 'h mman_host \<Rightarrow> nat \<Rightarrow> nat \<Rightarrow> 32 word \<Rightarrow> 32 word \<Rightarrow> int \<Rightarrow> int \<Rightarrow>
    'h mman \<Rightarrow> (mmap_result \<times> 'h mman) option" where
  "mmap_file fuel H idx len prot flags fd offset s =
     (let base = r_base (mm_regs s ! idx) in do {
        (res, m, h) \<leftarrow> populate fuel H fd base len offset 0 (mm_mem s) (mm_host s);
        let s = s\<lparr>mm_mem := m, mm_host := h\<rparr>;
        case res of
          Inl e \<Rightarrow> mmap_undo fuel H base len e s
        | Inr tot \<Rightarrow>
            (let s = s\<lparr>mm_regs := (mm_regs s)[idx := (mm_regs s ! idx)\<lparr>r_off := offset, r_data_len := tot\<rparr>]\<rparr> in
             if flags AND MAP_SHARED \<noteq> 0 \<and> prot AND PROT_WRITE \<noteq> 0 then
               (case mh_malloc H 8 (mm_host s) of
                  (None, h) \<Rightarrow> mmap_undo fuel H base len ENOMEM (s\<lparr>mm_host := h\<rparr>)
                | (Some p, h) \<Rightarrow>
                    (case mh_dup H fd h of
                       (Inl e, h) \<Rightarrow> mmap_undo fuel H base len e (s\<lparr>mm_host := h\<rparr>)
                     | (Inr newfd, h) \<Rightarrow>
                         Some (Mapped base,
                           s\<lparr>mm_regs := (mm_regs s)[idx := (mm_regs s ! idx)\<lparr>r_fref := Some p\<rparr>],
                             mm_frefs := (mm_frefs s)(p \<mapsto> \<lparr>fr_fd = newfd, fr_refs = 1\<rparr>),
                             mm_host := h\<rparr>)))
             else Some (Mapped base, s)) })"

definition mmap :: "nat \<Rightarrow> 'h mman_host \<Rightarrow> nat \<Rightarrow> 32 word \<Rightarrow> 32 word \<Rightarrow> int \<Rightarrow> int \<Rightarrow> 'h mman \<Rightarrow>
    (mmap_result \<times> 'h mman) option" where
  "mmap fuel H req prot flags fd offset s =
     (case mmap_check req prot flags fd offset of
        Some e \<Rightarrow> Some (Map_failed e, s)
      | None \<Rightarrow>
          (let len = page_ceil req; anon = (flags AND MAP_ANON \<noteq> 0) in do {
             (ok, s) \<leftarrow> reserve H 2 s;
             if \<not> ok then Some (Map_failed ENOMEM, s)
             else
               (case acquire_pages H len (if anon then R_ANON else R_FILE) prot flags s of
                  (Acquire_aborted, s) \<Rightarrow> Some (Map_aborted, s)
                | (Acquire_failed, s) \<Rightarrow> Some (Map_failed ENOMEM, s)
                | (Acquired idx, s) \<Rightarrow>
                    if anon then Some (Mapped (r_base (mm_regs s ! idx)), s)
                    else mmap_file fuel H idx len prot flags fd offset s) }))"

section \<open>munmap\<close>

definition munmap :: "nat \<Rightarrow> 'h mman_host \<Rightarrow> nat \<Rightarrow> nat \<Rightarrow> 'h mman \<Rightarrow>
    ((errno + unit) \<times> 'h mman) option" where
  "munmap fuel H start req s =
     (if page_offset start \<noteq> 0 \<or> req = 0 then Some (Inl EINVAL, s)
      else
        let len = page_ceil req in
        if len < req \<or> szadd start len < start then Some (Inl EINVAL, s)
        else do {
          (ok, s) \<leftarrow> reserve H 2 s;
          if \<not> ok then Some (Inl ENOMEM, s)
          else do {
            (rs, fr, h) \<leftarrow> unmap_range fuel H (mm_mem s) start (szadd start len)
              (mm_regs s) (mm_frefs s) (mm_host s);
            Some (Inr (), s\<lparr>mm_regs := rs, mm_frefs := fr, mm_host := h\<rparr>) } })"

section \<open>msync\<close>

fun msync_covered :: "region list \<Rightarrow> nat \<Rightarrow> nat \<Rightarrow> bool" where
  "msync_covered qs cursor stop =
     (if cursor < stop then
        (case qs of [] \<Rightarrow> False
         | r # rest \<Rightarrow>
             if r_kind r = R_FREE \<or> r_base r > cursor then False
             else msync_covered rest (r_end r) stop)
      else True)"

declare msync_covered.simps [simp del]

fun msync_write :: "nat \<Rightarrow> 'h mman_host \<Rightarrow> frefs \<Rightarrow> memory \<Rightarrow> nat \<Rightarrow> nat \<Rightarrow> region list \<Rightarrow>
    errno + unit \<Rightarrow> 'h \<Rightarrow> ((errno + unit) \<times> 'h) option" where
  "msync_write fuel H fr m start stop [] result h = Some (result, h)"
| "msync_write fuel H fr m start stop (r # rs) result h =
     (if r_base r < stop then
        if r_kind r \<noteq> R_FILE \<or> r_fref r = None \<or> r_prot r AND PROT_WRITE = 0 then
          msync_write fuel H fr m start stop rs result h
        else do {
          (res, h) \<leftarrow> writeback fuel H fr m r (if r_base r > start then r_base r else start)
            (if r_end r < stop then r_end r else stop) h;
          msync_write fuel H fr m start stop rs (case res of Inl e \<Rightarrow> Inl e | Inr _ \<Rightarrow> result) h }
      else Some (result, h))"

definition msync :: "nat \<Rightarrow> 'h mman_host \<Rightarrow> nat \<Rightarrow> nat \<Rightarrow> 32 word \<Rightarrow> 'h mman \<Rightarrow>
    ((errno + unit) \<times> 'h mman) option" where
  "msync fuel H start req flags s =
     (if page_offset start \<noteq> 0 \<or> (flags AND MS_ASYNC \<noteq> 0 \<and> flags AND MS_SYNC \<noteq> 0) \<or>
         flags AND NOT (MS_ASYNC OR MS_SYNC OR MS_INVALIDATE) \<noteq> 0 then Some (Inl EINVAL, s)
      else if req = 0 then Some (Inr (), s)
      else
        let len = page_ceil req in
        if len < req \<or> szadd start len < start then Some (Inl ENOMEM, s)
        else
          let stop = szadd start len; qs = drop (first_overlap (mm_regs s) start) (mm_regs s) in
          if \<not> msync_covered qs start stop then Some (Inl ENOMEM, s)
          else do {
            (res, h) \<leftarrow> msync_write fuel H (mm_frefs s) (mm_mem s) start stop qs (Inr ()) (mm_host s);
            Some (res, s\<lparr>mm_host := h\<rparr>) })"

end
