(* ===== verification/Mman_Laws.thy ===== *)
theory Mman_Laws
  imports Mman_Map
begin

text \<open>
  The invariant of the mmap emulation and its preservation: capacity reservation, acquiring pages,
  and the calls mmap, munmap and msync.
\<close>

section \<open>The invariant\<close>

text \<open>
  The table is well formed and coalesced, the file references are counted, every region lies in
  the grown part of linear memory, the memory above it is zero, and the array has room for its
  regions.  The last bound on the capacity is what its growth policy gives.
\<close>

definition mman_ok :: "'h mman \<Rightarrow> bool" where
  "mman_ok s \<longleftrightarrow> table_ok (mm_regs s) \<and> coalesced (mm_regs s) \<and> frefs_ok (mm_frefs s) (mm_regs s) \<and>
     mm_pages s < max_pages \<and> (\<forall>r \<in> set (mm_regs s). r_base r + r_len r \<le> mm_pages s * PAGE) \<and>
     (\<forall>a. mm_pages s * PAGE \<le> a \<longrightarrow> mm_mem s a = 0) \<and>
     length (mm_regs s) \<le> mm_cap s \<and> (mm_cap s = 0 \<or> 16 \<le> mm_cap s) \<and> mm_cap s < 200000"

definition mman_init :: "nat \<Rightarrow> 'h \<Rightarrow> 'h mman" where
  "mman_init pages h = \<lparr>mm_regs = [], mm_cap = 0, mm_frefs = Map.empty, mm_mem = (\<lambda>_. 0),
     mm_pages = pages, mm_host = h\<rparr>"

lemma mman_ok_init: "pages < max_pages \<Longrightarrow> mman_ok (mman_init pages h)"
  by (simp add: mman_ok_def mman_init_def frefs_ok_def ref_count_ok_def refs_in_def)

lemma mman_okD:
  assumes "mman_ok s"
  shows "table_ok (mm_regs s)" "coalesced (mm_regs s)" "frefs_ok (mm_frefs s) (mm_regs s)"
    "mm_pages s < max_pages" "\<forall>r \<in> set (mm_regs s). r_base r + r_len r \<le> mm_pages s * PAGE"
    "\<And>a. mm_pages s * PAGE \<le> a \<Longrightarrow> mm_mem s a = 0"
    "length (mm_regs s) \<le> mm_cap s" "mm_cap s = 0 \<or> 16 \<le> mm_cap s" "mm_cap s < 200000"
  using assms by (auto simp: mman_ok_def)

section \<open>reserve\<close>

lemma reserve_returns:
  assumes "mman_ok s"
  shows "\<exists>ok cap h. reserve H 2 s = Some (ok, s\<lparr>mm_cap := cap, mm_host := h\<rparr>) \<and>
    mman_ok (s\<lparr>mm_cap := cap, mm_host := h\<rparr>) \<and> (ok \<longrightarrow> length (mm_regs s) + 2 \<le> cap)"
proof -
  note s = mman_okD [OF assms]
  have len: "length (mm_regs s) \<le> 65536" by (rule table_length [OF s(1)])
  have need: "szadd (length (mm_regs s)) 2 = length (mm_regs s) + 2"
    using len by (simp add: size_simps)
  show ?thesis
  proof (cases "length (mm_regs s) + 2 \<le> mm_cap s")
    case True
    then have "reserve H 2 s = Some (True, s\<lparr>mm_cap := mm_cap s, mm_host := mm_host s\<rparr>)"
      by (simp add: reserve_def need)
    then show ?thesis
      by (intro exI [of _ True] exI [of _ "mm_cap s"] exI [of _ "mm_host s"]) (use assms True in simp)
  next
    case False
    define c where "c = (if mm_cap s \<noteq> 0 then szmul (mm_cap s) 2 else 16)"
    have c: "length (mm_regs s) + 2 \<le> c" "16 \<le> c" "c < 200000"
      using s(7,8) False len by (auto simp: c_def size_simps)
    have w: "while_option (\<lambda>c. c < length (mm_regs s) + 2) (\<lambda>c. szmul c 2) c = Some c"
      using c(1) by (subst while_option_unfold) simp
    obtain ok h where a: "mh_alloc H (szmul c region_size) (mm_host s) = (ok, h)"
      by (cases "mh_alloc H (szmul c region_size) (mm_host s)")
    have "reserve H 2 s = Some (ok, s\<lparr>mm_cap := (if ok then c else mm_cap s), mm_host := h\<rparr>)"
      unfolding reserve_def Let_def need c_def [symmetric] w
      using False a by (simp del: bind_eq_Some)
    moreover have "mman_ok (s\<lparr>mm_cap := (if ok then c else mm_cap s), mm_host := h\<rparr>)"
      using assms c by (simp add: mman_ok_def)
    ultimately show ?thesis
      by (intro exI [of _ ok] exI [of _ "if ok then c else mm_cap s"] exI [of _ h]) (use c(1) in simp)
  qed
qed

section \<open>acquire_pages\<close>

text \<open>What the address-space view shows of a region just acquired.\<close>

definition new_view :: "rkind \<Rightarrow> 32 word \<Rightarrow> 32 word \<Rightarrow> nat \<Rightarrow> nat \<Rightarrow> page_view" where
  "new_view kind prot flags b a = \<lparr>v_kind = kind, v_prot = prot, v_flags = flags, v_fref = None,
     v_off = (if kind = R_FILE then int a - int b else 0), v_backed = False\<rparr>"

lemma first_fit_Some:
  "first_fit rs len = Some i \<Longrightarrow> i < length rs \<and> r_kind (rs ! i) = R_FREE \<and> len \<le> r_len (rs ! i)"
  by (induction rs arbitrary: i) (fastforce split: if_splits)+

lemma region_view_new:
  assumes "r_kind r = kind" "r_prot r = prot" "r_flags r = flags" "r_fref r = None" "r_off r = 0"
    "r_data_len r = 0" "kind \<noteq> R_FREE"
  shows "region_view a r = (if in_region a r then Some (new_view kind prot flags (r_base r) a) else None)"
  using assms by (auto simp: region_view_def new_view_def)

text \<open>
  The table after an acquisition from the pool: the first \<open>len\<close> bytes of a free region become
  the new region, the rest stays free.
\<close>

definition pool_take :: "region list \<Rightarrow> region \<Rightarrow> region \<Rightarrow> region list \<Rightarrow> region list" where
  "pool_take ps n r qs = ps @ n #
     (if r_len r > r_len n
      then [r\<lparr>r_base := r_base r + r_len n, r_len := r_len r - r_len n\<rparr>] else []) @ qs"

lemma pool_take_laws:
  assumes "table_ok (ps @ r # qs)" "coalesced (ps @ r # qs)" "r_kind r = R_FREE"
    and n: "r_base n = r_base r" "0 < r_len n" "r_len n \<le> r_len r" "r_len n mod PAGE = 0"
      "r_kind n \<noteq> R_FREE" "r_fref n = None" "r_data_len n = 0"
  shows "table_ok (pool_take ps n r qs)" "coalesced (pool_take ps n r qs)"
    "refs_in (pool_take ps n r qs) = refs_in (ps @ r # qs)"
    "owned (pool_take ps n r qs) = owned (ps @ r # qs)"
    "live_at (pool_take ps n r qs) a =
       (case region_view a n of Some v \<Rightarrow> Some v | None \<Rightarrow> live_at (ps @ r # qs) a)"
    "in_region a n \<Longrightarrow> live_at (ps @ r # qs) a = None"
proof -
  let ?q = "r\<lparr>r_base := r_base r + r_len n, r_len := r_len r - r_len n\<rparr>"
  have r: "region_ok r" and ps: "table_ok ps" and qs: "table_ok qs"
    and psr: "\<forall>p \<in> set ps. r_base p + r_len p \<le> r_base r"
    and rqs: "\<forall>q \<in> set qs. r_base r + r_len r \<le> r_base q"
    and psq: "\<forall>p \<in> set ps. \<forall>q \<in> set qs. r_base p + r_len p \<le> r_base q"
    using assms(1) by (auto simp: table_ok_append table_ok_Cons)
  have nok: "region_ok n" using r n by (auto simp: region_ok_def)
  have qok: "r_len n < r_len r \<Longrightarrow> region_ok ?q"
    using r n assms(3) page_sum [of "r_base r" "r_len n"] page_diff [of "r_len r" "r_len n"]
    by (auto simp: region_ok_def)
  show "table_ok (pool_take ps n r qs)"
    using ps qs psr rqs psq nok qok n
    by (fastforce simp: pool_take_def table_ok_append table_ok_Cons)
  have rf: "r_fref r = None" using r assms(3) by (auto simp: region_ok_def)
  show "refs_in (pool_take ps n r qs) = refs_in (ps @ r # qs)"
    using rf n(6) by (auto simp: pool_take_def fun_eq_iff)
  show "owned (pool_take ps n r qs) = owned (ps @ r # qs)"
    using n by (auto simp: pool_take_def)
  have "mergeable ?q x \<Longrightarrow> mergeable r x" if "r_len n < r_len r" for x
    using that assms(3) by (simp add: mergeable_def)
  then show "coalesced (pool_take ps n r qs)"
    using assms(2) n(5)
    by (auto simp: pool_take_def coalesced_append coalesced_Cons mergeable_def)
  have nr: "region_view a ?q = None" "region_view a r = None"
    using assms(3) by (simp_all add: region_view_free)
  have apart: "in_region a n \<Longrightarrow> live_at ps a = None \<and> live_at qs a = None"
    using psr rqs n by (fastforce simp: live_at_None in_region_def region_view_apart)
  then show "in_region a n \<Longrightarrow> live_at (ps @ r # qs) a = None"
    using nr by (simp add: live_at_append)
  show "live_at (pool_take ps n r qs) a =
      (case region_view a n of Some v \<Rightarrow> Some v | None \<Rightarrow> live_at (ps @ r # qs) a)"
    using apart nr n(5)
    by (auto simp: pool_take_def live_at_append region_view_def split: option.splits)
qed

text \<open>
  What an acquisition at index \<open>i\<close> did: the region there is the new mapping, its addresses were
  not live before, they hold zeros now, and nothing else changed, in the table or in memory.
\<close>

definition acquired_at ::
  "nat \<Rightarrow> nat \<Rightarrow> rkind \<Rightarrow> 32 word \<Rightarrow> 32 word \<Rightarrow> 'h mman \<Rightarrow> 'h mman \<Rightarrow> bool" where
  "acquired_at i len kind prot flags s s' \<longleftrightarrow>
     (let r = mm_regs s' ! i; b = r_base r in
      i < length (mm_regs s') \<and> r_len r = len \<and> r_kind r = kind \<and> r_prot r = prot \<and>
      r_flags r = flags \<and> r_fref r = None \<and> r_data_len r = 0 \<and>
      (\<forall>a. b \<le> a \<and> a < b + len \<longrightarrow> live_at (mm_regs s) a = None \<and> mm_mem s' a = 0) \<and>
      (\<forall>a. \<not> (b \<le> a \<and> a < b + len) \<longrightarrow> mm_mem s' a = mm_mem s a) \<and>
      (\<forall>a. live_at (mm_regs s') a =
         (if b \<le> a \<and> a < b + len then Some (new_view kind prot flags b a)
          else live_at (mm_regs s) a)))"

definition acquire_frame :: "'h mman \<Rightarrow> 'h mman \<Rightarrow> bool" where
  "acquire_frame s s' \<longleftrightarrow> mm_frefs s' = mm_frefs s \<and> mm_cap s' = mm_cap s \<and>
     length (mm_regs s') \<le> length (mm_regs s) + 1 \<and> owned (mm_regs s) \<subseteq> owned (mm_regs s')"

lemma table_below:
  "table_ok rs \<Longrightarrow> (\<forall>r \<in> set rs. r_base r + r_len r \<le> b) \<longleftrightarrow> owned rs \<subseteq> {..<b}"
proof
  assume "table_ok rs" "owned rs \<subseteq> {..<b}"
  show "\<forall>r \<in> set rs. r_base r + r_len r \<le> b"
  proof
    fix r assume r: "r \<in> set rs"
    then have "0 < r_len r" using \<open>table_ok rs\<close> by (simp add: table_ok_def region_ok_def)
    then have "r_base r + r_len r - 1 \<in> owned rs" using r by (auto simp: owned_def intro!: bexI [of _ r])
    then have "r_base r + r_len r - 1 < b" using \<open>owned rs \<subseteq> {..<b}\<close> by blast
    then show "r_base r + r_len r \<le> b" by linarith
  qed
qed (auto simp: owned_def)

lemma acquire_from_pool:
  assumes ok: "mman_ok s" and room: "length (mm_regs s) + 2 \<le> mm_cap s"
    and len: "0 < len" "len mod PAGE = 0" and kind: "kind \<noteq> R_FREE"
    and fit: "first_fit (mm_regs s) len = Some i"
    and acq: "acquire_pages H len kind prot flags s = (res, s')"
  shows "res = Acquired i \<and> mman_ok s' \<and> acquire_frame s s' \<and> acquired_at i len kind prot flags s s'"
proof -
  note s = mman_okD [OF ok]
  have i: "i < length (mm_regs s)" "r_kind (mm_regs s ! i) = R_FREE" "len \<le> r_len (mm_regs s ! i)"
    using first_fit_Some [OF fit] by auto
  define ps r qs where "ps = take i (mm_regs s)" and "r = mm_regs s ! i" and "qs = drop (Suc i) (mm_regs s)"
  have rs: "mm_regs s = ps @ r # qs" "length ps = i"
    using i(1) by (simp_all add: ps_def r_def qs_def id_take_nth_drop)
  define n where "n = claim_region kind prot flags (r\<lparr>r_len := len\<rparr>)"
  have n: "r_base n = r_base r" "0 < r_len n" "r_len n \<le> r_len r" "r_len n mod PAGE = 0"
    "r_kind n \<noteq> R_FREE" "r_fref n = None" "r_data_len n = 0" "r_len n = len" "r_off n = 0"
    "r_prot n = prot" "r_flags n = flags" "r_kind n = kind"
    using len kind i(3) by (simp_all add: n_def claim_region_def r_def [symmetric])
  have rok: "region_ok r" "r_dirty r" "r_kind r = R_FREE"
    using s(1) rs i(2) by (auto simp: table_ok_append table_ok_Cons region_ok_def r_def [symmetric])
  have z: "szadd (r_base r) len = r_base r + len" "szsub (r_len r) len = r_len r - len"
    using rok(1) i(3) by (simp_all add: region_ok_def size_simps r_def [symmetric])
  have eq: "(res, s') = (Acquired i, s\<lparr>mm_regs := pool_take ps n r qs,
      mm_mem := mem_zero (r_base r) len (mm_mem s)\<rparr>)"
    using acq fit rs rok(2) i(3) z
    by (auto simp: acquire_pages_def Let_def pool_take_def n_def claim_region_def table_simps)
  note pt = pool_take_laws [OF s(1)[unfolded rs(1)] s(2)[unfolded rs(1)] rok(3) n(1-7)]
  have fr: "frefs_ok (mm_frefs s) (pool_take ps n r qs)"
    using s(3) by (intro frefs_ok_cong [OF s(3)]) (simp add: pt(3) rs(1))
  have ow: "owned (pool_take ps n r qs) = owned (mm_regs s)" by (simp add: pt(4) rs(1))
  have lenp: "length (pool_take ps n r qs) \<le> length (mm_regs s) + 1" by (simp add: pool_take_def rs(1))
  have below: "\<forall>q \<in> set (pool_take ps n r qs). r_base q + r_len q \<le> mm_pages s * PAGE"
    using s(5) table_below [OF s(1)] table_below [OF pt(1)] ow by simp
  have "r_base r + r_len r \<le> mm_pages s * PAGE" using s(5) rs(1) by simp
  then have hi: "mem_zero (r_base r) len (mm_mem s) a = 0" if "mm_pages s * PAGE \<le> a" for a
    using s(6) [OF that] by (simp add: mem_zero_def)
  have "mman_ok s'"
    using eq pt(1,2) fr below hi s(4,8,9) lenp room by (simp add: mman_ok_def)
  moreover have "acquire_frame s s'" using eq ow lenp by (simp add: acquire_frame_def)
  moreover have "acquired_at i len kind prot flags s s'"
  proof -
    have at: "pool_take ps n r qs ! i = n" "i < length (pool_take ps n r qs)"
      using rs(2) by (auto simp: pool_take_def nth_append)
    have inr: "in_region a n \<longleftrightarrow> r_base r \<le> a \<and> a < r_base r + len" for a
      by (simp add: in_region_def n)
    have "region_view a n = (if in_region a n then Some (new_view kind prot flags (r_base r) a) else None)" for a
      using region_view_new [OF n(12,10,11,6,9,7) kind] n(1) by simp
    then have "live_at (pool_take ps n r qs) a = (if r_base r \<le> a \<and> a < r_base r + len
        then Some (new_view kind prot flags (r_base r) a) else live_at (mm_regs s) a)" for a
      using pt(5) [of a] by (simp add: inr rs(1))
    then show ?thesis
      using eq at n pt(6) by (simp add: acquired_at_def Let_def inr rs(1) mem_zero_def)
  qed
  ultimately show ?thesis using eq by simp
qed

lemma acquire_from_sbrk:
  assumes ok: "mman_ok s" and room: "length (mm_regs s) + 2 \<le> mm_cap s"
    and len: "0 < len" "len mod PAGE = 0" "len < 2147483648" and kind: "kind \<noteq> R_FREE"
    and fit: "first_fit (mm_regs s) len = None"
    and acq: "acquire_pages H len kind prot flags s = (res, s')" and pages: "mm_pages s' < max_pages"
  shows "mman_ok s' \<and> acquire_frame s s' \<and>
    (case res of Acquired i \<Rightarrow> acquired_at i len kind prot flags s s'
     | Acquire_failed \<Rightarrow> mm_regs s' = mm_regs s \<and> mm_mem s' = mm_mem s | Acquire_aborted \<Rightarrow> False)"
proof -
  note s = mman_okD [OF ok]
  let ?rs = "mm_regs s" and ?b = "mm_pages s * PAGE"
  obtain r p h where sb: "sbrk (mh_grow H) (to_intptr len) (mm_pages s) (mm_host s) = (r, p, h)"
    by (metis prod_cases3)
  have "mm_pages s \<le> max_pages" using s(4) by simp
  then consider (grown) "r = Sbrk_ok ?b" "p = mm_pages s + len div PAGE"
    | (failed) "r = Sbrk_enomem" "p = mm_pages s"
    using sbrk_grow [OF len _ sb] by blast
  then show ?thesis
  proof cases
    case failed
    then have "res = Acquire_failed" "s' = s\<lparr>mm_pages := mm_pages s, mm_host := h\<rparr>"
      using acq fit sb by (simp_all add: acquire_pages_def)
    then show ?thesis using ok by (simp add: mman_ok_def acquire_frame_def)
  next
    case grown
    define n where "n = fresh_region ?b len kind prot flags"
    have n: "r_base n = ?b" "r_len n = len" "r_kind n = kind" "r_prot n = prot" "r_flags n = flags"
      "r_fref n = None" "r_off n = 0" "r_data_len n = 0" by (simp_all add: n_def fresh_region_def)
    have e: "p * PAGE = ?b + len" using grown(2) len(2) by (simp add: algebra_simps mod_0_imp_dvd)
    obtain ps qs where sp: "?rs = ps @ qs" "length ps = first_overlap ?rs ?b"
      and "\<forall>q \<in> set qs. ?b < r_base q + r_len q"
      using first_overlap_lists [OF s(1)] by metis
    then have "qs = []" using s(5) by (cases qs) auto
    then have fo: "first_overlap ?rs ?b = length ?rs" using sp by simp
    have res: "res = Acquired (length ?rs)"
      and s': "s' = s\<lparr>mm_regs := ?rs @ [n], mm_pages := p, mm_host := h\<rparr>"
      using acq fit sb grown(1) fo by (simp_all add: acquire_pages_def n_def list_insert_at_def Let_def)
    have pm: "p < max_pages" using pages s' by simp
    have nok: "region_ok n" using n len kind e pm by (auto simp: region_ok_def)
    have tok: "table_ok (?rs @ [n])" using s(1,5) nok n by (auto simp: table_ok_append table_ok_Cons)
    have co: "coalesced (?rs @ [n])" using s(2) n kind by (simp add: coalesced_append mergeable_def)
    have fr: "frefs_ok (mm_frefs s) (?rs @ [n])"
      by (rule frefs_ok_cong [OF s(3)]) (simp add: n)
    have "mman_ok s'"
      using s' tok co fr pm e n s(5,6,8,9) room by (fastforce simp: mman_ok_def)
    moreover have "acquire_frame s s'" using s' by (auto simp: acquire_frame_def)
    moreover have "acquired_at (length ?rs) len kind prot flags s s'"
    proof -
      have none: "live_at ?rs a = None" if "?b \<le> a" for a
        using s(5) that by (fastforce simp: live_at_None intro!: region_view_apart)
      have "region_view a n = (if in_region a n then Some (new_view kind prot flags ?b a) else None)" for a
        using region_view_new [OF n(3-8) kind] n(1) by simp
      then have "live_at (?rs @ [n]) a = (if ?b \<le> a \<and> a < ?b + len
          then Some (new_view kind prot flags ?b a) else live_at ?rs a)" for a
        using none [of a] by (auto simp: live_at_append in_region_def n split: option.splits)
      then show ?thesis using s' n none s(6) by (simp add: acquired_at_def Let_def)
    qed
    ultimately show ?thesis using res by simp
  qed
qed

end
