(* ===== verification/Mman_Calls.thy ===== *)
theory Mman_Calls
  imports Mman_Laws
begin

text \<open>
  The contracts of mmap, munmap and msync (libc-bottom-half/mman/mman.c) on top of the table laws:
  the lemmas about filling a file mapping, then the properties of the calls.
\<close>

section \<open>Replacing one live region by another of the same place\<close>

lemma table_update_laws:
  assumes "table_ok rs" "coalesced rs" "i < length rs" "region_ok r'" "r_base r' = r_base (rs ! i)"
    "r_len r' = r_len (rs ! i)" "r_kind r' = r_kind (rs ! i)" "r_kind r' \<noteq> R_FREE"
  shows "table_ok (rs[i := r'])" "coalesced (rs[i := r'])" "owned (rs[i := r']) = owned rs"
    "live_at (rs[i := r']) a = (if in_region a r' then region_view a r' else live_at rs a)"
    "refs_in (rs[i := r']) p + (if r_fref (rs ! i) = Some p then 1 else 0) =
     refs_in rs p + (if r_fref r' = Some p then 1 else 0)"
proof -
  define ps r qs where "ps = take i rs" and "r = rs ! i" and "qs = drop (Suc i) rs"
  have rs: "rs = ps @ r # qs" "rs[i := r'] = ps @ r' # qs"
    using assms(3) by (simp_all add: ps_def r_def qs_def id_take_nth_drop upd_conv_take_nth_drop)
  have same: "r_base r' = r_base r" "r_len r' = r_len r" "r_kind r' = r_kind r"
    using assms(5-7) by (simp_all add: r_def)
  show "table_ok (rs[i := r'])"
    using assms(1,4) same unfolding rs(2) by (simp add: rs(1) table_ok_append table_ok_Cons)
  show "coalesced (rs[i := r'])"
    using assms(2) same unfolding rs(2) by (simp add: rs(1) coalesced_append coalesced_Cons mergeable_def)
  show "owned (rs[i := r']) = owned rs"
    using same unfolding rs(2) by (simp add: rs(1))
  have inr: "in_region a r' = in_region a r" using same by (simp add: in_region_def)
  have ps: "in_region a r \<Longrightarrow> live_at ps a = None"
    using assms(1) unfolding rs(1)
    by (fastforce simp: live_at_None table_ok_append in_region_def intro!: region_view_apart)
  have "\<not> in_region a r \<Longrightarrow> region_view a r = None \<and> region_view a r' = None"
    using inr by (simp add: region_view_def)
  moreover have "in_region a r' \<Longrightarrow> region_view a r' \<noteq> None"
    using assms(8) by (simp add: region_view_def)
  ultimately show "live_at (rs[i := r']) a = (if in_region a r' then region_view a r' else live_at rs a)"
    using ps inr unfolding rs(2) by (auto simp: rs(1) live_at_append split: option.splits)
  show "refs_in (rs[i := r']) p + (if r_fref (rs ! i) = Some p then 1 else 0) =
     refs_in rs p + (if r_fref r' = Some p then 1 else 0)"
    unfolding rs(2) r_def [symmetric] by (simp add: rs(1))
qed

section \<open>Filling a file mapping\<close>

text \<open>
  What POSIX says of pread: it returns at most the bytes asked for, fails, or is interrupted, up to \<open>K\<close> times in a row.
  \<open>pread_file\<close> describes a regular file with fixed contents and no signals: a read at or beyond the end gives nothing, a
  read before it gives at least one of the bytes there.
\<close>

definition pread_bounded :: "'h mman_host \<Rightarrow> nat \<Rightarrow> bool" where
  "pread_bounded H fuel \<longleftrightarrow>
     (\<exists>left K. (\<forall>h. left h \<le> K) \<and> size_mod * (K + 1) \<le> fuel \<and>
       (\<forall>fd n off h. case mh_pread H fd n off h of (Inl e, h') \<Rightarrow> e = EINTR \<longrightarrow> left h' < (left h :: nat)
         | (Inr bs, h') \<Rightarrow> length bs \<le> n))"

definition pread_file :: "'h mman_host \<Rightarrow> int \<Rightarrow> byte list \<Rightarrow> bool" where
  "pread_file H fd content \<longleftrightarrow>
     (\<forall>n off h. 0 < n \<longrightarrow> 0 \<le> off \<longrightarrow>
        (\<exists>bs h'. mh_pread H fd n off h = (Inr bs, h') \<and>
           (if int (length content) \<le> off then bs = []
            else bs \<noteq> [] \<and> length bs \<le> n \<and> bs = take (length bs) (drop (nat off) content))))"

lemma populate_frame:
  assumes "pread_bounded H fuel" "body + remaining < size_mod" "tot + remaining < size_mod"
  shows "\<exists>res m' h'. populate fuel H fd body remaining off tot m h = Some (res, m', h') \<and>
    (\<forall>a. \<not> (body \<le> a \<and> a < body + remaining) \<longrightarrow> m' a = m a) \<and>
    (\<forall>t. res = Inr t \<longrightarrow> tot \<le> t \<and> t \<le> tot + remaining)"
proof -
  obtain left K where K: "\<And>h. left h \<le> K" "size_mod * (K + 1) \<le> fuel"
    and w: "\<And>fd n off h. case mh_pread H fd n off h of (Inl e, h') \<Rightarrow> e = EINTR \<longrightarrow> left h' < (left h :: nat)
         | (Inr bs, h') \<Rightarrow> length bs \<le> n"
    using assms(1) unfolding pread_bounded_def by blast
  have "\<exists>res m' h'. populate f H fd body r off tot m h = Some (res, m', h') \<and>
      (\<forall>a. \<not> (body \<le> a \<and> a < body + r) \<longrightarrow> m' a = m a) \<and> (\<forall>t. res = Inr t \<longrightarrow> tot \<le> t \<and> t \<le> tot + r)"
    if "r * (K + 1) + left h \<le> f" "body + r < size_mod" "tot + r < size_mod" for f body r off tot m h
    using that
  proof (induction f arbitrary: body r off tot m h)
    case 0
    then show ?case by simp
  next
    case (Suc f)
    show ?case
    proof (cases "r = 0")
      case True
      then show ?thesis by simp
    next
      case False
      obtain ans h1 where p: "mh_pread H fd r off h = (ans, h1)" by (cases "mh_pread H fd r off h")
      note ans = w [where fd = fd and n = r and off = off and h = h, unfolded p]
      consider (again) "ans = Inl EINTR" | (failed) e where "ans = Inl e" "e \<noteq> EINTR" | (eof) "ans = Inr []"
        | (some) bs where "ans = Inr bs" "bs \<noteq> []" by (cases ans) auto
      then show ?thesis
      proof cases
        case again
        then have "r * (K + 1) + left h1 \<le> f" using ans Suc.prems(1) by simp
        then show ?thesis using again False p Suc.IH [of r h1 body tot off m] Suc.prems(2,3) by simp
      next
        case (some bs)
        let ?n = "length bs"
        have n: "0 < ?n" "?n \<le> r" using ans some by simp_all
        have z: "szadd body ?n = body + ?n" "szsub r ?n = r - ?n" "szadd tot ?n = tot + ?n"
          using n Suc.prems by (simp_all add: size_simps)
        have pre: "(r - ?n) * (K + 1) + left h1 \<le> f" "body + ?n + (r - ?n) < size_mod" "tot + ?n + (r - ?n) < size_mod"
          using less_work [OF n K(1) Suc.prems(1)] Suc.prems(2,3) n by simp_all
        obtain res m' h' where
          rec: "populate f H fd (body + ?n) (r - ?n) (off + int ?n) (tot + ?n) (mem_write body bs m) h1 = Some (res, m', h')" and
          fr: "\<forall>a. \<not> (body + ?n \<le> a \<and> a < body + ?n + (r - ?n)) \<longrightarrow> m' a = mem_write body bs m a" and
          t: "\<forall>t. res = Inr t \<longrightarrow> tot + ?n \<le> t \<and> t \<le> tot + ?n + (r - ?n)"
          using Suc.IH [OF pre, of "off + int ?n" "mem_write body bs m"] by (elim exE conjE)
        have "m' a = m a" if "\<not> (body \<le> a \<and> a < body + r)" for a
          using fr that n mem_write_outside [of a body bs m] by auto
        moreover have "populate (Suc f) H fd body r off tot m h = Some (res, m', h')"
          using False p some rec z by simp
        moreover have "\<forall>t. res = Inr t \<longrightarrow> tot \<le> t \<and> t \<le> tot + r" using t n by auto
        ultimately show ?thesis by blast
      qed (use False p in simp_all)
    qed
  qed
  moreover have "remaining * (K + 1) + left h \<le> fuel" by (rule full_work [OF _ K]) (use assms(2) in simp)
  ultimately show ?thesis using assms(2,3) by blast
qed

lemma populate_contents:
  assumes "pread_file H fd content" "0 \<le> off" "body + remaining < size_mod" "tot + remaining < size_mod"
    "remaining \<le> fuel"
  shows "\<exists>m' h'. populate fuel H fd body remaining off tot m h =
      Some (Inr (tot + min remaining (length content - nat off)), m', h') \<and>
    (\<forall>a. m' a = (if body \<le> a \<and> a < body + min remaining (length content - nat off)
                 then content ! (nat off + (a - body)) else m a))"
  using assms(2-5)
proof (induction fuel arbitrary: body remaining off tot m h)
  case 0
  then have "populate 0 H fd body remaining off tot m h = Some (Inr (tot + 0), m, h)" "remaining = 0"
    by simp_all
  then show ?case by fastforce
next
  case (Suc fuel)
  show ?case
  proof (cases "remaining = 0")
    case True
    have "populate (Suc fuel) H fd body remaining off tot m h = Some (Inr (tot + 0), m, h)"
      using True by simp
    then show ?thesis using True by fastforce
  next
    case False
    then obtain bs h1 where p: "mh_pread H fd remaining off h = (Inr bs, h1)"
      and bs: "if int (length content) \<le> off then bs = []
            else bs \<noteq> [] \<and> length bs \<le> remaining \<and> bs = take (length bs) (drop (nat off) content)"
      using assms(1) Suc.prems(1) unfolding pread_file_def by (metis gr0I)
    show ?thesis
    proof (cases "int (length content) \<le> off")
      case True
      then have "length content - nat off = 0" by simp
      moreover have "populate (Suc fuel) H fd body remaining off tot m h = Some (Inr (tot + 0), m, h1)"
        using False p bs True by simp
      ultimately show ?thesis by fastforce
    next
      case inside: False
      define n where "n = length bs"
      have nb: "bs \<noteq> []" "0 < n" "n \<le> remaining" "bs = take n (drop (nat off) content)"
        using bs inside by (auto simp: n_def)
      have nl: "n \<le> length content - nat off" using nb(4) by (metis length_drop length_take min.cobounded1 n_def)
      have z: "szadd body n = body + n" "szsub remaining n = remaining - n" "szadd tot n = tot + n"
        using nb Suc.prems by (simp_all add: size_simps)
      let ?k = "min (remaining - n) (length content - nat (off + int n))"
      have k: "n + ?k = min remaining (length content - nat off)"
      proof -
        have "nat (off + int n) = nat off + n" using Suc.prems(1) by (simp add: nat_add_distrib)
        moreover have "nat off + n \<le> length content" using nl nb(2) by linarith
        ultimately show ?thesis using nb(3) by linarith
      qed
      have pre: "0 \<le> off + int n" "body + n + (remaining - n) < size_mod"
        "tot + n + (remaining - n) < size_mod" "remaining - n \<le> fuel"
        using Suc.prems nb by linarith+
      obtain m' h' where
        rec: "populate fuel H fd (body + n) (remaining - n) (off + int n) (tot + n)
             (mem_write body bs m) h1 = Some (Inr (tot + n + ?k), m', h')" and
        m': "\<forall>a. m' a = (if body + n \<le> a \<and> a < body + n + ?k
              then content ! (nat (off + int n) + (a - (body + n))) else mem_write body bs m a)"
        using Suc.IH [OF pre, of "mem_write body bs m" h1] by (elim exE conjE)
      have "m' a = (if body \<le> a \<and> a < body + (n + ?k) then content ! (nat off + (a - body)) else m a)" for a
      proof (cases "body \<le> a \<and> a < body + n")
        case True
        then have "mem_write body bs m a = bs ! (a - body)" by (simp add: mem_write_def n_def)
        also have "bs ! (a - body) = take n (drop (nat off) content) ! (a - body)"
          by (rule arg_cong [OF nb(4)])
        also have "\<dots> = content ! (nat off + (a - body))"
        proof -
          have "a - body < n" "nat off \<le> length content" using True nl nb(2) by linarith+
          then show ?thesis by (simp only: nth_take nth_drop)
        qed
        finally show ?thesis using m' True by auto
      next
        case out: False
        then have "mem_write body bs m a = m a" by (auto simp: mem_write_def n_def)
        moreover have "nat (off + int n) + (a - (body + n)) = nat off + (a - body)" if "body + n \<le> a"
          using that Suc.prems(1) by (simp add: nat_add_distrib)
        ultimately show ?thesis using m' out by auto
      qed
      moreover have "populate (Suc fuel) H fd body remaining off tot m h = Some (Inr (tot + n + ?k), m', h')"
        using False p nb(1) rec z by (simp add: n_def)
      ultimately show ?thesis unfolding k [symmetric] add.assoc [symmetric] by blast
    qed
  qed
qed

end
