(* ===== verification/Mman_Spec.thy ===== *)
theory Mman_Spec
  imports Mman_Calls
begin

text \<open>
  The contracts of mmap, munmap and msync (libc-bottom-half/mman/mman.c) over the address-space
  view, the invariant over every sequence of calls, and the limits of the emulation.
\<close>

section \<open>Undoing and completing a file mapping\<close>

text \<open>
  The host of the component: what POSIX says of pread and pwrite, a malloc that never hands out a
  live file_ref, and enough fuel for one pass over the address space with all the interruptions in it.
\<close>

definition host_ok :: "'h mman_host \<Rightarrow> nat \<Rightarrow> bool" where
  "host_ok H fuel \<longleftrightarrow> pwrite_progress H fuel \<and> pread_bounded H fuel \<and> size_mod \<le> fuel"

definition malloc_fresh :: "'h mman_host \<Rightarrow> frefs \<Rightarrow> bool" where
  "malloc_fresh H fr \<longleftrightarrow> (\<forall>n h p. fst (mh_malloc H n h) = Some p \<longrightarrow> fr p = None)"

text \<open>A state whose region at \<open>idx\<close> is the mapping that mmap is about to finish.\<close>

definition mapping_at :: "'h mman \<Rightarrow> nat \<Rightarrow> nat \<Rightarrow> 32 word \<Rightarrow> 32 word \<Rightarrow> bool" where
  "mapping_at s idx len prot flags \<longleftrightarrow>
     mman_ok s \<and> idx < length (mm_regs s) \<and> length (mm_regs s) < mm_cap s \<and>
     (let r = mm_regs s ! idx in r_len r = len \<and> r_kind r = R_FILE \<and> r_prot r = prot \<and>
        r_flags r = flags \<and> r_fref r = None)"

lemma mapping_page_range:
  assumes "mapping_at s idx len prot flags"
  defines "b \<equiv> r_base (mm_regs s ! idx)"
  shows "page_range b (b + len)" "szadd b len = b + len" "b + len \<le> mm_pages s * PAGE" "b + len < size_mod"
    "\<not> cut_by b (mm_regs s)" "\<not> cut_by (b + len) (mm_regs s)"
proof -
  let ?r = "mm_regs s ! idx"
  have r: "region_ok ?r" "?r \<in> set (mm_regs s)" "r_len ?r = len"
    using assms by (auto simp: mapping_at_def Let_def mman_ok_def table_ok_def)
  then show "page_range b (b + len)" "szadd b len = b + len" "b + len < size_mod"
    using page_sum [of b len] by (auto simp: region_ok_def page_range_def b_def size_simps)
  show "b + len \<le> mm_pages s * PAGE"
    using assms r by (auto simp: mapping_at_def mman_ok_def b_def)
  have tab: "table_ok (mm_regs s)" and i: "idx < length (mm_regs s)"
    using assms by (auto simp: mapping_at_def mman_ok_def)
  have apart: "r_base q + r_len q \<le> b \<or> b + len \<le> r_base q \<or> (r_base q = b \<and> r_len q = len)"
    if q: "q \<in> set (mm_regs s)" for q
  proof -
    obtain j where j: "j < length (mm_regs s)" "q = mm_regs s ! j"
      using q by (auto simp: in_set_conv_nth)
    have e: "r_end q = r_base q + r_len q" "r_end ?r = b + len"
      using tab j i r by (auto simp: table_ok_def b_def intro!: r_end_eq)
    consider "j < idx" | "j = idx" | "idx < j" by linarith
    then show ?thesis
      using table_end_mono [OF tab, of j idx] table_end_mono [OF tab, of idx j] j i e r b_def
      by cases auto
  qed
  show "\<not> cut_by b (mm_regs s)" "\<not> cut_by (b + len) (mm_regs s)"
    using apart by (fastforce simp: cut_by_def)+
qed

lemma mmap_undo_laws:
  assumes map: "mapping_at s idx len prot flags" and host: "host_ok H fuel"
  defines "b \<equiv> r_base (mm_regs s ! idx)"
  shows "\<exists>s'. mmap_undo fuel H b len e s = Some (Map_failed e, s') \<and> mman_ok s' \<and>
    mm_mem s' = mm_mem s \<and> mm_pages s' = mm_pages s \<and>
    (\<forall>a. live_at (mm_regs s') a = (if b \<le> a \<and> a < b + len then None else live_at (mm_regs s) a))"
proof -
  note p = mapping_page_range [OF map, folded b_def]
  have ok: "mman_ok s" using map by (simp add: mapping_at_def)
  note s = mman_okD [OF ok]
  obtain rs fr h where
    u: "unmap_range fuel H (mm_mem s) b (b + len) (mm_regs s) (mm_frefs s) (mm_host s) = Some (rs, fr, h)"
    and rs: "table_ok rs" "frefs_ok fr rs" "owned rs = owned (mm_regs s)" "coalesced rs"
      "length rs \<le> length (mm_regs s)"
      "\<forall>a. live_at rs a = (if b \<le> a \<and> a < b + len then None else live_at (mm_regs s) a)"
    using unmap_range_laws [OF s(1,3) p(1), of H fuel "mm_mem s" "mm_host s"] host p(5,6) s(2)
    by (auto simp: host_ok_def)
  let ?s = "s\<lparr>mm_regs := rs, mm_frefs := fr, mm_host := h\<rparr>"
  have "\<forall>r \<in> set rs. r_base r + r_len r \<le> mm_pages s * PAGE"
    using s(5) table_below [OF s(1)] table_below [OF rs(1)] rs(3) by simp
  then have "mman_ok ?s" using ok rs by (simp add: mman_ok_def)
  moreover have "mmap_undo fuel H b len e s = Some (Map_failed e, ?s)"
    using u p(2) by (simp add: mmap_undo_def)
  ultimately show ?thesis using rs(6) by (intro exI [of _ ?s]) simp
qed

text \<open>Updating the fields of the new mapping keeps the state well formed.\<close>

lemma mapping_update:
  fixes off :: int and h :: 'h and s :: "'h mman"
  assumes map: "mapping_at s idx len prot flags" and t: "t \<le> len"
    and mem: "\<forall>a. mm_pages s * PAGE \<le> a \<longrightarrow> m a = 0"
  defines "r \<equiv> mm_regs s ! idx"
  defines "s' \<equiv> s\<lparr>mm_mem := m, mm_host := h, mm_regs := (mm_regs s)[idx := r\<lparr>r_off := off, r_data_len := t\<rparr>]\<rparr>"
  shows "mapping_at s' idx len prot flags" "mm_regs s' ! idx = r\<lparr>r_off := off, r_data_len := t\<rparr>"
    "live_at (mm_regs s') a = (if in_region a r then region_view a (r\<lparr>r_off := off, r_data_len := t\<rparr>)
       else live_at (mm_regs s) a)"
proof -
  let ?r = "r\<lparr>r_off := off, r_data_len := t\<rparr>"
  have i: "idx < length (mm_regs s)" and ok: "mman_ok s"
    and r: "r_len r = len" "r_kind r = R_FILE" "r_prot r = prot" "r_flags r = flags" "r_fref r = None"
    using map by (simp_all add: mapping_at_def r_def Let_def)
  note s = mman_okD [OF ok]
  have "region_ok r" using s(1) i by (simp add: table_ok_def r_def)
  then have r': "region_ok ?r" using t r by (simp add: region_ok_def)
  note u = table_update_laws [OF s(1,2) i r', folded r_def, simplified, unfolded r(2), simplified]
  show at: "mm_regs s' ! idx = ?r" using i by (simp add: s'_def)
  have fr: "frefs_ok (mm_frefs s) ((mm_regs s)[idx := ?r])"
    by (rule frefs_ok_cong [OF s(3)]) (use u(5) r(5) in simp)
  have "\<forall>q \<in> set ((mm_regs s)[idx := ?r]). r_base q + r_len q \<le> mm_pages s * PAGE"
    using s(5) table_below [OF s(1)] table_below [OF u(1)] u(3) by simp
  then have "mman_ok s'"
    using ok u(1,2) fr mem by (simp add: mman_ok_def s'_def)
  then show "mapping_at s' idx len prot flags"
    using map at r by (simp add: mapping_at_def s'_def Let_def)
  show "live_at (mm_regs s') a = (if in_region a r then region_view a ?r else live_at (mm_regs s) a)"
    using u(4) [of a] by (simp add: s'_def in_region_def)
qed

lemma mapping_set_fref:
  fixes fd :: int and h :: 'h and s :: "'h mman"
  assumes map: "mapping_at s idx len prot flags" and free: "mm_frefs s p = None"
    and w: "prot AND PROT_WRITE \<noteq> 0"
  defines "r \<equiv> mm_regs s ! idx"
  defines "s' \<equiv> s\<lparr>mm_regs := (mm_regs s)[idx := r\<lparr>r_fref := Some p\<rparr>],
     mm_frefs := (mm_frefs s)(p \<mapsto> \<lparr>fr_fd = fd, fr_refs = 1\<rparr>), mm_host := h\<rparr>"
  shows "mman_ok s'"
    "live_at (mm_regs s') a = (if in_region a r then region_view a (r\<lparr>r_fref := Some p\<rparr>)
       else live_at (mm_regs s) a)"
proof -
  let ?r = "r\<lparr>r_fref := Some p\<rparr>"
  have i: "idx < length (mm_regs s)" and ok: "mman_ok s"
    and r: "r_len r = len" "r_kind r = R_FILE" "r_prot r = prot" "r_flags r = flags" "r_fref r = None"
    using map by (simp_all add: mapping_at_def r_def Let_def)
  note s = mman_okD [OF ok]
  have "region_ok r" using s(1) i by (simp add: table_ok_def r_def)
  then have r': "region_ok ?r" using w r by (simp add: region_ok_def)
  note u = table_update_laws [OF s(1,2) i r', folded r_def, simplified, unfolded r(2), simplified]
  have zero: "refs_in (mm_regs s) p = 0"
    using s(3) [unfolded frefs_ok_def, THEN spec, of p] free by (simp add: ref_count_ok_def)
  have "frefs_ok ((mm_frefs s)(p \<mapsto> \<lparr>fr_fd = fd, fr_refs = 1\<rparr>)) ((mm_regs s)[idx := ?r])"
  proof (rule frefs_okI)
    fix q
    show "ref_count_ok (((mm_frefs s)(p \<mapsto> \<lparr>fr_fd = fd, fr_refs = 1\<rparr>)) q) (refs_in ((mm_regs s)[idx := ?r]) q)"
      using u(5) [of q] r(5) zero s(3) [unfolded frefs_ok_def, THEN spec, of q]
      by (cases "q = p") (simp_all add: ref_count_ok_def)
  qed
  moreover have "\<forall>q \<in> set ((mm_regs s)[idx := ?r]). r_base q + r_len q \<le> mm_pages s * PAGE"
    using s(5) table_below [OF s(1)] table_below [OF u(1)] u(3) by simp
  ultimately show "mman_ok s'" using ok u(1,2) by (simp add: mman_ok_def s'_def)
  show "live_at (mm_regs s') a = (if in_region a r then region_view a ?r else live_at (mm_regs s) a)"
    using u(4) [of a] by (simp add: s'_def in_region_def)
qed

section \<open>mmap of a file\<close>

text \<open>What the view shows inside a finished file mapping.\<close>

definition file_view :: "32 word \<Rightarrow> 32 word \<Rightarrow> nat option \<Rightarrow> int \<Rightarrow> nat \<Rightarrow> nat \<Rightarrow> nat \<Rightarrow> page_view" where
  "file_view prot flags fref offset t b a = \<lparr>v_kind = R_FILE, v_prot = prot, v_flags = flags,
     v_fref = fref, v_off = offset + int (a - b), v_backed = (a - b < t)\<rparr>"

text \<open>
  The state reached by mmap of a file at base \<open>b\<close>: \<open>t\<close> bytes of the file were read to the start
  of the mapping, and outside the mapping neither the view nor the memory has changed.
\<close>

definition file_mapped :: "'h mman \<Rightarrow> 'h mman \<Rightarrow> nat \<Rightarrow> nat \<Rightarrow> 32 word \<Rightarrow> 32 word \<Rightarrow> int \<Rightarrow> nat \<Rightarrow> bool" where
  "file_mapped s s' b len prot flags offset t \<longleftrightarrow> t \<le> len \<and>
     (\<exists>fref. (fref \<noteq> None \<longleftrightarrow> flags AND MAP_SHARED \<noteq> 0 \<and> prot AND PROT_WRITE \<noteq> 0) \<and>
        (\<forall>a. live_at (mm_regs s') a = (if b \<le> a \<and> a < b + len
            then Some (file_view prot flags fref offset t b a) else live_at (mm_regs s) a))) \<and>
     (\<forall>a. \<not> (b \<le> a \<and> a < b + len) \<longrightarrow> mm_mem s' a = mm_mem s a)"

lemma region_view_file:
  assumes "r_kind r = R_FILE" "r_prot r = prot" "r_flags r = flags"
  shows "in_region a r \<Longrightarrow> region_view a r =
    Some (file_view prot flags (r_fref r) (r_off r) (r_data_len r) (r_base r) a)"
  using assms by (simp add: region_view_def file_view_def in_region_def of_nat_diff)

lemma mmap_file_laws:
  assumes map: "mapping_at s idx len prot flags" and host: "host_ok H fuel"
    and fresh: "malloc_fresh H (mm_frefs s)"
    and pop: "populate fuel H fd (r_base (mm_regs s ! idx)) len offset 0 (mm_mem s) (mm_host s) = Some (pres, m, h)"
    and frame: "\<forall>a. \<not> (r_base (mm_regs s ! idx) \<le> a \<and> a < r_base (mm_regs s ! idx) + len) \<longrightarrow> m a = mm_mem s a"
    and bound: "\<forall>t. pres = Inr t \<longrightarrow> t \<le> len"
  defines "b \<equiv> r_base (mm_regs s ! idx)"
  shows "\<exists>res s'. mmap_file fuel H idx len prot flags fd offset s = Some (res, s') \<and> mman_ok s' \<and>
    mm_mem s' = m \<and> mm_pages s' = mm_pages s \<and>
    (case res of
       Mapped b' \<Rightarrow> b' = b \<and> (\<exists>t. pres = Inr t \<and> file_mapped s s' b len prot flags offset t)
     | Map_failed e \<Rightarrow> (\<forall>a. live_at (mm_regs s') a = (if b \<le> a \<and> a < b + len then None else live_at (mm_regs s) a))
     | Map_aborted \<Rightarrow> False)"
proof -
  let ?r = "mm_regs s ! idx"
  note pr = mapping_page_range [OF map, folded b_def]
  have ok: "mman_ok s" and i: "idx < length (mm_regs s)"
    and r: "r_len ?r = len" "r_kind ?r = R_FILE" "r_prot ?r = prot" "r_flags ?r = flags" "r_fref ?r = None"
    using map by (simp_all add: mapping_at_def Let_def)
  have mz: "\<forall>a. mm_pages s * PAGE \<le> a \<longrightarrow> m a = 0"
    using frame pr(3) mman_okD(6) [OF ok] b_def by auto
  have inr: "in_region a ?r \<longleftrightarrow> b \<le> a \<and> a < b + len" for a by (simp add: in_region_def b_def r)
  show ?thesis
  proof (cases pres)
    case (Inl e)
    let ?s = "s\<lparr>mm_mem := m, mm_host := h\<rparr>"
    have m': "mapping_at ?s idx len prot flags"
      using map mz by (auto simp: mapping_at_def mman_ok_def)
    obtain s' where u: "mmap_undo fuel H b len e ?s = Some (Map_failed e, s')" "mman_ok s'" "mm_mem s' = m"
      "mm_pages s' = mm_pages s"
      "\<forall>a. live_at (mm_regs s') a = (if b \<le> a \<and> a < b + len then None else live_at (mm_regs s) a)"
      using mmap_undo_laws [OF m' host, of e] by (auto simp: b_def)
    have "mmap_file fuel H idx len prot flags fd offset s = Some (Map_failed e, s')"
      using pop Inl u(1) by (simp add: mmap_file_def Let_def b_def)
    then show ?thesis using u(2-5) by (intro exI [of _ "Map_failed e"] exI [of _ s']) simp
  next
    case (Inr t)
    define rt where "rt = ?r\<lparr>r_off := offset, r_data_len := t\<rparr>"
    define s1 where "s1 = s\<lparr>mm_mem := m, mm_host := h, mm_regs := (mm_regs s)[idx := rt]\<rparr>"
    have t: "t \<le> len" using bound Inr by simp
    note u1 = mapping_update [OF map t mz, where off = offset and h = h, folded rt_def, folded s1_def]
    have s1: "mm_regs s1 ! idx = rt" "mm_frefs s1 = mm_frefs s" "mm_host s1 = h" "mm_mem s1 = m"
      "mm_pages s1 = mm_pages s" "r_base rt = b"
      using u1(2) by (simp_all add: s1_def rt_def b_def)
    have rt: "r_kind rt = R_FILE" "r_prot rt = prot" "r_flags rt = flags" "r_fref rt = None"
      "r_off rt = offset" "r_data_len rt = t" "r_base rt = b" "r_len rt = len"
      using r by (simp_all add: rt_def b_def)
    have inrt: "in_region a rt \<longleftrightarrow> b \<le> a \<and> a < b + len" for a by (simp add: in_region_def rt)
    have v1: "live_at (mm_regs s1) a = (if b \<le> a \<and> a < b + len
        then Some (file_view prot flags None offset t b a) else live_at (mm_regs s) a)" for a
      using u1(3) [of a] region_view_file [OF rt(1-3), of a] by (simp add: inr inrt rt s1_def)
    have fileq: "mmap_file fuel H idx len prot flags fd offset s =
        (if flags AND MAP_SHARED \<noteq> 0 \<and> prot AND PROT_WRITE \<noteq> 0 then
           (case mh_malloc H 8 h of
              (None, h) \<Rightarrow> mmap_undo fuel H b len ENOMEM (s1\<lparr>mm_host := h\<rparr>)
            | (Some p, h) \<Rightarrow>
                (case mh_dup H fd h of
                   (Inl e, h) \<Rightarrow> mmap_undo fuel H b len e (s1\<lparr>mm_host := h\<rparr>)
                 | (Inr newfd, h) \<Rightarrow>
                     Some (Mapped b, s1\<lparr>mm_regs := (mm_regs s1)[idx := rt\<lparr>r_fref := Some p\<rparr>],
                       mm_frefs := (mm_frefs s1)(p \<mapsto> \<lparr>fr_fd = newfd, fr_refs = 1\<rparr>), mm_host := h\<rparr>)))
         else Some (Mapped b, s1))"
      using pop Inr s1(1-3) i 
      by (simp add: mmap_file_def Let_def b_def s1_def rt_def split: option.split prod.split sum.split)
    have fail: "\<exists>s'. mmap_undo fuel H b len e (s1\<lparr>mm_host := h'\<rparr>) = Some (Map_failed e, s') \<and> mman_ok s' \<and>
        mm_mem s' = m \<and> mm_pages s' = mm_pages s \<and>
        (\<forall>a. live_at (mm_regs s') a = (if b \<le> a \<and> a < b + len then None else live_at (mm_regs s) a))" for e h'
    proof -
      have "mapping_at (s1\<lparr>mm_host := h'\<rparr>) idx len prot flags"
        using u1(1) by (auto simp: mapping_at_def mman_ok_def)
      from mmap_undo_laws [OF this host, of e] show ?thesis
        using s1 by (auto simp: v1 fun_eq_iff)
    qed
    have frame': "\<forall>a. \<not> (b \<le> a \<and> a < b + len) \<longrightarrow> m a = mm_mem s a" using frame b_def by simp
    show ?thesis
    proof (cases "flags AND MAP_SHARED \<noteq> 0 \<and> prot AND PROT_WRITE \<noteq> 0")
      case False
      have "mman_ok s1" using u1(1) by (simp add: mapping_at_def)
      moreover have "file_mapped s s1 b len prot flags offset t"
        using False v1 t frame' s1(4) by (auto simp: file_mapped_def)
      ultimately show ?thesis
        using fileq False s1 Inr by (intro exI [of _ "Mapped b"] exI [of _ s1]) auto
    next
      case shared: True
      obtain mp h2 where ma: "mh_malloc H 8 h = (mp, h2)" by (cases "mh_malloc H 8 h")
      show ?thesis
      proof (cases mp)
        case None
        then show ?thesis using fileq shared ma fail [of ENOMEM h2] by fastforce
      next
        case (Some p)
        obtain dr h3 where du: "mh_dup H fd h2 = (dr, h3)" by (cases "mh_dup H fd h2")
        show ?thesis
        proof (cases dr)
          case dl: (Inl e)
          then show ?thesis using fileq shared ma Some du fail [of e h3] by fastforce
        next
          case dr: (Inr newfd)
          define s2 where "s2 = s1\<lparr>mm_regs := (mm_regs s1)[idx := rt\<lparr>r_fref := Some p\<rparr>],
             mm_frefs := (mm_frefs s1)(p \<mapsto> \<lparr>fr_fd = newfd, fr_refs = 1\<rparr>), mm_host := h3\<rparr>"
          have "mm_frefs s p = None"
            using fresh ma Some unfolding malloc_fresh_def by (metis fst_conv)
          then have "mm_frefs s1 p = None" using s1(2) by simp
          note u2 = mapping_set_fref [OF u1(1) this conjunct2 [OF shared], where fd = newfd and h = h3, unfolded s1(1), folded s2_def]
          have v2: "live_at (mm_regs s2) a = (if b \<le> a \<and> a < b + len
              then Some (file_view prot flags (Some p) offset t b a) else live_at (mm_regs s) a)" for a
            using u2(2) [of a] v1 [of a] region_view_file [of "rt\<lparr>r_fref := Some p\<rparr>" prot flags a]
            by (simp add: in_region_def rt)
          have "file_mapped s s2 b len prot flags offset t"
            using shared v2 t frame' s1(4) unfolding file_mapped_def
            by (intro conjI exI [of _ "Some p"]) (auto simp: s2_def)
          then show ?thesis
            using fileq shared ma Some du dr u2(1) s1 Inr
            by (intro exI [of _ "Mapped b"] exI [of _ s2]) (simp add: s2_def)
        qed
      qed
    qed
  qed
qed

end
