(* ===== verification/Address_Space.thy ===== *)
theory Address_Space
  imports Main
begin

text \<open>
  The contract between a provider of address space and its clients, as a locale: acquiring a range
  takes addresses that were not in use, releasing one takes exactly its addresses out of use, and
  both keep the provider's invariant.  The clients' facts (two live ranges never overlap, acquiring
  and releasing restores the view) are proved here once, for any provider.
\<close>

locale address_space =
  fixes inv :: "'s \<Rightarrow> bool"
    and view :: "'s \<Rightarrow> nat \<Rightarrow> 'v option"
    and acquire :: "nat \<Rightarrow> nat \<Rightarrow> 's \<Rightarrow> 's \<Rightarrow> bool"
    and release :: "nat \<Rightarrow> nat \<Rightarrow> 's \<Rightarrow> 's \<Rightarrow> bool"
  assumes acquire_inv: "inv s \<Longrightarrow> acquire b n s s' \<Longrightarrow> inv s'"
    and acquire_new: "inv s \<Longrightarrow> acquire b n s s' \<Longrightarrow> b \<le> a \<Longrightarrow> a < b + n \<Longrightarrow>
      view s a = None \<and> view s' a \<noteq> None"
    and acquire_old: "inv s \<Longrightarrow> acquire b n s s' \<Longrightarrow> \<not> (b \<le> a \<and> a < b + n) \<Longrightarrow> view s' a = view s a"
    and release_inv: "inv s \<Longrightarrow> release b n s s' \<Longrightarrow> inv s'"
    and release_view: "inv s \<Longrightarrow> release b n s s' \<Longrightarrow>
      view s' a = (if b \<le> a \<and> a < b + n then None else view s a)"
begin

text \<open>One call of the provider, and the states a sequence of calls reaches.\<close>

inductive call :: "'s \<Rightarrow> 's \<Rightarrow> bool" where
  call_acquire: "acquire b n s s' \<Longrightarrow> call s s'"
| call_release: "release b n s s' \<Longrightarrow> call s s'"

lemma calls_inv: "call\<^sup>*\<^sup>* s s' \<Longrightarrow> inv s \<Longrightarrow> inv s'"
  by (induction rule: rtranclp_induct) (auto elim!: call.cases intro: acquire_inv release_inv)

lemma acquire_apart:
  assumes "inv s" "acquire b n s s1" "acquire c m s1 s2"
  shows "{b ..< b + n} \<inter> {c ..< c + m} = {}"
proof -
  have "inv s1" using assms(1,2) by (rule acquire_inv)
  have "view s1 a \<noteq> None" if "a \<in> {b ..< b + n}" for a
    using acquire_new [OF assms(1,2), of a] that by simp
  moreover have "view s1 a = None" if "a \<in> {c ..< c + m}" for a
    using acquire_new [OF \<open>inv s1\<close> assms(3), of a] that by simp
  ultimately show ?thesis by blast
qed

text \<open>A range in use stays in use while only other ranges are acquired.\<close>

lemma acquire_keeps: "inv s \<Longrightarrow> acquire c m s s' \<Longrightarrow> view s a = Some v \<Longrightarrow> view s' a = Some v"
  using acquire_new [of s c m s' a] acquire_old [of s c m s' a] by fastforce

lemma release_acquired:
  assumes "inv s" "acquire b n s s1" "release b n s1 s2"
  shows "view s2 = view s"
proof
  fix a
  have "inv s1" using assms(1,2) by (rule acquire_inv)
  then show "view s2 a = view s a"
    using release_view [OF \<open>inv s1\<close> assms(3), of a] acquire_new [OF assms(1,2), of a]
      acquire_old [OF assms(1,2), of a] by auto
qed

text \<open>Releases of any two ranges commute on the view.\<close>

lemma release_commute:
  assumes "inv s" "release b n s s1" "release c m s1 s2" "release c m s t1" "release b n t1 t2"
  shows "view s2 = view t2"
proof
  fix a
  have "inv s1" "inv t1" using assms release_inv by blast+
  then show "view s2 a = view t2 a"
    using release_view [OF assms(1,2), of a] release_view [OF assms(1,4), of a]
      release_view [OF \<open>inv s1\<close> assms(3), of a] release_view [OF \<open>inv t1\<close> assms(5), of a] by auto
qed

end

end
