(* ===== verification/Mman_Properties.thy ===== *)
theory Mman_Properties
  imports Mman_Spec Address_Space
begin

text \<open>
  The properties of the mmap emulation (libc-bottom-half/mman/mman.c): the contracts of mmap,
  munmap and msync over the address-space view, the invariant over every sequence of calls, and
  the emulation as a provider of the \<open>address_space\<close> interface.
\<close>

section \<open>The arguments of mmap\<close>

lemma mmap_check_None:
  assumes "mmap_check req prot flags fd offset = None"
  shows "0 < page_ceil req" "page_ceil req mod PAGE = 0" "req \<le> page_ceil req"
    "req \<le> 2147418112 \<Longrightarrow> page_ceil req < 2147483648" "0 < req" "req < PTRDIFF_MAX"
    "2147418112 < req \<Longrightarrow> page_ceil req = 2147483648"
proof -
  have r: "0 < req" "req < PTRDIFF_MAX" using assms by (auto simp: mmap_check_def split: if_splits)
  then have s: "0 < req" "req \<le> 4294901760" by linarith+
  note p = page_ceil_small [OF s]
  show "0 < page_ceil req" "page_ceil req mod PAGE = 0" "req \<le> page_ceil req" "0 < req" "req < PTRDIFF_MAX"
    using p r by simp_all
  obtain q where q: "page_ceil req = 65536 * q" using p(2) by (metis mod_0_imp_dvd dvdE)
  show "page_ceil req < 2147483648" if "req \<le> 2147418112"
    using p(3) q that by linarith
  show "page_ceil req = 2147483648" if "2147418112 < req"
  proof -
    have "32767 < q" "q < 32769" using p(1,3) q that r by linarith+
    then have "q = 32768" by linarith
    with q show ?thesis by simp
  qed
qed

lemma mmap_check_offset:
  assumes "mmap_check req prot flags fd offset = None" "flags AND MAP_ANON = 0"
  shows "0 \<le> offset"
  using assms by (auto simp: mmap_check_def split: if_splits)

section \<open>mmap\<close>

text \<open>
  What a returned mapping promises: it is page aligned, its addresses were not mapped before and
  are mapped now, and outside it neither the view nor the memory changed.
\<close>

definition mapped_at :: "'h mman \<Rightarrow> 'h mman \<Rightarrow> nat \<Rightarrow> nat \<Rightarrow> bool" where
  "mapped_at s s' b len \<longleftrightarrow> b mod PAGE = 0 \<and> b + len \<le> mm_pages s' * PAGE \<and>
     (\<forall>a. b \<le> a \<and> a < b + len \<longrightarrow> live_at (mm_regs s) a = None \<and> live_at (mm_regs s') a \<noteq> None) \<and>
     (\<forall>a. \<not> (b \<le> a \<and> a < b + len) \<longrightarrow>
        live_at (mm_regs s') a = live_at (mm_regs s) a \<and> mm_mem s' a = mm_mem s a)"

text \<open>An unsuccessful call leaves the view of every address and the contents of every mapping.\<close>

definition unmapped_same :: "'h mman \<Rightarrow> 'h mman \<Rightarrow> bool" where
  "unmapped_same s s' \<longleftrightarrow> live_at (mm_regs s') = live_at (mm_regs s) \<and>
     (\<forall>a. live_at (mm_regs s) a \<noteq> None \<longrightarrow> mm_mem s' a = mm_mem s a)"

text \<open>How the call ends, given how the acquisition ended.\<close>

lemma acquire_laws:
  assumes "mman_ok s" "length (mm_regs s) + 2 \<le> mm_cap s" "0 < len" "len mod PAGE = 0"
    "kind \<noteq> R_FREE" "len < 2147483648 \<or> first_fit (mm_regs s) len \<noteq> None"
    "acquire_pages H len kind prot flags s = (res, s')" "mm_pages s' < max_pages"
  shows "mman_ok s' \<and> acquire_frame s s' \<and>
    (case res of Acquired i \<Rightarrow> acquired_at i len kind prot flags s s'
     | Acquire_failed \<Rightarrow> mm_regs s' = mm_regs s \<and> mm_mem s' = mm_mem s | Acquire_aborted \<Rightarrow> False)"
proof (cases "first_fit (mm_regs s) len")
  case None
  then show ?thesis using acquire_from_sbrk [OF assms(1-4) _ assms(5) None assms(7,8)] assms(6) by simp
next
  case (Some i)
  show ?thesis using acquire_from_pool [OF assms(1-5) Some assms(7)] by simp
qed

lemma acquire_aborts:
  assumes "first_fit (mm_regs s) 2147483648 = None"
  shows "acquire_pages H 2147483648 kind prot flags s = (Acquire_aborted, s)"
proof -
  have "sbrk (mh_grow H) (to_intptr 2147483648) (mm_pages s) (mm_host s) = (Sbrk_abort, mm_pages s, mm_host s)"
    by (rule sbrk_aborts_above_2GiB) simp_all
  then show ?thesis using assms by (simp add: acquire_pages_def)
qed

lemma acquired_mapped:
  assumes "acquired_at i len kind prot flags s s'" "mman_ok s'"
  shows "mapped_at s s' (r_base (mm_regs s' ! i)) len"
proof -
  let ?r = "mm_regs s' ! i"
  have r: "?r \<in> set (mm_regs s')" "r_len ?r = len" using assms(1) by (simp_all add: acquired_at_def Let_def)
  moreover have "region_ok ?r" using assms(2) r(1) by (simp add: mman_ok_def table_ok_def)
  ultimately have "r_base ?r mod PAGE = 0" "r_base ?r + len \<le> mm_pages s' * PAGE"
    using assms(2) by (auto simp: region_ok_def mman_ok_def)
  then show ?thesis
    using assms(1) unfolding mapped_at_def acquired_at_def Let_def by simp
qed

text \<open>The stages of a call whose arguments pass the checks.\<close>

lemma mmap_stages:
  fixes s :: "'h mman"
  assumes "mman_ok s" "mmap_check req prot flags fd offset = None"
  obtains (full) cap h where "mmap fuel H req prot flags fd offset s =
      Some (Map_failed ENOMEM, s\<lparr>mm_cap := cap, mm_host := h\<rparr>)" "mman_ok (s\<lparr>mm_cap := cap, mm_host := h\<rparr>)"
  | (room) cap h acq s2 where "mman_ok (s\<lparr>mm_cap := cap, mm_host := h\<rparr>)" "length (mm_regs s) + 2 \<le> cap"
      "acquire_pages H (page_ceil req) (if flags AND MAP_ANON \<noteq> 0 then R_ANON else R_FILE) prot flags
         (s\<lparr>mm_cap := cap, mm_host := h\<rparr>) = (acq, s2)"
      "mmap fuel H req prot flags fd offset s =
         (case acq of Acquire_aborted \<Rightarrow> Some (Map_aborted, s2)
          | Acquire_failed \<Rightarrow> Some (Map_failed ENOMEM, s2)
          | Acquired i \<Rightarrow> if flags AND MAP_ANON \<noteq> 0 then Some (Mapped (r_base (mm_regs s2 ! i)), s2)
              else mmap_file fuel H i (page_ceil req) prot flags fd offset s2)"
proof -
  obtain ok cap h where r: "reserve H 2 s = Some (ok, s\<lparr>mm_cap := cap, mm_host := h\<rparr>)"
    "mman_ok (s\<lparr>mm_cap := cap, mm_host := h\<rparr>)" "ok \<longrightarrow> length (mm_regs s) + 2 \<le> cap"
    using reserve_returns [OF assms(1), of H] by metis
  let ?s = "s\<lparr>mm_cap := cap, mm_host := h\<rparr>"
  obtain acq s2 where a: "acquire_pages H (page_ceil req) (if flags AND MAP_ANON \<noteq> 0 then R_ANON else R_FILE)
      prot flags ?s = (acq, s2)" by (metis surj_pair)
  show thesis
  proof (cases ok)
    case False
    then have "mmap fuel H req prot flags fd offset s = Some (Map_failed ENOMEM, ?s)"
      using assms(2) r(1) by (simp add: mmap_def Let_def)
    then show thesis using r(2) by (rule full)
  next
    case True
    then have "mmap fuel H req prot flags fd offset s =
         (case acq of Acquire_aborted \<Rightarrow> Some (Map_aborted, s2)
          | Acquire_failed \<Rightarrow> Some (Map_failed ENOMEM, s2)
          | Acquired i \<Rightarrow> if flags AND MAP_ANON \<noteq> 0 then Some (Mapped (r_base (mm_regs s2 ! i)), s2)
              else mmap_file fuel H i (page_ceil req) prot flags fd offset s2)"
      using assms(2) r(1) a by (simp add: mmap_def Let_def split: acquired.split)
    with r True show thesis by (intro room [OF r(2) _ a]) simp_all
  qed
qed

text \<open>The file part of a call, on the region just acquired.\<close>

lemma mmap_file_acquired:
  assumes ok: "mman_ok s2" and acq: "acquired_at i len R_FILE prot flags s s2" and host: "host_ok H fuel"
    and cap: "length (mm_regs s2) < mm_cap s2" and fresh: "malloc_fresh H (mm_frefs s2)"
  shows "\<exists>res s'. mmap_file fuel H i len prot flags fd offset s2 = Some (res, s') \<and> mman_ok s' \<and>
    mm_pages s' = mm_pages s2 \<and>
    (case res of Mapped b \<Rightarrow> mapped_at s s' b len | Map_failed e \<Rightarrow> unmapped_same s s' | Map_aborted \<Rightarrow> False)"
proof -
  define b where "b = r_base (mm_regs s2 ! i)"
  have map: "mapping_at s2 i len prot flags"
    using ok acq cap by (simp add: mapping_at_def acquired_at_def Let_def)
  note pr = mapping_page_range [OF map, folded b_def]
  have pb: "pread_bounded H fuel" using host by (simp add: host_ok_def)
  have l: "0 + len < size_mod" using pr(4) by linarith
  obtain pres m h where pop: "populate fuel H fd b len offset 0 (mm_mem s2) (mm_host s2) = Some (pres, m, h)"
    and frame: "\<forall>a. \<not> (b \<le> a \<and> a < b + len) \<longrightarrow> m a = mm_mem s2 a"
    and t: "\<forall>t. pres = Inr t \<longrightarrow> 0 \<le> t \<and> t \<le> 0 + len"
    using populate_frame [OF pb pr(4) l, of fd offset "mm_mem s2" "mm_host s2"] by blast
  have bound: "\<forall>t. pres = Inr t \<longrightarrow> t \<le> len" using t by simp
  obtain res s' where r: "mmap_file fuel H i len prot flags fd offset s2 = Some (res, s')" "mman_ok s'"
    "mm_mem s' = m" "mm_pages s' = mm_pages s2"
    "case res of
       Mapped b' \<Rightarrow> b' = b \<and> (\<exists>t. pres = Inr t \<and> file_mapped s2 s' b len prot flags offset t)
     | Map_failed e \<Rightarrow> (\<forall>a. live_at (mm_regs s') a = (if b \<le> a \<and> a < b + len then None else live_at (mm_regs s2) a))
     | Map_aborted \<Rightarrow> False"
    using mmap_file_laws [OF map host fresh pop [unfolded b_def] frame [unfolded b_def] bound, folded b_def]
    by blast
  have a: "\<forall>a. b \<le> a \<and> a < b + len \<longrightarrow> live_at (mm_regs s) a = None"
    "\<forall>a. \<not> (b \<le> a \<and> a < b + len) \<longrightarrow> mm_mem s2 a = mm_mem s a \<and> live_at (mm_regs s2) a = live_at (mm_regs s) a"
    using acq by (simp_all add: acquired_at_def Let_def b_def)
  have "case res of Mapped b \<Rightarrow> mapped_at s s' b len | Map_failed e \<Rightarrow> unmapped_same s s' | Map_aborted \<Rightarrow> False"
  proof (cases res)
    case (Mapped b')
    then have e: "b' = b" and f: "\<exists>t. file_mapped s2 s' b len prot flags offset t" using r(5) by auto
    have "live_at (mm_regs s') x \<noteq> None" if "b \<le> x \<and> x < b + len" for x
      using f that by (auto simp: file_mapped_def)
    moreover have "live_at (mm_regs s') x = live_at (mm_regs s) x \<and> mm_mem s' x = mm_mem s x"
      if "\<not> (b \<le> x \<and> x < b + len)" for x
      using f that a(2) frame r(3) by (auto simp: file_mapped_def)
    moreover have "b mod PAGE = 0" "b + len \<le> mm_pages s' * PAGE"
      using pr(1,3) r(4) by (simp_all add: page_range_def)
    ultimately show ?thesis using Mapped a(1) e by (simp add: mapped_at_def)
  next
    case (Map_failed e)
    then have v: "live_at (mm_regs s') x = (if b \<le> x \<and> x < b + len then None else live_at (mm_regs s2) x)" for x
      using r(5) by simp
    have "live_at (mm_regs s') x = live_at (mm_regs s) x" for x using v [of x] a by simp
    moreover have "mm_mem s' x = mm_mem s x" if "live_at (mm_regs s) x \<noteq> None" for x
      using that a frame r(3) by metis
    ultimately show ?thesis using Map_failed by (simp add: unmapped_same_def fun_eq_iff)
  next
    case Map_aborted
    then show ?thesis using r(5) by simp
  qed
  with r show ?thesis by blast
qed

text \<open>
  The contract of mmap.  The one growth left out is the one that makes the memory exactly 4 GiB
  long: a region that ends there has the end 0 in the code's arithmetic.
\<close>

lemma acquire_size:
  assumes "mman_ok s" "0 < len" "len mod PAGE = 0" "len < 2147483648 \<or> first_fit (mm_regs s) len \<noteq> None"
    "acquire_pages H len kind prot flags s = (res, s')"
  shows "mm_pages s' = mm_pages s \<or> mm_pages s' = mm_pages s + len div PAGE \<and> mm_pages s' \<le> max_pages"
proof (cases "first_fit (mm_regs s) len")
  case None
  obtain r p h where sb: "sbrk (mh_grow H) (to_intptr len) (mm_pages s) (mm_host s) = (r, p, h)"
    by (metis prod_cases3)
  have "mm_pages s \<le> max_pages" "len < 2147483648" using assms(1,4) None by (simp_all add: mman_ok_def)
  from sbrk_grow [OF assms(2,3) this(2,1) sb] show ?thesis
    using assms(5) None sb by (auto simp: acquire_pages_def Let_def)
next
  case (Some i)
  then show ?thesis using assms(5) by (auto simp: acquire_pages_def Let_def)
qed

lemma acquired_at_host:
  "acquired_at i len kind prot flags (s\<lparr>mm_cap := c, mm_host := h\<rparr>) s' = acquired_at i len kind prot flags s s'"
  by (simp add: acquired_at_def)

lemma mmap_contract:
  assumes ok: "mman_ok s" and host: "host_ok H fuel" and fresh: "malloc_fresh H (mm_frefs s)"
    and edge: "mm_pages s + page_ceil req div PAGE \<noteq> max_pages"
  shows "\<exists>res s'. mmap fuel H req prot flags fd offset s = Some (res, s') \<and> mman_ok s' \<and>
      (case res of Mapped b \<Rightarrow> mapped_at s s' b (page_ceil req) \<and> req \<le> page_ceil req
       | Map_failed e \<Rightarrow> unmapped_same s s'
       | Map_aborted \<Rightarrow> 2147418112 < req \<and> first_fit (mm_regs s) 2147483648 = None)"
proof (cases "mmap_check req prot flags fd offset")
  case (Some e)
  then show ?thesis using ok by (simp add: mmap_def unmapped_same_def)
next
  case None
  note len = mmap_check_None [OF None]
  let ?len = "page_ceil req" and ?kind = "if flags AND MAP_ANON \<noteq> 0 then R_ANON else R_FILE"
  from ok None show ?thesis
  proof (cases rule: mmap_stages [where fuel = fuel and H = H])
    case (full cap h)
    then show ?thesis by (simp add: unmapped_same_def)
  next
    case (room cap h acq s2)
    let ?s = "s\<lparr>mm_cap := cap, mm_host := h\<rparr>"
    show ?thesis
    proof (cases "?len < 2147483648 \<or> first_fit (mm_regs s) ?len \<noteq> None")
      case False
      then have big: "?len = 2147483648" "2147418112 < req" using len(4,7) by (metis not_le)+
      then have "(acq, s2) = (Acquire_aborted, ?s)"
        using False room(3) acquire_aborts [of ?s H ?kind prot flags] by simp
      then have "mmap fuel H req prot flags fd offset s = Some (Map_aborted, ?s)" using room(4) by simp
      then show ?thesis using False big room(1) by simp
    next
      case True
      have fit: "?len < 2147483648 \<or> first_fit (mm_regs ?s) ?len \<noteq> None" using True by simp
      have "mm_pages s2 < max_pages"
        using acquire_size [OF room(1) len(1,2) fit room(3)] edge mman_okD(4) [OF ok] by auto
      moreover have "length (mm_regs ?s) + 2 \<le> mm_cap ?s" "?kind \<noteq> R_FREE" using room(2) by simp_all
      ultimately have acq: "mman_ok s2" "acquire_frame ?s s2"
        "case acq of Acquired i \<Rightarrow> acquired_at i ?len ?kind prot flags ?s s2
           | Acquire_failed \<Rightarrow> mm_regs s2 = mm_regs ?s \<and> mm_mem s2 = mm_mem ?s | Acquire_aborted \<Rightarrow> False"
        using acquire_laws [OF room(1) _ len(1,2) _ fit room(3)] by blast+
      show ?thesis
      proof (cases acq)
        case Acquire_aborted
        then show ?thesis using acq(3) by simp
      next
        case Acquire_failed
        then show ?thesis using acq(1,3) room(4) by (simp add: unmapped_same_def)
      next
        case (Acquired i)
        then have at: "acquired_at i ?len ?kind prot flags s s2"
          using acq(3) by (simp add: acquired_at_host)
        show ?thesis
        proof (cases "flags AND MAP_ANON \<noteq> 0")
          case True
          then show ?thesis
            using room(4) Acquired acq(1) acquired_mapped [OF at acq(1)] len(3) by simp
        next
          case False
          have "length (mm_regs s2) < mm_cap s2" "mm_frefs s2 = mm_frefs s"
            using acq(2) room(2) by (simp_all add: acquire_frame_def)
          then obtain res s' where "mmap_file fuel H i ?len prot flags fd offset s2 = Some (res, s')" "mman_ok s'"
            "case res of Mapped b \<Rightarrow> mapped_at s s' b ?len | Map_failed e \<Rightarrow> unmapped_same s s' | Map_aborted \<Rightarrow> False"
            using mmap_file_acquired [OF acq(1) _ host, of i ?len prot flags s fd offset] at False fresh by auto
          then show ?thesis
            using room(4) Acquired False len(3) by (intro exI [of _ res] exI [of _ s']) (cases res; simp)
        qed
      qed
    qed
  qed
qed

section \<open>munmap\<close>

lemma munmap_args:
  assumes "start < size_mod" "req < size_mod"
  shows "(page_offset start \<noteq> 0 \<or> req = 0 \<or> page_ceil req < req \<or> szadd start (page_ceil req) < start) \<longleftrightarrow>
    (start mod PAGE \<noteq> 0 \<or> req = 0 \<or> 4294901760 < req \<or> size_mod \<le> start + page_ceil req)"
proof (cases "req = 0 \<or> 4294901760 < req")
  case True
  then show ?thesis using assms page_ceil_wraps [of req] by auto
next
  case False
  then have "0 < req" "req \<le> 4294901760" by simp_all
  note p = page_ceil_small [OF this]
  have "szadd start (page_ceil req) < start \<longleftrightarrow> size_mod \<le> start + page_ceil req"
  proof (cases "size_mod \<le> start + page_ceil req")
    case True
    then have "start + page_ceil req = (start + page_ceil req - size_mod) + size_mod" by simp
    then have "szadd start (page_ceil req) = (start + page_ceil req - size_mod) mod size_mod"
      unfolding szadd_def by (metis mod_add_self2)
    also have "\<dots> = start + page_ceil req - size_mod" using assms(1) p(4) by simp
    finally show ?thesis using True p(4) by linarith
  next
    case False
    then show ?thesis by (simp add: size_simps)
  qed
  then show ?thesis using False p(1) page_offset_eq [OF assms(1)] by auto
qed

lemma munmap_contract:
  assumes ok: "mman_ok s" and host: "host_ok H fuel" and args: "start < size_mod" "req < size_mod"
  defines "bad \<equiv> start mod PAGE \<noteq> 0 \<or> req = 0 \<or> 4294901760 < req \<or> size_mod \<le> start + page_ceil req"
  shows "\<exists>res s'. munmap fuel H start req s = Some (res, s') \<and> mman_ok s' \<and> mm_mem s' = mm_mem s \<and>
    mm_pages s' = mm_pages s \<and> owned (mm_regs s') = owned (mm_regs s) \<and>
    (case res of
       Inl e \<Rightarrow> e = (if bad then EINVAL else ENOMEM) \<and> live_at (mm_regs s') = live_at (mm_regs s)
     | Inr _ \<Rightarrow> \<not> bad \<and> (\<forall>a. live_at (mm_regs s') a =
         (if start \<le> a \<and> a < start + page_ceil req then None else live_at (mm_regs s) a)))"
proof (cases bad)
  case True
  then have "munmap fuel H start req s = Some (Inl EINVAL, s)"
    using munmap_args [OF args] by (auto simp: munmap_def bad_def Let_def)
  then show ?thesis using True ok by simp
next
  case False
  then have n: "page_offset start = 0" "req \<noteq> 0" "\<not> page_ceil req < req"
    "\<not> szadd start (page_ceil req) < start" "start + page_ceil req < size_mod"
    using munmap_args [OF args] by (auto simp: bad_def)
  have "0 < req" "req \<le> 4294901760" using False by (auto simp: bad_def)
  note p = page_ceil_small [OF this]
  have z: "szadd start (page_ceil req) = start + page_ceil req" using n(5) by (simp add: size_simps)
  have sm: "start mod PAGE = 0" using False by (simp add: bad_def)
  have pr: "page_range start (start + page_ceil req)"
    using n(5) p(2,5) sm page_sum [of start "page_ceil req"] by (simp add: page_range_def)
  obtain room cap h where r: "reserve H 2 s = Some (room, s\<lparr>mm_cap := cap, mm_host := h\<rparr>)"
    "mman_ok (s\<lparr>mm_cap := cap, mm_host := h\<rparr>)" "room \<longrightarrow> length (mm_regs s) + 2 \<le> cap"
    using reserve_returns [OF ok, of H] by metis
  show ?thesis
  proof (cases room)
    case no: False
    then have "munmap fuel H start req s = Some (Inl ENOMEM, s\<lparr>mm_cap := cap, mm_host := h\<rparr>)"
      using r(1) n by (simp add: munmap_def Let_def)
    then show ?thesis using False r(2) by simp
  next
    case True
    note s = mman_okD [OF ok]
    have pw: "pwrite_progress H fuel" "size_mod \<le> fuel" using host by (simp_all add: host_ok_def)
    obtain rs fr h2 where u: "unmap_range fuel H (mm_mem s) start (start + page_ceil req)
        (mm_regs s) (mm_frefs s) h = Some (rs, fr, h2)"
      and rs: "table_ok rs" "frefs_ok fr rs" "owned rs = owned (mm_regs s)" "coalesced rs"
        "length rs \<le> length (mm_regs s) + 2"
        "\<forall>a. live_at rs a = (if start \<le> a \<and> a < start + page_ceil req then None else live_at (mm_regs s) a)"
      using unmap_range_laws [OF s(1,3) pr pw, of "mm_mem s" h] s(2) by (force split: if_splits)
    let ?s = "s\<lparr>mm_cap := cap, mm_regs := rs, mm_frefs := fr, mm_host := h2\<rparr>"
    have "munmap fuel H start req s = Some (Inr (), ?s)"
      using r(1) True n z u by (simp add: munmap_def Let_def)
    moreover have "\<forall>q \<in> set rs. r_base q + r_len q \<le> mm_pages s * PAGE"
      using s(5) table_below [OF s(1)] table_below [OF rs(1)] rs(3) by simp
    then have "mman_ok ?s" using r(2,3) True rs by (simp add: mman_ok_def)
    ultimately show ?thesis using False rs(3,6) by (intro exI [of _ "Inr ()"] exI [of _ ?s]) simp
  qed
qed

section \<open>msync\<close>

text \<open>The coverage loop of msync decides whether every address of the range is mapped.\<close>

lemma msync_covered_live:
  assumes "table_ok qs" "\<forall>q \<in> set qs. cursor < r_base q + r_len q"
  shows "msync_covered qs cursor stop \<longleftrightarrow> (\<forall>a. cursor \<le> a \<and> a < stop \<longrightarrow> live_at qs a \<noteq> None)"
  using assms
proof (induction qs arbitrary: cursor)
  case Nil
  then show ?case by (auto simp: msync_covered.simps)
next
  case (Cons r rs)
  have r: "region_ok r" "table_ok rs" "\<forall>q \<in> set rs. r_base r + r_len r \<le> r_base q"
    using Cons.prems(1) by (auto simp: table_ok_Cons)
  have e: "r_end r = r_base r + r_len r" by (rule r_end_eq [OF r(1)])
  have rest: "\<forall>q \<in> set rs. r_base r + r_len r < r_base q + r_len q"
    using r(2,3) by (fastforce simp: table_ok_def region_ok_def)
  show ?case
  proof (cases "cursor < stop")
    case False
    then show ?thesis by (auto simp: msync_covered.simps)
  next
    case lt: True
    have below: "live_at rs a = None" if "a < r_base r + r_len r" for a
      using r(3) that by (fastforce simp: live_at_None intro!: region_view_apart)
    show ?thesis
    proof (cases "r_kind r = R_FREE \<or> r_base r > cursor")
      case True
      have "live_at (r # rs) cursor = None"
        using True below [of cursor] Cons.prems(2)
        by (auto simp: region_view_def in_region_def)
      then show ?thesis using True lt by (auto simp: msync_covered.simps [of "r # rs"])
    next
      case False
      have "msync_covered (r # rs) cursor stop = msync_covered rs (r_base r + r_len r) stop"
        using False lt e by (simp add: msync_covered.simps [of "r # rs"])
      also have "\<dots> = (\<forall>a. r_base r + r_len r \<le> a \<and> a < stop \<longrightarrow> live_at rs a \<noteq> None)"
        by (rule Cons.IH [OF r(2) rest])
      also have "\<dots> = (\<forall>a. cursor \<le> a \<and> a < stop \<longrightarrow> live_at (r # rs) a \<noteq> None)"
        using False Cons.prems(2)
        by (auto simp: region_view_def in_region_def not_le split: option.splits)
      finally show ?thesis .
    qed
  qed
qed

text \<open>
  The writes a call of msync issues: for every shared writable file region, the part of it inside
  the range that the file backs, at the file offset of its first byte.
\<close>

definition region_write :: "frefs \<Rightarrow> memory \<Rightarrow> nat \<Rightarrow> nat \<Rightarrow> region \<Rightarrow> (int \<times> byte list \<times> int) list" where
  "region_write fr m start stop r =
     (let lo = max (r_base r) start;
          hi = min (min (r_base r + r_len r) stop) (r_base r + r_data_len r) in
      case r_fref r of None \<Rightarrow> []
      | Some p \<Rightarrow>
          if r_kind r = R_FILE \<and> r_prot r AND PROT_WRITE \<noteq> 0 \<and> lo < hi
          then (case fr p of None \<Rightarrow> []
                | Some f \<Rightarrow> [(fr_fd f, mem_read lo (hi - lo) m, r_off r + (int lo - int (r_base r)))])
          else [])"

definition msync_writes :: "frefs \<Rightarrow> memory \<Rightarrow> nat \<Rightarrow> nat \<Rightarrow> region list \<Rightarrow> (int \<times> byte list \<times> int) list" where
  "msync_writes fr m start stop rs = concat (map (region_write fr m start stop) rs)"

text \<open>
  What POSIX says of pwrite on regular files: \<open>file fd\<close> is the file that a descriptor has open and \<open>content h\<close> the bytes of the files.
  A call writes some of the bytes from the start of its buffer, at least one, and nothing else; or it fails and writes nothing; or a
  signal interrupts it before it has written, up to \<open>K\<close> times in a row.
\<close>

type_synonym file_write = "int \<times> byte list \<times> int"

definition apply_write :: "(int \<Rightarrow> 'f) \<Rightarrow> file_write \<Rightarrow> ('f \<Rightarrow> int \<Rightarrow> byte) \<Rightarrow> 'f \<Rightarrow> int \<Rightarrow> byte" where
  "apply_write file w c = (case w of (fd, bs, off) \<Rightarrow>
     c(file fd := (\<lambda>x. if off \<le> x \<and> x < off + int (length bs) then bs ! nat (x - off) else c (file fd) x)))"

definition pwrite_files :: "'h mman_host \<Rightarrow> (int \<Rightarrow> 'f) \<Rightarrow> ('h \<Rightarrow> 'f \<Rightarrow> int \<Rightarrow> byte) \<Rightarrow> nat \<Rightarrow> bool" where
  "pwrite_files H file content fuel \<longleftrightarrow>
     (\<exists>left K. (\<forall>h. left h \<le> K) \<and> size_mod * (K + 1) \<le> fuel \<and>
       (\<forall>fd bs off h. bs \<noteq> [] \<longrightarrow>
        (case mh_pwrite H fd bs off h of
           (Inl e, h') \<Rightarrow> content h' = content h \<and> (e = EINTR \<longrightarrow> left h' < (left h :: nat))
         | (Inr n, h') \<Rightarrow> 0 < n \<and> n \<le> length bs \<and> content h' = apply_write file (fd, take n bs, off) (content h))))"

text \<open>A write of which a part is done, from its start.\<close>

definition write_part :: "file_write \<Rightarrow> file_write \<Rightarrow> bool" where
  "write_part v w \<longleftrightarrow> (case (v, w) of ((fd, bs, off), (fd', bs', off')) \<Rightarrow>
     fd = fd' \<and> off = off' \<and> (\<exists>k. bs = take k bs'))"

lemma write_part_refl [simp]: "write_part w w"
proof -
  have "\<exists>k. bs = take k bs" for bs :: "byte list" by (rule exI [of _ "length bs"]) simp
  then show ?thesis by (cases w) (simp add: write_part_def)
qed

lemma apply_write_nothing: "apply_write file (fd, [], off) c = c"
  by (auto simp: apply_write_def fun_eq_iff)

lemma apply_write_append:
  "apply_write F (fd, bs, off + int (length cs)) (apply_write F (fd, cs, off) c) = apply_write F (fd, cs @ bs, off) c"
  by (auto simp: apply_write_def fun_eq_iff nth_append nat_less_iff nat_diff_distrib algebra_simps intro!: arg_cong [where f = "(!) bs"])

lemma mem_read_parts: "n \<le> r \<Longrightarrow> mem_read body r m = mem_read body n m @ mem_read (body + n) (r - n) m"
proof -
  assume "n \<le> r"
  then have "[body..<body + r] = [body..<body + n] @ [body + n..<body + n + (r - n)]"
    using upt_add_eq_append [of body "body + n" "r - n"] by simp
  then show ?thesis by (simp add: mem_read_def)
qed

lemma writeback_loop_files:
  assumes "pwrite_files H file content fuel" "body + remaining < size_mod"
  shows "\<exists>res h' k. writeback_loop fuel H fd m body remaining off h = Some (res, h') \<and> k \<le> remaining \<and>
    content h' = apply_write file (fd, mem_read body k m, off) (content h) \<and> (res = Inr () \<longrightarrow> k = remaining)"
proof -
  obtain left K where K: "\<And>h. left h \<le> K" "size_mod * (K + 1) \<le> fuel"
    and w: "\<And>fd bs off h. bs \<noteq> [] \<Longrightarrow> (case mh_pwrite H fd bs off h of
           (Inl e, h') \<Rightarrow> content h' = content h \<and> (e = EINTR \<longrightarrow> left h' < (left h :: nat))
         | (Inr n, h') \<Rightarrow> 0 < n \<and> n \<le> length bs \<and> content h' = apply_write file (fd, take n bs, off) (content h))"
    using assms(1) unfolding pwrite_files_def by blast
  have "\<exists>res h' k. writeback_loop f H fd m body r off h = Some (res, h') \<and> k \<le> r \<and>
      content h' = apply_write file (fd, mem_read body k m, off) (content h) \<and> (res = Inr () \<longrightarrow> k = r)"
    if "r * (K + 1) + left h \<le> f" "body + r < size_mod" for f r body off h
    using that
  proof (induction f arbitrary: body r off h)
    case 0
    then have "writeback_loop 0 H fd m body r off h = Some (Inr (), h)" "r = 0" by simp_all
    then show ?case by (intro exI [of _ "Inr ()"] exI [of _ h] exI [of _ 0]) (simp add: mem_read_def apply_write_nothing)
  next
    case (Suc f)
    show ?case
    proof (cases "r = 0")
      case True
      then show ?thesis by (intro exI [of _ "Inr ()"] exI [of _ h] exI [of _ 0]) (simp add: mem_read_def apply_write_nothing)
    next
      case False
      obtain ans h1 where p: "mh_pwrite H fd (mem_read body r m) off h = (ans, h1)"
        by (cases "mh_pwrite H fd (mem_read body r m) off h")
      have ne: "mem_read body r m \<noteq> []" "length (mem_read body r m) = r" using False by (simp_all add: mem_read_def)
      note ans = w [OF ne(1), where fd = fd and off = off and h = h, unfolded p ne(2)]
      consider (again) "ans = Inl EINTR" | (failed) e where "ans = Inl e" "e \<noteq> EINTR" | (some) n where "ans = Inr n"
        by (cases ans) auto
      then show ?thesis
      proof cases
        case again
        then have "r * (K + 1) + left h1 \<le> f" "content h1 = content h" using ans Suc.prems(1) by simp_all
        then show ?thesis using again False p Suc.IH [of r h1 body off] Suc.prems(2) by simp
      next
        case (failed e)
        then have "content h1 = content h" using ans by simp
        then show ?thesis using failed False p
          by (intro exI [of _ "Inl e"] exI [of _ h1] exI [of _ 0]) (simp add: mem_read_def apply_write_nothing)
      next
        case (some n)
        then have n: "0 < n" "n \<le> r" "content h1 = apply_write file (fd, take n (mem_read body r m), off) (content h)"
          using ans by simp_all
        have z: "szsub r n = r - n" "szadd body n = body + n" using n Suc.prems by (simp_all add: size_simps)
        have tk: "take n (mem_read body r m) = mem_read body n m"
          unfolding mem_read_parts [OF n(2)] by (simp add: mem_read_def)
        have pre: "(r - n) * (K + 1) + left h1 \<le> f" "body + n + (r - n) < size_mod"
          using less_work [OF n(1,2) K(1) Suc.prems(1)] Suc.prems(2) n by simp_all
        obtain res h' k where ih: "writeback_loop f H fd m (body + n) (r - n) (off + int n) h1 = Some (res, h')" "k \<le> r - n"
          "content h' = apply_write file (fd, mem_read (body + n) k m, off + int n) (content h1)" "res = Inr () \<longrightarrow> k = r - n"
          using Suc.IH [OF pre, of "off + int n"] by blast
        have "content h' = apply_write file (fd, mem_read body (n + k) m, off) (content h)"
          using apply_write_append [where F = "file" and fd = fd and bs = "mem_read (body + n) k m" and off = off and cs = "mem_read body n m" and c = "content h"]
            mem_read_parts [of n "n + k" body m] ih(3) n(3) tk by (simp add: mem_read_def)
        then show ?thesis using ih some False p z n(2)
          by (intro exI [of _ res] exI [of _ h'] exI [of _ "n + k"]) auto
      qed
    qed
  qed
  moreover have "remaining * (K + 1) + left h \<le> fuel" by (rule full_work [OF _ K]) (use assms(2) in simp)
  ultimately show ?thesis using assms(2) by blast
qed

lemma writeback_files:
  assumes H: "pwrite_files H file content fuel" and r: "region_ok r" "r_kind r = R_FILE" "r_prot r AND PROT_WRITE \<noteq> 0"
    and fr: "r_fref r = Some p" "fr p = Some f"
  shows "\<exists>res h' ws. writeback fuel H fr m r (if r_base r > start then r_base r else start)
      (if r_end r < stop then r_end r else stop) h = Some (res, h') \<and>
    list_all2 write_part ws (region_write fr m start stop r) \<and> content h' = fold (apply_write file) ws (content h) \<and>
    (res = Inr () \<longrightarrow> ws = region_write fr m start stop r)"
proof -
  have e: "r_end r = r_base r + r_len r" "szadd (r_base r) (r_data_len r) = r_base r + r_data_len r"
    using r by (auto simp: region_ok_def size_simps r_end_eq)
  define lo where "lo = max (r_base r) start"
  define hi where "hi = min (min (r_base r + r_len r) stop) (r_base r + r_data_len r)"
  have mx: "(if r_base r > start then r_base r else start) = lo" by (simp add: lo_def max_def)
  have mn: "(if (if r_end r < stop then r_end r else stop) > r_base r + r_data_len r
     then r_base r + r_data_len r else (if r_end r < stop then r_end r else stop)) = hi"
    by (simp add: hi_def min_def e)
  have bound: "hi < size_mod" using r(1) by (auto simp: hi_def region_ok_def)
  show ?thesis
  proof (cases "lo < hi")
    case False
    then have "region_write fr m start stop r = []"
      by (simp add: region_write_def Let_def lo_def [symmetric] hi_def [symmetric] split: option.split)
    moreover have "writeback fuel H fr m r (if r_base r > start then r_base r else start)
      (if r_end r < stop then r_end r else stop) h = Some (Inr (), h)"
      using False by (simp only: writeback_def Let_def e(2) mn mx) simp
    ultimately show ?thesis by (intro exI [of _ "Inr ()"] exI [of _ h] exI [of _ "[]"]) simp
  next
    case True
    let ?off = "r_off r + int (lo - r_base r)"
    have z: "szsub hi lo = hi - lo" "szsub lo (r_base r) = lo - r_base r" "lo + (hi - lo) < size_mod"
      using True bound by (simp_all add: size_simps lo_def)
    obtain res h' k where w: "writeback_loop fuel H (fr_fd f) m lo (hi - lo) ?off h = Some (res, h')" "k \<le> hi - lo"
      "content h' = apply_write file (fr_fd f, mem_read lo k m, ?off) (content h)" "res = Inr () \<longrightarrow> k = hi - lo"
      using writeback_loop_files [OF H z(3), of "fr_fd f" m ?off h] by blast
    have rw: "region_write fr m start stop r = [(fr_fd f, mem_read lo (hi - lo) m, ?off)]"
      using True r fr by (simp add: region_write_def Let_def lo_def [symmetric] hi_def [symmetric])
        (simp add: lo_def of_nat_diff)
    have "mem_read lo k m = take k (mem_read lo (hi - lo) m)"
      unfolding mem_read_parts [OF w(2)] by (simp add: mem_read_def)
    then have "write_part (fr_fd f, mem_read lo k m, ?off) (fr_fd f, mem_read lo (hi - lo) m, ?off)"
      by (auto simp: write_part_def)
    moreover have "writeback fuel H fr m r (if r_base r > start then r_base r else start)
      (if r_end r < stop then r_end r else stop) h = Some (res, h')"
      using True fr z w(1) by (simp only: writeback_def Let_def e(2) mn mx) simp
    ultimately show ?thesis using rw w
      by (intro exI [of _ res] exI [of _ h'] exI [of _ "[(fr_fd f, mem_read lo k m, ?off)]"]) auto
  qed
qed

lemma msync_write_files:
  assumes H: "pwrite_files H file content fuel" and t: "table_ok rs"
    and fr: "\<forall>r \<in> set rs. \<forall>p. r_fref r = Some p \<longrightarrow> fr p \<noteq> None"
  shows "\<exists>res h' ws. msync_write fuel H fr m start stop rs r0 h = Some (res, h') \<and>
    list_all2 write_part ws (msync_writes fr m start stop rs) \<and> content h' = fold (apply_write file) ws (content h) \<and>
    (res = Inr () \<longrightarrow> r0 = Inr () \<and> ws = msync_writes fr m start stop rs)"
  using t fr
proof (induction rs arbitrary: h r0)
  case Nil
  then show ?case by (intro exI [of _ r0] exI [of _ h] exI [of _ "[]"]) (simp add: msync_writes_def)
next
  case (Cons r rs)
  have r: "region_ok r" "table_ok rs" "\<forall>q \<in> set rs. r_base r + r_len r \<le> r_base q"
    using Cons.prems(1) by (auto simp: table_ok_Cons)
  have pres: "\<forall>r \<in> set rs. \<forall>p. r_fref r = Some p \<longrightarrow> fr p \<noteq> None" using Cons.prems(2) by simp
  note IH = Cons.IH [OF r(2) pres]
  consider (beyond) "stop \<le> r_base r" | (skip) "r_base r < stop" "r_kind r \<noteq> R_FILE \<or> r_fref r = None \<or> r_prot r AND PROT_WRITE = 0"
    | (wr) p f where "r_base r < stop" "r_kind r = R_FILE" "r_prot r AND PROT_WRITE \<noteq> 0" "r_fref r = Some p" "fr p = Some f"
    using Cons.prems(2) by fastforce
  then show ?case
  proof cases
    case beyond
    then have "region_write fr m start stop q = []" if "q \<in> set (r # rs)" for q
      using r that by (auto simp: region_write_def Let_def split: option.split)
    then have "msync_writes fr m start stop (r # rs) = []" by (simp add: msync_writes_def)
    then show ?thesis using beyond by (intro exI [of _ r0] exI [of _ h] exI [of _ "[]"]) simp
  next
    case skip
    then have "region_write fr m start stop r = []"
      by (auto simp: region_write_def Let_def split: option.split)
    then show ?thesis using skip IH [where h = h and ?r0.0 = r0] by (simp add: msync_writes_def)
  next
    case wr
    obtain res1 h1 ws1 where w: "writeback fuel H fr m r (if r_base r > start then r_base r else start)
        (if r_end r < stop then r_end r else stop) h = Some (res1, h1)"
      "list_all2 write_part ws1 (region_write fr m start stop r)" "content h1 = fold (apply_write file) ws1 (content h)"
      "res1 = Inr () \<longrightarrow> ws1 = region_write fr m start stop r"
      using writeback_files [where fr = fr and m = m and start = start and stop = stop and h = h and f = f, OF H r(1) wr(2-5)] by (elim exE conjE)
    obtain res h' ws where i: "msync_write fuel H fr m start stop rs (case res1 of Inl e \<Rightarrow> Inl e | Inr _ \<Rightarrow> r0) h1 = Some (res, h')"
      "list_all2 write_part ws (msync_writes fr m start stop rs)" "content h' = fold (apply_write file) ws (content h1)"
      "res = Inr () \<longrightarrow> (case res1 of Inl e \<Rightarrow> Inl e | Inr _ \<Rightarrow> r0) = Inr () \<and> ws = msync_writes fr m start stop rs"
      using IH [where h = h1 and ?r0.0 = "case res1 of Inl e \<Rightarrow> Inl e | Inr _ \<Rightarrow> r0"] by (elim exE conjE)
    have "msync_write fuel H fr m start stop (r # rs) r0 h = Some (res, h')" using wr w(1) i(1) by simp
    moreover have "list_all2 write_part (ws1 @ ws) (msync_writes fr m start stop (r # rs))"
      using list_all2_appendI [OF w(2) i(2)] by (simp add: msync_writes_def)
    moreover have "content h' = fold (apply_write file) (ws1 @ ws) (content h)" using w(3) i(3) by simp
    moreover have "res = Inr () \<longrightarrow> r0 = Inr () \<and> ws1 @ ws = msync_writes fr m start stop (r # rs)"
      using w(4) i(4) by (cases res1) (auto simp: msync_writes_def)
    ultimately show ?thesis by blast
  qed
qed

text \<open>The regions from the first overlap on show the same as the whole table.\<close>

lemma live_at_drop_overlap:
  assumes "table_ok rs" "start \<le> a"
  shows "live_at (drop (first_overlap rs start) rs) a = live_at rs a"
proof -
  obtain ps qs where rs: "rs = ps @ qs" "length ps = first_overlap rs start"
    and "\<forall>p \<in> set ps. r_base p + r_len p \<le> start"
    using first_overlap_lists [OF assms(1)] by metis
  then have "live_at ps a = None"
    using assms(2) by (fastforce simp: live_at_None intro!: region_view_apart)
  then show ?thesis using rs by (metis append_eq_conv_conj live_at_append option.simps(4))
qed

definition msync_flags_ok :: "32 word \<Rightarrow> bool" where
  "msync_flags_ok flags \<longleftrightarrow> \<not> (flags AND MS_ASYNC \<noteq> 0 \<and> flags AND MS_SYNC \<noteq> 0) \<and>
     flags AND NOT (MS_ASYNC OR MS_SYNC OR MS_INVALIDATE) = 0"

lemma msync_contract:
  assumes ok: "mman_ok s" and args: "start < size_mod" "req < size_mod" "0 < req" "start mod PAGE = 0"
    "msync_flags_ok flags"
  shows "msync fuel H start req flags s =
    (if 4294901760 < req \<or> size_mod \<le> start + page_ceil req \<or>
        (\<exists>a. start \<le> a \<and> a < start + page_ceil req \<and> live_at (mm_regs s) a = None)
     then Some (Inl ENOMEM, s)
     else map_option (\<lambda>(res, h). (res, s\<lparr>mm_host := h\<rparr>))
       (msync_write fuel H (mm_frefs s) (mm_mem s) start (start + page_ceil req)
          (drop (first_overlap (mm_regs s) start) (mm_regs s)) (Inr ()) (mm_host s)))"
proof -
  have al: "page_offset start = 0" using page_offset_eq [OF args(1)] args(4) by simp
  have bad: "(page_ceil req < req \<or> szadd start (page_ceil req) < start) =
      (4294901760 < req \<or> size_mod \<le> start + page_ceil req)"
    using munmap_args [OF args(1,2)] al args(3,4) by simp
  have fl: "\<not> (flags AND MS_ASYNC \<noteq> 0 \<and> flags AND MS_SYNC \<noteq> 0)"
    "flags AND NOT (MS_ASYNC OR MS_SYNC OR MS_INVALIDATE) = 0"
    using args(5) unfolding msync_flags_ok_def by blast+
  show ?thesis
  proof (cases "4294901760 < req \<or> size_mod \<le> start + page_ceil req")
    case True
    with al fl args(3) bad show ?thesis unfolding msync_def Let_def by auto
  next
    case False
    then have nb: "\<not> (page_ceil req < req \<or> szadd start (page_ceil req) < start)" using bad by blast
    have z: "szadd start (page_ceil req) = start + page_ceil req" using False by (simp add: size_simps)
    let ?qs = "drop (first_overlap (mm_regs s) start) (mm_regs s)"
    obtain ps qs where rs: "mm_regs s = ps @ qs" "length ps = first_overlap (mm_regs s) start"
      "\<forall>q \<in> set qs. start < r_base q + r_len q"
      using first_overlap_lists [OF mman_okD(1) [OF ok]] by metis
    then have q: "?qs = qs" "table_ok qs"
      using mman_okD(1) [OF ok] by (simp_all add: append_eq_conv_conj table_ok_append)
    have "live_at qs a = live_at (mm_regs s) a" if "start \<le> a" for a
      using live_at_drop_overlap [OF mman_okD(1) [OF ok] that] q(1) by simp
    then have cov: "msync_covered qs start (start + page_ceil req) =
        (\<not> (\<exists>a. start \<le> a \<and> a < start + page_ceil req \<and> live_at (mm_regs s) a = None))"
      using msync_covered_live [OF q(2) rs(3)] by auto
    show ?thesis
      using al fl args(3) nb False
      unfolding msync_def Let_def z q(1) cov
      by (cases "msync_write fuel H (mm_frefs s) (mm_mem s) start (start + page_ceil req) qs (Inr ()) (mm_host s)")
        (auto simp del: bind_eq_Some)
  qed
qed

lemma msync_writes_drop:
  assumes "table_ok rs"
  shows "msync_writes fr m start stop (drop (first_overlap rs start) rs) = msync_writes fr m start stop rs"
proof -
  obtain ps qs where rs: "rs = ps @ qs" "length ps = first_overlap rs start"
    and ps: "\<forall>p \<in> set ps. r_base p + r_len p \<le> start"
    using first_overlap_lists [OF assms] by metis
  have "region_write fr m start stop p = []" if "p \<in> set ps" for p
    using ps that by (auto simp: region_write_def Let_def split: option.split)
  then have "concat (map (region_write fr m start stop) ps) = []" by simp
  then show ?thesis using rs by (simp add: msync_writes_def append_eq_conv_conj)
qed

lemma msync_state: "msync fuel H start req flags s = Some (res, s') \<Longrightarrow> \<exists>h. s' = s\<lparr>mm_host := h\<rparr>"
  by (auto simp: msync_def Let_def split: if_splits) (metis mman.surjective mman.update_convs(6))+

lemma mman_ok_host [simp]: "mman_ok (s\<lparr>mm_host := h\<rparr>) = mman_ok s"
  by (simp add: mman_ok_def)

section \<open>Sequences of calls\<close>

text \<open>
  What happens to the state over time: calls of the component with any host that behaves as POSIX
  says, stores of the program into linear memory, and growth of the memory by the other user of
  memory.grow, the allocator.
\<close>

inductive mman_step :: "nat \<Rightarrow> 'h mman \<Rightarrow> 'h mman \<Rightarrow> bool" for fuel where
  step_mmap: "host_ok H fuel \<Longrightarrow> malloc_fresh H (mm_frefs s) \<Longrightarrow>
    mm_pages s + page_ceil req div PAGE \<noteq> max_pages \<Longrightarrow>
    mmap fuel H req prot flags fd offset s = Some (res, s') \<Longrightarrow> mman_step fuel s s'"
| step_munmap: "host_ok H fuel \<Longrightarrow> start < size_mod \<Longrightarrow> req < size_mod \<Longrightarrow>
    munmap fuel H start req s = Some (ures, s') \<Longrightarrow> mman_step fuel s s'"
| step_msync: "msync fuel H start req flags s = Some (ures, s') \<Longrightarrow> mman_step fuel s s'"
| step_store: "a < mm_pages s * PAGE \<Longrightarrow> mman_step fuel s (s\<lparr>mm_mem := (mm_mem s)(a := v)\<rparr>)"
| step_grow: "mm_pages s + n < max_pages \<Longrightarrow> mman_step fuel s (s\<lparr>mm_pages := mm_pages s + n\<rparr>)"

lemma mman_step_ok: "mman_step fuel s s' \<Longrightarrow> mman_ok s \<Longrightarrow> mman_ok s'"
proof (induction rule: mman_step.induct)
  case (step_mmap H s req prot flags fd offset res s')
  then show ?case using mmap_contract [OF step_mmap(5,1,2,3), of prot flags fd offset] by auto
next
  case (step_munmap H start req s ures s')
  then show ?case using munmap_contract [OF step_munmap(5,1,2,3)] by auto
next
  case (step_msync H start req flags s ures s')
  then show ?case using msync_state by fastforce
next
  case (step_store a s v)
  then show ?case by (auto simp: mman_ok_def)
next
  case (step_grow s n)
  then show ?case by (fastforce simp: mman_ok_def)
qed

section \<open>The emulation as a provider of address space\<close>

text \<open>A successful mmap or munmap, over any well-behaved host.\<close>

definition mmap_call :: "nat \<Rightarrow> nat \<Rightarrow> 'h mman \<Rightarrow> 'h mman \<Rightarrow> bool" where
  "mmap_call b n s s' \<longleftrightarrow> (\<exists>fuel H req prot flags fd offset.
     host_ok H fuel \<and> malloc_fresh H (mm_frefs s) \<and> mm_pages s + page_ceil req div PAGE \<noteq> max_pages \<and>
     n = page_ceil req \<and> mmap fuel H req prot flags fd offset s = Some (Mapped b, s'))"

definition munmap_call :: "nat \<Rightarrow> nat \<Rightarrow> 'h mman \<Rightarrow> 'h mman \<Rightarrow> bool" where
  "munmap_call b n s s' \<longleftrightarrow> (\<exists>fuel H req. host_ok H fuel \<and> b < size_mod \<and> req < size_mod \<and>
     n = page_ceil req \<and> munmap fuel H b req s = Some (Inr (), s'))"

lemma mmap_call_laws:
  "mmap_call b n s s' \<Longrightarrow> mman_ok s \<Longrightarrow> mman_ok s' \<and> mapped_at s s' b n"
proof -
  assume c: "mmap_call b n s s'" "mman_ok s"
  from c(1) obtain fuel H req prot flags fd offset where m: "host_ok H fuel" "malloc_fresh H (mm_frefs s)"
    "mm_pages s + page_ceil req div PAGE \<noteq> max_pages" "n = page_ceil req"
    "mmap fuel H req prot flags fd offset s = Some (Mapped b, s')" unfolding mmap_call_def by metis
  show ?thesis using mmap_contract [OF c(2) m(1-3), of prot flags fd offset] m(4,5) by auto
qed

lemma munmap_call_laws:
  assumes "munmap_call b n s s'" "mman_ok s"
  shows "mman_ok s'" "live_at (mm_regs s') a = (if b \<le> a \<and> a < b + n then None else live_at (mm_regs s) a)"
proof -
  obtain fuel H req where c: "host_ok H fuel" "b < size_mod" "req < size_mod" "n = page_ceil req"
    "munmap fuel H b req s = Some (Inr (), s')" using assms(1) by (auto simp: munmap_call_def)
  show "mman_ok s'" "live_at (mm_regs s') a = (if b \<le> a \<and> a < b + n then None else live_at (mm_regs s) a)"
    using munmap_contract [OF assms(2) c(1-3)] c(4,5) by auto
qed

interpretation mman_space: address_space mman_ok "\<lambda>s. live_at (mm_regs s)" mmap_call munmap_call
proof
  fix s s' :: "'a mman" and b n a
  assume "mman_ok s" "mmap_call b n s s'"
  note l = mmap_call_laws [OF this(2,1)]
  show "mman_ok s'" using l by simp
  show "live_at (mm_regs s) a = None \<and> live_at (mm_regs s') a \<noteq> None" if "b \<le> a" "a < b + n"
    using l that by (simp add: mapped_at_def)
  show "live_at (mm_regs s') a = live_at (mm_regs s) a" if "\<not> (b \<le> a \<and> a < b + n)"
    using l that by (simp add: mapped_at_def)
next
  fix s s' :: "'a mman" and b n a
  assume "mman_ok s" "munmap_call b n s s'"
  note l = munmap_call_laws [OF this(2,1)]
  show "mman_ok s'" "live_at (mm_regs s') a = (if b \<le> a \<and> a < b + n then None else live_at (mm_regs s) a)"
    by (rule l)+
qed

section \<open>The contents of a new mapping\<close>

lemma mmap_anonymous_laws:
  assumes ok: "mman_ok s" and edge: "mm_pages s + page_ceil req div PAGE \<noteq> max_pages"
    and anon: "flags AND MAP_ANON \<noteq> 0" and m: "mmap fuel H req prot flags fd offset s = Some (Mapped b, s')"
  shows "\<exists>i. acquired_at i (page_ceil req) R_ANON prot flags s s' \<and> b = r_base (mm_regs s' ! i)"
proof -
  have c: "mmap_check req prot flags fd offset = None"
    using m by (cases "mmap_check req prot flags fd offset") (simp_all add: mmap_def)
  note len = mmap_check_None [OF c]
  from ok c show ?thesis
  proof (cases rule: mmap_stages [where fuel = fuel and H = H])
    case (full cap h)
    then show ?thesis using m by simp
  next
    case (room cap h acq s2)
    let ?s = "s\<lparr>mm_cap := cap, mm_host := h\<rparr>"
    obtain i where i: "acq = Acquired i" "s' = s2" "b = r_base (mm_regs s2 ! i)"
      using room(4) m anon by (auto split: acquired.splits)
    have fit: "page_ceil req < 2147483648 \<or> first_fit (mm_regs ?s) (page_ceil req) \<noteq> None"
    proof (rule ccontr)
      assume n: "\<not> ?thesis"
      then have "page_ceil req = 2147483648" using len(4,7) by (metis not_le)
      then show False using n room(3) i(1) acquire_aborts [of ?s H _ prot flags] by simp
    qed
    have "mm_pages s2 < max_pages"
      using acquire_size [OF room(1) len(1,2) fit room(3)] edge mman_okD(4) [OF ok] by auto
    then have "acquired_at i (page_ceil req) R_ANON prot flags ?s s2"
      using acquire_laws [OF room(1) _ len(1,2) _ fit room(3)] room(2) anon i(1) by simp
    then show ?thesis using i by (auto simp: acquired_at_host)
  qed
qed

lemma mmap_file_contents_laws:
  assumes ok: "mman_ok s" and host: "host_ok H fuel" and fresh: "malloc_fresh H (mm_frefs s)"
    and edge: "mm_pages s + page_ceil req div PAGE \<noteq> max_pages" and con: "pread_file H fd content"
    and anon: "flags AND MAP_ANON = 0" and m: "mmap fuel H req prot flags fd offset s = Some (Mapped b, s')"
  defines "t \<equiv> min (page_ceil req) (length content - nat offset)"
  shows "0 \<le> offset \<and>
    (\<forall>i < page_ceil req. mm_mem s' (b + i) = (if i < t then content ! (nat offset + i) else 0)) \<and>
    (\<exists>fref. (fref \<noteq> None \<longleftrightarrow> flags AND MAP_SHARED \<noteq> 0 \<and> prot AND PROT_WRITE \<noteq> 0) \<and>
       (\<forall>i < page_ceil req. live_at (mm_regs s') (b + i) =
          Some \<lparr>v_kind = R_FILE, v_prot = prot, v_flags = flags, v_fref = fref, v_off = offset + int i,
            v_backed = (i < t)\<rparr>))"
proof -
  have c: "mmap_check req prot flags fd offset = None"
    using m by (cases "mmap_check req prot flags fd offset") (simp_all add: mmap_def)
  note len = mmap_check_None [OF c]
  let ?len = "page_ceil req"
  have off: "0 \<le> offset" by (rule mmap_check_offset [OF c anon])
  from ok c show ?thesis
  proof (cases rule: mmap_stages [where fuel = fuel and H = H])
    case (full cap h)
    then show ?thesis using m by simp
  next
    case (room cap h acq s2)
    let ?s = "s\<lparr>mm_cap := cap, mm_host := h\<rparr>"
    obtain i where i: "acq = Acquired i" "mmap_file fuel H i ?len prot flags fd offset s2 = Some (Mapped b, s')"
      using room(4) m anon by (auto split: acquired.splits)
    have fit: "?len < 2147483648 \<or> first_fit (mm_regs ?s) ?len \<noteq> None"
    proof (rule ccontr)
      assume n: "\<not> ?thesis"
      then have "?len = 2147483648" using len(4,7) by (metis not_le)
      then show False using n room(3) i(1) acquire_aborts [of ?s H _ prot flags] by simp
    qed
    have "mm_pages s2 < max_pages"
      using acquire_size [OF room(1) len(1,2) fit room(3)] edge mman_okD(4) [OF ok] by auto
    then have s2: "mman_ok s2" "acquire_frame ?s s2" and at: "acquired_at i ?len R_FILE prot flags s s2"
      using acquire_laws [OF room(1) _ len(1,2) _ fit room(3)] room(2) anon i(1) by (simp_all add: acquired_at_host)
    have cap: "length (mm_regs s2) < mm_cap s2" "mm_frefs s2 = mm_frefs s"
      using s2(2) room(2) by (simp_all add: acquire_frame_def)
    define b2 where "b2 = r_base (mm_regs s2 ! i)"
    have map: "mapping_at s2 i ?len prot flags"
      using s2(1) at cap by (simp add: mapping_at_def acquired_at_def Let_def)
    note pr = mapping_page_range [OF map, folded b2_def]
    have l: "0 + ?len < size_mod" and f: "?len \<le> fuel" using pr(4) host by (simp_all add: host_ok_def)
    obtain mm h' where pop: "populate fuel H fd b2 ?len offset 0 (mm_mem s2) (mm_host s2) = Some (Inr t, mm, h')"
      and mm: "\<forall>a. mm a = (if b2 \<le> a \<and> a < b2 + t then content ! (nat offset + (a - b2)) else mm_mem s2 a)"
      using populate_contents [OF con off pr(4) l f, of "mm_mem s2" "mm_host s2", folded t_def] by auto
    have tl: "t \<le> ?len" by (simp add: t_def)
    have frame: "\<forall>a. \<not> (b2 \<le> a \<and> a < b2 + ?len) \<longrightarrow> mm a = mm_mem s2 a" using mm tl by auto
    have bound: "\<forall>u. (Inr t :: errno + nat) = Inr u \<longrightarrow> u \<le> ?len" using tl by simp
    have fresh2: "malloc_fresh H (mm_frefs s2)" using fresh cap(2) by simp
    have r: "b = b2" "mm_mem s' = mm" "file_mapped s2 s' b2 ?len prot flags offset t"
      using mmap_file_laws [OF map host fresh2 pop [unfolded b2_def] frame [unfolded b2_def] bound, folded b2_def] i(2)
      by auto
    obtain fref where fref: "fref \<noteq> None \<longleftrightarrow> flags AND MAP_SHARED \<noteq> 0 \<and> prot AND PROT_WRITE \<noteq> 0"
      and view: "\<And>a. live_at (mm_regs s') a = (if b2 \<le> a \<and> a < b2 + ?len
            then Some (file_view prot flags fref offset t b2 a) else live_at (mm_regs s2) a)"
      using r(3) unfolding file_mapped_def by blast
    have zero: "mm_mem s2 a = 0" if "b2 \<le> a" "a < b2 + ?len" for a
      using at that by (simp add: acquired_at_def Let_def b2_def)
    have "mm_mem s' (b + j) = (if j < t then content ! (nat offset + j) else 0)" if "j < ?len" for j
      using r mm zero [of "b2 + j"] that by simp
    moreover have "live_at (mm_regs s') (b + j) = Some \<lparr>v_kind = R_FILE, v_prot = prot, v_flags = flags,
        v_fref = fref, v_off = offset + int j, v_backed = (j < t)\<rparr>" if "j < ?len" for j
      using view [of "b2 + j"] r(1) that by (simp add: file_view_def)
    ultimately show ?thesis using off fref by blast
  qed
qed

end
