(* ===== verification/Mman_Theorems.thy ===== *)
theory Mman_Theorems
  imports Mman_Properties
begin

text \<open>
  The theorems about the mmap emulation (libc-bottom-half/mman/mman.c), each with a run of the
  model on a concrete host that its hypotheses hold of.
\<close>

section \<open>A concrete host\<close>

text \<open>
  One file of fixed contents, complete writes that are logged, a malloc that always returns the
  same address, and memory that grows whenever it is asked to.
\<close>

definition sample_host :: "byte list \<Rightarrow> (int \<times> byte list \<times> int) list mman_host" where
  "sample_host content = \<lparr>mh_alloc = (\<lambda>n h. (True, h)), mh_malloc = (\<lambda>n h. (Some 8, h)),
     mh_grow = (\<lambda>n h. (True, h)),
     mh_pread = (\<lambda>fd n off h. (Inr (take n (drop (nat off) content)), h)),
     mh_pwrite = (\<lambda>fd bs off h. (Inr (length bs), h @ [(fd, bs, off)])),
     mh_dup = (\<lambda>fd h. (Inr (fd + 100), h)), mh_close = (\<lambda>fd h. h)\<rparr>"

lemma sample_host_ok: "host_ok (sample_host content) size_mod"
proof -
  have "pwrite_progress (sample_host content) size_mod"
    unfolding pwrite_progress_def by (intro exI [of _ "\<lambda>_. 0"] exI [of _ "0 :: nat"]) (simp add: sample_host_def)
  moreover have "pread_bounded (sample_host content) size_mod"
    unfolding pread_bounded_def by (intro exI [of _ "\<lambda>_. 0"] exI [of _ "0 :: nat"]) (simp add: sample_host_def)
  ultimately show ?thesis by (simp add: host_ok_def)
qed

lemma sample_host_file: "pread_file (sample_host content) fd content"
  by (auto simp: pread_file_def sample_host_def nat_le_iff min_def)



lemma sample_host_fresh: "malloc_fresh (sample_host content) Map.empty"
  by (simp add: malloc_fresh_def)

lemma page_ceil_100: "page_ceil 100 = 65536"
  by (simp add: page_ceil_def)

abbreviation sample_start :: "(int \<times> byte list \<times> int) list mman" where
  "sample_start \<equiv> mman_init 2 []"

text \<open>Mapping 100 anonymous bytes as the first call: one page, where the memory ended.\<close>

definition sample_mapped :: "(int \<times> byte list \<times> int) list mman" where
  "sample_mapped = \<lparr>mm_regs = [fresh_region 131072 65536 R_ANON 3 0x22], mm_cap = 16,
     mm_frefs = Map.empty, mm_mem = (\<lambda>_. 0), mm_pages = 3, mm_host = []\<rparr>"

lemmas mman_eval = mmap_def mmap_check_def munmap_def page_ceil_100 reserve_def mman_init_def
  sample_host_def szadd_def szsub_def szmul_def while_option_unfold Let_def acquire_pages_def to_intptr_def
  sbrk_def memory_grow_def first_overlap_def list_insert_at_def fresh_region_def
  sample_mapped_def page_offset_def

lemma sample_mmap:
  "mmap size_mod (sample_host c) 100 3 0x22 (-1) 0 sample_start = Some (Mapped 131072, sample_mapped)"
  by (simp add: mman_eval first_overlap_loop.simps)

lemma sample_unmap_range:
  "unmap_range size_mod (sample_host c) m 131072 196608 [fresh_region 131072 65536 R_ANON 3 0x22] fr h =
     Some ([mark_free (fresh_region 131072 65536 R_ANON 3 0x22)], fr, h)"
proof -
  let ?r = "fresh_region 131072 65536 R_ANON 3 0x22"
  have e: "r_end ?r = 196608" "r_base ?r = 131072" "r_kind ?r = R_ANON" "r_end (mark_free ?r) = 196608"
    by (simp_all add: r_end_def fresh_region_def szadd_def mark_free_def)
  have o1: "first_overlap [r] 131072 = 0" if "r_end r = 196608" for r
    using that by (simp add: first_overlap_def first_overlap_loop.simps [of _ _ 0 "Suc 0"]
      first_overlap_loop.simps [of _ _ 0 0])
  have l1: "unmap_loop size_mod (sample_host c) m 131072 196608 0 [?r] fr h = Some ([mark_free ?r], fr, h)"
    by (simp add: unmap_loop.simps [of _ _ _ _ _ 0] unmap_loop.simps [of _ _ _ _ _ 1]
        unmap_loop.simps [of _ _ _ _ _ "Suc 0"] unmap_at_def e Let_def)
  show ?thesis
    by (simp add: unmap_range_def o1 e l1 coalesce_around_def coalesce_loop.simps)
qed

lemma sample_munmap:
  "munmap size_mod (sample_host c) 131072 100 sample_mapped =
     Some (Inr (), sample_mapped\<lparr>mm_regs := [mark_free (fresh_region 131072 65536 R_ANON 3 0x22)]\<rparr>)"
  using sample_unmap_range [of c _ Map.empty "[]"]
  by (simp add: munmap_def page_ceil_100 page_offset_def reserve_def sample_mapped_def szadd_def Let_def)

lemma sample_start_ok: "mman_ok sample_start"
  by (simp add: mman_ok_init)

lemma sample_mapped_ok: "mman_ok sample_mapped"
  by (simp add: mman_ok_def sample_mapped_def frefs_ok_def ref_count_ok_def table_ok_def region_ok_def
      fresh_region_def)





section \<open>The theorems\<close>

text \<open>C1.  After any sequence of mmap, munmap and msync calls, interleaved with stores of the
  program and growth of the memory by the allocator, the component's state is well formed: the
  region table is sorted, page aligned, without overlaps and without adjacent free regions; every
  free region is marked dirty; the file references are exactly counted; and every region lies in
  linear memory.\<close>

theorem mmap_invariant:
  assumes "(mman_step fuel)\<^sup>*\<^sup>* (mman_init pages h) s" "pages < max_pages"
  shows "mman_ok s"
  using assms(1)
  by (induction rule: rtranclp_induct) (auto intro: mman_ok_init [OF assms(2)] mman_step_ok)

theorem mmap_invariant_witness:
  "(mman_step size_mod)\<^sup>*\<^sup>* sample_start sample_mapped \<and> mm_regs sample_mapped \<noteq> [] \<and> mman_ok sample_mapped"
proof -
  have "mman_step size_mod sample_start sample_mapped"
    by (rule step_mmap [OF sample_host_ok _ _ sample_mmap])
      (simp_all add: mman_init_def sample_host_fresh page_ceil_100)
  then have "(mman_step size_mod)\<^sup>*\<^sup>* sample_start sample_mapped" by (rule r_into_rtranclp)
  from this mmap_invariant [OF this] show ?thesis by (simp add: sample_mapped_def)
qed

text \<open>C2.  mmap returns.  When it succeeds, the new mapping is page aligned, lies in linear memory, was
  not mapped before, is mapped now, and nothing else changed: neither what the table says of any
  other address nor its byte.  When it fails, every mapping is as before, with its contents.  It
  aborts only for requests above 0x7FFF0000 bytes that no free region can hold.\<close>

theorem mmap_spec:
  assumes "mman_ok s" "host_ok H fuel" "malloc_fresh H (mm_frefs s)"
    "mm_pages s + page_ceil req div PAGE \<noteq> max_pages"
  shows "\<exists>res s'. mmap fuel H req prot flags fd offset s = Some (res, s') \<and> mman_ok s' \<and>
      (case res of Mapped b \<Rightarrow> mapped_at s s' b (page_ceil req) \<and> req \<le> page_ceil req
       | Map_failed e \<Rightarrow> unmapped_same s s'
       | Map_aborted \<Rightarrow> 2147418112 < req \<and> first_fit (mm_regs s) 2147483648 = None)"
  by (rule mmap_contract [OF assms])

theorem mmap_spec_witness:
  "mapped_at sample_start sample_mapped 131072 65536"
proof -
  have "malloc_fresh (sample_host []) (mm_frefs sample_start)" "mm_pages sample_start + page_ceil 100 div PAGE \<noteq> max_pages"
    by (simp_all add: mman_init_def sample_host_fresh page_ceil_100)
  from mmap_spec [OF sample_start_ok sample_host_ok this, of 3 "0x22" "-1" 0] show ?thesis
    by (auto simp: sample_mmap page_ceil_100)
qed

text \<open>An anonymous mapping is filled with zeros, whether its pages are new or were used before, and
  every address of it has the protection and the flags that were asked for.\<close>

theorem mmap_anonymous:
  assumes "mman_ok s" "mm_pages s + page_ceil req div PAGE \<noteq> max_pages" "flags AND MAP_ANON \<noteq> 0"
    "mmap fuel H req prot flags fd offset s = Some (Mapped b, s')" "i < page_ceil req"
  shows "mm_mem s' (b + i) = 0 \<and>
    live_at (mm_regs s') (b + i) = Some \<lparr>v_kind = R_ANON, v_prot = prot, v_flags = flags, v_fref = None,
      v_off = 0, v_backed = False\<rparr>"
  using mmap_anonymous_laws [OF assms(1-4)] assms(5)
  by (auto simp: acquired_at_def Let_def new_view_def)

theorem mmap_anonymous_witness:
  "mm_mem sample_mapped (131072 + 99) = 0 \<and> live_at (mm_regs sample_mapped) (131072 + 99) \<noteq> None"
proof -
  have "mm_pages sample_start + page_ceil 100 div PAGE \<noteq> max_pages" "(99 :: nat) < page_ceil 100"
    "(0x22 :: 32 word) AND MAP_ANON \<noteq> 0"
    by (simp_all add: mman_init_def page_ceil_100)
  from mmap_anonymous [OF sample_start_ok this(1,3) sample_mmap this(2)] show ?thesis by simp
qed

text \<open>A file mapping holds the bytes of the file from the offset on, however pread splits them, and
  zeros beyond the end of the file; it keeps a reference to the file exactly when it is shared and
  writable, and records the file offset of every byte and which bytes the file backs.\<close>

theorem mmap_file_contents:
  assumes "mman_ok s" "host_ok H fuel" "malloc_fresh H (mm_frefs s)"
    "mm_pages s + page_ceil req div PAGE \<noteq> max_pages" "pread_file H fd content"
    "flags AND MAP_ANON = 0" "mmap fuel H req prot flags fd offset s = Some (Mapped b, s')"
  defines "t \<equiv> min (page_ceil req) (length content - nat offset)"
  shows "0 \<le> offset \<and>
    (\<forall>i < page_ceil req. mm_mem s' (b + i) = (if i < t then content ! (nat offset + i) else 0)) \<and>
    (\<exists>fref. (fref \<noteq> None \<longleftrightarrow> flags AND MAP_SHARED \<noteq> 0 \<and> prot AND PROT_WRITE \<noteq> 0) \<and>
       (\<forall>i < page_ceil req. live_at (mm_regs s') (b + i) =
          Some \<lparr>v_kind = R_FILE, v_prot = prot, v_flags = flags, v_fref = fref, v_off = offset + int i,
            v_backed = (i < t)\<rparr>))"
  unfolding t_def by (rule mmap_file_contents_laws [OF assms(1-7)])

lemma sample_mmap_file:
  "\<exists>s'. mmap size_mod (sample_host [7, 8, 9]) 100 1 2 5 0 sample_start = Some (Mapped 131072, s')"
proof -
  have p1: "populate size_mod (sample_host [7, 8, 9]) 5 131072 65536 0 0 m h =
      populate 4294967295 (sample_host [7, 8, 9]) 5 131075 65533 3 3 (mem_write 131072 [7, 8, 9] m) h" for m h
    using populate.simps(2) [of 4294967295 "sample_host [7, 8, 9]" 5 131072 65536 0 0 m h]
    by (simp add: sample_host_def szadd_def szsub_def)
  have p2: "populate 4294967295 (sample_host [7, 8, 9]) 5 131075 65533 3 3 m h = Some (Inr 3, m, h)" for m h
    using populate.simps(2) [of 4294967294 "sample_host [7, 8, 9]" 5 131075 65533 3 3 m h]
    by (simp add: sample_host_def)
  have acq: "acquire_pages (sample_host [7, 8, 9]) 65536 R_FILE 1 2 (sample_start\<lparr>mm_cap := 16\<rparr>) =
      (Acquired 0, sample_start\<lparr>mm_cap := 16, mm_regs := [fresh_region 131072 65536 R_FILE 1 2], mm_pages := 3\<rparr>)"
    by (simp add: mman_eval first_overlap_loop.simps)
  have res: "reserve (sample_host [7, 8, 9]) 2 sample_start = Some (True, sample_start\<lparr>mm_cap := 16\<rparr>)"
    by (simp add: mman_eval)
  have chk: "mmap_check 100 1 2 5 0 = None" by (simp add: mmap_check_def page_ceil_100)
  show ?thesis
    unfolding mmap_def chk Let_def page_ceil_100
    by (simp add: res acq mmap_file_def p1 p2 fresh_region_def Let_def)
qed

theorem mmap_file_contents_witness:
  "\<exists>s'. mmap size_mod (sample_host [7, 8, 9]) 100 1 2 5 0 sample_start = Some (Mapped 131072, s') \<and>
     mm_mem s' 131073 = 8 \<and> mm_mem s' 131075 = 0"
proof -
  obtain s' where s': "mmap size_mod (sample_host [7, 8, 9]) 100 1 2 5 0 sample_start = Some (Mapped 131072, s')"
    using sample_mmap_file by blast
  have "malloc_fresh (sample_host [7, 8, 9]) (mm_frefs sample_start)"
    "mm_pages sample_start + page_ceil 100 div PAGE \<noteq> max_pages" "(2 :: 32 word) AND MAP_ANON = 0"
    by (simp_all add: mman_init_def sample_host_fresh page_ceil_100)
  from mmap_file_contents [OF sample_start_ok sample_host_ok this(1,2) sample_host_file this(3) s']
  have a: "\<And>i. i < 65536 \<Longrightarrow> mm_mem s' (131072 + i) = (if i < 3 then [7, 8, 9] ! i else 0)"
    by (simp add: page_ceil_100)
  show ?thesis using s' a [of 1] a [of 3] by simp
qed

text \<open>C3.  munmap fails with EINVAL exactly for a misaligned start, length 0, and ranges that leave the
  32-bit address space, and with ENOMEM when the table cannot grow; both change no mapping.
  Otherwise exactly the pages of the range stop being mapped, wherever the cuts fall in the
  mappings, the parts left keep their file offsets and file-backed bytes, no page is lost to the
  pool, and memory is untouched.\<close>

theorem munmap_spec:
  assumes "mman_ok s" "host_ok H fuel" "start < size_mod" "req < size_mod"
  defines "bad \<equiv> start mod PAGE \<noteq> 0 \<or> req = 0 \<or> 4294901760 < req \<or> size_mod \<le> start + page_ceil req"
  shows "\<exists>res s'. munmap fuel H start req s = Some (res, s') \<and> mman_ok s' \<and> mm_mem s' = mm_mem s \<and>
    mm_pages s' = mm_pages s \<and> owned (mm_regs s') = owned (mm_regs s) \<and>
    (case res of
       Inl e \<Rightarrow> e = (if bad then EINVAL else ENOMEM) \<and> live_at (mm_regs s') = live_at (mm_regs s)
     | Inr _ \<Rightarrow> \<not> bad \<and> (\<forall>a. live_at (mm_regs s') a =
         (if start \<le> a \<and> a < start + page_ceil req then None else live_at (mm_regs s) a)))"
  unfolding bad_def by (rule munmap_contract [OF assms(1-4)])

theorem munmap_spec_witness:
  "live_at (mm_regs sample_mapped) 131080 \<noteq> None \<and>
   (\<exists>s'. munmap size_mod (sample_host []) 131072 100 sample_mapped = Some (Inr (), s') \<and>
      live_at (mm_regs s') 131080 = None)"
proof -
  have "(131072 :: nat) < size_mod" "(100 :: nat) < size_mod" by simp_all
  from munmap_spec [OF sample_mapped_ok sample_host_ok this, of "[]"]
  show ?thesis by (auto simp: sample_munmap page_ceil_100)
    (simp add: sample_mapped_def region_view_def in_region_def fresh_region_def)
qed




text \<open>A request that rounds up to 2 GiB does not fail with ENOMEM when no free region is large
  enough: its length becomes a negative increment and sbrk aborts the program.\<close>

theorem mmap_aborts_at_2GiB:
  assumes "length (mm_regs s) + 2 \<le> mm_cap s" "mm_cap s < size_mod"
    "mmap_check req prot flags fd offset = None" "2147418112 < req"
    "first_fit (mm_regs s) 2147483648 = None"
  shows "mmap fuel H req prot flags fd offset s = Some (Map_aborted, s)"
proof -
  have "page_ceil req = 2147483648" by (rule mmap_check_None(7) [OF assms(3,4)])
  moreover have "reserve H 2 s = Some (True, s)"
    using assms(1,2) by (simp add: reserve_def size_simps)
  ultimately show ?thesis using assms(3) by (simp add: mmap_def acquire_aborts [OF assms(5)])
qed

theorem mmap_aborts_at_2GiB_witness:
  "mmap size_mod (sample_host []) 2147418113 3 0x22 (-1) 0 sample_mapped = Some (Map_aborted, sample_mapped)"
  by (rule mmap_aborts_at_2GiB)
    (simp_all add: sample_mapped_def fresh_region_def mmap_check_def page_ceil_def)

lemma sample_mmap_call: "mmap_call 131072 65536 sample_start sample_mapped"
proof -
  have "host_ok (sample_host []) size_mod \<and> malloc_fresh (sample_host []) (mm_frefs sample_start) \<and>
      mm_pages sample_start + page_ceil 100 div PAGE \<noteq> max_pages \<and> 65536 = page_ceil 100 \<and>
      mmap size_mod (sample_host []) 100 3 0x22 (-1) 0 sample_start = Some (Mapped 131072, sample_mapped)"
    using sample_mmap [of "[]"] sample_host_ok [of "[]"]
    by (simp add: mman_init_def sample_host_fresh page_ceil_100)
  then show ?thesis unfolding mmap_call_def by blast
qed

text \<open>A second mapping of one page, above the first.\<close>

definition sample_mapped2 :: "(int \<times> byte list \<times> int) list mman" where
  "sample_mapped2 = \<lparr>mm_regs = [fresh_region 131072 65536 R_ANON 3 0x22, fresh_region 196608 65536 R_ANON 3 0x22],
     mm_cap = 16, mm_frefs = Map.empty, mm_mem = (\<lambda>_. 0), mm_pages = 4, mm_host = []\<rparr>"

lemma sample_mmap_call2: "mmap_call 196608 65536 sample_mapped sample_mapped2"
proof -
  have o1: "first_overlap [r] 196608 = 1" if "r_end r = 196608" for r
    using that by (simp add: first_overlap_def first_overlap_loop.simps [of _ _ 0 "Suc 0"]
      first_overlap_loop.simps [of _ _ "Suc 0" "Suc 0"])
  have "first_overlap (mm_regs sample_mapped) 196608 = 1"
    unfolding sample_mapped_def by (simp add: o1 fresh_region_def r_end_def szadd_def)
  then have "mmap size_mod (sample_host []) 100 3 0x22 (-1) 0 sample_mapped = Some (Mapped 196608, sample_mapped2)"
    by (simp add: mman_eval sample_mapped2_def first_overlap_loop.simps [of _ _ 0 "Suc 0"]
      first_overlap_loop.simps [of _ _ "Suc 0" "Suc 0"] r_end_def)
  moreover have "host_ok (sample_host []) size_mod \<and> malloc_fresh (sample_host []) (mm_frefs sample_mapped) \<and>
      mm_pages sample_mapped + page_ceil 100 div PAGE \<noteq> max_pages \<and> 65536 = page_ceil 100"
    using sample_host_ok [of "[]"] by (simp add: sample_mapped_def sample_host_fresh page_ceil_100)
  ultimately show ?thesis unfolding mmap_call_def by blast
qed

lemma sample_munmap_call: "munmap_call 131072 65536 sample_mapped
    (sample_mapped\<lparr>mm_regs := [mark_free (fresh_region 131072 65536 R_ANON 3 0x22)]\<rparr>)"
proof -
  have "host_ok (sample_host []) size_mod \<and> 131072 < size_mod \<and> 100 < size_mod \<and> 65536 = page_ceil 100"
    using sample_host_ok [of "[]"] by (simp add: page_ceil_100)
  then show ?thesis unfolding munmap_call_def using sample_munmap [of "[]"] by blast
qed

text \<open>Two mappings that are live at the same time never overlap.\<close>

theorem mmap_disjoint:
  assumes "mman_ok s" "mmap_call b n s s1" "mmap_call c m s1 s2"
  shows "{b ..< b + n} \<inter> {c ..< c + m} = {}"
  by (rule mman_space.acquire_apart [OF assms])

theorem mmap_disjoint_witness:
  "mmap_call 131072 65536 sample_start sample_mapped \<and> mmap_call 196608 65536 sample_mapped sample_mapped2 \<and>
   {131072 ..< 131072 + 65536} \<inter> {196608 ..< 196608 + 65536 :: nat} = {}"
  using mmap_disjoint [OF sample_start_ok sample_mmap_call sample_mmap_call2] sample_mmap_call sample_mmap_call2
  by simp

text \<open>Unmapping what mmap just returned restores the view of the whole address space.\<close>

theorem mmap_munmap:
  assumes "mman_ok s" "mmap_call b n s s1" "munmap_call b n s1 s2"
  shows "live_at (mm_regs s2) = live_at (mm_regs s)"
  by (rule mman_space.release_acquired [OF assms])

theorem mmap_munmap_witness:
  "live_at [mark_free (fresh_region 131072 65536 R_ANON 3 0x22)] = live_at (mm_regs sample_start)"
  using mmap_munmap [OF sample_start_ok sample_mmap_call sample_munmap_call] by simp

end
