(* ===== verification/Preopens.thy ===== *)
theory Preopens
  imports Prelude "HOL-Library.Monad_Syntax" "HOL-Library.Sublist"
begin

text \<open>
  The table of preopened directories (libc-bottom-half/sources/preopens.c): registration, growth,
  population from the environment, and the lookup of an absolute path.

  The table is the list of its entries, in the order they were registered.  The lock of the file
  is one bit: taking it while it is held never returns when the process has threads
  (\<open>libc.need_locks\<close>), which is the result \<open>None\<close>; a failed assertion is \<open>None\<close> as well.
\<close>

section \<open>State and host\<close>

record preopen =
  po_prefix :: cstring
  po_fd :: int

record 'h preopen_host =
  po_calloc :: "nat \<Rightarrow> nat \<Rightarrow> 'h \<Rightarrow> bool \<times> 'h"
  po_malloc :: "nat \<Rightarrow> 'h \<Rightarrow> bool \<times> 'h"
  po_prestat_get :: "nat \<Rightarrow> 'h \<Rightarrow> (errno + nat option) \<times> 'h"
  po_prestat_dir_name :: "nat \<Rightarrow> nat \<Rightarrow> 'h \<Rightarrow> (errno + char list) \<times> 'h"

record 'h preopens =
  pr_table :: "preopen list"
  pr_capacity :: nat
  pr_locked :: bool
  pr_need_locks :: bool
  pr_populated :: bool
  pr_host :: 'h

abbreviation AT_FDCWD :: int where "AT_FDCWD \<equiv> -2"
abbreviation preopen_size :: nat where "preopen_size \<equiv> 8"

text \<open>A __wasi_fd_t, an unsigned 32-bit number, stored in an int.\<close>

definition to_int32 :: "nat \<Rightarrow> int" where
  "to_int32 n = (if n < 2147483648 then int n else int n - 4294967296)"

definition lock_take :: "'h preopens \<Rightarrow> 'h preopens option" where
  "lock_take s = (if \<not> pr_need_locks s then Some s
     else if pr_locked s then None else Some (s\<lparr>pr_locked := True\<rparr>))"

definition lock_drop :: "'h preopens \<Rightarrow> 'h preopens" where
  "lock_drop s = s\<lparr>pr_locked := False\<rparr>"

text \<open>The assertions on the table.\<close>

definition assert_invariants :: "'h preopens \<Rightarrow> bool" where
  "assert_invariants s \<longleftrightarrow> length (pr_table s) \<le> pr_capacity s \<and>
     (pr_capacity s = 0 \<or> szmul (pr_capacity s) preopen_size > pr_capacity s) \<and>
     (\<forall>p \<in> set (pr_table s). po_fd p \<noteq> -1)"

definition assert_that :: "bool \<Rightarrow> unit option" where
  "assert_that b = (if b then Some () else None)"

section \<open>Registration\<close>

definition resize :: "'h preopen_host \<Rightarrow> 'h preopens \<Rightarrow> (bool \<times> 'h preopens) option" where
  "resize H s = do {
     s \<leftarrow> lock_take s;
     let new_capacity = (if pr_capacity s = 0 then 4 else szmul (pr_capacity s) 2);
     let (ok, h) = po_calloc H preopen_size new_capacity (pr_host s);
     if \<not> ok then Some (False, lock_drop (s\<lparr>pr_host := h\<rparr>))
     else do {
       let s = s\<lparr>pr_capacity := new_capacity, pr_host := h\<rparr>;
       _ \<leftarrow> assert_that (assert_invariants s);
       Some (True, lock_drop s) } }"

fun strip_prefixes :: "cstring \<Rightarrow> cstring" where
  "strip_prefixes [] = []"
| "strip_prefixes [c] = (if c = slash \<or> c = dot then [] else [c])"
| "strip_prefixes (c # d # path) =
     (if c = slash then strip_prefixes (d # path)
      else if c = dot \<and> d = slash then strip_prefixes path
      else c # d # path)"

definition internal_register_preopened_fd ::
  "'h preopen_host \<Rightarrow> int \<Rightarrow> cstring \<Rightarrow> 'h preopens \<Rightarrow> (bool \<times> 'h preopens) option" where
  "internal_register_preopened_fd H fd relprefix s = do {
     s \<leftarrow> lock_take s;
     _ \<leftarrow> assert_that (assert_invariants s \<and> fd \<noteq> AT_FDCWD \<and> fd \<noteq> -1);
     (ok, s) \<leftarrow> (if length (pr_table s) = pr_capacity s then resize H s else Some (True, s));
     if \<not> ok then Some (False, lock_drop s)
     else do {
       let pfx = strip_prefixes relprefix;
       let (ok, h) = po_malloc H (length pfx + 1) (pr_host s);
       let s = s\<lparr>pr_host := h\<rparr>;
       if \<not> ok then Some (False, lock_drop s)
       else do {
         let s = s\<lparr>pr_table := pr_table s @ [\<lparr>po_prefix = pfx, po_fd = fd\<rparr>]\<rparr>;
         _ \<leftarrow> assert_that (assert_invariants s);
         Some (True, lock_drop s) } } }"

text \<open>The int argument is converted to the unsigned __wasi_fd_t and stored in an int again.\<close>

definition wasilibc_register_preopened_fd ::
  "'h preopen_host \<Rightarrow> int \<Rightarrow> cstring \<Rightarrow> 'h preopens \<Rightarrow> (bool \<times> 'h preopens) option" where
  "wasilibc_register_preopened_fd H fd pfx s = internal_register_preopened_fd H fd pfx s"

section \<open>Population\<close>

datatype populate_result = Populated | Exit_oserr | Exit_software

text \<open>The descriptors from \<open>fd\<close> on, up to the first bad one; the counter wraps to 0 at the end.\<close>

function populate_loop ::
  "'h preopen_host \<Rightarrow> nat \<Rightarrow> 'h preopens \<Rightarrow> (populate_result \<times> 'h preopens) option" where
  "populate_loop H fd s =
     (if fd = 0 \<or> size_mod \<le> fd then Some (Populated, s)
      else case po_prestat_get H fd (pr_host s) of
        (Inl e, h) \<Rightarrow> Some (if e = EBADF then Populated else Exit_oserr, s\<lparr>pr_host := h\<rparr>)
      | (Inr None, h) \<Rightarrow> populate_loop H (fd + 1) (s\<lparr>pr_host := h\<rparr>)
      | (Inr (Some name_len), h) \<Rightarrow>
          (case po_malloc H (szadd name_len 1) h of
             (False, h) \<Rightarrow> Some (Exit_software, s\<lparr>pr_host := h\<rparr>)
           | (True, h) \<Rightarrow>
               (case po_prestat_dir_name H fd name_len h of
                  (Inl e, h) \<Rightarrow> Some (Exit_oserr, s\<lparr>pr_host := h\<rparr>)
                | (Inr bytes, h) \<Rightarrow>
                    (case internal_register_preopened_fd H (to_int32 fd)
                            (takeWhile (\<lambda>c. c \<noteq> CHR 0x00) bytes) (s\<lparr>pr_host := h\<rparr>) of
                       None \<Rightarrow> None
                     | Some (False, s) \<Rightarrow> Some (Exit_software, s)
                     | Some (True, s) \<Rightarrow> populate_loop H (fd + 1) s))))"
  by pat_completeness auto
termination
  by (relation "measure (\<lambda>(H, fd, s). size_mod - fd)") auto

declare populate_loop.simps [simp del]

definition populate_preopens :: "'h preopen_host \<Rightarrow> 'h preopens \<Rightarrow> (populate_result \<times> 'h preopens) option" where
  "populate_preopens H s =
     (if \<not> pr_populated s then populate_loop H 3 (s\<lparr>pr_populated := True\<rparr>) else Some (Populated, s))"

section \<open>Lookup\<close>

text \<open>The number of characters of the prefix that are left when its trailing slashes are ignored.\<close>

fun trim_len :: "cstring \<Rightarrow> nat \<Rightarrow> nat" where
  "trim_len pfx 0 = 0"
| "trim_len pfx (Suc i) = (if pfx ! i = slash then trim_len pfx i else Suc i)"

text \<open>
  \<open>memcmp(path, prefix, len) = 0\<close> of two C strings: neither has a NUL inside, so the comparison
  stops at the end of the path when the path is the shorter one.
\<close>

definition prefix_matches :: "cstring \<Rightarrow> nat \<Rightarrow> cstring \<Rightarrow> bool" where
  "prefix_matches pfx prefix_len path =
     (if (path = [] \<or> hd path \<noteq> slash) \<and> prefix_len = 0 then True
      else if take prefix_len path \<noteq> take prefix_len pfx then False
      else let i = trim_len pfx prefix_len in i = length path \<or> path ! i = slash)"

definition skip_slashes :: "cstring \<Rightarrow> nat \<Rightarrow> nat" where
  "skip_slashes path n = n + length (takeWhile (\<lambda>c. c = slash) (drop n path))"

fun abspath_loop :: "preopen list \<Rightarrow> cstring \<Rightarrow> cstring \<Rightarrow> int \<times> nat \<times> cstring \<Rightarrow> int \<times> nat \<times> cstring" where
  "abspath_loop [] path search acc = acc"
| "abspath_loop (pre # rest) path search (fd, match_len, abs_prefix) =
     (let pfx = po_prefix pre; len = length pfx in
      abspath_loop rest path search
        (if (fd = -1 \<or> len > match_len) \<and> prefix_matches pfx len search
         then (po_fd pre,
               (if len \<noteq> 0 then skip_slashes path (len + (length path - length search)) else 0),
               pfx)
         else (fd, match_len, abs_prefix)))"

definition find_abspath :: "preopen list \<Rightarrow> cstring \<Rightarrow> errno + (int \<times> cstring \<times> cstring)" where
  "find_abspath table path =
     (let search = dropWhile (\<lambda>c. c = slash) path in
      case abspath_loop (rev table) path search (-1, 0, []) of
        (fd, match_len, abs_prefix) \<Rightarrow>
          if fd = -1 then Inl ENOENT
          else let computed = drop match_len path in
            Inr (fd, abs_prefix, if computed = [] then [dot] else computed))"

definition wasilibc_find_abspath ::
  "cstring \<Rightarrow> 'h preopens \<Rightarrow> ((errno + (int \<times> cstring \<times> cstring)) \<times> 'h preopens) option" where
  "wasilibc_find_abspath path s = do {
     s \<leftarrow> lock_take s;
     Some (find_abspath (pr_table s) path, lock_drop s) }"

section \<open>The lock\<close>

lemma lock_take_Some [simp]: "\<not> pr_locked s \<Longrightarrow> lock_take s = Some (s\<lparr>pr_locked := pr_need_locks s\<rparr>)"
  by (cases s) (simp add: lock_take_def)

lemma lock_drop_simps [simp]:
  "pr_table (lock_drop s) = pr_table s" "pr_capacity (lock_drop s) = pr_capacity s"
  "pr_locked (lock_drop s) = False" "pr_need_locks (lock_drop s) = pr_need_locks s"
  "pr_populated (lock_drop s) = pr_populated s" "pr_host (lock_drop s) = pr_host s"
  by (simp_all add: lock_drop_def)

lemma assert_that_Some [simp]: "assert_that b = Some u \<longleftrightarrow> b"
  by (simp add: assert_that_def)

lemma assert_that_True [simp]: "b \<Longrightarrow> assert_that b = Some ()"
  by (simp add: assert_that_def)

lemma assert_that_False [simp]: "\<not> b \<Longrightarrow> assert_that b = None"
  by (simp add: assert_that_def)

section \<open>Normalisation of a prefix\<close>

lemma strip_prefixes_suffix: "suffix (strip_prefixes p) p"
  by (induction p rule: strip_prefixes.induct) (auto intro: suffix_ConsI)

definition stripped :: "cstring \<Rightarrow> bool" where
  "stripped p \<longleftrightarrow> (p = [] \<or> hd p \<noteq> slash) \<and> p \<noteq> [dot] \<and> take 2 p \<noteq> [dot, slash]"

lemma strip_prefixes_stripped: "stripped (strip_prefixes p)"
  by (induction p rule: strip_prefixes.induct) (auto simp: stripped_def)

lemma strip_prefixes_id: "stripped p \<Longrightarrow> strip_prefixes p = p"
  by (cases p rule: strip_prefixes.cases) (auto simp: stripped_def)

section \<open>Matching\<close>

lemma trim_len_le: "trim_len p n \<le> n"
  by (induction n) auto

lemma trim_len_slashes: "i < n \<Longrightarrow> trim_len p n \<le> i \<Longrightarrow> p ! i = slash"
  by (induction n) (auto split: if_splits simp: less_Suc_eq)

lemma trim_len_last: "0 < trim_len p n \<Longrightarrow> p ! (trim_len p n - 1) \<noteq> slash"
  by (induction n) (auto split: if_splits)

text \<open>A prefix without its trailing slashes.\<close>

definition trimmed :: "cstring \<Rightarrow> cstring" where
  "trimmed p = rev (dropWhile (\<lambda>c. c = slash) (rev p))"

lemma trim_len_append: "n \<le> length p \<Longrightarrow> trim_len (p @ q) n = trim_len p n"
  by (induction n) (auto simp: nth_append)

lemma take_trim_len: "take (trim_len p (length p)) p = trimmed p"
proof (induction p rule: rev_induct)
  case Nil
  then show ?case by (simp add: trimmed_def)
next
  case (snoc c p)
  then show ?case using trim_len_le [of p "length p"] by (simp add: trimmed_def trim_len_append)
qed

lemma trim_len_eq: "trim_len p (length p) = length (trimmed p)"
  using take_trim_len [of p] trim_len_le [of p "length p"] by (metis length_take min.absorb2)

lemma trimmed_split: "p = trimmed p @ replicate (length p - length (trimmed p)) slash"
proof -
  let ?d = "takeWhile (\<lambda>c. c = slash) (rev p)"
  have "rev p = ?d @ dropWhile (\<lambda>c. c = slash) (rev p)" by simp
  then have "p = trimmed p @ rev ?d" by (metis rev_append rev_rev_ident trimmed_def)
  moreover have "\<forall>c \<in> set (rev ?d). c = slash" by (auto dest: set_takeWhileD)
  from replicate_length_same [OF this] have "rev ?d = replicate (length (rev ?d)) slash" by (rule sym)
  ultimately show ?thesis by (metis add_diff_cancel_left' length_append)
qed

text \<open>
  The reference: the trimmed prefix is the path or is followed by a slash in it, that is, it
  consists of complete components of the path.
\<close>

definition component_prefix :: "cstring \<Rightarrow> cstring \<Rightarrow> bool" where
  "component_prefix p path \<longleftrightarrow> prefix p path \<and> (path = trimmed p \<or> prefix (trimmed p @ [slash]) path)"

lemma prefix_matches_iff:
  assumes "path = [] \<or> hd path \<noteq> slash"
  shows "prefix_matches p (length p) path \<longleftrightarrow> p = [] \<or> component_prefix p path"
proof (cases "p = []")
  case True
  then show ?thesis using assms by (simp add: prefix_matches_def)
next
  case False
  have pre: "take (length p) path = p \<longleftrightarrow> prefix p path"
    by (metis append_eq_conv_conj prefix_def)
  have "length (trimmed p) = length path \<or> path ! length (trimmed p) = slash \<longleftrightarrow>
      path = trimmed p \<or> prefix (trimmed p @ [slash]) path" if "prefix p path"
  proof -
    have "prefix (trimmed p) path" using that trimmed_split [of p] by (metis prefix_def append.assoc)
    then obtain rest where r: "path = trimmed p @ rest" by (auto simp: prefix_def)
    show ?thesis unfolding r by (cases rest) auto
  qed
  then show ?thesis
    using False pre by (auto simp: prefix_matches_def component_prefix_def trim_len_eq Let_def)
qed

section \<open>The search\<close>

definition po_matches :: "cstring \<Rightarrow> preopen \<Rightarrow> bool" where
  "po_matches search pre \<longleftrightarrow> prefix_matches (po_prefix pre) (length (po_prefix pre)) search"

text \<open>The part of the path that a match consumes.\<close>

definition consumed :: "cstring \<Rightarrow> cstring \<Rightarrow> preopen \<Rightarrow> nat" where
  "consumed path search pre = (if po_prefix pre \<noteq> []
     then skip_slashes path (length (po_prefix pre) + (length path - length search)) else 0)"

lemma consumed_length: "length (po_prefix pre) \<le> consumed path search pre"
  by (simp add: consumed_def skip_slashes_def)

lemma abspath_loop_Cons:
  "abspath_loop (pre # rest) path search (fd, ml, ap) =
     abspath_loop rest path search
       (if (fd = -1 \<or> length (po_prefix pre) > ml) \<and> po_matches search pre
        then (po_fd pre, consumed path search pre, po_prefix pre) else (fd, ml, ap))"
  by (simp add: Let_def po_matches_def consumed_def)

lemma abspath_loop_spec:
  assumes "\<forall>p \<in> set pres. po_fd p \<noteq> -1"
  shows "case abspath_loop pres path search (fd, ml, ap) of (fd', ml', ap') \<Rightarrow>
     ((fd', ml', ap') = (fd, ml, ap) \<or>
       (\<exists>p \<in> set pres. po_matches search p \<and> fd' = po_fd p \<and> ap' = po_prefix p \<and> ml' = consumed path search p)) \<and>
     (fd \<noteq> -1 \<longrightarrow> fd' \<noteq> -1 \<and> ml \<le> ml') \<and>
     (\<forall>q \<in> set pres. po_matches search q \<longrightarrow> fd' \<noteq> -1 \<and> length (po_prefix q) \<le> ml')"
  using assms
proof (induction pres arbitrary: fd ml ap)
  case Nil
  then show ?case by simp
next
  case (Cons pre rest)
  have rest: "\<forall>p \<in> set rest. po_fd p \<noteq> -1" and pre: "po_fd pre \<noteq> -1" using Cons.prems by auto
  show ?case
  proof (cases "(fd = -1 \<or> length (po_prefix pre) > ml) \<and> po_matches search pre")
    case True
    then show ?thesis
      using Cons.IH [OF rest, of "po_fd pre" "consumed path search pre" "po_prefix pre"] pre
        consumed_length [of pre path search]
      unfolding abspath_loop_Cons by (auto split: prod.splits)
  next
    case False
    then show ?thesis
      using Cons.IH [OF rest, of fd ml ap] unfolding abspath_loop_Cons by (auto split: prod.splits)
  qed
qed

lemma search_split:
  "path = replicate (length path - length (dropWhile (\<lambda>c. c = slash) path)) slash @ dropWhile (\<lambda>c. c = slash) path"
proof -
  let ?d = "takeWhile (\<lambda>c. c = slash) path"
  have s: "path = ?d @ dropWhile (\<lambda>c. c = slash) path" by simp
  have "\<forall>c \<in> set ?d. c = slash" by (auto dest: set_takeWhileD)
  from replicate_length_same [OF this] have r: "?d = replicate (length ?d) slash" by (rule sym)
  have "length ?d = length path - length (dropWhile (\<lambda>c. c = slash) path)"
    using s by (metis add_diff_cancel_right' length_append)
  with s r show ?thesis by metis
qed

lemma drop_consumed:
  assumes "po_prefix pre \<noteq> []" "search = dropWhile (\<lambda>c. c = slash) path"
  shows "drop (consumed path search pre) path =
    dropWhile (\<lambda>c. c = slash) (drop (length (po_prefix pre)) search)"
proof -
  let ?k = "length path - length search"
  have le: "length search \<le> length path" using assms(2) by (simp add: length_dropWhile_le)
  have "drop ?k path = search" using search_split [of path] assms(2) by (metis append_eq_conv_conj length_replicate)
  then have d: "drop (length (po_prefix pre) + ?k) path = drop (length (po_prefix pre)) search"
    by (metis drop_drop)
  let ?n = "length (po_prefix pre) + ?k"
  have "drop (consumed path search pre) path =
      drop (length (takeWhile (\<lambda>c. c = slash) (drop ?n path))) (drop ?n path)"
    using assms(1) by (simp only: consumed_def skip_slashes_def not_False_eq_True if_True drop_drop add.commute)
  then show ?thesis by (simp only: d dropWhile_eq_drop)
qed

section \<open>Registration keeps the table well formed\<close>

definition preopens_ok :: "'h preopens \<Rightarrow> bool" where
  "preopens_ok s \<longleftrightarrow> assert_invariants s \<and> \<not> pr_locked s \<and>
     (pr_capacity s = 0 \<or> 4 \<le> pr_capacity s) \<and> pr_capacity s < 536870912"

lemma preopens_ok_capacity:
  "4 \<le> c \<Longrightarrow> c < 536870912 \<Longrightarrow> szmul c preopen_size > c"
  by (simp add: size_simps)

lemma lock_roundtrip [simp]: "\<not> pr_locked s \<Longrightarrow> lock_drop (s\<lparr>pr_locked := x\<rparr>) = s"
  by (cases s) (simp add: lock_drop_def)

text \<open>Growing a full table takes the lock a second time.\<close>

lemma resize_locked: "pr_need_locks s \<Longrightarrow> pr_locked s \<Longrightarrow> resize H s = None"
  by (simp add: resize_def lock_take_def)

lemma resize_returns:
  assumes "preopens_ok s" "\<not> pr_need_locks s" "length (pr_table s) = pr_capacity s"
    "length (pr_table s) < 268435456"
  shows "\<exists>ok c h. resize H s = Some (ok, s\<lparr>pr_capacity := c, pr_host := h\<rparr>) \<and>
    preopens_ok (s\<lparr>pr_capacity := c, pr_host := h\<rparr>) \<and> (ok \<longrightarrow> length (pr_table s) < c)"
proof -
  define c where "c = (if pr_capacity s = 0 then 4 else szmul (pr_capacity s) 2)"
  have c: "4 \<le> c" "c < 536870912" "length (pr_table s) < c"
    using assms(1,3,4) by (auto simp: c_def preopens_ok_def size_simps)
  obtain ok h where a: "po_calloc H preopen_size c (pr_host s) = (ok, h)"
    by (cases "po_calloc H preopen_size c (pr_host s)")
  have l: "\<not> pr_locked s" using assms(1) by (simp add: preopens_ok_def)
  let ?s = "s\<lparr>pr_capacity := (if ok then c else pr_capacity s), pr_host := h\<rparr>"
  have ai: "assert_invariants (s\<lparr>pr_capacity := c, pr_host := h\<rparr>)"
    using assms(1) c preopens_ok_capacity [OF c(1,2)] by (simp add: assert_invariants_def preopens_ok_def)
  have u: "s\<lparr>pr_locked := pr_need_locks s\<rparr> = s" using assms(2) l by (cases s) simp
  have "lock_drop (s\<lparr>pr_capacity := c, pr_host := h\<rparr>) = s\<lparr>pr_capacity := c, pr_host := h\<rparr>"
    "lock_drop (s\<lparr>pr_host := h\<rparr>) = s\<lparr>pr_host := h\<rparr>"
    using l by (cases s; simp add: lock_drop_def)+
  then have "resize H s = Some (ok, ?s)"
    using ai a l u by (simp add: resize_def c_def [symmetric] Let_def)
  moreover have "preopens_ok ?s"
    using assms(1) ai c l by (auto simp: preopens_ok_def assert_invariants_def)
  ultimately show ?thesis using c(3) by (intro exI [of _ ok] exI [of _ "if ok then c else pr_capacity s"] exI [of _ h]) simp
qed

lemma register_contract:
  assumes ok: "preopens_ok s" and fd: "fd \<noteq> AT_FDCWD" "fd \<noteq> -1"
    and room: "length (pr_table s) < 268435456"
    and single: "\<not> pr_need_locks s \<or> length (pr_table s) < pr_capacity s"
  shows "\<exists>r s'. internal_register_preopened_fd H fd pfx s = Some (r, s') \<and> preopens_ok s' \<and>
    pr_need_locks s' = pr_need_locks s \<and>
    pr_table s' = (if r then pr_table s @ [\<lparr>po_prefix = strip_prefixes pfx, po_fd = fd\<rparr>] else pr_table s)"
proof -
  let ?s = "s\<lparr>pr_locked := pr_need_locks s\<rparr>"
  have l: "\<not> pr_locked s" and ai: "assert_invariants s" using ok by (simp_all add: preopens_ok_def)
  have take: "lock_take s = Some ?s" using l by simp
  have ai': "assert_invariants ?s" using ai by (simp add: assert_invariants_def)
  obtain g c h where grow: "(if length (pr_table ?s) = pr_capacity ?s then resize H ?s else Some (True, ?s)) =
      Some (g, ?s\<lparr>pr_capacity := c, pr_host := h\<rparr>)"
    and gok: "preopens_ok (s\<lparr>pr_capacity := c, pr_host := h\<rparr>)" and gc: "g \<longrightarrow> length (pr_table s) < c"
  proof (cases "length (pr_table s) = pr_capacity s")
    case True
    then have n: "\<not> pr_need_locks s" using single by simp
    then have e: "?s = s" using l by (cases s) simp
    show thesis using resize_returns [OF ok n True room, of H] True that unfolding e by auto
  next
    case False
    then have "length (pr_table s) < pr_capacity s" using ai by (simp add: assert_invariants_def)
    moreover have "?s = ?s\<lparr>pr_capacity := pr_capacity s, pr_host := pr_host s\<rparr>" "s = s\<lparr>pr_capacity := pr_capacity s, pr_host := pr_host s\<rparr>"
      by (cases s; simp)+
    ultimately show thesis using False ok that [where g = True and c = "pr_capacity s" and h = "pr_host s"] by simp
  qed
  let ?t = "?s\<lparr>pr_capacity := c, pr_host := h\<rparr>"
  obtain m h2 where m: "po_malloc H (length (strip_prefixes pfx) + 1) h = (m, h2)"
    by (cases "po_malloc H (length (strip_prefixes pfx) + 1) h")
  let ?e = "\<lparr>po_prefix = strip_prefixes pfx, po_fd = fd\<rparr>"
  let ?u = "?t\<lparr>pr_host := h2, pr_table := pr_table s @ [?e]\<rparr>"
  define s' where "s' = (if \<not> g then lock_drop ?t else if \<not> m then lock_drop (?t\<lparr>pr_host := h2\<rparr>) else lock_drop ?u)"
  have ai2: "g \<Longrightarrow> assert_invariants ?u"
    using gok gc fd(2) by (auto simp: assert_invariants_def preopens_ok_def)
  have "internal_register_preopened_fd H fd pfx s = Some (g \<and> m, s')"
    unfolding internal_register_preopened_fd_def take
    using ai' fd grow m ai2 by (simp add: s'_def Let_def)
  moreover have "preopens_ok s'"
    using gok ai2 by (auto simp: s'_def preopens_ok_def assert_invariants_def)
  moreover have "pr_table s' = (if g \<and> m then pr_table s @ [?e] else pr_table s)" "pr_need_locks s' = pr_need_locks s"
    by (simp_all add: s'_def)
  ultimately show ?thesis by blast
qed

section \<open>Population\<close>

text \<open>
  An environment that lists its preopens: descriptor \<open>fd\<close> is bad (\<open>None\<close>), not a directory
  (\<open>Some None\<close>) or a directory with a name, and memory is available.
\<close>

definition prestat_env :: "'h preopen_host \<Rightarrow> (nat \<Rightarrow> char list option option) \<Rightarrow> bool" where
  "prestat_env H dirs \<longleftrightarrow>
     (\<forall>n k h. po_calloc H n k h = (True, h)) \<and> (\<forall>n h. po_malloc H n h = (True, h)) \<and>
     (\<forall>fd h. po_prestat_get H fd h =
        (case dirs fd of None \<Rightarrow> Inl EBADF | Some d \<Rightarrow> Inr (map_option length d), h)) \<and>
     (\<forall>fd name h. dirs fd = Some (Some name) \<longrightarrow>
        po_prestat_dir_name H fd (length name) h = (Inr name, h))"

definition env_entry :: "(nat \<Rightarrow> char list option option) \<Rightarrow> nat \<Rightarrow> preopen list" where
  "env_entry dirs fd = (case dirs fd of
     Some (Some name) \<Rightarrow>
       [\<lparr>po_prefix = strip_prefixes (takeWhile (\<lambda>c. c \<noteq> CHR 0x00) name), po_fd = int fd\<rparr>]
   | _ \<Rightarrow> [])"

lemma register_succeeds:
  assumes "\<forall>n k h. po_calloc H n k h = (True, h)" "\<forall>n h. po_malloc H n h = (True, h)"
    "internal_register_preopened_fd H fd pfx s = Some (r, s')"
  shows r
  using assms
  by (auto simp: internal_register_preopened_fd_def resize_def assert_that_def Let_def split: if_splits)

lemma populate_loop_env:
  fixes s :: "'h preopens"
  assumes env: "prestat_env H dirs" and n: "dirs n = None" "n < 268435456"
  shows "start \<le> n \<Longrightarrow> 3 \<le> start \<Longrightarrow> (\<forall>fd. start \<le> fd \<longrightarrow> fd < n \<longrightarrow> dirs fd \<noteq> None) \<Longrightarrow> preopens_ok s \<Longrightarrow>
    \<not> pr_need_locks s \<Longrightarrow> length (pr_table s) + (n - start) < 268435456 \<Longrightarrow>
    \<exists>s'. populate_loop H start s = Some (Populated, s') \<and> preopens_ok s' \<and>
      pr_table s' = pr_table s @ concat (map (env_entry dirs) [start..<n])"
proof (induction "n - start" arbitrary: start s)
  case 0
  then have "start = n" by simp
  have "pr_host_update (\<lambda>_. pr_host s) s = s" by simp
  then show ?case
    using 0 \<open>start = n\<close> n env by (simp add: populate_loop.simps [of H n] prestat_env_def)
next
  case (Suc k)
  then have lt: "start < n" and k: "k = n - (start + 1)" by simp_all
  have "dirs start \<noteq> None" using Suc.prems(3) lt by simp
  then obtain d where d: "dirs start = Some d" by auto
  have get: "po_prestat_get H start (pr_host s) = (Inr (map_option length d), pr_host s)"
    using env d by (simp add: prestat_env_def)
  have step: "\<not> (start = 0 \<or> size_mod \<le> start)" using Suc.prems(2) lt n(2) by simp
  have up: "[start..<n] = start # [start + 1..<n]" using lt upt_conv_Cons by simp
  have prem: "start + 1 \<le> n" "3 \<le> start + 1" "\<forall>fd. start + 1 \<le> fd \<longrightarrow> fd < n \<longrightarrow> dirs fd \<noteq> None"
    using lt Suc.prems(2,3) by simp_all
  show ?case
  proof (cases d)
    case None
    have "populate_loop H start s = populate_loop H (start + 1) s"
      using step get None by (subst populate_loop.simps) simp
    then show ?thesis
      using Suc.hyps(1) [OF k prem Suc.prems(4,5)] Suc.prems(6) lt None d
      unfolding up by (simp add: env_entry_def)
  next
    case (Some name)
    let ?p = "takeWhile (\<lambda>c. c \<noteq> CHR 0x00) name"
    have i: "to_int32 start = int start" using lt n(2) by (simp add: to_int32_def)
    have room: "length (pr_table s) < 268435456" using Suc.prems(6) by simp
    have fd: "int start \<noteq> AT_FDCWD" "int start \<noteq> -1" by simp_all
    obtain r s1 where r: "internal_register_preopened_fd H (int start) ?p s = Some (r, s1)"
      "preopens_ok s1" "pr_need_locks s1 = pr_need_locks s"
      "pr_table s1 = (if r then pr_table s @ [\<lparr>po_prefix = strip_prefixes ?p, po_fd = int start\<rparr>] else pr_table s)"
      using register_contract [OF Suc.prems(4) fd room, of H ?p] Suc.prems(5) by blast
    have r': r using register_succeeds [OF _ _ r(1)] env by (simp add: prestat_env_def)
    have e: "pr_table s1 = pr_table s @ env_entry dirs start"
      using r(4) r' d Some by (simp add: env_entry_def)
    have "populate_loop H start s = populate_loop H (start + 1) s1"
      using step get Some env d r(1) r' i by (subst populate_loop.simps) (simp add: prestat_env_def)
    moreover have "length (env_entry dirs start) = 1" using d Some by (simp add: env_entry_def)
    then have "length (pr_table s1) + (n - (start + 1)) < 268435456" using e Suc.prems(6) lt by simp
    with Suc.hyps(1) [OF k prem r(2)] r(3) Suc.prems(5)
    obtain s' where "populate_loop H (start + 1) s1 = Some (Populated, s')" "preopens_ok s'"
      "pr_table s' = pr_table s1 @ concat (map (env_entry dirs) [start + 1..<n])" by blast
    ultimately show ?thesis using e unfolding up by simp
  qed
qed

section \<open>The theorems\<close>

text \<open>A host that always has memory and two preopened directories, at 3 and 4.\<close>

definition sample_dirs :: "nat \<Rightarrow> char list option option" where
  "sample_dirs fd = (if fd = 3 then Some (Some ''/'') else if fd = 4 then Some (Some ''./usr/lib'')
     else if fd = 5 then Some None else None)"

definition sample_preopen_host :: "unit preopen_host" where
  "sample_preopen_host = \<lparr>po_calloc = (\<lambda>n k h. (True, h)), po_malloc = (\<lambda>n h. (True, h)),
     po_prestat_get = (\<lambda>fd h. (case sample_dirs fd of None \<Rightarrow> Inl EBADF | Some d \<Rightarrow> Inr (map_option length d), h)),
     po_prestat_dir_name = (\<lambda>fd n h. (case sample_dirs fd of Some (Some name) \<Rightarrow> Inr name | _ \<Rightarrow> Inl EBADF, h))\<rparr>"

definition preopens_start :: "unit preopens" where
  "preopens_start = \<lparr>pr_table = [], pr_capacity = 0, pr_locked = False, pr_need_locks = False,
     pr_populated = False, pr_host = ()\<rparr>"

lemma sample_prestat_env: "prestat_env sample_preopen_host sample_dirs"
  by (auto simp: prestat_env_def sample_preopen_host_def)

lemma preopens_start_ok: "preopens_ok preopens_start"
  by (simp add: preopens_ok_def preopens_start_def assert_invariants_def)

text \<open>At start-up the table becomes the preopened directories of the environment, in the order of
  their descriptors from 3 up to the first bad one: entries that are not directories are skipped,
  each name is cut at its first NUL and normalised, and every assertion on the table holds.\<close>

theorem populate_preopens_spec:
  assumes "prestat_env H dirs" "dirs n = None" "3 \<le> n" "n < 268435456" "\<forall>fd. 3 \<le> fd \<and> fd < n \<longrightarrow> dirs fd \<noteq> None"
    "preopens_ok s" "\<not> pr_need_locks s" "pr_table s = []" "\<not> pr_populated s"
  shows "\<exists>s'. populate_preopens H s = Some (Populated, s') \<and> preopens_ok s' \<and>
    pr_table s' = concat (map (env_entry dirs) [3..<n])"
proof -
  let ?s = "s\<lparr>pr_populated := True\<rparr>"
  have "preopens_ok ?s" using assms(6) by (simp add: preopens_ok_def assert_invariants_def)
  then show ?thesis
    using populate_loop_env [OF assms(1,2,4), of 3 ?s] assms(3,4,5,7,8,9)
    by (simp add: populate_preopens_def)
qed

theorem populate_preopens_spec_witness:
  "\<exists>s'. populate_preopens sample_preopen_host preopens_start = Some (Populated, s') \<and>
     pr_table s' = [\<lparr>po_prefix = [], po_fd = 3\<rparr>, \<lparr>po_prefix = ''usr/lib'', po_fd = 4\<rparr>]"
proof -
  have "\<forall>fd. 3 \<le> fd \<and> fd < 6 \<longrightarrow> sample_dirs fd \<noteq> None"
    by (auto simp: sample_dirs_def)
  moreover have "sample_dirs 6 = None" by (simp add: sample_dirs_def)
  ultimately obtain s' where s': "populate_preopens sample_preopen_host preopens_start = Some (Populated, s')"
    "pr_table s' = concat (map (env_entry sample_dirs) [3..<6])"
    using populate_preopens_spec [OF sample_prestat_env, of 6 preopens_start] preopens_start_ok
    by (auto simp: preopens_start_def)
  have "[3..<6] = [3, 4, 5 :: nat]" by (simp add: upt_rec)
  then show ?thesis using s' by (simp add: env_entry_def sample_dirs_def)
qed

text \<open>Normalising a prefix gives a suffix of it that has no leading slash, no leading dot-slash and is not
  a single dot, and changes a prefix of that form no more.\<close>

theorem strip_prefixes_spec:
  "suffix (strip_prefixes p) p \<and> stripped (strip_prefixes p) \<and>
   strip_prefixes (strip_prefixes p) = strip_prefixes p \<and> (strip_prefixes p = p \<longleftrightarrow> stripped p)"
  using strip_prefixes_stripped [of p] strip_prefixes_suffix strip_prefixes_id by metis

lemma find_abspath_laws:
  fixes path :: cstring and table :: "preopen list"
  assumes "\<forall>p \<in> set table. po_fd p \<noteq> -1"
  defines "search \<equiv> dropWhile (\<lambda>c. c = slash) path"
  defines "rest \<equiv> \<lambda>p. if po_prefix p = [] then path
    else dropWhile (\<lambda>c. c = slash) (drop (length (po_prefix p)) search)"
  shows "case find_abspath table path of
      Inl e \<Rightarrow> e = ENOENT \<and> (\<forall>q \<in> set table. po_prefix q \<noteq> [] \<and> \<not> component_prefix (po_prefix q) search)
    | Inr (fd, ap, rel) \<Rightarrow>
        \<exists>p \<in> set table. fd = po_fd p \<and> ap = po_prefix p \<and> (ap = [] \<or> component_prefix ap search) \<and>
          rel = (if rest p = [] then [dot] else rest p) \<and>
          (\<forall>q \<in> set table. component_prefix (po_prefix q) search \<longrightarrow>
             length (po_prefix q) \<le> length path - length (rest p))"
proof -
  have s: "search = [] \<or> hd search \<noteq> slash" using hd_dropWhile [of "\<lambda>c. c = slash" path] by (auto simp: search_def)
  have m: "po_matches search q \<longleftrightarrow> po_prefix q = [] \<or> component_prefix (po_prefix q) search" for q
    unfolding po_matches_def by (rule prefix_matches_iff [OF s])
  obtain fd ml ap where l: "abspath_loop (rev table) path search (-1, 0, []) = (fd, ml, ap)" by (metis surj_pair)
  have spec: "((fd, ml, ap) = (-1, 0, []) \<or>
       (\<exists>p \<in> set table. po_matches search p \<and> fd = po_fd p \<and> ap = po_prefix p \<and> ml = consumed path search p))"
    "\<forall>q \<in> set table. po_matches search q \<longrightarrow> fd \<noteq> -1 \<and> length (po_prefix q) \<le> ml"
    using abspath_loop_spec [where pres = "rev table" and path = path and search = search and fd = "-1" and ml = 0 and ap = "[]"] assms(1) l by auto
  show ?thesis
  proof (cases "fd = -1")
    case True
    then have "find_abspath table path = Inl ENOENT"
      using l by (simp add: find_abspath_def search_def [symmetric] Let_def)
    then show ?thesis using True spec(2) m by auto
  next
    case False
    then obtain p where p: "p \<in> set table" "po_matches search p" "fd = po_fd p" "ap = po_prefix p"
      "ml = consumed path search p" using spec(1) by auto
    have d: "drop ml path = rest p"
      using drop_consumed [of p search path] p(5) by (simp add: rest_def search_def consumed_def)
    have f: "find_abspath table path = Inr (fd, ap, if rest p = [] then [dot] else rest p)"
      using l False d by (simp add: find_abspath_def search_def [symmetric] Let_def del: drop_eq_Nil)
    have "length (po_prefix q) \<le> length path - length (rest p)"
      if q: "q \<in> set table" "component_prefix (po_prefix q) search" for q
    proof -
      have "length (po_prefix q) \<le> ml" using spec(2) q m by blast
      moreover have "length (po_prefix q) \<le> length path"
        using q(2) length_dropWhile_le [of "\<lambda>c. c = slash" path] prefix_length_le [of "po_prefix q" search]
        by (auto simp: component_prefix_def search_def)
      moreover have "length (rest p) = length path - ml" using d by (metis length_drop)
      ultimately show ?thesis by linarith
    qed
    then show ?thesis using f p m by auto
  qed
qed

text \<open>C5.  Looking up an absolute path fails with ENOENT exactly when no registered prefix matches it.
  Otherwise the result is a registered entry whose prefix consists of complete leading components
  of the path, the relative path is the rest of the path after the slashes that follow the prefix,
  with a dot in place of an empty rest, and no other matching prefix is longer than the part of the
  path that was consumed.  For the empty prefix the relative path is the whole path, with its leading
  slash, which \<open>libc-find-relpath.h\<close> says it does not have.\<close>

theorem find_abspath_spec:
  fixes path :: cstring and table :: "preopen list"
  assumes "\<forall>p \<in> set table. po_fd p \<noteq> -1"
  defines "search \<equiv> dropWhile (\<lambda>c. c = slash) path"
  defines "rest \<equiv> \<lambda>p. if po_prefix p = [] then path
    else dropWhile (\<lambda>c. c = slash) (drop (length (po_prefix p)) search)"
  shows "case find_abspath table path of
      Inl e \<Rightarrow> e = ENOENT \<and> (\<forall>q \<in> set table. po_prefix q \<noteq> [] \<and> \<not> component_prefix (po_prefix q) search)
    | Inr (fd, ap, rel) \<Rightarrow>
        \<exists>p \<in> set table. fd = po_fd p \<and> ap = po_prefix p \<and> (ap = [] \<or> component_prefix ap search) \<and>
          rel = (if rest p = [] then [dot] else rest p) \<and>
          (\<forall>q \<in> set table. component_prefix (po_prefix q) search \<longrightarrow>
             length (po_prefix q) \<le> length path - length (rest p))"
  unfolding search_def rest_def by (rule find_abspath_laws [OF assms(1)])

theorem find_abspath_spec_witness:
  "find_abspath [\<lparr>po_prefix = ''usr'', po_fd = 3\<rparr>] ''//usr//lib'' = Inr (3, ''usr'', ''lib'')"
  using find_abspath_spec [of "[\<lparr>po_prefix = ''usr'', po_fd = 3\<rparr>]" "''//usr//lib''"]
  by (simp add: component_prefix_def trimmed_def split: sum.splits prod.splits)

lemma abspath_loop_first:
  assumes "\<forall>q \<in> set pres. length (po_prefix q) \<le> ml" "fd \<noteq> -1"
  shows "abspath_loop pres path search (fd, ml, ap) = (fd, ml, ap)"
  using assms by (induction pres) (auto simp: abspath_loop_Cons simp del: abspath_loop.simps(2))

text \<open>A directory that was just registered is what paths below it resolve to, with the rest of the path
  as the relative path, unless a longer prefix is registered.\<close>

theorem register_lookup:
  assumes "internal_register_preopened_fd H fd pfx s = Some (True, s')" "fd \<noteq> -1"
    "strip_prefixes pfx = p" "p \<noteq> []" "last p \<noteq> slash" "hd rel \<noteq> slash" "rel \<noteq> []"
    "\<forall>q \<in> set (pr_table s). length (po_prefix q) \<le> length p"
    "preopens_ok s" "fd \<noteq> AT_FDCWD" "length (pr_table s) < 268435456"
    "\<not> pr_need_locks s \<or> length (pr_table s) < pr_capacity s"
  shows "find_abspath (pr_table s') (slash # p @ slash # rel) = Inr (fd, p, rel)"
proof -
  let ?new = "\<lparr>po_prefix = p, po_fd = fd\<rparr>" and ?path = "slash # p @ slash # rel"
  have t: "pr_table s' = pr_table s @ [?new]"
    using register_contract [OF assms(9,10,2,11,12), of H pfx] assms(1,3) by auto
  have "stripped p" using strip_prefixes_stripped [of pfx] assms(3) by simp
  then have hd: "hd p \<noteq> slash" using assms(4) by (simp add: stripped_def)
  have search: "dropWhile (\<lambda>c. c = slash) ?path = p @ slash # rel"
    using hd assms(4) by (cases p) auto
  have tr: "trimmed p = p" using assms(4,5) by (cases p rule: rev_cases) (auto simp: trimmed_def)
  have "component_prefix p (p @ slash # rel)" by (simp add: component_prefix_def tr)
  moreover have "p @ slash # rel = [] \<or> hd (p @ slash # rel) \<noteq> slash" using hd assms(4) by simp
  ultimately have m: "po_matches (p @ slash # rel) ?new"
    unfolding po_matches_def by (simp add: prefix_matches_iff)
  have d: "drop (consumed ?path (p @ slash # rel) ?new) ?path = rel"
    using drop_consumed [of ?new "p @ slash # rel" ?path] search assms(4,6,7) by (cases rel) auto
  have le: "length p \<le> consumed ?path (p @ slash # rel) ?new"
    using consumed_length [of ?new ?path "p @ slash # rel"] by simp
  have "abspath_loop (rev (pr_table s')) ?path (p @ slash # rel) (-1, 0, []) =
      abspath_loop (rev (pr_table s)) ?path (p @ slash # rel) (fd, consumed ?path (p @ slash # rel) ?new, p)"
    using m by (simp add: t abspath_loop_Cons del: abspath_loop.simps(2))
  also have "\<dots> = (fd, consumed ?path (p @ slash # rel) ?new, p)"
    by (rule abspath_loop_first) (use assms(2,8) le in auto)
  finally show ?thesis
    using assms(2,7) d unfolding find_abspath_def search by (simp add: Let_def del: drop_eq_Nil)
qed

theorem register_lookup_witness:
  "\<exists>s'. internal_register_preopened_fd sample_preopen_host 9 ''/usr'' preopens_start = Some (True, s') \<and>
     find_abspath (pr_table s') ''/usr/lib/a'' = Inr (9, ''usr'', ''lib/a'')"
proof -
  obtain s' where s': "internal_register_preopened_fd sample_preopen_host 9 ''/usr'' preopens_start = Some (True, s')"
    by (simp add: internal_register_preopened_fd_def resize_def preopens_start_def sample_preopen_host_def
        assert_invariants_def szmul_def Let_def)
  have e: "strip_prefixes ''/usr'' = ''usr''" by simp
  from register_lookup [OF s' _ e, of "''lib/a''"] preopens_start_ok s' show ?thesis
    by (simp add: preopens_start_def)
qed

text \<open>The longest prefix does not always win: the length that a candidate has to exceed counts the
  leading slash and the slashes after the current match, so a prefix that is longer by one
  component of one letter is passed over.\<close>

theorem find_abspath_not_longest:
  "find_abspath [\<lparr>po_prefix = ''a/b'', po_fd = 3\<rparr>, \<lparr>po_prefix = ''a'', po_fd = 4\<rparr>] ''/a/b/c'' =
     Inr (4, ''a'', ''b/c'') \<and>
   find_abspath [\<lparr>po_prefix = ''a/bcd'', po_fd = 3\<rparr>, \<lparr>po_prefix = ''a'', po_fd = 4\<rparr>] ''/a/bcd/c'' =
     Inr (3, ''a/bcd'', ''c'')"
  by (simp add: find_abspath_def prefix_matches_def skip_slashes_def Let_def numeral_eq_Suc)

text \<open>Below a preopened root the relative path keeps the slash of the path.\<close>

lemma find_abspath_keeps_slash:
  "find_abspath [\<lparr>po_prefix = [], po_fd = 3\<rparr>] ''/a'' = Inr (3, [], ''/a'')"
  by (simp add: find_abspath_def prefix_matches_def Let_def)

text \<open>In a process with threads, registering a directory when the table is full never returns: the
  function holds the lock of the table when it calls resize, which takes it again.\<close>

theorem register_deadlock:
  assumes "pr_need_locks s" "\<not> pr_locked s" "length (pr_table s) = pr_capacity s"
  shows "internal_register_preopened_fd H fd pfx s = None"
proof -
  have "lock_take s = Some (s\<lparr>pr_locked := True\<rparr>)" using assms(1,2) by simp
  moreover have "resize H (s\<lparr>pr_locked := True\<rparr>) = None" using assms(1) by (intro resize_locked) simp_all
  ultimately show ?thesis
    using assms(3) by (cases "assert_invariants (s\<lparr>pr_locked := True\<rparr>) \<and> fd \<noteq> AT_FDCWD \<and> fd \<noteq> -1")
      (simp_all add: internal_register_preopened_fd_def)
qed

theorem register_deadlock_witness:
  "internal_register_preopened_fd sample_preopen_host 9 ''/usr'' (preopens_start\<lparr>pr_need_locks := True\<rparr>) = None"
  by (rule register_deadlock) (simp_all add: preopens_start_def)

end
