(* ===== verification/Timestamps.thy ===== *)
theory Timestamps
  imports Prelude
begin

text \<open>
  Time values (libc-bottom-half/cloudlibc/src/common/time.h): the conversions between struct
  timespec and the 64-bit nanosecond timestamps of WASI, and the timestamps of utimensat
  (cloudlibc/src/libc/sys/stat/stat_impl.h).

  A __wasi_timestamp_t is a \<open>nat\<close> below \<open>2 ^ 64\<close>; tv_sec (64 bits) and tv_nsec (32 bits) are
  \<open>int\<close>s.
\<close>

abbreviation NSEC_PER_SEC :: int where "NSEC_PER_SEC \<equiv> 1000000000"
abbreviation timestamp_mod :: nat where "timestamp_mod \<equiv> 18446744073709551616"

record timespec =
  tv_sec :: int
  tv_nsec :: int

record timeval =
  tvl_sec :: int
  tvl_usec :: int

text \<open>__builtin_mul_overflow and __builtin_add_overflow into an unsigned 64-bit number.\<close>

definition u64_of :: "int \<Rightarrow> nat option" where
  "u64_of x = (if 0 \<le> x \<and> x < int timestamp_mod then Some (nat x) else None)"

definition timespec_to_timestamp_exact :: "timespec \<Rightarrow> nat option" where
  "timespec_to_timestamp_exact ts =
     (if tv_nsec ts < 0 \<or> tv_nsec ts \<ge> NSEC_PER_SEC then None
      else if tv_sec ts < 0 then None
      else Option.bind (u64_of (tv_sec ts * NSEC_PER_SEC)) (\<lambda>t. u64_of (int t + tv_nsec ts)))"

definition timespec_to_timestamp_clamp :: "timespec \<Rightarrow> nat option" where
  "timespec_to_timestamp_clamp ts =
     (if tv_nsec ts < 0 \<or> tv_nsec ts \<ge> NSEC_PER_SEC then None
      else if tv_sec ts \<le> 0 then Some 1
      else case Option.bind (u64_of (tv_sec ts * NSEC_PER_SEC)) (\<lambda>t. u64_of (int t + tv_nsec ts)) of
        None \<Rightarrow> Some (timestamp_mod - 1)
      | Some t \<Rightarrow> Some t)"

definition timestamp_to_timespec :: "nat \<Rightarrow> timespec" where
  "timestamp_to_timespec t = \<lparr>tv_sec = int (t div 1000000000), tv_nsec = int (t mod 1000000000)\<rparr>"

definition timestamp_to_timeval :: "nat \<Rightarrow> timeval" where
  "timestamp_to_timeval t = (let ts = timestamp_to_timespec t in
     \<lparr>tvl_sec = tv_sec ts, tvl_usec = tv_nsec ts div 1000\<rparr>)"

section \<open>The timestamps of utimensat\<close>

abbreviation UTIME_NOW :: int where "UTIME_NOW \<equiv> -1"
abbreviation UTIME_OMIT :: int where "UTIME_OMIT \<equiv> -2"
abbreviation FSTFLAGS_ATIM :: "16 word" where "FSTFLAGS_ATIM \<equiv> 1"
abbreviation FSTFLAGS_ATIM_NOW :: "16 word" where "FSTFLAGS_ATIM_NOW \<equiv> 2"
abbreviation FSTFLAGS_MTIM :: "16 word" where "FSTFLAGS_MTIM \<equiv> 4"
abbreviation FSTFLAGS_MTIM_NOW :: "16 word" where "FSTFLAGS_MTIM_NOW \<equiv> 8"

text \<open>
  The two timestamps and the flags, or \<open>None\<close> when the function returns false.  A timestamp that
  stays uninitialised is \<open>None\<close>.
\<close>

definition utimens_get_timestamps ::
  "(timespec \<times> timespec) option \<Rightarrow> (nat option \<times> nat option \<times> 16 word) option" where
  "utimens_get_timestamps tms =
     (case tms of
        None \<Rightarrow> Some (None, None, FSTFLAGS_ATIM_NOW OR FSTFLAGS_MTIM_NOW)
      | Some (t0, t1) \<Rightarrow>
          (let atim = (if tv_nsec t0 = UTIME_NOW then Some (None, FSTFLAGS_ATIM_NOW)
                       else if tv_nsec t0 = UTIME_OMIT then Some (None, 0)
                       else map_option (\<lambda>t. (Some t, FSTFLAGS_ATIM)) (timespec_to_timestamp_exact t0))
           in case atim of None \<Rightarrow> None
              | Some (a, aflags) \<Rightarrow>
                  (let mtim = (if tv_nsec t1 = UTIME_NOW then Some (None, FSTFLAGS_MTIM_NOW)
                               else if tv_nsec t1 = UTIME_OMIT then Some (None, 0)
                               else map_option (\<lambda>t. (Some t, FSTFLAGS_MTIM)) (timespec_to_timestamp_exact t1))
                   in case mtim of None \<Rightarrow> None
                      | Some (m, mflags) \<Rightarrow> Some (a, m, aflags OR mflags))))"

section \<open>The conversions\<close>

lemma u64_of_Some: "u64_of x = Some t \<longleftrightarrow> 0 \<le> x \<and> x < int timestamp_mod \<and> t = nat x"
  by (auto simp: u64_of_def)

lemma u64_of_None: "u64_of x = None \<longleftrightarrow> x < 0 \<or> int timestamp_mod \<le> x"
  by (auto simp: u64_of_def)

lemma seconds_fit:
  assumes "0 \<le> s" "0 \<le> n"
  shows "Option.bind (u64_of (s * NSEC_PER_SEC)) (\<lambda>t. u64_of (int t + n)) = u64_of (s * NSEC_PER_SEC + n)"
proof (cases "u64_of (s * NSEC_PER_SEC)")
  case None
  then have "u64_of (s * NSEC_PER_SEC + n) = None"
    using assms unfolding u64_of_None by linarith
  with None show ?thesis by simp
next
  case (Some t)
  then have "int t = s * NSEC_PER_SEC" using u64_of_Some [THEN iffD1, OF Some] by linarith
  with Some show ?thesis by simp
qed

lemma exact_eq:
  "timespec_to_timestamp_exact ts =
     (if 0 \<le> tv_nsec ts \<and> tv_nsec ts < NSEC_PER_SEC \<and> 0 \<le> tv_sec ts
      then u64_of (tv_sec ts * NSEC_PER_SEC + tv_nsec ts) else None)"
  using seconds_fit [of "tv_sec ts" "tv_nsec ts"] by (auto simp: timespec_to_timestamp_exact_def)

lemma clamp_eq:
  "timespec_to_timestamp_clamp ts =
     (if tv_nsec ts < 0 \<or> tv_nsec ts \<ge> NSEC_PER_SEC then None
      else if tv_sec ts \<le> 0 then Some 1
      else Some (nat (min (tv_sec ts * NSEC_PER_SEC + tv_nsec ts) (int timestamp_mod - 1))))"
  using seconds_fit [of "tv_sec ts" "tv_nsec ts"]
  by (auto simp: timespec_to_timestamp_clamp_def u64_of_def min_def)

section \<open>The theorems\<close>

text \<open>The exact conversion accepts precisely the normalised times from the Epoch on whose count of
  nanoseconds fits 64 bits, and returns that count; converting a timestamp to a timespec and back
  gives the timestamp, and the intermediate timespec is normalised.\<close>

theorem timestamp_conversion:
  "(timespec_to_timestamp_exact ts = Some t \<longleftrightarrow>
     0 \<le> tv_nsec ts \<and> tv_nsec ts < NSEC_PER_SEC \<and> 0 \<le> tv_sec ts \<and>
     tv_sec ts * NSEC_PER_SEC + tv_nsec ts = int t \<and> t < timestamp_mod) \<and>
   timespec_to_timestamp_exact (timestamp_to_timespec u) = (if u < timestamp_mod then Some u else None) \<and>
   (timespec_to_timestamp_exact ts = Some t \<longrightarrow> timestamp_to_timespec t = ts)"
proof (intro conjI)
  show a: "timespec_to_timestamp_exact ts = Some t \<longleftrightarrow>
     0 \<le> tv_nsec ts \<and> tv_nsec ts < NSEC_PER_SEC \<and> 0 \<le> tv_sec ts \<and>
     tv_sec ts * NSEC_PER_SEC + tv_nsec ts = int t \<and> t < timestamp_mod"
    by (auto simp: exact_eq u64_of_Some)
  have "int (u div 1000000000) * NSEC_PER_SEC + int (u mod 1000000000) = int u"
    by (metis div_mult_mod_eq of_nat_add of_nat_mult of_nat_numeral)
  then show "timespec_to_timestamp_exact (timestamp_to_timespec u) = (if u < timestamp_mod then Some u else None)"
    by (simp add: exact_eq timestamp_to_timespec_def u64_of_def)
  show "timespec_to_timestamp_exact ts = Some t \<longrightarrow> timestamp_to_timespec t = ts"
  proof
    assume "timespec_to_timestamp_exact ts = Some t"
    then have e: "0 \<le> tv_nsec ts" "tv_nsec ts < NSEC_PER_SEC" "0 \<le> tv_sec ts"
      "int t = tv_nsec ts + NSEC_PER_SEC * tv_sec ts" using a by (simp_all add: algebra_simps)
    have "int t div NSEC_PER_SEC = tv_sec ts" "int t mod NSEC_PER_SEC = tv_nsec ts"
      unfolding e(4) using e(1,2) by simp_all
    then show "timestamp_to_timespec t = ts"
      by (cases ts) (simp add: timestamp_to_timespec_def zdiv_int zmod_int)
  qed
qed

theorem timestamp_conversion_witness:
  "timespec_to_timestamp_exact \<lparr>tv_sec = 3, tv_nsec = 5\<rparr> = Some 3000000005 \<and>
   timestamp_to_timespec 3000000005 = \<lparr>tv_sec = 3, tv_nsec = 5\<rparr>"
  using timestamp_conversion [of "\<lparr>tv_sec = 3, tv_nsec = 5\<rparr>" 3000000005] by simp

text \<open>The clamping conversion of a normalised time returns the nanoseconds, cut off at the largest
  timestamp, when the time is at least one second; every shorter time, a fraction of a second
  included, becomes the timestamp 1, which means no wait at all.\<close>

theorem clamp_drops_fractions:
  "timespec_to_timestamp_clamp ts =
     (if 0 \<le> tv_nsec ts \<and> tv_nsec ts < NSEC_PER_SEC
      then Some (if 1 \<le> tv_sec ts
                 then nat (min (tv_sec ts * NSEC_PER_SEC + tv_nsec ts) (int timestamp_mod - 1)) else 1)
      else None) \<and>
   timespec_to_timestamp_clamp \<lparr>tv_sec = 0, tv_nsec = 999999999\<rparr> = Some 1"
  by (auto simp: clamp_eq)

text \<open>The flags of utimensat: a missing array sets both times to now; otherwise each time is omitted,
  set to now or given exactly, and a given time outside the range of timestamps makes the call
  fail.  A timestamp is left uninitialised only when its flag says that it is not read.\<close>

theorem utimens_flags:
  "case utimens_get_timestamps tms of
     None \<Rightarrow> (\<exists>t0 t1. tms = Some (t0, t1) \<and>
       (\<exists>t \<in> {t0, t1}. tv_nsec t \<noteq> UTIME_NOW \<and> tv_nsec t \<noteq> UTIME_OMIT \<and> timespec_to_timestamp_exact t = None))
   | Some (a, m, flags) \<Rightarrow>
       (flags AND FSTFLAGS_ATIM \<noteq> 0 \<longleftrightarrow> a \<noteq> None) \<and> (flags AND FSTFLAGS_MTIM \<noteq> 0 \<longleftrightarrow> m \<noteq> None) \<and>
       (flags AND FSTFLAGS_ATIM_NOW \<noteq> 0 \<longleftrightarrow> tms = None \<or> tv_nsec (fst (the tms)) = UTIME_NOW) \<and>
       (flags AND FSTFLAGS_MTIM_NOW \<noteq> 0 \<longleftrightarrow> tms = None \<or> tv_nsec (snd (the tms)) = UTIME_NOW)"
proof (cases tms)
  case None
  then show ?thesis by (simp add: utimens_get_timestamps_def)
next
  case (Some tt)
  obtain t0 t1 where "tt = (t0, t1)" by (cases tt)
  with Some show ?thesis
    by (auto simp: utimens_get_timestamps_def Let_def exact_eq u64_of_def split: option.splits)
qed

end
