(* ===== verification/Wasi_Files.thy ===== *)
theory Wasi_Files
  imports Timestamps
begin

text \<open>
  The wrappers of the file system calls of WASI (libc-bottom-half/cloudlibc/src/libc: sys/stat,
  fcntl, unistd, stdio, time): the conversion of arguments and results, the errors they detect
  themselves and the errors they translate.

  The WASI imports are the fields of \<open>wasi\<close>: functions of their arguments and a state of the host
  that return an error code (\<open>Inl\<close>) or the values stored through the pointer arguments.
\<close>

abbreviation EACCES :: errno where "EACCES \<equiv> 2"
abbreviation ESPIPE :: errno where "ESPIPE \<equiv> 70"
abbreviation ENOTCAPABLE :: errno where "ENOTCAPABLE \<equiv> 76"

section \<open>The imports\<close>

record wasi_filestat =
  wf_dev :: nat
  wf_ino :: nat
  wf_filetype :: nat
  wf_nlink :: nat
  wf_size :: nat
  wf_atim :: nat
  wf_mtim :: nat
  wf_ctim :: nat

record wasi_fdstat =
  fs_filetype :: nat
  fs_flags :: "32 word"
  fs_rights_base :: "64 word"
  fs_rights_inheriting :: "64 word"

type_synonym ('h, 'a) wcall = "'h \<Rightarrow> (errno + 'a) \<times> 'h"

record 'h wasi =
  w_clock_res_get :: "nat \<Rightarrow> ('h, nat) wcall"
  w_clock_time_get :: "nat \<Rightarrow> nat \<Rightarrow> ('h, nat) wcall"
  w_clock_time_set :: "nat \<Rightarrow> nat \<Rightarrow> ('h, unit) wcall"
  w_clock_sleep :: "nat \<Rightarrow> 32 word \<Rightarrow> nat \<Rightarrow> ('h, errno) wcall"
  w_fd_close :: "int \<Rightarrow> ('h, unit) wcall"
  w_fd_dup :: "int \<Rightarrow> ('h, int) wcall"
  w_fd_dup2 :: "int \<Rightarrow> int \<Rightarrow> bool \<Rightarrow> ('h, int) wcall"
  w_fd_renumber :: "int \<Rightarrow> int \<Rightarrow> ('h, unit) wcall"
  w_fd_datasync :: "int \<Rightarrow> ('h, unit) wcall"
  w_fd_sync :: "int \<Rightarrow> ('h, unit) wcall"
  w_fd_seek :: "int \<Rightarrow> int \<Rightarrow> int \<Rightarrow> ('h, nat) wcall"
  w_fd_read :: "int \<Rightarrow> nat \<Rightarrow> ('h, char list) wcall"
  w_fd_write :: "int \<Rightarrow> char list \<Rightarrow> ('h, nat) wcall"
  w_fd_pread :: "int \<Rightarrow> nat \<Rightarrow> int \<Rightarrow> ('h, char list) wcall"
  w_fd_pwrite :: "int \<Rightarrow> char list \<Rightarrow> int \<Rightarrow> ('h, nat) wcall"
  w_fd_pipe :: "('h, int \<times> int) wcall"
  w_fd_advise :: "int \<Rightarrow> int \<Rightarrow> int \<Rightarrow> int \<Rightarrow> 'h \<Rightarrow> errno \<times> 'h"
  w_fd_allocate :: "int \<Rightarrow> int \<Rightarrow> int \<Rightarrow> 'h \<Rightarrow> errno \<times> 'h"
  w_fd_fdstat_get :: "int \<Rightarrow> ('h, wasi_fdstat) wcall"
  w_fd_fdstat_set_flags :: "int \<Rightarrow> 32 word \<Rightarrow> ('h, unit) wcall"
  w_fd_fdflags_get :: "int \<Rightarrow> ('h, 32 word) wcall"
  w_fd_fdflags_set :: "int \<Rightarrow> 32 word \<Rightarrow> ('h, unit) wcall"
  w_fd_filestat_get :: "int \<Rightarrow> ('h, wasi_filestat) wcall"
  w_fd_filestat_set_size :: "int \<Rightarrow> nat \<Rightarrow> ('h, unit) wcall"
  w_fd_filestat_set_times :: "int \<Rightarrow> nat option \<Rightarrow> nat option \<Rightarrow> 16 word \<Rightarrow> ('h, unit) wcall"
  w_fd_readdir :: "int \<Rightarrow> nat \<Rightarrow> nat \<Rightarrow> ('h, char list) wcall"
  w_path_create_directory :: "int \<Rightarrow> cstring \<Rightarrow> ('h, unit) wcall"
  w_path_filestat_get :: "int \<Rightarrow> 32 word \<Rightarrow> cstring \<Rightarrow> ('h, wasi_filestat) wcall"
  w_path_filestat_set_times ::
    "int \<Rightarrow> 32 word \<Rightarrow> cstring \<Rightarrow> nat option \<Rightarrow> nat option \<Rightarrow> 16 word \<Rightarrow> ('h, unit) wcall"
  w_path_link :: "int \<Rightarrow> 32 word \<Rightarrow> cstring \<Rightarrow> int \<Rightarrow> cstring \<Rightarrow> ('h, unit) wcall"
  w_path_open2 :: "int \<Rightarrow> 32 word \<Rightarrow> cstring \<Rightarrow> 32 word \<Rightarrow> 64 word \<Rightarrow> 64 word \<Rightarrow> 32 word \<Rightarrow> 32 word \<Rightarrow> ('h, int) wcall"
  w_path_readlink :: "int \<Rightarrow> cstring \<Rightarrow> nat \<Rightarrow> ('h, char list) wcall"
  w_path_rename :: "int \<Rightarrow> cstring \<Rightarrow> int \<Rightarrow> cstring \<Rightarrow> ('h, unit) wcall"
  w_path_symlink :: "cstring \<Rightarrow> int \<Rightarrow> cstring \<Rightarrow> ('h, unit) wcall"
  w_path_unlink_file :: "int \<Rightarrow> cstring \<Rightarrow> ('h, unit) wcall"
  w_path_remove_directory :: "int \<Rightarrow> cstring \<Rightarrow> ('h, unit) wcall"

text \<open>The errno a wrapper reports in place of an error of the import.\<close>

definition map_errno :: "(errno \<Rightarrow> errno) \<Rightarrow> (errno + 'a) \<times> 'h \<Rightarrow> (errno + 'a) \<times> 'h" where
  "map_errno f r = (case r of (Inl e, h) \<Rightarrow> (Inl (f e), h) | (Inr x, h) \<Rightarrow> (Inr x, h))"

definition map_result :: "('a \<Rightarrow> 'b) \<Rightarrow> (errno + 'a) \<times> 'h \<Rightarrow> (errno + 'b) \<times> 'h" where
  "map_result f r = (case r of (Inl e, h) \<Rightarrow> (Inl e, h) | (Inr x, h) \<Rightarrow> (Inr (f x), h))"

section \<open>stat\<close>

abbreviation FILETYPE_UNKNOWN :: nat where "FILETYPE_UNKNOWN \<equiv> 0"
abbreviation FILETYPE_BLOCK_DEVICE :: nat where "FILETYPE_BLOCK_DEVICE \<equiv> 1"
abbreviation FILETYPE_CHARACTER_DEVICE :: nat where "FILETYPE_CHARACTER_DEVICE \<equiv> 2"
abbreviation FILETYPE_DIRECTORY :: nat where "FILETYPE_DIRECTORY \<equiv> 3"
abbreviation FILETYPE_REGULAR_FILE :: nat where "FILETYPE_REGULAR_FILE \<equiv> 4"
abbreviation FILETYPE_SOCKET_DGRAM :: nat where "FILETYPE_SOCKET_DGRAM \<equiv> 5"
abbreviation FILETYPE_SOCKET_STREAM :: nat where "FILETYPE_SOCKET_STREAM \<equiv> 6"
abbreviation FILETYPE_SYMBOLIC_LINK :: nat where "FILETYPE_SYMBOLIC_LINK \<equiv> 7"
abbreviation FILETYPE_SOCKET_RAW :: nat where "FILETYPE_SOCKET_RAW \<equiv> 8"
abbreviation FILETYPE_SOCKET_SEQPACKET :: nat where "FILETYPE_SOCKET_SEQPACKET \<equiv> 9"

abbreviation S_IFBLK :: nat where "S_IFBLK \<equiv> 0x6000"
abbreviation S_IFCHR :: nat where "S_IFCHR \<equiv> 0x2000"
abbreviation S_IFDIR :: nat where "S_IFDIR \<equiv> 0x4000"
abbreviation S_IFLNK :: nat where "S_IFLNK \<equiv> 0xa000"
abbreviation S_IFREG :: nat where "S_IFREG \<equiv> 0x8000"
abbreviation S_IFSOCK :: nat where "S_IFSOCK \<equiv> 0xe000"
abbreviation S_IFIFO :: nat where "S_IFIFO \<equiv> 0xc000"

text \<open>The type bits of a mode, \<open>m & S_IFMT\<close>; S_IFMT is \<open>0xe000\<close>, the top three bits.\<close>

definition S_IFMT_of :: "nat \<Rightarrow> nat" where
  "S_IFMT_of m = m AND 0xe000"

record stat =
  st_dev :: nat
  st_ino :: nat
  st_nlink :: nat
  st_mode :: nat
  st_size :: int
  st_atim :: timespec
  st_mtim :: timespec
  st_ctim :: timespec

text \<open>A filesize (unsigned, 64 bits) stored in an off_t.\<close>

definition to_int64 :: "nat \<Rightarrow> int" where
  "to_int64 n = (if n < 9223372036854775808 then int n else int n - 18446744073709551616)"

definition filetype_mode :: "nat \<Rightarrow> nat" where
  "filetype_mode t =
     (if t = FILETYPE_BLOCK_DEVICE then S_IFBLK
      else if t = FILETYPE_CHARACTER_DEVICE then S_IFCHR
      else if t = FILETYPE_DIRECTORY then S_IFDIR
      else if t = FILETYPE_REGULAR_FILE then S_IFREG
      else if t = FILETYPE_SOCKET_DGRAM \<or> t = FILETYPE_SOCKET_STREAM \<or> t = FILETYPE_SOCKET_SEQPACKET \<or>
              t = FILETYPE_SOCKET_RAW then S_IFSOCK
      else if t = FILETYPE_SYMBOLIC_LINK then S_IFLNK
      else 0)"

definition to_public_stat :: "wasi_filestat \<Rightarrow> stat" where
  "to_public_stat s = \<lparr>st_dev = wf_dev s, st_ino = wf_ino s, st_nlink = wf_nlink s,
     st_mode = filetype_mode (wf_filetype s), st_size = to_int64 (wf_size s),
     st_atim = timestamp_to_timespec (wf_atim s), st_mtim = timestamp_to_timespec (wf_mtim s),
     st_ctim = timestamp_to_timespec (wf_ctim s)\<rparr>"

abbreviation AT_SYMLINK_NOFOLLOW :: "32 word" where "AT_SYMLINK_NOFOLLOW \<equiv> 1"
abbreviation AT_SYMLINK_FOLLOW :: "32 word" where "AT_SYMLINK_FOLLOW \<equiv> 2"
abbreviation AT_REMOVEDIR :: "32 word" where "AT_REMOVEDIR \<equiv> 4"
abbreviation AT_EACCESS :: "32 word" where "AT_EACCESS \<equiv> 0"
abbreviation LOOKUP_SYMLINK_FOLLOW :: "32 word" where "LOOKUP_SYMLINK_FOLLOW \<equiv> 1"

definition fstat :: "'h wasi \<Rightarrow> int \<Rightarrow> ('h, stat) wcall" where
  "fstat W fd h = map_result to_public_stat (w_fd_filestat_get W fd h)"

definition nocwd_fstatat :: "'h wasi \<Rightarrow> int \<Rightarrow> cstring \<Rightarrow> 32 word \<Rightarrow> ('h, stat) wcall" where
  "nocwd_fstatat W fd path flag h =
     (let lookup = (if flag AND AT_SYMLINK_NOFOLLOW = 0 then LOOKUP_SYMLINK_FOLLOW else 0) in
      map_result to_public_stat (w_path_filestat_get W fd lookup path h))"

definition futimens :: "'h wasi \<Rightarrow> int \<Rightarrow> (timespec \<times> timespec) option \<Rightarrow> ('h, unit) wcall" where
  "futimens W fd tms h =
     (case utimens_get_timestamps tms of
        None \<Rightarrow> (Inl EINVAL, h)
      | Some (a, m, flags) \<Rightarrow> w_fd_filestat_set_times W fd a m flags h)"

text \<open>
  This one returns -1 for bad times without setting errno: the error it leaves behind is the
  one of an earlier call, the argument \<open>stale\<close>.
\<close>

definition nocwd_utimensat ::
  "'h wasi \<Rightarrow> errno \<Rightarrow> int \<Rightarrow> cstring \<Rightarrow> (timespec \<times> timespec) option \<Rightarrow> 32 word \<Rightarrow> ('h, unit) wcall" where
  "nocwd_utimensat W stale fd path tms flag h =
     (case utimens_get_timestamps tms of
        None \<Rightarrow> (Inl stale, h)
      | Some (a, m, flags) \<Rightarrow>
          (let lookup = (if flag AND AT_SYMLINK_NOFOLLOW = 0 then LOOKUP_SYMLINK_FOLLOW else 0) in
           w_path_filestat_set_times W fd lookup path a m flags h))"

definition nocwd_mkdirat_nomode :: "'h wasi \<Rightarrow> int \<Rightarrow> cstring \<Rightarrow> ('h, unit) wcall" where
  "nocwd_mkdirat_nomode W fd path h = w_path_create_directory W fd path h"

section \<open>open\<close>

abbreviation O_NONBLOCK :: "32 word" where "O_NONBLOCK \<equiv> 0x4"
abbreviation O_DIRECTORY :: "32 word" where "O_DIRECTORY \<equiv> 0x2000"
abbreviation O_NOFOLLOW :: "32 word" where "O_NOFOLLOW \<equiv> 0x01000000"
abbreviation O_EXEC :: "32 word" where "O_EXEC \<equiv> 0x02000000"
abbreviation O_RDONLY :: "32 word" where "O_RDONLY \<equiv> 0x04000000"
abbreviation O_SEARCH :: "32 word" where "O_SEARCH \<equiv> 0x08000000"
abbreviation O_WRONLY :: "32 word" where "O_WRONLY \<equiv> 0x10000000"
abbreviation O_RDWR :: "32 word" where "O_RDWR \<equiv> 0x14000000"
abbreviation O_ACCMODE :: "32 word" where "O_ACCMODE \<equiv> 0x1E000000"
abbreviation O_CLOEXEC :: "32 word" where "O_CLOEXEC \<equiv> 0x40000000"

abbreviation RIGHTS_FD_DATASYNC :: "64 word" where "RIGHTS_FD_DATASYNC \<equiv> 0x1"
abbreviation RIGHTS_FD_READ :: "64 word" where "RIGHTS_FD_READ \<equiv> 0x2"
abbreviation RIGHTS_FD_WRITE :: "64 word" where "RIGHTS_FD_WRITE \<equiv> 0x40"
abbreviation RIGHTS_FD_ALLOCATE :: "64 word" where "RIGHTS_FD_ALLOCATE \<equiv> 0x100"
abbreviation RIGHTS_FD_READDIR :: "64 word" where "RIGHTS_FD_READDIR \<equiv> 0x4000"
abbreviation RIGHTS_FD_FILESTAT_SET_SIZE :: "64 word" where "RIGHTS_FD_FILESTAT_SET_SIZE \<equiv> 0x400000"

text \<open>The rights asked for; \<open>None\<close> when the access mode is not a valid one.\<close>

definition openat_rights :: "32 word \<Rightarrow> 64 word option" where
  "openat_rights oflag =
     (let rights = NOT (RIGHTS_FD_DATASYNC OR RIGHTS_FD_READ OR RIGHTS_FD_WRITE OR RIGHTS_FD_ALLOCATE OR
                     RIGHTS_FD_READDIR OR RIGHTS_FD_FILESTAT_SET_SIZE);
          mode = oflag AND O_ACCMODE in
      if mode = O_RDONLY \<or> mode = O_RDWR \<or> mode = O_WRONLY then
        (let rights = (if oflag AND O_RDONLY \<noteq> 0 then rights OR RIGHTS_FD_READ OR RIGHTS_FD_READDIR else rights);
             rights = (if oflag AND O_WRONLY \<noteq> 0
                    then rights OR RIGHTS_FD_DATASYNC OR RIGHTS_FD_WRITE OR RIGHTS_FD_ALLOCATE OR
                         RIGHTS_FD_FILESTAT_SET_SIZE
                    else rights) in Some rights)
      else if mode = O_EXEC \<or> mode = O_SEARCH then Some rights
      else None)"

definition nocwd_openat_nomode :: "'h wasi \<Rightarrow> int \<Rightarrow> cstring \<Rightarrow> 32 word \<Rightarrow> ('h, int) wcall" where
  "nocwd_openat_nomode W fd path oflag h =
     (case openat_rights oflag of
        None \<Rightarrow> (Inl EINVAL, h)
      | Some rights \<Rightarrow>
          (case w_fd_fdstat_get W fd h of
             (Inl e, h) \<Rightarrow> (Inl e, h)
           | (Inr cur, h) \<Rightarrow>
               (let lookup = (if oflag AND O_NOFOLLOW = 0 then LOOKUP_SYMLINK_FOLLOW else 0) in
                w_path_open2 W fd lookup path (drop_bit 12 oflag AND 0xfff)
                  (rights AND fs_rights_inheriting cur) (fs_rights_inheriting cur)
                  (oflag AND 0xfff) (drop_bit 30 oflag AND 0x3) h)))"

section \<open>fcntl and pipe2\<close>

abbreviation F_GETFD :: int where "F_GETFD \<equiv> 1"
abbreviation F_SETFD :: int where "F_SETFD \<equiv> 2"
abbreviation F_GETFL :: int where "F_GETFL \<equiv> 3"
abbreviation F_SETFL :: int where "F_SETFL \<equiv> 4"
abbreviation F_DUPFD :: int where "F_DUPFD \<equiv> 5"
abbreviation F_DUPFD_CLOEXEC :: int where "F_DUPFD_CLOEXEC \<equiv> 6"
abbreviation FD_CLOEXEC :: "32 word" where "FD_CLOEXEC \<equiv> 1"
abbreviation FDFLAGSEXT_CLOEXEC :: "32 word" where "FDFLAGSEXT_CLOEXEC \<equiv> 1"

text \<open>The flags F_GETFL derives from the flags and rights of a descriptor.\<close>

definition getfl_flags :: "wasi_fdstat \<Rightarrow> 32 word" where
  "getfl_flags s =
     (if fs_rights_base s AND (RIGHTS_FD_READ OR RIGHTS_FD_READDIR) \<noteq> 0 then
        (if fs_rights_base s AND RIGHTS_FD_WRITE \<noteq> 0 then fs_flags s OR O_RDWR else fs_flags s OR O_RDONLY)
      else if fs_rights_base s AND RIGHTS_FD_WRITE \<noteq> 0 then fs_flags s OR O_WRONLY
      else fs_flags s OR O_SEARCH)"

definition fcntl :: "'h wasi \<Rightarrow> int \<Rightarrow> int \<Rightarrow> 32 word \<Rightarrow> ('h, 32 word) wcall" where
  "fcntl W fd cmd arg h =
     (if cmd = F_GETFD then
        map_result (\<lambda>fl. if fl AND FDFLAGSEXT_CLOEXEC \<noteq> 0 then FD_CLOEXEC else 0) (w_fd_fdflags_get W fd h)
      else if cmd = F_SETFD then
        map_result (\<lambda>_. 0) (w_fd_fdflags_set W fd (if arg AND FD_CLOEXEC \<noteq> 0 then FDFLAGSEXT_CLOEXEC else 0) h)
      else if cmd = F_GETFL then map_result getfl_flags (w_fd_fdstat_get W fd h)
      else if cmd = F_SETFL then map_result (\<lambda>_. 0) (w_fd_fdstat_set_flags W fd (arg AND 0xfff) h)
      else if cmd = F_DUPFD \<or> cmd = F_DUPFD_CLOEXEC then
        map_result word_of_int (w_fd_dup2 W fd (sint arg) (cmd = F_DUPFD_CLOEXEC) h)
      else (Inl EINVAL, h))"

text \<open>An error path of pipe2: both ends are closed and the error of the failed call is kept.\<close>

definition pipe2_undo :: "'h wasi \<Rightarrow> int \<Rightarrow> int \<Rightarrow> errno \<Rightarrow> ('h, int \<times> int) wcall" where
  "pipe2_undo W fd1 fd2 e h =
     (let (_, h) = w_fd_close W fd1 h; (_, h) = w_fd_close W fd2 h in (Inl e, h))"

text \<open>
  The two calls \<open>f fd1 || f fd2\<close>: the second is made only when the first succeeded.
\<close>

definition both_calls :: "('h, 32 word) wcall \<Rightarrow> ('h, 32 word) wcall \<Rightarrow> ('h, unit) wcall" where
  "both_calls f g h =
     (case f h of (Inl e, h) \<Rightarrow> (Inl e, h)
      | (Inr _, h) \<Rightarrow> (case g h of (Inl e, h) \<Rightarrow> (Inl e, h) | (Inr _, h) \<Rightarrow> (Inr (), h)))"

definition pipe2_nonblock :: "'h wasi \<Rightarrow> int \<Rightarrow> int \<Rightarrow> ('h, unit) wcall" where
  "pipe2_nonblock W fd1 fd2 h =
     (let (flags1, h) = fcntl W fd1 F_GETFL 0 h; (flags2, h) = fcntl W fd2 F_GETFL 0 h in
      case (flags1, flags2) of
        (_, Inl e) \<Rightarrow> (Inl e, h)
      | (Inl e, Inr _) \<Rightarrow> (Inl e, h)
      | (Inr fl1, Inr fl2) \<Rightarrow>
          both_calls (fcntl W fd1 F_SETFL (fl1 OR O_NONBLOCK)) (fcntl W fd2 F_SETFL (fl2 OR O_NONBLOCK)) h)"

definition pipe2 :: "'h wasi \<Rightarrow> 32 word \<Rightarrow> ('h, int \<times> int) wcall" where
  "pipe2 W flag h =
     (case w_fd_pipe W h of
        (Inl e, h) \<Rightarrow> (Inl e, h)
      | (Inr (fd1, fd2), h) \<Rightarrow>
          (case (if flag AND O_CLOEXEC \<noteq> 0
                 then both_calls (fcntl W fd1 F_SETFD FD_CLOEXEC) (fcntl W fd2 F_SETFD FD_CLOEXEC) h
                 else (Inr (), h)) of
             (Inl e, h) \<Rightarrow> pipe2_undo W fd1 fd2 e h
           | (Inr _, h) \<Rightarrow>
               (case (if flag AND O_NONBLOCK \<noteq> 0 then pipe2_nonblock W fd1 fd2 h else (Inr (), h)) of
                  (Inl e, h) \<Rightarrow> pipe2_undo W fd1 fd2 e h
                | (Inr _, h) \<Rightarrow> (Inr (fd1, fd2), h))))"

definition pipe :: "'h wasi \<Rightarrow> ('h, int \<times> int) wcall" where
  "pipe W h = w_fd_pipe W h"

section \<open>The other calls\<close>

definition nocwd_faccessat :: "'h wasi \<Rightarrow> int \<Rightarrow> cstring \<Rightarrow> 32 word \<Rightarrow> 32 word \<Rightarrow> ('h, unit) wcall" where
  "nocwd_faccessat W fd path amode flag h =
     (if amode AND NOT 0x7 \<noteq> 0 \<or> flag AND NOT AT_EACCESS \<noteq> 0 then (Inl EINVAL, h)
      else case w_path_filestat_get W fd LOOKUP_SYMLINK_FOLLOW path h of
        (Inl e, h) \<Rightarrow> (Inl e, h)
      | (Inr st, h) \<Rightarrow>
          if amode = 0 then (Inr (), h)
          else case w_fd_fdstat_get W fd h of
            (Inl e, h) \<Rightarrow> (Inl e, h)
          | (Inr dir, h) \<Rightarrow>
              (let need = (if amode AND 0x4 \<noteq> 0
                          then if wf_filetype st = FILETYPE_DIRECTORY then RIGHTS_FD_READDIR else RIGHTS_FD_READ
                          else 0);
                   need = (if amode AND 0x2 \<noteq> 0 then need OR RIGHTS_FD_WRITE else need) in
               if need AND fs_rights_inheriting dir \<noteq> need then (Inl EACCES, h) else (Inr (), h)))"

definition nocwd_readlinkat :: "'h wasi \<Rightarrow> int \<Rightarrow> cstring \<Rightarrow> nat \<Rightarrow> ('h, char list) wcall" where
  "nocwd_readlinkat W fd path bufsize h = w_path_readlink W fd path bufsize h"

definition nocwd_symlinkat :: "'h wasi \<Rightarrow> cstring \<Rightarrow> int \<Rightarrow> cstring \<Rightarrow> ('h, unit) wcall" where
  "nocwd_symlinkat W path1 fd path2 h = w_path_symlink W path1 fd path2 h"

definition nocwd_linkat ::
  "'h wasi \<Rightarrow> int \<Rightarrow> cstring \<Rightarrow> int \<Rightarrow> cstring \<Rightarrow> 32 word \<Rightarrow> ('h, unit) wcall" where
  "nocwd_linkat W fd1 path1 fd2 path2 flag h =
     (let lookup = (if flag AND AT_SYMLINK_FOLLOW \<noteq> 0 then LOOKUP_SYMLINK_FOLLOW else 0) in
      w_path_link W fd1 lookup path1 fd2 path2 h)"

definition nocwd_renameat :: "'h wasi \<Rightarrow> int \<Rightarrow> cstring \<Rightarrow> int \<Rightarrow> cstring \<Rightarrow> ('h, unit) wcall" where
  "nocwd_renameat W oldfd old newfd new h = w_path_rename W oldfd old newfd new h"

definition nocwd_unlinkat :: "'h wasi \<Rightarrow> int \<Rightarrow> cstring \<Rightarrow> ('h, unit) wcall" where
  "nocwd_unlinkat W fd path h = w_path_unlink_file W fd path h"

definition nocwd_rmdirat :: "'h wasi \<Rightarrow> int \<Rightarrow> cstring \<Rightarrow> ('h, unit) wcall" where
  "nocwd_rmdirat W fd path h = w_path_remove_directory W fd path h"

definition close :: "'h wasi \<Rightarrow> int \<Rightarrow> ('h, unit) wcall" where
  "close W fd h = w_fd_close W fd h"

definition dup :: "'h wasi \<Rightarrow> int \<Rightarrow> ('h, int) wcall" where
  "dup W fd h = w_fd_dup W fd h"

definition dup2 :: "'h wasi \<Rightarrow> int \<Rightarrow> int \<Rightarrow> ('h, int) wcall" where
  "dup2 W fd newfd h = map_result (\<lambda>_. newfd) (w_fd_renumber W fd newfd h)"

definition dup3 :: "'h wasi \<Rightarrow> int \<Rightarrow> int \<Rightarrow> 32 word \<Rightarrow> ('h, int) wcall" where
  "dup3 W fd newfd flags h = map_result (\<lambda>_. newfd) (w_fd_renumber W fd newfd h)"

definition fdatasync :: "'h wasi \<Rightarrow> int \<Rightarrow> ('h, unit) wcall" where
  "fdatasync W fd h = map_errno (\<lambda>e. if e = ENOTCAPABLE then EBADF else e) (w_fd_datasync W fd h)"

definition fsync :: "'h wasi \<Rightarrow> int \<Rightarrow> ('h, unit) wcall" where
  "fsync W fd h = map_errno (\<lambda>e. if e = ENOTCAPABLE then EINVAL else e) (w_fd_sync W fd h)"

definition ftruncate :: "'h wasi \<Rightarrow> int \<Rightarrow> int \<Rightarrow> ('h, unit) wcall" where
  "ftruncate W fd len h =
     (if len < 0 then (Inl EINVAL, h) else w_fd_filestat_set_size W fd (nat len) h)"

definition lseek :: "'h wasi \<Rightarrow> int \<Rightarrow> int \<Rightarrow> int \<Rightarrow> ('h, int) wcall" where
  "lseek W fd offset whence h =
     map_result to_int64 (map_errno (\<lambda>e. if e = ENOTCAPABLE then ESPIPE else e) (w_fd_seek W fd offset whence h))"

definition read :: "'h wasi \<Rightarrow> int \<Rightarrow> nat \<Rightarrow> ('h, char list) wcall" where
  "read W fd nbyte h = map_errno (\<lambda>e. if e = ENOTCAPABLE then EBADF else e) (w_fd_read W fd nbyte h)"

definition write_file :: "'h wasi \<Rightarrow> int \<Rightarrow> char list \<Rightarrow> ('h, nat) wcall" where
  "write_file W fd buf h = map_errno (\<lambda>e. if e = ENOTCAPABLE then EBADF else e) (w_fd_write W fd buf h)"

text \<open>Why a positioned read or write was refused: the missing right, or the kind of the file.\<close>

definition refused :: "'h wasi \<Rightarrow> int \<Rightarrow> 64 word \<Rightarrow> errno \<Rightarrow> 'h \<Rightarrow> errno \<times> 'h" where
  "refused W fd right e h =
     (if e = ENOTCAPABLE then
        (case w_fd_fdstat_get W fd h of
           (Inr fds, h) \<Rightarrow> (if fs_rights_base fds AND right = 0 then EBADF else ESPIPE, h)
         | (Inl _, h) \<Rightarrow> (e, h))
      else (e, h))"

definition pread :: "'h wasi \<Rightarrow> int \<Rightarrow> nat \<Rightarrow> int \<Rightarrow> ('h, char list) wcall" where
  "pread W fd nbyte offset h =
     (if offset < 0 then (Inl EINVAL, h)
      else case w_fd_pread W fd nbyte offset h of
        (Inr bs, h) \<Rightarrow> (Inr bs, h)
      | (Inl e, h) \<Rightarrow> (let (e, h) = refused W fd RIGHTS_FD_READ e h in (Inl e, h)))"

definition pwrite :: "'h wasi \<Rightarrow> int \<Rightarrow> char list \<Rightarrow> int \<Rightarrow> ('h, nat) wcall" where
  "pwrite W fd buf offset h =
     (if offset < 0 then (Inl EINVAL, h)
      else case w_fd_pwrite W fd buf offset h of
        (Inr n, h) \<Rightarrow> (Inr n, h)
      | (Inl e, h) \<Rightarrow> (let (e, h) = refused W fd RIGHTS_FD_WRITE e h in (Inl e, h)))"

definition posix_fadvise :: "'h wasi \<Rightarrow> int \<Rightarrow> int \<Rightarrow> int \<Rightarrow> int \<Rightarrow> 'h \<Rightarrow> errno \<times> 'h" where
  "posix_fadvise W fd offset len advice h =
     (if offset < 0 \<or> len < 0 then (EINVAL, h) else w_fd_advise W fd offset len advice h)"

definition posix_fallocate :: "'h wasi \<Rightarrow> int \<Rightarrow> int \<Rightarrow> int \<Rightarrow> 'h \<Rightarrow> errno \<times> 'h" where
  "posix_fallocate W fd offset len h =
     (if offset < 0 \<or> len < 0 then (EINVAL, h) else w_fd_allocate W fd offset len h)"

section \<open>Clocks\<close>

abbreviation CLOCK_REALTIME :: nat where "CLOCK_REALTIME \<equiv> 0"
abbreviation TIMER_ABSTIME :: "32 word" where "TIMER_ABSTIME \<equiv> 1"

definition clock_getres :: "'h wasi \<Rightarrow> nat \<Rightarrow> ('h, timespec) wcall" where
  "clock_getres W clock_id h = map_result timestamp_to_timespec (w_clock_res_get W clock_id h)"

definition clock_gettime :: "'h wasi \<Rightarrow> nat \<Rightarrow> ('h, timespec) wcall" where
  "clock_gettime W clock_id h = map_result timestamp_to_timespec (w_clock_time_get W clock_id 1 h)"

definition clock_settime :: "'h wasi \<Rightarrow> nat \<Rightarrow> timespec \<Rightarrow> ('h, unit) wcall" where
  "clock_settime W clock_id tp h =
     (case timespec_to_timestamp_exact tp of None \<Rightarrow> (Inl EINVAL, h)
      | Some ts \<Rightarrow> w_clock_time_set W clock_id ts h)"

text \<open>
  The import \<open>w_clock_sleep\<close> is poll_oneoff with one clock subscription; it stores the error of the
  event.  The result of the function is the error number, 0 for none.
\<close>

definition clock_nanosleep :: "'h wasi \<Rightarrow> nat \<Rightarrow> 32 word \<Rightarrow> timespec \<Rightarrow> 'h \<Rightarrow> errno \<times> 'h" where
  "clock_nanosleep W clock_id flags rqtp h =
     (if flags AND NOT TIMER_ABSTIME \<noteq> 0 then (EINVAL, h)
      else case timespec_to_timestamp_exact rqtp of
        None \<Rightarrow> (EINVAL, h)
      | Some t \<Rightarrow>
          (case w_clock_sleep W clock_id flags (if t = 0 then 1 else t) h of
             (Inr ev, h) \<Rightarrow> (if ev = 0 then 0 else ENOTSUP, h)
           | (Inl _, h) \<Rightarrow> (ENOTSUP, h)))"

definition nanosleep :: "'h wasi \<Rightarrow> timespec \<Rightarrow> ('h, unit) wcall" where
  "nanosleep W rqtp h = (case clock_nanosleep W CLOCK_REALTIME 0 rqtp h of
     (e, h) \<Rightarrow> (if e \<noteq> 0 then Inl e else Inr (), h))"

definition sleep :: "'h wasi \<Rightarrow> nat \<Rightarrow> 'h \<Rightarrow> nat \<times> 'h" where
  "sleep W seconds h = (case clock_nanosleep W CLOCK_REALTIME 0 \<lparr>tv_sec = int seconds, tv_nsec = 0\<rparr> h of
     (e, h) \<Rightarrow> (if e \<noteq> 0 then seconds else 0, h))"

definition usleep :: "'h wasi \<Rightarrow> nat \<Rightarrow> ('h, unit) wcall" where
  "usleep W useconds h =
     (case clock_nanosleep W CLOCK_REALTIME 0
         \<lparr>tv_sec = int (useconds div 1000000), tv_nsec = int (useconds mod 1000000 * 1000)\<rparr> h of
      (e, h) \<Rightarrow> (if e \<noteq> 0 then Inl e else Inr (), h))"

text \<open>An error of the clock leaves the initial 0.\<close>

definition time :: "'h wasi \<Rightarrow> 'h \<Rightarrow> int \<times> 'h" where
  "time W h = (case w_clock_time_get W CLOCK_REALTIME 1000000000 h of
     (r, h) \<Rightarrow> (int (inr_or r 0 div 1000000000), h))"

end
