(* ===== verification/Wasi_Theorems.thy ===== *)
theory Wasi_Theorems
  imports Wasi_Files
begin

text \<open>
  The theorems about the wrappers of the file system calls: the rights openat asks for, the
  descriptors of pipe2, and the file types of stat.
\<close>

section \<open>openat\<close>

lemma bit_at: "(w AND 2 ^ n \<noteq> 0) = bit w n" for w :: "'a::len word"
  by (metis and_exp_eq_0_iff_not_bit)

lemma openat_rights_mode:
  "openat_rights oflag = None \<longleftrightarrow> oflag AND O_ACCMODE \<notin> {O_RDONLY, O_RDWR, O_WRONLY, O_EXEC, O_SEARCH}"
  by (simp add: openat_rights_def Let_def)

lemma accmode_bits:
  fixes oflag :: "32 word"
  defines "mode \<equiv> oflag AND O_ACCMODE"
  shows "oflag AND O_RDONLY = mode AND O_RDONLY" "oflag AND O_WRONLY = mode AND O_WRONLY"
  unfolding mode_def by (simp_all add: and.assoc)

text \<open>C7.  openat rejects every access mode but the five valid ones, before any call.  For a valid one it
  opens the path with exactly the rights that the directory passes on and the mode allows: the rights
  to read data and to list a directory in the modes that read, the rights to write, to allocate, to
  change the size and to synchronise data in the modes that write, and every other right in every
  mode.  The flags of the call are the fields of the argument.\<close>

theorem openat_least_privilege:
  "(openat_rights oflag = None \<longleftrightarrow> oflag AND O_ACCMODE \<notin> {O_RDONLY, O_RDWR, O_WRONLY, O_EXEC, O_SEARCH}) \<and>
   (openat_rights oflag = None \<longrightarrow> nocwd_openat_nomode W fd path oflag h = (Inl EINVAL, h)) \<and>
   (\<forall>r cur h1. openat_rights oflag = Some r \<longrightarrow> w_fd_fdstat_get W fd h = (Inr cur, h1) \<longrightarrow>
      nocwd_openat_nomode W fd path oflag h =
        w_path_open2 W fd (if oflag AND O_NOFOLLOW = 0 then LOOKUP_SYMLINK_FOLLOW else 0) path
          (drop_bit 12 oflag AND 0xfff) (r AND fs_rights_inheriting cur) (fs_rights_inheriting cur)
          (oflag AND 0xfff) (drop_bit 30 oflag AND 0x3) h1 \<and>
      (r AND RIGHTS_FD_READ \<noteq> 0 \<longleftrightarrow> oflag AND O_ACCMODE \<in> {O_RDONLY, O_RDWR}) \<and>
      (r AND RIGHTS_FD_READDIR \<noteq> 0 \<longleftrightarrow> oflag AND O_ACCMODE \<in> {O_RDONLY, O_RDWR}) \<and>
      (r AND RIGHTS_FD_WRITE \<noteq> 0 \<longleftrightarrow> oflag AND O_ACCMODE \<in> {O_WRONLY, O_RDWR}) \<and>
      (r AND RIGHTS_FD_DATASYNC \<noteq> 0 \<longleftrightarrow> oflag AND O_ACCMODE \<in> {O_WRONLY, O_RDWR}) \<and>
      (r AND RIGHTS_FD_ALLOCATE \<noteq> 0 \<longleftrightarrow> oflag AND O_ACCMODE \<in> {O_WRONLY, O_RDWR}) \<and>
      (r AND RIGHTS_FD_FILESTAT_SET_SIZE \<noteq> 0 \<longleftrightarrow> oflag AND O_ACCMODE \<in> {O_WRONLY, O_RDWR}) \<and>
      r OR 0x404143 = NOT 0)"
proof (intro conjI allI impI)
  show "openat_rights oflag = None \<longleftrightarrow> oflag AND O_ACCMODE \<notin> {O_RDONLY, O_RDWR, O_WRONLY, O_EXEC, O_SEARCH}"
    by (rule openat_rights_mode)
  show "openat_rights oflag = None \<Longrightarrow> nocwd_openat_nomode W fd path oflag h = (Inl EINVAL, h)"
    by (simp add: nocwd_openat_nomode_def)
next
  fix r cur h1
  assume r: "openat_rights oflag = Some r" and c: "w_fd_fdstat_get W fd h = (Inr cur, h1)"
  show "nocwd_openat_nomode W fd path oflag h =
        w_path_open2 W fd (if oflag AND O_NOFOLLOW = 0 then LOOKUP_SYMLINK_FOLLOW else 0) path
          (drop_bit 12 oflag AND 0xfff) (r AND fs_rights_inheriting cur) (fs_rights_inheriting cur)
          (oflag AND 0xfff) (drop_bit 30 oflag AND 0x3) h1"
    using r c by (auto simp: nocwd_openat_nomode_def Let_def)
  have m: "oflag AND O_ACCMODE \<in> {O_RDONLY, O_RDWR, O_WRONLY, O_EXEC, O_SEARCH}"
    using r openat_rights_mode [of oflag] by simp
  note e = r [unfolded openat_rights_def Let_def accmode_bits [of oflag]]
  show "r AND RIGHTS_FD_READ \<noteq> 0 \<longleftrightarrow> oflag AND O_ACCMODE \<in> {O_RDONLY, O_RDWR}"
    "r AND RIGHTS_FD_READDIR \<noteq> 0 \<longleftrightarrow> oflag AND O_ACCMODE \<in> {O_RDONLY, O_RDWR}"
    "r AND RIGHTS_FD_WRITE \<noteq> 0 \<longleftrightarrow> oflag AND O_ACCMODE \<in> {O_WRONLY, O_RDWR}"
    "r AND RIGHTS_FD_DATASYNC \<noteq> 0 \<longleftrightarrow> oflag AND O_ACCMODE \<in> {O_WRONLY, O_RDWR}"
    "r AND RIGHTS_FD_ALLOCATE \<noteq> 0 \<longleftrightarrow> oflag AND O_ACCMODE \<in> {O_WRONLY, O_RDWR}"
    "r AND RIGHTS_FD_FILESTAT_SET_SIZE \<noteq> 0 \<longleftrightarrow> oflag AND O_ACCMODE \<in> {O_WRONLY, O_RDWR}"
    "r OR 0x404143 = NOT 0"
    using m e by auto
qed

section \<open>pipe2\<close>

text \<open>
  A host with a table of open descriptors, which have flags and extended flags: pipe opens two
  unused ones, close removes one, the calls that read flags answer those of the table, and those
  that set flags set them of that descriptor, or fail and leave the table alone.
\<close>

type_synonym fd_table = "int \<rightharpoonup> 32 word \<times> 32 word"

definition fd_table_host :: "'h wasi \<Rightarrow> ('h \<Rightarrow> fd_table) \<Rightarrow> bool" where
  "fd_table_host W fds \<longleftrightarrow>
     (\<forall>h. case w_fd_pipe W h of (Inl e, h') \<Rightarrow> fds h' = fds h
       | (Inr (fd1, fd2), h') \<Rightarrow> fd1 \<noteq> fd2 \<and> fds h fd1 = None \<and> fds h fd2 = None \<and>
           (\<exists>d1 d2. fds h' = (fds h)(fd1 \<mapsto> d1, fd2 \<mapsto> d2))) \<and>
     (\<forall>fd h. fds (snd (w_fd_close W fd h)) = (fds h)(fd := None)) \<and>
     (\<forall>fd h. case w_fd_fdstat_get W fd h of (Inl e, h') \<Rightarrow> fds h' = fds h
       | (Inr st, h') \<Rightarrow> fds h' = fds h \<and> (\<exists>x. fds h fd = Some (fs_flags st, x))) \<and>
     (\<forall>fd fl h. case w_fd_fdstat_set_flags W fd fl h of (Inl e, h') \<Rightarrow> fds h' = fds h
       | (Inr _, h') \<Rightarrow> (\<exists>f x. fds h fd = Some (f, x) \<and> fds h' = (fds h)(fd \<mapsto> (fl, x)))) \<and>
     (\<forall>fd ext h. case w_fd_fdflags_set W fd ext h of (Inl e, h') \<Rightarrow> fds h' = fds h
       | (Inr _, h') \<Rightarrow> (\<exists>f x. fds h fd = Some (f, x) \<and> fds h' = (fds h)(fd \<mapsto> (f, ext))))"

lemma fd_table_hostD:
  assumes "fd_table_host W fds"
  shows "w_fd_pipe W h = (Inl e, h') \<Longrightarrow> fds h' = fds h"
    "w_fd_pipe W h = (Inr (fd1, fd2), h') \<Longrightarrow> fd1 \<noteq> fd2 \<and> fds h fd1 = None \<and> fds h fd2 = None \<and>
       (\<exists>d1 d2. fds h' = (fds h)(fd1 \<mapsto> d1, fd2 \<mapsto> d2))"
    "fds (snd (w_fd_close W fd h)) = (fds h)(fd := None)"
    "case w_fd_fdstat_get W fd h of (Inl e, h') \<Rightarrow> fds h' = fds h
       | (Inr st, h') \<Rightarrow> fds h' = fds h \<and> (\<exists>x. fds h fd = Some (fs_flags st, x))"
    "case w_fd_fdstat_set_flags W fd fl h of (Inl e, h') \<Rightarrow> fds h' = fds h
       | (Inr _, h') \<Rightarrow> (\<exists>f x. fds h fd = Some (f, x) \<and> fds h' = (fds h)(fd \<mapsto> (fl, x)))"
    "case w_fd_fdflags_set W fd ext h of (Inl e, h') \<Rightarrow> fds h' = fds h
       | (Inr _, h') \<Rightarrow> (\<exists>f x. fds h fd = Some (f, x) \<and> fds h' = (fds h)(fd \<mapsto> (f, ext)))"
proof -
  note d = assms [unfolded fd_table_host_def]
  note d2 = d [THEN conjunct2]
  note d3 = d2 [THEN conjunct2]
  note d4 = d3 [THEN conjunct2]
  show "w_fd_pipe W h = (Inl e, h') \<Longrightarrow> fds h' = fds h"
    using d [THEN conjunct1, rule_format, of h] by simp
  show "w_fd_pipe W h = (Inr (fd1, fd2), h') \<Longrightarrow> fd1 \<noteq> fd2 \<and> fds h fd1 = None \<and> fds h fd2 = None \<and>
       (\<exists>d1 d2. fds h' = (fds h)(fd1 \<mapsto> d1, fd2 \<mapsto> d2))"
    using d [THEN conjunct1, rule_format, of h] by simp
  show "fds (snd (w_fd_close W fd h)) = (fds h)(fd := None)"
    by (rule d2 [THEN conjunct1, rule_format])
  show "case w_fd_fdstat_get W fd h of (Inl e, h') \<Rightarrow> fds h' = fds h
       | (Inr st, h') \<Rightarrow> fds h' = fds h \<and> (\<exists>x. fds h fd = Some (fs_flags st, x))"
    by (rule d3 [THEN conjunct1, rule_format])
  show "case w_fd_fdstat_set_flags W fd fl h of (Inl e, h') \<Rightarrow> fds h' = fds h
       | (Inr _, h') \<Rightarrow> (\<exists>f x. fds h fd = Some (f, x) \<and> fds h' = (fds h)(fd \<mapsto> (fl, x)))"
    by (rule d4 [THEN conjunct1, rule_format])
  show "case w_fd_fdflags_set W fd ext h of (Inl e, h') \<Rightarrow> fds h' = fds h
       | (Inr _, h') \<Rightarrow> (\<exists>f x. fds h fd = Some (f, x) \<and> fds h' = (fds h)(fd \<mapsto> (f, ext)))"
    by (rule d4 [THEN conjunct2, rule_format])
qed

text \<open>The three commands that pipe2 gives to fcntl.\<close>

lemma fcntl_setfd:
  assumes "fd_table_host W fds" "fcntl W fd F_SETFD FD_CLOEXEC h = (r, h')"
  shows "case r of Inl e \<Rightarrow> fds h' = fds h
    | Inr _ \<Rightarrow> (\<exists>f x. fds h fd = Some (f, x) \<and> fds h' = (fds h)(fd \<mapsto> (f, FDFLAGSEXT_CLOEXEC)))"
  using fd_table_hostD(6) [OF assms(1), where fd = fd and ext = FDFLAGSEXT_CLOEXEC and h = h] assms(2)
  by (auto simp: fcntl_def map_result_def split: prod.splits sum.splits)

lemma fcntl_getfl:
  assumes "fd_table_host W fds" "fcntl W fd F_GETFL 0 h = (r, h')"
  shows "fds h' = fds h"
    "r = Inr fl \<Longrightarrow> \<exists>f x. fds h fd = Some (f, x) \<and> (fl OR O_NONBLOCK) AND 0xfff = (f OR O_NONBLOCK) AND 0xfff"
proof -
  have m: "(getfl_flags st OR O_NONBLOCK) AND 0xfff = (fs_flags st OR O_NONBLOCK) AND 0xfff" for st
    by (auto simp: getfl_flags_def bit.conj_disj_distrib2)
  show "fds h' = fds h"
    "r = Inr fl \<Longrightarrow> \<exists>f x. fds h fd = Some (f, x) \<and> (fl OR O_NONBLOCK) AND 0xfff = (f OR O_NONBLOCK) AND 0xfff"
    using fd_table_hostD(4) [OF assms(1), where fd = fd and h = h] assms(2)
    by (auto simp: fcntl_def map_result_def m split: prod.splits sum.splits)
qed

lemma fcntl_setfl:
  assumes "fd_table_host W fds" "fcntl W fd F_SETFL arg h = (r, h')"
  shows "case r of Inl e \<Rightarrow> fds h' = fds h
    | Inr _ \<Rightarrow> (\<exists>f x. fds h fd = Some (f, x) \<and> fds h' = (fds h)(fd \<mapsto> (arg AND 0xfff, x)))"
  using fd_table_hostD(5) [OF assms(1), where fd = fd and fl = "arg AND 0xfff" and h = h] assms(2)
  by (auto simp: fcntl_def map_result_def split: prod.splits sum.splits)

text \<open>The descriptors at \<open>fd1\<close> and \<open>fd2\<close> with the flags that were asked for.\<close>

definition pipe_ends :: "bool \<Rightarrow> bool \<Rightarrow> int \<Rightarrow> int \<Rightarrow> fd_table \<Rightarrow> fd_table" where
  "pipe_ends nonblock cloexec fd1 fd2 T = (\<lambda>fd. if fd = fd1 \<or> fd = fd2
     then map_option (\<lambda>(f, x). (if nonblock then (f OR O_NONBLOCK) AND 0xfff else f,
       if cloexec then FDFLAGSEXT_CLOEXEC else x)) (T fd) else T fd)"

lemma both_cloexec:
  assumes "fd_table_host W fds" "fd1 \<noteq> fd2" "fds h fd1 \<noteq> None" "fds h fd2 \<noteq> None"
    "both_calls (fcntl W fd1 F_SETFD FD_CLOEXEC) (fcntl W fd2 F_SETFD FD_CLOEXEC) h = (r, h')"
  shows "(\<forall>fd. fd \<noteq> fd1 \<and> fd \<noteq> fd2 \<longrightarrow> fds h' fd = fds h fd) \<and>
    (r = Inr () \<longrightarrow> fds h' fd1 = map_option (\<lambda>(f, x). (f, FDFLAGSEXT_CLOEXEC)) (fds h fd1) \<and>
       fds h' fd2 = map_option (\<lambda>(f, x). (f, FDFLAGSEXT_CLOEXEC)) (fds h fd2))"
proof -
  obtain r1 h1 where 1: "fcntl W fd1 F_SETFD FD_CLOEXEC h = (r1, h1)" by (metis surj_pair)
  obtain r2 h2 where 2: "fcntl W fd2 F_SETFD FD_CLOEXEC h1 = (r2, h2)" by (metis surj_pair)
  show ?thesis
    using fcntl_setfd [OF assms(1) 1] fcntl_setfd [OF assms(1) 2] assms(2-5) 1 2
    by (cases r1; cases r2) (auto simp: both_calls_def)
qed

lemma both_setfl:
  assumes "fd_table_host W fds" "fd1 \<noteq> fd2" "fds h fd1 \<noteq> None" "fds h fd2 \<noteq> None"
    "both_calls (fcntl W fd1 F_SETFL a) (fcntl W fd2 F_SETFL b) h = (r, h')"
  shows "(\<forall>fd. fd \<noteq> fd1 \<and> fd \<noteq> fd2 \<longrightarrow> fds h' fd = fds h fd) \<and>
    (r = Inr () \<longrightarrow> fds h' fd1 = map_option (\<lambda>(f, x). (a AND 0xfff, x)) (fds h fd1) \<and>
       fds h' fd2 = map_option (\<lambda>(f, x). (b AND 0xfff, x)) (fds h fd2))"
proof -
  obtain r1 h1 where 1: "fcntl W fd1 F_SETFL a h = (r1, h1)" by (metis surj_pair)
  obtain r2 h2 where 2: "fcntl W fd2 F_SETFL b h1 = (r2, h2)" by (metis surj_pair)
  show ?thesis
    using fcntl_setfl [OF assms(1) 1] fcntl_setfl [OF assms(1) 2] assms(2-5) 1 2
    by (cases r1; cases r2) (auto simp: both_calls_def)
qed

lemma pipe2_nonblock_table:
  assumes "fd_table_host W fds" "fd1 \<noteq> fd2" "fds h fd1 \<noteq> None" "fds h fd2 \<noteq> None"
    "pipe2_nonblock W fd1 fd2 h = (r, h')"
  shows "(\<forall>fd. fd \<noteq> fd1 \<and> fd \<noteq> fd2 \<longrightarrow> fds h' fd = fds h fd) \<and>
    (r = Inr () \<longrightarrow> fds h' fd1 = map_option (\<lambda>(f, x). ((f OR O_NONBLOCK) AND 0xfff, x)) (fds h fd1) \<and>
       fds h' fd2 = map_option (\<lambda>(f, x). ((f OR O_NONBLOCK) AND 0xfff, x)) (fds h fd2))"
proof -
  obtain r1 h1 where 1: "fcntl W fd1 F_GETFL 0 h = (r1, h1)" by (metis surj_pair)
  obtain r2 h2 where 2: "fcntl W fd2 F_GETFL 0 h1 = (r2, h2)" by (metis surj_pair)
  have h: "fds h1 = fds h" "fds h2 = fds h"
    using fcntl_getfl(1) [OF assms(1) 1] fcntl_getfl(1) [OF assms(1) 2] by simp_all
  show ?thesis
  proof (cases "\<exists>a b. r1 = Inr a \<and> r2 = Inr b")
    case False
    then have "h' = h2 \<and> (\<exists>e. r = Inl e)"
      using assms(5) 1 2 by (cases r1; cases r2) (auto simp: pipe2_nonblock_def)
    then show ?thesis using h by auto
  next
    case True
    then obtain a b where ab: "r1 = Inr a" "r2 = Inr b" by blast
    obtain f x where a: "fds h fd1 = Some (f, x)" "(a OR O_NONBLOCK) AND 0xfff = (f OR O_NONBLOCK) AND 0xfff"
      using fcntl_getfl(2) [OF assms(1) 1 ab(1)] by blast
    obtain g y where b: "fds h fd2 = Some (g, y)" "(b OR O_NONBLOCK) AND 0xfff = (g OR O_NONBLOCK) AND 0xfff"
      using fcntl_getfl(2) [OF assms(1) 2 ab(2)] h(1) by metis
    have "both_calls (fcntl W fd1 F_SETFL (a OR O_NONBLOCK)) (fcntl W fd2 F_SETFL (b OR O_NONBLOCK)) h2 = (r, h')"
      using assms(5) 1 2 ab by (simp add: pipe2_nonblock_def)
    from both_setfl [OF assms(1,2) _ _ this] show ?thesis
      using a b unfolding h(2) by simp
  qed
qed

lemma pipe2_undo_table:
  assumes "fd_table_host W fds"
  shows "\<exists>h'. pipe2_undo W fd1 fd2 e h = (Inl e, h') \<and> fds h' = (fds h)(fd1 := None, fd2 := None)"
proof -
  obtain r1 h1 where 1: "w_fd_close W fd1 h = (r1, h1)" by (metis surj_pair)
  obtain r2 h2 where 2: "w_fd_close W fd2 h1 = (r2, h2)" by (metis surj_pair)
  show ?thesis
    using fd_table_hostD(3) [OF assms, where fd = fd1 and h = h] fd_table_hostD(3) [OF assms, where fd = fd2 and h = h1] 1 2
    by (simp add: pipe2_undo_def)
qed

text \<open>C8.  pipe2 leaks no descriptor: when it fails, at whatever step, the table of descriptors is as
  before.  When it succeeds, exactly the two ends it returns are new, and both have the flags the
  pipe gave them, with O_NONBLOCK added and with close-on-exec set exactly when the argument asks for
  it; the other descriptors keep their flags.\<close>

theorem pipe2_no_leak:
  assumes "fd_table_host W fds"
  shows "case pipe2 W flag h of
      (Inl e, h') \<Rightarrow> fds h' = fds h
    | (Inr (fd1, fd2), h') \<Rightarrow> fd1 \<noteq> fd2 \<and> fds h fd1 = None \<and> fds h fd2 = None \<and>
        (\<exists>d1 d2 h1. w_fd_pipe W h = (Inr (fd1, fd2), h1) \<and> fds h1 = (fds h)(fd1 \<mapsto> d1, fd2 \<mapsto> d2) \<and>
           fds h' = pipe_ends (flag AND O_NONBLOCK \<noteq> 0) (flag AND O_CLOEXEC \<noteq> 0) fd1 fd2 (fds h1))"
proof -
  obtain r h1 where p: "w_fd_pipe W h = (r, h1)" by (cases "w_fd_pipe W h")
  show ?thesis
  proof (cases r)
    case (Inl e)
    have "fds h1 = fds h" by (rule fd_table_hostD(1) [OF assms p [unfolded Inl]])
    then show ?thesis using p Inl by (simp add: pipe2_def)
  next
    case (Inr ends)
    obtain fd1 fd2 where ends: "ends = (fd1, fd2)" by (cases ends)
    obtain d1 d2 where new: "fd1 \<noteq> fd2" "fds h fd1 = None" "fds h fd2 = None"
      "fds h1 = (fds h)(fd1 \<mapsto> d1, fd2 \<mapsto> d2)"
      using fd_table_hostD(2) [OF assms p [unfolded Inr ends]] by blast
    have undo: "\<exists>h'. pipe2_undo W fd1 fd2 e h2 = (Inl e, h') \<and> fds h' = fds h"
      if "\<forall>fd. fd \<noteq> fd1 \<and> fd \<noteq> fd2 \<longrightarrow> fds h2 fd = fds h1 fd" for e h2
      using pipe2_undo_table [OF assms, of fd1 fd2 e h2] that new by (fastforce simp: fun_eq_iff)
    obtain r2 h2 where c: "(if flag AND O_CLOEXEC \<noteq> 0
        then both_calls (fcntl W fd1 F_SETFD FD_CLOEXEC) (fcntl W fd2 F_SETFD FD_CLOEXEC) h1 else (Inr (), h1)) = (r2, h2)"
      by (metis surj_pair)
    have c2: "\<forall>fd. fd \<noteq> fd1 \<and> fd \<noteq> fd2 \<longrightarrow> fds h2 fd = fds h1 fd"
      "r2 = Inr () \<Longrightarrow> fds h2 = pipe_ends False (flag AND O_CLOEXEC \<noteq> 0) fd1 fd2 (fds h1)"
      using both_cloexec [OF assms new(1), of h1 r2 h2] c new
      by (auto simp: pipe_ends_def fun_eq_iff split: if_splits)
    show ?thesis
    proof (cases r2)
      case (Inl e)
      then show ?thesis using undo [OF c2(1), of e] p c ends \<open>r = Inr ends\<close> by (auto simp: pipe2_def)
    next
      case (Inr u)
      then have t2: "fds h2 = pipe_ends False (flag AND O_CLOEXEC \<noteq> 0) fd1 fd2 (fds h1)" using c2(2) by simp
      obtain r3 h3 where n: "(if flag AND O_NONBLOCK \<noteq> 0 then pipe2_nonblock W fd1 fd2 h2 else (Inr (), h2)) = (r3, h3)"
        by (metis surj_pair)
      have c3: "(\<forall>fd. fd \<noteq> fd1 \<and> fd \<noteq> fd2 \<longrightarrow> fds h3 fd = fds h2 fd) \<and>
          (r3 = Inr () \<longrightarrow> fds h3 = pipe_ends (flag AND O_NONBLOCK \<noteq> 0) (flag AND O_CLOEXEC \<noteq> 0) fd1 fd2 (fds h1))"
      proof (cases "flag AND O_NONBLOCK = 0")
        case True
        then show ?thesis using n t2 by (auto simp: pipe_ends_def fun_eq_iff)
      next
        case False
        have "fds h2 fd1 \<noteq> None" "fds h2 fd2 \<noteq> None" using t2 new by (simp_all add: pipe_ends_def)
        from pipe2_nonblock_table [OF assms new(1) this, of r3 h3] n False
        have "(\<forall>fd. fd \<noteq> fd1 \<and> fd \<noteq> fd2 \<longrightarrow> fds h3 fd = fds h2 fd) \<and>
          (r3 = Inr () \<longrightarrow> fds h3 = pipe_ends True False fd1 fd2 (fds h2))"
          by (auto simp: pipe_ends_def fun_eq_iff)
        moreover have "pipe_ends True False fd1 fd2 (pipe_ends False c fd1 fd2 T) = pipe_ends True c fd1 fd2 T" for c T
          by (auto simp: pipe_ends_def fun_eq_iff option.map_comp intro!: option.map_cong)
        ultimately show ?thesis using False unfolding t2 by simp
      qed
      have eq: "pipe2 W flag h = (case r3 of Inl e \<Rightarrow> pipe2_undo W fd1 fd2 e h3 | Inr _ \<Rightarrow> (Inr (fd1, fd2), h3))"
        using p c n Inr ends \<open>r = Inr ends\<close> by (simp add: pipe2_def split: sum.split)
      show ?thesis
      proof (cases r3)
        case (Inl e)
        have "\<forall>fd. fd \<noteq> fd1 \<and> fd \<noteq> fd2 \<longrightarrow> fds h3 fd = fds h1 fd" using c3 c2(1) by simp
        from undo [OF this, of e] show ?thesis using eq Inl by auto
      next
        case (Inr v)
        then have "fds h3 = pipe_ends (flag AND O_NONBLOCK \<noteq> 0) (flag AND O_CLOEXEC \<noteq> 0) fd1 fd2 (fds h1)" using c3 by simp
        moreover have "\<exists>d1 d2 h1. w_fd_pipe W h = (Inr (fd1, fd2), h1) \<and>
            fds h1 = (fds h)(fd1 \<mapsto> d1, fd2 \<mapsto> d2) \<and> fds h3 = pipe_ends (flag AND O_NONBLOCK \<noteq> 0) (flag AND O_CLOEXEC \<noteq> 0) fd1 fd2 (fds h1)"
          using p ends \<open>r = Inr ends\<close> new(4) calculation by blast
        ultimately show ?thesis using eq Inr new(1-3) by simp
      qed
    qed
  qed
qed

text \<open>A host that implements no call, and one whose pipe is at 10 and 11.\<close>

definition null_wasi :: "'h wasi" where
  "null_wasi = \<lparr>w_clock_res_get = (\<lambda>_ h. (Inl ENOSYS, h)), w_clock_time_get = (\<lambda>_ _ h. (Inl ENOSYS, h)),
     w_clock_time_set = (\<lambda>_ _ h. (Inl ENOSYS, h)), w_clock_sleep = (\<lambda>_ _ _ h. (Inl ENOSYS, h)),
     w_fd_close = (\<lambda>_ h. (Inl ENOSYS, h)), w_fd_dup = (\<lambda>_ h. (Inl ENOSYS, h)),
     w_fd_dup2 = (\<lambda>_ _ _ h. (Inl ENOSYS, h)), w_fd_renumber = (\<lambda>_ _ h. (Inl ENOSYS, h)),
     w_fd_datasync = (\<lambda>_ h. (Inl ENOSYS, h)), w_fd_sync = (\<lambda>_ h. (Inl ENOSYS, h)),
     w_fd_seek = (\<lambda>_ _ _ h. (Inl ENOSYS, h)), w_fd_read = (\<lambda>_ _ h. (Inl ENOSYS, h)),
     w_fd_write = (\<lambda>_ _ h. (Inl ENOSYS, h)), w_fd_pread = (\<lambda>_ _ _ h. (Inl ENOSYS, h)),
     w_fd_pwrite = (\<lambda>_ _ _ h. (Inl ENOSYS, h)), w_fd_pipe = (\<lambda>h. (Inl ENOSYS, h)),
     w_fd_advise = (\<lambda>_ _ _ _ h. (ENOSYS, h)), w_fd_allocate = (\<lambda>_ _ _ h. (ENOSYS, h)),
     w_fd_fdstat_get = (\<lambda>_ h. (Inl ENOSYS, h)), w_fd_fdstat_set_flags = (\<lambda>_ _ h. (Inl ENOSYS, h)),
     w_fd_fdflags_get = (\<lambda>_ h. (Inl ENOSYS, h)), w_fd_fdflags_set = (\<lambda>_ _ h. (Inl ENOSYS, h)),
     w_fd_filestat_get = (\<lambda>_ h. (Inl ENOSYS, h)), w_fd_filestat_set_size = (\<lambda>_ _ h. (Inl ENOSYS, h)),
     w_fd_filestat_set_times = (\<lambda>_ _ _ _ h. (Inl ENOSYS, h)), w_fd_readdir = (\<lambda>_ _ _ h. (Inl ENOSYS, h)),
     w_path_create_directory = (\<lambda>_ _ h. (Inl ENOSYS, h)), w_path_filestat_get = (\<lambda>_ _ _ h. (Inl ENOSYS, h)),
     w_path_filestat_set_times = (\<lambda>_ _ _ _ _ _ h. (Inl ENOSYS, h)), w_path_link = (\<lambda>_ _ _ _ _ h. (Inl ENOSYS, h)),
     w_path_open2 = (\<lambda>_ _ _ _ _ _ _ _ h. (Inl ENOSYS, h)), w_path_readlink = (\<lambda>_ _ _ h. (Inl ENOSYS, h)),
     w_path_rename = (\<lambda>_ _ _ _ h. (Inl ENOSYS, h)), w_path_symlink = (\<lambda>_ _ _ h. (Inl ENOSYS, h)),
     w_path_unlink_file = (\<lambda>_ _ h. (Inl ENOSYS, h)), w_path_remove_directory = (\<lambda>_ _ h. (Inl ENOSYS, h))\<rparr>"

definition sample_pipe_host :: "fd_table wasi" where
  "sample_pipe_host = null_wasi\<lparr>w_fd_close := (\<lambda>fd h. (Inr (), h(fd := None))),
     w_fd_pipe := (\<lambda>h. if h 10 = None \<and> h 11 = None then (Inr (10, 11), h(10 \<mapsto> (0, 0), 11 \<mapsto> (0, 0))) else (Inl 33, h)),
     w_fd_fdstat_get := (\<lambda>fd h. case h fd of None \<Rightarrow> (Inl EBADF, h)
       | Some (f, x) \<Rightarrow> (Inr \<lparr>fs_filetype = 0, fs_flags = f, fs_rights_base = 0x42, fs_rights_inheriting = 0\<rparr>, h)),
     w_fd_fdstat_set_flags := (\<lambda>fd fl h. case h fd of None \<Rightarrow> (Inl EBADF, h) | Some (f, x) \<Rightarrow> (Inr (), h(fd \<mapsto> (fl, x)))),
     w_fd_fdflags_set := (\<lambda>fd ext h. case h fd of None \<Rightarrow> (Inl EBADF, h) | Some (f, x) \<Rightarrow> (Inr (), h(fd \<mapsto> (f, ext))))\<rparr>"

lemma sample_pipe_fields:
  "w_fd_close sample_pipe_host fd h = (Inr (), h(fd := None))"
  "w_fd_pipe sample_pipe_host h =
     (if h 10 = None \<and> h 11 = None then (Inr (10, 11), h(10 \<mapsto> (0, 0), 11 \<mapsto> (0, 0))) else (Inl 33, h))"
  "w_fd_fdstat_get sample_pipe_host fd h = (case h fd of None \<Rightarrow> (Inl EBADF, h)
     | Some (f, x) \<Rightarrow> (Inr \<lparr>fs_filetype = 0, fs_flags = f, fs_rights_base = 0x42, fs_rights_inheriting = 0\<rparr>, h))"
  "w_fd_fdstat_set_flags sample_pipe_host fd fl h =
     (case h fd of None \<Rightarrow> (Inl EBADF, h) | Some (f, x) \<Rightarrow> (Inr (), h(fd \<mapsto> (fl, x))))"
  "w_fd_fdflags_set sample_pipe_host fd ext h =
     (case h fd of None \<Rightarrow> (Inl EBADF, h) | Some (f, x) \<Rightarrow> (Inr (), h(fd \<mapsto> (f, ext))))"
  by (simp_all add: sample_pipe_host_def null_wasi_def)

lemma sample_pipe_table: "fd_table_host sample_pipe_host id"
  unfolding fd_table_host_def by (auto simp: sample_pipe_fields split: option.splits prod.splits)

theorem pipe2_no_leak_witness:
  "\<exists>h. pipe2 sample_pipe_host (O_CLOEXEC OR O_NONBLOCK) [0 \<mapsto> (0, 0)] = (Inr (10, 11), h) \<and>
     h 0 = Some (0, 0) \<and> h 10 = Some (O_NONBLOCK, FDFLAGSEXT_CLOEXEC) \<and> h 11 = Some (O_NONBLOCK, FDFLAGSEXT_CLOEXEC)"
proof -
  have "fst (pipe2 sample_pipe_host (O_CLOEXEC OR O_NONBLOCK) [0 \<mapsto> (0, 0)]) = Inr (10, 11)"
    by (simp add: pipe2_def sample_pipe_fields both_calls_def fcntl_def map_result_def pipe2_nonblock_def)
  then obtain h where h: "pipe2 sample_pipe_host (O_CLOEXEC OR O_NONBLOCK) [0 \<mapsto> (0, 0)] = (Inr (10, 11), h)"
    by (metis prod.collapse)
  from pipe2_no_leak [OF sample_pipe_table, where flag = "O_CLOEXEC OR O_NONBLOCK" and h = "[0 \<mapsto> (0, 0)]"] h
  show ?thesis by (auto simp: sample_pipe_fields pipe_ends_def)
qed

theorem openat_least_privilege_witness:
  "openat_rights O_RDONLY = Some 0xFFFFFFFFFFBFFEBE \<and> (0xFFFFFFFFFFBFFEBE :: 64 word) AND RIGHTS_FD_WRITE = 0"
proof -
  define W where "W = (null_wasi :: unit wasi)\<lparr>w_fd_fdstat_get := (\<lambda>fd h.
     (Inr \<lparr>fs_filetype = 3, fs_flags = 0, fs_rights_base = 0, fs_rights_inheriting = 0\<rparr>, h))\<rparr>"
  have r: "openat_rights O_RDONLY = Some 0xFFFFFFFFFFBFFEBE" by (simp add: openat_rights_def Let_def)
  have "w_fd_fdstat_get W 3 () =
      (Inr \<lparr>fs_filetype = 3, fs_flags = 0, fs_rights_base = 0, fs_rights_inheriting = 0\<rparr>, ())"
    by (simp add: W_def)
  with openat_least_privilege [of O_RDONLY W 3 "''f''" "()"] r
  have "(0xFFFFFFFFFFBFFEBE :: 64 word) AND RIGHTS_FD_WRITE \<noteq> 0 \<longleftrightarrow> O_RDONLY AND O_ACCMODE \<in> {O_WRONLY, O_RDWR}"
    by blast
  with r show ?thesis by simp
qed

section \<open>File types\<close>

definition iftodt :: "nat \<Rightarrow> nat" where
  "iftodt x =
     (if x = S_IFDIR then FILETYPE_DIRECTORY
      else if x = S_IFCHR then FILETYPE_CHARACTER_DEVICE
      else if x = S_IFBLK then FILETYPE_BLOCK_DEVICE
      else if x = S_IFREG then FILETYPE_REGULAR_FILE
      else if x = S_IFIFO then FILETYPE_SOCKET_STREAM
      else if x = S_IFLNK then FILETYPE_SYMBOLIC_LINK
      else if x = S_IFSOCK then 255
      else FILETYPE_UNKNOWN)"

definition dttoif :: "nat \<Rightarrow> nat" where
  "dttoif x =
     (if x = FILETYPE_DIRECTORY then S_IFDIR
      else if x = FILETYPE_CHARACTER_DEVICE then S_IFCHR
      else if x = FILETYPE_BLOCK_DEVICE then S_IFBLK
      else if x = FILETYPE_REGULAR_FILE then S_IFREG
      else if x = FILETYPE_SOCKET_STREAM then S_IFIFO
      else if x = FILETYPE_SYMBOLIC_LINK then S_IFLNK
      else if x = 255 then S_IFSOCK
      else S_IFSOCK)"

text \<open>The type bits of a mode survive the conversion to a directory entry type and back, for every
  mode that stat produces from a known file type, and so does the entry type; the mode of a stat
  has no bits but the type.\<close>

theorem stat_mode_types:
  "dttoif (iftodt m) = (if m \<in> {S_IFDIR, S_IFCHR, S_IFBLK, S_IFREG, S_IFIFO, S_IFLNK, S_IFSOCK} then m else S_IFSOCK) \<and>
   S_IFMT_of (st_mode (to_public_stat s)) = st_mode (to_public_stat s) \<and>
   iftodt (st_mode (to_public_stat s)) =
     (if wf_filetype s \<in> {FILETYPE_BLOCK_DEVICE, FILETYPE_CHARACTER_DEVICE, FILETYPE_DIRECTORY,
                          FILETYPE_REGULAR_FILE, FILETYPE_SYMBOLIC_LINK} then wf_filetype s
      else if wf_filetype s \<in> {FILETYPE_SOCKET_DGRAM, FILETYPE_SOCKET_STREAM, FILETYPE_SOCKET_SEQPACKET,
                               FILETYPE_SOCKET_RAW} then 255
      else FILETYPE_UNKNOWN)"
  by (simp add: dttoif_def iftodt_def S_IFMT_of_def to_public_stat_def filetype_mode_def)

end
