(* ===== verification/Dirent.thy ===== *)
theory Dirent
  imports Wasi_Theorems "HOL-Library.While_Combinator" "HOL-Library.Monad_Syntax" "HOL-Library.Sublist"
begin

text \<open>
  Directory streams (libc-bottom-half/cloudlibc/src/libc/dirent): opendir's buffer of raw WASI
  entries, readdir, scandirat, seekdir and telldir.

  The buffer is the list of the bytes of the last fd_readdir, as characters.  A result \<open>None\<close> of a
  loop means that it did not end within its fuel, or that the doubling of a buffer size wrapped
  to 0 and never ends.  \<open>stat_at\<close> is the fstatat of the C library.
\<close>

abbreviation DIRENT_DEFAULT_BUFFER_SIZE :: nat where "DIRENT_DEFAULT_BUFFER_SIZE \<equiv> 4096"
abbreviation dirent_header_size :: nat where "dirent_header_size \<equiv> 24"
abbreviation d_name_offset :: nat where "d_name_offset \<equiv> 9"
abbreviation DT_SOCK :: nat where "DT_SOCK \<equiv> 255"

record dirent =
  de_ino :: nat
  de_type :: nat
  de_name :: cstring

record dir =
  dr_fd :: int
  dr_cookie :: nat
  dr_buffer :: "char list"
  dr_processed :: nat
  dr_size :: nat
  dr_used :: nat
  dr_dirent_size :: nat

section \<open>The bytes of an entry\<close>

fun le_value :: "char list \<Rightarrow> nat" where
  "le_value [] = 0"
| "le_value (c # cs) = of_char c + 256 * le_value cs"

record wasi_dirent =
  wd_next :: nat
  wd_ino :: nat
  wd_namlen :: nat
  wd_type :: nat

definition parse_dirent :: "char list \<Rightarrow> wasi_dirent" where
  "parse_dirent b = \<lparr>wd_next = le_value (take 8 b), wd_ino = le_value (take 8 (drop 8 b)),
     wd_namlen = le_value (take 4 (drop 16 b)), wd_type = of_char (b ! 20)\<rparr>"

section \<open>readdir\<close>

type_synonym 'h allocator = "nat \<Rightarrow> 'h \<Rightarrow> bool \<times> 'h"
type_synonym 'h stat_at = "int \<Rightarrow> cstring \<Rightarrow> 32 word \<Rightarrow> ('h, stat) wcall"

text \<open>The doubling loop of GROW.\<close>

definition grow_size :: "nat \<Rightarrow> nat \<Rightarrow> nat option" where
  "grow_size esz target = while_option (\<lambda>n. n < target) (\<lambda>n. szmul n 2) esz"

text \<open>GROW: the new size, unless realloc fails.\<close>

definition grow_buffer :: "'h allocator \<Rightarrow> nat \<Rightarrow> nat \<Rightarrow> 'h \<Rightarrow> (nat option \<times> 'h) option" where
  "grow_buffer alloc esz target h =
     (if esz < target then do {
        n \<leftarrow> grow_size esz target;
        let (ok, h) = alloc n h;
        Some (if ok then Some n else None, h) }
      else Some (Some esz, h))"

datatype readdir_result = Entry dirent | End_of_dir | Failed errno

text \<open>The part of the loop that loads more entries; \<open>None\<close> is the continue.\<close>

definition read_entries :: "'h wasi \<Rightarrow> dir \<Rightarrow> 'h \<Rightarrow> readdir_result option \<times> dir \<times> 'h" where
  "read_entries W d h =
     (let d = d\<lparr>dr_used := dr_size d, dr_processed := dr_size d\<rparr> in
      case w_fd_readdir W (dr_fd d) (dr_size d) (dr_cookie d) h of
        (Inl e, h) \<Rightarrow> (Some (Failed e), d, h)
      | (Inr bytes, h) \<Rightarrow>
          (None, d\<lparr>dr_buffer := bytes, dr_used := length bytes, dr_processed := 0\<rparr>, h))"

definition skip_entry :: "nat \<Rightarrow> dir \<Rightarrow> dir" where
  "skip_entry n d = d\<lparr>dr_processed := szadd (dr_processed d) n\<rparr>"

text \<open>
  One iteration of the loop of readdir.  The switch of the code first stores DT_SOCK for sockets
  in \<open>d_type\<close> of the result, but the assignment at its end replaces that by the type of the entry.
\<close>

definition readdir_step :: "'h allocator \<Rightarrow> 'h stat_at \<Rightarrow> 'h wasi \<Rightarrow> dir \<Rightarrow> 'h \<Rightarrow>
    (readdir_result option \<times> dir \<times> 'h) option" where
  "readdir_step alloc stat_at W d h =
     (let left = szsub (dr_used d) (dr_processed d) in
      if left < dirent_header_size then
        (if dr_used d < dr_size d then Some (Some End_of_dir, d, h) else Some (read_entries W d h))
      else
        let e = parse_dirent (drop (dr_processed d) (dr_buffer d));
            esz = szadd dirent_header_size (wd_namlen e) in
        if wd_namlen e = 0 then Some (None, skip_entry esz d, h)
        else if left < esz then do {
          (r, h) \<leftarrow> grow_buffer alloc (dr_size d) esz h;
          case r of
            None \<Rightarrow> Some (Some (Failed ENOMEM), d, h)
          | Some n \<Rightarrow> Some (read_entries W (d\<lparr>dr_size := n\<rparr>) h) }
        else
          let name = take (wd_namlen e) (drop (dr_processed d + dirent_header_size) (dr_buffer d)) in
          if CHR 0x00 \<in> set name then Some (None, skip_entry esz d, h)
          else do {
            (r, h) \<leftarrow> grow_buffer alloc (dr_dirent_size d) (szadd (szadd d_name_offset (wd_namlen e)) 1) h;
            case r of
              None \<Rightarrow> Some (Some (Failed ENOMEM), d, h)
            | Some n \<Rightarrow>
                (let d = d\<lparr>dr_dirent_size := n\<rparr>;
                     finish = (\<lambda>ino ty h. Some (Some (Entry \<lparr>de_ino = ino, de_type = ty, de_name = name\<rparr>),
                       skip_entry esz (d\<lparr>dr_cookie := wd_next e\<rparr>), h)) in
                 if wd_ino e = 0 \<and> name \<noteq> ''..'' then
                   (case stat_at (dr_fd d) name AT_SYMLINK_NOFOLLOW h of
                      (Inl err, h) \<Rightarrow>
                        if err = ENOENT then Some (None, skip_entry esz d, h)
                        else Some (Some (Failed err), d, h)
                    | (Inr st, h) \<Rightarrow> finish (st_ino st) (iftodt (S_IFMT_of (st_mode st))) h)
                 else finish (wd_ino e) (wd_type e) h) })"

fun readdir :: "nat \<Rightarrow> 'h allocator \<Rightarrow> 'h stat_at \<Rightarrow> 'h wasi \<Rightarrow> dir \<Rightarrow> 'h \<Rightarrow>
    (readdir_result \<times> dir \<times> 'h) option" where
  "readdir 0 alloc stat_at W d h = None"
| "readdir (Suc fuel) alloc stat_at W d h =
     (case readdir_step alloc stat_at W d h of
        None \<Rightarrow> None
      | Some (Some r, d, h) \<Rightarrow> Some (r, d, h)
      | Some (None, d, h) \<Rightarrow> readdir fuel alloc stat_at W d h)"

section \<open>Opening, closing and positioning\<close>

definition fdopendir :: "'h allocator \<Rightarrow> 'h wasi \<Rightarrow> int \<Rightarrow> ('h, dir) wcall" where
  "fdopendir alloc W fd h =
     (case alloc 40 h of
        (False, h) \<Rightarrow> (Inl ENOMEM, h)
      | (True, h) \<Rightarrow>
          (case alloc DIRENT_DEFAULT_BUFFER_SIZE h of
             (False, h) \<Rightarrow> (Inl ENOMEM, h)
           | (True, h) \<Rightarrow>
               (case w_fd_readdir W fd DIRENT_DEFAULT_BUFFER_SIZE 0 h of
                  (Inl e, h) \<Rightarrow> (Inl e, h)
                | (Inr bytes, h) \<Rightarrow>
                    (Inr \<lparr>dr_fd = fd, dr_cookie = 0, dr_buffer = bytes, dr_processed = 0,
                       dr_size = DIRENT_DEFAULT_BUFFER_SIZE, dr_used = length bytes, dr_dirent_size = 1\<rparr>, h))))"

text \<open>When the stream cannot be made the descriptor is closed; an error of that close is what errno keeps.\<close>

definition nocwd_opendirat :: "'h allocator \<Rightarrow> 'h wasi \<Rightarrow> int \<Rightarrow> cstring \<Rightarrow> ('h, dir) wcall" where
  "nocwd_opendirat alloc W fd dirname h =
     (case nocwd_openat_nomode W fd dirname (O_RDONLY OR O_NONBLOCK OR O_DIRECTORY) h of
        (Inl e, h) \<Rightarrow> (Inl e, h)
      | (Inr newfd, h) \<Rightarrow>
          (case fdopendir alloc W newfd h of
             (Inr d, h) \<Rightarrow> (Inr d, h)
           | (Inl e, h) \<Rightarrow>
               (case w_fd_close W newfd h of
                  (Inl e2, h) \<Rightarrow> (Inl e2, h)
                | (Inr _, h) \<Rightarrow> (Inl e, h))))"

definition fdclosedir :: "dir \<Rightarrow> int" where
  "fdclosedir d = dr_fd d"

definition closedir :: "'h wasi \<Rightarrow> dir \<Rightarrow> ('h, unit) wcall" where
  "closedir W d h = close W (fdclosedir d) h"

definition dirfd :: "dir \<Rightarrow> int" where
  "dirfd d = dr_fd d"

definition rewinddir :: "dir \<Rightarrow> dir" where
  "rewinddir d = d\<lparr>dr_cookie := 0, dr_used := dr_size d, dr_processed := dr_size d\<rparr>"

text \<open>A long has 32 bits; the cookie has 64.\<close>

definition seekdir :: "dir \<Rightarrow> int \<Rightarrow> dir" where
  "seekdir d loc = d\<lparr>dr_cookie := nat (loc mod int size_mod), dr_used := dr_size d, dr_processed := dr_size d\<rparr>"

definition telldir :: "dir \<Rightarrow> int" where
  "telldir d = (let n = dr_cookie d mod size_mod in if n < 2147483648 then int n else int n - int size_mod)"

section \<open>scandirat\<close>

record scan_state =
  sc_buffer :: "char list"
  sc_processed :: nat
  sc_used :: nat
  sc_size :: nat
  sc_cookie :: nat
  sc_dirents :: "dirent list"
  sc_capacity :: nat

datatype scan_end = Scan_done | Scan_bad errno | Scan_return errno

definition scan_read :: "'h wasi \<Rightarrow> int \<Rightarrow> scan_state \<Rightarrow> 'h \<Rightarrow> scan_end option \<times> scan_state \<times> 'h" where
  "scan_read W fd s h =
     (case w_fd_readdir W fd (sc_size s) (sc_cookie s) h of
        (Inl e, h) \<Rightarrow> (Some (Scan_bad e), s, h)
      | (Inr bytes, h) \<Rightarrow> (None, s\<lparr>sc_buffer := bytes, sc_used := length bytes, sc_processed := 0\<rparr>, h))"

definition scan_add :: "'h allocator \<Rightarrow> (dirent \<Rightarrow> bool) \<Rightarrow> dirent \<Rightarrow> scan_state \<Rightarrow> 'h \<Rightarrow>
    scan_end option \<times> scan_state \<times> 'h" where
  "scan_add alloc sel de s h =
     (if sel de then
        if length (sc_dirents s) = sc_capacity s then
          (let n = (if sc_capacity s < 8 then 8 else szmul (sc_capacity s) 2); (ok, h) = alloc (szmul n 4) h in
           if ok then (None, s\<lparr>sc_capacity := n, sc_dirents := sc_dirents s @ [de]\<rparr>, h)
           else (Some (Scan_bad ENOMEM), s\<lparr>sc_capacity := n\<rparr>, h))
        else (None, s\<lparr>sc_dirents := sc_dirents s @ [de]\<rparr>, h)
      else (None, s, h))"

definition scan_step :: "'h allocator \<Rightarrow> 'h stat_at \<Rightarrow> 'h wasi \<Rightarrow> int \<Rightarrow> (dirent \<Rightarrow> bool) \<Rightarrow> scan_state \<Rightarrow> 'h \<Rightarrow>
    (scan_end option \<times> scan_state \<times> 'h) option" where
  "scan_step alloc stat_at W fd sel s h =
     (let left = szsub (sc_used s) (sc_processed s) in
      if left < dirent_header_size then
        (if sc_used s < sc_size s then Some (Some Scan_done, s, h) else Some (scan_read W fd s h))
      else
        let e = parse_dirent (drop (sc_processed s) (sc_buffer s));
            esz = szadd dirent_header_size (wd_namlen e) in
        if wd_namlen e = 0 then Some (None, s\<lparr>sc_processed := szadd (sc_processed s) esz\<rparr>, h)
        else if left < esz then do {
          n \<leftarrow> grow_size (sc_size s) esz;
          let (ok, h) = alloc n h;
          Some (if ok then scan_read W fd (s\<lparr>sc_size := n\<rparr>) h
                else (Some (Scan_bad ENOMEM), s\<lparr>sc_size := n\<rparr>, h)) }
        else
          let name = take (wd_namlen e) (drop (sc_processed s + dirent_header_size) (sc_buffer s));
              s = s\<lparr>sc_processed := szadd (sc_processed s) esz\<rparr> in
          if CHR 0x00 \<in> set name then Some (None, s, h)
          else
            let (ok, h) = alloc (szadd (szadd d_name_offset (wd_namlen e)) 1) h in
            if \<not> ok then Some (Some (Scan_bad ENOMEM), s, h)
            else if wd_ino e = 0 then
              (case stat_at fd name AT_SYMLINK_NOFOLLOW h of
                 (Inl err, h) \<Rightarrow> Some (Some (Scan_return err), s, h)
               | (Inr st, h) \<Rightarrow>
                   Some (scan_add alloc sel
                     \<lparr>de_ino = st_ino st, de_type = iftodt (S_IFMT_of (st_mode st)), de_name = name\<rparr>
                     (s\<lparr>sc_cookie := wd_next e\<rparr>) h))
            else Some (scan_add alloc sel \<lparr>de_ino = wd_ino e, de_type = wd_type e, de_name = name\<rparr>
                   (s\<lparr>sc_cookie := wd_next e\<rparr>) h))"

fun scan_loop :: "nat \<Rightarrow> 'h allocator \<Rightarrow> 'h stat_at \<Rightarrow> 'h wasi \<Rightarrow> int \<Rightarrow> (dirent \<Rightarrow> bool) \<Rightarrow> scan_state \<Rightarrow> 'h \<Rightarrow>
    (scan_end \<times> scan_state \<times> 'h) option" where
  "scan_loop 0 alloc stat_at W fd sel s h = None"
| "scan_loop (Suc fuel) alloc stat_at W fd sel s h =
     (case scan_step alloc stat_at W fd sel s h of
        None \<Rightarrow> None
      | Some (Some r, s, h) \<Rightarrow> Some (r, s, h)
      | Some (None, s, h) \<Rightarrow> scan_loop fuel alloc stat_at W fd sel s h)"

text \<open>On a failure the descriptor is closed; errno is that of the close when it fails too.\<close>

definition scan_fail :: "'h wasi \<Rightarrow> int \<Rightarrow> errno \<Rightarrow> ('h, 'a) wcall" where
  "scan_fail W fd e h =
     (case close W fd h of (Inl e2, h) \<Rightarrow> (Inl e2, h) | (Inr _, h) \<Rightarrow> (Inl e, h))"

text \<open>
  The whole function; \<open>sorter\<close> is qsort by the comparison function of the caller, \<open>sel\<close> its
  filter (all entries when it passes NULL).
\<close>

definition nocwd_scandirat :: "nat \<Rightarrow> 'h allocator \<Rightarrow> 'h stat_at \<Rightarrow> 'h wasi \<Rightarrow>
    (dirent list \<Rightarrow> dirent list) \<Rightarrow> int \<Rightarrow> cstring \<Rightarrow> (dirent \<Rightarrow> bool) option \<Rightarrow> 'h \<Rightarrow>
    ((errno + dirent list) \<times> 'h) option" where
  "nocwd_scandirat fuel alloc stat_at W sorter dfd path sel h =
     (let sel = (case sel of None \<Rightarrow> (\<lambda>_. True) | Some f \<Rightarrow> f) in
      case nocwd_openat_nomode W dfd path (O_RDONLY OR O_NONBLOCK OR O_DIRECTORY) h of
        (Inl e, h) \<Rightarrow> Some (Inl e, h)
      | (Inr fd, h) \<Rightarrow>
          (case alloc DIRENT_DEFAULT_BUFFER_SIZE h of
             (False, h) \<Rightarrow> Some (scan_fail W fd ENOMEM h)
           | (True, h) \<Rightarrow> do {
               (r, s, h) \<leftarrow> scan_loop fuel alloc stat_at W fd sel
                 \<lparr>sc_buffer = [], sc_processed = DIRENT_DEFAULT_BUFFER_SIZE, sc_used = DIRENT_DEFAULT_BUFFER_SIZE,
                  sc_size = DIRENT_DEFAULT_BUFFER_SIZE, sc_cookie = 0, sc_dirents = [], sc_capacity = 0\<rparr> h;
               Some (case r of
                  Scan_done \<Rightarrow> (Inr (sorter (sc_dirents s)), snd (close W fd h))
                | Scan_bad e \<Rightarrow> scan_fail W fd e h
                | Scan_return e \<Rightarrow> (Inl e, h)) }))"

section \<open>A directory and its serialisation\<close>

text \<open>
  What fd_readdir documents: the entries from the position of the cookie on, one after the other,
  cut off at the size of the buffer.  The cookies are opaque: \<open>c k\<close> is the one that continues after
  the first \<open>k\<close> entries, any number of 64 bits but for the start, which is 0.
\<close>

fun le_bytes :: "nat \<Rightarrow> nat \<Rightarrow> char list" where
  "le_bytes 0 v = []"
| "le_bytes (Suc n) v = char_of (v mod 256) # le_bytes n (v div 256)"

definition dirent_bytes :: "nat \<Rightarrow> dirent \<Rightarrow> char list" where
  "dirent_bytes next e = le_bytes 8 next @ le_bytes 8 (de_ino e) @ le_bytes 4 (length (de_name e)) @
     [char_of (de_type e)] @ replicate 3 (CHR 0x00) @ de_name e"

fun dir_bytes :: "(nat \<Rightarrow> nat) \<Rightarrow> nat \<Rightarrow> dirent list \<Rightarrow> char list" where
  "dir_bytes c k [] = []"
| "dir_bytes c k (e # es) = dirent_bytes (c (Suc k)) e @ dir_bytes c (Suc k) es"

definition dir_host :: "'h wasi \<Rightarrow> int \<Rightarrow> (nat \<Rightarrow> nat) \<Rightarrow> dirent list \<Rightarrow> bool" where
  "dir_host W fd c es \<longleftrightarrow> c 0 = 0 \<and> (\<forall>k \<le> length es. c k < 256 ^ 8) \<and>
     (\<forall>n k h. k \<le> length es \<longrightarrow> w_fd_readdir W fd n (c k) h = (Inr (take n (dir_bytes c k (drop k es))), h))"

text \<open>
  The entries: names that are not empty, have no NUL and fewer than 2^30 - 24 bytes.  Twice that, and
  the doubling of the buffer size can wrap to 0 and go on for ever.
\<close>

definition dirent_ok :: "dirent \<Rightarrow> bool" where
  "dirent_ok e \<longleftrightarrow> de_ino e < 256 ^ 8 \<and> de_type e < 256 \<and> de_name e \<noteq> [] \<and>
     CHR 0x00 \<notin> set (de_name e) \<and> length (de_name e) < 1073741800"

text \<open>
  The result of readdir for an entry: inode number 0 means that it is not known, and then it and the
  type are those of fstatat, whose answer for a name is \<open>stat\<close>.  No entry disappears in between.
\<close>

definition listed :: "(cstring \<Rightarrow> errno + stat) \<Rightarrow> dirent \<Rightarrow> errno + dirent" where
  "listed stat e =
     (if de_ino e = 0 \<and> de_name e \<noteq> ''..'' then
        (case stat (de_name e) of Inl err \<Rightarrow> Inl err
         | Inr st \<Rightarrow> Inr \<lparr>de_ino = st_ino st, de_type = iftodt (S_IFMT_of (st_mode st)), de_name = de_name e\<rparr>)
      else Inr e)"

definition stat_host :: "'h stat_at \<Rightarrow> int \<Rightarrow> (cstring \<Rightarrow> errno + stat) \<Rightarrow> bool" where
  "stat_host stat_at fd stat \<longleftrightarrow>
     (\<forall>name h. fst (stat_at fd name AT_SYMLINK_NOFOLLOW h) = stat name \<and> stat name \<noteq> Inl ENOENT)"

definition refuses :: "'h allocator \<Rightarrow> bool" where
  "refuses alloc \<longleftrightarrow> (\<exists>n h. \<not> fst (alloc n h))"

lemma length_le_bytes [simp]: "length (le_bytes n v) = n"
  by (induction n arbitrary: v) auto

lemma le_value_bytes: "v < 256 ^ n \<Longrightarrow> le_value (le_bytes n v) = v"
proof (induction n arbitrary: v)
  case (Suc n)
  then have "v div 256 < 256 ^ n" by (simp add: less_mult_imp_div_less mult.commute)
  then have "le_value (le_bytes n (v div 256)) = v div 256" by (rule Suc.IH)
  moreover have "of_char (char_of (v mod 256) :: char) = v mod 256" by simp
  ultimately show ?case by (simp add: mult.commute)
qed simp

lemma dirent_bytes_length: "length (dirent_bytes n e) = dirent_header_size + length (de_name e)"
  by (simp add: dirent_bytes_def)

lemma parse_dirent_fields:
  assumes "de_ino e < 256 ^ 8" "de_type e < 256" "length (de_name e) < 256 ^ 4" "n < 256 ^ 8" "prefix (take dirent_header_size (dirent_bytes n e)) b"
  shows "parse_dirent b = \<lparr>wd_next = n, wd_ino = de_ino e, wd_namlen = length (de_name e), wd_type = de_type e\<rparr>"
proof -
  let ?a = "le_bytes 8 n" and ?b = "le_bytes 8 (de_ino e)" and ?c = "le_bytes 4 (length (de_name e))"
    and ?d = "char_of (de_type e) :: char"
  have "take dirent_header_size (dirent_bytes n e) = ?a @ ?b @ ?c @ [?d] @ replicate 3 (CHR 0x00)"
    by (simp add: dirent_bytes_def)
  then obtain rest where b: "b = ?a @ ?b @ ?c @ ?d # replicate 3 (CHR 0x00) @ rest"
    using assms(5) by (auto simp: prefix_def)
  have l: "length (?a @ ?b @ ?c) = 20" by simp
  have "b ! 20 = ?d"
    unfolding b using nth_append_length [of "?a @ ?b @ ?c" ?d] l by simp
  moreover have "take 8 b = ?a" "take 8 (drop 8 b) = ?b" "take 4 (drop 16 b) = ?c"
    unfolding b by (simp_all add: numeral_eq_Suc del: le_bytes.simps)
  ultimately show ?thesis
    using assms(1-4) by (simp add: parse_dirent_def le_value_bytes)
qed

lemma parse_dirent_bytes:
  assumes "dirent_ok e" "n < 256 ^ 8" "prefix (take dirent_header_size (dirent_bytes n e)) b"
  shows "parse_dirent b = \<lparr>wd_next = n, wd_ino = de_ino e, wd_namlen = length (de_name e), wd_type = de_type e\<rparr>"
  by (rule parse_dirent_fields [OF _ _ _ assms(2,3)]) (use assms(1) in \<open>simp_all add: dirent_ok_def\<close>)

section \<open>Growing a buffer\<close>

lemma grow_size_returns:
  assumes "0 < n" "target \<le> 1073741824"
  shows "\<exists>m. grow_size n target = Some m \<and> target \<le> m \<and> n \<le> m \<and> m \<le> max n (2 * target)"
  using assms(1)
proof (induction "target - n" arbitrary: n rule: less_induct)
  case less
  show ?case
  proof (cases "n < target")
    case False
    then show ?thesis by (simp add: grow_size_def while_option_unfold)
  next
    case True
    then have d: "szmul n 2 = 2 * n" using assms(2) by (simp add: size_simps mult.commute)
    have g: "grow_size n target = grow_size (2 * n) target"
      using True unfolding grow_size_def by (subst while_option_unfold) (simp add: d)
    show ?thesis
    proof (cases "2 * n < target")
      case True
      then obtain m where "grow_size (2 * n) target = Some m" "target \<le> m" "2 * n \<le> m" "m \<le> max (2 * n) (2 * target)"
        using less.hyps [of "2 * n"] less.prems by fastforce
      then show ?thesis using g True by (intro exI [of _ m]) auto
    next
      case False
      then have "grow_size (2 * n) target = Some (2 * n)" by (simp add: grow_size_def while_option_unfold)
      then show ?thesis using g False \<open>n < target\<close> by (intro exI [of _ "2 * n"]) simp
    qed
  qed
qed

lemma grow_buffer_cases:
  assumes "0 < n" "target \<le> 1073741824" "n \<le> 2147483648"
  obtains (enough) m h' where "grow_buffer alloc n target h = Some (Some m, h')" "target \<le> m" "n \<le> m" "m \<le> 2147483648"
    | (refused) h' where "grow_buffer alloc n target h = Some (None, h')" "refuses alloc"
proof (cases "n < target")
  case False
  then show thesis using assms by (intro enough [of n h]) (simp_all add: grow_buffer_def)
next
  case True
  then obtain m where m: "grow_size n target = Some m" "target \<le> m" "n \<le> m" "m \<le> max n (2 * target)"
    using grow_size_returns [of n target] assms by auto
  obtain ok h' where a: "alloc m h = (ok, h')" by (cases "alloc m h")
  show thesis
  proof (cases ok)
    case True
    then show thesis using m a assms \<open>n < target\<close> by (intro enough [of m h']) (simp_all add: grow_buffer_def)
  next
    case False
    have "\<not> fst (alloc m h)" using a False by simp
    then have "refuses alloc" unfolding refuses_def by blast
    then show thesis using m a False \<open>n < target\<close> by (intro refused [of h']) (simp_all add: grow_buffer_def)
  qed
qed

section \<open>A stream at a position\<close>

text \<open>
  The invariant of a stream that has delivered the first \<open>k\<close> entries: the unprocessed part of the
  buffer is a prefix of the serialised rest of the directory, and all of it when the last read
  did not fill the buffer.
\<close>

definition dir_rem :: "dir \<Rightarrow> char list" where
  "dir_rem d = drop (dr_processed d) (dr_buffer d)"

definition dir_at :: "int \<Rightarrow> (nat \<Rightarrow> nat) \<Rightarrow> dirent list \<Rightarrow> nat \<Rightarrow> dir \<Rightarrow> bool" where
  "dir_at fd c es k d \<longleftrightarrow> k \<le> length es \<and> dr_fd d = fd \<and> dr_cookie d = c k \<and>
     4096 \<le> dr_size d \<and> dr_size d \<le> 2147483648 \<and> 0 < dr_dirent_size d \<and> dr_dirent_size d \<le> 2147483648 \<and>
     dr_processed d \<le> dr_used d \<and> dr_used d \<le> dr_size d \<and> length (dr_buffer d) \<le> dr_size d \<and>
     length (dir_rem d) = dr_used d - dr_processed d \<and>
     (if dr_used d < dr_size d then dir_rem d = dir_bytes c k (drop k es)
      else prefix (dir_rem d) (dir_bytes c k (drop k es)))"

lemma dir_at_dirent_size:
  "dir_at fd c es k d \<Longrightarrow> 0 < m \<Longrightarrow> m \<le> 2147483648 \<Longrightarrow> dir_at fd c es k (d\<lparr>dr_dirent_size := m\<rparr>)"
proof -
  have "dir_rem (d\<lparr>dr_dirent_size := m\<rparr>) = dir_rem d" by (simp add: dir_rem_def)
  then show "dir_at fd c es k d \<Longrightarrow> 0 < m \<Longrightarrow> m \<le> 2147483648 \<Longrightarrow> dir_at fd c es k (d\<lparr>dr_dirent_size := m\<rparr>)"
    by (simp add: dir_at_def)
qed

lemma dir_at_left:
  assumes "dir_at fd c es k d"
  shows "szsub (dr_used d) (dr_processed d) = length (dir_rem d)"
  using assms by (simp add: dir_at_def size_simps)

lemma read_entries_at:
  assumes at: "dir_at fd c es k d" and host: "dir_host W fd c es" and n: "dr_size d \<le> n" "n \<le> 2147483648"
  shows "\<exists>d'. read_entries W (d\<lparr>dr_size := n\<rparr>) h = (None, d', h) \<and> dir_at fd c es k d' \<and>
    dr_size d' = n \<and> dir_rem d' = take n (dir_bytes c k (drop k es))"
proof -
  let ?b = "take n (dir_bytes c k (drop k es))"
  let ?d = "d\<lparr>dr_size := n, dr_processed := 0, dr_used := length ?b, dr_buffer := ?b\<rparr>"
  have k: "k \<le> length es" "dr_fd d = fd" "dr_cookie d = c k" using at by (simp_all add: dir_at_def)
  have "w_fd_readdir W fd n (c k) h = (Inr ?b, h)" using host k(1) by (simp add: dir_host_def)
  then have "read_entries W (d\<lparr>dr_size := n\<rparr>) h = (None, ?d, h)"
    using k by (simp add: read_entries_def Let_def)
  moreover have "prefix ?b (dir_bytes c k (drop k es))" by (rule take_is_prefix)
  then have "dir_at fd c es k ?d"
    using at n by (auto simp: dir_at_def dir_rem_def min_def)
  ultimately show ?thesis by (intro exI [of _ ?d]) (simp add: dir_rem_def)
qed

lemma dir_bytes_next:
  assumes "k < length es"
  shows "dir_bytes c k (drop k es) = dirent_bytes (c (Suc k)) (es ! k) @ dir_bytes c (Suc k) (drop (Suc k) es)"
  using assms by (simp add: Cons_nth_drop_Suc [symmetric])

text \<open>The entry at the front of the unprocessed part: its header, its name, and what follows.\<close>

lemma entry_here:
  assumes at: "dir_at fd c es k d" and host: "dir_host W fd c es" and k: "k < length es" and ok: "dirent_ok (es ! k)"
    and here: "dirent_header_size + length (de_name (es ! k)) \<le> length (dir_rem d)"
  shows "parse_dirent (dir_rem d) = \<lparr>wd_next = c (Suc k), wd_ino = de_ino (es ! k),
      wd_namlen = length (de_name (es ! k)), wd_type = de_type (es ! k)\<rparr>"
    "take (length (de_name (es ! k))) (drop (dr_processed d + dirent_header_size) (dr_buffer d)) = de_name (es ! k)"
    "dir_at fd c es (Suc k) (skip_entry (dirent_header_size + length (de_name (es ! k))) (d\<lparr>dr_cookie := c (Suc k)\<rparr>))"
proof -
  let ?e = "es ! k" and ?L = "dirent_header_size + length (de_name (es ! k))"
  let ?B = "dirent_bytes (c (Suc k)) ?e" and ?R = "dir_bytes c (Suc k) (drop (Suc k) es)"
  have pre: "prefix (dir_rem d) (?B @ ?R)"
    using at dir_bytes_next [OF k] by (auto simp: dir_at_def split: if_splits)
  have lB: "length ?B = ?L" by (rule dirent_bytes_length)
  define r where "r = take (length (dir_rem d) - length ?B) ?R"
  have "dir_rem d = take (length (dir_rem d)) (?B @ ?R)" using pre by (metis append_eq_conv_conj prefixE)
  also have "\<dots> = ?B @ r" using here lB by (simp add: r_def)
  finally have rem: "dir_rem d = ?B @ r" "prefix r ?R" by (simp_all add: r_def take_is_prefix)
  have "prefix (take dirent_header_size ?B) ?B" by (rule take_is_prefix)
  then have p: "prefix (take dirent_header_size ?B) (dir_rem d)" unfolding rem(1) by (rule prefix_prefix)
  have "c (Suc k) < 256 ^ 8" using host k by (simp add: dir_host_def)
  from parse_dirent_bytes [OF ok this p]
  show "parse_dirent (dir_rem d) = \<lparr>wd_next = c (Suc k), wd_ino = de_ino (es ! k),
      wd_namlen = length (de_name (es ! k)), wd_type = de_type (es ! k)\<rparr>" .
  have "drop (dr_processed d + dirent_header_size) (dr_buffer d) = drop dirent_header_size (dir_rem d)"
    by (simp add: dir_rem_def add.commute)
  also have "\<dots> = de_name ?e @ r" unfolding rem(1) by (simp add: dirent_bytes_def)
  finally show "take (length (de_name ?e)) (drop (dr_processed d + dirent_header_size) (dr_buffer d)) = de_name ?e" by simp
  let ?d = "skip_entry ?L (d\<lparr>dr_cookie := c (Suc k)\<rparr>)"
  have len: "length (dir_rem d) = dr_used d - dr_processed d" using at by (simp add: dir_at_def)
  have "dr_processed d \<le> dr_used d" "dr_used d \<le> dr_size d" "dr_size d \<le> 2147483648"
    using at by (simp_all add: dir_at_def)
  then have "dr_processed d + ?L < size_mod" using here len by linarith
  then have p: "szadd (dr_processed d) ?L = dr_processed d + ?L" by (rule szadd_small)
  have rem': "dir_rem ?d = r"
  proof -
    have "drop (dr_processed d + ?L) (dr_buffer d) = drop ?L (drop (dr_processed d) (dr_buffer d))"
      by (simp only: drop_drop add.commute)
    moreover have "dr_processed ?d = dr_processed d + ?L" "dr_buffer ?d = dr_buffer d"
      using p by (simp_all add: skip_entry_def)
    ultimately have "dir_rem ?d = drop ?L (dir_rem d)" by (simp only: dir_rem_def)
    then show ?thesis unfolding rem(1) using lB by simp
  qed
  have "dr_used d < dr_size d \<Longrightarrow> r = ?R"
    using at rem(1) dir_bytes_next [OF k] by (simp add: dir_at_def)
  moreover have "length r = dr_used d - (dr_processed d + ?L)" using len rem(1) lB by simp
  ultimately show "dir_at fd c es (Suc k) ?d"
    using at k here len rem' rem(2) by (simp add: dir_at_def skip_entry_def p)
qed

text \<open>What a call of readdir delivers at a position.\<close>

definition delivers :: "'h allocator \<Rightarrow> (cstring \<Rightarrow> errno + stat) \<Rightarrow> int \<Rightarrow> (nat \<Rightarrow> nat) \<Rightarrow> dirent list \<Rightarrow> nat \<Rightarrow>
    readdir_result \<Rightarrow> dir \<Rightarrow> bool" where
  "delivers alloc stat fd c es k r d \<longleftrightarrow>
     (case r of Entry x \<Rightarrow> listed stat (es ! k) = Inr x \<and> dir_at fd c es (Suc k) d
      | Failed e \<Rightarrow> e = ENOMEM \<and> refuses alloc \<or> listed stat (es ! k) = Inl e
      | End_of_dir \<Rightarrow> False)"

lemma readdir_entry_here:
  assumes at: "dir_at fd c es k d" and host: "dir_host W fd c es" and st: "stat_host stat_at fd stat"
    and k: "k < length es" and ok: "dirent_ok (es ! k)"
    and here: "dirent_header_size + length (de_name (es ! k)) \<le> length (dir_rem d)"
  shows "\<exists>r d' h'. readdir_step alloc stat_at W d h = Some (Some r, d', h') \<and> delivers alloc stat fd c es k r d'"
proof -
  let ?e = "es ! k" and ?L = "dirent_header_size + length (de_name (es ! k))"
  have name: "length (de_name ?e) < 1073741800" "de_name ?e \<noteq> []" "CHR 0x00 \<notin> set (de_name ?e)"
    using ok by (simp_all add: dirent_ok_def)
  note eh = entry_here [OF at host k ok here]
  have z: "szadd dirent_header_size (length (de_name ?e)) = ?L"
    "szadd (szadd d_name_offset (length (de_name ?e))) 1 = 10 + length (de_name ?e)"
    using name(1) by (simp_all add: size_simps)
  have left: "szsub (dr_used d) (dr_processed d) = length (dir_rem d)" by (rule dir_at_left [OF at])
  have g: "0 < dr_dirent_size d" "10 + length (de_name ?e) \<le> 1073741824" "dr_dirent_size d \<le> 2147483648"
    using at name(1) by (simp_all add: dir_at_def)
  from g show ?thesis
  proof (cases rule: grow_buffer_cases [where alloc = alloc and h = h])
    case (refused h')
    then have "readdir_step alloc stat_at W d h = Some (Some (Failed ENOMEM), d, h')"
      using here name left by (simp add: readdir_step_def eh(1) [unfolded dir_rem_def] eh(2) z Let_def del: One_nat_def)
    then show ?thesis using refused(2) by (auto simp: delivers_def)
  next
    case (enough m h')
    have "skip_entry ?L (d\<lparr>dr_dirent_size := m, dr_cookie := c (Suc k)\<rparr>) =
        (skip_entry ?L (d\<lparr>dr_cookie := c (Suc k)\<rparr>))\<lparr>dr_dirent_size := m\<rparr>"
      by (simp add: skip_entry_def)
    then have d': "dir_at fd c es (Suc k) (skip_entry ?L (d\<lparr>dr_dirent_size := m, dr_cookie := c (Suc k)\<rparr>))"
      using dir_at_dirent_size [OF eh(3), of m] enough(2,4) by simp
    obtain sr h2 where s: "stat_at fd (de_name ?e) AT_SYMLINK_NOFOLLOW h' = (sr, h2)"
      by (cases "stat_at fd (de_name ?e) AT_SYMLINK_NOFOLLOW h'")
    have sr: "sr = stat (de_name ?e)" "sr \<noteq> Inl ENOENT"
      using st s unfolding stat_host_def by (metis fst_conv)+
    have fd: "dr_fd d = fd" using at by (simp add: dir_at_def)
    show ?thesis
      using here name left enough(1) d' s [unfolded sr(1)] sr(2) [unfolded sr(1)] fd
      by (cases "stat (de_name ?e)")
        (auto simp: readdir_step_def eh(1) [unfolded dir_rem_def] eh(2) z Let_def delivers_def listed_def simp del: One_nat_def)
  qed
qed

lemma readdir_reload:
  assumes at: "dir_at fd c es k d" and host: "dir_host W fd c es"
    and k: "k < length es" and ok: "dirent_ok (es ! k)"
    and short: "length (dir_rem d) < dirent_header_size + length (de_name (es ! k))"
  shows "(\<exists>d' h'. readdir_step alloc stat_at W d h = Some (Some (Failed ENOMEM), d', h') \<and> refuses alloc) \<or>
    (\<exists>d' h'. readdir_step alloc stat_at W d h = Some (None, d', h') \<and> dir_at fd c es k d' \<and>
      dirent_header_size \<le> length (dir_rem d') \<and>
      (dirent_header_size \<le> length (dir_rem d) \<longrightarrow>
         dirent_header_size + length (de_name (es ! k)) \<le> length (dir_rem d')))"
proof -
  let ?e = "es ! k" and ?L = "dirent_header_size + length (de_name (es ! k))"
  let ?all = "dir_bytes c k (drop k es)"
  have name: "length (de_name ?e) < 1073741800" "de_name ?e \<noteq> []" using ok by (simp_all add: dirent_ok_def)
  have all: "?L \<le> length ?all" unfolding dir_bytes_next [OF k] by (simp add: dirent_bytes_length)
  have left: "szsub (dr_used d) (dr_processed d) = length (dir_rem d)" by (rule dir_at_left [OF at])
  have full: "\<not> dr_used d < dr_size d" "prefix (dir_rem d) ?all"
    using at short all by (auto simp: dir_at_def split: if_splits)
  have sz: "4096 \<le> dr_size d" "dr_size d \<le> 2147483648" using at by (simp_all add: dir_at_def)
  show ?thesis
  proof (cases "length (dir_rem d) < dirent_header_size")
    case True
    obtain d' where d': "read_entries W (d\<lparr>dr_size := dr_size d\<rparr>) h = (None, d', h)" "dir_at fd c es k d'"
      "dir_rem d' = take (dr_size d) ?all"
      using read_entries_at [OF at host, of "dr_size d" h] sz by auto
    have "readdir_step alloc stat_at W d h = Some (None, d', h)"
      using True left full(1) d'(1) by (simp add: readdir_step_def Let_def)
    moreover have "dirent_header_size \<le> length (dir_rem d')" using d'(3) all sz by simp
    ultimately show ?thesis using d'(2) True by (intro disjI2 exI [of _ d'] exI [of _ h]) simp
  next
    case False
    have "prefix (take dirent_header_size (dirent_bytes (c (Suc k)) ?e)) (dir_rem d)"
    proof -
      obtain t where "?all = dir_rem d @ t" using full(2) by (auto simp: prefix_def)
      then have "take dirent_header_size (dir_rem d) = take dirent_header_size ?all" using False by simp
      also have "\<dots> = take dirent_header_size (dirent_bytes (c (Suc k)) ?e)"
        unfolding dir_bytes_next [OF k] by (simp add: dirent_bytes_length)
      finally show ?thesis by (metis take_is_prefix)
    qed
    moreover have "c (Suc k) < 256 ^ 8" using host k by (simp add: dir_host_def)
    ultimately have parse: "parse_dirent (dir_rem d) = \<lparr>wd_next = c (Suc k), wd_ino = de_ino ?e,
        wd_namlen = length (de_name ?e), wd_type = de_type ?e\<rparr>"
      using parse_dirent_bytes [OF ok] by blast
    have z: "szadd dirent_header_size (length (de_name ?e)) = ?L" using name(1) by (simp add: size_simps)
    have "0 < dr_size d" "?L \<le> 1073741824" using sz(1) name(1) by simp_all
    then show ?thesis using sz(2)
    proof (cases rule: grow_buffer_cases [where alloc = alloc and h = h])
      case (refused h')
      then have "readdir_step alloc stat_at W d h = Some (Some (Failed ENOMEM), d, h')"
        using False left short name(2) by (simp add: readdir_step_def parse [unfolded dir_rem_def] z Let_def)
      then show ?thesis using refused(2) by blast
    next
      case (enough n h')
      obtain d' where d': "read_entries W (d\<lparr>dr_size := n\<rparr>) h' = (None, d', h')" "dir_at fd c es k d'"
        "dir_rem d' = take n ?all"
        using read_entries_at [OF at host enough(3,4), of h'] by auto
      have "readdir_step alloc stat_at W d h = Some (None, d', h')"
        using False left short name(2) d'(1)
        by (simp add: readdir_step_def parse [unfolded dir_rem_def] z enough(1) Let_def)
      moreover have "?L \<le> length (dir_rem d')" using d'(3) all enough(2) by simp
      ultimately show ?thesis using d'(2) by (intro disjI2 exI [of _ d'] exI [of _ h']) simp
    qed
  qed
qed

lemma readdir_next:
  assumes "dir_at fd c es k d" "dir_host W fd c es" "stat_host stat_at fd stat"
    "k < length es" "dirent_ok (es ! k)" "3 \<le> fuel"
  shows "\<exists>r d' h'. readdir fuel alloc stat_at W d h = Some (r, d', h') \<and> delivers alloc stat fd c es k r d'"
proof -
  let ?L = "dirent_header_size + length (de_name (es ! k))"
  let ?goal = "\<lambda>n d1 h. \<exists>r d' h'. readdir n alloc stat_at W d1 h = Some (r, d', h') \<and> delivers alloc stat fd c es k r d'"
  obtain f where f: "fuel = Suc (Suc (Suc f))" using assms(6) by (metis Suc_le_D numeral_3_eq_3 Suc_le_mono)
  note here = readdir_entry_here [OF _ assms(2-5)] and reload = readdir_reload [OF _ assms(2,4,5)]
  have fail: "?goal (Suc n) d1 h1" if "readdir_step alloc stat_at W d1 h1 = Some (Some (Failed ENOMEM), d', h')" "refuses alloc"
    for n d1 h1 d' h' using that by (simp add: delivers_def)
  have one: "?goal (Suc n) d1 h1" if "dir_at fd c es k d1" "?L \<le> length (dir_rem d1)" for d1 n h1
    using here [OF that, of alloc h1] by (elim exE conjE) simp
  have two: "?goal (Suc (Suc n)) d1 h1" if at: "dir_at fd c es k d1" and l: "dirent_header_size \<le> length (dir_rem d1)" for d1 n h1
  proof (cases "?L \<le> length (dir_rem d1)")
    case True
    then show ?thesis using one [OF at] by blast
  next
    case False
    then have s: "length (dir_rem d1) < ?L" by simp
    from reload [OF at s, of alloc stat_at h1] show ?thesis
    proof (elim disjE exE conjE)
      fix d' h' assume "readdir_step alloc stat_at W d1 h1 = Some (Some (Failed ENOMEM), d', h')" "refuses alloc"
      then show ?thesis by (rule fail)
    next
      fix d2 h2 assume "readdir_step alloc stat_at W d1 h1 = Some (None, d2, h2)" "dir_at fd c es k d2"
        "dirent_header_size \<le> length (dir_rem d1) \<longrightarrow> ?L \<le> length (dir_rem d2)"
      then show ?thesis using one [of d2 n h2] l by simp
    qed
  qed
  show ?thesis
  proof (cases "?L \<le> length (dir_rem d)")
    case True
    then show ?thesis using one [OF assms(1)] f by blast
  next
    case False
    then have s: "length (dir_rem d) < ?L" by simp
    from reload [OF assms(1) s, of alloc stat_at h] show ?thesis unfolding f
    proof (elim disjE exE conjE)
      fix d' h' assume "readdir_step alloc stat_at W d h = Some (Some (Failed ENOMEM), d', h')" "refuses alloc"
      then show "?goal (Suc (Suc (Suc f))) d h" by (rule fail)
    next
      fix d2 h2 assume "readdir_step alloc stat_at W d h = Some (None, d2, h2)" "dir_at fd c es k d2"
        "dirent_header_size \<le> length (dir_rem d2)"
      then show "?goal (Suc (Suc (Suc f))) d h" using two [of d2 f h2] by simp
    qed
  qed
qed

lemma readdir_end:
  assumes at: "dir_at fd c es (length es) d" and host: "dir_host W fd c es" and fuel: "2 \<le> fuel"
  shows "\<exists>d'. readdir fuel alloc stat_at W d h = Some (End_of_dir, d', h) \<and> dir_at fd c es (length es) d'"
proof -
  obtain f where f: "fuel = Suc (Suc f)" using fuel by (metis Suc_le_D numeral_2_eq_2 Suc_le_mono)
  have fin: "readdir_step alloc stat_at W d1 h = Some (Some End_of_dir, d1, h)"
    if "dir_at fd c es (length es) d1" "dr_used d1 < dr_size d1" for d1
  proof -
    have "dir_rem d1 = []" using that by (simp add: dir_at_def)
    then have "szsub (dr_used d1) (dr_processed d1) = 0" using dir_at_left [OF that(1)] by simp
    then show ?thesis using that(2) by (simp add: readdir_step_def Let_def)
  qed
  show ?thesis
  proof (cases "dr_used d < dr_size d")
    case True
    then show ?thesis using fin [OF at] at f by simp
  next
    case False
    then have "dir_rem d = []" using at by (simp add: dir_at_def)
    then have l: "szsub (dr_used d) (dr_processed d) = 0" using dir_at_left [OF at] by simp
    have sz: "4096 \<le> dr_size d" "dr_size d \<le> 2147483648" using at by (simp_all add: dir_at_def)
    obtain d' where d': "read_entries W (d\<lparr>dr_size := dr_size d\<rparr>) h = (None, d', h)" "dir_at fd c es (length es) d'"
      "dr_size d' = dr_size d" "dir_rem d' = []"
      using read_entries_at [OF at host, of "dr_size d" h] sz by auto
    have "readdir_step alloc stat_at W d h = Some (None, d', h)"
      using l False d'(1) by (simp add: readdir_step_def Let_def)
    moreover have "dr_used d' < dr_size d'"
    proof (rule ccontr)
      assume "\<not> dr_used d' < dr_size d'"
      moreover have "dr_used d' = dr_processed d'" using d'(2,4) by (simp add: dir_at_def)
      moreover have "dr_processed d' = 0" using d'(1) by (auto simp: read_entries_def Let_def split: prod.splits sum.splits)
      ultimately show False using sz d'(3) by simp
    qed
    ultimately show ?thesis using fin [OF d'(2)] d'(2) f by simp
  qed
qed

end
