(* ===== verification/Dirent_Theorems.thy ===== *)
theory Dirent_Theorems
  imports Dirent
begin

text \<open>
  The theorems about directory streams: readdir lists the directory, seekdir and telldir, the
  type of sockets, and the descriptor that scandirat loses.
\<close>

text \<open>Calling readdir until it returns NULL: the entries, and why it ended.\<close>

fun read_all :: "nat \<Rightarrow> nat \<Rightarrow> 'h allocator \<Rightarrow> 'h stat_at \<Rightarrow> 'h wasi \<Rightarrow> dir \<Rightarrow> 'h \<Rightarrow>
    (dirent list \<times> readdir_result) option" where
  "read_all 0 fuel alloc stat_at W d h = None"
| "read_all (Suc n) fuel alloc stat_at W d h =
     (case readdir fuel alloc stat_at W d h of
        None \<Rightarrow> None
      | Some (Entry e, d, h) \<Rightarrow> map_option (apfst ((#) e)) (read_all n fuel alloc stat_at W d h)
      | Some (r, d, h) \<Rightarrow> Some ([], r))"

text \<open>The listing of the entries from the \<open>k\<close>-th on, up to the end or the first failure.\<close>

definition lists_from :: "'h allocator \<Rightarrow> (cstring \<Rightarrow> errno + stat) \<Rightarrow> dirent list \<Rightarrow> dirent list \<times> readdir_result \<Rightarrow> bool" where
  "lists_from alloc stat es res \<longleftrightarrow> (case res of (xs, r) \<Rightarrow>
     (r = End_of_dir \<and> map Inr xs = map (listed stat) es) \<or>
     (\<exists>k e. r = Failed e \<and> k < length es \<and> map Inr xs = map (listed stat) (take k es) \<and>
        (e = ENOMEM \<and> refuses alloc \<or> listed stat (es ! k) = Inl e)))"

lemma lists_from_Cons:
  assumes "listed stat e = Inr x" "lists_from alloc stat es (xs, r)"
  shows "lists_from alloc stat (e # es) (x # xs, r)"
proof -
  from assms(2) consider "r = End_of_dir" "map Inr xs = map (listed stat) es"
    | k err where "r = Failed err" "k < length es" "map Inr xs = map (listed stat) (take k es)"
        "err = ENOMEM \<and> refuses alloc \<or> listed stat (es ! k) = Inl err"
    by (auto simp: lists_from_def)
  then show ?thesis
  proof cases
    case 1
    then show ?thesis using assms(1) by (simp add: lists_from_def)
  next
    case (2 k err)
    then have "Suc k < length (e # es)" "map Inr (x # xs) = map (listed stat) (take (Suc k) (e # es))"
      "err = ENOMEM \<and> refuses alloc \<or> listed stat ((e # es) ! Suc k) = Inl err"
      using assms(1) by simp_all
    then show ?thesis using 2(1) unfolding lists_from_def prod.case by blast
  qed
qed

lemma read_all_from:
  assumes "dir_host W fd c es" "stat_host stat_at fd stat" "\<forall>e \<in> set es. dirent_ok e" "3 \<le> fuel"
    "dir_at fd c es k d" "length es - k < n"
  shows "\<exists>res. read_all n fuel alloc stat_at W d h = Some res \<and> lists_from alloc stat (drop k es) res"
  using assms(5,6)
proof (induction n arbitrary: k d h)
  case 0
  then show ?case by simp
next
  case (Suc n)
  have k: "k \<le> length es" using Suc.prems(1) by (simp add: dir_at_def)
  show ?case
  proof (cases "k < length es")
    case False
    then have e: "k = length es" using k by simp
    have "2 \<le> fuel" using assms(4) by simp
    then show ?thesis
      using readdir_end [OF Suc.prems(1) [unfolded e] assms(1), of fuel alloc stat_at h] e
      by (auto simp: lists_from_def)
  next
    case True
    have ok: "dirent_ok (es ! k)" using assms(3) True by simp
    obtain r d' h' where r: "readdir fuel alloc stat_at W d h = Some (r, d', h')" "delivers alloc stat fd c es k r d'"
      using readdir_next [OF Suc.prems(1) assms(1,2) True ok assms(4)] by blast
    have dk: "drop k es = es ! k # drop (Suc k) es" using True by (simp add: Cons_nth_drop_Suc)
    show ?thesis
    proof (cases r)
      case (Entry x)
      then have x: "listed stat (es ! k) = Inr x" "dir_at fd c es (Suc k) d'" using r(2) by (simp_all add: delivers_def)
      have m: "length es - Suc k < n" using Suc.prems(2) True by linarith
      obtain xs q where "read_all n fuel alloc stat_at W d' h' = Some (xs, q)" "lists_from alloc stat (drop (Suc k) es) (xs, q)"
        using Suc.IH [OF x(2) m, of h'] by auto
      then show ?thesis using r(1) Entry lists_from_Cons [OF x(1)] dk by auto
    next
      case End_of_dir
      then show ?thesis using r(2) by (simp add: delivers_def)
    next
      case (Failed err)
      then have "lists_from alloc stat (drop k es) ([], r)"
        using r(2) True dk by (auto simp: lists_from_def delivers_def intro!: exI [of _ 0])
      then show ?thesis using r(1) Failed by simp
    qed
  qed
qed

lemma fdopendir_at:
  assumes "dir_host W fd c es"
  shows "\<exists>r h'. fdopendir alloc W fd h = (r, h') \<and>
    (case r of Inl e \<Rightarrow> e = ENOMEM \<and> refuses alloc | Inr d \<Rightarrow> dir_at fd c es 0 d)"
proof -
  obtain a1 h1 where 1: "alloc 40 h = (a1, h1)" by (cases "alloc 40 h")
  obtain a2 h2 where 2: "alloc 4096 h1 = (a2, h2)" by (cases "alloc 4096 h1")
  have no: "refuses alloc" if "\<not> a1 \<or> \<not> a2"
    using that 1 2 unfolding refuses_def by (metis fst_conv)
  have rd: "w_fd_readdir W fd 4096 0 h2 = (Inr (take 4096 (dir_bytes c 0 es)), h2)"
    using assms unfolding dir_host_def by (metis drop0 le0)
  have "prefix (take 4096 (dir_bytes c 0 es)) (dir_bytes c 0 es)" by (rule take_is_prefix)
  moreover have "c 0 = 0" using assms by (simp add: dir_host_def)
  ultimately show ?thesis
    using 1 2 rd no by (cases a1; cases a2) (auto simp: fdopendir_def dir_at_def dir_rem_def min_def)
qed

lemma fdopendir_plenty:
  assumes "dir_host W fd c es" "\<not> refuses alloc"
  obtains d h' where "fdopendir alloc W fd h = (Inr d, h')" "dir_at fd c es 0 d"
proof -
  obtain r h' where r: "fdopendir alloc W fd h = (r, h')"
    "case r of Inl e \<Rightarrow> e = ENOMEM \<and> refuses alloc | Inr d \<Rightarrow> dir_at fd c es 0 d"
    using fdopendir_at [OF assms(1), of alloc h] by blast
  then show thesis using that assms(2) by (cases r) simp_all
qed

text \<open>A host with one directory, whose cookies are every third number.\<close>

abbreviation sample_cookie :: "nat \<Rightarrow> nat" where "sample_cookie \<equiv> \<lambda>k. 3 * k"

definition sample_dir_host :: "dirent list \<Rightarrow> unit wasi" where
  "sample_dir_host es = null_wasi\<lparr>w_fd_readdir :=
     (\<lambda>fd n cookie h. (Inr (take n (dir_bytes sample_cookie (cookie div 3) (drop (cookie div 3) es))), h))\<rparr>"

definition sample_entries :: "dirent list" where
  "sample_entries = [\<lparr>de_ino = 7, de_type = FILETYPE_REGULAR_FILE, de_name = ''a.txt''\<rparr>,
     \<lparr>de_ino = 8, de_type = FILETYPE_SOCKET_DGRAM, de_name = ''sock''\<rparr>,
     \<lparr>de_ino = 0, de_type = 0, de_name = ''b''\<rparr>]"

definition sample_stat :: stat where
  "sample_stat = to_public_stat \<lparr>wf_dev = 0, wf_ino = 9, wf_filetype = FILETYPE_DIRECTORY, wf_nlink = 1, wf_size = 0,
     wf_atim = 0, wf_mtim = 0, wf_ctim = 0\<rparr>"

abbreviation sample_alloc :: "unit allocator" where "sample_alloc \<equiv> \<lambda>n h. (True, h)"
abbreviation sample_stat_at :: "unit stat_at" where "sample_stat_at \<equiv> \<lambda>fd path flag h. (Inr sample_stat, h)"

lemma sample_dir_host: "length es < 1000 \<Longrightarrow> dir_host (sample_dir_host es) fd sample_cookie es"
  by (simp add: dir_host_def sample_dir_host_def null_wasi_def)

lemma sample_stat_host: "stat_host sample_stat_at fd (\<lambda>_. Inr sample_stat)"
  by (simp add: stat_host_def)

lemma sample_plenty: "\<not> refuses sample_alloc"
  by (simp add: refuses_def)

lemma sample_entries_ok: "\<forall>e \<in> set sample_entries. dirent_ok e"
  by (simp add: sample_entries_def dirent_ok_def)

text \<open>C9.  Opening a directory and calling readdir until it returns NULL delivers the entries of the
  directory, in order, each once, whatever the lengths of their names, whatever the (opaque) cookies
  of the runtime, and however the entries are cut by the end of the buffer, which grows when one
  does not fit; each call ends after at most three turns of its loop.  An entry without an inode
  number, other than the parent directory, has the number and the type that fstatat tells.  The
  listing ends early only with the error of such an fstatat, or with ENOMEM when memory is refused,
  and then the entries before it have been delivered; opening fails only with ENOMEM.  The entries
  of the runtime have names that are not empty, without NUL and shorter than 2^30 - 24 bytes, and none
  disappears between being read and being examined (the code skips such an entry).\<close>

theorem readdir_lists_directory:
  assumes "dir_host W fd c es" "stat_host stat_at fd stat" "\<forall>e \<in> set es. dirent_ok e" "3 \<le> fuel" "length es < n"
  shows "case fdopendir alloc W fd h of
      (Inl e, h') \<Rightarrow> e = ENOMEM \<and> refuses alloc
    | (Inr d, h') \<Rightarrow> \<exists>xs r. read_all n fuel alloc stat_at W d h' = Some (xs, r) \<and>
        (r = End_of_dir \<and> map Inr xs = map (listed stat) es \<or>
         (\<exists>k e. r = Failed e \<and> k < length es \<and> map Inr xs = map (listed stat) (take k es) \<and>
            (e = ENOMEM \<and> refuses alloc \<or> listed stat (es ! k) = Inl e)))"
proof -
  obtain r h' where r: "fdopendir alloc W fd h = (r, h')"
    "case r of Inl e \<Rightarrow> e = ENOMEM \<and> refuses alloc | Inr d \<Rightarrow> dir_at fd c es 0 d"
    using fdopendir_at [OF assms(1), of alloc h] by blast
  have n: "length es - 0 < n" using assms(5) by simp
  show ?thesis
  proof (cases r)
    case (Inl e)
    then show ?thesis using r by simp
  next
    case (Inr d)
    then have "dir_at fd c es 0 d" using r(2) by simp
    from read_all_from [OF assms(1-4) this n, of alloc h'] show ?thesis
      using r(1) Inr by (auto simp: lists_from_def)
  qed
qed

theorem readdir_lists_directory_witness:
  "\<exists>d xs. fdopendir sample_alloc (sample_dir_host sample_entries) 5 () = (Inr d, ()) \<and>
     read_all 4 3 sample_alloc sample_stat_at (sample_dir_host sample_entries) d () = Some (xs, End_of_dir) \<and>
     map de_name xs = [''a.txt'', ''sock'', ''b''] \<and> map de_ino xs = [7, 8, 9]"
proof -
  have l: "length sample_entries < 1000" "(3 :: nat) \<le> 3" "length sample_entries < 4" by (simp_all add: sample_entries_def)
  have m: "map (listed (\<lambda>_. Inr sample_stat)) sample_entries = map Inr [sample_entries ! 0, sample_entries ! 1,
      \<lparr>de_ino = 9, de_type = iftodt (S_IFMT_of (st_mode sample_stat)), de_name = ''b''\<rparr>]"
    by (simp add: sample_entries_def listed_def) (simp add: sample_stat_def to_public_stat_def)
  then have ok: "\<forall>k < length sample_entries. \<forall>e. listed (\<lambda>_. Inr sample_stat) (sample_entries ! k) \<noteq> Inl e"
    by (auto simp: listed_def)
  obtain d h' where d: "fdopendir sample_alloc (sample_dir_host sample_entries) 5 () = (Inr d, h')"
    using fdopendir_plenty [OF sample_dir_host [OF l(1)] sample_plenty] by metis
  from readdir_lists_directory [OF sample_dir_host [OF l(1)] sample_stat_host sample_entries_ok l(2,3),
      where alloc = sample_alloc and h = "()" and fd = 5, unfolded d prod.case sum.case]
  obtain xs where "read_all 4 3 sample_alloc sample_stat_at (sample_dir_host sample_entries) d h' = Some (xs, End_of_dir)"
    "map Inr xs = map (listed (\<lambda>_. Inr sample_stat)) sample_entries"
    using ok sample_plenty by blast
  moreover have "xs = [sample_entries ! 0, sample_entries ! 1,
      \<lparr>de_ino = 9, de_type = iftodt (S_IFMT_of (st_mode sample_stat)), de_name = ''b''\<rparr>]"
    using calculation(2) unfolding m by (simp only: inj_map_eq_map inj_Inr)
  ultimately show ?thesis using d by (auto simp: sample_entries_def)
qed

text \<open>Going back to a position that telldir reported: the next readdir delivers the entry of that
  position, provided its cookie fits the 32 bits of a long; a larger cookie is cut off and the
  stream continues somewhere else.\<close>

theorem seekdir_telldir:
  assumes "dir_at fd c es k d" "dir_at fd c es j d'" "dir_host W fd c es" "stat_host stat_at fd stat"
    "\<forall>e \<in> set es. dirent_ok e" "k < length es" "3 \<le> fuel"
  shows "dr_cookie (seekdir d' (telldir d)) = c k mod size_mod \<and>
    (c k < size_mod \<longrightarrow> (\<exists>r d2 h2. readdir fuel alloc stat_at W (seekdir d' (telldir d)) h = Some (r, d2, h2) \<and>
       (r = Failed ENOMEM \<and> refuses alloc \<or> r = case_sum Failed Entry (listed stat (es ! k)))))"
proof -
  have k: "dr_cookie d = c k" using assms(1) by (simp add: dir_at_def)
  have "telldir d mod int size_mod = int (c k mod size_mod)"
    unfolding telldir_def k by (simp add: Let_def zmod_int)
  then have c: "dr_cookie (seekdir d' (telldir d)) = c k mod size_mod" by (simp add: seekdir_def)
  have "\<exists>r d2 h2. readdir fuel alloc stat_at W (seekdir d' (telldir d)) h = Some (r, d2, h2) \<and>
       (r = Failed ENOMEM \<and> refuses alloc \<or> r = case_sum Failed Entry (listed stat (es ! k)))"
    if "c k < size_mod"
  proof -
    have "dir_at fd c es k (seekdir d' (telldir d))"
      using assms(2,6) c that by (simp add: dir_at_def dir_rem_def seekdir_def)
    moreover have "dirent_ok (es ! k)" using assms(5,6) by simp
    ultimately obtain r d2 h2 where "readdir fuel alloc stat_at W (seekdir d' (telldir d)) h = Some (r, d2, h2)"
      "delivers alloc stat fd c es k r d2" using readdir_next [OF _ assms(3,4,6) _ assms(7)] by blast
    then show ?thesis by (cases r) (auto simp: delivers_def)
  qed
  with c show ?thesis by blast
qed

theorem seekdir_telldir_witness:
  "\<exists>d r d2 h2. fdopendir sample_alloc (sample_dir_host sample_entries) 5 () = (Inr d, ()) \<and>
     readdir 3 sample_alloc sample_stat_at (sample_dir_host sample_entries) (seekdir d (telldir d)) () =
       Some (Entry (sample_entries ! 0), d2, h2)"
proof -
  have l: "length sample_entries < 1000" "0 < length sample_entries" "(3 :: nat) \<le> 3" by (simp_all add: sample_entries_def)
  obtain d h' where d: "fdopendir sample_alloc (sample_dir_host sample_entries) 5 () = (Inr d, h')" "dir_at 5 sample_cookie sample_entries 0 d"
    using fdopendir_plenty [OF sample_dir_host [OF l(1)] sample_plenty] by metis
  have "listed (\<lambda>_. Inr sample_stat) (sample_entries ! 0) = Inr (sample_entries ! 0)"
    by (simp add: listed_def sample_entries_def)
  then show ?thesis
    using seekdir_telldir [OF d(2,2) sample_dir_host [OF l(1)] sample_stat_host sample_entries_ok l(2,3), of sample_alloc "()"]
      d(1) sample_plenty by auto
qed

text \<open>readdir never reports DT_SOCK for an entry whose inode number is known: the switch that chooses
  it is overwritten, and the type the directory stores is returned as it is, so a datagram socket
  has the type 5 and a stream socket has DT_FIFO.\<close>

theorem readdir_socket_type:
  assumes "dir_at fd c es k d" "dir_host W fd c es" "stat_host stat_at fd stat" "\<not> refuses alloc"
    "k < length es" "dirent_ok (es ! k)" "3 \<le> fuel" "0 < de_ino (es ! k)"
    "de_type (es ! k) \<in> {FILETYPE_SOCKET_DGRAM, FILETYPE_SOCKET_STREAM, FILETYPE_SOCKET_RAW, FILETYPE_SOCKET_SEQPACKET}"
  shows "\<exists>e d' h'. readdir fuel alloc stat_at W d h = Some (Entry e, d', h') \<and> de_type e = de_type (es ! k) \<and>
    de_type e \<noteq> DT_SOCK"
proof -
  obtain r d' h' where r: "readdir fuel alloc stat_at W d h = Some (r, d', h')" "delivers alloc stat fd c es k r d'"
    using readdir_next [OF assms(1-3,5-7)] by blast
  moreover have "listed stat (es ! k) = Inr (es ! k)" using assms(8) by (simp add: listed_def)
  ultimately have "r = Entry (es ! k)" using assms(4) by (cases r) (auto simp: delivers_def)
  then show ?thesis using r(1) assms(9) by auto
qed

theorem readdir_socket_type_witness:
  "\<exists>d e d' h. fdopendir sample_alloc (sample_dir_host (tl sample_entries)) 5 () = (Inr d, ()) \<and>
     readdir 3 sample_alloc sample_stat_at (sample_dir_host (tl sample_entries)) d () = Some (Entry e, d', h) \<and>
     de_type e = 5"
proof -
  let ?es = "tl sample_entries"
  have l: "length ?es < 1000" by (simp add: sample_entries_def)
  obtain d h' where d: "fdopendir sample_alloc (sample_dir_host ?es) 5 () = (Inr d, h')" "dir_at 5 sample_cookie ?es 0 d"
    using fdopendir_plenty [OF sample_dir_host [OF l] sample_plenty] by metis
  have p: "0 < length ?es" "dirent_ok (?es ! 0)" "(3 :: nat) \<le> 3" "0 < de_ino (?es ! 0)"
    "de_type (?es ! 0) \<in> {FILETYPE_SOCKET_DGRAM, FILETYPE_SOCKET_STREAM, FILETYPE_SOCKET_RAW, FILETYPE_SOCKET_SEQPACKET}"
    by (simp_all add: sample_entries_def dirent_ok_def)
  have t: "de_type (?es ! 0) = 5" by (simp add: sample_entries_def)
  from readdir_socket_type [OF d(2) sample_dir_host [OF l] sample_stat_host sample_plenty p, of "()"] d(1) t
  show ?thesis by auto
qed

text \<open>A host with one directory whose entry has no inode number and cannot be examined.\<close>

definition sample_scan_host :: "int set wasi" where
  "sample_scan_host = null_wasi\<lparr>
     w_fd_fdstat_get := (\<lambda>fd h. (Inr \<lparr>fs_filetype = 3, fs_flags = 0, fs_rights_base = 0, fs_rights_inheriting = 0\<rparr>, h)),
     w_path_open2 := (\<lambda>_ _ _ _ _ _ _ _ h. (Inr 5, insert 5 h)),
     w_fd_close := (\<lambda>fd h. (Inr (), h - {fd})),
     w_fd_readdir := (\<lambda>fd n cookie h. (Inr (take n (dir_bytes (\<lambda>k. k) cookie (drop cookie
        [\<lparr>de_ino = 0, de_type = 4, de_name = ''a''\<rparr>]))), h))\<rparr>"

definition sample_scan_bytes :: "char list" where
  "sample_scan_bytes = dirent_bytes 1 \<lparr>de_ino = 0, de_type = 4, de_name = ''a''\<rparr>"

lemma sample_scan_parse:
  "parse_dirent sample_scan_bytes = \<lparr>wd_next = 1, wd_ino = 0, wd_namlen = 1, wd_type = 4\<rparr>"
  "length sample_scan_bytes = 25" "drop 24 sample_scan_bytes = ''a''"
proof -
  show "parse_dirent sample_scan_bytes = \<lparr>wd_next = 1, wd_ino = 0, wd_namlen = 1, wd_type = 4\<rparr>"
    using parse_dirent_fields [of "\<lparr>de_ino = 0, de_type = 4, de_name = ''a''\<rparr>" 1 sample_scan_bytes]
    by (simp add: sample_scan_bytes_def take_is_prefix)
  show "length sample_scan_bytes = 25" "drop 24 sample_scan_bytes = ''a''"
    by (simp_all add: sample_scan_bytes_def dirent_bytes_def)
qed

lemma sample_scan_fields:
  "w_fd_fdstat_get sample_scan_host fd h =
     (Inr \<lparr>fs_filetype = 3, fs_flags = 0, fs_rights_base = 0, fs_rights_inheriting = 0\<rparr>, h)"
  "w_path_open2 sample_scan_host a b c d e f g i h = (Inr 5, insert 5 h)"
  "w_fd_readdir sample_scan_host fd 4096 0 h = (Inr sample_scan_bytes, h)"
  using sample_scan_parse(2)
  by (simp_all add: sample_scan_host_def null_wasi_def sample_scan_bytes_def)

text \<open>When an entry without an inode number cannot be examined, scandirat returns at once and leaves
  the descriptor of the directory open.\<close>

theorem scandirat_leaks:
  "nocwd_scandirat 3 (\<lambda>n h. (True, h)) (\<lambda>fd path flag h. (Inl EACCES, h)) sample_scan_host id 4 ''d'' None {0, 1, 2} =
     Some (Inl EACCES, {0, 1, 2, 5})"
proof -
  have "openat_rights (O_RDONLY OR O_NONBLOCK OR O_DIRECTORY) \<noteq> None"
    by (simp add: openat_rights_mode)
  then obtain r where r: "openat_rights (O_RDONLY OR O_NONBLOCK OR O_DIRECTORY) = Some r" by blast
  have o: "nocwd_openat_nomode sample_scan_host 4 ''d'' (O_RDONLY OR O_NONBLOCK OR O_DIRECTORY) {0, 1, 2} =
      (Inr 5, {0, 1, 2, 5})"
    unfolding nocwd_openat_nomode_def r by (simp add: sample_scan_fields Let_def insert_commute)
  define s where "s = \<lparr>sc_buffer = [], sc_processed = 4096, sc_used = 4096, sc_size = 4096, sc_cookie = 0,
     sc_dirents = [], sc_capacity = 0\<rparr>"
  define t where "t = s\<lparr>sc_buffer := sample_scan_bytes, sc_used := 25, sc_processed := 0\<rparr>"
  let ?al = "\<lambda>n (h :: int set). (True, h)" and ?st = "\<lambda>(fd :: int) (path :: cstring) (flag :: 32 word) (h :: int set). (Inl EACCES :: errno + stat, h)"
  have 1: "scan_step ?al ?st sample_scan_host 5 f s h = Some (None, t, h)" for f h
    by (simp add: scan_step_def scan_read_def s_def t_def sample_scan_fields sample_scan_parse szsub_def)
  have 2: "\<exists>t'. scan_step ?al ?st sample_scan_host 5 f t h = Some (Some (Scan_return EACCES), t', h)" for f h
    by (simp add: scan_step_def t_def s_def sample_scan_parse szadd_def szsub_def)
  have "\<exists>t'. scan_loop 3 ?al ?st sample_scan_host 5 f s h = Some (Scan_return EACCES, t', h)" for f h
    using 2 [of f h] by (auto simp: numeral_3_eq_3 1)
  then obtain t' where "scan_loop 3 ?al ?st sample_scan_host 5 (\<lambda>_. True) s {0, 1, 2, 5} =
      Some (Scan_return EACCES, t', {0, 1, 2, 5})" by blast
  then show ?thesis
    unfolding nocwd_scandirat_def Let_def o s_def by simp
qed

end
