(* ===== verification/Path_Names.thy ===== *)
theory Path_Names
  imports Preopens
begin

text \<open>
  What a path denotes, apart from its spelling: the names it goes through.  The joining of the
  working directory and a path (libc-bottom-half/sources/chdir.c) and the cutting of a path at a
  preopened directory (preopens.c) are judged by it.
\<close>

section \<open>The names of a path\<close>

fun parts :: "cstring \<Rightarrow> cstring list" where
  "parts [] = [[]]"
| "parts (c # p) = (if c = slash then [] # parts p
     else case parts p of [] \<Rightarrow> [[c]] | q # qs \<Rightarrow> (c # q) # qs)"

text \<open>Empty names and single dots lead nowhere.\<close>

definition steps :: "cstring \<Rightarrow> cstring list" where
  "steps p = filter (\<lambda>n. n \<noteq> [] \<and> n \<noteq> [dot]) (parts p)"

definition denotes :: "cstring \<Rightarrow> cstring \<Rightarrow> cstring list" where
  "denotes cwd path = (if path \<noteq> [] \<and> hd path = slash then steps path else steps cwd @ steps path)"

text \<open>No two slashes in a row.\<close>

fun tidy :: "cstring \<Rightarrow> bool" where
  "tidy (a # b # p) \<longleftrightarrow> (a \<noteq> slash \<or> b \<noteq> slash) \<and> tidy (b # p)"
| "tidy _ \<longleftrightarrow> True"

text \<open>
  A path that stands for a path from a working directory: an absolute path for itself, another one
  behind the working directory, with the same names and without doubled slashes of its own.
\<close>

definition stands_for :: "cstring \<Rightarrow> cstring \<Rightarrow> cstring \<Rightarrow> bool" where
  "stands_for cwd path absolute \<longleftrightarrow>
     (if path \<noteq> [] \<and> hd path = slash then absolute = path else prefix cwd absolute) \<and>
     steps absolute = denotes cwd path \<and> (tidy cwd \<and> tidy path \<longrightarrow> tidy absolute)"

lemma parts_ne [simp]: "parts p \<noteq> []"
  by (cases p) (auto split: list.splits)

lemma parts_slash: "parts (p @ slash # q) = parts p @ parts q"
proof (induction p)
  case (Cons c p)
  then show ?case by (cases "parts p") auto
qed simp

lemma steps_Nil [simp]: "steps [] = []"
  by (simp add: steps_def)

lemma steps_dot [simp]: "steps [dot] = []"
  by (simp add: steps_def)

lemma steps_slash: "steps (p @ slash # q) = steps p @ steps q"
  by (simp add: steps_def parts_slash)

lemma steps_leading [simp]: "steps (slash # p) = steps p"
  using steps_slash [of "[]" p] by simp

lemma steps_trailing: "steps (p @ [slash]) = steps p"
  using steps_slash [of p "[]"] by simp

lemma steps_dot_slash [simp]: "steps (dot # slash # p) = steps p"
  using steps_slash [of "[dot]" p] by simp

lemma steps_dropWhile [simp]: "steps (dropWhile (\<lambda>c. c = slash) p) = steps p"
  by (induction p) auto

lemma steps_append:
  assumes "p = [] \<or> last p = slash \<or> q = [] \<or> hd q = slash"
  shows "steps (p @ q) = steps p @ steps q"
proof -
  consider "p = []" | "q = []" | p' where "p = p' @ [slash]" | q' where "q = slash # q'"
    using assms by (cases p rule: rev_cases; cases q) auto
  then show ?thesis
    by cases (simp_all add: steps_slash steps_trailing)
qed

lemma tidy_append:
  "tidy (p @ q) \<longleftrightarrow> tidy p \<and> tidy q \<and> (p = [] \<or> q = [] \<or> last p \<noteq> slash \<or> hd q \<noteq> slash)"
proof (induction p)
  case (Cons c p)
  then show ?case by (cases p; cases q) auto
qed simp

section \<open>Lookup keeps the names\<close>

text \<open>A prefix of complete components and the rest of the path after it denote what the path denotes.\<close>

lemma component_prefix_steps:
  assumes "component_prefix p path"
  shows "steps p @ steps (dropWhile (\<lambda>c. c = slash) (drop (length p) path)) = steps path"
proof -
  obtain u where u: "path = p @ u" using assms by (auto simp: component_prefix_def prefix_def)
  have "p = [] \<or> last p = slash \<or> u = [] \<or> hd u = slash"
  proof (cases "p = trimmed p")
    case True
    then show ?thesis using assms unfolding component_prefix_def u by (cases u) (auto simp: prefix_def)
  next
    case False
    obtain k where "p = trimmed p @ replicate k slash" using trimmed_split [of p] by blast
    with False have "p = trimmed p @ replicate (k - 1) slash @ [slash]"
      by (cases k) (auto simp: replicate_append_same)
    then show ?thesis by (metis last_appendR last_snoc append_is_Nil_conv not_Cons_self2)
  qed
  from steps_append [OF this] show ?thesis using u by simp
qed

lemma find_abspath_steps:
  assumes "\<forall>p \<in> set table. po_fd p \<noteq> -1" "find_abspath table path = Inr (fd, ap, rel)"
  shows "(\<exists>p \<in> set table. fd = po_fd p \<and> ap = po_prefix p) \<and> steps ap @ steps rel = steps path \<and>
    rel \<noteq> [] \<and> (ap \<noteq> [] \<longrightarrow> hd rel \<noteq> slash)"
proof -
  let ?search = "dropWhile (\<lambda>c. c = slash) path"
  let ?rest = "\<lambda>p. if po_prefix p = [] then path
    else dropWhile (\<lambda>c. c = slash) (drop (length (po_prefix p)) ?search)"
  obtain p where p: "p \<in> set table" "fd = po_fd p" "ap = po_prefix p" "ap = [] \<or> component_prefix ap ?search"
    "rel = (if ?rest p = [] then [dot] else ?rest p)"
    using find_abspath_laws [OF assms(1), of path, unfolded assms(2) sum.case prod.case]
    by blast
  have dot: "steps rel = steps x \<and> rel \<noteq> []" if "rel = (if x = [] then [dot] else x)" for x
    using that by simp
  note r = dot [OF p(5), THEN conjunct1] dot [OF p(5), THEN conjunct2]
  have "hd (dropWhile (\<lambda>c. c = slash) q) \<noteq> slash" if "dropWhile (\<lambda>c. c = slash) q \<noteq> []" for q
    using hd_dropWhile [OF that] .
  then have "ap \<noteq> [] \<longrightarrow> hd rel \<noteq> slash" unfolding p(5) p(3) by (simp add: if_split)
  moreover have "steps ap @ steps rel = steps path"
  proof (cases "ap = []")
    case True
    then show ?thesis unfolding r(1) using p(3) by simp
  next
    case False
    then have "component_prefix ap ?search" using p(4) by blast
    from component_prefix_steps [OF this] show ?thesis unfolding r(1) using False p(3) by simp
  qed
  ultimately show ?thesis using p(1-3) r(2) by blast
qed

end
