(* ===== verification/Paths.thy ===== *)
theory Paths
  imports Path_Names Dirent
begin

text \<open>
  From a path to a directory descriptor and a relative path
  (libc-bottom-half/sources/chdir.c and getcwd.c): the emulated working directory and the
  allocation of the relative path in a buffer of the caller.  The model is of the build with
  threads (_REENTRANT).

  A result \<open>None\<close> means that the code does not return or has no defined result: the lock of the
  preopens is taken twice, a string is read through NULL, or through a pointer that a later
  realloc made invalid.
\<close>

section \<open>State and host\<close>

text \<open>
  A growable static buffer with its length variable.  The stamp stands for the address: realloc
  changes it, and a pointer taken before is a pointer with the old stamp.
\<close>

record sbuf =
  sb_str :: cstring
  sb_len :: nat
  sb_stamp :: nat

definition sbuf_null :: sbuf where
  "sbuf_null = \<lparr>sb_str = [], sb_len = 0, sb_stamp = 0\<rparr>"

definition sb_read :: "nat \<Rightarrow> sbuf \<Rightarrow> cstring option" where
  "sb_read p b = (if p = sb_stamp b then Some (sb_str b) else None)"

record 'h path_host =
  ph_malloc :: "nat \<Rightarrow> 'h \<Rightarrow> bool \<times> 'h"
  ph_getcwd :: "bool \<Rightarrow> nat \<Rightarrow> 'h \<Rightarrow> (errno \<times> nat \<times> cstring) \<times> 'h"
  ph_chdir :: "cstring \<Rightarrow> 'h \<Rightarrow> errno \<times> 'h"

record 'h paths =
  pt_pre :: "'h preopens"
  pt_cwd :: "cstring option"
  pt_cwd_mallocd :: bool
  pt_cwd_synced :: bool
  pt_abs_len :: nat
  pt_rel :: sbuf
  pt_rel_alt :: sbuf
  pt_chdir :: sbuf

definition pt_host :: "'h paths \<Rightarrow> 'h" where
  "pt_host s = pr_host (pt_pre s)"

definition set_host :: "'h \<Rightarrow> 'h paths \<Rightarrow> 'h paths" where
  "set_host h s = s\<lparr>pt_pre := (pt_pre s)\<lparr>pr_host := h\<rparr>\<rparr>"

text \<open>A call of the host on the state of the library.\<close>

definition on_host :: "('h \<Rightarrow> 'a \<times> 'h) \<Rightarrow> 'h paths \<Rightarrow> 'a \<times> 'h paths" where
  "on_host f s = (case f (pt_host s) of (r, h) \<Rightarrow> (r, set_host h s))"

section \<open>The working directory\<close>

text \<open>\<open>ph_getcwd\<close> is the import: the error, the size it wants, and the bytes up to their NUL.\<close>

definition getcwd :: "'h path_host \<Rightarrow> bool \<Rightarrow> nat \<Rightarrow> ('h, cstring) wcall" where
  "getcwd H null bufsize h =
     (case ph_getcwd H null bufsize h of
        ((e, want, str), h) \<Rightarrow>
          if e = ERANGE \<and> null then
            (case ph_malloc H want h of
               (False, h) \<Rightarrow> (Inl ENOMEM, h)
             | (True, h) \<Rightarrow>
                 (case ph_getcwd H False want h of
                    ((e, _, str), h) \<Rightarrow> (if e \<noteq> 0 then Inl e else Inr str, h)))
          else (if e \<noteq> 0 then Inl e else Inr str, h))"

definition getcwd_legacy :: "'h path_host \<Rightarrow> nat option \<Rightarrow> 'h paths \<Rightarrow> ((errno + cstring) \<times> 'h paths) option" where
  "getcwd_legacy H bufsize s = do {
     cwd \<leftarrow> pt_cwd s;
     Some (case bufsize of
       None \<Rightarrow> (case on_host (ph_malloc H (length cwd + 1)) s of
                 (ok, s) \<Rightarrow> (if ok then Inr cwd else Inl ENOMEM, s))
     | Some n \<Rightarrow> (if n < length cwd + 1 then Inl ERANGE else Inr cwd, s)) }"

text \<open>
  The first part of make_absolute: the working directory of the runtime replaces the initial one
  once.  The result is false when it cannot be had.
\<close>

definition sync_cwd :: "'h path_host \<Rightarrow> 'h paths \<Rightarrow> bool \<times> 'h paths" where
  "sync_cwd H s =
     (if pt_cwd_synced s then (True, s)
      else case on_host (getcwd H False 256) s of
        (Inl _, s) \<Rightarrow> (False, s)
      | (Inr cwd, s) \<Rightarrow>
          (case on_host (ph_malloc H (length cwd + 1)) s of
             (ok, s) \<Rightarrow>
               (True, s\<lparr>pt_cwd := (if ok then Some cwd else None), pt_cwd_synced := True,
                  pt_cwd_mallocd := True\<rparr>)))"

text \<open>Room for the absolute path in its static buffer.\<close>

definition abs_reserve :: "'h path_host \<Rightarrow> nat \<Rightarrow> 'h paths \<Rightarrow> bool \<times> 'h paths" where
  "abs_reserve H alloc_len s =
     (if alloc_len > pt_abs_len s
      then (case on_host (ph_malloc H alloc_len) s of
              (ok, s) \<Rightarrow> (ok, if ok then s\<lparr>pt_abs_len := alloc_len\<rparr> else s))
      else (True, s))"

definition join_cwd :: "cstring \<Rightarrow> cstring \<Rightarrow> cstring" where
  "join_cwd cwd path =
     (if path = [] \<or> path = [dot] \<or> path = [dot, slash] then cwd
      else cwd @ (if last cwd = slash then [] else [slash]) @ path)"

text \<open>
  The absolute path; \<open>Inl\<close> stands for the result NULL.  The string of the working directory is
  followed by a slash, unless it ends in one, and the path.
\<close>

definition make_absolute :: "'h path_host \<Rightarrow> cstring \<Rightarrow> 'h paths \<Rightarrow> ((unit + cstring) \<times> 'h paths) option" where
  "make_absolute H path s =
     (case sync_cwd H s of
        (False, s) \<Rightarrow> Some (Inl (), s)
      | (True, s) \<Rightarrow>
          if path \<noteq> [] \<and> hd path = slash then Some (Inr path, s)
          else
            let path = (if take 2 path = [dot, slash] then drop 2 path else path) in do {
            cwd \<leftarrow> pt_cwd s;
            _ \<leftarrow> assert_that (cwd \<noteq> []);
            case abs_reserve H (szadd (szadd (szadd (length cwd) (length path)) 1)
                (if last cwd = slash then 0 else 1)) s of
              (ok, s) \<Rightarrow> Some (if ok then Inr (join_cwd cwd path) else Inl (), s) })"

section \<open>The relative path\<close>

text \<open>The result: the descriptor with the matched prefix, the buffer, and the state.\<close>

definition find_relpath_alloc :: "'h path_host \<Rightarrow> cstring \<Rightarrow> sbuf \<Rightarrow> bool \<Rightarrow> 'h paths \<Rightarrow>
    ((errno + (int \<times> cstring)) \<times> sbuf \<times> 'h paths) option" where
  "find_relpath_alloc H path buf can_realloc s = do {
     (abspath, s) \<leftarrow> make_absolute H path s;
     (case abspath of
        Inl _ \<Rightarrow> Some (Inl ENOMEM, buf, s)
      | Inr abspath \<Rightarrow> do {
          (found, p) \<leftarrow> wasilibc_find_abspath abspath (pt_pre s);
          let s = s\<lparr>pt_pre := p\<rparr>;
          (case found of
             Inl e \<Rightarrow> Some (Inl e, buf, s)
           | Inr (fd, abs_prefix, rel) \<Rightarrow>
               if sb_len buf < length rel + 1 then
                 if \<not> can_realloc then Some (Inl ERANGE, buf, s)
                 else
                   (case on_host (ph_malloc H (length rel + 1)) s of
                      (False, s) \<Rightarrow> Some (Inl ENOMEM, buf, s)
                    | (True, s) \<Rightarrow>
                        Some (Inr (fd, abs_prefix),
                          \<lparr>sb_str = rel, sb_len = length rel + 1, sb_stamp = sb_stamp buf + 1\<rparr>, s))
               else Some (Inr (fd, abs_prefix), buf\<lparr>sb_str := rel\<rparr>, s)) }) }"

definition wasilibc_find_relpath :: "'h path_host \<Rightarrow> cstring \<Rightarrow> sbuf \<Rightarrow> 'h paths \<Rightarrow>
    ((errno + (int \<times> cstring)) \<times> sbuf \<times> 'h paths) option" where
  "wasilibc_find_relpath H path buf s = find_relpath_alloc H path buf False s"

section \<open>What resolution does\<close>

text \<open>
  The absolute path that a path stands for, and its resolution, as functions of the working
  directory and the table: what find_relpath_alloc computes apart from memory.  They follow the code;
  that they keep what the path denotes is proved of them (\<open>absolute_of_stands_for\<close>,
  \<open>resolve_denotes\<close>).
\<close>

definition absolute_of :: "cstring \<Rightarrow> cstring \<Rightarrow> cstring" where
  "absolute_of cwd path =
     (if path \<noteq> [] \<and> hd path = slash then path
      else join_cwd cwd (if take 2 path = [dot, slash] then drop 2 path else path))"

definition resolve :: "preopen list \<Rightarrow> cstring \<Rightarrow> cstring \<Rightarrow> errno + (int \<times> cstring \<times> cstring)" where
  "resolve table cwd path = find_abspath table (absolute_of cwd path)"

text \<open>The state in which paths are resolved: the working directory is known and absolute.\<close>

definition paths_ok :: "'h paths \<Rightarrow> bool" where
  "paths_ok s \<longleftrightarrow> pt_cwd_synced s \<and> (\<exists>cwd. pt_cwd s = Some (slash # cwd)) \<and> \<not> pr_locked (pt_pre s)"

abbreviation pt_table :: "'h paths \<Rightarrow> preopen list" where
  "pt_table s \<equiv> pr_table (pt_pre s)"

lemma on_host_simps [simp]:
  "pt_cwd (snd (on_host f s)) = pt_cwd s" "pt_cwd_synced (snd (on_host f s)) = pt_cwd_synced s"
  "pt_rel (snd (on_host f s)) = pt_rel s" "pt_rel_alt (snd (on_host f s)) = pt_rel_alt s"
  "pt_chdir (snd (on_host f s)) = pt_chdir s" "pt_table (snd (on_host f s)) = pt_table s"
  "pr_locked (pt_pre (snd (on_host f s))) = pr_locked (pt_pre s)"
  "pr_need_locks (pt_pre (snd (on_host f s))) = pr_need_locks (pt_pre s)"
  by (simp_all add: on_host_def set_host_def split: prod.split)

text \<open>What a step of resolution leaves alone.\<close>

definition same_paths :: "'h paths \<Rightarrow> 'h paths \<Rightarrow> bool" where
  "same_paths s s' \<longleftrightarrow> pt_table s' = pt_table s \<and> pt_cwd s' = pt_cwd s \<and> paths_ok s' \<and>
     pt_rel s' = pt_rel s \<and> pt_rel_alt s' = pt_rel_alt s \<and> pt_chdir s' = pt_chdir s"

text \<open>Memory never runs out.\<close>

definition plenty :: "'h path_host \<Rightarrow> bool" where
  "plenty H \<longleftrightarrow> (\<forall>n h. fst (ph_malloc H n h))"

lemma on_host_plenty: "plenty H \<Longrightarrow> on_host (ph_malloc H n) s = (ok, s') \<Longrightarrow> ok"
  by (auto simp: plenty_def on_host_def split: prod.splits) (metis fst_conv)

lemma abs_reserve_plenty: "plenty H \<Longrightarrow> abs_reserve H n s = (ok, s') \<Longrightarrow> ok"
  by (auto simp: abs_reserve_def split: if_splits prod.splits dest: on_host_plenty)

lemma abs_reserve_same: "paths_ok s \<Longrightarrow> same_paths s (snd (abs_reserve H len s))"
  using on_host_simps [of "ph_malloc H len" s]
  by (cases "on_host (ph_malloc H len) s") (simp add: abs_reserve_def same_paths_def paths_ok_def)

lemma make_absolute_resolves:
  assumes ok: "paths_ok s" and cwd: "pt_cwd s = Some cwd"
  shows "\<exists>r s'. make_absolute H path s = Some (r, s') \<and> same_paths s s' \<and>
    (r = Inr (absolute_of cwd path) \<or> (r = Inl () \<and> \<not> plenty H))"
proof -
  have sync: "sync_cwd H s = (True, s)" and ne: "cwd \<noteq> []"
    using ok cwd by (auto simp: sync_cwd_def paths_ok_def)
  have same: "same_paths s s" using ok by (simp add: same_paths_def)
  show ?thesis
  proof (cases "path \<noteq> [] \<and> hd path = slash")
    case True
    then show ?thesis using sync same by (simp add: make_absolute_def absolute_of_def)
  next
    case False
    define p where "p = (if take 2 path = [dot, slash] then drop 2 path else path)"
    obtain a s2 where a: "abs_reserve H (szadd (szadd (szadd (length cwd) (length p)) 1)
        (if last cwd = slash then 0 else 1)) s = (a, s2)" by (metis surj_pair)
    have "make_absolute H path s = Some (if a then Inr (join_cwd cwd p) else Inl (), s2)"
      unfolding make_absolute_def sync prod.case bool.case Let_def p_def [symmetric]
      using False cwd ne a by (auto simp: assert_that_def)
    moreover have "same_paths s s2" using abs_reserve_same [OF ok] a by (metis snd_conv)
    ultimately show ?thesis using False abs_reserve_plenty [OF _ a] by (auto simp: absolute_of_def p_def)
  qed
qed

lemma find_relpath_resolves:
  assumes ok: "paths_ok s" and cwd: "pt_cwd s = Some cwd"
  shows "\<exists>r buf' s'. find_relpath_alloc H path buf can s = Some (r, buf', s') \<and> same_paths s s' \<and>
    (case r of
       Inl e \<Rightarrow> (e = ENOENT \<and> resolve (pt_table s) cwd path = Inl ENOENT) \<or> (e = ENOMEM \<and> \<not> plenty H) \<or> (e = ERANGE \<and> \<not> can)
     | Inr (fd, ap) \<Rightarrow> resolve (pt_table s) cwd path = Inr (fd, ap, sb_str buf') \<and>
         length (sb_str buf') < sb_len buf')"
proof -
  obtain r s1 where m: "make_absolute H path s = Some (r, s1)" "same_paths s s1"
    "r = Inr (absolute_of cwd path) \<or> (r = Inl () \<and> \<not> plenty H)" using make_absolute_resolves [OF assms] by blast
  show ?thesis
  proof (cases "r = Inl ()")
    case True
    then show ?thesis using m by (simp add: find_relpath_alloc_def)
  next
    case False
    then have r: "r = Inr (absolute_of cwd path)" using m(3) by simp
    define p where "p = lock_drop ((pt_pre s1)\<lparr>pr_locked := pr_need_locks (pt_pre s1)\<rparr>)"
    define s2 where "s2 = s1\<lparr>pt_pre := p\<rparr>"
    have "\<not> pr_locked (pt_pre s1)" using m(2) by (simp add: same_paths_def paths_ok_def)
    then have f: "wasilibc_find_abspath (absolute_of cwd path) (pt_pre s1) = Some (resolve (pt_table s) cwd path, p)"
      using m(2) by (simp add: wasilibc_find_abspath_def resolve_def p_def same_paths_def del: lock_roundtrip)
    have s2: "same_paths s s2" using m(2) ok by (auto simp: same_paths_def paths_ok_def s2_def p_def simp del: lock_roundtrip)
    show ?thesis
    proof (cases "resolve (pt_table s) cwd path")
      case (Inl e)
      have "e = ENOENT" using Inl by (auto simp: resolve_def find_abspath_def Let_def split: prod.splits if_splits)
      then show ?thesis
        using m(1) r f Inl s2 by (simp add: find_relpath_alloc_def Let_def s2_def)
    next
      case (Inr res)
      obtain fd ap rel where res: "res = (fd, ap, rel)" by (metis surj_pair)
      obtain a s3 where a: "on_host (ph_malloc H (length rel + 1)) s2 = (a, s3)" by (metis surj_pair)
      have pl: "\<not> plenty H \<or> a" using on_host_plenty [OF _ a] by blast
      have s3: "s3 = snd (on_host (ph_malloc H (length rel + 1)) s2)" using a by simp
      have "same_paths s s3"
        using s2 unfolding s3 same_paths_def paths_ok_def on_host_simps by blast
      then show ?thesis
        using m(1) r f Inr res s2 a pl
        by (simp add: find_relpath_alloc_def Let_def s2_def del: One_nat_def) (cases a; simp)
    qed
  qed
qed

end
