(* ===== verification/Posix_Paths.thy ===== *)
theory Posix_Paths
  imports Paths
begin

text \<open>
  The calls that take a path (libc-bottom-half/sources/posix.c), the *at calls with AT_FDCWD or an
  absolute path (at_fdcwd.c), and chdir (chdir.c): each finds the directory descriptor and the
  relative path and makes the call on those.

  The relative path is in one of two static buffers.  A function of posix.c keeps a pointer to a
  buffer, which is the stamp of the buffer at the time; reading the string through a pointer that
  a later realloc made invalid has the result \<open>None\<close>.  The import's view of the working directory
  (\<open>ph_chdir\<close>) is set after the emulated one.
\<close>

section \<open>The static buffers\<close>

definition find_relpath2 :: "'h path_host \<Rightarrow> cstring \<Rightarrow> sbuf \<Rightarrow> 'h paths \<Rightarrow>
    (int option \<times> sbuf \<times> 'h paths) option" where
  "find_relpath2 H path buf s = do {
     (r, buf, s) \<leftarrow> find_relpath_alloc H path buf True s;
     Some ((case r of Inl _ \<Rightarrow> None | Inr (fd, _) \<Rightarrow> Some fd), buf, s) }"

definition find_relpath :: "'h path_host \<Rightarrow> cstring \<Rightarrow> 'h paths \<Rightarrow> ((int option \<times> nat) \<times> 'h paths) option" where
  "find_relpath H path s = do {
     (fd, buf, s) \<leftarrow> find_relpath2 H path (pt_rel s) s;
     Some ((fd, sb_stamp buf), s\<lparr>pt_rel := buf\<rparr>) }"

definition find_relpath_alt :: "'h path_host \<Rightarrow> cstring \<Rightarrow> 'h paths \<Rightarrow> ((int option \<times> nat) \<times> 'h paths) option" where
  "find_relpath_alt H path s = do {
     (fd, buf, s) \<leftarrow> find_relpath2 H path (pt_rel_alt s) s;
     Some ((fd, sb_stamp buf), s\<lparr>pt_rel_alt := buf\<rparr>) }"

text \<open>
  The body of every function of one path: the call on the descriptor and the relative path, or
  ENOENT.  The first argument reads the buffer of \<open>lookup\<close>.
\<close>

definition at_relpath :: "('h paths \<Rightarrow> sbuf) \<Rightarrow> (cstring \<Rightarrow> 'h paths \<Rightarrow> ((int option \<times> nat) \<times> 'h paths) option) \<Rightarrow>
    (int \<Rightarrow> cstring \<Rightarrow> ('h, 'a) wcall) \<Rightarrow> cstring \<Rightarrow> 'h paths \<Rightarrow> ((errno + 'a) \<times> 'h paths) option" where
  "at_relpath buf lookup call path s = do {
     ((fd, p), s) \<leftarrow> lookup path s;
     case fd of
       None \<Rightarrow> Some (Inl ENOENT, s)
     | Some fd \<Rightarrow> do { rel \<leftarrow> sb_read p (buf s); Some (on_host (call fd rel) s) } }"

abbreviation with_relpath :: "'h path_host \<Rightarrow> (int \<Rightarrow> cstring \<Rightarrow> ('h, 'a) wcall) \<Rightarrow> cstring \<Rightarrow> 'h paths \<Rightarrow>
    ((errno + 'a) \<times> 'h paths) option" where
  "with_relpath H \<equiv> at_relpath pt_rel (find_relpath H)"

section \<open>posix.c\<close>

definition open_nomode :: "'h path_host \<Rightarrow> 'h wasi \<Rightarrow> cstring \<Rightarrow> 32 word \<Rightarrow> 'h paths \<Rightarrow> ((errno + int) \<times> 'h paths) option" where
  "open_nomode H W path oflag = with_relpath H (\<lambda>fd rel. nocwd_openat_nomode W fd rel oflag) path"

definition open_path :: "'h path_host \<Rightarrow> 'h wasi \<Rightarrow> cstring \<Rightarrow> 32 word \<Rightarrow> 'h paths \<Rightarrow> ((errno + int) \<times> 'h paths) option" where
  "open_path H W path oflag = open_nomode H W path oflag"

definition access :: "'h path_host \<Rightarrow> 'h wasi \<Rightarrow> cstring \<Rightarrow> 32 word \<Rightarrow> 'h paths \<Rightarrow> ((errno + unit) \<times> 'h paths) option" where
  "access H W path amode = with_relpath H (\<lambda>fd rel. nocwd_faccessat W fd rel amode 0) path"

definition readlink :: "'h path_host \<Rightarrow> 'h wasi \<Rightarrow> cstring \<Rightarrow> nat \<Rightarrow> 'h paths \<Rightarrow> ((errno + char list) \<times> 'h paths) option" where
  "readlink H W path bufsize = with_relpath H (\<lambda>fd rel. nocwd_readlinkat W fd rel bufsize) path"

definition stat_path :: "'h path_host \<Rightarrow> 'h wasi \<Rightarrow> cstring \<Rightarrow> 'h paths \<Rightarrow> ((errno + stat) \<times> 'h paths) option" where
  "stat_path H W path = with_relpath H (\<lambda>fd rel. nocwd_fstatat W fd rel 0) path"

definition lstat :: "'h path_host \<Rightarrow> 'h wasi \<Rightarrow> cstring \<Rightarrow> 'h paths \<Rightarrow> ((errno + stat) \<times> 'h paths) option" where
  "lstat H W path = with_relpath H (\<lambda>fd rel. nocwd_fstatat W fd rel AT_SYMLINK_NOFOLLOW) path"

text \<open>The times argument of utime is the pair of actime and modtime.\<close>

definition utime :: "'h path_host \<Rightarrow> 'h wasi \<Rightarrow> errno \<Rightarrow> cstring \<Rightarrow> (int \<times> int) option \<Rightarrow> 'h paths \<Rightarrow>
    ((errno + unit) \<times> 'h paths) option" where
  "utime H W stale path tms = with_relpath H (\<lambda>fd rel. nocwd_utimensat W stale fd rel
     (map_option (\<lambda>(a, m). (\<lparr>tv_sec = a, tv_nsec = 0\<rparr>, \<lparr>tv_sec = m, tv_nsec = 0\<rparr>)) tms) 0) path"

text \<open>The microseconds have 64 bits, the product too, and the nanoseconds 32.\<close>

definition usec_to_nsec :: "int \<Rightarrow> int" where
  "usec_to_nsec usec = to_int32 (nat (usec * 1000 mod 4294967296))"

definition utimes :: "'h path_host \<Rightarrow> 'h wasi \<Rightarrow> errno \<Rightarrow> cstring \<Rightarrow> (timeval \<times> timeval) option \<Rightarrow> 'h paths \<Rightarrow>
    ((errno + unit) \<times> 'h paths) option" where
  "utimes H W stale path tms = with_relpath H (\<lambda>fd rel. nocwd_utimensat W stale fd rel
     (map_option (\<lambda>(a, m). (\<lparr>tv_sec = tvl_sec a, tv_nsec = usec_to_nsec (tvl_usec a)\<rparr>,
        \<lparr>tv_sec = tvl_sec m, tv_nsec = usec_to_nsec (tvl_usec m)\<rparr>)) tms) 0) path"

definition unlink :: "'h path_host \<Rightarrow> 'h wasi \<Rightarrow> cstring \<Rightarrow> 'h paths \<Rightarrow> ((errno + unit) \<times> 'h paths) option" where
  "unlink H W path = with_relpath H (nocwd_unlinkat W) path"

definition rmdir :: "'h path_host \<Rightarrow> 'h wasi \<Rightarrow> cstring \<Rightarrow> 'h paths \<Rightarrow> ((errno + unit) \<times> 'h paths) option" where
  "rmdir H W path = with_relpath H (nocwd_rmdirat W) path"

text \<open>The two calls of remove.\<close>

definition remove_at :: "'h wasi \<Rightarrow> int \<Rightarrow> cstring \<Rightarrow> ('h, unit) wcall" where
  "remove_at W fd rel h =
     (case nocwd_unlinkat W fd rel h of
        (Inl e, h) \<Rightarrow>
          if e = EISDIR \<or> e = ENOENT
          then map_errno (\<lambda>e. if e = ENOTDIR then ENOENT else e) (nocwd_rmdirat W fd rel h)
          else (Inl e, h)
      | (Inr _, h) \<Rightarrow> (Inr (), h))"

definition remove :: "'h path_host \<Rightarrow> 'h wasi \<Rightarrow> cstring \<Rightarrow> 'h paths \<Rightarrow> ((errno + unit) \<times> 'h paths) option" where
  "remove H W path = with_relpath H (remove_at W) path"

definition mkdir :: "'h path_host \<Rightarrow> 'h wasi \<Rightarrow> cstring \<Rightarrow> 'h paths \<Rightarrow> ((errno + unit) \<times> 'h paths) option" where
  "mkdir H W path = with_relpath H (nocwd_mkdirat_nomode W) path"

definition umask :: "nat \<Rightarrow> nat" where
  "umask mode = mode"

definition chmod :: "cstring \<Rightarrow> nat \<Rightarrow> errno + unit" where
  "chmod path mode = Inr ()"

definition fchmod :: "int \<Rightarrow> nat \<Rightarrow> errno + unit" where
  "fchmod fd mode = Inr ()"

definition fchmodat :: "int \<Rightarrow> cstring \<Rightarrow> nat \<Rightarrow> 32 word \<Rightarrow> errno + unit" where
  "fchmodat fd path mode flag = Inr ()"

definition opendir :: "'h path_host \<Rightarrow> 'h wasi \<Rightarrow> cstring \<Rightarrow> 'h paths \<Rightarrow> ((errno + dir) \<times> 'h paths) option" where
  "opendir H W dirname = with_relpath H (nocwd_opendirat (ph_malloc H) W) dirname"

text \<open>scandir's own loop may not return, so the call has the result of nocwd_scandirat.\<close>

definition scandir :: "'h path_host \<Rightarrow> 'h wasi \<Rightarrow> nat \<Rightarrow> 'h stat_at \<Rightarrow> (dirent list \<Rightarrow> dirent list) \<Rightarrow>
    (dirent \<Rightarrow> bool) option \<Rightarrow> cstring \<Rightarrow> 'h paths \<Rightarrow> ((errno + dirent list) \<times> 'h paths) option" where
  "scandir H W fuel stat_at sorter sel path s = do {
     ((fd, p), s) \<leftarrow> find_relpath H path s;
     case fd of
       None \<Rightarrow> Some (Inl ENOENT, s)
     | Some fd \<Rightarrow> do {
         rel \<leftarrow> sb_read p (pt_rel s);
         (r, h) \<leftarrow> nocwd_scandirat fuel (ph_malloc H) stat_at W sorter fd rel sel (pt_host s);
         Some (r, set_host h s) } }"

definition symlink :: "'h path_host \<Rightarrow> 'h wasi \<Rightarrow> cstring \<Rightarrow> cstring \<Rightarrow> 'h paths \<Rightarrow> ((errno + unit) \<times> 'h paths) option" where
  "symlink H W target linkpath = with_relpath H (nocwd_symlinkat W target) linkpath"

text \<open>Two paths: the old one in the second buffer, the new one in the first.\<close>

definition at_relpaths :: "'h path_host \<Rightarrow> (int \<Rightarrow> cstring \<Rightarrow> int \<Rightarrow> cstring \<Rightarrow> ('h, unit) wcall) \<Rightarrow> cstring \<Rightarrow> cstring \<Rightarrow>
    'h paths \<Rightarrow> ((errno + unit) \<times> 'h paths) option" where
  "at_relpaths H call old new s = do {
     ((old_fd, p), s) \<leftarrow> find_relpath_alt H old s;
     case old_fd of
       None \<Rightarrow> Some (Inl ENOENT, s)
     | Some old_fd \<Rightarrow> do {
         ((new_fd, q), s) \<leftarrow> find_relpath H new s;
         case new_fd of
           None \<Rightarrow> Some (Inl ENOENT, s)
         | Some new_fd \<Rightarrow> do {
             old_rel \<leftarrow> sb_read p (pt_rel_alt s);
             new_rel \<leftarrow> sb_read q (pt_rel s);
             Some (on_host (call old_fd old_rel new_fd new_rel) s) } } }"

definition link :: "'h path_host \<Rightarrow> 'h wasi \<Rightarrow> cstring \<Rightarrow> cstring \<Rightarrow> 'h paths \<Rightarrow> ((errno + unit) \<times> 'h paths) option" where
  "link H W old new = at_relpaths H (\<lambda>fd1 p1 fd2 p2. nocwd_linkat W fd1 p1 fd2 p2 0) old new"

definition rename :: "'h path_host \<Rightarrow> 'h wasi \<Rightarrow> cstring \<Rightarrow> cstring \<Rightarrow> 'h paths \<Rightarrow> ((errno + unit) \<times> 'h paths) option" where
  "rename H W old new = at_relpaths H (nocwd_renameat W) old new"

definition wasilibc_access :: "'h path_host \<Rightarrow> 'h wasi \<Rightarrow> cstring \<Rightarrow> 32 word \<Rightarrow> 32 word \<Rightarrow> 'h paths \<Rightarrow>
    ((errno + unit) \<times> 'h paths) option" where
  "wasilibc_access H W path mode flags = with_relpath H (\<lambda>fd rel. nocwd_faccessat W fd rel mode flags) path"

definition wasilibc_utimens :: "'h path_host \<Rightarrow> 'h wasi \<Rightarrow> errno \<Rightarrow> cstring \<Rightarrow> (timespec \<times> timespec) option \<Rightarrow>
    32 word \<Rightarrow> 'h paths \<Rightarrow> ((errno + unit) \<times> 'h paths) option" where
  "wasilibc_utimens H W stale path tms flags =
     with_relpath H (\<lambda>fd rel. nocwd_utimensat W stale fd rel tms flags) path"

definition wasilibc_stat :: "'h path_host \<Rightarrow> 'h wasi \<Rightarrow> cstring \<Rightarrow> 32 word \<Rightarrow> 'h paths \<Rightarrow>
    ((errno + stat) \<times> 'h paths) option" where
  "wasilibc_stat H W path flags = with_relpath H (\<lambda>fd rel. nocwd_fstatat W fd rel flags) path"

text \<open>Both paths are found with the same buffer here; the strings are read when both have been found.\<close>

definition wasilibc_link :: "'h path_host \<Rightarrow> 'h wasi \<Rightarrow> cstring \<Rightarrow> cstring \<Rightarrow> 32 word \<Rightarrow> 'h paths \<Rightarrow>
    ((errno + unit) \<times> 'h paths) option" where
  "wasilibc_link H W oldpath newpath flags s = do {
     ((old_fd, p), s) \<leftarrow> find_relpath H oldpath s;
     ((new_fd, q), s) \<leftarrow> find_relpath H newpath s;
     case (old_fd, new_fd) of
       (Some old_fd, Some new_fd) \<Rightarrow> do {
         old_rel \<leftarrow> sb_read p (pt_rel s);
         new_rel \<leftarrow> sb_read q (pt_rel s);
         Some (on_host (nocwd_linkat W old_fd old_rel new_fd new_rel flags) s) }
     | _ \<Rightarrow> Some (Inl ENOENT, s) }"

definition link_oldat :: "'h path_host \<Rightarrow> 'h wasi \<Rightarrow> int \<Rightarrow> cstring \<Rightarrow> cstring \<Rightarrow> 32 word \<Rightarrow> 'h paths \<Rightarrow>
    ((errno + unit) \<times> 'h paths) option" where
  "link_oldat H W olddirfd oldpath newpath flags =
     with_relpath H (\<lambda>fd rel. nocwd_linkat W olddirfd oldpath fd rel flags) newpath"

definition link_newat :: "'h path_host \<Rightarrow> 'h wasi \<Rightarrow> cstring \<Rightarrow> int \<Rightarrow> cstring \<Rightarrow> 32 word \<Rightarrow> 'h paths \<Rightarrow>
    ((errno + unit) \<times> 'h paths) option" where
  "link_newat H W oldpath newdirfd newpath flags =
     with_relpath H (\<lambda>fd rel. nocwd_linkat W fd rel newdirfd newpath flags) oldpath"

definition rename_oldat :: "'h path_host \<Rightarrow> 'h wasi \<Rightarrow> int \<Rightarrow> cstring \<Rightarrow> cstring \<Rightarrow> 'h paths \<Rightarrow>
    ((errno + unit) \<times> 'h paths) option" where
  "rename_oldat H W fromdirfd from to = with_relpath H (nocwd_renameat W fromdirfd from) to"

definition rename_newat :: "'h path_host \<Rightarrow> 'h wasi \<Rightarrow> cstring \<Rightarrow> int \<Rightarrow> cstring \<Rightarrow> 'h paths \<Rightarrow>
    ((errno + unit) \<times> 'h paths) option" where
  "rename_newat H W from todirfd to = with_relpath H (\<lambda>fd rel. nocwd_renameat W fd rel todirfd to) from"

section \<open>at_fdcwd.c\<close>

definition at_fdcwd :: "int \<Rightarrow> cstring \<Rightarrow> bool" where
  "at_fdcwd fd path \<longleftrightarrow> fd = AT_FDCWD \<or> (path \<noteq> [] \<and> hd path = slash)"

definition openat :: "'h path_host \<Rightarrow> 'h wasi \<Rightarrow> int \<Rightarrow> cstring \<Rightarrow> 32 word \<Rightarrow> 'h paths \<Rightarrow> ((errno + int) \<times> 'h paths) option" where
  "openat H W fd path flags s =
     (if at_fdcwd fd path then open_path H W path flags s
      else Some (on_host (nocwd_openat_nomode W fd path flags) s))"

definition symlinkat :: "'h path_host \<Rightarrow> 'h wasi \<Rightarrow> cstring \<Rightarrow> int \<Rightarrow> cstring \<Rightarrow> 'h paths \<Rightarrow> ((errno + unit) \<times> 'h paths) option" where
  "symlinkat H W target fd linkpath s =
     (if at_fdcwd fd linkpath then symlink H W target linkpath s
      else Some (on_host (nocwd_symlinkat W target fd linkpath) s))"

definition readlinkat :: "'h path_host \<Rightarrow> 'h wasi \<Rightarrow> int \<Rightarrow> cstring \<Rightarrow> nat \<Rightarrow> 'h paths \<Rightarrow> ((errno + char list) \<times> 'h paths) option" where
  "readlinkat H W fd path bufsiz s =
     (if at_fdcwd fd path then readlink H W path bufsiz s
      else Some (on_host (nocwd_readlinkat W fd path bufsiz) s))"

definition mkdirat :: "'h path_host \<Rightarrow> 'h wasi \<Rightarrow> int \<Rightarrow> cstring \<Rightarrow> 'h paths \<Rightarrow> ((errno + unit) \<times> 'h paths) option" where
  "mkdirat H W fd path s =
     (if at_fdcwd fd path then mkdir H W path s else Some (on_host (nocwd_mkdirat_nomode W fd path) s))"

definition opendirat :: "'h path_host \<Rightarrow> 'h wasi \<Rightarrow> int \<Rightarrow> cstring \<Rightarrow> 'h paths \<Rightarrow> ((errno + dir) \<times> 'h paths) option" where
  "opendirat H W fd path s =
     (if at_fdcwd fd path then opendir H W path s
      else Some (on_host (nocwd_opendirat (ph_malloc H) W fd path) s))"

definition scandirat :: "'h path_host \<Rightarrow> 'h wasi \<Rightarrow> nat \<Rightarrow> 'h stat_at \<Rightarrow> (dirent list \<Rightarrow> dirent list) \<Rightarrow>
    (dirent \<Rightarrow> bool) option \<Rightarrow> int \<Rightarrow> cstring \<Rightarrow> 'h paths \<Rightarrow> ((errno + dirent list) \<times> 'h paths) option" where
  "scandirat H W fuel stat_at sorter sel fd path s =
     (if at_fdcwd fd path then scandir H W fuel stat_at sorter sel path s
      else do {
        (r, h) \<leftarrow> nocwd_scandirat fuel (ph_malloc H) stat_at W sorter fd path sel (pt_host s);
        Some (r, set_host h s) })"

definition faccessat :: "'h path_host \<Rightarrow> 'h wasi \<Rightarrow> int \<Rightarrow> cstring \<Rightarrow> 32 word \<Rightarrow> 32 word \<Rightarrow> 'h paths \<Rightarrow>
    ((errno + unit) \<times> 'h paths) option" where
  "faccessat H W fd path mode flags s =
     (if at_fdcwd fd path then wasilibc_access H W path mode flags s
      else Some (on_host (nocwd_faccessat W fd path mode flags) s))"

definition fstatat :: "'h path_host \<Rightarrow> 'h wasi \<Rightarrow> int \<Rightarrow> cstring \<Rightarrow> 32 word \<Rightarrow> 'h paths \<Rightarrow> ((errno + stat) \<times> 'h paths) option" where
  "fstatat H W fd path flags s =
     (if at_fdcwd fd path then wasilibc_stat H W path flags s
      else Some (on_host (nocwd_fstatat W fd path flags) s))"

definition utimensat :: "'h path_host \<Rightarrow> 'h wasi \<Rightarrow> errno \<Rightarrow> int \<Rightarrow> cstring \<Rightarrow> (timespec \<times> timespec) option \<Rightarrow>
    32 word \<Rightarrow> 'h paths \<Rightarrow> ((errno + unit) \<times> 'h paths) option" where
  "utimensat H W stale fd path tms flags s =
     (if at_fdcwd fd path then wasilibc_utimens H W stale path tms flags s
      else Some (on_host (nocwd_utimensat W stale fd path tms flags) s))"

definition linkat :: "'h path_host \<Rightarrow> 'h wasi \<Rightarrow> int \<Rightarrow> cstring \<Rightarrow> int \<Rightarrow> cstring \<Rightarrow> 32 word \<Rightarrow> 'h paths \<Rightarrow>
    ((errno + unit) \<times> 'h paths) option" where
  "linkat H W olddirfd oldpath newdirfd newpath flags s =
     (if at_fdcwd olddirfd oldpath \<and> at_fdcwd newdirfd newpath then wasilibc_link H W oldpath newpath flags s
      else if at_fdcwd olddirfd oldpath then link_newat H W oldpath newdirfd newpath flags s
      else if at_fdcwd newdirfd newpath then link_oldat H W olddirfd oldpath newpath flags s
      else Some (on_host (nocwd_linkat W olddirfd oldpath newdirfd newpath flags) s))"

definition renameat :: "'h path_host \<Rightarrow> 'h wasi \<Rightarrow> int \<Rightarrow> cstring \<Rightarrow> int \<Rightarrow> cstring \<Rightarrow> 'h paths \<Rightarrow>
    ((errno + unit) \<times> 'h paths) option" where
  "renameat H W olddirfd oldpath newdirfd newpath s =
     (if at_fdcwd olddirfd oldpath \<and> at_fdcwd newdirfd newpath then rename H W oldpath newpath s
      else if at_fdcwd olddirfd oldpath then rename_newat H W oldpath newdirfd newpath s
      else if at_fdcwd newdirfd newpath then rename_oldat H W olddirfd oldpath newpath s
      else Some (on_host (nocwd_renameat W olddirfd oldpath newdirfd newpath) s))"

definition wasilibc_unlinkat :: "'h path_host \<Rightarrow> 'h wasi \<Rightarrow> int \<Rightarrow> cstring \<Rightarrow> 'h paths \<Rightarrow> ((errno + unit) \<times> 'h paths) option" where
  "wasilibc_unlinkat H W fd path s =
     (if at_fdcwd fd path then unlink H W path s else Some (on_host (nocwd_unlinkat W fd path) s))"

definition wasilibc_rmdirat :: "'h path_host \<Rightarrow> 'h wasi \<Rightarrow> int \<Rightarrow> cstring \<Rightarrow> 'h paths \<Rightarrow> ((errno + unit) \<times> 'h paths) option" where
  "wasilibc_rmdirat H W fd path s =
     (if at_fdcwd fd path then rmdir H W path s else Some (on_host (nocwd_rmdirat W fd path) s))"

section \<open>chdir.c\<close>

definition new_cwd :: "cstring \<Rightarrow> cstring \<Rightarrow> cstring" where
  "new_cwd ap rel =
     (let copy_relative = (rel \<noteq> [dot]); mid = (copy_relative \<and> ap \<noteq> []) in
      slash # ap @ (if mid then [slash] else []) @ (if copy_relative then rel else []))"

definition chdir_legacy :: "'h path_host \<Rightarrow> 'h wasi \<Rightarrow> cstring \<Rightarrow> 'h paths \<Rightarrow> ((errno + unit) \<times> 'h paths) option" where
  "chdir_legacy H W path s = do {
     (r, buf, s) \<leftarrow> find_relpath_alloc H path (pt_chdir s) True s;
     let s = s\<lparr>pt_chdir := buf\<rparr>;
     (case r of
        Inl e \<Rightarrow> Some (Inl e, s)
      | Inr (parent_fd, ap) \<Rightarrow> do {
          (dirinfo, s) \<leftarrow> fstatat H W parent_fd (sb_str buf) 0 s;
          (case dirinfo of
             Inl e \<Rightarrow> Some (Inl e, s)
           | Inr st \<Rightarrow>
               if S_IFMT_of (st_mode st) \<noteq> S_IFDIR then Some (Inl ENOTDIR, s)
               else
                 (case on_host (ph_malloc H (length (new_cwd ap (sb_str buf)) + 1)) s of
                    (False, s) \<Rightarrow> Some (Inl ENOMEM, s)
                  | (True, s) \<Rightarrow>
                      Some (Inr (), s\<lparr>pt_cwd := Some (new_cwd ap (sb_str buf)), pt_cwd_mallocd := True\<rparr>))) }) }"

definition chdir :: "'h path_host \<Rightarrow> 'h wasi \<Rightarrow> cstring \<Rightarrow> 'h paths \<Rightarrow> ((errno + unit) \<times> 'h paths) option" where
  "chdir H W path s = do {
     (r, s) \<leftarrow> chdir_legacy H W path s;
     (case r of
        Inl e \<Rightarrow> Some (Inl e, s)
      | Inr _ \<Rightarrow>
          (case on_host (ph_chdir H path) s of
             (e, s) \<Rightarrow> Some (if e \<noteq> 0 then Inl e else Inr (), s))) }"

end
