(* ===== verification/Posix_Theorems.thy ===== *)
theory Posix_Theorems
  imports Posix_Paths Wasi_Theorems
begin

text \<open>
  The contract of the path lookup as a locale, which the two static buffers of posix.c provide, and
  what the calls on paths do: they reach the host with the descriptor and the relative path that
  the working directory and the table determine.
\<close>

definition keeps_paths :: "'h paths \<Rightarrow> 'h paths \<Rightarrow> bool" where
  "keeps_paths s s' \<longleftrightarrow> pt_table s' = pt_table s \<and> pt_cwd s' = pt_cwd s \<and> paths_ok s'"

named_theorems keeps \<open>what is unchanged by lookups and calls of the host\<close>

lemma keeps_refl [keeps]: "paths_ok s \<Longrightarrow> keeps_paths s s"
  by (simp add: keeps_paths_def)

lemma keeps_trans [keeps]: "keeps_paths s s' \<Longrightarrow> keeps_paths s' s'' \<Longrightarrow> keeps_paths s s''"
  by (simp add: keeps_paths_def)

lemma same_keeps [keeps]: "same_paths s s' \<Longrightarrow> keeps_paths s s'"
  by (simp add: keeps_paths_def same_paths_def)

lemma keeps_on_host [keeps]: "paths_ok s \<Longrightarrow> keeps_paths s (snd (on_host f s))"
  unfolding keeps_paths_def paths_ok_def on_host_simps by blast

lemma keeps_buffers [keeps, simp]:
  "keeps_paths s (s'\<lparr>pt_rel := b\<rparr>) = keeps_paths s s'" "keeps_paths s (s'\<lparr>pt_rel_alt := b\<rparr>) = keeps_paths s s'"
  "keeps_paths s (s'\<lparr>pt_chdir := b\<rparr>) = keeps_paths s s'"
  "keeps_paths (s\<lparr>pt_rel := b\<rparr>) s' = keeps_paths s s'" "keeps_paths (s\<lparr>pt_rel_alt := b\<rparr>) s' = keeps_paths s s'"
  by (simp_all add: keeps_paths_def paths_ok_def)

section \<open>The contract of a lookup\<close>

locale relpath_lookup =
  fixes lookup :: "cstring \<Rightarrow> 'h paths \<Rightarrow> ((int option \<times> nat) \<times> 'h paths) option"
    and buf :: "'h paths \<Rightarrow> sbuf"
    and enough :: bool
  assumes lookup_ok: "paths_ok s \<Longrightarrow> pt_cwd s = Some cwd \<Longrightarrow>
    \<exists>fd p s'. lookup path s = Some ((fd, p), s') \<and> keeps_paths s s' \<and>
      (case fd of
         None \<Rightarrow> enough \<longrightarrow> resolve (pt_table s) cwd path = Inl ENOENT
       | Some fd \<Rightarrow> \<exists>ap rel. resolve (pt_table s) cwd path = Inr (fd, ap, rel) \<and> sb_read p (buf s') = Some rel)"
begin

lemma at_relpath_cases:
  assumes "paths_ok s" "pt_cwd s = Some cwd"
  obtains (noent) s' where "at_relpath buf lookup call path s = Some (Inl ENOENT, s')" "keeps_paths s s'"
      "enough \<Longrightarrow> resolve (pt_table s) cwd path = Inl ENOENT"
    | (called) fd ap rel s1 where "resolve (pt_table s) cwd path = Inr (fd, ap, rel)" "keeps_paths s s1"
      "at_relpath buf lookup call path s = Some (on_host (call fd rel) s1)"
proof -
  obtain fd p s' where l: "lookup path s = Some ((fd, p), s')" "keeps_paths s s'"
    "case fd of None \<Rightarrow> enough \<longrightarrow> resolve (pt_table s) cwd path = Inl ENOENT
     | Some fd \<Rightarrow> \<exists>ap rel. resolve (pt_table s) cwd path = Inr (fd, ap, rel) \<and> sb_read p (buf s') = Some rel"
    using lookup_ok [OF assms] by blast
  show ?thesis
  proof (cases fd)
    case None
    then show ?thesis using l by (intro noent [of s']) (auto simp: at_relpath_def)
  next
    case (Some d)
    then obtain ap rel where "resolve (pt_table s) cwd path = Inr (d, ap, rel)" "sb_read p (buf s') = Some rel"
      using l(3) by auto
    then show ?thesis using l Some by (intro called [of d ap rel s']) (auto simp: at_relpath_def)
  qed
qed

lemma at_relpath_found:
  assumes "paths_ok s" "pt_cwd s = Some cwd" "resolve (pt_table s) cwd path = Inr (fd, ap, rel)" enough
  shows "\<exists>s1. keeps_paths s s1 \<and> at_relpath buf lookup call path s = Some (on_host (call fd rel) s1)"
  using assms by (cases rule: at_relpath_cases [OF assms(1,2), of call path]) auto

lemma at_relpath_total:
  assumes "paths_ok s" "pt_cwd s = Some cwd"
  shows "\<exists>r s'. at_relpath buf lookup call path s = Some (r, s') \<and> keeps_paths s s'"
  using assms
proof (cases rule: at_relpath_cases [where call = call and path = path])
  case (noent s')
  then show ?thesis by blast
next
  case (called fd ap rel s1)
  then have "keeps_paths s (snd (on_host (call fd rel) s1))"
    by (meson keeps keeps_paths_def)
  then show ?thesis using called(3) by (metis prod.collapse)
qed

end

lemma find_relpath2_resolves:
  assumes "paths_ok s" "pt_cwd s = Some cwd"
  obtains fd b s' where "find_relpath2 H path buf s = Some (fd, b, s')" "same_paths s s'"
    "fd = None \<and> (plenty H \<longrightarrow> resolve (pt_table s) cwd path = Inl ENOENT) \<or>
     (\<exists>d ap. fd = Some d \<and> resolve (pt_table s) cwd path = Inr (d, ap, sb_str b))"
proof -
  obtain r b s' where f: "find_relpath_alloc H path buf True s = Some (r, b, s')" "same_paths s s'"
    "case r of Inl e \<Rightarrow> (e = ENOENT \<and> resolve (pt_table s) cwd path = Inl ENOENT) \<or> (e = ENOMEM \<and> \<not> plenty H) \<or> (e = ERANGE \<and> \<not> True)
     | Inr (fd, ap) \<Rightarrow> resolve (pt_table s) cwd path = Inr (fd, ap, sb_str b) \<and> length (sb_str b) < sb_len b"
    using find_relpath_resolves [OF assms, of H path buf True] by blast
  then show ?thesis
    by (intro that [of "case r of Inl _ \<Rightarrow> None | Inr (fd, _) \<Rightarrow> Some fd" b s'])
      (auto simp: find_relpath2_def split: sum.splits)
qed

interpretation main: relpath_lookup "find_relpath H" pt_rel "plenty H"
proof
  fix s :: "'a paths" and cwd path
  assume s: "paths_ok s" "pt_cwd s = Some cwd"
  obtain fd b s' where f: "find_relpath2 H path (pt_rel s) s = Some (fd, b, s')" "same_paths s s'"
    "fd = None \<and> (plenty H \<longrightarrow> resolve (pt_table s) cwd path = Inl ENOENT) \<or>
     (\<exists>d ap. fd = Some d \<and> resolve (pt_table s) cwd path = Inr (d, ap, sb_str b))"
    by (rule find_relpath2_resolves [OF s])
  then show "\<exists>fd p s'. find_relpath H path s = Some ((fd, p), s') \<and> keeps_paths s s' \<and>
      (case fd of None \<Rightarrow> plenty H \<longrightarrow> resolve (pt_table s) cwd path = Inl ENOENT
       | Some fd \<Rightarrow> \<exists>ap rel. resolve (pt_table s) cwd path = Inr (fd, ap, rel) \<and> sb_read p (pt_rel s') = Some rel)"
    using same_keeps [OF f(2)] by (auto simp: find_relpath_def sb_read_def split: option.splits)
qed

interpretation alt: relpath_lookup "find_relpath_alt H" pt_rel_alt "plenty H"
proof
  fix s :: "'a paths" and cwd path
  assume s: "paths_ok s" "pt_cwd s = Some cwd"
  obtain fd b s' where f: "find_relpath2 H path (pt_rel_alt s) s = Some (fd, b, s')" "same_paths s s'"
    "fd = None \<and> (plenty H \<longrightarrow> resolve (pt_table s) cwd path = Inl ENOENT) \<or>
     (\<exists>d ap. fd = Some d \<and> resolve (pt_table s) cwd path = Inr (d, ap, sb_str b))"
    by (rule find_relpath2_resolves [OF s])
  then show "\<exists>fd p s'. find_relpath_alt H path s = Some ((fd, p), s') \<and> keeps_paths s s' \<and>
      (case fd of None \<Rightarrow> plenty H \<longrightarrow> resolve (pt_table s) cwd path = Inl ENOENT
       | Some fd \<Rightarrow> \<exists>ap rel. resolve (pt_table s) cwd path = Inr (fd, ap, rel) \<and> sb_read p (pt_rel_alt s') = Some rel)"
    using same_keeps [OF f(2)] by (auto simp: find_relpath_alt_def sb_read_def split: option.splits)
qed

section \<open>Two paths\<close>

lemma find_relpath_alt_kept:
  assumes "paths_ok s" "find_relpath H path s = Some (r, s')"
  shows "pt_rel_alt s' = pt_rel_alt s"
proof -
  obtain cwd where "pt_cwd s = Some cwd" using assms(1) by (auto simp: paths_ok_def)
  then obtain fd b s1 where "find_relpath2 H path (pt_rel s) s = Some (fd, b, s1)" "same_paths s s1"
    using find_relpath2_resolves [OF assms(1)] by blast
  then show ?thesis using assms(2) by (auto simp: find_relpath_def same_paths_def)
qed

lemma at_relpaths_found:
  assumes ok: "paths_ok s" "pt_cwd s = Some cwd" and p: "plenty H"
    and old: "resolve (pt_table s) cwd old = Inr (fd1, ap1, rel1)"
    and new: "resolve (pt_table s) cwd new = Inr (fd2, ap2, rel2)"
  shows "\<exists>s1. keeps_paths s s1 \<and> at_relpaths H call old new s = Some (on_host (call fd1 rel1 fd2 rel2) s1)"
proof -
  obtain fd1' p1 s1 where a: "find_relpath_alt H old s = Some ((fd1', p1), s1)" "keeps_paths s s1"
    "case fd1' of None \<Rightarrow> plenty H \<longrightarrow> resolve (pt_table s) cwd old = Inl ENOENT
     | Some fd \<Rightarrow> \<exists>ap rel. resolve (pt_table s) cwd old = Inr (fd, ap, rel) \<and> sb_read p1 (pt_rel_alt s1) = Some rel"
    using alt.lookup_ok [OF ok] by blast
  have s1: "paths_ok s1" "pt_cwd s1 = Some cwd" "pt_table s1 = pt_table s"
    using a(2) ok by (auto simp: keeps_paths_def)
  obtain fd2' p2 s2 where b: "find_relpath H new s1 = Some ((fd2', p2), s2)" "keeps_paths s1 s2"
    "case fd2' of None \<Rightarrow> plenty H \<longrightarrow> resolve (pt_table s1) cwd new = Inl ENOENT
     | Some fd \<Rightarrow> \<exists>ap rel. resolve (pt_table s1) cwd new = Inr (fd, ap, rel) \<and> sb_read p2 (pt_rel s2) = Some rel"
    using main.lookup_ok [OF s1(1,2)] by blast
  have "pt_rel_alt s2 = pt_rel_alt s1" by (rule find_relpath_alt_kept [OF s1(1) b(1)])
  moreover have "fd1' = Some fd1" "sb_read p1 (pt_rel_alt s1) = Some rel1"
    using a(3) old p by (auto split: option.splits)
  moreover have "fd2' = Some fd2" "sb_read p2 (pt_rel s2) = Some rel2"
    using b(3) new p s1(3) by (auto split: option.splits)
  ultimately show ?thesis
    using a(1,2) b(1,2) by (auto simp: at_relpaths_def intro: keeps_trans)
qed

section \<open>Properties\<close>

text \<open>
  The state in which a path is looked up: nobody holds the lock of the table, its entries have
  descriptors, and the working directory, if it has been asked for, is there.  Before the first
  lookup the working directory is the one the runtime answers.
\<close>

definition lookup_ready :: "'h paths \<Rightarrow> bool" where
  "lookup_ready s \<longleftrightarrow> \<not> pr_locked (pt_pre s) \<and> (\<forall>p \<in> set (pt_table s). po_fd p \<noteq> -1) \<and>
     (pt_cwd_synced s \<longrightarrow> (\<exists>cwd. pt_cwd s = Some cwd \<and> cwd \<noteq> []))"

definition cwd_is :: "'h path_host \<Rightarrow> 'h paths \<Rightarrow> cstring \<Rightarrow> bool" where
  "cwd_is H s cwd \<longleftrightarrow>
     (if pt_cwd_synced s then pt_cwd s = Some cwd
      else \<exists>want h. ph_getcwd H False 256 (pt_host s) = ((0, want, cwd), h))"

definition getcwd_nonempty :: "'h path_host \<Rightarrow> bool" where
  "getcwd_nonempty H \<longleftrightarrow> (\<forall>h want cwd h'. ph_getcwd H False 256 h = ((0, want, cwd), h') \<longrightarrow> cwd \<noteq> [])"

definition lookup_keeps :: "'h path_host \<Rightarrow> 'h paths \<Rightarrow> 'h paths \<Rightarrow> bool" where
  "lookup_keeps H s s' \<longleftrightarrow> pt_table s' = pt_table s \<and> \<not> pr_locked (pt_pre s') \<and>
     (\<forall>cwd. cwd_is H s cwd \<and> (pt_cwd_synced s \<or> plenty H) \<longrightarrow> pt_cwd s' = Some cwd)"

text \<open>The first lookup copies the working directory of the runtime; without memory it is lost.\<close>

lemma sync_cwd_cases:
  assumes "lookup_ready s"
  obtains (unknown) s1 where "sync_cwd H s = (False, s1)" "lookup_keeps H s s1" "\<nexists>cwd. cwd_is H s cwd"
    | (known) cwd s1 where "sync_cwd H s = (True, s1)" "lookup_keeps H s s1" "cwd_is H s cwd"
        "pt_cwd s1 = Some cwd \<or> \<not> pt_cwd_synced s \<and> \<not> plenty H \<and> pt_cwd s1 = None"
proof (cases "pt_cwd_synced s")
  case True
  then obtain cwd where "pt_cwd s = Some cwd" using assms by (auto simp: lookup_ready_def)
  then show ?thesis using assms True
    by (intro known [of s cwd]) (auto simp: sync_cwd_def lookup_keeps_def cwd_is_def lookup_ready_def)
next
  case False
  obtain e want str h where g: "ph_getcwd H False 256 (pt_host s) = ((e, want, str), h)" by (metis surj_pair)
  show ?thesis
  proof (cases "e = 0")
    case False
    then show ?thesis using assms g \<open>\<not> pt_cwd_synced s\<close>
      by (intro unknown [of "set_host h s"])
        (auto simp: sync_cwd_def on_host_def getcwd_def lookup_keeps_def cwd_is_def lookup_ready_def set_host_def)
  next
    case True
    define s0 where "s0 = set_host h s"
    obtain ok s1 where m: "on_host (ph_malloc H (length str + 1)) s0 = (ok, s1)" by (metis surj_pair)
    have s1: "s1 = snd (on_host (ph_malloc H (length str + 1)) s0)" using m by simp
    have pl: "\<not> plenty H \<or> ok" using on_host_plenty [OF _ m] by blast
    let ?t = "s1\<lparr>pt_cwd := (if ok then Some str else None), pt_cwd_synced := True, pt_cwd_mallocd := True\<rparr>"
    have "sync_cwd H s = (True, ?t)"
      using g True False m by (simp add: sync_cwd_def on_host_def getcwd_def s0_def split: prod.splits)
    moreover have "cwd_is H s str" using g True False by (simp add: cwd_is_def)
    moreover have "pt_table s1 = pt_table s" "\<not> pr_locked (pt_pre s1)"
      using assms unfolding s1 on_host_simps by (simp_all add: s0_def set_host_def lookup_ready_def)
    then have "lookup_keeps H s ?t"
      using g True False pl by (auto simp: lookup_keeps_def cwd_is_def)
    ultimately show ?thesis using False pl by (intro known [of ?t str]) auto
  qed
qed

lemma absolute_of_stands_for:
  assumes "cwd \<noteq> []"
  shows "stands_for cwd path (absolute_of cwd path)"
proof (cases "path \<noteq> [] \<and> hd path = slash")
  case True
  then show ?thesis by (simp add: stands_for_def denotes_def absolute_of_def)
next
  case False
  define p where "p = (if take 2 path = [dot, slash] then drop 2 path else path)"
  have p: "path = p \<or> path = dot # slash # p"
    by (cases path rule: tidy.cases) (auto simp: p_def)
  then have st: "steps path = steps p" by auto
  have ti: "tidy path \<Longrightarrow> tidy p \<and> (p = [] \<or> hd p \<noteq> slash)" using p False by (cases p) auto
  have a: "absolute_of cwd path = join_cwd cwd p" using False by (auto simp: absolute_of_def p_def)
  have d: "denotes cwd path = steps cwd @ steps p" using False st by (auto simp: denotes_def)
  show ?thesis
  proof (cases "p = [] \<or> p = [dot] \<or> p = [dot, slash]")
    case True
    then show ?thesis using \<open>\<not> (path \<noteq> [] \<and> hd path = slash)\<close>
      unfolding stands_for_def a d by (auto simp: join_cwd_def)
  next
    case False
    have "steps (cwd @ (if last cwd = slash then [] else [slash]) @ p) = steps cwd @ steps p"
      using steps_append [of cwd p] by (simp add: steps_slash)
    moreover have "tidy (cwd @ (if last cwd = slash then [] else [slash]) @ p)" if "tidy cwd" "tidy path"
      using that(1) ti [OF that(2)] by (cases p) (simp_all add: tidy_append)
    ultimately show ?thesis using \<open>\<not> (path \<noteq> [] \<and> hd path = slash)\<close>
      unfolding stands_for_def a d using False by (auto simp add: join_cwd_def)
  qed
qed

lemma resolve_denotes:
  assumes "cwd \<noteq> []" "\<forall>p \<in> set table. po_fd p \<noteq> -1" "resolve table cwd path = Inr (fd, ap, rel)"
  shows "steps ap @ steps rel = denotes cwd path"
  using find_abspath_steps [OF assms(2) assms(3) [unfolded resolve_def]] absolute_of_stands_for [OF assms(1), of path]
  by (simp add: stands_for_def)

lemma abs_reserve_keeps:
  "lookup_keeps H s s1 \<Longrightarrow> abs_reserve H n s1 = (ok, s2) \<Longrightarrow> lookup_keeps H s s2"
  using on_host_simps [of "ph_malloc H n" s1]
  by (cases "on_host (ph_malloc H n) s1") (auto simp: abs_reserve_def lookup_keeps_def split: if_splits)

text \<open>Why a lookup fails with ENOENT.\<close>

definition no_directory :: "'h path_host \<Rightarrow> 'h paths \<Rightarrow> cstring \<Rightarrow> bool" where
  "no_directory H s path \<longleftrightarrow> \<not> plenty H \<or> (\<nexists>cwd. cwd_is H s cwd) \<or>
     (\<exists>cwd absolute. cwd_is H s cwd \<and> stands_for cwd path absolute \<and> find_abspath (pt_table s) absolute = Inl ENOENT)"

text \<open>The working directory was lost to a failing allocation and is read through NULL.\<close>

definition cwd_lost :: "'h path_host \<Rightarrow> 'h paths \<Rightarrow> cstring \<Rightarrow> bool" where
  "cwd_lost H s path \<longleftrightarrow> \<not> pt_cwd_synced s \<and> \<not> plenty H \<and> (path = [] \<or> hd path \<noteq> slash)"

lemma make_absolute_cases:
  assumes "lookup_ready s" "getcwd_nonempty H"
  obtains (lost) "make_absolute H path s = None" "cwd_lost H s path"
    | (failed) s1 where "make_absolute H path s = Some (Inl (), s1)" "lookup_keeps H s s1" "no_directory H s path"
    | (absolute) cwd p s1 where "make_absolute H path s = Some (Inr p, s1)" "lookup_keeps H s s1"
        "cwd_is H s cwd" "stands_for cwd path p"
  using assms(1)
proof (cases rule: sync_cwd_cases [where H = H])
  case (unknown s1)
  then show ?thesis by (intro failed [of s1]) (auto simp: make_absolute_def no_directory_def)
next
  case (known cwd s1)
  have ne: "cwd \<noteq> []"
    using known(3) assms by (auto simp: cwd_is_def lookup_ready_def getcwd_nonempty_def split: if_splits)
  show ?thesis
  proof (cases "path \<noteq> [] \<and> hd path = slash")
    case True
    then have "stands_for cwd path path" using absolute_of_stands_for [OF ne, of path] by (simp add: absolute_of_def)
    then show ?thesis using known True by (intro absolute [of path s1 cwd]) (simp_all add: make_absolute_def)
  next
    case False
    show ?thesis
    proof (cases "pt_cwd s1")
      case None
      then show ?thesis using known False by (intro lost) (auto simp: make_absolute_def cwd_lost_def Let_def)
    next
      case (Some c)
      then have c: "pt_cwd s1 = Some cwd" using known(4) by simp
      define p where "p = (if take 2 path = [dot, slash] then drop 2 path else path)"
      obtain a s2 where a: "abs_reserve H (szadd (szadd (szadd (length cwd) (length p)) 1)
          (if last cwd = slash then 0 else 1)) s1 = (a, s2)" by (metis surj_pair)
      have m: "make_absolute H path s = Some (if a then Inr (absolute_of cwd path) else Inl (), s2)"
        unfolding make_absolute_def known(1) prod.case bool.case Let_def p_def [symmetric]
        using False c ne a by (auto simp: assert_that_def absolute_of_def p_def)
      have k: "lookup_keeps H s s2" by (rule abs_reserve_keeps [OF known(2) a])
      show ?thesis
      proof (cases a)
        case True
        then show ?thesis using m k known(3) absolute_of_stands_for [OF ne] by (intro absolute) simp_all
      next
        case False
        then have "\<not> plenty H" using abs_reserve_plenty [OF _ a] by blast
        then show ?thesis using m k False by (intro failed) (simp_all add: no_directory_def)
      qed
    qed
  qed
qed

lemma find_relpath_cases:
  assumes "lookup_ready s" "getcwd_nonempty H"
  obtains (lost) "find_relpath H path s = None" "cwd_lost H s path"
    | (failed) p s1 where "find_relpath H path s = Some ((None, p), s1)" "lookup_keeps H s s1" "no_directory H s path"
    | (found) cwd absolute fd ap rel p s1 where "find_relpath H path s = Some ((Some fd, p), s1)"
        "sb_read p (pt_rel s1) = Some rel" "lookup_keeps H s s1" "cwd_is H s cwd" "stands_for cwd path absolute"
        "find_abspath (pt_table s) absolute = Inr (fd, ap, rel)"
  using assms
proof (cases rule: make_absolute_cases [where path = path])
  case lost
  then show ?thesis by (intro that(1)) (simp_all add: find_relpath_def find_relpath2_def find_relpath_alloc_def)
next
  case (failed s1)
  then show ?thesis
    by (intro that(2) [of "sb_stamp (pt_rel s)" "s1\<lparr>pt_rel := pt_rel s\<rparr>"])
      (simp_all add: find_relpath_def find_relpath2_def find_relpath_alloc_def lookup_keeps_def)
next
  case (absolute cwd p s1)
  define q where "q = lock_drop ((pt_pre s1)\<lparr>pr_locked := pr_need_locks (pt_pre s1)\<rparr>)"
  define s2 where "s2 = s1\<lparr>pt_pre := q\<rparr>"
  have f: "wasilibc_find_abspath p (pt_pre s1) = Some (find_abspath (pt_table s) p, q)"
    using absolute(2) by (simp add: wasilibc_find_abspath_def q_def lookup_keeps_def del: lock_roundtrip)
  have k2: "lookup_keeps H s s2"
    using absolute(2) by (simp add: lookup_keeps_def s2_def q_def del: lock_roundtrip)
  show ?thesis
  proof (cases "find_abspath (pt_table s) p")
    case (Inl e)
    have "e = ENOENT" using Inl by (auto simp: find_abspath_def Let_def split: prod.splits if_splits)
    then have "no_directory H s path" using Inl absolute(3,4) by (auto simp: no_directory_def)
    then show ?thesis using absolute(1) f Inl k2
      by (intro that(2) [of "sb_stamp (pt_rel s)" "s2\<lparr>pt_rel := pt_rel s\<rparr>"])
        (simp_all add: find_relpath_def find_relpath2_def find_relpath_alloc_def Let_def s2_def lookup_keeps_def)
  next
    case (Inr res)
    obtain fd ap rel where res: "res = (fd, ap, rel)" by (metis surj_pair)
    obtain a s3 where a: "on_host (ph_malloc H (length rel + 1)) s2 = (a, s3)" by (metis surj_pair)
    have pl: "\<not> plenty H \<or> a" using on_host_plenty [OF _ a] by blast
    have s3: "s3 = snd (on_host (ph_malloc H (length rel + 1)) s2)" using a by simp
    have k3: "lookup_keeps H s s3" using k2 unfolding s3 lookup_keeps_def on_host_simps by blast
    define ok where "ok = (length rel + 1 \<le> sb_len (pt_rel s))"
    define b where "b = (if ok then (pt_rel s)\<lparr>sb_str := rel\<rparr> else if a
      then \<lparr>sb_str = rel, sb_len = length rel + 1, sb_stamp = sb_stamp (pt_rel s) + 1\<rparr> else pt_rel s)"
    define s4 where "s4 = (if ok then s2 else s3)\<lparr>pt_rel := b\<rparr>"
    have k4: "lookup_keeps H s s4" using k2 k3 by (simp add: s4_def lookup_keeps_def)
    have e: "find_relpath H path s = Some ((if ok \<or> a then Some fd else None, sb_stamp b), s4)"
      using absolute(1) f Inr res a
      by (auto simp: find_relpath_def find_relpath2_def find_relpath_alloc_def Let_def s2_def b_def s4_def ok_def)
    show ?thesis
    proof (cases "ok \<or> a")
      case True
      moreover have "sb_read (sb_stamp b) (pt_rel s4) = Some rel"
        using True by (auto simp: sb_read_def s4_def b_def)
      ultimately show ?thesis using e k4 absolute(3,4) Inr res by (intro found) simp_all
    next
      case False
      then show ?thesis using e k4 pl by (intro that(2)) (simp_all add: no_directory_def)
    qed
  qed
qed

text \<open>C6.  openat on AT_FDCWD or an absolute path asks the runtime to open what the path denotes.  The
  names of a path are its parts between slashes, without empty ones and single dots; a relative
  path denotes the names of the working directory and then its own.  The call is made on the
  descriptor of a preopened directory, with a non-empty path relative to it: the names of the prefix
  of the directory and those of the relative path are together exactly what the path denotes, and
  the directory is the one the table gives (find_abspath) for an absolute path that stands for the
  path.  The working directory is the emulated one, or the runtime's answer when it has not been
  asked for yet.  Otherwise the result is ENOENT and the runtime's open is not called (the result is
  the same for every \<open>W\<close>); that happens only when no preopened directory matches, the runtime
  does not tell the working directory, or memory is refused.  The third case is a defect: memory
  refused for the first copy of the working directory leaves it NULL, and a relative path reads it.
  The table and the working directory stay as they are.  The runtime's getcwd, where it succeeds, is
  assumed not to answer the empty string.\<close>

theorem openat_resolves:
  assumes "lookup_ready s" "getcwd_nonempty H" "at_fdcwd fd path"
  shows "(\<exists>cwd absolute p rel s1. cwd_is H s cwd \<and> stands_for cwd path absolute \<and> p \<in> set (pt_table s) \<and>
      find_abspath (pt_table s) absolute = Inr (po_fd p, po_prefix p, rel) \<and>
      steps (po_prefix p) @ steps rel = denotes cwd path \<and> rel \<noteq> [] \<and> lookup_keeps H s s1 \<and>
      (\<forall>W. openat H W fd path flags s = Some (on_host (nocwd_openat_nomode W (po_fd p) rel flags) s1))) \<or>
    (\<exists>s1. no_directory H s path \<and> lookup_keeps H s s1 \<and> (\<forall>W. openat H W fd path flags s = Some (Inl ENOENT, s1))) \<or>
    cwd_lost H s path \<and> (\<forall>W. openat H W fd path flags s = None)"
  using assms(1,2)
proof (cases rule: find_relpath_cases [where path = path])
  case lost
  then show ?thesis using assms(3) by (simp add: openat_def open_path_def open_nomode_def at_relpath_def)
next
  case (failed p s1)
  then show ?thesis using assms(3) by (auto simp: openat_def open_path_def open_nomode_def at_relpath_def)
next
  case (found cwd absolute dfd ap rel q s1)
  have t: "\<forall>p \<in> set (pt_table s). po_fd p \<noteq> -1" using assms(1) by (simp add: lookup_ready_def)
  obtain p where p: "p \<in> set (pt_table s)" "dfd = po_fd p" "ap = po_prefix p"
    "steps ap @ steps rel = steps absolute" "rel \<noteq> []"
    using find_abspath_steps [OF t found(6)] by blast
  have "\<forall>W. openat H W fd path flags s = Some (on_host (nocwd_openat_nomode W (po_fd p) rel flags) s1)"
    using found(1,2) assms(3) p(2) by (simp add: openat_def open_path_def open_nomode_def at_relpath_def)
  moreover have "steps (po_prefix p) @ steps rel = denotes cwd path"
    using p(3,4) found(5) by (simp add: stands_for_def)
  ultimately show ?thesis using found(3-6) p(1,5) unfolding p(2,3) by blast
qed

text \<open>The working directory is lost for good when memory is refused for its first copy.\<close>

lemma cwd_lost_reads_null:
  assumes "\<not> pt_cwd_synced s" "ph_getcwd H False 256 (pt_host s) = ((0, want, cwd), h)"
    "\<And>n h. fst (ph_malloc H n h) = False" "path = [] \<or> hd path \<noteq> slash"
  shows "make_absolute H path s = None"
proof -
  obtain s1 where m: "on_host (ph_malloc H (length cwd + 1)) (set_host h s) = (False, s1)"
    using assms(3) [of "length cwd + 1" "pt_host (set_host h s)"]
    by (cases "ph_malloc H (length cwd + 1) (pt_host (set_host h s))") (auto simp: on_host_def)
  have "sync_cwd H s = (True, s1\<lparr>pt_cwd := None, pt_cwd_synced := True, pt_cwd_mallocd := True\<rparr>)"
    using assms(1,2) m by (simp add: sync_cwd_def on_host_def getcwd_def split: prod.splits)
  then show ?thesis using assms(4) by (auto simp: make_absolute_def Let_def)
qed

definition plain_host :: "unit path_host" where
  "plain_host = \<lparr>ph_malloc = \<lambda>n h. (True, h), ph_getcwd = \<lambda>null n h. ((0, 2, ''/''), h), ph_chdir = \<lambda>p h. (0, h)\<rparr>"

definition plain_paths :: "preopen list \<Rightarrow> cstring \<Rightarrow> unit paths" where
  "plain_paths table cwd =
     \<lparr>pt_pre = preopens_start\<lparr>pr_table := table\<rparr>, pt_cwd = Some cwd, pt_cwd_mallocd = True, pt_cwd_synced = True,
       pt_abs_len = 0, pt_rel = sbuf_null, pt_rel_alt = sbuf_null, pt_chdir = sbuf_null\<rparr>"

lemma plain_ok: "paths_ok (plain_paths table (slash # cwd))" "plenty plain_host"
  by (simp_all add: paths_ok_def plain_paths_def preopens_start_def plenty_def plain_host_def)

lemma plain_simps [simp]: "pt_table (plain_paths table cwd) = table" "pt_cwd (plain_paths table cwd) = Some cwd"
  by (simp_all add: plain_paths_def)

lemma resolve_sample:
  "resolve [\<lparr>po_prefix = ''usr'', po_fd = 3\<rparr>] ''/usr'' ''lib'' = Inr (3, ''usr'', ''lib'')"
  "resolve [\<lparr>po_prefix = ''usr'', po_fd = 3\<rparr>] ''/usr'' ''bin'' = Inr (3, ''usr'', ''bin'')"
  by (simp_all add: resolve_def absolute_of_def join_cwd_def find_abspath_def prefix_matches_def skip_slashes_def
      Let_def numeral_eq_Suc)

text \<open>A runtime that opens everything as descriptor 9.\<close>

definition open_wasi :: "unit wasi" where
  "open_wasi = null_wasi\<lparr>w_fd_fdstat_get := \<lambda>fd h.
     (Inr \<lparr>fs_filetype = 3, fs_flags = 0, fs_rights_base = 0, fs_rights_inheriting = 0\<rparr>, h),
     w_path_open2 := \<lambda>fd l p fl r ri fs fdf h. (Inr 9, h)\<rparr>"

theorem openat_resolves_witness:
  "\<exists>p rel s1. p \<in> set [\<lparr>po_prefix = ''usr'', po_fd = 3\<rparr>] \<and> steps rel = [''lib''] \<and>
     openat plain_host open_wasi (-2) ''lib'' O_RDONLY (plain_paths [\<lparr>po_prefix = ''usr'', po_fd = 3\<rparr>] ''/usr'') =
       Some (on_host (nocwd_openat_nomode open_wasi (po_fd p) rel O_RDONLY) s1)"
proof -
  let ?s = "plain_paths [\<lparr>po_prefix = ''usr'', po_fd = 3\<rparr>] ''/usr''"
  have s: "lookup_ready ?s" "getcwd_nonempty plain_host" "at_fdcwd (-2) ''lib''"
    by (simp_all add: lookup_ready_def plain_paths_def preopens_start_def getcwd_nonempty_def plain_host_def at_fdcwd_def)
  have c: "cwd_is plain_host ?s cwd \<longleftrightarrow> cwd = ''/usr''" for cwd
    by (auto simp: cwd_is_def plain_paths_def)
  have d: "denotes ''/usr'' ''lib'' = [''usr'', ''lib'']" "steps ''usr'' = [''usr'']"
    by (simp_all add: denotes_def steps_def)
  have o: "fst (nocwd_openat_nomode open_wasi fd path O_RDONLY h) = Inr 9" for fd path h
    by (simp add: nocwd_openat_nomode_def open_wasi_def openat_rights_def Let_def)
  have "resolve (pt_table ?s) ''/usr'' ''lib'' = Inr (3, ''usr'', ''lib'')" using resolve_sample(1) by simp
  from main.at_relpath_found [OF plain_ok(1) plain_simps(2) this plain_ok(2)]
  obtain s1 where "openat plain_host open_wasi (-2) ''lib'' O_RDONLY ?s =
      Some (on_host (nocwd_openat_nomode open_wasi 3 ''lib'' O_RDONLY) s1)"
    by (auto simp: openat_def at_fdcwd_def open_path_def open_nomode_def)
  moreover have "fst (on_host (nocwd_openat_nomode open_wasi 3 ''lib'' O_RDONLY) s1) = Inr 9"
    using o [of 3 "''lib''" "pt_host s1"] by (auto simp: on_host_def split: prod.splits)
  ultimately have "map_option fst (openat plain_host open_wasi (-2) ''lib'' O_RDONLY ?s) = Some (Inr 9)" by simp
  then have n: "openat plain_host open_wasi (-2) ''lib'' O_RDONLY ?s \<noteq> Some (Inl ENOENT, s1)"
    "openat plain_host open_wasi (-2) ''lib'' O_RDONLY ?s \<noteq> None" for s1 by auto
  let ?opened = "\<lambda>cwd p rel s1. cwd_is plain_host ?s cwd \<and> p \<in> set (pt_table ?s) \<and>
    steps (po_prefix p) @ steps rel = denotes cwd ''lib'' \<and>
    (\<forall>W. openat plain_host W (-2) ''lib'' O_RDONLY ?s = Some (on_host (nocwd_openat_nomode W (po_fd p) rel O_RDONLY) s1))"
  have "\<exists>cwd p rel s1. ?opened cwd p rel s1"
    using openat_resolves [OF s, of O_RDONLY]
  proof (elim disjE)
    assume "\<exists>s1. no_directory plain_host ?s ''lib'' \<and> lookup_keeps plain_host ?s s1 \<and>
      (\<forall>W. openat plain_host W (-2) ''lib'' O_RDONLY ?s = Some (Inl ENOENT, s1))"
    then show ?thesis using n(1) by blast
  next
    assume "cwd_lost plain_host ?s ''lib'' \<and> (\<forall>W. openat plain_host W (-2) ''lib'' O_RDONLY ?s = None)"
    then have "openat plain_host open_wasi (-2) ''lib'' O_RDONLY ?s = None" by blast
    with n(2) show ?thesis by contradiction
  qed blast
  then obtain cwd p rel s1 where r: "cwd_is plain_host ?s cwd" "p \<in> set (pt_table ?s)"
    "steps (po_prefix p) @ steps rel = denotes cwd ''lib''"
    "openat plain_host open_wasi (-2) ''lib'' O_RDONLY ?s = Some (on_host (nocwd_openat_nomode open_wasi (po_fd p) rel O_RDONLY) s1)"
    by blast
  have p: "p \<in> set [\<lparr>po_prefix = ''usr'', po_fd = 3\<rparr>]" using r(2) by simp
  then have "po_prefix p = ''usr''" by simp
  then have "steps rel = [''lib'']" using r(1,3) d c by simp
  with p r(4) show ?thesis by blast
qed

text \<open>renameat with two paths from the working directory or the root reaches the host with both paths
  resolved: finding the new path leaves the relative path of the old one intact, as each has its
  own static buffer.\<close>

theorem renameat_resolves:
  assumes "paths_ok s" "pt_cwd s = Some cwd" "plenty H" "at_fdcwd fd1 old" "at_fdcwd fd2 new"
    "resolve (pt_table s) cwd old = Inr (d1, ap1, rel1)" "resolve (pt_table s) cwd new = Inr (d2, ap2, rel2)"
  shows "\<exists>s1. keeps_paths s s1 \<and>
    renameat H W fd1 old fd2 new s = Some (on_host (nocwd_renameat W d1 rel1 d2 rel2) s1)"
  using at_relpaths_found [OF assms(1,2,3,6,7)] assms(4,5) by (simp add: renameat_def rename_def)

theorem renameat_resolves_witness:
  "\<exists>s1. renameat plain_host null_wasi (-2) ''lib'' (-2) ''bin'' (plain_paths [\<lparr>po_prefix = ''usr'', po_fd = 3\<rparr>] ''/usr'') =
     Some (on_host (nocwd_renameat null_wasi 3 ''lib'' 3 ''bin'') s1)"
  using renameat_resolves [OF plain_ok(1) plain_simps(2) plain_ok(2), of "-2" "''lib''" "-2" "''bin''"
      "[\<lparr>po_prefix = ''usr'', po_fd = 3\<rparr>]" "''usr''" 3 "''usr''" "''lib''" 3 "''usr''" "''bin''" null_wasi] resolve_sample
  by (auto simp: at_fdcwd_def)

text \<open>linkat with AT_FDCWD or absolute paths on both sides never links the old path: it finds both
  paths with the same static buffer, so the call that reaches the host has the relative path of
  the new name for both, or reads a buffer that was moved by the second lookup.\<close>

theorem linkat_loses_old_path:
  assumes "paths_ok s" "pt_cwd s = Some cwd" "plenty H" "at_fdcwd fd1 old" "at_fdcwd fd2 new"
    "resolve (pt_table s) cwd old = Inr (d1, ap1, rel1)" "resolve (pt_table s) cwd new = Inr (d2, ap2, rel2)"
  shows "linkat H W fd1 old fd2 new flags s = None \<or>
    (\<exists>s1. linkat H W fd1 old fd2 new flags s = Some (on_host (nocwd_linkat W d1 rel2 d2 rel2 flags) s1))"
proof -
  obtain f1 p1 s1 where a: "find_relpath H old s = Some ((f1, p1), s1)" "keeps_paths s s1"
    "case f1 of None \<Rightarrow> plenty H \<longrightarrow> resolve (pt_table s) cwd old = Inl ENOENT
     | Some fd \<Rightarrow> \<exists>ap rel. resolve (pt_table s) cwd old = Inr (fd, ap, rel) \<and> sb_read p1 (pt_rel s1) = Some rel"
    using main.lookup_ok [OF assms(1,2)] by blast
  have s1: "paths_ok s1" "pt_cwd s1 = Some cwd" "pt_table s1 = pt_table s"
    using a(2) assms(2) by (auto simp: keeps_paths_def)
  obtain f2 p2 s2 where b: "find_relpath H new s1 = Some ((f2, p2), s2)"
    "case f2 of None \<Rightarrow> plenty H \<longrightarrow> resolve (pt_table s1) cwd new = Inl ENOENT
     | Some fd \<Rightarrow> \<exists>ap rel. resolve (pt_table s1) cwd new = Inr (fd, ap, rel) \<and> sb_read p2 (pt_rel s2) = Some rel"
    using main.lookup_ok [OF s1(1,2)] by blast
  have f1: "f1 = Some d1" using a(3) assms(3,6) by (auto split: option.splits)
  have f2: "f2 = Some d2" "sb_read p2 (pt_rel s2) = Some rel2"
    using b(2) assms(3,7) s1(3) by (auto split: option.splits)
  have "linkat H W fd1 old fd2 new flags s =
      (case sb_read p1 (pt_rel s2) of None \<Rightarrow> None
       | Some old_rel \<Rightarrow> Some (on_host (nocwd_linkat W d1 old_rel d2 rel2 flags) s2))"
    using assms(4,5) a(1) b(1) f1 f2 by (simp add: linkat_def wasilibc_link_def split: option.splits)
  moreover have "sb_read p1 (pt_rel s2) = None \<or> sb_read p1 (pt_rel s2) = Some rel2"
    using f2(2) by (auto simp: sb_read_def split: if_splits)
  ultimately show ?thesis by auto
qed

theorem linkat_loses_old_path_witness:
  "linkat plain_host null_wasi (-2) ''lib'' (-2) ''bin'' 0 (plain_paths [\<lparr>po_prefix = ''usr'', po_fd = 3\<rparr>] ''/usr'') = None \<or>
   (\<exists>s1. linkat plain_host null_wasi (-2) ''lib'' (-2) ''bin'' 0 (plain_paths [\<lparr>po_prefix = ''usr'', po_fd = 3\<rparr>] ''/usr'') =
     Some (on_host (nocwd_linkat null_wasi 3 ''bin'' 3 ''bin'' 0) s1))"
  by (rule linkat_loses_old_path [OF plain_ok(1) plain_simps(2) plain_ok(2)])
    (simp_all only: plain_simps resolve_sample at_fdcwd_def simp_thms)

section \<open>chdir\<close>

lemma fstatat_total:
  assumes "paths_ok s"
  shows "\<exists>r s'. fstatat H W fd path flags s = Some (r, s') \<and> keeps_paths s s'"
proof -
  obtain cwd where cwd: "pt_cwd s = Some cwd" using assms by (auto simp: paths_ok_def)
  have "\<exists>r s'. Some (on_host f s) = Some (r, s') \<and> keeps_paths s s'" for f :: "'a \<Rightarrow> (errno + stat) \<times> 'a"
    using keeps_on_host [OF assms, of f] by (metis prod.collapse)
  then show ?thesis
    using main.at_relpath_total [OF assms cwd, of H "\<lambda>fd rel. nocwd_fstatat W fd rel flags" path]
    by (simp add: fstatat_def wasilibc_stat_def)
qed

lemma new_cwd_absolute: "\<exists>c. new_cwd ap rel = slash # c"
  by (simp add: new_cwd_def Let_def)

lemma chdir_legacy_cases:
  assumes ok: "paths_ok s" "pt_cwd s = Some cwd"
  obtains (failed) e s' where "chdir_legacy H W path s = Some (Inl e, s')" "keeps_paths s s'"
    | (changed) fd ap rel st s1 s2 s' where "resolve (pt_table s) cwd path = Inr (fd, ap, rel)"
      "fstatat H W fd rel 0 s1 = Some (Inr st, s2)" "keeps_paths s s1" "S_IFMT_of (st_mode st) = S_IFDIR"
      "chdir_legacy H W path s = Some (Inr (), s')" "pt_cwd s' = Some (new_cwd ap rel)" "paths_ok s'"
      "pt_table s' = pt_table s"
proof -
  obtain r b s1 where f: "find_relpath_alloc H path (pt_chdir s) True s = Some (r, b, s1)" "same_paths s s1"
    "case r of Inl e \<Rightarrow> (e = ENOENT \<and> resolve (pt_table s) cwd path = Inl ENOENT) \<or> (e = ENOMEM \<and> \<not> plenty H) \<or> (e = ERANGE \<and> \<not> True)
     | Inr (fd, ap) \<Rightarrow> resolve (pt_table s) cwd path = Inr (fd, ap, sb_str b) \<and> length (sb_str b) < sb_len b"
    using find_relpath_resolves [OF ok, of H path "pt_chdir s" True] by blast
  have k1: "keeps_paths s (s1\<lparr>pt_chdir := b\<rparr>)" using same_keeps [OF f(2)] by simp
  show ?thesis
  proof (cases r)
    case (Inl e)
    then show ?thesis using f(1) k1 by (intro failed [of e "s1\<lparr>pt_chdir := b\<rparr>"]) (simp_all add: chdir_legacy_def Let_def)
  next
    case (Inr x)
    obtain fd ap where x: "x = (fd, ap)" by (cases x)
    have "paths_ok (s1\<lparr>pt_chdir := b\<rparr>)" using k1 by (simp add: keeps_paths_def)
    then obtain d s2 where st: "fstatat H W fd (sb_str b) 0 (s1\<lparr>pt_chdir := b\<rparr>) = Some (d, s2)"
      "keeps_paths (s1\<lparr>pt_chdir := b\<rparr>) s2" using fstatat_total by blast
    have k2: "keeps_paths s s2" using keeps_trans [OF k1 st(2)] .
    obtain a s3 where m: "on_host (ph_malloc H (length (new_cwd ap (sb_str b)) + 1)) s2 = (a, s3)" by (metis surj_pair)
    have s3: "s3 = snd (on_host (ph_malloc H (length (new_cwd ap (sb_str b)) + 1)) s2)" using m by simp
    have k3: "keeps_paths s s3"
      using keeps_trans [OF k2 keeps_on_host] k2 unfolding s3 by (simp add: keeps_paths_def)
    show ?thesis
    proof (cases "\<exists>st. d = Inr st \<and> S_IFMT_of (st_mode st) = S_IFDIR \<and> a")
      case True
      then obtain t where t: "d = Inr t" "S_IFMT_of (st_mode t) = S_IFDIR" "a" by blast
      show ?thesis
        by (rule changed [of fd ap "sb_str b" "s1\<lparr>pt_chdir := b\<rparr>" t s2
            "s3\<lparr>pt_cwd := Some (new_cwd ap (sb_str b)), pt_cwd_mallocd := True\<rparr>"])
          (use ok(1) f st m t k1 k3 Inr x new_cwd_absolute [of ap "sb_str b"] in
            \<open>simp_all add: chdir_legacy_def Let_def keeps_paths_def paths_ok_def\<close>)
    next
      case False
      show ?thesis
      proof (cases d)
        case (Inl e)
        then show ?thesis using f st k2 Inr x
          by (intro failed [of e s2]) (simp_all add: chdir_legacy_def Let_def)
      next
        case (Inr t)
        show ?thesis
        proof (cases "S_IFMT_of (st_mode t) = S_IFDIR")
          case True
          then have "\<not> a" using False Inr by blast
          then show ?thesis using f st k3 Inr x True m \<open>r = Inr x\<close>
            by (intro failed [of ENOMEM s3]) (simp_all add: chdir_legacy_def Let_def)
        next
          case False
          then show ?thesis using f st k2 Inr x \<open>r = Inr x\<close>
            by (intro failed [of ENOTDIR s2]) (simp_all add: chdir_legacy_def Let_def)
        qed
      qed
    qed
  qed
qed

text \<open>chdir either fails in the library, and the working directory is what it was, or the path resolved to a
  directory, the working directory is the slash, the matched prefix and the relative path, and the
  result is that of the runtime: when the runtime refuses, the call fails although the emulated
  directory has changed.  In every case the directory stays an absolute path and the preopened
  directories stay as they are.\<close>

theorem chdir_spec:
  assumes "paths_ok s" "pt_cwd s = Some cwd"
  shows "\<exists>r s'. chdir H W path s = Some (r, s') \<and> paths_ok s' \<and> pt_table s' = pt_table s \<and>
    ((\<exists>e. r = Inl e) \<and> pt_cwd s' = Some cwd \<or>
     (\<exists>fd ap rel st s1 s2 s3. resolve (pt_table s) cwd path = Inr (fd, ap, rel) \<and>
        fstatat H W fd rel 0 s1 = Some (Inr st, s2) \<and> S_IFMT_of (st_mode st) = S_IFDIR \<and>
        pt_cwd s' = Some (new_cwd ap rel) \<and>
        r = (let e = fst (on_host (ph_chdir H path) s3) in if e \<noteq> 0 then Inl e else Inr ())))"
  using assms
proof (cases rule: chdir_legacy_cases [where H = H and W = W and path = path])
  case (failed e s')
  then show ?thesis using assms by (simp add: chdir_def keeps_paths_def)
next
  case (changed fd ap rel st s1 s2 s')
  let ?c = "on_host (ph_chdir H path) s'"
  have "chdir H W path s = Some (if fst ?c \<noteq> 0 then Inl (fst ?c) else Inr (), snd ?c)"
    using changed(5) by (simp add: chdir_def split: prod.split)
  moreover have "keeps_paths s' (snd ?c)" using keeps_on_host [OF changed(7)] .
  ultimately show ?thesis
    using changed(1,2,4,6,8) unfolding keeps_paths_def Let_def
    by (intro exI [where x = "if fst ?c \<noteq> 0 then Inl (fst ?c) else Inr ()"] exI [where x = "snd ?c"] conjI disjI2
        exI [where x = fd] exI [where x = ap] exI [where x = rel] exI [where x = st] exI [where x = s1]
        exI [where x = s2] exI [where x = s']) simp_all
qed

text \<open>A host on which every path is a directory.\<close>

definition dir_wasi :: "unit wasi" where
  "dir_wasi = null_wasi\<lparr>w_path_filestat_get := \<lambda>fd l p h.
     (Inr \<lparr>wf_dev = 0, wf_ino = 1, wf_filetype = 3, wf_nlink = 1, wf_size = 0, wf_atim = 0, wf_mtim = 0, wf_ctim = 0\<rparr>, h)\<rparr>"

theorem chdir_spec_witness:
  "\<exists>r s'. chdir plain_host dir_wasi ''lib'' (plain_paths [\<lparr>po_prefix = ''usr'', po_fd = 3\<rparr>] ''/usr'') = Some (r, s') \<and>
     paths_ok s'"
  using chdir_spec [OF plain_ok(1) plain_simps(2), of plain_host dir_wasi "''lib''"
      "[\<lparr>po_prefix = ''usr'', po_fd = 3\<rparr>]" "''usr''"] by blast

text \<open>With the root as the only preopened directory, a change to a directory puts one more slash in front
  of the working directory than the path has: the relative path of the root keeps its slash and
  another one is prepended.  From there each chdir to a relative path adds one more.\<close>

theorem chdir_adds_slash:
  assumes "paths_ok s" "pt_cwd s = Some cwd" "pt_table s = [\<lparr>po_prefix = [], po_fd = fd\<rparr>]" "fd \<noteq> -1"
    "chdir_legacy H W path s = Some (Inr (), s')"
  shows "pt_cwd s' = Some (slash # absolute_of cwd path)"
proof -
  have ne: "absolute_of cwd path \<noteq> []"
    using assms(1,2) by (auto simp: absolute_of_def join_cwd_def paths_ok_def)
  have hd: "absolute_of cwd path \<noteq> [dot]"
    using assms(1,2) by (auto simp: absolute_of_def join_cwd_def paths_ok_def)
  have "dropWhile (\<lambda>c. c = slash) p = [] \<or> hd (dropWhile (\<lambda>c. c = slash) p) \<noteq> slash" for p
    using hd_dropWhile [of "\<lambda>c. c = slash" p] by auto
  then have "resolve (pt_table s) cwd path = Inr (fd, [], absolute_of cwd path)"
    using ne assms(3,4) by (simp add: resolve_def find_abspath_def prefix_matches_def Let_def)
  then have "new_cwd ap rel = slash # absolute_of cwd path"
    if "resolve (pt_table s) cwd path = Inr (d, ap, rel)" for d ap rel
    using that hd by (simp add: new_cwd_def)
  then show ?thesis
    using chdir_legacy_cases [OF assms(1,2), of H W path] assms(5) by (metis Inl_Inr_False option.inject prod.inject)
qed

theorem chdir_adds_slash_witness:
  "\<exists>s'. chdir_legacy plain_host dir_wasi ''/a'' (plain_paths [\<lparr>po_prefix = [], po_fd = 3\<rparr>] ''/'') = Some (Inr (), s') \<and>
     pt_cwd s' = Some ''//a''"
proof -
  let ?s = "plain_paths [\<lparr>po_prefix = [], po_fd = 3\<rparr>] ''/''"
  have "\<exists>s'. chdir_legacy plain_host dir_wasi ''/a'' ?s = Some (Inr (), s')"
    by (simp add: chdir_legacy_def find_relpath_alloc_def make_absolute_def sync_cwd_def plain_paths_def
      wasilibc_find_abspath_def find_abspath_def prefix_matches_def preopens_start_def lock_take_def lock_drop_def
      Let_def plain_host_def on_host_def set_host_def sbuf_null_def fstatat_def at_fdcwd_def wasilibc_stat_def
      at_relpath_def find_relpath_def find_relpath2_def sb_read_def nocwd_fstatat_def map_result_def dir_wasi_def
      pt_host_def to_public_stat_def filetype_mode_def S_IFMT_of_def)
  then obtain s' where s': "chdir_legacy plain_host dir_wasi ''/a'' ?s = Some (Inr (), s')" by blast
  have "pt_cwd s' = Some (slash # absolute_of ''/'' ''/a'')"
    by (rule chdir_adds_slash [OF plain_ok(1) plain_simps(2) plain_simps(1) _ s']) simp
  then show ?thesis using s' by (simp add: absolute_of_def)
qed

end
