(* ===== verification/Tsearch.thy ===== *)
theory Tsearch
  imports Prelude
begin

text \<open>
  The balanced trees of search.h (libc-top-half/musl/src/search: tsearch.c, tfind.c, tdelete.c,
  tdestroy.c, twalk.c).

  A node carries its address, so that the pointers that the functions return are addresses of
  nodes.  The array of pointers to pointers that a search leaves behind is a list of frames, the
  last one first: a frame is the node whose link was followed, without that link, and assigning
  through the pointer fills the frame.  The result \<open>None\<close> is an undefined behaviour: a NULL that is
  dereferenced or a write beyond the end of the array.  Heights are ints without overflow.
\<close>

datatype 'k node = Null | Node (adr: nat) (nkey: 'k) "'k node" "'k node" (nh: int)

fun height :: "'k node \<Rightarrow> int" where
  "height Null = 0"
| "height (Node a k l r h) = h"

fun child :: "bool \<Rightarrow> 'k node \<Rightarrow> 'k node" where
  "child d Null = Null"
| "child d (Node a k l r h) = (if d then r else l)"

text \<open>A node by its child in a direction and the other one.\<close>

definition mk :: "bool \<Rightarrow> nat \<Rightarrow> 'k \<Rightarrow> 'k node \<Rightarrow> 'k node \<Rightarrow> int \<Rightarrow> 'k node" where
  "mk d a k same other h = (if d then Node a k other same h else Node a k same other h)"

definition rot :: "'k node \<Rightarrow> bool \<Rightarrow> ('k node \<times> int) option" where
  "rot x dir =
     (case x of
        Null \<Rightarrow> None
      | Node ax kx _ _ hx \<Rightarrow>
          (case child dir x of
             Null \<Rightarrow> None
           | Node ay ky yl yr hy \<Rightarrow>
               (let y = Node ay ky yl yr hy; z = child (\<not> dir) y; hz = height z in
                if hz > height (child dir y) then
                  (case z of
                     Null \<Rightarrow> None
                   | Node az kz zl zr _ \<Rightarrow>
                       Some (mk dir az kz
                              (mk dir ay ky (child dir y) (child dir z) hz)
                              (mk dir ax kx (child (\<not> dir) z) (child (\<not> dir) x) hz) (hz + 1),
                            hz + 1 - hx))
                else
                  Some (mk dir ay ky (child dir y) (mk dir ax kx z (child (\<not> dir) x) (hz + 1)) (hz + 2),
                    hz + 2 - hx))))"

definition tsearch_balance :: "'k node \<Rightarrow> ('k node \<times> int) option" where
  "tsearch_balance n =
     (case n of
        Null \<Rightarrow> None
      | Node a k l r old \<Rightarrow>
          (let h0 = height l; h1 = height r in
           if (h0 - h1 + 1) mod 4294967296 < 3 then
             (let h = (if h0 < h1 then h1 + 1 else h0 + 1) in Some (Node a k l r h, h - old))
           else rot n (h0 < h1)))"

section \<open>Paths\<close>

datatype 'k frame = Frame bool nat 'k "'k node" int

fun fill :: "'k frame \<Rightarrow> 'k node \<Rightarrow> 'k node" where
  "fill (Frame d a k other h) n = mk d a k n other h"

definition plug :: "'k frame list \<Rightarrow> 'k node \<Rightarrow> 'k node" where
  "plug fs n = fold fill fs n"

text \<open>The slots of the array a of tsearch.\<close>

abbreviation MAXH :: nat where "MAXH \<equiv> 48"

text \<open>
  The loop of the search from a node on, with a limit on the number of frames: the node that
  compares equal, or Null, and the frames.
\<close>

fun descend :: "nat \<Rightarrow> ('k \<Rightarrow> 'k \<Rightarrow> int) \<Rightarrow> 'k \<Rightarrow> 'k node \<Rightarrow> 'k frame list \<Rightarrow> ('k node \<times> 'k frame list) option" where
  "descend maxf cmp key Null fs = Some (Null, fs)"
| "descend maxf cmp key (Node a k l r h) fs =
     (let c = cmp key k in
      if c = 0 then Some (Node a k l r h, fs)
      else if length fs < maxf then
        descend maxf cmp key (if c > 0 then r else l)
          (Frame (c > 0) a k (if c > 0 then l else r) h # fs)
      else None)"

text \<open>The loop that rebalances the ancestors of a changed node; it ends when a height stays the same.\<close>

fun rebalance :: "'k frame list \<Rightarrow> 'k node \<Rightarrow> 'k node option" where
  "rebalance [] n = Some n"
| "rebalance (f # fs) n =
     (case tsearch_balance (fill f n) of
        None \<Rightarrow> None
      | Some (m, d) \<Rightarrow> if d = 0 then Some (plug fs m) else rebalance fs m)"

section \<open>Operations\<close>

text \<open>
  The argument \<open>new\<close> is the result of malloc.  The result is the returned node (NULL when there is
  none) and the tree.
\<close>

definition tsearch :: "('k \<Rightarrow> 'k \<Rightarrow> int) \<Rightarrow> nat option \<Rightarrow> 'k \<Rightarrow> 'k node \<Rightarrow> (nat option \<times> 'k node) option" where
  "tsearch cmp new key root =
     (case descend (MAXH - 1) cmp key root [] of
        None \<Rightarrow> None
      | Some (Node a k l r h, fs) \<Rightarrow> Some (Some a, root)
      | Some (Null, fs) \<Rightarrow>
          (case new of
             None \<Rightarrow> Some (None, root)
           | Some a \<Rightarrow> map_option (Pair (Some a)) (rebalance fs (Node a key Null Null 1))))"

fun tfind :: "('k \<Rightarrow> 'k \<Rightarrow> int) \<Rightarrow> 'k \<Rightarrow> 'k node \<Rightarrow> nat option" where
  "tfind cmp key Null = None"
| "tfind cmp key (Node a k l r h) =
     (let c = cmp key k in
      if c = 0 then Some a else tfind cmp key (if c > 0 then r else l))"

text \<open>The way to the greatest node of a subtree: that node and the frames.\<close>

fun rightmost :: "'k node \<Rightarrow> 'k frame list \<Rightarrow> 'k node \<times> 'k frame list" where
  "rightmost Null fs = (Null, fs)"
| "rightmost (Node a k l r h) fs =
     (if r = Null then (Node a k l r h, fs) else rightmost r (Frame True a k l h # fs))"

text \<open>
  The replacement of the node by its only child, or of its key by the key of the node before it,
  which then is the one that is freed.
\<close>

definition tdelete_node :: "nat \<Rightarrow> 'k node \<Rightarrow> 'k frame list \<Rightarrow> 'k node option" where
  "tdelete_node maxf n fs =
     (case n of
        Null \<Rightarrow> None
      | Node a k l r h \<Rightarrow>
          if l = Null then rebalance fs r
          else (case rightmost l [] of
                  (Node _ k' l' _ _, gs) \<Rightarrow>
                    if length gs + length fs < maxf then rebalance (gs @ Frame False a k' r h # fs) l' else None
                | (Null, _) \<Rightarrow> None))"

text \<open>
  The result of tdelete: the address of the parent, the address of the root when that is what was
  deleted (it may have been freed), or NULL when there is no such key.
\<close>

definition tdelete :: "('k \<Rightarrow> 'k \<Rightarrow> int) \<Rightarrow> 'k \<Rightarrow> 'k node \<Rightarrow> (nat option \<times> 'k node) option" where
  "tdelete cmp key root =
     (case descend (MAXH - 1) cmp key root [] of
        None \<Rightarrow> None
      | Some (Null, fs) \<Rightarrow> Some (None, root)
      | Some (n, fs) \<Rightarrow>
          map_option (Pair (Some (case fs of [] \<Rightarrow> adr n | Frame d a k other h # _ \<Rightarrow> a)))
            (tdelete_node (MAXH - 1) n fs))"

text \<open>The keys in the order in which they are freed.\<close>

fun tdestroy :: "'k node \<Rightarrow> 'k list" where
  "tdestroy Null = []"
| "tdestroy (Node a k l r h) = tdestroy l @ tdestroy r @ [k]"

datatype visit = Preorder | Postorder | Endorder | Leaf_node

text \<open>The calls of the action.\<close>

fun walk :: "'k node \<Rightarrow> nat \<Rightarrow> (nat \<times> visit \<times> nat) list" where
  "walk Null d = []"
| "walk (Node a k l r h) d =
     (if h = 1 then [(a, Leaf_node, d)]
      else (a, Preorder, d) # walk l (d + 1) @ (a, Postorder, d) # walk r (d + 1) @ [(a, Endorder, d)])"

definition twalk :: "'k node \<Rightarrow> (nat \<times> visit \<times> nat) list" where
  "twalk root = walk root 0"

section \<open>Balanced search trees\<close>

fun nodes :: "'k node \<Rightarrow> (nat \<times> 'k) list" where
  "nodes Null = []"
| "nodes (Node a k l r h) = nodes l @ (a, k) # nodes r"

fun avl :: "'k node \<Rightarrow> bool" where
  "avl Null = True"
| "avl (Node a k l r h) \<longleftrightarrow> avl l \<and> avl r \<and> height l \<le> height r + 1 \<and> height r \<le> height l + 1 \<and>
     h = 1 + max (height l) (height r)"

lemma height_nonneg: "avl t \<Longrightarrow> 0 \<le> height t"
  by (induction t) auto

lemma height_zero: "avl t \<Longrightarrow> height t = 0 \<longleftrightarrow> t = Null"
proof (cases t)
  case (Node a k l r h)
  assume "avl t"
  then show ?thesis using height_nonneg [of l] height_nonneg [of r] Node by auto
qed simp

lemma height_pos: "avl (Node a k l r h) \<Longrightarrow> 1 \<le> h"
  using height_nonneg by fastforce

fun frame_nodes :: "'k frame \<Rightarrow> (nat \<times> 'k) list \<times> (nat \<times> 'k) list" where
  "frame_nodes (Frame d a k other h) = (if d then (nodes other @ [(a, k)], []) else ([], (a, k) # nodes other))"

fun around :: "'k frame list \<Rightarrow> (nat \<times> 'k) list \<times> (nat \<times> 'k) list" where
  "around [] = ([], [])"
| "around (f # fs) = (case (frame_nodes f, around fs) of ((l, r), (ls, rs)) \<Rightarrow> (ls @ l, r @ rs))"

lemma nodes_mk: "nodes (mk d a k same other h) =
    (if d then nodes other @ (a, k) # nodes same else nodes same @ (a, k) # nodes other)"
  by (simp add: mk_def)

lemma height_mk [simp]: "height (mk d a k s t h) = h"
  by (simp add: mk_def)

lemma avl_mk: "avl (mk d a k s t h) \<longleftrightarrow> avl s \<and> avl t \<and> height s \<le> height t + 1 \<and> height t \<le> height s + 1 \<and>
    h = 1 + max (height s) (height t)"
  by (auto simp: mk_def)

lemma nodes_fill: "nodes (fill f n) = fst (frame_nodes f) @ nodes n @ snd (frame_nodes f)"
  by (cases f) (simp add: nodes_mk)

lemma plug_simps [simp]: "plug [] n = n" "plug (f # fs) n = plug fs (fill f n)"
  by (simp_all add: plug_def)

lemma plug_append [simp]: "plug (fs @ gs) n = plug gs (plug fs n)"
  by (simp add: plug_def)

lemma nodes_plug: "nodes (plug fs n) = fst (around fs) @ nodes n @ snd (around fs)"
  by (induction fs arbitrary: n) (auto simp: nodes_fill split: prod.splits)

lemma rot_avl:
  assumes y: "avl y" "avl A" "height y = height A + 2" and x: "x = mk d a k y A h"
  shows "\<exists>m. rot x d = Some (m, height m - h) \<and> avl m \<and> nodes m = nodes x \<and>
    height A + 2 \<le> height m \<and> height m \<le> height A + 3"
proof -
  have A: "0 \<le> height A" using height_nonneg [OF y(2)] .
  then obtain ay ky yl yr hy where Y: "y = Node ay ky yl yr hy" using y(3) by (cases y) auto
  define z D where "z = child (\<not> d) y" and "D = child d y"
  have zD: "avl z" "avl D" "height z \<le> height D + 1" "height D \<le> height z + 1"
    "height A + 2 = 1 + max (height z) (height D)" "y = mk d ay ky D z hy"
    using y(1,3) Y by (auto simp: z_def D_def mk_def)
  have c: "child d x = y" "child (\<not> d) x = A" by (auto simp: x mk_def)
  have r: "rot x d = (case x of Null \<Rightarrow> None | Node ax kx _ _ hx \<Rightarrow>
      if height z > height D then
        (case z of Null \<Rightarrow> None
         | Node az kz zl zr _ \<Rightarrow>
             Some (mk d az kz (mk d ay ky D (child d z) (height z))
                (mk d ax kx (child (\<not> d) z) A (height z)) (height z + 1), height z + 1 - hx))
      else Some (mk d ay ky D (mk d ax kx z A (height z + 1)) (height z + 2), height z + 2 - hx))"
    unfolding rot_def c using Y z_def D_def by (simp add: Let_def split: node.splits)
  have X: "\<exists>xl xr. x = Node a k xl xr h" by (simp add: x mk_def)
  show ?thesis
  proof (cases "height z > height D")
    case True
    then have hz: "height z = height A + 1" "height D = height A" using zD(3-5) by auto
    then obtain az kz zl zr h3 where Z: "z = Node az kz zl zr h3" using A by (cases z) auto
    define B C where "B = child (\<not> d) z" and "C = child d z"
    have BC: "avl B" "avl C" "height B \<le> height C + 1" "height C \<le> height B + 1"
      "height A + 1 = 1 + max (height B) (height C)" "z = mk d az kz C B h3"
      using zD(1) hz(1) Z by (auto simp: B_def C_def mk_def)
    have "rot x d = Some (mk d az kz (mk d ay ky D C (height A + 1)) (mk d a k B A (height A + 1)) (2 + height A),
        2 + height A - h)"
      using r X True hz Z by (auto simp: B_def C_def)
    moreover have "nodes (mk d az kz (mk d ay ky D C (height A + 1)) (mk d a k B A (height A + 1)) (2 + height A)) = nodes x"
      by (simp add: x zD(6) BC(6) nodes_mk)
    moreover have "height B \<le> height A" "height C \<le> height A" "height A \<le> height B + 1" "height A \<le> height C + 1"
      using BC(3-5) by linarith+
    then have "avl (mk d az kz (mk d ay ky D C (height A + 1)) (mk d a k B A (height A + 1)) (2 + height A))"
      using BC(1,2) zD(2) hz(2) y(2) by (simp add: avl_mk max_def)
    ultimately show ?thesis by (intro exI) auto
  next
    case False
    have "rot x d = Some (mk d ay ky D (mk d a k z A (height z + 1)) (height z + 2), height z + 2 - h)"
      using r X False by auto
    moreover have "nodes (mk d ay ky D (mk d a k z A (height z + 1)) (height z + 2)) = nodes x"
      by (simp add: x zD(6) nodes_mk)
    ultimately show ?thesis
      using zD False y(2) by (intro exI) (auto simp: avl_mk)
  qed
qed

lemma balance_avl:
  assumes "avl s" "avl t" "height s \<le> height t + 2" "height t \<le> height s + 2"
  shows "\<exists>m. tsearch_balance (mk d a k s t h) = Some (m, height m - h) \<and> avl m \<and>
    nodes m = nodes (mk d a k s t h) \<and>
    max (height s) (height t) \<le> height m \<and> height m \<le> 1 + max (height s) (height t) \<and>
    (height s \<le> height t + 1 \<and> height t \<le> height s + 1 \<longrightarrow> height m = 1 + max (height s) (height t))"
proof -
  define l r where "l = (if d then t else s)" and "r = (if d then s else t)"
  have n: "mk d a k s t h = Node a k l r h" by (simp add: mk_def l_def r_def)
  have lr: "avl l" "avl r" "height l \<le> height r + 2" "height r \<le> height l + 2"
    "max (height s) (height t) = max (height l) (height r)"
    "height s \<le> height t + 1 \<and> height t \<le> height s + 1 \<longleftrightarrow> height l \<le> height r + 1 \<and> height r \<le> height l + 1"
    using assms by (auto simp: l_def r_def max.commute)
  consider (flat) "height l \<le> height r + 1" "height r \<le> height l + 1" | (left) "height l = height r + 2"
    | (right) "height r = height l + 2" using lr by linarith
  then show ?thesis
  proof cases
    case flat
    then have "(height l - height r + 1) mod 4294967296 < 3"
      by (simp add: mod_pos_pos_trivial)
    then show ?thesis using flat lr(1-4) unfolding n lr(5,6) by (auto simp: tsearch_balance_def Let_def)
  next
    case left
    obtain m where "rot (mk False a k l r h) False = Some (m, height m - h)" "avl m"
      "nodes m = nodes (mk False a k l r h)" "height r + 2 \<le> height m" "height m \<le> height r + 3"
      using rot_avl [OF lr(1,2) left refl] by blast
    moreover have "tsearch_balance (Node a k l r h) = rot (Node a k l r h) False"
      using left by (simp add: tsearch_balance_def Let_def)
    ultimately show ?thesis using left unfolding n lr(5,6) by (auto simp: mk_def)
  next
    case right
    obtain m where "rot (mk True a k r l h) True = Some (m, height m - h)" "avl m"
      "nodes m = nodes (mk True a k r l h)" "height l + 2 \<le> height m" "height m \<le> height l + 3"
      using rot_avl [OF lr(2,1) right refl] by blast
    moreover have "tsearch_balance (Node a k l r h) = rot (Node a k l r h) True"
      using right by (simp add: tsearch_balance_def Let_def)
    ultimately show ?thesis using right unfolding n lr(5,6) by (auto simp: mk_def)
  qed
qed

section \<open>Rebalancing along a path\<close>

fun frames_ok :: "'k frame list \<Rightarrow> int \<Rightarrow> bool" where
  "frames_ok [] h = True"
| "frames_ok (Frame d a k other fh # fs) h \<longleftrightarrow> avl other \<and> height other \<le> h + 1 \<and> h \<le> height other + 1 \<and>
     fh = 1 + max h (height other) \<and> frames_ok fs fh"

lemma plug_avl: "avl n \<Longrightarrow> frames_ok fs (height n) \<Longrightarrow> avl (plug fs n)"
proof (induction fs arbitrary: n)
  case (Cons f fs)
  obtain d a k other fh where f: "f = Frame d a k other fh" by (cases f)
  have "avl (mk d a k n other fh)" using Cons.prems f by (auto simp: avl_mk)
  then show ?case using Cons.IH [of "mk d a k n other fh"] Cons.prems f by auto
qed simp

lemma rebalance_avl:
  assumes "frames_ok fs h" "avl n" "height n \<le> h + 1" "h \<le> height n + 1"
  shows "\<exists>t. rebalance fs n = Some t \<and> avl t \<and> nodes t = nodes (plug fs n)"
  using assms
proof (induction fs arbitrary: h n)
  case (Cons f fs)
  obtain d a k other fh where f: "f = Frame d a k other fh" by (cases f)
  have o: "avl other" "height other \<le> h + 1" "h \<le> height other + 1" "fh = 1 + max h (height other)" "frames_ok fs fh"
    using Cons.prems(1) f by auto
  obtain m where m: "tsearch_balance (mk d a k n other fh) = Some (m, height m - fh)" "avl m"
    "nodes m = nodes (mk d a k n other fh)"
    "max (height n) (height other) \<le> height m" "height m \<le> 1 + max (height n) (height other)"
    "height n \<le> height other + 1 \<and> height other \<le> height n + 1 \<longrightarrow> height m = 1 + max (height n) (height other)"
    using balance_avl [OF Cons.prems(2) o(1), of d a k fh] o Cons.prems(3,4) by auto
  have eq: "nodes (plug fs m) = nodes (plug (f # fs) n)"
    by (simp add: nodes_plug [of fs] m(3) f)
  show ?case
  proof (cases "height m = fh")
    case True
    then show ?thesis using m plug_avl [of m fs] o(5) f eq by simp
  next
    case False
    have "height m \<le> fh + 1" "fh \<le> height m + 1" using m(4-6) o(2,3,4) Cons.prems(3,4) by linarith+
    then show ?thesis using Cons.IH [OF o(5) m(2)] m(1) False f eq by simp
  qed
qed simp

end
