(* ===== verification/Key_Store.thy ===== *)
theory Key_Store
  imports Prelude
begin

text \<open>
  The contract that tsearch and hsearch share: a store that is searched by a key and to which a key
  is entered with a value unless an equal key is there already.
\<close>

primrec enter_all :: "('k \<Rightarrow> 'v \<Rightarrow> 's \<Rightarrow> ('v option \<times> 's) option) \<Rightarrow> ('k \<times> 'v) list \<Rightarrow> 's \<Rightarrow> 's option" where
  "enter_all enter [] s = Some s"
| "enter_all enter (kv # kvs) s =
     (case enter (fst kv) (snd kv) s of None \<Rightarrow> None | Some (_, s) \<Rightarrow> enter_all enter kvs s)"

text \<open>The value of the first item with an equal key.\<close>

primrec first_of :: "('k \<Rightarrow> 'k \<Rightarrow> bool) \<Rightarrow> 'k \<Rightarrow> ('k \<times> 'v) list \<Rightarrow> 'v option" where
  "first_of same k [] = None"
| "first_of same k (kv # kvs) = (if same (fst kv) k then Some (snd kv) else first_of same k kvs)"

locale key_store =
  fixes find_key :: "'s \<Rightarrow> 'k \<Rightarrow> 'v option"
    and enter :: "'k \<Rightarrow> 'v \<Rightarrow> 's \<Rightarrow> ('v option \<times> 's) option"
    and good :: "'s \<Rightarrow> bool"
    and load :: "'s \<Rightarrow> nat"
    and limit :: nat
    and valid :: "'k \<Rightarrow> bool"
    and same :: "'k \<Rightarrow> 'k \<Rightarrow> bool"
  assumes same_equiv: "same k k" "same j k \<Longrightarrow> same k j" "same i j \<Longrightarrow> same j k \<Longrightarrow> same i k"
    and find_same: "good s \<Longrightarrow> same j k \<Longrightarrow> find_key s j = find_key s k"
    and enter_found: "good s \<Longrightarrow> load s < limit \<Longrightarrow> valid k \<Longrightarrow> find_key s k = Some w \<Longrightarrow>
      enter k v s = Some (Some w, s)"
    and enter_new: "good s \<Longrightarrow> load s < limit \<Longrightarrow> valid k \<Longrightarrow> find_key s k = None \<Longrightarrow>
      \<exists>s'. enter k v s = Some (Some v, s') \<and> good s' \<and> load s' = Suc (load s) \<and>
        (\<forall>j. find_key s' j = (if same k j then Some v else find_key s j))"
begin

lemma enter_all_step:
  assumes "good s" "load s < limit" "valid k"
  obtains s' where "enter k v s = Some (Some (case find_key s k of None \<Rightarrow> v | Some w \<Rightarrow> w), s')" "good s'"
    "load s' \<le> Suc (load s)"
    "\<And>j. find_key s' j = (if find_key s j = None \<and> same k j then Some v else find_key s j)"
proof (cases "find_key s k")
  case None
  have n: "find_key s j = None" if "same k j" for j
    using find_same [OF assms(1) that] None by simp
  obtain s' where "enter k v s = Some (Some v, s')" "good s'" "load s' = Suc (load s)"
    "\<And>j. find_key s' j = (if same k j then Some v else find_key s j)"
    using enter_new [OF assms None] by blast
  then show ?thesis using None n by (intro that [of s']) auto
next
  case (Some w)
  have "find_key s j \<noteq> None" if "same k j" for j
    using find_same [OF assms(1) that] Some by (metis option.distinct(1))
  then show ?thesis using enter_found [OF assms Some] assms(1) Some by (intro that [of s]) auto
qed

lemma enter_all_spec:
  assumes "good s" "load s + length kvs \<le> limit" "\<forall>kv \<in> set kvs. valid (fst kv)"
  shows "\<exists>s'. enter_all enter kvs s = Some s' \<and> good s' \<and> load s' \<le> load s + length kvs \<and>
    (\<forall>j. find_key s' j = (case find_key s j of Some w \<Rightarrow> Some w | None \<Rightarrow> first_of same j kvs))"
  using assms
proof (induction kvs arbitrary: s)
  case Nil
  then show ?case by (auto split: option.split)
next
  case (Cons kv kvs)
  obtain k v where kv: "kv = (k, v)" by (cases kv)
  have "load s < limit" "valid k" using Cons.prems kv by auto
  then obtain s1 where s1: "enter k v s = Some (Some (case find_key s k of None \<Rightarrow> v | Some w \<Rightarrow> w), s1)" "good s1"
    "load s1 \<le> Suc (load s)" "\<And>j. find_key s1 j = (if find_key s j = None \<and> same k j then Some v else find_key s j)"
    using enter_all_step [OF Cons.prems(1), of k v] by blast
  moreover have "load s1 + length kvs \<le> limit" using s1(3) Cons.prems(2) by simp
  ultimately obtain s' where "enter_all enter kvs s1 = Some s'" "good s'" "load s' \<le> load s1 + length kvs"
    "\<forall>j. find_key s' j = (case find_key s1 j of Some w \<Rightarrow> Some w | None \<Rightarrow> first_of same j kvs)"
    using Cons.IH [of s1] Cons.prems(3) by auto
  then show ?case using s1 kv by (intro exI [of _ s']) (auto split: option.split)
qed

lemma enter_idempotent:
  assumes "good s" "Suc (load s) < limit" "valid k" "enter k v s = Some (r, s')"
  shows "enter k w s' = Some (r, s')"
proof -
  obtain s1 where s1: "enter k v s = Some (Some (case find_key s k of None \<Rightarrow> v | Some w \<Rightarrow> w), s1)" "good s1"
    "load s1 \<le> Suc (load s)" "\<And>j. find_key s1 j = (if find_key s j = None \<and> same k j then Some v else find_key s j)"
    using enter_all_step [OF assms(1) _ assms(3), of v] assms(2) by auto
  have "find_key s1 k = Some (case find_key s k of None \<Rightarrow> v | Some w \<Rightarrow> w)"
    using s1(4) [of k] same_equiv(1) by (auto split: option.split)
  then show ?thesis using enter_found [OF s1(2) _ assms(3)] s1(1,3) assms(2,4) by simp
qed

end

end
