(* ===== verification/Tsearch_Theorems.thy ===== *)
theory Tsearch_Theorems
  imports Tsearch Key_Store
begin

text \<open>
  What the functions on search trees do, for a comparison function that orders the keys by a rank:
  the array of a search never overflows, and searching, entering and deleting act on the sorted
  sequence of the nodes.  The trees are an instance of the store of Key_Store.
\<close>

definition cmp_by :: "('k \<Rightarrow> 'k \<Rightarrow> int) \<Rightarrow> ('k \<Rightarrow> 'r::linorder) \<Rightarrow> bool" where
  "cmp_by cmp rank \<longleftrightarrow>
     (\<forall>x y. (cmp x y = 0 \<longleftrightarrow> rank x = rank y) \<and> (cmp x y > 0 \<longleftrightarrow> rank y < rank x))"

abbreviation ranks :: "('k \<Rightarrow> 'r) \<Rightarrow> (nat \<times> 'k) list \<Rightarrow> 'r list" where
  "ranks rank xs \<equiv> map (\<lambda>x. rank (snd x)) xs"

definition tree_ok :: "('k \<Rightarrow> 'r::linorder) \<Rightarrow> 'k node \<Rightarrow> bool" where
  "tree_ok rank t \<longleftrightarrow> avl t \<and> sorted_wrt (<) (ranks rank (nodes t))"

section \<open>The height\<close>

text \<open>The least number of nodes of a balanced tree, with that of the next height.\<close>

fun min_nodes :: "nat \<Rightarrow> nat \<times> nat" where
  "min_nodes 0 = (0, 1)"
| "min_nodes (Suc n) = (case min_nodes n of (a, b) \<Rightarrow> (b, 1 + a + b))"

lemma min_nodes_mono: "fst (min_nodes n) < snd (min_nodes n)"
  by (induction n) (auto split: prod.splits)

lemma min_nodes_le: "m \<le> n \<Longrightarrow> fst (min_nodes m) \<le> fst (min_nodes n)"
proof (induction rule: dec_induct)
  case (step n)
  then show ?case using min_nodes_mono [of n] by (auto split: prod.splits)
qed simp

lemma min_nodes_Suc: "fst (min_nodes (Suc n)) = snd (min_nodes n)"
  "snd (min_nodes (Suc n)) = 1 + fst (min_nodes n) + snd (min_nodes n)"
  by (simp_all split: prod.splits)

lemma min_nodes_double: "snd (min_nodes n) \<le> 1 + 2 * fst (min_nodes n)"
  by (induction n) (use less_imp_le [OF min_nodes_mono] in \<open>simp_all add: min_nodes_Suc del: min_nodes.simps(2)\<close>)

lemma min_nodes_bound: "avl t \<Longrightarrow> fst (min_nodes (nat (height t))) \<le> length (nodes t)"
proof (induction t)
  case (Node a k l r h)
  define m where "m = nat (min (height l) (height r))"
  have hl: "0 \<le> height l" "0 \<le> height r" using Node.prems height_nonneg by auto
  define M where "M = nat (max (height l) (height r))"
  have h: "nat h = Suc M" "M = m \<or> M = Suc m"
    using Node.prems hl by (auto simp: m_def M_def)
  have le: "fst (min_nodes m) + fst (min_nodes M) \<le> length (nodes l) + length (nodes r)"
    using Node hl by (cases "height l \<le> height r") (auto simp: m_def M_def)
  have "fst (min_nodes (Suc M)) \<le> 1 + fst (min_nodes m) + fst (min_nodes M)"
    using h(2) min_nodes_double [of m] by (auto simp: min_nodes_Suc simp del: min_nodes.simps(2))
  then show ?case using h(1) le by (simp del: min_nodes.simps(2))
qed simp

lemma min_nodes_numeral: "min_nodes (numeral k) = (case min_nodes (pred_numeral k) of (a, b) \<Rightarrow> (b, 1 + a + b))"
  by (simp only: numeral_eq_Suc min_nodes.simps)

lemma min_nodes_Suc_0: "min_nodes (Suc 0) = (1, 2)"
  by simp

lemma min_nodes_41: "268435456 \<le> fst (min_nodes 41)"
  by (simp add: min_nodes_numeral min_nodes_Suc_0 del: min_nodes.simps(2))

text \<open>A tree of less than \<open>2 ^ 28\<close> nodes (a node has 16 bytes) is at most 40 high.\<close>

lemma height_limit:
  assumes "avl t" "length (nodes t) < 268435456"
  shows "height t \<le> 40"
proof (rule ccontr)
  assume "\<not> height t \<le> 40"
  then have "41 \<le> nat (height t)" by simp
  then have "268435456 \<le> fst (min_nodes (nat (height t)))" using min_nodes_41 min_nodes_le le_trans by blast
  then show False using min_nodes_bound [OF assms(1)] assms(2) by simp
qed

section \<open>Searching\<close>

lemma around_Cons: "fst (around (f # fs)) = fst (around fs) @ fst (frame_nodes f)"
  "snd (around (f # fs)) = snd (frame_nodes f) @ snd (around fs)"
  by (simp_all split: prod.splits)

lemma descend_spec:
  assumes cmp: "cmp_by cmp rank" and "avl t" "frames_ok fs (height t)" "int (length fs) + height t \<le> int maxf"
    "sorted_wrt (<) (ranks rank (nodes (plug fs t)))"
    "\<forall>x \<in> set (fst (around fs)). rank (snd x) < rank key" "\<forall>x \<in> set (snd (around fs)). rank key < rank (snd x)"
  shows "\<exists>sub fs'. descend maxf cmp key t fs = Some (sub, fs') \<and> plug fs' sub = plug fs t \<and> avl sub \<and>
    frames_ok fs' (height sub) \<and> int (length fs') + height sub \<le> int maxf \<and>
    (\<forall>x \<in> set (fst (around fs')). rank (snd x) < rank key) \<and> (\<forall>x \<in> set (snd (around fs')). rank key < rank (snd x)) \<and>
    (sub \<noteq> Null \<longrightarrow> rank (nkey sub) = rank key)"
  using assms(2-)
proof (induction t arbitrary: fs)
  case Null
  then show ?case by (intro exI [of _ Null] exI [of _ fs]) auto
next
  case (Node a k l r h)
  have c: "cmp key k = 0 \<longleftrightarrow> rank key = rank k" "cmp key k > 0 \<longleftrightarrow> rank k < rank key"
    using cmp unfolding cmp_by_def by metis+
  show ?case
  proof (cases "cmp key k = 0")
    case True
    then show ?thesis using Node.prems c(1) by (intro exI [of _ "Node a k l r h"] exI [of _ fs]) auto
  next
    case False
    define d where "d = (cmp key k > 0)"
    define sub where "sub = (if d then r else l)"
    define f where "f = Frame d a k (if d then l else r) h"
    have av: "avl l" "avl r" "height l \<le> height r + 1" "height r \<le> height l + 1" "h = 1 + max (height l) (height r)"
      using Node.prems(1) by auto
    have "1 \<le> h" using height_pos [OF Node.prems(1)] .
    then have lt: "length fs < maxf" using Node.prems(3) by simp
    have pl: "plug (f # fs) sub = plug fs (Node a k l r h)" by (simp add: f_def sub_def mk_def)
    have st: "sorted_wrt (<) (ranks rank (nodes (plug fs (Node a k l r h))))" using Node.prems(4) .
    have ord: "\<forall>x \<in> set (nodes l). rank (snd x) < rank k" "\<forall>x \<in> set (nodes r). rank k < rank (snd x)"
      using st by (auto simp: nodes_plug sorted_wrt_append)
    have dk: "if d then rank k < rank key else rank key < rank k"
      using c False by (auto simp: d_def not_less order_less_le)
    have "\<forall>x \<in> set (nodes l). d \<longrightarrow> rank (snd x) < rank key" "\<forall>x \<in> set (nodes r). \<not> d \<longrightarrow> rank key < rank (snd x)"
      using ord dk less_trans by meson+
    then have "\<forall>x \<in> set (fst (around (f # fs))). rank (snd x) < rank key"
      "\<forall>x \<in> set (snd (around (f # fs))). rank key < rank (snd x)"
      using Node.prems(5,6) dk by (auto simp: f_def around_Cons simp del: around.simps(2))
    moreover have "frames_ok (f # fs) (height sub)" "int (length (f # fs)) + height sub \<le> int maxf" "avl sub"
      using av Node.prems(2,3) by (auto simp: f_def sub_def max.commute)
    ultimately have "\<exists>sub' fs'. descend maxf cmp key sub (f # fs) = Some (sub', fs') \<and> plug fs' sub' = plug (f # fs) sub \<and>
        avl sub' \<and> frames_ok fs' (height sub') \<and> int (length fs') + height sub' \<le> int maxf \<and>
        (\<forall>x \<in> set (fst (around fs')). rank (snd x) < rank key) \<and> (\<forall>x \<in> set (snd (around fs')). rank key < rank (snd x)) \<and>
        (sub' \<noteq> Null \<longrightarrow> rank (nkey sub') = rank key)"
      using Node.IH [of "f # fs"] st unfolding pl [symmetric] by (cases d) (simp_all add: sub_def del: around.simps(2))
    moreover have "descend maxf cmp key (Node a k l r h) fs = descend maxf cmp key sub (f # fs)"
      using False lt by (simp add: d_def f_def sub_def Let_def)
    ultimately show ?thesis using pl by simp
  qed
qed

lemma descend_root:
  assumes "cmp_by cmp rank" "tree_ok rank t" "length (nodes t) < 268435456"
  obtains sub fs where "descend 47 cmp key t [] = Some (sub, fs)" "plug fs sub = t" "avl sub"
    "frames_ok fs (height sub)" "int (length fs) + height sub \<le> 47"
    "\<forall>x \<in> set (fst (around fs)). rank (snd x) < rank key" "\<forall>x \<in> set (snd (around fs)). rank key < rank (snd x)"
    "sub \<noteq> Null \<longrightarrow> rank (nkey sub) = rank key"
proof -
  have "\<exists>sub fs'. descend 47 cmp key t [] = Some (sub, fs') \<and> plug fs' sub = plug [] t \<and> avl sub \<and>
    frames_ok fs' (height sub) \<and> int (length fs') + height sub \<le> int 47 \<and>
    (\<forall>x \<in> set (fst (around fs')). rank (snd x) < rank key) \<and> (\<forall>x \<in> set (snd (around fs')). rank key < rank (snd x)) \<and>
    (sub \<noteq> Null \<longrightarrow> rank (nkey sub) = rank key)"
    using assms(2) height_limit [OF _ assms(3)]
    by (intro descend_spec [OF assms(1)]) (auto simp: tree_ok_def)
  then show ?thesis using that by auto
qed

text \<open>The address of the node of a key.\<close>

definition node_of :: "('k \<Rightarrow> 'r) \<Rightarrow> (nat \<times> 'k) list \<Rightarrow> 'k \<Rightarrow> nat option" where
  "node_of rank xs key = map_of (map (\<lambda>(a, k). (rank k, a)) xs) (rank key)"

lemma node_of_append: "node_of rank (xs @ ys) key =
    (case node_of rank xs key of None \<Rightarrow> node_of rank ys key | Some a \<Rightarrow> Some a)"
  by (simp add: node_of_def map_add_def split: option.split)

lemma node_of_Cons: "node_of rank (x # xs) key = (if rank (snd x) = rank key then Some (fst x) else node_of rank xs key)"
  by (auto simp: node_of_def split: prod.splits)

lemma node_of_Nil [simp]: "node_of rank [] key = None"
  by (simp add: node_of_def)

lemma node_of_None: "node_of rank xs key = None \<longleftrightarrow> rank key \<notin> set (ranks rank xs)"
  by (auto simp: node_of_def map_of_eq_None_iff image_iff)

lemma node_of_split:
  fixes rank :: "'k \<Rightarrow> 'r::linorder"
  assumes "\<forall>x \<in> set xs. rank (snd x) < rank key" "rank k = rank key"
  shows "node_of rank (xs @ (a, k) # ys) key = Some a"
proof -
  have "node_of rank xs key = None" unfolding node_of_None using assms(1) by auto
  then show ?thesis using assms(2) by (simp add: node_of_append node_of_Cons)
qed

section \<open>The functions\<close>

lemma tfind_node_of:
  assumes "cmp_by cmp rank" "sorted_wrt (<) (ranks rank (nodes t))"
  shows "tfind cmp key t = node_of rank (nodes t) key"
  using assms(2)
proof (induction t)
  case (Node a k l r h)
  have c: "cmp key k = 0 \<longleftrightarrow> rank key = rank k" "cmp key k > 0 \<longleftrightarrow> rank k < rank key"
    using assms(1) unfolding cmp_by_def by metis+
  have ord: "sorted_wrt (<) (ranks rank (nodes l))" "sorted_wrt (<) (ranks rank (nodes r))"
    "\<forall>x \<in> set (nodes l). rank (snd x) < rank k" "\<forall>x \<in> set (nodes r). rank k < rank (snd x)"
    using Node.prems by (auto simp: sorted_wrt_append)
  consider "rank key = rank k" | "rank key < rank k" | "rank k < rank key" by fastforce
  then show ?case
  proof cases
    case 1
    have "node_of rank (nodes l @ (a, k) # nodes r) key = Some a"
      by (rule node_of_split) (use ord(3) 1 in auto)
    moreover have "cmp key k = 0" using c(1) 1 by blast
    ultimately show ?thesis by simp
  next
    case 2
    then have "node_of rank (nodes r) key = None" using ord(4) by (fastforce simp: node_of_None)
    then show ?thesis using c 2 Node.IH(1) [OF ord(1)]
      by (auto simp: Let_def node_of_append node_of_Cons split: option.split)
  next
    case 3
    then have "node_of rank (nodes l) key = None" using ord(3) by (fastforce simp: node_of_None)
    then show ?thesis using c 3 Node.IH(2) [OF ord(2)] by (auto simp: Let_def node_of_append node_of_Cons)
  qed
qed simp

lemma tsearch_cases:
  assumes "cmp_by cmp rank" "tree_ok rank t" "length (nodes t) < 268435456"
  obtains (found) a where "node_of rank (nodes t) key = Some a" "\<And>new. tsearch cmp new key t = Some (Some a, t)"
    | (missing) l r where "nodes t = l @ r" "node_of rank (nodes t) key = None" "tsearch cmp None key t = Some (None, t)"
      "\<And>a. \<exists>t'. tsearch cmp (Some a) key t = Some (Some a, t') \<and> tree_ok rank t' \<and> nodes t' = l @ (a, key) # r"
proof -
  obtain sub fs where d: "descend 47 cmp key t [] = Some (sub, fs)" "plug fs sub = t" "avl sub"
    "frames_ok fs (height sub)" "int (length fs) + height sub \<le> 47"
    "\<forall>x \<in> set (fst (around fs)). rank (snd x) < rank key" "\<forall>x \<in> set (snd (around fs)). rank key < rank (snd x)"
    "sub \<noteq> Null \<longrightarrow> rank (nkey sub) = rank key"
    using descend_root [OF assms] by blast
  have n: "nodes t = fst (around fs) @ nodes sub @ snd (around fs)" using d(2) nodes_plug [of fs sub] by simp
  have st: "sorted_wrt (<) (ranks rank (nodes t))" using assms(2) by (simp add: tree_ok_def)
  show ?thesis
  proof (cases sub)
    case (Node a k l r h)
    have "\<forall>x \<in> set (fst (around fs) @ nodes l). rank (snd x) < rank k"
      using st unfolding n Node by (auto simp: sorted_wrt_append)
    then have "node_of rank (nodes t) key = Some a"
      using node_of_split [of "fst (around fs) @ nodes l" rank key k a "nodes r @ snd (around fs)"] d(8)
      unfolding n Node by auto
    then show ?thesis using d(1) Node by (intro found) (simp_all add: tsearch_def)
  next
    case Null
    let ?l = "fst (around fs)" and ?r = "snd (around fs)"
    have "\<exists>t'. tsearch cmp (Some a) key t = Some (Some a, t') \<and> tree_ok rank t' \<and> nodes t' = ?l @ (a, key) # ?r" for a
    proof -
      obtain t' where t': "rebalance fs (Node a key Null Null 1) = Some t'" "avl t'"
        "nodes t' = nodes (plug fs (Node a key Null Null 1))"
        using rebalance_avl [of fs 0 "Node a key Null Null 1"] d(4) Null by auto
      have nt: "nodes t' = ?l @ (a, key) # ?r" using t'(3) by (simp add: nodes_plug)
      have "sorted_wrt (<) (ranks rank (nodes t'))"
        using st d(6,7) unfolding nt n Null by (auto simp: sorted_wrt_append intro: less_trans)
      then show ?thesis using d(1) Null t'(1,2) nt by (simp add: tsearch_def tree_ok_def)
    qed
    moreover have "node_of rank (nodes t) key = None" using d(6,7) Null unfolding n node_of_None by auto
    ultimately show ?thesis using n Null d(1) by (intro missing [of ?l ?r]) (simp_all add: tsearch_def)
  qed
qed

section \<open>Deletion\<close>

lemma frames_ok_append:
  "frames_ok gs (height n) \<Longrightarrow> frames_ok (gs @ fs) (height n) = frames_ok fs (height (plug gs n))"
proof (induction gs arbitrary: n)
  case (Cons f gs)
  obtain d a k other fh where f: "f = Frame d a k other fh" by (cases f)
  then show ?case using Cons.IH [of "mk d a k n other fh"] Cons.prems by auto
qed simp

lemma around_append: "fst (around (gs @ fs)) = fst (around fs) @ fst (around gs)"
  "snd (around (gs @ fs)) = snd (around gs) @ snd (around fs)"
  by (induction gs) (simp_all add: around_Cons del: around.simps(2))

lemma rightmost_spec:
  assumes "avl n" "n \<noteq> Null" "frames_ok gs (height n)"
  shows "\<exists>a k l h gs'. rightmost n gs = (Node a k l Null h, gs') \<and> plug gs' (Node a k l Null h) = plug gs n \<and>
    frames_ok gs' h \<and> avl (Node a k l Null h) \<and> snd (around gs') = snd (around gs) \<and>
    int (length gs') + h \<le> int (length gs) + height n"
  using assms
proof (induction n arbitrary: gs)
  case (Node a k l r h)
  show ?case
  proof (cases "r = Null")
    case True
    then show ?thesis using Node.prems by (intro exI) auto
  next
    case False
    let ?f = "Frame True a k l h"
    have "frames_ok (?f # gs) (height r)" using Node.prems by (auto simp: max.commute)
    then obtain a' k' l' h' gs' where "rightmost r (?f # gs) = (Node a' k' l' Null h', gs')"
      "plug gs' (Node a' k' l' Null h') = plug (?f # gs) r" "frames_ok gs' h'" "avl (Node a' k' l' Null h')"
      "snd (around gs') = snd (around (?f # gs))" "int (length gs') + h' \<le> int (length (?f # gs)) + height r"
      using Node.IH(2) [of "?f # gs"] Node.prems False by auto
    then show ?thesis using False Node.prems(1)
      by (intro exI [of _ a'] exI [of _ k'] exI [of _ l'] exI [of _ h'] exI [of _ gs'])
        (auto simp: mk_def around_Cons simp del: around.simps(2))
  qed
qed simp

lemma tdelete_node_spec:
  assumes n: "avl (Node a k l r h)" and fs: "frames_ok fs h" "int (length fs) + h \<le> 47"
  shows "\<exists>t. tdelete_node 47 (Node a k l r h) fs = Some t \<and> avl t \<and>
    map snd (nodes t) = map snd (fst (around fs) @ nodes l @ nodes r @ snd (around fs)) \<and>
    set (map fst (nodes t)) \<subseteq> set (map fst (nodes (plug fs (Node a k l r h))))"
proof (cases "l = Null")
  case True
  then have "height r \<le> h + 1" "h \<le> height r + 1" "avl r" using n height_nonneg [of r] by auto
  then obtain t where "rebalance fs r = Some t" "avl t" "nodes t = nodes (plug fs r)"
    using rebalance_avl [OF fs(1)] by blast
  then show ?thesis using True by (auto simp: tdelete_node_def nodes_plug)
next
  case False
  obtain b kb l' hb gs where rm: "rightmost l [] = (Node b kb l' Null hb, gs)" "plug gs (Node b kb l' Null hb) = l"
    "frames_ok gs hb" "avl (Node b kb l' Null hb)" "snd (around gs) = []" "int (length gs) + hb \<le> height l"
    using rightmost_spec [of l "[]"] n False by auto
  let ?f = "Frame False a kb r h"
  have "frames_ok (?f # fs) (height l)" using n fs(1) by auto
  then have fo: "frames_ok (gs @ ?f # fs) hb"
    using frames_ok_append [of gs "Node b kb l' Null hb" "?f # fs"] rm(2,3) by auto
  have hb: "hb = 1 + height l'" "0 \<le> height l'" using rm(4) height_nonneg [of l'] by auto
  have "1 + height l \<le> h" using n by auto
  then have len: "length gs + length fs < 47" using fs(2) rm(6) hb by linarith
  have "height l' \<le> hb + 1" "hb \<le> height l' + 1" "avl l'" using hb rm(4) by auto
  then obtain t where t: "rebalance (gs @ ?f # fs) l' = Some t" "avl t" "nodes t = nodes (plug (gs @ ?f # fs) l')"
    using rebalance_avl [OF fo] by blast
  have nl: "nodes l = fst (around gs) @ nodes l' @ [(b, kb)]"
    using arg_cong [OF rm(2), of nodes] rm(5) by (simp add: nodes_plug)
  have nt: "nodes t = fst (around fs) @ fst (around gs) @ nodes l' @ (a, kb) # nodes r @ snd (around fs)"
    unfolding t(3) nodes_plug around_append around_Cons by (simp add: rm(5))
  have "tdelete_node 47 (Node a k l r h) fs = Some t"
    using False rm(1) len t(1) by (simp add: tdelete_node_def)
  then show ?thesis using t(2) nt nl by (auto simp: nodes_plug)
qed

lemma tdelete_cases:
  assumes "cmp_by cmp rank" "tree_ok rank t" "length (nodes t) < 268435456"
  obtains (missing) "rank key \<notin> set (ranks rank (nodes t))" "tdelete cmp key t = Some (None, t)"
    | (deleted) p t' l a k r where "tdelete cmp key t = Some (Some p, t')" "tree_ok rank t'"
      "nodes t = l @ (a, k) # r" "rank k = rank key" "map snd (nodes t') = map snd (l @ r)"
      "p \<in> set (map fst (nodes t))" "set (map fst (nodes t')) \<subseteq> set (map fst (nodes t))"
proof -
  obtain sub fs where d: "descend 47 cmp key t [] = Some (sub, fs)" "plug fs sub = t" "avl sub"
    "frames_ok fs (height sub)" "int (length fs) + height sub \<le> 47"
    "\<forall>x \<in> set (fst (around fs)). rank (snd x) < rank key" "\<forall>x \<in> set (snd (around fs)). rank key < rank (snd x)"
    "sub \<noteq> Null \<longrightarrow> rank (nkey sub) = rank key"
    using descend_root [OF assms] by blast
  have n: "nodes t = fst (around fs) @ nodes sub @ snd (around fs)" using d(2) nodes_plug [of fs sub] by simp
  have st: "sorted_wrt (<) (ranks rank (nodes t))" using assms(2) by (simp add: tree_ok_def)
  show ?thesis
  proof (cases sub)
    case Null
    then have "rank key \<notin> set (ranks rank (nodes t))" using d(6,7) unfolding n by auto
    then show ?thesis using Null d(1) by (intro missing) (simp_all add: tdelete_def)
  next
    case (Node a k l r h)
    obtain t' where t': "tdelete_node 47 sub fs = Some t'" "avl t'"
      "map snd (nodes t') = map snd (fst (around fs) @ nodes l @ nodes r @ snd (around fs))"
      "set (map fst (nodes t')) \<subseteq> set (map fst (nodes (plug fs sub)))"
      using tdelete_node_spec [of a k l r h fs] d(3-5) Node by auto
    let ?l = "fst (around fs) @ nodes l" and ?r = "nodes r @ snd (around fs)"
    have split: "nodes t = ?l @ (a, k) # ?r" using n Node by simp
    have "ranks rank (nodes t') = ranks rank (?l @ ?r)"
      using arg_cong [OF t'(3), of "map rank"] by (simp add: comp_def)
    then have ok: "tree_ok rank t'" using st t'(2) unfolding tree_ok_def split by (auto simp: sorted_wrt_append)
    define p where "p = (case fs of [] \<Rightarrow> adr sub | Frame d a k other h # _ \<Rightarrow> a)"
    have "p \<in> set (map fst (nodes t))"
    proof (cases fs)
      case Nil
      then show ?thesis using split Node by (auto simp: p_def)
    next
      case (Cons f gs)
      then show ?thesis using n by (cases f) (auto simp: p_def around_Cons simp del: around.simps(2))
    qed
    moreover have "tdelete cmp key t = Some (Some p, t')" using d(1) Node t'(1) by (simp add: tdelete_def p_def split: list.split)
    ultimately show ?thesis using ok split t'(3,4) d(2,8) Node
      by (intro deleted [of p t' ?l a k ?r]) auto
  qed
qed

section \<open>Trees as stores\<close>

locale ordering_function =
  fixes cmp :: "'k \<Rightarrow> 'k \<Rightarrow> int" and rank :: "'k \<Rightarrow> 'r::linorder"
  assumes cmp_rank: "cmp_by cmp rank"

sublocale ordering_function \<subseteq> tree: key_store "\<lambda>t key. tfind cmp key t" "\<lambda>key a t. tsearch cmp (Some a) key t"
  "tree_ok rank" "\<lambda>t. length (nodes t)" 268435456 "\<lambda>_. True" "\<lambda>j k. rank j = rank k"
proof
  fix t j k assume "tree_ok rank t" "rank j = rank k"
  then show "tfind cmp j t = tfind cmp k t"
    using tfind_node_of [OF cmp_rank, of t] by (simp add: tree_ok_def node_of_def)
next
  fix t :: "'k node" and k a w
  assume t: "tree_ok rank t" "length (nodes t) < 268435456" "tfind cmp k t = Some w"
  have "node_of rank (nodes t) k = Some w"
    using t(1,3) tfind_node_of [OF cmp_rank, of t k] by (simp add: tree_ok_def)
  then show "tsearch cmp (Some a) k t = Some (Some w, t)"
    by (cases rule: tsearch_cases [OF cmp_rank t(1,2), of k]) simp_all
next
  fix t :: "'k node" and k a
  assume t: "tree_ok rank t" "length (nodes t) < 268435456" "tfind cmp k t = None"
  have n: "node_of rank (nodes t) k = None"
    using t(1,3) tfind_node_of [OF cmp_rank, of t k] by (simp add: tree_ok_def)
  obtain l r where lr: "nodes t = l @ r" "\<And>a. \<exists>t'. tsearch cmp (Some a) k t = Some (Some a, t') \<and> tree_ok rank t' \<and>
      nodes t' = l @ (a, k) # r"
    using n by (cases rule: tsearch_cases [OF cmp_rank t(1,2), of k]) auto
  obtain t' where t': "tsearch cmp (Some a) k t = Some (Some a, t')" "tree_ok rank t'" "nodes t' = l @ (a, k) # r"
    using lr(2) [of a] by blast
  have l: "node_of rank l k = None" using n lr(1) by (simp add: node_of_append split: option.splits)
  have "tfind cmp j t' = (if rank k = rank j then Some a else tfind cmp j t)" for j
  proof -
    have "node_of rank l j = None" if "rank k = rank j" using l that by (simp add: node_of_def)
    then show ?thesis
      using tfind_node_of [OF cmp_rank, of t' j] tfind_node_of [OF cmp_rank, of t j] t(1) t'(2,3) lr(1)
      by (auto simp: tree_ok_def node_of_append node_of_Cons split: option.split)
  qed
  then show "\<exists>t'. tsearch cmp (Some a) k t = Some (Some a, t') \<and> tree_ok rank t' \<and>
      length (nodes t') = Suc (length (nodes t)) \<and>
      (\<forall>j. tfind cmp j t' = (if rank k = rank j then Some a else tfind cmp j t))"
    using t'(1,2) lr(1) t'(3) by auto
qed auto

context ordering_function
begin

lemma entered_keys:
  assumes "tree_ok rank t" "length (nodes t) + length items \<le> 268435456"
  shows "\<exists>t'. enter_all (\<lambda>key a t. tsearch cmp (Some a) key t) items t = Some t' \<and> tree_ok rank t' \<and>
    (\<forall>j. tfind cmp j t' = (case tfind cmp j t of Some w \<Rightarrow> Some w
       | None \<Rightarrow> first_of (\<lambda>x y. rank x = rank y) j items))"
  using tree.enter_all_spec [OF assms] by auto

end

text \<open>The comparison of ints, as a C program writes it for keys that are far from the limits.\<close>

definition int_cmp :: "int \<Rightarrow> int \<Rightarrow> int" where
  "int_cmp x y = x - y"

interpretation int_tree: ordering_function int_cmp "\<lambda>x. x"
  by unfold_locales (auto simp: cmp_by_def int_cmp_def)

section \<open>Properties\<close>

text \<open>C10.  tsearch on a balanced search tree with less than \<open>2 ^ 28\<close> nodes never writes beyond its array.  It
  returns the node with an equal key and leaves the tree alone; otherwise it puts the new node at
  the place of its key in the order and the tree is a balanced search tree again, and when malloc
  fails it returns NULL and leaves the tree alone.\<close>

theorem tsearch_spec:
  assumes "cmp_by cmp rank" "tree_ok rank t" "length (nodes t) < 268435456"
  shows "case tfind cmp key t of
      Some a \<Rightarrow> tsearch cmp new key t = Some (Some a, t)
    | None \<Rightarrow>
        (case new of
           None \<Rightarrow> tsearch cmp new key t = Some (None, t)
         | Some a \<Rightarrow> \<exists>t' l r. tsearch cmp new key t = Some (Some a, t') \<and> tree_ok rank t' \<and>
             nodes t = l @ r \<and> nodes t' = l @ (a, key) # r)"
proof -
  have "tfind cmp key t = node_of rank (nodes t) key"
    using tfind_node_of [OF assms(1)] assms(2) by (simp add: tree_ok_def)
  then show ?thesis
    by (cases rule: tsearch_cases [OF assms, of key]) (simp_all split: option.split, blast)
qed

theorem tsearch_spec_witness:
  "\<exists>t'. tsearch int_cmp (Some 9) 5 Null = Some (Some 9, t') \<and> tree_ok (\<lambda>x. x) t' \<and> nodes t' = [(9, 5)]"
  using tsearch_spec [OF int_tree.cmp_rank, where t = Null and key = 5 and new = "Some 9"] by (auto simp: tree_ok_def)

text \<open>C11.  tdelete never writes beyond its array either.  Without an equal key it returns NULL and leaves the
  tree alone; otherwise the keys are the same without that one, in order, the tree is a balanced
  search tree again, its nodes are nodes of the old one, and the result is a node of the old tree.\<close>

theorem tdelete_spec:
  assumes "cmp_by cmp rank" "tree_ok rank t" "length (nodes t) < 268435456"
  shows "rank key \<notin> set (ranks rank (nodes t)) \<and> tdelete cmp key t = Some (None, t) \<or>
    (\<exists>p t' l a k r. tdelete cmp key t = Some (Some p, t') \<and> tree_ok rank t' \<and> nodes t = l @ (a, k) # r \<and>
       rank k = rank key \<and> map snd (nodes t') = map snd (l @ r) \<and> p \<in> set (map fst (nodes t)) \<and>
       set (map fst (nodes t')) \<subseteq> set (map fst (nodes t)))"
  by (cases rule: tdelete_cases [OF assms, of key]) blast+

theorem tdelete_spec_witness:
  "\<exists>p t'. tdelete int_cmp 5 (Node 9 5 Null Null 1) = Some (Some p, t') \<and> nodes t' = []"
  using tdelete_spec [OF int_tree.cmp_rank, where t = "Node 9 5 Null Null 1" and key = 5]
  by (auto simp: tree_ok_def Cons_eq_append_conv)

text \<open>Entering a sequence of keys with tsearch keeps the first node of each key: afterwards tfind of a key
  is the node that was there before, or that of the first equal key of the sequence.\<close>

theorem tsearch_keeps_first:
  assumes "cmp_by cmp rank" "tree_ok rank t" "length (nodes t) + length items \<le> 268435456"
  shows "\<exists>t'. enter_all (\<lambda>key a t. tsearch cmp (Some a) key t) items t = Some t' \<and> tree_ok rank t' \<and>
    (\<forall>j. tfind cmp j t' = (case tfind cmp j t of Some w \<Rightarrow> Some w
       | None \<Rightarrow> first_of (\<lambda>x y. rank x = rank y) j items))"
  by (rule ordering_function.entered_keys [OF ordering_function.intro [OF assms(1)] assms(2,3)])

theorem tsearch_keeps_first_witness:
  "\<exists>t'. enter_all (\<lambda>key a t. tsearch int_cmp (Some a) key t) [(4, 1), (7, 2), (4, 3)] Null = Some t' \<and>
     tfind int_cmp 4 t' = Some 1"
  using tsearch_keeps_first [OF int_tree.cmp_rank, of Null "[(4, 1), (7, 2), (4, 3)]"] by (auto simp: tree_ok_def)

end
