(* ===== verification/Hsearch.thy ===== *)
theory Hsearch
  imports Key_Store "HOL-Library.While_Combinator" "HOL-Library.Monad_Syntax"
begin

text \<open>
  The hash table of search.h (libc-top-half/musl/src/search/hsearch.c): open addressing with
  triangular probing in a table of \<open>2 ^ n\<close> slots.

  An ENTRY whose key is NULL is \<open>None\<close>.  The probing loops have no bound of their own, so a loop
  that does not end is the result \<open>None\<close>.  The argument \<open>alloc\<close> is whether calloc finds memory for so
  many entries.
\<close>

section \<open>The table\<close>

type_synonym 'd entry = "(cstring \<times> 'd) option"

record 'd tab =
  entries :: "'d entry list"
  tmask :: nat
  used :: nat

abbreviation MINSIZE :: nat where "MINSIZE \<equiv> 8"
abbreviation MAXSIZE :: nat where "MAXSIZE \<equiv> 2147483648"

definition keyhash :: "cstring \<Rightarrow> nat" where
  "keyhash k = foldl (\<lambda>h c. szadd (szmul 31 h) (of_char c)) 0 k"

text \<open>\<open>for (i=hash,j=1; ; i+=j++)\<close> until a slot is right: the index of that slot.\<close>

partial_function (option) probe_from ::
  "('d entry \<Rightarrow> bool) \<Rightarrow> 'd entry list \<Rightarrow> nat \<Rightarrow> nat \<Rightarrow> nat \<Rightarrow> nat option" where
  "probe_from stop es m i j =
     (let e = i AND m in if stop (es ! e) then Some e else probe_from stop es m (szadd i j) (szadd j 1))"

definition lookup :: "cstring \<Rightarrow> nat \<Rightarrow> 'd tab \<Rightarrow> nat option" where
  "lookup key hash tab = probe_from (\<lambda>e. case e of None \<Rightarrow> True | Some (k, _) \<Rightarrow> k = key) (entries tab) (tmask tab) hash 1"

text \<open>The new table of resize.\<close>

primrec rehash :: "nat \<Rightarrow> 'd entry list \<Rightarrow> 'd entry list \<Rightarrow> 'd entry list option" where
  "rehash m [] es = Some es"
| "rehash m (e # old) es =
     (case e of
        None \<Rightarrow> rehash m old es
      | Some (k, _) \<Rightarrow> do {
          i \<leftarrow> probe_from (\<lambda>e. e = None) es m (keyhash k) 1;
          rehash m old (es[i := e]) })"

definition new_size :: "nat \<Rightarrow> nat option" where
  "new_size nel = while_option (\<lambda>n. n < (if nel > MAXSIZE then MAXSIZE else nel)) (\<lambda>n. szmul n 2) MINSIZE"

text \<open>False when there is no memory; then the table is as before.\<close>

definition resize :: "(nat \<Rightarrow> bool) \<Rightarrow> nat \<Rightarrow> 'd tab \<Rightarrow> (bool \<times> 'd tab) option" where
  "resize alloc nel tab = do {
     newsize \<leftarrow> new_size nel;
     if \<not> alloc newsize then Some (False, tab)
     else do {
       es \<leftarrow> rehash (newsize - 1) (entries tab) (replicate newsize None);
       Some (True, tab\<lparr>entries := es, tmask := newsize - 1\<rparr>) } }"

text \<open>The table of hcreate, unless there is no memory for it.  It has no old entries.\<close>

definition hcreate :: "(nat \<Rightarrow> bool) \<Rightarrow> nat \<Rightarrow> 'd tab option option" where
  "hcreate alloc nel = do {
     (ok, tab) \<leftarrow> resize alloc nel \<lparr>entries = [], tmask = 0, used = 0\<rparr>;
     Some (if ok then Some tab else None) }"

datatype action = FIND | ENTER

text \<open>The result is the index of the entry, unless it is NULL, and the table.\<close>

definition hsearch :: "(nat \<Rightarrow> bool) \<Rightarrow> cstring \<times> 'd \<Rightarrow> action \<Rightarrow> 'd tab \<Rightarrow> (nat option \<times> 'd tab) option" where
  "hsearch alloc item action tab = do {
     let hash = keyhash (fst item);
     e \<leftarrow> lookup (fst item) hash tab;
     if entries tab ! e \<noteq> None then Some (Some e, tab)
     else if action = FIND then Some (None, tab)
     else do {
       let tab = tab\<lparr>entries := (entries tab)[e := Some item], used := szadd (used tab) 1\<rparr>;
       if used tab > tmask tab - tmask tab div 4 then do {
         (ok, tab) \<leftarrow> resize alloc (szmul 2 (used tab)) tab;
         if \<not> ok then
           Some (None, tab\<lparr>used := szsub (used tab) 1, entries := (entries tab)[e := None]\<rparr>)
         else do { e \<leftarrow> lookup (fst item) hash tab; Some (Some e, tab) } }
       else Some (Some e, tab) } }"

section \<open>Triangular probing\<close>

definition tri :: "nat \<Rightarrow> nat" where
  "tri n = n * (n + 1) div 2"

lemma tri_Suc: "tri (Suc n) = tri n + Suc n"
proof -
  have "Suc n * (Suc n + 1) = n * (n + 1) + 2 * Suc n" by (simp add: algebra_simps)
  then show ?thesis unfolding tri_def by simp
qed

lemma tri_mono: "a \<le> b \<Longrightarrow> tri a \<le> tri b"
  by (induction rule: dec_induct) (simp_all add: tri_Suc)

lemma tri_0 [simp]: "tri 0 = 0"
  by (simp add: tri_def)

lemma two_tri: "2 * tri n = n * (n + 1)"
  by (simp add: tri_def)

text \<open>The slot of the n-th probe.\<close>

definition slot :: "nat \<Rightarrow> nat \<Rightarrow> nat \<Rightarrow> nat" where
  "slot k h n = (h + tri n) mod 2 ^ k"

text \<open>No slot is probed twice in the first \<open>2 ^ k\<close> probes.\<close>

lemma slot_inj:
  assumes "slot k h a = slot k h b" "a < b" "b < 2 ^ k"
  shows False
proof -
  have le: "tri a \<le> tri b" using tri_mono assms(2) by simp
  have "(2 :: nat) ^ k dvd (h + tri b) - (h + tri a)"
    using assms(1) le unfolding slot_def by (metis add_le_cancel_left mod_eq_dvd_iff_nat)
  then have "2 ^ k dvd tri b - tri a" by simp
  then have "2 * 2 ^ k dvd 2 * (tri b - tri a)" by simp
  then have "2 ^ Suc k dvd b * (b + 1) - a * (a + 1)"
    using two_tri [of a] two_tri [of b] by (simp add: diff_mult_distrib2)
  moreover have "b * (b + 1) - a * (a + 1) = (b - a) * (a + b + 1)"
  proof -
    obtain d where "b = a + d" using assms(2) less_imp_add_positive by blast
    then show ?thesis by (simp add: algebra_simps)
  qed
  ultimately have dvd: "2 ^ Suc k dvd (b - a) * (a + b + 1)" by simp
  show False
  proof (cases "even (b - a)")
    case True
    then have "odd (a + b + 1)" using assms(2) by auto
    then have "coprime (2 ^ Suc k) (a + b + 1)" by simp
    then have "2 ^ Suc k dvd b - a" using dvd coprime_dvd_mult_left_iff by blast
    then have "2 ^ Suc k \<le> b - a" using assms(2) by (simp add: dvd_imp_le)
    then show False using assms(3) by simp
  next
    case False
    then have "coprime (2 ^ Suc k) (b - a)" by simp
    then have "2 ^ Suc k dvd a + b + 1" using dvd coprime_dvd_mult_right_iff by blast
    then have "2 ^ Suc k \<le> a + b + 1" by (simp add: dvd_imp_le)
    then show False using assms(2,3) by simp
  qed
qed

lemma slot_covers:
  assumes "i < 2 ^ k"
  obtains n where "n < 2 ^ k" "slot k h n = i"
proof -
  have "inj_on (slot k h) {..<2 ^ k}"
    by (rule inj_onI) (metis lessThan_iff nat_neq_iff slot_inj)
  moreover have "slot k h ` {..<2 ^ k} \<subseteq> {..<2 ^ k}" by (auto simp: slot_def)
  ultimately have "slot k h ` {..<2 ^ k} = {..<2 ^ k}"
    by (metis card_image card_subset_eq finite_lessThan)
  then show ?thesis using assms that by (metis imageE lessThan_iff)
qed

lemma slot_bound: "slot k h n < 2 ^ k"
  by (simp add: slot_def)

lemma index_mask:
  assumes "k \<le> 32"
  shows "(x mod size_mod) AND (2 ^ k - Suc 0) = x mod 2 ^ k"
proof -
  have "2 ^ k dvd size_mod" using le_imp_power_dvd [of k 32 "2 :: nat"] assms by simp
  moreover have "(x mod size_mod) AND mask k = (x mod size_mod) mod 2 ^ k"
    by (simp add: take_bit_eq_mod flip: take_bit_eq_mask)
  ultimately show ?thesis by (simp add: mask_eq_exp_minus_1 mod_mod_cancel)
qed

text \<open>The loop stops at the first probe that is right.\<close>

lemma probe_from_first:
  assumes "k \<le> 32" "n < 2147483648" "stop (es ! slot k h n)" "\<forall>m < n. \<not> stop (es ! slot k h m)" "m \<le> n"
  shows "probe_from stop es (2 ^ k - 1) ((h + tri m) mod size_mod) (Suc m) = Some (slot k h n)"
  using assms(5)
proof (induction "n - m" arbitrary: m)
  case 0
  have "((h + tri m) mod size_mod) AND (2 ^ k - 1) = slot k h m"
    by (simp add: slot_def index_mask [OF assms(1)])
  then show ?case using 0 assms(3) by (simp add: probe_from.simps Let_def)
next
  case (Suc d)
  have "((h + tri m) mod size_mod) AND (2 ^ k - 1) = slot k h m"
    by (simp add: slot_def index_mask [OF assms(1)])
  moreover have "\<not> stop (es ! slot k h m)" using assms(4) Suc.hyps(2) by auto
  moreover have "szadd ((h + tri m) mod size_mod) (Suc m) = (h + tri (Suc m)) mod size_mod"
    unfolding szadd_def tri_Suc by (metis add.assoc mod_add_left_eq)
  moreover have "szadd (Suc m) 1 = Suc (Suc m)" using assms(2) Suc.hyps(2) by (simp add: szadd_def)
  ultimately show ?case
    using Suc.hyps(1) [of "Suc m"] Suc.hyps(2)
    by (subst probe_from.simps) (simp add: Let_def)
qed

end
