(* ===== verification/Hsearch_Theorems.thy ===== *)
theory Hsearch_Theorems
  imports Hsearch
begin

text \<open>
  The invariant of the hash table and what hsearch does: a key is found exactly when it was entered,
  probing always ends, growing keeps the contents, and a failure to grow leaves the table as it was.
\<close>

definition occupied :: "'d entry list \<Rightarrow> nat" where
  "occupied es = length (filter (\<lambda>e. e \<noteq> None) es)"

text \<open>A slot reached from the hash of the key over slots that hold other keys.\<close>

definition chain :: "nat \<Rightarrow> 'd entry list \<Rightarrow> cstring \<Rightarrow> nat \<Rightarrow> bool" where
  "chain k es key i \<longleftrightarrow> (\<exists>n < 2 ^ k. slot k (keyhash key) n = i \<and>
     (\<forall>m < n. \<exists>k' d. es ! slot k (keyhash key) m = Some (k', d) \<and> k' \<noteq> key))"

definition shape :: "nat \<Rightarrow> 'd entry list \<Rightarrow> bool" where
  "shape k es \<longleftrightarrow> length es = 2 ^ k \<and> (\<forall>i < 2 ^ k. \<forall>key d. es ! i = Some (key, d) \<longrightarrow> chain k es key i)"

definition tab_ok :: "'d tab \<Rightarrow> bool" where
  "tab_ok tab \<longleftrightarrow> (\<exists>k. 3 \<le> k \<and> k \<le> 31 \<and> tmask tab = 2 ^ k - 1 \<and> shape k (entries tab) \<and>
     used tab = occupied (entries tab) \<and> used tab \<le> tmask tab - tmask tab div 4)"

text \<open>The loop condition of lookup.\<close>

abbreviation hit :: "cstring \<Rightarrow> 'd entry \<Rightarrow> bool" where
  "hit key e \<equiv> (case e of None \<Rightarrow> True | Some (k, _) \<Rightarrow> k = key)"

lemma keyhash_bound: "keyhash key < size_mod"
proof (cases key rule: rev_cases)
  case Nil
  then show ?thesis by (simp add: keyhash_def)
next
  case (snoc ys y)
  then show ?thesis by (simp add: keyhash_def szadd_bound)
qed

lemma probe_from_ends:
  assumes "k \<le> 31" "f < 2 ^ k" "stop (es ! f)"
  obtains n where "n < 2 ^ k" "probe_from stop es (2 ^ k - 1) (keyhash key) 1 = Some (slot k (keyhash key) n)"
    "stop (es ! slot k (keyhash key) n)" "\<forall>m < n. \<not> stop (es ! slot k (keyhash key) m)"
proof -
  obtain n0 where n0: "n0 < 2 ^ k" "slot k (keyhash key) n0 = f" using slot_covers [OF assms(2)] by blast
  define n where "n = (LEAST n. stop (es ! slot k (keyhash key) n))"
  have stop: "stop (es ! slot k (keyhash key) n)" unfolding n_def by (rule LeastI [of _ n0]) (use n0 assms(3) in simp)
  have le: "n \<le> n0" unfolding n_def by (rule Least_le) (use n0 assms(3) in simp)
  have first: "\<forall>m < n. \<not> stop (es ! slot k (keyhash key) m)" unfolding n_def using not_less_Least by blast
  have "(2 :: nat) ^ k \<le> 2 ^ 31" using assms(1) by (intro power_increasing) auto
  then have lt: "n < 2147483648" using le n0 by simp
  have "probe_from stop es (2 ^ k - 1) ((keyhash key + tri 0) mod size_mod) (Suc 0) = Some (slot k (keyhash key) n)"
    by (rule probe_from_first [OF _ lt stop first]) (use assms(1) in simp_all)
  then show ?thesis using that [OF _ _ stop first] le n0 keyhash_bound [of key] by simp
qed

lemma free_slot:
  assumes "occupied es < length es"
  shows "\<exists>i < length es. es ! i = None"
proof (rule ccontr)
  assume "\<not> ?thesis"
  then have "filter (\<lambda>e. e \<noteq> None) es = es" by (auto simp: filter_id_conv in_set_conv_nth)
  then show False using assms by (simp add: occupied_def)
qed

lemma chain_unique:
  assumes "chain k es key i" "chain k es key j" "hit key (es ! i)" "hit key (es ! j)"
  shows "i = j"
proof -
  obtain n where n: "slot k (keyhash key) n = i" "\<forall>m < n. \<exists>k' d. es ! slot k (keyhash key) m = Some (k', d) \<and> k' \<noteq> key"
    using assms(1) by (auto simp: chain_def)
  obtain n' where n': "slot k (keyhash key) n' = j" "\<forall>m < n'. \<exists>k' d. es ! slot k (keyhash key) m = Some (k', d) \<and> k' \<noteq> key"
    using assms(2) by (auto simp: chain_def)
  have "\<not> n < n'" using n(1) n'(2) assms(3) by fastforce
  moreover have "\<not> n' < n" using n'(1) n(2) assms(4) by fastforce
  ultimately show ?thesis using n(1) n'(1) by (metis linorder_neqE_nat)
qed

lemma lookup_spec:
  assumes "shape k es" "k \<le> 31" "occupied es < 2 ^ k"
  obtains i where "probe_from (hit key) es (2 ^ k - 1) (keyhash key) 1 = Some i" "i < 2 ^ k" "chain k es key i"
    "es ! i = None \<and> (\<forall>d. Some (key, d) \<notin> set es) \<or> (\<exists>d. es ! i = Some (key, d))"
proof -
  have len: "length es = 2 ^ k" using assms(1) by (simp add: shape_def)
  obtain f where f: "f < 2 ^ k" "es ! f = None" using free_slot [of es] assms(3) len by auto
  obtain n where n: "n < 2 ^ k" "probe_from (hit key) es (2 ^ k - 1) (keyhash key) 1 = Some (slot k (keyhash key) n)"
    "hit key (es ! slot k (keyhash key) n)" "\<forall>m < n. \<not> hit key (es ! slot k (keyhash key) m)"
    using probe_from_ends [OF assms(2) f(1), of "hit key" es key] f(2) by auto
  let ?i = "slot k (keyhash key) n"
  have "\<exists>k' d. es ! slot k (keyhash key) m = Some (k', d) \<and> k' \<noteq> key" if "m < n" for m
    using n(4) [rule_format, OF that] by (cases "es ! slot k (keyhash key) m") auto
  then have ch: "chain k es key ?i" using n(1) by (auto simp: chain_def)
  have "Some (key, d) \<notin> set es" if "es ! ?i = None" for d
  proof
    assume "Some (key, d) \<in> set es"
    then obtain j where j: "j < 2 ^ k" "es ! j = Some (key, d)" using len by (auto simp: in_set_conv_nth)
    then have "chain k es key j" using assms(1) by (simp add: shape_def)
    then have "j = ?i" using chain_unique [OF ch] n(3) j(2) by simp
    then show False using that j(2) by simp
  qed
  moreover have "es ! ?i = None \<or> (\<exists>d. es ! ?i = Some (key, d))"
    using n(3) by (auto split: option.splits)
  ultimately show ?thesis using that [OF n(2) slot_bound ch] by blast
qed

text \<open>A key sits in one slot only.\<close>

lemma shape_one_slot:
  assumes "shape k es" "i < 2 ^ k" "j < 2 ^ k" "es ! i = Some (key, d)" "es ! j = Some (key, d')"
  shows "i = j"
  using assms chain_unique [of k es key i j] by (simp add: shape_def)

section \<open>Entering\<close>

lemma occupied_update:
  "i < length es \<Longrightarrow> es ! i = None \<Longrightarrow> occupied (es[i := Some x]) = Suc (occupied es)"
proof (induction es arbitrary: i)
  case (Cons e es)
  then show ?case by (cases i) (auto simp: occupied_def)
qed simp

lemma set_update_free:
  assumes "i < length es" "es ! i = None"
  shows "Some x \<in> set (es[i := Some y]) \<longleftrightarrow> x = y \<or> Some x \<in> set es"
proof
  assume "Some x \<in> set (es[i := Some y])"
  then show "x = y \<or> Some x \<in> set es" using set_update_subset_insert [of es i "Some y"] by auto
next
  assume "x = y \<or> Some x \<in> set es"
  then show "Some x \<in> set (es[i := Some y])"
  proof
    assume "Some x \<in> set es"
    then obtain j where "j < length es" "es ! j = Some x" by (auto simp: in_set_conv_nth)
    then have "j < length (es[i := Some y])" "es[i := Some y] ! j = Some x" using assms by (cases "j = i"; auto)+
    then show ?thesis by (metis nth_mem)
  qed (use assms in \<open>simp add: set_update_memI\<close>)
qed

lemma shape_enter:
  assumes "shape k es" "i < 2 ^ k" "es ! i = None" "chain k es key i"
  shows "shape k (es[i := Some (key, d)])"
proof -
  let ?es = "es[i := Some (key, d)]"
  have len: "length es = 2 ^ k" using assms(1) by (simp add: shape_def)
  have same: "?es ! m = es ! m" if "es ! m \<noteq> None" for m
    using assms(3) that by (cases "m = i") auto
  have keep: "chain k ?es key' j" if "chain k es key' j" for key' j
    using that same unfolding chain_def by (metis option.distinct(1))
  have "chain k ?es key' j" if "j < 2 ^ k" "?es ! j = Some (key', d')" for j key' d'
    using that assms len keep by (cases "j = i") (auto simp: shape_def)
  then show ?thesis using len by (simp add: shape_def)
qed

lemma rehash_spec:
  assumes "shape k es" "k \<le> 31" "occupied es + occupied old < 2 ^ k"
    "sorted_wrt (\<lambda>x y. x \<noteq> None \<and> y \<noteq> None \<longrightarrow> fst (the x) \<noteq> fst (the y)) old"
    "\<forall>key d d'. Some (key, d) \<in> set old \<longrightarrow> Some (key, d') \<notin> set es"
  shows "\<exists>es'. rehash (2 ^ k - 1) old es = Some es' \<and> shape k es' \<and> occupied es' = occupied es + occupied old \<and>
    (\<forall>x. Some x \<in> set es' \<longleftrightarrow> Some x \<in> set es \<or> Some x \<in> set old)"
  using assms(1,3-)
proof (induction old arbitrary: es)
  case Nil
  then show ?case by (simp add: occupied_def)
next
  case (Cons e old)
  show ?case
  proof (cases e)
    case None
    then show ?thesis using Cons by (simp add: occupied_def)
  next
    case (Some x)
    obtain key d where x: "x = (key, d)" by (cases x)
    have len: "length es = 2 ^ k" using Cons.prems(1) by (simp add: shape_def)
    have "occupied es < length es" using Cons.prems(2) len by simp
    then obtain f where f: "f < 2 ^ k" "es ! f = None" using free_slot [of es] len by auto
    obtain n where n: "n < 2 ^ k" "probe_from (\<lambda>e. e = None) es (2 ^ k - 1) (keyhash key) 1 = Some (slot k (keyhash key) n)"
      "es ! slot k (keyhash key) n = None" "\<forall>m < n. es ! slot k (keyhash key) m \<noteq> None"
      using probe_from_ends [OF assms(2) f(1), of "\<lambda>e. e = None" es key] f(2) by auto
    let ?i = "slot k (keyhash key) n"
    have i: "?i < length es" using len slot_bound [of k] by simp
    have no: "Some (key, d') \<notin> set es" for d' using Cons.prems(4) Some x by auto
    have "\<exists>k' d. es ! slot k (keyhash key) m = Some (k', d) \<and> k' \<noteq> key" if lt: "m < n" for m
    proof -
      obtain k' d' where e: "es ! slot k (keyhash key) m = Some (k', d')" using n(4) [rule_format, OF lt] by auto
      have "es ! slot k (keyhash key) m \<in> set es" using len slot_bound [of k] by (intro nth_mem) simp
      then show ?thesis using e no by metis
    qed
    then have "chain k es key ?i" using n(1) by (auto simp: chain_def)
    then have sh: "shape k (es[?i := e])"
      using shape_enter [OF Cons.prems(1) slot_bound n(3)] Some x by simp
    have mem: "Some y \<in> set (es[?i := e]) \<longleftrightarrow> y = (key, d) \<or> Some y \<in> set es" for y
      using set_update_free [OF i n(3), of y "(key, d)"] Some x by simp
    have oc: "occupied (es[?i := e]) = Suc (occupied es)" using occupied_update [OF i n(3)] Some by simp
    have "\<forall>key' d d'. Some (key', d) \<in> set old \<longrightarrow> Some (key', d') \<notin> set (es[?i := e])"
      using Cons.prems(3,4) Some x unfolding mem by fastforce
    then obtain es' where "rehash (2 ^ k - 1) old (es[?i := e]) = Some es'" "shape k es'"
      "occupied es' = Suc (occupied es) + occupied old"
      "\<forall>x. Some x \<in> set es' \<longleftrightarrow> Some x \<in> set (es[?i := e]) \<or> Some x \<in> set old"
      using Cons.IH [OF sh] Cons.prems(2,3) Some oc by (auto simp: occupied_def)
    then show ?thesis using n(2) Some x mem by (auto simp: occupied_def)
  qed
qed

section \<open>Growing\<close>

lemma new_size_from:
  assumes "k \<le> 31" "nel \<le> 2147483648"
  shows "\<exists>k' \<ge> k. k' \<le> 31 \<and> while_option (\<lambda>n. n < nel) (\<lambda>n. szmul n 2) (2 ^ k) = Some (2 ^ k') \<and> nel \<le> 2 ^ k'"
  using assms(1)
proof (induction "31 - k" arbitrary: k)
  case 0
  then have "k = 31" by simp
  then show ?case using assms(2) by (intro exI [of _ 31]) (simp add: while_option_unfold)
next
  case (Suc j)
  have "(2 :: nat) ^ k \<le> 2 ^ 30" using Suc.hyps(2) by (intro power_increasing) auto
  then have d: "szmul (2 ^ k) 2 = 2 ^ Suc k" by (simp add: szmul_def)
  have j: "j = 31 - Suc k" "Suc k \<le> 31" using Suc.hyps(2) by auto
  show ?case
  proof (cases "2 ^ k < nel")
    case True
    obtain k' where "Suc k \<le> k'" "k' \<le> 31" "while_option (\<lambda>n. n < nel) (\<lambda>n. szmul n 2) (2 ^ Suc k) = Some (2 ^ k')"
      "nel \<le> 2 ^ k'"
      using Suc.hyps(1) [OF j] by blast
    then show ?thesis using True d by (intro exI [of _ k']) (simp add: while_option_unfold [of _ _ "2 ^ k"])
  next
    case False
    then show ?thesis using Suc.prems by (intro exI [of _ k]) (simp add: while_option_unfold [of _ _ "2 ^ k"])
  qed
qed

lemma new_size_spec:
  assumes "nel \<le> 2147483648"
  obtains k where "3 \<le> k" "k \<le> 31" "new_size nel = Some (2 ^ k)" "nel \<le> 2 ^ k"
  using new_size_from [of 3 nel] assms by (auto simp: new_size_def)

lemma shape_distinct:
  assumes "shape k es"
  shows "sorted_wrt (\<lambda>x y. x \<noteq> None \<and> y \<noteq> None \<longrightarrow> fst (the x) \<noteq> fst (the y)) es"
proof -
  have len: "length es = 2 ^ k" using assms by (simp add: shape_def)
  have "fst (the (es ! i)) \<noteq> fst (the (es ! j))" if "i < j" "j < length es" "es ! i \<noteq> None" "es ! j \<noteq> None" for i j
    using shape_one_slot [OF assms, of i j] that len by force
  then show ?thesis unfolding sorted_wrt_iff_nth_less by blast
qed

lemma resize_spec:
  assumes "shape k0 (entries tab)" "2 * occupied (entries tab) \<le> nel" "nel \<le> 2147483648"
    "used tab = occupied (entries tab)"
  shows "resize alloc nel tab = Some (False, tab) \<and> \<not> (\<forall>n. alloc n) \<or>
    (\<exists>tab'. resize alloc nel tab = Some (True, tab') \<and> tab_ok tab' \<and> used tab' = used tab \<and>
       (\<forall>x. Some x \<in> set (entries tab') \<longleftrightarrow> Some x \<in> set (entries tab)))"
proof -
  obtain k where k: "3 \<le> k" "k \<le> 31" "new_size nel = Some (2 ^ k)" "nel \<le> 2 ^ k"
    using new_size_spec [OF assms(3)] by blast
  let ?new = "replicate (2 ^ k) None :: 'a entry list"
  have "shape k ?new" "occupied ?new = 0" by (auto simp: shape_def occupied_def)
  moreover have "occupied (entries tab) < 2 ^ k"
    using assms(2) k(4) by (cases "occupied (entries tab) = 0") auto
  ultimately obtain es where es: "rehash (2 ^ k - 1) (entries tab) ?new = Some es" "shape k es"
    "occupied es = occupied (entries tab)" "\<forall>x. Some x \<in> set es \<longleftrightarrow> Some x \<in> set (entries tab)"
    using rehash_spec [of k ?new "entries tab"] k(2) shape_distinct [OF assms(1)] by auto
  show ?thesis
  proof (cases "alloc (2 ^ k)")
    case False
    then show ?thesis using k(3) by (auto simp: resize_def)
  next
    case True
    let ?t = "tab\<lparr>entries := es, tmask := 2 ^ k - 1\<rparr>"
    have "(8 :: nat) \<le> 2 ^ k" using power_increasing [OF k(1), of "2 :: nat"] by simp
    then have "used ?t \<le> tmask ?t - tmask ?t div 4" using assms(2,4) k(4) by simp
    then have "tab_ok ?t" using k(1,2) es(2,3) assms(4) by (auto simp: tab_ok_def)
    then show ?thesis using True k(3) es(1,4) assms(4) by (simp add: resize_def)
  qed
qed

section \<open>Properties\<close>

abbreviation contents :: "'d tab \<Rightarrow> (cstring \<times> 'd) set" where
  "contents tab \<equiv> {x. Some x \<in> set (entries tab)}"

lemma tab_lookup:
  assumes "tab_ok tab"
  obtains k i where "tmask tab = 2 ^ k - 1" "shape k (entries tab)" "i < 2 ^ k" "chain k (entries tab) key i"
    "lookup key (keyhash key) tab = Some i" "k \<le> 31" "3 \<le> k"
    "entries tab ! i = None \<and> (\<forall>d. (key, d) \<notin> contents tab) \<or> (\<exists>d. entries tab ! i = Some (key, d))"
proof -
  obtain k where k: "3 \<le> k" "k \<le> 31" "tmask tab = 2 ^ k - 1" "shape k (entries tab)"
    "used tab = occupied (entries tab)" "used tab \<le> tmask tab - tmask tab div 4"
    using assms by (auto simp: tab_ok_def)
  have "(0 :: nat) < 2 ^ k" by simp
  then have "occupied (entries tab) < 2 ^ k" using k(3,5,6) by linarith
  then show ?thesis
    using lookup_spec [OF k(4,2), of key] k that by (auto simp: lookup_def)
qed

lemma hsearch_contract:
  assumes "tab_ok tab" "used tab < 536870912"
  shows "if \<exists>d. (key, d) \<in> contents tab
     then \<exists>i d'. hsearch alloc (key, d) action tab = Some (Some i, tab) \<and> entries tab ! i = Some (key, d') \<and>
            (key, d') \<in> contents tab
     else if action = FIND then hsearch alloc (key, d) action tab = Some (None, tab)
     else hsearch alloc (key, d) action tab = Some (None, tab) \<and> \<not> (\<forall>n. alloc n) \<or>
       (\<exists>i tab'. hsearch alloc (key, d) action tab = Some (Some i, tab') \<and> entries tab' ! i = Some (key, d) \<and>
          tab_ok tab' \<and> used tab' = Suc (used tab) \<and> contents tab' = insert (key, d) (contents tab))"
proof -
  obtain k i where k: "tmask tab = 2 ^ k - 1" "shape k (entries tab)" "i < 2 ^ k" "chain k (entries tab) key i"
    "lookup key (keyhash key) tab = Some i" "k \<le> 31" "3 \<le> k"
    "entries tab ! i = None \<and> (\<forall>d. (key, d) \<notin> contents tab) \<or> (\<exists>d. entries tab ! i = Some (key, d))"
    using tab_lookup [OF assms(1)] by blast
  have len: "length (entries tab) = 2 ^ k" using k(2) by (simp add: shape_def)
  show ?thesis
  proof (cases "entries tab ! i")
    case (Some x)
    then obtain d' where d': "entries tab ! i = Some (key, d')" using k(8) by auto
    then have "(key, d') \<in> contents tab" using k(3) len by (metis mem_Collect_eq nth_mem)
    then show ?thesis using k(5) d' by (auto simp: hsearch_def Let_def)
  next
    case None
    then have no: "\<forall>d. (key, d) \<notin> contents tab" using k(8) by auto
    show ?thesis
    proof (cases action)
      case FIND
      then show ?thesis using no None k(5) by (simp add: hsearch_def Let_def)
    next
      case ENTER
      have us: "used tab = occupied (entries tab)" using assms(1) by (auto simp: tab_ok_def)
      define t where "t = tab\<lparr>entries := (entries tab)[i := Some (key, d)], used := Suc (used tab)\<rparr>"
      have il: "i < length (entries tab)" using k(3) len by simp
      have t: "shape k (entries t)" "used t = occupied (entries t)" "tmask t = 2 ^ k - 1" "used t = Suc (used tab)"
        "contents t = insert (key, d) (contents tab)" "entries t ! i = Some (key, d)"
        using shape_enter [OF k(2,3) None k(4)] occupied_update [OF il None] us k(1) il
          set_update_free [OF il None]
        by (auto simp: t_def)
      have hs: "hsearch alloc (key, d) action tab =
          (if used t > tmask t - tmask t div 4 then do {
             (ok, t') \<leftarrow> resize alloc (2 * used t) t;
             if \<not> ok then Some (None, t'\<lparr>used := szsub (used t') 1, entries := (entries t')[i := None]\<rparr>)
             else do { e \<leftarrow> lookup key (keyhash key) t'; Some (Some e, t') } }
           else Some (Some i, t))"
        using ENTER None k(5) assms(2) unfolding hsearch_def Let_def fst_conv
        by (simp add: t_def szadd_def szmul_def)
      show ?thesis
      proof (cases "used t > tmask t - tmask t div 4")
        case False
        then have "tab_ok t" using t k(6,7) by (auto simp: tab_ok_def)
        then show ?thesis using hs False t no ENTER by auto
      next
        case True
        from resize_spec [OF t(1), of "2 * used t" alloc] t(2,4) assms(2)
        consider "resize alloc (2 * used t) t = Some (False, t)" "\<not> (\<forall>n. alloc n)"
          | t' where "resize alloc (2 * used t) t = Some (True, t')" "tab_ok t'" "used t' = used t"
            "\<forall>x. Some x \<in> set (entries t') \<longleftrightarrow> Some x \<in> set (entries t)" by auto
        then show ?thesis
        proof cases
          case 1
          have "t\<lparr>used := szsub (used t) 1, entries := (entries t)[i := None]\<rparr> = tab"
            using None assms(2) list_update_id [of "entries tab" i]
            by (simp add: t_def szsub_def)
          then show ?thesis using hs True 1 no ENTER by simp
        next
          case 2
          have c: "contents t' = insert (key, d) (contents tab)" using 2(4) t(5) by auto
          obtain k' j where j: "lookup key (keyhash key) t' = Some j" "shape k' (entries t')" "j < 2 ^ k'"
            "entries t' ! j = None \<and> (\<forall>d. (key, d) \<notin> contents t') \<or> (\<exists>d. entries t' ! j = Some (key, d))"
            using tab_lookup [OF 2(2)] by metis
          then obtain d' where d': "entries t' ! j = Some (key, d')" using c by auto
          then have "(key, d') \<in> contents t'" using j(2,3) by (metis mem_Collect_eq nth_mem shape_def)
          then have "d' = d" using c no by auto
          then show ?thesis using hs True 2 j(1) d' no ENTER c t(4) by simp
        qed
      qed
    qed
  qed
qed

definition fresh_tab :: "'d tab" where
  "fresh_tab = \<lparr>entries = replicate 8 None, tmask = 7, used = 0\<rparr>"

lemma fresh_tab_ok: "tab_ok fresh_tab" "contents fresh_tab = {}"
  by (auto simp: tab_ok_def fresh_tab_def shape_def occupied_def intro!: exI [of _ 3])

text \<open>C12.  On a table in good order hsearch always returns.  A key that is in the table is found with its data,
  whatever the action, and nothing changes; FIND of another key returns NULL; ENTER of another key
  adds the item to the contents, and the table, grown if need be, is in good order; only when there
  is no memory to grow ENTER returns NULL, and then the table is exactly as before.\<close>

theorem hsearch_spec:
  assumes "tab_ok tab" "used tab < 536870912"
  shows "if \<exists>d. (key, d) \<in> contents tab
     then \<exists>i d'. hsearch alloc (key, d) action tab = Some (Some i, tab) \<and> entries tab ! i = Some (key, d') \<and>
            (key, d') \<in> contents tab
     else if action = FIND then hsearch alloc (key, d) action tab = Some (None, tab)
     else hsearch alloc (key, d) action tab = Some (None, tab) \<and> \<not> (\<forall>n. alloc n) \<or>
       (\<exists>i tab'. hsearch alloc (key, d) action tab = Some (Some i, tab') \<and> entries tab' ! i = Some (key, d) \<and>
          tab_ok tab' \<and> used tab' = Suc (used tab) \<and> contents tab' = insert (key, d) (contents tab))"
  by (rule hsearch_contract [OF assms])

theorem hsearch_spec_witness:
  "\<exists>i tab'. hsearch (\<lambda>_. True) (''key'', 5) ENTER fresh_tab = Some (Some i, tab') \<and>
     entries tab' ! i = Some (''key'', 5 :: nat) \<and> contents tab' = {(''key'', 5)}"
  using hsearch_spec [OF fresh_tab_ok(1), of "''key''" "\<lambda>_. True" 5 ENTER] fresh_tab_ok(2)
  by (auto simp: fresh_tab_def)

lemma new_size_all:
  obtains k where "3 \<le> k" "k \<le> 31" "new_size nel = Some (2 ^ k)" "min nel MAXSIZE \<le> 2 ^ k"
proof -
  have "new_size nel = new_size (min nel MAXSIZE)" by (auto simp: new_size_def min_def)
  then show ?thesis using new_size_spec [of "min nel MAXSIZE"] that by auto
qed

text \<open>hcreate returns for every number of elements, the loop that doubles the size included: the table has a
  power of two of slots, between 8 and \<open>2 ^ 31\<close> and enough for the elements up to that bound, all empty,
  and there is none exactly when calloc fails for that size.\<close>

theorem hcreate_returns:
  "\<exists>k. 3 \<le> k \<and> k \<le> 31 \<and> min nel MAXSIZE \<le> 2 ^ k \<and>
     (if alloc (2 ^ k)
      then \<exists>tab. hcreate alloc nel = Some (Some tab) \<and> tab_ok tab \<and> length (entries tab) = 2 ^ k \<and> contents tab = {}
      else hcreate alloc nel = Some None)"
proof -
  obtain k where k: "3 \<le> k" "k \<le> 31" "new_size nel = Some (2 ^ k)" "min nel MAXSIZE \<le> 2 ^ k" by (rule new_size_all)
  have "(8 :: nat) \<le> 2 ^ k" using power_increasing [OF k(1), of "2 :: nat"] by simp
  then show ?thesis using k
    by (auto simp: hcreate_def resize_def tab_ok_def shape_def occupied_def intro!: exI [of _ k])
qed

section \<open>The table as a store\<close>

definition find_data :: "'d tab \<Rightarrow> cstring \<Rightarrow> 'd option" where
  "find_data tab key = (case lookup key (keyhash key) tab of None \<Rightarrow> None | Some i \<Rightarrow> map_option snd (entries tab ! i))"

definition enter_data :: "cstring \<Rightarrow> 'd \<Rightarrow> 'd tab \<Rightarrow> ('d option \<times> 'd tab) option" where
  "enter_data key d tab = (case hsearch (\<lambda>_. True) (key, d) ENTER tab of
     None \<Rightarrow> None
   | Some (r, tab') \<Rightarrow> Some (map_option (\<lambda>i. snd (the (entries tab' ! i))) r, tab'))"

lemma contents_unique:
  assumes "tab_ok tab" "(key, d) \<in> contents tab" "(key, d') \<in> contents tab"
  shows "d = d'"
proof -
  obtain k where k: "shape k (entries tab)" using assms(1) by (auto simp: tab_ok_def)
  then obtain i j where "i < 2 ^ k" "j < 2 ^ k" "entries tab ! i = Some (key, d)" "entries tab ! j = Some (key, d')"
    using assms(2,3) by (auto simp: in_set_conv_nth shape_def)
  then show ?thesis using shape_one_slot [OF k, of i j] by auto
qed

lemma find_data_iff:
  assumes "tab_ok tab"
  shows "find_data tab key = Some d \<longleftrightarrow> (key, d) \<in> contents tab"
proof -
  obtain k i where "tmask tab = 2 ^ k - 1" and k: "shape k (entries tab)" "i < 2 ^ k" and
    "chain k (entries tab) key i" and l: "lookup key (keyhash key) tab = Some i" and "k \<le> 31" "3 \<le> k" and
    e: "entries tab ! i = None \<and> (\<forall>d. (key, d) \<notin> contents tab) \<or> (\<exists>d. entries tab ! i = Some (key, d))"
    by (rule tab_lookup [OF assms])
  have "(key, d') \<in> contents tab" if "entries tab ! i = Some (key, d')" for d'
    using that k(1,2) by (metis mem_Collect_eq nth_mem shape_def)
  note mem = this
  show ?thesis
  proof (cases "entries tab ! i")
    case None
    then have "(key, d) \<notin> contents tab" using e by simp
    then show ?thesis using None l by (simp add: find_data_def)
  next
    case (Some x)
    then obtain d' where d': "entries tab ! i = Some (key, d')" using e by auto
    then have "find_data tab key = Some d'" using l by (simp add: find_data_def)
    then show ?thesis using contents_unique [OF assms _ mem [OF d'], of d] mem [OF d'] by auto
  qed
qed

interpretation hash: key_store find_data enter_data tab_ok used 536870912 "\<lambda>_. True" "(=)"
proof
  fix tab :: "'a tab" and key v w
  assume t: "tab_ok tab" "used tab < 536870912" "find_data tab key = Some w"
  then have w: "(key, w) \<in> contents tab" using find_data_iff [OF t(1)] by simp
  then have ex: "(\<exists>d. (key, d) \<in> contents tab) = True" by blast
  obtain i d' where i: "hsearch (\<lambda>_. True) (key, v) ENTER tab = Some (Some i, tab)" "entries tab ! i = Some (key, d')"
    "(key, d') \<in> contents tab"
    using hsearch_contract [OF t(1,2), of key "\<lambda>_. True" v ENTER] unfolding ex if_True by blast
  have "d' = w" by (rule contents_unique [OF t(1) i(3) w])
  with i have "hsearch (\<lambda>_. True) (key, v) ENTER tab = Some (Some i, tab)" "entries tab ! i = Some (key, w)" by simp_all
  then show "enter_data key v tab = Some (Some w, tab)" by (simp add: enter_data_def)
next
  fix tab :: "'a tab" and key v
  assume t: "tab_ok tab" "used tab < 536870912" "find_data tab key = None"
  have no: "\<not> (\<exists>d. (key, d) \<in> contents tab)" using find_data_iff [OF t(1), of key] t(3) by simp
  then have ex: "(\<exists>d. (key, d) \<in> contents tab) = False" by blast
  obtain i tab' where h: "hsearch (\<lambda>_. True) (key, v) ENTER tab = Some (Some i, tab')"
    "entries tab' ! i = Some (key, v)" "tab_ok tab'" "used tab' = Suc (used tab)" "contents tab' = insert (key, v) (contents tab)"
    using hsearch_contract [OF t(1,2), of key "\<lambda>_. True" v ENTER]
    unfolding ex if_False by auto
  have "find_data tab' j = (if key = j then Some v else find_data tab j)" for j
  proof (cases "find_data tab' j")
    case None
    then have "\<forall>d. (j, d) \<notin> contents tab'" using find_data_iff [OF h(3)] by (metis option.distinct(1))
    then show ?thesis using None h(5) find_data_iff [OF t(1), of j] by (cases "find_data tab j") auto
  next
    case (Some d)
    then have "(j, d) \<in> contents tab'" using find_data_iff [OF h(3)] by blast
    then consider "j = key" "d = v" | "(j, d) \<in> contents tab" "j \<noteq> key" using h(5) no by auto
    then show ?thesis using Some find_data_iff [OF t(1), of j d] by cases simp_all
  qed
  then show "\<exists>tab'. enter_data key v tab = Some (Some v, tab') \<and> tab_ok tab' \<and> used tab' = Suc (used tab) \<and>
      (\<forall>j. find_data tab' j = (if key = j then Some v else find_data tab j))"
    using h(1-4) by (intro exI [of _ tab']) (simp add: enter_data_def)
qed auto

text \<open>Entering a sequence of items into a table in good order keeps the data of the first item of each key,
  through every growth of the table.\<close>

theorem hsearch_keeps_first:
  assumes "tab_ok tab" "used tab + length items \<le> 536870912"
  shows "\<exists>tab'. enter_all enter_data items tab = Some tab' \<and> tab_ok tab' \<and>
    (\<forall>key. find_data tab' key = (case find_data tab key of Some d \<Rightarrow> Some d | None \<Rightarrow> first_of (=) key items))"
  using hash.enter_all_spec [OF assms] by auto

theorem hsearch_keeps_first_witness:
  "\<exists>tab'. enter_all enter_data [(''a'', 1), (''b'', 2), (''a'', 3 :: nat)] fresh_tab = Some tab' \<and>
     find_data tab' ''a'' = Some 1"
proof -
  let ?items = "[(''a'', 1), (''b'', 2), (''a'', 3 :: nat)]"
  have "used fresh_tab + length ?items \<le> 536870912" by (simp add: fresh_tab_def)
  from hsearch_keeps_first [OF fresh_tab_ok(1) this] obtain tab' where
    "enter_all enter_data ?items fresh_tab = Some tab'"
    "find_data tab' ''a'' = (case find_data fresh_tab ''a'' of Some d \<Rightarrow> Some d | None \<Rightarrow> first_of (=) ''a'' ?items)"
    by blast
  moreover have "find_data fresh_tab ''a'' = (None :: nat option)"
    using find_data_iff [OF fresh_tab_ok(1), of "''a''"] fresh_tab_ok(2) by (metis empty_iff not_None_eq)
  ultimately show ?thesis by (intro exI [of _ tab'] conjI) simp_all
qed

end
