(* ===== verification/Utf8.thy ===== *)
theory Utf8
  imports Prelude
begin

text \<open>
  Multibyte characters (libc-top-half/musl/src/multibyte: internal.h, internal.c, mbrtowc.c,
  mbtowc.c, wcrtomb.c and the functions on top of them).

  A byte is a \<open>nat\<close> below 256, an unsigned and a wchar_t a \<open>nat\<close> below \<open>2 ^ 32\<close>.  A source
  string is the list of the bytes from the pointer on; reading beyond its end is the result
  \<open>None\<close>.  The argument \<open>one\<close> is \<open>MB_CUR_MAX == 1\<close>, the C locale.
\<close>

section \<open>The table of lead bytes\<close>

abbreviation SA :: nat where "SA \<equiv> 0xc2"
abbreviation SB :: nat where "SB \<equiv> 0xf4"

text \<open>The macro R: an interval of second bytes in the upper bits of a state.\<close>

definition bt_R :: "nat \<Rightarrow> nat \<Rightarrow> nat" where
  "bt_R a b = szmul (if a = 0x80 then szsub 0x40 b else szsub 0 a) (2 ^ 23)"

definition bt_C :: "nat \<Rightarrow> nat" where
  "bt_C x = (if x < 2 then 0xFFFFFFFF else bt_R 0x80 0xc0 OR x)"

definition bt_D :: "nat \<Rightarrow> nat" where
  "bt_D x = bt_C (x + 16)"

definition bt_E :: "nat \<Rightarrow> nat" where
  "bt_E x = (if x = 0 then bt_R 0xa0 0xc0 else if x = 0xd then bt_R 0x80 0xa0 else bt_R 0x80 0xc0)
     OR drop_bit 6 (bt_R 0x80 0xc0) OR x"

definition bt_F :: "nat \<Rightarrow> nat" where
  "bt_F x = (if x \<ge> 5 then 0 else if x = 0 then bt_R 0x90 0xc0 else if x = 4 then bt_R 0x80 0x90 else bt_R 0x80 0xc0)
     OR drop_bit 6 (bt_R 0x80 0xc0) OR drop_bit 12 (bt_R 0x80 0xc0) OR x"

definition bittab :: "nat list" where
  "bittab = map bt_C [2..<16] @ map bt_D [0..<16] @ map bt_E [0..<16] @ map bt_F [0..<5]"

text \<open>\<open>(int32_t)c >> 26\<close>.\<close>

definition high_bits :: "nat \<Rightarrow> int" where
  "high_bits c = (if c < 0x80000000 then int (c div 67108864) else int (c div 67108864) - 64)"

text \<open>The macro OOB, with the operands as ints.\<close>

definition out_of_bounds :: "nat \<Rightarrow> nat \<Rightarrow> bool" where
  "out_of_bounds c b \<longleftrightarrow> ((int (b div 8) - 16) OR (int (b div 8) + high_bits c)) AND NOT 7 \<noteq> 0"

text \<open>\<open>0xdfff & (signed char)c\<close>.\<close>

definition codeunit :: "nat \<Rightarrow> nat" where
  "codeunit c = 0xdfff AND (if c < 128 then c else szsub c 256)"

definition is_codeunit :: "nat \<Rightarrow> bool" where
  "is_codeunit c \<longleftrightarrow> szsub c 0xdf80 < 0x80"

section \<open>Decoding\<close>

text \<open>
  The results of mbrtowc: the number of bytes with the character stored, the value -2, the value
  -1 with errno EILSEQ, and the 0 for a NULL source.
\<close>

datatype mb_result = Mb_char nat nat | Mb_partial | Mb_error | Mb_initial

text \<open>\<open>c<<6 | b-0x80\<close> of a continuation byte.\<close>

definition mb_shift :: "nat \<Rightarrow> nat \<Rightarrow> nat" where
  "mb_shift c b = szmul c 64 OR (b - 0x80)"

definition top_bit :: "nat \<Rightarrow> bool" where
  "top_bit c \<longleftrightarrow> c AND 0x80000000 \<noteq> 0"

text \<open>The loop from its label on: \<open>N\<close> bytes at the start, \<open>n\<close> of them left.\<close>

fun mb_loop :: "nat \<Rightarrow> nat \<Rightarrow> nat list \<Rightarrow> nat \<Rightarrow> (mb_result \<times> nat) option" where
  "mb_loop N c [] n = None"
| "mb_loop N c (b # s) n =
     (let c = mb_shift c b; n = n - 1 in
      if \<not> top_bit c then Some (Mb_char (N - n) c, 0)
      else if n \<noteq> 0 then
        (case s of [] \<Rightarrow> None
         | b' # _ \<Rightarrow> if szsub b' 0x80 \<ge> 0x40 then Some (Mb_error, 0) else mb_loop N c s n)
      else Some (Mb_partial, c))"

text \<open>The bytes after the lead byte, or after an earlier partial character.\<close>

definition mb_rest :: "nat \<Rightarrow> nat \<Rightarrow> nat list \<Rightarrow> nat \<Rightarrow> (mb_result \<times> nat) option" where
  "mb_rest N c s n =
     (if n \<noteq> 0 then
        (case s of [] \<Rightarrow> None
         | b # _ \<Rightarrow> if out_of_bounds c b then Some (Mb_error, 0) else mb_loop N c s n)
      else Some (Mb_partial, c))"

text \<open>The state \<open>c\<close> is \<open>*st\<close>; the result has the new one.\<close>

definition mbrtowc :: "bool \<Rightarrow> nat list option \<Rightarrow> nat \<Rightarrow> nat \<Rightarrow> (mb_result \<times> nat) option" where
  "mbrtowc one src n c =
     (case src of
        None \<Rightarrow> Some (if c \<noteq> 0 then (Mb_error, 0) else (Mb_initial, c))
      | Some s \<Rightarrow>
          if n = 0 then Some (Mb_partial, c)
          else if c = 0 then
            (case s of [] \<Rightarrow> None
             | b # s \<Rightarrow>
                 if b < 0x80 then Some (Mb_char (if b \<noteq> 0 then 1 else 0) b, c)
                 else if one then Some (Mb_char 1 (codeunit b), c)
                 else if szsub b SA > SB - SA then Some (Mb_error, 0)
                 else mb_rest n (bittab ! (b - SA)) s (n - 1))
          else mb_rest n c s n)"

definition mbrlen :: "bool \<Rightarrow> nat list option \<Rightarrow> nat \<Rightarrow> nat \<Rightarrow> (mb_result \<times> nat) option" where
  "mbrlen one s n st = mbrtowc one s n st"

definition mbsinit :: "nat option \<Rightarrow> bool" where
  "mbsinit st \<longleftrightarrow> st = None \<or> st = Some 0"

text \<open>mbtowc has no state and reads only if the character is complete.\<close>

definition mbtowc :: "bool \<Rightarrow> nat list option \<Rightarrow> nat \<Rightarrow> mb_result option" where
  "mbtowc one src n =
     (case src of
        None \<Rightarrow> Some Mb_initial
      | Some s \<Rightarrow>
          if n = 0 then Some Mb_error
          else (case s of [] \<Rightarrow> None
            | b # s \<Rightarrow>
                if b < 0x80 then Some (Mb_char (if b \<noteq> 0 then 1 else 0) b)
                else if one then Some (Mb_char 1 (codeunit b))
                else if szsub b SA > SB - SA then Some Mb_error
                else
                  let c = bittab ! (b - SA) in
                  if n < 4 \<and> top_bit (szmul c (2 ^ (6 * n - 6))) then Some Mb_error
                  else (case s of [] \<Rightarrow> None
                    | b # s \<Rightarrow>
                        if out_of_bounds c b then Some Mb_error
                        else let c = mb_shift c b in
                          if \<not> top_bit c then Some (Mb_char 2 c)
                          else (case s of [] \<Rightarrow> None
                            | b # s \<Rightarrow>
                                if szsub b 0x80 \<ge> 0x40 then Some Mb_error
                                else let c = mb_shift c b in
                                  if \<not> top_bit c then Some (Mb_char 3 c)
                                  else (case s of [] \<Rightarrow> None
                                    | b # _ \<Rightarrow>
                                        if szsub b 0x80 \<ge> 0x40 then Some Mb_error
                                        else Some (Mb_char 4 (mb_shift c b)))))))"

definition mblen :: "bool \<Rightarrow> nat list option \<Rightarrow> nat \<Rightarrow> mb_result option" where
  "mblen one s n = mbtowc one s n"

text \<open>WEOF is \<open>None\<close>.\<close>

definition btowc :: "bool \<Rightarrow> int \<Rightarrow> nat option" where
  "btowc one c =
     (let b = nat (c mod 256) in
      if b < 128 then Some b else if one \<and> c \<noteq> -1 then Some (codeunit b) else None)"

section \<open>Encoding\<close>

text \<open>The bytes stored, or \<open>None\<close> for EILSEQ.\<close>

definition wc_bytes :: "bool \<Rightarrow> nat \<Rightarrow> nat list option" where
  "wc_bytes one wc =
     (if wc < 0x80 then Some [wc]
      else if one then (if is_codeunit wc then Some [wc AND 0xff] else None)
      else if wc < 0x800 then Some [0xc0 OR drop_bit 6 wc, 0x80 OR (wc AND 0x3f)]
      else if wc < 0xd800 \<or> szsub wc 0xe000 < 0x2000 then
        Some [0xe0 OR drop_bit 12 wc, 0x80 OR (drop_bit 6 wc AND 0x3f), 0x80 OR (wc AND 0x3f)]
      else if szsub wc 0x10000 < 0x100000 then
        Some [0xf0 OR drop_bit 18 wc, 0x80 OR (drop_bit 12 wc AND 0x3f), 0x80 OR (drop_bit 6 wc AND 0x3f),
          0x80 OR (wc AND 0x3f)]
      else None)"

text \<open>
  The return value, \<open>None\<close> for -1 with errno EILSEQ, and the bytes stored.  The flag \<open>null\<close> is that
  the destination is NULL.
\<close>

definition wcrtomb :: "bool \<Rightarrow> bool \<Rightarrow> nat \<Rightarrow> nat option \<times> nat list" where
  "wcrtomb one null wc =
     (if null then (Some 1, [])
      else case wc_bytes one wc of None \<Rightarrow> (None, []) | Some bs \<Rightarrow> (Some (length bs), bs))"

definition wctomb :: "bool \<Rightarrow> bool \<Rightarrow> nat \<Rightarrow> nat option \<times> nat list" where
  "wctomb one null wc = (if null then (Some 0, []) else wcrtomb one null wc)"

definition wctob :: "bool \<Rightarrow> nat \<Rightarrow> nat option" where
  "wctob one c = (if c < 128 then Some c else if one \<and> is_codeunit c then Some (c mod 256) else None)"

definition c32rtomb :: "bool \<Rightarrow> bool \<Rightarrow> nat \<Rightarrow> nat option \<times> nat list" where
  "c32rtomb one null c32 = wcrtomb one null c32"

text \<open>The state \<open>x\<close> is that of a high surrogate; the result has the new one.\<close>

definition c16rtomb :: "bool \<Rightarrow> bool \<Rightarrow> nat \<Rightarrow> nat \<Rightarrow> (nat option \<times> nat list) \<times> nat" where
  "c16rtomb one null c16 x =
     (if null then (if x \<noteq> 0 then ((None, []), 0) else ((Some 1, []), x))
      else if x = 0 \<and> szsub c16 0xd800 < 0x400 then ((Some 0, []), szmul (szsub c16 0xd7c0) 1024)
      else if x \<noteq> 0 then
        (if szsub c16 0xdc00 \<ge> 0x400 then ((None, []), 0)
         else (wcrtomb one null (szsub (szadd x c16) 0xdc00), 0))
      else (wcrtomb one null c16, x))"

text \<open>mbrtoc16: a pending low surrogate is returned with the value -3.\<close>

datatype c16_result = C16_pending nat | C16_char nat nat | C16_other mb_result

definition mbrtoc16 :: "bool \<Rightarrow> nat list option \<Rightarrow> nat \<Rightarrow> nat \<Rightarrow> (c16_result \<times> nat) option" where
  "mbrtoc16 one src n pending =
     (let (s, n) = (case src of None \<Rightarrow> ([0], 1) | Some s \<Rightarrow> (s, n)) in
      if 0 < pending \<and> pending < 0x80000000 then Some (C16_pending (pending mod 65536), 0)
      else case mbrtowc one (Some s) n pending of
        None \<Rightarrow> None
      | Some (Mb_char l wc, st) \<Rightarrow>
          Some (if wc \<ge> 0x10000
            then (C16_char l ((0xd7c0 + drop_bit 10 wc) mod 65536), (wc AND 0x3ff) + 0xdc00)
            else (C16_char l wc, st))
      | Some (r, st) \<Rightarrow> Some (C16_other r, st))"

definition mbrtoc32 :: "bool \<Rightarrow> nat list option \<Rightarrow> nat \<Rightarrow> nat \<Rightarrow> (mb_result \<times> nat) option" where
  "mbrtoc32 one src n st =
     (case src of None \<Rightarrow> mbrtowc one (Some [0]) 1 st | Some s \<Rightarrow> mbrtowc one (Some s) n st)"

end
