(* ===== verification/Utf8_Theorems.thy ===== *)
theory Utf8_Theorems
  imports Utf8
begin

text \<open>
  The encoding of RFC 3629 as arithmetic, and that wcrtomb writes it, mbrtowc reads exactly it, at
  once or in pieces, and mbtowc agrees with mbrtowc.
\<close>

section \<open>Bits as arithmetic\<close>

text \<open>The masks and shifts of the encoder.\<close>

lemma cont_or [simp]: "x < 64 \<Longrightarrow> 0x80 OR x = 0x80 + x" for x :: nat
  using or_low [of x 6 2] by simp

lemma lead2_or: "x < 32 \<Longrightarrow> 0xc0 OR x = 0xc0 + x" for x :: nat
  using or_low [of x 5 6] by simp

lemma lead3_or: "x < 16 \<Longrightarrow> 0xe0 OR x = 0xe0 + x" for x :: nat
  using or_low [of x 4 14] by simp

lemma lead4_or: "x < 8 \<Longrightarrow> 0xf0 OR x = 0xf0 + x" for x :: nat
  using or_low [of x 3 30] by simp

lemma top_bit_iff:
  assumes "c < size_mod"
  shows "top_bit c \<longleftrightarrow> 0x80000000 \<le> c"
proof -
  have "c AND 2 ^ 31 = 0 \<longleftrightarrow> even (c div 2 ^ 31)"
    by (simp only: and_exp_eq_0_iff_not_bit bit_iff_odd simp_thms)
  moreover have "c div 2147483648 < 2" using assms by (simp add: less_mult_imp_div_less)
  then have "even (c div 2147483648) \<longleftrightarrow> c div 2147483648 = 0" by (auto simp: less_2_cases_iff)
  ultimately show ?thesis unfolding top_bit_def by (auto simp: div_eq_0_iff)
qed

section \<open>The reference encoding\<close>

definition scalar :: "nat \<Rightarrow> bool" where
  "scalar wc \<longleftrightarrow> wc < 0xd800 \<or> (0xe000 \<le> wc \<and> wc < 0x110000)"

definition utf8 :: "nat \<Rightarrow> nat list" where
  "utf8 wc =
     (if wc < 0x80 then [wc]
      else if wc < 0x800 then [0xc0 + wc div 64, 0x80 + wc mod 64]
      else if wc < 0x10000 then [0xe0 + wc div 4096, 0x80 + wc div 64 mod 64, 0x80 + wc mod 64]
      else [0xf0 + wc div 262144, 0x80 + wc div 4096 mod 64, 0x80 + wc div 64 mod 64, 0x80 + wc mod 64])"

lemma wc_bytes_utf8:
  assumes "wc < size_mod"
  shows "wc_bytes False wc = (if scalar wc then Some (utf8 wc) else None)"
proof -
  have s: "szsub wc 0xe000 < 0x2000 \<longleftrightarrow> 0xe000 \<le> wc \<and> wc < 0x10000"
    "szsub wc 0x10000 < 0x100000 \<longleftrightarrow> 0x10000 \<le> wc \<and> wc < 0x110000"
    using assms by (auto simp: szsub_def mod_if)
  consider "wc < 0x80" | "0x80 \<le> wc" "wc < 0x800" | "0x800 \<le> wc" "wc < 0xd800" | "0xd800 \<le> wc" "wc < 0xe000" |
    "0xe000 \<le> wc" "wc < 0x10000" | "0x10000 \<le> wc" "wc < 0x110000" | "0x110000 \<le> wc" by linarith
  then show ?thesis
  proof cases
    case 2
    then have "wc div 64 < 32" by (simp add: less_mult_imp_div_less)
    then show ?thesis using 2 lead2_or [of "wc div 64"] by (simp add: wc_bytes_def scalar_def utf8_def drop_bit_eq_div)
  next
    case 3
    then have "wc div 4096 < 16" by (simp add: less_mult_imp_div_less)
    then show ?thesis using 3 s lead3_or [of "wc div 4096"] by (simp add: wc_bytes_def scalar_def utf8_def drop_bit_eq_div)
  next
    case 5
    then have "wc div 4096 < 16" by (simp add: less_mult_imp_div_less)
    then show ?thesis using 5 s lead3_or [of "wc div 4096"] by (simp add: wc_bytes_def scalar_def utf8_def drop_bit_eq_div)
  next
    case 6
    then have "wc div 262144 < 8" by (simp add: less_mult_imp_div_less)
    then show ?thesis using 6 s lead4_or [of "wc div 262144"] by (simp add: wc_bytes_def scalar_def utf8_def drop_bit_eq_div)
  qed (use s in \<open>simp_all add: wc_bytes_def scalar_def utf8_def\<close>)
qed

section \<open>States\<close>

lemma and_not_7: "x AND NOT 7 = 0 \<longleftrightarrow> 0 \<le> x \<and> x < 8" for x :: int
proof -
  have "x AND NOT (mask 3) = 0 \<longleftrightarrow> take_bit 3 x = x"
    by (metis (no_types, opaque_lifting) and.comm_neutral and.right_idem and_zero_eq bit.conj_cancel_right bit.conj_disj_distrib
        bit.disj_cancel_right or.right_neutral take_bit_eq_mask and.assoc)
  moreover have "(mask 3 :: int) = 7" by (simp add: mask_eq_exp_minus_1)
  ultimately show ?thesis by (simp add: take_bit_int_eq_self_iff)
qed

lemma or_below_8: "(p OR q) AND NOT 7 = 0 \<longleftrightarrow> 0 \<le> p \<and> p < 8 \<and> 0 \<le> q \<and> q < 8" for p q :: int
proof -
  have "(p OR q) AND NOT 7 = (p AND NOT 7) OR (q AND NOT 7)" by (simp add: bit.conj_disj_distrib2)
  then show ?thesis using and_not_7 [of p] and_not_7 [of q] by (auto simp: or_eq_0_iff)
qed

lemma out_of_bounds_iff: "out_of_bounds c b \<longleftrightarrow>
    \<not> (0x80 \<le> b \<and> b < 0xc0 \<and> 0 \<le> int (b div 8) + high_bits c \<and> int (b div 8) + high_bits c < 8)"
proof -
  have "16 \<le> b div 8 \<longleftrightarrow> 0x80 \<le> b" "b div 8 < 24 \<longleftrightarrow> b < 0xc0" by auto
  then show ?thesis unfolding out_of_bounds_def using or_below_8 [of "int (b div 8) - 16" "int (b div 8) + high_bits c"]
    by auto
qed

lemma cont_iff: "szsub b 0x80 \<ge> 0x40 \<longleftrightarrow> \<not> (0x80 \<le> b \<and> b < 0xc0)" if "b < 256" for b
  using that by (auto simp: szsub_def mod_if)

lemma mb_shift_add: "0x80 \<le> b \<Longrightarrow> b < 0xc0 \<Longrightarrow> mb_shift c b = (c mod 67108864) * 64 + (b - 0x80)"
proof -
  assume b: "0x80 \<le> b" "b < 0xc0"
  have "szmul c 64 = (c mod 67108864) * 2 ^ 6" using mult_mod_left [of c 67108864 64] by (simp add: szmul_def)
  then show ?thesis using or_low [of "b - 0x80" 6 "c mod 67108864"] b by (simp add: mb_shift_def)
qed

lemma bt_R_values:
  "bt_R 0x80 0xc0 = 48 * 67108864" "bt_R 0xa0 0xc0 = 44 * 67108864" "bt_R 0x80 0xa0 = 52 * 67108864"
  "bt_R 0x90 0xc0 = 46 * 67108864" "bt_R 0x80 0x90 = 54 * 67108864"
  by (simp_all add: bt_R_def szsub_def szmul_def)

lemma bittab_nth:
  "0xc2 \<le> b \<Longrightarrow> b < 0xe0 \<Longrightarrow> bittab ! (b - 0xc2) = bt_C (b - 0xc0)"
  "0xe0 \<le> b \<Longrightarrow> b < 0xf0 \<Longrightarrow> bittab ! (b - 0xc2) = bt_E (b - 0xe0)"
  "0xf0 \<le> b \<Longrightarrow> b \<le> 0xf4 \<Longrightarrow> bittab ! (b - 0xc2) = bt_F (b - 0xf0)"
  by (auto simp: le_iff_add bittab_def nth_append bt_D_def numeral_2_eq_2 simp del: upt_rec_numeral)
    (rule arg_cong [where f = bt_C], linarith)

lemma or_base: "x < 67108864 \<Longrightarrow> (k * 67108864) OR x = k * 67108864 + x" for x :: nat
  using or_low [of x 26 k] by simp

lemma lead2:
  assumes "0xc2 \<le> b" "b < 0xe0"
  shows "bittab ! (b - 0xc2) = 48 * 67108864 + (b - 0xc0)"
  unfolding bittab_nth(1) [OF assms] using assms or_base [of "b - 0xc0" 48]
  by (simp add: bt_C_def bt_R_values)

lemma bt_tail: "x < 16 \<Longrightarrow> drop_bit 6 (bt_R 0x80 0xc0) OR x = 0x3000000 + x"
  "x < 8 \<Longrightarrow> drop_bit 6 (bt_R 0x80 0xc0) OR drop_bit 12 (bt_R 0x80 0xc0) OR x = 0x30C0000 + x"
proof -
  assume x: "x < 16"
  then have "(0x300000 * 2 ^ 4) OR x = 0x300000 * 2 ^ 4 + x" by (intro or_low) simp
  then show "drop_bit 6 (bt_R 0x80 0xc0) OR x = 0x3000000 + x"
    by (simp add: bt_R_values drop_bit_eq_div)
next
  assume x: "x < 8"
  then have "(0x618000 * 2 ^ 3) OR x = 0x618000 * 2 ^ 3 + x" by (intro or_low) simp
  moreover have "drop_bit 6 (bt_R 0x80 0xc0) OR drop_bit 12 (bt_R 0x80 0xc0) = 0x30C0000"
    by (simp add: bt_R_values drop_bit_eq_div)
  ultimately show "drop_bit 6 (bt_R 0x80 0xc0) OR drop_bit 12 (bt_R 0x80 0xc0) OR x = 0x30C0000 + x"
    by (simp flip: or.assoc)
qed

lemma lead3:
  assumes "0xe0 \<le> b" "b < 0xf0"
  shows "bittab ! (b - 0xc2) =
    (if b = 0xe0 then 44 else if b = 0xed then 52 else 48) * 67108864 + (0x3000000 + (b - 0xe0))"
proof -
  have t: "drop_bit 6 (bt_R 0x80 0xc0) OR (b - 0xe0) = 0x3000000 + (b - 0xe0)" using bt_tail(1) [of "b - 0xe0"] assms by simp
  have "0x3000000 + (b - 0xe0) < 67108864" using assms by simp
  note o = or_base [OF this]
  show ?thesis unfolding bittab_nth(2) [OF assms] bt_E_def or.assoc t
    using assms o [of 44] o [of 48] o [of 52] by (auto simp: bt_R_values)
qed

lemma lead4:
  assumes "0xf0 \<le> b" "b \<le> 0xf4"
  shows "bittab ! (b - 0xc2) =
    (if b = 0xf0 then 46 else if b = 0xf4 then 54 else 48) * 67108864 + (0x30C0000 + (b - 0xf0))"
proof -
  have t: "drop_bit 6 (bt_R 0x80 0xc0) OR drop_bit 12 (bt_R 0x80 0xc0) OR (b - 0xf0) = 0x30C0000 + (b - 0xf0)"
    using bt_tail(2) [of "b - 0xf0"] assms by simp
  have "0x30C0000 + (b - 0xf0) < 67108864" using assms by simp
  note o = or_base [OF this]
  show ?thesis unfolding bittab_nth(3) [OF assms] bt_F_def or.assoc t
    using assms o [of 46] o [of 48] o [of 54] by (auto simp: bt_R_values)
qed

lemma high_bits_add:
  assumes "y < 67108864" "32 \<le> k" "k < 64"
  shows "high_bits (k * 67108864 + y) = int k - 64"
proof -
  have "(k * 67108864 + y) div 67108864 = k" using assms(1) by simp
  moreover have "\<not> k * 67108864 + y < 0x80000000" using assms(2) by simp
  ultimately show ?thesis unfolding high_bits_def by simp
qed

text \<open>A state with \<open>r\<close> bytes to come and the value \<open>v\<close> so far.\<close>

fun mb_base :: "nat \<Rightarrow> nat" where
  "mb_base (Suc (Suc 0)) = 0x3000000"
| "mb_base (Suc (Suc (Suc 0))) = 0x30C0000"
| "mb_base _ = 0"

lemma mb_base_numeral [simp]: "mb_base 1 = 0" "mb_base 2 = 0x3000000" "mb_base 3 = 0x30C0000"
  by (simp_all add: numeral_2_eq_2 numeral_3_eq_3)

definition mb_state :: "nat \<Rightarrow> nat \<Rightarrow> nat \<Rightarrow> bool" where
  "mb_state c r v \<longleftrightarrow> 1 \<le> r \<and> r \<le> 3 \<and> c mod 67108864 = mb_base r + v \<and> v < 2 ^ (21 - 6 * r)"

abbreviation cont :: "nat \<Rightarrow> bool" where
  "cont b \<equiv> 0x80 \<le> b \<and> b < 0xc0"

lemma mb_state_last:
  assumes "mb_state c 1 v" "cont b"
  shows "mb_shift c b = v * 64 + (b - 0x80)" "\<not> top_bit (mb_shift c b)"
proof -
  show s: "mb_shift c b = v * 64 + (b - 0x80)"
    using assms mb_shift_add [of b c] by (simp add: mb_state_def)
  have "v < 32768" using assms(1) by (simp add: mb_state_def)
  then have "v * 64 + (b - 0x80) < 2097152" using assms(2) by linarith
  then show "\<not> top_bit (mb_shift c b)" unfolding s by (simp add: top_bit_iff del: diff_is_0_eq)
qed

lemma mb_state_more:
  assumes "mb_state c (Suc r) v" "r \<noteq> 0" "cont b"
  shows "mb_state (mb_shift c b) r (v * 64 + (b - 0x80))" "top_bit (mb_shift c b)" "high_bits (mb_shift c b) = -16"
proof -
  have s: "mb_shift c b = (mb_base (Suc r) + v) * 64 + (b - 0x80)"
    using assms(1,3) mb_shift_add [of b c] by (simp add: mb_state_def)
  consider "r = 1" "v < 512" | "r = 2" "v < 8"
    using assms(1,2) by (cases "r = 1"; cases "r = 2") (auto simp: mb_state_def)
  then have "mb_state (mb_shift c b) r (v * 64 + (b - 0x80)) \<and> top_bit (mb_shift c b) \<and> high_bits (mb_shift c b) = -16"
  proof cases
    case 1
    let ?w = "v * 64 + (b - 0x80)"
    have c: "mb_shift c b = 48 * 67108864 + ?w" using s 1 by (simp add: numeral_2_eq_2)
    have "?w < 32768" using 1(2) assms(3) by linarith
    then have "(48 * 67108864 + ?w) mod 67108864 = ?w" by (simp only: mod_mult_self3) simp
    moreover have "high_bits (48 * 67108864 + ?w) = int 48 - 64" using \<open>?w < 32768\<close> by (intro high_bits_add) simp_all
    ultimately show ?thesis using 1 \<open>?w < 32768\<close> unfolding c by (simp add: mb_state_def top_bit_iff)
  next
    case 2
    let ?w = "v * 64 + (b - 0x80)"
    have c: "mb_shift c b = 48 * 67108864 + (0x3000000 + ?w)"
      using s 2 by (simp add: numeral_2_eq_2)
    have "?w < 512" using 2(2) assms(3) by linarith
    then have "0x3000000 + ?w < 67108864" by simp
    then have "(48 * 67108864 + (0x3000000 + ?w)) mod 67108864 = 0x3000000 + ?w" by (simp only: mod_mult_self3 mod_less)
    moreover have "high_bits (48 * 67108864 + (0x3000000 + ?w)) = int 48 - 64"
      using \<open>0x3000000 + ?w < 67108864\<close> by (intro high_bits_add) simp_all
    ultimately show ?thesis using 2 \<open>?w < 512\<close> unfolding c by (simp add: mb_state_def top_bit_iff)
  qed
  then show "mb_state (mb_shift c b) r (v * 64 + (b - 0x80))" "top_bit (mb_shift c b)" "high_bits (mb_shift c b) = -16"
    by simp_all
qed

fun mb_value :: "nat \<Rightarrow> nat list \<Rightarrow> nat" where
  "mb_value v [] = v"
| "mb_value v (b # cs) = mb_value (v * 64 + (b - 0x80)) cs"

lemma mb_value_append: "mb_value v (xs @ ys) = mb_value (mb_value v xs) ys"
  by (induction xs arbitrary: v) auto

text \<open>The loop on continuation bytes.\<close>

lemma mb_loop_char:
  assumes "mb_state c (length cs) v" "\<forall>b \<in> set cs. cont b" "length cs \<le> n"
  shows "mb_loop N c (cs @ rest) n = Some (Mb_char (N - (n - length cs)) (mb_value v cs), 0)"
  using assms
proof (induction cs arbitrary: c v n)
  case Nil
  then show ?case by (simp add: mb_state_def)
next
  case (Cons b cs)
  show ?case
  proof (cases cs)
    case Nil
    then show ?thesis using mb_state_last [of c v b] Cons.prems by (simp add: Let_def)
  next
    case (Cons b' cs')
    have st: "mb_state (mb_shift c b) (length cs) (v * 64 + (b - 0x80))" "top_bit (mb_shift c b)"
      using mb_state_more [of c "length cs" v b] Cons.prems Cons by auto
    have "\<not> 0x40 \<le> szsub b' 0x80" using cont_iff [of b'] Cons.prems(2) Cons by auto
    then show ?thesis
      using st Cons.IH [OF st(1), of "n - 1"] Cons.prems(2,3) Cons by (simp add: Let_def del: One_nat_def)
  qed
qed

lemma mb_loop_partial:
  assumes "mb_state c (length cs + r) v" "r \<noteq> 0" "cs \<noteq> []" "\<forall>b \<in> set cs. cont b"
  shows "\<exists>c'. mb_loop N c cs (length cs) = Some (Mb_partial, c') \<and> mb_state c' r (mb_value v cs) \<and> top_bit c' \<and>
    high_bits c' = -16"
  using assms
proof (induction cs arbitrary: c v)
  case (Cons b cs)
  have st: "mb_state (mb_shift c b) (length cs + r) (v * 64 + (b - 0x80))" "top_bit (mb_shift c b)" "high_bits (mb_shift c b) = -16"
    using mb_state_more [of c "length cs + r" v b] Cons.prems by auto
  show ?case
  proof (cases cs)
    case Nil
    then show ?thesis using st by (simp add: Let_def)
  next
    case (Cons b' cs')
    have "\<not> 0x40 \<le> szsub b' 0x80" using cont_iff [of b'] Cons.prems(4) Cons by auto
    then show ?thesis using st Cons.IH [OF st(1)] Cons.prems(2,4) Cons by (simp add: Let_def)
  qed
qed simp

lemma mb_loop_only:
  assumes "mb_state c r v" "mb_loop N c s n = Some (Mb_char k w, st)" "s \<noteq> [] \<Longrightarrow> cont (hd s)" "\<forall>b \<in> set s. b < 256" "n \<noteq> 0"
  shows "\<exists>cs rest. s = cs @ rest \<and> length cs = r \<and> r \<le> n \<and> (\<forall>b \<in> set cs. cont b) \<and> w = mb_value v cs \<and>
    k = N - (n - r) \<and> st = 0"
  using assms
proof (induction r arbitrary: c v s n)
  case 0
  then show ?case by (simp add: mb_state_def)
next
  case (Suc r)
  then obtain b s' where s: "s = b # s'" by (cases s) auto
  then have b: "cont b" using Suc.prems(3) by simp
  show ?case
  proof (cases "r = 0")
    case True
    then show ?thesis using mb_state_last [of c v b] Suc.prems b unfolding s
      by - (rule exI [of _ "[b]"], rule exI [of _ s'], auto simp: Let_def)
  next
    case False
    have st: "mb_state (mb_shift c b) r (v * 64 + (b - 0x80))" "top_bit (mb_shift c b)"
      using mb_state_more [of c r v b] Suc.prems(1) False b by auto
    then obtain b' s'' where s': "s' = b' # s''" "n - 1 \<noteq> 0" "\<not> 0x40 \<le> szsub b' 0x80"
      "mb_loop N (mb_shift c b) s' (n - 1) = Some (Mb_char k w, st)"
      using Suc.prems(2) unfolding s by (auto simp: Let_def split: if_splits list.splits)
    have "b' < 256" using Suc.prems(4) s s'(1) by simp
    then have "cont b'" using cont_iff [of b'] s'(3) by simp
    then obtain cs rest where "s' = cs @ rest" "length cs = r" "r \<le> n - 1" "\<forall>b \<in> set cs. cont b"
      "w = mb_value (v * 64 + (b - 0x80)) cs" "k = N - (n - 1 - r)" "st = 0"
      using Suc.IH [OF st(1) s'(4)] s'(1,2) Suc.prems(4) s by auto
    then show ?thesis using s b Suc.prems(5) by - (rule exI [of _ "b # cs"], rule exI [of _ rest], auto)
  qed
qed

section \<open>Lead bytes\<close>

definition need :: "nat \<Rightarrow> nat" where
  "need b = (if b < 0xe0 then 1 else if b < 0xf0 then 2 else 3)"

definition lead_value :: "nat \<Rightarrow> nat" where
  "lead_value b = (if b < 0xe0 then b - 0xc0 else if b < 0xf0 then b - 0xe0 else b - 0xf0)"

abbreviation lead :: "nat \<Rightarrow> bool" where
  "lead b \<equiv> 0xc2 \<le> b \<and> b \<le> 0xf4"

text \<open>The second bytes of RFC 3629.\<close>

definition second :: "nat \<Rightarrow> nat \<Rightarrow> bool" where
  "second b b1 \<longleftrightarrow> cont b1 \<and> (b = 0xe0 \<longrightarrow> 0xa0 \<le> b1) \<and> (b = 0xed \<longrightarrow> b1 < 0xa0) \<and>
     (b = 0xf0 \<longrightarrow> 0x90 \<le> b1) \<and> (b = 0xf4 \<longrightarrow> b1 < 0x90)"

lemma bittab_lead:
  assumes "lead b"
  shows "bittab ! (b - 0xc2) =
    (if b = 0xe0 then 44 else if b = 0xed then 52 else if b = 0xf0 then 46 else if b = 0xf4 then 54 else 48) * 67108864 +
    (mb_base (need b) + lead_value b)"
proof -
  consider "b < 0xe0" | "0xe0 \<le> b" "b < 0xf0" | "0xf0 \<le> b" by linarith
  then show ?thesis
  proof cases
    case 1
    then show ?thesis using lead2 [of b] assms by (simp add: need_def lead_value_def)
  next
    case 2
    then show ?thesis using lead3 [of b] by (simp add: need_def lead_value_def)
  next
    case 3
    then show ?thesis using lead4 [of b] assms by (simp add: need_def lead_value_def)
  qed
qed

lemma lead_bound: "lead b \<Longrightarrow> lead_value b < 2 ^ (21 - 6 * need b)" "lead b \<Longrightarrow> mb_base (need b) + lead_value b < 67108864"
  by (auto simp: lead_value_def need_def)

lemma lead_state: "lead b \<Longrightarrow> mb_state (bittab ! (b - 0xc2)) (need b) (lead_value b)"
  using lead_bound [of b] unfolding mb_state_def bittab_lead
  by (auto simp: need_def simp del: mb_base.simps)

lemma lead_second: "lead b \<Longrightarrow> out_of_bounds (bittab ! (b - 0xc2)) b1 \<longleftrightarrow> \<not> second b b1"
  using high_bits_add [OF lead_bound(2)] unfolding out_of_bounds_iff bittab_lead second_def
  by auto

lemma lead_top:
  assumes "lead b"
  shows "top_bit (bittab ! (b - 0xc2))" "bittab ! (b - 0xc2) < size_mod"
proof -
  let ?k = "if b = 0xe0 then 44 else if b = 0xed then 52 else if b = 0xf0 then 46 else if b = 0xf4 then 54 else 48 :: nat"
  have "44 \<le> ?k" "?k \<le> 54" by auto
  moreover have "bittab ! (b - 0xc2) = ?k * 67108864 + (mb_base (need b) + lead_value b)" by (rule bittab_lead [OF assms])
  ultimately have "0x80000000 \<le> bittab ! (b - 0xc2)" "bittab ! (b - 0xc2) < size_mod"
    using lead_bound(2) [OF assms] by linarith+
  then show "top_bit (bittab ! (b - 0xc2))" "bittab ! (b - 0xc2) < size_mod" by (simp_all add: top_bit_iff)
qed

lemma mb_state_top: "mb_state c r v \<Longrightarrow> c = 0 \<Longrightarrow> r = 1 \<and> v = 0"
  by (cases r rule: mb_base.cases) (auto simp: mb_state_def)

section \<open>Encoding and lead bytes\<close>

lemma split64: "wc = wc div 4096 * 4096 + wc div 64 mod 64 * 64 + wc mod 64"
  "wc div 4096 = wc div 262144 * 64 + wc div 4096 mod 64" for wc :: nat
proof -
  have "wc div 64 = wc div 64 div 64 * 64 + wc div 64 mod 64" by (metis div_mult_mod_eq)
  moreover have "wc div 64 div 64 = wc div 4096" by (simp add: div_mult2_eq [symmetric])
  moreover have "wc = wc div 64 * 64 + wc mod 64" by (metis div_mult_mod_eq)
  ultimately show "wc = wc div 4096 * 4096 + wc div 64 mod 64 * 64 + wc mod 64" by linarith
  have "wc div 4096 div 64 = wc div 262144" by (simp add: div_mult2_eq [symmetric])
  then show "wc div 4096 = wc div 262144 * 64 + wc div 4096 mod 64" by (metis div_mult_mod_eq)
qed

lemma utf8_lead:
  assumes "scalar wc" "0x80 \<le> wc"
  obtains b cs where "utf8 wc = b # cs" "lead b" "length cs = need b" "\<forall>x \<in> set cs. cont x" "second b (hd cs)"
    "mb_value (lead_value b) cs = wc"
proof -
  define t p q r where w: "t = wc div 262144" "p = wc div 4096 mod 64" "q = wc div 64 mod 64" "r = wc mod 64"
  have lt: "p < 64" "q < 64" "r < 64" by (simp_all add: w)
  have d: "wc = wc div 4096 * 4096 + q * 64 + r" "wc div 4096 = t * 64 + p" using split64 [of wc] by (simp_all add: w)
  consider "wc < 0x800" | "0x800 \<le> wc" "wc < 0x10000" | "0x10000 \<le> wc" by linarith
  then show ?thesis
  proof cases
    case 1
    have "2 \<le> wc div 64" "wc div 64 < 32" using 1 assms(2) by (simp_all add: less_mult_imp_div_less less_eq_div_iff_mult_less_eq)
    then show ?thesis using 1 assms by (intro that [of "0xc0 + wc div 64" "[0x80 + wc mod 64]"])
        (auto simp: utf8_def need_def lead_value_def second_def)
  next
    case 2
    define x where "x = wc div 4096"
    have x: "wc = x * 4096 + q * 64 + r" using d(1) x_def by simp
    have "x < 16" "x = 0 \<Longrightarrow> 32 \<le> q" "x = 13 \<Longrightarrow> q < 32"
      using x lt 2 assms(1) unfolding scalar_def by linarith+
    moreover have "utf8 wc = [0xe0 + x, 0x80 + q, 0x80 + r]" using 2 by (simp add: utf8_def w x_def)
    ultimately show ?thesis using x lt
      by (intro that [of "0xe0 + x" "[0x80 + q, 0x80 + r]"]) (auto simp: need_def lead_value_def second_def)
  next
    case 3
    have u: "wc < 0x110000" using assms(1) 3 by (auto simp: scalar_def)
    have x: "wc = t * 262144 + p * 4096 + q * 64 + r" using d by linarith
    have "t \<le> 4" "t = 0 \<Longrightarrow> 16 \<le> p" "t = 4 \<Longrightarrow> p < 16" using x lt 3 u by linarith+
    moreover have "utf8 wc = [0xf0 + t, 0x80 + p, 0x80 + q, 0x80 + r]" using 3 by (simp add: utf8_def w)
    ultimately show ?thesis using x lt
      by (intro that [of "0xf0 + t" "[0x80 + p, 0x80 + q, 0x80 + r]"]) (auto simp: need_def lead_value_def second_def)
  qed
qed

lemma digits: "m = a * n + b \<Longrightarrow> b < n \<Longrightarrow> m div n = a \<and> m mod n = b" for m n a b :: nat
  by simp

text \<open>And the other way: such bytes are the encoding of their value.\<close>

lemma lead_utf8:
  assumes "lead b" "length cs = need b" "\<forall>x \<in> set cs. cont x" "second b (hd cs)"
  shows "scalar (mb_value (lead_value b) cs)" "utf8 (mb_value (lead_value b) cs) = b # cs"
proof -
  consider "b < 0xe0" | "0xe0 \<le> b" "b < 0xf0" | "0xf0 \<le> b" by linarith
  then have "scalar (mb_value (lead_value b) cs) \<and> utf8 (mb_value (lead_value b) cs) = b # cs"
  proof cases
    case 1
    then obtain b1 where cs: "cs = [b1]" using assms(2) by (auto simp: need_def length_Suc_conv)
    obtain x y where x: "b = 0xc0 + x" "b1 = 0x80 + y" using assms(1,3) cs by (auto simp: le_iff_add)
    have "y < 64" "2 \<le> x" "x < 32" using assms(1,3) 1 cs x by auto
    then show ?thesis unfolding cs x by (simp add: lead_value_def scalar_def utf8_def)
  next
    case 2
    then obtain b1 b2 where cs: "cs = [b1, b2]" using assms(2) by (auto simp: need_def length_Suc_conv numeral_2_eq_2)
    obtain x y z where x: "b = 0xe0 + x" "b1 = 0x80 + y" "b2 = 0x80 + z" using assms(3) cs 2 by (auto simp: le_iff_add)
    have lt: "y < 64" "z < 64" "x < 16" "x = 0 \<Longrightarrow> 32 \<le> y" "x = 13 \<Longrightarrow> y < 32"
      using assms(3,4) 2 cs x by (auto simp: second_def)
    define wc where wc: "wc = x * 4096 + y * 64 + z"
    have v: "mb_value (lead_value b) cs = wc" using 2 lt unfolding cs x wc by (simp add: lead_value_def)
    have r: "0x800 \<le> wc" "wc < 0x10000" using lt unfolding wc by (cases "x = 0"; linarith)+
    consider "x \<le> 12" | "x = 13" | "14 \<le> x" by linarith
    then have "scalar wc" using lt r unfolding wc scalar_def by cases linarith+
    have "wc = (x * 64 + y) * 64 + z" "wc = x * 4096 + (y * 64 + z)" "y * 64 + z < 4096" using wc lt(1,2) by simp_all
    note digits [OF this(1) lt(2)] digits [OF this(2,3)]
    then have "wc div 4096 = x" "wc div 64 mod 64 = y" "wc mod 64 = z" using lt(1) by simp_all
    then show ?thesis using r \<open>scalar wc\<close> unfolding v by (simp add: utf8_def cs x)
  next
    case 3
    then obtain b1 b2 b3 where cs: "cs = [b1, b2, b3]" using assms(2) by (auto simp: need_def length_Suc_conv numeral_3_eq_3)
    obtain x y z u where x: "b = 0xf0 + x" "b1 = 0x80 + y" "b2 = 0x80 + z" "b3 = 0x80 + u" using assms(3) cs 3 by (auto simp: le_iff_add)
    have lt: "y < 64" "z < 64" "u < 64" "x \<le> 4" "x = 0 \<Longrightarrow> 16 \<le> y" "x = 4 \<Longrightarrow> y < 16"
      using assms(1,3,4) 3 cs x by (auto simp: second_def)
    define wc where wc: "wc = x * 262144 + y * 4096 + z * 64 + u"
    have v: "mb_value (lead_value b) cs = wc" using 3 lt unfolding cs x wc by (simp add: lead_value_def)
    have r: "0x10000 \<le> wc" using lt unfolding wc by (cases "x = 0") auto
    have r2: "wc < 0x110000" using lt unfolding wc by (cases "x = 4") auto
    have "wc = ((x * 64 + y) * 64 + z) * 64 + u" "wc = (x * 64 + y) * 4096 + (z * 64 + u)" "z * 64 + u < 4096"
      "wc = x * 262144 + (y * 4096 + z * 64 + u)" "y * 4096 + z * 64 + u < 262144" using wc lt(1-3) by simp_all
    note digits [OF this(1) lt(3)] digits [OF this(2,3)] digits [OF this(4,5)] digits [OF refl lt(2), of "x * 64 + y"]
    then have "wc div 262144 = x" "wc div 4096 mod 64 = y" "wc div 64 mod 64 = z" "wc mod 64 = u"
      using lt(1,2) by simp_all
    then show ?thesis using r r2 unfolding v by (simp add: utf8_def scalar_def cs x)
  qed
  then show "scalar (mb_value (lead_value b) cs)" "utf8 (mb_value (lead_value b) cs) = b # cs" by simp_all
qed

section \<open>Properties\<close>

lemma mbrtowc_ascii: "b < 0x80 \<Longrightarrow> n \<noteq> 0 \<Longrightarrow>
    mbrtowc False (Some (b # s)) n 0 = Some (Mb_char (if b \<noteq> 0 then 1 else 0) b, 0)"
  by (simp add: mbrtowc_def)

lemma lead_test: "b < 256 \<Longrightarrow> 0x80 \<le> b \<Longrightarrow> szsub b SA > SB - SA \<longleftrightarrow> \<not> lead b"
  by (auto simp: szsub_def mod_if)

lemma mbrtowc_lead: "lead b \<Longrightarrow> n \<noteq> 0 \<Longrightarrow>
    mbrtowc False (Some (b # s)) n 0 = mb_rest n (bittab ! (b - 0xc2)) s (n - 1)"
  using lead_test [of b] by (simp add: mbrtowc_def)

lemma second_cont: "second b b1 \<Longrightarrow> cont b1"
  by (simp add: second_def)

lemma mbrtowc_utf8:
  assumes "scalar wc" "length (utf8 wc) \<le> n"
  shows "mbrtowc False (Some (utf8 wc @ rest)) n 0 = Some (Mb_char (if wc = 0 then 0 else length (utf8 wc)) wc, 0)"
proof (cases "wc < 0x80")
  case True
  then show ?thesis using assms(2) mbrtowc_ascii [of wc n rest] by (simp add: utf8_def)
next
  case False
  then obtain b cs where b: "utf8 wc = b # cs" "lead b" "length cs = need b" "\<forall>x \<in> set cs. cont x" "second b (hd cs)"
    "mb_value (lead_value b) cs = wc"
    using utf8_lead [OF assms(1)] by (metis linorder_not_less)
  obtain b1 cs' where cs: "cs = b1 # cs'" using b(3) by (cases cs) (auto simp: need_def split: if_splits)
  have n: "length cs \<le> n - 1" "n - 1 \<noteq> 0" using assms(2) b(1) cs by auto
  have "mb_loop n (bittab ! (b - 0xc2)) (cs @ rest) (n - 1) = Some (Mb_char (n - (n - 1 - length cs)) wc, 0)"
    using mb_loop_char [of "bittab ! (b - 0xc2)" cs "lead_value b" "n - 1" n rest] lead_state [OF b(2)] b(3,4,6) n(1) by simp
  moreover have "\<not> out_of_bounds (bittab ! (b - 0xc2)) b1" using lead_second [OF b(2)] b(5) cs by simp
  moreover have "n - (n - 1 - length cs) = Suc (length cs)" using n by linarith
  ultimately show ?thesis
    using mbrtowc_lead [OF b(2), of n "cs @ rest"] False n(2) b(1) cs by (simp add: mb_rest_def)
qed

lemma mbrtowc_only_utf8:
  assumes "mbrtowc False (Some s) n 0 = Some (Mb_char k wc, st)" "\<forall>b \<in> set s. b < 256"
  shows "scalar wc \<and> st = 0 \<and> k = (if wc = 0 then 0 else length (utf8 wc)) \<and> (\<exists>rest. s = utf8 wc @ rest)"
proof -
  have n: "n \<noteq> 0" using assms(1) by (cases "n = 0") (simp_all add: mbrtowc_def)
  then obtain b s' where s: "s = b # s'" using assms(1) by (cases s) (auto simp: mbrtowc_def)
  show ?thesis
  proof (cases "b < 0x80")
    case True
    then show ?thesis using assms(1) mbrtowc_ascii [OF True n, of s'] s by (auto simp: scalar_def utf8_def)
  next
    case False
    then have lead: "lead b" using assms s n lead_test [of b] by (auto simp: mbrtowc_def split: if_splits)
    let ?c = "bittab ! (b - 0xc2)"
    have r: "mb_rest n ?c s' (n - 1) = Some (Mb_char k wc, st)" using mbrtowc_lead [OF lead n] assms(1) s by simp
    then have n1: "n - 1 \<noteq> 0" by (auto simp: mb_rest_def)
    then obtain b1 s'' where s': "s' = b1 # s''" using r by (cases s') (auto simp: mb_rest_def)
    have sec: "second b b1" and l: "mb_loop n ?c s' (n - 1) = Some (Mb_char k wc, st)"
      using r n1 lead_second [OF lead] unfolding s' by (auto simp: mb_rest_def simp del: mb_loop.simps split: if_splits)
    obtain cs rest where cs: "s' = cs @ rest" "length cs = need b" "need b \<le> n - 1" "\<forall>x \<in> set cs. cont x"
      "wc = mb_value (lead_value b) cs" "k = n - (n - 1 - need b)" "st = 0"
      using mb_loop_only [OF lead_state [OF lead] l _ _ n1] second_cont [OF sec] assms(2) s s' by auto
    have "need b \<noteq> 0" by (simp add: need_def)
    then have hd: "hd cs = b1" using cs(1,2) s' by (cases cs) auto
    note u = lead_utf8 [OF lead cs(2,4)]
    have "utf8 wc = b # cs" "scalar wc" using u sec hd cs(5) by simp_all
    moreover have "wc \<noteq> 0"
    proof
      assume "wc = 0"
      then show False using \<open>utf8 wc = b # cs\<close> False by (simp add: utf8_def)
    qed
    moreover have "k = Suc (length cs)" using cs(2,3,6) n1 by linarith
    ultimately show ?thesis using cs(1,7) s by auto
  qed
qed

text \<open>Decoding undoes encoding: in the UTF-8 locale mbrtowc reads from the bytes that wcrtomb writes for a
  character that character and their number (0 for NUL), whatever follows, and wcrtomb fails with
  EILSEQ exactly for surrogates and numbers above 0x10ffff.\<close>

theorem utf8_roundtrip:
  assumes "wc < size_mod"
  shows "case wcrtomb False False wc of
      (None, _) \<Rightarrow> \<not> scalar wc
    | (Some k, bs) \<Rightarrow> scalar wc \<and> k = length bs \<and> 1 \<le> k \<and> k \<le> 4 \<and>
        (\<forall>n rest. k \<le> n \<longrightarrow> mbrtowc False (Some (bs @ rest)) n 0 = Some (Mb_char (if wc = 0 then 0 else k) wc, 0))"
  using wc_bytes_utf8 [OF assms] mbrtowc_utf8 [of wc]
  by (auto simp: wcrtomb_def utf8_def split: if_splits)

theorem utf8_roundtrip_witness:
  "wcrtomb False False 0x20ac = (Some 3, [0xe2, 0x82, 0xac]) \<and>
   mbrtowc False (Some [0xe2, 0x82, 0xac, 7]) 9 0 = Some (Mb_char 3 0x20ac, 0)"
proof -
  have w: "wcrtomb False False 0x20ac = (Some 3, [0xe2, 0x82, 0xac])"
    using wc_bytes_utf8 [of "0x20ac"] by (simp add: wcrtomb_def utf8_def scalar_def)
  have "3 \<le> (9 :: nat) \<longrightarrow> mbrtowc False (Some ([0xe2, 0x82, 0xac] @ [7])) 9 0 = Some (Mb_char (if 0x20ac = (0 :: nat) then 0 else 3) 0x20ac, 0)"
    using utf8_roundtrip [of "0x20ac"] unfolding w prod.case option.case by simp
  then show ?thesis using w by simp
qed

text \<open>C13.  mbrtowc accepts nothing but UTF-8: when it returns a character, the source starts with the bytes that
  wcrtomb writes for it (so no overlong form, no surrogate and nothing above 0x10ffff), the number
  returned is theirs, and the state is the initial one again.\<close>

theorem mbrtowc_strict:
  assumes "mbrtowc False (Some s) n 0 = Some (Mb_char k wc, st)" "\<forall>b \<in> set s. b < 256"
  shows "st = 0 \<and> (\<exists>bs rest. wcrtomb False False wc = (Some (length bs), bs) \<and> s = bs @ rest \<and>
    k = (if wc = 0 then 0 else length bs))"
proof -
  have u: "scalar wc \<and> st = 0 \<and> k = (if wc = 0 then 0 else length (utf8 wc)) \<and> (\<exists>rest. s = utf8 wc @ rest)"
    by (rule mbrtowc_only_utf8 [OF assms])
  then have "wc < size_mod" by (auto simp: scalar_def)
  then show ?thesis using wc_bytes_utf8 [of wc] u by (auto simp: wcrtomb_def)
qed

theorem mbrtowc_strict_witness:
  "\<exists>bs rest. wcrtomb False False 0x41 = (Some (length bs), bs) \<and> [0x41, 0xff] = bs @ rest"
  using mbrtowc_strict [of "[0x41, 0xff]" 1 1 "0x41" 0] by (auto simp: mbrtowc_def)

text \<open>A character may come in two pieces: after the first bytes of its encoding mbrtowc returns -2 with a state
  that is not initial, and from that state the other bytes give the character and their number.\<close>

theorem mbrtowc_resumes:
  assumes "scalar wc" "utf8 wc = xs @ ys" "xs \<noteq> []" "ys \<noteq> []" "length ys \<le> n"
  shows "\<exists>st. mbrtowc False (Some xs) (length xs) 0 = Some (Mb_partial, st) \<and> st \<noteq> 0 \<and>
    mbrtowc False (Some (ys @ rest)) n st = Some (Mb_char (length ys) wc, 0)"
proof -
  have "\<not> wc < 0x80" using assms(2-4) by (cases xs; cases ys) (auto simp: utf8_def)
  then obtain b cs where b: "utf8 wc = b # cs" "lead b" "length cs = need b" "\<forall>x \<in> set cs. cont x" "second b (hd cs)"
    "mb_value (lead_value b) cs = wc"
    using utf8_lead [OF assms(1)] by (metis linorder_not_less)
  obtain xs' where xs: "xs = b # xs'" "cs = xs' @ ys" using b(1) assms(2,3) by (cases xs) auto
  let ?c = "bittab ! (b - 0xc2)"
  have st0: "mb_state ?c (length xs' + length ys) (lead_value b)" using lead_state [OF b(2)] b(3) xs(2) by simp
  have c1: "\<forall>x \<in> set xs'. cont x" "\<forall>x \<in> set ys. cont x" using b(4) xs(2) by auto
  have top: "top_bit ?c" by (rule lead_top(1) [OF b(2)])
  have "\<exists>st. mb_rest (length xs) ?c xs' (length xs') = Some (Mb_partial, st) \<and>
      mb_state st (length ys) (mb_value (lead_value b) xs') \<and> top_bit st \<and> \<not> out_of_bounds st (hd ys)"
  proof (cases xs')
    case Nil
    then show ?thesis using st0 top lead_second [OF b(2)] b(5) xs(2) by (auto simp: mb_rest_def)
  next
    case (Cons b1 xs'')
    have "\<not> out_of_bounds ?c b1" using lead_second [OF b(2)] b(5) xs(2) Cons by simp
    moreover obtain st where st: "mb_loop (length xs) ?c xs' (length xs') = Some (Mb_partial, st)"
      "mb_state st (length ys) (mb_value (lead_value b) xs')" "top_bit st" "high_bits st = -16"
      using mb_loop_partial [OF st0, of "length xs"] c1(1) assms(4) Cons by auto
    moreover have "cont (hd ys)" using c1(2) assms(4) by simp
    then have "16 \<le> hd ys div 8" "hd ys div 8 < 24" "cont (hd ys)" by auto
    then have "\<not> out_of_bounds st (hd ys)" using st(4) by (simp add: out_of_bounds_iff)
    ultimately show ?thesis using Cons by (auto simp: mb_rest_def simp del: mb_loop.simps)
  qed
  then obtain st where st: "mb_rest (length xs) ?c xs' (length xs') = Some (Mb_partial, st)"
    "mb_state st (length ys) (mb_value (lead_value b) xs')" "top_bit st" "\<not> out_of_bounds st (hd ys)" by blast
  have p: "mbrtowc False (Some xs) (length xs) 0 = Some (Mb_partial, st)"
    using mbrtowc_lead [OF b(2), of "length xs" xs'] st(1) xs(1) by simp
  have nz: "st \<noteq> 0" using st(3) by (cases "st = 0") (simp_all add: top_bit_def)
  have val: "mb_value (mb_value (lead_value b) xs') ys = wc"
    using b(6) xs(2) by (simp add: mb_value_append)
  have "mb_loop n st (ys @ rest) n = Some (Mb_char (n - (n - length ys)) wc, 0)"
    using mb_loop_char [OF st(2) c1(2) assms(5)] val by simp
  moreover obtain y ys' where "ys = y # ys'" using assms(4) by (cases ys) auto
  ultimately have "mbrtowc False (Some (ys @ rest)) n st = Some (Mb_char (length ys) wc, 0)"
    using nz assms(5) st(4) by (simp add: mbrtowc_def mb_rest_def del: mb_loop.simps)
  then show ?thesis using p nz by blast
qed

theorem mbrtowc_resumes_witness:
  "\<exists>st. mbrtowc False (Some [0xe2, 0x82]) 2 0 = Some (Mb_partial, st) \<and>
     mbrtowc False (Some [0xac]) 1 st = Some (Mb_char 1 0x20ac, 0)"
  using mbrtowc_resumes [of "0x20ac" "[0xe2, 0x82]" "[0xac]" 1 "[]"] by (auto simp: scalar_def utf8_def numeral_2_eq_2)

section \<open>The function without a state\<close>

lemma mb_loop_total: "n \<le> length s \<Longrightarrow> n \<noteq> 0 \<Longrightarrow> \<exists>r st. mb_loop N c s n = Some (r, st) \<and> r \<noteq> Mb_initial"
proof (induction s arbitrary: c n)
  case (Cons b s)
  then show ?case
  proof (cases "top_bit (mb_shift c b) \<and> n - 1 \<noteq> 0")
    case True
    then obtain b' s' where "s = b' # s'" using Cons.prems by (cases s) auto
    then show ?thesis using True Cons.IH [of "n - 1" "mb_shift c b"] Cons.prems by (auto simp: Let_def simp del: mb_loop.simps(2) simp: mb_loop.simps(2) [of N c b])
  qed (auto simp: Let_def)
qed simp

lemma mb_rest_short:
  assumes "lead b" "n \<le> need b" "n - 1 \<le> length s" "\<forall>b \<in> set s. b < 256"
  shows "\<exists>r st. mb_rest n (bittab ! (b - 0xc2)) s (n - 1) = Some (r, st) \<and> (r = Mb_error \<or> r = Mb_partial)"
proof (cases "n - 1 = 0")
  case False
  let ?c = "bittab ! (b - 0xc2)"
  obtain b1 s' where s: "s = b1 # s'" using assms(3) False by (cases s) auto
  show ?thesis
  proof (cases "out_of_bounds ?c b1")
    case inb: False
    obtain r st where r: "mb_loop n ?c s (n - 1) = Some (r, st)" "r \<noteq> Mb_initial"
      using mb_loop_total [OF assms(3) False] by blast
    have "r \<noteq> Mb_char k w" for k w
    proof
      assume "r = Mb_char k w"
      moreover have "cont (hd s)" using inb lead_second [OF assms(1)] second_cont s by simp
      ultimately have "need b \<le> n - 1"
        using mb_loop_only [OF lead_state [OF assms(1)], of n s "n - 1" k w st] r(1) assms(4) False by blast
      then show False using assms(2) False by simp
    qed
    then show ?thesis using r inb False s by (cases r) (auto simp: mb_rest_def simp del: mb_loop.simps)
  qed (use s False in \<open>simp add: mb_rest_def\<close>)
qed (simp add: mb_rest_def)

lemma lead_short:
  assumes "lead b" "1 \<le> n"
  shows "n < 4 \<and> top_bit (szmul (bittab ! (b - 0xc2)) (2 ^ (6 * n - 6))) \<longleftrightarrow> n \<le> need b"
proof -
  let ?c = "bittab ! (b - 0xc2)"
  have v: "?c mod 67108864 = mb_base (need b) + lead_value b" and lv: "lead_value b < 2 ^ (21 - 6 * need b)"
    using lead_state [OF assms(1)] by (simp_all add: mb_state_def)
  consider "n = 1" | "n = 2" | "n = 3" | "4 \<le> n" using assms(2) by linarith
  then show ?thesis
  proof cases
    case 1
    show ?thesis using 1 lead_top [OF assms(1)] by (simp add: need_def szmul_def)
  next
    case 2
    have "szmul ?c 64 = ?c mod 67108864 * 64" using mult_mod_left [of ?c 67108864 64] by (simp add: szmul_def)
    then show ?thesis using 2 v lv by (auto simp: need_def top_bit_iff split: if_splits)
  next
    case 3
    have "?c mod 1048576 = ?c mod 67108864 mod 1048576" by (simp add: mod_mod_cancel)
    moreover have "szmul ?c 4096 = ?c mod 1048576 * 4096" using mult_mod_left [of ?c 1048576 4096] by (simp add: szmul_def)
    ultimately have e: "szmul ?c 4096 = (mb_base (need b) + lead_value b) mod 1048576 * 4096" using v by simp
    have "need b = 1 \<or> need b = 2 \<or> need b = 3" by (simp add: need_def)
    then consider "need b = 1" | "need b = 2" | "need b = 3" by blast
    then have "szmul ?c 4096 = ((if need b = 3 then 786432 else 0) + lead_value b) * 4096 \<and>
        ((if need b = 3 then 786432 else 0) + lead_value b < 524288 \<longleftrightarrow> need b \<noteq> 3)"
    proof cases
      case 3
      have "51118080 + lead_value b = 786432 + lead_value b + 48 * 1048576" by simp
      then have "(51118080 + lead_value b) mod 1048576 = (786432 + lead_value b) mod 1048576" by (simp only: mod_mult_self1)
      then show ?thesis using 3 lv e by simp
    next
      case 2
      have "50331648 + lead_value b = lead_value b + 48 * 1048576" by simp
      then have "(50331648 + lead_value b) mod 1048576 = lead_value b mod 1048576" by (simp only: mod_mult_self1)
      then show ?thesis using 2 lv e by simp
    qed (use lv e in simp)
    moreover have "lead_value b < 262144" using lv by (auto simp: need_def split: if_splits)
    ultimately show ?thesis using 3 by (auto simp: top_bit_iff need_def split: if_splits)
  qed (auto simp: need_def)
qed


definition mbtowc_tail :: "nat \<Rightarrow> nat list \<Rightarrow> mb_result option" where
  "mbtowc_tail c s =
     (case s of [] \<Rightarrow> None
      | b # s \<Rightarrow>
          if out_of_bounds c b then Some Mb_error
          else let c = mb_shift c b in
            if \<not> top_bit c then Some (Mb_char 2 c)
            else (case s of [] \<Rightarrow> None
              | b # s \<Rightarrow>
                  if szsub b 0x80 \<ge> 0x40 then Some Mb_error
                  else let c = mb_shift c b in
                    if \<not> top_bit c then Some (Mb_char 3 c)
                    else (case s of [] \<Rightarrow> None
                      | b # _ \<Rightarrow>
                          if szsub b 0x80 \<ge> 0x40 then Some Mb_error
                          else Some (Mb_char 4 (mb_shift c b)))))"

lemma mbtowc_rest:
  assumes "lead b" "need b < n" "n - 1 \<le> length s" "\<forall>b \<in> set s. b < 256"
  shows "mbtowc_tail (bittab ! (b - 0xc2)) s =
    map_option (\<lambda>(r, _). if r = Mb_partial then Mb_error else r) (mb_rest n (bittab ! (b - 0xc2)) s (n - 1))"
proof -
  let ?c = "bittab ! (b - 0xc2)" let ?v = "lead_value b"
  have r: "1 \<le> need b" "need b \<le> 3" by (auto simp: need_def)
  note st = lead_state [OF assms(1)]
  obtain b1 s1 where s: "s = b1 # s1" using assms(2,3) r(1) by (cases s) auto
  show ?thesis
  proof (cases "out_of_bounds ?c b1")
    case False
    then have c1: "cont b1" using lead_second [OF assms(1)] second_cont by simp
    let ?c1 = "mb_shift ?c b1"
    have rest: "mb_rest n ?c s (n - 1) = mb_loop n ?c s (n - 1)" using False assms(2) r(1) s by (simp add: mb_rest_def)
    show ?thesis
    proof (cases "need b = 1")
      case True
      then show ?thesis using mb_state_last [of ?c ?v b1] st c1 False assms(2) unfolding rest
        by (simp add: mbtowc_tail_def s Let_def)
    next
      case two: False
      then have st1: "mb_state ?c1 (need b - 1) (?v * 64 + (b1 - 0x80))" "top_bit ?c1"
        using mb_state_more [of ?c "need b - 1" ?v b1] st c1 r(1) by simp_all
      obtain b2 s2 where s1: "s1 = b2 # s2" using assms(2,3) r(1) two s by (cases s1) auto
      show ?thesis
      proof (cases "cont b2")
        case no: False
        then show ?thesis using st1(2) two r False assms(2,4) cont_iff [of b2] unfolding rest
          by (simp add: mbtowc_tail_def s s1 Let_def)
      next
        case c2: True
        let ?c2 = "mb_shift ?c1 b2"
        show ?thesis
        proof (cases "need b = 2")
          case True
          then have "\<not> top_bit ?c2" using mb_state_last(2) [OF _ c2] st1(1) by simp
          then show ?thesis using True st1(2) c2 False assms(2,4) cont_iff [of b2] unfolding rest
            by (auto simp: mbtowc_tail_def s s1 Let_def)
        next
          case three: False
          then have "need b = 3" using two r by simp
          then have st2: "mb_state ?c2 1 ((?v * 64 + (b1 - 0x80)) * 64 + (b2 - 0x80))" "top_bit ?c2"
            using mb_state_more [of ?c1 1 "?v * 64 + (b1 - 0x80)" b2] st1 c2 by (simp_all add: numeral_2_eq_2)
          obtain b3 s3 where "s2 = b3 # s3" using assms(2,3) \<open>need b = 3\<close> s s1 by (cases s2) auto
          then show ?thesis
            using mb_state_last [OF st2(1), of b3] st1(2) st2(2) c2 False assms(2,4) \<open>need b = 3\<close> cont_iff [of b2] cont_iff [of b3]
            unfolding rest by (auto simp: mbtowc_tail_def s s1 Let_def)
        qed
      qed
    qed
  qed (use assms(2) r(1) s in \<open>simp add: mbtowc_tail_def mb_rest_def\<close>)
qed

lemma mbtowc_lead:
  "lead b \<Longrightarrow> need b < n \<Longrightarrow> mbtowc False (Some (b # s)) n = mbtowc_tail (bittab ! (b - 0xc2)) s"
  using lead_short [of b n] lead_test [of b] by (auto simp: mbtowc_def mbtowc_tail_def Let_def)

text \<open>The optimised mbtowc agrees with the general decoder: on a source of at least \<open>n\<close> bytes it returns what
  mbrtowc returns from the initial state, an incomplete character (-2) being an error (-1).\<close>

theorem mbtowc_mbrtowc:
  assumes "n \<le> length s" "\<forall>b \<in> set s. b < 256"
  shows "mbtowc one (Some s) n =
    map_option (\<lambda>(r, _). if r = Mb_partial then Mb_error else r) (mbrtowc one (Some s) n 0)"
proof (cases "n = 0")
  case False
  then obtain b s' where s: "s = b # s'" using assms(1) by (cases s) auto
  show ?thesis
  proof (cases "0x80 \<le> b \<and> \<not> one \<and> lead b")
    case no: False
    then show ?thesis using assms(2) lead_test [of b] False unfolding s
      by (auto simp: mbtowc_def mbrtowc_def)
  next
    case True
    let ?c = "bittab ! (b - 0xc2)"
    have m: "mbrtowc one (Some s) n 0 = mb_rest n ?c s' (n - 1)" "\<not> szsub b SA > SB - SA"
      using True mbrtowc_lead [of b n s'] False lead_test [of b] by (auto simp: s mbrtowc_def)
    show ?thesis
    proof (cases "n \<le> need b")
      case short: True
      have "n - 1 \<le> length s'" "\<forall>x \<in> set s'. x < 256" using assms s by auto
      then obtain r st where r: "mb_rest n ?c s' (n - 1) = Some (r, st)" "r = Mb_error \<or> r = Mb_partial"
        using mb_rest_short [of b n s'] short True by blast
      have "mbtowc one (Some s) n = Some Mb_error"
        using lead_short [of b n] short True m(2) s False by (simp add: mbtowc_def Let_def)
      then show ?thesis using m(1) r by auto
    next
      case enough: False
      then show ?thesis
        using mbtowc_rest [of b n s'] mbtowc_lead [of b n s'] True assms s m by simp
    qed
  qed
qed (simp add: mbtowc_def mbrtowc_def)

theorem mbtowc_mbrtowc_witness:
  "mbtowc False (Some [0xe2, 0x82]) 2 =
    map_option (\<lambda>(r, _). if r = Mb_partial then Mb_error else r) (mbrtowc False (Some [0xe2, 0x82]) 2 0)"
  by (rule mbtowc_mbrtowc) simp_all

end
