(* ===== verification/Calendar.thy ===== *)
theory Calendar
  imports Prelude "HOL-Library.Signed_Division"
begin

text \<open>
  Calendar time (libc-top-half/musl/src/time: __secs_to_tm.c, __year_to_secs.c, __month_to_secs.c,
  __tm_to_secs.c, gmtime_r.c, timegm.c) and the proleptic Gregorian calendar that it computes.

  The variables of the code are of 32 and 64 bits; for fields of \<open>struct tm\<close> within an int no
  operation overflows (\<open>tm_to_secs_bounds\<close>), so they are \<open>int\<close> here.  \<open>sdiv\<close> and \<open>smod\<close> are C's
  division, which truncates.
\<close>

section \<open>The code\<close>

record tm =
  tm_sec :: int
  tm_min :: int
  tm_hour :: int
  tm_mday :: int
  tm_mon :: int
  tm_year :: int
  tm_wday :: int
  tm_yday :: int
  tm_isdst :: int
  tm_gmtoff :: int
  tm_zone :: cstring

abbreviation INT_MIN :: int where "INT_MIN \<equiv> -2147483648"
abbreviation INT_MAX :: int where "INT_MAX \<equiv> 2147483647"
abbreviation LEAPOCH :: int where "LEAPOCH \<equiv> 946684800 + 86400 * (31 + 29)"
abbreviation DAYS_PER_400Y :: int where "DAYS_PER_400Y \<equiv> 365 * 400 + 97"
abbreviation DAYS_PER_100Y :: int where "DAYS_PER_100Y \<equiv> 365 * 100 + 24"
abbreviation DAYS_PER_4Y :: int where "DAYS_PER_4Y \<equiv> 365 * 4 + 1"

text \<open>Division with the corrections for a negative remainder that the code writes out each time.\<close>

definition fix_div :: "int \<Rightarrow> int \<Rightarrow> int \<times> int" where
  "fix_div a b = (let q = a sdiv b; r = a smod b in if r < 0 then (q - 1, r + b) else (q, r))"

definition march_months :: "int list" where
  "march_months = [31, 30, 31, 30, 31, 31, 30, 31, 30, 31, 31, 29]"

text \<open>The loop over the months, from the table entries that are left; \<open>None\<close> is a read beyond the table.\<close>

fun month_loop :: "int list \<Rightarrow> int \<Rightarrow> int \<Rightarrow> (int \<times> int) option" where
  "month_loop [] months remdays = None"
| "month_loop (d # ds) months remdays =
     (if d \<le> remdays then month_loop ds (months + 1) (remdays - d) else Some (months, remdays))"

text \<open>\<open>Some None\<close> is the result -1.  The fields that the code does not set keep their values.\<close>

definition secs_to_tm :: "int \<Rightarrow> tm \<Rightarrow> tm option option" where
  "secs_to_tm t tm =
     (if t < INT_MIN * 31622400 \<or> t > INT_MAX * 31622400 then Some None
      else
        let secs = t - LEAPOCH;
            (days, remsecs) = fix_div secs 86400;
            wday = (3 + days) smod 7;
            wday = (if wday < 0 then wday + 7 else wday);
            (qc_cycles, remdays) = fix_div days DAYS_PER_400Y;
            c_cycles = remdays sdiv DAYS_PER_100Y;
            c_cycles = (if c_cycles = 4 then c_cycles - 1 else c_cycles);
            remdays = remdays - c_cycles * DAYS_PER_100Y;
            q_cycles = remdays sdiv DAYS_PER_4Y;
            q_cycles = (if q_cycles = 25 then q_cycles - 1 else q_cycles);
            remdays = remdays - q_cycles * DAYS_PER_4Y;
            remyears = remdays sdiv 365;
            remyears = (if remyears = 4 then remyears - 1 else remyears);
            remdays = remdays - remyears * 365;
            leap = (if remyears = 0 \<and> (q_cycles \<noteq> 0 \<or> c_cycles = 0) then 1 else 0);
            yday = remdays + 31 + 28 + leap;
            yday = (if yday \<ge> 365 + leap then yday - (365 + leap) else yday);
            years = remyears + 4 * q_cycles + 100 * c_cycles + 400 * qc_cycles
        in case month_loop march_months 0 remdays of
             None \<Rightarrow> None
           | Some (months, remdays) \<Rightarrow>
               let (months, years) = (if months \<ge> 10 then (months - 12, years + 1) else (months, years)) in
               if years + 100 > INT_MAX \<or> years + 100 < INT_MIN then Some None
               else Some (Some (tm\<lparr>tm_year := years + 100, tm_mon := months + 2, tm_mday := remdays + 1,
                 tm_wday := wday, tm_yday := yday, tm_hour := remsecs sdiv 3600,
                 tm_min := remsecs sdiv 60 smod 60, tm_sec := remsecs smod 60\<rparr>)))"

text \<open>The seconds from the Epoch to a year (counted from 1900), and whether the year is a leap year.\<close>

definition year_to_secs :: "int \<Rightarrow> int \<times> bool" where
  "year_to_secs year =
     (if (year - 2) mod 18446744073709551616 \<le> 136 then
        (let leaps = (year - 68) div 4; four = (year - 68) mod 4 = 0;
             leaps = (if four then leaps - 1 else leaps) in
         (31536000 * (year - 70) + 86400 * leaps, four))
      else
        let (cycles, rem) = fix_div (year - 100) 400;
            (is_leap, centuries, leaps) =
              (if rem = 0 then (True, 0, 0)
               else
                 let (centuries, rem) =
                       (if rem \<ge> 200 then (if rem \<ge> 300 then (3, rem - 300) else (2, rem - 200))
                        else (if rem \<ge> 100 then (1, rem - 100) else (0, rem))) in
                 if rem = 0 then (False, centuries, 0)
                 else (rem mod 4 = 0, centuries, rem div 4));
            leaps = leaps + 97 * cycles + 24 * centuries - (if is_leap then 1 else 0) in
        ((year - 100) * 31536000 + leaps * 86400 + 946684800 + 86400, is_leap))"

definition secs_through_month :: "int list" where
  "secs_through_month = [0, 31 * 86400, 59 * 86400, 90 * 86400, 120 * 86400, 151 * 86400, 181 * 86400,
     212 * 86400, 243 * 86400, 273 * 86400, 304 * 86400, 334 * 86400]"

definition month_to_secs :: "int \<Rightarrow> bool \<Rightarrow> int" where
  "month_to_secs month is_leap =
     (let t = secs_through_month ! nat month in if is_leap \<and> month \<ge> 2 then t + 86400 else t)"

definition tm_to_secs :: "tm \<Rightarrow> int" where
  "tm_to_secs tm =
     (let (month, year) =
            (if tm_mon tm \<ge> 12 \<or> tm_mon tm < 0
             then (let (adj, month) = fix_div (tm_mon tm) 12 in (month, tm_year tm + adj))
             else (tm_mon tm, tm_year tm));
          (t, is_leap) = year_to_secs year in
      t + month_to_secs month is_leap + 86400 * (tm_mday tm - 1) + 3600 * tm_hour tm + 60 * tm_min tm + tm_sec tm)"

definition utc :: cstring where
  "utc = ''UTC''"

text \<open>gmtime_r: \<open>Inl EOVERFLOW\<close> is the NULL pointer with that errno.\<close>

definition gmtime_r :: "int \<Rightarrow> tm \<Rightarrow> (errno + tm) option" where
  "gmtime_r t tm =
     map_option (\<lambda>r. case r of
         None \<Rightarrow> Inl EOVERFLOW
       | Some tm \<Rightarrow> Inr (tm\<lparr>tm_isdst := 0, tm_gmtoff := 0, tm_zone := utc\<rparr>)) (secs_to_tm t tm)"

text \<open>timegm: the time and the normalised fields; \<open>new\<close> is the uninitialised local structure.\<close>

definition timegm :: "tm \<Rightarrow> tm \<Rightarrow> (errno + int \<times> tm) option" where
  "timegm new tm =
     (let t = tm_to_secs tm in
      map_option (\<lambda>r. case r of
          None \<Rightarrow> Inl EOVERFLOW
        | Some tm \<Rightarrow> Inr (t, tm\<lparr>tm_isdst := 0, tm_gmtoff := 0, tm_zone := utc\<rparr>)) (secs_to_tm t new))"

section \<open>The Gregorian calendar\<close>

definition leap_year :: "int \<Rightarrow> bool" where
  "leap_year y \<longleftrightarrow> y mod 4 = 0 \<and> (y mod 100 \<noteq> 0 \<or> y mod 400 = 0)"

text \<open>Days before the first of January of a year, from the one of the year 1 on.\<close>

definition days_before_year :: "int \<Rightarrow> int" where
  "days_before_year y = 365 * (y - 1) + (y - 1) div 4 - (y - 1) div 100 + (y - 1) div 400"

lemma div_next: "0 < n \<Longrightarrow> z div n = (z - 1) div n + (if z mod n = 0 then 1 else 0)" for z n :: int
proof -
  assume n: "0 < n"
  have "z - 1 = n * (z div n) + (z mod n - 1)" using mult_div_mod_eq [of n z] by linarith
  moreover have "(n * (z div n) + (z mod n - 1)) div n = z div n + (z mod n - 1) div n"
    using n by (simp add: div_mult_self4 add.commute)
  moreover have "0 \<le> z mod n" "z mod n < n" using n by simp_all
  then have "(z mod n - 1) div n = (if z mod n = 0 then -1 else 0)"
    using n by (cases "z mod n = 0") (simp_all add: div_eq_minus1 div_pos_pos_trivial order.strict_iff_order)
  ultimately have "(z - 1) div n = z div n + (if z mod n = 0 then -1 else 0)" by (simp only:)
  then show ?thesis by simp
qed

lemma leap_mods: "y mod 400 = 0 \<Longrightarrow> y mod 100 = 0" "y mod 100 = 0 \<Longrightarrow> y mod 4 = 0" for y :: int
  using mod_mod_cancel [of 100 400 y] mod_mod_cancel [of 4 100 y] by simp_all

lemma days_before_year_next: "days_before_year (y + 1) = 365 * y + y div 4 - y div 100 + y div 400"
  by (simp only: days_before_year_def add_diff_cancel_right')

lemma leap_sum: "leap_year y \<Longrightarrow> y mod 4 = 0 \<and> (y mod 100 = 0 \<longleftrightarrow> y mod 400 = 0)"
    "\<not> leap_year y \<Longrightarrow> y mod 400 \<noteq> 0 \<and> (y mod 4 = 0 \<longleftrightarrow> y mod 100 = 0)"
  using leap_mods [of y] unfolding leap_year_def by argo+

lemma days_before_year_Suc: "days_before_year (y + 1) = days_before_year y + (if leap_year y then 366 else 365)"
proof -
  have sum: "365 * y + a - b + c = 365 * (y - 1) + a' - b' + c' + (if P then 366 else 365)"
    if "a = a' + u" "b = b' + v" "c = c' + x" "u - v + x = (if P then 1 else 0)"
    for a b c a' b' c' u v x :: int and P using that by (cases P) simp_all
  show ?thesis unfolding days_before_year_next unfolding days_before_year_def
    by (rule sum [OF div_next div_next div_next]) (use leap_sum [of y] in \<open>auto split: if_splits\<close>)
qed

definition month_days :: "int \<Rightarrow> int \<Rightarrow> int" where
  "month_days y mon = (if mon = 1 then (if leap_year y then 29 else 28) else if mon \<in> {3, 5, 8, 10} then 30 else 31)"

definition days_before_month :: "int \<Rightarrow> int \<Rightarrow> int" where
  "days_before_month y mon = (\<Sum>m \<leftarrow> [0..mon - 1]. month_days y m)"

text \<open>The day of a date, 0 being the first of January 1970.\<close>

definition day_number :: "int \<Rightarrow> int \<Rightarrow> int \<Rightarrow> int" where
  "day_number y mon mday = days_before_year y - days_before_year 1970 + days_before_month y mon + mday - 1"

lemma fix_div:
  assumes "0 < b"
  shows "fix_div a b = (a div b, a mod b)"
proof (cases "0 \<le> a")
  case True
  then have "a sdiv b = a div b" "a smod b = a mod b"
    using assms by (simp_all add: signed_divide_int_def signed_modulo_int_def sgn_if)
  moreover have "\<not> a mod b < 0" using assms pos_mod_sign [of b a] by linarith
  ultimately show ?thesis by (simp add: fix_div_def Let_def)
next
  case False
  then have "a sdiv b = - (- a div b)" "a smod b = - (- a mod b)" using assms
    by (simp_all add: signed_divide_int_def signed_modulo_int_def sgn_if)
  moreover have "a mod b < b" "0 \<le> - a mod b" using assms by simp_all
  moreover from this have "b \<noteq> a mod b" by linarith
  ultimately show ?thesis using assms
    by (auto simp: fix_div_def Let_def zdiv_zminus1_eq_if zmod_zminus1_eq_if)
qed

lemma trunc_pos [simp]: "0 \<le> a \<Longrightarrow> 0 < b \<Longrightarrow> a sdiv b = a div b" "0 \<le> a \<Longrightarrow> 0 < b \<Longrightarrow> a smod b = a mod b" for a b :: int
  by (simp_all add: signed_divide_int_def signed_modulo_int_def sgn_if)

lemma days_2000: "days_before_year (N + 2000) = 365 * N + N div 4 - N div 100 + N div 400 - (if leap_year N then 1 else 0) + 730120"
proof -
  have l: "leap_year (N + 2000) = leap_year N"
    using mod_mult_self1 [of N 20 100] mod_mult_self1 [of N 500 4] mod_mult_self1 [of N 5 400] by (simp add: leap_year_def)
  have sum: "D = 365 * N + a - b + c - (if P then 1 else 0) + 730120"
    if "a' = a + 500" "b' = b + 20" "c' = c + 5" "D2 = D + (if P then 366 else 365)" "D2 = 365 * (N + 2000) + a' - b' + c'"
    for D D2 a b c a' b' c' :: int and P using that by (cases P) simp_all
  have "(N + 2000) div 4 = N div 4 + 500" "(N + 2000) div 100 = N div 100 + 20" "(N + 2000) div 400 = N div 400 + 5"
    using div_mult_self1 [of 4 N 500] div_mult_self1 [of 100 N 20] div_mult_self1 [of 400 N 5] by simp_all
  then show ?thesis
    by (rule sum [OF _ _ _ days_before_year_Suc [of "N + 2000", unfolded l] days_before_year_next])
qed

lemma cycle_parts:
  fixes s k c :: int
  assumes "0 \<le> s" "s < 100" "0 \<le> k" "k < 4"
  shows "(400 * c + 100 * k + s) div 4 = 100 * c + 25 * k + s div 4" "(400 * c + 100 * k + s) mod 4 = s mod 4"
    "(400 * c + 100 * k + s) div 100 = 4 * c + k" "(400 * c + 100 * k + s) mod 100 = s"
    "(400 * c + 100 * k + s) div 400 = c" "(400 * c + 100 * k + s) mod 400 = 100 * k + s"
proof -
  have e: "400 * c + 100 * k + s = s + 4 * (100 * c + 25 * k)" "400 * c + 100 * k + s = s + 100 * (4 * c + k)"
    "400 * c + 100 * k + s = 100 * k + s + 400 * c" by simp_all
  show "(400 * c + 100 * k + s) div 4 = 100 * c + 25 * k + s div 4" "(400 * c + 100 * k + s) mod 4 = s mod 4"
    by (simp_all add: e(1) del: distrib_left_numeral)
  show "(400 * c + 100 * k + s) div 100 = 4 * c + k" "(400 * c + 100 * k + s) mod 100 = s"
    using assms by (simp_all add: e(2) del: distrib_left_numeral)
  have "100 * k + s < 400" "0 \<le> 100 * k + s" using assms by linarith+
  then show "(400 * c + 100 * k + s) div 400 = c" "(400 * c + 100 * k + s) mod 400 = 100 * k + s"
    by (simp_all add: e(3))
qed

lemma year_table:
  "list_all (\<lambda>year. year_to_secs year = (86400 * day_number (year + 1900) 0 1, leap_year (year + 1900))) [2..138]"
  by code_simp

lemma year_to_secs_cycles:
  assumes "0 \<le> s" "s < 100" "0 \<le> k" "k < 4" "year = 400 * c + 100 * k + s + 100"
    "\<not> (year - 2) mod 18446744073709551616 \<le> 136"
  shows "year_to_secs year = (86400 * (365 * (year - 100) + (s div 4 + 97 * c + 24 * k - (if leap_year (year - 100) then 1 else 0)) + 10958),
    leap_year (year - 100))"
proof -
  have y: "year - 100 = 400 * c + 100 * k + s" using assms(5) by simp
  note p = cycle_parts [OF assms(1-4), of c]
  have leap: "leap_year (year - 100) \<longleftrightarrow> (if s = 0 then k = 0 else s mod 4 = 0)"
    using assms(1-4) by (auto simp: leap_year_def y p)
  have f: "fix_div (year - 100) 400 = (c, 100 * k + s)" by (simp add: fix_div y p)
  consider "k = 0" | "k = 1" | "k = 2" | "k = 3" using assms(3,4) by linarith
  then show ?thesis
    by cases (use assms(1,2,6) in \<open>auto simp: year_to_secs_def f Let_def leap\<close>)
qed

lemma year_to_secs_spec:
  assumes "- 4611686018427387904 \<le> year" "year \<le> 4611686018427387904"
  shows "year_to_secs year = (86400 * day_number (year + 1900) 0 1, leap_year (year + 1900))"
proof (cases "2 \<le> year \<and> year \<le> 138")
  case True
  then have "year \<in> set [2..138]" by (simp only: set_upto atLeastAtMost_iff)
  then show ?thesis using year_table by (simp only: list_all_iff)
next
  case False
  have far: "\<not> (year - 2) mod 18446744073709551616 \<le> 136"
  proof (cases "2 \<le> year")
    case True
    then have "(year - 2) mod 18446744073709551616 = year - 2" using assms by simp
    then show ?thesis using False True by simp
  next
    case small: False
    then have "(year - 2 + 18446744073709551616) mod 18446744073709551616 = year - 2 + 18446744073709551616"
      using assms by (intro mod_pos_pos_trivial) auto
    moreover have "(year - 2 + 18446744073709551616) mod 18446744073709551616 = (year - 2) mod 18446744073709551616"
      by (simp only: mod_add_self2)
    ultimately show ?thesis using assms by linarith
  qed
  define N where N_def: "N = year - 100"
  define c k s where parts: "c = N div 400" "k = N mod 400 div 100" "s = N mod 100"
  have m: "N mod 400 mod 100 = N mod 100" by (rule mod_mod_cancel) simp
  have k: "0 \<le> k" "k < 4" "0 \<le> s" "s < 100"
    using pos_mod_bound [of 400 N] pos_mod_sign [of 400 N] by (auto simp: parts)
  have N: "N = 400 * c + 100 * k + s"
    using mult_div_mod_eq [of 400 N] mult_div_mod_eq [of 100 "N mod 400"] unfolding parts m by linarith
  have y: "year = 400 * c + 100 * k + s + 100" "year + 1900 = N + 2000" using N by (simp_all add: N_def)
  have l: "leap_year (year + 1900) = leap_year N"
    using mod_mult_self1 [of N 20 100] mod_mult_self1 [of N 500 4] mod_mult_self1 [of N 5 400]
    by (simp add: leap_year_def N_def add.commute)
  have "day_number (year + 1900) 0 1 = 365 * N + N div 4 - N div 100 + N div 400 - (if leap_year N then 1 else 0) + 10958"
    unfolding day_number_def y(2) days_2000 by (simp add: days_before_month_def days_before_year_def)
  moreover have "N div 4 - N div 100 + N div 400 = s div 4 + 97 * c + 24 * k"
    unfolding N cycle_parts [OF k(3,4,1,2)] by simp
  ultimately have "day_number (year + 1900) 0 1 =
      365 * N + (s div 4 + 97 * c + 24 * k - (if leap_year N then 1 else 0)) + 10958" by linarith
  then show ?thesis
    using year_to_secs_cycles [OF k(3,4,1,2) y(1) far] l by (simp only: N_def)
qed

end
