(* ===== verification/Calendar_Theorems.thy ===== *)
theory Calendar_Theorems
  imports Calendar
begin

text \<open>
  The conversions of Calendar against the Gregorian calendar: the decomposition of a day number
  into cycles of 400, 100, 4 and 1 years from March 2000 on, the table of months, and the
  properties of gmtime_r and timegm.
\<close>

section \<open>Years from March\<close>

text \<open>The days from 2000-03-01 to the first of March of \<open>2000 + n\<close>.\<close>

definition march_day :: "int \<Rightarrow> int" where
  "march_day n = 365 * n + n div 4 - n div 100 + n div 400"

lemma leap_period: "leap_year (n + 2000) = leap_year n"
  using mod_mult_self1 [of n 20 100] mod_mult_self1 [of n 500 4] mod_mult_self1 [of n 5 400] by (simp add: leap_year_def)

lemma march_year_start: "days_before_year (n + 2000) - days_before_year 1970 + 59 + (if leap_year (n + 2000) then 1 else 0) = march_day n + 11017"
  unfolding days_2000 leap_period march_day_def by (simp add: days_before_year_def)

lemma march_year_end: "days_before_year (n + 2001) - days_before_year 1970 = march_day n + 11017 + 306"
  using march_year_start [of n] days_before_year_Suc [of "n + 2000"] by (simp add: add.commute split: if_splits)

text \<open>A year that began in a March, as the code finds it.\<close>

definition cap :: "int \<Rightarrow> int \<Rightarrow> int" where
  "cap k n = (if n = k then n - 1 else n)"

lemma div_below: "0 < b \<Longrightarrow> a < c * b \<Longrightarrow> a div b < c" for a b c :: int
proof (rule ccontr)
  assume b: "0 < b" "a < c * b" and "\<not> a div b < c"
  then have "c * b \<le> a div b * b" by (intro mult_right_mono) auto
  also have "\<dots> \<le> a" using div_mult_mod_eq [of a b] pos_mod_sign [OF b(1), of a] by linarith
  finally show False using b(2) by simp
qed

lemma cap_div:
  assumes "0 < b" "0 \<le> a" "a < k * b + e" "0 < k" "0 < e" "e \<le> b"
  shows "0 \<le> cap k (a div b)" "cap k (a div b) < k" "0 \<le> a - cap k (a div b) * b" "a - cap k (a div b) * b < b + e"
    "b \<le> a - cap k (a div b) * b \<Longrightarrow> cap k (a div b) = k - 1"
proof -
  have "a div b < k + 1" by (rule div_below) (use assms(1,3,6) in \<open>simp_all add: algebra_simps\<close>)
  moreover have "0 \<le> a div b" using assms by (simp add: pos_imp_zdiv_nonneg_iff)
  moreover have "a = a div b * b + a mod b" "0 \<le> a mod b" "a mod b < b" using assms(1) by simp_all
  then obtain u v where uv: "a div b = u" "a = u * b + v" "0 \<le> v" "v < b" by blast
  ultimately have "0 \<le> u" "u \<le> k" "u = k \<Longrightarrow> v < e" using assms(3) by auto
  then show "0 \<le> cap k (a div b)" "cap k (a div b) < k" "0 \<le> a - cap k (a div b) * b" "a - cap k (a div b) * b < b + e"
    "b \<le> a - cap k (a div b) * b \<Longrightarrow> cap k (a div b) = k - 1"
    unfolding uv(1) using uv(2-4) assms(1,4-6) by (auto simp: cap_def left_diff_distrib)
qed

lemma march_parts:
  assumes "0 \<le> d" "d < 146097"
    and c: "c = cap 4 (d div 36524)" and d1: "d1 = d - c * 36524"
    and q: "q = cap 25 (d1 div 1461)" and d2: "d2 = d1 - q * 1461"
    and y: "y = cap 4 (d2 div 365)" and r: "r = d2 - y * 365"
    and n: "n = y + 4 * q + 100 * c + 400 * k"
  shows "march_day n = 146097 * k + d - r" "0 \<le> r" "r < 365 + (if leap_year (n + 1) then 1 else 0)"
    "leap_year n \<longleftrightarrow> y = 0 \<and> (q \<noteq> 0 \<or> c = 0)"
proof -
  have C: "0 \<le> c" "c < 4" "0 \<le> d1" "d1 < 36525" "36524 \<le> d1 \<Longrightarrow> c = 3"
    using cap_div [of 36524 d 4 1] assms(1,2) by (simp_all add: c d1)
  have Q: "0 \<le> q" "q < 25" "0 \<le> d2" "d2 < 1461" "q = 24 \<Longrightarrow> d2 = 1460 \<Longrightarrow> c = 3"
  proof -
    note Q = cap_div [of 1461 d1 25 1461]
    have "cap 25 (d1 div 1461) = d1 div 1461"
      using C(3,4) by (auto simp: cap_def dest: zdiv_mono1 [of d1 36524 1461])
    then have "q = d1 div 1461" by (simp add: q)
    moreover have "d1 = d1 div 1461 * 1461 + d1 mod 1461" by simp
    ultimately have d2': "d2 = d1 mod 1461" using d2 by linarith
    have "d1 div 1461 \<le> 36524 div 1461" using C(4) by (intro zdiv_mono1) auto
    then show "q < 25" using \<open>q = d1 div 1461\<close> by simp
    show "0 \<le> q" "0 \<le> d2" "d2 < 1461" using \<open>q = d1 div 1461\<close> C(3) d2' by (simp_all add: pos_imp_zdiv_nonneg_iff)
    show "q = 24 \<Longrightarrow> d2 = 1460 \<Longrightarrow> c = 3" using C(5) d2 by simp
  qed
  have Y: "0 \<le> y" "y < 4" "0 \<le> r" "r < 366" "365 \<le> r \<Longrightarrow> y = 3"
    using cap_div [of 365 d2 4 1] Q(3,4) by (simp_all add: y r)
  define s where "s = y + 4 * q"
  have s: "0 \<le> s" "s < 100" "s div 4 = q" "s mod 4 = y" using Y(1,2) Q(1,2) by (auto simp: s_def)
  have n': "n = 400 * k + 100 * c + s" using n by (simp add: s_def)
  note p = cycle_parts [OF s(1,2) C(1,2), of k, folded n']
  have sum: "365 * n + a - b + e = 146097 * k + d - r" if "a = 100 * k + 25 * c + q" "b = 4 * k + c" "e = k" for a b e
    using that n r d2 d1 by simp
  show "march_day n = 146097 * k + d - r" unfolding march_day_def by (rule sum [OF p(1) [unfolded s(3)] p(3,5)])
  show "0 \<le> r" by (rule Y(3))
  show "leap_year n \<longleftrightarrow> y = 0 \<and> (q \<noteq> 0 \<or> c = 0)"
    unfolding leap_year_def p(2,4,6) s(4) using C(1) Q(1) Y(1) s(1) by (auto simp: s_def)
  show "r < 365 + (if leap_year (n + 1) then 1 else 0)"
  proof (cases "r < 365")
    case False
    then have y3: "y = 3" "d2 = 1460" using Y r Q(4) by auto
    have "leap_year (n + 1)"
    proof (cases "q = 24")
      case True
      then have "n + 1 = 0 + 400 * (k + 1)" using Q(5) y3 n by simp
      then have "(n + 1) mod 400 = 0" by (simp only: mod_mult_self2) simp
      then show ?thesis using leap_mods [of "n + 1"] by (simp add: leap_year_def)
    next
      case False
      then have s1: "0 \<le> s + 1" "s + 1 < 100" "(s + 1) mod 4 = 0" "s + 1 \<noteq> 0" using y3 Q(1,2) by (auto simp: s_def)
      have n1: "n + 1 = 400 * k + 100 * c + (s + 1)" using n' by simp
      show ?thesis unfolding leap_year_def n1 cycle_parts(2,4) [OF s1(1,2) C(1,2), of k] using s1(3,4) by blast
    qed
    then show ?thesis using Y(4) by simp
  qed simp
qed

section \<open>Months\<close>

lemma month_loop_spec:
  assumes "0 \<le> r" "r < sum_list ds"
  shows "\<exists>k < length ds. month_loop ds n r = Some (n + int k, r - sum_list (take k ds)) \<and>
    0 \<le> r - sum_list (take k ds) \<and> r - sum_list (take k ds) < ds ! k"
  using assms
proof (induction ds arbitrary: n r)
  case (Cons d ds)
  show ?case
  proof (cases "d \<le> r")
    case True
    then obtain k where "k < length ds" "month_loop ds (n + 1) (r - d) = Some (n + 1 + int k, r - d - sum_list (take k ds))"
      "0 \<le> r - d - sum_list (take k ds)" "r - d - sum_list (take k ds) < ds ! k"
      using Cons.IH [of "r - d" "n + 1"] Cons.prems by auto
    then show ?thesis using True by (intro exI [of _ "Suc k"]) (simp add: algebra_simps)
  qed (use Cons.prems in \<open>auto intro!: exI [of _ 0]\<close>)
qed simp

lemma days_before_month_values:
  "days_before_month y 0 = 0" "days_before_month y 1 = 31"
  "days_before_month y 2 = 59 + (if leap_year y then 1 else 0)" "days_before_month y 3 = 90 + (if leap_year y then 1 else 0)"
  "days_before_month y 4 = 120 + (if leap_year y then 1 else 0)" "days_before_month y 5 = 151 + (if leap_year y then 1 else 0)"
  "days_before_month y 6 = 181 + (if leap_year y then 1 else 0)" "days_before_month y 7 = 212 + (if leap_year y then 1 else 0)"
  "days_before_month y 8 = 243 + (if leap_year y then 1 else 0)" "days_before_month y 9 = 273 + (if leap_year y then 1 else 0)"
  "days_before_month y 10 = 304 + (if leap_year y then 1 else 0)" "days_before_month y 11 = 334 + (if leap_year y then 1 else 0)"
  by (simp_all add: days_before_month_def month_days_def upto_rec1 [of 0] upto.simps)

definition valid_date :: "int \<Rightarrow> int \<Rightarrow> int \<Rightarrow> bool" where
  "valid_date y mon mday \<longleftrightarrow> 0 \<le> mon \<and> mon \<le> 11 \<and> 1 \<le> mday \<and> mday \<le> month_days y mon"

text \<open>The date of a day of the year that began in March 2000 + \<open>n\<close>.\<close>

lemma march_date:
  assumes "0 \<le> r" "r < 365 + (if leap_year (n + 1) then 1 else 0)"
  obtains m d where "month_loop march_months 0 r = Some (m, d)" "0 \<le> m" "m \<le> 11"
    "m < 10 \<Longrightarrow> valid_date (n + 2000) (m + 2) (d + 1) \<and> day_number (n + 2000) (m + 2) (d + 1) = march_day n + r + 11017 \<and>
       days_before_month (n + 2000) (m + 2) + d = r + 59 + (if leap_year n then 1 else 0) \<and> r < 306"
    "10 \<le> m \<Longrightarrow> valid_date (n + 2001) (m - 10) (d + 1) \<and> day_number (n + 2001) (m - 10) (d + 1) = march_day n + r + 11017 \<and>
       days_before_month (n + 2001) (m - 10) + d = r - 306 \<and> 306 \<le> r"
proof -
  have "r < sum_list march_months" using assms(2) by (simp add: march_months_def split: if_splits)
  then obtain k where k: "k < 12" "month_loop march_months 0 r = Some (int k, r - sum_list (take k march_months))"
    "0 \<le> r - sum_list (take k march_months)" "r - sum_list (take k march_months) < march_months ! k"
    using month_loop_spec [OF assms(1), of march_months 0] by (auto simp: march_months_def)
  have l: "leap_year (n + 2001) = leap_year (n + 1)" using leap_period [of "n + 1"] by (simp add: add.commute)
  note s = march_year_start [of n] march_year_end [of n] leap_period [of n]
  have "k \<in> {0..<12}" using k(1) by simp
  then consider "k = 0" | "k = 1" | "k = 2" | "k = 3" | "k = 4" | "k = 5" | "k = 6" | "k = 7" | "k = 8" | "k = 9" | "k = 10" | "k = 11"
    by (simp add: atLeastLessThan_nat_numeral less_Suc_eq) linarith
  then show ?thesis
  proof cases
    case 11
    show ?thesis
      by (rule that [OF k(2)]) (use 11 k(3,4) s in \<open>auto simp: valid_date_def day_number_def month_days_def march_months_def days_before_month_values\<close>)
  next
    case 12
    show ?thesis
      by (rule that [OF k(2)]) (use 12 k(3,4) s assms(2) l in
        \<open>auto simp: valid_date_def day_number_def month_days_def march_months_def days_before_month_values split: if_splits\<close>)
  qed (rule that [OF k(2)]; use k(3,4) s in
    \<open>auto simp: valid_date_def day_number_def month_days_def march_months_def days_before_month_values split: if_splits\<close>)+
qed

section \<open>Dates and days\<close>

lemma day_number_bounds:
  assumes "valid_date y mon mday"
  shows "days_before_year y - days_before_year 1970 \<le> day_number y mon mday"
    "day_number y mon mday < days_before_year (y + 1) - days_before_year 1970"
proof -
  have "mon \<in> {0..11}" using assms by (simp add: valid_date_def)
  then have "mon \<in> {0, 1, 2, 3, 4, 5, 6, 7, 8, 9, 10, 11}" by (simp add: valid_date_def) presburger
  then have "0 \<le> days_before_month y mon \<and> days_before_month y mon + month_days y mon \<le> 365 + (if leap_year y then 1 else 0)"
    by (auto simp: days_before_month_values month_days_def)
  then show "days_before_year y - days_before_year 1970 \<le> day_number y mon mday"
    "day_number y mon mday < days_before_year (y + 1) - days_before_year 1970"
    using assms unfolding days_before_year_Suc day_number_def valid_date_def by (auto split: if_splits)
qed

lemma days_before_year_bounds: "146097 * (y - 1) - 1200 \<le> 400 * days_before_year y" "400 * days_before_year y \<le> 146097 * (y - 1) + 800"
proof -
  have gen: "146097 * x - 1200 \<le> 400 * (365 * x + a - b + c) \<and> 400 * (365 * x + a - b + c) \<le> 146097 * x + 800"
    if "x = 4 * a + a'" "x = 100 * b + b'" "x = 400 * c + c'" "0 \<le> a'" "a' < 4" "0 \<le> b'" "b' < 100" "0 \<le> c'" "c' < 400"
    for x a b c a' b' c' :: int
  proof -
    have "400 * a = 100 * x - 100 * a'" "400 * b = 4 * x - 4 * b'" "400 * c = x - c'" using that(1-3) by simp_all
    moreover have "400 * (365 * x + a - b + c) = 146000 * x + 400 * a - 400 * b + 400 * c" by simp
    ultimately show ?thesis using that(4-9) by simp
  qed
  note g = gen [OF mult_div_mod_eq [symmetric] mult_div_mod_eq [symmetric] mult_div_mod_eq [symmetric], of "y - 1"]
  show "146097 * (y - 1) - 1200 \<le> 400 * days_before_year y" "400 * days_before_year y \<le> 146097 * (y - 1) + 800"
    using g unfolding days_before_year_def by simp_all
qed

lemma days_before_year_mono: "y < y' \<Longrightarrow> days_before_year (y + 1) \<le> days_before_year y'"
proof -
  have "days_before_year x \<le> days_before_year (x + int n)" for x n
  proof (induction n)
    case (Suc n)
    moreover have "x + int (Suc n) = x + int n + 1" by simp
    ultimately show ?case using days_before_year_Suc [of "x + int n"] by (simp only: split: if_splits) simp_all
  qed simp
  then show "y < y' \<Longrightarrow> days_before_year (y + 1) \<le> days_before_year y'"
    by (metis add1_zle_eq zle_iff_zadd)
qed

lemma valid_date_unique:
  assumes "valid_date y mon mday" "valid_date y' mon' mday'" "day_number y mon mday = day_number y' mon' mday'"
  shows "y = y' \<and> mon = mon' \<and> mday = mday'"
proof -
  have "y = y'"
    using day_number_bounds [OF assms(1)] day_number_bounds [OF assms(2)] assms(3)
      days_before_year_mono [of y y'] days_before_year_mono [of y' y] by linarith
  have less: "days_before_month y m + month_days y m \<le> days_before_month y m'" if "0 \<le> m" "m < m'" for m m'
  proof -
    have "[0..m' - 1] = [0..m] @ [m + 1..m' - 1]" using upto_split1 [of 0 "m + 1" "m' - 1"] that by (cases "m + 1 = m'") auto
    moreover have "0 \<le> (\<Sum>i \<leftarrow> [m + 1..m' - 1]. month_days y i)" by (intro sum_list_nonneg) (auto simp: month_days_def)
    ultimately show ?thesis using that by (simp add: days_before_month_def upto_rec2)
  qed
  have sum: "days_before_month y mon + mday = days_before_month y mon' + mday'"
    using assms(3) \<open>y = y'\<close> by (simp add: day_number_def)
  have v: "0 \<le> mon" "1 \<le> mday" "mday \<le> month_days y mon" "0 \<le> mon'" "1 \<le> mday'" "mday' \<le> month_days y mon'"
    using assms(1,2) \<open>y = y'\<close> by (simp_all add: valid_date_def)
  have "mon = mon'"
    using less [of mon mon'] less [of mon' mon] sum v by (cases mon mon' rule: linorder_cases) linarith+
  then show ?thesis using \<open>y = y'\<close> assms(3) by (simp add: day_number_def)
qed

section \<open>Seconds to fields\<close>

definition date_fields :: "int \<Rightarrow> int \<Rightarrow> int \<Rightarrow> int \<Rightarrow> tm \<Rightarrow> tm" where
  "date_fields t y mon mday tm = tm\<lparr>tm_year := y - 1900, tm_mon := mon, tm_mday := mday,
     tm_wday := (4 + t div 86400) mod 7, tm_yday := days_before_month y mon + mday - 1,
     tm_hour := t mod 86400 div 3600, tm_min := t mod 3600 div 60, tm_sec := t mod 60\<rparr>"

lemma minute_field: "t mod 3600 div 60 = t mod 86400 div 60 mod 60" for t :: int
proof -
  have "t mod 3600 = t mod 86400 mod (60 * 60)" using mod_mod_cancel [of 3600 86400 t] by simp
  also have "\<dots> = 60 * (t mod 86400 div 60 mod 60) + t mod 86400 mod 60" by (rule zmod_zmult2_eq) simp
  finally have e: "t mod 3600 = 60 * (t mod 86400 div 60 mod 60) + t mod 86400 mod 60" .
  have g: "(60 * a + b) div 60 = a" if "0 \<le> b" "b < 60" for a b :: int using that by simp
  show ?thesis unfolding e by (rule g) simp_all
qed

lemma clock_fields:
  fixes t :: int
  shows "t mod 86400 sdiv 3600 = t mod 86400 div 3600" "t mod 86400 sdiv 60 smod 60 = t mod 3600 div 60"
    "t mod 86400 smod 60 = t mod 60"
proof -
  have p: "0 \<le> t mod 86400" by simp
  then show "t mod 86400 sdiv 3600 = t mod 86400 div 3600" by (rule trunc_pos) simp
  have "t mod 86400 smod 60 = t mod 86400 mod 60" using p by (rule trunc_pos) simp
  also have "\<dots> = t mod 60" by (rule mod_mod_cancel) simp
  finally show "t mod 86400 smod 60 = t mod 60" .
  have "t mod 86400 sdiv 60 = t mod 86400 div 60" using p by (rule trunc_pos) simp
  moreover have "0 \<le> t mod 86400 div 60" using p by (rule pos_imp_zdiv_nonneg_iff [THEN iffD2, rotated]) simp
  then have "t mod 86400 div 60 smod 60 = t mod 86400 div 60 mod 60" by (rule trunc_pos) simp
  ultimately show "t mod 86400 sdiv 60 smod 60 = t mod 3600 div 60" by (simp only: minute_field)
qed

lemma weekday: "(let w = (3 + d) smod 7 in if w < 0 then w + 7 else w) = (4 + (d + 11017)) mod 7" for d :: int
proof -
  have "(let w = x smod 7 in if w < 0 then w + 7 else w) = snd (fix_div x 7)" for x :: int
    by (simp add: fix_div_def Let_def)
  moreover have "(3 + d) mod 7 = (4 + (d + 11017)) mod 7"
    using mod_mult_self1 [of "3 + d" 1574 7] by (simp add: algebra_simps)
  ultimately show ?thesis by (simp add: fix_div)
qed

lemma secs_to_tm_days:
  assumes "\<not> (t < INT_MIN * 31622400 \<or> t > INT_MAX * 31622400)"
  shows "\<exists>y mon mday. valid_date y mon mday \<and> day_number y mon mday = t div 86400 \<and>
    secs_to_tm t tm = Some (if INT_MIN \<le> y - 1900 \<and> y - 1900 \<le> INT_MAX then Some (date_fields t y mon mday tm) else None)"
proof -
  define days k d where days: "days = t div 86400 - 11017" and k: "k = days div DAYS_PER_400Y" and d: "d = days mod DAYS_PER_400Y"
  define c d1 where c: "c = cap 4 (d div 36524)" and d1: "d1 = d - c * 36524"
  define q d2 where q: "q = cap 25 (d1 div 1461)" and d2: "d2 = d1 - q * 1461"
  define y r where y: "y = cap 4 (d2 div 365)" and r: "r = d2 - y * 365"
  define n where n: "n = y + 4 * q + 100 * c + 400 * k"
  have d0: "0 \<le> d" "d < 146097" "days = 146097 * k + d" by (simp_all add: d k)
  note march = march_parts [OF d0(1,2) c d1 q d2 y r n]
  have D1: "0 \<le> d1" "d1 < 36525" unfolding d1 c using cap_div(3,4) [of 36524 d 4 1] d0(1,2) by simp_all
  have D2: "0 \<le> d2" unfolding d2 q using cap_div(3) [of 1461 d1 25 1461] D1 by simp
  have fix1: "fix_div (t - LEAPOCH) 86400 = (days, t mod 86400)"
  proof -
    have "t - LEAPOCH = t + - 11017 * 86400" by simp
    then have "(t - LEAPOCH) div 86400 = t div 86400 + - 11017" "(t - LEAPOCH) mod 86400 = t mod 86400"
      by (simp_all only: div_mult_self1 mod_mult_self1)
    then show ?thesis by (simp add: fix_div days)
  qed
  have fix2: "fix_div days DAYS_PER_400Y = (k, d)" by (simp add: fix_div k d)
  have parts: "(if d sdiv DAYS_PER_100Y = 4 then d sdiv DAYS_PER_100Y - 1 else d sdiv DAYS_PER_100Y) = c"
    unfolding c cap_def using d0(1) by simp
  have parts1: "d - c * DAYS_PER_100Y = d1" unfolding d1 by simp
  have parts2: "(if d1 sdiv DAYS_PER_4Y = 25 then d1 sdiv DAYS_PER_4Y - 1 else d1 sdiv DAYS_PER_4Y) = q"
    unfolding q cap_def using D1(1) by simp
  have parts3: "d1 - q * DAYS_PER_4Y = d2" unfolding d2 by simp
  have parts4: "(if d2 sdiv 365 = 4 then d2 sdiv 365 - 1 else d2 sdiv 365) = y"
    unfolding y cap_def using D2 by simp
  note parts = parts parts1 parts2 parts3 parts4 r [symmetric] n [symmetric]
  have wday: "(if (3 + days) smod 7 < 0 then (3 + days) smod 7 + 7 else (3 + days) smod 7) = (4 + t div 86400) mod 7"
    using weekday [of days] unfolding Let_def by (simp only: days diff_add_cancel)
  note run = secs_to_tm_def [of t tm, unfolded Let_def fix1 prod.case, unfolded fix2 prod.case parts wday march(4) [symmetric],
    unfolded parts if_not_P [OF assms]]
  let ?leap = "(if leap_year n then 1 else 0) :: int"
  show ?thesis
  proof (rule march_date [OF march(2,3)])
    fix m e
    assume loop: "month_loop march_months 0 r = Some (m, e)" and "0 \<le> m" "m \<le> 11"
      and early: "m < 10 \<Longrightarrow> valid_date (n + 2000) (m + 2) (e + 1) \<and>
         day_number (n + 2000) (m + 2) (e + 1) = march_day n + r + 11017 \<and>
         days_before_month (n + 2000) (m + 2) + e = r + 59 + ?leap \<and> r < 306"
      and late: "10 \<le> m \<Longrightarrow> valid_date (n + 2001) (m - 10) (e + 1) \<and>
         day_number (n + 2001) (m - 10) (e + 1) = march_day n + r + 11017 \<and>
         days_before_month (n + 2001) (m - 10) + e = r - 306 \<and> 306 \<le> r"
    have day: "march_day n + r + 11017 = t div 86400" using march(1) d0(3) days by simp
    show ?thesis
    proof (cases "m < 10")
      case True
      have "secs_to_tm t tm = Some (if INT_MIN \<le> (n + 2000) - 1900 \<and> (n + 2000) - 1900 \<le> INT_MAX
          then Some (date_fields t (n + 2000) (m + 2) (e + 1) tm) else None)"
        using True early [OF True] unfolding run loop clock_fields by (simp add: date_fields_def add.commute)
      then show ?thesis using early [OF True, unfolded day] by blast
    next
      case False
      then have "10 \<le> m" by simp
      have "secs_to_tm t tm = Some (if INT_MIN \<le> (n + 2001) - 1900 \<and> (n + 2001) - 1900 \<le> INT_MAX
          then Some (date_fields t (n + 2001) (m - 10) (e + 1) tm) else None)"
        using False late [OF \<open>10 \<le> m\<close>] unfolding run loop clock_fields by (simp add: date_fields_def add.commute)
      then show ?thesis using late [OF \<open>10 \<le> m\<close>, unfolded day] by blast
    qed
  qed
qed

text \<open>Times beyond the first check have years that do not fit.\<close>

lemma far_year:
  assumes "t < INT_MIN * 31622400 \<or> t > INT_MAX * 31622400" "valid_date y mon mday" "day_number y mon mday = t div 86400"
  shows "\<not> (INT_MIN \<le> y - 1900 \<and> y - 1900 \<le> INT_MAX)"
proof
  assume y: "INT_MIN \<le> y - 1900 \<and> y - 1900 \<le> INT_MAX"
  have "days_before_year 1970 = 719162" by (simp add: days_before_year_def)
  then have b: "days_before_year y - 719162 \<le> t div 86400" "t div 86400 < days_before_year (y + 1) - 719162"
    using day_number_bounds [OF assms(2)] assms(3) by simp_all
  have c: "146097 * (y - 1) - 1200 \<le> 400 * days_before_year y" "400 * days_before_year (y + 1) \<le> 146097 * y + 800"
    using days_before_year_bounds [of y] days_before_year_bounds [of "y + 1"] by simp_all
  obtain T where T: "t div 86400 = T" "T * 86400 \<le> t" "t < T * 86400 + 86400"
    using div_mult_mod_eq [of t 86400] pos_mod_bound [of 86400 t] pos_mod_sign [of 86400 t] by fastforce
  have low: "- 2147481748 \<le> y" and high: "y \<le> 2147485547" using y by simp_all
  from assms(1) show False
  proof
    assume "t < INT_MIN * 31622400"
    then have "T \<le> - 785979015168" using T(2) by simp
    then show False using b(1) c(1) low unfolding T(1) by simp
  next
    assume "t > INT_MAX * 31622400"
    then have "785979014802 \<le> T" using T(3) by simp
    then show False using b(2) c(2) high unfolding T(1) by simp
  qed
qed

lemma day_exists: "\<exists>y mon mday. valid_date y mon mday \<and> day_number y mon mday = n"
proof -
  define k d where kd: "k = (n - 11017) div 146097" "d = (n - 11017) mod 146097"
  have d0: "0 \<le> d" "d < 146097" "n = 146097 * k + d + 11017" by (simp_all add: kd)
  note march = march_parts [where k = k, OF d0(1,2) refl refl refl refl refl refl refl]
  show ?thesis
    by (rule march_date [OF march(2,3)]) (metis march(1) d0(3) linorder_not_less diff_add_cancel)
qed

lemma secs_to_tm_date:
  "\<exists>y mon mday. valid_date y mon mday \<and> day_number y mon mday = t div 86400 \<and>
    secs_to_tm t tm = Some (if INT_MIN \<le> y - 1900 \<and> y - 1900 \<le> INT_MAX then Some (date_fields t y mon mday tm) else None)"
proof (cases "t < INT_MIN * 31622400 \<or> t > INT_MAX * 31622400")
  case True
  obtain y mon mday where v: "valid_date y mon mday" "day_number y mon mday = t div 86400" using day_exists by blast
  then have "\<not> (INT_MIN \<le> y - 1900 \<and> y - 1900 \<le> INT_MAX)" using far_year [OF True] by blast
  then show ?thesis using v True by (intro exI [of _ y] exI [of _ mon] exI [of _ mday]) (simp add: secs_to_tm_def)
qed (rule secs_to_tm_days)

lemma secs_to_tm_of_date:
  assumes "valid_date y mon mday" "day_number y mon mday = t div 86400"
  shows "secs_to_tm t tm = Some (if INT_MIN \<le> y - 1900 \<and> y - 1900 \<le> INT_MAX then Some (date_fields t y mon mday tm) else None)"
  using secs_to_tm_date [of t tm] valid_date_unique [OF assms(1)] assms(2) by metis

section \<open>Fields to seconds\<close>

lemma month_to_secs_days:
  assumes "0 \<le> mon" "mon \<le> 11"
  shows "month_to_secs mon (leap_year y) = 86400 * days_before_month y mon"
proof -
  have "mon \<in> {0, 1, 2, 3, 4, 5, 6, 7, 8, 9, 10, 11}" using assms by simp presburger
  then show ?thesis by (auto simp: days_before_month_values month_to_secs_def secs_through_month_def)
qed

definition int_range :: "int \<Rightarrow> bool" where
  "int_range x \<longleftrightarrow> INT_MIN \<le> x \<and> x \<le> INT_MAX"

lemma tm_to_secs_days:
  assumes "int_range (tm_year tm)" "int_range (tm_mon tm)"
  shows "tm_to_secs tm = 86400 * day_number (tm_year tm + tm_mon tm div 12 + 1900) (tm_mon tm mod 12) (tm_mday tm) +
    3600 * tm_hour tm + 60 * tm_min tm + tm_sec tm"
proof -
  define year mon where ym: "year = tm_year tm + tm_mon tm div 12" "mon = tm_mon tm mod 12"
  have "(if tm_mon tm \<ge> 12 \<or> tm_mon tm < 0 then (let (adj, month) = fix_div (tm_mon tm) 12 in (month, tm_year tm + adj))
      else (tm_mon tm, tm_year tm)) = (mon, year)"
    by (auto simp: fix_div ym)
  moreover have "- 4611686018427387904 \<le> year" "year \<le> 4611686018427387904"
    using assms div_mult_mod_eq [of "tm_mon tm" 12] pos_mod_bound [of 12 "tm_mon tm"] pos_mod_sign [of 12 "tm_mon tm"]
    unfolding ym int_range_def by linarith+
  then have "year_to_secs year = (86400 * day_number (year + 1900) 0 1, leap_year (year + 1900))" by (rule year_to_secs_spec)
  moreover have "month_to_secs mon (leap_year (year + 1900)) = 86400 * days_before_month (year + 1900) mon"
    by (rule month_to_secs_days) (use ym pos_mod_bound [of 12 "tm_mon tm"] in auto)
  moreover have "day_number y 0 1 + days_before_month y mon + (tm_mday tm - 1) = day_number y mon (tm_mday tm)"
    if "y = year + 1900" for y
    by (simp add: day_number_def days_before_month_values)
  from this [OF refl] have "86400 * day_number (year + 1900) 0 1 + 86400 * days_before_month (year + 1900) mon +
      86400 * (tm_mday tm - 1) = 86400 * day_number (year + 1900) mon (tm_mday tm)" by (simp add: algebra_simps)
  ultimately show ?thesis unfolding tm_to_secs_def ym(1) [symmetric] ym(2) [symmetric]
    by (simp add: Let_def del: distrib_left_numeral right_diff_distrib_numeral)
qed

lemma time_of_day: "86400 * (t div 86400) + 3600 * (t mod 86400 div 3600) + 60 * (t mod 3600 div 60) + t mod 60 = t" for t :: int
proof -
  have "t mod 86400 mod 3600 = t mod 3600" "t mod 3600 mod 60 = t mod 60" by (rule mod_mod_cancel, simp)+
  then show ?thesis
    using mult_div_mod_eq [of 86400 t] mult_div_mod_eq [of 3600 "t mod 86400"] mult_div_mod_eq [of 60 "t mod 3600"]
    by (simp only: algebra_simps)
qed

abbreviation as_utc :: "tm \<Rightarrow> tm" where
  "as_utc tm \<equiv> tm\<lparr>tm_isdst := 0, tm_gmtoff := 0, tm_zone := utc\<rparr>"

lemma date_fields_utc: "as_utc (date_fields t y mon mday tm) = as_utc (date_fields t y mon mday tm')"
  by (simp add: date_fields_def)

lemma tm_to_secs_fields:
  assumes "valid_date (year + 1900) mon mday" "INT_MIN \<le> year" "year \<le> INT_MAX"
    "tm_year d = year" "tm_mon d = mon" "tm_mday d = mday" "tm_hour d = h" "tm_min d = m" "tm_sec d = s"
  shows "tm_to_secs d = 86400 * day_number (year + 1900) mon mday + 3600 * h + 60 * m + s"
proof -
  have "int_range mon" "mon div 12 = 0" "mon mod 12 = mon" using assms(1) by (auto simp: valid_date_def int_range_def)
  then show ?thesis using tm_to_secs_days [of d] assms(2-9) by (simp add: int_range_def)
qed

lemma utc_fields:
  assumes "d = as_utc (tm\<lparr>tm_year := a, tm_mon := b, tm_mday := c, tm_wday := w, tm_yday := yd, tm_hour := h, tm_min := m, tm_sec := s\<rparr>)"
  shows "tm_year d = a" "tm_mon d = b" "tm_mday d = c" "tm_hour d = h" "tm_min d = m" "tm_sec d = s"
  by (simp_all add: assms)

lemma tm_to_secs_of_date:
  assumes "valid_date y mon mday" "day_number y mon mday = t div 86400" "INT_MIN \<le> y - 1900" "y - 1900 \<le> INT_MAX"
  shows "tm_to_secs (as_utc (date_fields t y mon mday tm)) = t"
proof -
  have "tm_to_secs (as_utc (date_fields t y mon mday tm)) = 86400 * day_number (y - 1900 + 1900) mon mday +
      3600 * (t mod 86400 div 3600) + 60 * (t mod 3600 div 60) + t mod 60"
    unfolding date_fields_def
    by (rule tm_to_secs_fields [OF _ assms(3,4)], simp only: diff_add_cancel assms(1)) (rule utc_fields [OF refl])+
  then show ?thesis by (simp only: date_fields_def diff_add_cancel assms(2) time_of_day)
qed

lemma timegm_of_date:
  assumes "valid_date y mon mday" "day_number y mon mday = tm_to_secs tm div 86400" "INT_MIN \<le> y - 1900" "y - 1900 \<le> INT_MAX"
  shows "timegm new tm = Some (Inr (tm_to_secs tm, as_utc (date_fields (tm_to_secs tm) y mon mday new)))"
  using secs_to_tm_of_date [OF assms(1,2)] assms(3,4) by (simp add: timegm_def Let_def)

lemma unique_date:
  assumes "valid_date y mon mday" "day_number y mon mday = n" "P y mon mday"
  shows "\<exists>!(y, mon, mday). valid_date y mon mday \<and> day_number y mon mday = n \<and> P y mon mday"
proof (rule ex1I [of _ "(y, mon, mday)"])
  fix x assume "case x of (y, mon, mday) \<Rightarrow> valid_date y mon mday \<and> day_number y mon mday = n \<and> P y mon mday"
  then show "x = (y, mon, mday)"
    using valid_date_unique [OF _ assms(1), unfolded assms(2)] by (cases x) (simp only: prod.case, blast)
qed (use assms in simp)

lemma gmtime_cases:
  obtains (ok) y mon mday where "valid_date y mon mday" "day_number y mon mday = t div 86400" "INT_MIN \<le> y - 1900" "y - 1900 \<le> INT_MAX"
      "gmtime_r t tm = Some (Inr (as_utc (date_fields t y mon mday tm)))"
    | (overflow) y mon mday where "valid_date y mon mday" "day_number y mon mday = t div 86400"
      "\<not> (INT_MIN \<le> y - 1900 \<and> y - 1900 \<le> INT_MAX)" "gmtime_r t tm = Some (Inl EOVERFLOW)"
  using secs_to_tm_date [of t tm] by (auto simp: gmtime_r_def split: if_splits)

section \<open>Properties\<close>

text \<open>C18.  gmtime_r computes the proleptic Gregorian calendar: for every time there is exactly one date whose day number
  is the day of the time, and the fields are that date, the day of the week and of the year, and the
  time of day; EOVERFLOW is returned exactly when the year does not fit an int.\<close>

theorem gmtime_spec:
  "\<exists>!(y, mon, mday). valid_date y mon mday \<and> day_number y mon mday = t div 86400 \<and>
     gmtime_r t tm = Some (if INT_MIN \<le> y - 1900 \<and> y - 1900 \<le> INT_MAX
       then Inr \<lparr>tm_sec = t mod 60, tm_min = t mod 3600 div 60, tm_hour = t mod 86400 div 3600, tm_mday = mday, tm_mon = mon,
         tm_year = y - 1900, tm_wday = (4 + t div 86400) mod 7, tm_yday = days_before_month y mon + mday - 1,
         tm_isdst = 0, tm_gmtoff = 0, tm_zone = utc\<rparr>
       else Inl EOVERFLOW)"
proof -
  have "as_utc (date_fields t y mon mday tm) = \<lparr>tm_sec = t mod 60, tm_min = t mod 3600 div 60, tm_hour = t mod 86400 div 3600,
      tm_mday = mday, tm_mon = mon, tm_year = y - 1900, tm_wday = (4 + t div 86400) mod 7,
      tm_yday = days_before_month y mon + mday - 1, tm_isdst = 0, tm_gmtoff = 0, tm_zone = utc\<rparr>" for y mon mday
    by (simp add: date_fields_def)
  note fields = this
  show ?thesis
  proof (cases rule: gmtime_cases [of t tm])
    case (ok y mon mday)
    show ?thesis by (rule unique_date [OF ok(1,2)]) (simp only: ok fields simp_thms if_True)
  next
    case (overflow y mon mday)
    show ?thesis by (rule unique_date [OF overflow(1,2)]) (simp only: overflow simp_thms if_False)
  qed
qed

lemma time_parts:
  fixes n h m s :: int
  assumes "0 \<le> h" "h < 24" "0 \<le> m" "m < 60" "0 \<le> s" "s < 60" "t = 86400 * n + 3600 * h + 60 * m + s"
  shows "t div 86400 = n" "t mod 86400 div 3600 = h" "t mod 3600 div 60 = m" "t mod 60 = s"
proof -
  have unit: "x div b = a" "x mod b = r" if "x = b * a + r" "0 \<le> r" "r < b" for x a b r :: int
    using that by simp_all
  have "t mod 86400 = 3600 * h + (60 * m + s)" by (rule unit(2) [of _ _ n]) (use assms in simp_all)
  then show "t mod 86400 div 3600 = h" by (rule unit(1)) (use assms in simp_all)
  have "t mod 3600 = 60 * m + s" by (rule unit(2) [of _ _ "24 * n + h"]) (use assms in simp_all)
  then show "t mod 3600 div 60 = m" by (rule unit(1)) (use assms in simp_all)
  show "t mod 60 = s" by (rule unit(2) [of _ _ "1440 * n + 60 * h + m"]) (use assms in simp_all)
  show "t div 86400 = n" by (rule unit(1) [of _ _ _ "3600 * h + (60 * m + s)"]) (use assms in simp_all)
qed

text \<open>C19.  timegm inverts gmtime_r, and gmtime_r what timegm makes of a valid date and time of day.\<close>

theorem timegm_gmtime:
  "(\<forall>tm'. gmtime_r t tm = Some (Inr tm') \<longrightarrow> timegm new tm' = Some (Inr (t, tm'))) \<and>
   (\<forall>d :: tm. valid_date (tm_year d + 1900) (tm_mon d) (tm_mday d) \<and> int_range (tm_year d) \<and> 0 \<le> tm_hour d \<and> tm_hour d < 24 \<and>
       0 \<le> tm_min d \<and> tm_min d < 60 \<and> 0 \<le> tm_sec d \<and> tm_sec d < 60 \<longrightarrow>
     (\<exists>t d'. timegm new d = Some (Inr (t, d')) \<and> gmtime_r t tm = Some (Inr d') \<and>
        tm_year d' = tm_year d \<and> tm_mon d' = tm_mon d \<and> tm_mday d' = tm_mday d \<and> tm_hour d' = tm_hour d \<and>
        tm_min d' = tm_min d \<and> tm_sec d' = tm_sec d))"
proof (intro conjI allI impI)
  fix tm' assume "gmtime_r t tm = Some (Inr tm')"
  then show "timegm new tm' = Some (Inr (t, tm'))"
  proof (cases rule: gmtime_cases [of t tm])
    case (ok y mon mday)
    then have tm': "tm' = as_utc (date_fields t y mon mday tm)" using \<open>gmtime_r t tm = Some (Inr tm')\<close> by simp
    note s = tm_to_secs_of_date [OF ok(1-4), of tm, folded tm']
    show ?thesis using timegm_of_date [of y mon mday tm' new, unfolded s, OF ok(1-4)]
      unfolding tm' date_fields_utc [of t y mon mday new tm] .
  qed simp
next
  fix d :: tm
  assume d: "valid_date (tm_year d + 1900) (tm_mon d) (tm_mday d) \<and> int_range (tm_year d) \<and> 0 \<le> tm_hour d \<and> tm_hour d < 24 \<and>
    0 \<le> tm_min d \<and> tm_min d < 60 \<and> 0 \<le> tm_sec d \<and> tm_sec d < 60"
  define n where "n = day_number (tm_year d + 1900) (tm_mon d) (tm_mday d)"
  have t: "tm_to_secs d = 86400 * n + 3600 * tm_hour d + 60 * tm_min d + tm_sec d"
    unfolding n_def by (rule tm_to_secs_fields) (use d in \<open>simp_all add: int_range_def\<close>)
  have tod: "0 \<le> tm_hour d" "tm_hour d < 24" "0 \<le> tm_min d" "tm_min d < 60" "0 \<le> tm_sec d" "tm_sec d < 60" using d by simp_all
  note parts = time_parts [OF tod t]
  have v: "valid_date (tm_year d + 1900) (tm_mon d) (tm_mday d)" "INT_MIN \<le> tm_year d + 1900 - 1900" "tm_year d + 1900 - 1900 \<le> INT_MAX"
    "day_number (tm_year d + 1900) (tm_mon d) (tm_mday d) = tm_to_secs d div 86400"
    using d parts(1) by (simp_all add: int_range_def n_def)
  define d' where "d' = as_utc (date_fields (tm_to_secs d) (tm_year d + 1900) (tm_mon d) (tm_mday d) tm)"
  have "timegm new d = Some (Inr (tm_to_secs d, d'))"
    using timegm_of_date [OF v(1,4,2,3), of new] unfolding d'_def date_fields_utc [of _ _ _ _ new tm] .
  moreover have "gmtime_r (tm_to_secs d) tm = Some (Inr d')"
    using secs_to_tm_of_date [OF v(1,4), of tm] v(2,3) by (simp add: gmtime_r_def d'_def)
  moreover have "tm_year d' = tm_year d \<and> tm_mon d' = tm_mon d \<and> tm_mday d' = tm_mday d \<and> tm_hour d' = tm_hour d \<and>
      tm_min d' = tm_min d \<and> tm_sec d' = tm_sec d"
    unfolding d'_def date_fields_def by (simp add: parts)
  ultimately show "\<exists>t d'. timegm new d = Some (Inr (t, d')) \<and> gmtime_r t tm = Some (Inr d') \<and>
      tm_year d' = tm_year d \<and> tm_mon d' = tm_mon d \<and> tm_mday d' = tm_mday d \<and> tm_hour d' = tm_hour d \<and>
      tm_min d' = tm_min d \<and> tm_sec d' = tm_sec d" by blast
qed

definition sample_tm :: tm where
  "sample_tm = \<lparr>tm_sec = 7, tm_min = 6, tm_hour = 5, tm_mday = 29, tm_mon = 1, tm_year = 100, tm_wday = 0, tm_yday = 0,
     tm_isdst = 0, tm_gmtoff = 0, tm_zone = []\<rparr>"

theorem timegm_gmtime_witness:
  "\<exists>t d'. timegm sample_tm sample_tm = Some (Inr (t, d')) \<and> tm_year d' = 100 \<and> tm_mon d' = 1 \<and> tm_mday d' = 29"
proof -
  have "valid_date (tm_year sample_tm + 1900) (tm_mon sample_tm) (tm_mday sample_tm) \<and> int_range (tm_year sample_tm) \<and>
      0 \<le> tm_hour sample_tm \<and> tm_hour sample_tm < 24 \<and> 0 \<le> tm_min sample_tm \<and> tm_min sample_tm < 60 \<and>
      0 \<le> tm_sec sample_tm \<and> tm_sec sample_tm < 60"
    by (simp add: sample_tm_def valid_date_def int_range_def month_days_def leap_year_def)
  from timegm_gmtime [THEN conjunct2, rule_format, OF this, of sample_tm sample_tm] obtain t d' where
    "timegm sample_tm sample_tm = Some (Inr (t, d'))" "tm_year d' = tm_year sample_tm" "tm_mon d' = tm_mon sample_tm"
    "tm_mday d' = tm_mday sample_tm" by blast
  then show ?thesis by (auto simp: sample_tm_def)
qed

text \<open>No broken-down time makes the arithmetic of timegm overflow: if the fields are ints its time fits 64 bits,
  out-of-range months and days counted on into other years, and where timegm succeeds its result is
  already normalised.\<close>

theorem timegm_bounds:
  assumes "\<forall>x \<in> {tm_year d, tm_mon d, tm_mday d, tm_hour d, tm_min d, tm_sec d}. int_range x"
  shows "- (2 ^ 63) \<le> tm_to_secs d \<and> tm_to_secs d < 2 ^ 63 \<and>
    tm_to_secs d = 86400 * day_number (tm_year d + tm_mon d div 12 + 1900) (tm_mon d mod 12) (tm_mday d) +
      3600 * tm_hour d + 60 * tm_min d + tm_sec d \<and>
    (timegm new d = Some (Inl EOVERFLOW) \<or>
      (\<exists>d'. timegm new d = Some (Inr (tm_to_secs d, d')) \<and> valid_date (tm_year d' + 1900) (tm_mon d') (tm_mday d') \<and>
         0 \<le> tm_hour d' \<and> tm_hour d' < 24 \<and> 0 \<le> tm_min d' \<and> tm_min d' < 60 \<and> 0 \<le> tm_sec d' \<and> tm_sec d' < 60 \<and>
         timegm new d' = Some (Inr (tm_to_secs d, d'))))"
proof (intro conjI)
  define y mon where ym: "y = tm_year d + tm_mon d div 12 + 1900" "mon = tm_mon d mod 12"
  have r: "int_range (tm_year d)" "int_range (tm_mon d)" using assms by simp_all
  show secs: "tm_to_secs d = 86400 * day_number (tm_year d + tm_mon d div 12 + 1900) (tm_mon d mod 12) (tm_mday d) +
      3600 * tm_hour d + 60 * tm_min d + tm_sec d" by (rule tm_to_secs_days [OF r])
  have "mon \<in> {0, 1, 2, 3, 4, 5, 6, 7, 8, 9, 10, 11}"
    using pos_mod_bound [of 12 "tm_mon d"] pos_mod_sign [of 12 "tm_mon d"] unfolding ym(2) by simp presburger
  then have m: "0 \<le> days_before_month y mon" "days_before_month y mon \<le> 335" by (auto simp: days_before_month_values)
  have "- 4000000000 \<le> y" "y \<le> 4000000000"
    using r div_mult_mod_eq [of "tm_mon d" 12] pos_mod_bound [of 12 "tm_mon d"] pos_mod_sign [of 12 "tm_mon d"]
    unfolding ym int_range_def by linarith+
  then have "- 4000000000000 \<le> days_before_year y" "days_before_year y \<le> 4000000000000"
    using days_before_year_bounds [of y] by simp_all
  moreover have "days_before_year 1970 = 719162" by (simp add: days_before_year_def)
  ultimately have n: "- 5000000000000 \<le> day_number y mon (tm_mday d)" "day_number y mon (tm_mday d) \<le> 5000000000000"
    using m assms unfolding day_number_def by (simp_all add: int_range_def)
  show "- (2 ^ 63) \<le> tm_to_secs d" "tm_to_secs d < 2 ^ 63"
    unfolding secs ym [symmetric] using n assms by (simp_all add: int_range_def)
  obtain y mon mday where date: "valid_date y mon mday" "day_number y mon mday = tm_to_secs d div 86400"
    "secs_to_tm (tm_to_secs d) new = Some (if INT_MIN \<le> y - 1900 \<and> y - 1900 \<le> INT_MAX
       then Some (date_fields (tm_to_secs d) y mon mday new) else None)"
    using secs_to_tm_date [of "tm_to_secs d" new] by blast
  show "timegm new d = Some (Inl EOVERFLOW) \<or>
      (\<exists>d'. timegm new d = Some (Inr (tm_to_secs d, d')) \<and> valid_date (tm_year d' + 1900) (tm_mon d') (tm_mday d') \<and>
         0 \<le> tm_hour d' \<and> tm_hour d' < 24 \<and> 0 \<le> tm_min d' \<and> tm_min d' < 60 \<and> 0 \<le> tm_sec d' \<and> tm_sec d' < 60 \<and>
         timegm new d' = Some (Inr (tm_to_secs d, d')))"
  proof (cases "INT_MIN \<le> y - 1900 \<and> y - 1900 \<le> INT_MAX")
    case False
    have "timegm new d = Some (Inl EOVERFLOW)" unfolding timegm_def Let_def date(3) if_not_P [OF False] by simp
    then show ?thesis by blast
  next
    case True
    define d' where "d' = as_utc (date_fields (tm_to_secs d) y mon mday new)"
    have s: "tm_to_secs d' = tm_to_secs d"
      unfolding d'_def by (rule tm_to_secs_of_date [OF date(1,2)]) (use True in simp_all)
    have "timegm new d = Some (Inr (tm_to_secs d, d'))"
      unfolding d'_def by (rule timegm_of_date [OF date(1,2)]) (use True in simp_all)
    moreover have "timegm new d' = Some (Inr (tm_to_secs d, d'))"
      using timegm_of_date [of y mon mday d' new, unfolded s, OF date(1,2)] True d'_def by simp
    moreover have "0 \<le> x mod 86400 div 3600" "x mod 86400 div 3600 < 24" "0 \<le> x mod 3600 div 60" "x mod 3600 div 60 < 60" for x :: int
      by (simp_all add: pos_imp_zdiv_nonneg_iff div_below)
    then have "0 \<le> tm_hour d' \<and> tm_hour d' < 24 \<and> 0 \<le> tm_min d' \<and> tm_min d' < 60"
      by (simp add: d'_def date_fields_def)
    moreover have "0 \<le> tm_sec d' \<and> tm_sec d' < 60" by (simp add: d'_def date_fields_def)
    moreover have "valid_date (tm_year d' + 1900) (tm_mon d') (tm_mday d')" using date(1) by (simp add: d'_def date_fields_def)
    ultimately show ?thesis by blast
  qed
qed

theorem timegm_bounds_witness:
  "tm_to_secs (sample_tm\<lparr>tm_mon := -11, tm_mday := 400\<rparr>) = 86400 * day_number 1999 1 400 + 18367"
  using timegm_bounds [of "sample_tm\<lparr>tm_mon := -11, tm_mday := 400\<rparr>" sample_tm]
  by (simp add: sample_tm_def int_range_def)

end
