(* ===== verification/Environ.thy ===== *)
theory Environ
  imports Prelude
begin

text \<open>
  The environment variables (libc-bottom-half/sources/__wasilibc_initialize_environ.c and
  libc-top-half/musl/src/env: getenv.c, setenv.c, putenv.c, unsetenv.c, clearenv.c).

  A pointer is a \<open>nat\<close>; \<open>str_at\<close> is the live strings: an address where there is none, because it was
  never handed out or was freed, has \<open>None\<close>.  Reading such an address, and freeing it, is the
  outcome \<open>Bad_string\<close> of an operation.  Which strings setenv has allocated is kept by the code in
  \<open>env_alloced\<close>.  The arrays of pointers have addresses too, because putenv compares them.  What
  malloc and realloc return is an argument of each operation, and the imports of the host are a
  record.
\<close>

section \<open>State\<close>

datatype environ = Uninitialized | Null_environ | Environ nat "nat list"

record env =
  environ :: environ
  str_at :: "nat \<Rightarrow> cstring option"
  env_alloced :: "nat option list"
  oldenv :: "nat option"
  dead_arrays :: "nat set"

text \<open>How an operation ends: the process exits, the outcome is undefined, or it returns.\<close>

datatype 'a env_result = Exits nat | Bad_string | Returns 'a

fun and_then :: "'a env_result \<Rightarrow> ('a \<Rightarrow> 'b env_result) \<Rightarrow> 'b env_result" where
  "and_then (Exits c) f = Exits c"
| "and_then Bad_string f = Bad_string"
| "and_then (Returns x) f = f x"

lemma and_then_cong [fundef_cong]:
  "r = r' \<Longrightarrow> (\<And>x. r' = Returns x \<Longrightarrow> f x = f' x) \<Longrightarrow> and_then r f = and_then r' f'"
  by (cases r') simp_all

fun env_array :: "environ \<Rightarrow> nat option" where
  "env_array (Environ a ps) = Some a"
| "env_array _ = None"

fun env_ptrs :: "environ \<Rightarrow> nat list" where
  "env_ptrs (Environ a ps) = ps"
| "env_ptrs _ = []"

definition read_string :: "nat \<Rightarrow> env \<Rightarrow> cstring env_result" where
  "read_string p st = (case str_at st p of None \<Rightarrow> Bad_string | Some s \<Rightarrow> Returns s)"

text \<open>free: a freed string is gone, and freeing it again is undefined.\<close>

definition free_string :: "nat option \<Rightarrow> env \<Rightarrow> env env_result" where
  "free_string p st = (case p of None \<Rightarrow> Returns st
     | Some q \<Rightarrow> if str_at st q = None then Bad_string else Returns (st\<lparr>str_at := (str_at st)(q := None)\<rparr>))"

definition free_array :: "nat option \<Rightarrow> env \<Rightarrow> env" where
  "free_array p st = (case p of None \<Rightarrow> st | Some q \<Rightarrow> st\<lparr>dead_arrays := insert q (dead_arrays st)\<rparr>)"

section \<open>Initialization\<close>

text \<open>
  The imports environ_sizes_get and environ_get, the latter with the address it gives each string, and
  the results of malloc and calloc.
\<close>

record env_host =
  eh_sizes :: "errno + nat \<times> nat"
  eh_buf :: "nat option"
  eh_array :: "nat option"
  eh_get :: "errno + (nat \<times> cstring) list"

abbreviation EX_SOFTWARE :: nat where "EX_SOFTWARE \<equiv> 70"
abbreviation EX_OSERR :: nat where "EX_OSERR \<equiv> 71"

text \<open>The static array empty_environ.\<close>

abbreviation empty_environ :: nat where "empty_environ \<equiv> 0"

definition initialize_environ :: "env_host \<Rightarrow> env \<Rightarrow> env env_result" where
  "initialize_environ H st =
     (case eh_sizes H of
        Inl e \<Rightarrow> Exits EX_OSERR
      | Inr (environ_count, environ_buf_size) \<Rightarrow>
          if environ_count = 0 then Returns (st\<lparr>environ := Environ empty_environ []\<rparr>)
          else if szadd environ_count 1 = 0 then Exits EX_SOFTWARE
          else (case eh_buf H of
              None \<Rightarrow> Exits EX_SOFTWARE
            | Some buf \<Rightarrow>
                (case eh_array H of
                   None \<Rightarrow> Exits EX_SOFTWARE
                 | Some a \<Rightarrow>
                     (case eh_get H of
                        Inl e \<Rightarrow> Exits EX_OSERR
                      | Inr vars \<Rightarrow>
                          Returns (st\<lparr>environ := Environ a (map fst vars),
                            str_at := (\<lambda>p. case map_of vars p of None \<Rightarrow> str_at st p | Some s \<Rightarrow> Some s)\<rparr>)))))"

definition ensure_environ :: "env_host \<Rightarrow> env \<Rightarrow> env env_result" where
  "ensure_environ H st = (if environ st = Uninitialized then initialize_environ H st else Returns st)"

section \<open>getenv\<close>

text \<open>\<open>__strchrnul(s, '=') - s\<close>\<close>

definition name_len :: "cstring \<Rightarrow> nat" where
  "name_len s = length (takeWhile (\<lambda>c. c \<noteq> CHR ''='') s)"

text \<open>\<open>!strncmp(name, e, l) && l[e] == '='\<close>\<close>

definition names :: "cstring \<Rightarrow> nat \<Rightarrow> cstring \<Rightarrow> bool" where
  "names name l e \<longleftrightarrow> take l name = take l e \<and> l < length e \<and> e ! l = CHR ''=''"

fun find_string :: "(nat \<Rightarrow> cstring option) \<Rightarrow> (cstring \<Rightarrow> bool) \<Rightarrow> nat list \<Rightarrow> nat option env_result" where
  "find_string tx P [] = Returns None"
| "find_string tx P (e # es) =
     (case tx e of None \<Rightarrow> Bad_string | Some x \<Rightarrow> if P x then Returns (Some e) else find_string tx P es)"

text \<open>The result is the pointer \<open>*e + l + 1\<close>, as a string and an offset.\<close>

definition getenv :: "env_host \<Rightarrow> cstring \<Rightarrow> env \<Rightarrow> ((nat \<times> nat) option \<times> env) env_result" where
  "getenv H name st =
     and_then (ensure_environ H st) (\<lambda>st.
       let l = name_len name in
       if l \<noteq> 0 \<and> l = length name
       then and_then (find_string (str_at st) (names name l) (env_ptrs (environ st)))
         (\<lambda>e. Returns (map_option (\<lambda>e. (e, l + 1)) e, st))
       else Returns (None, st))"

section \<open>Allocated strings\<close>

text \<open>
  The loop of __env_rm_add: the entries, the string that is still to be recorded, and whether the old
  one was found.
\<close>

fun rm_add_loop :: "nat option list \<Rightarrow> nat option \<Rightarrow> nat option \<Rightarrow> nat option list \<times> nat option \<times> bool" where
  "rm_add_loop [] old new = ([], new, False)"
| "rm_add_loop (e # es) old new =
     (if e = old then (new # es, None, True)
      else if e = None \<and> new \<noteq> None then (case rm_add_loop es old None of (es, n, found) \<Rightarrow> (new # es, n, found))
      else (case rm_add_loop es old new of (es, n, found) \<Rightarrow> (e # es, n, found)))"

text \<open>\<open>track\<close> is whether realloc succeeds.\<close>

definition env_rm_add :: "bool \<Rightarrow> nat option \<Rightarrow> nat option \<Rightarrow> env \<Rightarrow> env env_result" where
  "env_rm_add track old new st =
     (case rm_add_loop (env_alloced st) old new of
        (es, new, found) \<Rightarrow>
          let st = st\<lparr>env_alloced := es\<rparr> in
          if found then free_string old st
          else if new = None then Returns st
          else if \<not> track then Returns st
          else Returns (st\<lparr>env_alloced := es @ [new]\<rparr>))"

section \<open>putenv, setenv, unsetenv, clearenv\<close>

text \<open>The index of the first variable with the same name.\<close>

fun putenv_index :: "cstring \<Rightarrow> nat \<Rightarrow> (nat \<Rightarrow> cstring option) \<Rightarrow> nat list \<Rightarrow> nat option env_result" where
  "putenv_index s l tx [] = Returns None"
| "putenv_index s l tx (e # es) =
     (case tx e of None \<Rightarrow> Bad_string
      | Some x \<Rightarrow> if take (l + 1) s = take (l + 1) x then Returns (Some 0)
          else and_then (putenv_index s l tx es) (\<lambda>i. Returns (map_option Suc i)))"

text \<open>
  \<open>arr\<close> is what realloc or malloc return for the array, \<open>r\<close> the string that setenv has allocated.
  The result \<open>False\<close> is -1.
\<close>

definition putenv_at :: "nat option \<Rightarrow> bool \<Rightarrow> nat \<Rightarrow> nat \<Rightarrow> nat option \<Rightarrow> env \<Rightarrow> (bool \<times> env) env_result" where
  "putenv_at arr track s l r st =
     (let ps = env_ptrs (environ st) in
      and_then (read_string s st) (\<lambda>text.
      and_then (putenv_index text l (str_at st) ps) (\<lambda>found.
      case found of
        Some i \<Rightarrow>
          (let tmp = ps ! i;
               st = st\<lparr>environ := Environ (the (env_array (environ st))) (ps[i := s])\<rparr> in
           and_then (env_rm_add track (Some tmp) r st) (\<lambda>st. Returns (True, st)))
      | None \<Rightarrow>
          (case arr of
             None \<Rightarrow> and_then (free_string r st) (\<lambda>st. Returns (False, st))
           | Some a \<Rightarrow>
               (let st = free_array (oldenv st) st;
                    st = st\<lparr>environ := Environ a (ps @ [s]), oldenv := Some a, dead_arrays := dead_arrays st - {a}\<rparr> in
                and_then (if r \<noteq> None then env_rm_add track None r st else Returns st)
                  (\<lambda>st. Returns (True, st)))))))"

text \<open>The loop of unsetenv: the entries that are kept.\<close>

fun unsetenv_loop :: "bool \<Rightarrow> cstring \<Rightarrow> nat \<Rightarrow> nat list \<Rightarrow> env \<Rightarrow> (nat list \<times> env) env_result" where
  "unsetenv_loop track name l [] st = Returns ([], st)"
| "unsetenv_loop track name l (e # es) st =
     and_then (read_string e st) (\<lambda>x.
       if names name l x then and_then (env_rm_add track (Some e) None st) (\<lambda>st. unsetenv_loop track name l es st)
       else and_then (unsetenv_loop track name l es st) (\<lambda>(kept, st). Returns (e # kept, st)))"

definition unsetenv :: "env_host \<Rightarrow> bool \<Rightarrow> cstring \<Rightarrow> env \<Rightarrow> ((errno + unit) \<times> env) env_result" where
  "unsetenv H track name st =
     (let l = name_len name in
      if l = 0 \<or> l \<noteq> length name then Returns (Inl EINVAL, st)
      else and_then (ensure_environ H st) (\<lambda>st.
        case environ st of
          Environ a ps \<Rightarrow> and_then (unsetenv_loop track name l ps st)
            (\<lambda>(kept, st). Returns (Inr (), st\<lparr>environ := Environ a kept\<rparr>))
        | _ \<Rightarrow> Returns (Inr (), st)))"

text \<open>A failing putenv leaves errno to malloc: ENOMEM.\<close>

definition putenv_result :: "(bool \<times> env) env_result \<Rightarrow> ((errno + unit) \<times> env) env_result" where
  "putenv_result r = and_then r (\<lambda>(ok, st). Returns (if ok then Inr () else Inl ENOMEM, st))"

definition putenv :: "env_host \<Rightarrow> nat option \<Rightarrow> bool \<Rightarrow> nat \<Rightarrow> env \<Rightarrow> ((errno + unit) \<times> env) env_result" where
  "putenv H arr track s st =
     and_then (read_string s st) (\<lambda>text.
       let l = name_len text in
       if l = 0 \<or> l = length text then unsetenv H track text st
       else and_then (ensure_environ H st) (\<lambda>st. putenv_result (putenv_at arr track s l None st)))"

text \<open>\<open>new\<close> is what malloc returns for the string; \<open>var\<close> is not NULL.\<close>

definition setenv :: "env_host \<Rightarrow> nat option \<Rightarrow> nat option \<Rightarrow> bool \<Rightarrow> cstring \<Rightarrow> cstring \<Rightarrow> bool \<Rightarrow> env \<Rightarrow>
    ((errno + unit) \<times> env) env_result" where
  "setenv H new arr track var value overwrite st =
     (let l1 = name_len var in
      if l1 = 0 \<or> l1 \<noteq> length var then Returns (Inl EINVAL, st)
      else and_then (if overwrite then Returns (None, st) else getenv H var st) (\<lambda>(found, st).
        if found \<noteq> None then Returns (Inr (), st)
        else (case new of
            None \<Rightarrow> Returns (Inl ENOMEM, st)
          | Some s \<Rightarrow>
              (let st = st\<lparr>str_at := (str_at st)(s \<mapsto> var @ CHR ''='' # value)\<rparr> in
               and_then (ensure_environ H st) (\<lambda>st. putenv_result (putenv_at arr track s l1 (Some s) st))))))"

text \<open>The loop of clearenv.\<close>

fun rm_all :: "bool \<Rightarrow> nat list \<Rightarrow> env \<Rightarrow> env env_result" where
  "rm_all track [] st = Returns st"
| "rm_all track (e # es) st = and_then (env_rm_add track (Some e) None st) (\<lambda>st. rm_all track es st)"

definition clearenv :: "env_host \<Rightarrow> bool \<Rightarrow> env \<Rightarrow> env env_result" where
  "clearenv H track st =
     and_then (ensure_environ H st) (\<lambda>st. rm_all track (env_ptrs (environ st)) (st\<lparr>environ := Null_environ\<rparr>))"

definition deinitialize_environ :: "env_host \<Rightarrow> bool \<Rightarrow> env \<Rightarrow> env env_result" where
  "deinitialize_environ H track st =
     (if environ st \<noteq> Uninitialized
      then and_then (clearenv H track st) (\<lambda>st. Returns (st\<lparr>environ := Uninitialized\<rparr>))
      else Returns st)"

end
