(* ===== verification/Environ_Theorems.thy ===== *)
theory Environ_Theorems
  imports Environ "HOL-Library.Multiset"
begin

text \<open>
  The environment as a finite map from names to values, which setenv, putenv, unsetenv and clearenv
  update, and the ownership of the strings that setenv allocates: a string is freed once, and never
  while the environment holds it.
\<close>

section \<open>Names and values\<close>

definition name_ok :: "cstring \<Rightarrow> bool" where
  "name_ok name \<longleftrightarrow> name \<noteq> [] \<and> CHR ''='' \<notin> set name"

lemma name_len_ok: "name_len name \<noteq> 0 \<and> name_len name = length name \<longleftrightarrow> name_ok name"
proof -
  have "length (takeWhile (\<lambda>c. c \<noteq> CHR ''='') name) = length name \<longleftrightarrow> CHR ''='' \<notin> set name"
    by (induction name) (auto simp: Suc_le_eq dest: le_imp_less_Suc)
  then show ?thesis by (auto simp: name_len_def name_ok_def)
qed

definition binds :: "cstring \<Rightarrow> cstring \<Rightarrow> bool" where
  "binds name e \<longleftrightarrow> (\<exists>v. e = name @ CHR ''='' # v)"

lemma names_binds: "names name (length name) e \<longleftrightarrow> binds name e"
proof
  assume n: "names name (length name) e"
  then have "e = take (length name) e @ e ! length name # drop (Suc (length name)) e"
    unfolding names_def by (metis id_take_nth_drop)
  then show "binds name e" using n unfolding binds_def names_def by (metis take_all_iff le_refl)
qed (auto simp: binds_def names_def)

lemma binds_name: "binds name e \<Longrightarrow> CHR ''='' \<notin> set name \<Longrightarrow> takeWhile (\<lambda>c. c \<noteq> CHR ''='') e = name"
  by (auto simp: binds_def takeWhile_append)

lemma binds_unique: "binds name e \<Longrightarrow> binds name' e \<Longrightarrow> name_ok name \<Longrightarrow> name_ok name' \<Longrightarrow> name = name'"
  using binds_name by (metis name_ok_def)

text \<open>
  The environment as a map: the first text of the list that binds the name.  A string that is not live
  binds nothing.
\<close>

fun lookup :: "cstring \<Rightarrow> cstring option list \<Rightarrow> cstring option" where
  "lookup name [] = None"
| "lookup name (x # xs) = (case x of Some e \<Rightarrow> if binds name e then Some (drop (Suc (length name)) e) else lookup name xs
     | None \<Rightarrow> lookup name xs)"

definition texts :: "env \<Rightarrow> cstring option list" where
  "texts st = map (str_at st) (env_ptrs (environ st))"

definition value_of :: "env \<Rightarrow> cstring \<Rightarrow> cstring option" where
  "value_of st name = (if name_ok name then lookup name (texts st) else None)"

lemma lookup_append: "lookup n (xs @ ys) = (case lookup n xs of None \<Rightarrow> lookup n ys | Some v \<Rightarrow> Some v)"
  by (induction xs) (auto split: option.splits)

lemma lookup_other:
  assumes "name_ok name" "name_ok n" "n \<noteq> name" "binds name x"
  shows "lookup n (Some x # xs) = lookup n xs"
  using binds_unique [of n x name] assms by auto

lemma lookup_update:
  assumes "i < length xs" "xs ! i = Some y" "binds name y" "\<forall>j < i. \<exists>z. xs ! j = Some z \<and> \<not> binds name z"
    "name_ok name" "name_ok n"
  shows "lookup n (xs[i := Some (name @ CHR ''='' # v)]) = (if n = name then Some v else lookup n xs)"
  using assms(1,2,4)
proof (induction xs arbitrary: i)
  case (Cons x xs)
  have b: "binds name (name @ CHR ''='' # v)" by (auto simp: binds_def)
  show ?case
  proof (cases i)
    case 0
    then have "x = Some y" using Cons.prems(2) by simp
    then show ?thesis
      using 0 b lookup_other [OF assms(5,6) _ b, of xs] lookup_other [OF assms(5,6) _ assms(3), of xs] by auto
  next
    case (Suc k)
    have "\<forall>j < k. \<exists>z. xs ! j = Some z \<and> \<not> binds name z" using Cons.prems(3) Suc by (metis Suc_less_eq nth_Cons_Suc)
    moreover obtain z where "x = Some z" "\<not> binds name z" using Cons.prems(3) Suc by fastforce
    ultimately show ?thesis using Cons.IH [of k] Cons.prems(1,2) Suc by auto
  qed
qed simp

lemma lookup_filter:
  assumes "name_ok name" "name_ok n"
  shows "lookup n (filter (\<lambda>x. \<not> (\<exists>e. x = Some e \<and> binds name e)) xs) = (if n = name then None else lookup n xs)"
proof (induction xs)
  case (Cons x xs)
  show ?case
  proof (cases "\<exists>e. x = Some e \<and> binds name e")
    case True
    then obtain e where "x = Some e" "binds name e" by blast
    then show ?thesis using Cons.IH lookup_other [OF assms _ \<open>binds name e\<close>, of xs] by auto
  qed (use Cons.IH in \<open>auto split: option.splits\<close>)
qed simp

lemma lookup_absent: "(\<forall>x \<in> set xs. \<forall>e. x = Some e \<longrightarrow> \<not> binds name e) \<Longrightarrow> lookup name xs = None"
  by (induction xs) (auto split: option.splits)

lemma putenv_match:
  assumes "s = name @ CHR ''='' # value"
  shows "take (length name + 1) s = take (length name + 1) e \<longleftrightarrow> binds name e"
proof
  assume a: "take (length name + 1) s = take (length name + 1) e"
  have "take (length name + 1) s = name @ ''=''" by (simp add: assms)
  then have "take (length name + 1) e = name @ ''=''" using a by simp
  then have "e = (name @ ''='') @ drop (length name + 1) e" using append_take_drop_id [of "length name + 1" e] by metis
  then have "e = name @ CHR ''='' # drop (length name + 1) e" by simp
  then show "binds name e" unfolding binds_def by blast
qed (auto simp: binds_def assms)

section \<open>Outcomes\<close>

text \<open>An operation that exits or returns something with the property, and reads and frees live strings only.\<close>

definition good :: "('a \<Rightarrow> bool) \<Rightarrow> 'a env_result \<Rightarrow> bool" where
  "good P r \<longleftrightarrow> (case r of Exits c \<Rightarrow> True | Bad_string \<Rightarrow> False | Returns x \<Rightarrow> P x)"

lemma good_simps [simp]: "good P (Exits c)" "\<not> good P Bad_string" "good P (Returns x) = P x"
  by (simp_all add: good_def)

lemma good_and_then: "good P r \<Longrightarrow> (\<And>x. P x \<Longrightarrow> good Q (f x)) \<Longrightarrow> good Q (and_then r f)"
  by (cases r) simp_all

lemma good_not_bad: "good P r \<Longrightarrow> r \<noteq> Bad_string"
  by auto

lemma and_then_Returns: "and_then r f = Returns y \<longleftrightarrow> (\<exists>x. r = Returns x \<and> f x = Returns y)"
  by (cases r) auto

section \<open>Searches in live strings\<close>

definition live_all :: "(nat \<Rightarrow> cstring option) \<Rightarrow> nat list \<Rightarrow> bool" where
  "live_all tx ps \<longleftrightarrow> (\<forall>p \<in> set ps. tx p \<noteq> None)"

lemma live_all_simps [simp]: "live_all tx []" "live_all tx (p # ps) \<longleftrightarrow> tx p \<noteq> None \<and> live_all tx ps"
  by (auto simp: live_all_def)

lemma find_string_live:
  "live_all tx ps \<Longrightarrow> find_string tx P ps = Returns (List.find (\<lambda>e. P (the (tx e))) ps)"
  by (induction ps) auto

lemma putenv_index_live:
  assumes "live_all tx ps"
  obtains (found) i where "putenv_index s l tx ps = Returns (Some i)" "i < length ps"
      "take (l + 1) s = take (l + 1) (the (tx (ps ! i)))" "\<forall>j < i. take (l + 1) s \<noteq> take (l + 1) (the (tx (ps ! j)))"
    | (absent) "putenv_index s l tx ps = Returns None" "\<forall>e \<in> set ps. take (l + 1) s \<noteq> take (l + 1) (the (tx e))"
  using assms
proof (induction ps arbitrary: thesis)
  case (Cons p ps)
  obtain x where x: "tx p = Some x" using Cons.prems(3) by auto
  show ?case
  proof (cases "take (l + 1) s = take (l + 1) x")
    case True
    then show ?thesis using x by (intro Cons.prems(1) [of 0]) simp_all
  next
    case False
    have live: "live_all tx ps" using Cons.prems(3) by simp
    show ?thesis
    proof (rule Cons.IH [OF _ _ live])
      fix i assume i: "putenv_index s l tx ps = Returns (Some i)" "i < length ps"
        "take (l + 1) s = take (l + 1) (the (tx (ps ! i)))" "\<forall>j < i. take (l + 1) s \<noteq> take (l + 1) (the (tx (ps ! j)))"
      have "\<forall>j < Suc i. take (l + 1) s \<noteq> take (l + 1) (the (tx ((p # ps) ! j)))"
        using i(4) False x by (auto simp: less_Suc_eq_0_disj)
      then show thesis using i x False by (intro Cons.prems(1) [of "Suc i"]) simp_all
    next
      assume "putenv_index s l tx ps = Returns None" "\<forall>e \<in> set ps. take (l + 1) s \<noteq> take (l + 1) (the (tx e))"
      then show thesis using x False by (intro Cons.prems(2)) simp_all
    qed
  qed
qed simp

section \<open>Allocated strings\<close>

definition lives :: "nat option list \<Rightarrow> nat list" where
  "lives es = map the (filter (\<lambda>e. e \<noteq> None) es)"

lemma lives_simps [simp]: "lives [] = []" "lives (None # es) = lives es" "lives (Some p # es) = p # lives es"
    "lives (es @ es') = lives es @ lives es'"
  by (simp_all add: lives_def)

lemma in_lives: "p \<in> set (lives es) \<longleftrightarrow> Some p \<in> set es"
  by (induction es) (auto simp: lives_def)

lemma rm_add_loop_lives:
  assumes "rm_add_loop es old new = (es', n, found)"
  shows "mset (lives es') + mset (lives [n]) + (if found then mset (lives [old]) else {#}) = mset (lives es) + mset (lives [new]) \<and>
    (found \<longleftrightarrow> old \<in> set es) \<and> (found \<longrightarrow> n = None)"
  using assms
proof (induction es arbitrary: new es' n found)
  case (Cons e es)
  consider (here) "e = old" | (slot) "e \<noteq> old" "e = None" "new \<noteq> None" | (pass) "e \<noteq> old" "\<not> (e = None \<and> new \<noteq> None)" by blast
  then show ?case
  proof cases
    case here
    then show ?thesis using Cons.prems by (cases e; cases new) auto
  next
    case slot
    obtain es2 n2 f2 where r: "rm_add_loop es old None = (es2, n2, f2)" by (cases "rm_add_loop es old None")
    then have eq: "es' = new # es2" "n = n2" "found = f2" using slot Cons.prems by auto
    show ?thesis using Cons.IH [OF r] slot unfolding eq by (cases new) auto
  next
    case pass
    obtain es2 n2 f2 where r: "rm_add_loop es old new = (es2, n2, f2)" by (cases "rm_add_loop es old new")
    then have eq: "es' = e # es2" "n = n2" "found = f2" using pass Cons.prems by auto
    show ?thesis using Cons.IH [OF r] pass(1) unfolding eq by (cases e) auto
  qed
qed auto

text \<open>What a call of __env_rm_add does to the recorded strings.\<close>

abbreviation owned :: "env \<Rightarrow> nat set" where
  "owned st \<equiv> set (lives (env_alloced st))"

lemma env_rm_add_eq:
  obtains es' lost where "env_rm_add track old new st =
      (if old \<in> set (env_alloced st) then free_string old (st\<lparr>env_alloced := es'\<rparr>) else Returns (st\<lparr>env_alloced := es'\<rparr>))"
    "mset (lives es') + lost + (if old \<in> set (env_alloced st) then mset (lives [old]) else {#}) =
      mset (lives (env_alloced st)) + mset (lives [new])"
proof -
  obtain es n found where r: "rm_add_loop (env_alloced st) old new = (es, n, found)" by (cases "rm_add_loop (env_alloced st) old new")
  note l = rm_add_loop_lives [OF r]
  show thesis
  proof (cases "found \<or> n = None")
    case True
    then show thesis using l by (intro that [of es "{#}"]) (auto simp: env_rm_add_def r Let_def)
  next
    case False
    then show thesis
      using l that [of "if track then es @ [n] else es" "if track then {#} else mset (lives [n])"]
      by (cases track) (auto simp: env_rm_add_def r Let_def)
  qed
qed

text \<open>The strings that setenv owns are recorded once, and live.\<close>

definition owns_ok :: "env \<Rightarrow> bool" where
  "owns_ok st \<longleftrightarrow> distinct (lives (env_alloced st)) \<and> (\<forall>p \<in> owned st. str_at st p \<noteq> None)"

text \<open>Strings of \<open>A\<close> were freed, and nothing else happened but to the records.\<close>

definition frees :: "nat set \<Rightarrow> env \<Rightarrow> env \<Rightarrow> bool" where
  "frees A st st' \<longleftrightarrow> environ st' = environ st \<and> oldenv st' = oldenv st \<and> dead_arrays st' = dead_arrays st \<and>
     owns_ok st' \<and> (\<forall>p. p \<notin> A \<longrightarrow> str_at st' p = str_at st p)"

lemma env_rm_add_frees:
  assumes ok: "owns_ok st" and new: "\<forall>p. new = Some p \<longrightarrow> p \<notin> owned st \<and> str_at st p \<noteq> None \<and> old \<noteq> new"
  obtains st' where "env_rm_add track old new st = Returns st'" "frees (set_option old \<inter> owned st) st st'"
    "owned st' \<subseteq> (owned st - set_option old) \<union> set_option new"
proof -
  obtain es' lost where e: "env_rm_add track old new st =
      (if old \<in> set (env_alloced st) then free_string old (st\<lparr>env_alloced := es'\<rparr>) else Returns (st\<lparr>env_alloced := es'\<rparr>))"
    and m: "mset (lives es') + lost + (if old \<in> set (env_alloced st) then mset (lives [old]) else {#}) =
      mset (lives (env_alloced st)) + mset (lives [new])"
    by (rule env_rm_add_eq)
  let ?gone = "if old \<in> set (env_alloced st) then lives [old] else []"
  obtain ys where ys: "mset ys = lost" by (metis ex_mset)
  have "mset (lives es' @ ys @ ?gone) = mset (lives (env_alloced st) @ lives [new])"
    unfolding mset_append ys using m by (simp add: add.assoc split: if_splits)
  moreover have "distinct (lives (env_alloced st) @ lives [new])"
    using ok new by (cases new) (auto simp: owns_ok_def)
  ultimately have d: "distinct (lives es' @ ys @ ?gone)"
    and s: "set (lives es' @ ys @ ?gone) = set (lives (env_alloced st) @ lives [new])"
    by (metis mset_eq_imp_distinct_iff, metis mset_eq_setD)
  have o: "distinct (lives es')" "set (lives es') \<subseteq> (owned st - set_option old) \<union> set_option new"
    using d s new by (cases old; cases new; auto simp: in_lives split: if_splits)+
  have live: "\<forall>p \<in> set (lives es'). str_at st p \<noteq> None \<and> Some p \<noteq> old"
    using o(2) ok new by (cases new) (fastforce simp: owns_ok_def)+
  show thesis
  proof (cases "old \<in> set (env_alloced st)")
    case False
    then show thesis using e o live by (intro that [of "st\<lparr>env_alloced := es'\<rparr>"]) (auto simp: frees_def owns_ok_def)
  next
    case True
    show thesis
    proof (cases old)
      case None
      then show thesis using e True o live
        by (intro that [of "st\<lparr>env_alloced := es'\<rparr>"]) (auto simp: frees_def owns_ok_def free_string_def)
    next
      case (Some q)
      then have q: "q \<in> owned st" "str_at st q \<noteq> None" using True ok by (auto simp: in_lives owns_ok_def)
      then show thesis using e True o live Some
        by (intro that [of "st\<lparr>env_alloced := es', str_at := (str_at st)(q := None)\<rparr>"])
          (auto simp: frees_def owns_ok_def free_string_def)
    qed
  qed
qed

section \<open>The invariant\<close>

definition env_ok :: "env \<Rightarrow> bool" where
  "env_ok st \<longleftrightarrow> owns_ok st \<and> live_all (str_at st) (env_ptrs (environ st)) \<and>
     distinct (filter (\<lambda>p. p \<in> owned st) (env_ptrs (environ st))) \<and>
     (set_option (env_array (environ st)) \<union> set_option (oldenv st)) \<inter> dead_arrays st = {}"

lemma distinct_filter_mono:
  "distinct (filter Q xs) \<Longrightarrow> (\<And>x. x \<in> set xs \<Longrightarrow> R x \<Longrightarrow> Q x) \<Longrightarrow> distinct (filter R xs)"
  by (induction xs) (auto split: if_splits)

lemma nth_once:
  assumes "distinct (filter Q xs)" "i < length xs" "Q (xs ! i)"
  shows "xs ! i \<notin> set (take i xs)" "xs ! i \<notin> set (drop (Suc i) xs)"
proof -
  have "filter Q xs = filter Q (take i xs) @ xs ! i # filter Q (drop (Suc i) xs)"
    using id_take_nth_drop [OF assms(2)] assms(3) by (metis filter.simps(2) filter_append)
  then show "xs ! i \<notin> set (take i xs)" "xs ! i \<notin> set (drop (Suc i) xs)" using assms(1,3) by auto
qed

lemma distinct_update:
  assumes "distinct (filter Q xs)" "i < length xs"
    "\<And>x. x \<in> set (take i xs) \<union> set (drop (Suc i) xs) \<Longrightarrow> R x \<Longrightarrow> Q x \<and> x \<noteq> s"
  shows "distinct (filter R (xs[i := s]))"
proof -
  let ?a = "take i xs" and ?b = "drop (Suc i) xs"
  have e: "xs = ?a @ xs ! i # ?b" by (rule id_take_nth_drop [OF assms(2)])
  have "distinct (filter Q (?a @ ?b))" using assms(1) by (subst (asm) e) (auto split: if_splits)
  then have "distinct (filter R (?a @ ?b))" by (rule distinct_filter_mono) (use assms(3) in auto)
  moreover have "xs[i := s] = ?a @ s # ?b" using assms(2) by (rule upd_conv_take_nth_drop)
  ultimately show ?thesis using assms(3) by auto
qed

text \<open>
  The string \<open>s\<close> enters the environment; \<open>r\<close> is that string when setenv has allocated it.  Otherwise
  it must not be one that setenv owns.
\<close>

lemma putenv_at_found:
  assumes ok: "env_ok st" and s: "str_at st s \<noteq> None" "s \<notin> owned st"
    and r: "r = None \<or> r = Some s \<and> s \<notin> set (env_ptrs (environ st))" and i: "i < length (env_ptrs (environ st))"
  obtains st' where "env_rm_add track (Some (env_ptrs (environ st) ! i)) r
      (st\<lparr>environ := Environ (the (env_array (environ st))) ((env_ptrs (environ st))[i := s])\<rparr>) = Returns st'"
    "env_ok st'" "texts st' = (texts st)[i := str_at st s]" "environ st' \<noteq> Uninitialized"
proof -
  note o = ok [unfolded env_ok_def]
  let ?ps = "env_ptrs (environ st)" and ?tmp = "env_ptrs (environ st) ! i"
  let ?qs = "?ps[i := s]"
  let ?st = "st\<lparr>environ := Environ (the (env_array (environ st))) ?qs\<rparr>"
  obtain a where a: "environ st = Environ a ?ps" using i by (cases "environ st") auto
  have arr: "env_array (environ st) = Some a" using a by (metis env_array.simps(1))
  have tmp: "?tmp \<in> set ?ps" using i by simp
  have "owns_ok ?st" using o by (simp add: owns_ok_def)
  moreover have "\<forall>p. r = Some p \<longrightarrow> p \<notin> owned ?st \<and> str_at ?st p \<noteq> None \<and> Some ?tmp \<noteq> r"
    using r s tmp by auto
  ultimately obtain st' where st': "env_rm_add track (Some ?tmp) r ?st = Returns st'"
    "frees (set_option (Some ?tmp) \<inter> owned ?st) ?st st'" "owned st' \<subseteq> (owned ?st - set_option (Some ?tmp)) \<union> set_option r"
    by (rule env_rm_add_frees)
  have f: "environ st' = Environ a ?qs" "oldenv st' = oldenv st" "dead_arrays st' = dead_arrays st" "owns_ok st'"
    "\<And>p. p \<notin> {?tmp} \<inter> owned st \<Longrightarrow> str_at st' p = str_at st p"
    using st'(2) arr by (auto simp: frees_def)
  have once: "p \<notin> {?tmp} \<inter> owned st" if "p \<in> set ?qs" for p
  proof
    assume p: "p \<in> {?tmp} \<inter> owned st"
    then have "?tmp \<notin> set (take i ?ps)" "?tmp \<notin> set (drop (Suc i) ?ps)" using nth_once [OF _ i] o by blast+
    moreover have "?tmp \<noteq> s" using p s(2) by auto
    ultimately show False using that p i by (simp add: upd_conv_take_nth_drop)
  qed
  have t: "map (str_at st') ?qs = map (str_at st) ?qs" using once f(5) by (intro map_cong) auto
  have "texts st' = (texts st)[i := str_at st s]" unfolding texts_def f(1) env_ptrs.simps t by (simp add: map_update)
  moreover have "env_ok st'"
  proof -
    have "live_all (str_at st) ?qs"
      using o s(1) set_update_subset_insert [of ?ps i s] by (auto simp: live_all_def)
    then have "live_all (str_at st') ?qs" using once f(5) by (auto simp: live_all_def)
    moreover have "distinct (filter (\<lambda>p. p \<in> owned st') ?qs)"
    proof (rule distinct_update [where Q = "\<lambda>p. p \<in> owned st", OF _ i])
      show "distinct (filter (\<lambda>p. p \<in> owned st) ?ps)" using o by blast
      fix x assume x: "x \<in> set (take i ?ps) \<union> set (drop (Suc i) ?ps)" "x \<in> owned st'"
      have xs: "x \<in> set ?ps" using x(1) by (auto dest: in_set_takeD in_set_dropD)
      have "x \<noteq> s"
      proof
        assume "x = s"
        then have "r = None" using r xs by auto
        then show False using st'(3) x(2) s(2) \<open>x = s\<close> by auto
      qed
      then show "x \<in> owned st \<and> x \<noteq> s" using st'(3) x(2) r by auto
    qed
    ultimately show ?thesis using o f arr by (simp add: env_ok_def)
  qed
  moreover have "environ st' \<noteq> Uninitialized" unfolding f(1) by simp
  ultimately show thesis using st'(1) by (intro that)
qed

lemma putenv_at_appended:
  assumes ok: "env_ok st" and s: "str_at st s \<noteq> None" "s \<notin> owned st"
    and r: "r = None \<or> r = Some s \<and> s \<notin> set (env_ptrs (environ st))"
  obtains st' where "(if r \<noteq> None then env_rm_add track None r else Returns)
      ((free_array (oldenv st) st)\<lparr>environ := Environ a (env_ptrs (environ st) @ [s]), oldenv := Some a,
        dead_arrays := dead_arrays (free_array (oldenv st) st) - {a}\<rparr>) = Returns st'"
    "env_ok st'" "texts st' = texts st @ [str_at st s]" "environ st' \<noteq> Uninitialized"
proof -
  note o = ok [unfolded env_ok_def]
  let ?ps = "env_ptrs (environ st)"
  let ?st = "(free_array (oldenv st) st)\<lparr>environ := Environ a (?ps @ [s]), oldenv := Some a,
    dead_arrays := dead_arrays (free_array (oldenv st) st) - {a}\<rparr>"
  have f: "env_alloced ?st = env_alloced st" "str_at ?st = str_at st"
    by (auto simp: free_array_def split: option.splits)
  have own: "owns_ok ?st" using o f by (simp add: owns_ok_def)
  show thesis
  proof (cases r)
    case None
    have "env_ok ?st" using o own s f unfolding env_ok_def by (auto simp: live_all_def)
    then show thesis using None f by (intro that [of ?st]) (simp_all add: texts_def)
  next
    case (Some p)
    then have p: "p = s" "s \<notin> set ?ps" using r by auto
    have "\<forall>q. r = Some q \<longrightarrow> q \<notin> owned ?st \<and> str_at ?st q \<noteq> None \<and> None \<noteq> r"
      using Some p s f by simp
    with own obtain st' where st': "env_rm_add track None r ?st = Returns st'"
      "frees (set_option None \<inter> owned ?st) ?st st'" "owned st' \<subseteq> (owned ?st - set_option None) \<union> set_option r"
      by (rule env_rm_add_frees)
    have g: "environ st' = Environ a (?ps @ [s])" "oldenv st' = Some a" "a \<notin> dead_arrays st'" "owns_ok st'"
      "str_at st' = str_at st"
      using st'(2) f by (auto simp: frees_def fun_eq_iff)
    have "distinct (filter (\<lambda>p. p \<in> owned st') ?ps)"
      by (rule distinct_filter_mono [of "\<lambda>p. p \<in> owned st"]) (use o st'(3) f p Some in auto)
    then have "env_ok st'" using o g s p by (auto simp: env_ok_def live_all_def)
    then show thesis using Some st'(1) g by (intro that [of st']) (simp_all add: texts_def)
  qed
qed

text \<open>What putenv does to the list of the texts; \<open>i\<close> is the first variable with the same name.\<close>

lemma putenv_at_cases:
  assumes ok: "env_ok st" and s: "str_at st s = Some x" "s \<notin> owned st"
    and r: "r = None \<or> r = Some s \<and> s \<notin> set (env_ptrs (environ st))"
  obtains (replaced) i st' where "putenv_at arr track s l r st = Returns (True, st')" "env_ok st'"
      "i < length (texts st)" "\<exists>y. texts st ! i = Some y \<and> take (l + 1) x = take (l + 1) y"
      "\<forall>j < i. \<exists>z. texts st ! j = Some z \<and> take (l + 1) x \<noteq> take (l + 1) z" "texts st' = (texts st)[i := Some x]"
      "environ st' \<noteq> Uninitialized"
    | (added) st' where "putenv_at arr track s l r st = Returns (True, st')" "env_ok st'" "arr \<noteq> None"
      "\<forall>z \<in> set (texts st). \<exists>e. z = Some e \<and> take (l + 1) x \<noteq> take (l + 1) e" "texts st' = texts st @ [Some x]"
      "environ st' \<noteq> Uninitialized"
    | (no_memory) st' where "putenv_at arr track s l r st = Returns (False, st')" "env_ok st'" "arr = None"
      "\<forall>z \<in> set (texts st). \<exists>e. z = Some e \<and> take (l + 1) x \<noteq> take (l + 1) e" "texts st' = texts st"
      "environ st' = environ st"
proof -
  let ?ps = "env_ptrs (environ st)"
  have live: "live_all (str_at st) ?ps" using ok by (simp add: env_ok_def)
  have at: "texts st ! j = Some (the (str_at st (?ps ! j)))" if "j < length ?ps" for j
    using live that by (auto simp: texts_def live_all_def)
  have sn: "str_at st s \<noteq> None" using s(1) by simp
  from live show thesis
  proof (cases rule: putenv_index_live [where s = x and l = l])
    case (found i)
    obtain st' where st': "env_rm_add track (Some (?ps ! i)) r (st\<lparr>environ := Environ (the (env_array (environ st))) (?ps[i := s])\<rparr>) = Returns st'"
      "env_ok st'" "texts st' = (texts st)[i := str_at st s]" "environ st' \<noteq> Uninitialized"
      by (rule putenv_at_found [OF ok sn s(2) r found(2)])
    have "putenv_at arr track s l r st = Returns (True, st')"
      using s(1) found(1) st'(1) by (simp add: putenv_at_def read_string_def)
    moreover have "i < length (texts st)" using found(2) by (simp add: texts_def)
    moreover have "\<exists>y. texts st ! i = Some y \<and> take (l + 1) x = take (l + 1) y" using at [OF found(2)] found(3) by simp
    moreover have "\<forall>j < i. \<exists>z. texts st ! j = Some z \<and> take (l + 1) x \<noteq> take (l + 1) z"
      using at found(2,4) by (metis order.strict_trans)
    ultimately show thesis using st' s(1) by (intro replaced) simp_all
  next
    case absent
    have none: "\<forall>z \<in> set (texts st). \<exists>e. z = Some e \<and> take (l + 1) x \<noteq> take (l + 1) e"
      using absent(2) live unfolding texts_def by (force simp: live_all_def)
    show thesis
    proof (cases arr)
      case None
      have "\<exists>st'. free_string r st = Returns st' \<and> env_ok st' \<and> texts st' = texts st \<and> environ st' = environ st"
        using r ok s sn
        by (auto simp: free_string_def env_ok_def owns_ok_def live_all_def texts_def)
      then show thesis using s(1) absent(1) None none
        by (auto simp: putenv_at_def read_string_def intro: no_memory)
    next
      case (Some a)
      obtain st' where st': "(if r \<noteq> None then env_rm_add track None r else Returns)
          ((free_array (oldenv st) st)\<lparr>environ := Environ a (?ps @ [s]), oldenv := Some a,
            dead_arrays := dead_arrays (free_array (oldenv st) st) - {a}\<rparr>) = Returns st'"
        "env_ok st'" "texts st' = texts st @ [str_at st s]" "environ st' \<noteq> Uninitialized"
        by (rule putenv_at_appended [OF ok sn s(2) r])
      have "putenv_at arr track s l r st = Returns (True, st')"
        using s(1) absent(1) Some st'(1) by (simp add: putenv_at_def read_string_def split: if_splits)
      then show thesis using st' none Some s(1) by (intro added) simp_all
    qed
  qed
qed

section \<open>Removing variables\<close>

lemma unsetenv_loop_live:
  assumes "owns_ok st" "live_all (str_at st) es" "distinct (filter (\<lambda>p. p \<in> owned st) es)"
  obtains st' where "unsetenv_loop track name l es st = Returns (filter (\<lambda>p. \<not> names name l (the (str_at st p))) es, st')"
    "frees {p \<in> set es. names name l (the (str_at st p))} st st'" "owned st' \<subseteq> owned st"
  using assms
proof (induction es arbitrary: st thesis)
  case Nil
  then show ?case by (intro Nil(1) [of st]) (simp_all add: frees_def)
next
  case (Cons e es)
  obtain x where x: "str_at st e = Some x" using Cons.prems(3) by auto
  have live: "live_all (str_at st) es" and d: "distinct (filter (\<lambda>p. p \<in> owned st) es)"
    using Cons.prems(3,4) by (auto split: if_splits)
  show ?case
  proof (cases "names name l x")
    case False
    obtain st' where st': "unsetenv_loop track name l es st = Returns (filter (\<lambda>p. \<not> names name l (the (str_at st p))) es, st')"
      "frees {p \<in> set es. names name l (the (str_at st p))} st st'" "owned st' \<subseteq> owned st"
      by (rule Cons.IH [OF _ Cons.prems(2) live d])
    then show ?thesis using x False
      by (intro Cons.prems(1) [of st']) (auto simp: read_string_def frees_def)
  next
    case True
    obtain st1 where st1: "env_rm_add track (Some e) None st = Returns st1" "frees (set_option (Some e) \<inter> owned st) st st1"
      "owned st1 \<subseteq> (owned st - set_option (Some e)) \<union> set_option None"
      using env_rm_add_frees [OF Cons.prems(2), of None "Some e" track] by auto
    have same: "str_at st1 p = str_at st p" if "p \<in> set es" for p
    proof -
      have "p \<notin> set_option (Some e) \<inter> owned st" using that Cons.prems(4) by auto
      then show ?thesis using st1(2) by (simp add: frees_def)
    qed
    have "owns_ok st1" using st1(2) by (simp add: frees_def)
    moreover have "live_all (str_at st1) es" using live same by (auto simp: live_all_def)
    moreover have "distinct (filter (\<lambda>p. p \<in> owned st1) es)"
      by (rule distinct_filter_mono [OF d]) (use st1(3) in auto)
    ultimately obtain st' where st': "unsetenv_loop track name l es st1 = Returns (filter (\<lambda>p. \<not> names name l (the (str_at st1 p))) es, st')"
      "frees {p \<in> set es. names name l (the (str_at st1 p))} st1 st'" "owned st' \<subseteq> owned st1"
      by (rule Cons.IH [rotated 1])
    have "filter (\<lambda>p. \<not> names name l (the (str_at st1 p))) es = filter (\<lambda>p. \<not> names name l (the (str_at st p))) es"
      using same by (intro filter_cong) auto
    moreover have "{p \<in> set es. names name l (the (str_at st1 p))} = {p \<in> set es. names name l (the (str_at st p))}"
      using same by auto
    moreover have "frees {p \<in> set (e # es). names name l (the (str_at st p))} st st'"
    proof -
      have "str_at st' p = str_at st p" if "p \<notin> {p \<in> set (e # es). names name l (the (str_at st p))}" for p
      proof -
        have "p \<noteq> e" using that x True by auto
        then show ?thesis using that st'(2) st1(2) unfolding calculation(2) by (auto simp: frees_def)
      qed
      then show ?thesis using st'(2) st1(2) unfolding frees_def by simp
    qed
    ultimately show ?thesis using st'(1,3) st1(1,3) x True
      by (intro Cons.prems(1) [of st']) (auto simp: read_string_def)
  qed
qed

lemma rm_all_live:
  assumes "owns_ok st"
  obtains st' where "rm_all track es st = Returns st'" "frees (set es) st st'"
  using assms
proof (induction es arbitrary: st thesis)
  case Nil
  then show ?case by (intro Nil(1) [of st]) (simp_all add: frees_def)
next
  case (Cons e es)
  obtain st1 where st1: "env_rm_add track (Some e) None st = Returns st1" "frees (set_option (Some e) \<inter> owned st) st st1"
    using env_rm_add_frees [OF Cons.prems(2), of None "Some e" track] by auto
  have "owns_ok st1" using st1(2) by (simp add: frees_def)
  then obtain st' where "rm_all track es st1 = Returns st'" "frees (set es) st1 st'" by (rule Cons.IH [rotated 1])
  then show ?case using st1 by (intro Cons.prems(1) [of st']) (auto simp: frees_def)
qed

section \<open>The operations\<close>

text \<open>What the host promises: arrays that are in use and live strings are not handed out again.\<close>

definition host_ok :: "env_host \<Rightarrow> env \<Rightarrow> bool" where
  "host_ok H st \<longleftrightarrow> (environ st = Uninitialized \<longrightarrow>
     empty_environ \<notin> dead_arrays st \<and> (\<forall>a. eh_array H = Some a \<longrightarrow> a \<notin> dead_arrays st) \<and>
     (\<forall>vars. eh_get H = Inr vars \<longrightarrow> distinct (map fst vars) \<and> (\<forall>p \<in> fst ` set vars. str_at st p = None)))"

text \<open>The addresses that a lazy initialization hands out.\<close>

definition host_strings :: "env_host \<Rightarrow> env \<Rightarrow> nat set" where
  "host_strings H st = (if environ st = Uninitialized then (case eh_get H of Inl _ \<Rightarrow> {} | Inr vars \<Rightarrow> fst ` set vars) else {})"

text \<open>malloc does not hand out a live string.\<close>

definition malloc_ok :: "nat option \<Rightarrow> env_host \<Rightarrow> env \<Rightarrow> bool" where
  "malloc_ok new H st \<longleftrightarrow> (\<forall>s. new = Some s \<longrightarrow> str_at st s = None \<and> s \<notin> host_strings H st)"

lemma ensure_good:
  assumes "env_ok st" "host_ok H st"
  shows "good (\<lambda>st1. env_ok st1 \<and> environ st1 \<noteq> Uninitialized \<and> env_alloced st1 = env_alloced st \<and>
    (\<forall>p. p \<notin> host_strings H st \<longrightarrow> str_at st1 p = str_at st p) \<and>
    set (env_ptrs (environ st1)) \<subseteq> set (env_ptrs (environ st)) \<union> host_strings H st) (ensure_environ H st)"
proof (cases "environ st = Uninitialized")
  case False
  then show ?thesis using assms by (simp add: ensure_environ_def)
next
  case True
  note ok = assms(1) [unfolded env_ok_def owns_ok_def] and h = assms(2) [unfolded host_ok_def]
  have "owned st \<inter> fst ` set vars = {}" if "eh_get H = Inr vars" for vars
    using h True ok that by fastforce
  moreover have "map_of vars p = None \<longleftrightarrow> p \<notin> fst ` set vars" for vars p by (rule map_of_eq_None_iff)
  moreover have "distinct (filter P (map fst vars))" if "eh_get H = Inr vars" for vars P
    using h True that by (simp add: distinct_filter)
  moreover have "p \<in> fst ` set vars" if "(p, y) \<in> set vars" for p y and vars :: "(nat \<times> cstring) list"
    using that by force
  ultimately show ?thesis using ok h True
    by (auto simp: ensure_environ_def initialize_environ_def env_ok_def owns_ok_def live_all_def host_strings_def
        split: sum.splits option.splits if_splits prod.splits)
qed

lemma ensure_done: "environ st \<noteq> Uninitialized \<Longrightarrow> ensure_environ H st = Returns st"
  by (simp add: ensure_environ_def)

lemma host_ok_done: "environ st \<noteq> Uninitialized \<Longrightarrow> host_ok H st"
  by (simp add: host_ok_def)

lemma getenv_live:
  assumes "env_ok st" "environ st \<noteq> Uninitialized"
  shows "\<exists>r. getenv H name st = Returns (r, st) \<and>
    (case r of None \<Rightarrow> value_of st name = None
     | Some (e, n) \<Rightarrow> \<exists>x. str_at st e = Some x \<and> value_of st name = Some (drop n x))"
proof (cases "name_ok name")
  case False
  then show ?thesis using name_len_ok [of name] by (auto simp: getenv_def ensure_done [OF assms(2)] Let_def value_of_def)
next
  case True
  then have l: "name_len name \<noteq> 0" "name_len name = length name" using name_len_ok [of name] by blast+
  let ?ps = "env_ptrs (environ st)"
  have live: "live_all (str_at st) ?ps" using assms(1) by (simp add: env_ok_def)
  have f: "case List.find (\<lambda>e. binds name (the (str_at st e))) ps of
      None \<Rightarrow> lookup name (map (str_at st) ps) = None
    | Some e \<Rightarrow> \<exists>x. str_at st e = Some x \<and> lookup name (map (str_at st) ps) = Some (drop (Suc (length name)) x)"
    if "live_all (str_at st) ps" for ps
    using that by (induction ps) (auto split: option.splits)
  have "getenv H name st = Returns (map_option (\<lambda>e. (e, length name + 1))
      (List.find (\<lambda>e. binds name (the (str_at st e))) ?ps), st)"
    using l names_binds [of name] by (simp add: getenv_def ensure_done [OF assms(2)] Let_def find_string_live [OF live])
  then show ?thesis using f [OF live] True by (auto simp: value_of_def texts_def split: option.splits)
qed

lemma getenv_good:
  assumes "env_ok st" "host_ok H st"
  shows "good (\<lambda>(r, st1). env_ok st1 \<and> environ st1 \<noteq> Uninitialized \<and> env_alloced st1 = env_alloced st \<and>
    (\<forall>p. p \<notin> host_strings H st \<longrightarrow> str_at st1 p = str_at st p)) (getenv H name st)"
proof -
  have eq: "getenv H name st = and_then (ensure_environ H st) (\<lambda>st1. getenv H name st1)"
  proof (cases "ensure_environ H st")
    case (Returns st1)
    then have "environ st1 \<noteq> Uninitialized" using ensure_good [OF assms] by simp
    then show ?thesis using Returns ensure_done [of st1 H] by (simp add: getenv_def)
  qed (simp_all add: getenv_def)
  show ?thesis unfolding eq
  proof (rule good_and_then [OF ensure_good [OF assms]])
    fix st1 assume s1: "env_ok st1 \<and> environ st1 \<noteq> Uninitialized \<and> env_alloced st1 = env_alloced st \<and>
      (\<forall>p. p \<notin> host_strings H st \<longrightarrow> str_at st1 p = str_at st p) \<and>
      set (env_ptrs (environ st1)) \<subseteq> set (env_ptrs (environ st)) \<union> host_strings H st"
    then show "good (\<lambda>(r, st1). env_ok st1 \<and> environ st1 \<noteq> Uninitialized \<and> env_alloced st1 = env_alloced st \<and>
      (\<forall>p. p \<notin> host_strings H st \<longrightarrow> str_at st1 p = str_at st p)) (getenv H name st1)"
      using getenv_live [of st1 H name] by auto
  qed
qed

lemma unsetenv_live:
  assumes ok: "env_ok st" and init: "environ st \<noteq> Uninitialized"
  shows "\<exists>r st'. unsetenv H track name st = Returns (r, st') \<and> env_ok st' \<and> environ st' \<noteq> Uninitialized \<and>
    (if name_ok name then r = Inr () \<and> value_of st' = (value_of st)(name := None) else r = Inl EINVAL \<and> st' = st)"
proof (cases "name_ok name")
  case False
  then show ?thesis using name_len_ok [of name] assms by (auto simp: unsetenv_def Let_def)
next
  case True
  then have l: "name_len name \<noteq> 0" "name_len name = length name" using name_len_ok [of name] by blast+
  show ?thesis
  proof (cases "environ st")
    case Uninitialized
    then show ?thesis using init by simp
  next
    case Null_environ
    then have "value_of st = (\<lambda>_. None)" by (auto simp: value_of_def texts_def)
    then show ?thesis using True l ok Null_environ by (simp add: unsetenv_def ensure_done Let_def fun_eq_iff)
  next
    case (Environ a ps)
    note o = ok [unfolded env_ok_def Environ env_ptrs.simps]
    have live: "live_all (str_at st) ps" using o by blast
    obtain st' where st': "unsetenv_loop track name (length name) ps st =
        Returns (filter (\<lambda>p. \<not> names name (length name) (the (str_at st p))) ps, st')"
      "frees {p \<in> set ps. names name (length name) (the (str_at st p))} st st'" "owned st' \<subseteq> owned st"
      using unsetenv_loop_live [of st ps track name "length name"] o by blast
    let ?ks = "filter (\<lambda>p. \<not> names name (length name) (the (str_at st p))) ps"
    let ?st = "st'\<lparr>environ := Environ a ?ks\<rparr>"
    have u: "unsetenv H track name st = Returns (Inr (), ?st)"
      using l st'(1) Environ by (simp add: unsetenv_def ensure_done Let_def)
    have same: "str_at st' p = str_at st p" if "p \<in> set ?ks" for p using st'(2) that by (auto simp: frees_def)
    have "map (str_at st') ?ks = map (str_at st) ?ks" using same by simp
    also have "\<dots> = filter (\<lambda>x. \<not> (\<exists>e. x = Some e \<and> binds name e)) (map (str_at st) ps)"
      using live by (induction ps) (auto simp: names_binds)
    finally have t: "texts ?st = filter (\<lambda>x. \<not> (\<exists>e. x = Some e \<and> binds name e)) (texts st)"
      by (simp add: texts_def Environ)
    have "distinct (filter (\<lambda>p. p \<in> owned st') (filter (\<lambda>p. \<not> names name (length name) (the (str_at st p))) ps))"
    proof (rule distinct_filter_mono [of "\<lambda>p. p \<in> owned st"])
      have "distinct (filter (\<lambda>p. \<not> names name (length name) (the (str_at st p))) (filter (\<lambda>p. p \<in> owned st) ps))"
        by (rule distinct_filter [OF o [THEN conjunct2, THEN conjunct2, THEN conjunct1]])
      then show "distinct (filter (\<lambda>p. p \<in> owned st) ?ks)" by (simp add: conj_commute)
    qed (use st'(3) in auto)
    then have "env_ok ?st" using o st'(2) same live by (auto simp: env_ok_def frees_def owns_ok_def live_all_def)
    moreover have "value_of ?st = (value_of st)(name := None)"
      using lookup_filter [OF True] by (auto simp: value_of_def t fun_eq_iff True)
    ultimately show ?thesis using u True by simp
  qed
qed

lemma putenv_at_live:
  assumes ok: "env_ok st" and s: "str_at st s = Some (name @ CHR ''='' # v)" "s \<notin> owned st" and n: "name_ok name"
    and init: "environ st \<noteq> Uninitialized" and r: "r = None \<or> r = Some s \<and> s \<notin> set (env_ptrs (environ st))"
  shows "\<exists>st'. putenv_result (putenv_at arr track s (length name) r st) =
      Returns (if arr = None \<and> value_of st name = None then Inl ENOMEM else Inr (), st') \<and>
    env_ok st' \<and> environ st' \<noteq> Uninitialized \<and>
    value_of st' = (if arr = None \<and> value_of st name = None then value_of st else (value_of st)(name \<mapsto> v))"
proof -
  let ?x = "name @ CHR ''='' # v"
  have b: "take (length name + 1) ?x = take (length name + 1) e \<longleftrightarrow> binds name e" for e
    by (rule putenv_match [OF refl])
  have bx: "binds m ?x \<longleftrightarrow> m = name" if "name_ok m" for m
    using binds_unique [of name ?x m] that n by (auto simp: binds_def)
  have found: "lookup name xs \<noteq> None" if "i < length xs" "xs ! i = Some y" "binds name y" for i xs y
    using that by (induction xs arbitrary: i) (auto simp: less_Suc_eq_0_disj split: option.splits)
  show ?thesis
  proof (rule putenv_at_cases [OF ok s r, of arr track "length name"])
    fix i st' assume st': "putenv_at arr track s (length name) r st = Returns (True, st')" "env_ok st'" "i < length (texts st)"
      "\<exists>y. texts st ! i = Some y \<and> take (length name + 1) ?x = take (length name + 1) y"
      "\<forall>j<i. \<exists>z. texts st ! j = Some z \<and> take (length name + 1) ?x \<noteq> take (length name + 1) z"
      "texts st' = (texts st)[i := Some ?x]" "environ st' \<noteq> Uninitialized"
    obtain y where y: "texts st ! i = Some y" "binds name y" using st'(4) unfolding b by blast
    have "value_of st' = (value_of st)(name \<mapsto> v)"
      using lookup_update [OF st'(3) y _ n] st'(5) n unfolding b by (auto simp: value_of_def st'(6) fun_eq_iff)
    moreover have "value_of st name \<noteq> None" using found [OF st'(3) y] n by (simp add: value_of_def)
    ultimately show ?thesis using st'(1,2,7) by (simp add: putenv_result_def)
  next
    fix st' assume st': "putenv_at arr track s (length name) r st = Returns (True, st')" "env_ok st'" "arr \<noteq> None"
      "\<forall>z\<in>set (texts st). \<exists>e. z = Some e \<and> take (length name + 1) ?x \<noteq> take (length name + 1) e"
      "texts st' = texts st @ [Some ?x]" "environ st' \<noteq> Uninitialized"
    have "lookup name (texts st) = None" using st'(4) unfolding b by (intro lookup_absent) auto
    then have "value_of st' = (value_of st)(name \<mapsto> v)"
      using n bx by (auto simp: value_of_def st'(5) lookup_append fun_eq_iff split: option.splits)
    then show ?thesis using st'(1-3,6) by (simp add: putenv_result_def)
  next
    fix st' assume st': "putenv_at arr track s (length name) r st = Returns (False, st')" "env_ok st'" "arr = None"
      "\<forall>z\<in>set (texts st). \<exists>e. z = Some e \<and> take (length name + 1) ?x \<noteq> take (length name + 1) e"
      "texts st' = texts st" "environ st' = environ st"
    have "lookup name (texts st) = None" using st'(4) unfolding b by (intro lookup_absent) auto
    then show ?thesis using st' init by (simp add: putenv_result_def value_of_def fun_eq_iff)
  qed
qed

lemma new_string:
  assumes "env_ok st" "str_at st s = None"
  shows "env_ok (st\<lparr>str_at := (str_at st)(s \<mapsto> x)\<rparr>)" "s \<notin> owned st" "s \<notin> set (env_ptrs (environ st))"
    "texts (st\<lparr>str_at := (str_at st)(s \<mapsto> x)\<rparr>) = texts st"
  using assms by (auto simp: env_ok_def owns_ok_def live_all_def texts_def)

lemma setenv_live:
  assumes ok: "env_ok st" and init: "environ st \<noteq> Uninitialized" and new: "\<forall>s. new = Some s \<longrightarrow> str_at st s = None"
    and n: "name_ok var"
  shows "\<exists>r st'. setenv H new arr track var value overwrite st = Returns (r, st') \<and> env_ok st' \<and>
    (if \<not> overwrite \<and> value_of st var \<noteq> None then r = Inr () \<and> st' = st
     else if new = None \<or> (arr = None \<and> value_of st var = None) then r = Inl ENOMEM \<and> value_of st' = value_of st
     else r = Inr () \<and> value_of st' = (value_of st)(var \<mapsto> value))"
proof -
  have l: "name_len var \<noteq> 0" "name_len var = length var" using name_len_ok [of var] n by blast+
  obtain g where g: "getenv H var st = Returns (g, st)" "g \<noteq> None \<longleftrightarrow> value_of st var \<noteq> None"
    using getenv_live [OF ok init, of H var] by (auto split: option.splits)
  show ?thesis
  proof (cases "\<not> overwrite \<and> value_of st var \<noteq> None")
    case True
    then show ?thesis using l g ok by (auto simp: setenv_def Let_def)
  next
    case wr: False
    show ?thesis
    proof (cases new)
      case None
      then show ?thesis using l g wr ok by (auto simp: setenv_def Let_def)
    next
      case (Some s)
      define st1 where "st1 = st\<lparr>str_at := (str_at st)(s \<mapsto> var @ CHR ''='' # value)\<rparr>"
      have "str_at st s = None" using new Some by simp
      note fresh = new_string [OF ok this]
      note ns = fresh(1) [of "var @ CHR ''='' # value", folded st1_def] fresh(2,3)
        fresh(4) [of "var @ CHR ''='' # value", folded st1_def]
      have e: "environ st1 = environ st" "env_alloced st1 = env_alloced st" by (simp_all add: st1_def)
      have v: "value_of st1 = value_of st" using ns(4) by (simp add: value_of_def fun_eq_iff)
      have "\<exists>st'. putenv_result (putenv_at arr track s (length var) (Some s) st1) =
          Returns (if arr = None \<and> value_of st1 var = None then Inl ENOMEM else Inr (), st') \<and>
        env_ok st' \<and> environ st' \<noteq> Uninitialized \<and>
        value_of st' = (if arr = None \<and> value_of st1 var = None then value_of st1 else (value_of st1)(var \<mapsto> value))"
        by (rule putenv_at_live [OF ns(1) _ _ n]) (use ns(2,3) e init in \<open>simp_all add: st1_def\<close>)
      moreover have "setenv H new arr track var value overwrite st = putenv_result (putenv_at arr track s (length var) (Some s) st1)"
        using l wr g Some ensure_done [of st1 H] e init by (auto simp: setenv_def Let_def st1_def)
      ultimately show ?thesis using wr Some v by auto
    qed
  qed
qed

lemma split_name:
  assumes "name_len x \<noteq> 0" "name_len x \<noteq> length x"
  obtains name val where "x = name @ CHR ''='' # val" "name_ok name" "name_len x = length name"
proof -
  let ?n = "takeWhile (\<lambda>c. c \<noteq> CHR ''='') x"
  have ne: "length ?n < length x" using assms(2) length_takeWhile_le [of "\<lambda>c. c \<noteq> CHR ''=''" x] by (simp add: name_len_def)
  then obtain c rest where d: "dropWhile (\<lambda>c. c \<noteq> CHR ''='') x = c # rest"
    by (cases "dropWhile (\<lambda>c. c \<noteq> CHR ''='') x") (metis takeWhile_dropWhile_id append_Nil2 less_irrefl, blast)
  then have "c = CHR ''=''" using hd_dropWhile [of "\<lambda>c. c \<noteq> CHR ''=''" x] by simp
  then have "x = ?n @ CHR ''='' # rest" using d by (metis takeWhile_dropWhile_id)
  moreover have "name_ok ?n" using assms(1) by (auto simp: name_ok_def name_len_def dest: set_takeWhileD)
  ultimately show thesis by (intro that) (simp_all add: name_len_def)
qed

lemma putenv_live:
  assumes "env_ok st" "environ st \<noteq> Uninitialized" "str_at st s = Some (name @ CHR ''='' # value)" "s \<notin> owned st" "name_ok name"
  shows "\<exists>r st'. putenv H arr track s st = Returns (r, st') \<and> env_ok st' \<and>
    (if arr = None \<and> value_of st name = None then r = Inl ENOMEM \<and> value_of st' = value_of st
     else r = Inr () \<and> value_of st' = (value_of st)(name \<mapsto> value))"
proof -
  let ?x = "name @ CHR ''='' # value"
  have l: "name_len ?x = length name" "length name \<noteq> 0" "length name \<noteq> length ?x"
    using binds_name [of name ?x] assms(5) by (auto simp: name_len_def name_ok_def binds_def)
  have "putenv H arr track s st = putenv_result (putenv_at arr track s (length name) None st)"
    using l assms(3) ensure_done [OF assms(2)] by (simp add: putenv_def read_string_def Let_def)
  then show ?thesis using putenv_at_live [OF assms(1,3,4,5,2), where r = None and arr = arr and track = track] by auto
qed

lemma clearenv_live:
  assumes "env_ok st" "environ st \<noteq> Uninitialized"
  shows "\<exists>st'. clearenv H track st = Returns st' \<and> env_ok st' \<and> environ st' \<noteq> Uninitialized \<and> value_of st' = (\<lambda>_. None)"
proof -
  have "owns_ok (st\<lparr>environ := Null_environ\<rparr>)" using assms(1) by (simp add: env_ok_def owns_ok_def)
  then obtain st' where "rm_all track (env_ptrs (environ st)) (st\<lparr>environ := Null_environ\<rparr>) = Returns st'"
    "frees (set (env_ptrs (environ st))) (st\<lparr>environ := Null_environ\<rparr>) st'" by (rule rm_all_live)
  then show ?thesis using assms
    by (auto simp: clearenv_def ensure_done frees_def env_ok_def value_of_def texts_def)
qed

section \<open>Lazy initialization\<close>

lemma unsetenv_good:
  assumes "env_ok st" "host_ok H st"
  shows "good (\<lambda>(r, st'). env_ok st') (unsetenv H track name st)"
proof (cases "name_len name = 0 \<or> name_len name \<noteq> length name")
  case True
  then show ?thesis using assms by (simp add: unsetenv_def)
next
  case False
  then have name: "name \<noteq> []" by (auto simp: name_len_def)
  have eq: "unsetenv H track name st = and_then (ensure_environ H st) (\<lambda>st1. unsetenv H track name st1)"
  proof (cases "ensure_environ H st")
    case (Returns st1)
    then have "environ st1 \<noteq> Uninitialized" using ensure_good [OF assms] by simp
    then show ?thesis using Returns False name by (simp add: unsetenv_def ensure_done Let_def)
  qed (use False name in \<open>simp_all add: unsetenv_def Let_def\<close>)
  have "good (\<lambda>(r, st'). env_ok st') (unsetenv H track name st1)" if "env_ok st1" "environ st1 \<noteq> Uninitialized" for st1
    using unsetenv_live [OF that, of H track name] by auto
  then show ?thesis unfolding eq by (intro good_and_then [OF ensure_good [OF assms]]) blast
qed

lemma clearenv_good:
  assumes "env_ok st" "host_ok H st"
  shows "good (\<lambda>st'. env_ok st') (clearenv H track st)"
proof -
  have eq: "clearenv H track st = and_then (ensure_environ H st) (\<lambda>st1. clearenv H track st1)"
  proof (cases "ensure_environ H st")
    case (Returns st1)
    then have "environ st1 \<noteq> Uninitialized" using ensure_good [OF assms] by simp
    then show ?thesis using Returns by (simp add: clearenv_def ensure_done)
  qed (simp_all add: clearenv_def)
  have "good (\<lambda>st'. env_ok st') (clearenv H track st1)" if "env_ok st1" "environ st1 \<noteq> Uninitialized" for st1
    using clearenv_live [OF that, of H track] by auto
  then show ?thesis unfolding eq by (intro good_and_then [OF ensure_good [OF assms]]) blast
qed

lemma deinitialize_good:
  assumes "env_ok st" "host_ok H st"
  shows "good (\<lambda>st'. env_ok st') (deinitialize_environ H track st)"
proof -
  have "good (\<lambda>st'. env_ok st') (and_then (clearenv H track st) (\<lambda>st. Returns (st\<lparr>environ := Uninitialized\<rparr>)))"
    by (rule good_and_then [OF clearenv_good [OF assms]]) (auto simp: env_ok_def owns_ok_def)
  then show ?thesis using assms by (simp add: deinitialize_environ_def)
qed

lemma putenv_good:
  assumes ok: "env_ok st" "host_ok H st" and s: "str_at st s \<noteq> None" "s \<notin> owned st"
  shows "good (\<lambda>(r, st'). env_ok st') (putenv H arr track s st)"
proof -
  obtain x where x: "str_at st s = Some x" using s(1) by auto
  show ?thesis
  proof (cases "name_len x = 0 \<or> name_len x = length x")
    case True
    then show ?thesis using x unsetenv_good [OF ok] by (simp add: putenv_def read_string_def Let_def)
  next
    case False
    then obtain name val where n: "x = name @ CHR ''='' # val" "name_ok name" "name_len x = length name"
      using split_name [of x] by blast
    have eq: "putenv H arr track s st =
        and_then (ensure_environ H st) (\<lambda>st. putenv_result (putenv_at arr track s (length name) None st))"
      using x False n(3) by (simp add: putenv_def read_string_def Let_def)
    show ?thesis unfolding eq
    proof (rule good_and_then [OF ensure_good [OF ok]])
      fix st1 assume a: "env_ok st1 \<and> environ st1 \<noteq> Uninitialized \<and> env_alloced st1 = env_alloced st \<and>
        (\<forall>p. p \<notin> host_strings H st \<longrightarrow> str_at st1 p = str_at st p) \<and>
        set (env_ptrs (environ st1)) \<subseteq> set (env_ptrs (environ st)) \<union> host_strings H st"
      have "s \<notin> host_strings H st"
        using ok(2) s(1) by (fastforce simp: host_ok_def host_strings_def split: sum.splits if_splits)
      then have "str_at st1 s = Some (name @ CHR ''='' # val)" using a x n(1) by simp
      then show "good (\<lambda>(r, st'). env_ok st') (putenv_result (putenv_at arr track s (length name) None st1))"
        using putenv_at_live [where st = st1 and s = s and name = name and v = val and r = None and arr = arr and track = track] a s(2) n(2) by auto
    qed
  qed
qed

lemma setenv_good:
  assumes ok: "env_ok st" "host_ok H st" and m: "malloc_ok new H st"
  shows "good (\<lambda>(r, st'). env_ok st') (setenv H new arr track var value overwrite st)"
proof (cases "name_ok var")
  case False
  then show ?thesis using name_len_ok [of var] ok by (auto simp: setenv_def)
next
  case n: True
  then have l: "name_len var \<noteq> 0" "name_len var = length var" using name_len_ok [of var] by blast+
  let ?P = "\<lambda>(found :: (nat \<times> nat) option, st1). env_ok st1 \<and> host_ok H st1 \<and> malloc_ok new H st1"
  have first: "good ?P (if overwrite then Returns (None, st) else getenv H var st)"
  proof (cases overwrite)
    case True
    then show ?thesis using assms by simp
  next
    case False
    have "env_ok st1 \<and> host_ok H st1 \<and> malloc_ok new H st1"
      if "env_ok st1" "environ st1 \<noteq> Uninitialized" "\<forall>p. p \<notin> host_strings H st \<longrightarrow> str_at st1 p = str_at st p" for st1
      using that m host_ok_done [OF that(2)] by (auto simp: malloc_ok_def host_strings_def [of H st1])
    then show ?thesis using False getenv_good [OF ok, of var] by (cases "getenv H var st") auto
  qed
  have eq: "setenv H new arr track var value overwrite st =
      and_then (if overwrite then Returns (None, st) else getenv H var st) (\<lambda>(found, st).
        if found \<noteq> None then Returns (Inr (), st)
        else (case new of None \<Rightarrow> Returns (Inl ENOMEM, st)
          | Some s \<Rightarrow> and_then (ensure_environ H (st\<lparr>str_at := (str_at st)(s \<mapsto> var @ CHR ''='' # value)\<rparr>))
              (\<lambda>st. putenv_result (putenv_at arr track s (length var) (Some s) st))))"
    unfolding setenv_def Let_def l(2) using l by simp
  show ?thesis unfolding eq
  proof (rule good_and_then [OF first], clarsimp split: option.split)
    fix st1 s assume a: "env_ok st1" "host_ok H st1" "malloc_ok (Some s) H st1"
    let ?st = "st1\<lparr>str_at := (str_at st1)(s \<mapsto> var @ CHR ''='' # value)\<rparr>"
    have s: "str_at st1 s = None" "s \<notin> host_strings H st1" using a(3) by (simp_all add: malloc_ok_def)
    note ns = new_string(1) [OF a(1) s(1), of "var @ CHR ''='' # value"] new_string(2,3) [OF a(1) s(1)]
    have h: "host_ok H ?st" using a(2) s(2) by (force simp: host_ok_def host_strings_def)
    show "good (\<lambda>(r, st'). env_ok st') (and_then (ensure_environ H ?st) (\<lambda>st. putenv_result (putenv_at arr track s (length var) (Some s) st)))"
    proof (rule good_and_then [OF ensure_good [OF ns(1) h]])
      fix st2 assume b: "env_ok st2 \<and> environ st2 \<noteq> Uninitialized \<and> env_alloced st2 = env_alloced ?st \<and>
        (\<forall>p. p \<notin> host_strings H ?st \<longrightarrow> str_at st2 p = str_at ?st p) \<and>
        set (env_ptrs (environ st2)) \<subseteq> set (env_ptrs (environ ?st)) \<union> host_strings H ?st"
      have hs: "host_strings H ?st = host_strings H st1" by (simp add: host_strings_def)
      have "str_at st2 s = Some (var @ CHR ''='' # value)" "s \<notin> owned st2" "s \<notin> set (env_ptrs (environ st2))"
        using b s ns(2,3) unfolding hs by auto
      then show "good (\<lambda>(r, st'). env_ok st') (putenv_result (putenv_at arr track s (length var) (Some s) st2))"
        using putenv_at_live [where st = st2 and s = s and name = var and r = "Some s" and arr = arr and track = track] b n by auto
    qed
  qed
qed

section \<open>Reachable environments\<close>

text \<open>
  A call of an operation that returns, or the program changing, allocating and freeing strings of its
  own.  It frees none that is in the environment or that setenv owns, and it gives putenv a string
  that setenv does not own.
\<close>

inductive env_step :: "env \<Rightarrow> env \<Rightarrow> bool" where
  getenv: "host_ok H st \<Longrightarrow> getenv H name st = Returns (r, st') \<Longrightarrow> env_step st st'"
| setenv: "host_ok H st \<Longrightarrow> malloc_ok new H st \<Longrightarrow>
    setenv H new arr track var value overwrite st = Returns (res, st') \<Longrightarrow> env_step st st'"
| putenv: "host_ok H st \<Longrightarrow> str_at st s \<noteq> None \<Longrightarrow> s \<notin> owned st \<Longrightarrow>
    putenv H arr track s st = Returns (res, st') \<Longrightarrow> env_step st st'"
| unsetenv: "host_ok H st \<Longrightarrow> unsetenv H track name st = Returns (res, st') \<Longrightarrow> env_step st st'"
| clearenv: "host_ok H st \<Longrightarrow> clearenv H track st = Returns st' \<Longrightarrow> env_step st st'"
| deinitialize: "host_ok H st \<Longrightarrow> deinitialize_environ H track st = Returns st' \<Longrightarrow> env_step st st'"
| program: "\<forall>p \<in> set (env_ptrs (environ st)) \<union> owned st. t p \<noteq> None \<Longrightarrow> env_step st (st\<lparr>str_at := t\<rparr>)"

inductive_cases env_step_cases: "env_step st st'"

text \<open>The start of the program.\<close>

definition env_start :: "(nat \<Rightarrow> cstring option) \<Rightarrow> env" where
  "env_start t = \<lparr>environ = Uninitialized, str_at = t, env_alloced = [], oldenv = None, dead_arrays = {}\<rparr>"

lemma env_step_ok: "env_step st st' \<Longrightarrow> env_ok st \<Longrightarrow> env_ok st'"
proof (induction rule: env_step.induct)
  case (getenv H st name r st')
  then show ?case using getenv_good [of st H name] by simp
next
  case (setenv H st new arr track var val overwrite res st')
  then show ?case using setenv_good [of st H new arr track var val overwrite] by simp
next
  case (putenv H st s arr track res st')
  then show ?case using putenv_good [of st H s arr track] by simp
next
  case (unsetenv H st track name res st')
  then show ?case using unsetenv_good [of st H track name] by simp
next
  case (clearenv H st track st')
  then show ?case using clearenv_good [of st H track] by simp
next
  case (deinitialize H st track st')
  then show ?case using deinitialize_good [of st H track] by simp
next
  case (program st t)
  then show ?case by (auto simp: env_ok_def owns_ok_def live_all_def)
qed

lemma env_reached_ok: "env_step\<^sup>*\<^sup>* (env_start t) st \<Longrightarrow> env_ok st"
  by (induction rule: rtranclp_induct) (simp add: env_ok_def owns_ok_def env_start_def, blast intro: env_step_ok)

section \<open>Properties\<close>

text \<open>C20.  Whatever sequence of getenv, setenv, putenv, unsetenv, clearenv and re-initialization has run, and whichever
  allocations failed on the way, as long as putenv was only given live strings that setenv does not
  own and the program freed no string of the environment: no operation reads a string that was freed
  or frees one twice, the strings in the environment and those that setenv owns are live, none is
  recorded twice, and the arrays in use are not freed.\<close>

theorem environ_memory_safe:
  assumes "env_step\<^sup>*\<^sup>* (env_start t) st" "host_ok H st"
  shows "getenv H name st \<noteq> Bad_string \<and> unsetenv H track name st \<noteq> Bad_string \<and>
    (malloc_ok new H st \<longrightarrow> setenv H new arr track name val overwrite st \<noteq> Bad_string) \<and>
    (str_at st s \<noteq> None \<and> s \<notin> owned st \<longrightarrow> putenv H arr track s st \<noteq> Bad_string) \<and>
    clearenv H track st \<noteq> Bad_string \<and> deinitialize_environ H track st \<noteq> Bad_string \<and>
    (\<forall>p \<in> set (env_ptrs (environ st)) \<union> owned st. str_at st p \<noteq> None) \<and> distinct (lives (env_alloced st)) \<and>
    (set_option (env_array (environ st)) \<union> set_option (oldenv st)) \<inter> dead_arrays st = {}"
proof -
  have ok: "env_ok st" by (rule env_reached_ok [OF assms(1)])
  show ?thesis
    using good_not_bad [OF getenv_good [OF ok assms(2)]] good_not_bad [OF unsetenv_good [OF ok assms(2)]]
      good_not_bad [OF setenv_good [OF ok assms(2)]] good_not_bad [OF putenv_good [OF ok assms(2)]]
      good_not_bad [OF clearenv_good [OF ok assms(2)]] good_not_bad [OF deinitialize_good [OF ok assms(2)]]
      ok [unfolded env_ok_def owns_ok_def live_all_def] by (simp add: ball_Un)
qed

text \<open>C21.  setenv, putenv, unsetenv and clearenv update the environment as a map from names to values, where getenv is lookup: each
  call changes the value of its own variable only, as its arguments say, or fails with EINVAL or
  ENOMEM and changes none.  The string given to putenv is live and not one that setenv owns: one that
  it owns is freed (putenv_frees_live_string).\<close>

theorem environ_is_map:
  assumes "env_step\<^sup>*\<^sup>* (env_start t) st" "environ st \<noteq> Uninitialized" "\<forall>s. new = Some s \<longrightarrow> str_at st s = None" "name_ok name"
  shows "(\<exists>r. getenv H name st = Returns (r, st) \<and>
       (case r of None \<Rightarrow> value_of st name = None
        | Some (e, n) \<Rightarrow> \<exists>x. str_at st e = Some x \<and> value_of st name = Some (drop n x))) \<and>
    (\<exists>r st'. setenv H new arr track name v overwrite st = Returns (r, st') \<and>
       (if \<not> overwrite \<and> value_of st name \<noteq> None then r = Inr () \<and> st' = st
        else if new = None \<or> (arr = None \<and> value_of st name = None) then r = Inl ENOMEM \<and> value_of st' = value_of st
        else r = Inr () \<and> value_of st' = (value_of st)(name \<mapsto> v))) \<and>
    (\<exists>st'. unsetenv H track name st = Returns (Inr (), st') \<and> value_of st' = (value_of st)(name := None)) \<and>
    (\<forall>s. str_at st s = Some (name @ CHR ''='' # v) \<and> s \<notin> owned st \<longrightarrow> (\<exists>r st'. putenv H arr track s st = Returns (r, st') \<and>
       (if arr = None \<and> value_of st name = None then r = Inl ENOMEM \<and> value_of st' = value_of st
        else r = Inr () \<and> value_of st' = (value_of st)(name \<mapsto> v)))) \<and>
    (\<exists>st'. clearenv H track st = Returns st' \<and> value_of st' = (\<lambda>_. None)) \<and>
    (\<forall>bad. \<not> name_ok bad \<longrightarrow> setenv H new arr track bad v overwrite st = Returns (Inl EINVAL, st) \<and>
       unsetenv H track bad st = Returns (Inl EINVAL, st))"
proof (intro conjI allI impI)
  have ok: "env_ok st" by (rule env_reached_ok [OF assms(1)])
  note init = assms(2)
  show "\<exists>r. getenv H name st = Returns (r, st) \<and>
       (case r of None \<Rightarrow> value_of st name = None
        | Some (e, n) \<Rightarrow> \<exists>x. str_at st e = Some x \<and> value_of st name = Some (drop n x))"
    by (rule getenv_live [OF ok init])
  show "\<exists>r st'. setenv H new arr track name v overwrite st = Returns (r, st') \<and>
       (if \<not> overwrite \<and> value_of st name \<noteq> None then r = Inr () \<and> st' = st
        else if new = None \<or> (arr = None \<and> value_of st name = None) then r = Inl ENOMEM \<and> value_of st' = value_of st
        else r = Inr () \<and> value_of st' = (value_of st)(name \<mapsto> v))"
    using setenv_live [OF ok init assms(3,4)] by metis
  show "\<exists>st'. unsetenv H track name st = Returns (Inr (), st') \<and> value_of st' = (value_of st)(name := None)"
    using unsetenv_live [OF ok init] assms(4) by metis
  show "\<exists>r st'. putenv H arr track s st = Returns (r, st') \<and>
       (if arr = None \<and> value_of st name = None then r = Inl ENOMEM \<and> value_of st' = value_of st
        else r = Inr () \<and> value_of st' = (value_of st)(name \<mapsto> v))"
    if "str_at st s = Some (name @ CHR ''='' # v) \<and> s \<notin> owned st" for s
    using putenv_live [OF ok init _ _ assms(4)] that by metis
  show "\<exists>st'. clearenv H track st = Returns st' \<and> value_of st' = (\<lambda>_. None)"
    using clearenv_live [OF ok init] by blast
  show "setenv H new arr track bad v overwrite st = Returns (Inl EINVAL, st)" "unsetenv H track bad st = Returns (Inl EINVAL, st)"
    if "\<not> name_ok bad" for bad
    using name_len_ok [of bad] that by (auto simp: setenv_def unsetenv_def Let_def)
qed

text \<open>putenv with a string that setenv put into the environment, as a program can find it through environ, frees the
  string and leaves it in the environment, where the next getenv reads it.\<close>

theorem putenv_frees_live_string:
  assumes "environ st = Environ a [s]" "env_alloced st = [Some s]" "str_at st s = Some (name @ CHR ''='' # v)" "name_ok name"
  shows "\<exists>st'. putenv H arr track s st = Returns (Inr (), st') \<and> env_ptrs (environ st') = [s] \<and> str_at st' s = None \<and>
    getenv H name st' = Bad_string"
proof -
  let ?x = "name @ CHR ''='' # v"
  have l: "name_len ?x = length name" "length name \<noteq> 0" "length name \<noteq> length ?x"
    using binds_name [of name ?x] assms(4) by (auto simp: name_len_def name_ok_def binds_def)
  have n: "name_len name \<noteq> 0" "name_len name = length name" using name_len_ok [of name] assms(4) by blast+
  show ?thesis using assms(1-3) l n
    by (simp add: putenv_def putenv_result_def putenv_at_def read_string_def ensure_environ_def Let_def env_rm_add_def
        free_string_def getenv_def)
qed

section \<open>Examples\<close>

definition empty_host :: env_host where
  "empty_host = \<lparr>eh_sizes = Inr (0, 0), eh_buf = None, eh_array = None, eh_get = Inr []\<rparr>"

definition no_env :: env where
  "no_env = (env_start (\<lambda>_. None))\<lparr>environ := Environ empty_environ []\<rparr>"

lemma no_env_start: "getenv empty_host ''A'' (env_start (\<lambda>_. None)) = Returns (None, no_env)"
  by (simp add: getenv_def ensure_environ_def initialize_environ_def env_start_def empty_host_def no_env_def name_len_def)

lemma no_env_setenv:
  "\<exists>st. setenv empty_host (Some 5) (Some 9) True ''A'' ''1'' True no_env = Returns (Inr (), st) \<and> env_ptrs (environ st) = [5] \<and>
    environ st \<noteq> Uninitialized"
  by (simp add: setenv_def no_env_def env_start_def name_len_def ensure_environ_def putenv_at_def putenv_result_def
      read_string_def Let_def env_rm_add_def free_array_def)

lemma no_env_reached: "env_step\<^sup>*\<^sup>* (env_start (\<lambda>_. None)) no_env"
  by (rule r_into_rtranclp, rule env_step.getenv [OF _ no_env_start]) (simp add: host_ok_def empty_host_def env_start_def)

theorem environ_memory_safe_witness:
  "\<exists>st. env_step\<^sup>*\<^sup>* (env_start (\<lambda>_. None)) st \<and> env_ptrs (environ st) = [5] \<and> getenv empty_host ''A'' st \<noteq> Bad_string"
proof -
  obtain st where st: "setenv empty_host (Some 5) (Some 9) True ''A'' ''1'' True no_env = Returns (Inr (), st)"
      "env_ptrs (environ st) = [5]" "environ st \<noteq> Uninitialized"
    using no_env_setenv by blast
  have "env_step no_env st"
    by (rule env_step.setenv [OF _ _ st(1)]) (simp_all add: host_ok_def malloc_ok_def host_strings_def no_env_def env_start_def)
  then have r: "env_step\<^sup>*\<^sup>* (env_start (\<lambda>_. None)) st" by (rule rtranclp.rtrancl_into_rtrancl [OF no_env_reached])
  show ?thesis using environ_memory_safe [OF r host_ok_done [OF st(3)]] st(2) r by blast
qed

theorem environ_is_map_witness:
  "\<exists>r st. setenv empty_host (Some 5) (Some 9) True ''A'' ''1'' True no_env = Returns (r, st) \<and> value_of st ''A'' = Some ''1''"
proof -
  have "environ no_env \<noteq> Uninitialized" "\<forall>s. Some 5 = Some s \<longrightarrow> str_at no_env s = None" "name_ok ''A''"
    by (simp_all add: no_env_def env_start_def name_ok_def)
  from environ_is_map [OF no_env_reached this, where H = empty_host and arr = "Some 9" and track = True and v = "''1''" and overwrite = True]
  show ?thesis by auto
qed

theorem putenv_frees_live_string_witness:
  "\<exists>st. putenv empty_host None True 5 \<lparr>environ = Environ 9 [5], str_at = (\<lambda>_. None)(5 \<mapsto> ''A=1''), env_alloced = [Some 5],
      oldenv = Some 9, dead_arrays = {}\<rparr> = Returns (Inr (), st) \<and> env_ptrs (environ st) = [5] \<and> str_at st 5 = None \<and>
    getenv empty_host ''A'' st = Bad_string"
  by (rule putenv_frees_live_string [where name = "''A''" and v = "''1''"]) (simp_all add: name_ok_def)

end
