(* ===== verification/Byte_Memory.thy ===== *)
theory Byte_Memory
  imports Prelude "HOL-Library.Monad_Syntax"
begin

text \<open>
  Memory as a partial map from addresses to bytes: an access outside its domain, or of a word that is not
  aligned, is \<open>None\<close>.  Words are little endian.
\<close>

type_synonym memory = "nat \<rightharpoonup> nat"

definition store8 :: "memory \<Rightarrow> nat \<Rightarrow> nat \<Rightarrow> memory option" where
  "store8 mem a v = (if mem a = None then None else Some (mem(a \<mapsto> v mod 256)))"

definition load32 :: "memory \<Rightarrow> nat \<Rightarrow> nat option" where
  "load32 mem a =
     (if a mod 4 \<noteq> 0 then None
      else do {
        b0 \<leftarrow> mem a; b1 \<leftarrow> mem (a + 1); b2 \<leftarrow> mem (a + 2); b3 \<leftarrow> mem (a + 3);
        Some (b0 + 256 * b1 + 65536 * b2 + 16777216 * b3) })"

fun store_bytes :: "memory \<Rightarrow> nat \<Rightarrow> nat list \<Rightarrow> memory option" where
  "store_bytes mem a [] = Some mem"
| "store_bytes mem a (b # bs) = do { mem \<leftarrow> store8 mem a b; store_bytes mem (a + 1) bs }"

definition store32 :: "memory \<Rightarrow> nat \<Rightarrow> nat \<Rightarrow> memory option" where
  "store32 mem a w = (if a mod 4 \<noteq> 0 then None else store_bytes mem a [w, w div 256, w div 65536, w div 16777216])"

definition store64 :: "memory \<Rightarrow> nat \<Rightarrow> nat \<Rightarrow> memory option" where
  "store64 mem a w =
     (if a mod 8 \<noteq> 0 then None
      else do { mem \<leftarrow> store32 mem a (w mod 4294967296); store32 mem (a + 4) (w div 4294967296) })"

text \<open>All values are bytes, and a range is mapped.\<close>

definition bytes_ok :: "memory \<Rightarrow> bool" where
  "bytes_ok mem \<longleftrightarrow> (\<forall>a b. mem a = Some b \<longrightarrow> b < 256)"

abbreviation mapped :: "memory \<Rightarrow> nat \<Rightarrow> nat \<Rightarrow> bool" where
  "mapped mem a n \<equiv> {a..<a + n} \<subseteq> dom mem"

lemma mappedD: "mapped mem a n \<Longrightarrow> a \<le> x \<Longrightarrow> x < a + n \<Longrightarrow> \<exists>b. mem x = Some b"
  by (auto simp: subset_iff dom_def)

lemma mapped_sub: "mapped mem a n \<Longrightarrow> a \<le> b \<Longrightarrow> b + m \<le> a + n \<Longrightarrow> mapped mem b m"
  by (erule order_trans [rotated]) simp

lemma mapped_at: "mapped mem a n \<Longrightarrow> a \<le> x \<Longrightarrow> x < a + n \<Longrightarrow> x \<in> dom mem"
  by (erule subsetD) simp

lemma bytes_okD: "bytes_ok mem \<Longrightarrow> mem a = Some b \<Longrightarrow> b < 256"
  by (auto simp: bytes_ok_def)

section \<open>Bytes of words\<close>

lemma word_bytes:
  fixes b0 b1 b2 b3 :: nat
  assumes "b0 < 256" "b1 < 256" "b2 < 256" "b3 < 256"
  defines "w \<equiv> b0 + 256 * b1 + 65536 * b2 + 16777216 * b3"
  shows "w mod 256 = b0" "w div 256 mod 256 = b1" "w div 65536 mod 256 = b2" "w div 16777216 mod 256 = b3" "w < 4294967296"
proof -
  define z y where "z = b2 + 256 * b3" and "y = b1 + 256 * z"
  have "w = b0 + 256 * y" by (simp add: w_def y_def z_def)
  then have "w mod 256 = b0" "w div 256 = y" using assms(1) by simp_all
  moreover have "y mod 256 = b1" "y div 256 = z" using assms(2) by (simp_all add: y_def)
  moreover have "z mod 256 = b2" "z div 256 mod 256 = b3" using assms(3,4) by (simp_all add: z_def)
  moreover have "w div 65536 = w div 256 div 256" "w div 16777216 = w div 256 div 256 div 256" by (simp_all add: div_mult2_eq [symmetric])
  ultimately show "w mod 256 = b0" "w div 256 mod 256 = b1" "w div 65536 mod 256 = b2" "w div 16777216 mod 256 = b3"
    by simp_all
  show "w < 4294967296" unfolding w_def using assms by linarith
qed

lemma bit_test: "n AND 2 ^ k = 0 \<longleftrightarrow> even (n div 2 ^ k)" for n :: nat
  by (simp only: and_exp_eq_0_iff_not_bit bit_iff_odd simp_thms)

section \<open>Stores\<close>

definition put :: "memory \<Rightarrow> nat \<Rightarrow> nat list \<Rightarrow> memory" where
  "put mem a bs = (\<lambda>x. if a \<le> x \<and> x < a + length bs then Some (bs ! (x - a)) else mem x)"

lemma put_dom: "mapped mem a (length bs) \<Longrightarrow> dom (put mem a bs) = dom mem"
  by (auto simp: put_def dom_def subset_iff split: if_splits)

lemma store_bytes_put: "mapped mem a (length bs) \<Longrightarrow> store_bytes mem a bs = Some (put mem a (map (\<lambda>b. b mod 256) bs))"
proof (induction bs arbitrary: mem a)
  case Nil
  then show ?case by (auto simp: put_def fun_eq_iff)
next
  case (Cons b bs)
  let ?m = "mem(a \<mapsto> b mod 256)"
  have "a \<in> dom mem" by (rule subsetD [OF Cons.prems]) simp
  then have s: "store8 mem a b = Some ?m" by (auto simp: store8_def)
  have "mapped mem (a + 1) (length bs)" by (rule mapped_sub [OF Cons.prems]) simp_all
  then have "mapped ?m (a + 1) (length bs)" by auto
  from Cons.IH [OF this] have "store_bytes mem a (b # bs) = Some (put ?m (a + 1) (map (\<lambda>b. b mod 256) bs))"
    by (simp only: store_bytes.simps s Option.bind.bind_lunit)
  also have "put ?m (a + 1) (map (\<lambda>b. b mod 256) bs) = put mem a (map (\<lambda>b. b mod 256) (b # bs))"
    by (auto simp: put_def fun_eq_iff nth_Cons' Suc_le_eq)
  finally show ?case .
qed

lemma store8_put: "a \<in> dom mem \<Longrightarrow> store8 mem a b = Some (put mem a [b mod 256])"
  by (auto simp: store8_def put_def fun_eq_iff)

lemma store32_put:
  assumes "b0 < 256" "b1 < 256" "b2 < 256" "b3 < 256" "a mod 4 = 0" "mapped mem a 4"
  shows "store32 mem a (b0 + 256 * b1 + 65536 * b2 + 16777216 * b3) = Some (put mem a [b0, b1, b2, b3])"
proof -
  define w where "w = b0 + 256 * b1 + 65536 * b2 + 16777216 * b3"
  let ?bs = "[w, w div 256, w div 65536, w div 16777216]"
  have len: "length ?bs = 4" by simp
  have "store_bytes mem a ?bs = Some (put mem a (map (\<lambda>b. b mod 256) ?bs))" by (rule store_bytes_put) (unfold len, rule assms(6))
  then show ?thesis
    using word_bytes [OF assms(1-4), folded w_def] assms(5) unfolding w_def [symmetric] store32_def by (simp del: store_bytes.simps)
qed

lemma load32_bytes:
  assumes "a mod 4 = 0" "mem a = Some b0" "mem (a + 1) = Some b1" "mem (a + 2) = Some b2" "mem (a + 3) = Some b3"
  shows "load32 mem a = Some (b0 + 256 * b1 + 65536 * b2 + 16777216 * b3)"
  using assms by (simp add: load32_def)

section \<open>A range of equal bytes\<close>

definition filled :: "memory \<Rightarrow> nat set \<Rightarrow> nat \<Rightarrow> memory" where
  "filled mem A c = (\<lambda>a. if a \<in> A then Some c else mem a)"

lemma filled_empty [simp]: "filled mem {} c = mem"
  by (simp add: filled_def)

lemma filled_dom: "A \<subseteq> dom mem \<Longrightarrow> dom (filled mem A c) = dom mem"
  by (auto simp: filled_def dom_def)

lemma filled_put: "put (filled mem A c) a (replicate k c) = filled mem (A \<union> {a..<a + k}) c"
  by (auto simp: put_def filled_def fun_eq_iff)

lemma store8_filled:
  "c < 256 \<Longrightarrow> A \<subseteq> dom mem \<Longrightarrow> a \<in> dom mem \<Longrightarrow> store8 (filled mem A c) a c = Some (filled mem (A \<union> {a..<a + 1}) c)"
  using store8_put [of a "filled mem A c" c] filled_dom [of A mem c] filled_put [of mem A c a 1] by simp

lemma store32_filled:
  assumes "c < 256" "A \<subseteq> dom mem" "mapped mem a 4" "a mod 4 = 0"
  shows "store32 (filled mem A c) a (c * 16843009) = Some (filled mem (A \<union> {a..<a + 4}) c)"
proof -
  have w: "c * 16843009 = c + 256 * c + 65536 * c + 16777216 * c" by simp
  have "mapped (filled mem A c) a 4" using assms(2,3) by (simp add: filled_dom)
  from store32_put [OF assms(1,1,1,1,4) this] have "store32 (filled mem A c) a (c * 16843009) = Some (put (filled mem A c) a [c, c, c, c])"
    unfolding w .
  moreover have "replicate 4 c = [c, c, c, c]" by (simp add: numeral_eq_Suc)
  ultimately show ?thesis using filled_put [of mem A c a 4] by simp
qed

lemma store64_filled:
  assumes "c < 256" "A \<subseteq> dom mem" "mapped mem a 8" "a mod 8 = 0"
  shows "store64 (filled mem A c) a (c * 16843009 + c * 16843009 * 4294967296) = Some (filled mem (A \<union> {a..<a + 8}) c)"
proof -
  have "a mod 4 = a mod 8 mod 4" by (simp add: mod_mod_cancel)
  then have m: "a mod 4 = 0" "(a + 4) mod 4 = 0" using assms(4) by simp_all
  have b: "mapped mem a 4" "mapped mem (a + 4) 4" by (rule mapped_sub [OF assms(3)]; simp)+
  then have A: "A \<union> {a..<a + 4} \<subseteq> dom mem" using assms(2) by blast
  define x where "x = c * 16843009"
  have "x < 4294967296" using assms(1) by (simp add: x_def)
  then have w: "(x + x * 4294967296) mod 4294967296 = x" "(x + x * 4294967296) div 4294967296 = x"
    by (simp_all only: mod_mult_self1 mod_less div_mult_self1 div_less)
  have "{a..<a + 4} \<union> {a + 4..<a + 4 + 4} = {a..<a + 8}" by auto
  then show ?thesis using store32_filled [OF assms(1,2) b(1) m(1)] store32_filled [OF assms(1) A b(2) m(2)] assms(4)
    unfolding store64_def x_def [symmetric] w by (simp add: Un_assoc)
qed

end
