(* ===== verification/Mem_Copy.thy ===== *)
theory Mem_Copy
  imports Byte_Memory
begin

text \<open>
  memset, memcpy and memmove (libc-top-half/musl/src/string: memset.c, memcpy.c, memmove.c, mempcpy.c) on a memory in
  which every access is checked.  With bulk memory the threshold is \<open>Some t\<close>, and more than \<open>t\<close> bytes are left to an
  instruction of the machine.
\<close>

definition bulk_exceeded :: "nat option \<Rightarrow> nat \<Rightarrow> bool" where
  "bulk_exceeded bulk n \<longleftrightarrow> (case bulk of Some t \<Rightarrow> t < n | None \<Rightarrow> False)"

text \<open>The instructions memory.fill and memory.copy.\<close>

definition memory_fill :: "memory \<Rightarrow> nat \<Rightarrow> nat \<Rightarrow> nat \<Rightarrow> memory option" where
  "memory_fill mem d c n = (if mapped mem d n then Some (filled mem {d..<d + n} (c mod 256)) else None)"

definition memory_copy :: "memory \<Rightarrow> nat \<Rightarrow> nat \<Rightarrow> nat \<Rightarrow> memory option" where
  "memory_copy mem d s n =
     (if mapped mem s n \<and> mapped mem d n then Some (\<lambda>a. if d \<le> a \<and> a < d + n then mem (s + (a - d)) else mem a)
      else None)"

section \<open>memset\<close>

function fill64_loop :: "memory \<Rightarrow> nat \<Rightarrow> nat \<Rightarrow> nat \<Rightarrow> memory option" where
  "fill64_loop mem s n c64 =
     (if n \<ge> 32 then do {
        mem \<leftarrow> store64 mem s c64;
        mem \<leftarrow> store64 mem (s + 8) c64;
        mem \<leftarrow> store64 mem (s + 16) c64;
        mem \<leftarrow> store64 mem (s + 24) c64;
        fill64_loop mem (s + 32) (n - 32) c64 }
      else Some mem)"
  by pat_completeness auto
termination by (relation "measure (\<lambda>(mem, s, n, c). n)") auto

declare fill64_loop.simps [simp del]

definition fill_words :: "memory \<Rightarrow> nat \<Rightarrow> nat \<Rightarrow> nat \<Rightarrow> memory option" where
  "fill_words mem s c n =
     (let k = szsub 0 s AND 3; s = s + k; n = (n - k) AND 0xfffffffc; c32 = szmul (0xffffffff div 255) (c mod 256) in do {
        mem \<leftarrow> store32 mem s c32;
        mem \<leftarrow> store32 mem (s + n - 4) c32;
        if n \<le> 8 then Some mem
        else do {
          mem \<leftarrow> store32 mem (s + 4) c32;
          mem \<leftarrow> store32 mem (s + 8) c32;
          mem \<leftarrow> store32 mem (s + n - 12) c32;
          mem \<leftarrow> store32 mem (s + n - 8) c32;
          if n \<le> 24 then Some mem
          else do {
            mem \<leftarrow> store32 mem (s + 12) c32;
            mem \<leftarrow> store32 mem (s + 16) c32;
            mem \<leftarrow> store32 mem (s + 20) c32;
            mem \<leftarrow> store32 mem (s + 24) c32;
            mem \<leftarrow> store32 mem (s + n - 28) c32;
            mem \<leftarrow> store32 mem (s + n - 24) c32;
            mem \<leftarrow> store32 mem (s + n - 20) c32;
            mem \<leftarrow> store32 mem (s + n - 16) c32;
            let k = 24 + (s AND 4) in
            fill64_loop mem (s + k) (n - k) (c32 OR push_bit 32 c32) } } })"

definition memset :: "nat option \<Rightarrow> memory \<Rightarrow> nat \<Rightarrow> nat \<Rightarrow> nat \<Rightarrow> memory option" where
  "memset bulk mem s c n =
     (if bulk_exceeded bulk n then memory_fill mem s c n
      else if n = 0 then Some mem
      else do {
        mem \<leftarrow> store8 mem s c;
        mem \<leftarrow> store8 mem (s + n - 1) c;
        if n \<le> 2 then Some mem
        else do {
          mem \<leftarrow> store8 mem (s + 1) c;
          mem \<leftarrow> store8 mem (s + 2) c;
          mem \<leftarrow> store8 mem (s + n - 2) c;
          mem \<leftarrow> store8 mem (s + n - 3) c;
          if n \<le> 6 then Some mem
          else do {
            mem \<leftarrow> store8 mem (s + 3) c;
            mem \<leftarrow> store8 mem (s + n - 4) c;
            if n \<le> 8 then Some mem else fill_words mem s c n } } })"

section \<open>memcpy\<close>

definition copy8 :: "memory \<Rightarrow> nat \<Rightarrow> nat \<Rightarrow> memory option" where
  "copy8 mem d s = do { b \<leftarrow> mem s; store8 mem d b }"

definition copy32 :: "memory \<Rightarrow> nat \<Rightarrow> nat \<Rightarrow> memory option" where
  "copy32 mem d s = do { w \<leftarrow> load32 mem s; store32 mem d w }"

fun copy_bytes :: "memory \<Rightarrow> nat \<Rightarrow> nat \<Rightarrow> nat \<Rightarrow> memory option" where
  "copy_bytes mem d s 0 = Some mem"
| "copy_bytes mem d s (Suc n) = do { mem \<leftarrow> copy8 mem d s; copy_bytes mem (d + 1) (s + 1) n }"

text \<open>The loops give memory, \<open>d\<close>, \<open>s\<close> and \<open>n\<close>.\<close>

type_synonym copying = "(memory \<times> nat \<times> nat \<times> nat) option"

function copy_head :: "memory \<Rightarrow> nat \<Rightarrow> nat \<Rightarrow> nat \<Rightarrow> copying" where
  "copy_head mem d s n =
     (if s mod 4 \<noteq> 0 \<and> n \<noteq> 0 then do { mem \<leftarrow> copy8 mem d s; copy_head mem (d + 1) (s + 1) (n - 1) }
      else Some (mem, d, s, n))"
  by pat_completeness auto
termination by (relation "measure (\<lambda>(mem, d, s, n). n)") auto

function copy_blocks :: "memory \<Rightarrow> nat \<Rightarrow> nat \<Rightarrow> nat \<Rightarrow> copying" where
  "copy_blocks mem d s n =
     (if n \<ge> 16 then do {
        mem \<leftarrow> copy32 mem d s;
        mem \<leftarrow> copy32 mem (d + 4) (s + 4);
        mem \<leftarrow> copy32 mem (d + 8) (s + 8);
        mem \<leftarrow> copy32 mem (d + 12) (s + 12);
        copy_blocks mem (d + 16) (s + 16) (n - 16) }
      else Some (mem, d, s, n))"
  by pat_completeness auto
termination by (relation "measure (\<lambda>(mem, d, s, n). n)") auto

definition aligned_tail :: "memory \<Rightarrow> nat \<Rightarrow> nat \<Rightarrow> nat \<Rightarrow> memory option" where
  "aligned_tail mem d s n = do {
     (mem, d, s) \<leftarrow> (if n AND 8 \<noteq> 0 then do {
         mem \<leftarrow> copy32 mem d s; mem \<leftarrow> copy32 mem (d + 4) (s + 4); Some (mem, d + 8, s + 8) } else Some (mem, d, s));
     (mem, d, s) \<leftarrow> (if n AND 4 \<noteq> 0 then do { mem \<leftarrow> copy32 mem d s; Some (mem, d + 4, s + 4) } else Some (mem, d, s));
     (mem, d, s) \<leftarrow> (if n AND 2 \<noteq> 0 then do { mem \<leftarrow> copy_bytes mem d s 2; Some (mem, d + 2, s + 2) } else Some (mem, d, s));
     if n AND 1 \<noteq> 0 then copy8 mem d s else Some mem }"

definition tail_part :: "nat \<Rightarrow> nat \<Rightarrow> memory \<times> nat \<times> nat \<Rightarrow> (memory \<times> nat \<times> nat) option" where
  "tail_part n k st = (case st of (mem, d, s) \<Rightarrow>
     if n AND k \<noteq> 0 then do { mem \<leftarrow> copy_bytes mem d s k; Some (mem, d + k, s + k) } else Some (mem, d, s))"

definition byte_tail :: "memory \<Rightarrow> nat \<Rightarrow> nat \<Rightarrow> nat \<Rightarrow> memory option" where
  "byte_tail mem d s n = do {
     st \<leftarrow> tail_part n 16 (mem, d, s);
     st \<leftarrow> tail_part n 8 st;
     st \<leftarrow> tail_part n 4 st;
     (mem, d, s) \<leftarrow> tail_part n 2 st;
     if n AND 1 \<noteq> 0 then copy8 mem d s else Some mem }"

text \<open>The cases of the switch differ in \<open>j\<close>, the distance of \<open>d\<close> to the word boundary below it.\<close>

definition funnel :: "nat \<Rightarrow> nat \<Rightarrow> nat \<Rightarrow> nat" where
  "funnel j w x = drop_bit (32 - 8 * j) w OR push_bit (8 * j) x mod 4294967296"

function shift_blocks :: "nat \<Rightarrow> nat \<Rightarrow> memory \<Rightarrow> nat \<Rightarrow> nat \<Rightarrow> nat \<Rightarrow> copying" where
  "shift_blocks j w mem d s n =
     (if n \<ge> 16 + j then do {
        x \<leftarrow> load32 mem (s + j);
        mem \<leftarrow> store32 mem d (funnel j w x);
        w \<leftarrow> load32 mem (s + j + 4);
        mem \<leftarrow> store32 mem (d + 4) (funnel j x w);
        x \<leftarrow> load32 mem (s + j + 8);
        mem \<leftarrow> store32 mem (d + 8) (funnel j w x);
        w \<leftarrow> load32 mem (s + j + 12);
        mem \<leftarrow> store32 mem (d + 12) (funnel j x w);
        shift_blocks j w mem (d + 16) (s + 16) (n - 16) }
      else Some (mem, d, s, n))"
  by pat_completeness auto
termination by (relation "measure (\<lambda>(j, w, mem, d, s, n). n)") auto

declare copy_head.simps [simp del] copy_blocks.simps [simp del] shift_blocks.simps [simp del]

definition memcpy_shift :: "memory \<Rightarrow> nat \<Rightarrow> nat \<Rightarrow> nat \<Rightarrow> copying" where
  "memcpy_shift mem d s n =
     (let j = d mod 4 in do {
        w \<leftarrow> load32 mem s;
        mem \<leftarrow> copy_bytes mem d s (4 - j);
        shift_blocks j w mem (d + (4 - j)) (s + (4 - j)) (n - (4 - j)) })"

definition mem_cpy :: "nat option \<Rightarrow> memory \<Rightarrow> nat \<Rightarrow> nat \<Rightarrow> nat \<Rightarrow> memory option" where
  "mem_cpy bulk mem d s n =
     (if bulk_exceeded bulk n then memory_copy mem d s n
      else do {
        (mem, d, s, n) \<leftarrow> copy_head mem d s n;
        if d mod 4 = 0 then do {
          (mem, d, s, n) \<leftarrow> copy_blocks mem d s n;
          aligned_tail mem d s n }
        else do {
          (mem, d, s, n) \<leftarrow> (if n \<ge> 32 then memcpy_shift mem d s n else Some (mem, d, s, n));
          byte_tail mem d s n } })"

section \<open>memmove\<close>

function up_head :: "memory \<Rightarrow> nat \<Rightarrow> nat \<Rightarrow> nat \<Rightarrow> copying" where
  "up_head mem d s n =
     (if d mod 4 \<noteq> 0 \<and> n \<noteq> 0 then do { mem \<leftarrow> copy8 mem d s; up_head mem (d + 1) (s + 1) (n - 1) }
      else Some (mem, d, s, n))"
  by pat_completeness auto
termination by (relation "measure (\<lambda>(mem, d, s, n). n)") auto

function up_words :: "memory \<Rightarrow> nat \<Rightarrow> nat \<Rightarrow> nat \<Rightarrow> copying" where
  "up_words mem d s n =
     (if n \<ge> 4 then do { mem \<leftarrow> copy32 mem d s; up_words mem (d + 4) (s + 4) (n - 4) } else Some (mem, d, s, n))"
  by pat_completeness auto
termination by (relation "measure (\<lambda>(mem, d, s, n). n)") auto

fun down_head :: "memory \<Rightarrow> nat \<Rightarrow> nat \<Rightarrow> nat \<Rightarrow> (memory \<times> nat) option" where
  "down_head mem d s 0 = Some (mem, 0)"
| "down_head mem d s (Suc n) =
     (if (d + Suc n) mod 4 \<noteq> 0 then do { mem \<leftarrow> copy8 mem (d + n) (s + n); down_head mem d s n } else Some (mem, Suc n))"

function down_words :: "memory \<Rightarrow> nat \<Rightarrow> nat \<Rightarrow> nat \<Rightarrow> (memory \<times> nat) option" where
  "down_words mem d s n =
     (if n \<ge> 4 then do { mem \<leftarrow> copy32 mem (d + (n - 4)) (s + (n - 4)); down_words mem d s (n - 4) } else Some (mem, n))"
  by pat_completeness auto
termination by (relation "measure (\<lambda>(mem, d, s, n). n)") auto

declare up_head.simps [simp del] up_words.simps [simp del] down_words.simps [simp del]

fun down_bytes :: "memory \<Rightarrow> nat \<Rightarrow> nat \<Rightarrow> nat \<Rightarrow> memory option" where
  "down_bytes mem d s 0 = Some mem"
| "down_bytes mem d s (Suc n) = do { mem \<leftarrow> copy8 mem (d + n) (s + n); down_bytes mem d s n }"

definition memmove :: "nat option \<Rightarrow> memory \<Rightarrow> nat \<Rightarrow> nat \<Rightarrow> nat \<Rightarrow> memory option" where
  "memmove bulk mem d s n =
     (if bulk_exceeded bulk n then memory_copy mem d s n
      else if d = s then Some mem
      else if szsub (szsub s d) n \<le> szsub 0 (szmul 2 n) then mem_cpy bulk mem d s n
      else if d < s then do {
        (mem, d, s, n) \<leftarrow> (if s mod 4 = d mod 4 then do {
            (mem, d, s, n) \<leftarrow> up_head mem d s n;
            up_words mem d s n } else Some (mem, d, s, n));
        copy_bytes mem d s n }
      else do {
        (mem, n) \<leftarrow> (if s mod 4 = d mod 4 then do {
            (mem, n) \<leftarrow> down_head mem d s n;
            down_words mem d s n } else Some (mem, n));
        down_bytes mem d s n })"

end
