(* ===== verification/Strings.thy ===== *)
theory Strings
  imports Mem_Copy
begin

text \<open>
  Searching, comparing and copying of strings (libc-top-half/musl/src/string), on the memory of Byte_Memory.  A search that runs on
  into memory that is not mapped is \<open>None\<close>, as is one that does not end.
\<close>

section \<open>Words with a zero byte\<close>

abbreviation ONES :: nat where "ONES \<equiv> 0x01010101"
abbreviation HIGHS :: nat where "HIGHS \<equiv> 0x80808080"

text \<open>\<open>(x)-ONES & ~(x) & HIGHS\<close>\<close>

definition haszero :: "nat \<Rightarrow> bool" where
  "haszero x \<longleftrightarrow> szsub x ONES AND (x XOR 0xffffffff) AND HIGHS \<noteq> 0"

section \<open>strlen and strchrnul\<close>

lemma boundary_nearer: "0 < s mod 4 \<Longrightarrow> (4 - Suc s mod 4) mod 4 < 4 - s mod 4"
proof -
  assume "0 < s mod 4"
  then have "s mod 4 = 1 \<or> s mod 4 = 2 \<or> s mod 4 = 3" by linarith
  then show ?thesis by (elim disjE) (simp_all add: mod_Suc)
qed

text \<open>Up to the word boundary: \<open>Inl\<close> of the address where the function returns, or \<open>Inr\<close> of the boundary.  The value \<open>c\<close> is 0 in strlen.\<close>

function search_head :: "memory \<Rightarrow> nat \<Rightarrow> nat \<Rightarrow> (nat + nat) option" where
  "search_head mem c s =
     (if s mod 4 \<noteq> 0 then do { b \<leftarrow> mem s; if b = 0 \<or> b = c then Some (Inl s) else search_head mem c (s + 1) }
      else Some (Inr s))"
  by pat_completeness auto
termination by (relation "measure (\<lambda>(mem, c, s). (4 - s mod 4) mod 4)") (auto simp: boundary_nearer)

partial_function (option) strlen_words :: "memory \<Rightarrow> nat \<Rightarrow> nat option" where
  "strlen_words mem s = do { w \<leftarrow> load32 mem s; if haszero w then Some s else strlen_words mem (s + 4) }"

partial_function (option) strchrnul_words :: "memory \<Rightarrow> nat \<Rightarrow> nat \<Rightarrow> nat option" where
  "strchrnul_words mem k s =
     do { w \<leftarrow> load32 mem s; if haszero w \<or> haszero (w XOR k) then Some s else strchrnul_words mem k (s + 4) }"

partial_function (option) search_tail :: "memory \<Rightarrow> nat \<Rightarrow> nat \<Rightarrow> nat option" where
  "search_tail mem c s = do { b \<leftarrow> mem s; if b = 0 \<or> b = c then Some s else search_tail mem c (s + 1) }"

definition strlen :: "memory \<Rightarrow> nat \<Rightarrow> nat option" where
  "strlen mem a = do {
     r \<leftarrow> search_head mem 0 a;
     case r of
       Inl s \<Rightarrow> Some (s - a)
     | Inr s \<Rightarrow> do { s \<leftarrow> strlen_words mem s; s \<leftarrow> search_tail mem 0 s; Some (s - a) } }"

definition strchrnul :: "memory \<Rightarrow> nat \<Rightarrow> nat \<Rightarrow> nat option" where
  "strchrnul mem s c =
     (let c = c mod 256 in
      if c = 0 then do { l \<leftarrow> strlen mem s; Some (s + l) }
      else do {
        r \<leftarrow> search_head mem c s;
        case r of
          Inl s \<Rightarrow> Some s
        | Inr s \<Rightarrow> do { s \<leftarrow> strchrnul_words mem (szmul ONES c) s; search_tail mem c s } })"

text \<open>A NULL result is \<open>Some None\<close>.\<close>

definition strchr :: "memory \<Rightarrow> nat \<Rightarrow> nat \<Rightarrow> nat option option" where
  "strchr mem s c = do { r \<leftarrow> strchrnul mem s c; b \<leftarrow> mem r; Some (if b = c mod 256 then Some r else None) }"

section \<open>memchr\<close>

fun memchr_head :: "memory \<Rightarrow> nat \<Rightarrow> nat \<Rightarrow> nat \<Rightarrow> (nat \<times> nat) option" where
  "memchr_head mem c s 0 = Some (s, 0)"
| "memchr_head mem c s (Suc n) =
     (if s AND 3 \<noteq> 0 then do { b \<leftarrow> mem s; if b \<noteq> c then memchr_head mem c (s + 1) n else Some (s, Suc n) }
      else Some (s, Suc n))"

function memchr_words :: "memory \<Rightarrow> nat \<Rightarrow> nat \<Rightarrow> nat \<Rightarrow> (nat \<times> nat) option" where
  "memchr_words mem k s n =
     (if n \<ge> 4 then do { w \<leftarrow> load32 mem s; if haszero (w XOR k) then Some (s, n) else memchr_words mem k (s + 4) (n - 4) }
      else Some (s, n))"
  by pat_completeness auto
termination by (relation "measure (\<lambda>(mem, k, s, n). n)") auto

declare search_head.simps [simp del] memchr_words.simps [simp del]

fun memchr_tail :: "memory \<Rightarrow> nat \<Rightarrow> nat \<Rightarrow> nat \<Rightarrow> (nat \<times> nat) option" where
  "memchr_tail mem c s 0 = Some (s, 0)"
| "memchr_tail mem c s (Suc n) = do { b \<leftarrow> mem s; if b \<noteq> c then memchr_tail mem c (s + 1) n else Some (s, Suc n) }"

definition memchr :: "memory \<Rightarrow> nat \<Rightarrow> nat \<Rightarrow> nat \<Rightarrow> nat option option" where
  "memchr mem s c n =
     (let c = c mod 256 in do {
        (s, n) \<leftarrow> memchr_head mem c s n;
        (s, n) \<leftarrow> (if n = 0 then Some (s, n)
          else do { b \<leftarrow> mem s; if b \<noteq> c then memchr_words mem (szmul ONES c) s n else Some (s, n) });
        (s, n) \<leftarrow> memchr_tail mem c s n;
        Some (if n \<noteq> 0 then Some s else None) })"

definition strnlen :: "memory \<Rightarrow> nat \<Rightarrow> nat \<Rightarrow> nat option" where
  "strnlen mem s n = do { p \<leftarrow> memchr mem s 0 n; Some (case p of Some p \<Rightarrow> p - s | None \<Rightarrow> n) }"

fun memrchr :: "memory \<Rightarrow> nat \<Rightarrow> nat \<Rightarrow> nat \<Rightarrow> nat option option" where
  "memrchr mem s c 0 = Some None"
| "memrchr mem s c (Suc n) = do { b \<leftarrow> mem (s + n); if b = c mod 256 then Some (Some (s + n)) else memrchr mem s c n }"

definition strrchr :: "memory \<Rightarrow> nat \<Rightarrow> nat \<Rightarrow> nat option option" where
  "strrchr mem s c = do { l \<leftarrow> strlen mem s; memrchr mem s c (l + 1) }"

section \<open>Comparing\<close>

fun memcmp :: "memory \<Rightarrow> nat \<Rightarrow> nat \<Rightarrow> nat \<Rightarrow> int option" where
  "memcmp mem l r 0 = Some 0"
| "memcmp mem l r (Suc n) = do {
     x \<leftarrow> mem l; y \<leftarrow> mem r;
     if x = y then memcmp mem (l + 1) (r + 1) n else Some (int x - int y) }"

partial_function (option) strcmp :: "memory \<Rightarrow> nat \<Rightarrow> nat \<Rightarrow> int option" where
  "strcmp mem l r = do {
     x \<leftarrow> mem l; y \<leftarrow> mem r;
     if x = y \<and> x \<noteq> 0 then strcmp mem (l + 1) (r + 1) else Some (int x - int y) }"

fun strncmp_loop :: "memory \<Rightarrow> nat \<Rightarrow> nat \<Rightarrow> nat \<Rightarrow> int option" where
  "strncmp_loop mem l r 0 = do { x \<leftarrow> mem l; y \<leftarrow> mem r; Some (int x - int y) }"
| "strncmp_loop mem l r (Suc n) = do {
     x \<leftarrow> mem l; y \<leftarrow> mem r;
     if x \<noteq> 0 \<and> y \<noteq> 0 \<and> x = y then strncmp_loop mem (l + 1) (r + 1) n else Some (int x - int y) }"

definition strncmp :: "memory \<Rightarrow> nat \<Rightarrow> nat \<Rightarrow> nat \<Rightarrow> int option" where
  "strncmp mem l r n = (case n of 0 \<Rightarrow> Some 0 | Suc n \<Rightarrow> strncmp_loop mem l r n)"

section \<open>Copying\<close>

text \<open>The loops \<open>(*d=*s)\<close> that go on while the byte is not 0, with at most \<open>n\<close> bytes; and on whole words.\<close>

fun copy_str :: "memory \<Rightarrow> nat \<Rightarrow> nat \<Rightarrow> nat \<Rightarrow> copying" where
  "copy_str mem d s 0 = Some (mem, d, s, 0)"
| "copy_str mem d s (Suc n) = do {
     b \<leftarrow> mem s; mem \<leftarrow> store8 mem d b;
     if b \<noteq> 0 then copy_str mem (d + 1) (s + 1) n else Some (mem, d, s, Suc n) }"

fun copy_str_head :: "memory \<Rightarrow> nat \<Rightarrow> nat \<Rightarrow> nat \<Rightarrow> copying" where
  "copy_str_head mem d s 0 = Some (mem, d, s, 0)"
| "copy_str_head mem d s (Suc n) =
     (if s AND 3 \<noteq> 0 then do {
        b \<leftarrow> mem s; mem \<leftarrow> store8 mem d b;
        if b \<noteq> 0 then copy_str_head mem (d + 1) (s + 1) n else Some (mem, d, s, Suc n) }
      else Some (mem, d, s, Suc n))"

function copy_str_words :: "memory \<Rightarrow> nat \<Rightarrow> nat \<Rightarrow> nat \<Rightarrow> copying" where
  "copy_str_words mem d s n =
     (if n \<ge> 4 then do {
        w \<leftarrow> load32 mem s;
        if haszero w then Some (mem, d, s, n)
        else do { mem \<leftarrow> store32 mem d w; copy_str_words mem (d + 4) (s + 4) (n - 4) } }
      else Some (mem, d, s, n))"
  by pat_completeness auto
termination by (relation "measure (\<lambda>(mem, d, s, n). n)") auto

declare copy_str_words.simps [simp del]

text \<open>strlcpy: the memory and the return value.\<close>

definition strlcpy :: "memory \<Rightarrow> nat \<Rightarrow> nat \<Rightarrow> nat \<Rightarrow> (memory \<times> nat) option" where
  "strlcpy mem d0 s n =
     (case n of
        0 \<Rightarrow> do { l \<leftarrow> strlen mem s; Some (mem, l) }
      | Suc n \<Rightarrow> do {
          (mem, d, s, n) \<leftarrow> (if s AND 3 = d0 AND 3 then do {
              (mem, d, s, n) \<leftarrow> copy_str_head mem d0 s n;
              if n = 0 then Some (mem, d, s, n)
              else do { b \<leftarrow> mem s; if b \<noteq> 0 then copy_str_words mem d s n else Some (mem, d, s, n) } }
            else Some (mem, d0, s, n));
          (mem, d, s, n) \<leftarrow> copy_str mem d s n;
          mem \<leftarrow> store8 mem d 0;
          l \<leftarrow> strlen mem s;
          Some (mem, d - d0 + l) })"

definition strlcat :: "memory \<Rightarrow> nat \<Rightarrow> nat \<Rightarrow> nat \<Rightarrow> (memory \<times> nat) option" where
  "strlcat mem d s n = do {
     l \<leftarrow> strnlen mem d n;
     if l = n then do { k \<leftarrow> strlen mem s; Some (mem, l + k) }
     else do { (mem, k) \<leftarrow> strlcpy mem (d + l) s (n - l); Some (mem, l + k) } }"

section \<open>Sets of bytes\<close>

text \<open>The macro BITOP on the words of the array.\<close>

type_synonym byteset = "nat list"

definition set_bit_of :: "byteset \<Rightarrow> nat \<Rightarrow> byteset" where
  "set_bit_of a b = a[b div 32 := a ! (b div 32) OR push_bit (b mod 32) 1]"

definition get_bit_of :: "byteset \<Rightarrow> nat \<Rightarrow> bool" where
  "get_bit_of a b \<longleftrightarrow> a ! (b div 32) AND push_bit (b mod 32) 1 \<noteq> 0"

partial_function (option) collect_set :: "memory \<Rightarrow> nat \<Rightarrow> byteset \<Rightarrow> byteset option" where
  "collect_set mem c t = do { b \<leftarrow> mem c; if b = 0 then Some t else collect_set mem (c + 1) (set_bit_of t b) }"

partial_function (option) span_loop :: "memory \<Rightarrow> bool \<Rightarrow> byteset \<Rightarrow> nat \<Rightarrow> nat option" where
  "span_loop mem inside t s = do {
     b \<leftarrow> mem s; if b \<noteq> 0 \<and> get_bit_of t b = inside then span_loop mem inside t (s + 1) else Some s }"

partial_function (option) same_loop :: "memory \<Rightarrow> nat \<Rightarrow> nat \<Rightarrow> nat option" where
  "same_loop mem c s = do { b \<leftarrow> mem s; if b = c then same_loop mem c (s + 1) else Some s }"

definition strspn :: "memory \<Rightarrow> nat \<Rightarrow> nat \<Rightarrow> nat option" where
  "strspn mem a c = do {
     c0 \<leftarrow> mem c;
     if c0 = 0 then Some 0
     else do {
       c1 \<leftarrow> mem (c + 1);
       s \<leftarrow> (if c1 = 0 then same_loop mem c0 a
         else do { t \<leftarrow> collect_set mem c (replicate 8 0); span_loop mem True t a });
       Some (s - a) } }"

definition strcspn :: "memory \<Rightarrow> nat \<Rightarrow> nat \<Rightarrow> nat option" where
  "strcspn mem a c = do {
     c0 \<leftarrow> mem c;
     c1 \<leftarrow> (if c0 = 0 then Some 0 else mem (c + 1));
     s \<leftarrow> (if c0 = 0 \<or> c1 = 0 then strchrnul mem a c0
       else do { t \<leftarrow> collect_set mem c (replicate 8 0); span_loop mem False t a });
     Some (s - a) }"

definition strpbrk :: "memory \<Rightarrow> nat \<Rightarrow> nat \<Rightarrow> nat option option" where
  "strpbrk mem s b = do { l \<leftarrow> strcspn mem s b; x \<leftarrow> mem (s + l); Some (if x \<noteq> 0 then Some (s + l) else None) }"

text \<open>strtok has the saved pointer as a static variable.  The results are the memory, the token or NULL, and the saved pointer.\<close>

definition strsep :: "memory \<Rightarrow> nat option \<Rightarrow> nat \<Rightarrow> (memory \<times> nat option \<times> nat option) option" where
  "strsep mem str sep =
     (case str of
        None \<Rightarrow> Some (mem, None, None)
      | Some s \<Rightarrow> do {
          l \<leftarrow> strcspn mem s sep;
          b \<leftarrow> mem (s + l);
          if b \<noteq> 0 then do { mem \<leftarrow> store8 mem (s + l) 0; Some (mem, Some s, Some (s + l + 1)) }
          else Some (mem, Some s, None) })"

definition strtok_r :: "memory \<Rightarrow> nat option \<Rightarrow> nat \<Rightarrow> nat option \<Rightarrow> (memory \<times> nat option \<times> nat option) option" where
  "strtok_r mem s sep p =
     (case (case s of Some s \<Rightarrow> Some s | None \<Rightarrow> p) of
        None \<Rightarrow> Some (mem, None, p)
      | Some s \<Rightarrow> do {
          l \<leftarrow> strspn mem s sep;
          b \<leftarrow> mem (s + l);
          if b = 0 then Some (mem, None, None)
          else do {
            k \<leftarrow> strcspn mem (s + l) sep;
            e \<leftarrow> mem (s + l + k);
            if e \<noteq> 0 then do { mem \<leftarrow> store8 mem (s + l + k) 0; Some (mem, Some (s + l), Some (s + l + k + 1)) }
            else Some (mem, Some (s + l), None) } })"

definition strtok :: "memory \<Rightarrow> nat option \<Rightarrow> nat \<Rightarrow> nat option \<Rightarrow> (memory \<times> nat option \<times> nat option) option" where
  "strtok mem s sep p = strtok_r mem s sep p"

end
