(* ===== verification/Utf8_Strings.thy ===== *)
theory Utf8_Strings
  imports Utf8 Strings
begin

text \<open>
  Multibyte strings (libc-top-half/musl/src/multibyte: mbsrtowcs.c, mbsnrtowcs.c, mbstowcs.c,
  wcsrtombs.c, wcsnrtombs.c, wcstombs.c).

  The functions that decode read whole words, which may go past the end of the string inside an
  aligned word; so memory is a function from addresses to bytes, and a pointer an address.  A loop that
  runs on without end because there is no terminating NUL is \<open>None\<close>.  A wide string is the list of its
  characters from the pointer on, with the terminating 0.
\<close>

section \<open>Decoding\<close>

type_synonym bytes = "nat \<Rightarrow> nat"

text \<open>\<open>*(w32*)s\<close>, and the test that no byte of it is 0 or above 127.\<close>

definition word_at :: "bytes \<Rightarrow> nat \<Rightarrow> nat" where
  "word_at mem s = mem s + 256 * mem (s + 1) + 65536 * mem (s + 2) + 16777216 * mem (s + 3)"

definition ascii_word :: "nat \<Rightarrow> bool" where
  "ascii_word x \<longleftrightarrow> (x OR szsub x 0x01010101) AND 0x80808080 = 0"

definition plain_byte :: "nat \<Rightarrow> bool" where
  "plain_byte b \<longleftrightarrow> szsub b 1 < 0x7f"

definition not_cont :: "nat \<Rightarrow> bool" where
  "not_cont b \<longleftrightarrow> szsub b 0x80 \<ge> 0x40"

text \<open>
  The parts from the labels resume and resume0 on, with \<open>s\<close> behind the lead byte: \<open>Inl\<close> of \<open>c\<close> and the
  pointer when the loop is left, else the character and the pointer.
\<close>

definition resume :: "bytes \<Rightarrow> nat \<Rightarrow> nat \<Rightarrow> nat \<times> nat + nat \<times> nat" where
  "resume mem c s =
     (if out_of_bounds c (mem s) then Inl (c, s - 1)
      else let c = mb_shift c (mem s) in
        if \<not> top_bit c then Inr (c, s + 1)
        else if not_cont (mem (s + 1)) then Inl (c, s + 1 - 2)
        else let c = mb_shift c (mem (s + 1)) in
          if \<not> top_bit c then Inr (c, s + 2)
          else if not_cont (mem (s + 2)) then Inl (c, s + 2 - 3)
          else Inr (mb_shift c (mem (s + 2)), s + 3))"

definition resume0 :: "bytes \<Rightarrow> nat \<Rightarrow> nat \<Rightarrow> nat \<times> nat + nat" where
  "resume0 mem c s =
     (if out_of_bounds c (mem s) then Inl (c, s - 1)
      else if c AND 2 ^ 25 = 0 then Inr (s + 1)
      else if not_cont (mem (s + 1)) then Inl (c, s + 1 - 2)
      else if c AND 2 ^ 19 = 0 then Inr (s + 2)
      else if not_cont (mem (s + 2)) then Inl (c, s + 2 - 3)
      else Inr (s + 3))"

text \<open>The loops without a destination; \<open>wn\<close> counts down from its initial value.\<close>

partial_function (option) skip_words :: "bytes \<Rightarrow> nat \<Rightarrow> nat \<Rightarrow> (nat \<times> nat) option" where
  "skip_words mem s wn = (if ascii_word (word_at mem s) then skip_words mem (s + 4) (szsub wn 4) else Some (s, wn))"

partial_function (option) count_loop :: "bytes \<Rightarrow> nat \<Rightarrow> nat \<Rightarrow> (nat \<times> nat \<times> nat) option" where
  "count_loop mem s wn = do {
     (s, wn) \<leftarrow> (if plain_byte (mem s) \<and> s mod 4 = 0 then skip_words mem s wn else Some (s, wn));
     if plain_byte (mem s) then count_loop mem (s + 1) (szsub wn 1)
     else if szsub (mem s) SA > SB - SA then Some (0, s, wn)
     else case resume0 mem (bittab ! (mem s - SA)) (s + 1) of
       Inl (c, s) \<Rightarrow> Some (c, s, wn)
     | Inr s \<Rightarrow> count_loop mem s (szsub wn 1) }"

text \<open>The loops with a destination; \<open>ws\<close> is what has been written.  The result is \<open>Inr\<close> where \<open>wn\<close> was used up.\<close>

fun copy_words :: "bytes \<Rightarrow> nat \<Rightarrow> nat \<Rightarrow> nat list \<Rightarrow> nat \<times> nat \<times> nat list" where
  "copy_words mem s wn ws =
     (if wn \<ge> 5 \<and> ascii_word (word_at mem s) then
        copy_words mem (s + 4) (wn - 4) (ws @ [mem s, mem (s + 1), mem (s + 2), mem (s + 3)])
      else (s, wn, ws))"

declare copy_words.simps [simp del]

lemma copy_words_count: "copy_words mem s wn ws = (s', wn', ws') \<Longrightarrow> wn' \<le> wn \<and> (0 < wn \<longrightarrow> 0 < wn')"
proof (induction mem s wn ws rule: copy_words.induct)
  case (1 mem s wn ws)
  then show ?case
    by (cases "wn \<ge> 5 \<and> ascii_word (word_at mem s)") (force simp: copy_words.simps [of mem s wn ws])+
qed

text \<open>The result is \<open>Inl\<close> with \<open>c\<close> where the loop is left by a break.\<close>

type_synonym loop_end = "(nat \<times> nat \<times> nat \<times> nat list) + nat \<times> nat list"

function copy_loop :: "bytes \<Rightarrow> nat \<Rightarrow> nat \<Rightarrow> nat list \<Rightarrow> loop_end" where
  "copy_loop mem s wn ws =
     (if wn = 0 then Inr (s, ws)
      else case (if plain_byte (mem s) \<and> s mod 4 = 0 then copy_words mem s wn ws else (s, wn, ws)) of (s, wn, ws) \<Rightarrow>
        if plain_byte (mem s) then copy_loop mem (s + 1) (wn - 1) (ws @ [mem s])
        else if szsub (mem s) SA > SB - SA then Inl (0, s, wn, ws)
        else case resume mem (bittab ! (mem s - SA)) (s + 1) of
          Inl (c, s) \<Rightarrow> Inl (c, s, wn, ws)
        | Inr (c, s) \<Rightarrow> copy_loop mem s (wn - 1) (ws @ [c]))"
  by pat_completeness auto
termination
  by (relation "measure (\<lambda>(mem, s, wn, ws). wn)") (auto split: if_splits dest!: copy_words_count [OF sym])

declare copy_loop.simps [simp del]

section \<open>mbsrtowcs\<close>

text \<open>
  The results: the return value, or \<open>None\<close> for -1 with EILSEQ; the pointer in \<open>*src\<close>, or \<open>None\<close> for NULL; the
  characters written; and the state, if there is one.
\<close>

type_synonym mbs_result = "nat option \<times> nat option \<times> nat list \<times> nat option"

fun unit_loop :: "bytes \<Rightarrow> nat \<Rightarrow> nat \<Rightarrow> nat list \<Rightarrow> nat \<times> nat list + nat list" where
  "unit_loop mem s 0 ws = Inl (s, ws)"
| "unit_loop mem s (Suc wn) ws = (if mem s = 0 then Inr ws else unit_loop mem (s + 1) wn (ws @ [codeunit (mem s)]))"

definition copy_end :: "bytes \<Rightarrow> nat \<Rightarrow> nat option \<Rightarrow> loop_end \<Rightarrow> mbs_result" where
  "copy_end mem wn0 st r = (case r of
      Inr (s, ws) \<Rightarrow> (Some wn0, Some s, ws, st)
    | Inl (c, s, wn, ws) \<Rightarrow>
        if c = 0 \<and> mem s = 0 then (Some (szsub wn0 wn), None, ws @ [0], st) else (None, Some s, ws, st))"

definition count_end :: "bytes \<Rightarrow> nat \<Rightarrow> nat \<Rightarrow> nat option \<Rightarrow> nat \<times> nat \<times> nat \<Rightarrow> mbs_result" where
  "count_end mem s0 wn0 st r = (case r of (c, s, wn) \<Rightarrow>
      (if c = 0 \<and> mem s = 0 then Some (szsub wn0 wn) else None, Some s0, [], st))"

text \<open>The flag \<open>dst\<close> is that \<open>ws\<close> is not NULL.\<close>

definition mbsrtowcs :: "bool \<Rightarrow> bytes \<Rightarrow> bool \<Rightarrow> nat \<Rightarrow> nat \<Rightarrow> nat option \<Rightarrow> mbs_result option" where
  "mbsrtowcs one mem dst s wn st =
     (if st \<noteq> None \<and> st \<noteq> Some 0 then
        if dst then
          Some (copy_end mem wn (Some 0) (case resume mem (the st) s of
            Inl (c, s) \<Rightarrow> Inl (c, s, wn, [])
          | Inr (c, s) \<Rightarrow> copy_loop mem s (szsub wn 1) [c]))
        else map_option (count_end mem s wn st) (case resume0 mem (the st) s of
            Inl (c, s) \<Rightarrow> Some (c, s, wn)
          | Inr s \<Rightarrow> count_loop mem s (szsub wn 1))
      else if one then
        if \<not> dst then map_option (\<lambda>l. (Some l, Some s, [], st)) (strlen (\<lambda>a. Some (mem a)) s)
        else Some (case unit_loop mem s wn [] of
            Inl (s, ws) \<Rightarrow> (Some wn, Some s, ws, st)
          | Inr ws \<Rightarrow> (Some (length ws), None, ws @ [0], st))
      else if \<not> dst then map_option (count_end mem s wn st) (count_loop mem s wn)
      else Some (copy_end mem wn st (copy_loop mem s wn [])))"

definition mbstowcs :: "bool \<Rightarrow> bytes \<Rightarrow> bool \<Rightarrow> nat \<Rightarrow> nat \<Rightarrow> (nat option \<times> nat list) option" where
  "mbstowcs one mem dst s wn = map_option (\<lambda>(r, _, ws, _). (r, ws)) (mbsrtowcs one mem dst s wn None)"

section \<open>mbsnrtowcs\<close>

text \<open>
  The state is not NULL, as the code writes to it.  The first loop goes on in steps of at most a quarter of the \<open>n\<close> bytes left, the second
  in steps of one character.  Without a destination the characters go to a buffer of 256.
\<close>

partial_function (option) chunk_loop ::
  "bool \<Rightarrow> bytes \<Rightarrow> bool \<Rightarrow> nat option \<Rightarrow> nat \<Rightarrow> nat \<Rightarrow> nat \<Rightarrow> nat option \<Rightarrow> nat list \<Rightarrow>
     (nat option \<times> nat option \<times> nat \<times> nat \<times> nat option \<times> nat list) option" where
  "chunk_loop one mem dst s n wn cnt st ws =
     (case s of
        Some p \<Rightarrow>
          if wn \<noteq> 0 \<and> (n div 4 \<ge> wn \<or> n div 4 > 32) then do {
            (l, s', out, st') \<leftarrow> mbsrtowcs one mem True p (min (n div 4) wn) st;
            case l of
              None \<Rightarrow> Some (None, s', n, 0, st', ws @ out)
            | Some l \<Rightarrow>
                chunk_loop one mem dst s' (case s' of Some q \<Rightarrow> szsub n (q - p) | None \<Rightarrow> 0)
                  (if dst then szsub wn l else wn) (szadd cnt l) st' (if dst then ws @ out else ws) }
          else Some (Some cnt, s, n, wn, st, ws)
      | None \<Rightarrow> Some (Some cnt, s, n, wn, st, ws))"

fun char_loop :: "bool \<Rightarrow> bytes \<Rightarrow> nat \<Rightarrow> nat \<Rightarrow> nat \<Rightarrow> nat \<Rightarrow> nat \<Rightarrow> nat list \<Rightarrow> mbs_result option" where
  "char_loop one mem s n 0 cnt st ws = Some (Some cnt, Some s, ws, Some st)"
| "char_loop one mem s n (Suc wn) cnt st ws =
     (if n = 0 then Some (Some cnt, Some s, ws, Some st)
      else do {
        (r, st) \<leftarrow> mbrtowc one (Some (map mem [s..<s + n])) n st;
        case r of
          Mb_char l c \<Rightarrow>
            if l = 0 then Some (Some cnt, None, ws @ [c], Some st)
            else char_loop one mem (s + l) (n - l) wn (szadd cnt 1) st (ws @ [c])
        | Mb_partial \<Rightarrow> Some (Some cnt, Some s, ws, Some 0)
        | _ \<Rightarrow> Some (None, Some s, ws, Some st) })"

definition mbsnrtowcs :: "bool \<Rightarrow> bytes \<Rightarrow> bool \<Rightarrow> nat \<Rightarrow> nat \<Rightarrow> nat \<Rightarrow> nat \<Rightarrow> mbs_result option" where
  "mbsnrtowcs one mem dst s n wn st = do {
     (cnt, s', n, wn, st, ws) \<leftarrow> chunk_loop one mem dst (Some s) n (if dst then wn else 256) 0 (Some st) [];
     (cnt, s', ws, st) \<leftarrow> (case (cnt, s', st) of
         (Some cnt, Some p, Some st) \<Rightarrow> char_loop one mem p n wn cnt st ws
       | _ \<Rightarrow> Some (cnt, s', ws, st));
     Some (if dst then (cnt, s', ws, st) else (cnt, Some s, [], st)) }"

section \<open>Encoding\<close>

text \<open>
  The results: the return value or \<open>None\<close> for -1; the bytes written; and the rest of the wide string, or \<open>None\<close>
  for NULL.
\<close>

type_synonym wcs_result = "nat option \<times> nat list \<times> nat list option"

fun wcs_length :: "bool \<Rightarrow> nat list \<Rightarrow> nat \<Rightarrow> nat option option" where
  "wcs_length one [] n = None"
| "wcs_length one (w # ws) n =
     (if w = 0 then Some (Some n)
      else if w \<ge> 0x80 then
        (case wcrtomb one False w of (None, _) \<Rightarrow> Some None | (Some l, _) \<Rightarrow> wcs_length one ws (szadd n l))
      else wcs_length one ws (szadd n 1))"

text \<open>The second loop, and the first, which goes on with the second when fewer than four bytes are left; \<open>N\<close> bytes in all.\<close>

fun wcs_last :: "bool \<Rightarrow> nat \<Rightarrow> nat list \<Rightarrow> nat \<Rightarrow> nat list \<Rightarrow> wcs_result option" where
  "wcs_last one N ws 0 out = Some (Some N, out, Some ws)"
| "wcs_last one N [] (Suc n) out = None"
| "wcs_last one N (w # ws) (Suc n) out =
     (if szsub w 1 \<ge> 0x7f then
        if w = 0 then Some (Some (N - Suc n), out @ [0], None)
        else case wcrtomb one False w of
          (None, _) \<Rightarrow> Some (None, out, Some (w # ws))
        | (Some l, bs) \<Rightarrow>
            if l > Suc n then Some (Some (N - Suc n), out, Some (w # ws))
            else wcs_last one N ws (Suc n - l) (out @ bs)
      else wcs_last one N ws n (out @ [w]))"

fun wcs_first :: "bool \<Rightarrow> nat \<Rightarrow> nat list \<Rightarrow> nat \<Rightarrow> nat list \<Rightarrow> wcs_result option" where
  "wcs_first one N [] n out = (if n \<ge> 4 then None else wcs_last one N [] n out)"
| "wcs_first one N (w # ws) n out =
     (if n \<ge> 4 then
        if szsub w 1 \<ge> 0x7f then
          if w = 0 then Some (Some (N - n), out @ [0], None)
          else case wcrtomb one False w of
            (None, _) \<Rightarrow> Some (None, out, Some (w # ws))
          | (Some l, bs) \<Rightarrow> wcs_first one N ws (n - l) (out @ bs)
        else wcs_first one N ws (n - 1) (out @ [w])
      else wcs_last one N (w # ws) n out)"

definition wcsrtombs :: "bool \<Rightarrow> bool \<Rightarrow> nat list \<Rightarrow> nat \<Rightarrow> wcs_result option" where
  "wcsrtombs one dst ws n =
     (if \<not> dst then map_option (\<lambda>r. (r, [], Some ws)) (wcs_length one ws 0) else wcs_first one n ws n [])"

definition wcstombs :: "bool \<Rightarrow> bool \<Rightarrow> nat list \<Rightarrow> nat \<Rightarrow> (nat option \<times> nat list) option" where
  "wcstombs one dst ws n = map_option (\<lambda>(r, out, _). (r, out)) (wcsrtombs one dst ws n)"

fun wcsn_loop :: "bool \<Rightarrow> bool \<Rightarrow> nat list \<Rightarrow> nat \<Rightarrow> nat \<Rightarrow> nat \<Rightarrow> nat list \<Rightarrow> wcs_result option" where
  "wcsn_loop one dst ws 0 n cnt out = Some (Some cnt, out, Some ws)"
| "wcsn_loop one dst [] (Suc wn) n cnt out = None"
| "wcsn_loop one dst (w # ws) (Suc wn) n cnt out =
     (case wcrtomb one False w of
        (None, _) \<Rightarrow> Some (None, out, Some (w # ws))
      | (Some l, bs) \<Rightarrow>
          if dst \<and> n < 4 \<and> l > n then Some (Some cnt, out, Some (w # ws))
          else
            let out = (if dst then out @ bs else out); n = (if dst then n - l else n) in
            if w = 0 then Some (Some cnt, out, None)
            else wcsn_loop one dst ws wn n (szadd cnt l) out)"

definition wcsnrtombs :: "bool \<Rightarrow> bool \<Rightarrow> nat list \<Rightarrow> nat \<Rightarrow> nat \<Rightarrow> wcs_result option" where
  "wcsnrtombs one dst ws wn n =
     map_option (\<lambda>(r, out, rest). (r, out, if dst then rest else Some ws)) (wcsn_loop one dst ws wn (if dst then n else 0) 0 [])"

end
