(* ===== verification/Utf8_Strings_Theorems.thy ===== *)
theory Utf8_Strings_Theorems
  imports Utf8_Strings Utf8_Theorems
begin

text \<open>
  The functions on multibyte strings decode as mbrtowc does character by character, over whole words as well, and
  encode as wcrtomb does.
\<close>

section \<open>One character\<close>

definition bytes_mem :: "bytes \<Rightarrow> bool" where
  "bytes_mem mem \<longleftrightarrow> (\<forall>a. mem a < 256)"

definition char_at :: "bytes \<Rightarrow> nat \<Rightarrow> mb_result" where
  "char_at mem s = (case mbrtowc False (Some (map mem [s..<s + 4])) 4 0 of Some (r, _) \<Rightarrow> r | None \<Rightarrow> Mb_error)"

lemma four: "map mem [s..<s + 4] = [mem s, mem (s + 1), mem (s + 2), mem (s + 3)]" for mem :: bytes
  by (simp add: upt_rec numeral_eq_Suc)

lemma plain_byte_iff: "b < 256 \<Longrightarrow> plain_byte b \<longleftrightarrow> 1 \<le> b \<and> b < 128"
  by (auto simp: plain_byte_def szsub_def mod_if)

lemma char_at_plain: "mem s < 128 \<Longrightarrow> char_at mem s = Mb_char (if mem s = 0 then 0 else 1) (mem s)"
  unfolding char_at_def four by (simp add: mbrtowc_ascii)

lemma char_at_invalid: "bytes_mem mem \<Longrightarrow> \<not> mem s < 128 \<Longrightarrow> \<not> lead (mem s) \<Longrightarrow> char_at mem s = Mb_error"
  unfolding char_at_def four using lead_test [of "mem s"] by (simp add: mbrtowc_def bytes_mem_def)

text \<open>How many continuation bytes follow a lead byte is seen in the top bit after each.\<close>

lemma lead_tops:
  fixes b b1 b2 b3 :: nat
  defines "c1 \<equiv> mb_shift (bittab ! (b - 0xc2)) b1"
  defines "c2 \<equiv> mb_shift c1 b2"
  assumes "lead b" "cont b1"
  shows "\<not> top_bit c1 \<longleftrightarrow> need b = 1" "cont b2 \<Longrightarrow> need b \<noteq> 1 \<Longrightarrow> \<not> top_bit c2 \<longleftrightarrow> need b = 2"
    and "cont b2 \<Longrightarrow> cont b3 \<Longrightarrow> need b = 3 \<Longrightarrow> \<not> top_bit (mb_shift c2 b3)"
proof -
  define c where "c = bittab ! (b - 0xc2)"
  have c1: "c1 = mb_shift c b1" by (simp add: c1_def c_def)
  have st: "mb_state c (need b) (lead_value b)" using lead_state [OF assms(3)] by (simp add: c_def)
  have need: "need b = 1 \<or> need b = 2 \<or> need b = 3" by (auto simp: need_def)
  have 1: "mb_state c1 (need b - 1) (lead_value b * 64 + (b1 - 0x80))" if "need b \<noteq> 1"
    using st mb_state_more(1) [of c "need b - 1" "lead_value b" b1] need that assms(4) by (auto simp: c1)
  show "\<not> top_bit c1 \<longleftrightarrow> need b = 1"
    using st mb_state_last [of c "lead_value b" b1] mb_state_more(2) [of c "need b - 1" "lead_value b" b1] need assms(4) by (auto simp: c1)
  show "\<not> top_bit c2 \<longleftrightarrow> need b = 2" if "cont b2" "need b \<noteq> 1"
  proof (cases "need b = 2")
    case True
    then have "mb_state c1 1 (lead_value b * 64 + (b1 - 0x80))" using 1 by simp
    from mb_state_last(2) [OF this that(1)] show ?thesis using True by (simp add: c2_def)
  next
    case False
    then have "mb_state c1 (Suc 1) (lead_value b * 64 + (b1 - 0x80))" using 1 need that(2) by (auto simp: numeral_2_eq_2)
    from mb_state_more(2) [OF this _ that(1)] show ?thesis using False by (simp add: c2_def)
  qed
  show "\<not> top_bit (mb_shift c2 b3)" if "cont b2" "cont b3" "need b = 3"
  proof -
    have "mb_state c1 (Suc 1) (lead_value b * 64 + (b1 - 0x80))" using 1 that(3) by (simp add: numeral_2_eq_2)
    from mb_state_more(1) [OF this _ that(1)] have "mb_state c2 1 ((lead_value b * 64 + (b1 - 0x80)) * 64 + (b2 - 0x80))"
      by (simp add: c2_def)
    from mb_state_last(2) [OF this that(2)] show ?thesis .
  qed
qed

lemma top_bit_nonzero: "top_bit c \<Longrightarrow> c \<noteq> 0"
  by (rule notI) (simp add: top_bit_def)

text \<open>The unrolled decoding agrees with the loop of mbrtowc after a lead byte.\<close>

lemma resume_char:
  assumes "bytes_mem mem" "lead (mem s)"
  shows "case resume mem (bittab ! (mem s - 0xc2)) (s + 1) of
      Inl (c, s') \<Rightarrow> c \<noteq> 0 \<and> s' = s \<and> char_at mem s = Mb_error
    | Inr (w, s') \<Rightarrow> s + 2 \<le> s' \<and> char_at mem s = Mb_char (s' - s) w \<and> w \<noteq> 0 \<and> (\<forall>i. s \<le> i \<and> i < s' \<longrightarrow> mem i \<noteq> 0)"
proof -
  define b b1 b2 b3 c where b: "b = mem s" "b1 = mem (s + 1)" "b2 = mem (s + 2)" "b3 = mem (s + 3)" "c = bittab ! (b - 0xc2)"
  have l: "lead b" using assms(2) by (simp add: b)
  have lt: "b1 < 256" "b2 < 256" "b3 < 256" using assms(1) by (auto simp: b bytes_mem_def)
  have m: "mbrtowc False (Some [b, b1, b2, b3]) 4 0 = mb_rest 4 c [b1, b2, b3] 3" using mbrtowc_lead [OF l, of 4] by (simp add: b(5))
  have ca: "char_at mem s = (case mb_rest 4 c [b1, b2, b3] 3 of Some (r, _) \<Rightarrow> r | None \<Rightarrow> Mb_error)"
    unfolding char_at_def four using m by (simp add: b)
  have nz: "c \<noteq> 0" "b \<noteq> 0" using top_bit_nonzero [OF lead_top(1) [OF l]] l by (auto simp: b(5))
  have need: "need b = 1 \<or> need b = 2 \<or> need b = 3" by (auto simp: need_def)
  define c1 c2 c3 where cc: "c1 = mb_shift c b1" "c2 = mb_shift c1 b2" "c3 = mb_shift c2 b3"
  have nc: "not_cont x \<longleftrightarrow> \<not> cont x" if "x < 256" for x using cont_iff [OF that] by (auto simp: not_cont_def)
  have ob: "cont b1" if "\<not> out_of_bounds c b1" using that second_cont lead_second [OF l] by (auto simp: b(5))
  have run: "mb_rest 4 c [b1, b2, b3] 3 =
      (if out_of_bounds c b1 then Some (Mb_error, 0) else if \<not> top_bit c1 then Some (Mb_char 2 c1, 0)
       else if \<not> cont b2 then Some (Mb_error, 0) else if \<not> top_bit c2 then Some (Mb_char 3 c2, 0)
       else if \<not> cont b3 then Some (Mb_error, 0) else if \<not> top_bit c3 then Some (Mb_char 4 c3, 0) else Some (Mb_partial, c3))"
    using cont_iff [OF lt(2)] cont_iff [OF lt(3)] by (simp add: mb_rest_def Let_def cc)
  note tops = lead_tops(1) [OF l, of b1, folded b(5), folded cc(1)] lead_tops(2) [OF l, of b1 b2, folded b(5), folded cc(1), folded cc(2)]
    lead_tops(3) [OF l, of b1 b2 b3, folded b(5), folded cc(1), folded cc(2), folded cc(3)]
  have char: "w \<noteq> 0" if "mb_rest 4 c [b1, b2, b3] 3 = Some (Mb_char k w, 0)" for k w
  proof
    assume "w = 0"
    moreover have "mbrtowc False (Some [b, b1, b2, b3]) 4 0 = Some (Mb_char k w, 0)" using m that by simp
    ultimately have "k = 0" using mbrtowc_only_utf8 [of "[b, b1, b2, b3]" 4 k w 0] lt l by auto
    then show False using that run by (auto split: if_splits)
  qed
  have res: "resume mem c (s + 1) =
      (if out_of_bounds c b1 then Inl (c, s) else if \<not> top_bit c1 then Inr (c1, s + 2)
       else if \<not> cont b2 then Inl (c1, s) else if \<not> top_bit c2 then Inr (c2, s + 3)
       else if \<not> cont b3 then Inl (c2, s) else Inr (c3, s + 4))"
    using nc lt by (simp add: resume_def Let_def b cc eval_nat_numeral)
  have all: "(\<forall>i. s \<le> i \<and> i < s + 2 \<longrightarrow> mem i \<noteq> 0) \<longleftrightarrow> b \<noteq> 0 \<and> b1 \<noteq> 0"
    "(\<forall>i. s \<le> i \<and> i < s + 3 \<longrightarrow> mem i \<noteq> 0) \<longleftrightarrow> b \<noteq> 0 \<and> b1 \<noteq> 0 \<and> b2 \<noteq> 0"
    "(\<forall>i. s \<le> i \<and> i < s + 4 \<longrightarrow> mem i \<noteq> 0) \<longleftrightarrow> b \<noteq> 0 \<and> b1 \<noteq> 0 \<and> b2 \<noteq> 0 \<and> b3 \<noteq> 0"
    unfolding b by (auto simp: le_less_Suc_eq eval_nat_numeral less_Suc_eq le_Suc_eq)
  consider "out_of_bounds c b1" | "cont b1" "\<not> out_of_bounds c b1" "\<not> top_bit c1"
    | "cont b1" "\<not> out_of_bounds c b1" "top_bit c1" "\<not> cont b2" | "cont b1" "\<not> out_of_bounds c b1" "top_bit c1" "cont b2" "\<not> top_bit c2"
    | "cont b1" "\<not> out_of_bounds c b1" "top_bit c1" "cont b2" "top_bit c2" "\<not> cont b3"
    | "cont b1" "\<not> out_of_bounds c b1" "top_bit c1" "cont b2" "top_bit c2" "cont b3"
    using ob by blast
  moreover have fold: "bittab ! (mem s - 0xc2) = c" by (simp add: b)
  ultimately show ?thesis
  proof cases
    case 1
    then show ?thesis unfolding fold using res run ca nz by simp
  next
    case 2
    then show ?thesis unfolding fold using res run ca nz all(1) char [of 2 c1] by simp
  next
    case 3
    then show ?thesis unfolding fold using res run ca top_bit_nonzero [of c1] by simp
  next
    case 4
    then show ?thesis unfolding fold using res run ca nz all(2) char [of 3 c2] by simp
  next
    case 5
    then show ?thesis unfolding fold using res run ca top_bit_nonzero [of c2] by simp
  next
    case 6
    have "\<not> top_bit c3" using tops(1) [OF 6(1)] tops(2) [OF 6(1,4)] tops(3) [OF 6(1,4,6)] 6(3,5) need by auto
    then show ?thesis unfolding fold using 6 res run ca nz all(3) char [of 4 c3] by simp
  qed
qed

text \<open>Without a destination the bits of \<open>c\<close> are tested where they are.\<close>

lemma lead_bits:
  assumes "lead b"
  shows "bittab ! (b - 0xc2) AND 2 ^ 25 = 0 \<longleftrightarrow> need b = 1" "need b \<noteq> 1 \<Longrightarrow> bittab ! (b - 0xc2) AND 2 ^ 19 = 0 \<longleftrightarrow> need b = 2"
proof -
  define x where "x = mb_base (need b) + lead_value b"
  obtain k where k: "bittab ! (b - 0xc2) = k * 2 ^ 26 + x" using bittab_lead [OF assms] by (auto simp: x_def)
  have d: "(k * 2 ^ 26 + x) div 2 ^ 25 = k * 2 + x div 2 ^ 25" "(k * 2 ^ 26 + x) div 2 ^ 19 = k * 128 + x div 2 ^ 19"
    by (simp_all add: div_mult_self3 [symmetric])
  have "need b = 1 \<and> x < 32 \<or> need b = 2 \<and> x = 0x3000000 + lead_value b \<and> lead_value b < 16 \<or> need b = 3 \<and> x = 0x30C0000 + lead_value b \<and> lead_value b < 8"
    using assms unfolding x_def by (auto simp: need_def lead_value_def)
  then have "need b = 1 \<and> x div 2 ^ 25 = 0 \<or> need b = 2 \<and> x div 2 ^ 25 = 1 \<and> x div 2 ^ 19 = 96 \<or> need b = 3 \<and> x div 2 ^ 25 = 1 \<and> x div 2 ^ 19 = 97"
    by auto
  then show "bittab ! (b - 0xc2) AND 2 ^ 25 = 0 \<longleftrightarrow> need b = 1" "need b \<noteq> 1 \<Longrightarrow> bittab ! (b - 0xc2) AND 2 ^ 19 = 0 \<longleftrightarrow> need b = 2"
    unfolding bit_test k d by auto
qed

lemma resume0_resume:
  assumes "bytes_mem mem" "lead (mem s)"
  shows "resume0 mem (bittab ! (mem s - 0xc2)) (s + 1) = (case resume mem (bittab ! (mem s - 0xc2)) (s + 1) of
    Inl (c, s') \<Rightarrow> Inl (bittab ! (mem s - 0xc2), s') | Inr (w, s') \<Rightarrow> Inr s')"
proof -
  define c where "c = bittab ! (mem s - 0xc2)"
  have nc: "not_cont (mem a) \<longleftrightarrow> \<not> cont (mem a)" for a
    using cont_iff [of "mem a"] assms(1) by (auto simp: not_cont_def bytes_mem_def)
  have ob: "cont (mem (s + 1))" if "\<not> out_of_bounds c (mem (s + 1))"
    using that second_cont lead_second [OF assms(2)] by (auto simp: c_def)
  have need: "need (mem s) = 1 \<or> need (mem s) = 2 \<or> need (mem s) = 3" by (auto simp: need_def)
  note bits = lead_bits [OF assms(2), folded c_def]
  show ?thesis
  proof (cases "out_of_bounds c (mem (s + 1))")
    case True
    then show ?thesis by (simp add: resume0_def resume_def flip: c_def)
  next
    case False
    note tops = lead_tops [OF assms(2) ob [OF False], folded c_def]
    show ?thesis using False tops bits need nc
      by (auto simp: resume0_def resume_def Let_def simp flip: c_def)
  qed
qed

section \<open>Words\<close>

text \<open>A word passes the test only if none of its bytes is 0 or above 127.\<close>

lemma low_half: "m div k mod 2 = 0 \<Longrightarrow> 0 < k \<Longrightarrow> m mod (k * 2) < k" for m k :: nat
  by (simp add: mod_mult2_eq)

lemma high_bit_zero:
  fixes x :: nat
  assumes "x AND 0x80808080 = 0"
  shows "x mod 256 < 128" "x mod 65536 < 32768" "x mod 16777216 < 8388608" "x mod 4294967296 < 2147483648"
proof -
  have b: "x div 2 ^ k mod 2 = 0" if "odd ((0x80808080 :: nat) div 2 ^ k)" for k
  proof -
    have "bit (0x80808080 :: nat) k" unfolding bit_iff_odd by (rule that)
    then have "\<not> bit x k" using assms by (metis bit_and_iff bit_0_eq bot_apply bot_bool_def)
    then show ?thesis unfolding bit_iff_odd by presburger
  qed
  show "x mod 256 < 128" "x mod 65536 < 32768" "x mod 16777216 < 8388608" "x mod 4294967296 < 2147483648"
    using low_half [OF b [of 7]] low_half [OF b [of 15]] low_half [OF b [of 23]] low_half [OF b [of 31]] by simp_all
qed

lemma ascii_word_bytes:
  assumes "ascii_word (b0 + 256 * b1 + 65536 * b2 + 16777216 * b3)" "b0 < 256" "b1 < 256" "b2 < 256" "b3 < 256"
  shows "1 \<le> b0 \<and> b0 < 128" "1 \<le> b1 \<and> b1 < 128" "1 \<le> b2 \<and> b2 < 128" "1 \<le> b3 \<and> b3 < 128"
proof -
  define x where "x = b0 + 256 * b1 + 65536 * b2 + 16777216 * b3"
  define y where "y = szsub x 0x01010101"
  have "(x OR y) AND 0x80808080 = 0" using assms(1) by (simp add: ascii_word_def x_def y_def)
  then have "x AND 0x80808080 = 0" "y AND 0x80808080 = 0" by (simp_all only: bit_eq_iff bit_and_iff bit_or_iff bit_0_eq) blast+
  note hx = high_bit_zero [OF this(1)] and hy = high_bit_zero [OF this(2)]
  have xm: "x mod 256 = b0" "x mod 65536 = b0 + 256 * b1" "x mod 16777216 = b0 + 256 * b1 + 65536 * b2" "x mod 4294967296 = x"
  proof -
    have "x = b0 + 256 * (b1 + 256 * b2 + 65536 * b3)" "x = (b0 + 256 * b1) + 65536 * (b2 + 256 * b3)"
      "x = (b0 + 256 * b1 + 65536 * b2) + 16777216 * b3" by (simp_all add: x_def)
    then have "x mod 256 = b0 mod 256" "x mod 65536 = (b0 + 256 * b1) mod 65536" "x mod 16777216 = (b0 + 256 * b1 + 65536 * b2) mod 16777216"
      by (metis mod_mult_self2)+
    moreover have "b0 + 256 * b1 < 65536" "b0 + 256 * b1 + 65536 * b2 < 16777216" "x < 4294967296" using assms(2-5) unfolding x_def by linarith+
    ultimately show "x mod 256 = b0" "x mod 65536 = b0 + 256 * b1" "x mod 16777216 = b0 + 256 * b1 + 65536 * b2" "x mod 4294967296 = x"
      using assms(2) by simp_all
  qed
  have b: "b0 < 128" "b1 < 128" "b2 < 128" "b3 < 128" using hx xm unfolding x_def by linarith+
  have "y = (x + 4278124287) mod 4294967296" by (simp add: y_def szsub_def)
  then have y: "y mod m = (x mod m + 4278124287) mod m" if "m dvd 4294967296" for m
    using that by (simp add: mod_mod_cancel mod_add_left_eq)
  have d: "(256 :: nat) dvd 4294967296" "(65536 :: nat) dvd 4294967296" "(16777216 :: nat) dvd 4294967296" by simp_all
  note y0 = y [OF d(1), unfolded xm(1)] y [OF d(2), unfolded xm(2)] y [OF d(3), unfolded xm(3)] y [OF dvd_refl, unfolded xm(4)]
  have borrow: "(z + (q * m + k)) mod m = z + k" if "z + k < m" for z q m k :: nat
    using that by (metis add.assoc add.left_commute mod_less mod_mult_self3)
  have b0: "1 \<le> b0" using hy(1) y0(1) b by (cases "b0 = 0") auto
  have b1: "1 \<le> b1"
  proof (rule ccontr)
    assume "\<not> 1 \<le> b1"
    then have "b1 = 0" by simp
    then have "y mod 65536 = b0 + 65279" using y0(2) borrow [of b0 65279 65536 65278] b by simp
    then show False using hy(2) by simp
  qed
  have b2: "1 \<le> b2"
  proof (rule ccontr)
    assume "\<not> 1 \<le> b2"
    then have "b2 = 0" by simp
    then have "y mod 16777216 = b0 + 256 * b1 + 16711423" using y0(3) borrow [of "b0 + 256 * b1" 16711423 16777216 254] b by simp
    then show False using hy(3) by simp
  qed
  have b3: "1 \<le> b3"
  proof (rule ccontr)
    assume "\<not> 1 \<le> b3"
    then have "b3 = 0" by simp
    then have "y mod 4294967296 = b0 + 256 * b1 + 65536 * b2 + 4278124287"
      using y0(4) borrow [of "b0 + 256 * b1 + 65536 * b2" 4278124287 4294967296 0] b unfolding x_def by simp
    then show False using hy(4) by simp
  qed
  show "1 \<le> b0 \<and> b0 < 128" "1 \<le> b1 \<and> b1 < 128" "1 \<le> b2 \<and> b2 < 128" "1 \<le> b3 \<and> b3 < 128" using b b0 b1 b2 b3 by auto
qed

section \<open>Runs of characters\<close>

text \<open>\<open>chars_at mem s ws e\<close>: mbrtowc, called again and again from \<open>s\<close>, gives the characters \<open>ws\<close>, none of them 0, and comes to \<open>e\<close>.\<close>

fun chars_at :: "bytes \<Rightarrow> nat \<Rightarrow> nat list \<Rightarrow> nat \<Rightarrow> bool" where
  "chars_at mem s [] e \<longleftrightarrow> s = e"
| "chars_at mem s (w # ws) e \<longleftrightarrow> w \<noteq> 0 \<and> (\<exists>k. k \<noteq> 0 \<and> char_at mem s = Mb_char k w \<and> chars_at mem (s + k) ws e)"

text \<open>Where decoding ends: at the terminating NUL, or where mbrtowc fails.\<close>

definition stops_at :: "bytes \<Rightarrow> nat \<Rightarrow> bool" where
  "stops_at mem e \<longleftrightarrow> mem e = 0 \<or> char_at mem e = Mb_error"

lemma chars_append: "chars_at mem s ws m \<Longrightarrow> chars_at mem m vs e \<Longrightarrow> chars_at mem s (ws @ vs) e"
  by (induction ws arbitrary: s) auto

lemma chars_plain: "1 \<le> mem s \<and> mem s < 128 \<Longrightarrow> m = s + 1 \<Longrightarrow> chars_at mem m ws e \<Longrightarrow> chars_at mem s (mem s # ws) e"
  using char_at_plain [of mem s] by simp

lemma chars_word:
  assumes "bytes_mem mem" "ascii_word (word_at mem s)"
  shows "chars_at mem s [mem s, mem (s + 1), mem (s + 2), mem (s + 3)] (s + 4)" "\<forall>i. s \<le> i \<and> i < s + 4 \<longrightarrow> mem i \<noteq> 0"
proof -
  have lt: "mem a < 256" for a using assms(1) by (simp add: bytes_mem_def)
  note b = ascii_word_bytes [OF assms(2) [unfolded word_at_def] lt lt lt lt]
  have "chars_at mem (s + 3) [mem (s + 3)] (s + 4)" by (rule chars_plain [of mem "s + 3", OF b(4), of "s + 4"]) simp_all
  then have "chars_at mem (s + 2) [mem (s + 2), mem (s + 3)] (s + 4)" by (rule chars_plain [of mem "s + 2", OF b(3), rotated]) simp
  then have "chars_at mem (s + 1) [mem (s + 1), mem (s + 2), mem (s + 3)] (s + 4)" by (rule chars_plain [of mem "s + 1", OF b(2), rotated]) simp
  then show "chars_at mem s [mem s, mem (s + 1), mem (s + 2), mem (s + 3)] (s + 4)" by (rule chars_plain [of mem s, OF b(1), rotated]) simp
  have "i = s \<or> i = s + 1 \<or> i = s + 2 \<or> i = s + 3" if "s \<le> i" "i < s + 4" for i using that by linarith
  then show "\<forall>i. s \<le> i \<and> i < s + 4 \<longrightarrow> mem i \<noteq> 0" using b by fastforce
qed

lemma chars_stop:
  "chars_at mem s ws e \<Longrightarrow> stops_at mem e \<Longrightarrow> chars_at mem s vs e' \<Longrightarrow> length vs \<le> length ws"
proof (induction ws arbitrary: s vs)
  case Nil
  then show ?case using char_at_plain [of mem s] by (cases vs) (auto simp: stops_at_def)
next
  case (Cons w ws)
  then show ?case by (cases vs) auto
qed

lemma chars_unique:
  "chars_at mem s ws e \<Longrightarrow> chars_at mem s vs e' \<Longrightarrow> length vs = length ws \<Longrightarrow> vs = ws \<and> e' = e"
proof (induction ws arbitrary: s vs)
  case (Cons w ws)
  then show ?case by (cases vs) auto
qed simp

lemma copy_words_chars:
  "bytes_mem mem \<Longrightarrow> copy_words mem s wn ws = (s', wn', ws') \<Longrightarrow>
    \<exists>cs. ws' = ws @ cs \<and> wn = wn' + length cs \<and> chars_at mem s cs s' \<and> (0 < wn \<longrightarrow> 0 < wn')"
proof (induction mem s wn ws rule: copy_words.induct)
  case (1 mem s wn ws)
  show ?case
  proof (cases "wn \<ge> 5 \<and> ascii_word (word_at mem s)")
    case True
    let ?c = "[mem s, mem (s + 1), mem (s + 2), mem (s + 3)]"
    obtain cs where cs: "ws' = (ws @ ?c) @ cs" "wn - 4 = wn' + length cs" "chars_at mem (s + 4) cs s'" "0 < wn'"
      using 1 True by (auto simp: copy_words.simps [of mem s wn ws])
    have "chars_at mem s (?c @ cs) s'" using chars_append chars_word(1) [OF 1(2)] True cs(3) by blast
    then show ?thesis using cs True by (intro exI [of _ "?c @ cs"]) auto
  next
    case False
    then show ?thesis using 1(3) by (intro exI [of _ "[]"]) (auto simp: copy_words.simps [of mem s wn ws])
  qed
qed

lemma lead_or_zero:
  assumes "bytes_mem mem" "\<not> plain_byte (mem s)"
  shows "mem s = 0 \<and> szsub (mem s) SA > SB - SA \<or> lead (mem s) \<and> \<not> szsub (mem s) SA > SB - SA \<or>
    \<not> lead (mem s) \<and> 128 \<le> mem s \<and> szsub (mem s) SA > SB - SA \<and> char_at mem s = Mb_error"
proof -
  have lt: "mem s < 256" using assms(1) by (simp add: bytes_mem_def)
  have "mem s = 0 \<or> 128 \<le> mem s" using plain_byte_iff [OF lt] assms(2) by linarith
  then show ?thesis using lead_test [OF lt] char_at_invalid [OF assms(1)] by (auto simp: szsub_def)
qed

text \<open>How the loops leave: at the NUL with \<open>c\<close> zero, or at a sequence that is not a character.\<close>

definition left_at :: "bytes \<Rightarrow> nat \<Rightarrow> nat \<Rightarrow> bool" where
  "left_at mem c e \<longleftrightarrow> c = 0 \<and> mem e = 0 \<or> \<not> (c = 0 \<and> mem e = 0) \<and> char_at mem e = Mb_error \<and> mem e \<noteq> 0"

lemma copy_loop_chars:
  assumes "bytes_mem mem"
  shows "\<exists>cs e. chars_at mem s cs e \<and> (copy_loop mem s wn ws = Inr (e, ws @ cs) \<and> length cs = wn \<or>
    (\<exists>c. copy_loop mem s wn ws = Inl (c, e, wn - length cs, ws @ cs) \<and> length cs < wn \<and> left_at mem c e))"
proof (induction wn arbitrary: s ws rule: less_induct)
  case (less wn)
  let ?goal = "\<exists>cs e. chars_at mem s cs e \<and> (copy_loop mem s wn ws = Inr (e, ws @ cs) \<and> length cs = wn \<or>
    (\<exists>c. copy_loop mem s wn ws = Inl (c, e, wn - length cs, ws @ cs) \<and> length cs < wn \<and> left_at mem c e))"
  show ?case
  proof (cases "wn = 0")
    case True
    then show ?thesis by (intro exI [of _ "[]"] exI [of _ s]) (simp add: copy_loop.simps)
  next
    case False
    obtain s1 wn1 ws1 where w: "(if plain_byte (mem s) \<and> s mod 4 = 0 then copy_words mem s wn ws else (s, wn, ws)) = (s1, wn1, ws1)"
      by (metis prod_cases3)
    obtain cs1 where c1: "ws1 = ws @ cs1" "wn = wn1 + length cs1" "chars_at mem s cs1 s1" "0 < wn1"
    proof (cases "plain_byte (mem s) \<and> s mod 4 = 0")
      case True
      then show thesis using copy_words_chars [OF assms, of s wn ws] w False that by auto
    next
      case False
      then show thesis using w \<open>wn \<noteq> 0\<close> that [of "[]"] by auto
    qed
    have unf: "copy_loop mem s wn ws =
        (if plain_byte (mem s1) then copy_loop mem (s1 + 1) (wn1 - 1) (ws1 @ [mem s1])
         else if szsub (mem s1) SA > SB - SA then Inl (0, s1, wn1, ws1)
         else case resume mem (bittab ! (mem s1 - SA)) (s1 + 1) of
           Inl (c, s) \<Rightarrow> Inl (c, s, wn1, ws1) | Inr (c, s) \<Rightarrow> copy_loop mem s (wn1 - 1) (ws1 @ [c]))"
      using False w by (subst copy_loop.simps) simp
    have more: ?goal if ch: "char_at mem s1 = Mb_char k w" "k \<noteq> 0" "w \<noteq> 0" and step: "copy_loop mem s wn ws = copy_loop mem (s1 + k) (wn1 - 1) (ws1 @ [w])" for k w
    proof -
      have "wn1 - 1 < wn" using c1(2,4) by simp
      from less [OF this, of "s1 + k" "ws1 @ [w]"] obtain cs e where r: "chars_at mem (s1 + k) cs e"
          "copy_loop mem (s1 + k) (wn1 - 1) (ws1 @ [w]) = Inr (e, (ws1 @ [w]) @ cs) \<and> length cs = wn1 - 1 \<or>
           (\<exists>c. copy_loop mem (s1 + k) (wn1 - 1) (ws1 @ [w]) = Inl (c, e, wn1 - 1 - length cs, (ws1 @ [w]) @ cs) \<and> length cs < wn1 - 1 \<and> left_at mem c e)"
        by blast
      have ch': "chars_at mem s (cs1 @ w # cs) e" using chars_append [OF c1(3), of "w # cs" e] ch r(1) by auto
      from r(2) show ?thesis
      proof
        assume "copy_loop mem (s1 + k) (wn1 - 1) (ws1 @ [w]) = Inr (e, (ws1 @ [w]) @ cs) \<and> length cs = wn1 - 1"
        then show ?thesis using ch' c1 step by (intro exI [of _ "cs1 @ w # cs"] exI [of _ e]) auto
      next
        assume "\<exists>c. copy_loop mem (s1 + k) (wn1 - 1) (ws1 @ [w]) = Inl (c, e, wn1 - 1 - length cs, (ws1 @ [w]) @ cs) \<and> length cs < wn1 - 1 \<and> left_at mem c e"
        then show ?thesis using ch' c1 step by (intro exI [of _ "cs1 @ w # cs"] exI [of _ e]) auto
      qed
    qed
    have stop: ?goal if "copy_loop mem s wn ws = Inl (c, s1, wn1, ws1)" "left_at mem c s1" for c
      using that c1 by (intro exI [of _ cs1] exI [of _ s1]) auto
    show ?thesis
    proof (cases "plain_byte (mem s1)")
      case True
      then have "1 \<le> mem s1" "mem s1 < 128" using plain_byte_iff [of "mem s1"] assms by (auto simp: bytes_mem_def)
      then show ?thesis using more [of 1 "mem s1"] True unf char_at_plain [of mem s1] by simp
    next
      case np: False
      consider (zero) "mem s1 = 0" "szsub (mem s1) SA > SB - SA" | (lead) "lead (mem s1)" "\<not> szsub (mem s1) SA > SB - SA"
        | (bad) "128 \<le> mem s1" "szsub (mem s1) SA > SB - SA" "char_at mem s1 = Mb_error"
        using lead_or_zero [OF assms np] by argo
      then show ?thesis
      proof cases
        case zero
        then show ?thesis using stop [of 0] unf np by (simp add: left_at_def)
      next
        case lead
        then show ?thesis
          using resume_char [OF assms lead(1)] stop more unf np
          by (cases "resume mem (bittab ! (mem s1 - SA)) (s1 + 1)") (auto simp: left_at_def split: prod.splits)
      next
        case bad
        then show ?thesis using stop [of 0] unf np by (simp add: left_at_def)
      qed
    qed
  qed
qed

text \<open>The count without a destination goes down modulo the size of a word.\<close>

lemma skip_words_chars:
  assumes "bytes_mem mem" "mem t = 0" "s \<le> t" "wn < size_mod"
  shows "\<exists>cs s' wn'. skip_words mem s wn = Some (s', wn') \<and> chars_at mem s cs s' \<and> s' \<le> t \<and> wn' < size_mod \<and>
    (wn' + length cs) mod size_mod = wn"
  using assms(3,4)
proof (induction "t - s" arbitrary: s wn rule: less_induct)
  case less
  show ?case
  proof (cases "ascii_word (word_at mem s)")
    case True
    note c = chars_word [OF assms(1) True]
    have s: "s + 4 \<le> t" using c(2) assms(2) less(2) by (meson not_le)
    then have "t - (s + 4) < t - s" by simp
    from less(1) [OF this s szsub_bound] obtain cs s' wn' where r: "skip_words mem (s + 4) (szsub wn 4) = Some (s', wn')"
        "chars_at mem (s + 4) cs s'" "s' \<le> t" "wn' < size_mod" "(wn' + length cs) mod size_mod = szsub wn 4" by blast
    have "(wn' + (length cs + 4)) mod size_mod = (szsub wn 4 + 4) mod size_mod" unfolding r(5) [symmetric] mod_add_left_eq by (simp add: add.assoc)
    also have "\<dots> = wn" using less(3) unfolding szsub_def mod_add_left_eq by (simp add: add.assoc)
    finally have "(wn' + length ([mem s, mem (s + 1), mem (s + 2), mem (s + 3)] @ cs)) mod size_mod = wn" by (simp add: ac_simps)
    moreover have "skip_words mem s wn = Some (s', wn')" using r(1) True by (subst skip_words.simps) simp
    ultimately show ?thesis using r(3,4) chars_append [OF c(1) r(2)] by blast
  next
    case False
    then show ?thesis using less(2,3) by (intro exI [of _ "[]"]) (subst skip_words.simps, auto)
  qed
qed

lemma count_loop_chars:
  assumes "bytes_mem mem" "mem t = 0" "s \<le> t" "wn < size_mod"
  shows "\<exists>cs c e wn'. count_loop mem s wn = Some (c, e, wn') \<and> chars_at mem s cs e \<and> e \<le> t \<and> left_at mem c e \<and> wn' < size_mod \<and>
    (wn' + length cs) mod size_mod = wn"
  using assms(3,4)
proof (induction "t - s" arbitrary: s wn rule: less_induct)
  case less
  let ?goal = "\<exists>cs c e wn'. count_loop mem s wn = Some (c, e, wn') \<and> chars_at mem s cs e \<and> e \<le> t \<and> left_at mem c e \<and> wn' < size_mod \<and>
    (wn' + length cs) mod size_mod = wn"
  obtain s1 wn1 cs1 where w: "(if plain_byte (mem s) \<and> s mod 4 = 0 then skip_words mem s wn else Some (s, wn)) = Some (s1, wn1)"
      and c1: "chars_at mem s cs1 s1" "s1 \<le> t" "wn1 < size_mod" "(wn1 + length cs1) mod size_mod = wn"
  proof (cases "plain_byte (mem s) \<and> s mod 4 = 0")
    case True
    then show thesis using skip_words_chars [OF assms(1,2) less(2,3)] that by auto
  next
    case False
    then show thesis using less(2,3) by (intro that [of s wn "[]"]) auto
  qed
  have unf: "count_loop mem s wn =
      (if plain_byte (mem s1) then count_loop mem (s1 + 1) (szsub wn1 1)
       else if szsub (mem s1) SA > SB - SA then Some (0, s1, wn1)
       else case resume0 mem (bittab ! (mem s1 - SA)) (s1 + 1) of
         Inl (c, s) \<Rightarrow> Some (c, s, wn1) | Inr s \<Rightarrow> count_loop mem s (szsub wn1 1))"
    using w by (subst count_loop.simps) simp
  have s1: "s \<le> s1" using c1(1)
  proof (induction cs1 arbitrary: s)
    case (Cons c cs)
    then show ?case by (auto intro: le_trans [OF le_add1])
  qed simp
  have more: ?goal if ch: "char_at mem s1 = Mb_char k w" "k \<noteq> 0" "w \<noteq> 0" "s1 + k \<le> t"
    and step: "count_loop mem s wn = count_loop mem (s1 + k) (szsub wn1 1)" for k w
  proof -
    have "t - (s1 + k) < t - s" using ch(2,4) s1 by simp
    from less(1) [OF this ch(4) szsub_bound] obtain cs c e wn' where r: "count_loop mem (s1 + k) (szsub wn1 1) = Some (c, e, wn')"
        "chars_at mem (s1 + k) cs e" "e \<le> t" "left_at mem c e" "wn' < size_mod" "(wn' + length cs) mod size_mod = szsub wn1 1" by blast
    have "(wn' + (length cs1 + Suc (length cs))) mod size_mod = (szsub wn1 1 + (length cs1 + 1)) mod size_mod"
      unfolding r(6) [symmetric] mod_add_left_eq by (simp add: ac_simps)
    also have "\<dots> = (wn1 + length cs1 + size_mod) mod size_mod" unfolding szsub_def mod_add_left_eq by (simp add: ac_simps)
    also have "\<dots> = wn" using c1(4) by simp
    finally have "(wn' + (length cs1 + Suc (length cs))) mod size_mod = wn" .
    moreover have "chars_at mem s (cs1 @ w # cs) e" using chars_append [OF c1(1), of "w # cs" e] ch r(2) by auto
    ultimately show ?thesis using r step by (intro exI [of _ "cs1 @ w # cs"]) auto
  qed
  have stop: ?goal if "count_loop mem s wn = Some (c, s1, wn1)" "left_at mem c s1" for c
    using that c1 by blast
  show ?case
  proof (cases "plain_byte (mem s1)")
    case True
    then have p: "1 \<le> mem s1" "mem s1 < 128" using plain_byte_iff [of "mem s1"] assms(1) by (auto simp: bytes_mem_def)
    then have "s1 \<noteq> t" using assms(2) by auto
    then show ?thesis using more [of 1 "mem s1"] True unf char_at_plain [of mem s1] p c1(2) by simp
  next
    case np: False
    consider (zero) "mem s1 = 0" "szsub (mem s1) SA > SB - SA" | (lead) "lead (mem s1)" "\<not> szsub (mem s1) SA > SB - SA"
      | (bad) "128 \<le> mem s1" "szsub (mem s1) SA > SB - SA" "char_at mem s1 = Mb_error"
      using lead_or_zero [OF assms(1) np] by argo
    then show ?thesis
    proof cases
      case zero
      then show ?thesis using stop [of 0] unf np by (simp add: left_at_def)
    next
      case lead
      note eq = resume0_resume [OF assms(1) lead(1)]
      show ?thesis
      proof (cases "resume mem (bittab ! (mem s1 - SA)) (s1 + 1)")
        case (Inl cs)
        obtain c s' where cs: "cs = (c, s')" by (cases cs)
        have r: "s' = s1" "char_at mem s1 = Mb_error" using resume_char [OF assms(1) lead(1)] unfolding Inl cs by simp_all
        have "bittab ! (mem s1 - SA) \<noteq> 0" by (rule top_bit_nonzero [OF lead_top(1) [OF lead(1)]])
        then show ?thesis using r eq stop [of "bittab ! (mem s1 - SA)"] unf np lead unfolding Inl cs by (simp add: left_at_def)
      next
        case (Inr cs)
        obtain w s' where cs: "cs = (w, s')" by (cases cs)
        have r: "s1 + 2 \<le> s'" "char_at mem s1 = Mb_char (s' - s1) w" "w \<noteq> 0" "\<forall>i. s1 \<le> i \<and> i < s' \<longrightarrow> mem i \<noteq> 0"
          using resume_char [OF assms(1) lead(1)] unfolding Inr cs by simp_all
        have "s' \<le> t" using r(4) c1(2) assms(2) by (meson not_le)
        then show ?thesis using r eq more [of "s' - s1" w] unf np lead unfolding Inr cs by simp
      qed
    next
      case bad
      then show ?thesis using stop [of 0] unf np by (simp add: left_at_def)
    qed
  qed
qed

section \<open>mbsrtowcs\<close>

text \<open>C14.  mbsrtowcs, which reads whole words and unrolls the decoding, does what calling mbrtowc for one character
  after the other does: the characters it writes are those mbrtowc gives from the start of the
  string on, as many as are asked for or as there are before the terminating NUL or before the first
  sequence mbrtowc refuses; and it returns their number and where it stopped accordingly.\<close>

theorem mbsrtowcs_spec:
  assumes "bytes_mem mem" "wn < size_mod"
  shows "\<exists>cs e. chars_at mem s cs e \<and> (
    length cs = wn \<and> mbsrtowcs False mem True s wn (Some 0) = Some (Some wn, Some e, cs, Some 0) \<or>
    length cs < wn \<and> mem e = 0 \<and> mbsrtowcs False mem True s wn (Some 0) = Some (Some (length cs), None, cs @ [0], Some 0) \<or>
    length cs < wn \<and> mem e \<noteq> 0 \<and> char_at mem e = Mb_error \<and>
      mbsrtowcs False mem True s wn (Some 0) = Some (None, Some e, cs, Some 0))"
proof -
  obtain cs e where c: "chars_at mem s cs e" "copy_loop mem s wn [] = Inr (e, [] @ cs) \<and> length cs = wn \<or>
      (\<exists>c. copy_loop mem s wn [] = Inl (c, e, wn - length cs, [] @ cs) \<and> length cs < wn \<and> left_at mem c e)"
    using copy_loop_chars [OF assms(1)] by blast
  have "szsub wn (wn - length cs) = length cs" if "length cs < wn" using that assms(2) by (simp add: size_simps)
  then show ?thesis using c by (intro exI [of _ cs] exI [of _ e]) (auto simp: mbsrtowcs_def copy_end_def left_at_def)
qed

theorem mbsrtowcs_spec_witness:
  "\<exists>cs e. chars_at (\<lambda>a. if a < 5 then 0x41 else 0) 0 cs e \<and> (
    length cs = 9 \<and> mbsrtowcs False (\<lambda>a. if a < 5 then 0x41 else 0) True 0 9 (Some 0) = Some (Some 9, Some e, cs, Some 0) \<or>
    length cs < 9 \<and> (if e < 5 then 0x41 else 0) = (0 :: nat) \<and>
      mbsrtowcs False (\<lambda>a. if a < 5 then 0x41 else 0) True 0 9 (Some 0) = Some (Some (length cs), None, cs @ [0], Some 0) \<or>
    length cs < 9 \<and> (if e < 5 then 0x41 else 0) \<noteq> (0 :: nat) \<and> char_at (\<lambda>a. if a < 5 then 0x41 else 0) e = Mb_error \<and>
      mbsrtowcs False (\<lambda>a. if a < 5 then 0x41 else 0) True 0 9 (Some 0) = Some (None, Some e, cs, Some 0))"
  by (rule mbsrtowcs_spec) (simp_all add: bytes_mem_def)

text \<open>C15.  Without a destination mbsrtowcs returns whenever there is a NUL somewhere behind the pointer, without
  reading a character beyond it: either the number of characters, which is their number whatever count was
  passed, or -1 at a sequence mbrtowc refuses; and it leaves \<open>*src\<close> as it was.\<close>

theorem mbsrtowcs_counts:
  assumes "bytes_mem mem" "mem t = 0" "s \<le> t" "wn < size_mod"
  shows "\<exists>cs e. chars_at mem s cs e \<and> e \<le> t \<and> (
    mem e = 0 \<and> mbsrtowcs False mem False s wn (Some 0) = Some (Some (length cs mod size_mod), Some s, [], Some 0) \<or>
    mem e \<noteq> 0 \<and> char_at mem e = Mb_error \<and> mbsrtowcs False mem False s wn (Some 0) = Some (None, Some s, [], Some 0))"
proof -
  obtain cs c e wn' where c: "count_loop mem s wn = Some (c, e, wn')" "chars_at mem s cs e" "e \<le> t" "left_at mem c e" "wn' < size_mod"
      "(wn' + length cs) mod size_mod = wn"
    using count_loop_chars [OF assms] by blast
  have "szsub wn wn' = ((wn' + length cs) mod size_mod + (size_mod - wn')) mod size_mod" unfolding c(6) using c(5) by (simp add: szsub_def)
  also have "\<dots> = length cs mod size_mod" unfolding mod_add_left_eq using c(5) by simp
  finally have "szsub wn wn' = length cs mod size_mod" .
  then show ?thesis using c(1-4)
    by (intro exI [of _ cs] exI [of _ e]) (auto simp: mbsrtowcs_def count_end_def left_at_def)
qed

theorem mbsrtowcs_counts_witness:
  "\<exists>cs e. chars_at (\<lambda>a. if a < 5 then 0x41 else 0) 0 cs e \<and> e \<le> 7 \<and> (
    (if e < 5 then 0x41 else 0) = (0 :: nat) \<and>
      mbsrtowcs False (\<lambda>a. if a < 5 then 0x41 else 0) False 0 0 (Some 0) = Some (Some (length cs mod size_mod), Some 0, [], Some 0) \<or>
    (if e < 5 then 0x41 else 0) \<noteq> (0 :: nat) \<and> char_at (\<lambda>a. if a < 5 then 0x41 else 0) e = Mb_error \<and>
      mbsrtowcs False (\<lambda>a. if a < 5 then 0x41 else 0) False 0 0 (Some 0) = Some (None, Some 0, [], Some 0))"
  by (rule mbsrtowcs_counts) (simp_all add: bytes_mem_def)

section \<open>wcsrtombs\<close>

lemma wcrtomb_utf8: "wc < size_mod \<Longrightarrow>
    wcrtomb False False wc = (if scalar wc then (Some (length (utf8 wc)), utf8 wc) else (None, []))"
  by (simp add: wcrtomb_def wc_bytes_utf8)

lemma utf8_length: "1 \<le> length (utf8 wc)" "length (utf8 wc) \<le> 4"
  by (auto simp: utf8_def)

lemma wcrtomb_length: "wcrtomb one False wc = (Some l, bs) \<Longrightarrow> l = length bs \<and> l \<le> 4"
  by (auto simp: wcrtomb_def wc_bytes_def split: if_splits)

text \<open>The first loop leaves the bounds check out where four bytes are left, and so does what the second does.\<close>

lemma wcs_first_last: "wcs_first one N ws n out = wcs_last one N ws n out"
proof (induction ws arbitrary: n out)
  case Nil
  then show ?case by (cases n) auto
next
  case (Cons w ws)
  show ?case
  proof (cases "n \<ge> 4")
    case True
    then obtain m where "n = Suc m" by (cases n) auto
    then show ?thesis using Cons True wcrtomb_length [of one w] by (auto split: option.splits prod.splits)
  qed simp
qed

text \<open>What is to come of the wide string \<open>ws\<close> into \<open>n\<close> bytes behind \<open>out\<close>.\<close>

definition encodes :: "nat list \<Rightarrow> nat \<Rightarrow> nat list \<Rightarrow> wcs_result option \<Rightarrow> nat list \<Rightarrow> nat \<Rightarrow> nat list \<Rightarrow> bool" where
  "encodes ws n out r pre w post \<longleftrightarrow>
     ws = pre @ w # post \<and> 0 \<notin> set pre \<and> (\<forall>c \<in> set pre. scalar c) \<and> length (concat (map utf8 pre)) \<le> n \<and>
     (let bs = concat (map utf8 pre); k = length out + length bs in
       if length bs = n then r = Some (Some k, out @ bs, Some (w # post))
       else if w = 0 then r = Some (Some k, out @ bs @ [0], None)
       else if \<not> scalar w then r = Some (None, out @ bs, Some (w # post))
       else n < length bs + length (utf8 w) \<and> r = Some (Some k, out @ bs, Some (w # post)))"

lemma encodes_stop: "encodes (w # ws) n out r [] w ws \<longleftrightarrow>
   (if n = 0 then r = Some (Some (length out), out, Some (w # ws))
    else if w = 0 then r = Some (Some (length out), out @ [0], None)
    else if \<not> scalar w then r = Some (None, out, Some (w # ws))
    else n < length (utf8 w) \<and> r = Some (Some (length out), out, Some (w # ws)))"
  by (auto simp: encodes_def)

lemma encodes_more:
  "encodes ws (n - length (utf8 c)) (out @ utf8 c) r pre w post \<Longrightarrow> c \<noteq> 0 \<Longrightarrow> scalar c \<Longrightarrow> length (utf8 c) \<le> n \<Longrightarrow>
    encodes (c # ws) n out r (c # pre) w post"
  unfolding encodes_def Let_def by (auto simp: add.assoc split: if_splits)

lemma wcs_last_encodes:
  assumes "\<forall>w \<in> set ws. w < size_mod" "0 \<in> set ws" "N = n + length out"
  shows "\<exists>pre w post. encodes ws n out (wcs_last False N ws n out) pre w post"
  using assms
proof (induction ws arbitrary: n out)
  case (Cons w ws)
  show ?case
  proof (cases n)
    case 0
    then show ?thesis using Cons.prems(3) encodes_stop [of w ws n out] by auto
  next
    case (Suc m)
    have w: "w < size_mod" using Cons.prems(1) by simp
    have plain: "\<not> szsub w 1 \<ge> 0x7f \<longleftrightarrow> w \<noteq> 0 \<and> w < 0x80" using w by (auto simp: szsub_def mod_if)
    show ?thesis
    proof (cases "w \<noteq> 0 \<and> scalar w \<and> length (utf8 w) \<le> n")
      case True
      have step: "wcs_last False N (w # ws) n out = wcs_last False N ws (n - length (utf8 w)) (out @ utf8 w)"
        using True plain Suc wcrtomb_utf8 [OF w] by (auto simp: utf8_def)
      have "0 \<in> set ws" using Cons.prems(2) True by auto
      from Cons.IH [OF _ this, of "n - length (utf8 w)" "out @ utf8 w"] obtain pre v post where
        "encodes ws (n - length (utf8 w)) (out @ utf8 w) (wcs_last False N ws (n - length (utf8 w)) (out @ utf8 w)) pre v post"
        using Cons.prems(1,3) True by auto
      then show ?thesis using encodes_more True unfolding step by blast
    next
      case False
      then have "szsub w 1 \<ge> 0x7f" using plain Suc by (auto simp: utf8_def scalar_def)
      then have "encodes (w # ws) n out (wcs_last False N (w # ws) n out) [] w ws"
        using False Suc wcrtomb_utf8 [OF w] Cons.prems(3) unfolding encodes_stop by auto
      then show ?thesis by blast
    qed
  qed
qed simp

text \<open>C16.  wcsrtombs writes the encodings of the characters of the wide string one after the other and never
  a part of one: it stops when the space is used up, at the terminating 0 (which it writes), at a value that is not a
  character, or where the next encoding does not fit; and it returns the number of bytes and the rest of the string
  accordingly.\<close>

theorem wcsrtombs_spec:
  assumes "\<forall>w \<in> set ws. w < size_mod" "0 \<in> set ws"
  shows "\<exists>pre w post. ws = pre @ w # post \<and> 0 \<notin> set pre \<and> (\<forall>c \<in> set pre. scalar c) \<and> (
    let bs = concat (map utf8 pre); r = wcsrtombs False True ws n in
      length bs = n \<and> r = Some (Some n, bs, Some (w # post)) \<or>
      length bs < n \<and> w = 0 \<and> r = Some (Some (length bs), bs @ [0], None) \<or>
      length bs < n \<and> \<not> scalar w \<and> r = Some (None, bs, Some (w # post)) \<or>
      length bs < n \<and> n < length bs + length (utf8 w) \<and> r = Some (Some (length bs), bs, Some (w # post)))"
proof -
  obtain pre w post where "encodes ws n [] (wcs_last False n ws n []) pre w post"
    using wcs_last_encodes [OF assms, of n n "[]"] by auto
  then show ?thesis unfolding encodes_def wcsrtombs_def wcs_first_last Let_def
    by (intro exI [of _ pre] exI [of _ w] exI [of _ post]) (auto split: if_splits)
qed

theorem wcsrtombs_spec_witness:
  "\<exists>pre w post. [0x20ac, 0x41, 0] = pre @ w # post \<and> 0 \<notin> set pre \<and> (\<forall>c \<in> set pre. scalar c) \<and> (
    let bs = concat (map utf8 pre); r = wcsrtombs False True [0x20ac, 0x41, 0] 9 in
      length bs = 9 \<and> r = Some (Some 9, bs, Some (w # post)) \<or>
      length bs < 9 \<and> w = 0 \<and> r = Some (Some (length bs), bs @ [0], None) \<or>
      length bs < 9 \<and> \<not> scalar w \<and> r = Some (None, bs, Some (w # post)) \<or>
      length bs < 9 \<and> 9 < length bs + length (utf8 w) \<and> r = Some (Some (length bs), bs, Some (w # post)))"
  by (rule wcsrtombs_spec) simp_all

section \<open>There and back\<close>

lemma char_at_utf8:
  assumes "scalar w" "w \<noteq> 0" "map mem [s..<s + length (utf8 w)] = utf8 w"
  shows "char_at mem s = Mb_char (length (utf8 w)) w"
proof -
  have "[s..<s + 4] = [s..<s + length (utf8 w)] @ [s + length (utf8 w)..<s + 4]"
    using upt_add_eq_append [of s "s + length (utf8 w)" "4 - length (utf8 w)"] utf8_length(2) [of w] by simp
  then have "map mem [s..<s + 4] = utf8 w @ map mem [s + length (utf8 w)..<s + 4]" using assms(3) by simp
  then show ?thesis using mbrtowc_utf8 [OF assms(1) utf8_length(2)] assms(2) by (simp add: char_at_def)
qed

lemma chars_utf8:
  "\<forall>w \<in> set ws. scalar w \<and> w \<noteq> 0 \<Longrightarrow> map mem [s..<s + length (concat (map utf8 ws))] = concat (map utf8 ws) \<Longrightarrow>
    chars_at mem s ws (s + length (concat (map utf8 ws)))"
proof (induction ws arbitrary: s)
  case (Cons w ws)
  let ?l = "length (utf8 w)" and ?m = "length (concat (map utf8 ws))"
  have "map mem [s..<s + ?l] @ map mem [s + ?l..<s + ?l + ?m] = utf8 w @ concat (map utf8 ws)"
    using Cons.prems(2) upt_add_eq_append [of s "s + ?l" ?m] by (simp add: add.assoc flip: map_append)
  then have m: "map mem [s..<s + ?l] = utf8 w" "map mem [s + ?l..<s + ?l + ?m] = concat (map utf8 ws)" by simp_all
  have "chars_at mem (s + ?l) ws (s + ?l + ?m)" using Cons.IH [OF _ m(2)] Cons.prems(1) by simp
  then show ?case using char_at_utf8 [OF _ _ m(1)] Cons.prems(1) utf8_length(1) [of w] by (auto simp: add.assoc)
qed simp

lemma decode_all:
  assumes "bytes_mem mem" "wn < size_mod" "chars_at mem s ws e" "mem e = 0" "length ws < wn"
  shows "mbsrtowcs False mem True s wn (Some 0) = Some (Some (length ws), None, ws @ [0], Some 0)"
proof -
  obtain cs e' where c: "chars_at mem s cs e'" "copy_loop mem s wn [] = Inr (e', [] @ cs) \<and> length cs = wn \<or>
      (\<exists>c. copy_loop mem s wn [] = Inl (c, e', wn - length cs, [] @ cs) \<and> length cs < wn \<and> left_at mem c e')"
    using copy_loop_chars [OF assms(1)] by blast
  have "length cs \<le> length ws" using chars_stop [OF assms(3) _ c(1)] assms(4) by (simp add: stops_at_def)
  then obtain k where k: "copy_loop mem s wn [] = Inl (k, e', wn - length cs, cs)" "left_at mem k e'" using c(2) assms(5) by auto
  then have "length ws \<le> length cs" using chars_stop [OF c(1) _ assms(3)] by (auto simp: stops_at_def left_at_def)
  with \<open>length cs \<le> length ws\<close> have "length cs = length ws" by simp
  then have eq: "cs = ws \<and> e' = e" by (rule chars_unique [OF assms(3) c(1)])
  moreover have "szsub wn (wn - length ws) = length ws" using assms(2,5) by (simp add: size_simps)
  ultimately show ?thesis using k assms(4) by (auto simp: mbsrtowcs_def copy_end_def left_at_def)
qed

lemma first_zero: "ws @ [0] = pre @ 0 # post \<Longrightarrow> 0 \<notin> set ws \<Longrightarrow> 0 \<notin> set pre \<Longrightarrow> pre = ws" for ws :: "nat list"
proof (induction ws arbitrary: pre)
  case Nil
  then show ?case by (cases pre) auto
next
  case (Cons w ws)
  then show ?case by (cases pre) auto
qed

text \<open>C17.  A wide string without surrogates and values beyond Unicode survives wcsrtombs and mbsrtowcs: where the bytes that
  wcsrtombs wrote for it, the terminating NUL included, are in memory, mbsrtowcs gives the same string, its length and NULL,
  wherever the bytes are aligned.\<close>

theorem strings_roundtrip:
  assumes "\<forall>w \<in> set ws. scalar w \<and> w \<noteq> 0" "wcsrtombs False True (ws @ [0]) n = Some (Some k, out, None)"
    and "bytes_mem mem" "map mem [s..<s + length out] = out" "length ws < wn" "wn < size_mod"
  shows "mbsrtowcs False mem True s wn (Some 0) = Some (Some (length ws), None, ws @ [0], Some 0)"
proof -
  let ?bs = "concat (map utf8 ws)"
  have "\<forall>w \<in> set (ws @ [0]). w < size_mod" using assms(1) by (auto simp: scalar_def)
  then obtain pre w post where e: "encodes (ws @ [0]) n [] (wcs_last False n (ws @ [0]) n []) pre w post"
    using wcs_last_encodes [of "ws @ [0]" n n "[]"] by auto
  moreover have "wcs_last False n (ws @ [0]) n [] = Some (Some k, out, None)"
    using assms(2) by (simp add: wcsrtombs_def wcs_first_last)
  ultimately have w: "w = 0" "out = concat (map utf8 pre) @ [0]" "ws @ [0] = pre @ 0 # post" "0 \<notin> set pre"
    by (auto simp: encodes_def Let_def split: if_splits)
  have "pre = ws" using first_zero [OF w(3) _ w(4)] assms(1) by auto
  then have out: "out = ?bs @ [0]" using w(2) by simp
  have "[s..<s + length out] = [s..<s + length ?bs] @ [s + length ?bs]" unfolding out by simp
  then have m: "map mem [s..<s + length ?bs] = ?bs" "mem (s + length ?bs) = 0" using assms(4) unfolding out by simp_all
  show ?thesis by (rule decode_all [OF assms(3,6) chars_utf8 [OF assms(1) m(1)] m(2) assms(5)])
qed

theorem strings_roundtrip_witness:
  "mbsrtowcs False (\<lambda>a. if a = 7 then 0xe2 else if a = 8 then 0x82 else if a = 9 then 0xac else 0) True 7 5 (Some 0) =
    Some (Some 1, None, [0x20ac, 0], Some 0)"
proof -
  have "wcsrtombs False True ([0x20ac] @ [0]) 4 = Some (Some 3, [0xe2, 0x82, 0xac, 0], None)"
    using wcrtomb_utf8 [of "0x20ac"] by (simp add: wcsrtombs_def utf8_def scalar_def szsub_def)
  moreover have "[7..<7 + 4] = [7 :: nat, 8, 9, 10]" by (simp add: upt_rec numeral_eq_Suc)
  ultimately show ?thesis
    using strings_roundtrip [of "[0x20ac]" 4 3 "[0xe2, 0x82, 0xac, 0]"
      "\<lambda>a. if a = 7 then 0xe2 else if a = 8 then 0x82 else if a = 9 then 0xac else 0" 7 5]
    by (simp add: scalar_def bytes_mem_def)
qed

end
