(* ===== verification/Futex.thy ===== *)
theory Futex
  imports Timestamps
begin

text \<open>
  Waiting on a word of memory with a deadline: __wasilibc_futex_wait_wasix and
  __wasilibc_futex_wake_wasix (libc-bottom-half/sources/__wasilibc_futex.c), __timedwait_cp
  (libc-top-half/musl/src/thread/__timedwait.c) and __wake (src/internal/pthread_impl.h).

  The host's futex_wait is a function of the timeout that gives its error, whether the thread was
  woken, and the word as it is read afterwards.  A trap is \<open>None\<close>.
\<close>

abbreviation ECANCELED :: errno where "ECANCELED \<equiv> 11"
abbreviation INT_MAX :: int where "INT_MAX \<equiv> 2147483647"

text \<open>Signed 64-bit arithmetic, as the WebAssembly instructions compute it.\<close>

definition i64 :: "int \<Rightarrow> int" where
  "i64 x = (x + 0x8000000000000000) mod 0x10000000000000000 - 0x8000000000000000"

section \<open>The wait\<close>

definition futex_timeout :: "int \<Rightarrow> nat option" where
  "futex_timeout max_wait_ns = (if max_wait_ns > 0 then Some (nat max_wait_ns) else None)"

definition futex_wait :: "nat \<Rightarrow> int \<Rightarrow> int \<Rightarrow> int \<Rightarrow> (nat option \<Rightarrow> errno \<times> bool \<times> int) \<Rightarrow> int option" where
  "futex_wait addr word expected max_wait_ns host =
     (if addr mod 4 \<noteq> 0 then Some (- int EINVAL)
      else if word \<noteq> expected then Some (- int EAGAIN)
      else case host (futex_timeout max_wait_ns) of (err, woken, after) \<Rightarrow>
        if err \<noteq> 0 then None
        else if \<not> woken \<and> after = expected then Some (- int ETIMEDOUT)
        else Some 0)"

definition max_wait :: "timespec option \<Rightarrow> int" where
  "max_wait to = (case to of None \<Rightarrow> - 1 | Some t \<Rightarrow> i64 (i64 (tv_sec t * 1000000000) + tv_nsec t))"

text \<open>
  From the deadline and the clock, \<open>None\<close> when the clock fails, to the time that is left.  The test
  \<open>at->tv_nsec >= 1000000000UL\<close> is unsigned, so that a negative tv_nsec fails it too.
\<close>

definition timedwait_left :: "timespec option \<Rightarrow> timespec option \<Rightarrow> errno + timespec option" where
  "timedwait_left at clock = (case at of
      None \<Rightarrow> Inr None
    | Some at \<Rightarrow>
        if tv_nsec at < 0 \<or> tv_nsec at \<ge> 1000000000 then Inl EINVAL
        else case clock of
          None \<Rightarrow> Inl EINVAL
        | Some now \<Rightarrow>
            let sec = i64 (tv_sec at - tv_sec now); nsec = tv_nsec at - tv_nsec now;
                (sec, nsec) = (if nsec < 0 then (i64 (sec - 1), nsec + 1000000000) else (sec, nsec))
            in if sec < 0 then Inl ETIMEDOUT else Inr (Some \<lparr>tv_sec = sec, tv_nsec = nsec\<rparr>))"

definition timedwait_cp :: "nat \<Rightarrow> int \<Rightarrow> int \<Rightarrow> timespec option \<Rightarrow> timespec option \<Rightarrow>
    (nat option \<Rightarrow> errno \<times> bool \<times> int) \<Rightarrow> errno option" where
  "timedwait_cp addr word val at clock host = (case timedwait_left at clock of
      Inl e \<Rightarrow> Some e
    | Inr left \<Rightarrow> (case futex_wait addr word val (max_wait left) host of
        None \<Rightarrow> None
      | Some ret \<Rightarrow> let r = nat (- ret) in
          Some (if r \<noteq> EINTR \<and> r \<noteq> ETIMEDOUT \<and> r \<noteq> ECANCELED then 0 else r)))"

section \<open>Waking\<close>

text \<open>\<open>w n\<close> is the error of the host's \<open>n\<close>-th futex_wake, and \<open>w_all\<close> that of its futex_wake_all.\<close>

fun wake_loop :: "(nat \<Rightarrow> errno) \<Rightarrow> nat \<Rightarrow> nat \<Rightarrow> int" where
  "wake_loop w n 0 = 0"
| "wake_loop w n (Suc m) = (if w n \<noteq> 0 then - int (w n) else wake_loop w (Suc n) m)"

definition futex_wake :: "errno \<Rightarrow> (nat \<Rightarrow> errno) \<Rightarrow> int \<Rightarrow> int" where
  "futex_wake w_all w count =
     (if count = INT_MAX then - int w_all else wake_loop w 0 (nat count))"

definition wake_count :: "int \<Rightarrow> int" where
  "wake_count count = (if count < 0 then INT_MAX else count)"

section \<open>Properties\<close>

lemma i64_id: "- 0x8000000000000000 \<le> x \<Longrightarrow> x < 0x8000000000000000 \<Longrightarrow> i64 x = x"
  by (simp add: i64_def)

abbreviation nanoseconds :: "timespec \<Rightarrow> int" where
  "nanoseconds t \<equiv> tv_sec t * 1000000000 + tv_nsec t"

lemma normal_form:
  assumes "0 \<le> a" "a < 1000000000" "0 \<le> (b::int)" "b < 1000000000"
  shows "s * 1000000000 + a - b < 0 \<longleftrightarrow> (if a < b then s - 1 else s) < 0"
  using assms by auto

text \<open>Deadlines: with valid times less than \<open>2 ^ 63\<close> ns apart, __timedwait_cp asks the host to wait for exactly
  the time that is left until the deadline, and fails with ETIMEDOUT when it has passed; but when the deadline is
  exactly now, no time being left, it asks the host to wait without any timeout.\<close>

theorem timedwait_deadline:
  assumes "0 \<le> tv_nsec at" "tv_nsec at < 1000000000" "0 \<le> tv_nsec now" "tv_nsec now < 1000000000"
    and "\<bar>nanoseconds at - nanoseconds now\<bar> < 2 ^ 63"
  shows "map_sum id (\<lambda>l. futex_timeout (max_wait l)) (timedwait_left (Some at) (Some now)) =
    (let left = nanoseconds at - nanoseconds now in
     if left < 0 then Inl ETIMEDOUT else Inr (if left = 0 then None else Some (nat left)))"
proof -
  let ?d = "tv_sec at - tv_sec now" and ?n = "tv_nsec at - tv_nsec now"
  have left: "nanoseconds at - nanoseconds now = ?d * 1000000000 + ?n" by simp
  have "\<bar>?d\<bar> < 0x8000000000000000 - 1" using assms by simp
  then have d: "i64 ?d = ?d" "i64 (?d - 1) = ?d - 1" by (simp_all add: i64_id)
  define s where "s = (if ?n < 0 then ?d - 1 else ?d)"
  define m where "m = (if ?n < 0 then ?n + 1000000000 else ?n)"
  have sm: "nanoseconds at - nanoseconds now = s * 1000000000 + m" "0 \<le> m" "m < 1000000000"
    using assms by (auto simp: s_def m_def)
  have res: "timedwait_left (Some at) (Some now) = (if s < 0 then Inl ETIMEDOUT else Inr (Some \<lparr>tv_sec = s, tv_nsec = m\<rparr>))"
    using assms d by (simp add: timedwait_left_def s_def m_def)
  show ?thesis
  proof (cases "s < 0")
    case True
    then have "s * 1000000000 + m < 0" using sm by linarith
    then show ?thesis unfolding res sm(1) using True by simp
  next
    case False
    then have "i64 (s * 1000000000) = s * 1000000000" "i64 (s * 1000000000 + m) = s * 1000000000 + m"
      using assms(5) sm by (simp_all add: i64_id)
    then show ?thesis unfolding res sm(1) using False sm
      by (auto simp: max_wait_def futex_timeout_def)
  qed
qed

theorem timedwait_deadline_witness:
  "map_sum id (\<lambda>l. futex_timeout (max_wait l))
     (timedwait_left (Some \<lparr>tv_sec = 12, tv_nsec = 5\<rparr>) (Some \<lparr>tv_sec = 10, tv_nsec = 7\<rparr>)) = Inr (Some 1999999998)"
  using timedwait_deadline [of "\<lparr>tv_sec = 12, tv_nsec = 5\<rparr>" "\<lparr>tv_sec = 10, tv_nsec = 7\<rparr>"] by simp

text \<open>Whatever the host does, __timedwait_cp returns 0, EINVAL or ETIMEDOUT, unless it traps: the other errors of
  the wait count as a wake-up; EINVAL comes from the deadline or the clock alone.\<close>

theorem timedwait_results:
  assumes "timedwait_cp addr word val at clock host = Some r"
  shows "r = 0 \<or> r = ETIMEDOUT \<or> (r = EINVAL \<and> (\<exists>t. at = Some t \<and> (clock = None \<or> tv_nsec t < 0 \<or> tv_nsec t \<ge> 1000000000)))"
  using assms
  by (auto simp: timedwait_cp_def timedwait_left_def futex_wait_def Let_def split: option.splits if_splits prod.splits)

theorem timedwait_results_witness:
  "timedwait_cp 8 5 5 None None (\<lambda>_. (0, False, 5)) = Some 73 \<and> (73 = (0::nat) \<or> 73 = ETIMEDOUT)"
proof -
  have run: "timedwait_cp 8 5 5 None None (\<lambda>_. (0, False, 5)) = Some 73"
    by (simp add: timedwait_cp_def timedwait_left_def futex_wait_def max_wait_def)
  show ?thesis using run timedwait_results [OF run] by simp
qed

end
