(* ===== verification/Rwlock.thy ===== *)
theory Rwlock
  imports Prelude
begin

text \<open>
  Read-write locks (libc-top-half/musl/src/thread: pthread_rwlock_tryrdlock.c, _timedrdlock.c,
  _trywrlock.c, _timedwrlock.c, _rdlock.c, _wrlock.c, _unlock.c over __timedwait.c) as threads that
  run interleaved, one access to the shared words at a time.

  The word \<open>_rw_lock\<close> is a \<open>nat\<close> below \<open>2 ^ 32\<close>: the number of readers, or \<open>2 ^ 31 - 1\<close> for a writer, and
  the bit 31 that waiters set; a negative int is one with that bit.  A program counter says which
  access a thread makes next and holds the values of the local variables that it still needs.  The
  results of a step are a list, for the choices of the clock and of the host.
\<close>

section \<open>States\<close>

datatype kind = Rd | Wr

text \<open>Why a thread tries: the try call itself, the first try of a timed call, or a try in its loop.\<close>

datatype attempt = Only | First | Again

datatype pc =
    Ret errno
  | Try_rd attempt | Cas_rd attempt nat
  | Try_wr attempt
  | Spin_lock kind nat | Spin_waiters kind nat
  | Load kind | Inc kind nat | Mark kind nat | Wait kind nat | Asleep kind nat | Dec kind errno
  | Held kind
  | Un_load kind | Un_waiters kind nat | Un_cas kind nat nat | Un_wake nat

abbreviation CNT_MAX :: nat where "CNT_MAX \<equiv> 0x7fffffff"
abbreviation WAIT_BIT :: nat where "WAIT_BIT \<equiv> 0x80000000"

text \<open>\<open>val & 0x7fffffff\<close> and \<open>r | 0x80000000\<close>\<close>

definition cnt :: "nat \<Rightarrow> nat" where
  "cnt v = v mod WAIT_BIT"

definition with_bit :: "nat \<Rightarrow> nat" where
  "with_bit r = WAIT_BIT + cnt r"

text \<open>What a try does with the result EBUSY: the timed calls spin or look at the lock.\<close>

definition busy :: "kind \<Rightarrow> attempt \<Rightarrow> pc" where
  "busy k a = (case a of Only \<Rightarrow> Ret EBUSY | First \<Rightarrow> Spin_lock k 100 | Again \<Rightarrow> Load k)"

definition retry :: "kind \<Rightarrow> pc" where
  "retry k = (case k of Rd \<Rightarrow> Try_rd Again | Wr \<Rightarrow> Try_wr Again)"

section \<open>Steps of a thread\<close>

text \<open>A step gives the next program counter and the new values of the lock and of the waiters.\<close>

type_synonym move = "pc \<times> nat \<times> nat"

text \<open>pthread_rwlock_tryrdlock\<close>

fun tryrd_step :: "pc \<Rightarrow> nat \<Rightarrow> nat \<Rightarrow> move list" where
  "tryrd_step (Try_rd a) l w =
     [(if cnt l = CNT_MAX then busy Rd a else if cnt l = 0x7ffffffe then Ret EAGAIN else Cas_rd a l, l, w)]"
| "tryrd_step (Cas_rd a val) l w = [if l = val then (Held Rd, val + 1, w) else (Try_rd a, l, w)]"
| "tryrd_step _ l w = []"

text \<open>pthread_rwlock_trywrlock\<close>

fun trywr_step :: "pc \<Rightarrow> nat \<Rightarrow> nat \<Rightarrow> move list" where
  "trywr_step (Try_wr a) l w = [if l = 0 then (Held Wr, CNT_MAX, w) else (busy Wr a, l, w)]"
| "trywr_step _ l w = []"

text \<open>The loops of pthread_rwlock_timedrdlock and pthread_rwlock_timedwrlock, which differ in one test.\<close>

fun timed_step :: "pc \<Rightarrow> nat \<Rightarrow> nat \<Rightarrow> move list" where
  "timed_step (Spin_lock k n) l w = [(if n = 0 \<or> l = 0 then retry k else Spin_waiters k (n - 1), l, w)]"
| "timed_step (Spin_waiters k n) l w = [(if w \<noteq> 0 then retry k else Spin_lock k n, l, w)]"
| "timed_step (Load k) l w = [(if l = 0 \<or> (k = Rd \<and> cnt l \<noteq> CNT_MAX) then retry k else Inc k l, l, w)]"
| "timed_step (Inc k r) l w = [(Mark k r, l, w + 1)]"
| "timed_step (Mark k r) l w = [(Wait k (with_bit r), if l = r then with_bit r else l, w)]"
| "timed_step (Wait k t) l w =
     [(Dec k EINVAL, l, w), (Dec k ETIMEDOUT, l, w), (if l = t then Asleep k t else Dec k 0, l, w)]"
| "timed_step (Asleep k t) l w = [(Dec k (if l = t then ETIMEDOUT else 0), l, w)]"
| "timed_step (Dec k r) l w = [(if r \<noteq> 0 \<and> r \<noteq> EINTR then Ret r else retry k, l, w - 1)]"
| "timed_step _ l w = []"

text \<open>pthread_rwlock_unlock; waking itself is a step of the whole system.\<close>

fun unlock_step :: "pc \<Rightarrow> nat \<Rightarrow> nat \<Rightarrow> move list" where
  "unlock_step (Un_load k) l w = [(Un_waiters k l, l, w)]"
| "unlock_step (Un_waiters k val) l w = [(Un_cas k val w, l, w)]"
| "unlock_step (Un_cas k val waiters) l w =
     (let c = cnt val; new = (if c = CNT_MAX \<or> c = 1 then 0 else val - 1) in
      [if l = val then (if new = 0 \<and> (waiters \<noteq> 0 \<or> val \<ge> WAIT_BIT) then Un_wake c else Ret 0, new, w)
       else (Un_load k, l, w)])"
| "unlock_step _ l w = []"

text \<open>What the program may call.\<close>

fun call_step :: "pc \<Rightarrow> nat \<Rightarrow> nat \<Rightarrow> move list" where
  "call_step (Ret e) l w = [(Try_rd Only, l, w), (Try_rd First, l, w), (Try_wr Only, l, w), (Try_wr First, l, w)]"
| "call_step (Held k) l w = [(Un_load k, l, w)]"
| "call_step _ l w = []"

definition thread_steps :: "pc \<Rightarrow> nat \<Rightarrow> nat \<Rightarrow> move list" where
  "thread_steps p l w = tryrd_step p l w @ trywr_step p l w @ timed_step p l w @ unlock_step p l w @ call_step p l w"

section \<open>The system\<close>

record rwlock =
  rw_lock :: nat
  rw_waiters :: nat
  pcs :: "nat \<Rightarrow> pc"

fun asleep :: "pc \<Rightarrow> bool" where
  "asleep (Asleep k t) = True"
| "asleep _ = False"

fun wake_up :: "pc \<Rightarrow> pc" where
  "wake_up (Asleep k t) = Dec k 0"
| "wake_up p = p"

text \<open>
  The threads are those below \<open>n\<close>.  \<open>__wake(&rw->_rw_lock, cnt, priv)\<close> wakes \<open>cnt\<close> sleeping threads, or all when
  there are not so many.
\<close>

inductive rw_step :: "nat \<Rightarrow> rwlock \<Rightarrow> rwlock \<Rightarrow> bool" for n where
  move: "i < n \<Longrightarrow> (p, l, w) \<in> set (thread_steps (pcs s i) (rw_lock s) (rw_waiters s)) \<Longrightarrow>
    rw_step n s (s\<lparr>pcs := (pcs s)(i := p), rw_lock := l, rw_waiters := w\<rparr>)"
| wake: "i < n \<Longrightarrow> pcs s i = Un_wake c \<Longrightarrow> A \<subseteq> {j. j < n \<and> asleep (pcs s j)} \<Longrightarrow>
    card A = min c (card {j. j < n \<and> asleep (pcs s j)}) \<Longrightarrow>
    rw_step n s (s\<lparr>pcs := (\<lambda>j. if j \<in> A then wake_up (pcs s j) else pcs s j)(i := Ret 0)\<rparr>)"

definition rw_init :: rwlock where
  "rw_init = \<lparr>rw_lock = 0, rw_waiters = 0, pcs = (\<lambda>_. Ret 0)\<rparr>"

definition rw_reachable :: "nat \<Rightarrow> rwlock \<Rightarrow> bool" where
  "rw_reachable n s \<longleftrightarrow> (rw_step n)\<^sup>*\<^sup>* rw_init s"

end
