(* ===== verification/Threads.thy ===== *)
theory Threads
  imports Prelude
begin

text \<open>
  Programs of several threads: the number of threads whose program counters satisfy a predicate, and
  invariants of a step relation.
\<close>

section \<open>Counting threads\<close>

definition num :: "('p \<Rightarrow> bool) \<Rightarrow> nat \<Rightarrow> (nat \<Rightarrow> 'p) \<Rightarrow> nat" where
  "num P n f = card {i. i < n \<and> P (f i)}"

lemma num_upd: "i < n \<Longrightarrow> num P n (f(i := p)) + (if P (f i) then 1 else 0) = num P n f + (if P p then 1 else 0)"
proof -
  assume i: "i < n"
  let ?A = "{j. j < n \<and> j \<noteq> i \<and> P (f j)}"
  have "finite ?A" "i \<notin> ?A" by simp_all
  moreover have "{j. j < n \<and> P ((f(i := p)) j)} = (if P p then insert i ?A else ?A)" using i by auto
  moreover have "{j. j < n \<and> P (f j)} = (if P (f i) then insert i ?A else ?A)" using i by auto
  ultimately show ?thesis unfolding num_def by simp
qed

lemma num_pos: "0 < num P n f \<longleftrightarrow> (\<exists>i < n. P (f i))"
  by (auto simp: num_def card_gt_0_iff)

lemma num_cong: "(\<And>j. j < n \<Longrightarrow> P (f j) = P (g j)) \<Longrightarrow> num P n f = num P n g"
  unfolding num_def by (rule arg_cong [where f = card]) auto

lemma num_keep: "0 < num P n (f(i := p)) \<Longrightarrow> \<not> P p \<Longrightarrow> 0 < num P n f"
  unfolding num_pos by (metis fun_upd_apply)

lemma num_mono: "(\<And>p. P p \<Longrightarrow> Q p) \<Longrightarrow> num P n f \<le> num Q n f"
  unfolding num_def by (rule card_mono) auto

lemma num_two: "i < n \<Longrightarrow> j < n \<Longrightarrow> i \<noteq> j \<Longrightarrow> P (f i) \<Longrightarrow> P (f j) \<Longrightarrow> 2 \<le> num P n f"
proof -
  assume "i < n" "j < n" "i \<noteq> j" "P (f i)" "P (f j)"
  then have "card {i, j} \<le> num P n f" unfolding num_def by (intro card_mono) auto
  then show ?thesis using \<open>i \<noteq> j\<close> by simp
qed

lemma num_le: "num P n f \<le> n"
proof -
  have "num P n f \<le> card {..<n}" unfolding num_def by (rule card_mono) auto
  then show ?thesis by simp
qed

section \<open>Invariants\<close>

text \<open>A step relation with an initial state and an invariant: whatever is reachable satisfies it.\<close>

locale step_invariant =
  fixes step :: "'s \<Rightarrow> 's \<Rightarrow> bool" and start :: 's and inv :: "'s \<Rightarrow> bool"
  assumes start_inv: "inv start" and step_inv: "step s t \<Longrightarrow> inv s \<Longrightarrow> inv t"
begin

lemma reachable_inv: "step\<^sup>*\<^sup>* start s \<Longrightarrow> inv s"
  by (induction rule: rtranclp_induct) (auto intro: start_inv step_inv)

end

end
