(* ===== verification/Rwlock_Theorems.thy ===== *)
theory Rwlock_Theorems
  imports Rwlock Threads
begin

text \<open>
  Invariants of the read-write locks over all interleavings: who holds the lock is what the word
  says, the waiters are counted, and a sleeping thread will be woken as long as the lock is held or
  some thread is on its way to the lock.
\<close>

section \<open>The invariant\<close>

fun holds :: "kind \<Rightarrow> pc \<Rightarrow> bool" where
  "holds k (Held k') \<longleftrightarrow> k' = k"
| "holds k (Un_load k') \<longleftrightarrow> k' = k"
| "holds k (Un_waiters k' val) \<longleftrightarrow> k' = k"
| "holds k (Un_cas k' val w) \<longleftrightarrow> k' = k"
| "holds k _ \<longleftrightarrow> False"

fun waiting :: "pc \<Rightarrow> bool" where
  "waiting (Mark k r) = True"
| "waiting (Wait k t) = True"
| "waiting (Asleep k t) = True"
| "waiting (Dec k r) = True"
| "waiting _ = False"

text \<open>Threads that will try the lock, or wake another one, without sleeping first.\<close>

fun coming :: "pc \<Rightarrow> bool" where
  "coming (Try_rd a) \<longleftrightarrow> a = Again"
| "coming (Cas_rd a v) \<longleftrightarrow> a = Again"
| "coming (Try_wr a) \<longleftrightarrow> a = Again"
| "coming (Dec k r) \<longleftrightarrow> r = 0 \<or> r = EINTR"
| "coming (Un_wake c) \<longleftrightarrow> True"
| "coming _ \<longleftrightarrow> False"

fun local_ok :: "pc \<Rightarrow> bool" where
  "local_ok (Cas_rd a v) \<longleftrightarrow> cnt v < 0x7ffffffe"
| "local_ok (Inc k r) \<longleftrightarrow> r \<noteq> 0"
| "local_ok (Mark k r) \<longleftrightarrow> r \<noteq> 0"
| "local_ok (Wait k t) \<longleftrightarrow> WAIT_BIT \<le> t"
| "local_ok (Un_wake c) \<longleftrightarrow> 1 \<le> c"
| "local_ok _ \<longleftrightarrow> True"

definition lock_ok :: "nat \<Rightarrow> nat \<Rightarrow> nat \<Rightarrow> bool" where
  "lock_ok l readers writers \<longleftrightarrow> l < 2 * WAIT_BIT \<and> (cnt l = 0 \<longrightarrow> l = 0) \<and>
     (writers = 0 \<and> readers = cnt l \<and> cnt l < CNT_MAX \<or> writers = 1 \<and> readers = 0 \<and> cnt l = CNT_MAX)"

definition rw_inv :: "nat \<Rightarrow> rwlock \<Rightarrow> bool" where
  "rw_inv n s \<longleftrightarrow> (\<forall>j < n. local_ok (pcs s j)) \<and>
     lock_ok (rw_lock s) (num (holds Rd) n (pcs s)) (num (holds Wr) n (pcs s)) \<and>
     rw_waiters s = num waiting n (pcs s) \<and>
     (\<forall>j < n. \<forall>k v. pcs s j = Un_cas k v 0 \<longrightarrow> 0 < num asleep n (pcs s) \<longrightarrow> WAIT_BIT \<le> rw_lock s) \<and>
     (0 < num asleep n (pcs s) \<longrightarrow> rw_lock s \<noteq> 0 \<or> (\<exists>j < n. coming (pcs s j)))"

lemma rw_inv_cas: "rw_inv n s \<Longrightarrow> j < n \<Longrightarrow> pcs s j = Un_cas k v 0 \<Longrightarrow> 0 < num asleep n (pcs s) \<Longrightarrow> WAIT_BIT \<le> rw_lock s"
  unfolding rw_inv_def by blast

lemma rw_init_inv: "rw_inv n rw_init"
  by (auto simp: rw_inv_def rw_init_def num_def lock_ok_def cnt_def)

text \<open>The word under its operations.\<close>

lemma cnt_zero [simp]: "cnt 0 = 0" "cnt CNT_MAX = CNT_MAX"
  by (simp_all add: cnt_def)

lemma cnt_bit [simp]: "cnt (with_bit r) = cnt r"
  by (simp add: cnt_def with_bit_def)

lemma with_bit_range: "WAIT_BIT \<le> with_bit r" "with_bit r < 2 * WAIT_BIT"
  by (simp_all add: with_bit_def cnt_def)

lemma cnt_next:
  assumes "cnt v < 0x7ffffffe" "v < 2 * WAIT_BIT"
  shows "cnt (v + 1) = cnt v + 1" "v + 1 < 2 * WAIT_BIT" "WAIT_BIT \<le> v \<Longrightarrow> WAIT_BIT \<le> v + 1"
  using assms by (auto simp: cnt_def mod_if split: if_splits)

lemma cnt_prev:
  assumes "1 < cnt v" "v < 2 * WAIT_BIT"
  shows "cnt (v - 1) = cnt v - 1" "v - 1 < 2 * WAIT_BIT" "WAIT_BIT \<le> v \<Longrightarrow> WAIT_BIT \<le> v - 1" "v - 1 \<noteq> 0"
  using assms by (auto simp: cnt_def mod_if split: if_splits)

text \<open>A step of one thread: what it has to keep.\<close>

lemma rw_inv_move:
  assumes "rw_inv n s" "i < n" "local_ok p"
    and lock: "\<And>R W. lock_ok (rw_lock s) R W \<Longrightarrow> (if holds Rd (pcs s i) then 1 else 0) \<le> R \<Longrightarrow> (if holds Wr (pcs s i) then 1 else 0) \<le> W \<Longrightarrow>
      lock_ok l (R + (if holds Rd p then 1 else 0) - (if holds Rd (pcs s i) then 1 else 0))
        (W + (if holds Wr p then 1 else 0) - (if holds Wr (pcs s i) then 1 else 0))"
    and waiters: "w + (if waiting (pcs s i) then 1 else 0) = rw_waiters s + (if waiting p then 1 else 0)"
    and bit: "\<And>j k v. j < n \<Longrightarrow> (j \<noteq> i \<and> pcs s j = Un_cas k v 0) \<or> (j = i \<and> p = Un_cas k v 0) \<Longrightarrow>
      0 < num asleep n ((pcs s)(i := p)) \<Longrightarrow> WAIT_BIT \<le> l"
    and live: "0 < num asleep n ((pcs s)(i := p)) \<Longrightarrow> l \<noteq> 0 \<or> coming p \<or> (\<not> coming (pcs s i) \<and> rw_lock s = 0 \<and> \<not> asleep p)"
  shows "rw_inv n (s\<lparr>pcs := (pcs s)(i := p), rw_lock := l, rw_waiters := w\<rparr>)"
proof -
  note inv = assms(1) [unfolded rw_inv_def]
  have u: "num P n ((pcs s)(i := p)) = num P n (pcs s) + (if P p then 1 else 0) - (if P (pcs s i) then 1 else 0)"
    "(if P (pcs s i) then 1 else 0) \<le> num P n (pcs s)" for P
    using num_upd [OF assms(2), of P "pcs s" p] num_pos [of P n "pcs s"] assms(2) by (auto simp: Suc_le_eq)
  have "lock_ok l (num (holds Rd) n ((pcs s)(i := p))) (num (holds Wr) n ((pcs s)(i := p)))"
    unfolding u(1) [of "holds Rd"] u(1) [of "holds Wr"] by (rule lock) (use inv u(2) in auto)
  moreover have "w = num waiting n ((pcs s)(i := p))"
    using num_upd [OF assms(2), of waiting "pcs s" p] waiters inv by simp
  moreover have "l \<noteq> 0 \<or> (\<exists>j < n. coming (((pcs s)(i := p)) j))" if a: "0 < num asleep n ((pcs s)(i := p))"
  proof (cases "l \<noteq> 0 \<or> coming p")
    case True
    then show ?thesis using assms(2) by auto
  next
    case False
    then have c: "\<not> coming (pcs s i)" "rw_lock s = 0" "\<not> asleep p" using live [OF a] by auto
    have "0 < num asleep n (pcs s)" using a c(3) num_pos [of asleep] by (metis fun_upd_apply)
    then obtain j where "j < n" "coming (pcs s j)" using inv c(2) by auto
    then show ?thesis using c(1) by (metis fun_upd_apply)
  qed
  ultimately show ?thesis using inv assms(3) bit unfolding rw_inv_def by (auto split: if_splits)
qed

text \<open>A step that leaves the lock alone, and what the thread holds.\<close>

lemma asleep_waiting: "asleep p \<Longrightarrow> waiting p"
  by (cases p) simp_all

lemma rw_inv_stay:
  assumes inv: "rw_inv n s" and i: "i < n" and ok: "local_ok p"
    and same: "\<And>k. holds k p = holds k (pcs s i)"
    and waiters: "w + (if waiting (pcs s i) then 1 else 0) = rw_waiters s + (if waiting p then 1 else 0)"
    and sleep: "asleep p \<Longrightarrow> WAIT_BIT \<le> rw_lock s"
    and none: "\<And>k v. p = Un_cas k v 0 \<Longrightarrow> rw_waiters s = 0"
    and live: "coming (pcs s i) \<Longrightarrow> coming p \<or> rw_lock s \<noteq> 0"
  shows "rw_inv n (s\<lparr>pcs := (pcs s)(i := p), rw_lock := rw_lock s, rw_waiters := w\<rparr>)"
proof (rule rw_inv_move [OF inv i ok])
  show "lock_ok (rw_lock s) (R + (if holds Rd p then 1 else 0) - (if holds Rd (pcs s i) then 1 else 0))
        (W + (if holds Wr p then 1 else 0) - (if holds Wr (pcs s i) then 1 else 0))"
    if "lock_ok (rw_lock s) R W" for R W using that same by simp
  show "w + (if waiting (pcs s i) then 1 else 0) = rw_waiters s + (if waiting p then 1 else 0)" by (rule waiters)
  show "WAIT_BIT \<le> rw_lock s"
    if a: "j < n" "(j \<noteq> i \<and> pcs s j = Un_cas k v 0) \<or> (j = i \<and> p = Un_cas k v 0)" "0 < num asleep n ((pcs s)(i := p))" for j k v
  proof (cases "asleep p")
    case False
    then have 1: "0 < num asleep n (pcs s)" using a(3) num_pos [of asleep] by (metis fun_upd_apply)
    then have "0 < num waiting n (pcs s)" using num_mono [of asleep waiting, OF asleep_waiting] by (meson order_less_le_trans)
    then have "rw_waiters s \<noteq> 0" using inv by (simp add: rw_inv_def)
    then have "pcs s j = Un_cas k v 0" using a(2) none by auto
    then show ?thesis using inv 1 a(1) unfolding rw_inv_def by blast
  qed (rule sleep)
  show "rw_lock s \<noteq> 0 \<or> coming p \<or> (\<not> coming (pcs s i) \<and> rw_lock s = 0 \<and> \<not> asleep p)" using sleep live by auto
qed

lemma holds_busy [simp]: "\<not> holds k (busy k' a)" "\<not> waiting (busy k' a)" "\<not> asleep (busy k' a)" "local_ok (busy k' a)"
  "busy k' a \<noteq> Un_cas k v w" "Un_cas k v w \<noteq> busy k' a"
  by (cases a; simp add: busy_def)+

lemma holds_retry [simp]: "\<not> holds k (retry k')" "\<not> waiting (retry k')" "\<not> asleep (retry k')" "local_ok (retry k')"
  "retry k' \<noteq> Un_cas k v w" "Un_cas k v w \<noteq> retry k'" "coming (retry k')"
  by (cases k'; simp add: retry_def)+

lemma timed_inv:
  assumes "rw_inv n s" "i < n" "(p, l, w) \<in> set (timed_step (pcs s i) (rw_lock s) (rw_waiters s))"
  shows "rw_inv n (s\<lparr>pcs := (pcs s)(i := p), rw_lock := l, rw_waiters := w\<rparr>)"
proof (cases "\<exists>k r. pcs s i = Mark k r")
  case True
  then obtain k r where m: "pcs s i = Mark k r" by blast
  have r: "r \<noteq> 0" using assms(1,2) m unfolding rw_inv_def by (metis local_ok.simps(3))
  have p: "p = Wait k (with_bit r)" "l = (if rw_lock s = r then with_bit r else rw_lock s)" "w = rw_waiters s"
    using assms(3) m by auto
  show ?thesis
  proof (cases "rw_lock s = r")
    case False
    then have l: "l = rw_lock s" using p by simp
    show ?thesis unfolding l by (rule rw_inv_stay [OF assms(1,2)]) (use m p with_bit_range in auto)
  next
    case True
    then show ?thesis
      by (intro rw_inv_move [OF assms(1,2)]) (use m p r with_bit_range [of r] in \<open>auto simp: lock_ok_def\<close>)
  qed
next
  case False
  then have l: "l = rw_lock s" using assms(3) by (cases "pcs s i") auto
  have ok: "local_ok (pcs s i)" using assms(1,2) unfolding rw_inv_def by blast
  have w: "pcs s i = Dec k r \<Longrightarrow> 0 < rw_waiters s" for k r
    using assms(1,2) num_pos [of waiting n "pcs s"] unfolding rw_inv_def by (metis waiting.simps(4))
  show ?thesis unfolding l using False assms(3) ok w
    by (cases "pcs s i"; intro rw_inv_stay [OF assms(1,2)]) (auto split: if_splits simp: cnt_def with_bit_range)
qed

lemma cnt_less: "cnt v < WAIT_BIT"
  by (simp add: cnt_def)

lemma lock_ok_next: "lock_ok l R W \<Longrightarrow> cnt l < 0x7ffffffe \<Longrightarrow> lock_ok (l + 1) (R + 1) W"
  using cnt_next [of l] unfolding lock_ok_def by simp

lemma lock_ok_prev: "lock_ok l R W \<Longrightarrow> 1 < cnt l \<Longrightarrow> cnt l \<noteq> CNT_MAX \<Longrightarrow> lock_ok (l - 1) (R - 1) W"
  using cnt_prev [of l] unfolding lock_ok_def by auto

lemma lock_ok_write: "lock_ok 0 R W \<Longrightarrow> lock_ok CNT_MAX R (W + 1)"
  unfolding lock_ok_def by simp

lemma cnt_nonzero: "cnt v \<noteq> 0 \<Longrightarrow> 0 < v"
  by (cases "v = 0") simp_all

lemma call_inv:
  assumes "rw_inv n s" "i < n" "(p, l, w) \<in> set (call_step (pcs s i) (rw_lock s) (rw_waiters s))"
  shows "rw_inv n (s\<lparr>pcs := (pcs s)(i := p), rw_lock := l, rw_waiters := w\<rparr>)"
proof -
  have l: "l = rw_lock s" using assms(3) by (cases "pcs s i") auto
  show ?thesis unfolding l using assms(3) by (cases "pcs s i"; intro rw_inv_stay [OF assms(1,2)]) auto
qed

lemma tryrd_inv:
  assumes "rw_inv n s" "i < n" "(p, l, w) \<in> set (tryrd_step (pcs s i) (rw_lock s) (rw_waiters s))"
  shows "rw_inv n (s\<lparr>pcs := (pcs s)(i := p), rw_lock := l, rw_waiters := w\<rparr>)"
proof (cases "\<exists>a v. pcs s i = Cas_rd a v \<and> rw_lock s = v")
  case True
  then obtain a where a: "pcs s i = Cas_rd a (rw_lock s)" by blast
  have p: "p = Held Rd" "l = rw_lock s + 1" "w = rw_waiters s" using assms(3) a by auto
  have v: "cnt (rw_lock s) < 0x7ffffffe" using assms(1,2) a unfolding rw_inv_def by (metis local_ok.simps(1))
  have b: "rw_lock s < 2 * WAIT_BIT" using assms(1) unfolding rw_inv_def lock_ok_def by blast
  note n = cnt_next [OF v b]
  show ?thesis unfolding p
  proof (rule rw_inv_move [OF assms(1,2)])
    show "WAIT_BIT \<le> rw_lock s + 1"
      if "j < n" "(j \<noteq> i \<and> pcs s j = Un_cas k u 0) \<or> (j = i \<and> Held Rd = Un_cas k u 0)" "0 < num asleep n ((pcs s)(i := Held Rd))"
      for j k u
    proof -
      have "0 < num asleep n (pcs s)" using that(3) num_keep [of asleep n] by fastforce
      then show ?thesis using that(1,2) assms(1) n(3) unfolding rw_inv_def by blast
    qed
  qed (use a v lock_ok_next in auto)
next
  case False
  then have l: "l = rw_lock s" using assms(3) by (cases "pcs s i") auto
  show ?thesis unfolding l using False assms(3) cnt_less [of "rw_lock s"] cnt_nonzero [of "rw_lock s"]
    by (cases "pcs s i"; intro rw_inv_stay [OF assms(1,2)]) (auto split: if_splits)
qed

lemma trywr_inv:
  assumes "rw_inv n s" "i < n" "(p, l, w) \<in> set (trywr_step (pcs s i) (rw_lock s) (rw_waiters s))"
  shows "rw_inv n (s\<lparr>pcs := (pcs s)(i := p), rw_lock := l, rw_waiters := w\<rparr>)"
proof -
  obtain a where a: "pcs s i = Try_wr a" using assms(3) by (cases "pcs s i") auto
  show ?thesis
  proof (cases "rw_lock s = 0")
    case False
    then have p: "p = busy Wr a" "l = rw_lock s" "w = rw_waiters s" using assms(3) a by auto
    show ?thesis unfolding p by (rule rw_inv_stay [OF assms(1,2)]) (use a False in auto)
  next
    case True
    then have p: "p = Held Wr" "l = CNT_MAX" "w = rw_waiters s" using assms(3) a by auto
    show ?thesis unfolding p
    proof (rule rw_inv_move [OF assms(1,2)])
      show "WAIT_BIT \<le> CNT_MAX"
        if "j < n" "(j \<noteq> i \<and> pcs s j = Un_cas k u 0) \<or> (j = i \<and> Held Wr = Un_cas k u 0)" "0 < num asleep n ((pcs s)(i := Held Wr))"
        for j k u
      proof -
        have "0 < num asleep n (pcs s)" using that(3) num_keep [of asleep n] by fastforce
        then have "WAIT_BIT \<le> rw_lock s" using that(1,2) assms(1) unfolding rw_inv_def by blast
        then show ?thesis using True by simp
      qed
    qed (use a True lock_ok_write in auto)
  qed
qed

lemma unlock_inv:
  assumes "rw_inv n s" "i < n" "(p, l, w) \<in> set (unlock_step (pcs s i) (rw_lock s) (rw_waiters s))"
  shows "rw_inv n (s\<lparr>pcs := (pcs s)(i := p), rw_lock := l, rw_waiters := w\<rparr>)"
proof (cases "\<exists>k u. pcs s i = Un_cas k (rw_lock s) u")
  case False
  then have l: "l = rw_lock s" using assms(3) by (cases "pcs s i") auto
  show ?thesis unfolding l using False assms(3)
    by (cases "pcs s i"; intro rw_inv_stay [OF assms(1,2)]) (auto split: if_splits simp: Let_def)
next
  case True
  then obtain k u where u: "pcs s i = Un_cas k (rw_lock s) u" by blast
  let ?l = "rw_lock s"
  note inv = assms(1) [unfolded rw_inv_def lock_ok_def]
  have w: "w = rw_waiters s" using assms(3) u by (auto simp: Let_def)
  have pos: "0 < num (holds k) n (pcs s)" using num_pos assms(2) u by fastforce
  have l: "?l < 2 * WAIT_BIT" "0 < cnt ?l" "cnt ?l = CNT_MAX \<longleftrightarrow> k = Wr" using inv pos by (cases k; auto)+
  show ?thesis
  proof (cases "cnt ?l = CNT_MAX \<or> cnt ?l = 1")
    case False
    then have p: "p = Ret 0" "l = ?l - 1" and k: "k = Rd"
      using assms(3) u cnt_prev [of ?l] l by (cases k; auto simp: Let_def split: if_splits)+
    have c: "1 < cnt ?l" using False l by linarith
    note pr = cnt_prev [OF c l(1)]
    show ?thesis unfolding p w
    proof (rule rw_inv_move [OF assms(1,2)])
      show "WAIT_BIT \<le> ?l - 1"
        if "j < n" "(j \<noteq> i \<and> pcs s j = Un_cas k v 0) \<or> (j = i \<and> Ret 0 = Un_cas k v 0)" "0 < num asleep n ((pcs s)(i := Ret 0))"
        for j k v
      proof -
        have "0 < num asleep n (pcs s)" using that(3) num_keep [of asleep n] by fastforce
        then show ?thesis using that(1,2) assms(1) pr(3) unfolding rw_inv_def by blast
      qed
      show "lock_ok (?l - 1) (R + (if holds Rd (Ret 0) then 1 else 0) - (if holds Rd (pcs s i) then 1 else 0))
        (W + (if holds Wr (Ret 0) then 1 else 0) - (if holds Wr (pcs s i) then 1 else 0))"
        if "lock_ok ?l R W" for R W
        using lock_ok_prev [OF that c] u k False by simp
    qed (use u k pr in auto)
  next
    case True
    let ?c = "cnt ?l"
    have p: "p = (if u \<noteq> 0 \<or> WAIT_BIT \<le> ?l then Un_wake ?c else Ret 0)" "l = 0" using assms(3) u True by (auto simp: Let_def)
    have one: "num (holds k) n (pcs s) = 1" "k' \<noteq> k \<Longrightarrow> num (holds k') n (pcs s) = 0" for k'
      using inv pos l(3) True by (cases k; cases k'; auto)+
    have only: "j = i" if j: "j < n" "holds k' (pcs s j)" for j k'
    proof (rule ccontr)
      assume "j \<noteq> i"
      have "0 < num (holds k') n (pcs s)" using num_pos j by blast
      then have k': "k' = k" using one(2) by (metis less_irrefl)
      have "2 \<le> num (holds k) n (pcs s)" using assms(2) j(1) \<open>j \<noteq> i\<close> u j(2) k' by (intro num_two [of i n j]) auto
      then show False using one(1) by simp
    qed
    have sleepers: "u \<noteq> 0 \<or> WAIT_BIT \<le> ?l" if "0 < num asleep n (pcs s)"
      using rw_inv_cas [OF assms(1,2)] u that by (cases "u = 0") auto
    show ?thesis unfolding p(2) w
    proof (rule rw_inv_move [OF assms(1,2)])
      have keep: "0 < num asleep n (pcs s)" if "0 < num asleep n ((pcs s)(i := p))"
        using that p(1) num_keep [of asleep n] by fastforce
      show "WAIT_BIT \<le> 0"
        if "j < n" "(j \<noteq> i \<and> pcs s j = Un_cas k v 0) \<or> (j = i \<and> p = Un_cas k v 0)" "0 < num asleep n ((pcs s)(i := p))" for j k v
        using that only [of j k] p(1) by (auto split: if_splits)
      show "0 \<noteq> (0::nat) \<or> coming p \<or> (\<not> coming (pcs s i) \<and> rw_lock s = 0 \<and> \<not> asleep p)"
        if "0 < num asleep n ((pcs s)(i := p))" using sleepers [OF keep [OF that]] p(1) by auto
      show "lock_ok 0 (R + (if holds Rd p then 1 else 0) - (if holds Rd (pcs s i) then 1 else 0))
        (W + (if holds Wr p then 1 else 0) - (if holds Wr (pcs s i) then 1 else 0))"
        if "lock_ok ?l R W" for R W
        using that u p(1) l True by (cases k) (auto simp: lock_ok_def)
      show "local_ok p" using p(1) l by auto
    qed (use u p in auto)
  qed
qed

text \<open>Waking threads.\<close>

lemma wake_up_same [simp]: "local_ok p \<Longrightarrow> local_ok (wake_up p)" "holds k (wake_up p) = holds k p"
  "waiting (wake_up p) = waiting p" "\<not> asleep (wake_up p)" "wake_up p = Un_cas k v w \<longleftrightarrow> p = Un_cas k v w"
  by (cases p; simp)+

lemma wake_inv:
  assumes inv: "rw_inv n s" and i: "i < n" "pcs s i = Un_wake c"
    and A: "A \<subseteq> {j. j < n \<and> asleep (pcs s j)}" "card A = min c (card {j. j < n \<and> asleep (pcs s j)})"
  shows "rw_inv n (s\<lparr>pcs := (\<lambda>j. if j \<in> A then wake_up (pcs s j) else pcs s j)(i := Ret 0)\<rparr>)"
proof -
  let ?g = "(\<lambda>j. if j \<in> A then wake_up (pcs s j) else pcs s j)(i := Ret 0)"
  note inv' = inv [unfolded rw_inv_def]
  have eq: "num (holds k) n ?g = num (holds k) n (pcs s)" "num waiting n ?g = num waiting n (pcs s)" for k
    by (rule num_cong; use i in simp)+
  have le: "0 < num asleep n (pcs s)" if "0 < num asleep n ?g"
  proof -
    obtain j where "j < n" "asleep (?g j)" using \<open>0 < num asleep n ?g\<close> unfolding num_pos by blast
    then show ?thesis unfolding num_pos by (auto split: if_splits)
  qed
  have cas: "pcs s j = Un_cas k v w" if "?g j = Un_cas k v w" for j k v w
    using that by (auto split: if_splits)
  have live: "\<exists>j < n. coming (?g j)" if "0 < num asleep n (pcs s)"
  proof -
    have c: "1 \<le> c" using inv' i by (metis local_ok.simps(5))
    have "card {j. j < n \<and> asleep (pcs s j)} \<ge> 1" using that by (simp add: num_def)
    then have "A \<noteq> {}" using c A(2) by auto
    then obtain j where j: "j \<in> A" by blast
    then have "j < n" "asleep (pcs s j)" "j \<noteq> i" using A(1) i by auto
    then show ?thesis using j by (intro exI [of _ j]) (cases "pcs s j"; simp)
  qed
  have "local_ok (?g j)" if "j < n" for j using inv' that by auto
  moreover have "WAIT_BIT \<le> rw_lock s" if "j < n" "?g j = Un_cas k v 0" "0 < num asleep n ?g" for j k v
    by (rule rw_inv_cas [OF inv that(1) cas [OF that(2)] le [OF that(3)]])
  moreover have "\<exists>j < n. coming (?g j)" if "0 < num asleep n ?g" by (rule live [OF le [OF that]])
  ultimately show ?thesis using inv' eq unfolding rw_inv_def by simp
qed

theorem rw_step_inv: "rw_step n s t \<Longrightarrow> rw_inv n s \<Longrightarrow> rw_inv n t"
proof (induction rule: rw_step.induct)
  case (move i p s l w)
  then show ?case
    unfolding thread_steps_def set_append by (elim UnE) (blast intro: tryrd_inv trywr_inv timed_inv unlock_inv call_inv)+
next
  case (wake i s c A)
  show ?case by (rule wake_inv) (use wake in auto)
qed

interpretation rw: step_invariant "rw_step n" rw_init "rw_inv n" for n
  by unfold_locales (fact rw_init_inv, fact rw_step_inv)

theorem rw_reachable_inv: "rw_reachable n s \<Longrightarrow> rw_inv n s"
  unfolding rw_reachable_def by (rule rw.reachable_inv)

section \<open>Schedules\<close>

text \<open>A schedule names the thread that moves next and which of its moves it makes.\<close>

fun run_moves :: "nat \<Rightarrow> (nat \<times> nat) list \<Rightarrow> rwlock \<Rightarrow> rwlock" where
  "run_moves n [] s = s"
| "run_moves n ((i, c) # ms) s = (case drop c (thread_steps (pcs s i) (rw_lock s) (rw_waiters s)) of
      (p, l, w) # _ \<Rightarrow> if i < n then run_moves n ms (s\<lparr>pcs := (pcs s)(i := p), rw_lock := l, rw_waiters := w\<rparr>) else s
    | [] \<Rightarrow> s)"

lemma run_moves_reachable: "rw_reachable n s \<Longrightarrow> rw_reachable n (run_moves n ms s)"
proof (induction n ms s rule: run_moves.induct)
  case (2 n i c ms s)
  show ?case
  proof (cases "drop c (thread_steps (pcs s i) (rw_lock s) (rw_waiters s))")
    case (Cons m rest)
    obtain p l w where m: "m = (p, l, w)" by (cases m)
    have "m \<in> set (thread_steps (pcs s i) (rw_lock s) (rw_waiters s))" using Cons by (metis in_set_dropD list.set_intros(1))
    then have "rw_reachable n (s\<lparr>pcs := (pcs s)(i := p), rw_lock := l, rw_waiters := w\<rparr>)" if "i < n"
      using that 2(2) m unfolding rw_reachable_def by (auto intro: rtranclp.rtrancl_into_rtrancl rw_step.move)
    then show ?thesis using 2 Cons m by auto
  qed (use 2 in simp)
qed simp

lemma rw_init_reachable: "rw_reachable n rw_init"
  by (simp add: rw_reachable_def)

lemmas scheduled = run_moves_reachable [OF rw_init_reachable]

text \<open>Thread 0 holds the lock for writing; then also thread 1 sleeps to read.\<close>

definition write_locked :: rwlock where
  "write_locked = run_moves 2 [(0, 2), (0, 0)] rw_init"

definition sleeping_reader :: rwlock where
  "sleeping_reader = run_moves 2 [(1, 1), (1, 0), (0, 0), (0, 0), (0, 0), (0, 0), (1, 0), (0, 2), (0, 0),
     (1, 0), (1, 0), (1, 0), (1, 0), (1, 2)] write_locked"

lemmas rw_eval = rw_init_def thread_steps_def busy_def retry_def cnt_def with_bit_def

lemma write_locked_eq: "write_locked = \<lparr>rw_lock = CNT_MAX, rw_waiters = 0, pcs = (\<lambda>_. Ret 0)(0 := Held Wr)\<rparr>"
  by (simp add: write_locked_def rw_eval)

lemma sleeping_reader_eq:
  "sleeping_reader = \<lparr>rw_lock = 0xffffffff, rw_waiters = 1, pcs = (\<lambda>_. Ret 0)(0 := Held Wr, 1 := Asleep Rd 0xffffffff)\<rparr>"
  by (simp add: sleeping_reader_def write_locked_eq rw_eval)

section \<open>Properties\<close>

lemma lock_ok_zero: "lock_ok l R W \<Longrightarrow> l = 0 \<longleftrightarrow> R = 0 \<and> W = 0"
  by (auto simp: lock_ok_def)

lemma rw_inv_zero: "rw_inv n s \<Longrightarrow> rw_lock s = 0 \<longleftrightarrow> (\<forall>i < n. \<forall>k. \<not> holds k (pcs s i))"
proof -
  assume "rw_inv n s"
  then have "rw_lock s = 0 \<longleftrightarrow> num (holds Rd) n (pcs s) = 0 \<and> num (holds Wr) n (pcs s) = 0"
    unfolding rw_inv_def using lock_ok_zero by simp
  also have "\<dots> \<longleftrightarrow> (\<forall>k. num (holds k) n (pcs s) = 0)" by (metis (full_types) kind.exhaust)
  also have "\<dots> \<longleftrightarrow> (\<forall>i < n. \<forall>k. \<not> holds k (pcs s i))" using num_pos [of _ n "pcs s"] by (metis gr0I less_irrefl)
  finally show ?thesis .
qed

text \<open>C22.  Exclusion: in every interleaving of any number of threads that lock, try, time out, sleep, are woken and
  unlock, while one thread holds the lock for writing, from the exchange that takes it to the exchange that releases
  it, no other thread holds it, for reading or for writing.\<close>

theorem rwlock_exclusion:
  assumes "rw_reachable n s" "i < n" "j < n" "i \<noteq> j" "holds Wr (pcs s i)"
  shows "\<not> holds k (pcs s j)"
proof
  assume k: "holds k (pcs s j)"
  have inv: "num (holds Wr) n (pcs s) \<le> 1 \<and> (num (holds Wr) n (pcs s) = 1 \<longrightarrow> num (holds Rd) n (pcs s) = 0)"
    using rw_reachable_inv [OF assms(1)] unfolding rw_inv_def lock_ok_def by auto
  have pos: "0 < num (holds Wr) n (pcs s)" "0 < num (holds k) n (pcs s)" using num_pos assms k by blast+
  show False
  proof (cases k)
    case Rd
    then show ?thesis using pos inv by auto
  next
    case Wr
    then show ?thesis using num_two [OF assms(2,3,4), of "holds Wr" "pcs s"] assms(5) k inv by simp
  qed
qed

theorem rwlock_exclusion_witness: "\<not> holds Rd (pcs sleeping_reader 1)"
proof (rule rwlock_exclusion [of 2 sleeping_reader 0 1])
  show "rw_reachable 2 sleeping_reader" unfolding sleeping_reader_def write_locked_def by (intro scheduled run_moves_reachable)
qed (simp_all add: sleeping_reader_eq)

text \<open>The word tells who holds the lock: it is 0 exactly when no thread does, its lower 31 bits count the
  readers or are all set for a writer, and it stays below \<open>2 ^ 32\<close>; the other word counts the threads between
  their increment and their decrement.\<close>

theorem rwlock_word:
  assumes "rw_reachable n s"
  shows "rw_lock s < 2 ^ 32 \<and> (rw_lock s = 0 \<longleftrightarrow> (\<forall>i < n. \<forall>k. \<not> holds k (pcs s i))) \<and>
    cnt (rw_lock s) = (if \<exists>i < n. holds Wr (pcs s i) then 2 ^ 31 - 1 else card {i. i < n \<and> holds Rd (pcs s i)}) \<and>
    rw_waiters s = card {i. i < n \<and> waiting (pcs s i)}"
proof -
  note inv = rw_reachable_inv [OF assms, unfolded rw_inv_def lock_ok_def]
  have w: "(\<exists>i < n. holds Wr (pcs s i)) \<longleftrightarrow> num (holds Wr) n (pcs s) \<noteq> 0" using num_pos [of "holds Wr"] by fastforce
  note z = rw_inv_zero [OF rw_reachable_inv [OF assms]]
  have c: "cnt (rw_lock s) = (if \<exists>i < n. holds Wr (pcs s i) then 2 ^ 31 - 1 else num (holds Rd) n (pcs s))"
    unfolding w using inv by auto
  have "rw_lock s < 2 ^ 32" "rw_waiters s = num waiting n (pcs s)" using inv by auto
  then show ?thesis unfolding num_def [symmetric] by (intro conjI z c)
qed

theorem rwlock_word_witness: "cnt (rw_lock sleeping_reader) = 2 ^ 31 - 1"
proof -
  have "rw_reachable 2 sleeping_reader" unfolding sleeping_reader_def write_locked_def by (intro scheduled run_moves_reachable)
  from rwlock_word [OF this] show ?thesis by (auto simp: sleeping_reader_eq cnt_def)
qed

text \<open>C23.  No wake-up is lost: when a thread sleeps for the lock and every thread is asleep, out of all calls or in
  possession of the lock, so that none is under way, then some thread holds the lock, and its unlock will wake.\<close>

theorem rwlock_no_lost_wakeup:
  assumes "rw_reachable n s" "j < n" "asleep (pcs s j)"
    and "\<forall>i < n. (\<exists>e. pcs s i = Ret e) \<or> (\<exists>k. pcs s i = Held k) \<or> asleep (pcs s i)"
  shows "\<exists>i < n. \<exists>k. pcs s i = Held k"
proof -
  note inv = rw_reachable_inv [OF assms(1), unfolded rw_inv_def lock_ok_def]
  have quiet: "\<not> coming (pcs s i)" if "i < n" for i
    using assms(4) that asleep_waiting [of "pcs s i"] by (cases "pcs s i") force+
  have "0 < num asleep n (pcs s)" using num_pos assms(2,3) by blast
  then have "rw_lock s \<noteq> 0" using inv quiet by blast
  then obtain i k where i: "i < n" "holds k (pcs s i)" using rw_inv_zero [OF rw_reachable_inv [OF assms(1)]] by auto
  then show ?thesis using assms(4) by (intro exI [of _ i] conjI) (cases "pcs s i"; force)+
qed

theorem rwlock_no_lost_wakeup_witness: "\<exists>i < 2. \<exists>k. pcs sleeping_reader i = Held k"
proof (rule rwlock_no_lost_wakeup [of 2 sleeping_reader 1])
  show "rw_reachable 2 sleeping_reader" unfolding sleeping_reader_def write_locked_def by (intro scheduled run_moves_reachable)
  show "\<forall>i<2. (\<exists>e. pcs sleeping_reader i = Ret e) \<or> (\<exists>k. pcs sleeping_reader i = Held k) \<or> asleep (pcs sleeping_reader i)"
    by (auto simp: sleeping_reader_eq)
qed (simp_all add: sleeping_reader_eq)

end
