(* ===== verification/Semaphore.thy ===== *)
theory Semaphore
  imports Threads
begin

text \<open>
  Semaphores (libc-top-half/musl/src/thread: sem_init.c, sem_getvalue.c, sem_trywait.c,
  sem_timedwait.c, sem_wait.c, sem_post.c) as threads that run interleaved, one access to the shared
  words at a time.

  The value \<open>__val[0]\<close> is an int, -1 when there are waiters and nothing to take; \<open>__val[1]\<close> counts the
  waiters.  A program counter says which access a thread makes next, with the local variables it still
  needs; \<open>Ret 0\<close> is a call that has returned 0, and \<open>Ret e\<close> one that has returned -1 with errno \<open>e\<close>.
\<close>

abbreviation SEM_VALUE_MAX :: int where "SEM_VALUE_MAX \<equiv> 2147483647"

definition sem_init :: "nat \<Rightarrow> errno + int \<times> nat" where
  "sem_init value = (if int value > SEM_VALUE_MAX then Inl EINVAL else Inr (int value, 0))"

definition sem_getvalue :: "int \<Rightarrow> int" where
  "sem_getvalue val = (if val < 0 then 0 else val)"

text \<open>Why a thread tries: sem_trywait itself, the first try of a timed call, or a try in its loop.\<close>

datatype sem_try = Only | First | Again

datatype sem_pc =
    Ret errno
  | Try sem_try | Try_waiters sem_try | Try_cas sem_try int int
  | Spin nat | Spin_waiters nat | Inc | Mark | Wait | Asleep | Dec errno
  | Post | Post_waiters int | Post_cas int nat | Post_wake

text \<open>What a step does for the users of the semaphore.\<close>

datatype sem_event = Tau | Took | Posted

type_synonym sem_move = "sem_pc \<times> int \<times> nat \<times> sem_event"

text \<open>What a try does with the error EAGAIN.\<close>

definition sem_failed :: "sem_try \<Rightarrow> sem_pc" where
  "sem_failed a = (case a of Only \<Rightarrow> Ret EAGAIN | First \<Rightarrow> Spin 100 | Again \<Rightarrow> Inc)"

fun sem_trywait_step :: "sem_pc \<Rightarrow> int \<Rightarrow> nat \<Rightarrow> sem_move list" where
  "sem_trywait_step (Try a) l w =
     [(if l > 0 then if l = 1 then Try_waiters a else Try_cas a l (l - 1) else sem_failed a, l, w, Tau)]"
| "sem_trywait_step (Try_waiters a) l w = [(Try_cas a 1 (if w \<noteq> 0 then - 1 else 0), l, w, Tau)]"
| "sem_trywait_step (Try_cas a val new) l w = [if l = val then (Ret 0, new, w, Took) else (Try a, l, w, Tau)]"
| "sem_trywait_step _ l w = []"

text \<open>The spinning and the loop of sem_timedwait.\<close>

fun sem_timedwait_step :: "sem_pc \<Rightarrow> int \<Rightarrow> nat \<Rightarrow> sem_move list" where
  "sem_timedwait_step (Spin n) l w = [(if n = 0 \<or> l > 0 then Try Again else Spin_waiters (n - 1), l, w, Tau)]"
| "sem_timedwait_step (Spin_waiters n) l w = [(if w \<noteq> 0 then Try Again else Spin n, l, w, Tau)]"
| "sem_timedwait_step Inc l w = [(Mark, l, w + 1, Tau)]"
| "sem_timedwait_step Mark l w = [(Wait, if l = 0 then - 1 else l, w, Tau)]"
| "sem_timedwait_step Wait l w =
     [(Dec EINVAL, l, w, Tau), (Dec ETIMEDOUT, l, w, Tau), (if l = - 1 then Asleep else Dec 0, l, w, Tau)]"
| "sem_timedwait_step Asleep l w = [(Dec (if l = - 1 then ETIMEDOUT else 0), l, w, Tau)]"
| "sem_timedwait_step (Dec r) l w = [(if r \<noteq> 0 then Ret r else Try Again, l, w - 1, Tau)]"
| "sem_timedwait_step _ l w = []"

fun sem_post_step :: "sem_pc \<Rightarrow> int \<Rightarrow> nat \<Rightarrow> sem_move list" where
  "sem_post_step Post l w = [(Post_waiters l, l, w, Tau)]"
| "sem_post_step (Post_waiters val) l w =
     [(if val = SEM_VALUE_MAX then Ret EOVERFLOW else Post_cas val w, l, w, Tau)]"
| "sem_post_step (Post_cas val waiters) l w =
     [if l = val then (if val < 0 \<or> waiters \<noteq> 0 then Post_wake else Ret 0, val + 1 + (if val < 0 then 1 else 0), w, Posted)
      else (Post, l, w, Tau)]"
| "sem_post_step _ l w = []"

text \<open>The program may call sem_trywait, sem_timedwait (or sem_wait) and sem_post, one after another.\<close>

fun sem_call_step :: "sem_pc \<Rightarrow> int \<Rightarrow> nat \<Rightarrow> sem_move list" where
  "sem_call_step (Ret e) l w = [(Try Only, l, w, Tau), (Try First, l, w, Tau), (Post, l, w, Tau)]"
| "sem_call_step _ l w = []"

definition sem_moves :: "sem_pc \<Rightarrow> int \<Rightarrow> nat \<Rightarrow> sem_move list" where
  "sem_moves p l w = sem_trywait_step p l w @ sem_timedwait_step p l w @ sem_post_step p l w @ sem_call_step p l w"

section \<open>The system\<close>

record semaphore =
  sem_value :: int
  sem_waiters :: nat
  sem_pcs :: "nat \<Rightarrow> sem_pc"

text \<open>The threads are those below \<open>n\<close>.  \<open>__wake(sem->__val, 1, priv)\<close> wakes a sleeping thread if there is one.\<close>

inductive sem_step :: "nat \<Rightarrow> sem_event \<Rightarrow> semaphore \<Rightarrow> semaphore \<Rightarrow> bool" for n where
  move: "i < n \<Longrightarrow> (p, l, w, ev) \<in> set (sem_moves (sem_pcs s i) (sem_value s) (sem_waiters s)) \<Longrightarrow>
    sem_step n ev s (s\<lparr>sem_pcs := (sem_pcs s)(i := p), sem_value := l, sem_waiters := w\<rparr>)"
| wake: "i < n \<Longrightarrow> sem_pcs s i = Post_wake \<Longrightarrow> j < n \<Longrightarrow> sem_pcs s j = Asleep \<Longrightarrow>
    sem_step n Tau s (s\<lparr>sem_pcs := (sem_pcs s)(j := Dec 0, i := Ret 0)\<rparr>)"
| wake_none: "i < n \<Longrightarrow> sem_pcs s i = Post_wake \<Longrightarrow> \<forall>j < n. sem_pcs s j \<noteq> Asleep \<Longrightarrow>
    sem_step n Tau s (s\<lparr>sem_pcs := (sem_pcs s)(i := Ret 0)\<rparr>)"

definition sem_start :: "int \<times> nat \<Rightarrow> semaphore" where
  "sem_start v = \<lparr>sem_value = fst v, sem_waiters = snd v, sem_pcs = (\<lambda>_. Ret 0)\<rparr>"

definition sem_next :: "nat \<Rightarrow> semaphore \<Rightarrow> semaphore \<Rightarrow> bool" where
  "sem_next n s t \<longleftrightarrow> (\<exists>ev. sem_step n ev s t)"

section \<open>The invariant\<close>

fun sem_waiting :: "sem_pc \<Rightarrow> bool" where
  "sem_waiting Mark = True"
| "sem_waiting Wait = True"
| "sem_waiting Asleep = True"
| "sem_waiting (Dec r) = True"
| "sem_waiting _ = False"

fun sem_local :: "sem_pc \<Rightarrow> bool" where
  "sem_local (Try_cas a val new) \<longleftrightarrow> 0 < val \<and> val \<le> SEM_VALUE_MAX \<and> (new = val - 1 \<or> val = 1 \<and> new = - 1)"
| "sem_local (Post_waiters val) \<longleftrightarrow> - 1 \<le> val \<and> val \<le> SEM_VALUE_MAX"
| "sem_local (Post_cas val w) \<longleftrightarrow> - 1 \<le> val \<and> val < SEM_VALUE_MAX"
| "sem_local _ \<longleftrightarrow> True"

definition sem_inv :: "nat \<Rightarrow> semaphore \<Rightarrow> bool" where
  "sem_inv n s \<longleftrightarrow> (\<forall>j < n. sem_local (sem_pcs s j)) \<and> - 1 \<le> sem_value s \<and> sem_value s \<le> SEM_VALUE_MAX \<and>
     sem_waiters s = num sem_waiting n (sem_pcs s)"

lemma sem_start_inv: "sem_init v = Inr s \<Longrightarrow> sem_inv n (sem_start s)"
  by (auto simp: sem_inv_def sem_start_def sem_init_def num_def split: if_splits)

text \<open>The steps of a thread keep the bounds of the value, and change the tokens as they announce.\<close>

definition tokens :: "sem_event \<Rightarrow> int \<Rightarrow> int \<Rightarrow> bool" where
  "tokens ev before after \<longleftrightarrow> (case ev of
      Tau \<Rightarrow> after = before
    | Took \<Rightarrow> 0 < before \<and> after = before - 1
    | Posted \<Rightarrow> after = before + 1 \<and> after \<le> SEM_VALUE_MAX)"

lemma sem_moves_ok:
  assumes "(p', l', w', ev) \<in> set (sem_moves p l w)" "sem_local p" "- 1 \<le> l" "l \<le> SEM_VALUE_MAX" "sem_waiting p \<Longrightarrow> 0 < w"
  shows "sem_local p'" "- 1 \<le> l' \<and> l' \<le> SEM_VALUE_MAX" "tokens ev (sem_getvalue l) (sem_getvalue l')"
    "w' + (if sem_waiting p then 1 else 0) = w + (if sem_waiting p' then 1 else 0)"
  using assms
  by (cases p; auto simp: sem_moves_def sem_failed_def tokens_def sem_getvalue_def split: if_splits sem_try.splits)+

lemma sem_step_ok: "sem_step n ev s t \<Longrightarrow> sem_inv n s \<Longrightarrow> sem_inv n t \<and> tokens ev (sem_getvalue (sem_value s)) (sem_getvalue (sem_value t))"
proof (induction rule: sem_step.induct)
  case (move i p l w ev s)
  have "0 < num sem_waiting n (sem_pcs s)" if "sem_waiting (sem_pcs s i)" using that move(1) num_pos by blast
  then have pos: "sem_waiting (sem_pcs s i) \<Longrightarrow> 0 < sem_waiters s" using move(3) by (simp add: sem_inv_def)
  have ok: "sem_local (sem_pcs s i)" "- 1 \<le> sem_value s" "sem_value s \<le> SEM_VALUE_MAX" using move by (auto simp: sem_inv_def)
  note m = sem_moves_ok [OF move(2) ok pos]
  have "w = num sem_waiting n ((sem_pcs s)(i := p))"
    using num_upd [OF move(1), of sem_waiting "sem_pcs s" p] m(4) move(3) by (simp add: sem_inv_def)
  then show ?case using m move(3) by (simp add: sem_inv_def)
next
  case (wake i s j)
  have "num sem_waiting n ((sem_pcs s)(j := Dec 0, i := Ret 0)) = num sem_waiting n (sem_pcs s)"
    by (rule num_cong) (use wake in auto)
  then show ?case using wake by (auto simp: sem_inv_def tokens_def)
next
  case (wake_none i s)
  have "num sem_waiting n ((sem_pcs s)(i := Ret 0)) = num sem_waiting n (sem_pcs s)"
    by (rule num_cong) (use wake_none in auto)
  then show ?case using wake_none by (auto simp: sem_inv_def tokens_def)
qed

interpretation sem: step_invariant "sem_next n" "sem_start (projr (sem_init v))" "\<lambda>s. isl (sem_init v) \<or> sem_inv n s" for n v
proof unfold_locales
  show "isl (sem_init v) \<or> sem_inv n (sem_start (projr (sem_init v)))"
    using sem_start_inv [of v "projr (sem_init v)"] by (cases "sem_init v") auto
  show "isl (sem_init v) \<or> sem_inv n t" if "sem_next n s t" "isl (sem_init v) \<or> sem_inv n s" for s t
    using that sem_step_ok by (auto simp: sem_next_def)
qed

section \<open>Runs\<close>

inductive sem_run :: "nat \<Rightarrow> semaphore \<Rightarrow> sem_event list \<Rightarrow> semaphore \<Rightarrow> bool" for n s where
  start: "sem_run n s [] s"
| step: "sem_run n s evs t \<Longrightarrow> sem_step n ev t u \<Longrightarrow> sem_run n s (evs @ [ev]) u"

lemma sem_run_next: "sem_run n s evs t \<Longrightarrow> (sem_next n)\<^sup>*\<^sup>* s t"
  by (induction rule: sem_run.induct) (auto simp: sem_next_def intro: rtranclp.rtrancl_into_rtrancl)

text \<open>A schedule names the thread that moves next and which of its moves it makes, or which thread it wakes.\<close>

definition sem_do :: "nat \<Rightarrow> nat \<times> nat \<Rightarrow> semaphore \<Rightarrow> (sem_event \<times> semaphore) option" where
  "sem_do n m s = (case m of (i, c) \<Rightarrow>
     if \<not> i < n then None
     else if sem_pcs s i = Post_wake then
       (if c < n \<and> sem_pcs s c = Asleep then Some (Tau, s\<lparr>sem_pcs := (sem_pcs s)(c := Dec 0, i := Ret 0)\<rparr>) else None)
     else case drop c (sem_moves (sem_pcs s i) (sem_value s) (sem_waiters s)) of
       (p, l, w, ev) # _ \<Rightarrow> Some (ev, s\<lparr>sem_pcs := (sem_pcs s)(i := p), sem_value := l, sem_waiters := w\<rparr>)
     | [] \<Rightarrow> None)"

lemma sem_do_step: "sem_do n m s = Some (ev, t) \<Longrightarrow> sem_step n ev s t"
proof -
  assume d: "sem_do n m s = Some (ev, t)"
  obtain i c where m: "m = (i, c)" by (cases m)
  show "sem_step n ev s t"
  proof (cases "sem_pcs s i = Post_wake")
    case True
    then show ?thesis using d m by (auto simp: sem_do_def split: if_splits intro: sem_step.wake)
  next
    case False
    then obtain p l w rest where r: "drop c (sem_moves (sem_pcs s i) (sem_value s) (sem_waiters s)) = (p, l, w, ev) # rest"
        "t = s\<lparr>sem_pcs := (sem_pcs s)(i := p), sem_value := l, sem_waiters := w\<rparr>" "i < n"
      using d m by (auto simp: sem_do_def split: if_splits list.splits)
    have "(p, l, w, ev) \<in> set (sem_moves (sem_pcs s i) (sem_value s) (sem_waiters s))"
      using r(1) by (metis in_set_dropD list.set_intros(1))
    then show ?thesis unfolding r(2) using r(3) by (rule sem_step.move [rotated])
  qed
qed

fun sem_schedule :: "nat \<Rightarrow> (nat \<times> nat) list \<Rightarrow> sem_event list \<Rightarrow> semaphore \<Rightarrow> (sem_event list \<times> semaphore) option" where
  "sem_schedule n [] evs s = Some (evs, s)"
| "sem_schedule n (m # ms) evs s = (case sem_do n m s of None \<Rightarrow> None | Some (ev, t) \<Rightarrow> sem_schedule n ms (evs @ [ev]) t)"

lemma sem_schedule_run: "sem_run n s evs t \<Longrightarrow> sem_schedule n ms evs t = Some (evs', u) \<Longrightarrow> sem_run n s evs' u"
proof (induction n ms evs t rule: sem_schedule.induct)
  case (2 n m ms evs t)
  then obtain ev t' where d: "sem_do n m t = Some (ev, t')" "sem_schedule n ms (evs @ [ev]) t' = Some (evs', u)"
    by (auto split: option.splits)
  show ?case by (rule "2.IH" [OF d(1) refl sem_run.step [OF "2.prems"(1) sem_do_step [OF d(1)]] d(2)])
qed simp

lemmas scheduled_run = sem_schedule_run [OF sem_run.start]

section \<open>Properties\<close>

text \<open>C24.  Tokens: in every interleaving of any number of threads that try, wait, time out and post, the value that
  sem_getvalue reports is the initial value plus the posts minus the successful waits so far; so no more waits
  succeed than there were tokens, and the value stays between 0 and SEM_VALUE_MAX.\<close>

theorem sem_tokens:
  assumes "sem_init v = Inr s0" "sem_run n (sem_start s0) evs s"
  shows "sem_getvalue (sem_value s) = int v + int (count_list evs Posted) - int (count_list evs Took) \<and>
    0 \<le> sem_getvalue (sem_value s) \<and> sem_getvalue (sem_value s) \<le> SEM_VALUE_MAX"
proof -
  have s0: "s0 = (int v, 0)" "int v \<le> SEM_VALUE_MAX" using assms(1) by (auto simp: sem_init_def split: if_splits)
  have inv: "sem_inv n t" if "sem_run n (sem_start s0) es t" for es t
    using sem.reachable_inv [of n v t] sem_run_next [OF that] assms(1) by simp
  show ?thesis using assms(2)
  proof (induction rule: sem_run.induct)
    case start
    then show ?case using s0 by (simp add: sem_start_def sem_getvalue_def)
  next
    case (step evs t ev u)
    have "tokens ev (sem_getvalue (sem_value t)) (sem_getvalue (sem_value u))"
      using sem_step_ok [OF step(2) inv [OF step(1)]] by simp
    then show ?case using step(3) by (auto simp: tokens_def split: sem_event.splits)
  qed
qed

text \<open>Thread 3 takes the only token while threads 1 and 2 start to wait; it posts while thread 0, in sem_post, reads
  the value 1 and no waiters; it takes the token again, and threads 1 and 2 go to sleep.  Then it posts and wakes
  thread 1; thread 0 finds the value 1 again and exchanges it, waking nobody; and thread 1 takes a token.\<close>

definition stale_post :: "(nat \<times> nat) list" where
  "stale_post =
     [(3, 0), (3, 0), (3, 0), (3, 0), (1, 1), (1, 0), (2, 1), (2, 0),
      (3, 2), (3, 0), (3, 0), (3, 0), (1, 0), (2, 0), (0, 2), (0, 0), (0, 0),
      (3, 0), (3, 0), (3, 0), (3, 0),
      (1, 0), (1, 0), (1, 0), (1, 2), (2, 0), (2, 0), (2, 0), (2, 2),
      (3, 2), (3, 0), (3, 0), (3, 0), (3, 1), (0, 0), (1, 0), (1, 0), (1, 0)]"

lemma stale_post_run:
  "sem_schedule 4 stale_post [] (sem_start (1, 0)) =
     Some (map (\<lambda>i. if i \<in> {3, 20, 37} then Took else if i \<in> {11, 32, 34} then Posted else Tau) [0..<38],
       \<lparr>sem_value = 1, sem_waiters = 1, sem_pcs = (\<lambda>_. Ret 0)(2 := Asleep)\<rparr>)"
  by (simp add: stale_post_def sem_start_def sem_do_def sem_moves_def sem_failed_def upt_rec fun_eq_iff)

theorem sem_tokens_witness:
  "sem_getvalue 1 = int 1 + int (count_list (map (\<lambda>i. if i \<in> {3, 20, 37} then Took else if i \<in> {11, 32, 34} then Posted else Tau) [0..<38]) Posted)
     - int (count_list (map (\<lambda>i. if i \<in> {3, 20, 37} then Took else if i \<in> {11, 32, 34::nat} then Posted else Tau) [0..<38]) Took)"
  using sem_tokens [OF _ scheduled_run [OF stale_post_run], of 1] by (simp add: sem_init_def)

text \<open>A lost wake-up: from a semaphore with one token there is a run after which it has a token again and one
  thread sleeps in sem_wait, while every other thread has returned from its calls, so that nothing will wake it.  The
  run has a sem_post whose exchange succeeds although the value has changed and come back and threads have gone to
  sleep since it counted the waiters.\<close>

theorem sem_lost_wakeup:
  "\<exists>s0 evs s. sem_init 1 = Inr s0 \<and> sem_run 4 (sem_start s0) evs s \<and> 0 < sem_value s \<and>
     sem_pcs s = (\<lambda>_. Ret 0)(2 := Asleep)"
proof -
  let ?s = "\<lparr>sem_value = 1, sem_waiters = 1, sem_pcs = (\<lambda>_. Ret 0)(2 := Asleep)\<rparr>"
  have "sem_init 1 = Inr (1, 0)" by (simp add: sem_init_def)
  moreover have "0 < sem_value ?s" "sem_pcs ?s = (\<lambda>_. Ret 0)(2 := Asleep)" by simp_all
  ultimately show ?thesis using scheduled_run [OF stale_post_run] by blast
qed

end
