(* ===== verification/Once.thy ===== *)
theory Once
  imports Threads
begin

text \<open>
  pthread_once (libc-top-half/musl/src/thread/pthread_once.c over __wait.c) as threads that run
  interleaved, one access to the control word at a time.

  The word is 0 before the first call, 1 while a thread runs the routine, 3 when others wait for it as
  well, and 2 when it is done.  The routine itself is one step; it may also end by the cancellation of
  its thread, which runs the cleanup handler \<open>undo\<close>.
\<close>

datatype once_pc =
    Idle | Fast | Try_init | Init | Finish | Undo | Wake_all once_pc | Mark
  | Wait_spin nat | Wait_test | Wait_futex | Asleep | Returned | Cancelled

text \<open>
  A step gives the next program counter and the new word.  \<open>__wait(control, 0, 3, 1)\<close> has no count of
  waiters; it spins 100 times, and then sleeps as long as the word is 3.
\<close>

fun wait_step :: "once_pc \<Rightarrow> nat \<Rightarrow> (once_pc \<times> nat) list" where
  "wait_step (Wait_spin k) c =
     [(if k = 0 then Wait_test else if c = 3 then Wait_spin (k - 1) else Try_init, c)]"
| "wait_step Wait_test c = [(if c = 3 then Wait_futex else Try_init, c)]"
| "wait_step Wait_futex c = [(if c = 3 then Asleep else Wait_test, c)]"
| "wait_step Asleep c = [(Wait_test, c)]"
| "wait_step _ c = []"

fun undo_step :: "once_pc \<Rightarrow> nat \<Rightarrow> (once_pc \<times> nat) list" where
  "undo_step Undo c = [(if c = 3 then Wake_all Cancelled else Cancelled, 0)]"
| "undo_step _ c = []"

fun once_full_step :: "once_pc \<Rightarrow> nat \<Rightarrow> (once_pc \<times> nat) list" where
  "once_full_step Try_init c =
     [if c = 0 then (Init, 1) else if c = 1 then (Mark, c) else if c = 3 then (Wait_spin 100, c) else (Returned, c)]"
| "once_full_step Mark c = [(Wait_spin 100, if c = 1 then 3 else c)]"
| "once_full_step Init c = [(Finish, c), (Undo, c)]"
| "once_full_step Finish c = [(if c = 3 then Wake_all Returned else Returned, 2)]"
| "once_full_step _ c = []"

fun once_step :: "once_pc \<Rightarrow> nat \<Rightarrow> (once_pc \<times> nat) list" where
  "once_step Idle c = [(Fast, c)]"
| "once_step Fast c = [(if c = 2 then Returned else Try_init, c)]"
| "once_step _ c = []"

definition once_moves :: "once_pc \<Rightarrow> nat \<Rightarrow> (once_pc \<times> nat) list" where
  "once_moves p c = once_step p c @ once_full_step p c @ wait_step p c @ undo_step p c"

section \<open>The system\<close>

text \<open>\<open>completed\<close> counts how often the routine has returned.\<close>

record once =
  control :: nat
  completed :: nat
  once_pcs :: "nat \<Rightarrow> once_pc"

text \<open>The threads are those below \<open>n\<close>; \<open>__wake(control, -1, 1)\<close> wakes all that sleep.\<close>

inductive once_next :: "nat \<Rightarrow> once \<Rightarrow> once \<Rightarrow> bool" for n where
  move: "i < n \<Longrightarrow> (p, c) \<in> set (once_moves (once_pcs s i) (control s)) \<Longrightarrow>
    once_next n s (s\<lparr>once_pcs := (once_pcs s)(i := p), control := c,
      completed := completed s + (if once_pcs s i = Init \<and> p = Finish then 1 else 0)\<rparr>)"
| wake: "i < n \<Longrightarrow> once_pcs s i = Wake_all p \<Longrightarrow>
    once_next n s (s\<lparr>once_pcs := (\<lambda>j. if once_pcs s j = Asleep then Wait_test else once_pcs s j)(i := p)\<rparr>)"

inductive_cases once_nextE: "once_next n s t"

definition once_start :: once where
  "once_start = \<lparr>control = 0, completed = 0, once_pcs = (\<lambda>_. Idle)\<rparr>"

section \<open>The invariant\<close>

fun initialising :: "once_pc \<Rightarrow> bool" where
  "initialising Init = True"
| "initialising Finish = True"
| "initialising Undo = True"
| "initialising _ = False"

fun returning :: "once_pc \<Rightarrow> bool" where
  "returning Returned = True"
| "returning (Wake_all p) = (p = Returned)"
| "returning _ = False"

fun waking :: "once_pc \<Rightarrow> bool" where
  "waking (Wake_all p) = True"
| "waking _ = False"

fun once_local :: "once_pc \<Rightarrow> bool" where
  "once_local (Wake_all p) = (p = Returned \<or> p = Cancelled)"
| "once_local _ = True"

definition once_inv :: "nat \<Rightarrow> once \<Rightarrow> bool" where
  "once_inv n s \<longleftrightarrow> (\<forall>j < n. once_local (once_pcs s j)) \<and> control s \<le> 3 \<and>
     num initialising n (once_pcs s) = (if control s = 1 \<or> control s = 3 then 1 else 0) \<and>
     completed s = num (\<lambda>p. p = Finish) n (once_pcs s) + (if control s = 2 then 1 else 0) \<and>
     (0 < num returning n (once_pcs s) \<longrightarrow> control s = 2) \<and>
     (0 < num (\<lambda>p. p = Asleep) n (once_pcs s) \<longrightarrow> control s = 3 \<or> 0 < num waking n (once_pcs s))"

lemma once_start_inv: "once_inv n once_start"
  by (auto simp: once_inv_def once_start_def num_def)

text \<open>What a move does to the counts of the invariant.\<close>

abbreviation one_if :: "bool \<Rightarrow> nat" where
  "one_if b \<equiv> (if b then 1 else 0)"

lemma once_move_laws:
  assumes "(p', c') \<in> set (once_moves p c)" "once_local p" "c \<le> 3" "initialising p \<Longrightarrow> c = 1 \<or> c = 3" "returning p \<Longrightarrow> c = 2"
  shows "once_local p'" "c' \<le> 3"
    "one_if (initialising p') + one_if (c = 1 \<or> c = 3) = one_if (initialising p) + one_if (c' = 1 \<or> c' = 3)"
    "one_if (p = Init \<and> p' = Finish) + one_if (p = Finish) + one_if (c = 2) = one_if (p' = Finish) + one_if (c' = 2)"
    "returning p' \<Longrightarrow> c' = 2" "c = 2 \<Longrightarrow> c' = 2"
    "p' = Asleep \<Longrightarrow> c' = 3" "c = 3 \<Longrightarrow> c' = 3 \<or> waking p'" "waking p \<Longrightarrow> waking p'"
  using assms by (cases p; auto simp: once_moves_def split: if_splits)+

lemma num_has: "i < n \<Longrightarrow> P (f i) \<Longrightarrow> 0 < num P n f"
  unfolding num_pos by blast

lemma once_move_inv:
  assumes inv: "once_inv n s" and i: "i < n" and m: "(p, c) \<in> set (once_moves (once_pcs s i) (control s))"
  shows "once_inv n (s\<lparr>once_pcs := (once_pcs s)(i := p), control := c,
      completed := completed s + (if once_pcs s i = Init \<and> p = Finish then 1 else 0)\<rparr>)"
proof -
  let ?f = "once_pcs s" and ?q = "once_pcs s i"
  note inv' = inv [unfolded once_inv_def]
  have u: "num P n (?f(i := p)) + one_if (P ?q) = num P n ?f + one_if (P p)" for P by (rule num_upd [OF i])
  have q: "once_local ?q" "control s \<le> 3" using inv' i by auto
  have init: "control s = 1 \<or> control s = 3" if "initialising ?q"
    using inv' num_has [OF i, of initialising ?f] that by (auto split: if_splits)
  have ret: "control s = 2" if "returning ?q" using inv' num_has [OF i, of returning ?f] that by auto
  note laws = once_move_laws [OF m q init ret]
  have local: "once_local ((?f(i := p)) j)" if "j < n" for j using inv' laws(1) that by simp
  have a: "num initialising n (?f(i := p)) = one_if (c = 1 \<or> c = 3)"
    using u [of initialising] laws(3) inv' by linarith
  have b: "completed s + one_if (?q = Init \<and> p = Finish) = num (\<lambda>p. p = Finish) n (?f(i := p)) + one_if (c = 2)"
    using u [of "\<lambda>p. p = Finish"] laws(4) inv' by linarith
  have r: "c = 2" if "0 < num returning n (?f(i := p))"
    using that num_keep [of returning n ?f i p] laws(5,6) inv' by (cases "returning p") auto
  have w: "c = 3 \<or> 0 < num waking n (?f(i := p))" if "0 < num (\<lambda>p. p = Asleep) n (?f(i := p))"
  proof (cases "p = Asleep")
    case False
    then have "0 < num (\<lambda>p. p = Asleep) n ?f" using that num_keep [of "\<lambda>p. p = Asleep" n ?f i p] by simp
    then have "control s = 3 \<or> 0 < num waking n ?f" using inv' by auto
    moreover have "0 < num waking n (?f(i := p))" if "waking p" using that by (intro num_has [OF i]) simp
    moreover have "0 < num waking n (?f(i := p))" if "0 < num waking n ?f" "\<not> waking p"
      using that u [of waking] laws(9) by (auto split: if_splits)
    ultimately show ?thesis using laws(8) by (cases "waking p") auto
  qed (use laws(7) in simp)
  show ?thesis unfolding once_inv_def using local laws(2) a b r w by simp
qed

lemma once_wake_inv:
  assumes inv: "once_inv n s" and i: "i < n" "once_pcs s i = Wake_all p"
  shows "once_inv n (s\<lparr>once_pcs := (\<lambda>j. if once_pcs s j = Asleep then Wait_test else once_pcs s j)(i := p)\<rparr>)"
proof -
  let ?f = "once_pcs s" and ?g = "(\<lambda>j. if once_pcs s j = Asleep then Wait_test else once_pcs s j)(i := p)"
  note inv' = inv [unfolded once_inv_def]
  have p: "p = Returned \<or> p = Cancelled" using inv' i by (metis once_local.simps(1))
  have eq: "num P n ?g = num P n ?f" if "P p = P (Wake_all p)" "P Wait_test = P Asleep" for P
    by (rule num_cong) (use that i in auto)
  have none: "num (\<lambda>p. p = Asleep) n ?g = 0" using p by (auto simp: num_def)
  have r: "control s = 2" if "0 < num returning n ?g" using that eq [of returning] p inv' by auto
  have local: "once_local (?g j)" if "j < n" for j using inv' p that by auto
  show ?thesis unfolding once_inv_def
    using inv' local none r eq [of initialising] eq [of "\<lambda>p. p = Finish"] p by auto
qed

theorem once_next_inv: "once_next n s t \<Longrightarrow> once_inv n s \<Longrightarrow> once_inv n t"
  by (erule once_nextE) (simp_all only: once_move_inv once_wake_inv)

interpretation once: step_invariant "once_next n" once_start "once_inv n" for n
  by unfold_locales (fact once_start_inv, fact once_next_inv)

definition once_reachable :: "nat \<Rightarrow> once \<Rightarrow> bool" where
  "once_reachable n s \<longleftrightarrow> (once_next n)\<^sup>*\<^sup>* once_start s"

lemma once_reachable_inv: "once_reachable n s \<Longrightarrow> once_inv n s"
  unfolding once_reachable_def by (rule once.reachable_inv)

section \<open>Schedules\<close>

text \<open>A schedule names the thread that moves next and which of its moves it makes.\<close>

definition once_do :: "nat \<Rightarrow> nat \<times> nat \<Rightarrow> once \<Rightarrow> once option" where
  "once_do n m s = (case m of (i, k) \<Rightarrow> if \<not> i < n then None else
     case once_pcs s i of
       Wake_all p \<Rightarrow> Some (s\<lparr>once_pcs := (\<lambda>j. if once_pcs s j = Asleep then Wait_test else once_pcs s j)(i := p)\<rparr>)
     | q \<Rightarrow> (case drop k (once_moves q (control s)) of
         (p, c) # _ \<Rightarrow> Some (s\<lparr>once_pcs := (once_pcs s)(i := p), control := c,
           completed := completed s + (if q = Init \<and> p = Finish then 1 else 0)\<rparr>)
       | [] \<Rightarrow> None))"

lemma once_do_next: "once_do n (i, k) s = Some t \<Longrightarrow> once_next n s t"
proof (cases "\<exists>p. once_pcs s i = Wake_all p")
  case True
  then show "once_do n (i, k) s = Some t \<Longrightarrow> once_next n s t"
    by (auto simp: once_do_def split: if_splits intro: once_next.wake)
next
  case False
  assume d: "once_do n (i, k) s = Some t"
  obtain p c rest where r: "drop k (once_moves (once_pcs s i) (control s)) = (p, c) # rest" "i < n"
      "t = s\<lparr>once_pcs := (once_pcs s)(i := p), control := c,
        completed := completed s + (if once_pcs s i = Init \<and> p = Finish then 1 else 0)\<rparr>"
    using d False by (cases "once_pcs s i"; auto simp: once_do_def split: if_splits list.splits)
  have "(p, c) \<in> set (once_moves (once_pcs s i) (control s))" using r(1) by (metis in_set_dropD list.set_intros(1))
  then show ?thesis unfolding r(3) using r(2) by (rule once_next.move [rotated])
qed

fun once_schedule :: "nat \<Rightarrow> (nat \<times> nat) list \<Rightarrow> once \<Rightarrow> once option" where
  "once_schedule n [] s = Some s"
| "once_schedule n (m # ms) s = Option.bind (once_do n m s) (once_schedule n ms)"

lemma once_schedule_reachable: "once_reachable n s \<Longrightarrow> once_schedule n ms s = Some t \<Longrightarrow> once_reachable n t"
proof (induction n ms s rule: once_schedule.induct)
  case (2 n m ms s)
  obtain i k where m: "m = (i, k)" by (cases m)
  obtain u where u: "once_do n m s = Some u" "once_schedule n ms u = Some t" using "2.prems"(2) by auto
  have "once_reachable n u"
    using "2.prems"(1) once_do_next u(1) m unfolding once_reachable_def by (auto intro: rtranclp.rtrancl_into_rtrancl)
  then show ?case by (rule "2.IH" [OF u(1) _ u(2)])
qed simp

text \<open>Thread 0 runs the routine while thread 1 waits; then it wakes the others, and both calls return.\<close>

lemma once_sample:
  "once_schedule 2 [(0, 0), (0, 0), (0, 0), (1, 0), (1, 0), (1, 0), (1, 0), (1, 0), (0, 0), (0, 0), (0, 0), (1, 0), (1, 0)] once_start =
     Some \<lparr>control = 2, completed = 1, once_pcs = (\<lambda>_. Idle)(0 := Returned, 1 := Returned)\<rparr>"
  by (simp add: once_start_def once_do_def once_moves_def fun_eq_iff)

lemma once_sample_reachable:
  "once_reachable 2 \<lparr>control = 2, completed = 1, once_pcs = (\<lambda>_. Idle)(0 := Returned, 1 := Returned)\<rparr>"
  by (rule once_schedule_reachable [OF _ once_sample]) (simp add: once_reachable_def)

section \<open>Properties\<close>

text \<open>C25.  Once: in every interleaving, also when threads are cancelled in the routine, at most one thread is in the
  routine, the routine returns at most once, and when some call has returned it has returned, and no thread is in it.\<close>

theorem once_runs_once:
  assumes "once_reachable n s"
  shows "card {i. i < n \<and> initialising (once_pcs s i)} \<le> 1 \<and> completed s \<le> 1 \<and>
    ((\<exists>i < n. once_pcs s i = Returned) \<longrightarrow> completed s = 1 \<and> (\<forall>i < n. \<not> initialising (once_pcs s i)))"
proof -
  note inv = once_reachable_inv [OF assms, unfolded once_inv_def]
  let ?f = "once_pcs s"
  have le: "num (\<lambda>p. p = Finish) n ?f \<le> num initialising n ?f" by (rule num_mono) simp
  have one: "num initialising n ?f \<le> 1" "completed s \<le> 1" using inv le by (auto split: if_splits)
  have ended: "completed s = 1 \<and> (\<forall>j < n. \<not> initialising (once_pcs s j))" if "i < n" "once_pcs s i = Returned" for i
  proof -
    have "control s = 2" using inv num_has [OF that(1), of returning ?f] that(2) by simp
    then have "num initialising n ?f = 0" "completed s = 1" using inv le by auto
    then show ?thesis using num_has [of _ n initialising ?f] by (metis less_irrefl)
  qed
  show ?thesis using one ended unfolding num_def [symmetric] by blast
qed

theorem once_runs_once_witness:
  "completed \<lparr>control = 2, completed = 1, once_pcs = (\<lambda>_. Idle)(0 := Returned, 1 := Returned)\<rparr> \<le> 1"
  using once_runs_once [OF once_sample_reachable] by blast

text \<open>No call is left behind: when every thread has not called yet, has returned, has been cancelled, or sleeps
  in its call, so that none is under way, then none sleeps.\<close>

theorem once_no_lost_wakeup:
  assumes "once_reachable n s" and "\<forall>i < n. once_pcs s i \<in> {Idle, Returned, Cancelled, Asleep}"
  shows "\<forall>i < n. once_pcs s i \<noteq> Asleep"
proof (intro allI impI notI)
  fix i assume i: "i < n" "once_pcs s i = Asleep"
  note inv = once_reachable_inv [OF assms(1), unfolded once_inv_def]
  have "num waking n (once_pcs s) = 0" "num initialising n (once_pcs s) = 0" using assms(2) by (auto simp: num_def)
  moreover have "0 < num (\<lambda>p. p = Asleep) n (once_pcs s)" by (rule num_has [OF i(1)]) (rule i(2))
  ultimately show False using inv by auto
qed

theorem once_no_lost_wakeup_witness: "((\<lambda>_. Idle)(0 := Returned, 1 := Returned)) (1::nat) \<noteq> Asleep"
  using once_no_lost_wakeup [OF once_sample_reachable] by simp

end
