(* ===== verification/Dns.thy ===== *)
theory Dns
  imports Prelude
begin

text \<open>
  Domain names in messages (libc-top-half/musl/src/network: dn_expand.c, dn_skipname.c, dn_comp.c)
  and the records of a reply (dns_parse.c).

  A message is the list of its bytes, numbers below 256, and a pointer into it an offset.  A read or
  write outside a buffer has the result \<open>None\<close>.
\<close>

definition byte_at :: "nat list \<Rightarrow> nat \<Rightarrow> nat option" where
  "byte_at msg p = (if p < length msg then Some (msg ! p) else None)"

text \<open>\<open>(p[0] & 0x3f) << 8 | p[1]\<close>\<close>

definition pointer_target :: "nat \<Rightarrow> nat \<Rightarrow> nat" where
  "pointer_target b b' = push_bit 8 (b AND 0x3f) OR b'"

section \<open>dn_expand\<close>

text \<open>
  The destination has \<open>space\<close> bytes, of which the code uses \<open>dend\<close>; \<open>out\<close> is what has been written.
\<close>

abbreviation dot_byte :: nat where "dot_byte \<equiv> 46"

definition put_byte :: "nat \<Rightarrow> nat \<Rightarrow> nat list \<Rightarrow> nat list option" where
  "put_byte space c out = (if length out < space then Some (out @ [c]) else None)"

fun copy_label :: "nat list \<Rightarrow> nat \<Rightarrow> nat \<Rightarrow> nat \<Rightarrow> nat list \<Rightarrow> nat list option" where
  "copy_label msg space p 0 out = Some out"
| "copy_label msg space p (Suc j) out =
     Option.bind (byte_at msg p) (\<lambda>c. Option.bind (put_byte space c out) (copy_label msg space (p + 1) j))"

text \<open>The loop, of which \<open>n\<close> rounds are left.\<close>

fun expand_loop :: "nat list \<Rightarrow> nat \<Rightarrow> nat \<Rightarrow> nat \<Rightarrow> nat \<Rightarrow> nat \<Rightarrow> int \<Rightarrow> nat list \<Rightarrow> (int \<times> nat list) option" where
  "expand_loop msg space dend src 0 p len out = Some (- 1, out)"
| "expand_loop msg space dend src (Suc n) p len out =
     Option.bind (byte_at msg p) (\<lambda>b.
       if b AND 0xc0 \<noteq> 0 then
         if p + 1 = length msg then Some (- 1, out)
         else Option.bind (byte_at msg (p + 1)) (\<lambda>b'.
           let j = pointer_target b b'; len = (if len < 0 then int (p + 2) - int src else len) in
           if j \<ge> length msg then Some (- 1, out)
           else expand_loop msg space dend src n j len out)
       else if b \<noteq> 0 then
         Option.bind (if out \<noteq> [] then put_byte space dot_byte out else Some out) (\<lambda>out.
           if int b \<ge> int (length msg) - int (p + 1) \<or> int b \<ge> int dend - int (length out) then Some (- 1, out)
           else Option.bind (copy_label msg space (p + 1) b out) (expand_loop msg space dend src n (p + 1 + b) len))
       else if length out < space then Some (if len < 0 then int (p + 1) - int src else len, out)
       else None)"

definition dn_expand :: "nat list \<Rightarrow> nat \<Rightarrow> int \<Rightarrow> (int \<times> nat list) option" where
  "dn_expand msg src space =
     (if src = length msg \<or> space \<le> 0 then Some (- 1, [])
      else expand_loop msg (nat space) (nat (if space > 254 then 254 else space)) src
        ((length msg + 1) div 2) src (- 1) [])"

section \<open>dn_skipname\<close>

text \<open>\<open>msg\<close> are the bytes from \<open>s\<close> to \<open>end\<close>.\<close>

function skipname :: "nat list \<Rightarrow> nat \<Rightarrow> int" where
  "skipname msg p =
     (if p < length msg then
        (if msg ! p = 0 then int p + 1
         else if msg ! p \<ge> 192 then if p + 1 < length msg then int p + 2 else - 1
         else if int (length msg) - int p < int (msg ! p) + 1 then - 1
         else skipname msg (p + msg ! p + 1))
      else - 1)"
  by pat_completeness auto
termination by (relation "measure (\<lambda>(msg, p). length msg - p)") auto

declare skipname.simps [simp del]

definition dn_skipname :: "nat list \<Rightarrow> int" where
  "dn_skipname msg = skipname msg 0"

section \<open>dn_comp\<close>

text \<open>
  The name is a list of bytes as well.  getoffs reads names in the message; the array \<open>offs\<close> has 128
  elements.  Its loops end for want of fuel only when the pointers have a cycle, and then the C code
  does not return; both this and an access outside the message are \<open>None\<close>.
\<close>

fun getoffs :: "nat \<Rightarrow> nat list \<Rightarrow> nat \<Rightarrow> nat list \<Rightarrow> nat list option" where
  "getoffs 0 msg s offs = None"
| "getoffs (Suc fuel) msg s offs =
     Option.bind (byte_at msg s) (\<lambda>b.
       if b AND 0xc0 \<noteq> 0 then
         if b AND 0xc0 \<noteq> 0xc0 then Some []
         else Option.bind (byte_at msg (s + 1)) (\<lambda>b'. getoffs fuel msg (pointer_target b b') offs)
       else if b = 0 then Some offs
       else if s \<ge> 0x4000 then Some []
       else if length offs \<ge> 128 then None
       else getoffs fuel msg (s + b + 1) (offs @ [s]))"

text \<open>
  The lengths of the labels of the rest of the name, of which \<open>k\<close> bytes were scanned since the last
  dot; \<open>j-k-1u > 62\<close> holds for an empty label as well.  The empty list is the result 0.
\<close>

fun getlens :: "nat list \<Rightarrow> nat \<Rightarrow> nat list \<Rightarrow> nat list" where
  "getlens lens k [] = (if szsub k 1 > 62 then [] else lens @ [k])"
| "getlens lens k (c # cs) =
     (if c = dot_byte then if szsub k 1 > 62 then [] else getlens (lens @ [k]) 0 cs
      else getlens lens (k + 1) cs)"

text \<open>
  The loop of match: \<open>lens\<close> and \<open>offs\<close> are what is left of the arrays, \<open>name\<close> what is left before \<open>end\<close>.
  The result is the length of the match and its offset.
\<close>

function match_loop :: "nat list \<Rightarrow> nat list \<Rightarrow> nat list \<Rightarrow> nat list \<Rightarrow> nat \<Rightarrow> nat \<Rightarrow> (nat \<times> nat) option" where
  "match_loop msg name lens offs m offset =
     (if lens = [] \<or> offs = [] then Some (m, offset)
      else let l = last lens; o' = last offs in
        Option.bind (byte_at msg o') (\<lambda>b.
          if l = b \<and> o' + 1 + l > length msg then None
          else if l \<noteq> b \<or> take l (drop (o' + 1) msg) \<noteq> drop (length name - l) name then Some (m, offset)
          else if butlast lens = [] \<or> butlast offs = [] then Some (m + l + (if butlast lens \<noteq> [] then 1 else 0), o')
          else match_loop msg (take (length name - l - 1) name) (butlast lens) (butlast offs) (m + l + 1) o'))"
  by pat_completeness auto
termination by (relation "measure (\<lambda>(msg, name, lens, offs, m, offset). length lens)") auto

declare match_loop.simps [simp del]

definition match :: "nat list \<Rightarrow> nat \<Rightarrow> nat list \<Rightarrow> nat list \<Rightarrow> nat \<Rightarrow> (nat \<times> nat) option" where
  "match msg dn name lens offset =
     Option.bind (getoffs (length msg + 1) msg dn []) (\<lambda>offs.
       if offs = [] then Some (0, offset) else match_loop msg name lens offs 0 offset)"

text \<open>The best match with the names that were compressed before: its length and its offset.\<close>

fun best_match :: "nat list \<Rightarrow> nat list \<Rightarrow> nat list \<Rightarrow> nat list \<Rightarrow> nat \<Rightarrow> nat \<times> nat \<Rightarrow> (nat \<times> nat) option" where
  "best_match msg name lens [] offset best = Some best"
| "best_match msg name lens (dn # dns) offset best =
     Option.bind (match msg dn name lens offset) (\<lambda>(m, offset).
       if m > fst best then if m = length name then Some (m, offset) else best_match msg name lens dns offset (m, offset)
       else best_match msg name lens dns offset best)"

text \<open>The loop that puts the lengths at the dots.\<close>

fun put_lengths :: "nat list \<Rightarrow> nat \<Rightarrow> nat \<Rightarrow> nat list \<Rightarrow> (nat \<times> nat list) option" where
  "put_lengths lens i n dst =
     (if i < n then (case lens of
          l # ls \<Rightarrow> if i < length dst then put_lengths ls (i + l + 1) n (dst[i := l]) else None
        | [] \<Rightarrow> None)
      else Some (i, dst))"

text \<open>
  \<open>msg\<close> are the bytes from \<open>*dnptrs\<close> on and \<open>dst\<close> the \<open>space\<close> bytes of the destination, which is \<open>at\<close> bytes from there.
  \<open>dnptrs\<close> are the pointers after the first, or \<open>None\<close> without any, and \<open>lastdnptr\<close> is the number of elements
  of the array.  The result is the return value, the destination and the pointers.
\<close>

definition dn_encode :: "nat list \<Rightarrow> nat list \<Rightarrow> nat list \<Rightarrow> nat \<times> nat \<Rightarrow> (int \<times> nat list) option" where
  "dn_encode src lens dst best = (case best of (bestlen, bestoff) \<Rightarrow>
     let l = length src; n = l - bestlen in
     if length dst < n + 2 + (if szsub bestlen 1 < szsub l 1 then 1 else 0) then Some (- 1, dst)
     else Option.bind (put_lengths lens 0 n (take 1 dst @ take n src @ drop (n + 1) dst)) (\<lambda>(i, dst).
       if bestlen \<noteq> 0 then
         if i + 1 < length dst then Some (int i + 2, dst[i := (0xc0 OR drop_bit 8 bestoff) mod 256, i + 1 := bestoff mod 256]) else None
       else if i < length dst then Some (int i + 1, dst[i := 0]) else None))"

definition save_pointer :: "nat list option \<Rightarrow> nat option \<Rightarrow> nat \<Rightarrow> int \<Rightarrow> nat list option" where
  "save_pointer dnptrs lastdnptr at i = (case (dnptrs, lastdnptr) of
      (Some ps, Some cap) \<Rightarrow> if i > 2 \<and> length ps + 2 < cap then Some (ps @ [at]) else dnptrs
    | _ \<Rightarrow> dnptrs)"

definition dn_comp :: "nat list \<Rightarrow> nat list \<Rightarrow> nat \<Rightarrow> nat list \<Rightarrow> nat list option \<Rightarrow> nat option \<Rightarrow>
    (int \<times> nat list \<times> nat list option) option" where
  "dn_comp msg src at dst dnptrs lastdnptr =
     (let src = take 255 src; src = (if src \<noteq> [] \<and> last src = dot_byte then butlast src else src); l = length src in
      if l > 253 \<or> dst = [] then Some (- 1, dst, dnptrs)
      else if l = 0 then Some (1, dst[0 := 0], dnptrs)
      else let lens = getlens [] 0 src in
        if lens = [] then Some (- 1, dst, dnptrs)
        else Option.bind (best_match msg src lens (case dnptrs of Some ps \<Rightarrow> ps | None \<Rightarrow> []) 0 (0, 0)) (\<lambda>best.
          map_option (\<lambda>(r, dst). (r, dst, if r < 0 then dnptrs else save_pointer dnptrs lastdnptr at r)) (dn_encode src lens dst best)))"

section \<open>Replies\<close>

text \<open>
  \<open>buf\<close> is the buffer that holds the reply, of which the first \<open>rlen\<close> bytes are the reply.  The results are
  \<open>Inl\<close> of the return value, or \<open>Inr\<close> to go on.
\<close>

function skip_labels :: "nat list \<Rightarrow> nat \<Rightarrow> nat \<Rightarrow> nat option" where
  "skip_labels buf rlen p =
     (if p < rlen then Option.bind (byte_at buf p) (\<lambda>b. if 1 \<le> b \<and> b \<le> 127 then skip_labels buf rlen (p + 1) else Some p)
      else Some p)"
  by pat_completeness auto
termination by (relation "measure (\<lambda>(buf, rlen, p). rlen - p)") auto

declare skip_labels.simps [simp del]

text \<open>The end of a name: the offset of its last byte, or of its pointer, when there is room for the fields after it.\<close>

definition name_end :: "nat list \<Rightarrow> nat \<Rightarrow> nat \<Rightarrow> (int + nat \<times> nat) option" where
  "name_end buf rlen p =
     Option.bind (skip_labels buf rlen p) (\<lambda>p.
       Option.bind (byte_at buf p) (\<lambda>b.
         if b > 193 then Some (Inl (- 1))
         else Option.bind (if b = 193 then byte_at buf (p + 1) else Some 0) (\<lambda>b'.
           if b = 193 \<and> b' > 254 \<or> int p > int rlen - 6 then Some (Inl (- 1)) else Some (Inr (p, b)))))"

fun dns_questions :: "nat list \<Rightarrow> nat \<Rightarrow> nat \<Rightarrow> nat \<Rightarrow> (int + nat) option" where
  "dns_questions buf rlen 0 p = Some (Inr p)"
| "dns_questions buf rlen (Suc q) p =
     Option.bind (name_end buf rlen p) (\<lambda>r. case r of
       Inl e \<Rightarrow> Some (Inl e)
     | Inr (p, b) \<Rightarrow> dns_questions buf rlen q (p + 5 + (if b \<noteq> 0 then 1 else 0)))"

text \<open>The callback gets its context, the low byte of the type, and the offset and the length of the data.\<close>

type_synonym 'c dns_callback = "'c \<Rightarrow> nat \<Rightarrow> nat \<Rightarrow> nat \<Rightarrow> int \<times> 'c"

fun dns_answers :: "'c dns_callback \<Rightarrow> nat list \<Rightarrow> nat \<Rightarrow> nat \<Rightarrow> nat \<Rightarrow> 'c \<Rightarrow> (int \<times> 'c) option" where
  "dns_answers cb buf rlen 0 p ctx = Some (0, ctx)"
| "dns_answers cb buf rlen (Suc a) p ctx =
     Option.bind (name_end buf rlen p) (\<lambda>r. case r of
       Inl e \<Rightarrow> Some (e, ctx)
     | Inr (p, b) \<Rightarrow>
         let p = p + 1 + (if b \<noteq> 0 then 1 else 0) in
         Option.bind (byte_at buf (p + 8)) (\<lambda>h. Option.bind (byte_at buf (p + 9)) (\<lambda>l.
           let len = h * 256 + l in
           if p + len > rlen then Some (- 1, ctx)
           else Option.bind (byte_at buf (p + 1)) (\<lambda>rr. case cb ctx rr (p + 10) len of
             (res, ctx) \<Rightarrow> if res < 0 then Some (- 1, ctx) else dns_answers cb buf rlen a (p + 10 + len) ctx))))"

definition dns_parse :: "'c dns_callback \<Rightarrow> nat list \<Rightarrow> nat \<Rightarrow> 'c \<Rightarrow> (int \<times> 'c) option" where
  "dns_parse cb buf rlen ctx =
     (if rlen < 12 then Some (- 1, ctx)
      else if (buf ! 3) AND 15 \<noteq> 0 then Some (0, ctx)
      else let qdcount = buf ! 4 * 256 + buf ! 5; ancount = buf ! 6 * 256 + buf ! 7 in
        if qdcount + ancount > 64 then Some (- 1, ctx)
        else Option.bind (dns_questions buf rlen qdcount 12) (\<lambda>r. case r of
          Inl e \<Rightarrow> Some (e, ctx)
        | Inr p \<Rightarrow> dns_answers cb buf rlen ancount p ctx))"

end
