(* ===== verification/Dns_Theorems.thy ===== *)
theory Dns_Theorems
  imports Dns
begin

text \<open>
  The names of RFC 1035 in a message, that dn_expand decodes exactly these, that dn_comp writes one
  that stands for its argument, and how far dns_parse reads.
\<close>

section \<open>Names\<close>

definition bytes_ok :: "nat list \<Rightarrow> bool" where
  "bytes_ok msg \<longleftrightarrow> (\<forall>b \<in> set msg. b < 256)"

text \<open>
  \<open>name_at msg p n ls w\<close>: at \<open>p\<close> there is a name with the labels \<open>ls\<close>; \<open>n\<close> counts the labels, pointers and the
  final zero on the way, and \<open>w\<close> the bytes at \<open>p\<close> up to the zero or the first pointer.
\<close>

inductive name_at :: "nat list \<Rightarrow> nat \<Rightarrow> nat \<Rightarrow> nat list list \<Rightarrow> nat \<Rightarrow> bool" for msg where
  root: "byte_at msg p = Some 0 \<Longrightarrow> name_at msg p 1 [] 1"
| label: "byte_at msg p = Some b \<Longrightarrow> 0 < b \<Longrightarrow> b < 64 \<Longrightarrow> p + 1 + b < length msg \<Longrightarrow> name_at msg (p + 1 + b) n ls w \<Longrightarrow>
    name_at msg p (Suc n) (take b (drop (p + 1) msg) # ls) (1 + b + w)"
| pointer: "byte_at msg p = Some b \<Longrightarrow> 64 \<le> b \<Longrightarrow> byte_at msg (p + 1) = Some b' \<Longrightarrow> name_at msg (b mod 64 * 256 + b') n ls w \<Longrightarrow>
    name_at msg p (Suc n) ls 2"

inductive_cases name_at_0E: "name_at msg p 0 ls w"

fun dotted :: "nat list list \<Rightarrow> nat list" where
  "dotted [] = []"
| "dotted [l] = l"
| "dotted (l # ls) = l @ dot_byte # dotted ls"

text \<open>The name of the labels after what was written before.\<close>

definition joined :: "nat list \<Rightarrow> nat list list \<Rightarrow> nat list" where
  "joined out ls = (if out = [] then dotted ls else if ls = [] then out else out @ dot_byte # dotted ls)"

lemma joined_Nil [simp]: "joined out [] = out"
  by (simp add: joined_def)

lemma joined_Cons: "l \<noteq> [] \<Longrightarrow> joined out (l # ls) = joined ((if out \<noteq> [] then out @ [dot_byte] else out) @ l) ls"
  by (cases ls) (simp_all add: joined_def)

lemma joined_length: "length out \<le> length (joined out ls)"
  by (simp add: joined_def)

section \<open>Bytes\<close>

lemma byte_at_iff: "byte_at msg p = Some b \<longleftrightarrow> p < length msg \<and> msg ! p = b"
  by (auto simp: byte_at_def)

lemma byte_at_bound: "bytes_ok msg \<Longrightarrow> byte_at msg p = Some b \<Longrightarrow> b < 256"
  by (auto simp: byte_at_iff bytes_ok_def)

lemma and_mult: "m AND (c * 2 ^ k) = (m div 2 ^ k AND c) * 2 ^ k" for m c :: nat
proof -
  have "m AND push_bit k c = push_bit k (drop_bit k m AND c)"
    by (auto simp: bit_eq_iff bit_simps)
  then show ?thesis by (simp add: push_bit_eq_mult drop_bit_eq_div)
qed

lemma and_3: "q AND 3 = q mod 4" for q :: nat
proof -
  have "q AND mask 2 = q mod 2 ^ 2" by (simp only: take_bit_eq_mod flip: take_bit_eq_mask)
  then show ?thesis by (simp add: mask_eq_exp_minus_1)
qed

lemma and_c0: "b < 256 \<Longrightarrow> b AND 0xc0 = b div 64 * 64" for b :: nat
  using and_mult [of b 3 6] by (simp add: and_3)

lemma and_c0_zero: "b < 256 \<Longrightarrow> b AND 0xc0 = 0 \<longleftrightarrow> b < 64" for b :: nat
  using and_c0 [of b] by auto

lemma pointer_target_eq: "b' < 256 \<Longrightarrow> pointer_target b b' = b mod 64 * 256 + b'"
  using or_low [of b' 8 "b mod 64"] by (simp add: pointer_target_def push_bit_eq_mult)

section \<open>dn_expand\<close>

lemma name_at_unique: "name_at msg p n ls w \<Longrightarrow> name_at msg p n' ls' w' \<Longrightarrow> n' = n \<and> ls' = ls \<and> w' = w"
proof (induction arbitrary: n' ls' w' rule: name_at.induct)
  case (root p)
  then show ?case by (auto elim: name_at.cases)
next
  case (label p b n ls w)
  from label.prems label.hyps show ?case by (cases rule: name_at.cases) (auto dest: label.IH [simplified])
next
  case (pointer p b b' n ls w)
  from pointer.prems pointer.hyps show ?case by (cases rule: name_at.cases) (auto dest: pointer.IH [simplified])
qed

lemma name_at_inside: "name_at msg p n ls w \<Longrightarrow> p < length msg"
  by (erule name_at.cases) (auto simp: byte_at_iff)

lemma copy_label_eq: "p + j \<le> length msg \<Longrightarrow> length out + j \<le> space \<Longrightarrow>
  copy_label msg space p j out = Some (out @ take j (drop p msg))"
proof (induction j arbitrary: p out)
  case (Suc j)
  then have "byte_at msg p = Some (msg ! p)" "put_byte space (msg ! p) out = Some (out @ [msg ! p])"
    by (auto simp: byte_at_def put_byte_def)
  moreover have "take (Suc j) (drop p msg) = msg ! p # take j (drop (Suc p) msg)"
    using Suc.prems by (simp add: Cons_nth_drop_Suc [symmetric])
  ultimately show ?case using Suc by simp
qed simp

text \<open>
  What the loop promises: it returns, without an access outside the message or the destination; a result that is not
  negative belongs to a name; and a name that is short enough is found.
\<close>

definition expands :: "nat list \<Rightarrow> nat \<Rightarrow> nat \<Rightarrow> nat \<Rightarrow> nat list \<Rightarrow> (nat \<Rightarrow> int) \<Rightarrow> (int \<times> nat list) option \<Rightarrow> bool" where
  "expands msg dend n p out value res \<longleftrightarrow> (\<exists>r out'. res = Some (r, out') \<and>
     (0 \<le> r \<longrightarrow> (\<exists>k ls w. k \<le> n \<and> name_at msg p k ls w \<and> out' = joined out ls \<and> r = value w \<and> length out' < dend)) \<and>
     (\<forall>k ls w. name_at msg p k ls w \<longrightarrow> k \<le> n \<longrightarrow> length (joined out ls) < dend \<longrightarrow> r = value w \<and> out' = joined out ls))"

lemma expands_fail: "(\<And>k ls w. name_at msg p k ls w \<Longrightarrow> k \<le> n \<Longrightarrow> length (joined out ls) < dend \<Longrightarrow> False) \<Longrightarrow>
    expands msg dend n p out value (Some (- 1, out'))"
  by (auto simp: expands_def)

lemmas expand_round = expand_loop.simps(2)

declare expand_loop.simps(2) [simp del]

lemmas expand_round_numeral = expand_loop.simps(2) [of _ _ _ _ "pred_numeral k" for k, folded numeral_eq_Suc]

lemma expands_found:
  assumes "name_at msg p k ls w" "k \<le> n" "length (joined out ls) < dend"
  shows "expands msg dend n p out value (Some (value w, joined out ls))"
proof -
  have "ls' = ls \<and> w' = w" if "name_at msg p k' ls' w'" for k' ls' w' using name_at_unique [OF assms(1) that] by simp
  then show ?thesis unfolding expands_def using assms by blast
qed

text \<open>A round: the name at \<open>p\<close> is given by the name at \<open>p'\<close>.\<close>

lemma expands_step:
  assumes rest: "expands msg dend n p' out' value' R"
    and up: "\<And>k ls w. name_at msg p' k ls w \<Longrightarrow> name_at msg p (Suc k) (f ls) (g w)"
    and down: "\<And>k ls w. name_at msg p k ls w \<Longrightarrow> \<exists>k' ls' w'. k = Suc k' \<and> ls = f ls' \<and> w = g w' \<and> name_at msg p' k' ls' w'"
    and same: "\<And>ls. joined out (f ls) = joined out' ls" "\<And>w. value (g w) = value' w"
  shows "expands msg dend (Suc n) p out value R"
proof -
  obtain r o' where R: "R = Some (r, o')"
    and pos: "0 \<le> r \<Longrightarrow> \<exists>k ls w. k \<le> n \<and> name_at msg p' k ls w \<and> o' = joined out' ls \<and> r = value' w \<and> length o' < dend"
    and all: "\<And>k ls w. name_at msg p' k ls w \<Longrightarrow> k \<le> n \<Longrightarrow> length (joined out' ls) < dend \<Longrightarrow> r = value' w \<and> o' = joined out' ls"
    using rest unfolding expands_def by blast
  have "\<exists>k ls w. k \<le> Suc n \<and> name_at msg p k ls w \<and> o' = joined out ls \<and> r = value w \<and> length o' < dend" if "0 \<le> r"
  proof -
    obtain k ls w where "k \<le> n" "name_at msg p' k ls w" "o' = joined out' ls" "r = value' w" "length o' < dend"
      using pos \<open>0 \<le> r\<close> by blast
    then show ?thesis using up same by (intro exI [of _ "Suc k"] exI [of _ "f ls"] exI [of _ "g w"]) simp
  qed
  moreover have "r = value w \<and> o' = joined out ls" if "name_at msg p k ls w" "k \<le> Suc n" "length (joined out ls) < dend" for k ls w
    using down [OF that(1)] that(2,3) all same by auto
  ultimately show ?thesis unfolding expands_def R by blast
qed

lemma expand_loop_spec:
  assumes "bytes_ok msg" "dend \<le> space" "length out < dend" "p < length msg" "len < 0 \<longrightarrow> src \<le> p"
  shows "expands msg dend n p out (\<lambda>w. if len < 0 then int (p + w) - int src else len)
    (expand_loop msg space dend src n p len out)"
  using assms(3-5)
proof (induction n arbitrary: p len out)
  case 0
  show ?case by (auto simp: expands_def elim: name_at_0E name_at.cases)
next
  case (Suc n)
  let ?b = "msg ! p"
  have b: "byte_at msg p = Some ?b" "?b < 256" using Suc.prems assms(1) by (auto simp: byte_at_def bytes_ok_def)
  consider (root) "?b = 0" | (label) "0 < ?b" "?b < 64" | (pointer) "64 \<le> ?b" by linarith
  then show ?case
  proof cases
    case root
    have r: "name_at msg p 1 [] 1" by (rule name_at.root) (use b root in simp)
    have e: "expand_loop msg space dend src (Suc n) p len out = Some (if len < 0 then int (p + 1) - int src else len, out)"
      using b root assms(2) Suc.prems by (simp add: expand_round)
    show ?thesis unfolding e
      using expands_found [OF r, of "Suc n" out dend "\<lambda>w. if len < 0 then int (p + w) - int src else len"] Suc.prems
      by simp
  next
    case label
    then have z: "?b AND 0xc0 = 0" using and_c0_zero b(2) by blast
    let ?out = "if out \<noteq> [] then out @ [dot_byte] else out"
    have dot: "(if out \<noteq> [] then put_byte space dot_byte out else Some out) = Some ?out"
      using Suc.prems assms(2) by (simp add: put_byte_def)
    let ?l = "take ?b (drop (p + 1) msg)"
    have inv: "\<exists>k' ls' w'. k = Suc k' \<and> ls = ?l # ls' \<and> w = 1 + ?b + w' \<and> name_at msg (p + 1 + ?b) k' ls' w' \<and> p + 1 + ?b < length msg"
      if "name_at msg p k ls w" for k ls w using that b label by (cases rule: name_at.cases) auto
    show ?thesis
    proof (cases "p + 1 + ?b < length msg \<and> length ?out + ?b < dend")
      case True
      then have l: "?l \<noteq> []" "length ?l = ?b" using label by auto
      have c: "copy_label msg space (p + 1) ?b ?out = Some (?out @ ?l)"
        using True assms(2) by (intro copy_label_eq) auto
      have e: "expand_loop msg space dend src (Suc n) p len out = expand_loop msg space dend src n (p + 1 + ?b) len (?out @ ?l)"
        using b z dot c True label by (simp add: expand_round of_nat_diff)
      have "expands msg dend n (p + 1 + ?b) (?out @ ?l) (\<lambda>w. if len < 0 then int (p + 1 + ?b + w) - int src else len)
          (expand_loop msg space dend src n (p + 1 + ?b) len (?out @ ?l))"
        by (rule Suc.IH) (use True l Suc.prems in auto)
      then show ?thesis unfolding e
      proof (rule expands_step [where f = "\<lambda>ls. ?l # ls" and g = "\<lambda>w. 1 + ?b + w"])
        show "name_at msg p (Suc k) (?l # ls) (1 + ?b + w)" if "name_at msg (p + 1 + ?b) k ls w" for k ls w
          using b label True that by (intro name_at.label) auto
        show "joined out (?l # ls) = joined (?out @ ?l) ls" for ls using joined_Cons [OF l(1), of out] by simp
        show "\<exists>k' ls' w'. k = Suc k' \<and> ls = ?l # ls' \<and> w = 1 + ?b + w' \<and> name_at msg (p + 1 + ?b) k' ls' w'"
          if "name_at msg p k ls w" for k ls w using inv [OF that] by blast
      qed auto
    next
      case False
      have "int ?b \<ge> int (length msg) - int (p + 1) \<or> int ?b \<ge> int dend - int (length ?out)" using False by linarith
      then have "expand_loop msg space dend src (Suc n) p len out = Some (- 1, ?out)"
        using b z dot label by (simp add: expand_round)
      moreover have "expands msg dend (Suc n) p out v (Some (- 1, ?out))" for v
      proof (rule expands_fail)
        fix k ls w assume n: "name_at msg p k ls w" "length (joined out ls) < dend"
        then obtain ls' where "ls = ?l # ls'" "p + 1 + ?b < length msg" using inv by blast
        moreover from this have "length (?out @ ?l) \<le> length (joined out ls)"
          using joined_length [of "?out @ ?l" ls'] joined_Cons [of ?l out ls'] label by auto
        ultimately show False using n False by auto
      qed
      ultimately show ?thesis by simp
    qed
  next
    case pointer
    then have z: "?b AND 0xc0 \<noteq> 0" using and_c0_zero b(2) by auto
    have inv: "\<exists>k' b' w'. k = Suc k' \<and> w = 2 \<and> byte_at msg (p + 1) = Some b' \<and> name_at msg (?b mod 64 * 256 + b') k' ls w'"
      if "name_at msg p k ls w" for k ls w using that b pointer by (cases rule: name_at.cases) auto
    show ?thesis
    proof (cases "p + 1 = length msg")
      case True
      then have "byte_at msg (p + 1) = None" by (simp add: byte_at_def)
      then show ?thesis using b z True inv by (auto simp: expand_round intro!: expands_fail)
    next
      case False
      let ?b' = "msg ! (p + 1)" let ?j = "?b mod 64 * 256 + ?b'"
      have b': "byte_at msg (p + 1) = Some ?b'" "?b' < 256" using False Suc.prems assms(1) by (auto simp: byte_at_def bytes_ok_def)
      have j: "pointer_target ?b ?b' = ?j" using b'(2) by (rule pointer_target_eq)
      let ?len = "if len < 0 then int (p + 2) - int src else len"
      have len: "\<not> ?len < 0" using Suc.prems by auto
      show ?thesis
      proof (cases "?j < length msg")
        case True
        have e: "expand_loop msg space dend src (Suc n) p len out = expand_loop msg space dend src n ?j ?len out"
          using b z b' j True False by (simp add: expand_round Let_def)
        have "expands msg dend n ?j out (\<lambda>w. if ?len < 0 then int (?j + w) - int src else ?len)
            (expand_loop msg space dend src n ?j ?len out)"
          by (rule Suc.IH) (use True len Suc.prems in auto)
        then show ?thesis unfolding e
        proof (rule expands_step [where f = "\<lambda>ls. ls" and g = "\<lambda>w. 2"])
          show "name_at msg p (Suc k) ls 2" if "name_at msg ?j k ls w" for k ls w
            using b pointer b' that by (intro name_at.pointer) auto
          show "\<exists>k' ls' w'. k = Suc k' \<and> ls = ls' \<and> w = 2 \<and> name_at msg ?j k' ls' w'" if "name_at msg p k ls w" for k ls w
            using inv [OF that] b'(1) by auto
        qed (use len in auto)
      next
        case F: False
        have none: "\<not> name_at msg p k ls w" for k ls w using F name_at_inside [of msg ?j] inv [of k ls w] b'(1) by fastforce
        have "expand_loop msg space dend src (Suc n) p len out = Some (- 1, out)"
          using b z b' j F False by (simp add: expand_round Let_def)
        then show ?thesis using none by (auto intro!: expands_fail)
      qed
    qed
  qed
qed

lemma dn_expand_contract:
  assumes "bytes_ok msg" "src < length msg" "0 < space"
  shows "expands msg (nat (min 254 space)) ((length msg + 1) div 2) src [] int (dn_expand msg src space)"
proof -
  have dend: "nat (if space > 254 then 254 else space) = nat (min 254 space)" by (simp add: min_def)
  have "expands msg (nat (min 254 space)) ((length msg + 1) div 2) src []
      (\<lambda>w. if (- 1::int) < 0 then int (src + w) - int src else - 1)
      (expand_loop msg (nat space) (nat (min 254 space)) src ((length msg + 1) div 2) src (- 1) [])"
    by (rule expand_loop_spec) (use assms in auto)
  then show ?thesis unfolding dn_expand_def dend using assms by simp
qed

text \<open>dn_skipname stays in the message.\<close>

lemma skipname_bounds: "skipname msg p = - 1 \<or> (int p < skipname msg p \<and> skipname msg p \<le> int (length msg))"
proof (induction msg p rule: skipname.induct)
  case (1 msg p)
  consider "length msg \<le> p" | "p < length msg" "msg ! p = 0 \<or> msg ! p \<ge> 192 \<or> int (length msg) - int p < int (msg ! p) + 1"
    | "p < length msg" "msg ! p \<noteq> 0" "\<not> msg ! p \<ge> 192" "\<not> int (length msg) - int p < int (msg ! p) + 1" by linarith
  then show ?case
  proof cases
    case 3
    then show ?thesis using "1.IH" skipname.simps [of msg p] by auto
  qed (auto simp: skipname.simps [of msg p])
qed

section \<open>dn_comp\<close>

text \<open>The labels of a name as they are written.\<close>

definition wire :: "nat list list \<Rightarrow> nat list" where
  "wire ls = concat (map (\<lambda>l. length l # l) ls)"

lemma wire_simps [simp]: "wire [] = []" "wire (l # ls) = length l # l @ wire ls"
  by (simp_all add: wire_def)

lemma wire_length: "ls \<noteq> [] \<Longrightarrow> length (wire ls) = length (dotted ls) + 1"
  by (induction ls rule: dotted.induct) simp_all

lemma dotted_append: "a \<noteq> [] \<Longrightarrow> b \<noteq> [] \<Longrightarrow> dotted (a @ b) = dotted a @ dot_byte # dotted b"
proof (induction a rule: dotted.induct)
  case (2 l)
  then show ?case by (cases b) simp_all
qed simp_all

definition label_ok :: "nat list \<Rightarrow> bool" where
  "label_ok l \<longleftrightarrow> 1 \<le> length l \<and> length l \<le> 63 \<and> dot_byte \<notin> set l"

lemma label_ok_ne: "label_ok l \<Longrightarrow> l \<noteq> []"
  by (auto simp: label_ok_def)

lemma dotted_labels: "\<forall>l \<in> set ls. label_ok l \<Longrightarrow> 2 * length ls \<le> length (dotted ls) + 1"
  by (induction ls rule: dotted.induct) (auto simp: label_ok_def)

lemma name_at_append: "name_at msg p n ls w \<Longrightarrow> name_at (msg @ x) p n ls w"
proof (induction rule: name_at.induct)
  case (root p)
  then show ?case by (intro name_at.root) (auto simp: byte_at_iff nth_append)
next
  case (label p b n ls w)
  then have "name_at (msg @ x) p (Suc n) (take b (drop (p + 1) (msg @ x)) # ls) (1 + b + w)"
    by (intro name_at.label) (auto simp: byte_at_iff nth_append)
  then show ?case using label by simp
next
  case (pointer p b b' n ls w)
  then show ?case by (intro name_at.pointer) (auto simp: byte_at_iff nth_append)
qed

text \<open>Writing labels before a name.\<close>

lemma name_at_wire:
  assumes "\<forall>l \<in> set ls. label_ok l" "name_at (pre @ wire ls @ suf) (length pre + length (wire ls)) n ls' w"
  shows "name_at (pre @ wire ls @ suf) (length pre) (length ls + n) (ls @ ls') (length (wire ls) + w)"
  using assms
proof (induction ls arbitrary: pre)
  case (Cons l ls)
  let ?m = "pre @ wire (l # ls) @ suf"
  have m: "?m = (pre @ length l # l) @ wire ls @ suf" by simp
  have rest: "name_at ?m (length pre + 1 + length l) (length ls + n) (ls @ ls') (length (wire ls) + w)"
    using Cons.IH [of "pre @ length l # l"] Cons.prems by (simp add: add.assoc)
  have "name_at ?m (length pre) (Suc (length ls + n)) (take (length l) (drop (length pre + 1) ?m) # ls @ ls') (1 + length l + (length (wire ls) + w))"
    by (rule name_at.label) (use rest name_at_inside [OF rest] Cons.prems in \<open>auto simp: byte_at_iff nth_append label_ok_def\<close>)
  then show ?case by (simp add: add.assoc)
qed simp

text \<open>The lengths of the labels.\<close>

lemma length_test: "k < size_mod \<Longrightarrow> \<not> szsub k 1 > 62 \<longleftrightarrow> 1 \<le> k \<and> k \<le> 63"
  by (cases "k = 0") (auto simp: szsub_def mod_if)

lemma getlens_labels: "k + length cs < size_mod \<Longrightarrow> getlens lens k cs \<noteq> [] \<Longrightarrow>
    \<exists>l ls. dot_byte \<notin> set l \<and> cs = dotted (l # ls) \<and> 1 \<le> k + length l \<and> k + length l \<le> 63 \<and>
      (\<forall>l \<in> set ls. label_ok l) \<and> getlens lens k cs = lens @ (k + length l) # map length ls"
proof (induction lens k cs rule: getlens.induct)
  case (1 lens k)
  then show ?case using length_test [of k] by (intro exI [of _ "[]"]) (auto split: if_splits)
next
  case (2 lens k c cs)
  show ?case
  proof (cases "c = dot_byte")
    case True
    have s: "\<not> szsub k 1 > 62" using "2.prems"(2) True by (auto split: if_splits)
    then have k: "1 \<le> k" "k \<le> 63" using length_test [of k] "2.prems"(1) by auto
    have ne: "getlens (lens @ [k]) 0 cs \<noteq> []" using "2.prems"(2) True s by simp
    obtain l ls where *: "label_ok l" "cs = dotted (l # ls)" "\<forall>l \<in> set ls. label_ok l"
        "getlens (lens @ [k]) 0 cs = (lens @ [k]) @ length l # map length ls"
      using "2.IH"(1) [OF True s _ ne] "2.prems"(1) by (auto simp: label_ok_def)
    then show ?thesis using True s k by (intro exI [of _ "[]"] exI [of _ "l # ls"]) auto
  next
    case False
    then obtain l ls where "dot_byte \<notin> set l" "cs = dotted (l # ls)" "k + 1 + length l \<le> 63"
        "\<forall>l \<in> set ls. label_ok l" "getlens lens (k + 1) cs = lens @ (k + 1 + length l) # map length ls"
      using "2.IH"(2) [OF False] "2.prems" by auto
    then show ?thesis using False by (intro exI [of _ "c # l"] exI [of _ ls]) (cases ls; auto)
  qed
qed

lemma getlens_name:
  assumes "length cs < size_mod" "getlens [] 0 cs \<noteq> []"
  obtains ls where "ls \<noteq> []" "\<forall>l \<in> set ls. label_ok l" "cs = dotted ls" "getlens [] 0 cs = map length ls"
proof -
  obtain l ls where "dot_byte \<notin> set l" "cs = dotted (l # ls)" "1 \<le> length l" "length l \<le> 63" "\<forall>l \<in> set ls. label_ok l"
      "getlens [] 0 cs = length l # map length ls"
    using getlens_labels [of 0 cs "[]"] assms by auto
  then show thesis by (intro that [of "l # ls"]) (auto simp: label_ok_def)
qed

lemma getlens_scan: "dot_byte \<notin> set l \<Longrightarrow> getlens lens k (l @ cs) = getlens lens (k + length l) cs"
  by (induction l arbitrary: k) simp_all

lemma getlens_all: "\<forall>l \<in> set ls. label_ok l \<Longrightarrow> ls \<noteq> [] \<Longrightarrow> getlens lens 0 (dotted ls) = lens @ map length ls"
proof (induction ls arbitrary: lens rule: dotted.induct)
  case (2 l)
  then show ?case using getlens_scan [of l lens 0 "[]"] length_test [of "length l"] by (simp add: label_ok_def)
next
  case (3 l l' ls)
  then have "getlens lens 0 (dotted (l # l' # ls)) = getlens (lens @ [length l]) 0 (dotted (l' # ls))"
    using getlens_scan [of l lens 0 "dot_byte # dotted (l' # ls)"] length_test [of "length l"] by (simp add: label_ok_def)
  also have "\<dots> = (lens @ [length l]) @ map length (l' # ls)" by (rule "3.IH") (use "3.prems" in auto)
  finally show ?case by simp
qed simp

section \<open>The search for a suffix\<close>

text \<open>Where the labels \<open>ls\<close> of a name begin: the result of getoffs.\<close>

definition offsets_of :: "nat list \<Rightarrow> nat \<Rightarrow> nat list list \<Rightarrow> nat list \<Rightarrow> bool" where
  "offsets_of msg N ls offs \<longleftrightarrow> length offs = length ls \<and>
     (\<forall>i < length ls. offs ! i < 0x4000 \<and> byte_at msg (offs ! i) = Some (length (ls ! i)) \<and>
        offs ! i + 1 + length (ls ! i) \<le> length msg \<and> ls ! i = take (length (ls ! i)) (drop (offs ! i + 1) msg) \<and>
        (\<exists>n w. n \<le> N \<and> name_at msg (offs ! i) n (drop i ls) w))"

lemma getoffs_offsets:
  assumes "bytes_ok msg" "name_at msg s n ls w" "n \<le> fuel" "length offs + length ls \<le> 128"
  shows "\<exists>o'. getoffs fuel msg s offs = Some o' \<and> (o' = [] \<or> (\<exists>o2. o' = offs @ o2 \<and> offsets_of msg n ls o2))"
  using assms(2-)
proof (induction arbitrary: fuel offs rule: name_at.induct)
  case (root p)
  then show ?case by (cases fuel) (auto simp: offsets_of_def)
next
  case (label p b n ls w)
  obtain f where f: "fuel = Suc f" "n \<le> f" using label.prems by (cases fuel) auto
  have z: "b AND 0xc0 = 0" using label.hyps and_c0_zero [of b] by simp
  let ?l = "take b (drop (p + 1) msg)"
  have l: "length ?l = b" using label.hyps by simp
  show ?case
  proof (cases "p \<ge> 0x4000")
    case False
    obtain o' where o': "getoffs f msg (p + 1 + b) (offs @ [p]) = Some o'"
        "o' = [] \<or> (\<exists>o2. o' = (offs @ [p]) @ o2 \<and> offsets_of msg n ls o2)"
      using label.IH [of f "offs @ [p]"] f label.prems by auto
    have "offsets_of msg (Suc n) (?l # ls) (p # o2)" if o2: "offsets_of msg n ls o2" for o2
    proof -
      have "name_at msg p (Suc n) (?l # ls) (1 + b + w)" by (rule name_at.label) (use label.hyps in auto)
      moreover have "\<exists>m w. m \<le> Suc n \<and> name_at msg (o2 ! j) m (drop j ls) w" if "j < length ls" for j
        using o2 that unfolding offsets_of_def by (meson le_SucI)
      ultimately show ?thesis using o2 False label.hyps l unfolding offsets_of_def
        by (auto simp: nth_Cons less_Suc_eq_0_disj split: nat.splits)
    qed
    then show ?thesis using f z False label.hyps label.prems o' by (auto simp: add.commute add.left_commute)
  qed (use f z label.hyps in auto)
next
  case (pointer p b b' n ls w)
  obtain f where f: "fuel = Suc f" "n \<le> f" using pointer.prems by (cases fuel) auto
  have b: "b < 256" "b' < 256" using byte_at_bound assms(1) pointer.hyps by blast+
  have z: "b AND 0xc0 \<noteq> 0" using pointer.hyps and_c0_zero b by auto
  have mono: "offsets_of msg (Suc n) ls o2" if "offsets_of msg n ls o2" for o2
    using that unfolding offsets_of_def by (meson le_SucI)
  then show ?case using f z pointer.hyps pointer.prems pointer.IH [of f offs] pointer_target_eq [OF b(2)] by fastforce
qed

text \<open>
  A match of the last labels of the name \<open>sl\<close>: its length, with the dot before it when other labels precede it, and the offset
  of a name with these labels.
\<close>

definition matches :: "nat list \<Rightarrow> nat \<Rightarrow> nat list list \<Rightarrow> nat \<times> nat \<Rightarrow> bool" where
  "matches msg N sl m \<longleftrightarrow> fst m = 0 \<or> (\<exists>s1 s2 n w. sl = s1 @ s2 \<and> s2 \<noteq> [] \<and>
     fst m = length (dotted s2) + (if s1 = [] then 0 else 1) \<and> snd m < 0x4000 \<and> n \<le> N \<and> name_at msg (snd m) n s2 w)"

lemma dotted_snoc: "s \<noteq> [] \<Longrightarrow> dotted (s @ [l]) = dotted s @ dot_byte # l"
  by (induction s rule: dotted.induct) simp_all

lemma dotted_split: "length (dotted (s @ [l])) = (if s = [] then length l else length (dotted s) + 1 + length l)"
    "drop (length (dotted (s @ [l])) - length l) (dotted (s @ [l])) = l"
    "s \<noteq> [] \<Longrightarrow> take (length (dotted (s @ [l])) - length l - 1) (dotted (s @ [l])) = dotted s"
  by (cases "s = []"; simp add: dotted_snoc)+

lemma match_loop_snoc:
  assumes "byte_at msg p = Some b" "p + 1 + b \<le> length msg"
  shows "match_loop msg name (lens @ [l]) (offs @ [p]) m offset =
    (if l \<noteq> b \<or> take l (drop (p + 1) msg) \<noteq> drop (length name - l) name then Some (m, offset)
     else if lens = [] \<or> offs = [] then Some (m + l + (if lens \<noteq> [] then 1 else 0), p)
     else match_loop msg (take (length name - l - 1) name) lens offs (m + l + 1) p)"
  by (subst match_loop.simps) (use assms in \<open>auto simp: Let_def\<close>)

lemma match_loop_matches:
  assumes offs: "offsets_of msg N ls offs"
  shows "\<lbrakk>rest \<noteq> []; k + length found = length ls; 0 < k; found = drop k ls;
      m = (if found = [] then 0 else length (dotted found) + 1); found = [] \<or> offset = offs ! k\<rbrakk> \<Longrightarrow>
    \<exists>r. match_loop msg (dotted rest) (map length rest) (take k offs) m offset = Some r \<and> matches msg N (rest @ found) r"
proof (induction rest arbitrary: found k m offset rule: rev_induct)
  case (snoc l rest)
  let ?o = "offs ! (k - 1)" and ?l = "ls ! (k - 1)"
  have len: "length offs = length ls" "k \<le> length ls" using offs snoc.prems by (auto simp: offsets_of_def)
  have k: "k - 1 < length ls" using snoc.prems len by simp
  have tk: "take k offs = take (k - 1) offs @ [?o]"
    using snoc.prems(3) len take_Suc_conv_app_nth [of "k - 1" offs] by simp
  have o: "?o < 0x4000" "byte_at msg ?o = Some (length ?l)" "?o + 1 + length ?l \<le> length msg"
      "take (length ?l) (drop (?o + 1) msg) = ?l" "\<exists>n w. n \<le> N \<and> name_at msg ?o n (drop (k - 1) ls) w"
    using offs k unfolding offsets_of_def by auto
  have dk: "drop (k - 1) ls = ?l # found" using snoc.prems(3,4) k Cons_nth_drop_Suc [of "k - 1" ls] by simp
  have eq: "match_loop msg (dotted (rest @ [l])) (map length (rest @ [l])) (take k offs) m offset =
      (if length l \<noteq> length ?l \<or> ?l \<noteq> l then Some (m, offset)
       else if rest = [] \<or> k = 1 then Some (m + length l + (if rest \<noteq> [] then 1 else 0), ?o)
       else match_loop msg (dotted rest) (map length rest) (take (k - 1) offs) (m + length l + 1) ?o)"
  proof -
    have e: "take (k - 1) offs = [] \<longleftrightarrow> k = 1" using snoc.prems(3) len by auto
    have sp: "drop (length (dotted (rest @ [l])) - length l) (dotted (rest @ [l])) = l"
      "rest \<noteq> [] \<Longrightarrow> take (length (dotted (rest @ [l])) - length l - 1) (dotted (rest @ [l])) = dotted rest"
      using dotted_split [of rest l] by blast+
    show ?thesis
    proof (cases "length l = length ?l")
      case True
      have "match_loop msg (dotted (rest @ [l])) (map length rest @ [length l]) (take (k - 1) offs @ [?o]) m offset =
        (if ?l \<noteq> l then Some (m, offset)
         else if rest = [] \<or> k = 1 then Some (m + length l + (if rest \<noteq> [] then 1 else 0), ?o)
         else match_loop msg (dotted rest) (map length rest) (take (k - 1) offs) (m + length l + 1) ?o)"
        unfolding match_loop_snoc [OF o(2,3)] using True [symmetric] sp o(4) e by simp
      then show ?thesis unfolding tk using True by simp
    next
      case False
      then show ?thesis unfolding tk using match_loop_snoc [OF o(2,3)] by simp
    qed
  qed
  show ?case
  proof (cases "?l = l")
    case False
    have "matches msg N ((rest @ [l]) @ found) (m, offset)"
    proof (cases "found = []")
      case True
      then show ?thesis using snoc.prems by (simp add: matches_def)
    next
      case F: False
      then have "k < length ls" using snoc.prems by auto
      then obtain n w where "n \<le> N" "name_at msg (offs ! k) n found w" "offs ! k < 0x4000"
        using offs snoc.prems(4) unfolding offsets_of_def by blast
      then show ?thesis using F snoc.prems unfolding matches_def
        by (intro disjI2 exI [of _ "rest @ [l]"] exI [of _ found] exI [of _ n] exI [of _ w]) auto
    qed
    then show ?thesis unfolding eq using False by simp
  next
    case True
    have d: "m + length l = length (dotted (l # found))" using snoc.prems(5) by (cases found) auto
    show ?thesis
    proof (cases "rest = [] \<or> k = 1")
      case T: True
      obtain n w where "n \<le> N" "name_at msg ?o n (l # found) w" using o(5) dk True by auto
      then have "matches msg N ((rest @ [l]) @ found) (m + length l + (if rest \<noteq> [] then 1 else 0), ?o)"
        using o(1) d unfolding matches_def
        by (intro disjI2 exI [of _ rest] exI [of _ "l # found"] exI [of _ n] exI [of _ w]) auto
      then show ?thesis unfolding eq using True T by auto
    next
      case False
      have "\<exists>r. match_loop msg (dotted rest) (map length rest) (take (k - 1) offs) (m + length l + 1) ?o = Some r \<and>
          matches msg N (rest @ (l # found)) r"
        by (rule snoc.IH) (use False snoc.prems d dk True in auto)
      then show ?thesis unfolding eq using True False by simp
    qed
  qed
qed simp

lemma match_matches:
  assumes "bytes_ok msg" "name_at msg dn n ls w" "n \<le> N" "2 * n \<le> length msg + 1" "length ls \<le> 128" "sl \<noteq> []"
  shows "\<exists>r. match msg dn (dotted sl) (map length sl) offset = Some r \<and> matches msg N sl r"
proof -
  have "n \<le> length msg + 1" using assms(4) by linarith
  then obtain o' where o': "getoffs (length msg + 1) msg dn [] = Some o'" "o' = [] \<or> offsets_of msg n ls o'"
    using getoffs_offsets [OF assms(1,2), of "length msg + 1" "[]"] assms(5) by auto
  show ?thesis
  proof (cases "o' = []")
    case True
    then show ?thesis using o' by (simp add: match_def matches_def del: getoffs.simps)
  next
    case False
    then have offs: "offsets_of msg n ls o'" using o' by simp
    then have len: "length o' = length ls" by (simp add: offsets_of_def)
    then obtain r where r: "match_loop msg (dotted sl) (map length sl) o' 0 offset = Some r" "matches msg n sl r"
      using match_loop_matches [OF offs assms(6), of "length ls" "[]" 0 offset] False by (cases "ls = []") auto
    have "matches msg N sl r" using r(2) le_trans [OF _ assms(3)] unfolding matches_def by blast
    then show ?thesis using o' False r by (auto simp: match_def simp del: getoffs.simps)
  qed
qed

text \<open>The names that the pointers lead to, short enough for the counters of dn_expand and getoffs.\<close>

definition names_ok :: "nat list \<Rightarrow> nat list \<Rightarrow> bool" where
  "names_ok msg ps \<longleftrightarrow> bytes_ok msg \<and>
     (\<forall>dn \<in> set ps. \<exists>n ls w. name_at msg dn n ls w \<and> 2 * n \<le> length msg + 1 \<and> length ls \<le> 128)"

lemma best_match_matches:
  assumes "names_ok msg ps" "sl \<noteq> []" "N = (length msg + 1) div 2" "matches msg N sl b"
  shows "\<exists>r. best_match msg (dotted sl) (map length sl) ps offset b = Some r \<and> matches msg N sl r"
  using assms
proof (induction ps arbitrary: offset b)
  case (Cons dn ps)
  obtain n ls w where n: "name_at msg dn n ls w" "2 * n \<le> length msg + 1" "length ls \<le> 128" "bytes_ok msg"
    using Cons.prems(1) by (auto simp: names_ok_def)
  then have "n \<le> N" using Cons.prems(3) by linarith
  then obtain m o' where m: "match msg dn (dotted sl) (map length sl) offset = Some (m, o')" "matches msg N sl (m, o')"
    using match_matches [OF n(4,1) _ n(2,3) Cons.prems(2)] by fastforce
  have "names_ok msg ps" using Cons.prems(1) by (simp add: names_ok_def)
  note IH = Cons.IH [OF this Cons.prems(2,3)]
  show ?case using m IH [OF Cons.prems(4), of o'] IH [OF m(2), of o'] by auto
qed simp

section \<open>Writing a name\<close>

declare put_lengths.simps [simp del]

lemma put_round: "i < n \<Longrightarrow> i < length dst \<Longrightarrow> put_lengths (l # ls) i n dst = put_lengths ls (i + l + 1) n (dst[i := l])"
  by (subst put_lengths.simps) simp

lemma put_end: "n \<le> i \<Longrightarrow> put_lengths ls i n dst = Some (i, dst)"
  by (subst put_lengths.simps) simp

lemma put_lengths_wire:
  assumes "s \<noteq> []" "i = length pre" "\<forall>l \<in> set s. l \<noteq> []"
  shows "put_lengths (map length (s @ s')) i (i + length (dotted s)) (pre @ x # dotted s @ post) =
    Some (i + length (wire s), pre @ wire s @ post)"
  using assms
proof (induction s arbitrary: i pre x rule: dotted.induct)
  case (2 l)
  then show ?case by (simp add: put_round put_end)
next
  case (3 l l' s)
  let ?pre = "pre @ length l # l" and ?i = "i + length l + 1"
  have "put_lengths (map length ((l # l' # s) @ s')) i (i + length (dotted (l # l' # s))) (pre @ x # dotted (l # l' # s) @ post) =
      put_lengths (map length ((l' # s) @ s')) ?i (?i + length (dotted (l' # s))) (?pre @ dot_byte # dotted (l' # s) @ post)"
    using "3.prems"(2) by (simp add: put_round add.assoc)
  also have "\<dots> = Some (?i + length (wire (l' # s)), ?pre @ wire (l' # s) @ post)"
    using "3.IH" [of ?i ?pre dot_byte] "3.prems" by simp
  finally show ?case by simp
qed simp

lemma pointer_bytes:
  fixes p :: nat
  assumes "p < 0x4000"
  shows "(0xc0 OR drop_bit 8 p) mod 256 = 192 + p div 256" "64 \<le> 192 + p div 256" "(192 + p div 256) mod 64 * 256 + p mod 256 = p"
proof -
  have q: "p div 256 < 64" using assms by auto
  then have "192 OR p div 256 = 192 + p div 256" using or_low [of "p div 256" 6 3] by simp
  then show "(0xc0 OR drop_bit 8 p) mod 256 = 192 + p div 256" using q by (simp add: drop_bit_eq_div)
  have "(192 + p div 256) mod 64 = p div 256" using q by (simp add: mod_if mod_add_eq [symmetric])
  then show "(192 + p div 256) mod 64 * 256 + p mod 256 = p" by simp
qed simp

lemma bytes_ok_append [simp]: "bytes_ok (a @ b) \<longleftrightarrow> bytes_ok a \<and> bytes_ok b"
  by (auto simp: bytes_ok_def)

lemma bytes_ok_Cons [simp]: "bytes_ok (b # bs) \<longleftrightarrow> b < 256 \<and> bytes_ok bs" "bytes_ok []"
  by (auto simp: bytes_ok_def)

lemma bytes_ok_wire: "\<forall>l \<in> set ls. label_ok l \<Longrightarrow> bytes_ok (dotted ls) \<Longrightarrow> bytes_ok (wire ls)"
  by (induction ls rule: dotted.induct) (auto simp: label_ok_def)

text \<open>What dn_encode writes after the labels \<open>s1\<close> that match nothing: a zero, or a pointer.\<close>

lemma dn_encode_bytes:
  assumes "s1 \<noteq> [] \<or> s2 \<noteq> []" "\<forall>l \<in> set (s1 @ s2). label_ok l" "length (dotted (s1 @ s2)) \<le> 253"
    and m: "m = (if s2 = [] then 0 else length (dotted s2) + (if s1 = [] then 0 else 1))"
    and tail: "tail = (if m = 0 then [0] else [(0xc0 OR drop_bit 8 p) mod 256, p mod 256])"
  shows "dn_encode (dotted (s1 @ s2)) (map length (s1 @ s2)) dst (m, p) =
    (if length dst < length (wire s1) + length tail then Some (- 1, dst)
     else Some (int (length (wire s1 @ tail)), (wire s1 @ tail) @ drop (length (wire s1 @ tail)) dst))"
proof -
  let ?src = "dotted (s1 @ s2)" and ?n = "length (dotted s1)" and ?w = "length (wire s1)"
  have split: "?src = dotted s1 @ (if s1 = [] \<or> s2 = [] then [] else [dot_byte]) @ dotted s2"
    using dotted_append [of s1 s2] by auto
  have m_eq: "length ?src - m = ?n" using m split by (auto split: if_splits)
  have w: "?w = (if s1 = [] then 0 else ?n + 1)" using wire_length [of s1] by simp
  have pos: "s2 \<noteq> [] \<Longrightarrow> 1 \<le> length (dotted s2)" using assms(2) dotted_labels [of s2] by (cases s2) auto
  have m0: "m = 0 \<longleftrightarrow> s2 = []" using m pos by (cases s1; cases s2) auto
  have n1: "s1 \<noteq> [] \<Longrightarrow> 1 \<le> ?n" using assms(2) dotted_labels [of s1] by (cases s1) auto
  have len: "m < size_mod" "length ?src < size_mod" "1 \<le> length ?src" using m split assms(1,3) pos n1 by auto
  have sub: "szsub m 1 < szsub (length ?src) 1 \<longleftrightarrow> s1 \<noteq> [] \<and> s2 \<noteq> []"
  proof (cases "s2 = []")
    case True
    then have "szsub m 1 = size_mod - 1" using m by (simp add: szsub_def)
    then show ?thesis using True szsub_bound [of "length ?src" 1] by simp
  next
    case False
    then have "1 \<le> m" using m0 by simp
    then have "szsub m 1 = m - 1" "szsub (length ?src) 1 = length ?src - 1" using len by (auto intro!: szsub_small)
    then show ?thesis using False m split \<open>1 \<le> m\<close> n1 by auto
  qed
  have need: "?n + 2 + (if szsub m 1 < szsub (length ?src) 1 then 1 else 0) = ?w + length tail"
    using sub w tail m0 assms(1) by auto
  have put: "put_lengths (map length (s1 @ s2)) 0 ?n (take 1 dst @ take ?n ?src @ drop (?n + 1) dst) =
      Some (?w, wire s1 @ drop ?w dst)" if room: "?w + length tail \<le> length dst"
  proof (cases "s1 = []")
    case True
    then show ?thesis by (simp add: put_end)
  next
    case False
    obtain x xs where x: "dst = x # xs" using room tail by (cases dst) (auto split: if_splits)
    have "\<forall>l \<in> set s1. l \<noteq> []" using assms(2) label_ok_ne by auto
    then show ?thesis using put_lengths_wire [of s1 0 "[]" s2 x "drop ?n xs"] False split w x by simp
  qed
  show ?thesis
  proof (cases "length dst < ?w + length tail")
    case True
    then show ?thesis using need by (simp add: dn_encode_def Let_def m_eq del: One_nat_def)
  next
    case False
    then have p: "put_lengths (map length (s1 @ s2)) 0 ?n (take 1 dst @ take ?n ?src @ drop (?n + 1) dst) = Some (?w, wire s1 @ drop ?w dst)"
      using put by simp
    have "dn_encode ?src (map length (s1 @ s2)) dst (m, p) =
        (let dst' = wire s1 @ drop ?w dst in
         if m \<noteq> 0 then
           if ?w + 1 < length dst' then Some (int ?w + 2, dst'[?w := (0xc0 OR drop_bit 8 p) mod 256, ?w + 1 := p mod 256]) else None
         else if ?w < length dst' then Some (int ?w + 1, dst'[?w := 0]) else None)"
      unfolding dn_encode_def Let_def prod.case m_eq need p using False by simp
    also have "\<dots> = Some (int (length (wire s1 @ tail)), (wire s1 @ tail) @ drop (length (wire s1 @ tail)) dst)"
    proof (cases "m = 0")
      case True
      then have "drop ?w dst = dst ! ?w # drop (?w + 1) dst" using False tail by (simp add: Cons_nth_drop_Suc)
      then show ?thesis using True False tail by (simp add: list_update_append Let_def)
    next
      case m: False
      then have "drop ?w dst = dst ! ?w # dst ! (?w + 1) # drop (?w + 2) dst" using False tail by (simp add: Cons_nth_drop_Suc)
      then show ?thesis using m False tail by (simp add: list_update_append Let_def)
    qed
    finally show ?thesis using False by simp
  qed
qed

lemma dn_encode_name:
  assumes names: "names_ok msg ps" and sl: "sl \<noteq> []" "\<forall>l \<in> set sl. label_ok l" "length (dotted sl) \<le> 253" "bytes_ok (dotted sl)"
    and best: "matches msg ((length msg + 1) div 2) sl best"
  shows "(dn_encode (dotted sl) (map length sl) dst best = Some (- 1, dst) \<and> length dst < length (dotted sl) + 2) \<or>
    (\<exists>enc n. dn_encode (dotted sl) (map length sl) dst best = Some (int (length enc), enc @ drop (length enc) dst) \<and>
      length enc \<le> length dst \<and> bytes_ok enc \<and> name_at (msg @ enc) (length msg) n sl (length enc) \<and> 2 * n \<le> length (msg @ enc) + 1)"
proof -
  obtain m p where b: "best = (m, p)" by (cases best)
  have encoded: ?thesis
    if "dn_encode (dotted sl) (map length sl) dst best =
        (if length dst < length enc then Some (- 1, dst) else Some (int (length enc), enc @ drop (length enc) dst))"
      "bytes_ok enc" "name_at (msg @ enc) (length msg) n sl (length enc)" "2 * n \<le> length (msg @ enc) + 1"
      "length enc \<le> length (dotted sl) + 2" for enc n
  proof (cases "length dst < length enc")
    case True
    then show ?thesis using that by simp
  next
    case False
    then have "length enc \<le> length dst" by simp
    then show ?thesis using that(1) [unfolded if_not_P [OF False]] that(2-4) by blast
  qed
  show ?thesis
  proof (cases "m = 0")
    case True
    let ?enc = "wire sl @ [0]"
    have e: "dn_encode (dotted sl) (map length sl) dst best =
        (if length dst < length ?enc then Some (- 1, dst) else Some (int (length ?enc), ?enc @ drop (length ?enc) dst))"
      unfolding b using dn_encode_bytes [of sl "[]" m "[0]" p dst] sl True by simp
    have "name_at (msg @ wire sl @ [0]) (length msg + length (wire sl)) 1 [] 1"
      by (rule name_at.root) (simp add: byte_at_def nth_append)
    from name_at_wire [OF sl(2) this] have n: "name_at (msg @ ?enc) (length msg) (length sl + 1) sl (length ?enc)" by simp
    have "2 * length sl \<le> length (wire sl)" using dotted_labels [OF sl(2)] wire_length [OF sl(1)] by simp
    then have two: "2 * (length sl + 1) \<le> length (msg @ ?enc) + 1" by simp
    have "bytes_ok ?enc" using bytes_ok_wire sl by simp
    moreover have "length ?enc \<le> length (dotted sl) + 2" using wire_length [OF sl(1)] by simp
    ultimately show ?thesis using encoded [OF e _ n two] by blast
  next
    case False
    then obtain s1 s2 n w where s: "sl = s1 @ s2" "s2 \<noteq> []" "m = length (dotted s2) + (if s1 = [] then 0 else 1)"
        "p < 0x4000" "n \<le> (length msg + 1) div 2" "name_at msg p n s2 w"
      using best b unfolding matches_def by auto
    let ?tail = "[192 + p div 256, p mod 256]" let ?enc = "wire s1 @ ?tail"
    note pb = pointer_bytes [OF s(4)]
    have ok: "\<forall>l \<in> set s1. label_ok l" "\<forall>l \<in> set (s1 @ s2). label_ok l" using sl(2) s(1) by auto
    have e: "dn_encode (dotted sl) (map length sl) dst best =
        (if length dst < length ?enc then Some (- 1, dst) else Some (int (length ?enc), ?enc @ drop (length ?enc) dst))"
    proof -
      have t: "?tail = (if m = 0 then [0] else [(0xc0 OR drop_bit 8 p) mod 256, p mod 256])" using False pb(1) by simp
      have l: "length (dotted (s1 @ s2)) \<le> 253" using sl(3) s(1) by simp
      have m': "m = (if s2 = [] then 0 else length (dotted s2) + (if s1 = [] then 0 else 1))" using s(2,3) by simp
      show ?thesis unfolding b s(1) using dn_encode_bytes [OF _ ok(2) l m' t] s(2) by simp
    qed
    let ?q = "length msg + length (wire s1)"
    have "name_at (msg @ ?enc) ?q (Suc n) s2 2"
    proof (rule name_at.pointer)
      show "byte_at (msg @ ?enc) ?q = Some (192 + p div 256)" "byte_at (msg @ ?enc) (?q + 1) = Some (p mod 256)"
        by (simp_all add: byte_at_def nth_append)
      show "name_at (msg @ ?enc) ((192 + p div 256) mod 64 * 256 + p mod 256) n s2 w"
        unfolding pb(3) by (rule name_at_append [OF s(6)])
    qed (rule pb(2))
    from name_at_wire [OF ok(1) this] have n: "name_at (msg @ ?enc) (length msg) (length s1 + Suc n) sl (length ?enc)"
      unfolding s(1) by simp
    have w1: "2 * length s1 \<le> length (wire s1)"
      using dotted_labels [OF ok(1)] wire_length [of s1] by (cases "s1 = []") auto
    then have two: "2 * (length s1 + Suc n) \<le> length (msg @ ?enc) + 1" using s(5) by simp
    have "bytes_ok (wire s1)"
      using bytes_ok_wire [OF ok(2)] sl(4) s(1) by (auto simp: wire_def bytes_ok_def)
    then have "bytes_ok ?enc" using s(4) by auto
    moreover have "length ?enc \<le> length (dotted sl) + 2"
      using wire_length [of s1] s(1,2) dotted_append [of s1 s2] by (cases "s1 = []") auto
    ultimately show ?thesis using encoded [OF e _ n two] by blast
  qed
qed

definition strip_dot :: "nat list \<Rightarrow> nat list" where
  "strip_dot src = (if src \<noteq> [] \<and> last src = dot_byte then butlast src else src)"

lemma dn_expand_name:
  assumes "bytes_ok msg" "name_at msg src n ls w" "2 * n \<le> length msg + 1" "length (dotted ls) \<le> 253"
  shows "dn_expand msg src 254 = Some (int w, dotted ls)"
proof -
  have "n \<le> (length msg + 1) div 2" using assms(3) by linarith
  then show ?thesis
    using dn_expand_contract [OF assms(1) name_at_inside [OF assms(2)], of 254] assms(2,4)
    unfolding expands_def joined_def by fastforce
qed

lemma names_ok_extend:
  assumes "names_ok msg ps" "bytes_ok enc"
  shows "names_ok (msg @ enc) ps"
    "name_at (msg @ enc) p n ls w \<Longrightarrow> 2 * n \<le> length (msg @ enc) + 1 \<Longrightarrow> length ls \<le> 128 \<Longrightarrow> names_ok (msg @ enc) (ps @ [p])"
proof -
  let ?Q = "\<lambda>dn. \<exists>n ls w. name_at (msg @ enc) dn n ls w \<and> 2 * n \<le> length (msg @ enc) + 1 \<and> length ls \<le> 128"
  have old: "?Q dn" if dn: "dn \<in> set ps" for dn
  proof -
    obtain n ls w where "name_at msg dn n ls w" "2 * n \<le> length msg + 1" "length ls \<le> 128"
      using assms(1) dn unfolding names_ok_def by blast
    then show ?thesis using name_at_append by (intro exI [of _ n] exI [of _ ls] exI [of _ w]) auto
  qed
  then show "names_ok (msg @ enc) ps" using assms unfolding names_ok_def by simp
  assume "name_at (msg @ enc) p n ls w" "2 * n \<le> length (msg @ enc) + 1" "length ls \<le> 128"
  then have "?Q p" by blast
  then show "names_ok (msg @ enc) (ps @ [p])" using old assms unfolding names_ok_def by simp
qed

lemma save_pointer_cases: "save_pointer (Some ps) cap at i = Some ps \<or> save_pointer (Some ps) cap at i = Some (ps @ [at])"
  by (cases cap) (simp_all add: save_pointer_def)

lemma dn_comp_contract:
  assumes names: "names_ok msg ps" and src: "bytes_ok src"
  shows "\<exists>r dst' ps'. dn_comp msg src (length msg) dst (Some ps) cap = Some (r, dst', Some ps') \<and> length dst' = length dst \<and>
    (0 \<le> r \<longrightarrow> names_ok (msg @ take (nat r) dst') ps' \<and>
      dn_expand (msg @ take (nat r) dst') (length msg) 254 = Some (r, strip_dot src)) \<and>
    (r < 0 \<longrightarrow> \<not> (\<exists>ls. (\<forall>l \<in> set ls. label_ok l) \<and> strip_dot src = dotted ls \<and> length (dotted ls) \<le> 253 \<and> length (dotted ls) + 2 \<le> length dst))"
proof -
  let ?s = "strip_dot (take 255 src)"
  have run: "dn_comp msg src (length msg) dst (Some ps) cap =
     (if length ?s > 253 \<or> dst = [] then Some (- 1, dst, Some ps)
      else if length ?s = 0 then Some (1, dst[0 := 0], Some ps)
      else let lens = getlens [] 0 ?s in
        if lens = [] then Some (- 1, dst, Some ps)
        else Option.bind (best_match msg ?s lens ps 0 (0, 0)) (\<lambda>best.
          map_option (\<lambda>(r, dst). (r, dst, if r < 0 then Some ps else save_pointer (Some ps) cap (length msg) r)) (dn_encode ?s lens dst best)))"
    by (simp add: dn_comp_def strip_dot_def Let_def)
  have short: "strip_dot src = ?s" if "length ?s \<le> 253"
  proof -
    have "length (take 255 src) \<le> 254" using that by (auto simp: strip_dot_def split: if_splits)
    then show ?thesis by simp
  qed
  have bytes: "bytes_ok ?s" using src by (auto simp: strip_dot_def bytes_ok_def dest: in_set_butlastD in_set_takeD)
  consider (long) "length ?s > 253 \<or> dst = []" | (empty) "?s = []" "dst \<noteq> []" | (bad) "length ?s \<le> 253" "?s \<noteq> []" "dst \<noteq> []" "getlens [] 0 ?s = []"
    | (good) "length ?s \<le> 253" "?s \<noteq> []" "dst \<noteq> []" "getlens [] 0 ?s \<noteq> []" by force
  then show ?thesis
  proof cases
    case long
    have "\<not> length (strip_dot src) \<le> 253" if "length ?s > 253"
    proof -
      have "length ?s \<le> length (strip_dot src)"
        by (cases "length src \<le> 255") (auto simp: strip_dot_def min_def)
      then show ?thesis using that by simp
    qed
    then show ?thesis unfolding run using long by auto
  next
    case empty
    then have t: "take 1 (dst[0 := 0]) = [0]" by (cases dst) simp_all
    have "name_at (msg @ [0]) (length msg) 1 [] 1" by (rule name_at.root) (simp add: byte_at_def)
    then have "dn_expand (msg @ [0]) (length msg) 254 = Some (1, [])"
      using dn_expand_name [of "msg @ [0]" "length msg" 1 "[]" 1] names by (simp add: names_ok_def)
    moreover have "names_ok (msg @ [0]) ps" using names_ok_extend(1) [OF names, of "[0]"] by simp
    ultimately show ?thesis unfolding run using empty t short by simp
  next
    case bad
    have "\<not> (\<exists>ls. (\<forall>l \<in> set ls. label_ok l) \<and> strip_dot src = dotted ls)"
      using bad short getlens_all [of _ "[]"] by (metis append_Nil dotted.simps(1) map_is_Nil_conv)
    then show ?thesis unfolding run using bad by auto
  next
    case good
    obtain sl where sl: "sl \<noteq> []" "\<forall>l \<in> set sl. label_ok l" "?s = dotted sl" "getlens [] 0 ?s = map length sl"
      using getlens_name [of ?s] good by auto
    obtain best where best: "best_match msg (dotted sl) (map length sl) ps 0 (0, 0) = Some best" "matches msg ((length msg + 1) div 2) sl best"
    proof -
      have "matches msg ((length msg + 1) div 2) sl (0, 0)" by (simp add: matches_def)
      then show thesis using that best_match_matches [OF names sl(1) refl, of "(0, 0)" 0] by blast
    qed
    have run': "dn_comp msg src (length msg) dst (Some ps) cap =
      map_option (\<lambda>(r, dst). (r, dst, if r < 0 then Some ps else save_pointer (Some ps) cap (length msg) r)) (dn_encode (dotted sl) (map length sl) dst best)"
      unfolding run using good sl best by simp
    have s: "strip_dot src = dotted sl" "length (dotted sl) \<le> 253" "bytes_ok (dotted sl)" using short good(1) sl(3) bytes by auto
    from dn_encode_name [OF names sl(1,2) s(2,3) best(2), of dst] show ?thesis
    proof (elim disjE exE conjE)
      assume "dn_encode (dotted sl) (map length sl) dst best = Some (- 1, dst)" "length dst < length (dotted sl) + 2"
      then show ?thesis unfolding run' using s by auto
    next
      fix enc n assume e: "dn_encode (dotted sl) (map length sl) dst best = Some (int (length enc), enc @ drop (length enc) dst)"
        "length enc \<le> length dst" "bytes_ok enc" "name_at (msg @ enc) (length msg) n sl (length enc)" "2 * n \<le> length (msg @ enc) + 1"
      obtain ps' where p: "save_pointer (Some ps) cap (length msg) (int (length enc)) = Some ps'" "ps' = ps \<or> ps' = ps @ [length msg]"
        using save_pointer_cases [of ps cap "length msg" "int (length enc)"] by blast
      have "length sl \<le> 128" using dotted_labels [OF sl(2)] s(2) by simp
      then have "names_ok (msg @ enc) ps'" using names_ok_extend [OF names e(3)] e(4,5) p(2) by metis
      moreover have "dn_expand (msg @ enc) (length msg) 254 = Some (int (length enc), dotted sl)"
        using dn_expand_name [OF _ e(4,5) s(2)] e(3) names by (simp add: names_ok_def)
      ultimately show ?thesis unfolding run' e(1) using p(1) e(2) s(1) by simp
    qed
  qed
qed

section \<open>dns_parse\<close>

text \<open>A callback that logs the data it is given.\<close>

definition logged :: "'c dns_callback \<Rightarrow> ('c \<times> (nat \<times> nat) list) dns_callback" where
  "logged cb = (\<lambda>(c, log) rr off len. case cb c rr off len of (res, c) \<Rightarrow> (res, (c, log @ [(off, len)])))"

lemma skip_labels_bounds: "rlen < length buf \<Longrightarrow> \<exists>q. skip_labels buf rlen p = Some q \<and> p \<le> q \<and> q \<le> max p rlen"
proof (induction buf rlen p rule: skip_labels.induct)
  case (1 buf rlen p)
  show ?case
  proof (cases "p < rlen")
    case True
    then have b: "byte_at buf p = Some (buf ! p)" using 1 by (simp add: byte_at_def)
    show ?thesis
    proof (cases "1 \<le> buf ! p \<and> buf ! p \<le> 127")
      case T: True
      then obtain q where "skip_labels buf rlen (p + 1) = Some q" "p + 1 \<le> q" "q \<le> max (p + 1) rlen"
        using "1.IH" [OF True b] 1 by auto
      then show ?thesis using True T b by (subst skip_labels.simps) auto
    qed (use True b in \<open>subst skip_labels.simps, auto\<close>)
  qed (subst skip_labels.simps, simp)
qed

lemma name_end_bounds:
  assumes "rlen + 12 \<le> length buf" "p \<le> rlen + 10"
  shows "name_end buf rlen p = Some (Inl (- 1)) \<or> (\<exists>q b. name_end buf rlen p = Some (Inr (q, b)) \<and> q + 6 \<le> rlen)"
proof -
  obtain q where q: "skip_labels buf rlen p = Some q" "q \<le> max p rlen" using skip_labels_bounds [of rlen buf p] assms by auto
  then have "q + 1 < length buf" using assms by (simp add: max_def split: if_splits)
  then show ?thesis using q by (auto simp: name_end_def byte_at_def)
qed

lemma dns_questions_bounds: "rlen + 12 \<le> length buf \<Longrightarrow> p \<le> rlen \<Longrightarrow>
    (\<exists>e. dns_questions buf rlen n p = Some (Inl e)) \<or> (\<exists>q. dns_questions buf rlen n p = Some (Inr q) \<and> q \<le> rlen)"
proof (induction n arbitrary: p)
  case (Suc n)
  have "p \<le> rlen + 10" using Suc.prems(2) by simp
  from name_end_bounds [OF Suc.prems(1) this] show ?case
  proof (elim disjE exE conjE)
    fix q b assume "name_end buf rlen p = Some (Inr (q, b))" "q + 6 \<le> rlen"
    then show ?case using Suc.IH [OF Suc.prems(1), of "q + 5 + (if b \<noteq> 0 then 1 else 0)"] by simp
  qed simp
qed simp

lemma dns_answers_bounds: "rlen + 12 \<le> length buf \<Longrightarrow> p \<le> rlen + 10 \<Longrightarrow> \<forall>(off, len) \<in> set log. off + len \<le> rlen + 10 \<Longrightarrow>
    \<exists>r c' log'. dns_answers (logged cb) buf rlen n p (c, log) = Some (r, (c', log')) \<and> (\<forall>(off, len) \<in> set log'. off + len \<le> rlen + 10)"
proof (induction n arbitrary: p c log)
  case (Suc n)
  from name_end_bounds [OF Suc.prems(1,2)] show ?case
  proof (elim disjE exE conjE)
    fix q b assume q: "name_end buf rlen p = Some (Inr (q, b))" "q + 6 \<le> rlen"
    let ?p = "q + 1 + (if b \<noteq> 0 then 1 else 0)"
    let ?len = "buf ! (?p + 8) * 256 + buf ! (?p + 9)"
    obtain res c' where cb: "cb c (buf ! (?p + 1)) (?p + 10) ?len = (res, c')" by (cases "cb c (buf ! (?p + 1)) (?p + 10) ?len")
    have b: "byte_at buf (?p + i) = Some (buf ! (?p + i))" if "i \<le> 9" for i
      using that q Suc.prems(1) by (simp add: byte_at_def)
    have e: "dns_answers (logged cb) buf rlen (Suc n) p (c, log) =
        (if ?p + ?len > rlen then Some (- 1, (c, log))
         else if res < 0 then Some (- 1, (c', log @ [(?p + 10, ?len)]))
         else dns_answers (logged cb) buf rlen n (?p + 10 + ?len) (c', log @ [(?p + 10, ?len)]))"
      using q b [of 1] b [of 8] b [of 9] cb by (simp add: Let_def logged_def)
    show ?case
    proof (cases "?p + ?len > rlen")
      case True
      then show ?thesis unfolding e using Suc.prems(3) by auto
    next
      case False
      have l: "\<forall>(off, len) \<in> set (log @ [(?p + 10, ?len)]). off + len \<le> rlen + 10" using Suc.prems(3) False by auto
      show ?thesis
      proof (cases "res < 0")
        case True
        then show ?thesis unfolding e using False l by auto
      next
        case r: False
        show ?thesis unfolding e if_not_P [OF False] if_not_P [OF r]
          by (rule Suc.IH) (use Suc.prems(1) False l in auto)
      qed
    qed
  qed (use Suc.prems(3) in auto)
qed simp

section \<open>Properties\<close>

text \<open>C26.  dn_expand on any message, also a hostile one, returns without an access outside the message or the
  destination; a result that is not negative is the length of an encoded name at \<open>src\<close>, and the destination gets the
  labels of this name with dots between them; and every name that fits the destination, and that is
  reached in as many steps as half the bytes of the message, is found.\<close>

theorem dn_expand_spec:
  assumes "bytes_ok msg" "src < length msg" "0 < space"
  shows "\<exists>r out. dn_expand msg src space = Some (r, out) \<and>
    (0 \<le> r \<longrightarrow> (\<exists>n ls. name_at msg src n ls (nat r) \<and> out = dotted ls \<and> int (length out) < min 254 space)) \<and>
    (\<forall>n ls w. name_at msg src n ls w \<and> n \<le> (length msg + 1) div 2 \<and> int (length (dotted ls)) < min 254 space \<longrightarrow>
      r = int w \<and> out = dotted ls)"
proof -
  have "joined [] ls = dotted ls" for ls by (simp add: joined_def)
  moreover have "k < nat (min 254 space) \<longleftrightarrow> int k < min 254 space" for k by linarith
  ultimately show ?thesis using dn_expand_contract [OF assms] unfolding expands_def by (metis nat_int)
qed

theorem dn_expand_spec_witness:
  "dn_expand [1, 97, 0, 1, 98, 192, 0] 3 254 = Some (4, [98, 46, 97]) \<and>
    (\<exists>n ls. name_at [1, 97, 0, 1, 98, 192, 0] 3 n ls 4 \<and> [98, 46, 97] = dotted ls)"
proof -
  let ?msg = "[1, 97, 0, 1, 98, 192, 0::nat]"
  have run: "dn_expand ?msg 3 254 = Some (4, [98, 46, 97])"
    by (simp add: dn_expand_def expand_round_numeral expand_round byte_at_def pointer_target_def put_byte_def Let_def)
  have ok: "bytes_ok ?msg" "3 < length ?msg" by simp_all
  obtain r out where "dn_expand ?msg 3 254 = Some (r, out)"
      "0 \<le> r \<longrightarrow> (\<exists>n ls. name_at ?msg 3 n ls (nat r) \<and> out = dotted ls \<and> int (length out) < min 254 254)"
    using dn_expand_spec [OF ok, of 254] by auto
  then show ?thesis using run by auto
qed

text \<open>C27.  What dn_comp writes at the end of a message whose earlier names are in order, compressed against these, is read
  back by dn_expand as the argument without its final dot, and the message with the new pointer is in order again; dn_comp
  fails only when the name is not one of labels of 1 to 63 bytes and at most 253 bytes in all, or when the destination is
  shorter than the name and two bytes.\<close>

theorem dn_comp_roundtrip:
  assumes "names_ok msg ps" "bytes_ok src"
  shows "\<exists>r dst' ps'. dn_comp msg src (length msg) dst (Some ps) cap = Some (r, dst', Some ps') \<and> length dst' = length dst \<and>
    (0 \<le> r \<longrightarrow> names_ok (msg @ take (nat r) dst') ps' \<and>
      dn_expand (msg @ take (nat r) dst') (length msg) 254 = Some (r, strip_dot src)) \<and>
    (r < 0 \<longrightarrow> \<not> (\<exists>ls. (\<forall>l \<in> set ls. label_ok l) \<and> strip_dot src = dotted ls \<and> length (dotted ls) \<le> 253 \<and>
      length (dotted ls) + 2 \<le> length dst))"
  by (rule dn_comp_contract [OF assms])

lemma sample_name: "name_at [1, 97, 0] 0 2 [[97]] 3"
proof -
  have "name_at [1, 97, 0] (0 + 1 + 1) 1 [] 1" by (rule name_at.root) (simp add: byte_at_def)
  from name_at.label [OF _ _ _ _ this] show ?thesis by (simp add: byte_at_def eval_nat_numeral)
qed

theorem dn_comp_roundtrip_witness:
  "dn_comp [1, 97, 0] [98, 46, 97, 46] 3 [0, 0, 0, 0, 0] (Some [0]) (Some 8) = Some (4, [1, 98, 192, 0, 0], Some [0, 3]) \<and>
    dn_expand ([1, 97, 0] @ take 4 [1, 98, 192, 0, 0]) 3 254 = Some (4, [98, 46, 97])"
proof -
  have "\<exists>n ls w. name_at [1, 97, 0] 0 n ls w \<and> 2 * n \<le> length [1, 97, 0::nat] + 1 \<and> length ls \<le> 128"
    by (rule exI [of _ 2], rule exI [of _ "[[97]]"], rule exI [of _ 3]) (simp add: sample_name [simplified])
  then have ok: "names_ok [1, 97, 0] [0]" by (simp add: names_ok_def)
  have run: "dn_comp [1, 97, 0] [98, 46, 97, 46] 3 [0, 0, 0, 0, 0] (Some [0]) (Some 8) = Some (4, [1, 98, 192, 0, 0], Some [0, 3])"
    by (simp add: dn_comp_def Let_def szsub_def match_def match_loop.simps byte_at_def dn_encode_def put_lengths.simps save_pointer_def)
  have len: "length [1, 97, 0::nat] = 3" by simp
  have src: "bytes_ok [98, 46, 97, 46]" by simp
  obtain r dst' ps' where "dn_comp [1, 97, 0] [98, 46, 97, 46] 3 [0, 0, 0, 0, 0] (Some [0]) (Some 8) = Some (r, dst', Some ps')"
      "0 \<le> r \<longrightarrow> dn_expand ([1, 97, 0] @ take (nat r) dst') 3 254 = Some (r, strip_dot [98, 46, 97, 46])"
    using dn_comp_roundtrip [OF ok src, of "[0, 0, 0, 0, 0]" "Some 8", unfolded len] by blast
  then show ?thesis using run by (auto simp: strip_dot_def)
qed

text \<open>C28.  __dns_parse returns and reads nothing further than 12 bytes after the reply, and the data it passes to its
  callback end at most 10 bytes after the reply.\<close>

theorem dns_parse_bounds:
  assumes "rlen + 12 \<le> length buf"
  shows "\<exists>r ctx' log. dns_parse (logged cb) buf rlen (ctx, []) = Some (r, (ctx', log)) \<and>
    (\<forall>(off, len) \<in> set log. off + len \<le> rlen + 10)"
proof -
  have "\<exists>r c' log'. dns_answers (logged cb) buf rlen n p (ctx, []) = Some (r, (c', log')) \<and> (\<forall>(off, len) \<in> set log'. off + len \<le> rlen + 10)"
    if "p \<le> rlen" for n p using dns_answers_bounds [OF assms, of p "[]" cb n ctx] that by simp
  then show ?thesis using dns_questions_bounds [OF assms, of 12 "buf ! 4 * 256 + buf ! 5"]
    unfolding dns_parse_def Let_def by (cases "rlen < 12") (auto simp: not_less)
qed

theorem dns_parse_bounds_witness:
  "\<exists>r ctx' log. dns_parse (logged (\<lambda>_ _ _ _. (0, ()))) (replicate 36 0) 24 ((), []) = Some (r, (ctx', log))"
  using dns_parse_bounds [of 24 "replicate 36 0" "\<lambda>_ _ _ _. (0, ())" "()"] by auto

text \<open>The length of a record is checked against the end of the reply from the start of its fixed fields and not from
  their end: there is a reply of 24 bytes for which the callback is told of data up to 8 bytes after it.\<close>

theorem dns_parse_overrun:
  "\<exists>buf log. length buf = 36 \<and> dns_parse (logged (\<lambda>_ _ _ _. (0, ()))) buf 24 ((), []) = Some (0, ((), log)) \<and>
    log = [(24, 8)]"
proof -
  let ?buf = "[0, 0, 0, 0, 0, 0, 0, 1, 0, 0, 0, 0, 192, 12, 0, 1, 0, 1, 0, 0, 0, 0, 0, 8] @ replicate 12 (0::nat)"
  have "dns_parse (logged (\<lambda>_ _ _ _. (0, ()))) ?buf 24 ((), []) = Some (0, ((), [(24, 8)]))"
    by (simp add: dns_parse_def Let_def name_end_def skip_labels.simps byte_at_def logged_def eval_nat_numeral)
  then show ?thesis by (intro exI [of _ ?buf]) simp
qed

end
