(* ===== verification/Intscan.thy ===== *)
theory Intscan
  imports Prelude
begin

text \<open>
  Integers in strings: __intscan (libc-top-half/musl/src/internal/intscan.c) on a string, and the
  functions over it, strtol, strtoul, strtoll, strtoull, strtoimax and strtoumax (stdlib/strtol.c).

  A string is the list of its bytes before the NUL, and the stream over it the suffix that begins
  with the character \<open>c\<close> read last, which is 0 at the end: each path of the code pushes \<open>c\<close> back before it
  returns, so that the suffix is where the stream stays.
\<close>

abbreviation UINT_MAX :: nat where "UINT_MAX \<equiv> 0xffffffff"
abbreviation ULLONG_MAX :: nat where "ULLONG_MAX \<equiv> 0xffffffffffffffff"

definition cur :: "nat list \<Rightarrow> nat" where
  "cur s = (case s of [] \<Rightarrow> 0 | c # cs \<Rightarrow> c)"

text \<open>The tests \<open>(unsigned)c-'\\t' < 5\<close> and \<open>c-'0' < 10U\<close>, on bytes.\<close>

definition isspace :: "nat \<Rightarrow> bool" where
  "isspace c \<longleftrightarrow> c = 32 \<or> (9 \<le> c \<and> c - 9 < 5)"

text \<open>The table of digit values.\<close>

definition digit_val :: "nat \<Rightarrow> nat" where
  "digit_val c = (if 48 \<le> c \<and> c \<le> 57 then c - 48 else if 65 \<le> c \<and> c \<le> 90 then c - 55
     else if 97 \<le> c \<and> c \<le> 122 then c - 87 else 255)"

text \<open>\<open>for (x=...; ok; c=shgetc(f)) x = nxt;\<close>\<close>

fun scan_while :: "(nat \<Rightarrow> nat \<Rightarrow> bool) \<Rightarrow> (nat \<Rightarrow> nat \<Rightarrow> nat) \<Rightarrow> nat list \<Rightarrow> nat \<Rightarrow> nat list \<times> nat" where
  "scan_while ok nxt [] x = ([], x)"
| "scan_while ok nxt (c # cs) x = (if ok c x then scan_while ok nxt cs (nxt c x) else (c # cs, x))"

definition is_decimal :: "nat \<Rightarrow> bool" where
  "is_decimal c \<longleftrightarrow> 48 \<le> c \<and> c - 48 < 10"

definition scan_decimal :: "nat list \<Rightarrow> nat list \<times> nat" where
  "scan_decimal s =
     (case scan_while (\<lambda>c x. is_decimal c \<and> x \<le> UINT_MAX div 10 - 1) (\<lambda>c x. (x * 10 + (c - 48)) mod 2 ^ 32) s 0 of
       (s, x) \<Rightarrow>
         scan_while (\<lambda>c y. is_decimal c \<and> y \<le> ULLONG_MAX div 10 \<and> 10 * y \<le> ULLONG_MAX - (c - 48))
           (\<lambda>c y. (y * 10 + (c - 48)) mod 2 ^ 64) s x)"

definition log_base :: "nat \<Rightarrow> nat" where
  "log_base base = [0, 1, 2, 4, 7, 3, 6, 5] ! (drop_bit 5 (0x17 * base) AND 7)"

definition scan_power :: "nat \<Rightarrow> nat list \<Rightarrow> nat list \<times> nat" where
  "scan_power base s = (let bs = log_base base in
     case scan_while (\<lambda>c x. digit_val c < base \<and> x \<le> UINT_MAX div 32) (\<lambda>c x. (push_bit bs x OR digit_val c) mod 2 ^ 32) s 0 of
       (s, x) \<Rightarrow>
         scan_while (\<lambda>c y. digit_val c < base \<and> y \<le> drop_bit bs ULLONG_MAX) (\<lambda>c y. (push_bit bs y OR digit_val c) mod 2 ^ 64) s x)"

definition scan_other :: "nat \<Rightarrow> nat list \<Rightarrow> nat list \<times> nat" where
  "scan_other base s =
     (case scan_while (\<lambda>c x. digit_val c < base \<and> x \<le> UINT_MAX div 36 - 1) (\<lambda>c x. (x * base + digit_val c) mod 2 ^ 32) s 0 of
       (s, x) \<Rightarrow>
         scan_while (\<lambda>c y. digit_val c < base \<and> y \<le> ULLONG_MAX div base \<and> base * y \<le> ULLONG_MAX - digit_val c)
           (\<lambda>c y. (y * base + digit_val c) mod 2 ^ 64) s x)"

text \<open>
  The results: the value, an unsigned long long, where the stream stays (\<open>None\<close> when shlim has set its count to
  zero, so that nothing counts as read), and errno when it is set.
\<close>

type_synonym scanned = "nat \<times> nat list option \<times> errno option"

definition negated :: "bool \<Rightarrow> nat \<Rightarrow> nat" where
  "negated neg y = (if neg then (2 ^ 64 - y) mod 2 ^ 64 else y)"

definition scan_result :: "nat \<Rightarrow> bool \<Rightarrow> nat \<Rightarrow> nat list \<Rightarrow> errno option \<Rightarrow> scanned" where
  "scan_result lim neg y s err =
     (if y \<ge> lim then
        if even lim \<and> \<not> neg then (lim - 1, Some s, Some ERANGE)
        else if y > lim then (lim, Some s, Some ERANGE)
        else (negated neg y, Some s, err)
      else (negated neg y, Some s, err))"

definition scan_digits :: "nat \<Rightarrow> nat \<Rightarrow> bool \<Rightarrow> nat list \<Rightarrow> scanned" where
  "scan_digits base lim neg s =
     (case (if base = 10 then scan_decimal s else if base AND (base - 1) = 0 then scan_power base s else scan_other base s) of
       (s, y) \<Rightarrow>
         if digit_val (cur s) < base then
           scan_result lim (neg \<and> even lim) lim (dropWhile (\<lambda>c. digit_val c < base) s) (Some ERANGE)
         else scan_result lim neg y s None)"

definition intscan :: "nat \<Rightarrow> bool \<Rightarrow> nat \<Rightarrow> nat list \<Rightarrow> scanned" where
  "intscan base pok lim s =
     (if base > 36 \<or> base = 1 then (0, Some s, Some EINVAL)
      else
        let s = dropWhile isspace s;
            neg = (cur s = 45);
            s = (if cur s = 43 \<or> cur s = 45 then tl s else s)
        in if (base = 0 \<or> base = 16) \<and> cur s = 48 then
             let s = tl s in
             if cur s OR 32 = 120 then
               if digit_val (cur (tl s)) \<ge> 16 then (0, if pok then Some s else None, None)
               else scan_digits 16 lim neg (tl s)
             else scan_digits (if base = 0 then 8 else base) lim neg s
           else
             let base = (if base = 0 then 10 else base) in
             if digit_val (cur s) \<ge> base then (0, None, Some EINVAL)
             else scan_digits base lim neg s)"

section \<open>strtol and its relatives\<close>

text \<open>The value, the suffix that \<open>*p\<close> is set to, and errno.\<close>

definition strtox :: "nat list \<Rightarrow> nat \<Rightarrow> nat \<Rightarrow> nat \<times> nat list \<times> errno option" where
  "strtox s base lim = (case intscan base True lim s of (y, p, e) \<Rightarrow> (y, case p of Some r \<Rightarrow> r | None \<Rightarrow> s, e))"

text \<open>The conversions of the result to an unsigned and to a signed type of \<open>w\<close> bits.\<close>

definition to_unsigned :: "nat \<Rightarrow> nat \<Rightarrow> int" where
  "to_unsigned w y = int (y mod 2 ^ w)"

definition to_signed :: "nat \<Rightarrow> nat \<Rightarrow> int" where
  "to_signed w y = (let z = y mod 2 ^ w in if z < 2 ^ (w - 1) then int z else int z - 2 ^ w)"

definition strtoull :: "nat list \<Rightarrow> nat \<Rightarrow> int \<times> nat list \<times> errno option" where
  "strtoull s base = apfst (to_unsigned 64) (strtox s base ULLONG_MAX)"

definition strtoll :: "nat list \<Rightarrow> nat \<Rightarrow> int \<times> nat list \<times> errno option" where
  "strtoll s base = apfst (to_signed 64) (strtox s base (2 ^ 63))"

definition strtoul :: "nat list \<Rightarrow> nat \<Rightarrow> int \<times> nat list \<times> errno option" where
  "strtoul s base = apfst (to_unsigned 32) (strtox s base (2 ^ 32 - 1))"

definition strtol :: "nat list \<Rightarrow> nat \<Rightarrow> int \<times> nat list \<times> errno option" where
  "strtol s base = apfst (to_signed 32) (strtox s base (2 ^ 31))"

definition strtoimax :: "nat list \<Rightarrow> nat \<Rightarrow> int \<times> nat list \<times> errno option" where
  "strtoimax s base = strtoll s base"

definition strtoumax :: "nat list \<Rightarrow> nat \<Rightarrow> int \<times> nat list \<times> errno option" where
  "strtoumax s base = strtoull s base"

end
