(* ===== verification/Intscan_Theorems.thy ===== *)
theory Intscan_Theorems
  imports Intscan
begin

text \<open>
  The value of a string of digits, and that the functions of strtol.c compute it, or its limits, whatever
  the number of digits.
\<close>

section \<open>Digits\<close>

definition digits_in :: "nat \<Rightarrow> nat list \<Rightarrow> bool" where
  "digits_in b ds \<longleftrightarrow> (\<forall>c \<in> set ds. digit_val c < b)"

definition value_from :: "nat \<Rightarrow> nat \<Rightarrow> nat list \<Rightarrow> nat" where
  "value_from b x ds = foldl (\<lambda>v c. v * b + digit_val c) x ds"

abbreviation digits_value :: "nat \<Rightarrow> nat list \<Rightarrow> nat" where
  "digits_value b ds \<equiv> value_from b 0 ds"

lemma value_simps [simp]: "value_from b x [] = x" "value_from b x (c # ds) = value_from b (x * b + digit_val c) ds"
  "value_from b x (ds @ es) = value_from b (value_from b x ds) es"
  by (simp_all add: value_from_def)

lemma value_mono: "0 < b \<Longrightarrow> x \<le> value_from b x ds"
proof (induction ds arbitrary: x)
  case (Cons c ds)
  have "x \<le> x * b + digit_val c" using Cons.prems by (cases b) auto
  also have "\<dots> \<le> value_from b x (c # ds)" using Cons by simp
  finally show ?case .
qed simp

lemma digit_val_bound: "digit_val c < 36 \<or> digit_val c = 255"
  by (auto simp: digit_val_def)

lemma digit_not_special: "digit_val c < 36 \<Longrightarrow> \<not> isspace c \<and> c \<noteq> 43 \<and> c \<noteq> 45 \<and> 48 \<le> c"
  by (auto simp: digit_val_def isspace_def split: if_splits)

lemma is_decimal_iff: "is_decimal c \<longleftrightarrow> digit_val c < 10"
  by (auto simp: is_decimal_def digit_val_def)

lemma decimal_val: "digit_val c < 10 \<Longrightarrow> c - 48 = digit_val c"
  by (auto simp: digit_val_def split: if_splits)

section \<open>The loops\<close>

text \<open>A loop over digits that computes the value of those it reads, and what is left when it stops.\<close>

lemma scan_while_value:
  assumes "\<And>c x. digit_val c < b \<Longrightarrow> ok c x \<Longrightarrow> nxt c x = x * b + digit_val c"
    and "\<And>c x. ok c x \<Longrightarrow> digit_val c < b" and "digits_in b ds" "rest = [] \<or> \<not> digit_val (hd rest) < b"
  shows "\<exists>d1 d2. ds = d1 @ d2 \<and> scan_while ok nxt (ds @ rest) x = (d2 @ rest, value_from b x d1) \<and>
    (d2 = [] \<or> \<not> ok (hd d2) (value_from b x d1))"
  using assms(3)
proof (induction ds arbitrary: x)
  case Nil
  have "scan_while ok nxt rest x = (rest, x)" using assms(2,4) by (cases rest) auto
  then show ?case by simp
next
  case (Cons c ds)
  have c: "digit_val c < b" "digits_in b ds" using Cons.prems by (auto simp: digits_in_def)
  show ?case
  proof (cases "ok c x")
    case True
    obtain d1 d2 where "ds = d1 @ d2" "scan_while ok nxt (ds @ rest) (nxt c x) = (d2 @ rest, value_from b (nxt c x) d1)"
        "d2 = [] \<or> \<not> ok (hd d2) (value_from b (nxt c x) d1)"
      using Cons.IH [OF c(2)] by blast
    then show ?thesis using True assms(1) [OF c(1) True] by (intro exI [of _ "c # d1"] exI [of _ d2]) simp
  next
    case False
    then show ?thesis by (intro exI [of _ "[]"] exI [of _ "c # ds"]) simp
  qed
qed

text \<open>What the two loops of each case compute: the value, or they stop at a digit that makes it too large.\<close>

definition scans :: "nat \<Rightarrow> nat list \<Rightarrow> nat list \<Rightarrow> nat list \<times> nat \<Rightarrow> bool" where
  "scans b ds rest r \<longleftrightarrow> (\<exists>d2. digits_in b d2 \<and> fst r = d2 @ rest \<and>
     (if d2 = [] then snd r = digits_value b ds \<and> snd r \<le> ULLONG_MAX else ULLONG_MAX < digits_value b ds))"

lemma scan_while_bound:
  "x \<le> ULLONG_MAX \<Longrightarrow> (\<And>c x. ok c x \<Longrightarrow> nxt c x \<le> ULLONG_MAX) \<Longrightarrow> snd (scan_while ok nxt s x) \<le> ULLONG_MAX"
  by (induction ok nxt s x rule: scan_while.induct) auto

lemma two_loops:
  assumes "0 < b"
    and l1: "\<And>c x. digit_val c < b \<Longrightarrow> ok1 c x \<Longrightarrow> nxt1 c x = x * b + digit_val c \<and> nxt1 c x \<le> ULLONG_MAX" "\<And>c x. ok1 c x \<Longrightarrow> digit_val c < b"
    and l2: "\<And>c x. digit_val c < b \<Longrightarrow> ok2 c x \<Longrightarrow> nxt2 c x = x * b + digit_val c \<and> nxt2 c x \<le> ULLONG_MAX" "\<And>c x. ok2 c x \<Longrightarrow> digit_val c < b"
    and stop: "\<And>c x. digit_val c < b \<Longrightarrow> x \<le> ULLONG_MAX \<Longrightarrow> \<not> ok2 c x \<Longrightarrow> ULLONG_MAX < x * b + digit_val c"
    and ds: "digits_in b ds" "rest = [] \<or> \<not> digit_val (hd rest) < b"
  shows "scans b ds rest (case scan_while ok1 nxt1 (ds @ rest) 0 of (s, x) \<Rightarrow> scan_while ok2 nxt2 s x)"
proof -
  obtain d1 d2 where 1: "ds = d1 @ d2" "scan_while ok1 nxt1 (ds @ rest) 0 = (d2 @ rest, value_from b 0 d1)"
    using scan_while_value [of b ok1 nxt1 ds rest 0] l1 ds by blast
  have d2: "digits_in b d2" using ds 1 by (auto simp: digits_in_def)
  obtain d3 d4 where 2: "d2 = d3 @ d4" "scan_while ok2 nxt2 (d2 @ rest) (value_from b 0 d1) = (d4 @ rest, value_from b (value_from b 0 d1) d3)"
      "d4 = [] \<or> \<not> ok2 (hd d4) (value_from b (value_from b 0 d1) d3)"
    using scan_while_value [of b ok2 nxt2 d2 rest "value_from b 0 d1"] l2 d2 ds(2) by blast
  have n1: "nxt1 c x \<le> ULLONG_MAX" if "ok1 c x" for c x using l1(1) [OF l1(2) [OF that] that] by blast
  have n2: "nxt2 c x \<le> ULLONG_MAX" if "ok2 c x" for c x using l2(1) [OF l2(2) [OF that] that] by blast
  have "value_from b 0 d1 \<le> ULLONG_MAX" using scan_while_bound [of 0 ok1 nxt1 "ds @ rest"] n1 1(2) by simp
  then have small: "value_from b (value_from b 0 d1) d3 \<le> ULLONG_MAX"
    using scan_while_bound [of "value_from b 0 d1" ok2 nxt2 "d2 @ rest"] n2 2(2) by simp
  have "ULLONG_MAX < digits_value b ds" if ne: "d4 \<noteq> []"
  proof -
    obtain c cs where c: "d4 = c # cs" using ne by (cases d4) auto
    let ?y = "value_from b (value_from b 0 d1) d3"
    have "digit_val c < b" "\<not> ok2 c ?y" using d2 2 c by (auto simp: digits_in_def)
    then have "ULLONG_MAX < ?y * b + digit_val c" using stop small by blast
    also have "\<dots> \<le> value_from b (?y * b + digit_val c) cs" by (rule value_mono [OF assms(1)])
    also have "\<dots> = digits_value b ds" using 1 2 c by simp
    finally show ?thesis .
  qed
  moreover have "digits_in b d4" using d2 2(1) by (auto simp: digits_in_def)
  ultimately show ?thesis using 1 2 small by (auto simp: scans_def intro!: exI [of _ d4])
qed

lemma scan_decimal_value:
  assumes "digits_in 10 ds" "rest = [] \<or> \<not> digit_val (hd rest) < 10"
  shows "scans 10 ds rest (scan_decimal (ds @ rest))"
  unfolding scan_decimal_def
  by (rule two_loops) (use assms in \<open>auto simp: is_decimal_iff decimal_val\<close>)

lemma scan_other_value:
  assumes "1 < b" "b \<le> 36" "digits_in b ds" "rest = [] \<or> \<not> digit_val (hd rest) < b"
  shows "scans b ds rest (scan_other b (ds @ rest))"
  unfolding scan_other_def
proof (rule two_loops)
  show "0 < b" using assms by simp
  show "(x * b + digit_val c) mod 2 ^ 32 = x * b + digit_val c \<and> (x * b + digit_val c) mod 2 ^ 32 \<le> ULLONG_MAX"
    if "digit_val c < b" "digit_val c < b \<and> x \<le> UINT_MAX div 36 - 1" for c x
  proof -
    have "x * b \<le> (UINT_MAX div 36 - 1) * 36" using that assms(2) by (intro mult_le_mono) auto
    then have "x * b + digit_val c < 2 ^ 32" using that assms(2) by simp
    then show ?thesis by simp
  qed
  show "(x * b + digit_val c) mod 2 ^ 64 = x * b + digit_val c \<and> (x * b + digit_val c) mod 2 ^ 64 \<le> ULLONG_MAX"
    if "digit_val c < b" "digit_val c < b \<and> x \<le> ULLONG_MAX div b \<and> b * x \<le> ULLONG_MAX - digit_val c" for c x
  proof -
    have "b * x \<le> ULLONG_MAX - digit_val c" "digit_val c \<le> ULLONG_MAX" using that assms(2) by auto
    then have "b * x + digit_val c \<le> ULLONG_MAX" by (simp add: le_diff_conv2)
    then show ?thesis by (simp add: mult.commute)
  qed
  show "ULLONG_MAX < x * b + digit_val c"
    if "digit_val c < b" "\<not> (digit_val c < b \<and> x \<le> ULLONG_MAX div b \<and> b * x \<le> ULLONG_MAX - digit_val c)" for c x
  proof (cases "x \<le> ULLONG_MAX div b")
    case False
    then have "ULLONG_MAX < b * x" using assms(1) by (simp add: div_less_iff_less_mult mult.commute not_le)
    then show ?thesis by (simp add: mult.commute)
  qed (use that in \<open>simp add: mult.commute\<close>)
qed (use assms in auto)

lemma power_base:
  fixes b :: nat
  assumes "1 < b" "b \<le> 36" "b AND (b - 1) = 0"
  shows "b = 2 ^ log_base b" "b \<le> 32" "UINT_MAX div 32 * b + b \<le> 2 ^ 32" "ULLONG_MAX div b * b + b = 2 ^ 64"
proof -
  have "b \<in> set [2..<37]" unfolding set_upt atLeastLessThan_iff using assms by simp
  moreover have "\<forall>b \<in> set [2..<37]. b AND (b - 1) = 0 \<longrightarrow> b \<in> {2, 4, 8, 16, 32}" by (simp add: upt_rec)
  ultimately have "b \<in> {2, 4, 8, 16, 32}" using assms(3) by blast
  then show "b = 2 ^ log_base b" "b \<le> 32" "UINT_MAX div 32 * b + b \<le> 2 ^ 32" "ULLONG_MAX div b * b + b = 2 ^ 64"
    by (auto simp: log_base_def drop_bit_eq_div)
qed

lemma scan_power_value:
  assumes "1 < b" "b \<le> 36" "b AND (b - 1) = 0" "digits_in b ds" "rest = [] \<or> \<not> digit_val (hd rest) < b"
  shows "scans b ds rest (scan_power b (ds @ rest))"
proof -
  let ?k = "log_base b"
  note b = power_base [OF assms(1-3)]
  have shift: "push_bit ?k x OR digit_val c = x * b + digit_val c" if "digit_val c < b" for c x
  proof -
    have "digit_val c < 2 ^ ?k" using that b(1) by simp
    from or_low [OF this, of x] show ?thesis using b(1) by (simp add: push_bit_eq_mult)
  qed
  have drop: "drop_bit ?k ULLONG_MAX = ULLONG_MAX div b" using b(1) by (simp only: drop_bit_eq_div)
  show ?thesis unfolding scan_power_def Let_def drop
  proof (rule two_loops)
    show "0 < b" using assms by simp
    show "(push_bit ?k x OR digit_val c) mod 2 ^ 32 = x * b + digit_val c \<and> (push_bit ?k x OR digit_val c) mod 2 ^ 32 \<le> ULLONG_MAX"
      if "digit_val c < b" "digit_val c < b \<and> x \<le> UINT_MAX div 32" for c x
    proof -
      have "x * b \<le> (UINT_MAX div 32) * b" using that by (intro mult_le_mono) auto
      then have "x * b + digit_val c < 2 ^ 32" using that b(3) by linarith
      then show ?thesis unfolding shift [OF that(1)] by simp
    qed
    show "(push_bit ?k x OR digit_val c) mod 2 ^ 64 = x * b + digit_val c \<and> (push_bit ?k x OR digit_val c) mod 2 ^ 64 \<le> ULLONG_MAX"
      if "digit_val c < b" "digit_val c < b \<and> x \<le> ULLONG_MAX div b" for c x
    proof -
      have "x * b \<le> ULLONG_MAX div b * b" using that by (intro mult_le_mono) auto
      then have "x * b + digit_val c < 2 ^ 64" using that b(4) by linarith
      then show ?thesis unfolding shift [OF that(1)] by simp
    qed
    show "ULLONG_MAX < x * b + digit_val c"
      if "digit_val c < b" "\<not> (digit_val c < b \<and> x \<le> ULLONG_MAX div b)" for c x
    proof -
      have "ULLONG_MAX div b < x" using that by simp
      then have "ULLONG_MAX < x * b" using assms(1) by (simp only: div_less_iff_less_mult)
      then show ?thesis by simp
    qed
  qed (use assms in auto)
qed

section \<open>The whole function\<close>

lemma scan_digits_value:
  assumes "1 < b" "b \<le> 36" "digits_in b ds" "rest = [] \<or> \<not> digit_val (hd rest) < b"
  shows "scan_digits b lim neg (ds @ rest) =
    (if digits_value b ds \<le> ULLONG_MAX then scan_result lim neg (digits_value b ds) rest None
     else scan_result lim (neg \<and> even lim) lim rest (Some ERANGE))"
proof -
  let ?r = "if b = 10 then scan_decimal (ds @ rest) else if b AND (b - 1) = 0 then scan_power b (ds @ rest) else scan_other b (ds @ rest)"
  have "scans b ds rest ?r"
    using scan_decimal_value scan_power_value scan_other_value assms by auto
  moreover obtain s' y where r: "?r = (s', y)" by (cases ?r)
  ultimately obtain d2 where d2: "digits_in b d2" "s' = d2 @ rest"
      "if d2 = [] then y = digits_value b ds \<and> y \<le> ULLONG_MAX else ULLONG_MAX < digits_value b ds"
    unfolding scans_def r fst_conv snd_conv by blast
  have sd: "scan_digits b lim neg (ds @ rest) =
      (if digit_val (cur s') < b then scan_result lim (neg \<and> even lim) lim (dropWhile (\<lambda>c. digit_val c < b) s') (Some ERANGE)
       else scan_result lim neg y s' None)"
    unfolding scan_digits_def r by simp
  have end_rest: "\<not> digit_val (cur rest) < b" using assms(2,4) by (cases rest) (auto simp: cur_def digit_val_def)
  show ?thesis
  proof (cases d2)
    case Nil
    then show ?thesis unfolding sd using d2(2,3) end_rest by simp
  next
    case (Cons c cs)
    have c: "digit_val (cur (d2 @ rest)) < b" using Cons d2(1) by (simp add: cur_def digits_in_def)
    have "dropWhile (\<lambda>c. digit_val c < b) rest = rest" using assms(4) by (cases rest) auto
    then have "dropWhile (\<lambda>c. digit_val c < b) (d2 @ rest) = rest"
      using d2(1) by (simp add: digits_in_def dropWhile_append2)
    then show ?thesis unfolding sd using d2(2,3) c Cons by simp
  qed
qed

text \<open>
  How the base of a text is found: \<open>pre\<close> is the prefix and \<open>tail\<close> begins with the digits, in base \<open>b\<close>.  The prefix counts only
  when a hexadecimal digit follows it.
\<close>

definition hex_prefix :: "nat list \<Rightarrow> bool" where
  "hex_prefix s \<longleftrightarrow> length s \<ge> 3 \<and> s ! 0 = 48 \<and> (s ! 1 = 120 \<or> s ! 1 = 88) \<and> digit_val (s ! 2) < 16"

definition text_base :: "nat \<Rightarrow> nat list \<Rightarrow> nat \<Rightarrow> nat list \<Rightarrow> bool" where
  "text_base base pre b tail \<longleftrightarrow>
     (if base = 0 then
        pre \<in> {[48, 120], [48, 88]} \<and> b = 16 \<or>
        pre = [] \<and> \<not> hex_prefix tail \<and> b = (if hd tail = 48 then 8 else 10)
      else if base = 16 then b = 16 \<and> (pre \<in> {[48, 120], [48, 88]} \<or> pre = [] \<and> \<not> hex_prefix tail)
      else 1 < base \<and> base \<le> 36 \<and> pre = [] \<and> b = base)"

lemma x_char: "c OR 32 = 120 \<longleftrightarrow> c = 120 \<or> c = 88" for c :: nat
proof (cases "bit c 5")
  case True
  have "c OR 32 = c"
  proof (rule bit_eqI)
    fix n show "bit (c OR 32) n = bit c n" using True bit_exp_iff [where 'a = nat, of 5 n] by (auto simp: bit_or_iff)
  qed
  moreover have "\<not> bit (88::nat) 5" by (simp add: bit_iff_odd)
  ultimately show ?thesis using True by auto
next
  case False
  have "bit (32::nat) n \<longleftrightarrow> n = 5" for n using bit_exp_iff [where 'a = nat, of 5 n] by auto
  then have "c AND 32 = 0" by (intro bit_eqI) (use False in \<open>auto simp: bit_and_iff\<close>)
  then have "c OR 32 = c + 32" using disjunctive_add_eq_or [of c 32] by simp
  moreover have "bit (120::nat) 5" by (simp add: bit_iff_odd)
  ultimately show ?thesis using False by auto
qed

lemma sign_read:
  assumes "sg \<in> {[], [43], [45]}" "t0 \<noteq> 43" "t0 \<noteq> 45"
  shows "cur (sg @ t0 # ts) = 45 \<longleftrightarrow> sg = [45]"
    "(if cur (sg @ t0 # ts) = 43 \<or> cur (sg @ t0 # ts) = 45 then tl (sg @ t0 # ts) else sg @ t0 # ts) = t0 # ts"
  using assms by (auto simp: cur_def)

lemma intscan_value:
  assumes sp: "\<forall>c \<in> set sp. isspace c" and sg: "sg \<in> {[], [43], [45]}"
    and ds: "ds \<noteq> []" "digits_in b ds" "rest = [] \<or> \<not> digit_val (hd rest) < b"
    and base: "text_base base pre b (ds @ rest)" and "0 < lim"
  shows "intscan base True lim (sp @ sg @ pre @ ds @ rest) =
    (if digits_value b ds \<le> ULLONG_MAX then scan_result lim (sg = [45]) (digits_value b ds) rest None
     else scan_result lim (sg = [45] \<and> even lim) lim rest (Some ERANGE))"
proof -
  obtain d ds' where d: "ds = d # ds'" using ds(1) by (cases ds) auto
  have b: "1 < b" "b \<le> 36" using base by (auto simp: text_base_def split: if_splits)
  have dv: "digit_val d < b" using ds(2) d by (simp add: digits_in_def)
  note dn = digit_not_special [of d]
  have dx: "d \<noteq> 120 \<and> d \<noteq> 88" if "b \<le> 16" using dv that by (auto simp: digit_val_def split: if_splits)
  have pre: "pre = [] \<or> pre = [48, 120] \<or> pre = [48, 88]" using base by (auto simp: text_base_def split: if_splits)
  define t where "t = pre @ ds @ rest"
  have first: "\<not> isspace (hd t) \<and> hd t \<noteq> 43 \<and> hd t \<noteq> 45" "t \<noteq> []"
    using pre d dn dv b(2) unfolding t_def by (auto simp: isspace_def)
  have spaces: "dropWhile isspace (sp @ sg @ t) = sg @ t"
  proof -
    have "\<not> isspace (hd (sg @ t))" "sg @ t \<noteq> []" using sg first by (auto simp: isspace_def)
    then have "dropWhile isspace (sg @ t) = sg @ t" by (cases "sg @ t") auto
    then show ?thesis using sp by (simp add: dropWhile_append2)
  qed
  have sign: "cur (sg @ t) = 45 \<longleftrightarrow> sg = [45]" "(if cur (sg @ t) = 43 \<or> cur (sg @ t) = 45 then tl (sg @ t) else sg @ t) = t"
  proof -
    obtain t0 ts where ts: "t = t0 # ts" "t0 \<noteq> 43" "t0 \<noteq> 45" using first by (metis list.collapse)
    show "cur (sg @ t) = 45 \<longleftrightarrow> sg = [45]" "(if cur (sg @ t) = 43 \<or> cur (sg @ t) = 45 then tl (sg @ t) else sg @ t) = t"
      unfolding ts(1) using sign_read [OF sg ts(2,3)] by blast+
  qed
  have nb: "\<not> (base > 36 \<or> base = 1)" using base by (auto simp: text_base_def split: if_splits)
  have run: "intscan base True lim (sp @ sg @ t) =
      (if (base = 0 \<or> base = 16) \<and> cur t = 48 then
         let s = tl t in
         if cur s OR 32 = 120 then
           if digit_val (cur (tl s)) \<ge> 16 then (0, Some s, None)
           else scan_digits 16 lim (sg = [45]) (tl s)
         else scan_digits (if base = 0 then 8 else base) lim (sg = [45]) s
       else
         let base = (if base = 0 then 10 else base) in
         if digit_val (cur t) \<ge> base then (0, None, Some EINVAL)
         else scan_digits base lim (sg = [45]) t)"
    unfolding intscan_def if_not_P [OF nb] Let_def spaces
    unfolding sign(2)
    unfolding sign(1) by (simp only: if_True)
  note sd = scan_digits_value [OF b _ ds(3), of _ lim "sg = [45]"]
  consider (hex) "pre \<noteq> []" | (zero) "pre = []" "base = 0 \<or> base = 16" "d = 48" | (plain) "pre = []" "\<not> ((base = 0 \<or> base = 16) \<and> d = 48)"
    by blast
  then show ?thesis
  proof cases
    case hex
    then have *: "base = 0 \<or> base = 16" "b = 16" using base by (auto simp: text_base_def split: if_splits)
    have "cur t = 48" "cur (tl t) OR 32 = 120" "tl (tl t) = ds @ rest" "cur (ds @ rest) = d"
      using hex pre d unfolding t_def by (auto simp: cur_def)
    then show ?thesis unfolding t_def [symmetric] run using * dv sd [OF ds(2)] by (simp add: Let_def)
  next
    case zero
    then have bb: "b = (if base = 0 then 8 else base)" "\<not> hex_prefix (ds @ rest)" using base d by (auto simp: text_base_def split: if_splits)
    have t: "cur t = 48" "tl t = ds' @ rest" using zero d unfolding t_def by (auto simp: cur_def)
    have v: "digits_value b ds = digits_value b ds'" "digits_in b ds'" using d zero ds(2) by (auto simp: digit_val_def digits_in_def)
    show ?thesis
    proof (cases "cur (ds' @ rest) OR 32 = 120")
      case True
      have x: "cur (ds' @ rest) = 120 \<or> cur (ds' @ rest) = 88" using True x_char by blast
      then have "\<not> digit_val (cur (ds' @ rest)) < b" using bb(1) zero(2) by (auto simp: digit_val_def)
      then have nil: "ds' = []" using v(2) by (cases ds') (auto simp: cur_def digits_in_def)
      then obtain c r where r: "rest = c # r" "c = 120 \<or> c = 88" using x by (cases rest) (auto simp: cur_def)
      have "digit_val (cur r) \<ge> 16" using bb(2) r nil d zero(3) by (cases r) (auto simp: hex_prefix_def cur_def digit_val_def)
      then have "intscan base True lim (sp @ sg @ t) = (0, Some rest, None)"
        unfolding run t using zero(2) True nil r(1) by (simp add: Let_def cur_def)
      then show ?thesis unfolding t_def [symmetric] using v(1) nil \<open>0 < lim\<close> by (simp add: scan_result_def negated_def)
    next
      case False
      have "intscan base True lim (sp @ sg @ t) = scan_digits b lim (sg = [45]) (ds' @ rest)"
        unfolding run t using zero(2) False bb(1) by (simp add: Let_def)
      then show ?thesis unfolding t_def [symmetric] using sd [OF v(2)] v(1) by simp
    qed
  next
    case plain
    then have t: "t = ds @ rest" "cur t = d" using d unfolding t_def by (auto simp: cur_def)
    have bb: "b = (if base = 0 then 10 else base)" using base plain d by (auto simp: text_base_def split: if_splits)
    have e: "intscan base True lim (sp @ sg @ t) = scan_digits b lim (sg = [45]) t"
      unfolding run t(2) using plain dv bb by (auto simp: Let_def)
    show ?thesis unfolding t_def [symmetric] e unfolding t(1) by (rule sd [OF ds(2)])
  qed
qed

lemma intscan_no_digits:
  assumes sp: "\<forall>c \<in> set sp. isspace c" and sg: "sg \<in> {[], [43], [45]}" and base: "base \<le> 36" "base \<noteq> 1"
    and rest: "rest = [] \<or> \<not> digit_val (hd rest) < (if base = 0 then 10 else base) \<and> (sg = [] \<longrightarrow> \<not> isspace (hd rest) \<and> hd rest \<notin> {43, 45})"
  shows "intscan base pok lim (sp @ sg @ rest) = (0, None, Some EINVAL)"
proof -
  have "dropWhile isspace (sg @ rest) = sg @ rest" using sg rest by (cases rest) (auto simp: isspace_def)
  then have spaces: "dropWhile isspace (sp @ sg @ rest) = sg @ rest" using sp by (simp add: dropWhile_append2)
  have sign: "(if cur (sg @ rest) = 43 \<or> cur (sg @ rest) = 45 then tl (sg @ rest) else sg @ rest) = rest"
    using sg rest by (cases rest) (auto simp: cur_def)
  have c: "\<not> digit_val (cur rest) < (if base = 0 then 10 else base)" using rest base by (cases rest) (auto simp: cur_def digit_val_def)
  have "cur rest \<noteq> 48" if "base = 0 \<or> base = 16" using c that by (auto simp: digit_val_def)
  then show ?thesis unfolding intscan_def Let_def spaces sign using c base by auto
qed

section \<open>Properties\<close>

definition clamp :: "int \<Rightarrow> int \<Rightarrow> int \<Rightarrow> nat list \<Rightarrow> int \<times> nat list \<times> errno option" where
  "clamp lo hi v rest = (if v < lo then (lo, rest, Some ERANGE) else if hi < v then (hi, rest, Some ERANGE) else (v, rest, None))"

lemma to_signed_small: "w = 32 \<or> w = 64 \<Longrightarrow> y < 2 ^ (w - 1) \<Longrightarrow> to_signed w y = int y"
  by (auto simp: to_signed_def Let_def)

lemma to_signed_negated:
  assumes "w = 32 \<or> w = 64" "y \<le> 2 ^ (w - 1)"
  shows "to_signed w (negated True y) = - int y"
proof (cases "y = 0")
  case True
  then show ?thesis using assms(1) by (auto simp: to_signed_def negated_def)
next
  case False
  have n: "negated True y = 2 ^ 64 - y" using False assms by (auto simp: negated_def)
  have "(2 ^ 64 - y) mod 2 ^ w = 2 ^ w - y"
  proof (cases "w = 32")
    case True
    then have "2 ^ 64 - y = (2 ^ 32 - y) + (2 ^ 32 - 1) * 2 ^ 32" using assms(2) by simp
    then have "(2 ^ 64 - y) mod 2 ^ 32 = (2 ^ 32 - y) mod 2 ^ 32" by (simp only: mod_mult_self1)
    then show ?thesis using True False by simp
  qed (use assms(1) False in auto)
  then show ?thesis using n assms False by (auto simp: to_signed_def Let_def)
qed

lemma strtox_signed:
  assumes "\<forall>c \<in> set sp. isspace c" "sg \<in> {[], [43], [45]}" "ds \<noteq> []" "digits_in b ds" "rest = [] \<or> \<not> digit_val (hd rest) < b"
    and "text_base base pre b (ds @ rest)" and w: "w = 32 \<or> w = 64"
  shows "apfst (to_signed w) (strtox (sp @ sg @ pre @ ds @ rest) base (2 ^ (w - 1))) =
    clamp (- (2 ^ (w - 1))) (2 ^ (w - 1) - 1) ((if sg = [45] then - 1 else 1) * int (digits_value b ds)) rest"
proof -
  define L where "L = (2::nat) ^ (w - 1)"
  have L: "even L" "0 < L" "L \<le> 2 ^ 63" "int L = 2 ^ (w - 1)" using w by (auto simp: L_def)
  define v where "v = digits_value b ds"
  have i: "strtox (sp @ sg @ pre @ ds @ rest) base L = (let r = if v \<le> ULLONG_MAX then scan_result L (sg = [45]) v rest None
      else scan_result L (sg = [45]) L rest (Some ERANGE) in (fst r, rest, snd (snd r)))"
    unfolding strtox_def intscan_value [OF assms(1-6) L(2)] v_def [symmetric] using L(1) by (auto simp: scan_result_def Let_def)
  have big: "L < v" if "\<not> v \<le> ULLONG_MAX" using that L(3) by simp
  have small: "to_signed w y = int y" if "y < L" for y using that w to_signed_small by (simp add: L_def)
  have neg: "to_signed w (negated True y) = - int y" if "y \<le> L" for y using that w to_signed_negated by (simp add: L_def)
  have top: "to_signed w L = - int L" using w by (auto simp: L_def to_signed_def Let_def)
  have "apfst (to_signed w) (strtox (sp @ sg @ pre @ ds @ rest) base L) =
      clamp (- int L) (int L - 1) ((if sg = [45] then - 1 else 1) * int v) rest"
  proof (cases "sg = [45]")
    case True
    then show ?thesis unfolding i using L(1,2) big neg [of v] neg [of L] top
      by (cases "v \<le> ULLONG_MAX"; cases "v < L"; cases "v = L") (auto simp: scan_result_def clamp_def Let_def)
  next
    case False
    then show ?thesis unfolding i using L(1,2) big small [of v] small [of "L - 1"]
      by (cases "v \<le> ULLONG_MAX"; cases "v < L") (auto simp: scan_result_def clamp_def Let_def negated_def of_nat_diff)
  qed
  then show ?thesis unfolding L(4) unfolding L_def v_def by simp
qed

text \<open>The sign of a value as a factor, and what strtoul makes of it: the negation is of the unsigned value, and only a magnitude that does not fit is an error.\<close>

definition sign_of :: "nat list \<Rightarrow> int" where
  "sign_of sg = (if sg = [45] then - 1 else 1)"

definition wrap_or_max :: "nat \<Rightarrow> nat list \<Rightarrow> nat \<Rightarrow> nat list \<Rightarrow> int \<times> nat list \<times> errno option" where
  "wrap_or_max w sg v rest =
     (if v < 2 ^ w then (sign_of sg * int v mod 2 ^ w, rest, None) else (2 ^ w - 1, rest, Some ERANGE))"

lemma negated_mod:
  assumes "w = 32 \<or> w = 64" "y < 2 ^ w"
  shows "int (negated True y mod 2 ^ w) = (- int y) mod 2 ^ w"
proof -
  have y: "y \<le> 2 ^ 64" using assms by auto
  have d: "(2::int) ^ w dvd 2 ^ 64" using assms(1) by auto
  have "int (negated True y mod 2 ^ w) = (2 ^ 64 - int y) mod 2 ^ 64 mod 2 ^ w"
    using y by (simp add: negated_def zmod_int of_nat_diff)
  also have "\<dots> = (2 ^ 64 - int y) mod 2 ^ w" by (rule mod_mod_cancel [OF d])
  also have "\<dots> = (- int y) mod 2 ^ w"
    using d by (metis add_uminus_conv_diff mod_add_left_eq dvd_imp_mod_0 add_0)
  finally show ?thesis .
qed

lemma strtox_unsigned:
  assumes "\<forall>c \<in> set sp. isspace c" "sg \<in> {[], [43], [45]}" "ds \<noteq> []" "digits_in b ds" "rest = [] \<or> \<not> digit_val (hd rest) < b"
    and "text_base base pre b (ds @ rest)" and w: "w = 32 \<or> w = 64"
  shows "apfst (to_unsigned w) (strtox (sp @ sg @ pre @ ds @ rest) base (2 ^ w - 1)) = wrap_or_max w sg (digits_value b ds) rest"
proof -
  define L where "L = (2::nat) ^ w - 1"
  have L: "odd L" "0 < L" "L \<le> ULLONG_MAX" "L < 2 ^ w" "int L = 2 ^ w - 1" using w by (auto simp: L_def)
  define v where "v = digits_value b ds"
  have i: "strtox (sp @ sg @ pre @ ds @ rest) base L = (let r = if v \<le> ULLONG_MAX then scan_result L (sg = [45]) v rest None
      else scan_result L False L rest (Some ERANGE) in (fst r, rest, snd (snd r)))"
    unfolding strtox_def intscan_value [OF assms(1-6) L(2)] v_def [symmetric] using L(1) by (auto simp: scan_result_def Let_def)
  have u: "to_unsigned w (negated (sg = [45]) v) = sign_of sg * int v mod 2 ^ w" if "v < 2 ^ w"
    using that negated_mod [OF w that] by (auto simp: to_unsigned_def sign_of_def negated_def zmod_int)
  have m: "to_unsigned w L = 2 ^ w - 1" using L(4,5) by (simp add: to_unsigned_def)
  have "L + 1 = 2 ^ w" using w by (auto simp: L_def)
  then have le: "v < 2 ^ w \<longleftrightarrow> v \<le> L" by linarith
  have "apfst (to_unsigned w) (strtox (sp @ sg @ pre @ ds @ rest) base L) = wrap_or_max w sg v rest"
  proof (cases "v \<le> L")
    case True
    then have "v \<le> ULLONG_MAX" using L(3) by simp
    then show ?thesis unfolding i using True L(1) u le
      by (cases "v = L") (auto simp: scan_result_def wrap_or_max_def Let_def)
  next
    case False
    then show ?thesis unfolding i using L(1) m le
      by (auto simp: scan_result_def wrap_or_max_def Let_def negated_def)
  qed
  then show ?thesis unfolding L_def v_def .
qed

text \<open>C29.  strtol and strtoll read white space, a sign, the prefix of the base and all the digits that follow; the result is
  the value of the digits, whatever their number, brought into the range of the type, with ERANGE exactly when it was outside,
  and the end pointer is set after the last digit.\<close>

theorem strtol_spec:
  assumes "\<forall>c \<in> set sp. isspace c" "sg \<in> {[], [43], [45]}" "ds \<noteq> []" "digits_in b ds" "rest = [] \<or> \<not> digit_val (hd rest) < b"
    and "text_base base pre b (ds @ rest)"
  shows "strtol (sp @ sg @ pre @ ds @ rest) base = clamp (- (2 ^ 31)) (2 ^ 31 - 1) (sign_of sg * int (digits_value b ds)) rest \<and>
    strtoll (sp @ sg @ pre @ ds @ rest) base = clamp (- (2 ^ 63)) (2 ^ 63 - 1) (sign_of sg * int (digits_value b ds)) rest \<and>
    strtoimax (sp @ sg @ pre @ ds @ rest) base = clamp (- (2 ^ 63)) (2 ^ 63 - 1) (sign_of sg * int (digits_value b ds)) rest"
  using strtox_signed [OF assms, of 32] strtox_signed [OF assms, of 64]
  by (simp_all add: strtol_def strtoll_def strtoimax_def sign_of_def)

text \<open>" -0x80000001z" in base 0: below the smallest long, but not below the smallest long long.\<close>

lemma strtol_spec_witness:
  "strtol [32, 45, 48, 120, 56, 48, 48, 48, 48, 48, 48, 49, 122] 0 = (- 0x80000000, [122], Some ERANGE) \<and>
   strtoll [32, 45, 48, 120, 56, 48, 48, 48, 48, 48, 48, 49, 122] 0 = (- 0x80000001, [122], None)"
proof -
  have v: "digits_value 16 [56, 48, 48, 48, 48, 48, 48, 49] = 0x80000001" by (simp add: digit_val_def)
  have h: "\<forall>c \<in> set [32]. isspace c" "[45] \<in> {[], [43], [45::nat]}" "[56, 48, 48, 48, 48, 48, 48, 49::nat] \<noteq> []"
    "digits_in 16 [56, 48, 48, 48, 48, 48, 48, 49]" "[122] = [] \<or> \<not> digit_val (hd [122]) < 16"
    "text_base 0 [48, 120] 16 ([56, 48, 48, 48, 48, 48, 48, 49] @ [122])"
    by (simp_all add: isspace_def digits_in_def digit_val_def text_base_def)
  show ?thesis using strtol_spec [OF h] unfolding v by (simp add: clamp_def sign_of_def)
qed

text \<open>strtoul and strtoull negate the value of the digits as an unsigned number when there is a minus sign, so that -1
  is the largest value and no error; a value of the digits that does not fit gives the largest value and ERANGE, whatever the sign.\<close>

theorem strtoul_spec:
  assumes "\<forall>c \<in> set sp. isspace c" "sg \<in> {[], [43], [45]}" "ds \<noteq> []" "digits_in b ds" "rest = [] \<or> \<not> digit_val (hd rest) < b"
    and "text_base base pre b (ds @ rest)"
  shows "strtoul (sp @ sg @ pre @ ds @ rest) base = wrap_or_max 32 sg (digits_value b ds) rest \<and>
    strtoull (sp @ sg @ pre @ ds @ rest) base = wrap_or_max 64 sg (digits_value b ds) rest \<and>
    strtoumax (sp @ sg @ pre @ ds @ rest) base = wrap_or_max 64 sg (digits_value b ds) rest"
  using strtox_unsigned [OF assms, of 32] strtox_unsigned [OF assms, of 64]
  by (simp_all add: strtoul_def strtoull_def strtoumax_def)

lemma strtoul_spec_witness:
  "strtoul [45, 49] 10 = (0xffffffff, [], None) \<and> strtoull [45, 49] 10 = (0xffffffffffffffff, [], None)"
proof -
  have h: "\<forall>c \<in> set []. isspace c" "[45] \<in> {[], [43], [45::nat]}" "[49::nat] \<noteq> []" "digits_in 10 [49]"
    "[] = [] \<or> \<not> digit_val (hd []) < 10" "text_base 10 [] 10 ([49] @ [])"
    by (simp_all add: digits_in_def digit_val_def text_base_def)
  show ?thesis using strtoul_spec [OF h] by (simp add: wrap_or_max_def sign_of_def digit_val_def)
qed

text \<open>Where no digit follows the white space and the sign, all six functions return 0 with EINVAL and leave the end pointer at the start of the string.\<close>

theorem strtol_no_digits:
  assumes "\<forall>c \<in> set sp. isspace c" "sg \<in> {[], [43], [45]}" "base \<le> 36" "base \<noteq> 1"
    and "rest = [] \<or> \<not> digit_val (hd rest) < (if base = 0 then 10 else base) \<and> (sg = [] \<longrightarrow> \<not> isspace (hd rest) \<and> hd rest \<notin> {43, 45})"
  shows "\<forall>f \<in> {strtol, strtoll, strtoimax, strtoul, strtoull, strtoumax}. f (sp @ sg @ rest) base = (0, sp @ sg @ rest, Some EINVAL)"
  by (simp add: strtol_def strtoll_def strtoimax_def strtoul_def strtoull_def strtoumax_def strtox_def intscan_no_digits [OF assms]
      to_signed_def to_unsigned_def)

lemma strtol_no_digits_witness: "strtol [32, 45, 120] 16 = (0, [32, 45, 120], Some EINVAL)"
  using strtol_no_digits [of "[32]" "[45]" 16 "[120]"] by (simp add: isspace_def digit_val_def)

end
