(* ===== verification/Qsort.thy ===== *)
theory Qsort
  imports Prelude "HOL-Library.Monad_Syntax"
begin

text \<open>
  qsort (libc-top-half/musl/src/stdlib/qsort.c), which is smoothsort: a heap of Leonardo trees whose
  orders are kept in a bit set.

  The array is the list of its bytes, and a pointer into it an offset.  Everything that C leaves undefined
  has the result \<open>None\<close>: a read or write outside the array or outside of the local arrays \<open>ar\<close> and \<open>lp\<close>, a pointer before the
  array, a memcpy of overlapping ranges, a shift by the width of a word, and __builtin_ctz of zero, which a_ctz_l is on
  this target.
\<close>

type_synonym 'b cmpfun = "'b list \<Rightarrow> 'b list \<Rightarrow> int"

section \<open>Memory\<close>

definition bytes_at :: "'b list \<Rightarrow> nat \<Rightarrow> nat \<Rightarrow> 'b list option" where
  "bytes_at mem p l = (if p + l \<le> length mem then Some (take l (drop p mem)) else None)"

definition memcpy :: "'b list \<Rightarrow> nat \<Rightarrow> 'b list \<Rightarrow> 'b list option" where
  "memcpy mem d bs = (if d + length bs \<le> length mem then Some (take d mem @ bs @ drop (d + length bs) mem) else None)"

definition psub :: "nat \<Rightarrow> nat \<Rightarrow> nat option" where
  "psub p n = (if n \<le> p then Some (p - n) else None)"

definition at_index :: "'a list \<Rightarrow> nat \<Rightarrow> 'a option" where
  "at_index xs i = (if i < length xs then Some (xs ! i) else None)"

definition compare :: "'b cmpfun \<Rightarrow> nat \<Rightarrow> 'b list \<Rightarrow> nat \<Rightarrow> nat \<Rightarrow> int option" where
  "compare cmp width mem p q = do { x \<leftarrow> bytes_at mem p width; y \<leftarrow> bytes_at mem q width; Some (cmp x y) }"

section \<open>The bit set\<close>

text \<open>\<open>p[2]\<close>, two words of 32 bits.\<close>

type_synonym bits = "nat \<times> nat"

fun ctz :: "nat \<Rightarrow> nat" where
  "ctz x = (if x = 0 then 32 else if odd x then 0 else Suc (ctz (x div 2)))"

declare ctz.simps [simp del]

definition ntz :: "nat \<Rightarrow> nat option" where
  "ntz x = (if x = 0 then None else Some (ctz x))"

fun pntz :: "bits \<Rightarrow> nat option" where
  "pntz (p0, p1) = do {
     r \<leftarrow> ntz (szsub p0 1);
     if r \<noteq> 0 then Some r
     else do { r \<leftarrow> ntz p1; if 32 + r \<noteq> 32 then Some (32 + r) else Some 0 } }"

fun shl :: "bits \<Rightarrow> nat \<Rightarrow> bits option" where
  "shl (p0, p1) n =
     (let (p0, p1, n) = (if n \<ge> 32 then (0, p0, n - 32) else (p0, p1, n)) in
      if n = 0 \<or> n \<ge> 32 then None
      else Some (push_bit n p0 mod 2 ^ 32, (push_bit n p1 mod 2 ^ 32) OR drop_bit (32 - n) p0))"

fun shr :: "bits \<Rightarrow> nat \<Rightarrow> bits option" where
  "shr (p0, p1) n =
     (let (p0, p1, n) = (if n \<ge> 32 then (p1, 0, n - 32) else (p0, p1, n)) in
      if n = 0 \<or> n \<ge> 32 then None
      else Some (drop_bit n p0 OR (push_bit (32 - n) p1 mod 2 ^ 32), drop_bit n p1))"

section \<open>cycle, sift and trinkle\<close>

text \<open>
  The pointers in \<open>ar\<close>, of which there is room for 56 and the one to \<open>tmp\<close>, are moved over the elements in
  steps of at most 256 bytes.
\<close>

fun cycle_chunk :: "nat \<Rightarrow> 'b list \<Rightarrow> nat list \<Rightarrow> 'b list \<Rightarrow> 'b list option" where
  "cycle_chunk l tmp [] mem = Some mem"
| "cycle_chunk l tmp [p] mem = memcpy mem p tmp"
| "cycle_chunk l tmp (p # q # ps) mem =
     (if p < q + l \<and> q < p + l then None
      else do { bs \<leftarrow> bytes_at mem q l; mem \<leftarrow> memcpy mem p bs; cycle_chunk l tmp (q # ps) mem })"

function cycle_loop :: "nat \<Rightarrow> nat list \<Rightarrow> 'b list \<Rightarrow> 'b list option" where
  "cycle_loop width ar mem =
     (if width = 0 then Some mem
      else let l = min 256 width in
        do { tmp \<leftarrow> bytes_at mem (hd ar) l; mem \<leftarrow> cycle_chunk l tmp ar mem; cycle_loop (width - l) (map (\<lambda>p. p + l) ar) mem })"
  by pat_completeness auto
termination by (relation "measure (\<lambda>(width, ar, mem). width)") auto

declare cycle_loop.simps [simp del]

definition cycle :: "nat \<Rightarrow> nat list \<Rightarrow> 'b list \<Rightarrow> 'b list option" where
  "cycle width ar mem = (if length ar < 2 then Some mem else cycle_loop width ar mem)"

definition push_ar :: "nat list \<Rightarrow> nat \<Rightarrow> nat list option" where
  "push_ar ar p = (if length ar < 56 then Some (ar @ [p]) else None)"

function sift_loop :: "'b cmpfun \<Rightarrow> nat \<Rightarrow> nat list \<Rightarrow> 'b list \<Rightarrow> nat \<Rightarrow> nat \<Rightarrow> nat list \<Rightarrow> nat list option" where
  "sift_loop cmp width lp mem head pshift ar =
     (if pshift > 1 then do {
        rt \<leftarrow> psub head width;
        l \<leftarrow> at_index lp (pshift - 2);
        lf \<leftarrow> psub rt l;
        a \<leftarrow> compare cmp width mem (ar ! 0) lf;
        b \<leftarrow> (if a \<ge> 0 then compare cmp width mem (ar ! 0) rt else Some (- 1));
        if a \<ge> 0 \<and> b \<ge> 0 then Some ar
        else do {
          c \<leftarrow> compare cmp width mem lf rt;
          if c \<ge> 0 then do { ar \<leftarrow> push_ar ar lf; sift_loop cmp width lp mem lf (pshift - 1) ar }
          else do { ar \<leftarrow> push_ar ar rt; sift_loop cmp width lp mem rt (pshift - 2) ar } } }
      else Some ar)"
  by pat_completeness auto
termination by (relation "measure (\<lambda>(cmp, width, lp, mem, head, pshift, ar). pshift)") auto

declare sift_loop.simps [simp del]

definition sift :: "'b cmpfun \<Rightarrow> nat \<Rightarrow> nat list \<Rightarrow> nat \<Rightarrow> nat \<Rightarrow> 'b list \<Rightarrow> 'b list option" where
  "sift cmp width lp head pshift mem = do { ar \<leftarrow> sift_loop cmp width lp mem head pshift [head]; cycle width ar mem }"

definition children_stop :: "'b cmpfun \<Rightarrow> nat \<Rightarrow> nat list \<Rightarrow> 'b list \<Rightarrow> nat \<Rightarrow> nat \<Rightarrow> nat \<Rightarrow> bool option" where
  "children_stop cmp width lp mem head pshift stepson = do {
     rt \<leftarrow> psub head width;
     l \<leftarrow> at_index lp (pshift - 2);
     lf \<leftarrow> psub rt l;
     a \<leftarrow> compare cmp width mem rt stepson;
     if a \<ge> 0 then Some True else do { b \<leftarrow> compare cmp width mem lf stepson; Some (b \<ge> 0) } }"

function trinkle_loop :: "'b cmpfun \<Rightarrow> nat \<Rightarrow> nat list \<Rightarrow> 'b list \<Rightarrow> nat \<Rightarrow> bits \<Rightarrow> nat \<Rightarrow> bool \<Rightarrow> nat list \<Rightarrow>
    (nat \<times> nat \<times> bool \<times> nat list) option" where
  "trinkle_loop cmp width lp mem head p pshift trusty ar =
     (if p = (1, 0) then Some (head, pshift, trusty, ar)
      else do {
        l \<leftarrow> at_index lp pshift;
        stepson \<leftarrow> psub head l;
        c \<leftarrow> compare cmp width mem stepson (ar ! 0);
        stop \<leftarrow> (if c \<le> 0 then Some True
          else if \<not> trusty \<and> pshift > 1 then children_stop cmp width lp mem head pshift stepson else Some False);
        if stop then Some (head, pshift, trusty, ar)
        else do {
          ar' \<leftarrow> push_ar ar stepson;
          trail \<leftarrow> pntz p;
          p \<leftarrow> shr p trail;
          trinkle_loop cmp width lp mem stepson p (pshift + trail) False ar' } })"
  by pat_completeness auto
termination
  by (relation "measure (\<lambda>(cmp, width, lp, mem, head, p, pshift, trusty, ar). 57 - length ar)")
    (auto simp: push_ar_def split: if_splits)

declare trinkle_loop.simps [simp del]

definition trinkle :: "'b cmpfun \<Rightarrow> nat \<Rightarrow> nat list \<Rightarrow> nat \<Rightarrow> bits \<Rightarrow> nat \<Rightarrow> bool \<Rightarrow> 'b list \<Rightarrow> 'b list option" where
  "trinkle cmp width lp head p pshift trusty mem = do {
     (head, pshift, trusty, ar) \<leftarrow> trinkle_loop cmp width lp mem head p pshift trusty [head];
     if trusty then Some mem
     else do { mem \<leftarrow> cycle width ar mem; sift cmp width lp head pshift mem } }"

section \<open>qsort\<close>

text \<open>The Leonardo numbers, scaled by the width of an element; there is room for 48.\<close>

function leonardo :: "nat \<Rightarrow> nat \<Rightarrow> nat list \<Rightarrow> nat list option" where
  "leonardo width bytes lp =
     (let i = length lp; x = szadd (szadd (lp ! (i - 2)) (lp ! (i - 1))) width in
      if i \<ge> 48 then None else if x < bytes then leonardo width bytes (lp @ [x]) else Some (lp @ [x]))"
  by pat_completeness auto
termination by (relation "measure (\<lambda>(width, bytes, lp). 48 - length lp)") auto

declare leonardo.simps [simp del]

definition set_bit0 :: "bits \<Rightarrow> bits" where
  "set_bit0 p = (fst p OR 1, snd p)"

definition build_step :: "'b cmpfun \<Rightarrow> nat \<Rightarrow> nat list \<Rightarrow> nat \<Rightarrow> nat \<Rightarrow> bits \<Rightarrow> nat \<Rightarrow> 'b list \<Rightarrow> (bits \<times> nat \<times> 'b list) option" where
  "build_step cmp width lp high head p pshift mem =
     (if fst p AND 3 = 3 then do {
        mem \<leftarrow> sift cmp width lp head pshift mem;
        p \<leftarrow> shr p 2;
        Some (p, pshift + 2, mem) }
      else do {
        l \<leftarrow> (if pshift = 0 then None else at_index lp (pshift - 1));
        mem \<leftarrow> (if l \<ge> high - head then trinkle cmp width lp head p pshift False mem else sift cmp width lp head pshift mem);
        if pshift = 1 then do { p \<leftarrow> shl p 1; Some (p, 0, mem) }
        else do { p \<leftarrow> shl p (pshift - 1); Some (p, 1, mem) } })"

text \<open>The two loops; that they would not end with elements of no bytes is \<open>None\<close> as well.\<close>

function build_loop :: "'b cmpfun \<Rightarrow> nat \<Rightarrow> nat list \<Rightarrow> nat \<Rightarrow> nat \<Rightarrow> bits \<Rightarrow> nat \<Rightarrow> 'b list \<Rightarrow> (nat \<times> bits \<times> nat \<times> 'b list) option" where
  "build_loop cmp width lp high head p pshift mem =
     (if head < high then
        if width = 0 then None
        else do {
          (p, pshift, mem) \<leftarrow> build_step cmp width lp high head p pshift mem;
          build_loop cmp width lp high (head + width) (set_bit0 p) pshift mem }
      else Some (head, p, pshift, mem))"
  by pat_completeness auto
termination by (relation "measure (\<lambda>(cmp, width, lp, high, head, p, pshift, mem). high - head)") auto

declare build_loop.simps [simp del]

definition sort_step :: "'b cmpfun \<Rightarrow> nat \<Rightarrow> nat list \<Rightarrow> nat \<Rightarrow> bits \<Rightarrow> nat \<Rightarrow> 'b list \<Rightarrow> (bits \<times> nat \<times> 'b list) option" where
  "sort_step cmp width lp head p pshift mem =
     (if pshift \<le> 1 then do { trail \<leftarrow> pntz p; p \<leftarrow> shr p trail; Some (p, pshift + trail, mem) }
      else do {
        p \<leftarrow> shl p 2;
        let pshift = pshift - 2;
        p \<leftarrow> shr (fst p XOR 7, snd p) 1;
        l \<leftarrow> at_index lp pshift;
        lf \<leftarrow> psub head l;
        lf \<leftarrow> psub lf width;
        mem \<leftarrow> trinkle cmp width lp lf p (pshift + 1) True mem;
        p \<leftarrow> shl p 1;
        let p = set_bit0 p;
        rt \<leftarrow> psub head width;
        mem \<leftarrow> trinkle cmp width lp rt p pshift True mem;
        Some (p, pshift, mem) })"

function sort_loop :: "'b cmpfun \<Rightarrow> nat \<Rightarrow> nat list \<Rightarrow> nat \<Rightarrow> bits \<Rightarrow> nat \<Rightarrow> 'b list \<Rightarrow> 'b list option" where
  "sort_loop cmp width lp head p pshift mem =
     (if pshift \<noteq> 1 \<or> p \<noteq> (1, 0) then do {
        (p, pshift, mem) \<leftarrow> sort_step cmp width lp head p pshift mem;
        head' \<leftarrow> psub head width;
        if width = 0 then None else sort_loop cmp width lp head' p pshift mem }
      else Some mem)"
  by pat_completeness auto
termination
  by (relation "measure (\<lambda>(cmp, width, lp, head, p, pshift, mem). head)") (auto simp: psub_def split: if_splits)

declare sort_loop.simps [simp del]

definition qsort :: "'b list \<Rightarrow> nat \<Rightarrow> nat \<Rightarrow> 'b cmpfun \<Rightarrow> 'b list option" where
  "qsort mem nel width cmp =
     (let bytes = szmul width nel in
      if bytes = 0 then Some mem
      else do {
        high \<leftarrow> psub bytes width;
        lp \<leftarrow> leonardo width bytes [width, width];
        (head, p, pshift, mem) \<leftarrow> build_loop cmp width lp high 0 (1, 0) 1 mem;
        mem \<leftarrow> trinkle cmp width lp head p pshift False mem;
        sort_loop cmp width lp head p pshift mem })"

end
