(* ===== verification/Leonardo.thy ===== *)
theory Leonardo
  imports Main "HOL-Library.Multiset"
begin

text \<open>
  Leonardo heaps on arrays, the abstract view of qsort: the array is a function of the index, the
  hole that the code moves along a path is moved by exchanges, and a heap is the list of the
  orders of its trees, from the last one to the first.
\<close>

fun leo :: "nat \<Rightarrow> nat" where
  "leo 0 = 1"
| "leo (Suc 0) = 1"
| "leo (Suc (Suc k)) = leo (Suc k) + leo k + 1"

lemma leo_pos [simp]: "0 < leo k"
  by (induction k rule: leo.induct) auto

lemma below_tree: "leo k \<le> h \<Longrightarrow> h - leo k < h"
  using leo_pos [of k] by linarith

lemma leo_split: "2 \<le> k \<Longrightarrow> leo k = leo (k - 1) + leo (k - 2) + 1"
  by (cases k rule: leo.cases) auto

lemma leo_mono: "i \<le> k \<Longrightarrow> leo i \<le> leo k"
proof (induction rule: dec_induct)
  case (step n)
  have "leo n \<le> leo (Suc n)" by (cases n) auto
  then show ?case using step by simp
qed simp

lemma leo_strict: "1 \<le> i \<Longrightarrow> i < k \<Longrightarrow> leo i < leo k"
  using leo_mono [of "Suc i" k] by (cases i) auto

definition swap :: "nat \<Rightarrow> nat \<Rightarrow> (nat \<Rightarrow> 'a) \<Rightarrow> nat \<Rightarrow> 'a" where
  "swap i j f = f(i := f j, j := f i)"

lemma swap_simps [simp]: "swap i j f i = f j" "swap i j f j = f i" "k \<noteq> i \<Longrightarrow> k \<noteq> j \<Longrightarrow> swap i j f k = f k"
  by (auto simp: swap_def)

lemma swap_image: "i \<in> A \<Longrightarrow> j \<in> A \<Longrightarrow> swap i j f ` A = f ` A"
  by (force simp: swap_def image_iff)

definition elements :: "nat \<Rightarrow> (nat \<Rightarrow> 'a) \<Rightarrow> 'a multiset" where
  "elements n f = image_mset f (mset_set {..<n})"

lemma swap_elements: "i < n \<Longrightarrow> j < n \<Longrightarrow> elements n (swap i j f) = elements n f"
proof (cases "i = j")
  case False
  assume ij: "i < n" "j < n"
  define A where "A = {..<n} - {i, j}"
  have A: "{..<n} = insert i (insert j A)" "finite A" "i \<notin> insert j A" "j \<notin> A" using ij False by (auto simp: A_def)
  have "image_mset (swap i j f) (mset_set A) = image_mset f (mset_set A)"
    by (intro image_mset_cong) (auto simp: A_def)
  then show ?thesis unfolding elements_def A(1) using A(2-4) by (simp add: add_mset_commute)
qed (simp add: swap_def)

section \<open>Sifting\<close>

definition stays :: "('a \<Rightarrow> 'a \<Rightarrow> int) \<Rightarrow> 'a \<Rightarrow> 'a \<Rightarrow> 'a \<Rightarrow> bool" where
  "stays cmp x y z \<longleftrightarrow> cmp x y \<ge> 0 \<and> cmp x z \<ge> 0"

function siftf :: "('a \<Rightarrow> 'a \<Rightarrow> int) \<Rightarrow> (nat \<Rightarrow> 'a) \<Rightarrow> nat \<Rightarrow> nat \<Rightarrow> nat \<Rightarrow> 'a" where
  "siftf cmp f h k =
     (if k > 1 then
        let rt = h - 1; lf = h - 1 - leo (k - 2) in
        if stays cmp (f h) (f lf) (f rt) then f
        else if cmp (f lf) (f rt) \<ge> 0 then siftf cmp (swap h lf f) lf (k - 1)
        else siftf cmp (swap h rt f) rt (k - 2)
      else f)"
  by pat_completeness auto
termination by (relation "measure (\<lambda>(cmp, f, h, k). k)") auto

declare siftf.simps [simp del]

text \<open>The tree of order \<open>k\<close> with its root at \<open>h\<close> is \<open>{h + 1 - leo k..h}\<close>.\<close>

definition in_tree :: "nat \<Rightarrow> nat \<Rightarrow> nat \<Rightarrow> bool" where
  "in_tree h k i \<longleftrightarrow> h < i + leo k \<and> i \<le> h"

lemma in_tree_root [simp]: "in_tree h k h"
  by (simp add: in_tree_def)

lemma children:
  assumes "k > 1" "leo k \<le> h + 1"
  shows "leo (k - 1) \<le> (h - 1 - leo (k - 2)) + 1" "leo (k - 2) \<le> (h - 1) + 1" "h - 1 - leo (k - 2) < h - 1" "h - 1 < h"
    "h - 1 - leo (k - 2) + leo (k - 2) + 1 = h"
  using assms leo_split [of k] leo_pos [of "k - 1"] leo_pos [of "k - 2"] by linarith+

lemma tree_split:
  assumes "k > 1" "leo k \<le> h + 1"
  shows "in_tree h k i \<longleftrightarrow> i = h \<or> in_tree (h - 1) (k - 2) i \<or> in_tree (h - 1 - leo (k - 2)) (k - 1) i"
  using assms children [OF assms] leo_split [of k] unfolding in_tree_def by linarith

lemma siftf_frame:
  assumes "leo k \<le> h + 1" "\<not> in_tree h k i"
  shows "siftf cmp f h k i = f i"
  using assms
proof (induction cmp f h k rule: siftf.induct)
  case (1 cmp f h k)
  show ?case
  proof (cases "k > 1")
    case True
    note c = children [OF True 1(3)]
    have n: "i \<noteq> h" "\<not> in_tree (h - 1) (k - 2) i" "\<not> in_tree (h - 1 - leo (k - 2)) (k - 1) i"
      using 1(4) tree_split [OF True 1(3)] by blast+
    then have "i \<noteq> h - 1" "i \<noteq> h - 1 - leo (k - 2)" by auto
    then show ?thesis using 1(1) [OF True refl refl _ _ c(1) n(3)] 1(2) [OF True refl refl _ _ c(2) n(2)] n(1) True
      by (subst siftf.simps) (simp add: Let_def)
  qed (simp add: siftf.simps)
qed

lemma siftf_keeps:
  assumes "leo k \<le> h + 1" "\<And>i j f. in_tree h k i \<Longrightarrow> in_tree h k j \<Longrightarrow> P (swap i j f) = P f"
  shows "P (siftf cmp f h k) = P f"
  using assms
proof (induction cmp f h k rule: siftf.induct)
  case (1 cmp f h k)
  show ?case
  proof (cases "k > 1")
    case True
    note c = children [OF True 1(3)] and t = tree_split [OF True 1(3)]
    have l: "P (siftf cmp (swap h (h - 1 - leo (k - 2)) f) (h - 1 - leo (k - 2)) (k - 1)) = P (swap h (h - 1 - leo (k - 2)) f)"
      if "\<not> stays cmp (f h) (f (h - 1 - leo (k - 2))) (f (h - 1))" "cmp (f (h - 1 - leo (k - 2))) (f (h - 1)) \<ge> 0"
      by (rule 1(1) [OF True refl refl that c(1)]) (use 1(4) t in blast)
    have r: "P (siftf cmp (swap h (h - 1) f) (h - 1) (k - 2)) = P (swap h (h - 1) f)"
      if "\<not> stays cmp (f h) (f (h - 1 - leo (k - 2))) (f (h - 1))" "\<not> cmp (f (h - 1 - leo (k - 2))) (f (h - 1)) \<ge> 0"
      by (rule 1(2) [OF True refl refl that c(2)]) (use 1(4) t in blast)
    have "P (swap h (h - 1) f) = P f" "P (swap h (h - 1 - leo (k - 2)) f) = P f"
      using 1(4) [of h "h - 1"] 1(4) [of h "h - 1 - leo (k - 2)"] t by (metis in_tree_root)+
    then show ?thesis using l r True by (subst siftf.simps) (simp add: Let_def)
  qed (simp add: siftf.simps)
qed

lemma siftf_elements: "leo k \<le> h + 1 \<Longrightarrow> h < n \<Longrightarrow> elements n (siftf cmp f h k) = elements n f"
  by (rule siftf_keeps) (auto intro!: swap_elements simp: in_tree_def)

lemma siftf_image: "leo k \<le> h + 1 \<Longrightarrow> (\<And>i. in_tree h k i \<Longrightarrow> i \<in> A) \<Longrightarrow> siftf cmp f h k ` A = f ` A"
  by (rule siftf_keeps [where P = "\<lambda>f. f ` A"]) (auto intro!: swap_image)

section \<open>Order\<close>

text \<open>What C asks of a comparison: it orders all elements, and its sign changes when the arguments are exchanged.\<close>

definition total_cmp :: "('a \<Rightarrow> 'a \<Rightarrow> int) \<Rightarrow> bool" where
  "total_cmp cmp \<longleftrightarrow> (\<forall>x y. cmp x y \<ge> 0 \<longleftrightarrow> cmp y x \<le> 0) \<and> (\<forall>x y z. cmp x y \<le> 0 \<and> cmp y z \<le> 0 \<longrightarrow> cmp x z \<le> 0)"

lemma cmp_sign: "total_cmp cmp \<Longrightarrow> cmp x y \<ge> 0 \<longleftrightarrow> cmp y x \<le> 0"
  unfolding total_cmp_def by blast

lemma cmp_trans: "total_cmp cmp \<Longrightarrow> cmp x y \<le> 0 \<Longrightarrow> cmp y z \<le> 0 \<Longrightarrow> cmp x z \<le> 0"
  unfolding total_cmp_def by blast

lemma cmp_total: "total_cmp cmp \<Longrightarrow> cmp x y \<le> 0 \<or> cmp y x \<le> 0"
  using cmp_sign [of cmp x y] by linarith

lemma cmp_refl: "total_cmp cmp \<Longrightarrow> cmp x x \<le> 0"
  using cmp_total [of cmp x x] by blast

function heap :: "('a \<Rightarrow> 'a \<Rightarrow> int) \<Rightarrow> (nat \<Rightarrow> 'a) \<Rightarrow> nat \<Rightarrow> nat \<Rightarrow> bool" where
  "heap cmp f h k \<longleftrightarrow> (k > 1 \<longrightarrow>
     cmp (f (h - 1)) (f h) \<le> 0 \<and> cmp (f (h - 1 - leo (k - 2))) (f h) \<le> 0 \<and>
     heap cmp f (h - 1) (k - 2) \<and> heap cmp f (h - 1 - leo (k - 2)) (k - 1))"
  by pat_completeness auto
termination by (relation "measure (\<lambda>(cmp, f, h, k). k)") auto

declare heap.simps [simp del]

text \<open>A tree that is a heap but for its root.\<close>

definition subheaps :: "('a \<Rightarrow> 'a \<Rightarrow> int) \<Rightarrow> (nat \<Rightarrow> 'a) \<Rightarrow> nat \<Rightarrow> nat \<Rightarrow> bool" where
  "subheaps cmp f h k \<longleftrightarrow> (k > 1 \<longrightarrow> heap cmp f (h - 1) (k - 2) \<and> heap cmp f (h - 1 - leo (k - 2)) (k - 1))"

lemma heap_subheaps: "heap cmp f h k \<Longrightarrow> subheaps cmp f h k"
  by (subst (asm) heap.simps) (simp add: subheaps_def)

lemma heap_small [simp]: "k \<le> 1 \<Longrightarrow> heap cmp f h k"
  by (subst heap.simps) simp

lemma heap_intro:
  "(k > 1 \<Longrightarrow> cmp (f (h - 1)) (f h) \<le> 0 \<and> cmp (f (h - 1 - leo (k - 2))) (f h) \<le> 0 \<and>
    heap cmp f (h - 1) (k - 2) \<and> heap cmp f (h - 1 - leo (k - 2)) (k - 1)) \<Longrightarrow> heap cmp f h k"
  by (subst heap.simps) blast

lemma heap_cong:
  assumes "leo k \<le> h + 1" "\<And>i. in_tree h k i \<Longrightarrow> f i = g i"
  shows "heap cmp f h k = heap cmp g h k"
  using assms
proof (induction cmp f h k rule: heap.induct)
  case (1 cmp f h k)
  show ?case
  proof (cases "k > 1")
    case True
    note c = children [OF True 1(3)] and t = tree_split [OF True 1(3)]
    have "f h = g h" "f (h - 1) = g (h - 1)" "f (h - 1 - leo (k - 2)) = g (h - 1 - leo (k - 2))" using 1(4) t by (metis in_tree_root)+
    moreover have "heap cmp f (h - 1) (k - 2) = heap cmp g (h - 1) (k - 2)" by (rule 1(1) [OF True c(2)]) (use 1(4) t in blast)
    moreover have "heap cmp f (h - 1 - leo (k - 2)) (k - 1) = heap cmp g (h - 1 - leo (k - 2)) (k - 1)"
      by (rule 1(2) [OF True c(1)]) (use 1(4) t in blast)
    ultimately show ?thesis by (subst (1 2) heap.simps) simp
  qed simp
qed

lemma subheaps_cong:
  assumes "leo k \<le> h + 1" "\<And>i. in_tree h k i \<Longrightarrow> i \<noteq> h \<Longrightarrow> f i = g i"
  shows "subheaps cmp f h k = subheaps cmp g h k"
proof (cases "k > 1")
  case True
  note c = children [OF True assms(1)] and t = tree_split [OF True assms(1)]
  have "heap cmp f (h - 1) (k - 2) = heap cmp g (h - 1) (k - 2)"
    by (rule heap_cong [OF c(2)]) (use assms(2) t c(4) in \<open>auto simp: in_tree_def\<close>)
  moreover have "heap cmp f (h - 1 - leo (k - 2)) (k - 1) = heap cmp g (h - 1 - leo (k - 2)) (k - 1)"
    by (rule heap_cong [OF c(1)]) (use assms(2) t c(3,4) in \<open>auto simp: in_tree_def\<close>)
  ultimately show ?thesis by (simp add: subheaps_def)
qed (simp add: subheaps_def)

lemma heap_max:
  assumes "total_cmp cmp" "leo k \<le> h + 1" "heap cmp f h k" "in_tree h k i"
  shows "cmp (f i) (f h) \<le> 0"
  using assms(2-4)
proof (induction k arbitrary: h rule: less_induct)
  case (less k)
  show ?case
  proof (cases "k > 1")
    case True
    note c = children [OF True less(2)] and t = tree_split [OF True less(2)]
    have h: "cmp (f (h - 1)) (f h) \<le> 0" "cmp (f (h - 1 - leo (k - 2))) (f h) \<le> 0"
        "heap cmp f (h - 1) (k - 2)" "heap cmp f (h - 1 - leo (k - 2)) (k - 1)"
      using less(3) True by (simp_all add: heap.simps [of cmp f h k])
    have "k - 2 < k" "k - 1 < k" using True by auto
    then have "cmp (f i) (f (h - 1)) \<le> 0" if "in_tree (h - 1) (k - 2) i" using less(1) [OF _ c(2) h(3) that] by simp
    moreover have "cmp (f i) (f (h - 1 - leo (k - 2))) \<le> 0" if "in_tree (h - 1 - leo (k - 2)) (k - 1) i"
      using less(1) [OF \<open>k - 1 < k\<close> c(1) h(4) that] .
    ultimately have "in_tree (h - 1) (k - 2) i \<or> in_tree (h - 1 - leo (k - 2)) (k - 1) i \<Longrightarrow> ?thesis"
      using h(1,2) cmp_trans [OF assms(1), of "f i" _ "f h"] by metis
    then show ?thesis using less(4) t cmp_refl [OF assms(1), of "f h"] by metis
  next
    case False
    then have "leo k = 1" using leo.simps(1,2) by (metis One_nat_def less_one linorder_neqE_nat)
    then have "i = h" using less(4) by (simp add: in_tree_def)
    then show ?thesis using cmp_refl [OF assms(1)] by simp
  qed
qed

text \<open>What sifting achieves.  The root afterwards is at least all that was in the tree.\<close>

lemma siftf_heap:
  assumes "total_cmp cmp" "leo k \<le> h + 1" "subheaps cmp f h k"
  shows "heap cmp (siftf cmp f h k) h k"
  using assms
proof (induction cmp f h k rule: siftf.induct)
  case (1 cmp f h k)
  show ?case
  proof (cases "k > 1")
    case True
    define rt lf where "rt = h - 1" and "lf = h - 1 - leo (k - 2)"
    note c = children [OF True 1(4)] and t = tree_split [OF True 1(4)]
    note IHl = 1(1) [OF True refl refl, folded rt_def lf_def] and IHr = 1(2) [OF True refl refl, folded rt_def lf_def]
    have pos: "lf < rt" "rt < h" "leo (k - 1) \<le> lf + 1" "leo (k - 2) \<le> rt + 1" using c by (auto simp: rt_def lf_def)
    have apart: "\<not> in_tree rt (k - 2) h" "\<not> in_tree lf (k - 1) h" "\<And>i. in_tree rt (k - 2) i \<Longrightarrow> lf < i" "\<And>i. in_tree lf (k - 1) i \<Longrightarrow> i \<le> lf"
      using c unfolding rt_def lf_def in_tree_def by linarith+
    have sub: "heap cmp f rt (k - 2)" "heap cmp f lf (k - 1)" using 1(5) True by (auto simp: subheaps_def rt_def lf_def)
    have unf: "siftf cmp f h k = (if stays cmp (f h) (f lf) (f rt) then f
        else if cmp (f lf) (f rt) \<ge> 0 then siftf cmp (swap h lf f) lf (k - 1) else siftf cmp (swap h rt f) rt (k - 2))"
      using True by (subst siftf.simps) (simp add: Let_def rt_def lf_def)
    consider (stays) "stays cmp (f h) (f lf) (f rt)" | (l) "\<not> stays cmp (f h) (f lf) (f rt)" "cmp (f lf) (f rt) \<ge> 0"
      | (r) "\<not> stays cmp (f h) (f lf) (f rt)" "\<not> cmp (f lf) (f rt) \<ge> 0" by blast
    then show ?thesis
    proof cases
      case stays
      then have "cmp (f lf) (f h) \<le> 0" "cmp (f rt) (f h) \<le> 0" using cmp_sign [OF 1(3)] by (auto simp: stays_def)
      then show ?thesis unfolding unf using stays sub by (intro heap_intro) (simp add: rt_def lf_def)
    next
      case l
      define g where "g = swap h lf f"
      have le: "cmp (f h) (f lf) \<le> 0" "cmp (f rt) (f lf) \<le> 0"
        using l 1(3) cmp_sign cmp_trans cmp_total unfolding stays_def by metis+
      have gs: "subheaps cmp g lf (k - 1)"
        by (rule subheaps_cong [OF pos(3), THEN iffD1, OF _ heap_subheaps [OF sub(2)]])
          (use apart(2) in \<open>fastforce simp: g_def swap_def\<close>)
      have H: "heap cmp (siftf cmp g lf (k - 1)) lf (k - 1)" unfolding g_def
        by (rule IHl [OF l 1(3) pos(3)]) (use gs g_def in simp)
      have fr: "siftf cmp g lf (k - 1) i = f i" if "in_tree rt (k - 2) i" for i
      proof -
        have i: "lf < i" "i \<le> rt" using that apart(3) by (auto simp: in_tree_def)
        then have "\<not> in_tree lf (k - 1) i" using apart(4) by force
        then show ?thesis using siftf_frame [OF pos(3), of i cmp g] i pos by (simp add: g_def)
      qed
      have root: "siftf cmp g lf (k - 1) h = f lf" using siftf_frame [OF pos(3) apart(2), of cmp g] by (simp add: g_def)
      have "siftf cmp g lf (k - 1) lf \<in> g ` {i. in_tree lf (k - 1) i}"
        using siftf_image [OF pos(3), of "{i. in_tree lf (k - 1) i}" cmp g] by (metis imageI in_tree_root mem_Collect_eq)
      then obtain i where i: "in_tree lf (k - 1) i" "siftf cmp g lf (k - 1) lf = g i" by auto
      have "cmp (g i) (f lf) \<le> 0"
        using heap_max [OF 1(3) pos(3) sub(2) i(1)] le(1) apart(2) i(1) by (cases "i = lf"; cases "i = h") (auto simp: g_def)
      moreover have "heap cmp (siftf cmp g lf (k - 1)) rt (k - 2)"
        using heap_cong [OF pos(4) fr] sub(1) by simp
      ultimately show ?thesis unfolding unf g_def [symmetric] using l H fr [of rt] root i(2) le(2)
        by (intro heap_intro) (simp add: rt_def lf_def)
    next
      case r
      define g where "g = swap h rt f"
      have le: "cmp (f h) (f rt) \<le> 0" "cmp (f lf) (f rt) \<le> 0"
        using r 1(3) cmp_sign cmp_trans cmp_total unfolding stays_def by metis+
      have gs: "subheaps cmp g rt (k - 2)"
        by (rule subheaps_cong [OF pos(4), THEN iffD1, OF _ heap_subheaps [OF sub(1)]])
          (use apart(1) in \<open>fastforce simp: g_def swap_def\<close>)
      have H: "heap cmp (siftf cmp g rt (k - 2)) rt (k - 2)" unfolding g_def
        by (rule IHr [OF r 1(3) pos(4)]) (use gs g_def in simp)
      have fr: "siftf cmp g rt (k - 2) i = f i" if "in_tree lf (k - 1) i" for i
      proof -
        have "\<not> in_tree rt (k - 2) i" "i \<le> lf" using that apart(3,4) by fastforce+
        then show ?thesis using siftf_frame [OF pos(4), of i cmp g] pos by (simp add: g_def)
      qed
      have root: "siftf cmp g rt (k - 2) h = f rt" using siftf_frame [OF pos(4) apart(1), of cmp g] by (simp add: g_def)
      have "siftf cmp g rt (k - 2) rt \<in> g ` {i. in_tree rt (k - 2) i}"
        using siftf_image [OF pos(4), of "{i. in_tree rt (k - 2) i}" cmp g] by (metis imageI in_tree_root mem_Collect_eq)
      then obtain i where i: "in_tree rt (k - 2) i" "siftf cmp g rt (k - 2) rt = g i" by auto
      have "cmp (g i) (f rt) \<le> 0"
        using heap_max [OF 1(3) pos(4) sub(1) i(1)] le(1) apart(1) i(1) by (cases "i = rt"; cases "i = h") (auto simp: g_def)
      moreover have "heap cmp (siftf cmp g rt (k - 2)) lf (k - 1)"
        using heap_cong [OF pos(3) fr] sub(2) by simp
      ultimately show ?thesis unfolding unf g_def [symmetric] using r H fr [of lf] root i(2) le(2)
        by (intro heap_intro) (simp add: rt_def lf_def)
    qed
  qed simp
qed

lemma siftf_root:
  assumes "total_cmp cmp" "leo k \<le> h + 1" "subheaps cmp f h k" "in_tree h k i"
  shows "cmp (f i) (siftf cmp f h k h) \<le> 0"
proof -
  have "f i \<in> siftf cmp f h k ` {i. in_tree h k i}"
    using siftf_image [OF assms(2), of "{i. in_tree h k i}" cmp f] assms(4) by auto
  then obtain j where "in_tree h k j" "f i = siftf cmp f h k j" by auto
  then show ?thesis using heap_max [OF assms(1,2) siftf_heap [OF assms(1-3)]] by simp
qed

section \<open>Forests\<close>

text \<open>The trees of orders \<open>ks\<close> that end at \<open>h\<close>, and that their roots ascend.\<close>

fun fits :: "nat \<Rightarrow> nat list \<Rightarrow> bool" where
  "fits h [] = False"
| "fits h [k] \<longleftrightarrow> leo k = h + 1"
| "fits h (k # ks) \<longleftrightarrow> leo k \<le> h \<and> fits (h - leo k) ks"

fun heaps :: "('a \<Rightarrow> 'a \<Rightarrow> int) \<Rightarrow> (nat \<Rightarrow> 'a) \<Rightarrow> nat \<Rightarrow> nat list \<Rightarrow> bool" where
  "heaps cmp f h [] = True"
| "heaps cmp f h (k # ks) \<longleftrightarrow> heap cmp f h k \<and> heaps cmp f (h - leo k) ks"

fun chain :: "('a \<Rightarrow> 'a \<Rightarrow> int) \<Rightarrow> (nat \<Rightarrow> 'a) \<Rightarrow> nat \<Rightarrow> nat list \<Rightarrow> bool" where
  "chain cmp f h (k # k' # ks) \<longleftrightarrow> cmp (f (h - leo k)) (f h) \<le> 0 \<and> chain cmp f (h - leo k) (k' # ks)"
| "chain cmp f h ks = True"

definition ordered :: "('a \<Rightarrow> 'a \<Rightarrow> int) \<Rightarrow> (nat \<Rightarrow> 'a) \<Rightarrow> nat \<Rightarrow> nat list \<Rightarrow> bool" where
  "ordered cmp f h ks \<longleftrightarrow> heaps cmp f h ks \<and> chain cmp f h ks"

lemma fits_order: "fits h (k # ks) \<Longrightarrow> leo k \<le> h + 1"
  by (cases ks) auto

lemma fits_tl: "fits h (k # ks) \<Longrightarrow> ks \<noteq> [] \<Longrightarrow> leo k \<le> h \<and> fits (h - leo k) ks"
  by (cases ks) auto

lemma heaps_cong: "fits h ks \<Longrightarrow> (\<And>i. i \<le> h \<Longrightarrow> f i = g i) \<Longrightarrow> heaps cmp f h ks = heaps cmp g h ks"
proof (induction ks arbitrary: h)
  case (Cons k ks)
  have "heap cmp f h k = heap cmp g h k"
    by (rule heap_cong [OF fits_order [OF Cons.prems(1)]]) (use Cons.prems(2) in \<open>auto simp: in_tree_def\<close>)
  moreover have "heaps cmp f (h - leo k) ks = heaps cmp g (h - leo k) ks"
  proof (cases "ks = []")
    case False
    then show ?thesis using Cons.IH [of "h - leo k"] Cons.prems fits_tl by auto
  qed simp
  ultimately show ?case by simp
qed simp

lemma chain_cong: "(\<And>i. i \<le> h \<Longrightarrow> f i = g i) \<Longrightarrow> chain cmp f h ks = chain cmp g h ks"
  by (induction cmp f h ks rule: chain.induct) auto

lemma ordered_cong: "fits h ks \<Longrightarrow> (\<And>i. i \<le> h \<Longrightarrow> f i = g i) \<Longrightarrow> ordered cmp f h ks = ordered cmp g h ks"
  unfolding ordered_def using heaps_cong [of h ks f g cmp] chain_cong [of h f g cmp ks] by blast

lemma ordered_Cons:
  "ordered cmp f h (k # ks) \<longleftrightarrow> heap cmp f h k \<and> ordered cmp f (h - leo k) ks \<and> (ks \<noteq> [] \<longrightarrow> cmp (f (h - leo k)) (f h) \<le> 0)"
  by (cases ks) (auto simp: ordered_def)

lemma ordered_max:
  assumes "total_cmp cmp" "fits h ks" "ordered cmp f h ks" "i \<le> h"
  shows "cmp (f i) (f h) \<le> 0"
  using assms(2-4)
proof (induction ks arbitrary: h)
  case (Cons k ks)
  show ?case
  proof (cases "in_tree h k i")
    case True
    then show ?thesis using heap_max [OF assms(1) fits_order [OF Cons.prems(1)]] Cons.prems(2) by (simp add: ordered_Cons)
  next
    case False
    then have i: "i \<le> h - leo k" "leo k \<le> h" using Cons.prems(3) by (auto simp: in_tree_def)
    have ne: "ks \<noteq> []" using Cons.prems(1) i by (cases ks) auto
    have "cmp (f i) (f (h - leo k)) \<le> 0"
      by (rule Cons.IH) (use fits_tl [OF Cons.prems(1) ne] Cons.prems(2) i in \<open>simp_all add: ordered_Cons\<close>)
    then show ?thesis using Cons.prems(2) ne cmp_trans [OF assms(1), of "f i" "f (h - leo k)"] by (simp add: ordered_Cons)
  qed
qed simp

section \<open>Trinkling\<close>

definition stops :: "('a \<Rightarrow> 'a \<Rightarrow> int) \<Rightarrow> (nat \<Rightarrow> 'a) \<Rightarrow> 'a \<Rightarrow> nat \<Rightarrow> nat \<Rightarrow> bool \<Rightarrow> bool" where
  "stops cmp f x h k trusty \<longleftrightarrow> cmp (f (h - leo k)) x \<le> 0 \<or>
     \<not> trusty \<and> k > 1 \<and> (cmp (f (h - 1)) (f (h - leo k)) \<ge> 0 \<or> cmp (f (h - 1 - leo (k - 2))) (f (h - leo k)) \<ge> 0)"

fun trinklef :: "('a \<Rightarrow> 'a \<Rightarrow> int) \<Rightarrow> (nat \<Rightarrow> 'a) \<Rightarrow> nat \<Rightarrow> nat list \<Rightarrow> bool \<Rightarrow> nat \<Rightarrow> 'a" where
  "trinklef cmp f h [] trusty = f"
| "trinklef cmp f h (k # ks) trusty =
     (if ks \<noteq> [] \<and> \<not> stops cmp f (f h) h k trusty then trinklef cmp (swap h (h - leo k) f) (h - leo k) ks False
      else if trusty then f else siftf cmp f h k)"

lemma trinklef_keeps:
  assumes "fits h ks" "\<And>i j f. i \<le> h \<Longrightarrow> j \<le> h \<Longrightarrow> P (swap i j f) = P f"
  shows "P (trinklef cmp f h ks trusty) = P f"
  using assms
proof (induction cmp f h ks trusty rule: trinklef.induct)
  case (2 cmp f h k ks trusty)
  show ?case
  proof (cases "ks \<noteq> [] \<and> \<not> stops cmp f (f h) h k trusty")
    case True
    then have "P (trinklef cmp (swap h (h - leo k) f) (h - leo k) ks False) = P (swap h (h - leo k) f)"
      using 2(1) [OF True] fits_tl [OF 2(2)] 2(3) by simp
    then show ?thesis using True 2(3) by simp
  next
    case False
    have "P (siftf cmp f h k) = P f" by (rule siftf_keeps [OF fits_order [OF 2(2)]]) (use 2(3) in \<open>auto simp: in_tree_def\<close>)
    then show ?thesis using False by auto
  qed
qed simp

lemma trinklef_frame: "fits h ks \<Longrightarrow> h < i \<Longrightarrow> trinklef cmp f h ks trusty i = f i"
  by (rule trinklef_keeps [where P = "\<lambda>f. f i"]) auto

lemma trinklef_image: "fits h ks \<Longrightarrow> trinklef cmp f h ks trusty ` {..h} = f ` {..h}"
  by (rule trinklef_keeps) (auto intro!: swap_image)

lemma trinklef_elements: "fits h ks \<Longrightarrow> h < n \<Longrightarrow> elements n (trinklef cmp f h ks trusty) = elements n f"
  by (rule trinklef_keeps) (auto intro!: swap_elements)

theorem trinklef_ordered:
  assumes "total_cmp cmp" "fits h (k # ks)" "ordered cmp f (h - leo k) ks"
    and "if trusty then heap cmp f h k else subheaps cmp f h k"
  shows "ordered cmp (trinklef cmp f h (k # ks) trusty) h (k # ks)"
  using assms(2-4)
proof (induction ks arbitrary: f h k trusty)
  case Nil
  have "leo k \<le> h + 1" using Nil(1) by simp
  then show ?case using Nil siftf_heap [OF assms(1), of k h f] by (auto simp: ordered_def)
next
  case (Cons k' ks)
  define s where "s = h - leo k"
  have k: "leo k \<le> h" "leo k \<le> h + 1" "fits s (k' # ks)" using Cons.prems(1) by (auto simp: s_def)
  have ord: "ordered cmp f s (k' # ks)" using Cons.prems(2) by (simp add: s_def)
  have tree: "in_tree h k i \<longleftrightarrow> s < i \<and> i \<le> h" for i using k(1) by (auto simp: in_tree_def s_def)
  have ch: "in_tree h k (h - 1) \<and> in_tree h k (h - 1 - leo (k - 2))" if "k > 1"
    using tree_split [OF that k(2)] in_tree_root by blast
  have s: "s < h" using below_tree [OF k(1)] by (simp add: s_def)
  show ?case
  proof (cases "stops cmp f (f h) h k trusty")
    case False
    define g where "g = swap h s f"
    define f' where "f' = trinklef cmp g s (k' # ks) False"
    have eq: "trinklef cmp f h (k # k' # ks) trusty = f'" using False by (simp add: f'_def g_def s_def)
    have gt: "\<not> cmp (f s) (f h) \<le> 0" using False by (auto simp: stops_def s_def)
    have below: "cmp (f h) (f s) \<le> 0" using gt cmp_total [OF assms(1)] by blast
    have gord: "ordered cmp f' s (k' # ks)" unfolding f'_def
    proof (rule Cons.IH [OF k(3)])
      have "ordered cmp f (s - leo k') ks" using ord by (simp add: ordered_Cons)
      then show "ordered cmp g (s - leo k') ks"
      proof (cases "ks = []")
        case ne: False
        then have "fits (s - leo k') ks" "s - leo k' < s" using fits_tl [OF k(3)] by (simp_all add: below_tree)
        then show ?thesis using \<open>ordered cmp f (s - leo k') ks\<close> ordered_cong [of "s - leo k'" ks f g cmp] s by (simp add: g_def)
      qed (simp add: ordered_def)
      have "subheaps cmp f s k'" using ord heap_subheaps by (auto simp: ordered_Cons)
      then show "if False then heap cmp g s k' else subheaps cmp g s k'"
        using subheaps_cong [OF fits_order [OF k(3)], of f g cmp] s by (simp add: g_def in_tree_def)
    qed
    have fr: "f' i = g i" if "s < i" for i unfolding f'_def by (rule trinklef_frame [OF k(3) that])
    have hp: "heap cmp f' h k"
    proof (rule heap_intro)
      assume k1: "k > 1"
      have eqs: "f' h = f s" "f' (h - 1) = f (h - 1)" "f' (h - 1 - leo (k - 2)) = f (h - 1 - leo (k - 2))"
        using fr tree ch [OF k1] children(3,4) [OF k1 k(2)] s by (auto simp: g_def)
      have sub: "subheaps cmp f h k" using Cons.prems(3) heap_subheaps by (auto split: if_splits)
      then have "subheaps cmp f' h k"
        using subheaps_cong [OF k(2), of f f' cmp] fr tree by (simp add: g_def)
      moreover have "cmp (f (h - 1)) (f s) \<le> 0 \<and> cmp (f (h - 1 - leo (k - 2))) (f s) \<le> 0"
      proof (cases trusty)
        case True
        then have "heap cmp f h k" using Cons.prems(3) by simp
        then show ?thesis using heap_max [OF assms(1) k(2)] ch [OF k1] below cmp_trans [OF assms(1), of _ "f h" "f s"] by blast
      next
        case nt: False
        then show ?thesis using False k1 cmp_total [OF assms(1)] cmp_sign [OF assms(1)] by (auto simp: stops_def s_def) 
      qed
      ultimately show "cmp (f' (h - 1)) (f' h) \<le> 0 \<and> cmp (f' (h - 1 - leo (k - 2))) (f' h) \<le> 0 \<and>
          heap cmp f' (h - 1) (k - 2) \<and> heap cmp f' (h - 1 - leo (k - 2)) (k - 1)"
        unfolding eqs using k1 by (simp add: subheaps_def)
    qed
    have "f' s \<in> g ` {..s}" unfolding f'_def using trinklef_image [OF k(3), of cmp g False] by (metis atMost_iff imageI order_refl)
    then obtain i where i: "i \<le> s" "f' s = g i" by auto
    have "cmp (g i) (f s) \<le> 0"
      using i(1) s below ordered_max [OF assms(1) k(3) ord i(1)] by (cases "i = s") (auto simp: g_def)
    then have "cmp (f' s) (f' h) \<le> 0" using i fr [OF s] by (simp add: g_def)
    then show ?thesis unfolding eq using hp gord by (simp add: ordered_Cons [of cmp f' h] s_def)
  next
    case True
    define f' where "f' = (if trusty then f else siftf cmp f h k)"
    have eq: "trinklef cmp f h (k # k' # ks) trusty = f'" using True by (simp add: f'_def)
    have hp: "heap cmp f' h k" using Cons.prems(3) siftf_heap [OF assms(1) k(2)] by (auto simp: f'_def)
    have low: "f' i = f i" if "i \<le> s" for i using siftf_frame [OF k(2), of i cmp f] tree that by (auto simp: f'_def)
    have root: "cmp (f i) (f' h) \<le> 0" if "in_tree h k i" for i
      using siftf_root [OF assms(1) k(2) _ that] heap_max [OF assms(1) k(2) _ that] Cons.prems(3) by (auto simp: f'_def)
    have "\<exists>i. in_tree h k i \<and> cmp (f s) (f i) \<le> 0"
    proof (cases "cmp (f s) (f h) \<le> 0")
      case False
      then have "k > 1" "cmp (f (h - 1)) (f s) \<ge> 0 \<or> cmp (f (h - 1 - leo (k - 2))) (f s) \<ge> 0"
        using True by (auto simp: stops_def s_def)
      then show ?thesis using ch cmp_sign [OF assms(1)] by blast
    qed (use in_tree_root in blast)
    then have "cmp (f' s) (f' h) \<le> 0" using root cmp_trans [OF assms(1), of "f s" _ "f' h"] low [of s] by auto
    then show ?thesis unfolding eq
      using hp ord ordered_cong [OF k(3), of f' f cmp] low by (simp add: ordered_Cons [of cmp f' h] s_def)
  qed
qed

declare trinklef.simps(2) [simp del]

end
