(* ===== verification/Smoothsort.thy ===== *)
theory Smoothsort
  imports Leonardo
begin

text \<open>
  The two loops of qsort on the abstract view: building the heap, and taking the elements off it.
\<close>

section \<open>The orders of the trees\<close>

text \<open>Only the last two trees may have adjacent orders, and a tree of order 0 follows one of order 1.\<close>

fun gaps :: "nat list \<Rightarrow> bool" where
  "gaps (k # k' # ks) \<longleftrightarrow> k + 2 \<le> k' \<and> gaps (k' # ks)"
| "gaps ks = True"

fun shape :: "nat list \<Rightarrow> bool" where
  "shape [] = False"
| "shape [k] \<longleftrightarrow> 0 < k"
| "shape (k # k' # ks) \<longleftrightarrow> k < k' \<and> gaps (k' # ks) \<and> (k = 0 \<longrightarrow> k' = 1)"

definition adjacent :: "nat list \<Rightarrow> bool" where
  "adjacent ks = (case ks of k # k' # _ \<Rightarrow> k' = k + 1 | _ \<Rightarrow> False)"

definition build_orders :: "nat list \<Rightarrow> nat list" where
  "build_orders ks = (if adjacent ks then (hd ks + 2) # tl (tl ks) else (if hd ks = 1 then 0 else 1) # ks)"

definition sort_orders :: "nat list \<Rightarrow> nat list" where
  "sort_orders ks = (if hd ks \<le> 1 then tl ks else (hd ks - 2) # (hd ks - 1) # tl ks)"

lemma gaps_tl: "gaps (k # ks) \<Longrightarrow> gaps ks"
  by (cases ks) auto

lemma shape_tl: "shape (k # ks) \<Longrightarrow> gaps ks \<and> 0 \<notin> set ks"
proof -
  have "gaps (k # ks) \<Longrightarrow> 0 \<notin> set ks" for k ks
    by (induction ks arbitrary: k) auto
  then show "shape (k # ks) \<Longrightarrow> ?thesis" by (cases ks) auto
qed

lemma shape_gaps: "gaps (k # ks) \<Longrightarrow> 0 < k \<Longrightarrow> shape (k # ks)"
  by (cases ks) auto

lemma shape_build: "shape ks \<Longrightarrow> shape (build_orders ks)"
proof (induction ks rule: shape.induct)
  case (3 k k' ks)
  then show ?case by (cases ks) (auto simp: build_orders_def adjacent_def)
qed (auto simp: build_orders_def adjacent_def)

lemma shape_sort: "shape ks \<Longrightarrow> ks \<noteq> [1] \<Longrightarrow> shape (sort_orders ks)"
proof (induction ks rule: shape.induct)
  case (3 k k' ks)
  then show ?case by (auto simp: sort_orders_def shape_gaps)
qed (auto simp: sort_orders_def)

lemma fits_build:
  assumes "fits h ks"
  shows "fits (h + 1) (build_orders ks)"
proof (cases "adjacent ks")
  case True
  then obtain k r where ks: "ks = k # (k + 1) # r" by (auto simp: adjacent_def split: list.splits)
  have "leo (k + 2) = leo (k + 1) + leo k + 1" by simp
  moreover have "h + 1 - (leo (k + 1) + leo k + 1) = h - leo k - leo (k + 1)" by simp
  ultimately show ?thesis using assms True unfolding ks by (cases r) (auto simp: build_orders_def)
next
  case False
  obtain k r where "ks = k # r" using assms by (cases ks) auto
  then show ?thesis using assms False by (auto simp: build_orders_def)
qed

lemma fits_sort:
  assumes "fits h (k # ks)"
  shows "k \<le> 1 \<Longrightarrow> ks \<noteq> [] \<Longrightarrow> fits (h - 1) ks \<and> 0 < h"
    and "1 < k \<Longrightarrow> fits (h - 1) ((k - 2) # (k - 1) # ks)"
    and "1 < k \<Longrightarrow> fits (h - 1 - leo (k - 2)) ((k - 1) # ks)"
proof -
  show "fits (h - 1) ks \<and> 0 < h" if "k \<le> 1" "ks \<noteq> []"
    using fits_tl [OF assms that(2)] that(1) by (cases k rule: leo.cases) auto
  show 1: "fits (h - 1 - leo (k - 2)) ((k - 1) # ks)" if "1 < k"
  proof -
    have "leo k = leo (k - 1) + leo (k - 2) + 1" using leo_split that by simp
    moreover from this have "h - 1 - leo (k - 2) - leo (k - 1) = h - leo k" by simp
    moreover have "ks \<noteq> [] \<Longrightarrow> leo (k - 1) \<le> h - 1 - leo (k - 2)" "leo (k - 2) < h"
      using calculation(1) fits_tl [OF assms] fits_order [OF assms] leo_pos [of "k - 1"] by linarith+
    ultimately show ?thesis using assms fits_order [OF assms] by (cases ks) auto
  qed
  show "fits (h - 1) ((k - 2) # (k - 1) # ks)" if "1 < k"
  proof -
    note c = children [OF that fits_order [OF assms]]
    have "leo (k - 2) \<le> h - 1" using c(3,5) by linarith+
    then show ?thesis using 1 [OF that] by simp
  qed
qed

lemma fits_sum: "fits h ks \<Longrightarrow> sum_list (map leo ks) = h + 1"
  by (induction h ks rule: fits.induct) auto

lemma fits_bound: "fits h ks \<Longrightarrow> k \<in> set ks \<Longrightarrow> leo k \<le> h + 1"
  using fits_sum [of h ks] member_le_sum_list [of "leo k" "map leo ks"] by auto

section \<open>Building\<close>

definition buildf :: "('a \<Rightarrow> 'a \<Rightarrow> int) \<Rightarrow> nat \<Rightarrow> (nat \<Rightarrow> 'a) \<Rightarrow> nat \<Rightarrow> nat list \<Rightarrow> nat \<Rightarrow> 'a" where
  "buildf cmp n f h ks =
     (if \<not> adjacent ks \<and> n \<le> h + 1 + leo (hd ks - 1) then trinklef cmp f h ks False else siftf cmp f h (hd ks))"

text \<open>A tree after which no sibling can be completed is settled: from it to the left the roots ascend.\<close>

fun settled :: "('a \<Rightarrow> 'a \<Rightarrow> int) \<Rightarrow> nat \<Rightarrow> (nat \<Rightarrow> 'a) \<Rightarrow> nat \<Rightarrow> nat list \<Rightarrow> bool" where
  "settled cmp n f h [] = True"
| "settled cmp n f h (k # ks) \<longleftrightarrow> (n \<le> h + 1 + leo (k - 1) \<longrightarrow> chain cmp f h (k # ks)) \<and> settled cmp n f (h - leo k) ks"

definition building :: "('a \<Rightarrow> 'a \<Rightarrow> int) \<Rightarrow> nat \<Rightarrow> (nat \<Rightarrow> 'a) \<Rightarrow> nat \<Rightarrow> nat list \<Rightarrow> bool" where
  "building cmp n f h ks \<longleftrightarrow> subheaps cmp f h (hd ks) \<and>
     heaps cmp f (h - leo (hd ks)) (tl ks) \<and> settled cmp n f (h - leo (hd ks)) (tl ks)"

lemma settled_cong: "(\<And>i. i \<le> h \<Longrightarrow> f i = g i) \<Longrightarrow> settled cmp n f h ks = settled cmp n g h ks"
proof (induction ks arbitrary: h)
  case (Cons k ks)
  then show ?case using chain_cong [of h f g cmp "k # ks"] by auto
qed simp

lemma chain_settled: "chain cmp f h ks \<Longrightarrow> settled cmp n f h ks"
proof (induction ks arbitrary: h)
  case (Cons k ks)
  have "chain cmp f (h - leo k) ks" using Cons.prems by (cases ks) simp_all
  then show ?case using Cons by simp
qed simp

text \<open>When the last tree but one cannot get a sibling any more, its left neighbours cannot either.\<close>

lemma settled_chain:
  assumes "settled cmp n f h ks" "n \<le> h + 1 + leo (hd ks - 1)"
  shows "chain cmp f h ks"
  using assms by (cases ks) auto

lemma settled_next:
  assumes "leo k \<le> h" "k + 2 \<le> k'" "0 < k" "n \<le> h + 1 + leo (k - 1)"
  shows "n \<le> (h - leo k) + 1 + leo (k' - 1)"
proof -
  have "leo (k + 1) = leo k + leo (k - 1) + 1" using leo_split [of "k + 1"] assms(3) by simp
  moreover have "leo (k + 1) \<le> leo (k' - 1)" using assms(2) by (intro leo_mono) simp
  ultimately show ?thesis using assms(1,4) by linarith
qed

lemma building_step:
  assumes "total_cmp cmp" "shape ks" "fits h ks" "building cmp n f h ks"
  shows "building cmp n (buildf cmp n f h ks) (h + 1) (build_orders ks)"
proof -
  obtain k r where ks: "ks = k # r" using assms(2) by (cases ks) auto
  have k: "leo k \<le> h + 1" using fits_order assms(3) ks by simp
  have b: "subheaps cmp f h k" "heaps cmp f (h - leo k) r" "settled cmp n f (h - leo k) r"
    using assms(4) by (auto simp: building_def ks)
  define f' where "f' = buildf cmp n f h ks"
  have sifted: "heap cmp f' h k \<and> heaps cmp f' (h - leo k) r \<and> settled cmp n f' (h - leo k) r" if "f' = siftf cmp f h k"
  proof (cases "r = []")
    case False
    have low: "f' i = f i" if "i \<le> h - leo k" for i
    proof -
      have "\<not> in_tree h k i" using that fits_tl [of h k r] assms(3) ks False by (auto simp: in_tree_def)
      then show ?thesis using siftf_frame [OF k, of i cmp f] \<open>f' = siftf cmp f h k\<close> by simp
    qed
    have "fits (h - leo k) r" using fits_tl assms(3) ks False by blast
    then show ?thesis using b heaps_cong [of "h - leo k" r f' f cmp] settled_cong [of "h - leo k" f' f cmp n r] low
        siftf_heap [OF assms(1) k b(1)] that by simp
  qed (use siftf_heap [OF assms(1) k b(1)] that in simp)
  show ?thesis
  proof (cases "adjacent ks")
    case True
    then obtain r' where r: "r = (k + 1) # r'" by (auto simp: adjacent_def ks split: list.splits)
    have "f' = siftf cmp f h k" using True by (simp add: f'_def buildf_def ks)
    note s = sifted [OF this]
    have pos: "h + 1 - leo (k + 2) = h - leo k - leo (k + 1)" by simp
    then show ?thesis unfolding f'_def [symmetric] using True s
      by (auto simp: building_def build_orders_def ks r subheaps_def)
  next
    case False
    have "heaps cmp f' h ks \<and> settled cmp n f' h ks"
    proof (cases "n \<le> h + 1 + leo (k - 1)")
      case True
      have "chain cmp f (h - leo k) r"
      proof (cases r)
        case (Cons k' r')
        have "k + 2 \<le> k'" "0 < k" using assms(2) False by (auto simp: ks Cons adjacent_def)
        moreover have "leo k \<le> h" using assms(3) by (simp add: ks Cons)
        ultimately show ?thesis using settled_chain [OF b(3)] settled_next [of k h k' n] True Cons by simp
      qed simp
      then have "ordered cmp f (h - leo k) r" using b(2) by (simp add: ordered_def)
      then have "ordered cmp f' h ks"
        using trinklef_ordered [OF assms(1), of h k r f False] assms(3) b(1) True False by (simp add: f'_def buildf_def ks)
      then show ?thesis by (simp add: ordered_def chain_settled)
    next
      case un: False
      then have "f' = siftf cmp f h k" using False by (simp add: f'_def buildf_def ks)
      then show ?thesis using sifted un by (simp add: ks)
    qed
    then show ?thesis unfolding f'_def [symmetric] using False
      by (auto simp: building_def build_orders_def subheaps_def)
  qed
qed

lemma building_done:
  assumes "total_cmp cmp" "shape ks" "fits h ks" "building cmp (h + 1) f h ks"
  shows "ordered cmp (trinklef cmp f h ks False) h ks"
proof -
  obtain k r where ks: "ks = k # r" using assms(2) by (cases ks) auto
  have b: "subheaps cmp f h k" "heaps cmp f (h - leo k) r" "settled cmp (h + 1) f (h - leo k) r"
    using assms(4) by (auto simp: building_def ks)
  have "chain cmp f (h - leo k) r"
  proof (cases r)
    case (Cons k' r')
    have "leo k \<le> h" "k < k'" using assms(2,3) by (simp_all add: ks Cons)
    moreover have "leo k \<le> leo (k' - 1)" using \<open>k < k'\<close> by (intro leo_mono) simp
    ultimately have "h + 1 \<le> (h - leo k) + 1 + leo (k' - 1)" by linarith
    then show ?thesis using settled_chain [OF b(3)] Cons by simp
  qed simp
  then have "ordered cmp f (h - leo k) r" using b(2) by (simp add: ordered_def)
  then show ?thesis using trinklef_ordered [OF assms(1), of h k r f False] assms(3) b(1) by (simp add: ks)
qed

lemma buildf_elements: "fits h ks \<Longrightarrow> h < n \<Longrightarrow> elements n (buildf cmp m f h ks) = elements n f"
  unfolding buildf_def using trinklef_elements [of h ks n] siftf_elements [of "hd ks" h n] fits_order
  by (cases ks) auto

section \<open>Taking off\<close>

definition sortf :: "('a \<Rightarrow> 'a \<Rightarrow> int) \<Rightarrow> (nat \<Rightarrow> 'a) \<Rightarrow> nat \<Rightarrow> nat list \<Rightarrow> nat \<Rightarrow> 'a" where
  "sortf cmp f h ks = (let k = hd ks in
     if k \<le> 1 then f
     else trinklef cmp (trinklef cmp f (h - 1 - leo (k - 2)) ((k - 1) # tl ks) True) (h - 1) ((k - 2) # (k - 1) # tl ks) True)"

text \<open>What is behind \<open>h\<close> has its place.\<close>

definition placed :: "('a \<Rightarrow> 'a \<Rightarrow> int) \<Rightarrow> nat \<Rightarrow> (nat \<Rightarrow> 'a) \<Rightarrow> nat \<Rightarrow> bool" where
  "placed cmp n f h \<longleftrightarrow> (\<forall>i j. i \<le> j \<and> j < n \<and> h < j \<longrightarrow> cmp (f i) (f j) \<le> 0)"

lemma sortf_keeps:
  assumes "fits h ks" "0 < h" "\<And>i j f. i < h \<Longrightarrow> j < h \<Longrightarrow> P (swap i j f) = P f"
  shows "P (sortf cmp f h ks) = P f"
proof -
  obtain k r where ks: "ks = k # r" using assms(1) by (cases ks) auto
  show ?thesis
  proof (cases "k \<le> 1")
    case False
    note f = fits_sort(2,3) [of h k r]
    have "P (trinklef cmp f (h - 1 - leo (k - 2)) ((k - 1) # r) True) = P f" for f
      by (rule trinklef_keeps [OF f(2)]) (use assms False ks in auto)
    moreover have "P (trinklef cmp f (h - 1) ((k - 2) # (k - 1) # r) True) = P f" for f
      by (rule trinklef_keeps [OF f(1)]) (use assms False ks in auto)
    ultimately show ?thesis using False by (simp add: sortf_def ks Let_def)
  qed (simp add: sortf_def ks)
qed

lemma sortf_ordered:
  assumes "total_cmp cmp" "fits h (k # ks)" "ordered cmp f h (k # ks)" "k # ks \<noteq> [1]" "shape (k # ks)"
  shows "ordered cmp (sortf cmp f h (k # ks)) (h - 1) (sort_orders (k # ks))"
proof (cases "k \<le> 1")
  case True
  then have "leo k = 1" by (cases k rule: leo.cases) auto
  then show ?thesis using assms(3) True by (simp add: sortf_def sort_orders_def ordered_Cons)
next
  case False
  then have k: "1 < k" by simp
  define lf where "lf = h - 1 - leo (k - 2)"
  define g where "g = trinklef cmp f lf ((k - 1) # ks) True"
  have hp: "heap cmp f (h - 1) (k - 2)" "heap cmp f lf (k - 1)"
    using heap_subheaps [of cmp f h k] assms(3) k by (auto simp: ordered_Cons subheaps_def lf_def)
  have tl: "lf - leo (k - 1) = h - leo k" using leo_split [of k] k by (simp add: lf_def)
  have fl: "fits lf ((k - 1) # ks)" "fits (h - 1) ((k - 2) # (k - 1) # ks)" using fits_sort(2,3) [OF assms(2) k] by (auto simp: lf_def)
  have "ordered cmp g lf ((k - 1) # ks)" unfolding g_def
    by (rule trinklef_ordered [OF assms(1) fl(1)]) (use assms(3) tl hp(2) in \<open>simp_all add: ordered_Cons\<close>)
  moreover have "heap cmp g (h - 1) (k - 2)"
  proof (rule heap_cong [THEN iffD1, OF _ _ hp(1)])
    show "leo (k - 2) \<le> h - 1 + 1" by (rule children(2) [OF k fits_order [OF assms(2)]])
    show "f i = g i" if "in_tree (h - 1) (k - 2) i" for i
    proof -
      have "lf < i" using that children(5) [OF k fits_order [OF assms(2)]] unfolding in_tree_def lf_def by linarith
      then show ?thesis unfolding g_def using trinklef_frame [OF fl(1), of i cmp f True] by simp
    qed
  qed
  ultimately have "ordered cmp (trinklef cmp g (h - 1) ((k - 2) # (k - 1) # ks) True) (h - 1) ((k - 2) # (k - 1) # ks)"
    by (intro trinklef_ordered [OF assms(1) fl(2)]) (simp_all add: lf_def)
  then show ?thesis using False by (simp add: sortf_def sort_orders_def g_def lf_def Let_def)
qed

lemma sortf_placed:
  assumes "total_cmp cmp" "fits h ks" "ordered cmp f h ks" "placed cmp n f h" "0 < h"
  shows "placed cmp n (sortf cmp f h ks) (h - 1)"
proof -
  define g where "g = sortf cmp f h ks"
  have same: "g i = f i" if "h \<le> i" for i unfolding g_def by (rule sortf_keeps [OF assms(2,5)]) (use that in simp)
  have img: "g ` {..<h} = f ` {..<h}" unfolding g_def by (rule sortf_keeps [OF assms(2,5)]) (auto intro!: swap_image)
  have p: "cmp (f i) (f j) \<le> 0" if "i \<le> j" "j < n" "h \<le> j" for i j
    using that assms(4) ordered_max [OF assms(1-3), of i] by (cases "j = h") (auto simp: placed_def)
  have "cmp (g i) (g j) \<le> 0" if "i \<le> j" "j < n" "h \<le> j" for i j
  proof (cases "i < h")
    case True
    then obtain i' where "i' < h" "g i = f i'" using img by (metis imageE imageI lessThan_iff)
    then show ?thesis using p [of i' j] that same by simp
  qed (use p [OF that] that same in simp)
  then show ?thesis unfolding placed_def g_def [symmetric] using assms(5) by (metis Suc_leI Suc_pred')
qed

end
