(* ===== verification/Qsort_Bits.thy ===== *)
theory Qsort_Bits
  imports Qsort Smoothsort
begin

text \<open>
  The bit set of qsort: the orders of the trees relative to the last one.  The operations on the two
  words are the operations on the number they make up, as long as shifts stay below 32.
\<close>

primrec leos :: "nat \<Rightarrow> nat \<times> nat" where
  "leos 0 = (1, 1)"
| "leos (Suc k) = (case leos k of (a, b) \<Rightarrow> (b, b + a + 1))"

lemma leos_numeral: "leos (numeral n) = (case leos (pred_numeral n) of (a, b) \<Rightarrow> (b, b + a + 1))"
  by (subst numeral_eq_Suc) (rule leos.simps(2))

lemma leo_33: "leo 33 = 11405773"
proof -
  have "leos k = (leo k, leo (Suc k))" for k by (induction k) simp_all
  moreover have "leos 1 = (1, 3)" by simp
  then have "fst (leos 33) = 11405773" by (simp add: leos_numeral del: One_nat_def)
  ultimately show ?thesis by simp
qed

fun code :: "nat list \<Rightarrow> nat" where
  "code [] = 0"
| "code [k] = 1"
| "code (k # k' # ks) = 1 + 2 ^ (k' - k) * code (k' # ks)"

definition num :: "bits \<Rightarrow> nat" where
  "num p = fst p + 2 ^ 32 * snd p"

definition codes :: "bits \<Rightarrow> nat list \<Rightarrow> bool" where
  "codes p ks \<longleftrightarrow> fst p < 2 ^ 32 \<and> snd p < 2 ^ 32 \<and> num p = code ks"

lemma num_inject: "fst p < 2 ^ 32 \<Longrightarrow> fst q < 2 ^ 32 \<Longrightarrow> num p = num q \<Longrightarrow> p = q"
proof -
  assume a: "fst p < 2 ^ 32" "fst q < 2 ^ 32" "num p = num q"
  then have "num p mod 2 ^ 32 = num q mod 2 ^ 32" "num p div 2 ^ 32 = num q div 2 ^ 32" by simp_all
  then show ?thesis using a(1,2) by (simp add: num_def prod_eq_iff)
qed

lemma low_num: "fst p < 2 ^ 32 \<Longrightarrow> fst p = num p mod 2 ^ 32"
  by (simp add: num_def)

section \<open>Shifts\<close>

lemma shr_num:
  assumes "fst p < 2 ^ 32" "snd p < 2 ^ 32" "0 < n" "n < 32"
  shows "\<exists>q. shr p n = Some q \<and> fst q < 2 ^ 32 \<and> snd q < 2 ^ 32 \<and> num q = num p div 2 ^ n"
proof -
  obtain a b where p: "p = (a, b)" by (cases p)
  have ab: "a < 2 ^ 32" "b < 2 ^ 32" using assms p by simp_all
  have e: "(2::nat) ^ 32 = 2 ^ n * 2 ^ (32 - n)" using assms(4) by (simp flip: power_add)
  have x: "a div 2 ^ n < 2 ^ (32 - n)" using ab(1) unfolding e by (simp add: less_mult_imp_div_less mult.commute)
  have m: "b * 2 ^ (32 - n) mod 2 ^ 32 = (b mod 2 ^ n) * 2 ^ (32 - n)" unfolding e by (simp add: mult_mod_left)
  have q: "shr p n = Some (a div 2 ^ n + (b mod 2 ^ n) * 2 ^ (32 - n), b div 2 ^ n)"
    using assms(3,4) or_low [OF x, of "b mod 2 ^ n"] m
    by (simp add: p drop_bit_eq_div push_bit_eq_mult or.commute)
  have "a div 2 ^ n + (b mod 2 ^ n) * 2 ^ (32 - n) < 2 ^ n * 2 ^ (32 - n)"
  proof -
    have "b mod 2 ^ n + 1 \<le> 2 ^ n" by (simp add: Suc_leI)
    then have "(b mod 2 ^ n + 1) * 2 ^ (32 - n) \<le> 2 ^ n * 2 ^ (32 - n)" by (rule mult_le_mono1)
    then show ?thesis using x by simp
  qed
  moreover have "b div 2 ^ n < 2 ^ 32" using ab(2) by (meson div_le_dividend le_less_trans)
  moreover have "a div 2 ^ n + (b mod 2 ^ n) * 2 ^ (32 - n) + 2 ^ 32 * (b div 2 ^ n) = (a + 2 ^ 32 * b) div 2 ^ n"
  proof -
    have "2 ^ 32 * b = 2 ^ n * (2 ^ (32 - n) * b)" using e by (simp add: ac_simps)
    then have "(a + 2 ^ 32 * b) div 2 ^ n = a div 2 ^ n + 2 ^ (32 - n) * b" by (simp only: div_mult_self2 power_not_zero zero_neq_numeral not_False_eq_True)
    moreover have "2 ^ (32 - n) * b = 2 ^ 32 * (b div 2 ^ n) + (b mod 2 ^ n) * 2 ^ (32 - n)"
    proof -
      have "2 ^ (32 - n) * b = 2 ^ (32 - n) * (2 ^ n * (b div 2 ^ n) + b mod 2 ^ n)" by simp
      then show ?thesis by (simp only: e algebra_simps)
    qed
    ultimately show ?thesis by linarith
  qed
  ultimately show ?thesis using q e by (simp add: num_def p)
qed

lemma shl_num:
  assumes "fst p < 2 ^ 32" "snd p < 2 ^ 32" "0 < n" "n < 32" "num p * 2 ^ n < 2 ^ 64"
  shows "\<exists>q. shl p n = Some q \<and> fst q < 2 ^ 32 \<and> snd q < 2 ^ 32 \<and> num q = num p * 2 ^ n"
proof -
  obtain a b where p: "p = (a, b)" by (cases p)
  have ab: "a < 2 ^ 32" "b < 2 ^ 32" using assms p by simp_all
  have e: "(2::nat) ^ 32 = 2 ^ (32 - n) * 2 ^ n" using assms(4) by (simp flip: power_add)
  have x: "a div 2 ^ (32 - n) < 2 ^ n" using ab(1) unfolding e by (simp add: less_mult_imp_div_less mult.commute)
  have bs: "b * 2 ^ n < 2 ^ 32"
  proof -
    have "2 ^ 32 * (b * 2 ^ n) \<le> num p * 2 ^ n" by (simp add: num_def p algebra_simps)
    also have "\<dots> < 2 ^ 32 * 2 ^ 32" using assms(5) by (simp only: flip: power_add) simp
    finally show ?thesis by (simp only: nat_mult_less_cancel_disj)
  qed
  have m: "a * 2 ^ n mod 2 ^ 32 = (a mod 2 ^ (32 - n)) * 2 ^ n" unfolding e by (simp add: mult_mod_left)
  have q: "shl p n = Some ((a mod 2 ^ (32 - n)) * 2 ^ n, b * 2 ^ n + a div 2 ^ (32 - n))"
    using assms(3,4) or_low [OF x, of b] m bs by (simp add: p drop_bit_eq_div push_bit_eq_mult)
  have "(a mod 2 ^ (32 - n)) * 2 ^ n < 2 ^ 32" using m by (metis mod_less_divisor zero_less_numeral zero_less_power)
  moreover have "b * 2 ^ n + a div 2 ^ (32 - n) < 2 ^ 32"
  proof -
    have "b < 2 ^ (32 - n)" using bs unfolding e by (simp only: mult_less_cancel2)
    then have "(b + 1) * 2 ^ n \<le> 2 ^ (32 - n) * 2 ^ n" by (intro mult_le_mono1) simp
    then show ?thesis using x e by simp
  qed
  moreover have "(a mod 2 ^ (32 - n)) * 2 ^ n + 2 ^ 32 * (b * 2 ^ n + a div 2 ^ (32 - n)) = (a + 2 ^ 32 * b) * 2 ^ n"
  proof -
    have "a * 2 ^ n = (2 ^ (32 - n) * (a div 2 ^ (32 - n)) + a mod 2 ^ (32 - n)) * 2 ^ n" by simp
    also have "\<dots> = 2 ^ 32 * (a div 2 ^ (32 - n)) + (a mod 2 ^ (32 - n)) * 2 ^ n" by (simp only: e algebra_simps)
    finally show ?thesis by (simp add: algebra_simps)
  qed
  ultimately show ?thesis using q by (simp add: num_def p)
qed

lemma ctz_power: "odd q \<Longrightarrow> ctz (2 ^ d * q) = d"
proof (induction d)
  case 0
  then show ?case by (subst ctz.simps) (auto simp: odd_pos)
next
  case (Suc d)
  have "2 ^ Suc d * q \<noteq> 0" "even (2 ^ Suc d * q)" "2 ^ Suc d * q div 2 = 2 ^ d * q" using odd_pos [OF Suc.prems] by simp_all
  then show ?case using Suc by (subst ctz.simps) (simp only: if_False if_True, simp)
qed

lemma pntz_num:
  assumes "fst p < 2 ^ 32" "num p = 1 + 2 ^ d * q" "odd q" "0 < d" "d < 32"
  shows "pntz p = Some d"
proof -
  obtain a b where p: "p = (a, b)" by (cases p)
  have e: "(2::nat) ^ 32 = 2 ^ d * 2 ^ (32 - d)" using assms(5) by (simp flip: power_add)
  define r where "r = q mod 2 ^ (32 - d)"
  have "even ((2::nat) ^ (32 - d))" using assms(5) by simp
  then have r: "odd r" using assms(3) unfolding r_def by (metis dvd_mod_iff)
  have "num p mod 2 ^ 32 = (1 + 2 ^ d * q mod 2 ^ 32) mod 2 ^ 32" unfolding assms(2) by (rule mod_add_right_eq [symmetric])
  also have "2 ^ d * q mod 2 ^ 32 = 2 ^ d * r" unfolding e r_def by (rule mult_mod_right [symmetric])
  also have "(1 + 2 ^ d * r) mod 2 ^ 32 = 1 + 2 ^ d * r"
  proof -
    have "r < 2 ^ (32 - d)" by (simp add: r_def)
    then have "2 ^ d * (r + 1) \<le> 2 ^ d * 2 ^ (32 - d)" by (intro mult_le_mono2) simp
    moreover have "1 < (2::nat) ^ d" using one_less_power [of "2::nat" d] assms(4) by simp
    ultimately show ?thesis using e by simp
  qed
  finally have a: "a = 1 + 2 ^ d * r" using low_num [OF assms(1)] p by simp
  have pos: "2 ^ d * r \<noteq> 0" using odd_pos [OF r] by simp
  have "szsub a 1 = 2 ^ d * r" using a assms(1) p by (subst szsub_small) auto
  then have "ntz (szsub a 1) = Some d" using pos ctz_power [OF r] by (simp add: ntz_def)
  then show ?thesis using assms(4) by (simp add: p)
qed

text \<open>The limits: with an order 32 before the next, the low word is 1, and pntz counts the zeros of 0; shl shifts by the width.\<close>

lemma pntz_undefined: "pntz (1, p1) = None" "shl p 32 = None"
  by (cases p; simp add: ntz_def szsub_def)+

section \<open>Codes of lists of orders\<close>

lemma code_odd: "sorted_wrt (<) ks \<Longrightarrow> ks \<noteq> [] \<Longrightarrow> odd (code ks)"
  by (induction ks rule: code.induct) auto

lemma code_bound:
  assumes "sorted_wrt (<) (k # ks)" "\<forall>i \<in> set (k # ks). i \<le> m"
  shows "code (k # ks) * 2 ^ k < 2 ^ (m + 1)"
  using assms
proof (induction ks arbitrary: k)
  case Nil
  have "(2::nat) ^ k < 2 ^ (m + 1)" using Nil by (intro power_strict_increasing) auto
  then show ?case by simp
next
  case (Cons k' ks)
  have "(2::nat) ^ (k' - k) * 2 ^ k = 2 ^ k'" using Cons.prems(1) by (simp flip: power_add)
  then have "code (k # k' # ks) * 2 ^ k = 2 ^ k + code (k' # ks) * 2 ^ k'" by (simp add: algebra_simps)
  moreover have "(2::nat) ^ k' * 2 ^ (m + 1 - k') = 2 ^ (m + 1)" using Cons.prems by (simp flip: power_add)
  moreover have "code (k' # ks) * 2 ^ k' < 2 ^ (m + 1)" using Cons by simp
  ultimately have "code (k' # ks) < 2 ^ (m + 1 - k')" by (metis mult.commute mult_less_cancel2)
  then have "(code (k' # ks) + 1) * 2 ^ k' \<le> 2 ^ (m + 1 - k') * 2 ^ k'" by (intro mult_le_mono1) simp
  moreover have "(2::nat) ^ k < 2 ^ k'" using Cons.prems(1) by (intro power_strict_increasing) auto
  moreover have "(code (k' # ks) + 1) * 2 ^ k' = code (k' # ks) * 2 ^ k' + 2 ^ k'" by simp
  ultimately show ?case
    using \<open>code (k # k' # ks) * 2 ^ k = _\<close> \<open>2 ^ k' * 2 ^ (m + 1 - k') = 2 ^ (m + 1)\<close> by (simp only: mult.commute [of "2 ^ (m + 1 - k')"])
qed

lemma shape_sorted: "shape ks \<Longrightarrow> sorted_wrt (<) ks"
proof -
  have g: "gaps ks \<Longrightarrow> sorted_wrt (<) ks" for ks
  proof (induction ks rule: gaps.induct)
    case (1 k k' ks)
    then show ?case by fastforce
  qed auto
  show "shape ks \<Longrightarrow> sorted_wrt (<) ks"
  proof (induction ks rule: shape.induct)
    case (3 k k' ks)
    then have "sorted_wrt (<) (k' # ks)" using g [of "k' # ks"] by simp
    then show ?case using 3 by fastforce
  qed auto
qed

text \<open>What the operations need of the orders: they ascend and are at most 33, and 32 where there are several.\<close>

definition orders :: "nat list \<Rightarrow> bool" where
  "orders ks \<longleftrightarrow> ks \<noteq> [] \<and> sorted_wrt (<) ks \<and> (\<forall>k \<in> set ks. k \<le> 33) \<and> (tl ks \<noteq> [] \<longrightarrow> (\<forall>k \<in> set ks. k \<le> 32) \<and> (hd ks = 0 \<longrightarrow> hd (tl ks) = 1))"

lemma orders_tl: "orders (k # k' # ks) \<Longrightarrow> orders (k' # ks) \<and> k < k' \<and> k' - k < 32"
  by (cases "k = 0") (auto simp: orders_def)

lemma codes_single: "codes p ks \<Longrightarrow> orders ks \<Longrightarrow> p = (1, 0) \<longleftrightarrow> tl ks = []"
proof -
  assume a: "codes p ks" "orders ks"
  have "p = (1, 0) \<longleftrightarrow> num p = 1" using num_inject [of p "(1, 0)"] a(1) by (auto simp: codes_def num_def)
  moreover have "code ks = 1 \<longleftrightarrow> tl ks = []"
  proof (cases ks rule: code.cases)
    case (3 k k' ks')
    have "odd (code (k' # ks'))" using a(2) 3 by (intro code_odd) (auto simp: orders_def)
    then show ?thesis using 3 odd_pos [of "code (k' # ks')"] by auto
  qed (use a(2) in \<open>auto simp: orders_def\<close>)
  ultimately show ?thesis using a(1) by (simp add: codes_def)
qed

lemma codes_drop:
  assumes "codes p (k # k' # ks)" "orders (k # k' # ks)"
  shows "pntz p = Some (k' - k) \<and> (\<exists>q. shr p (k' - k) = Some q \<and> codes q (k' # ks))"
proof -
  have o: "odd (code (k' # ks))" using assms(2) by (intro code_odd) (auto simp: orders_def)
  have d: "0 < k' - k" "k' - k < 32" using orders_tl [OF assms(2)] by auto
  have n: "fst p < 2 ^ 32" "snd p < 2 ^ 32" "num p = 1 + 2 ^ (k' - k) * code (k' # ks)" using assms(1) by (auto simp: codes_def)
  have "(1::nat) div 2 ^ (k' - k) = 0" using one_less_power [of "2::nat" "k' - k"] d(1) by simp
  then have "num p div 2 ^ (k' - k) = code (k' # ks)" unfolding n(3) by (subst div_mult_self2) simp_all
  then show ?thesis using pntz_num [OF n(1,3) o d] shr_num [OF n(1,2) d] by (auto simp: codes_def)
qed

lemma codes_adjacent:
  assumes "codes p ks" "orders ks"
  shows "fst p AND 3 = 3 \<longleftrightarrow> adjacent ks"
proof -
  have "fst p AND 3 = fst p mod 4" using take_bit_eq_mask [of 2 "fst p"] by (simp add: take_bit_eq_mod mask_eq_exp_minus_1)
  also have "\<dots> = num p mod 4" by (simp add: num_def mod_add_eq [symmetric] mod_mult_left_eq [symmetric])
  finally have n: "fst p AND 3 = code ks mod 4" using assms(1) by (simp add: codes_def)
  show ?thesis
  proof (cases ks rule: code.cases)
    case (3 k k' r)
    have o: "odd (code (k' # r))" using assms(2) 3 by (intro code_odd) (auto simp: orders_def)
    show ?thesis
    proof (cases "k' = k + 1")
      case True
      obtain c where "code (k' # r) = 2 * c + 1" using o by (auto elim: oddE)
      then have "code ks = 4 * c + 3" using True 3 by simp
      then have "code ks mod 4 = 3" by simp
      then show ?thesis unfolding n using 3 True by (simp add: adjacent_def)
    next
      case False
      then have "k + 2 \<le> k'" using orders_tl [of k k' r] assms(2) 3 by simp
      then obtain d where "k' = k + 2 + d" using le_Suc_ex by blast
      then have "k' - k = Suc (Suc d)" by simp
      then have "code ks = 1 + 4 * (2 ^ d * code (k' # r))" using 3 by simp
      then have "code ks mod 4 = 1" by simp
      then show ?thesis unfolding n using 3 False by (simp add: adjacent_def)
    qed
  qed (use n in \<open>auto simp: adjacent_def\<close>)
qed

lemma set_bit0_num:
  assumes "fst p < 2 ^ 32" "even (num p)"
  shows "fst (set_bit0 p) < 2 ^ 32 \<and> snd (set_bit0 p) = snd p \<and> num (set_bit0 p) = num p + 1"
proof -
  have "even (fst p)" using assms(2) by (simp add: num_def)
  then obtain a where a: "fst p = a * 2" by (metis dvd_div_mult_self)
  then have "fst p OR 1 = fst p + 1" using or_low [of 1 1 a] by simp
  moreover have "fst p + 1 < 2 ^ 32" using a assms(1) by simp
  ultimately show ?thesis by (simp add: set_bit0_def num_def)
qed

lemma codes_merge:
  assumes "codes p (k # (k + 1) # ks)" "gaps ((k + 1) # ks)"
  shows "\<exists>q. shr p 2 = Some q \<and> codes (set_bit0 q) ((k + 2) # ks)"
proof -
  have p: "fst p < 2 ^ 32" "snd p < 2 ^ 32" "num p = code (k # (k + 1) # ks)" using assms(1) by (auto simp: codes_def)
  obtain q where q: "shr p 2 = Some q" "fst q < 2 ^ 32" "snd q < 2 ^ 32" "num q = num p div 4"
    using shr_num [OF p(1,2), of 2] by auto
  have "even (num q) \<and> num q + 1 = code ((k + 2) # ks)"
  proof (cases ks)
    case (Cons k' r)
    obtain d where d: "k' = k + 3 + d" using assms(2) Cons le_Suc_ex [of "k + 3" k'] by auto
    define c where "c = 2 ^ d * code (k' # r)"
    have "k' - (k + 1) = d + 2" "k' - (k + 2) = d + 1" using d by simp_all
    then have "num p = 3 + 4 * (2 * c)" "code ((k + 2) # ks) = 1 + 2 * c"
      unfolding p(3) Cons c_def by simp_all
    then show ?thesis unfolding q(4) by presburger
  qed (use p q in simp)
  then show ?thesis using set_bit0_num [OF q(2)] q by (simp add: codes_def)
qed

lemma shl_code:
  assumes "codes p (k # ks)" "orders (k # ks)" "0 < n" "n \<le> k" "n < 32"
  shows "\<exists>q. shl p n = Some q \<and> fst q < 2 ^ 32 \<and> snd q < 2 ^ 32 \<and> num q = code (k # ks) * 2 ^ n"
proof -
  have p: "fst p < 2 ^ 32" "snd p < 2 ^ 32" "num p = code (k # ks)" using assms(1) by (auto simp: codes_def)
  have "code (k # ks) * 2 ^ n \<le> code (k # ks) * 2 ^ k" using assms(4) by (intro mult_le_mono2 power_increasing) auto
  also have "\<dots> < 2 ^ (33 + 1)" using assms(2) by (intro code_bound) (auto simp: orders_def)
  also have "\<dots> < 2 ^ 64" by simp
  finally show ?thesis using shl_num [OF p(1,2) assms(3,5)] p(3) by simp
qed

lemma codes_push:
  assumes "codes p (k # ks)" "orders (k # ks)" "0 < k - j" "j \<le> k" "k - j < 32"
  shows "\<exists>q. shl p (k - j) = Some q \<and> codes (set_bit0 q) (j # k # ks)"
proof -
  obtain q where q: "shl p (k - j) = Some q" "fst q < 2 ^ 32" "snd q < 2 ^ 32" "num q = code (k # ks) * 2 ^ (k - j)"
    using shl_code [OF assms(1,2,3) _ assms(5)] by auto
  then show ?thesis using set_bit0_num [OF q(2)] assms(3) by (auto simp: codes_def algebra_simps)
qed

lemma xor_7: "x mod 8 = 4 \<Longrightarrow> x XOR 7 = x - 1" for x :: nat
proof -
  assume "x mod 8 = 4"
  then have x: "x = 8 * (x div 8) + 4" by presburger
  have "even x" "even (x div 2)" "odd (x div 2 div 2)" "x div 2 div 2 div 2 = x div 8" using x by presburger+
  then have "x XOR 7 = 8 * (x div 8) + 3" by (simp add: xor_nat_rec [of x] xor_nat_rec [of "x div 2"] xor_nat_rec [of "x div 2 div 2"])
  then show ?thesis using x by simp
qed

lemma codes_split:
  assumes "codes p (k # ks)" "orders (k # ks)" "1 < k"
  shows "\<exists>q r. shl p 2 = Some q \<and> shr (fst q XOR 7, snd q) 1 = Some r \<and> codes r ((k - 1) # ks)"
proof -
  define c where "c = code (k # ks)"
  obtain q where q: "shl p 2 = Some q" "fst q < 2 ^ 32" "snd q < 2 ^ 32" "num q = c * 4"
    using shl_code [OF assms(1,2), of 2] assms(3) c_def by auto
  have "odd c" using assms(2) unfolding c_def by (intro code_odd) (auto simp: orders_def)
  then have "num q mod 8 = 4" unfolding q(4) by presburger
  moreover have "num q mod 8 = fst q mod 8" by (simp add: num_def mod_add_eq [symmetric] mod_mult_left_eq [symmetric])
  ultimately have x: "fst q XOR 7 = fst q - 1" "0 < fst q" using xor_7 [of "fst q"] by (auto intro: gr0I)
  let ?q = "(fst q XOR 7, snd q)"
  have "num ?q + 1 = c * 4" using x q(4) by (simp add: num_def)
  moreover obtain r where r: "shr ?q 1 = Some r" "fst r < 2 ^ 32" "snd r < 2 ^ 32" "num r = num ?q div 2"
    using shr_num [of ?q 1] q(2,3) x by auto
  ultimately have nr: "num r + 1 = 2 * c" by presburger
  have "2 * c = code ((k - 1) # ks) + 1"
  proof (cases ks)
    case (Cons k' s)
    then have "k' - (k - 1) = Suc (k' - k)" using assms(2,3) by (auto simp: orders_def)
    then show ?thesis unfolding c_def Cons by simp
  qed (simp add: c_def)
  then have "codes r ((k - 1) # ks)" using r nr by (simp add: codes_def)
  then show ?thesis using q(1) r(1) by blast
qed

text \<open>A heap inside an array of at most \<open>leo 33\<close> elements has such orders.\<close>

lemma leo_bound: "leo k \<le> leo 33 \<Longrightarrow> k \<le> 33" "leo k < leo 33 \<Longrightarrow> k \<le> 32"
proof -
  show "leo k \<le> leo 33 \<Longrightarrow> k \<le> 33" using leo_strict [of 33 k] by linarith
  show "leo k < leo 33 \<Longrightarrow> k \<le> 32" using leo_mono [of 33 k] by linarith
qed

lemma shape_orders:
  assumes "shape ks" "fits h ks" "h < leo 33"
  shows "orders ks"
proof -
  have le: "k \<le> 33" if "k \<in> set ks" for k
    using leo_bound(1) [of k] fits_bound [OF assms(2) that] assms(3) by linarith
  have lt: "k \<le> 32" if mem: "k \<in> set ks" and ne: "tl ks \<noteq> []" for k
  proof -
    obtain k1 k2 r where ks: "ks = k1 # k2 # r" using assms(1) ne by (cases ks rule: code.cases) auto
    have s: "leo k1 + (leo k2 + sum_list (map leo r)) = h + 1" using fits_sum [OF assms(2)] ks by simp
    have "leo k = leo k1 \<or> leo k = leo k2 \<or> leo k \<le> sum_list (map leo r)"
      using mem ks member_le_sum_list [of "leo k" "map leo r"] by auto
    then have "leo k < h + 1" using s leo_pos [of k1] leo_pos [of k2] by linarith
    then show ?thesis using assms(3) by (intro leo_bound(2)) simp
  qed
  have "hd (tl ks) = 1" if "hd ks = 0" "tl ks \<noteq> []" using assms(1) that by (cases ks rule: code.cases) auto
  then show ?thesis using assms(1) shape_sorted [OF assms(1)] le lt by (cases ks) (auto simp: orders_def)
qed

declare pntz.simps [simp del] shl.simps [simp del] shr.simps [simp del]

end
