(* ===== verification/Qsort_Memory.thy ===== *)
theory Qsort_Memory
  imports Qsort_Bits
begin

text \<open>
  The array of qsort as a function from indices to elements, and that cycle, which moves bytes in chunks,
  moves the elements along the path.
\<close>

definition elems :: "nat \<Rightarrow> 'b list \<Rightarrow> nat \<Rightarrow> 'b list" where
  "elems w mem i = take w (drop (i * w) mem)"

lemma index_bound:
  fixes i n w :: nat
  assumes "i < n" "b \<le> w"
  shows "i * w + b \<le> n * w"
proof -
  have "(i + 1) * w \<le> n * w" using assms(1) by (intro mult_le_mono1) simp
  then show ?thesis using assms(2) by simp
qed

lemma length_elems [simp]: "length mem = n * w \<Longrightarrow> i < n \<Longrightarrow> length (elems w mem i) = w"
  using index_bound [of i n w w] by (simp add: elems_def)

lemma bytes_at_elems: "length mem = n * w \<Longrightarrow> i < n \<Longrightarrow> bytes_at mem (i * w) w = Some (elems w mem i)"
  using index_bound [of i n w w] by (simp add: bytes_at_def elems_def)

lemma compare_elems:
  "length mem = n * w \<Longrightarrow> i < n \<Longrightarrow> j < n \<Longrightarrow> compare cmp w mem (i * w) (j * w) = Some (cmp (elems w mem i) (elems w mem j))"
  using bytes_at_elems [of mem n w i] bytes_at_elems [of mem n w j] by (simp add: compare_def)

lemma bytes_at_part:
  assumes "length mem = n * w" "i < n" "b + l \<le> w"
  shows "bytes_at mem (i * w + b) l = Some (take l (drop b (elems w mem i)))"
proof -
  have "i * w + b + l \<le> n * w" using index_bound [OF assms(2,3)] by simp
  then show ?thesis using assms by (simp add: bytes_at_def elems_def drop_take add.commute min_def)
qed

definition patch :: "nat \<Rightarrow> 'b list \<Rightarrow> 'b list \<Rightarrow> 'b list" where
  "patch b bs x = take b x @ bs @ drop (b + length bs) x"

lemma memcpy_part:
  assumes "length mem = n * w" "i < n" "b + length bs \<le> w"
  shows "\<exists>mem'. memcpy mem (i * w + b) bs = Some mem' \<and> length mem' = n * w \<and>
    elems w mem' = (elems w mem)(i := patch b bs (elems w mem i))"
proof -
  define pre x post where "pre = take (i * w) mem" and "x = elems w mem i" and "post = drop (i * w + w) mem"
  have iw: "i * w + w \<le> length mem" using index_bound [OF assms(2), of w w] assms(1) by simp
  have mem: "mem = pre @ x @ post" unfolding pre_def x_def post_def elems_def
    by (metis append_take_drop_id drop_drop add.commute)
  have len: "length pre = i * w" "length x = w" using iw by (simp_all add: pre_def x_def elems_def)
  define mem' where "mem' = pre @ patch b bs x @ post"
  have lp: "length (patch b bs x) = w" using assms(3) len by (simp add: patch_def)
  have "i * w + b + length bs \<le> length mem" using iw assms(3) by simp
  then have "memcpy mem (i * w + b) bs = Some mem'"
    using len assms(3) unfolding mem mem'_def by (simp add: memcpy_def patch_def)
  moreover have "elems w mem' = (elems w mem)(i := patch b bs (elems w mem i))"
  proof
    fix j
    have hi: "drop (j * w) mem' = drop (j * w) mem" if "i < j"
    proof -
      have "i * w + w \<le> j * w" using index_bound [of i j w w] that by simp
      then show ?thesis using len lp unfolding mem mem'_def by simp
    qed
    have lo: "elems w mem' j = elems w mem j" if "j < i"
      using index_bound [of j i w w] that len unfolding mem mem'_def by (simp add: elems_def)
    have eq: "elems w mem' i = patch b bs x" using len lp unfolding mem'_def by (simp add: elems_def)
    show "elems w mem' j = ((elems w mem)(i := patch b bs (elems w mem i))) j"
      using hi lo eq unfolding x_def by (cases i j rule: linorder_cases) (auto simp: elems_def)
  qed
  ultimately show ?thesis using assms(1) len lp by (metis mem mem'_def length_append)
qed

section \<open>cycle\<close>

fun rotf :: "(nat \<Rightarrow> 'a) \<Rightarrow> nat list \<Rightarrow> nat \<Rightarrow> 'a" where
  "rotf f (p # q # ps) = rotf (swap p q f) (q # ps)"
| "rotf f ps = f"

lemma next_in: "map_of (zip xs ys) x = Some y \<Longrightarrow> x \<in> set xs \<and> y \<in> set ys"
  using map_of_SomeD set_zip_leftD set_zip_rightD by metis

lemma rotf_closed:
  "distinct (p # ps) \<Longrightarrow> rotf f (p # ps) x =
    (if x \<in> set (p # ps) then case map_of (zip (p # ps) ps) x of Some y \<Rightarrow> f y | None \<Rightarrow> f p else f x)"
proof (induction ps arbitrary: f p)
  case (Cons q ps)
  have s: "y \<in> set ps" if "map_of (zip (q # ps) ps) x = Some y" for y
    using that by (meson map_of_SomeD set_zip_rightD)
  show ?case
  proof (cases "map_of (zip (q # ps) ps) x")
    case None
    then show ?thesis using Cons.IH [of q "swap p q f"] Cons.prems by auto
  next
    case (Some y)
    then have "y \<noteq> p" "y \<noteq> q" "x \<noteq> p" using s Cons.prems by (auto dest!: next_in)
    then show ?thesis using Cons.IH [of q "swap p q f"] Cons.prems Some by auto
  qed
qed simp

lemma cycle_chunk_elems:
  assumes "length mem = n * w" "distinct (p # ps)" "\<forall>i \<in> set (p # ps). i < n" "b + l \<le> w" "length tmp = l"
  shows "\<exists>mem'. cycle_chunk l tmp (map (\<lambda>i. i * w + b) (p # ps)) mem = Some mem' \<and> length mem' = n * w \<and>
    elems w mem' = (\<lambda>x. if x \<in> set (p # ps) then
      patch b (case map_of (zip (p # ps) ps) x of Some y \<Rightarrow> take l (drop b (elems w mem y)) | None \<Rightarrow> tmp) (elems w mem x)
      else elems w mem x)"
  using assms
proof (induction ps arbitrary: mem p)
  case Nil
  then show ?case using memcpy_part [of mem n w p b tmp] by (auto simp: fun_eq_iff)
next
  case (Cons q ps)
  have pq: "p < n" "q < n" "p \<noteq> q" using Cons.prems by auto
  define bs where "bs = take l (drop b (elems w mem q))"
  have lb: "length bs = l" using length_elems [OF Cons.prems(1) pq(2)] Cons.prems(4) by (simp add: bs_def)
  obtain mem1 where m1: "memcpy mem (p * w + b) bs = Some mem1" "length mem1 = n * w"
      "elems w mem1 = (elems w mem)(p := patch b bs (elems w mem p))"
    using memcpy_part [of mem n w p b bs] Cons.prems(1,4) pq lb by auto
  have apart: "\<not> (p * w + b < q * w + b + l \<and> q * w + b < p * w + b + l)"
    using index_bound [of p q w w] index_bound [of q p w w] pq(3) Cons.prems(4) by (cases p q rule: linorder_cases) auto
  have run: "cycle_chunk l tmp (map (\<lambda>i. i * w + b) (p # q # ps)) mem = cycle_chunk l tmp (map (\<lambda>i. i * w + b) (q # ps)) mem1"
    using m1(1) bytes_at_part [OF Cons.prems(1) pq(2) Cons.prems(4)] unfolding bs_def list.map cycle_chunk.simps if_not_P [OF apart] by simp
  obtain mem' where m': "cycle_chunk l tmp (map (\<lambda>i. i * w + b) (q # ps)) mem1 = Some mem'" "length mem' = n * w"
      "elems w mem' = (\<lambda>x. if x \<in> set (q # ps) then
        patch b (case map_of (zip (q # ps) ps) x of Some y \<Rightarrow> take l (drop b (elems w mem1 y)) | None \<Rightarrow> tmp) (elems w mem1 x)
        else elems w mem1 x)"
    using Cons.IH [OF m1(2)] Cons.prems(2-5) by auto
  have "elems w mem' x = (if x \<in> set (p # q # ps) then
      patch b (case map_of (zip (p # q # ps) (q # ps)) x of Some y \<Rightarrow> take l (drop b (elems w mem y)) | None \<Rightarrow> tmp) (elems w mem x)
      else elems w mem x)" for x
  proof (cases "map_of (zip (q # ps) ps) x")
    case None
    then show ?thesis using Cons.prems(2) unfolding m'(3) m1(3) by (auto simp: bs_def)
  next
    case (Some y)
    then have "y \<noteq> p" "x \<noteq> p" "x \<in> set (q # ps)"
      using Cons.prems(2) by (auto dest!: next_in)
    then show ?thesis using Some unfolding m'(3) m1(3) by auto
  qed
  then show ?case using run m'(1,2) by auto
qed

lemma cycle_loop_elems:
  assumes "distinct (p # ps)" "\<forall>i \<in> set (p # ps). i < n" "\<And>i. i < n \<Longrightarrow> length (f i) = w"
    and "length mem = n * w" "b \<le> w" "elems w mem = (\<lambda>x. if x \<in> set (p # ps) then take b (rotf f (p # ps) x) @ drop b (f x) else f x)"
  shows "\<exists>mem'. cycle_loop (w - b) (map (\<lambda>i. i * w + b) (p # ps)) mem = Some mem' \<and> length mem' = n * w \<and>
    elems w mem' = rotf f (p # ps)"
  using assms(4-6)
proof (induction "w - b" arbitrary: b mem rule: less_induct)
  case less
  have r: "length (rotf f (p # ps) x) = w" if "x \<in> set (p # ps)" for x
  proof -
    have "y < n" if "map_of (zip (p # ps) ps) x = Some y" for y
      using that assms(2) by (meson list.set_intros(2) map_of_SomeD set_zip_rightD)
    then show ?thesis using assms(2,3) that unfolding rotf_closed [OF assms(1)] by (auto split: option.splits)
  qed
  have out: "rotf f (p # ps) x = f x" if "x \<notin> set (p # ps)" for x using that rotf_closed [OF assms(1), of f x] by simp
  show ?case
  proof (cases "b = w")
    case True
    have "elems w mem = rotf f (p # ps)"
    proof
      fix x show "elems w mem x = rotf f (p # ps) x"
        unfolding less(4) using r [of x] out [of x] assms(2,3) True by auto
    qed
    then show ?thesis using True less(2) by (simp add: cycle_loop.simps)
  next
    case False
    define l where "l = min 256 (w - b)"
    have l: "0 < l" "b + l \<le> w" using False less(3) by (auto simp: l_def)
    have p: "p < n" using assms(2) by simp
    define tmp where "tmp = take l (drop b (elems w mem p))"
    have lt: "length tmp = l" using l(2) length_elems [OF less(2) p] by (simp add: tmp_def)
    have d: "drop b (elems w mem x) = drop b (f x)" if "x \<in> set (p # ps)" for x
      unfolding less(4) using that r [OF that] less(3) by simp
    obtain mem1 where m1: "cycle_chunk l tmp (map (\<lambda>i. i * w + b) (p # ps)) mem = Some mem1" "length mem1 = n * w"
        "elems w mem1 = (\<lambda>x. if x \<in> set (p # ps) then
          patch b (case map_of (zip (p # ps) ps) x of Some y \<Rightarrow> take l (drop b (elems w mem y)) | None \<Rightarrow> tmp) (elems w mem x)
          else elems w mem x)"
      using cycle_chunk_elems [OF less(2) assms(1,2) l(2) lt] by blast
    have "elems w mem1 x = (if x \<in> set (p # ps) then take (b + l) (rotf f (p # ps) x) @ drop (b + l) (f x) else f x)" for x
    proof (cases "x \<in> set (p # ps)")
      case True
      have y: "y \<in> set (p # ps)" if "map_of (zip (p # ps) ps) x = Some y" for y
        using that by (meson list.set_intros(2) map_of_SomeD set_zip_rightD)
      have "(case map_of (zip (p # ps) ps) x of Some y \<Rightarrow> take l (drop b (elems w mem y)) | None \<Rightarrow> tmp) =
          take l (drop b (rotf f (p # ps) x))"
        unfolding rotf_closed [OF assms(1)] tmp_def using True d y by (auto split: option.splits)
      then have "elems w mem1 x = patch b (take l (drop b (rotf f (p # ps) x))) (take b (rotf f (p # ps) x) @ drop b (f x))"
        unfolding m1(3) unfolding less(4) using True by simp
      then show ?thesis using True r [OF True] l(2) by (simp add: patch_def take_add add.commute)
    qed (use less(4) m1(3) in auto)
    then have "\<exists>mem'. cycle_loop (w - (b + l)) (map (\<lambda>i. i * w + (b + l)) (p # ps)) mem1 = Some mem' \<and> length mem' = n * w \<and>
        elems w mem' = rotf f (p # ps)"
      using less(1) [of "b + l" mem1] l m1(2) by (auto simp: fun_eq_iff)
    moreover have "cycle_loop (w - b) (map (\<lambda>i. i * w + b) (p # ps)) mem = cycle_loop (w - (b + l)) (map (\<lambda>i. i * w + (b + l)) (p # ps)) mem1"
    proof -
      have h: "bytes_at mem (hd (map (\<lambda>i. i * w + b) (p # ps))) l = Some tmp"
        using bytes_at_part [OF less(2) p l(2)] by (simp add: tmp_def)
      have m: "map (\<lambda>q. q + l) (map (\<lambda>i. i * w + b) (p # ps)) = map (\<lambda>i. i * w + (b + l)) (p # ps)" by (simp add: add.assoc)
      have "w - b \<noteq> 0" "w - b - l = w - (b + l)" using False less(3) by auto
      then show ?thesis using h m1(1) unfolding m [symmetric]
        by (subst cycle_loop.simps) (simp add: Let_def flip: l_def)
    qed
    ultimately show ?thesis by simp
  qed
qed

lemma cycle_elems:
  assumes "distinct ps" "ps \<noteq> []" "\<forall>i \<in> set ps. i < n" "length mem = n * w"
  shows "\<exists>mem'. cycle w (map (\<lambda>i. i * w) ps) mem = Some mem' \<and> length mem' = n * w \<and> elems w mem' = rotf (elems w mem) ps"
proof -
  obtain p r where ps: "ps = p # r" using assms(2) by (cases ps) auto
  show ?thesis
  proof (cases r)
    case Nil
    then show ?thesis using ps assms(4) by (simp add: cycle_def)
  next
    case (Cons q r')
    have "\<exists>mem'. cycle_loop (w - 0) (map (\<lambda>i. i * w + 0) (p # r)) mem = Some mem' \<and> length mem' = n * w \<and>
        elems w mem' = rotf (elems w mem) (p # r)"
      by (rule cycle_loop_elems) (use assms ps length_elems [OF assms(4)] in auto)
    then show ?thesis using ps Cons by (simp add: cycle_def)
  qed
qed

end
