(* ===== verification/Qsort_Refine.thy ===== *)
theory Qsort_Refine
  imports Qsort_Memory
begin

text \<open>
  The functions of qsort on bytes, offsets and bit sets carry out the operations on the abstract view, and
  nothing they do is undefined.
\<close>

definition scaled :: "nat \<Rightarrow> nat list \<Rightarrow> nat \<Rightarrow> bool" where
  "scaled w lp n \<longleftrightarrow> (\<forall>k. leo k \<le> n \<longrightarrow> at_index lp k = Some (leo k * w))"

lemma psub_index: "j \<le> i \<Longrightarrow> psub (i * w) (j * w) = Some ((i - j) * w)"
  by (simp add: psub_def diff_mult_distrib)

lemma psub_one: "0 < i \<Longrightarrow> psub (i * w) w = Some ((i - 1) * w)"
  using psub_index [of 1 i w] by simp

lemma descending_distinct: "sorted_wrt (>) ps \<Longrightarrow> distinct ps" for ps :: "nat list"
  by (induction ps) auto

section \<open>sift\<close>

function siftpath :: "('a \<Rightarrow> 'a \<Rightarrow> int) \<Rightarrow> (nat \<Rightarrow> 'a) \<Rightarrow> 'a \<Rightarrow> nat \<Rightarrow> nat \<Rightarrow> nat list" where
  "siftpath cmp f x h k =
     (if k > 1 then
        let rt = h - 1; lf = h - 1 - leo (k - 2) in
        if stays cmp x (f lf) (f rt) then []
        else if cmp (f lf) (f rt) \<ge> 0 then lf # siftpath cmp f x lf (k - 1)
        else rt # siftpath cmp f x rt (k - 2)
      else [])"
  by pat_completeness auto
termination by (relation "measure (\<lambda>(cmp, f, x, h, k). k)") auto

declare siftpath.simps [simp del]

lemma siftpath_cong:
  assumes "leo k \<le> h + 1" "\<And>i. i < h \<Longrightarrow> f i = g i"
  shows "siftpath cmp f x h k = siftpath cmp g x h k"
  using assms
proof (induction cmp f x h k rule: siftpath.induct)
  case (1 cmp f x h k)
  show ?case
  proof (cases "k > 1")
    case True
    note c = children [OF True 1(3)]
    have s: "f (h - 1) = g (h - 1)" "f (h - 1 - leo (k - 2)) = g (h - 1 - leo (k - 2))" using 1(4) c by auto
    have l: "siftpath cmp f x (h - 1 - leo (k - 2)) (k - 1) = siftpath cmp g x (h - 1 - leo (k - 2)) (k - 1)"
      if "\<not> stays cmp x (f (h - 1 - leo (k - 2))) (f (h - 1))" "cmp (f (h - 1 - leo (k - 2))) (f (h - 1)) \<ge> 0"
      by (rule 1(1) [OF True refl refl that c(1)]) (use 1(4) c(3,4) in simp)
    have r: "siftpath cmp f x (h - 1) (k - 2) = siftpath cmp g x (h - 1) (k - 2)"
      if "\<not> stays cmp x (f (h - 1 - leo (k - 2))) (f (h - 1))" "\<not> cmp (f (h - 1 - leo (k - 2))) (f (h - 1)) \<ge> 0"
      by (rule 1(2) [OF True refl refl that c(2)]) (use 1(4) c(3,4) in simp)
    show ?thesis using l r s True by (subst (1 2) siftpath.simps) (simp add: Let_def)
  qed (simp add: siftpath.simps)
qed

lemma siftpath_below:
  "leo k \<le> h + 1 \<Longrightarrow> sorted_wrt (>) (h # siftpath cmp f x h k) \<and> length (siftpath cmp f x h k) \<le> k"
proof (induction cmp f x h k rule: siftpath.induct)
  case (1 cmp f x h k)
  show ?case
  proof (cases "k > 1")
    case True
    note c = children [OF True 1(3)]
    define rt lf where "rt = h - 1" and "lf = h - 1 - leo (k - 2)"
    have pos: "lf < h" "rt < h" using c(3,4) by (auto simp: rt_def lf_def)
    have unf: "siftpath cmp f x h k = (if stays cmp x (f lf) (f rt) then []
        else if cmp (f lf) (f rt) \<ge> 0 then lf # siftpath cmp f x lf (k - 1) else rt # siftpath cmp f x rt (k - 2))"
      using True by (subst siftpath.simps) (simp add: Let_def rt_def lf_def)
    note IHl = 1(1) [OF True rt_def lf_def _ _ c(1) [folded lf_def]] and IHr = 1(2) [OF True rt_def lf_def _ _ c(2) [folded rt_def]]
    consider "siftpath cmp f x h k = []" | "\<not> stays cmp x (f lf) (f rt)" "cmp (f lf) (f rt) \<ge> 0"
      | "\<not> stays cmp x (f lf) (f rt)" "\<not> cmp (f lf) (f rt) \<ge> 0" unfolding unf by presburger
    then show ?thesis
    proof cases
      case 2
      then show ?thesis using IHl [OF 2] pos True unfolding unf by auto
    next
      case 3
      then show ?thesis using IHr [OF 3] pos True unfolding unf by auto
    qed simp
  qed (simp add: siftpath.simps)
qed

lemma siftpath_rot: "leo k \<le> h + 1 \<Longrightarrow> rotf f (h # siftpath cmp f (f h) h k) = siftf cmp f h k"
proof (induction cmp f h k rule: siftf.induct)
  case (1 cmp f h k)
  show ?case
  proof (cases "k > 1")
    case True
    note c = children [OF True 1(3)]
    define rt lf where "rt = h - 1" and "lf = h - 1 - leo (k - 2)"
    have pos: "lf < h" "rt < h" "leo (k - 1) \<le> lf + 1" "leo (k - 2) \<le> rt + 1" using c by (auto simp: rt_def lf_def)
    note IHl = 1(1) [OF True rt_def lf_def _ _ pos(3)] and IHr = 1(2) [OF True rt_def lf_def _ _ pos(4)]
    have pc: "siftpath cmp (swap h j f) (swap h j f j) j k' = siftpath cmp f (f h) j k'" if "j < h" "leo k' \<le> j + 1" for j k'
      using siftpath_cong [OF that(2), of "swap h j f" f cmp "f h"] that(1) by simp
    have unf: "siftpath cmp f (f h) h k = (if stays cmp (f h) (f lf) (f rt) then []
        else if cmp (f lf) (f rt) \<ge> 0 then lf # siftpath cmp f (f h) lf (k - 1) else rt # siftpath cmp f (f h) rt (k - 2))"
      "siftf cmp f h k = (if stays cmp (f h) (f lf) (f rt) then f
        else if cmp (f lf) (f rt) \<ge> 0 then siftf cmp (swap h lf f) lf (k - 1) else siftf cmp (swap h rt f) rt (k - 2))"
      using True by (subst siftpath.simps siftf.simps; simp add: Let_def rt_def lf_def)+
    show ?thesis
      unfolding unf using IHl IHr pc [OF pos(1,3)] pc [OF pos(2,4)] by simp
  qed (simp add: siftf.simps siftpath.simps)
qed

lemma sift_loop_path:
  assumes "length mem = n * w" "scaled w lp n" "h < n" "leo k \<le> h + 1" "at_index ar 0 = Some (x * w)" "x < n" "length ar + k \<le> 57"
  shows "sift_loop cmp w lp mem (h * w) k ar = Some (ar @ map (\<lambda>i. i * w) (siftpath cmp (elems w mem) (elems w mem x) h k))"
  using assms(3-7)
proof (induction k arbitrary: h ar rule: less_induct)
  case (less k)
  show ?case
  proof (cases "k > 1")
    case True
    note c = children [OF True less(3)]
    define f where "f = elems w mem"
    define rt lf where "rt = h - 1" and "lf = h - 1 - leo (k - 2)"
    have pos: "lf < h" "rt < h" "leo (k - 1) \<le> lf + 1" "leo (k - 2) \<le> rt + 1" "0 < h" "leo (k - 2) \<le> rt" "rt - leo (k - 2) = lf"
      using c unfolding rt_def lf_def by linarith+
    have n: "lf < n" "rt < n" using pos less(2) by auto
    have ar0: "ar ! 0 = x * w" "length ar < 56" using less(4,6) True by (auto simp: at_index_def split: if_splits)
    have "leo (k - 2) \<le> n" using pos n by simp
    then have ptr: "psub (h * w) w = Some (rt * w)" "at_index lp (k - 2) = Some (leo (k - 2) * w)" "psub (rt * w) (leo (k - 2) * w) = Some (lf * w)"
      using psub_one [OF pos(5)] psub_index [OF pos(6)] assms(2) pos(7) by (auto simp: scaled_def rt_def)
    note cm = compare_elems [OF assms(1), where cmp = cmp, folded f_def]
    have unf: "siftpath cmp f (f x) h k = (if stays cmp (f x) (f lf) (f rt) then []
        else if cmp (f lf) (f rt) \<ge> 0 then lf # siftpath cmp f (f x) lf (k - 1) else rt # siftpath cmp f (f x) rt (k - 2))"
      using True by (subst siftpath.simps) (simp add: Let_def rt_def lf_def)
    have run: "sift_loop cmp w lp mem (h * w) k ar = (if stays cmp (f x) (f lf) (f rt) then Some ar
        else if cmp (f lf) (f rt) \<ge> 0 then sift_loop cmp w lp mem (lf * w) (k - 1) (ar @ [lf * w])
        else sift_loop cmp w lp mem (rt * w) (k - 2) (ar @ [rt * w]))"
      using True ptr cm [OF less(5) n(1)] cm [OF less(5) n(2)] cm [OF n] ar0
      by (subst sift_loop.simps) (simp add: stays_def push_ar_def)
    have at: "at_index (ar @ [y]) 0 = Some (x * w)" for y using less(4) by (auto simp: at_index_def nth_append split: if_splits)
    have l: "sift_loop cmp w lp mem (lf * w) (k - 1) (ar @ [lf * w]) = Some ((ar @ [lf * w]) @ map (\<lambda>i. i * w) (siftpath cmp f (f x) lf (k - 1)))"
      unfolding f_def by (rule less(1)) (use True n pos at less(5,6) in auto)
    have r: "sift_loop cmp w lp mem (rt * w) (k - 2) (ar @ [rt * w]) = Some ((ar @ [rt * w]) @ map (\<lambda>i. i * w) (siftpath cmp f (f x) rt (k - 2)))"
      unfolding f_def by (rule less(1)) (use True n pos at less(5,6) in auto)
    show ?thesis unfolding f_def [symmetric] unf run using l r by simp
  qed (simp add: sift_loop.simps siftpath.simps)
qed

lemma sift_refines:
  assumes "length mem = n * w" "scaled w lp n" "h < n" "leo k \<le> h + 1" "k \<le> 33"
  shows "\<exists>mem'. sift cmp w lp (h * w) k mem = Some mem' \<and> length mem' = n * w \<and> elems w mem' = siftf cmp (elems w mem) h k"
proof -
  define ps where "ps = siftpath cmp (elems w mem) (elems w mem h) h k"
  have run: "sift_loop cmp w lp mem (h * w) k [h * w] = Some (map (\<lambda>i. i * w) (h # ps))"
    using sift_loop_path [OF assms(1-4) _ assms(3), of "[h * w]"] assms(5) by (simp add: at_index_def ps_def)
  have s: "sorted_wrt (>) (h # ps)" unfolding ps_def by (rule conjunct1 [OF siftpath_below [OF assms(4)]])
  have "distinct (h # ps)" "\<forall>i \<in> set (h # ps). i < n" using descending_distinct [OF s] s assms(3) by auto
  then obtain mem' where "cycle w (map (\<lambda>i. i * w) (h # ps)) mem = Some mem'" "length mem' = n * w"
      "elems w mem' = rotf (elems w mem) (h # ps)"
    using cycle_elems [of "h # ps" n mem w] assms(1) by auto
  then show ?thesis using run siftpath_rot [OF assms(4), of "elems w mem" cmp] by (simp add: sift_def ps_def)
qed

section \<open>trinkle\<close>

fun tpath :: "('a \<Rightarrow> 'a \<Rightarrow> int) \<Rightarrow> (nat \<Rightarrow> 'a) \<Rightarrow> 'a \<Rightarrow> nat \<Rightarrow> nat list \<Rightarrow> bool \<Rightarrow> nat list \<times> nat \<times> nat \<times> bool" where
  "tpath cmp f x h [] trusty = ([], h, 0, trusty)"
| "tpath cmp f x h (k # ks) trusty =
     (if ks \<noteq> [] \<and> \<not> stops cmp f x h k trusty then
        case tpath cmp f x (h - leo k) ks False of (ps, e) \<Rightarrow> ((h - leo k) # ps, e)
      else ([], h, k, trusty))"

lemma stops_cong: "leo k \<le> h \<Longrightarrow> (\<And>i. i < h \<Longrightarrow> f i = g i) \<Longrightarrow> stops cmp f x h k trusty = stops cmp g x h k trusty"
proof -
  assume a: "leo k \<le> h" "\<And>i. i < h \<Longrightarrow> f i = g i"
  have "h - 1 < h" "h - 1 - leo (k - 2) < h" "h - leo k < h" using a(1) leo_pos [of k] by linarith+
  from this [THEN a(2)] show ?thesis by (simp add: stops_def)
qed

lemma tpath_cong: "fits h ks \<Longrightarrow> (\<And>i. i < h \<Longrightarrow> f i = g i) \<Longrightarrow> tpath cmp f x h ks trusty = tpath cmp g x h ks trusty"
proof (induction cmp f x h ks trusty rule: tpath.induct)
  case (2 cmp f x h k ks trusty)
  show ?case
  proof (cases "ks = []")
    case False
    note t = fits_tl [OF 2(2) False]
    have "stops cmp f x h k trusty = stops cmp g x h k trusty" by (rule stops_cong) (use t 2(3) in auto)
    moreover have "tpath cmp f x (h - leo k) ks False = tpath cmp g x (h - leo k) ks False" if "\<not> stops cmp f x h k trusty"
      by (rule 2(1)) (use that False t 2(3) below_tree [of k h] in auto)
    ultimately show ?thesis by simp
  qed simp
qed simp

lemma tpath_untrusted: "tpath cmp f x h ks False = (ps, h', k', t) \<Longrightarrow> \<not> t"
  by (induction ks arbitrary: h ps) (auto split: if_splits prod.splits)

lemma tpath_spec:
  assumes "fits h ks" "tpath cmp f x h ks trusty = (ps, h', k', t)"
  shows "sorted_wrt (>) (h # ps) \<and> length ps < length ks \<and> h' = last (h # ps) \<and> leo k' \<le> h' + 1 \<and> k' \<in> set ks \<and> (t \<longrightarrow> ps = [])"
  using assms
proof (induction cmp f x h ks trusty arbitrary: ps rule: tpath.induct)
  case (2 cmp f x h k ks trusty)
  show ?case
  proof (cases "ks \<noteq> [] \<and> \<not> stops cmp f x h k trusty")
    case True
    then have t: "leo k \<le> h" "fits (h - leo k) ks" using fits_tl [OF 2(2)] by auto
    obtain qs where q: "tpath cmp f x (h - leo k) ks False = (qs, h', k', t)" "ps = (h - leo k) # qs"
      using 2(3) True by (auto split: prod.splits)
    have "\<not> t" by (rule tpath_untrusted [OF q(1)])
    then show ?thesis using 2(1) [OF True t(2) q(1)] below_tree [OF t(1)] q(2) by auto
  next
    case False
    then show ?thesis using 2(3) fits_order [OF 2(2)] by auto
  qed
qed simp

lemma tpath_trinklef:
  assumes "fits h ks" "tpath cmp f (f h) h ks trusty = (ps, h', k', t)"
  shows "trinklef cmp f h ks trusty = (if t then f else siftf cmp (rotf f (h # ps)) h' k')"
  using assms
proof (induction cmp f h ks trusty arbitrary: ps rule: trinklef.induct)
  case (2 cmp f h k ks trusty)
  show ?case
  proof (cases "ks \<noteq> [] \<and> \<not> stops cmp f (f h) h k trusty")
    case True
    then have t: "leo k \<le> h" "fits (h - leo k) ks" using fits_tl [OF 2(2)] by auto
    define s where "s = h - leo k"
    have s: "s < h" using below_tree [OF t(1)] by (simp add: s_def)
    obtain qs where q: "tpath cmp f (f h) s ks False = (qs, h', k', t)" "ps = s # qs"
      using 2(3) True by (auto split: prod.splits simp: s_def)
    have "tpath cmp (swap h s f) (swap h s f s) s ks False = (qs, h', k', t)"
      using tpath_cong [OF t(2), of "swap h s f" f cmp "f h" False] s q(1) by (simp add: s_def)
    then have "trinklef cmp (swap h s f) s ks False = (if t then swap h s f else siftf cmp (rotf (swap h s f) (s # qs)) h' k')"
      using 2(1) [OF True] t(2) by (simp add: s_def)
    moreover have "\<not> t" using tpath_spec [OF 2(2,3)] q(2) by blast
    ultimately show ?thesis using True q(2) by (simp add: trinklef.simps(2) s_def)
  qed (use 2(3) in \<open>auto simp: trinklef.simps(2)\<close>)
qed simp

lemma trinkle_loop_path:
  assumes "length mem = n * w" "0 < w" "scaled w lp n" "x < n"
    and "h < n" "fits h ks" "orders ks" "codes p ks" "at_index ar 0 = Some (x * w)" "length ar + length ks \<le> 57"
    and "tpath cmp (elems w mem) (elems w mem x) h ks trusty = (ps, h', k'', t)"
  shows "trinkle_loop cmp w lp mem (h * w) p (hd ks) trusty ar = Some (h' * w, k'', t, ar @ map (\<lambda>i. i * w) ps)"
  using assms(5-11)
proof (induction ks arbitrary: h p ar trusty ps)
  case Nil
  then show ?case by simp
next
  case (Cons k ks)
  define f where "f = elems w mem"
  show ?case
  proof (cases ks)
    case Nil
    then have "p = (1, 0)" using codes_single Cons.prems(3,4) by fastforce
    then show ?thesis using Cons.prems(7) Nil by (simp add: trinkle_loop.simps)
  next
    case (Cons k' r)
    then have ne: "ks \<noteq> []" by simp
    then have p: "p \<noteq> (1, 0)" using codes_single [OF Cons.prems(4,3)] by simp
    have t: "leo k \<le> h" "fits (h - leo k) ks" "h - leo k < n" using fits_tl [OF Cons.prems(2)] Cons.prems(1) Cons by auto
    have o: "orders ks" "k < k'" using orders_tl [of k k' r] Cons.prems(3) Cons by auto
    have ar0: "ar ! 0 = x * w" "length ar < 56" using Cons.prems(5,6) Cons by (auto simp: at_index_def split: if_splits)
    have ptr: "at_index lp k = Some (leo k * w)" "psub (h * w) (leo k * w) = Some ((h - leo k) * w)"
      using assms(3) t(1) Cons.prems(1) psub_index [OF t(1)] by (auto simp: scaled_def)
    note cm = compare_elems [OF assms(1), where cmp = cmp, folded f_def]
    have cs: "children_stop cmp w lp mem (h * w) k ((h - leo k) * w) =
        Some (cmp (f (h - 1)) (f (h - leo k)) \<ge> 0 \<or> cmp (f (h - 1 - leo (k - 2))) (f (h - leo k)) \<ge> 0)" if k: "k > 1"
    proof -
      note c = children [OF k fits_order [OF Cons.prems(2)]]
      have i: "h - 1 < n" "h - 1 - leo (k - 2) < n" "0 < h" "leo (k - 2) \<le> h - 1" using c Cons.prems(1) by linarith+
      then have "leo (k - 2) \<le> n" by simp
      then show ?thesis using psub_one [OF i(3)] psub_index [OF i(4)] assms(3) cm [OF i(1) t(3)] cm [OF i(2) t(3)]
        unfolding children_stop_def scaled_def by simp
    qed
    have stop: "(if cmp (f (h - leo k)) (f x) \<le> 0 then Some True
        else if \<not> trusty \<and> k > 1 then children_stop cmp w lp mem (h * w) k ((h - leo k) * w) else Some False) = Some (stops cmp f (f x) h k trusty)"
      using cs by (auto simp: stops_def)
    obtain q where q: "pntz p = Some (k' - k)" "shr p (k' - k) = Some q" "codes q ks"
      using codes_drop [of p k k' r] Cons.prems(3,4) Cons by auto
    have run: "trinkle_loop cmp w lp mem (h * w) p k trusty ar =
        (if stops cmp f (f x) h k trusty then Some (h * w, k, trusty, ar)
         else trinkle_loop cmp w lp mem ((h - leo k) * w) q k' False (ar @ [(h - leo k) * w]))"
      using p ptr cm [OF t(3) assms(4)] stop ar0 q(1,2) o(2) by (subst trinkle_loop.simps) (simp add: push_ar_def)
    show ?thesis
    proof (cases "stops cmp f (f x) h k trusty")
      case True
      then show ?thesis using run Cons.prems(7) by (simp add: f_def)
    next
      case False
      obtain qs where qs: "tpath cmp f (f x) (h - leo k) ks False = (qs, h', k'', t)" "ps = (h - leo k) # qs"
        using Cons.prems(7) False ne by (auto split: prod.splits simp: f_def)
      have at: "at_index (ar @ [(h - leo k) * w]) 0 = Some (x * w)" using Cons.prems(5) by (auto simp: at_index_def nth_append split: if_splits)
      have "trinkle_loop cmp w lp mem ((h - leo k) * w) q (hd ks) False (ar @ [(h - leo k) * w]) =
          Some (h' * w, k'', t, (ar @ [(h - leo k) * w]) @ map (\<lambda>i. i * w) qs)"
        by (rule Cons.IH [OF t(3,2) o(1) q(3) at]) (use Cons.prems(6) qs(1) f_def in auto)
      then show ?thesis using run False qs(2) \<open>ks = k' # r\<close> by simp
    qed
  qed
qed

lemma trinkle_refines:
  assumes "length mem = n * w" "0 < w" "scaled w lp n" "h < n" "fits h ks" "orders ks" "codes p ks"
  shows "\<exists>mem'. trinkle cmp w lp (h * w) p (hd ks) trusty mem = Some mem' \<and> length mem' = n * w \<and>
    elems w mem' = trinklef cmp (elems w mem) h ks trusty"
proof -
  define f where "f = elems w mem"
  obtain ps h' k t where path: "tpath cmp f (f h) h ks trusty = (ps, h', k, t)" by (cases "tpath cmp f (f h) h ks trusty")
  have len: "length ks \<le> 34"
  proof -
    have "distinct ks" "set ks \<subseteq> {..33}" using assms(6) strict_sorted_iff [of ks] by (auto simp: orders_def)
    then show ?thesis using card_mono [of "{..33}" "set ks"] distinct_card [of ks] by simp
  qed
  have run: "trinkle_loop cmp w lp mem (h * w) p (hd ks) trusty [h * w] = Some (h' * w, k, t, map (\<lambda>i. i * w) (h # ps))"
    using trinkle_loop_path [OF assms(1-3) assms(4) assms(4-7), of "[h * w]" cmp trusty] path len
    by (simp add: at_index_def f_def)
  note s = tpath_spec [OF assms(5) path]
  have eq: "trinklef cmp f h ks trusty = (if t then f else siftf cmp (rotf f (h # ps)) h' k)" by (rule tpath_trinklef [OF assms(5) path])
  show ?thesis
  proof (cases t)
    case True
    then show ?thesis using run eq assms(1) by (simp add: trinkle_def f_def)
  next
    case False
    have d: "distinct (h # ps)" "\<forall>i \<in> set (h # ps). i < n" using s descending_distinct [of "h # ps"] assms(4) by auto
    then obtain mem1 where m1: "cycle w (map (\<lambda>i. i * w) (h # ps)) mem = Some mem1" "length mem1 = n * w"
        "elems w mem1 = rotf f (h # ps)"
      using cycle_elems [of "h # ps" n mem w] assms(1) by (auto simp: f_def)
    have "h' < n" using s d(2) by (metis last_in_set list.discI)
    moreover have "k \<le> 33" using s assms(6) by (auto simp: orders_def)
    ultimately obtain mem' where "sift cmp w lp (h' * w) k mem1 = Some mem'" "length mem' = n * w" "elems w mem' = siftf cmp (elems w mem1) h' k"
      using sift_refines [OF m1(2) assms(3)] s by blast
    then show ?thesis using run m1 eq False by (simp add: trinkle_def f_def)
  qed
qed

section \<open>The loops\<close>

text \<open>
  The state at the head of both loops: the memory, the heap on it, and the bit set and \<open>pshift\<close> that
  describe its trees.
\<close>

definition state :: "nat \<Rightarrow> nat \<Rightarrow> nat list \<Rightarrow> 'b list \<Rightarrow> nat \<Rightarrow> bits \<Rightarrow> nat list \<Rightarrow> bool" where
  "state n w lp mem h p ks \<longleftrightarrow> 0 < w \<and> n \<le> leo 33 \<and> scaled w lp n \<and> length mem = n * w \<and> h < n \<and> shape ks \<and> fits h ks \<and> codes p ks"

lemma state_orders: "state n w lp mem h p ks \<Longrightarrow> orders ks"
  unfolding state_def using shape_orders [of ks h] by linarith

lemma build_step_refines:
  assumes "state n w lp mem h p ks" "h + 1 < n"
  shows "\<exists>p' mem'. build_step cmp w lp ((n - 1) * w) (h * w) p (hd ks) mem = Some (p', hd (build_orders ks), mem') \<and>
    state n w lp mem' (h + 1) (set_bit0 p') (build_orders ks) \<and> elems w mem' = buildf cmp n (elems w mem) h ks"
proof -
  have s: "0 < w" "n \<le> leo 33" "scaled w lp n" "length mem = n * w" "h < n" "shape ks" "fits h ks" "codes p ks" using assms(1) by (auto simp: state_def)
  note o = state_orders [OF assms(1)]
  obtain k r where ks: "ks = k # r" using s(6) by (cases ks) auto
  have k: "k \<le> 33" "leo k \<le> h + 1" using o fits_order s(7) ks by (auto simp: orders_def)
  note sf = sift_refines [OF s(4,3,5) k(2,1), of cmp] and tr = trinkle_refines [OF s(4,1,3,5,7) o s(8), of cmp False]
  have adj: "fst p AND 3 = 3 \<longleftrightarrow> adjacent ks" by (rule codes_adjacent [OF s(8) o])
  have st: "state n w lp mem' (h + 1) q (build_orders ks)" if "length mem' = n * w" "codes q (build_orders ks)" for mem' q
    using s that assms(2) shape_build fits_build by (simp add: state_def)
  show ?thesis
  proof (cases "adjacent ks")
    case True
    then obtain r' where r: "r = (k + 1) # r'" by (auto simp: adjacent_def ks split: list.splits)
    have "gaps ((k + 1) # r')" using s(6) by (simp add: ks r)
    then obtain q where q: "shr p 2 = Some q" "codes (set_bit0 q) (build_orders ks)"
      using codes_merge [of p k r'] s(8) True by (auto simp: build_orders_def ks r)
    obtain mem' where m: "sift cmp w lp (h * w) k mem = Some mem'" "length mem' = n * w" "elems w mem' = siftf cmp (elems w mem) h k"
      using sf by blast
    have "build_step cmp w lp ((n - 1) * w) (h * w) p (hd ks) mem = Some (q, hd (build_orders ks), mem')"
      using True adj m(1) q(1) by (simp add: build_step_def build_orders_def ks)
    moreover have "elems w mem' = buildf cmp n (elems w mem) h ks" using m(3) True by (simp add: buildf_def ks)
    ultimately show ?thesis using st [OF m(2) q(2)] by blast
  next
    case False
    have k0: "0 < k" using s(6) False by (cases r) (auto simp: ks adjacent_def)
    have k32: "k \<le> 32" using leo_bound(2) [of k] k(2) s(2) assms(2) by linarith
    have l: "at_index lp (k - 1) = Some (leo (k - 1) * w)"
      using s(3,5) k(2) leo_mono [of "k - 1" k] by (simp add: scaled_def)
    have final: "leo (k - 1) * w \<ge> (n - 1) * w - h * w \<longleftrightarrow> n \<le> h + 1 + leo (k - 1)"
      using s(1) assms(2) by (simp add: diff_mult_distrib [symmetric]) linarith
    define j where "j = (if k = 1 then 0 else (1::nat))"
    have n: "0 < k - j" "j \<le> k" "k - j < 32" using k0 k32 by (auto simp: j_def)
    obtain q where q: "shl p (k - j) = Some q" "codes (set_bit0 q) (build_orders ks)"
      using codes_push [of p k r j] s(8) o n False by (auto simp: build_orders_def ks j_def)
    obtain mem' where m: "(if leo (k - 1) * w \<ge> (n - 1) * w - h * w then trinkle cmp w lp (h * w) p k False mem else sift cmp w lp (h * w) k mem) = Some mem'"
        "length mem' = n * w" "elems w mem' = buildf cmp n (elems w mem) h ks"
      using tr sf False unfolding final buildf_def by (cases "n \<le> h + 1 + leo (k - 1)") (auto simp: ks)
    have "build_step cmp w lp ((n - 1) * w) (h * w) p (hd ks) mem = Some (q, hd (build_orders ks), mem')"
      using False adj l m(1) q(1) k0 by (cases q) (simp add: build_step_def build_orders_def ks j_def split: if_splits)
    then show ?thesis using st [OF m(2) q(2)] m(3) by blast
  qed
qed

lemma build_loop_refines:
  assumes "state n w lp mem h p ks"
  shows "\<exists>p' ks' mem'. build_loop cmp w lp ((n - 1) * w) (h * w) p (hd ks) mem = Some ((n - 1) * w, p', hd ks', mem') \<and>
    state n w lp mem' (n - 1) p' ks' \<and> elements n (elems w mem') = elements n (elems w mem) \<and>
    (total_cmp cmp \<and> building cmp n (elems w mem) h ks \<longrightarrow> building cmp n (elems w mem') (n - 1) ks')"
  using assms
proof (induction "n - h" arbitrary: h p ks mem rule: less_induct)
  case less
  have s: "0 < w" "h < n" "shape ks" "fits h ks" using less(2) by (auto simp: state_def)
  show ?case
  proof (cases "h + 1 < n")
    case True
    obtain p1 mem1 where 1: "build_step cmp w lp ((n - 1) * w) (h * w) p (hd ks) mem = Some (p1, hd (build_orders ks), mem1)"
        "state n w lp mem1 (h + 1) (set_bit0 p1) (build_orders ks)" "elems w mem1 = buildf cmp n (elems w mem) h ks"
      using build_step_refines [OF less(2) True] by blast
    have "n - (h + 1) < n - h" using True by simp
    from less(1) [OF this 1(2)] obtain p' ks' mem' where 2:
        "build_loop cmp w lp ((n - 1) * w) ((h + 1) * w) (set_bit0 p1) (hd (build_orders ks)) mem1 = Some ((n - 1) * w, p', hd ks', mem')"
        "state n w lp mem' (n - 1) p' ks'" "elements n (elems w mem') = elements n (elems w mem1)"
        "total_cmp cmp \<and> building cmp n (elems w mem1) (h + 1) (build_orders ks) \<longrightarrow> building cmp n (elems w mem') (n - 1) ks'" by blast
    have "h * w < (n - 1) * w" "h * w + w = (h + 1) * w" using True s(1) by simp_all
    then have "build_loop cmp w lp ((n - 1) * w) (h * w) p (hd ks) mem = Some ((n - 1) * w, p', hd ks', mem')"
      using 1(1) 2(1) s(1) by (subst build_loop.simps) (simp add: add.commute)
    then show ?thesis using 2(2-4) 1(3) buildf_elements [OF s(4,2)] building_step [OF _ s(3,4)] by metis
  next
    case False
    then have "h = n - 1" using s(2) by simp
    then show ?thesis using less(2) by (auto simp: build_loop.simps)
  qed
qed

lemma sort_step_refines:
  assumes "state n w lp mem h p ks" "ks \<noteq> [1]"
  shows "\<exists>p' mem'. sort_step cmp w lp (h * w) p (hd ks) mem = Some (p', hd (sort_orders ks), mem') \<and> 0 < h \<and>
    state n w lp mem' (h - 1) p' (sort_orders ks) \<and> elems w mem' = sortf cmp (elems w mem) h ks"
proof -
  have s: "0 < w" "n \<le> leo 33" "scaled w lp n" "length mem = n * w" "h < n" "shape ks" "fits h ks" "codes p ks" using assms(1) by (auto simp: state_def)
  note o = state_orders [OF assms(1)]
  obtain k r where ks: "ks = k # r" using s(6) by (cases ks) auto
  show ?thesis
  proof (cases "k \<le> 1")
    case True
    then obtain k' r' where r: "r = k' # r'" using s(6) assms(2) by (cases r) (auto simp: ks)
    obtain q where q: "pntz p = Some (k' - k)" "shr p (k' - k) = Some q" "codes q r"
      using codes_drop [of p k k' r'] s(8) o by (auto simp: ks r)
    have "k + (k' - k) = k'" using s(6) by (simp add: ks r)
    moreover have "fits (h - 1) r \<and> 0 < h" using fits_sort(1) [of h k r] True s(7) by (simp add: ks r)
    moreover have "shape r" using shape_sort [OF s(6) assms(2)] True by (simp add: sort_orders_def ks)
    ultimately show ?thesis using q True s by (simp add: sort_step_def sort_orders_def sortf_def state_def ks r)
  next
    case False
    then have k: "1 < k" by simp
    have le: "leo k \<le> h + 1" using fits_order s(7) ks by simp
    note c = children [OF k le]
    define lf where "lf = h - 1 - leo (k - 2)"
    have pos: "lf < n" "h - 1 < n" "0 < h" "leo (k - 2) \<le> h" "0 < h - leo (k - 2)" "h - leo (k - 2) - 1 = lf" "leo (k - 2) \<le> n"
      using c s(5) unfolding lf_def by linarith+
    have fl: "fits lf ((k - 1) # r)" "fits (h - 1) (sort_orders ks)"
      using fits_sort(2,3) [of h k r] s(7) k by (auto simp: lf_def sort_orders_def ks)
    have sh: "shape (sort_orders ks)" by (rule shape_sort [OF s(6) assms(2)])
    have so: "sort_orders ks = (k - 2) # (k - 1) # r" using k by (simp add: sort_orders_def ks)
    have o2: "orders (sort_orders ks)" by (rule shape_orders [OF sh fl(2)]) (use pos s(2) in simp)
    then have o1: "orders ((k - 1) # r)" using orders_tl so by simp
    obtain q q1 where q: "shl p 2 = Some q" "shr (fst q XOR 7, snd q) 1 = Some q1" "codes q1 ((k - 1) # r)"
      using codes_split [of p k r] s(8) o k by (auto simp: ks)
    have d: "k - 1 - (k - 2) = 1" and d2: "k - 2 \<le> k - 1" using k by auto
    obtain q2 where q2: "shl q1 1 = Some q2" "codes (set_bit0 q2) (sort_orders ks)"
      using codes_push [OF q(3) o1, of "k - 2", unfolded d] d2 by (auto simp: so)
    have ptr: "at_index lp (k - 2) = Some (leo (k - 2) * w)" "psub (h * w) (leo (k - 2) * w) = Some ((h - leo (k - 2)) * w)"
        "psub ((h - leo (k - 2)) * w) w = Some (lf * w)" "psub (h * w) w = Some ((h - 1) * w)"
      using s(3) pos psub_index [OF pos(4), of w] psub_one [OF pos(5), of w] psub_one [OF pos(3), of w] by (auto simp: scaled_def)
    obtain mem1 where m1: "trinkle cmp w lp (lf * w) q1 (k - 1) True mem = Some mem1" "length mem1 = n * w"
        "elems w mem1 = trinklef cmp (elems w mem) lf ((k - 1) # r) True"
      using trinkle_refines [OF s(4,1,3) pos(1) fl(1) o1 q(3), of cmp True] by auto
    obtain mem2 where m2: "trinkle cmp w lp ((h - 1) * w) (set_bit0 q2) (k - 2) True mem1 = Some mem2" "length mem2 = n * w"
        "elems w mem2 = trinklef cmp (elems w mem1) (h - 1) (sort_orders ks) True"
      using trinkle_refines [OF m1(2) s(1,3) pos(2) fl(2) o2 q2(2), of cmp True] by (auto simp: so)
    have "k - 2 + 1 = k - 1" using k by simp
    then have "sort_step cmp w lp (h * w) p (hd ks) mem = Some (set_bit0 q2, hd (sort_orders ks), mem2)"
      using k q q2(1) ptr m1(1) m2(1) unfolding so by (simp add: sort_step_def ks)
    moreover have "elems w mem2 = sortf cmp (elems w mem) h ks" using m1(3) m2(3) k unfolding so by (simp add: sortf_def ks lf_def Let_def)
    ultimately show ?thesis using s m2(2) sh fl(2) q2(2) pos by (simp add: state_def)
  qed
qed

lemma sort_loop_refines:
  assumes "state n w lp mem h p ks"
  shows "\<exists>mem'. sort_loop cmp w lp (h * w) p (hd ks) mem = Some mem' \<and> length mem' = n * w \<and>
    elements n (elems w mem') = elements n (elems w mem) \<and>
    (total_cmp cmp \<and> ordered cmp (elems w mem) h ks \<and> placed cmp n (elems w mem) h \<longrightarrow> placed cmp n (elems w mem') 0)"
  using assms
proof (induction h arbitrary: p ks mem rule: less_induct)
  case (less h)
  have s: "0 < w" "h < n" "shape ks" "fits h ks" "codes p ks" "length mem = n * w" using less(2) by (auto simp: state_def)
  have stop: "hd ks = 1 \<and> p = (1, 0) \<longleftrightarrow> ks = [1]"
    using codes_single [OF s(5) state_orders [OF less(2)]] s(3) by (cases ks) auto
  show ?case
  proof (cases "ks = [1]")
    case True
    then have "h = 0" using s(4) by simp
    then show ?thesis using stop True s(6) by (simp add: sort_loop.simps)
  next
    case False
    obtain p1 mem1 where 1: "sort_step cmp w lp (h * w) p (hd ks) mem = Some (p1, hd (sort_orders ks), mem1)" "0 < h"
        "state n w lp mem1 (h - 1) p1 (sort_orders ks)" "elems w mem1 = sortf cmp (elems w mem) h ks"
      using sort_step_refines [OF less(2) False] by blast
    obtain mem' where 2: "sort_loop cmp w lp ((h - 1) * w) p1 (hd (sort_orders ks)) mem1 = Some mem'" "length mem' = n * w"
        "elements n (elems w mem') = elements n (elems w mem1)"
        "total_cmp cmp \<and> ordered cmp (elems w mem1) (h - 1) (sort_orders ks) \<and> placed cmp n (elems w mem1) (h - 1) \<longrightarrow>
          placed cmp n (elems w mem') 0"
      using less(1) [OF _ 1(3)] 1(2) by (meson diff_less less_numeral_extra(1))
    have "sort_loop cmp w lp (h * w) p (hd ks) mem = Some mem'"
      using stop False 1(1) 2(1) psub_one [OF 1(2), of w] s(1) by (subst sort_loop.simps) simp
    moreover have "elements n (elems w mem1) = elements n (elems w mem)" unfolding 1(4)
      by (rule sortf_keeps [OF s(4) 1(2)]) (use s(2) in \<open>auto intro!: swap_elements\<close>)
    moreover have "ordered cmp (elems w mem1) (h - 1) (sort_orders ks)" if "total_cmp cmp" "ordered cmp (elems w mem) h ks"
      using sortf_ordered [OF that(1), of h "hd ks" "tl ks" "elems w mem"] s(3,4) that(2) False unfolding 1(4) by (cases ks) auto
    ultimately show ?thesis using 2 sortf_placed [OF _ s(4) _ _ 1(2)] unfolding 1(4) by metis
  qed
qed

end
