(* ===== verification/Qsort_Theorems.thy ===== *)
theory Qsort_Theorems
  imports Qsort_Refine
begin

text \<open>
  qsort returns, stays inside the array, permutes the elements and sorts them, for arrays of up to \<open>leo 33\<close> elements.
  Beyond that the bit set can hold two orders 32 apart, and pntz counts the trailing zeros of 0.
\<close>

lemma leonardo_scaled:
  assumes "3 * (n * w) < 2 ^ 32" "0 < w" "2 \<le> length lp" "\<forall>k < length lp. lp ! k = leo k * w"
    and "leo (length lp - 1) \<le> n" "n \<le> leo 33"
  shows "\<exists>lp'. leonardo w (n * w) lp = Some lp' \<and> scaled w lp' n"
  using assms(3-5)
proof (induction "40 - length lp" arbitrary: lp rule: less_induct)
  case less
  define i where "i = length lp"
  have i: "2 \<le> i" "lp ! (i - 2) = leo (i - 2) * w" "lp ! (i - 1) = leo (i - 1) * w" using less by (auto simp: i_def)
  have s: "leo i * w = leo (i - 2) * w + leo (i - 1) * w + w" using leo_split [OF i(1)] by (simp add: algebra_simps)
  have "leo i \<le> 3 * leo (i - 1)" using leo_split [OF i(1)] leo_mono [of "i - 2" "i - 1"] leo_pos [of "i - 1"] by linarith
  also have "\<dots> \<le> 3 * n" using less(4) by (simp add: i_def)
  finally have "leo i * w \<le> 3 * n * w" by (rule mult_le_mono1)
  also have "\<dots> < size_mod" using assms(1) by (simp add: mult.assoc)
  finally have small: "leo i * w < size_mod" .
  then have x: "szadd (szadd (lp ! (i - 2)) (lp ! (i - 1))) w = leo i * w"
  proof -
    have "szadd (leo (i - 2) * w) (leo (i - 1) * w) = leo (i - 2) * w + leo (i - 1) * w"
      "szadd (leo (i - 2) * w + leo (i - 1) * w) w = leo (i - 2) * w + leo (i - 1) * w + w"
      by (rule szadd_small; use s small in simp)+
    then show ?thesis unfolding i s by simp
  qed
  have i34: "i \<le> 34" using leo_bound(1) [of "i - 1"] less(4) assms(6) by (simp add: i_def)
  have all: "\<forall>k < length (lp @ [leo i * w]). (lp @ [leo i * w]) ! k = leo k * w"
    using less(3) by (auto simp: nth_append i_def less_Suc_eq)
  have unf: "leonardo w (n * w) lp = (if leo i * w < n * w then leonardo w (n * w) (lp @ [leo i * w]) else Some (lp @ [leo i * w]))"
    using x i34 assms(2) by (subst leonardo.simps) (simp add: Let_def flip: i_def)
  show ?case
  proof (cases "leo i < n")
    case True
    then have "leo i * w < n * w" using assms(2) by simp
    moreover have "\<exists>lp'. leonardo w (n * w) (lp @ [leo i * w]) = Some lp' \<and> scaled w lp' n"
      by (rule less(1)) (use i34 i less True all in \<open>auto simp: i_def\<close>)
    ultimately show ?thesis using unf by simp
  next
    case False
    have "at_index (lp @ [leo i * w]) k = Some (leo k * w)" if "leo k \<le> n" for k
    proof -
      have "\<not> i < k" using that False leo_strict [of i k] i(1) by auto
      then show ?thesis using all by (simp add: at_index_def i_def)
    qed
    then show ?thesis using unf False assms(2) by (auto simp: scaled_def)
  qed
qed

text \<open>The elements of an array as a list.\<close>

definition elements_of :: "nat \<Rightarrow> nat \<Rightarrow> 'b list \<Rightarrow> 'b list list" where
  "elements_of n w mem = map (elems w mem) [0..<n]"

lemma mset_elements_of: "mset (elements_of n w mem) = elements n (elems w mem)"
  by (simp add: elements_of_def elements_def flip: atLeast0LessThan)

lemma placed_sorted: "placed cmp n (elems w mem) 0 \<Longrightarrow> sorted_wrt (\<lambda>x y. cmp x y \<le> 0) (elements_of n w mem)"
  by (auto simp: elements_of_def placed_def sorted_wrt_iff_nth_less)

lemma qsort_run:
  assumes "length mem = n * w" "3 * (n * w) < 2 ^ 32" "n \<le> leo 33"
  shows "\<exists>mem'. qsort mem n w cmp = Some mem' \<and> length mem' = n * w \<and> elements n (elems w mem') = elements n (elems w mem) \<and>
    (total_cmp cmp \<longrightarrow> sorted_wrt (\<lambda>x y. cmp x y \<le> 0) (elements_of n w mem'))"
proof (cases "n = 0 \<or> w = 0")
  case True
  have z: "szmul w n = 0" using True by (auto simp: szmul_def)
  have "sorted_wrt (\<lambda>x y. cmp x y \<le> 0) (elements_of n w mem)" if "total_cmp cmp"
  proof (cases "w = 0")
    case True
    then show ?thesis using cmp_refl [OF that] by (simp add: elements_of_def elems_def sorted_wrt_iff_nth_less)
  next
    case False
    then show ?thesis using \<open>n = 0 \<or> w = 0\<close> by (simp add: elements_of_def)
  qed
  then show ?thesis using z assms(1) by (simp add: qsort_def)
next
  case False
  then have nw: "0 < n" "0 < w" by auto
  have size: "szmul w n = n * w" using assms(2) by (simp add: szmul_small mult.commute)
  have high: "psub (n * w) w = Some ((n - 1) * w)" by (rule psub_one [OF nw(1)])
  have "\<forall>k < length [w, w]. [w, w] ! k = leo k * w" by (simp add: less_Suc_eq nth_Cons' all_conj_distrib)
  then obtain lp where lp: "leonardo w (n * w) [w, w] = Some lp" "scaled w lp n"
    using leonardo_scaled [OF assms(2) nw(2), of "[w, w]"] nw assms(3) by auto
  have st: "state n w lp mem 0 (1, 0) [1]" using nw assms lp(2) by (simp add: state_def codes_def num_def)
  have "building cmp n (elems w mem) 0 [1]" by (simp add: building_def subheaps_def)
  then obtain p1 ks1 mem1 where 1: "build_loop cmp w lp ((n - 1) * w) 0 (1, 0) 1 mem = Some ((n - 1) * w, p1, hd ks1, mem1)"
      "state n w lp mem1 (n - 1) p1 ks1" "elements n (elems w mem1) = elements n (elems w mem)"
      "total_cmp cmp \<longrightarrow> building cmp n (elems w mem1) (n - 1) ks1"
    using build_loop_refines [OF st, of cmp] by auto
  have s1: "length mem1 = n * w" "n - 1 < n" "fits (n - 1) ks1" "shape ks1" "codes p1 ks1" using 1(2) by (auto simp: state_def)
  obtain mem2 where 2: "trinkle cmp w lp ((n - 1) * w) p1 (hd ks1) False mem1 = Some mem2" "length mem2 = n * w"
      "elems w mem2 = trinklef cmp (elems w mem1) (n - 1) ks1 False"
    using trinkle_refines [OF s1(1) nw(2) lp(2) s1(2,3) state_orders [OF 1(2)] s1(5)] by blast
  have st2: "state n w lp mem2 (n - 1) p1 ks1" using 1(2) 2(2) by (simp add: state_def)
  have e2: "elements n (elems w mem2) = elements n (elems w mem)" unfolding 2(3) using trinklef_elements [OF s1(3,2)] 1(3) by metis
  have o2: "ordered cmp (elems w mem2) (n - 1) ks1" if "total_cmp cmp"
    unfolding 2(3) by (rule building_done [OF that s1(4,3)]) (use 1(4) that nw in simp)
  have "placed cmp n (elems w mem2) (n - 1)" unfolding placed_def by linarith
  then obtain mem' where 3: "sort_loop cmp w lp ((n - 1) * w) p1 (hd ks1) mem2 = Some mem'" "length mem' = n * w"
      "elements n (elems w mem') = elements n (elems w mem2)" "total_cmp cmp \<longrightarrow> placed cmp n (elems w mem') 0"
    using sort_loop_refines [OF st2, of cmp] o2 by blast
  have "qsort mem n w cmp = Some mem'"
    using nw size high lp(1) 1(1) 2(1) 3(1) by (simp add: qsort_def Let_def)
  then show ?thesis using 3(2-4) e2 placed_sorted [of cmp n w mem'] by auto
qed

text \<open>C31.  For any comparison at all, qsort returns, does nothing undefined, never leaves the array, and permutes the elements;
  arrays of up to 11405773 elements and 1.3 GiB.\<close>

theorem qsort_permutes:
  assumes "length mem = nel * width" "3 * (nel * width) < 2 ^ 32" "nel \<le> 11405773"
  shows "\<exists>mem'. qsort mem nel width cmp = Some mem' \<and> length mem' = nel * width \<and>
    mset (elements_of nel width mem') = mset (elements_of nel width mem)"
  using qsort_run [OF assms(1,2), of cmp] assms(3) unfolding leo_33 mset_elements_of by blast

lemma qsort_permutes_witness:
  "\<exists>mem'. qsort [3, 0, 1, 0, 2, 0 :: nat] 3 2 (\<lambda>_ _. 1) = Some mem' \<and> length mem' = 6 \<and>
    mset (elements_of 3 2 mem') = {# [3, 0], [1, 0], [2, 0] #}"
proof -
  have "elements_of 3 2 [3, 0, 1, 0, 2, 0 :: nat] = [[3, 0], [1, 0], [2, 0]]" by (simp add: elements_of_def elems_def upt_rec)
  then show ?thesis using qsort_permutes [of "[3, 0, 1, 0, 2, 0 :: nat]" 3 2 "\<lambda>_ _. 1"] by simp
qed

text \<open>C30.  With a comparison that is a total preorder the array is sorted afterwards.\<close>

theorem qsort_sorts:
  assumes "length mem = nel * width" "3 * (nel * width) < 2 ^ 32" "nel \<le> 11405773" "total_cmp cmp"
  shows "\<exists>mem'. qsort mem nel width cmp = Some mem' \<and> mset (elements_of nel width mem') = mset (elements_of nel width mem) \<and>
    sorted_wrt (\<lambda>x y. cmp x y \<le> 0) (elements_of nel width mem')"
  using qsort_run [OF assms(1,2), of cmp] assms(3,4) unfolding leo_33 mset_elements_of by blast

lemma qsort_sorts_witness:
  "\<exists>mem'. qsort [3, 1, 2 :: nat] 3 1 (\<lambda>x y. int (hd x) - int (hd y)) = Some mem' \<and> mset (elements_of 3 1 mem') = {# [3], [1], [2] #} \<and>
    sorted_wrt (\<lambda>x y. int (hd x) - int (hd y) \<le> 0) (elements_of 3 1 mem')"
proof -
  have "elements_of 3 1 [3, 1, 2 :: nat] = [[3], [1], [2]]" by (simp add: elements_of_def elems_def upt_rec)
  moreover have "total_cmp (\<lambda>x y :: nat list. int (hd x) - int (hd y))" by (auto simp: total_cmp_def)
  ultimately show ?thesis using qsort_sorts [of "[3, 1, 2 :: nat]" 3 1 "\<lambda>x y. int (hd x) - int (hd y)"] by simp
qed

end
