(* ===== verification/Mem_Copy_Theorems.thy ===== *)
theory Mem_Copy_Theorems
  imports Mem_Copy
begin

text \<open>
  memset fills exactly its range, and memcpy and memmove copy exactly theirs, without an access outside of
  the two ranges and without one that is not aligned.
\<close>

section \<open>memset\<close>

lemma fill64_loop_filled:
  assumes "c < 256" "A \<subseteq> dom mem" "mapped mem s n" "s mod 8 = 0"
  shows "\<exists>k. fill64_loop (filled mem A c) s n (c * 16843009 + c * 16843009 * 4294967296) = Some (filled mem (A \<union> {s..<s + k}) c) \<and>
    k \<le> n \<and> n < k + 32 \<and> k mod 32 = 0"
  using assms(2-4)
proof (induction n arbitrary: A s rule: less_induct)
  case (less n)
  let ?w = "c * 16843009 + c * 16843009 * 4294967296"
  show ?case
  proof (cases "32 \<le> n")
    case False
    then show ?thesis by (intro exI [of _ 0]) (simp add: fill64_loop.simps)
  next
    case True
    have st: "store64 (filled mem (A \<union> {s..<s + j}) c) (s + j) ?w = Some (filled mem (A \<union> {s..<s + i}) c)"
      if "i = j + 8" "i \<le> n" "j mod 8 = 0" for i j
    proof -
      have "(s + j) mod 8 = 0" using that(3) less.prems(3) by presburger
      moreover have "A \<union> {s..<s + j} \<subseteq> dom mem" using less.prems(1) mapped_sub [OF less.prems(2), of s j] that by auto
      moreover have "A \<union> {s..<s + j} \<union> {s + j..<s + j + 8} = A \<union> {s..<s + i}" using that(1) by auto
      ultimately show ?thesis
        using store64_filled [OF assms(1) _ mapped_sub [OF less.prems(2), of "s + j" 8]] that by simp
    qed
    have step: "fill64_loop (filled mem A c) s n ?w = fill64_loop (filled mem (A \<union> {s..<s + 32}) c) (s + 32) (n - 32) ?w"
      using st [of 8 0] st [of 16 8] st [of 24 16] st [of 32 24] True by (subst fill64_loop.simps) simp
    have "A \<union> {s..<s + 32} \<subseteq> dom mem" using less.prems(1) mapped_sub [OF less.prems(2), of s 32] True by auto
    moreover have "mapped mem (s + 32) (n - 32)" by (rule mapped_sub [OF less.prems(2)]) (use True in auto)
    moreover have "(s + 32) mod 8 = 0" using less.prems(3) by presburger
    ultimately obtain k where k:
        "fill64_loop (filled mem (A \<union> {s..<s + 32}) c) (s + 32) (n - 32) ?w = Some (filled mem (A \<union> {s..<s + 32} \<union> {s + 32..<s + 32 + k}) c)"
        "k \<le> n - 32" "n - 32 < k + 32" "k mod 32 = 0"
      using less.IH [of "n - 32" "A \<union> {s..<s + 32}" "s + 32"] True by auto
    have "{s..<s + 32} \<union> {s + 32..<s + 32 + k} = {s..<s + (32 + k)}" by auto
    then show ?thesis using k step True by (intro exI [of _ "32 + k"]) (auto simp: Un_assoc)
  qed
qed

text \<open>The arithmetic of the alignment.\<close>

lemma and_pow: "n AND (2 ^ k - 1) = n mod 2 ^ k" for n :: nat
  by (metis mask_eq_exp_minus_1 take_bit_eq_mask take_bit_eq_mod)

lemma distance_mod: "m \<le> 4 * a \<Longrightarrow> (4 * a - m) mod 4 = (4 - m mod 4) mod 4" for m a :: nat
proof -
  assume "m \<le> 4 * a"
  define q r where "q = m div 4" and "r = m mod 4"
  have m: "m = 4 * q + r" "r < 4" by (simp_all add: q_def r_def)
  show ?thesis
  proof (cases "r = 0")
    case True
    then show ?thesis using m by (simp add: diff_mult_distrib2 [symmetric])
  next
    case False
    then have "4 * a - m = 4 * (a - q - 1) + (4 - r)" using \<open>m \<le> 4 * a\<close> m by simp
    moreover have "(4 * (a - q - 1) + (4 - r)) mod 4 = 4 - r" using False by (simp only: mod_mult_self4) simp
    moreover have "(4 - m mod 4) mod 4 = 4 - r" using m False by simp
    ultimately show ?thesis by simp
  qed
qed

lemma align_distance: "szsub 0 s AND 3 = (4 - s mod 4) mod 4"
proof -
  have "szsub 0 s AND 3 = szsub 0 s mod 4" using and_pow [of "szsub 0 s" 2] by simp
  also have "\<dots> = (4 * 1073741824 - s mod 4294967296) mod 4" by (simp add: szsub_def mod_mod_cancel)
  also have "\<dots> = (4 - s mod 4294967296 mod 4) mod 4" by (rule distance_mod) (use mod_less_divisor [of 4294967296 s] in simp)
  also have "s mod 4294967296 mod 4 = s mod 4" by (simp add: mod_mod_cancel)
  finally show ?thesis .
qed

lemma align_sum: "(s + (4 - s mod 4) mod 4) mod 4 = 0" for s :: nat
proof -
  have "s mod 4 = 0 \<or> s mod 4 = 1 \<or> s mod 4 = 2 \<or> s mod 4 = 3" by linarith
  then show ?thesis by (elim disjE) (simp, presburger+)
qed

lemma and_below_4: "n < 4294967296 \<Longrightarrow> n AND 0xfffffffc = n div 4 * 4" for n :: nat
proof -
  assume n: "n < 4294967296"
  have m: "push_bit 2 (mask 30) = (0xfffffffc :: nat)" by (simp add: mask_eq_exp_minus_1 push_bit_eq_mult)
  have "bit (push_bit 2 (mask 30) :: nat) i \<longleftrightarrow> 2 \<le> i \<and> i < 32" for i
    by (simp only: bit_push_bit_iff bit_mask_iff) auto
  then have "bit (0xfffffffc :: nat) i \<longleftrightarrow> 2 \<le> i \<and> i < 32" for i unfolding m .
  moreover have "bit n i \<Longrightarrow> i < 32" for i
  proof (rule ccontr)
    assume b: "bit n i" "\<not> i < 32"
    then have "n div 2 ^ i = 0" using n power_increasing [of 32 i "2 :: nat"] by (auto intro!: div_less)
    then show False using b(1) by (simp add: bit_iff_odd)
  qed
  moreover have d: "n div 4 * 4 = push_bit 2 (drop_bit 2 n)" by (simp add: push_bit_eq_mult drop_bit_eq_div)
  have "bit (n div 4 * 4) i \<longleftrightarrow> 2 \<le> i \<and> bit n i" for i
    unfolding d by (cases "2 \<le> i") (simp_all only: bit_push_bit_iff bit_drop_bit_eq comp_def le_add_diff_inverse simp_thms possible_bit_def, simp)
  ultimately show ?thesis by (auto simp: bit_eq_iff bit_and_iff)
qed

lemma and_4: "s mod 4 = 0 \<Longrightarrow> (s + (24 + (s AND 4))) mod 8 = 0 \<and> (s AND 4 = 0 \<or> s AND 4 = 4)" for s :: nat
proof -
  assume s: "s mod 4 = 0"
  have "s AND 4 = (s AND 7) AND 4" by (simp add: and.assoc)
  also have "s AND 7 = s mod 8" using and_pow [of s 3] by simp
  finally have "s AND 4 = s mod 8 AND 4" .
  moreover have "s mod 8 = 0 \<or> s mod 8 = 4" using s by presburger
  ultimately have "s mod 8 = 0 \<and> s AND 4 = 0 \<or> s mod 8 = 4 \<and> s AND 4 = 4" by auto
  then show ?thesis using s by presburger
qed

lemma fill_words_filled:
  assumes "c < 256" "mapped mem s n" "8 < n" "n < size_mod" "{s..<s + 4} \<union> {s + n - 4..<s + n} \<subseteq> A" "A \<subseteq> {s..<s + n}"
  shows "fill_words (filled mem A c) s c n = Some (filled mem {s..<s + n} c)"
proof -
  define k where "k = (4 - s mod 4) mod 4"
  define n' where "n' = (n - k) div 4 * 4"
  define s' where "s' = s + k"
  define e where "e = s' + n'"
  define w where "w = c * 16843009"
  have k: "k < 4" "s' mod 4 = 0" using align_sum [of s] by (simp_all add: k_def s'_def)
  define q where "q = (n - k) div 4"
  have "4 * q + (n - k) mod 4 = n - k" "(n - k) mod 4 < 4" by (simp_all add: q_def)
  moreover have "n' = 4 * q" by (simp add: n'_def q_def)
  moreover from calculation have "1 \<le> q" using k(1) assms(3) by linarith
  ultimately have n': "n' mod 4 = 0" "k + n' \<le> n" "n < k + n' + 4" "4 \<le> n'" using k(1) assms(3) by (simp, linarith+)
  have w': "szmul 16843009 (c mod 256) = w" using assms(1) by (simp add: szmul_def w_def)
  have nk: "(n - k) AND 0xfffffffc = n'" unfolding n'_def by (rule and_below_4) (use assms(4) in simp)
  define F where "F h R = filled mem (A \<union> {s'..<s' + h} \<union> R) c" for h R
  have R: "A \<union> {s'..<s' + h} \<union> R \<subseteq> dom mem" if "h \<le> n'" "R \<subseteq> {s..<s + n}" for h R
    using assms(2,6) that n'(2) unfolding s'_def by (intro subset_trans [OF _ assms(2)]) auto
  have st: "store32 (F h R) a w = Some (filled mem (A \<union> {s'..<s' + h} \<union> R \<union> {a..<a + 4}) c)"
    if "h \<le> n'" "R \<subseteq> {s..<s + n}" "s' \<le> a" "a + 4 \<le> e" "a mod 4 = 0" for h R a
    unfolding F_def w_def
    by (rule store32_filled [OF assms(1) R [OF that(1,2)] mapped_sub [OF assms(2)] that(5)])
      (use that(3,4) n'(2) in \<open>auto simp: e_def s'_def\<close>)
  have head: "store32 (F h R) (s' + h) w = Some (F (h + 4) R)" if "R \<subseteq> {s..<s + n}" "h mod 4 = 0" "h + 4 \<le> n'" for h R
  proof -
    have "(s' + h) mod 4 = 0" using k(2) that(2) by presburger
    moreover have "A \<union> {s'..<s' + h} \<union> R \<union> {s' + h..<s' + h + 4} = A \<union> {s'..<s' + (h + 4)} \<union> R" by auto
    ultimately show ?thesis using st [of h R "s' + h"] that by (simp add: F_def e_def)
  qed
  have tail: "store32 (F h R) (s' + n' - t) w = Some (F h (R \<union> {e - t..<e - t + 4}))"
    if "R \<subseteq> {s..<s + n}" "h \<le> n'" "t mod 4 = 0" "4 \<le> t" "t \<le> n'" for h R t
  proof -
    have "(s' + n' - t) mod 4 = 0" using k(2) n'(1) that(3,5) by presburger
    then show ?thesis using st [of h R "s' + n' - t"] that by (simp add: F_def e_def Un_assoc)
  qed
  have end_sub: "{e - t..<e} \<subseteq> {s..<s + n}" if "t \<le> n'" for t using that n'(2) by (auto simp: e_def s'_def)
  have sub: "R \<union> {e - t..<e - t + 4} \<subseteq> {s..<s + n}" if "R \<subseteq> {s..<s + n}" "4 \<le> t" "t \<le> n'" for R t
    using that n'(2) by (auto simp: e_def s'_def)
  have F0: "filled mem A c = F 0 {}" by (simp add: F_def)
  have 1: "store32 (F 0 {}) s' w = Some (F 4 {})" using head [of "{}" 0] n'(4) by simp
  have 2: "store32 (F 4 {}) (s' + n' - 4) w = Some (F 4 {e - 4..<e})"
    using tail [of "{}" 4 4] n'(4) by (simp add: e_def)
  have inside: "{s'..<e} \<subseteq> {s..<s + n}" using n'(2) by (auto simp: e_def s'_def)
  have "x \<in> {s..<s + 4} \<union> {s + n - 4..<s + n} \<union> {s'..<e}" if "x \<in> {s..<s + n}" for x
  proof -
    have "s' < s + 4" "s + n - 4 < e" using k(1) n'(3) assms(3) by (auto simp: e_def s'_def)
    then show ?thesis using that by auto
  qed
  then have cover: "A \<union> X = {s..<s + n}" if "X = {s'..<e}" for X
    using assms(5,6) inside unfolding that by blast
  show ?thesis
  proof (cases "n' \<le> 8")
    case True
    have "{s'..<s' + 4} \<union> {e - 4..<e} = {s'..<e}" using True n'(4) by (auto simp: e_def)
    from cover [OF this] show ?thesis using 1 2 True
      by (simp add: fill_words_def Let_def align_distance k_def [symmetric] nk s'_def [symmetric] w' F0) (simp add: F_def Un_assoc)
  next
    case 8: False
    then have n12: "12 \<le> n'" using n'(1) by presburger
    have t12: "{e - 4..<e} \<union> {e - 12..<e - 12 + 4} \<union> {e - 8..<e - 8 + 4} = {e - 12..<e}" using n12 by (auto simp: e_def)
    note R4 = end_sub [of 4] and R12 = end_sub [OF n12]
    note stage2 = head [OF R4, of 4] head [OF R4, of 8] tail [OF R4, of 12 12] tail [OF sub [OF R4, of 12], of 12 8]
    show ?thesis
    proof (cases "n' \<le> 24")
      case True
      have "{s'..<s' + 12} \<union> {e - 12..<e} = {s'..<e}" using True n12 by (auto simp: e_def)
      from cover [OF this] show ?thesis using 1 2 stage2 8 True n12
        by (simp add: fill_words_def Let_def align_distance k_def [symmetric] nk s'_def [symmetric] w' F0 t12) (simp add: F_def Un_assoc)
    next
      case 24: False
      then have n28: "28 \<le> n'" using n'(1) by presburger
      have t28: "{e - 12..<e} \<union> {e - 28..<e - 28 + 4} \<union> {e - 24..<e - 24 + 4} \<union> {e - 20..<e - 20 + 4} \<union> {e - 16..<e - 16 + 4} = {e - 28..<e}"
        using n28 by (auto simp: e_def)
      note S1 = sub [OF R12, of 28] and S2 = sub [OF sub [OF R12, of 28], of 24] and S3 = sub [OF sub [OF sub [OF R12, of 28], of 24], of 20]
      note stage3 = head [OF R12, of 12] head [OF R12, of 16] head [OF R12, of 20] head [OF R12, of 24]
        tail [OF R12, of 28 28] tail [OF S1, of 28 24] tail [OF S2, of 28 20] tail [OF S3, of 28 16]
      define k' where "k' = 24 + (s' AND 4)"
      have k': "(s' + k') mod 8 = 0" "k' = 24 \<or> k' = 28" using and_4 [OF k(2)] by (auto simp: k'_def)
      have "w < 2 ^ 32" using assms(1) by (simp add: w_def)
      then have "w OR push_bit 32 w = w + w * 4294967296"
        using or_low [of w 32 w] by (simp add: push_bit_eq_mult or.commute add.commute)
      then have c64: "w OR push_bit 32 w = c * 16843009 + c * 16843009 * 4294967296" by (simp only: w_def)
      have mp: "mapped mem (s' + k') (n' - k')" by (rule mapped_sub [OF assms(2)]) (use k'(2) n28 n'(2) in \<open>auto simp: s'_def\<close>)
      have "A \<union> {s'..<s' + 28} \<union> {e - 28..<e} \<subseteq> dom mem" by (rule R [OF n28 end_sub [OF n28]])
      from fill64_loop_filled [OF assms(1) this mp k'(1)] obtain m where m: "fill64_loop (F 28 {e - 28..<e}) (s' + k') (n' - k') (w OR push_bit 32 w) =
          Some (filled mem (A \<union> {s'..<s' + 28} \<union> {e - 28..<e} \<union> {s' + k'..<s' + k' + m}) c)"
          "m \<le> n' - k'" "n' - k' < m + 32" "m mod 32 = 0"
        unfolding F_def c64 by (elim exE conjE)
      have "m mod 4 = 0" using m(4) by presburger
      then have "n' \<le> k' + m + 28" using m(2,3) n'(1) k'(2) n28 by presburger
      then have "{s'..<s' + 28} \<union> {e - 28..<e} \<union> {s' + k'..<s' + k' + m} = {s'..<e}"
        using m(2) k'(2) n28 by (auto simp: e_def)
      from cover [OF this] have m1: "fill64_loop (F 28 {e - 28..<e}) (s' + k') (n' - k') (w OR push_bit 32 w) = Some (filled mem {s..<s + n} c)"
        using m(1) by (simp add: Un_assoc)
      show ?thesis using 1 2 stage2 stage3 8 24 n28 m1
        by (simp add: fill_words_def Let_def align_distance k_def [symmetric] nk s'_def [symmetric] w' F0 t12 t28 k'_def [symmetric])
    qed
  qed
qed

lemma store8_mod: "store8 mem a (v mod 256) = store8 mem a v"
  by (simp add: store8_def)

lemma memset_filled:
  assumes "mapped mem s n" "n < size_mod"
  shows "memset bulk mem s c n = Some (filled mem {s..<s + n} (c mod 256))"
proof (cases "bulk_exceeded bulk n")
  case True
  then show ?thesis using assms by (simp add: memset_def memory_fill_def)
next
  case False
  define c' where "c' = c mod 256"
  define F where "F h t = filled mem ({s..<s + h} \<union> {s + n - t..<s + n}) c'" for h t
  have st: "store8 (F h t) a c = Some (filled mem ({s..<s + h} \<union> {s + n - t..<s + n} \<union> {a..<a + 1}) c')"
    if "h \<le> n" "t \<le> n" "s \<le> a" "a < s + n" for h t a
  proof -
    have "{s..<s + h} \<union> {s + n - t..<s + n} \<subseteq> {s..<s + n}" using that(1,2) by auto
    from store8_filled [OF _ subset_trans [OF this assms(1)] mapped_at [OF assms(1) that(3,4)], of c'] show ?thesis
      unfolding F_def c'_def store8_mod by simp
  qed
  have head: "store8 (F h t) (s + h) c = Some (F (h + 1) t)" if "h < n" "t \<le> n" for h t
  proof -
    have "{s..<s + h} \<union> {s + n - t..<s + n} \<union> {s + h..<s + h + 1} = {s..<s + (h + 1)} \<union> {s + n - t..<s + n}" by auto
    then show ?thesis using st [of h t "s + h"] that by (simp add: F_def)
  qed
  have tail: "store8 (F h t) (s + n - (t + 1)) c = Some (F h (t + 1))" if "h \<le> n" "t < n" for h t
  proof -
    have "{s..<s + h} \<union> {s + n - t..<s + n} \<union> {s + n - (t + 1)..<s + n - (t + 1) + 1} = {s..<s + h} \<union> {s + n - (t + 1)..<s + n}"
      using that by auto
    then show ?thesis using st [of h t "s + n - (t + 1)"] that by (simp add: F_def)
  qed
  have all: "F h t = filled mem {s..<s + n} c'" if "n \<le> h + t" "h \<le> n" "t \<le> n" for h t
  proof -
    have "{s..<s + h} \<union> {s + n - t..<s + n} = {s..<s + n}" using that by auto
    then show ?thesis by (simp add: F_def)
  qed
  have F0: "mem = F 0 0" by (simp add: F_def)
  have 1: "store8 (F 0 0) s c = Some (F 1 0)" "store8 (F 1 0) (s + n - 1) c = Some (F 1 1)" if "0 < n"
    using head [of 0 0] tail [of 1 0] that by simp_all
  have 2: "store8 (F 1 1) (s + 1) c = Some (F 2 1)" "store8 (F 2 1) (s + 2) c = Some (F 3 1)"
    "store8 (F 3 1) (s + n - 2) c = Some (F 3 2)" "store8 (F 3 2) (s + n - 3) c = Some (F 3 3)" if "2 < n"
    using head [of 1 1] head [of 2 1] tail [of 3 1] tail [of 3 2] that by (simp_all add: numeral_2_eq_2 numeral_3_eq_3)
  have 3: "store8 (F 3 3) (s + 3) c = Some (F 4 3)" "store8 (F 4 3) (s + n - 4) c = Some (F 4 4)" if "6 < n"
    using head [of 3 3] tail [of 4 3] that by simp_all
  note chain = 1 2 3
  consider "n = 0" | "0 < n" "n \<le> 2" | "2 < n" "n \<le> 6" | "6 < n" "n \<le> 8" | "8 < n" by linarith
  then show ?thesis
  proof cases
    case 1
    then show ?thesis using False by (simp add: memset_def)
  next
    case 2
    then show ?thesis using False chain all [of 1 1] by (simp add: memset_def flip: F0 c'_def)
  next
    case 3
    then show ?thesis using False chain all [of 3 3] by (simp add: memset_def F0 flip: c'_def)
  next
    case 4
    then show ?thesis using False chain all [of 4 4] by (simp add: memset_def F0 flip: c'_def)
  next
    case 5
    have "fill_words (F 4 4) s c n = fill_words (F 4 4) s c' n" by (simp add: fill_words_def c'_def)
    also have "\<dots> = Some (filled mem {s..<s + n} c')"
      unfolding F_def by (rule fill_words_filled [OF _ assms(1) 5 assms(2)]) (use 5 in \<open>auto simp: c'_def\<close>)
    finally show ?thesis using 5 False chain by (simp add: memset_def F0 flip: c'_def)
  qed
qed

end
