(* ===== verification/Mem_Copy_Moves.thy ===== *)
theory Mem_Copy_Moves
  imports Mem_Copy_Theorems
begin

text \<open>
  memcpy and memmove: the memory when some of the bytes have been copied, and what each loop adds to them.
\<close>

section \<open>Bytes copied so far\<close>

text \<open>The bytes at the offsets in \<open>A\<close> have been copied.\<close>

definition moved :: "memory \<Rightarrow> nat \<Rightarrow> nat \<Rightarrow> nat set \<Rightarrow> memory" where
  "moved mem d s A = (\<lambda>a. if d \<le> a \<and> a - d \<in> A then mem (s + (a - d)) else mem a)"

text \<open>The two ranges, and that no byte at an offset in \<open>B\<close> is read after it was overwritten.\<close>

definition copy_ok :: "memory \<Rightarrow> nat \<Rightarrow> nat \<Rightarrow> nat \<Rightarrow> bool" where
  "copy_ok mem d s n \<longleftrightarrow> bytes_ok mem \<and> mapped mem s n \<and> mapped mem d n"

definition fresh :: "nat \<Rightarrow> nat \<Rightarrow> nat set \<Rightarrow> nat set \<Rightarrow> bool" where
  "fresh d s A B \<longleftrightarrow> (\<forall>i \<in> B. \<not> (d \<le> s + i \<and> s + i - d \<in> A))"

lemma moved_empty [simp]: "moved mem d s {} = mem"
  by (simp add: moved_def)

lemma moved_read: "fresh d s A {i} \<Longrightarrow> moved mem d s A (s + i) = mem (s + i)"
  by (auto simp: moved_def fresh_def)

lemma moved_dom: "copy_ok mem d s n \<Longrightarrow> A \<subseteq> {..<n} \<Longrightarrow> dom (moved mem d s A) = dom mem"
proof -
  assume a: "copy_ok mem d s n" "A \<subseteq> {..<n}"
  have "(moved mem d s A x = None) = (mem x = None)" for x
  proof (cases "d \<le> x \<and> x - d \<in> A")
    case True
    then obtain j where j: "x = d + j" "j < n" using a(2) by (auto simp: le_iff_add)
    then have "s + j \<in> dom mem" "x \<in> dom mem"
      using a(1) mapped_at [of s n mem "s + j"] mapped_at [of d n mem x] by (simp_all add: copy_ok_def)
    then show ?thesis using True j(1) by (auto simp: moved_def)
  qed (auto simp: moved_def)
  then show ?thesis by (auto simp: dom_def)
qed

lemma put_moved:
  assumes "\<And>j. j < length bs \<Longrightarrow> mem (s + i + j) = Some (bs ! j)"
  shows "put (moved mem d s A) (d + i) bs = moved mem d s (A \<union> {i..<i + length bs})"
proof
  fix x
  show "put (moved mem d s A) (d + i) bs x = moved mem d s (A \<union> {i..<i + length bs}) x"
  proof (cases "d + i \<le> x \<and> x < d + i + length bs")
    case True
    then have "mem (s + i + (x - (d + i))) = Some (bs ! (x - (d + i)))" by (intro assms) auto
    moreover have "s + i + (x - (d + i)) = s + (x - d)" "x - d \<in> {i..<i + length bs}" "d \<le> x" using True by auto
    ultimately show ?thesis using True by (simp add: put_def moved_def)
  next
    case False
    then have "d \<le> x \<Longrightarrow> x - d \<notin> {i..<i + length bs}" by auto
    then show ?thesis using False by (auto simp: put_def moved_def)
  qed
qed

lemma copy8_moved:
  assumes "copy_ok mem d s n" "A \<subseteq> {..<n}" "i < n" "fresh d s A {i}"
  shows "copy8 (moved mem d s A) (d + i) (s + i) = Some (moved mem d s (A \<union> {i..<i + 1}))"
proof -
  obtain b where b: "mem (s + i) = Some b" using mappedD [of s n mem "s + i"] assms(1,3) by (auto simp: copy_ok_def)
  have "b < 256" using bytes_okD [of mem "s + i" b] b assms(1) by (simp add: copy_ok_def)
  moreover have "d + i \<in> dom (moved mem d s A)"
    unfolding moved_dom [OF assms(1,2)] by (rule mapped_at [of d n mem]) (use assms(1,3) in \<open>auto simp: copy_ok_def\<close>)
  moreover have "put (moved mem d s A) (d + i) [b] = moved mem d s (A \<union> {i..<i + 1})"
    using put_moved [of "[b]" mem s i d A] b by simp
  ultimately show ?thesis using store8_put [of "d + i" "moved mem d s A" b] moved_read [OF assms(4), of mem] b by (simp add: copy8_def)
qed

text \<open>Four bytes at once, from a word or from parts of two.\<close>

lemma four_bytes:
  assumes "copy_ok mem d s n" "i + 4 \<le> n"
  obtains b0 b1 b2 b3 where "mem (s + i) = Some b0" "mem (s + i + 1) = Some b1" "mem (s + i + 2) = Some b2" "mem (s + i + 3) = Some b3"
    "b0 < 256" "b1 < 256" "b2 < 256" "b3 < 256"
proof -
  have e: "\<exists>b. mem (s + i + j) = Some b \<and> b < 256" if "j < 4" for j
    using mappedD [of s n mem "s + i + j"] that assms by (auto simp: copy_ok_def bytes_ok_def)
  show thesis using e [of 0] e [of 1] e [of 2] e [of 3] that by auto
qed

lemma store_moved:
  assumes "copy_ok mem d s n" "A \<subseteq> {..<n}" "i + 4 \<le> n" "(d + i) mod 4 = 0"
    and "mem (s + i) = Some b0" "mem (s + i + 1) = Some b1" "mem (s + i + 2) = Some b2" "mem (s + i + 3) = Some b3"
  shows "store32 (moved mem d s A) (d + i) (b0 + 256 * b1 + 65536 * b2 + 16777216 * b3) = Some (moved mem d s (A \<union> {i..<i + 4}))"
proof -
  have lt: "b0 < 256" "b1 < 256" "b2 < 256" "b3 < 256" using assms(1,5-8) by (auto simp: copy_ok_def bytes_ok_def)
  have "mapped (moved mem d s A) (d + i) 4"
    unfolding moved_dom [OF assms(1,2)] by (rule mapped_sub [of d n mem]) (use assms(1,3) in \<open>auto simp: copy_ok_def\<close>)
  moreover have "put (moved mem d s A) (d + i) [b0, b1, b2, b3] = moved mem d s (A \<union> {i..<i + 4})"
  proof -
    have "mem (s + i + j) = Some ([b0, b1, b2, b3] ! j)" if "j < length [b0, b1, b2, b3]" for j
    proof -
      have "j = 0 \<or> j = 1 \<or> j = 2 \<or> j = 3" using that by auto
      then show ?thesis using assms(5-8) by auto
    qed
    from put_moved [OF this, where d = d and A = A] show ?thesis by (simp add: numeral_eq_Suc)
  qed
  ultimately show ?thesis using store32_put [OF lt assms(4)] by simp
qed

lemma copy32_moved:
  assumes "copy_ok mem d s n" "A \<subseteq> {..<n}" "i + 4 \<le> n" "fresh d s A {i..<i + 4}" "(d + i) mod 4 = 0" "(s + i) mod 4 = 0"
  shows "copy32 (moved mem d s A) (d + i) (s + i) = Some (moved mem d s (A \<union> {i..<i + 4}))"
proof -
  obtain b0 b1 b2 b3 where b: "mem (s + i) = Some b0" "mem (s + i + 1) = Some b1" "mem (s + i + 2) = Some b2" "mem (s + i + 3) = Some b3"
    using four_bytes [OF assms(1,3)] by metis
  have r: "moved mem d s A (s + i + j) = mem (s + i + j)" if "j < 4" for j
  proof -
    have "fresh d s A {i + j}" using assms(4) that by (auto simp: fresh_def)
    from moved_read [OF this, of mem] show ?thesis by (simp add: add.assoc)
  qed
  have "load32 (moved mem d s A) (s + i) = Some (b0 + 256 * b1 + 65536 * b2 + 16777216 * b3)"
    using load32_bytes [OF assms(6), of "moved mem d s A"] r [of 0] r [of 1] r [of 2] r [of 3] b by simp
  then show ?thesis using store_moved [OF assms(1-3,5) b] by (simp add: copy32_def)
qed

section \<open>Upwards\<close>

text \<open>The first \<open>m\<close> bytes; nothing is overwritten before it is read.\<close>

abbreviation lower :: "memory \<Rightarrow> nat \<Rightarrow> nat \<Rightarrow> nat \<Rightarrow> memory" where
  "lower mem d s m \<equiv> moved mem d s {..<m}"

definition upward :: "nat \<Rightarrow> nat \<Rightarrow> nat \<Rightarrow> bool" where
  "upward d s n \<longleftrightarrow> d \<le> s \<or> s + n \<le> d"

lemma upward_fresh: "upward d s n \<Longrightarrow> B \<subseteq> {m..<n} \<Longrightarrow> fresh d s {..<m} B"
  by (auto simp: upward_def fresh_def subset_iff)

lemma lessThan_more: "{..<m} \<union> {m..<m + k} = {..<m + k}" for m k :: nat
  by auto

lemma copy8_up:
  assumes "copy_ok mem d s n" "upward d s n" "m < n"
  shows "copy8 (lower mem d s m) (d + m) (s + m) = Some (lower mem d s (m + 1))"
  using copy8_moved [OF assms(1) _ assms(3) upward_fresh [OF assms(2)], of m] assms(3) lessThan_more [of m 1] by auto

lemma copy32_up:
  assumes "copy_ok mem d s n" "upward d s n" "m + 4 \<le> n" "(d + m) mod 4 = 0" "(s + m) mod 4 = 0"
  shows "copy32 (lower mem d s m) (d + m) (s + m) = Some (lower mem d s (m + 4))"
  using copy32_moved [OF assms(1) _ assms(3) upward_fresh [OF assms(2)] assms(4,5), of m] assms(3) lessThan_more [of m 4]
  by auto

lemma copy_bytes_up:
  assumes "copy_ok mem d s n" "upward d s n" "m + k \<le> n"
  shows "copy_bytes (lower mem d s m) (d + m) (s + m) k = Some (lower mem d s (m + k))"
  using assms(3)
proof (induction k arbitrary: m)
  case (Suc k)
  then show ?case using copy8_up [OF assms(1,2), of m] Suc.IH [of "m + 1"] by simp
qed simp

lemma copy_head_up:
  assumes "copy_ok mem d s n" "upward d s n" "m \<le> n"
  shows "\<exists>m'. copy_head (lower mem d s m) (d + m) (s + m) (n - m) = Some (lower mem d s m', d + m', s + m', n - m') \<and>
    m \<le> m' \<and> m' \<le> n \<and> (m' = n \<or> (s + m') mod 4 = 0)"
  using assms(3)
proof (induction "n - m" arbitrary: m)
  case 0
  then show ?case by (intro exI [of _ n]) (simp add: copy_head.simps)
next
  case (Suc k)
  show ?case
  proof (cases "(s + m) mod 4 = 0")
    case True
    then show ?thesis using Suc.prems by (intro exI [of _ m]) (simp add: copy_head.simps)
  next
    case False
    have m: "m < n" using Suc by simp
    have "copy_head (lower mem d s m) (d + m) (s + m) (n - m) = copy_head (lower mem d s (m + 1)) (d + (m + 1)) (s + (m + 1)) (n - (m + 1))"
      using False m copy8_up [OF assms(1,2) m] by (subst copy_head.simps) simp
    moreover have "k = n - (m + 1)" "m + 1 \<le> n" using Suc.hyps(2) m by simp_all
    ultimately show ?thesis using Suc.hyps(1) [of "m + 1"] by (auto intro: Suc_leD)
  qed
qed

lemma copy_blocks_up:
  assumes "copy_ok mem d s n" "upward d s n" "m \<le> n" "(d + m) mod 4 = 0" "(s + m) mod 4 = 0"
  shows "\<exists>m'. copy_blocks (lower mem d s m) (d + m) (s + m) (n - m) = Some (lower mem d s m', d + m', s + m', n - m') \<and>
    m' \<le> n \<and> n - m' < 16 \<and> (d + m') mod 4 = 0 \<and> (s + m') mod 4 = 0"
  using assms(3-5)
proof (induction "n - m" arbitrary: m rule: less_induct)
  case less
  show ?case
  proof (cases "n - m \<ge> 16")
    case False
    then show ?thesis using less.prems by (intro exI [of _ m]) (simp add: copy_blocks.simps)
  next
    case True
    then have le: "m + 16 \<le> n" using less.prems by simp
    have a: "(x + m + 4) mod 4 = 0" "(x + m + 8) mod 4 = 0" "(x + m + 12) mod 4 = 0" "(x + m + 16) mod 4 = 0" if "(x + m) mod 4 = 0" for x
      using that by presburger+
    have "copy_blocks (lower mem d s m) (d + m) (s + m) (n - m) = copy_blocks (lower mem d s (m + 16)) (d + (m + 16)) (s + (m + 16)) (n - (m + 16))"
      using True le copy32_up [OF assms(1,2), of m] copy32_up [OF assms(1,2), of "m + 4"] copy32_up [OF assms(1,2), of "m + 8"]
        copy32_up [OF assms(1,2), of "m + 12"] a [OF less.prems(2)] a [OF less.prems(3)] less.prems
      by (subst copy_blocks.simps) (simp add: add.assoc)
    with less.hyps [of "m + 16"] le less.prems a [OF less.prems(2)] a [OF less.prems(3)] show ?thesis by (auto simp: add.assoc)
  qed
qed

section \<open>The tails of memcpy\<close>

lemma bit_steps:
  fixes r :: nat
  shows "r AND 16 = 0 \<longleftrightarrow> even (r div 16)" "r AND 8 = 0 \<longleftrightarrow> even (r div 8)" "r AND 4 = 0 \<longleftrightarrow> even (r div 4)"
    "r AND 2 = 0 \<longleftrightarrow> even (r div 2)" "r AND 1 = 0 \<longleftrightarrow> even r"
  using bit_test [of r 4] bit_test [of r 3] bit_test [of r 2] bit_test [of r 1] bit_test [of r 0] by simp_all

lemma binary_digits:
  fixes r :: nat
  assumes "r < 32"
  shows "r = (if r AND 16 = 0 then 0 else 16) + (if r AND 8 = 0 then 0 else 8) + (if r AND 4 = 0 then 0 else 4) +
    (if r AND 2 = 0 then 0 else 2) + (if r AND 1 = 0 then 0 else 1)"
proof -
  define e where "e x = (if even x then 0 else 1 :: nat)" for x :: nat
  have h: "x = 2 * (x div 2) + e x" for x by (simp add: e_def)
  have d: "r div 8 div 2 = r div 16" "r div 4 div 2 = r div 8" "r div 2 div 2 = r div 4" by (simp_all add: div_mult2_eq [symmetric])
  have "r div 16 < 2" using assms by simp
  then have "r div 16 = e (r div 16)" by (auto simp: e_def less_2_cases_iff)
  then have "r = 16 * e (r div 16) + 8 * e (r div 8) + 4 * e (r div 4) + 2 * e (r div 2) + e r"
    using h [of r] h [of "r div 2", unfolded d] h [of "r div 4", unfolded d] h [of "r div 8", unfolded d] by linarith
  moreover have "(if even x then 0 else k) = k * e x" for x k :: nat by (simp add: e_def)
  ultimately show ?thesis unfolding bit_steps by simp
qed

lemma tail_part_up:
  assumes "copy_ok mem d s n" "upward d s n" "m + k \<le> n \<or> r AND k = 0"
  shows "tail_part r k (lower mem d s m, d + m, s + m) =
    (let m = m + (if r AND k = 0 then 0 else k) in Some (lower mem d s m, d + m, s + m))"
  using copy_bytes_up [OF assms(1,2), of m k] assms(3) by (auto simp: tail_part_def add.assoc Let_def)

lemma byte_tail_up:
  assumes "copy_ok mem d s n" "upward d s n" "m \<le> n" "n - m < 32"
  shows "byte_tail (lower mem d s m) (d + m) (s + m) (n - m) = Some (lower mem d s n)"
proof -
  define r where "r = n - m"
  define x16 x8 x4 x2 x1 where x: "x16 = (if r AND 16 = 0 then 0 else 16 :: nat)" "x8 = (if r AND 8 = 0 then 0 else 8 :: nat)"
    "x4 = (if r AND 4 = 0 then 0 else 4 :: nat)" "x2 = (if r AND 2 = 0 then 0 else 2 :: nat)" "x1 = (if r AND 1 = 0 then 0 else 1 :: nat)"
  have "r = x16 + x8 + x4 + x2 + x1" unfolding x by (rule binary_digits) (use assms(4) in \<open>simp add: r_def\<close>)
  then have n: "n = m + x16 + x8 + x4 + x2 + x1" using assms(3) by (simp add: r_def)
  have t: "tail_part r 16 (lower mem d s m, d + m, s + m) = Some (lower mem d s (m + x16), d + (m + x16), s + (m + x16))"
    "tail_part r 8 (lower mem d s (m + x16), d + (m + x16), s + (m + x16)) = Some (lower mem d s (m + x16 + x8), d + (m + x16 + x8), s + (m + x16 + x8))"
    "tail_part r 4 (lower mem d s (m + x16 + x8), d + (m + x16 + x8), s + (m + x16 + x8)) =
      Some (lower mem d s (m + x16 + x8 + x4), d + (m + x16 + x8 + x4), s + (m + x16 + x8 + x4))"
    "tail_part r 2 (lower mem d s (m + x16 + x8 + x4), d + (m + x16 + x8 + x4), s + (m + x16 + x8 + x4)) =
      Some (lower mem d s (m + x16 + x8 + x4 + x2), d + (m + x16 + x8 + x4 + x2), s + (m + x16 + x8 + x4 + x2))"
    using n by (subst tail_part_up [OF assms(1,2)], force simp: x, simp add: x Let_def)+
  have "copy8 (lower mem d s (m + x16 + x8 + x4 + x2)) (d + (m + x16 + x8 + x4 + x2)) (s + (m + x16 + x8 + x4 + x2)) =
      Some (lower mem d s n)" if "r AND 1 \<noteq> 0"
    using copy8_up [OF assms(1,2), of "m + x16 + x8 + x4 + x2"] n that by (simp add: x(5))
  moreover have "n = m + x16 + x8 + x4 + x2" if "r AND 1 = 0" using n that by (simp add: x(5))
  ultimately show ?thesis unfolding byte_tail_def r_def [symmetric] by (simp add: t)
qed

lemma aligned_tail_up:
  assumes "copy_ok mem d s n" "upward d s n" "m \<le> n" "n - m < 16" "(d + m) mod 4 = 0" "(s + m) mod 4 = 0"
  shows "aligned_tail (lower mem d s m) (d + m) (s + m) (n - m) = Some (lower mem d s n)"
proof -
  define r where "r = n - m"
  define x8 x4 x2 x1 where x: "x8 = (if r AND 8 = 0 then 0 else 8 :: nat)"
    "x4 = (if r AND 4 = 0 then 0 else 4 :: nat)" "x2 = (if r AND 2 = 0 then 0 else 2 :: nat)" "x1 = (if r AND 1 = 0 then 0 else 1 :: nat)"
  have "r < 16" using assms(4) by (simp add: r_def)
  moreover from this have "r AND 16 = 0" unfolding bit_steps by simp
  ultimately have "r = x8 + x4 + x2 + x1" using binary_digits [of r] unfolding x by simp
  then have n: "n = m + x8 + x4 + x2 + x1" using assms(3) by (simp add: r_def)
  have al: "(y + m + 4) mod 4 = 0" "(y + m + x8) mod 4 = 0" if "(y + m) mod 4 = 0" for y using that unfolding x by presburger+
  have 8: "(if r AND 8 \<noteq> 0 then do { mem \<leftarrow> copy32 (lower mem d s m) (d + m) (s + m); mem \<leftarrow> copy32 mem (d + m + 4) (s + m + 4); Some (mem, d + m + 8, s + m + 8) }
      else Some (lower mem d s m, d + m, s + m)) = Some (lower mem d s (m + x8), d + (m + x8), s + (m + x8))"
    using copy32_up [OF assms(1,2), of m] copy32_up [OF assms(1,2), of "m + 4"] n assms(5,6) al [OF assms(5)] al [OF assms(6)]
    by (simp add: x(1) add.assoc)
  have 4: "(if r AND 4 \<noteq> 0 then do { mem \<leftarrow> copy32 (lower mem d s (m + x8)) (d + (m + x8)) (s + (m + x8)); Some (mem, d + (m + x8) + 4, s + (m + x8) + 4) }
      else Some (lower mem d s (m + x8), d + (m + x8), s + (m + x8))) = Some (lower mem d s (m + x8 + x4), d + (m + x8 + x4), s + (m + x8 + x4))"
    using copy32_up [OF assms(1,2), of "m + x8"] n al [OF assms(5)] al [OF assms(6)] by (simp add: x(2) add.assoc)
  have 2: "(if r AND 2 \<noteq> 0 then do { mem \<leftarrow> copy_bytes (lower mem d s (m + x8 + x4)) (d + (m + x8 + x4)) (s + (m + x8 + x4)) 2; Some (mem, d + (m + x8 + x4) + 2, s + (m + x8 + x4) + 2) }
      else Some (lower mem d s (m + x8 + x4), d + (m + x8 + x4), s + (m + x8 + x4))) =
      Some (lower mem d s (m + x8 + x4 + x2), d + (m + x8 + x4 + x2), s + (m + x8 + x4 + x2))"
    using copy_bytes_up [OF assms(1,2), of "m + x8 + x4" 2] n by (simp add: x(3) add.assoc)
  have "copy8 (lower mem d s (m + x8 + x4 + x2)) (d + (m + x8 + x4 + x2)) (s + (m + x8 + x4 + x2)) = Some (lower mem d s n)" if "r AND 1 \<noteq> 0"
    using copy8_up [OF assms(1,2), of "m + x8 + x4 + x2"] n that by (simp add: x(4))
  moreover have "n = m + x8 + x4 + x2" if "r AND 1 = 0" using n that by (simp add: x(4))
  ultimately show ?thesis unfolding aligned_tail_def r_def [symmetric] 8 Option.bind.bind_lunit prod.case 4 2 by auto
qed

end
