(* ===== verification/Mem_Copy_Properties.thy ===== *)
theory Mem_Copy_Properties
  imports Mem_Copy_Moves
begin

text \<open>memcpy to a destination that is not aligned, and the properties of the three functions.\<close>

section \<open>Shifted words\<close>

definition word_of :: "memory \<Rightarrow> nat \<Rightarrow> nat" where
  "word_of mem a = the (mem a) + 256 * the (mem (a + 1)) + 65536 * the (mem (a + 2)) + 16777216 * the (mem (a + 3))"

lemma or_shift: "x < 2 ^ k \<Longrightarrow> x OR m * 2 ^ k = x + m * 2 ^ k" for x m :: nat
  using or_low [of x k m] by (simp add: or.commute add.commute)

lemma funnel_bytes:
  fixes b0 b1 b2 b3 b4 b5 b6 b7 :: nat
  assumes "b0 < 256" "b1 < 256" "b2 < 256" "b3 < 256" "b4 < 256" "b5 < 256" "b6 < 256" "b7 < 256"
  defines "w \<equiv> b0 + 256 * b1 + 65536 * b2 + 16777216 * b3" and "x \<equiv> b4 + 256 * b5 + 65536 * b6 + 16777216 * b7"
  shows "funnel 1 w x = b3 + 256 * b4 + 65536 * b5 + 16777216 * b6"
    "funnel 2 w x = b2 + 256 * b3 + 65536 * b4 + 16777216 * b5"
    "funnel 3 w x = b1 + 256 * b2 + 65536 * b3 + 16777216 * b4"
proof -
  have w: "w div 16777216 = b3" "w div 65536 = b2 + 256 * b3" "w div 256 = b1 + 256 * b2 + 65536 * b3"
  proof -
    have "w = (b0 + 256 * b1 + 65536 * b2) + b3 * 16777216" "w = (b0 + 256 * b1) + (b2 + 256 * b3) * 65536"
      "w = b0 + (b1 + 256 * b2 + 65536 * b3) * 256" by (simp_all add: w_def)
    moreover have "b0 + 256 * b1 + 65536 * b2 < 16777216" "b0 + 256 * b1 < 65536" using assms(1-4) by linarith+
    ultimately show "w div 16777216 = b3" "w div 65536 = b2 + 256 * b3" "w div 256 = b1 + 256 * b2 + 65536 * b3"
      using assms(1) by (simp_all only: div_mult_self1 div_less)
  qed
  have x: "x * 256 mod 4294967296 = (b4 + 256 * b5 + 65536 * b6) * 2 ^ 8" "x * 65536 mod 4294967296 = (b4 + 256 * b5) * 2 ^ 16"
    "x * 16777216 mod 4294967296 = b4 * 2 ^ 24"
  proof -
    have "x * 256 = (b4 + 256 * b5 + 65536 * b6) * 2 ^ 8 + b7 * 4294967296" "x * 65536 = (b4 + 256 * b5) * 2 ^ 16 + (b6 + 256 * b7) * 4294967296"
      "x * 16777216 = b4 * 2 ^ 24 + (b5 + 256 * b6 + 65536 * b7) * 4294967296" by (simp_all add: x_def)
    moreover have "(b4 + 256 * b5 + 65536 * b6) * 2 ^ 8 < 4294967296" "(b4 + 256 * b5) * 2 ^ 16 < 4294967296" "b4 * 2 ^ 24 < 4294967296"
      using assms(5-8) by simp_all
    ultimately show "x * 256 mod 4294967296 = (b4 + 256 * b5 + 65536 * b6) * 2 ^ 8" "x * 65536 mod 4294967296 = (b4 + 256 * b5) * 2 ^ 16"
      "x * 16777216 mod 4294967296 = b4 * 2 ^ 24" by (simp_all only: mod_mult_self1 mod_less)
  qed
  have lt: "b3 < 2 ^ 8" "b2 + 256 * b3 < 2 ^ 16" "b1 + 256 * b2 + 65536 * b3 < 2 ^ 24" using assms(1-4) by simp_all
  note or = or_shift [OF lt(1)] or_shift [OF lt(2)] or_shift [OF lt(3)]
  show "funnel 1 w x = b3 + 256 * b4 + 65536 * b5 + 16777216 * b6" using w x or(1) [of "b4 + 256 * b5 + 65536 * b6"]
    by (simp add: funnel_def drop_bit_eq_div push_bit_eq_mult)
  show "funnel 2 w x = b2 + 256 * b3 + 65536 * b4 + 16777216 * b5" using w x or(2) [of "b4 + 256 * b5"]
    by (simp add: funnel_def drop_bit_eq_div push_bit_eq_mult)
  show "funnel 3 w x = b1 + 256 * b2 + 65536 * b3 + 16777216 * b4" using w x or(3) [of b4]
    by (simp add: funnel_def drop_bit_eq_div push_bit_eq_mult)
qed

lemma funnel_word:
  assumes "copy_ok mem d s n" "i + 8 \<le> n" "j = 1 \<or> j = 2 \<or> j = 3"
  shows "funnel j (word_of mem (s + i)) (word_of mem (s + i + 4)) = word_of mem (s + i + (4 - j))"
proof -
  have e: "the (mem (s + i + k)) < 256" if "k < 8" for k
    using mappedD [of s n mem "s + i + k"] that assms by (auto simp: copy_ok_def bytes_ok_def)
  define f where "f k = the (mem (s + i + k))" for k
  have f: "f k < 256" if "k < 8" for k using e [OF that] by (simp add: f_def)
  have W: "word_of mem (s + i + m) = f m + 256 * f (m + 1) + 65536 * f (m + 2) + 16777216 * f (m + 3)" for m
    by (simp add: word_of_def f_def add.assoc)
  have "word_of mem (s + i) = f 0 + 256 * f 1 + 65536 * f 2 + 16777216 * f 3" using W [of 0] by (simp add: numeral_2_eq_2 [symmetric])
  moreover have "word_of mem (s + i + 4) = f 4 + 256 * f 5 + 65536 * f 6 + 16777216 * f 7" using W [of 4] by simp
  moreover have "word_of mem (s + i + 3) = f 3 + 256 * f 4 + 65536 * f 5 + 16777216 * f 6" using W [of 3] by simp
  moreover have "word_of mem (s + i + 2) = f 2 + 256 * f 3 + 65536 * f 4 + 16777216 * f 5" using W [of 2] by simp
  moreover have "word_of mem (s + i + 1) = f 1 + 256 * f 2 + 65536 * f 3 + 16777216 * f 4" using W [of 1] by (simp add: numeral_2_eq_2 [symmetric])
  moreover note funnel_bytes [OF f [of 0] f [of 1] f [of 2] f [of 3] f [of 4] f [of 5] f [of 6] f [of 7]]
  moreover have "j = 1 \<and> 4 - j = 3 \<or> j = 2 \<and> 4 - j = 2 \<or> j = 3 \<and> 4 - j = 1" using assms(3) by auto
  ultimately show ?thesis by (elim disjE conjE) (simp_all only: refl zero_less_numeral numeral_less_iff less_num_simps one_less_numeral_iff)
qed

text \<open>One word of the loop: \<open>w\<close> has the bytes before, down to the word boundary.\<close>

lemma load32_up:
  assumes "copy_ok mem d s n" "upward d s n" "m \<le> i" "i + 4 \<le> n" "(s + i) mod 4 = 0"
  shows "load32 (lower mem d s m) (s + i) = Some (word_of mem (s + i))"
proof -
  obtain b0 b1 b2 b3 where b: "mem (s + i) = Some b0" "mem (s + i + 1) = Some b1" "mem (s + i + 2) = Some b2" "mem (s + i + 3) = Some b3"
    using four_bytes [OF assms(1,4)] by metis
  have "lower mem d s m (s + i + k) = mem (s + i + k)" if "k < 4" for k
    using moved_read [OF upward_fresh [OF assms(2)], of "i + k" m mem] assms(3,4) that by (simp add: add.assoc)
  from this [of 0] this [of 1] this [of 2] this [of 3] show ?thesis
    using load32_bytes [OF assms(5), of "lower mem d s m"] b by (simp add: word_of_def)
qed

lemma store32_up:
  assumes "copy_ok mem d s n" "m + 4 \<le> n" "(d + m) mod 4 = 0"
  shows "store32 (lower mem d s m) (d + m) (word_of mem (s + m)) = Some (lower mem d s (m + 4))"
proof -
  obtain b0 b1 b2 b3 where b: "mem (s + m) = Some b0" "mem (s + m + 1) = Some b1" "mem (s + m + 2) = Some b2" "mem (s + m + 3) = Some b3"
    using four_bytes [OF assms(1,2)] by metis
  have "{..<m} \<subseteq> {..<n}" using assms(2) by auto
  from store_moved [OF assms(1) this assms(2,3) b] show ?thesis using b by (simp add: word_of_def lessThan_more)
qed

lemma shift_word:
  assumes "copy_ok mem d s n" "upward d s n" "j = 1 \<or> j = 2 \<or> j = 3" "4 \<le> m + j" "m + j + 4 \<le> n"
    and "(d + m) mod 4 = 0" "(s + m + j) mod 4 = 0"
  shows "load32 (lower mem d s m) (s + m + j) = Some (word_of mem (s + m + j)) \<and>
    store32 (lower mem d s m) (d + m) (funnel j (word_of mem (s + m + j - 4)) (word_of mem (s + m + j))) = Some (lower mem d s (m + 4))"
proof
  show "load32 (lower mem d s m) (s + m + j) = Some (word_of mem (s + m + j))"
    using load32_up [OF assms(1,2), of m "m + j"] assms(5,7) by (simp add: add.assoc)
  define i where "i = m + j - 4"
  have i: "m + j = i + 4" "m = i + (4 - j)" "i + 8 \<le> n" using assms(3-5) by (auto simp: i_def)
  have f: "funnel j (word_of mem (s + i)) (word_of mem (s + i + 4)) = word_of mem (s + m)"
    using funnel_word [OF assms(1) i(3) assms(3)] i(2) by (simp add: add.assoc)
  have eq: "s + m + j - 4 = s + i" "s + m + j = s + i + 4" using i(1) by simp_all
  show "store32 (lower mem d s m) (d + m) (funnel j (word_of mem (s + m + j - 4)) (word_of mem (s + m + j))) = Some (lower mem d s (m + 4))"
    unfolding eq(1) unfolding eq(2) f by (rule store32_up [OF assms(1) _ assms(6)]) (use assms(5) in simp)
qed

lemma shift_blocks_up:
  assumes "copy_ok mem d s n" "upward d s n" "j = 1 \<or> j = 2 \<or> j = 3"
    and "4 \<le> m + j" "m \<le> n" "(d + m) mod 4 = 0" "(s + m + j) mod 4 = 0"
  shows "\<exists>m'. shift_blocks j (word_of mem (s + m + j - 4)) (lower mem d s m) (d + m) (s + m) (n - m) =
      Some (lower mem d s m', d + m', s + m', n - m') \<and> m' \<le> n \<and> n - m' < 16 + j"
  using assms(4-7)
proof (induction "n - m" arbitrary: m rule: less_induct)
  case less
  show ?case
  proof (cases "n - m \<ge> 16 + j")
    case False
    then show ?thesis using less.prems by (intro exI [of _ m]) (simp add: shift_blocks.simps)
  next
    case True
    then have le: "m + 16 + j \<le> n" using less.prems by simp
    have al: "(x + (m + 4)) mod 4 = 0" "(x + (m + 8)) mod 4 = 0" "(x + (m + 12)) mod 4 = 0" "(x + (m + 16)) mod 4 = 0"
      if "(x + m) mod 4 = 0" for x using that by presburger+
    have al': "(s + (m + 4) + j) mod 4 = 0" "(s + (m + 8) + j) mod 4 = 0" "(s + (m + 12) + j) mod 4 = 0" "(s + (m + 16) + j) mod 4 = 0"
      using less.prems(4) by presburger+
    note st = shift_word [OF assms(1-3), of m] shift_word [OF assms(1-3), of "m + 4"] shift_word [OF assms(1-3), of "m + 8"]
      shift_word [OF assms(1-3), of "m + 12"]
    have bk: "s + (m + 4) + j - 4 = s + m + j" "s + (m + 8) + j - 4 = s + (m + 4) + j" "s + (m + 12) + j - 4 = s + (m + 8) + j"
      "s + (m + 16) + j - 4 = s + (m + 12) + j" by simp_all
    have pos: "s + m + j + 4 = s + (m + 4) + j" "s + m + j + 8 = s + (m + 8) + j" "s + m + j + 12 = s + (m + 12) + j"
      "d + m + 4 = d + (m + 4)" "d + m + 8 = d + (m + 8)" "d + m + 12 = d + (m + 12)" "d + m + 16 = d + (m + 16)" "s + m + 16 = s + (m + 16)"
      "n - m - 16 = n - (m + 16)" "m + 4 + 4 = m + 8" "m + 8 + 4 = m + 12" "m + 12 + 4 = m + 16" by simp_all
    have s1: "load32 (lower mem d s m) (s + m + j) = Some (word_of mem (s + m + j))"
      "store32 (lower mem d s m) (d + m) (funnel j (word_of mem (s + m + j - 4)) (word_of mem (s + m + j))) = Some (lower mem d s (m + 4))"
      using st(1) le less.prems by simp_all
    have s2: "load32 (lower mem d s (m + 4)) (s + (m + 4) + j) = Some (word_of mem (s + (m + 4) + j))"
      "store32 (lower mem d s (m + 4)) (d + (m + 4)) (funnel j (word_of mem (s + m + j)) (word_of mem (s + (m + 4) + j))) = Some (lower mem d s (m + 8))"
      using st(2) [unfolded bk pos] le al [OF less.prems(3)] al' by simp_all
    have s3: "load32 (lower mem d s (m + 8)) (s + (m + 8) + j) = Some (word_of mem (s + (m + 8) + j))"
      "store32 (lower mem d s (m + 8)) (d + (m + 8)) (funnel j (word_of mem (s + (m + 4) + j)) (word_of mem (s + (m + 8) + j))) = Some (lower mem d s (m + 12))"
      using st(3) [unfolded bk pos] le al [OF less.prems(3)] al' by simp_all
    have s4: "load32 (lower mem d s (m + 12)) (s + (m + 12) + j) = Some (word_of mem (s + (m + 12) + j))"
      "store32 (lower mem d s (m + 12)) (d + (m + 12)) (funnel j (word_of mem (s + (m + 8) + j)) (word_of mem (s + (m + 12) + j))) = Some (lower mem d s (m + 16))"
      using st(4) [unfolded bk pos] le al [OF less.prems(3)] al' by simp_all
    have "shift_blocks j (word_of mem (s + m + j - 4)) (lower mem d s m) (d + m) (s + m) (n - m) =
        shift_blocks j (word_of mem (s + (m + 16) + j - 4)) (lower mem d s (m + 16)) (d + (m + 16)) (s + (m + 16)) (n - (m + 16))"
      unfolding bk using True s1 s2 s3 s4
      by (subst shift_blocks.simps) (simp only: pos Option.bind.bind_lunit if_True)
    moreover have "n - (m + 16) < n - m" "m + 16 \<le> n" "4 \<le> m + 16 + j" using le less.prems by simp_all
    ultimately show ?thesis using less.hyps [of "m + 16"] al(4) [OF less.prems(3)] al'(4) by simp
  qed
qed

section \<open>memset, memcpy and memmove\<close>

lemma lower_range: "lower mem d s n = (\<lambda>a. if d \<le> a \<and> a < d + n then mem (s + (a - d)) else mem a)"
  by (auto simp: moved_def fun_eq_iff)

lemma mem_cpy_up:
  assumes "copy_ok mem d s n" "upward d s n"
  shows "mem_cpy bulk mem d s n = Some (lower mem d s n)"
proof (cases "bulk_exceeded bulk n")
  case True
  then show ?thesis using assms(1) by (simp add: mem_cpy_def memory_copy_def copy_ok_def flip: lower_range)
next
  case False
  obtain m where m: "copy_head mem d s n = Some (lower mem d s m, d + m, s + m, n - m)" "m \<le> n" "m = n \<or> (s + m) mod 4 = 0"
    using copy_head_up [OF assms, of 0] by auto
  show ?thesis
  proof (cases "(d + m) mod 4 = 0")
    case True
    have "(\<exists>m'. copy_blocks (lower mem d s m) (d + m) (s + m) (n - m) = Some (lower mem d s m', d + m', s + m', n - m') \<and>
        aligned_tail (lower mem d s m') (d + m') (s + m') (n - m') = Some (lower mem d s n))"
    proof (cases "m = n")
      case True
      then show ?thesis by (intro exI [of _ n]) (simp add: copy_blocks.simps aligned_tail_def)
    next
      case False
      then have "(s + m) mod 4 = 0" using m(3) by simp
      from copy_blocks_up [OF assms m(2) True this] obtain m' where b:
        "copy_blocks (lower mem d s m) (d + m) (s + m) (n - m) = Some (lower mem d s m', d + m', s + m', n - m')"
        "m' \<le> n" "n - m' < 16" "(d + m') mod 4 = 0" "(s + m') mod 4 = 0" by (elim exE conjE)
      from b(1) aligned_tail_up [OF assms b(2-5)] show ?thesis by (intro exI [of _ m'] conjI)
    qed
    then show ?thesis using \<open>\<not> bulk_exceeded bulk n\<close> m(1) True by (auto simp: mem_cpy_def)
  next
    case odd: False
    define j where "j = (d + m) mod 4"
    have j: "j = 1 \<or> j = 2 \<or> j = 3" using odd by (auto simp: j_def)
    have "\<exists>m'. (if n - m \<ge> 32 then memcpy_shift (lower mem d s m) (d + m) (s + m) (n - m) else Some (lower mem d s m, d + m, s + m, n - m)) =
        Some (lower mem d s m', d + m', s + m', n - m') \<and> m' \<le> n \<and> n - m' < 32"
    proof (cases "n - m \<ge> 32")
      case False
      then show ?thesis using m(2) by (intro exI [of _ m]) simp
    next
      case True
      then have al: "(s + m) mod 4 = 0" "m + 32 \<le> n" using m(2,3) by auto
      define k where "k = m + (4 - j)"
      have k: "k = m + (4 - j)" "m \<le> k" "k \<le> n" "4 \<le> k + j" "s + k + j - 4 = s + m" using j al(2) by (auto simp: k_def)
      have al1: "(d + k) mod 4 = 0" unfolding k_def using j_def j by presburger
      have "s + k + j = s + m + 4" using j by (auto simp: k_def)
      then have al2: "(s + k + j) mod 4 = 0" using al(1) by presburger
      from shift_blocks_up [OF assms j k(4,3) al1 al2] obtain m' where m': "shift_blocks j (word_of mem (s + m)) (lower mem d s k) (d + k) (s + k) (n - k) =
          Some (lower mem d s m', d + m', s + m', n - m')" "m' \<le> n" "n - m' < 16 + j"
        unfolding k(5) by (elim exE conjE)
      have "load32 (lower mem d s m) (s + m) = Some (word_of mem (s + m))" using load32_up [OF assms, of m m] al by simp
      moreover have "copy_bytes (lower mem d s m) (d + m) (s + m) (4 - j) = Some (lower mem d s k)"
        using copy_bytes_up [OF assms, of m "4 - j"] k(1,3) by simp
      ultimately have "memcpy_shift (lower mem d s m) (d + m) (s + m) (n - m) =
          shift_blocks j (word_of mem (s + m)) (lower mem d s k) (d + k) (s + k) (n - k)"
        using k(1) by (simp add: memcpy_shift_def j_def [symmetric] Let_def add.assoc)
      then show ?thesis using m' j True by auto
    qed
    then obtain m' where "(if n - m \<ge> 32 then memcpy_shift (lower mem d s m) (d + m) (s + m) (n - m) else Some (lower mem d s m, d + m, s + m, n - m)) =
        Some (lower mem d s m', d + m', s + m', n - m')" "m' \<le> n" "n - m' < 32" by blast
    then show ?thesis using False m(1) odd byte_tail_up [OF assms] by (simp add: mem_cpy_def)
  qed
qed

text \<open>Upwards, in words where both are aligned alike.\<close>

lemma up_head_up:
  assumes "copy_ok mem d s n" "upward d s n" "m \<le> n"
  shows "\<exists>m'. up_head (lower mem d s m) (d + m) (s + m) (n - m) = Some (lower mem d s m', d + m', s + m', n - m') \<and>
    m' \<le> n \<and> (m' = n \<or> (d + m') mod 4 = 0)"
  using assms(3)
proof (induction "n - m" arbitrary: m)
  case 0
  then show ?case by (intro exI [of _ n]) (simp add: up_head.simps)
next
  case (Suc k)
  show ?case
  proof (cases "(d + m) mod 4 = 0")
    case True
    then show ?thesis using Suc.prems by (intro exI [of _ m]) (simp add: up_head.simps)
  next
    case False
    have m: "m < n" using Suc by simp
    have "up_head (lower mem d s m) (d + m) (s + m) (n - m) = up_head (lower mem d s (m + 1)) (d + (m + 1)) (s + (m + 1)) (n - (m + 1))"
      using False m copy8_up [OF assms(1,2) m] by (subst up_head.simps) simp
    moreover have "k = n - (m + 1)" "m + 1 \<le> n" using Suc.hyps(2) m by simp_all
    ultimately show ?thesis using Suc.hyps(1) [of "m + 1"] by (auto intro: Suc_leD)
  qed
qed

lemma up_words_up:
  assumes "copy_ok mem d s n" "upward d s n" "m \<le> n" "(d + m) mod 4 = 0" "(s + m) mod 4 = 0"
  shows "\<exists>m'. up_words (lower mem d s m) (d + m) (s + m) (n - m) = Some (lower mem d s m', d + m', s + m', n - m') \<and> m' \<le> n"
  using assms(3-5)
proof (induction "n - m" arbitrary: m rule: less_induct)
  case less
  show ?case
  proof (cases "n - m \<ge> 4")
    case False
    then show ?thesis using less.prems by (intro exI [of _ m]) (simp add: up_words.simps)
  next
    case True
    then have le: "m + 4 \<le> n" using less.prems by simp
    have a: "(d + (m + 4)) mod 4 = 0" "(s + (m + 4)) mod 4 = 0" using less.prems by presburger+
    have "up_words (lower mem d s m) (d + m) (s + m) (n - m) = up_words (lower mem d s (m + 4)) (d + (m + 4)) (s + (m + 4)) (n - (m + 4))"
      using True copy32_up [OF assms(1,2) le less.prems(2,3)] by (subst up_words.simps) (simp add: add.assoc)
    with less.hyps [of "m + 4"] le a show ?thesis by auto
  qed
qed

text \<open>Downwards: the bytes from the offset \<open>m\<close> on have been copied.\<close>

abbreviation upper :: "memory \<Rightarrow> nat \<Rightarrow> nat \<Rightarrow> nat \<Rightarrow> nat \<Rightarrow> memory" where
  "upper mem d s n m \<equiv> moved mem d s {m..<n}"

lemma downward_fresh: "s \<le> d \<Longrightarrow> B \<subseteq> {..<m} \<Longrightarrow> fresh d s {m..<n} B"
  by (auto simp: fresh_def subset_iff)

lemma copy8_down:
  assumes "copy_ok mem d s n" "s \<le> d" "m < n"
  shows "copy8 (upper mem d s n (Suc m)) (d + m) (s + m) = Some (upper mem d s n m)"
proof -
  have "{Suc m..<n} \<union> {m..<m + 1} = {m..<n}" "{Suc m..<n} \<subseteq> {..<n}" "{m} \<subseteq> {..<Suc m}" using assms(3) by auto
  then show ?thesis using copy8_moved [OF assms(1) _ assms(3) downward_fresh [OF assms(2)], of "Suc m" n] by simp
qed

lemma copy32_down:
  assumes "copy_ok mem d s n" "s \<le> d" "m + 4 \<le> n" "(d + m) mod 4 = 0" "(s + m) mod 4 = 0"
  shows "copy32 (upper mem d s n (m + 4)) (d + m) (s + m) = Some (upper mem d s n m)"
proof -
  have "{m + 4..<n} \<union> {m..<m + 4} = {m..<n}" "{m + 4..<n} \<subseteq> {..<n}" "{m..<m + 4} \<subseteq> {..<m + 4}" using assms(3) by auto
  then show ?thesis using copy32_moved [OF assms(1) _ assms(3) downward_fresh [OF assms(2)] assms(4,5), of "m + 4" n] by simp
qed

lemma down_bytes_down:
  "copy_ok mem d s n \<Longrightarrow> s \<le> d \<Longrightarrow> m \<le> n \<Longrightarrow> down_bytes (upper mem d s n m) d s m = Some (upper mem d s n 0)"
  by (induction m) (simp_all add: copy8_down)

lemma down_head_down:
  assumes "copy_ok mem d s n" "s \<le> d" "m \<le> n"
  shows "\<exists>m'. down_head (upper mem d s n m) d s m = Some (upper mem d s n m', m') \<and> m' \<le> n \<and> (m' = 0 \<or> (d + m') mod 4 = 0)"
  using assms(3)
proof (induction m)
  case (Suc m)
  then show ?case using copy8_down [OF assms(1,2), of m] by (cases "(d + Suc m) mod 4 = 0") auto
qed auto

lemma down_words_down:
  assumes "copy_ok mem d s n" "s \<le> d" "m \<le> n" "m = 0 \<or> (d + m) mod 4 = 0 \<and> (s + m) mod 4 = 0"
  shows "\<exists>m'. down_words (upper mem d s n m) d s m = Some (upper mem d s n m', m') \<and> m' \<le> n"
  using assms(3,4)
proof (induction m rule: less_induct)
  case (less m)
  show ?case
  proof (cases "m \<ge> 4")
    case False
    then show ?thesis using less.prems by (intro exI [of _ m]) (simp add: down_words.simps)
  next
    case True
    have a: "(d + (m - 4)) mod 4 = 0" "(s + (m - 4)) mod 4 = 0" using less.prems(2) True by presburger+
    have "down_words (upper mem d s n m) d s m = down_words (upper mem d s n (m - 4)) d s (m - 4)"
      using True copy32_down [OF assms(1,2) _ a] less.prems by (subst down_words.simps) simp
    with less.IH [of "m - 4"] True less.prems a show ?thesis by auto
  qed
qed

lemma overlap_test:
  assumes "s + n \<le> size_mod" "d + n \<le> size_mod" "n \<le> 2147483648" "szsub (szsub s d) n \<le> szsub 0 (szmul 2 n)"
  shows "upward d s n"
proof (rule ccontr)
  assume "\<not> upward d s n"
  then have o: "s < d" "d < s + n" by (auto simp: upward_def)
  have a: "szsub s d = size_mod - (d - s)" using o assms by (simp add: szsub_def)
  have b: "szsub (szsub s d) n = size_mod - (d - s) - n"
  proof -
    have "szsub (size_mod - (d - s)) n = (size_mod + (size_mod - (d - s) - n)) mod size_mod" using o assms by (simp add: szsub_def)
    also have "\<dots> = size_mod - (d - s) - n" using o by simp
    finally show ?thesis by (simp only: a)
  qed
  show False
  proof (cases "n = 2147483648")
    case True
    then show ?thesis using assms(4) o b by (simp add: szmul_def szsub_def)
  next
    case False
    then have "szsub 0 (szmul 2 n) = size_mod - 2 * n" using assms(3) o by (simp add: szmul_def szsub_def)
    then show ?thesis using assms(3,4) o b by simp
  qed
qed

lemma memmove_moved:
  assumes "copy_ok mem d s n" "s + n \<le> size_mod" "d + n \<le> size_mod" "n \<le> 2147483648"
  shows "memmove bulk mem d s n = Some (lower mem d s n)"
proof -
  have up: "(\<exists>m. (if s mod 4 = d mod 4 then do { (mem, d, s, n) \<leftarrow> up_head mem d s n; up_words mem d s n } else Some (mem, d, s, n)) =
      Some (lower mem d s m, d + m, s + m, n - m) \<and> m \<le> n)" if u: "upward d s n"
  proof (cases "s mod 4 = d mod 4")
    case False
    then show ?thesis by (intro exI [of _ 0]) simp
  next
    case True
    obtain m where m: "up_head mem d s n = Some (lower mem d s m, d + m, s + m, n - m)" "m \<le> n" "m = n \<or> (d + m) mod 4 = 0"
      using up_head_up [OF assms(1) u, of 0] by auto
    show ?thesis
    proof (cases "m = n")
      case True
      then show ?thesis using m by (auto intro!: exI [of _ n] simp: up_words.simps)
    next
      case False
      then have d: "(d + m) mod 4 = 0" using m(3) by simp
      moreover have "(s + m) mod 4 = (d + m) mod 4" using True by (rule mod_add_cong) simp
      ultimately show ?thesis using up_words_up [OF assms(1) u m(2)] m(1) True by auto
    qed
  qed
  have down: "(\<exists>m. (if s mod 4 = d mod 4 then do { (mem, n) \<leftarrow> down_head mem d s n; down_words mem d s n } else Some (mem, n)) =
      Some (upper mem d s n m, m) \<and> m \<le> n)" if u: "s \<le> d"
  proof (cases "s mod 4 = d mod 4")
    case False
    then show ?thesis by (intro exI [of _ n]) simp
  next
    case True
    obtain m where m: "down_head mem d s n = Some (upper mem d s n m, m)" "m \<le> n" "m = 0 \<or> (d + m) mod 4 = 0"
      using down_head_down [OF assms(1) u, of n] by auto
    moreover have "(s + m) mod 4 = (d + m) mod 4" using True by (rule mod_add_cong) simp
    ultimately show ?thesis using down_words_down [OF assms(1) u m(2)] True by auto
  qed
  have all: "upper mem d s n 0 = lower mem d s n" by (simp add: lessThan_atLeast0)
  have id: "mem = lower mem d s n" if "d = s" using that by (auto simp: moved_def fun_eq_iff)
  consider "bulk_exceeded bulk n" | "\<not> bulk_exceeded bulk n" "d = s" |
    "\<not> bulk_exceeded bulk n" "d \<noteq> s" "szsub (szsub s d) n \<le> szsub 0 (szmul 2 n)" |
    "\<not> bulk_exceeded bulk n" "\<not> szsub (szsub s d) n \<le> szsub 0 (szmul 2 n)" "d < s" |
    "\<not> bulk_exceeded bulk n" "\<not> szsub (szsub s d) n \<le> szsub 0 (szmul 2 n)" "s < d" by linarith
  then show ?thesis
  proof cases
    case 1
    then show ?thesis using assms(1) by (simp add: memmove_def memory_copy_def copy_ok_def flip: lower_range)
  next
    case 2
    then show ?thesis using id by (simp add: memmove_def)
  next
    case 3
    then show ?thesis using mem_cpy_up [OF assms(1) overlap_test [OF assms(2-4)]] by (simp add: memmove_def)
  next
    case 4
    then have u: "upward d s n" by (simp add: upward_def)
    from up [OF u] obtain m where "(if s mod 4 = d mod 4 then do { (mem, d, s, n) \<leftarrow> up_head mem d s n; up_words mem d s n } else Some (mem, d, s, n)) =
      Some (lower mem d s m, d + m, s + m, n - m)" "m \<le> n" by blast
    then show ?thesis using 4 copy_bytes_up [OF assms(1) u, of m "n - m"] by (simp add: memmove_def)
  next
    case 5
    then have u: "s \<le> d" by simp
    from down [OF u] obtain m where "(if s mod 4 = d mod 4 then do { (mem, n) \<leftarrow> down_head mem d s n; down_words mem d s n } else Some (mem, n)) =
      Some (upper mem d s n m, m)" "m \<le> n" by blast
    then show ?thesis using 5 down_bytes_down [OF assms(1) u] all by (simp add: memmove_def)
  qed
qed

text \<open>C32.  memset fills exactly its range with the low byte of the value, whatever the alignment and the size: the stores at both ends,
  of words and of pairs of words cover it without a gap, none is outside of it, and every word is aligned.\<close>

theorem memset_spec:
  assumes "mapped mem s n" "n < size_mod"
  shows "memset bulk mem s c n = Some (\<lambda>a. if s \<le> a \<and> a < s + n then Some (c mod 256) else mem a)"
  using memset_filled [OF assms] by (simp add: filled_def)

theorem memset_spec_witness:
  "memset None (\<lambda>a. if a < 100 then Some 0 else None) 5 0x141 77 =
    Some (\<lambda>a. if 5 \<le> a \<and> a < 5 + 77 then Some (0x141 mod 256) else if a < 100 then Some 0 else None)"
  by (rule memset_spec) (auto simp: dom_def)

text \<open>C33.  memcpy copies exactly the bytes asked for between ranges that do not overlap, whatever their alignment: the shifted words
  of a destination that is not aligned are put together right, and nothing is read or written outside of the ranges.\<close>

theorem memcpy_spec:
  assumes "bytes_ok mem" "mapped mem s n" "mapped mem d n" "d + n \<le> s \<or> s + n \<le> d"
  shows "mem_cpy bulk mem d s n = Some (\<lambda>a. if d \<le> a \<and> a < d + n then mem (s + (a - d)) else mem a)"
  using mem_cpy_up [of mem d s n bulk] assms by (auto simp: copy_ok_def upward_def simp flip: lower_range)

theorem memcpy_spec_witness:
  "mem_cpy None (\<lambda>a. if a < 200 then Some a else None) 101 3 77 =
    Some (\<lambda>a. if 101 \<le> a \<and> a < 101 + 77 then (if 3 + (a - 101) < 200 then Some (3 + (a - 101)) else None)
      else if a < 200 then Some a else None)"
  by (rule memcpy_spec) (auto simp: dom_def bytes_ok_def split: if_splits)

text \<open>C34.  memmove leaves in the destination the bytes that were in the source before, also where the two overlap in either
  direction, and reads and writes nothing outside of the ranges; objects are at most half of the address space, as C has it.\<close>

theorem memmove_spec:
  assumes "bytes_ok mem" "mapped mem s n" "mapped mem d n" "s + n \<le> size_mod" "d + n \<le> size_mod" "n \<le> 2 ^ 31"
  shows "memmove bulk mem d s n = Some (\<lambda>a. if d \<le> a \<and> a < d + n then mem (s + (a - d)) else mem a)"
  using memmove_moved [of mem d s n bulk] assms by (simp add: copy_ok_def flip: lower_range)

theorem memmove_spec_witness:
  "memmove None (\<lambda>a. if a < 200 then Some a else None) 10 6 77 =
    Some (\<lambda>a. if 10 \<le> a \<and> a < 10 + 77 then (if 6 + (a - 10) < 200 then Some (6 + (a - 10)) else None)
      else if a < 200 then Some a else None)"
  by (rule memmove_spec) (auto simp: dom_def bytes_ok_def split: if_splits)

text \<open>With more than half of the address space the test for an overlap fails: it takes these ranges for disjoint.\<close>

lemma memmove_test_wraps: "szsub (szsub 0 1) 2147483650 \<le> szsub 0 (szmul 2 2147483650)"
  by (simp add: szsub_def szmul_def)

end
