(* ===== verification/Strings_Theorems.thy ===== *)
theory Strings_Theorems
  imports Strings Mem_Copy_Properties
begin

text \<open>
  The word tests find exactly the zero bytes, and the searches the first byte they look for.
\<close>

section \<open>The test for a zero byte\<close>

lemma bit_digit:
  fixes l h b :: nat
  assumes "l < 2 ^ k" "b < 256"
  shows "bit (l + 2 ^ k * (b + 256 * h)) (k + 7) \<longleftrightarrow> 128 \<le> b"
proof -
  have "(l + 2 ^ k * (b + 256 * h)) div 2 ^ (k + 7) = (b + 256 * h) div 128"
    using assms(1) by (simp add: power_add div_mult2_eq)
  also have "\<dots> = 2 * h + b div 128" by (simp add: div_add1_eq)
  finally have "(l + 2 ^ k * (b + 256 * h)) div 2 ^ (k + 7) = 2 * h + b div 128" .
  moreover have "b div 128 = (if 128 \<le> b then 1 else 0)" using assms(2) by (auto intro: div_nat_eqI)
  ultimately show ?thesis by (simp add: bit_iff_odd)
qed

lemma bit_top: "l < 2 ^ k \<Longrightarrow> bit (l + 2 ^ k * (255 + 256 * h)) (k + 7)" for l h :: nat
  using bit_digit [of l k 255 h] by simp

lemma highs_bits: "bit HIGHS i \<longleftrightarrow> i = 7 \<or> i = 15 \<or> i = 23 \<or> i = 31"
proof -
  have "HIGHS = push_bit 7 1 OR push_bit 15 1 OR push_bit 23 1 OR (push_bit 31 1 :: nat)" by simp
  then have "bit HIGHS i \<longleftrightarrow> bit (push_bit 7 1 OR push_bit 15 1 OR push_bit 23 1 OR (push_bit 31 1 :: nat)) i" by (rule arg_cong)
  then show ?thesis by (simp only: bit_or_iff bit_push_bit_iff bit_1_iff) auto
qed

lemma haszero_bits:
  assumes "x < 4294967296"
  shows "haszero x \<longleftrightarrow> (\<exists>i \<in> {7, 15, 23, 31}. bit (szsub x ONES) i \<and> \<not> bit x i)"
proof -
  have ones: "bit (0xffffffff :: nat) i \<longleftrightarrow> i < 32" for i
  proof -
    have "bit (mask 32 :: nat) i \<longleftrightarrow> i < 32" by (simp only: bit_mask_iff possible_bit_nat simp_thms)
    moreover have "mask 32 = (0xffffffff :: nat)" by (simp add: mask_eq_exp_minus_1)
    ultimately show ?thesis by simp
  qed
  have "haszero x \<longleftrightarrow> (\<exists>i. bit (szsub x ONES AND (x XOR 0xffffffff) AND HIGHS) i)"
    unfolding haszero_def by (metis bit_eq_iff bit_0_eq bot_apply bot_bool_def)
  also have "\<dots> \<longleftrightarrow> (\<exists>i. bit (szsub x ONES) i \<and> (bit x i \<noteq> (i < 32)) \<and> (i = 7 \<or> i = 15 \<or> i = 23 \<or> i = 31))"
    by (simp only: bit_and_iff bit_xor_iff ones highs_bits)
  finally show ?thesis by auto
qed

lemma szsub_ones: "i < 32 \<Longrightarrow> bit (szsub x ONES) i \<longleftrightarrow> bit (x + 4278124287) i"
proof -
  assume "i < 32"
  moreover have "szsub x ONES = take_bit 32 (x + 4278124287)" by (simp add: szsub_def take_bit_eq_mod)
  ultimately show ?thesis by (simp only: bit_take_bit_iff simp_thms)
qed

lemma haszero_word:
  fixes b0 b1 b2 b3 :: nat
  assumes b: "b0 < 256" "b1 < 256" "b2 < 256" "b3 < 256"
  defines "x \<equiv> b0 + 256 * b1 + 65536 * b2 + 16777216 * b3"
  shows "haszero x \<longleftrightarrow> b0 = 0 \<or> b1 = 0 \<or> b2 = 0 \<or> b3 = 0"
proof -
  have digits: "bit (a0 + 256 * a1 + 65536 * a2 + 16777216 * a3) 7 \<longleftrightarrow> 128 \<le> a0"
    "bit (a0 + 256 * a1 + 65536 * a2 + 16777216 * a3) 15 \<longleftrightarrow> 128 \<le> a1"
    "bit (a0 + 256 * a1 + 65536 * a2 + 16777216 * a3) 23 \<longleftrightarrow> 128 \<le> a2"
    "bit (a0 + 256 * a1 + 65536 * a2 + 16777216 * a3) 31 \<longleftrightarrow> 128 \<le> a3"
    if a: "a0 < 256" "a1 < 256" "a2 < 256" "a3 < 256" for a0 a1 a2 a3 :: nat
  proof -
    have lt: "(0 :: nat) < 2 ^ 0" "a0 < 2 ^ 8" "a0 + 256 * a1 < 2 ^ 16" "a0 + 256 * a1 + 65536 * a2 < 2 ^ 24" using a by simp_all
    show "bit (a0 + 256 * a1 + 65536 * a2 + 16777216 * a3) 7 \<longleftrightarrow> 128 \<le> a0"
      using bit_digit [OF lt(1) a(1), of "a1 + 256 * a2 + 65536 * a3"] by (simp add: algebra_simps)
    show "bit (a0 + 256 * a1 + 65536 * a2 + 16777216 * a3) 15 \<longleftrightarrow> 128 \<le> a1"
      using bit_digit [OF lt(2) a(2), of "a2 + 256 * a3"] by (simp add: algebra_simps)
    show "bit (a0 + 256 * a1 + 65536 * a2 + 16777216 * a3) 23 \<longleftrightarrow> 128 \<le> a2"
      using bit_digit [OF lt(3) a(3), of a3] by (simp add: algebra_simps)
    show "bit (a0 + 256 * a1 + 65536 * a2 + 16777216 * a3) 31 \<longleftrightarrow> 128 \<le> a3"
      using bit_digit [OF lt(4) a(4), of 0] by (simp add: algebra_simps)
  qed
  have x: "x < 4294967296" using word_bytes(5) [OF b] by (simp add: x_def)
  let ?z = "x + 4278124287"
  have hz: "haszero x \<longleftrightarrow> (bit ?z 7 \<and> b0 < 128) \<or> (bit ?z 15 \<and> b1 < 128) \<or> (bit ?z 23 \<and> b2 < 128) \<or> (bit ?z 31 \<and> b3 < 128)"
  proof -
    have "haszero x \<longleftrightarrow> (bit (szsub x ONES) 7 \<and> \<not> bit x 7) \<or> (bit (szsub x ONES) 15 \<and> \<not> bit x 15) \<or>
        (bit (szsub x ONES) 23 \<and> \<not> bit x 23) \<or> (bit (szsub x ONES) 31 \<and> \<not> bit x 31)"
      unfolding haszero_bits [OF x] by blast
    moreover have "(7 :: nat) < 32" "(15 :: nat) < 32" "(23 :: nat) < 32" "(31 :: nat) < 32" by simp_all
    ultimately show ?thesis by (simp only: szsub_ones digits [OF b, folded x_def] not_le)
  qed
  consider "b0 = 0" | "0 < b0" "b1 = 0" | "0 < b0" "0 < b1" "b2 = 0" | "0 < b0" "0 < b1" "0 < b2" "b3 = 0" |
    "0 < b0" "0 < b1" "0 < b2" "0 < b3" by blast
  then show ?thesis
  proof cases
    case 1
    then have z: "?z = 0 + 2 ^ 0 * (255 + 256 * (b1 + 256 * b2 + 65536 * b3 + 16711422))" by (simp add: x_def)
    have "bit ?z (0 + 7)" unfolding z by (rule bit_top) simp
    then show ?thesis unfolding hz using 1 by simp
  next
    case 2
    then have z: "?z = (b0 - 1) + 2 ^ 8 * (255 + 256 * (b2 + 256 * b3 + 65278))" by (simp add: x_def)
    have "bit ?z (8 + 7)" unfolding z by (rule bit_top) (use b in simp)
    then show ?thesis unfolding hz using 2 by simp
  next
    case 3
    then have z: "?z = (b0 - 1 + 256 * (b1 - 1)) + 2 ^ 16 * (255 + 256 * (b3 + 254))" by (simp add: x_def)
    have "bit ?z (16 + 7)" unfolding z by (rule bit_top) (use b in simp)
    then show ?thesis unfolding hz using 3 by simp
  next
    case 4
    then have z: "?z = (b0 - 1 + 256 * (b1 - 1) + 65536 * (b2 - 1)) + 2 ^ 24 * (255 + 256 * 0)" by (simp add: x_def)
    have "bit ?z (24 + 7)" unfolding z by (rule bit_top) (use b in simp)
    then show ?thesis unfolding hz using 4 by simp
  next
    case 5
    have lt: "b0 - 1 < 256" "b1 - 1 < 256" "b2 - 1 < 256" "b3 - 1 < 256" using b by simp_all
    define y where "y = (b0 - 1) + 256 * (b1 - 1) + 65536 * (b2 - 1) + 16777216 * (b3 - 1)"
    have "?z = y + 4294967296" using 5 by (simp add: x_def y_def)
    then have "take_bit 32 ?z = take_bit 32 y" by (simp add: take_bit_eq_mod)
    then have zy: "bit ?z i \<longleftrightarrow> bit y i" if "i < 32" for i using that by (metis bit_take_bit_iff)
    show ?thesis unfolding hz using 5 zy [of 7] zy [of 15] zy [of 23] zy [of 31] digits [OF lt, folded y_def] by auto
  qed
qed

text \<open>Exclusive or works byte by byte, so a word has a zero byte after it with four times \<open>c\<close> when one byte is \<open>c\<close>.\<close>

lemma bit_parts: "l < 2 ^ k \<Longrightarrow> bit (l + 2 ^ k * h) i \<longleftrightarrow> (if i < k then bit l i else bit h (i - k))" for l h :: nat
proof -
  assume l: "l < 2 ^ k"
  have "bit l i \<Longrightarrow> i < k"
  proof (rule ccontr)
    assume "bit l i" "\<not> i < k"
    have "l < 2 ^ i" by (rule less_le_trans [OF l]) (use \<open>\<not> i < k\<close> in simp)
    then show False using \<open>bit l i\<close> by (simp add: bit_iff_odd)
  qed
  moreover have "l + 2 ^ k * h = push_bit k h OR l" using or_low [OF l, of h] by (simp add: push_bit_eq_mult add.commute mult.commute)
  ultimately show ?thesis by (auto simp: bit_or_iff bit_push_bit_iff)
qed

lemma xor_less: "a < 2 ^ k \<Longrightarrow> b < 2 ^ k \<Longrightarrow> a XOR b < 2 ^ k" for a b :: nat
proof -
  assume "a < 2 ^ k" "b < 2 ^ k"
  then have "take_bit k a = a" "take_bit k b = b" by (simp_all add: take_bit_nat_eq_self)
  then have "take_bit k (a XOR b) = a XOR b" by (simp add: take_bit_xor)
  then show ?thesis by (metis take_bit_nat_less_exp)
qed

lemma xor_parts:
  "l < 2 ^ k \<Longrightarrow> l' < 2 ^ k \<Longrightarrow> (l + 2 ^ k * h) XOR (l' + 2 ^ k * h') = (l XOR l') + 2 ^ k * (h XOR h')" for l h :: nat
  using xor_less [of l k l'] by (intro bit_eqI) (simp add: bit_xor_iff bit_parts)

lemma xor_zero: "a XOR b = 0 \<longleftrightarrow> a = b" for a b :: nat
  by (metis xor.assoc xor.left_neutral xor.right_neutral xor_self_eq)

lemma xor_word:
  fixes b0 b1 b2 b3 c :: nat
  assumes b: "b0 < 256" "b1 < 256" "b2 < 256" "b3 < 256" and c: "c < 256"
  shows "haszero ((b0 + 256 * b1 + 65536 * b2 + 16777216 * b3) XOR szmul ONES c) \<longleftrightarrow> b0 = c \<or> b1 = c \<or> b2 = c \<or> b3 = c"
proof -
  have lt: "x < 2 ^ 8" if "x < 256" for x :: nat using that by simp
  have "szmul ONES c = c + 2 ^ 8 * (c + 2 ^ 8 * (c + 2 ^ 8 * c))" using c by (simp add: szmul_def)
  moreover have "b0 + 256 * b1 + 65536 * b2 + 16777216 * b3 = b0 + 2 ^ 8 * (b1 + 2 ^ 8 * (b2 + 2 ^ 8 * b3))" by simp
  ultimately have "(b0 + 256 * b1 + 65536 * b2 + 16777216 * b3) XOR szmul ONES c =
      (b0 XOR c) + 2 ^ 8 * ((b1 XOR c) + 2 ^ 8 * ((b2 XOR c) + 2 ^ 8 * (b3 XOR c)))"
    by (simp only: xor_parts [OF lt [OF b(1)] lt [OF c]] xor_parts [OF lt [OF b(2)] lt [OF c]] xor_parts [OF lt [OF b(3)] lt [OF c]])
  also have "\<dots> = (b0 XOR c) + 256 * (b1 XOR c) + 65536 * (b2 XOR c) + 16777216 * (b3 XOR c)" by simp
  finally have "(b0 + 256 * b1 + 65536 * b2 + 16777216 * b3) XOR szmul ONES c = \<dots>" .
  moreover have "x XOR c < 256" if "x < 256" for x using xor_less [of x 8 c] that c by simp
  ultimately show ?thesis using haszero_word [of "b0 XOR c" "b1 XOR c" "b2 XOR c" "b3 XOR c"] b by (simp only: xor_zero)
qed

section \<open>Searching\<close>

text \<open>The first address from \<open>s\<close> on whose byte satisfies \<open>P\<close>; and memory made of whole words, as pages are.\<close>

definition first_at :: "memory \<Rightarrow> (nat \<Rightarrow> bool) \<Rightarrow> nat \<Rightarrow> nat \<Rightarrow> bool" where
  "first_at mem P s e \<longleftrightarrow> s \<le> e \<and> (\<forall>a. s \<le> a \<and> a < e \<longrightarrow> (\<exists>b. mem a = Some b \<and> \<not> P b)) \<and> (\<exists>b. mem e = Some b \<and> P b)"

definition whole_words :: "memory \<Rightarrow> bool" where
  "whole_words mem \<longleftrightarrow> (\<forall>a \<in> dom mem. mapped mem (a div 4 * 4) 4)"

lemma first_here: "mem s = Some b \<Longrightarrow> P b \<Longrightarrow> first_at mem P s e \<longleftrightarrow> e = s"
  by (auto simp: first_at_def le_less)

lemma first_next: "mem s = Some b \<Longrightarrow> \<not> P b \<Longrightarrow> first_at mem P s e \<longleftrightarrow> first_at mem P (s + 1) e"
  unfolding first_at_def by (metis Suc_eq_plus1 Suc_le_eq le_eq_less_or_eq option.inject)

lemma first_byte: "first_at mem P s e \<Longrightarrow> \<exists>b. mem s = Some b"
  by (cases "s = e") (auto simp: first_at_def)

lemma word_loaded:
  assumes "bytes_ok mem" "mapped mem s 4" "s mod 4 = 0"
  obtains b0 b1 b2 b3 where "mem s = Some b0" "mem (s + 1) = Some b1" "mem (s + 2) = Some b2" "mem (s + 3) = Some b3"
    "b0 < 256" "b1 < 256" "b2 < 256" "b3 < 256" "load32 mem s = Some (b0 + 256 * b1 + 65536 * b2 + 16777216 * b3)"
proof -
  have "\<exists>b. mem (s + j) = Some b \<and> b < 256" if "j < 4" for j
    using mappedD [OF assms(2), of "s + j"] that assms(1) by (auto simp: bytes_ok_def)
  from this [of 0] this [of 1] this [of 2] this [of 3] show thesis using that load32_bytes [OF assms(3)] by auto
qed

lemma first_skip:
  assumes "mem s = Some b0" "mem (s + 1) = Some b1" "mem (s + 2) = Some b2" "mem (s + 3) = Some b3"
    and "\<not> P b0" "\<not> P b1" "\<not> P b2" "\<not> P b3"
  shows "first_at mem P s e \<longleftrightarrow> first_at mem P (s + 4) e"
proof -
  have "s + 1 + 1 = s + 2" "s + 2 + 1 = s + 3" "s + 3 + 1 = s + 4" by simp_all
  then show ?thesis using first_next [of mem s b0 P e] first_next [of mem "s + 1" b1 P e] first_next [of mem "s + 2" b2 P e]
      first_next [of mem "s + 3" b3 P e] assms by metis
qed

lemma first_mapped: "whole_words mem \<Longrightarrow> first_at mem P s e \<Longrightarrow> s mod 4 = 0 \<Longrightarrow> mapped mem s 4"
proof -
  assume a: "whole_words mem" "first_at mem P s e" "s mod 4 = 0"
  then have "s \<in> dom mem" using first_byte by blast
  moreover have "s div 4 * 4 = s" using a(3) by presburger
  ultimately show ?thesis using a(1) unfolding whole_words_def by metis
qed

lemma search_head_first:
  assumes "first_at mem (\<lambda>b. b = 0 \<or> b = c) s e"
  shows "search_head mem c s = Some (Inl e) \<or>
    (\<exists>s'. search_head mem c s = Some (Inr s') \<and> first_at mem (\<lambda>b. b = 0 \<or> b = c) s' e \<and> s' mod 4 = 0)"
  using assms
proof (induction mem c s rule: search_head.induct)
  case (1 mem c s)
  obtain b where b: "mem s = Some b" using first_byte [OF 1(2)] by blast
  show ?case
  proof (cases "s mod 4 = 0")
    case True
    then show ?thesis using 1(2) by (simp add: search_head.simps [of mem c s])
  next
    case False
    then show ?thesis
      using 1 b first_here [of mem s b "\<lambda>b. b = 0 \<or> b = c" e] first_next [of mem s b "\<lambda>b. b = 0 \<or> b = c" e]
      by (cases "b = 0 \<or> b = c") (auto simp: search_head.simps [of mem c s])
  qed
qed

lemma search_tail_first: "first_at mem (\<lambda>b. b = 0 \<or> b = c) s e \<Longrightarrow> search_tail mem c s = Some e"
proof (induction "e - s" arbitrary: s)
  case 0
  then have "s = e" by (simp add: first_at_def)
  then show ?case using 0 by (subst search_tail.simps) (auto simp: first_at_def)
next
  case (Suc n)
  obtain b where b: "mem s = Some b" using first_byte [OF Suc.prems] by blast
  have "s < e" using Suc.hyps(2) by simp
  then have "\<not> (b = 0 \<or> b = c)" using Suc.prems b by (auto simp: first_at_def)
  moreover from this have "first_at mem (\<lambda>b. b = 0 \<or> b = c) (s + 1) e" using Suc.prems first_next [of mem s b "\<lambda>b. b = 0 \<or> b = c" e] b by simp
  moreover have "n = e - (s + 1)" using Suc.hyps(2) by simp
  ultimately show ?case using Suc.hyps(1) [of "s + 1"] b by (subst search_tail.simps) simp
qed

text \<open>The loops on words stop in the word with the byte.\<close>

lemma strlen_words_first:
  assumes "bytes_ok mem" "whole_words mem" "first_at mem (\<lambda>b. b = 0) s e" "s mod 4 = 0"
  shows "\<exists>s'. strlen_words mem s = Some s' \<and> first_at mem (\<lambda>b. b = 0) s' e"
  using assms(3,4)
proof (induction "e - s" arbitrary: s rule: less_induct)
  case less
  obtain b0 b1 b2 b3 where b: "mem s = Some b0" "mem (s + 1) = Some b1" "mem (s + 2) = Some b2" "mem (s + 3) = Some b3"
    "b0 < 256" "b1 < 256" "b2 < 256" "b3 < 256" "load32 mem s = Some (b0 + 256 * b1 + 65536 * b2 + 16777216 * b3)"
    using word_loaded [OF assms(1) first_mapped [OF assms(2) less.prems] less.prems(2)] by metis
  note hz = haszero_word [OF b(5-8)]
  show ?case
  proof (cases "b0 = 0 \<or> b1 = 0 \<or> b2 = 0 \<or> b3 = 0")
    case True
    then show ?thesis using less.prems hz b(9) by (intro exI [of _ s]) (subst strlen_words.simps, simp)
  next
    case False
    then have f: "first_at mem (\<lambda>b. b = 0) (s + 4) e"
      using less.prems(1) first_skip [OF b(1-4), of "\<lambda>b. b = 0" e] by simp
    have lt: "e - (s + 4) < e - s" "(s + 4) mod 4 = 0" using f less.prems(2) by (auto simp: first_at_def)
    from less.hyps [OF lt(1) f lt(2)] obtain s' where "strlen_words mem (s + 4) = Some s'" "first_at mem (\<lambda>b. b = 0) s' e" by blast
    then show ?thesis using False hz b(9) by (subst strlen_words.simps) simp
  qed
qed

lemma strchrnul_words_first:
  assumes "bytes_ok mem" "whole_words mem" "c < 256" "first_at mem (\<lambda>b. b = 0 \<or> b = c) s e" "s mod 4 = 0"
  shows "\<exists>s'. strchrnul_words mem (szmul ONES c) s = Some s' \<and> first_at mem (\<lambda>b. b = 0 \<or> b = c) s' e"
  using assms(4,5)
proof (induction "e - s" arbitrary: s rule: less_induct)
  case less
  obtain b0 b1 b2 b3 where b: "mem s = Some b0" "mem (s + 1) = Some b1" "mem (s + 2) = Some b2" "mem (s + 3) = Some b3"
    "b0 < 256" "b1 < 256" "b2 < 256" "b3 < 256" "load32 mem s = Some (b0 + 256 * b1 + 65536 * b2 + 16777216 * b3)"
    using word_loaded [OF assms(1) first_mapped [OF assms(2) less.prems] less.prems(2)] by metis
  note hz = haszero_word [OF b(5-8)] xor_word [OF b(5-8) assms(3)]
  show ?case
  proof (cases "(b0 = 0 \<or> b1 = 0 \<or> b2 = 0 \<or> b3 = 0) \<or> b0 = c \<or> b1 = c \<or> b2 = c \<or> b3 = c")
    case True
    then show ?thesis using less.prems hz b(9) by (intro exI [of _ s]) (subst strchrnul_words.simps, simp)
  next
    case False
    then have f: "first_at mem (\<lambda>b. b = 0 \<or> b = c) (s + 4) e"
      using less.prems(1) first_skip [OF b(1-4), of "\<lambda>b. b = 0 \<or> b = c" e] by simp
    have lt: "e - (s + 4) < e - s" "(s + 4) mod 4 = 0" using f less.prems(2) by (auto simp: first_at_def)
    from less.hyps [OF lt(1) f lt(2)] obtain s' where
      "strchrnul_words mem (szmul ONES c) (s + 4) = Some s'" "first_at mem (\<lambda>b. b = 0 \<or> b = c) s' e" by blast
    then show ?thesis using False hz b(9) by (subst strchrnul_words.simps) simp
  qed
qed

text \<open>A string in memory.\<close>

definition str_at :: "memory \<Rightarrow> nat \<Rightarrow> nat list \<Rightarrow> bool" where
  "str_at mem s bs \<longleftrightarrow> (\<forall>i < length bs. mem (s + i) = Some (bs ! i)) \<and> mem (s + length bs) = Some 0 \<and> 0 \<notin> set bs"

lemma str_first:
  "str_at mem s bs \<Longrightarrow> P 0 \<Longrightarrow> first_at mem P s (s + length (takeWhile (\<lambda>b. \<not> P b) bs))"
proof -
  assume a: "str_at mem s bs" "P 0"
  let ?k = "length (takeWhile (\<lambda>b. \<not> P b) bs)"
  have k: "?k \<le> length bs" by (rule length_takeWhile_le)
  have "\<exists>b. mem x = Some b \<and> \<not> P b" if x: "s \<le> x" "x < s + ?k" for x
  proof -
    define i where "i = x - s"
    then have i: "x = s + i" using x(1) by simp
    then have "i < ?k" using x(2) by simp
    then have "bs ! i = takeWhile (\<lambda>b. \<not> P b) bs ! i" "i < length bs" using k takeWhile_nth [of i "\<lambda>b. \<not> P b" bs] by auto
    moreover have "\<not> P (takeWhile (\<lambda>b. \<not> P b) bs ! i)" using nth_mem [OF \<open>i < ?k\<close>] set_takeWhileD by fast
    ultimately show ?thesis using a(1) i by (auto simp: str_at_def)
  qed
  moreover have "\<exists>b. mem (s + ?k) = Some b \<and> P b"
  proof (cases "?k < length bs")
    case True
    then have "mem (s + ?k) = Some (bs ! ?k)" using a(1) unfolding str_at_def by blast
    moreover have "P (bs ! ?k)" using nth_length_takeWhile [OF True] by simp
    ultimately show ?thesis by blast
  next
    case False
    then have "?k = length bs" using k by simp
    then show ?thesis using a by (auto simp: str_at_def)
  qed
  ultimately show ?thesis by (auto simp: first_at_def)
qed

lemma str_nonzero: "str_at mem s bs \<Longrightarrow> length (takeWhile (\<lambda>b. b \<noteq> 0) bs) = length bs"
proof -
  assume "str_at mem s bs"
  then have "\<forall>b \<in> set bs. b \<noteq> 0" unfolding str_at_def by metis
  then have "takeWhile (\<lambda>b. b \<noteq> 0) bs = bs" by (simp only: takeWhile_eq_all_conv)
  then show ?thesis by (simp only:)
qed

lemma strlen_at:
  assumes "bytes_ok mem" "whole_words mem" "str_at mem s bs"
  shows "strlen mem s = Some (length bs)"
proof -
  note z = str_nonzero [OF assms(3)]
  then have f: "first_at mem (\<lambda>b. b = 0) s (s + length bs)" using str_first [OF assms(3), of "\<lambda>b. b = 0"] by (simp only: z)
  then have f0: "first_at mem (\<lambda>b. b = 0 \<or> b = 0) s (s + length bs)" by simp
  from search_head_first [OF f0] show ?thesis
  proof (elim disjE exE conjE)
    fix s'
    assume h: "search_head mem 0 s = Some (Inr s')" "first_at mem (\<lambda>b. b = 0 \<or> b = 0) s' (s + length bs)" "s' mod 4 = 0"
    then have "first_at mem (\<lambda>b. b = 0) s' (s + length bs)" by simp
    from strlen_words_first [OF assms(1,2) this h(3)] obtain w where
      w: "strlen_words mem s' = Some w" "first_at mem (\<lambda>b. b = 0) w (s + length bs)" by blast
    then have "search_tail mem 0 w = Some (s + length bs)" using search_tail_first [of mem 0 w] by simp
    then show ?thesis using h(1) w(1) by (simp add: strlen_def)
  qed (simp add: strlen_def)
qed

lemma strchrnul_at:
  assumes "bytes_ok mem" "whole_words mem" "str_at mem s bs"
  shows "strchrnul mem s c = Some (s + length (takeWhile (\<lambda>b. b \<noteq> c mod 256) bs))"
proof (cases "c mod 256 = 0")
  case True
  note z = str_nonzero [OF assms(3)]
  show ?thesis using strlen_at [OF assms] by (simp only: strchrnul_def True z Let_def refl if_True Option.bind.bind_lunit)
next
  case False
  define c' where "c' = c mod 256"
  let ?e = "s + length (takeWhile (\<lambda>b. b \<noteq> c') bs)"
  have c': "c' < 256" "c' \<noteq> 0" using False by (simp_all add: c'_def)
  have "takeWhile (\<lambda>b. \<not> (b = 0 \<or> b = c')) bs = takeWhile (\<lambda>b. b \<noteq> c') bs"
    using assms(3) unfolding str_at_def by (intro takeWhile_cong refl) metis
  then have f: "first_at mem (\<lambda>b. b = 0 \<or> b = c') s ?e" using str_first [OF assms(3), of "\<lambda>b. b = 0 \<or> b = c'"] by simp
  from search_head_first [OF f] have "strchrnul mem s c' = Some ?e"
  proof (elim disjE exE conjE)
    fix s'
    assume h: "search_head mem c' s = Some (Inr s')" "first_at mem (\<lambda>b. b = 0 \<or> b = c') s' ?e" "s' mod 4 = 0"
    from strchrnul_words_first [OF assms(1,2) c'(1) h(2,3)] obtain w where
      w: "strchrnul_words mem (szmul ONES c') s' = Some w" "first_at mem (\<lambda>b. b = 0 \<or> b = c') w ?e" by blast
    then show ?thesis using h(1) search_tail_first [OF w(2)] c' by (simp add: strchrnul_def)
  qed (use c' in \<open>simp add: strchrnul_def\<close>)
  then show ?thesis by (simp add: strchrnul_def c'_def)
qed

section \<open>memchr\<close>

text \<open>A state of the search: the bytes before \<open>p\<close> are not \<open>c\<close>, and \<open>m\<close> are left.\<close>

definition searching :: "memory \<Rightarrow> nat \<Rightarrow> nat \<Rightarrow> nat \<Rightarrow> nat \<Rightarrow> nat \<Rightarrow> bool" where
  "searching mem c s n p m \<longleftrightarrow> s \<le> p \<and> p + m = s + n \<and> (\<forall>a. s \<le> a \<and> a < p \<longrightarrow> mem a \<noteq> Some c)"

lemma searching_next: "searching mem c s n p (Suc m) \<Longrightarrow> mem p \<noteq> Some c \<Longrightarrow> searching mem c s n (p + 1) m"
  by (auto simp: searching_def less_Suc_eq)

lemma searching_byte: "mapped mem s n \<Longrightarrow> searching mem c s n p (Suc m) \<Longrightarrow> \<exists>b. mem p = Some b"
  by (rule mappedD [of s n mem]) (auto simp: searching_def)

lemma memchr_head_searching:
  assumes "mapped mem s n" "searching mem c s n p m"
  shows "\<exists>p' m'. memchr_head mem c p m = Some (p', m') \<and> searching mem c s n p' m' \<and> (m' = 0 \<or> mem p' = Some c \<or> p' mod 4 = 0)"
  using assms(2)
proof (induction m arbitrary: p)
  case (Suc m)
  obtain b where b: "mem p = Some b" using searching_byte [OF assms(1) Suc.prems] by blast
  have "p AND 3 = p mod 4" using and_pow [of p 2] by simp
  then show ?case using Suc.IH [OF searching_next [OF Suc.prems]] Suc.prems b by (cases "b = c") auto
qed simp

lemma memchr_words_searching:
  assumes "bytes_ok mem" "mapped mem s n" "c < 256" "searching mem c s n p m" "p mod 4 = 0"
  shows "\<exists>p' m'. memchr_words mem (szmul ONES c) p m = Some (p', m') \<and> searching mem c s n p' m'"
  using assms(4,5)
proof (induction m arbitrary: p rule: less_induct)
  case (less m)
  show ?case
  proof (cases "m \<ge> 4")
    case False
    then show ?thesis using less.prems by (simp add: memchr_words.simps)
  next
    case True
    have "mapped mem p 4" by (rule mapped_sub [OF assms(2)]) (use less.prems(1) True in \<open>auto simp: searching_def\<close>)
    then obtain b0 b1 b2 b3 where b: "mem p = Some b0" "mem (p + 1) = Some b1" "mem (p + 2) = Some b2" "mem (p + 3) = Some b3"
      "b0 < 256" "b1 < 256" "b2 < 256" "b3 < 256" "load32 mem p = Some (b0 + 256 * b1 + 65536 * b2 + 16777216 * b3)"
      using word_loaded [OF assms(1) _ less.prems(2)] by metis
    note hz = xor_word [OF b(5-8) assms(3)]
    show ?thesis
    proof (cases "b0 = c \<or> b1 = c \<or> b2 = c \<or> b3 = c")
      case True
      then show ?thesis using less.prems hz b(9) by (subst memchr_words.simps) simp
    next
      case no: False
      obtain k where k: "m = Suc (Suc (Suc (Suc k)))" using True by (metis add_Suc le_Suc_ex numeral_eq_Suc add_0 pred_numeral_simps(2,3) BitM.simps(1,2))
      have "searching mem c s n (p + 1 + 1 + 1 + 1) k"
        by (rule searching_next [OF searching_next [OF searching_next [OF searching_next]]])
          (use less.prems(1) no b k in \<open>simp_all add: numeral_2_eq_2 numeral_3_eq_3\<close>)
      then have "searching mem c s n (p + 4) (m - 4)" using k by (simp add: add.commute numeral_eq_Suc)
      then show ?thesis using less.IH [of "m - 4" "p + 4"] less.prems(2) True no hz b(9) by (subst memchr_words.simps) simp
    qed
  qed
qed

lemma memchr_tail_searching:
  assumes "mapped mem s n" "searching mem c s n p m"
  shows "\<exists>p' m'. memchr_tail mem c p m = Some (p', m') \<and> searching mem c s n p' m' \<and> (m' = 0 \<or> mem p' = Some c)"
  using assms(2)
proof (induction m arbitrary: p)
  case (Suc m)
  obtain b where b: "mem p = Some b" using searching_byte [OF assms(1) Suc.prems] by blast
  then show ?case using Suc.IH [OF searching_next [OF Suc.prems]] Suc.prems by (cases "b = c") auto
qed simp

text \<open>C35.  memchr finds the first byte with the given value among the bytes of its range, or returns NULL when there is none; it looks at whole
  words only inside the range, so it never reads beyond it.\<close>

theorem memchr_spec:
  assumes "bytes_ok mem" "mapped mem s n"
  shows "\<exists>r. memchr mem s c n = Some r \<and> (case r of
      None \<Rightarrow> (\<forall>a. s \<le> a \<and> a < s + n \<longrightarrow> mem a \<noteq> Some (c mod 256))
    | Some p \<Rightarrow> s \<le> p \<and> p < s + n \<and> mem p = Some (c mod 256) \<and> (\<forall>a. s \<le> a \<and> a < p \<longrightarrow> mem a \<noteq> Some (c mod 256)))"
proof -
  define c' where "c' = c mod 256"
  have "searching mem c' s n s n" by (auto simp: searching_def)
  from memchr_head_searching [OF assms(2) this] obtain p m where
    h: "memchr_head mem c' s n = Some (p, m)" "searching mem c' s n p m" "m = 0 \<or> mem p = Some c' \<or> p mod 4 = 0"
    by (elim exE conjE)
  have "\<exists>p' m'. (if m = 0 then Some (p, m) else do { b \<leftarrow> mem p; if b \<noteq> c' then memchr_words mem (szmul ONES c') p m else Some (p, m) }) =
      Some (p', m') \<and> searching mem c' s n p' m'"
  proof (cases "m = 0 \<or> mem p = Some c'")
    case True
    then show ?thesis using h(2) by auto
  next
    case False
    then obtain b where "mem p = Some b" "b \<noteq> c'" using searching_byte [OF assms(2), of c' p "m - 1"] h(2) by auto
    moreover have "p mod 4 = 0" using h(3) False by simp
    ultimately show ?thesis using memchr_words_searching [OF assms _ h(2)] False by (simp add: c'_def)
  qed
  then obtain p' m' where w: "(if m = 0 then Some (p, m) else do { b \<leftarrow> mem p; if b \<noteq> c' then memchr_words mem (szmul ONES c') p m else Some (p, m) }) =
      Some (p', m')" "searching mem c' s n p' m'" by blast
  obtain q k where "memchr_tail mem c' p' m' = Some (q, k)" "searching mem c' s n q k" "k = 0 \<or> mem q = Some c'"
    using memchr_tail_searching [OF assms(2) w(2)] by blast
  then show ?thesis using h(1) w(1)
    by (intro exI [of _ "if k \<noteq> 0 then Some q else None"]) (auto simp: memchr_def Let_def searching_def simp flip: c'_def)
qed

theorem memchr_spec_witness:
  "\<exists>r. memchr (\<lambda>a. if a < 30 then Some (a + 40 :: nat) else None) 3 57 27 = Some r \<and> (case r of
      None \<Rightarrow> (\<forall>a :: nat. 3 \<le> a \<and> a < 3 + 27 \<longrightarrow> (if a < 30 then Some (a + 40 :: nat) else None) \<noteq> Some (57 mod 256))
    | Some p \<Rightarrow> 3 \<le> p \<and> p < 3 + 27 \<and> (if p < 30 then Some (p + 40 :: nat) else None) = Some (57 mod 256) \<and>
        (\<forall>a :: nat. 3 \<le> a \<and> a < p \<longrightarrow> (if a < 30 then Some (a + 40 :: nat) else None) \<noteq> Some (57 mod 256)))"
  by (rule memchr_spec) (auto simp: bytes_ok_def dom_def split: if_splits)

end
