(* ===== verification/Mutex.thy ===== *)
theory Mutex
  imports Threads
begin

text \<open>
  Mutexes (libc-top-half/musl/src/thread: pthread_mutex_lock.c, _trylock.c, _timedlock.c, _unlock.c, _consistent.c over
  __timedwait.c, and the part of pthread_create.c in which a thread that ends gives up its mutexes) as threads that run
  interleaved, one access to the shared words at a time.

  The word \<open>_m_lock\<close> is EBUSY in a mutex that does not track its owner, and otherwise has the thread ID in its lower 30 bits; bit 30 is
  set when the owner has died, and bit 31 by waiters.  The words \<open>_m_count\<close> and the links of the list of mutexes belong to the
  owner.  \<open>depth\<close> is no part of the code: it counts how often a thread has taken the mutex and not given it back.  Priority
  inheritance (bit 3 of the type) is not compiled in.
\<close>

section \<open>States\<close>

datatype mutex_kind = Normal | Recursive | Errorcheck

record mutex_type =
  m_kind :: mutex_kind
  m_robust :: bool
  m_pshared :: bool

text \<open>\<open>(m->_m_type & 15) == PTHREAD_MUTEX_NORMAL\<close>\<close>

definition untracked :: "mutex_type \<Rightarrow> bool" where
  "untracked ty \<longleftrightarrow> m_kind ty = Normal \<and> \<not> m_robust ty"

text \<open>Why a thread tries: the try call itself, the first try of a timed call, or a try in its loop.\<close>

datatype mutex_try = Only | First | Again

text \<open>
  \<open>Fast k\<close> is the exchange that a lock begins with, which is made twice.  \<open>Swap u new x\<close> has the number of waiters that the thread
  has seen and the word it will store; \<open>x\<close> says that the thread ends.
\<close>

datatype mutex_pc =
    Ret errno | Dead
  | Fast nat
  | Try mutex_try | Try_waiters mutex_try nat | Cas mutex_try nat nat
  | Spin nat | Spin_waiters nat
  | Load | Inc nat | Mark nat | Wait nat | Asleep nat | Dec errno
  | Unlock | Un_lock nat | Swap nat nat bool | Wake bool
  | Consistent | Cons_and | Leave

abbreviation EDEADLK :: errno where "EDEADLK \<equiv> 16"
abbreviation ENOTRECOVERABLE :: errno where "ENOTRECOVERABLE \<equiv> 56"
abbreviation EOWNERDEAD :: errno where "EOWNERDEAD \<equiv> 62"
abbreviation EPERM :: errno where "EPERM \<equiv> 63"
abbreviation DIED :: nat where "DIED \<equiv> 0x40000000"
abbreviation WAITERS :: nat where "WAITERS \<equiv> 0x80000000"
abbreviation LOST :: nat where "LOST \<equiv> 0x3ffffffe"

text \<open>\<open>old & 0x3fffffff\<close>, \<open>old & 0x40000000\<close>, \<open>r | 0x80000000\<close>; and a word put together from them.\<close>

definition owner :: "nat \<Rightarrow> nat" where
  "owner l = l mod DIED"

definition died :: "nat \<Rightarrow> bool" where
  "died l \<longleftrightarrow> odd (l div DIED)"

definition flagged :: "nat \<Rightarrow> nat" where
  "flagged r = r mod WAITERS + WAITERS"

definition lock_word :: "nat \<Rightarrow> bool \<Rightarrow> bool \<Rightarrow> nat" where
  "lock_word t d w = t + (if d then DIED else 0) + (if w then WAITERS else 0)"

text \<open>What a try does with the result EBUSY: the timed calls spin or look at the lock.\<close>

definition mutex_busy :: "mutex_try \<Rightarrow> mutex_pc" where
  "mutex_busy a = (case a of Only \<Rightarrow> Ret EBUSY | First \<Rightarrow> Spin 100 | Again \<Rightarrow> Load)"

section \<open>Attributes\<close>

text \<open>
  pthread_mutexattr_settype.c, _setpshared.c, _setrobust.c and _setprotocol.c on the word of the attribute, which pthread_mutex_init
  copies to \<open>_m_type\<close>; the last two do nothing here and report success.  pthread_mutex_destroy.c looks at the type.
\<close>

definition mutexattr_settype :: "nat \<Rightarrow> nat \<Rightarrow> errno + nat" where
  "mutexattr_settype a type = (if type > 2 then Inl EINVAL else Inr (a - a mod 4 + type))"

definition mutexattr_setpshared :: "nat \<Rightarrow> nat \<Rightarrow> errno + nat" where
  "mutexattr_setpshared a pshared =
     (if pshared > 1 then Inl EINVAL else Inr ((if a AND 128 = 0 then a else a - 128) OR push_bit 7 pshared))"

definition mutexattr_setrobust :: "nat \<Rightarrow> nat \<Rightarrow> errno + nat" where
  "mutexattr_setrobust a robust = Inr a"

definition mutexattr_setprotocol :: "nat \<Rightarrow> nat \<Rightarrow> errno + nat" where
  "mutexattr_setprotocol a protocol = Inr a"

definition mutex_type_of :: "nat \<Rightarrow> mutex_type" where
  "mutex_type_of a = \<lparr>m_kind = (if a AND 3 = 0 then Normal else if a AND 3 = 1 then Recursive else Errorcheck),
     m_robust = (a AND 4 \<noteq> 0), m_pshared = (a AND 128 \<noteq> 0)\<rparr>"

definition mutex_destroy :: "nat \<Rightarrow> errno" where
  "mutex_destroy type = (if type > 128 then EINVAL else 0)"

text \<open>
  A mutex that the functions can make is never robust.  One that is shared between processes and recursive is taken for one that
  is, and cannot be destroyed.
\<close>

inductive attribute :: "nat \<Rightarrow> bool" where
  init: "attribute 0"
| type: "attribute a \<Longrightarrow> mutexattr_settype a k = Inr b \<Longrightarrow> attribute b"
| pshared: "attribute a \<Longrightarrow> mutexattr_setpshared a k = Inr b \<Longrightarrow> attribute b"
| robust: "attribute a \<Longrightarrow> mutexattr_setrobust a k = Inr b \<Longrightarrow> attribute b"
| protocol: "attribute a \<Longrightarrow> mutexattr_setprotocol a k = Inr b \<Longrightarrow> attribute b"

lemma attribute_values: "attribute a \<Longrightarrow> a \<in> {0, 1, 2, 128, 129, 130}"
proof (induction rule: attribute.induct)
  case (type a k b)
  then have "k = 0 \<or> k = 1 \<or> k = 2" "b = a - a mod 4 + k" by (auto simp: mutexattr_settype_def split: if_splits)
  then show ?case using type.IH by auto
next
  case (pshared a k b)
  then have "k = 0 \<or> k = 1" "b = ((if a AND 128 = 0 then a else a - 128) OR push_bit 7 k)"
    by (auto simp: mutexattr_setpshared_def split: if_splits)
  then show ?case using pshared.IH by auto
qed (auto simp: mutexattr_setrobust_def mutexattr_setprotocol_def)

lemma attribute_not_robust: "attribute a \<Longrightarrow> \<not> m_robust (mutex_type_of a)"
  by (drule attribute_values) (auto simp: mutex_type_of_def)

lemma destroy_shared_recursive:
  "mutexattr_setpshared 0 1 = Inr 128" "mutexattr_settype 128 1 = Inr 129" "mutex_destroy 128 = 0" "mutex_destroy 129 = EINVAL"
  by (simp_all add: mutexattr_setpshared_def mutexattr_settype_def mutex_destroy_def)

section \<open>Steps of a thread\<close>

text \<open>
  A step of a thread with the ID \<open>t\<close> depends on its depth, the lock, the waiters and the count, and gives the next program
  counter and the new values.
\<close>

type_synonym mutex_move = "mutex_pc \<times> nat \<times> nat \<times> nat \<times> nat"

text \<open>pthread_mutex_lock, and the start of pthread_mutex_timedlock.\<close>

fun mutex_fast_step :: "mutex_type \<Rightarrow> mutex_pc \<Rightarrow> nat \<Rightarrow> nat \<Rightarrow> nat \<Rightarrow> nat \<Rightarrow> mutex_move list" where
  "mutex_fast_step ty (Fast k) d l w c =
     [if untracked ty \<and> l = 0 then (Ret 0, d + 1, EBUSY, w, c)
      else (if k = 0 then Try First else Fast (k - 1), d, l, w, c)]"
| "mutex_fast_step ty _ d l w c = []"

text \<open>pthread_mutex_trylock and __pthread_mutex_trylock_owner.\<close>

definition trylock_owner :: "mutex_type \<Rightarrow> nat \<Rightarrow> mutex_try \<Rightarrow> nat \<Rightarrow> nat \<Rightarrow> nat \<Rightarrow> nat \<Rightarrow> mutex_move" where
  "trylock_owner ty t a d l w c =
     (if owner l = t \<and> m_kind ty = Recursive then
        if c \<ge> 0x7fffffff then (Ret EAGAIN, d, l, w, c) else (Ret 0, d + 1, l, w, c + 1)
      else if owner l = LOST then (Ret ENOTRECOVERABLE, d, l, w, c)
      else if owner l \<noteq> 0 \<or> (l \<noteq> 0 \<and> \<not> m_robust ty) then (mutex_busy a, d, l, w, c)
      else (if m_pshared ty then Try_waiters a l else Cas a l (lock_word t (died l) False), d, l, w, c))"

fun mutex_trylock_step :: "mutex_type \<Rightarrow> nat \<Rightarrow> mutex_pc \<Rightarrow> nat \<Rightarrow> nat \<Rightarrow> nat \<Rightarrow> nat \<Rightarrow> mutex_move list" where
  "mutex_trylock_step ty t (Try a) d l w c =
     [if untracked ty then
        let r = l AND EBUSY; l = (if l = 0 then EBUSY else l) in
        if r = EBUSY then (mutex_busy a, d, l, w, c) else (Ret r, if r = 0 then d + 1 else d, l, w, c)
      else trylock_owner ty t a d l w c]"
| "mutex_trylock_step ty t (Try_waiters a old) d l w c = [(Cas a old (lock_word t (died old) (w \<noteq> 0)), d, l, w, c)]"
| "mutex_trylock_step ty t (Cas a old new) d l w c =
     [if l = old then if old \<noteq> 0 then (Ret EOWNERDEAD, d + 1, new, w, 0) else (Ret 0, d + 1, new, w, c)
      else (mutex_busy a, d, l, w, c)]"
| "mutex_trylock_step ty t _ d l w c = []"

text \<open>The spinning and the loop of pthread_mutex_timedlock, for all outcomes of the clock and the host.\<close>

fun mutex_timedlock_step :: "mutex_type \<Rightarrow> nat \<Rightarrow> mutex_pc \<Rightarrow> nat \<Rightarrow> nat \<Rightarrow> nat \<Rightarrow> nat \<Rightarrow> mutex_move list" where
  "mutex_timedlock_step ty t (Spin k) d l w c = [(if k = 0 \<or> l = 0 then Try Again else Spin_waiters (k - 1), d, l, w, c)]"
| "mutex_timedlock_step ty t (Spin_waiters k) d l w c = [(if w \<noteq> 0 then Try Again else Spin k, d, l, w, c)]"
| "mutex_timedlock_step ty t Load d l w c =
     [(if owner l = 0 \<and> (l = 0 \<or> m_robust ty) then Try Again
       else if m_kind ty = Errorcheck \<and> owner l = t then Ret EDEADLK
       else Inc l, d, l, w, c)]"
| "mutex_timedlock_step ty t (Inc r) d l w c = [(Mark r, d, l, w + 1, c)]"
| "mutex_timedlock_step ty t (Mark r) d l w c = [(Wait (flagged r), d, if l = r then flagged r else l, w, c)]"
| "mutex_timedlock_step ty t (Wait v) d l w c =
     [(Dec EINVAL, d, l, w, c), (Dec ETIMEDOUT, d, l, w, c), (if l = v then Asleep v else Dec 0, d, l, w, c)]"
| "mutex_timedlock_step ty t (Asleep v) d l w c = [(Dec (if l = v then ETIMEDOUT else 0), d, l, w, c)]"
| "mutex_timedlock_step ty t (Dec r) d l w c = [(if r \<noteq> 0 \<and> r \<noteq> EINTR then Ret r else Try Again, d, l, w - 1, c)]"
| "mutex_timedlock_step ty t _ d l w c = []"

text \<open>pthread_mutex_unlock; waking itself is a step of the whole system.\<close>

fun mutex_unlock_step :: "mutex_type \<Rightarrow> nat \<Rightarrow> mutex_pc \<Rightarrow> nat \<Rightarrow> nat \<Rightarrow> nat \<Rightarrow> nat \<Rightarrow> mutex_move list" where
  "mutex_unlock_step ty t Unlock d l w c = [(Un_lock w, d, l, w, c)]"
| "mutex_unlock_step ty t (Un_lock u) d l w c =
     [if untracked ty then (Swap u 0 False, d, l, w, c)
      else if owner l \<noteq> t then (Ret EPERM, d, l, w, c)
      else if m_kind ty = Recursive \<and> c \<noteq> 0 then (Ret 0, d - 1, l, w, c - 1)
      else (Swap u (if m_robust ty \<and> died l then 0x7ffffffe else 0) False, d, l, w, c)]"
| "mutex_unlock_step ty t (Swap u new x) d l w c =
     [(if u \<noteq> 0 \<or> WAITERS \<le> l then Wake x else if x then Dead else Ret 0, 0, new, w, c)]"
| "mutex_unlock_step ty t _ d l w c = []"

fun mutex_consistent_step :: "mutex_type \<Rightarrow> nat \<Rightarrow> mutex_pc \<Rightarrow> nat \<Rightarrow> nat \<Rightarrow> nat \<Rightarrow> nat \<Rightarrow> mutex_move list" where
  "mutex_consistent_step ty t Consistent d l w c =
     [(if \<not> m_robust ty \<or> owner l = 0 \<or> \<not> died l then Ret EINVAL
       else if owner l \<noteq> t then Ret EPERM else Cons_and, d, l, w, c)]"
| "mutex_consistent_step ty t Cons_and d l w c = [(Ret 0, d, if died l then l - DIED else l, w, c)]"
| "mutex_consistent_step ty t _ d l w c = []"

text \<open>A thread that ends swaps \<open>0x40000000\<close> into the mutexes of its list, which are those with an owner that it holds.\<close>

fun mutex_exit_step :: "mutex_type \<Rightarrow> mutex_pc \<Rightarrow> nat \<Rightarrow> nat \<Rightarrow> nat \<Rightarrow> nat \<Rightarrow> mutex_move list" where
  "mutex_exit_step ty Leave d l w c = [(if \<not> untracked ty \<and> 0 < d then Swap w DIED True else Dead, d, l, w, c)]"
| "mutex_exit_step ty _ d l w c = []"

text \<open>
  What the program may call; only the owner of a mutex that does not track it may unlock it.  After a thread has ended, another one
  may start with its ID, unless it took such a mutex with it.
\<close>

fun mutex_call_step :: "mutex_type \<Rightarrow> mutex_pc \<Rightarrow> nat \<Rightarrow> nat \<Rightarrow> nat \<Rightarrow> nat \<Rightarrow> mutex_move list" where
  "mutex_call_step ty (Ret e) d l w c =
     map (\<lambda>p. (p, d, l, w, c))
       ([Try Only, Fast 0, Fast 1, Consistent, Leave] @ (if 0 < d \<or> \<not> untracked ty then [Unlock] else []))"
| "mutex_call_step ty Dead d l w c = (if d = 0 then [(Ret 0, d, l, w, c)] else [])"
| "mutex_call_step ty _ d l w c = []"

definition mutex_moves :: "mutex_type \<Rightarrow> nat \<Rightarrow> mutex_pc \<Rightarrow> nat \<Rightarrow> nat \<Rightarrow> nat \<Rightarrow> nat \<Rightarrow> mutex_move list" where
  "mutex_moves ty t p d l w c = mutex_fast_step ty p d l w c @ mutex_trylock_step ty t p d l w c @
     mutex_timedlock_step ty t p d l w c @ mutex_unlock_step ty t p d l w c @ mutex_consistent_step ty t p d l w c @
     mutex_exit_step ty p d l w c @ mutex_call_step ty p d l w c"

section \<open>The system\<close>

record mutex =
  m_lock :: nat
  m_waiters :: nat
  m_count :: nat
  m_pcs :: "nat \<Rightarrow> mutex_pc"
  depth :: "nat \<Rightarrow> nat"

fun sleeping :: "mutex_pc \<Rightarrow> bool" where
  "sleeping (Asleep v) = True"
| "sleeping _ = False"

text \<open>
  The threads are those below \<open>n\<close>, thread \<open>i\<close> with the ID \<open>tid i\<close>.  \<open>__wake(&m->_m_lock, 1, priv)\<close> wakes a sleeping thread if there
  is one.
\<close>

definition after_wake :: "bool \<Rightarrow> mutex_pc" where
  "after_wake x = (if x then Dead else Ret 0)"

inductive mutex_step :: "mutex_type \<Rightarrow> (nat \<Rightarrow> nat) \<Rightarrow> nat \<Rightarrow> nat \<Rightarrow> mutex \<Rightarrow> mutex \<Rightarrow> bool" for ty tid n where
  move: "i < n \<Longrightarrow>
    (p, d, l, w, c) \<in> set (mutex_moves ty (tid i) (m_pcs s i) (depth s i) (m_lock s) (m_waiters s) (m_count s)) \<Longrightarrow>
    mutex_step ty tid n i s
      (s\<lparr>m_pcs := (m_pcs s)(i := p), depth := (depth s)(i := d), m_lock := l, m_waiters := w, m_count := c\<rparr>)"
| wake: "i < n \<Longrightarrow> m_pcs s i = Wake x \<Longrightarrow> j < n \<Longrightarrow> sleeping (m_pcs s j) \<Longrightarrow>
    mutex_step ty tid n i s (s\<lparr>m_pcs := (m_pcs s)(j := Dec 0, i := after_wake x)\<rparr>)"
| wake_none: "i < n \<Longrightarrow> m_pcs s i = Wake x \<Longrightarrow> \<forall>j < n. \<not> sleeping (m_pcs s j) \<Longrightarrow>
    mutex_step ty tid n i s (s\<lparr>m_pcs := (m_pcs s)(i := after_wake x)\<rparr>)"

inductive_cases mutex_stepE: "mutex_step ty tid n i s t"

text \<open>pthread_mutex_init\<close>

definition mutex_start :: mutex where
  "mutex_start = \<lparr>m_lock = 0, m_waiters = 0, m_count = 0, m_pcs = (\<lambda>_. Ret 0), depth = (\<lambda>_. 0)\<rparr>"

definition mutex_next :: "mutex_type \<Rightarrow> (nat \<Rightarrow> nat) \<Rightarrow> nat \<Rightarrow> mutex \<Rightarrow> mutex \<Rightarrow> bool" where
  "mutex_next ty tid n s t \<longleftrightarrow> (\<exists>i. mutex_step ty tid n i s t)"

definition mutex_reachable :: "mutex_type \<Rightarrow> (nat \<Rightarrow> nat) \<Rightarrow> nat \<Rightarrow> mutex \<Rightarrow> bool" where
  "mutex_reachable ty tid n s \<longleftrightarrow> (mutex_next ty tid n)\<^sup>*\<^sup>* mutex_start s"

text \<open>
  Thread IDs: they are different and fit the lower 30 bits of the word, and none is 0 or the ID that marks a mutex as not
  recoverable.  The host gives 1 to \<open>0x1fffffff\<close>, and __init_tls.c gives \<open>0x3fffffff\<close> to the main thread.
\<close>

definition valid_tid :: "nat \<Rightarrow> bool" where
  "valid_tid t \<longleftrightarrow> 0 < t \<and> t < DIED \<and> t \<noteq> LOST"

definition tids_ok :: "(nat \<Rightarrow> nat) \<Rightarrow> nat \<Rightarrow> bool" where
  "tids_ok tid n \<longleftrightarrow> inj_on tid {..<n} \<and> (\<forall>i < n. valid_tid (tid i))"

abbreviation main_tid :: nat where "main_tid \<equiv> 0x3fffffff"

lemma program_tids:
  "inj_on tid {..<n} \<Longrightarrow> \<forall>i < n. tid i = main_tid \<or> tid i \<in> {1..0x1fffffff} \<Longrightarrow> tids_ok tid n"
  by (force simp: tids_ok_def valid_tid_def)

end
