(* ===== verification/Mutex_Theorems.thy ===== *)
theory Mutex_Theorems
  imports Mutex
begin

text \<open>
  The mutexes over all interleavings: who has taken the mutex is what its word says, the count is that of the owner's nested locks,
  and a sleeping thread will be woken.  The steps refine a lock with an owner and a depth.
\<close>

section \<open>The word\<close>

lemma owner_zero [simp]: "owner 0 = 0" "\<not> died 0"
  by (simp_all add: owner_def died_def)

lemma word_parts:
  fixes x q :: nat
  shows "owner (x + WAITERS * q) = owner x" "died (x + WAITERS * q) = died x"
proof -
  have "x + WAITERS * q = x + DIED * (2 * q)" by simp
  then show "owner (x + WAITERS * q) = owner x" "died (x + WAITERS * q) = died x"
    unfolding owner_def died_def by (simp_all only: mod_mult_self2 div_mult_self2) simp_all
qed

lemma flagged_parts [simp]: "owner (flagged r) = owner r" "died (flagged r) = died r"
proof -
  have r: "r = r mod WAITERS + WAITERS * (r div WAITERS)" and f: "flagged r = r mod WAITERS + WAITERS * 1"
    by (simp_all add: flagged_def)
  show "owner (flagged r) = owner r" by (subst (2) r) (simp only: f word_parts)
  show "died (flagged r) = died r" by (subst (2) r) (simp only: f word_parts)
qed

lemma flagged_range [simp]: "WAITERS \<le> flagged r" "flagged r < 4294967296" "flagged r mod WAITERS = r mod WAITERS" "0 < flagged r"
  by (simp_all add: flagged_def)

lemma lock_word_parts:
  assumes "valid_tid t"
  shows "owner (lock_word t d w) = t" "died (lock_word t d w) = d" "lock_word t d w < 2 * WAITERS"
proof -
  define k :: nat where "k = (if d then 1 else 0) + (if w then 2 else 0)"
  have e: "lock_word t d w = t + DIED * k" by (simp add: lock_word_def k_def)
  have k: "odd k \<longleftrightarrow> d" "k \<le> 3" by (simp_all add: k_def)
  show "owner (lock_word t d w) = t" "died (lock_word t d w) = d" "lock_word t d w < 2 * WAITERS"
    unfolding e owner_def died_def using assms k by (simp_all add: valid_tid_def)
qed

lemma undead_parts:
  assumes "died l"
  shows "owner (l - DIED) = owner l" "\<not> died (l - DIED)"
proof -
  have "DIED \<le> l" using assms by (rule contrapos_pp) (simp add: died_def)
  then obtain k where "l = k + DIED" by (metis le_add_diff_inverse2)
  then show "owner (l - DIED) = owner l" "\<not> died (l - DIED)" using assms by (simp_all add: owner_def died_def div_add_self2)
qed

lemma and_take_bit: "l AND take_bit k m = take_bit k l AND take_bit k m" for l m :: nat
  by (intro bit_eqI) (auto simp: bit_and_iff bit_take_bit_iff)

lemma and_busy: "l mod WAITERS = EBUSY \<Longrightarrow> l AND EBUSY = EBUSY"
proof -
  assume "l mod WAITERS = EBUSY"
  then have l: "take_bit 31 l = EBUSY" by (simp add: take_bit_eq_mod)
  have b: "take_bit 31 (EBUSY :: nat) = EBUSY" by (simp add: take_bit_eq_mod)
  show ?thesis using and_take_bit [of l 31 EBUSY] unfolding l b by simp
qed

section \<open>The invariant\<close>

text \<open>The word of a mutex that thread \<open>t\<close> holds with depth \<open>d\<close>, and of one that no thread holds.\<close>

definition held_ok :: "mutex_type \<Rightarrow> nat \<Rightarrow> nat \<Rightarrow> nat \<Rightarrow> nat \<Rightarrow> bool" where
  "held_ok ty t l c d \<longleftrightarrow> l < 2 * WAITERS \<and> d = c + 1 \<and> (m_kind ty \<noteq> Recursive \<longrightarrow> d = 1) \<and>
     (if untracked ty then l mod WAITERS = EBUSY else owner l = t \<and> (died l \<longrightarrow> m_robust ty))"

definition free_ok :: "mutex_type \<Rightarrow> nat \<Rightarrow> nat \<Rightarrow> bool" where
  "free_ok ty l c \<longleftrightarrow> l < 2 * WAITERS \<and>
     (l = 0 \<and> c = 0 \<or> \<not> untracked ty \<and> died l \<and> (owner l = 0 \<or> owner l = LOST \<and> m_robust ty))"

definition mutex_word :: "mutex_type \<Rightarrow> (nat \<Rightarrow> nat) \<Rightarrow> nat \<Rightarrow> nat \<Rightarrow> nat \<Rightarrow> (nat \<Rightarrow> nat) \<Rightarrow> bool" where
  "mutex_word ty tid n l c dep \<longleftrightarrow>
     (if \<forall>j < n. dep j = 0 then free_ok ty l c
      else \<exists>i < n. 0 < dep i \<and> (\<forall>j < n. j \<noteq> i \<longrightarrow> dep j = 0) \<and> held_ok ty (tid i) l c (dep i))"

fun mutex_waiting :: "mutex_pc \<Rightarrow> bool" where
  "mutex_waiting (Mark r) = True"
| "mutex_waiting (Wait v) = True"
| "mutex_waiting (Asleep v) = True"
| "mutex_waiting (Dec r) = True"
| "mutex_waiting _ = False"

text \<open>Threads that will take the mutex, if it stays free, or wake another one, without sleeping first.\<close>

fun mutex_coming :: "mutex_pc \<Rightarrow> bool" where
  "mutex_coming (Try a) \<longleftrightarrow> a = Again"
| "mutex_coming (Try_waiters a old) \<longleftrightarrow> a = Again \<and> old = 0"
| "mutex_coming (Cas a old new) \<longleftrightarrow> a = Again \<and> old = 0"
| "mutex_coming (Dec r) \<longleftrightarrow> r = 0 \<or> r = EINTR"
| "mutex_coming (Wake x) \<longleftrightarrow> True"
| "mutex_coming _ \<longleftrightarrow> False"

text \<open>Threads that are about to release the mutex and have seen no waiters.\<close>

fun unaware :: "mutex_pc \<Rightarrow> bool" where
  "unaware (Un_lock u) \<longleftrightarrow> u = 0"
| "unaware (Swap u new x) \<longleftrightarrow> u = 0"
| "unaware _ \<longleftrightarrow> False"

definition open_word :: "mutex_type \<Rightarrow> nat \<Rightarrow> bool" where
  "open_word ty l \<longleftrightarrow> \<not> untracked ty \<and> owner l = 0 \<and> (l = 0 \<or> m_robust ty \<and> died l)"

fun mutex_local :: "mutex_type \<Rightarrow> nat \<Rightarrow> nat \<Rightarrow> mutex_pc \<Rightarrow> bool" where
  "mutex_local ty t d (Try_waiters a old) \<longleftrightarrow> open_word ty old"
| "mutex_local ty t d (Cas a old new) \<longleftrightarrow> open_word ty old \<and> owner new = t \<and> (died new \<longrightarrow> m_robust ty) \<and> new < 2 * WAITERS"
| "mutex_local ty t d (Inc r) \<longleftrightarrow> r \<noteq> 0"
| "mutex_local ty t d (Mark r) \<longleftrightarrow> r \<noteq> 0"
| "mutex_local ty t d (Wait v) \<longleftrightarrow> WAITERS \<le> v"
| "mutex_local ty t d Unlock \<longleftrightarrow> (untracked ty \<longrightarrow> 0 < d)"
| "mutex_local ty t d (Un_lock u) \<longleftrightarrow> (untracked ty \<longrightarrow> 0 < d)"
| "mutex_local ty t d (Swap u new x) \<longleftrightarrow> 0 < d \<and>
     (if x then \<not> untracked ty \<and> new = DIED else new = 0 \<and> d = 1 \<or> new = 0x7ffffffe \<and> \<not> untracked ty \<and> m_robust ty)"
| "mutex_local ty t d Cons_and \<longleftrightarrow> 0 < d \<and> \<not> untracked ty"
| "mutex_local ty t d _ \<longleftrightarrow> True"

definition mutex_inv :: "mutex_type \<Rightarrow> (nat \<Rightarrow> nat) \<Rightarrow> nat \<Rightarrow> mutex \<Rightarrow> bool" where
  "mutex_inv ty tid n s \<longleftrightarrow> (\<forall>j < n. mutex_local ty (tid j) (depth s j) (m_pcs s j)) \<and>
     mutex_word ty tid n (m_lock s) (m_count s) (depth s) \<and>
     m_waiters s = num mutex_waiting n (m_pcs s) \<and>
     (0 < num sleeping n (m_pcs s) \<longrightarrow> (\<forall>j < n. 0 < depth s j \<longrightarrow> unaware (m_pcs s j) \<longrightarrow> WAITERS \<le> m_lock s) \<and>
       (m_lock s = 0 \<longrightarrow> 0 < num mutex_coming n (m_pcs s)))"

lemma mutex_start_inv: "mutex_inv ty tid n mutex_start"
  by (auto simp: mutex_inv_def mutex_start_def mutex_word_def free_ok_def num_def)

text \<open>What the word tells a thread.\<close>

lemma word_held:
  "mutex_word ty tid n l c dep \<Longrightarrow> i < n \<Longrightarrow> 0 < dep i \<Longrightarrow>
    held_ok ty (tid i) l c (dep i) \<and> (\<forall>j < n. j \<noteq> i \<longrightarrow> dep j = 0)"
  unfolding mutex_word_def by (metis less_irrefl)

lemma word_free: "mutex_word ty tid n l c dep \<Longrightarrow> \<forall>j < n. dep j = 0 \<Longrightarrow> free_ok ty l c"
  by (simp add: mutex_word_def)

lemma word_zero:
  assumes "mutex_word ty tid n l c dep" "tids_ok tid n" "l = 0 \<or> \<not> untracked ty \<and> owner l = 0"
  shows "\<forall>j < n. dep j = 0"
proof (rule ccontr)
  assume "\<not> (\<forall>j < n. dep j = 0)"
  then obtain i where i: "i < n" "0 < dep i" by auto
  have "held_ok ty (tid i) l c (dep i)" using word_held [of ty tid n l c dep i] assms(1) i by blast
  moreover have "tid i \<noteq> 0" using assms(2) i(1) by (auto simp: tids_ok_def valid_tid_def)
  ultimately show False using assms(3) by (auto simp: held_ok_def split: if_splits)
qed

lemma word_owner:
  assumes "mutex_word ty tid n l c dep" "tids_ok tid n" "\<not> untracked ty" "i < n"
  shows "owner l = tid i \<longleftrightarrow> 0 < dep i"
proof (cases "\<forall>j < n. dep j = 0")
  case True
  then have "owner l = 0 \<or> owner l = LOST" using word_free [of ty tid n l c dep] assms(1) by (auto simp: free_ok_def)
  moreover have "0 < tid i" "tid i \<noteq> LOST" using assms(2,4) by (auto simp: tids_ok_def valid_tid_def)
  ultimately show ?thesis using True assms(4) by auto
next
  case False
  then obtain k where k: "k < n" "0 < dep k" by auto
  have h: "held_ok ty (tid k) l c (dep k)" "\<forall>j < n. j \<noteq> k \<longrightarrow> dep j = 0"
    using word_held [of ty tid n l c dep k] assms(1) k by blast+
  have "owner l = tid k" using h(1) assms(3) by (simp add: held_ok_def)
  moreover have "tid k = tid i \<longleftrightarrow> k = i" using assms(2,4) k(1) by (auto simp: tids_ok_def valid_tid_def inj_on_def)
  ultimately show ?thesis using h(2) k(2) assms(4) by auto
qed

lemma word_busy:
  assumes "mutex_word ty tid n l c dep" "untracked ty" "l \<noteq> 0"
  shows "l AND EBUSY = EBUSY"
proof -
  have "\<not> free_ok ty l c" using assms(2,3) by (simp add: free_ok_def)
  then have "\<not> (\<forall>j < n. dep j = 0)" using word_free [OF assms(1)] by blast
  then obtain i where "i < n" "dep i \<noteq> 0" by blast
  then have "held_ok ty (tid i) l c (dep i)" using word_held [OF assms(1), of i] by simp
  then show ?thesis using assms(2) by (intro and_busy) (simp add: held_ok_def)
qed


section \<open>The moves\<close>

text \<open>
  What a thread knows of the state before its move: \<open>F\<close> says that no thread holds the mutex.
\<close>

definition mutex_view :: "mutex_type \<Rightarrow> nat \<Rightarrow> bool \<Rightarrow> mutex_pc \<Rightarrow> nat \<Rightarrow> nat \<Rightarrow> nat \<Rightarrow> nat \<Rightarrow> bool" where
  "mutex_view ty t F p d l w c \<longleftrightarrow> 0 < t \<and> valid_tid t \<and> mutex_local ty t d p \<and>
     (0 < d \<longrightarrow> held_ok ty t l c d) \<and> (F \<longrightarrow> d = 0 \<and> free_ok ty l c) \<and>
     (l = 0 \<or> \<not> untracked ty \<and> owner l = 0 \<longrightarrow> F) \<and>
     (\<not> untracked ty \<longrightarrow> (owner l = t) = (0 < d)) \<and> (untracked ty \<longrightarrow> l \<noteq> 0 \<longrightarrow> l AND EBUSY = EBUSY) \<and>
     (mutex_waiting p \<longrightarrow> 0 < w)"

text \<open>What every move keeps.\<close>

definition word_law :: "mutex_type \<Rightarrow> nat \<Rightarrow> bool \<Rightarrow> nat \<Rightarrow> nat \<Rightarrow> nat \<Rightarrow> nat \<Rightarrow> nat \<Rightarrow> nat \<Rightarrow> bool" where
  "word_law ty t F d l c d' l' c' \<longleftrightarrow>
     d' = d \<and> c' = c \<and> (l' = l \<or> l \<noteq> 0 \<and> l' = flagged l) \<or>
     0 < d' \<and> (0 < d \<or> F) \<and> held_ok ty t l' c' d' \<or>
     0 < d \<and> d' = 0 \<and> free_ok ty l' c'"

definition wake_law :: "mutex_pc \<Rightarrow> nat \<Rightarrow> nat \<Rightarrow> nat \<Rightarrow> mutex_pc \<Rightarrow> nat \<Rightarrow> nat \<Rightarrow> bool" where
  "wake_law p d l w p' d' l' \<longleftrightarrow>
     (sleeping p' \<longrightarrow> WAITERS \<le> l' \<and> l' = l) \<and>
     (unaware p' \<longrightarrow> 0 < d' \<longrightarrow> w = 0 \<or> unaware p \<and> 0 < d \<and> l' = l) \<and>
     (l' = 0 \<longrightarrow> l \<noteq> 0 \<longrightarrow> mutex_coming p' \<or> unaware p \<and> 0 < d \<and> l < WAITERS) \<and>
     (l' = 0 \<longrightarrow> l = 0 \<longrightarrow> mutex_coming p \<longrightarrow> mutex_coming p')"

definition mutex_law :: "mutex_type \<Rightarrow> nat \<Rightarrow> bool \<Rightarrow> mutex_pc \<Rightarrow> nat \<Rightarrow> nat \<Rightarrow> nat \<Rightarrow> nat \<Rightarrow> mutex_move \<Rightarrow> bool" where
  "mutex_law ty t F p d l w c m \<longleftrightarrow> (case m of (p', d', l', w', c') \<Rightarrow>
     mutex_local ty t d' p' \<and> word_law ty t F d l c d' l' c' \<and> wake_law p d l w p' d' l' \<and>
     w' + (if mutex_waiting p then 1 else 0) = w + (if mutex_waiting p' then 1 else (0 :: nat)))"

lemmas law_defs = mutex_law_def word_law_def wake_law_def

lemma busy_laws [simp]: "mutex_local ty t d (mutex_busy a)" "\<not> mutex_waiting (mutex_busy a)" "\<not> sleeping (mutex_busy a)"
  "\<not> unaware (mutex_busy a)" "\<not> mutex_coming (mutex_busy a)"
  by (cases a; simp add: mutex_busy_def)+

lemma untracked_kind: "untracked ty \<Longrightarrow> m_kind ty = Normal \<and> \<not> m_robust ty"
  by (simp add: untracked_def)

lemma held_nonzero: "held_ok ty t l c d \<Longrightarrow> 0 < t \<Longrightarrow> l \<noteq> 0"
  by (intro notI) (auto simp: held_ok_def split: if_splits)

text \<open>Moves that leave the word and the depth; that take the mutex; and that change the word or the depth of the holder.\<close>

lemma law_stay:
  assumes "mutex_local ty t d p'" "sleeping p' \<Longrightarrow> WAITERS \<le> l" "unaware p' \<Longrightarrow> 0 < d \<Longrightarrow> w = 0 \<or> unaware p"
    and "l = 0 \<Longrightarrow> mutex_coming p \<Longrightarrow> mutex_coming p'"
    and "w' + (if mutex_waiting p then 1 else 0) = w + (if mutex_waiting p' then 1 else 0)"
  shows "mutex_law ty t F p d l w c (p', d, l, w', c)"
  using assms by (auto simp: law_defs)

lemma law_held:
  assumes "0 < t" "0 < d \<or> F" "0 < d'" "held_ok ty t l' c' d'" "mutex_local ty t d' p'"
    and "\<not> sleeping p'" "\<not> unaware p'" "\<not> mutex_waiting p" "\<not> mutex_waiting p'"
  shows "mutex_law ty t F p d l w c (p', d', l', w, c')"
  using assms held_nonzero [OF assms(4,1)] by (simp add: law_defs)

lemma mutex_viewD:
  assumes "mutex_view ty t F p d l w c"
  shows "0 < t" "valid_tid t" "mutex_local ty t d p" "mutex_waiting p \<Longrightarrow> 0 < w" "0 < d \<Longrightarrow> held_ok ty t l c d"
    and "\<not> untracked ty \<Longrightarrow> owner l = t \<longleftrightarrow> 0 < d"
  using assms unfolding mutex_view_def by blast+

lemma fast_law:
  assumes "mutex_view ty t F p d l w c" "m \<in> set (mutex_fast_step ty p d l w c)"
  shows "mutex_law ty t F p d l w c m"
proof -
  obtain k where p: "p = Fast k" using assms(2) by (cases p) auto
  show ?thesis
  proof (cases "untracked ty \<and> l = 0")
    case True
    then have "F" "c = 0" "d = 0" using assms(1) by (auto simp: mutex_view_def free_ok_def)
    moreover have "held_ok ty t EBUSY 0 1" using True by (simp add: held_ok_def)
    ultimately show ?thesis using assms True p by (auto simp: mutex_view_def intro!: law_held)
  next
    case False
    then show ?thesis using assms p by (auto intro!: law_stay)
  qed
qed

lemma timedlock_law:
  assumes "mutex_view ty t F p d l w c" "m \<in> set (mutex_timedlock_step ty t p d l w c)"
  shows "mutex_law ty t F p d l w c m"
proof (cases "p = Mark l")
  case True
  then have "l \<noteq> 0" "m = (Wait (flagged l), d, flagged l, w, c)" using assms(2) mutex_viewD(3) [OF assms(1)] by simp_all
  then show ?thesis using True by (simp add: law_defs)
next
  case False
  have "0 < owner l \<Longrightarrow> 0 < l" by (cases "l = 0") simp_all
  then show ?thesis using False assms(2) mutex_viewD(3,4) [OF assms(1)]
    by (cases p) (auto intro!: law_stay split: if_splits)
qed

lemma consistent_law:
  assumes "mutex_view ty t F p d l w c" "m \<in> set (mutex_consistent_step ty t p d l w c)"
  shows "mutex_law ty t F p d l w c m"
proof (cases "p = Cons_and \<and> died l")
  case True
  then have d: "0 < d" using mutex_viewD(3) [OF assms(1)] by simp
  then have "held_ok ty t (l - DIED) c d" using True mutex_viewD(3,5) [OF assms(1)] undead_parts [of l] by (auto simp: held_ok_def)
  then show ?thesis using assms(2) True d mutex_viewD(1) [OF assms(1)] by (auto intro!: law_held)
next
  case False
  have "m_robust ty \<Longrightarrow> \<not> untracked ty" by (simp add: untracked_def)
  then show ?thesis using assms(2) False mutex_viewD(3,6) [OF assms(1)] by (cases p) (auto intro!: law_stay split: if_splits)
qed

lemma exit_law:
  assumes "mutex_view ty t F p d l w c" "m \<in> set (mutex_exit_step ty p d l w c)"
  shows "mutex_law ty t F p d l w c m"
  using assms(2) by (cases p) (auto intro!: law_stay split: if_splits)

lemma call_law:
  assumes "mutex_view ty t F p d l w c" "m \<in> set (mutex_call_step ty p d l w c)"
  shows "mutex_law ty t F p d l w c m"
  using assms(2) by (cases p) (auto intro!: law_stay split: if_splits)

lemma unlock_law:
  assumes "mutex_view ty t F p d l w c" "m \<in> set (mutex_unlock_step ty t p d l w c)"
  shows "mutex_law ty t F p d l w c m"
proof -
  consider (unlock) "p = Unlock" | (lock) u where "p = Un_lock u" | (swap) u new x where "p = Swap u new x"
    using assms(2) by (cases p) auto
  then show ?thesis
  proof cases
    case unlock
    then show ?thesis using assms by (auto simp: mutex_view_def intro!: law_stay)
  next
    case (lock u)
    have h: "0 < d \<Longrightarrow> held_ok ty t l c d" "\<not> untracked ty \<Longrightarrow> owner l = t \<longleftrightarrow> 0 < d" "untracked ty \<Longrightarrow> 0 < d"
      using assms(1) lock by (auto simp: mutex_view_def)
    show ?thesis
    proof (cases "\<not> untracked ty \<and> owner l = t \<and> m_kind ty = Recursive \<and> c \<noteq> 0")
      case True
      then have "held_ok ty t l (c - 1) (d - 1)" "0 < d - 1" "0 < d" "0 < t" using h assms(1) by (auto simp: held_ok_def mutex_view_def)
      then show ?thesis using assms(2) True lock by (auto intro!: law_held)
    next
      case False
      then have "d = 1" if "untracked ty \<or> owner l = t" using h that by (auto simp: held_ok_def untracked_def split: if_splits)
      then show ?thesis using assms(2) False lock by (auto intro!: law_stay)
    qed
  next
    case (swap u new x)
    then have h: "0 < d" "held_ok ty t l c d" "l \<noteq> 0" using assms(1) held_nonzero by (auto simp: mutex_view_def)
    have "free_ok ty new c" using assms(1) swap h(2) by (auto simp: mutex_view_def free_ok_def held_ok_def owner_def died_def split: if_splits)
    then show ?thesis using assms(2) swap h by (auto simp: law_defs)
  qed
qed

lemma open_free: "free_ok ty l c \<Longrightarrow> \<not> untracked ty \<Longrightarrow> owner l = 0 \<Longrightarrow> l = 0 \<or> m_robust ty \<Longrightarrow> open_word ty l"
  by (auto simp: free_ok_def open_word_def)

lemma owner_law:
  assumes "mutex_view ty t F (Try a) d l w c" "\<not> untracked ty"
  shows "mutex_law ty t F (Try a) d l w c (trylock_owner ty t a d l w c)"
proof -
  have v: "0 < t" "valid_tid t" "owner l = t \<longleftrightarrow> 0 < d" "0 < d \<Longrightarrow> held_ok ty t l c d" "owner l = 0 \<Longrightarrow> F" "F \<Longrightarrow> free_ok ty l c"
    using assms by (auto simp: mutex_view_def)
  consider (nested) "owner l = t" "m_kind ty = Recursive" "c < 0x7fffffff"
    | (full) "owner l = t" "m_kind ty = Recursive" "c \<ge> 0x7fffffff"
    | (lost) "\<not> (owner l = t \<and> m_kind ty = Recursive)" "owner l = LOST"
    | (busy) "\<not> (owner l = t \<and> m_kind ty = Recursive)" "owner l \<noteq> LOST" "owner l \<noteq> 0 \<or> (l \<noteq> 0 \<and> \<not> m_robust ty)"
    | (free) "owner l = 0" "l = 0 \<or> m_robust ty" by linarith
  then show ?thesis
  proof cases
    case nested
    then have "held_ok ty t l (c + 1) (d + 1)" "0 < d" using v by (auto simp: held_ok_def)
    then show ?thesis using nested v(1) by (auto simp: trylock_owner_def intro!: law_held)
  next
    case free
    then have o: "open_word ty l" using v(5,6) assms(2) open_free by blast
    then have "died l \<Longrightarrow> m_robust ty" by (auto simp: open_word_def)
    then show ?thesis using free v(1) o lock_word_parts [OF v(2)] by (auto simp: trylock_owner_def intro!: law_stay)
  qed (use v(1) in \<open>auto simp: trylock_owner_def intro!: law_stay\<close>)
qed

lemma trylock_law:
  assumes "mutex_view ty t F p d l w c" "m \<in> set (mutex_trylock_step ty t p d l w c)"
  shows "mutex_law ty t F p d l w c m"
proof -
  have v: "0 < t" "valid_tid t" "F \<Longrightarrow> d = 0 \<and> free_ok ty l c" "l = 0 \<or> \<not> untracked ty \<and> owner l = 0 \<Longrightarrow> F"
    using assms(1) by (auto simp: mutex_view_def)
  consider (plain) a where "p = Try a" "untracked ty" | (owner) a where "p = Try a" "\<not> untracked ty"
    | (waiters) a old where "p = Try_waiters a old" | (cas) a old new where "p = Cas a old new"
    using assms(2) by (cases p) auto
  then show ?thesis
  proof cases
    case (plain a)
    show ?thesis
    proof (cases "l = 0")
      case True
      then have "F" "c = 0" "d = 0" using v by (auto simp: free_ok_def)
      moreover have "held_ok ty t EBUSY 0 1" using plain by (simp add: held_ok_def)
      ultimately show ?thesis using assms(2) True plain v(1) by (auto simp: Let_def intro!: law_held)
    next
      case False
      then have "l AND EBUSY = EBUSY" using assms(1) plain by (auto simp: mutex_view_def)
      then show ?thesis using assms(2) False plain by (auto simp: Let_def intro!: law_stay)
    qed
  next
    case (owner a)
    then show ?thesis using owner_law [of ty t F a d l w c] assms by auto
  next
    case (waiters a old)
    then have o: "open_word ty old" using assms(1) by (simp add: mutex_view_def)
    then have "died old \<Longrightarrow> m_robust ty" by (auto simp: open_word_def)
    then show ?thesis using assms(2) waiters o lock_word_parts [OF v(2)] by (auto intro!: law_stay)
  next
    case (cas a old new)
    then have o: "open_word ty old" "owner new = t" "died new \<Longrightarrow> m_robust ty" "new < 2 * WAITERS"
      using assms(1) by (auto simp: mutex_view_def)
    show ?thesis
    proof (cases "l = old")
      case True
      then have f: "F" "d = 0" "free_ok ty l c" using v o(1) by (auto simp: open_word_def)
      then have "held_ok ty t new (if old \<noteq> 0 then 0 else c) 1" using o True by (auto simp: held_ok_def free_ok_def open_word_def)
      then show ?thesis using assms(2) True cas f v(1) by (auto intro!: law_held)
    next
      case False
      then show ?thesis using assms(2) cas by (auto intro!: law_stay)
    qed
  qed
qed

lemma mutex_moves_law:
  assumes "mutex_view ty t F p d l w c" "m \<in> set (mutex_moves ty t p d l w c)"
  shows "mutex_law ty t F p d l w c m"
  using assms(2) unfolding mutex_moves_def set_append
  by (elim UnE) (rule fast_law trylock_law timedlock_law unlock_law consistent_law exit_law call_law; (rule assms(1) | assumption))+


section \<open>Preservation\<close>

lemma mutex_view_at:
  assumes inv: "mutex_inv ty tid n s" and tids: "tids_ok tid n" and i: "i < n"
  shows "mutex_view ty (tid i) (\<forall>j < n. depth s j = 0) (m_pcs s i) (depth s i) (m_lock s) (m_waiters s) (m_count s)"
proof -
  have w: "mutex_word ty tid n (m_lock s) (m_count s) (depth s)" using inv by (simp add: mutex_inv_def)
  have "0 < tid i" "valid_tid (tid i)" using tids i by (simp_all add: tids_ok_def valid_tid_def)
  moreover have "mutex_local ty (tid i) (depth s i) (m_pcs s i)" using inv i by (simp add: mutex_inv_def)
  moreover have "held_ok ty (tid i) (m_lock s) (m_count s) (depth s i)" if "0 < depth s i" using word_held [OF w i that] by blast
  moreover have "0 < m_waiters s" if "mutex_waiting (m_pcs s i)"
    using inv num_pos [of mutex_waiting n "m_pcs s"] i that by (auto simp: mutex_inv_def)
  moreover note word_free [OF w] word_zero [OF w tids] word_owner [OF w tids _ i] word_busy [OF w]
  ultimately show ?thesis unfolding mutex_view_def using i by blast
qed

text \<open>The word after a move.\<close>

lemma word_next:
  assumes w: "mutex_word ty tid n l c dep" and i: "i < n"
    and law: "word_law ty (tid i) (\<forall>j < n. dep j = 0) (dep i) l c d' l' c'"
  shows "mutex_word ty tid n l' c' (dep(i := d'))"
  using law unfolding word_law_def
proof (elim disjE conjE)
  assume "d' = dep i" "c' = c" "l' = l"
  then show ?thesis using w by simp
next
  assume a: "d' = dep i" "c' = c" "l \<noteq> 0" "l' = flagged l"
  have "held_ok ty t l c d \<Longrightarrow> held_ok ty t (flagged l) c d" for t d
    using flagged_range(2) [of l] by (auto simp: held_ok_def)
  moreover have "free_ok ty l c \<Longrightarrow> free_ok ty (flagged l) c" using a(3) by (auto simp: free_ok_def)
  ultimately show ?thesis using w a unfolding mutex_word_def by (auto split: if_splits)
next
  assume a: "0 < d'" "held_ok ty (tid i) l' c' d'" and "0 < dep i"
  then show ?thesis using word_held [OF w i] i unfolding mutex_word_def by auto
next
  assume a: "0 < d'" "held_ok ty (tid i) l' c' d'" and "\<forall>j < n. dep j = 0"
  then show ?thesis using i unfolding mutex_word_def by auto
next
  assume "0 < dep i" "d' = 0" "free_ok ty l' c'"
  then show ?thesis using word_held [OF w i] unfolding mutex_word_def by auto
qed

lemma mutex_move_inv:
  assumes inv: "mutex_inv ty tid n s" and tids: "tids_ok tid n" and i: "i < n"
    and m: "(p, d, l, w, c) \<in> set (mutex_moves ty (tid i) (m_pcs s i) (depth s i) (m_lock s) (m_waiters s) (m_count s))"
  shows "mutex_inv ty tid n (s\<lparr>m_pcs := (m_pcs s)(i := p), depth := (depth s)(i := d), m_lock := l, m_waiters := w, m_count := c\<rparr>)"
proof -
  let ?f = "m_pcs s" and ?l = "m_lock s"
  note inv' = inv [unfolded mutex_inv_def]
  note law = mutex_moves_law [OF mutex_view_at [OF inv tids i] m, unfolded mutex_law_def prod.case]
  have wd: "mutex_word ty tid n l c ((depth s)(i := d))" by (rule word_next [OF _ i]) (use inv' law in auto)
  have local: "mutex_local ty (tid j) (((depth s)(i := d)) j) ((?f(i := p)) j)" if "j < n" for j using inv' law that by auto
  have wt: "w = num mutex_waiting n (?f(i := p))" using num_upd [OF i, of mutex_waiting ?f p] law inv' by linarith
  have wk: "wake_law (?f i) (depth s i) ?l (m_waiters s) p d l" using law by blast
  have sleepers: "\<not> sleeping p \<Longrightarrow> 0 < num sleeping n (?f(i := p)) \<Longrightarrow> 0 < num sleeping n ?f" using num_keep [of sleeping n ?f i p] by blast
  have none: "0 < num sleeping n ?f \<Longrightarrow> m_waiters s \<noteq> 0"
    using num_mono [of sleeping mutex_waiting n ?f] inv' by (metis mutex_waiting.simps(3) sleeping.elims(2) leD)
  have bit: "WAITERS \<le> l" if a: "0 < num sleeping n (?f(i := p))" "j < n" "0 < ((depth s)(i := d)) j" "unaware ((?f(i := p)) j)" for j
  proof (cases "sleeping p")
    case True
    then show ?thesis using wk by (simp add: wake_law_def)
  next
    case False
    have s: "0 < num sleeping n ?f" by (rule sleepers [OF False a(1)])
    show ?thesis
    proof (cases "j = i")
      case True
      then have "unaware (?f i) \<and> 0 < depth s i \<and> l = ?l" using wk a none [OF s] by (auto simp: wake_law_def)
      then show ?thesis using inv' s i by auto
    next
      case False
      then have j: "0 < depth s j" "unaware (?f j)" using a by simp_all
      then have "WAITERS \<le> ?l" using inv' s a(2) by blast
      moreover have "depth s i = 0" using word_held [of ty tid n ?l "m_count s" "depth s" j] a(2) j(1) inv' i False by blast
      then have "l = ?l \<or> l = flagged ?l" using law j(1) a(2) by (auto simp: word_law_def)
      ultimately show ?thesis by auto
    qed
  qed
  have live: "0 < num mutex_coming n (?f(i := p))" if a: "0 < num sleeping n (?f(i := p))" "l = 0"
  proof -
    have np: "\<not> sleeping p" using wk a(2) by (auto simp: wake_law_def)
    note s = sleepers [OF np a(1)]
    have "mutex_coming p \<Longrightarrow> ?thesis" using i unfolding num_pos by auto
    moreover have "mutex_coming p" if "?l \<noteq> 0" using wk a(2) that inv' s i by (auto simp: wake_law_def not_less)
    moreover have "mutex_coming p \<or> (\<exists>j < n. j \<noteq> i \<and> mutex_coming (?f j))" if "?l = 0"
      using inv' s that wk a(2) unfolding num_pos wake_law_def by blast
    ultimately show ?thesis unfolding num_pos by (metis fun_upd_other)
  qed
  show ?thesis unfolding mutex_inv_def using wd local wt bit live by simp
qed


text \<open>Waking: thread \<open>i\<close> leaves its call, and one that slept goes on, if there is one.\<close>

lemma after_wake_simps [simp]: "mutex_local ty t d (after_wake x)" "\<not> mutex_waiting (after_wake x)" "\<not> sleeping (after_wake x)"
  "\<not> unaware (after_wake x)" "\<not> mutex_coming (after_wake x)"
  by (cases x; simp add: after_wake_def)+

lemma sleeping_iff: "sleeping p \<longleftrightarrow> (\<exists>v. p = Asleep v)"
  by (cases p) simp_all

lemma mutex_wake_inv:
  assumes inv: "mutex_inv ty tid n s" and i: "i < n" "m_pcs s i = Wake x" and j: "j < n" "sleeping (m_pcs s j)"
  shows "mutex_inv ty tid n (s\<lparr>m_pcs := (m_pcs s)(j := Dec 0, i := after_wake x)\<rparr>)"
proof -
  let ?g = "(m_pcs s)(j := Dec 0, i := after_wake x)"
  note inv' = inv [unfolded mutex_inv_def]
  have ne: "j \<noteq> i" using i j by auto
  obtain v where v: "m_pcs s j = Asleep v" using j(2) by (auto simp: sleeping_iff)
  have wt: "num mutex_waiting n ?g = num mutex_waiting n (m_pcs s)" by (rule num_cong) (use i v ne in auto)
  have "0 < num sleeping n (m_pcs s)" unfolding num_pos using j by blast
  then have un: "\<forall>k < n. 0 < depth s k \<longrightarrow> unaware (m_pcs s k) \<longrightarrow> WAITERS \<le> m_lock s" using inv' by blast
  have co: "0 < num mutex_coming n ?g" unfolding num_pos using j(1) ne by (intro exI [of _ j]) simp
  have local: "mutex_local ty (tid k) (depth s k) (?g k)" if "k < n" for k using inv' that by simp
  have un': "WAITERS \<le> m_lock s" if "k < n" "0 < depth s k" "unaware (?g k)" for k
    using un that by (auto split: if_splits)
  show ?thesis unfolding mutex_inv_def using inv' wt co local un' by simp
qed

lemma mutex_wake_none_inv:
  assumes inv: "mutex_inv ty tid n s" and i: "i < n" "m_pcs s i = Wake x" and none: "\<forall>j < n. \<not> sleeping (m_pcs s j)"
  shows "mutex_inv ty tid n (s\<lparr>m_pcs := (m_pcs s)(i := after_wake x)\<rparr>)"
proof -
  let ?g = "(m_pcs s)(i := after_wake x)"
  note inv' = inv [unfolded mutex_inv_def]
  have wt: "num mutex_waiting n ?g = num mutex_waiting n (m_pcs s)" by (rule num_cong) (use i in auto)
  have sl: "num sleeping n ?g = 0" using none num_pos [of sleeping n ?g] by (auto split: if_splits)
  have local: "mutex_local ty (tid k) (depth s k) (?g k)" if "k < n" for k using inv' that by simp
  show ?thesis unfolding mutex_inv_def using inv' wt sl local by simp
qed

theorem mutex_step_inv: "mutex_step ty tid n i s t \<Longrightarrow> tids_ok tid n \<Longrightarrow> mutex_inv ty tid n s \<Longrightarrow> mutex_inv ty tid n t"
  by (erule mutex_stepE) (simp_all only: mutex_move_inv mutex_wake_inv mutex_wake_none_inv)

definition mutex_good :: "mutex_type \<Rightarrow> (nat \<Rightarrow> nat) \<Rightarrow> nat \<Rightarrow> mutex \<Rightarrow> bool" where
  "mutex_good ty tid n s \<longleftrightarrow> (tids_ok tid n \<longrightarrow> mutex_inv ty tid n s)"

interpretation mx: step_invariant "mutex_next ty tid n" mutex_start "mutex_good ty tid n" for ty tid n
proof
  show "mutex_good ty tid n mutex_start" by (simp add: mutex_good_def mutex_start_inv)
  show "mutex_good ty tid n t" if "mutex_next ty tid n s t" "mutex_good ty tid n s" for s t
    using that mutex_step_inv unfolding mutex_good_def mutex_next_def by blast
qed

lemma mutex_reachable_inv: "mutex_reachable ty tid n s \<Longrightarrow> tids_ok tid n \<Longrightarrow> mutex_inv ty tid n s"
  using mx.reachable_inv unfolding mutex_reachable_def mutex_good_def by blast

lemma mutex_reachable_word:
  "mutex_reachable ty tid n s \<Longrightarrow> tids_ok tid n \<Longrightarrow> mutex_word ty tid n (m_lock s) (m_count s) (depth s)"
  using mutex_reachable_inv unfolding mutex_inv_def by blast

section \<open>Schedules\<close>

text \<open>A schedule names the thread that moves next and which of its moves it makes; a thread that wakes another one names that one.\<close>

definition mutex_do :: "mutex_type \<Rightarrow> (nat \<Rightarrow> nat) \<Rightarrow> nat \<Rightarrow> nat \<times> nat \<Rightarrow> mutex \<Rightarrow> mutex option" where
  "mutex_do ty tid n m s = (case m of (i, k) \<Rightarrow>
     if \<not> i < n then None
     else case m_pcs s i of
       Wake x \<Rightarrow> if k < n \<and> sleeping (m_pcs s k) then Some (s\<lparr>m_pcs := (m_pcs s)(k := Dec 0, i := after_wake x)\<rparr>) else None
     | q \<Rightarrow> (case drop k (mutex_moves ty (tid i) q (depth s i) (m_lock s) (m_waiters s) (m_count s)) of
         (p, d, l, w, c) # _ \<Rightarrow>
           Some (s\<lparr>m_pcs := (m_pcs s)(i := p), depth := (depth s)(i := d), m_lock := l, m_waiters := w, m_count := c\<rparr>)
       | [] \<Rightarrow> None))"

lemma mutex_do_step: "mutex_do ty tid n (i, k) s = Some t \<Longrightarrow> mutex_step ty tid n i s t"
proof (cases "\<exists>x. m_pcs s i = Wake x")
  case True
  then show "mutex_do ty tid n (i, k) s = Some t \<Longrightarrow> mutex_step ty tid n i s t"
    by (auto simp: mutex_do_def split: if_splits intro: mutex_step.wake)
next
  case False
  assume a: "mutex_do ty tid n (i, k) s = Some t"
  obtain p d l w c rest where
    r: "drop k (mutex_moves ty (tid i) (m_pcs s i) (depth s i) (m_lock s) (m_waiters s) (m_count s)) = (p, d, l, w, c) # rest" "i < n"
      "t = s\<lparr>m_pcs := (m_pcs s)(i := p), depth := (depth s)(i := d), m_lock := l, m_waiters := w, m_count := c\<rparr>"
    using a False by (cases "m_pcs s i"; auto simp: mutex_do_def split: if_splits list.splits)
  have "(p, d, l, w, c) \<in> set (mutex_moves ty (tid i) (m_pcs s i) (depth s i) (m_lock s) (m_waiters s) (m_count s))"
    using r(1) by (metis in_set_dropD list.set_intros(1))
  then show ?thesis unfolding r(3) using r(2) by (rule mutex_step.move [rotated])
qed

fun mutex_schedule :: "mutex_type \<Rightarrow> (nat \<Rightarrow> nat) \<Rightarrow> nat \<Rightarrow> (nat \<times> nat) list \<Rightarrow> mutex \<Rightarrow> mutex option" where
  "mutex_schedule ty tid n [] s = Some s"
| "mutex_schedule ty tid n (m # ms) s = Option.bind (mutex_do ty tid n m s) (mutex_schedule ty tid n ms)"

lemma mutex_start_reachable: "mutex_reachable ty tid n mutex_start"
  by (simp add: mutex_reachable_def)

lemma mutex_step_reachable: "mutex_reachable ty tid n s \<Longrightarrow> mutex_step ty tid n i s t \<Longrightarrow> mutex_reachable ty tid n t"
  unfolding mutex_reachable_def mutex_next_def by (blast intro: rtranclp.rtrancl_into_rtrancl)

lemma mutex_schedule_reachable:
  "mutex_schedule ty tid n ms s = Some t \<Longrightarrow> mutex_reachable ty tid n s \<Longrightarrow> mutex_reachable ty tid n t"
proof (induction ty tid n ms s rule: mutex_schedule.induct)
  case (2 ty tid n m ms s)
  obtain i k where m: "m = (i, k)" by (cases m)
  obtain u where u: "mutex_do ty tid n m s = Some u" "mutex_schedule ty tid n ms u = Some t" using "2.prems"(1) by auto
  show ?case by (rule "2.IH" [OF u]) (use "2.prems"(2) mutex_do_step u(1) m mutex_step_reachable in blast)
qed simp


text \<open>A recursive mutex that thread 0 has taken, given back and taken twice, while thread 1 has come to sleep for it.\<close>

abbreviation sample_type :: mutex_type where
  "sample_type \<equiv> \<lparr>m_kind = Recursive, m_robust = False, m_pshared = False\<rparr>"

abbreviation sample_tid :: "nat \<Rightarrow> nat" where
  "sample_tid \<equiv> (\<lambda>i. if i = 0 then main_tid else i)"

definition sample_nested :: mutex where
  "sample_nested = \<lparr>m_lock = 0xbfffffff, m_waiters = 1, m_count = 1,
     m_pcs = (\<lambda>_. Ret 0)(0 := Ret 0, 1 := Asleep 0xbfffffff), depth = (\<lambda>_. 0)(0 := 2)\<rparr>"

lemmas mutex_eval = mutex_do_def mutex_moves_def trylock_owner_def untracked_def owner_def died_def lock_word_def flagged_def
  mutex_busy_def after_wake_def

lemma sample_locked:
  "mutex_schedule sample_type sample_tid 2 [(0, 0), (0, 0), (0, 0), (1, 1), (1, 0), (1, 0), (0, 5), (0, 0), (0, 0), (0, 0), (1, 0)] mutex_start =
     Some \<lparr>m_lock = 0, m_waiters = 0, m_count = 0, m_pcs = (\<lambda>_. Ret 0)(0 := Ret 0, 1 := Try Again), depth = (\<lambda>_. 0)\<rparr>"
  by (simp add: mutex_start_def mutex_eval fun_eq_iff)

lemma sample_tids: "tids_ok sample_tid 2"
  by (rule program_tids) (auto simp: inj_on_def)

lemma sample_slept:
  "mutex_schedule sample_type sample_tid 2 [(0, 0), (0, 0), (0, 0), (0, 0), (0, 0), (1, 0), (1, 0), (1, 0), (1, 0), (1, 2)]
     \<lparr>m_lock = 0, m_waiters = 0, m_count = 0, m_pcs = (\<lambda>_. Ret 0)(0 := Ret 0, 1 := Try Again), depth = (\<lambda>_. 0)\<rparr> =
     Some sample_nested"
  by (simp add: sample_nested_def mutex_eval fun_eq_iff)

lemma sample_reachable: "mutex_reachable sample_type sample_tid 2 sample_nested"
  by (rule mutex_schedule_reachable [OF sample_slept mutex_schedule_reachable [OF sample_locked mutex_start_reachable]])

section \<open>Properties\<close>

text \<open>C36.  Exclusion: in every interleaving of any number of threads, the main one among them, that lock, try, time out, sleep, are woken,
  unlock and end, at most one thread has taken the mutex and not given it back, and a mutex that is not recursive is taken at most
  once.  A mutex that does not track its owner is unlocked by its owner only.\<close>

theorem mutex_exclusion:
  assumes "mutex_reachable ty tid n s" "tids_ok tid n" "i < n" "j < n" "0 < depth s i"
  shows "(j \<noteq> i \<longrightarrow> depth s j = 0) \<and> (m_kind ty \<noteq> Recursive \<longrightarrow> depth s i = 1)"
  using word_held [OF mutex_reachable_word [OF assms(1,2)] assms(3,5)] assms(4) by (auto simp: held_ok_def)

theorem mutex_exclusion_witness: "depth sample_nested 1 = 0"
  using mutex_exclusion [OF sample_reachable sample_tids, of 0 1] by (simp add: sample_nested_def)

text \<open>The lock that a mutex stands for: its owner and how often the owner has taken it.  A step of thread \<open>i\<close>.\<close>

inductive abstract_lock :: "mutex_type \<Rightarrow> nat \<Rightarrow> (nat \<times> nat) option \<Rightarrow> (nat \<times> nat) option \<Rightarrow> bool" for ty i where
  take: "abstract_lock ty i None (Some (i, 1))"
| again: "m_kind ty = Recursive \<Longrightarrow> abstract_lock ty i (Some (i, d)) (Some (i, d + 1))"
| give: "abstract_lock ty i (Some (i, d + 1)) (if d = 0 then None else Some (i, d))"
| leave: "\<not> untracked ty \<Longrightarrow> abstract_lock ty i (Some (i, d)) None"
| stay: "abstract_lock ty i a a"

definition lock_of :: "nat \<Rightarrow> mutex \<Rightarrow> (nat \<times> nat) option" where
  "lock_of n s = map_option (\<lambda>i. (i, depth s i)) (find (\<lambda>i. 0 < depth s i) [0..<n])"

text \<open>What a move does to the depth of its thread.\<close>

definition depth_law :: "mutex_type \<Rightarrow> bool \<Rightarrow> nat \<Rightarrow> nat \<Rightarrow> bool" where
  "depth_law ty F d d' \<longleftrightarrow> d' = d \<or> d = 0 \<and> F \<and> d' = 1 \<or> m_kind ty = Recursive \<and> 0 < d \<and> d' = d + 1 \<or> 0 < d \<and> d' = d - 1 \<or>
     \<not> untracked ty \<and> 0 < d \<and> d' = 0"

lemma find_holder:
  fixes dep :: "nat \<Rightarrow> nat"
  assumes "i < n" "0 < dep i" "\<forall>j < n. j \<noteq> i \<longrightarrow> dep j = 0"
  shows "find (\<lambda>i. 0 < dep i) [0..<n] = Some i"
proof -
  have "dep j = 0" if "j < i" for j using assms(1,3) that by simp
  then show ?thesis unfolding find_Some_iff using assms(1,2) by (intro exI [of _ i]) auto
qed

lemma lock_of_held: "i < n \<Longrightarrow> 0 < depth s i \<Longrightarrow> \<forall>j < n. j \<noteq> i \<longrightarrow> depth s j = 0 \<Longrightarrow> lock_of n s = Some (i, depth s i)"
  by (simp add: lock_of_def find_holder)

lemma lock_of_free: "\<forall>j < n. depth s j = 0 \<Longrightarrow> lock_of n s = None"
  by (simp add: lock_of_def find_None_iff)


lemma mutex_depth_law:
  assumes v: "mutex_view ty t F p d l w c" and m: "(p', d', l', w', c') \<in> set (mutex_moves ty t p d l w c)"
  shows "depth_law ty F d d'"
proof -
  have f: "l = 0 \<Longrightarrow> F" "\<not> untracked ty \<Longrightarrow> owner l = 0 \<Longrightarrow> F" "F \<Longrightarrow> d = 0" "untracked ty \<Longrightarrow> l \<noteq> 0 \<Longrightarrow> l AND EBUSY = EBUSY"
    using v unfolding mutex_view_def by blast+
  note d = mutex_viewD [OF v]
  show ?thesis
  proof (cases p)
    case (Try a)
    then show ?thesis using m f d(6)
      by (cases "untracked ty"; cases "l = 0") (auto simp: mutex_moves_def trylock_owner_def depth_law_def Let_def split: if_splits)
  next
    case (Cas a old new)
    then have "l = old \<Longrightarrow> F" using d(3) f(1,2) by (auto simp: open_word_def)
    then show ?thesis using m f(3) Cas by (auto simp: mutex_moves_def depth_law_def split: if_splits)
  qed (use m f d(3,6) in \<open>auto simp: mutex_moves_def depth_law_def split: if_splits\<close>)
qed

text \<open>C37.  Refinement: in every interleaving of any number of threads, the main one among them, a step of thread i is a step of a lock that only its owner can release, that
  only the owner of a recursive mutex can take again, and that a thread that ends gives up when the mutex knows its owner.\<close>

theorem mutex_refines:
  assumes "mutex_reachable ty tid n s" "tids_ok tid n" "mutex_step ty tid n i s t"
  shows "abstract_lock ty i (lock_of n s) (lock_of n t)"
  using assms(3)
proof cases
  case (move p d l w c)
  let ?F = "\<forall>j < n. depth s j = 0"
  have v: "mutex_view ty (tid i) ?F (m_pcs s i) (depth s i) (m_lock s) (m_waiters s) (m_count s)"
    by (rule mutex_view_at [OF mutex_reachable_inv [OF assms(1,2)] assms(2) move(2)])
  have dt: "depth t = (depth s)(i := d)" using move(1) by simp
  have h: "0 < depth s i \<Longrightarrow> \<forall>j < n. j \<noteq> i \<longrightarrow> depth s j = 0" using word_held [OF mutex_reachable_word [OF assms(1,2)] move(2)] by blast
  have same: "lock_of n t = lock_of n s" if "d = depth s i" using dt that by (simp add: lock_of_def)
  have to: "lock_of n t = (if d = 0 then None else Some (i, d))" if "0 < depth s i \<or> ?F"
  proof -
    have "\<forall>j < n. j \<noteq> i \<longrightarrow> depth t j = 0" "depth t i = d" using dt h that by auto
    then show ?thesis using lock_of_held [OF move(2), of t] lock_of_free [of n t] by (metis gr0I)
  qed
  have from_held: "lock_of n s = Some (i, depth s i)" if "0 < depth s i" using lock_of_held [OF move(2) that h [OF that]] .
  from mutex_depth_law [OF v move(3)] show ?thesis unfolding depth_law_def
  proof (elim disjE conjE)
    assume "d = depth s i"
    then show ?thesis using same abstract_lock.stay by simp
  next
    assume "depth s i = 0" "?F" "d = 1"
    then show ?thesis using to lock_of_free [of n s] abstract_lock.take [of ty i] by simp
  next
    assume "m_kind ty = Recursive" "0 < depth s i" "d = depth s i + 1"
    then show ?thesis using to from_held abstract_lock.again [of ty i "depth s i"] by simp
  next
    assume a: "0 < depth s i" "d = depth s i - 1"
    then show ?thesis using to from_held abstract_lock.give [of ty i "depth s i - 1"] by (cases "depth s i = 1") simp_all
  next
    assume "\<not> untracked ty" "0 < depth s i" "d = 0"
    then show ?thesis using to from_held abstract_lock.leave [of ty i "depth s i"] by simp
  qed
qed (auto simp: lock_of_def intro: abstract_lock.stay)

lemma sample_unlock: "\<exists>t. mutex_step sample_type sample_tid 2 0 sample_nested t"
proof -
  have "mutex_do sample_type sample_tid 2 (0, 5) sample_nested \<noteq> None" by (simp add: sample_nested_def mutex_eval)
  then show ?thesis using mutex_do_step by blast
qed

theorem mutex_refines_witness: "\<exists>t. abstract_lock sample_type 0 (Some (0, 2)) (lock_of 2 t)"
proof -
  have "lock_of 2 sample_nested = Some (0, 2)" by (simp add: lock_of_def sample_nested_def upt_rec)
  moreover obtain t where t: "mutex_step sample_type sample_tid 2 0 sample_nested t" using sample_unlock by blast
  note mutex_refines [OF sample_reachable sample_tids t]
  ultimately show ?thesis by auto
qed

text \<open>C38.  Errors: of a mutex that tracks its owner (any but a normal one that is not robust), an unlock fails with EPERM exactly in the threads that do not hold it, and a timed lock
  fails with EDEADLK exactly when the mutex checks errors and the thread holds it already.\<close>

theorem mutex_errors:
  assumes "mutex_reachable ty tid n s" "tids_ok tid n" "i < n" "\<not> untracked ty"
  shows "(mutex_unlock_step ty (tid i) (Un_lock u) (depth s i) (m_lock s) w c = [(Ret EPERM, depth s i, m_lock s, w, c)] \<longleftrightarrow>
      depth s i = 0) \<and>
    (mutex_timedlock_step ty (tid i) Load (depth s i) (m_lock s) w c = [(Ret EDEADLK, depth s i, m_lock s, w, c)] \<longleftrightarrow>
      m_kind ty = Errorcheck \<and> 0 < depth s i)"
proof -
  have "owner (m_lock s) = tid i \<longleftrightarrow> 0 < depth s i"
    by (rule word_owner [OF mutex_reachable_word [OF assms(1,2)] assms(2,4,3)])
  moreover have "0 < tid i" using assms(2,3) by (simp add: tids_ok_def valid_tid_def)
  ultimately show ?thesis using assms(4) by auto
qed

theorem mutex_errors_witness:
  "mutex_unlock_step sample_type 1 (Un_lock 1) 0 0xbfffffff 1 1 = [(Ret EPERM, 0, 0xbfffffff, 1, 1)]"
  using mutex_errors [OF sample_reachable sample_tids, of 1 1 1 1] by (simp add: sample_nested_def untracked_def)

text \<open>C39.  No wake-up is lost: when a thread sleeps for the mutex and every thread is out of all calls, has ended or sleeps, so that none is
  under way, then some thread holds the mutex, or has died with it.\<close>

theorem mutex_no_lost_wakeup:
  assumes "mutex_reachable ty tid n s" "tids_ok tid n" "j < n" "sleeping (m_pcs s j)"
    and "\<forall>i < n. (\<exists>e. m_pcs s i = Ret e) \<or> m_pcs s i = Dead \<or> sleeping (m_pcs s i)"
  shows "(\<exists>i < n. 0 < depth s i) \<or> died (m_lock s)"
proof -
  note inv = mutex_reachable_inv [OF assms(1,2), unfolded mutex_inv_def]
  have quiet: "\<not> mutex_coming (m_pcs s i)" if "i < n" for i using assms(5) that by (auto simp: sleeping_iff)
  have "0 < num sleeping n (m_pcs s)" using num_pos assms(3,4) by blast
  moreover have "\<not> 0 < num mutex_coming n (m_pcs s)" using quiet num_pos by blast
  ultimately have l: "m_lock s \<noteq> 0" using inv by auto
  then have "free_ok ty (m_lock s) (m_count s) \<Longrightarrow> died (m_lock s)" by (auto simp: free_ok_def)
  then show ?thesis using word_free [OF mutex_reachable_word [OF assms(1,2)]] by (meson gr0I)
qed

theorem mutex_no_lost_wakeup_witness: "(\<exists>i < 2. 0 < depth sample_nested i) \<or> died (m_lock sample_nested)"
proof (rule mutex_no_lost_wakeup [OF sample_reachable sample_tids, of 1])
  show "\<forall>i<2. (\<exists>e. m_pcs sample_nested i = Ret e) \<or> m_pcs sample_nested i = Dead \<or> sleeping (m_pcs sample_nested i)"
    by (auto simp: sample_nested_def)
qed (simp_all add: sample_nested_def)

end
