(* ===== verification/Robust_List.thy ===== *)
theory Robust_List
  imports Mutex
begin

text \<open>
  The list of the mutexes that a thread holds (in libc-top-half/musl/src/thread: pthread_mutex_trylock.c links a mutex,
  pthread_mutex_unlock.c unlinks it, and __pthread_exit of pthread_create.c gives up those that are left).  It is circular and doubly
  linked; the thread itself has only the link \<open>head\<close>.  All of it is accessed by one thread only.
\<close>

section \<open>The links\<close>

text \<open>A pointer is \<open>&self->robust_list.head\<close> or the \<open>&m->_m_next\<close> of a mutex.\<close>

datatype link = Head | Node nat

record links =
  list_head :: link
  m_next :: "nat \<Rightarrow> link"
  m_prev :: "nat \<Rightarrow> link"

definition no_links :: links where
  "no_links = \<lparr>list_head = Head, m_next = (\<lambda>_. Head), m_prev = (\<lambda>_. Head)\<rparr>"

text \<open>\<open>*prev = next\<close>, and \<open>if (next != &self->robust_list.head) *(next - sizeof(void *)) = prev\<close>.\<close>

definition store_next :: "links \<Rightarrow> link \<Rightarrow> link \<Rightarrow> links" where
  "store_next L prev next = (case prev of
      Head \<Rightarrow> L\<lparr>list_head := next\<rparr>
    | Node k \<Rightarrow> L\<lparr>m_next := (m_next L)(k := next)\<rparr>)"

definition store_prev :: "links \<Rightarrow> link \<Rightarrow> link \<Rightarrow> links" where
  "store_prev L next prev = (case next of Head \<Rightarrow> L | Node k \<Rightarrow> L\<lparr>m_prev := (m_prev L)(k := prev)\<rparr>)"

definition link_mutex :: "nat \<Rightarrow> links \<Rightarrow> links" where
  "link_mutex m L =
     (let next = list_head L;
          L = L\<lparr>m_next := (m_next L)(m := next), m_prev := (m_prev L)(m := Head)\<rparr>;
          L = store_prev L next (Node m)
      in L\<lparr>list_head := Node m\<rparr>)"

definition unlink_mutex :: "nat \<Rightarrow> links \<Rightarrow> links" where
  "unlink_mutex m L =
     (let prev = m_prev L m; next = m_next L m in store_prev (store_next L prev next) next prev)"

text \<open>
  The loop of __pthread_exit, on the words \<open>_m_lock\<close> and \<open>_m_waiters\<close> of the mutexes; the last argument is the list of the mutexes
  for which a thread is woken.
\<close>

partial_function (option) exit_loop :: "(nat \<Rightarrow> nat) \<Rightarrow> links \<Rightarrow> (nat \<Rightarrow> nat) \<Rightarrow> nat list \<Rightarrow> ((nat \<Rightarrow> nat) \<times> nat list) option" where
  "exit_loop waiters L lock wakes = (case list_head L of
      Head \<Rightarrow> Some (lock, wakes)
    | Node m \<Rightarrow> exit_loop waiters (L\<lparr>list_head := m_next L m\<rparr>) (lock(m := DIED))
        (if WAITERS \<le> lock m \<or> waiters m \<noteq> 0 then wakes @ [m] else wakes))"

section \<open>The list that the links stand for\<close>

fun path :: "(nat \<Rightarrow> link) \<Rightarrow> link \<Rightarrow> nat list \<Rightarrow> link \<Rightarrow> bool" where
  "path nx x [] y \<longleftrightarrow> x = y"
| "path nx x (m # ms) y \<longleftrightarrow> x = Node m \<and> path nx (nx m) ms y"

fun back_links :: "(nat \<Rightarrow> link) \<Rightarrow> link \<Rightarrow> nat list \<Rightarrow> bool" where
  "back_links pv p [] \<longleftrightarrow> True"
| "back_links pv p (m # ms) \<longleftrightarrow> pv m = p \<and> back_links pv (Node m) ms"

definition listed :: "links \<Rightarrow> nat list \<Rightarrow> bool" where
  "listed L ms \<longleftrightarrow> path (m_next L) (list_head L) ms Head \<and> back_links (m_prev L) Head ms \<and> distinct ms"

lemma path_append: "path nx x (as @ bs) y \<longleftrightarrow> (\<exists>z. path nx x as z \<and> path nx z bs y)"
  by (induction as arbitrary: x) auto

lemma path_upd [simp]: "u \<notin> set as \<Longrightarrow> path (nx(u := v)) x as y = path nx x as y"
  by (induction as arbitrary: x) auto

lemma back_links_append:
  "back_links pv p (as @ bs) \<longleftrightarrow> back_links pv p as \<and> back_links pv (if as = [] then p else Node (last as)) bs"
  by (induction as arbitrary: p) auto

lemma back_links_upd [simp]: "u \<notin> set as \<Longrightarrow> back_links (pv(u := v)) p as = back_links pv p as"
  by (induction as arbitrary: p) auto

lemma no_links_listed: "listed no_links []"
  by (simp add: listed_def no_links_def)

text \<open>A list with another pointer before its first mutex.\<close>

lemma back_links_store:
  assumes "back_links (m_prev L) p ms" "path (m_next L) x ms Head" "distinct ms"
  shows "back_links (m_prev (store_prev L x q)) q ms" "m_next (store_prev L x q) = m_next L"
    "list_head (store_prev L x q) = list_head L" "\<And>as p. set as \<inter> set ms = {} \<Longrightarrow> back_links (m_prev (store_prev L x q)) p as = back_links (m_prev L) p as"
  using assms by (cases ms; auto simp: store_prev_def split: link.splits)+

lemma link_listed:
  assumes "listed L ms" "m \<notin> set ms"
  shows "listed (link_mutex m L) (m # ms)"
proof -
  let ?L = "L\<lparr>m_next := (m_next L)(m := list_head L), m_prev := (m_prev L)(m := Head)\<rparr>"
  have a: "back_links (m_prev ?L) Head ms" "path (m_next ?L) (list_head L) ms Head" "distinct ms"
    using assms by (simp_all add: listed_def)
  have "back_links (m_prev (store_prev ?L (list_head L) (Node m))) Head [m]"
    using back_links_store(4) [OF a, where q = "Node m" and as = "[m]" and p = Head] assms(2) by simp
  then show ?thesis using back_links_store(1,2) [OF a, where q = "Node m"] a assms(2)
    by (simp add: listed_def link_mutex_def Let_def)
qed

lemma unlink_listed:
  assumes "listed L (as @ m # bs)"
  shows "listed (unlink_mutex m L) (as @ bs)"
proof -
  let ?p = "if as = [] then Head else Node (last as)" and ?x = "m_next L m"
  have d: "distinct (as @ m # bs)" and b: "back_links (m_prev L) Head as" "m_prev L m = ?p" "back_links (m_prev L) (Node m) bs"
    using assms unfolding listed_def back_links_append by simp_all
  obtain z where z: "path (m_next L) (list_head L) as z" "z = Node m" "path (m_next L) ?x bs Head"
    using assms unfolding listed_def path_append by auto
  let ?L = "store_next L ?p ?x"
  have pv: "m_prev ?L = m_prev L" by (simp add: store_next_def)
  have nx: "path (m_next ?L) ?x bs Head"
    using z(3) d by (cases as rule: rev_cases) (auto simp: store_next_def)
  have hd: "path (m_next ?L) (list_head ?L) as ?x"
  proof (cases as rule: rev_cases)
    case (snoc cs a)
    then have "path (m_next L) (list_head L) cs (Node a)" using z(1) by (auto simp: path_append)
    then show ?thesis using snoc d by (auto simp: store_next_def path_append)
  qed (simp add: store_next_def)
  have bk: "back_links (m_prev ?L) (Node m) bs" using b(3) pv by simp
  note s = back_links_store [OF bk nx, where q = ?p]
  have db: "distinct bs" "set as \<inter> set bs = {}" using d by auto
  have "back_links (m_prev (store_prev ?L ?x ?p)) Head as" using s(4) [OF db] b(1) pv by simp
  moreover have "back_links (m_prev (store_prev ?L ?x ?p)) ?p bs" by (rule s(1) [OF db(1)])
  moreover have "path (m_next (store_prev ?L ?x ?p)) (list_head (store_prev ?L ?x ?p)) (as @ bs) Head"
    unfolding s(2) [OF db(1)] s(3) [OF db(1)] path_append using hd nx by blast
  ultimately show ?thesis using d unfolding listed_def unlink_mutex_def Let_def b(2) back_links_append by simp
qed

lemma exit_loop_listed:
  assumes "path (m_next L) (list_head L) ms Head" "distinct ms"
  shows "exit_loop waiters L lock wakes =
    Some (\<lambda>m. if m \<in> set ms then DIED else lock m, wakes @ filter (\<lambda>m. WAITERS \<le> lock m \<or> waiters m \<noteq> 0) ms)"
  using assms
proof (induction ms arbitrary: L lock wakes)
  case Nil
  then show ?case by (subst exit_loop.simps) simp
next
  case (Cons m ms)
  have eq: "filter (\<lambda>k. WAITERS \<le> (lock(m := DIED)) k \<or> waiters k \<noteq> 0) ms = filter (\<lambda>k. WAITERS \<le> lock k \<or> waiters k \<noteq> 0) ms"
    using Cons.prems(2) by (intro filter_cong) auto
  have "path (m_next (L\<lparr>list_head := m_next L m\<rparr>)) (list_head (L\<lparr>list_head := m_next L m\<rparr>)) ms Head" using Cons.prems(1) by simp
  note ih = Cons.IH [OF this, of "lock(m := DIED)"]
  have "exit_loop waiters L lock wakes = exit_loop waiters (L\<lparr>list_head := m_next L m\<rparr>) (lock(m := DIED))
      (if WAITERS \<le> lock m \<or> waiters m \<noteq> 0 then wakes @ [m] else wakes)"
    by (subst exit_loop.simps) (use Cons.prems(1) in simp)
  then show ?case using Cons.prems(2) unfolding ih [OF distinct.simps(2) [THEN iffD1, OF Cons.prems(2), THEN conjunct2]] eq
    by (auto simp: fun_eq_iff)
qed

section \<open>What a thread does with its list\<close>

text \<open>It takes mutexes that it does not hold, and gives back mutexes that it holds.\<close>

datatype list_op = Take nat | Give nat

fun do_op :: "list_op \<Rightarrow> links \<Rightarrow> links" where
  "do_op (Take m) = link_mutex m"
| "do_op (Give m) = unlink_mutex m"

fun held_after :: "list_op list \<Rightarrow> nat list \<Rightarrow> nat list option" where
  "held_after [] ms = Some ms"
| "held_after (Take m # ops) ms = (if m \<in> set ms then None else held_after ops (m # ms))"
| "held_after (Give m # ops) ms = (if m \<in> set ms then held_after ops (remove1 m ms) else None)"

lemma ops_listed: "listed L ms \<Longrightarrow> held_after ops ms = Some hs \<Longrightarrow> listed (fold do_op ops L) hs"
proof (induction ops ms arbitrary: L rule: held_after.induct)
  case (2 m ops ms)
  then show ?case using link_listed [of L ms m] by (simp split: if_splits)
next
  case (3 m ops ms)
  then have "m \<in> set ms" by (simp split: if_splits)
  then obtain as bs where s: "ms = as @ m # bs" "m \<notin> set as" by (metis split_list_first)
  then have "remove1 m ms = as @ bs" by (simp add: remove1_append)
  then show ?case using 3 unlink_listed [of L as m bs] s(1) by simp
qed simp

text \<open>C40.  A thread that ends after taking and giving back mutexes in any order leaves exactly the ones that it still holds marked as given up by
  a dead owner, and wakes a waiter of each of them that has one; the links never go astray, and the loop ends.\<close>

theorem robust_list_exit:
  assumes "held_after ops [] = Some ms"
  shows "exit_loop waiters (fold do_op ops no_links) lock [] =
    Some (\<lambda>m. if m \<in> set ms then DIED else lock m, filter (\<lambda>m. WAITERS \<le> lock m \<or> waiters m \<noteq> 0) ms)"
proof -
  have "listed (fold do_op ops no_links) ms" by (rule ops_listed [OF no_links_listed assms])
  then show ?thesis using exit_loop_listed [of "fold do_op ops no_links" ms waiters lock "[]"] by (simp add: listed_def)
qed

theorem robust_list_exit_witness:
  "exit_loop (\<lambda>m. if m = 3 then 1 else 0) (fold do_op [Take 1, Take 2, Take 3, Give 2] no_links) (\<lambda>_. 5) [] =
    Some (\<lambda>m. if m \<in> set [3, 1] then DIED else 5, filter (\<lambda>m. WAITERS \<le> 5 \<or> (if m = 3 then 1 else 0 :: nat) \<noteq> 0) [3, 1])"
  by (rule robust_list_exit) simp

end
