(* ===== verification/Spec2Isabelle.thy ===== *)
theory Spec2Isabelle
  imports Mman_Theorems Preopens Dirent_Theorems Posix_Theorems
    Tsearch_Theorems Hsearch_Theorems Utf8_Theorems Calendar_Theorems Environ_Theorems
    Utf8_Strings_Theorems Futex Rwlock_Theorems Semaphore Once Dns_Theorems Intscan_Theorems Qsort_Theorems
    Mem_Copy_Properties Strings_Theorems Mutex_Theorems Robust_List
begin

text \<open>
  Verification of wasix-libc, the C library of WASIX programs.

  The library has two halves.  The bottom half (libc-bottom-half) turns the calls of POSIX into the imports of
  the host: cloudlibc wraps the system calls one by one, and sources/ and mman/ emulate what the host
  does not have, a working directory over preopened directories, sbrk and mmap.  The top half
  (libc-top-half/musl) is musl, which is the C library proper and needs no host except through
  the bottom half.  The machine is wasm32: size_t, long and pointers have 32 bits, time_t and off_t 64.

  \<^bold>\<open>Conventions.\<close>  Prelude has the arithmetic of size_t (\<open>szadd\<close>, \<open>szsub\<close>, \<open>szmul\<close> wrap), the errors, C strings and
  arrays as lists.  A call that fails with errno is \<open>Inl e\<close> of a sum, or a pair with an optional error where
  a value is returned as well.  Where C leaves the effect undefined, traps, or does not return, the result of a definition
  is \<open>None\<close>, so that a theorem with \<open>Some\<close> shows that none of this happens.  Imports of the host, malloc and callbacks are
  parameters, most of them fields of a record (\<open>mman_host\<close>, \<open>wasi\<close>, \<open>libc\<close>).  Concurrent objects are inductive step relations, one
  access to shared memory per step, in which any number of threads run interleaved.

  \<^bold>\<open>The mmap emulation\<close> (mman/mman.c, sources/sbrk.c).  Linear_Memory has pages and sbrk; Mman_Table the table of regions
  and its binary search; Mman_Unmap the unmapping with the reference counts of files, the writing back and the
  coalescing; Mman_Map mmap, munmap and msync.  Mman_Unmap_Laws, Mman_Range and Mman_Laws show the invariant (a sorted, disjoint,
  coalesced table whose references are counted) and the effect on the set of mapped addresses; Mman_Calls,
  Mman_Spec and Mman_Properties the contracts of the calls; Mman_Theorems has the properties with a run on a concrete host.
  Address_Space is the interface that such an emulation provides.  The loops over pread and pwrite have fuel for K + 1 calls per byte
  of the address space, where a signal may interrupt a call up to K times in a row.

  \<^bold>\<open>Paths\<close> (sources/preopens.c, chdir.c, getcwd.c, posix.c, at_fdcwd.c).  Preopens has the table of preopened directories, its lock
  and the lookup by prefix; Path_Names what a path denotes, as a list of names, apart from the code; Paths the working directory and the
  relative path in a static buffer; Posix_Paths the calls that take paths.  Posix_Theorems states the lookup as an interface,
  which both buffers provide, and what the calls ask of the host, which denotes the same names as the path.

  \<^bold>\<open>System calls\<close> (cloudlibc).  Timestamps has the conversions of time; Wasi_Files the calls on files, descriptors and
  clocks, with the rights that openat asks for; Dirent directory streams.  The loops of Dirent that only the host can end have
  \<open>fuel\<close>; in Dirent_Theorems three rounds are enough for a readdir, which refills or enlarges its buffer at most twice; the cookies of the host are
  any numbers.

  \<^bold>\<open>Searching\<close> (musl/src/search).  Tsearch has the AVL trees with the array of pointers to links as a list of frames,
  Hsearch the hash table.  Key_Store is the interface of both; Tsearch_Theorems and Hsearch_Theorems interpret it, and show
  that the array is long enough, that probing ends, and that growing keeps the contents.

  \<^bold>\<open>Sorting\<close> (musl/src/stdlib/qsort.c).  Qsort has smoothsort on bytes, offsets and a bit set in two words.  Leonardo and
  Smoothsort have the algorithm on an array that is a function, with trees as intervals of indices: sifting makes a heap, trinkling orders
  the roots.  Qsort_Bits shows that the bit set holds the orders of the trees, Qsort_Memory that moving bytes in chunks moves elements,
  Qsort_Refine that the code does what the abstract algorithm does; Qsort_Theorems concludes.  Up to \<open>leo 33\<close> elements no shift reaches 32.

  \<^bold>\<open>Characters, numbers and time\<close> (musl/src/multibyte, internal/intscan.c, stdlib/strtol.c, time).  Utf8 has the decoder with its table and
  the encoder, and Utf8_Theorems compares both with the arithmetic of RFC 3629.  Utf8_Strings has the conversions of whole strings, with
  memory a function from addresses to bytes and a wide string a list; Utf8_Strings_Theorems compares them with converting
  one character after the other.  Intscan has the scanning of integers with the six functions
  of strtol.c, and Intscan_Theorems the value of any number of digits.  Calendar has the conversions of UTC, and
  Calendar_Theorems their relation with the Gregorian calendar.

  \<^bold>\<open>Memory and strings\<close> (musl/src/string).  Byte_Memory has memory as a partial map, in which an access is checked for being mapped
  and aligned.  Mem_Copy has memset, memcpy and memmove with their words and shifts; Mem_Copy_Theorems, Mem_Copy_Moves and
  Mem_Copy_Properties show that every one writes exactly its range.  Strings has the searches, comparisons, copies and tokenizers;
  Strings_Theorems the test for a zero byte in a word and the searches that use it.

  \<^bold>\<open>The environment\<close> (sources/__wasilibc_initialize_environ.c, musl/src/env).  Environ has the array of pointers, the live strings, those that
  setenv owns and the freed arrays; to read a freed string, or to free one twice, is an outcome (\<open>Bad_string\<close>).  Environ_Theorems has the
  map that the environment stands for, and shows that this outcome is not reached unless putenv is given a string that setenv owns.

  \<^bold>\<open>Domain names\<close> (musl/src/network/dn_*.c, dns_parse.c).  Dns has the expansion and compression of names and the walk
  through a reply.  The round limit of dn_expand is that of the code; getoffs, which has none, gets a round per byte of the message, enough
  where every name ends within half of them, as those that dn_comp writes do.  Dns_Theorems has the names of RFC 1035 as a relation.

  \<^bold>\<open>Threads\<close> (musl/src/thread, sources/__wasilibc_futex.c).  Futex has the deadline arithmetic of waiting; Mutex, Rwlock, Semaphore and
  Once are step relations.  Robust_List has the list of the mutexes that a thread holds, whose links only that thread accesses, so
  that they are no part of the interleaving.  Threads counts threads and has the interface of an invariant of a step relation.  The theorems are about mutual
  exclusion, the meaning of the shared words, and wake-ups that are not lost.  The IDs of threads are those of the host and that of
  the main thread, \<open>0x3fffffff\<close> (\<open>tids_ok\<close>).

  \<^bold>\<open>Not modelled\<close>: the allocators, which are third-party code; generated declarations and shims; start-up, linking, processes and
  signals, which do not return to the library; sockets and polling; regular expressions, wide
  strings, the search for substrings, streams and formatted output; floating
  point; locales and character sets; condition variables, barriers and the creation of threads; and the parts of musl for other machines.
\<close>

end
